(* ===== verification/Prelude.thy ===== *)
theory Prelude
  imports Main "HOL-Library.Word" "HOL-Library.Monad_Syntax"
begin

text \<open>
  Shared vocabulary of the development: the machine integer types of the library's C code
  (a 32 bit target, so \<open>unsigned int\<close>, \<open>sec_t\<close> and \<open>size_t\<close> are all 32 bit words), memory
  blocks as lists with checked reads and writes, and the lemmas about them that every
  component shares.

  Every operation of the model that can touch memory or loop returns an \<open>option\<close>: \<open>None\<close> means
  that the C code has no defined outcome (an access outside a memory block, a division by zero,
  or a loop that never ends). Failures the C code reports itself (\<open>false\<close>, \<open>NULL\<close>, an
  error code) are ordinary results inside the \<open>Some\<close>. A theorem that an operation returns
  \<open>Some\<close> therefore states memory safety and termination.
\<close>

unbundle bit_operations_syntax

section \<open>Machine types\<close>

type_synonym u8 = "8 word"
type_synonym u16 = "16 word"
type_synonym u32 = "32 word"
type_synonym u64 = "64 word"
type_synonym sec_t = "32 word"

abbreviation UINT_MAX :: u32 where
  "UINT_MAX \<equiv> 0xFFFFFFFF"

named_theorems mem_simps \<open>reads and writes of memory blocks\<close>
named_theorems geom_simps \<open>fields that an operation leaves alone\<close>

section \<open>Memory blocks\<close>

text \<open>\<open>slice\<close> and \<open>splice\<close> are the unchecked accesses used in specifications; \<open>peek\<close> and
  \<open>poke\<close> model \<open>memcpy\<close> from and to a block, undefined outside it.\<close>

definition slice :: "'a list \<Rightarrow> nat \<Rightarrow> nat \<Rightarrow> 'a list" where
  "slice b off n = take n (drop off b)"

definition splice :: "'a list \<Rightarrow> nat \<Rightarrow> 'a list \<Rightarrow> 'a list" where
  "splice b off d = take off b @ d @ drop (off + length d) b"

definition peek :: "'a list \<Rightarrow> nat \<Rightarrow> nat \<Rightarrow> 'a list option" where
  "peek b off n = (if off + n \<le> length b then Some (slice b off n) else None)"

definition poke :: "'a list \<Rightarrow> nat \<Rightarrow> 'a list \<Rightarrow> 'a list option" where
  "poke b off d = (if off + length d \<le> length b then Some (splice b off d) else None)"

lemma length_slice [simp]: "length (slice b off n) = min n (length b - off)"
  by (simp add: slice_def)

lemma nth_slice [mem_simps]: "i < n \<Longrightarrow> off + i < length b \<Longrightarrow> slice b off n ! i = b ! (off + i)"
  by (simp add: slice_def)

lemma length_splice [simp]:
  "off + length d \<le> length b \<Longrightarrow> length (splice b off d) = length b"
  by (simp add: splice_def)

lemma nth_splice [mem_simps]:
  assumes "off + length d \<le> length b" and "i < length b"
  shows "splice b off d ! i
    = (if off \<le> i \<and> i < off + length d then d ! (i - off) else b ! i)"
  using assms by (auto simp: splice_def nth_append min_def)

lemma slice_all [simp]: "slice b 0 (length b) = b"
  by (simp add: slice_def)

lemma slice_whole [mem_simps]: "length b = n \<Longrightarrow> slice b 0 n = b"
  by (simp add: slice_def)

lemma slice_slice [mem_simps]:
  "i + m \<le> n \<Longrightarrow> slice (slice b off n) i m = slice b (off + i) m"
  by (simp add: slice_def take_drop min_def add.commute add.left_commute)

lemma slice_splice_same [mem_simps]:
  assumes "off + length d \<le> length b"
  shows "slice (splice b off d) off (length d) = d"
  using assms by (simp add: slice_def splice_def)

lemma slice_splice_before [mem_simps]:
  assumes "off + length d \<le> length b" and "o' + n \<le> off"
  shows "slice (splice b off d) o' n = slice b o' n"
  using assms by (intro nth_equalityI) (auto simp: nth_slice nth_splice)

lemma slice_splice_after [mem_simps]:
  assumes "off + length d \<le> length b" and "off + length d \<le> o'"
  shows "slice (splice b off d) o' n = slice b o' n"
  using assms by (intro nth_equalityI) (auto simp: nth_slice nth_splice)

lemma slice_splice_inside:
  assumes "off + length d \<le> length b" and "o' \<le> off" and "off + length d \<le> o' + n"
    and "o' + n \<le> length b"
  shows "slice (splice b off d) o' n = splice (slice b o' n) (off - o') d"
  using assms by (intro nth_equalityI) (auto simp: nth_slice nth_splice add.commute)

lemma slice_splice_within [mem_simps]:
  assumes "off + length d \<le> length b" and "off \<le> o'" and "o' + n \<le> off + length d"
  shows "slice (splice b off d) o' n = slice d (o' - off) n"
  using assms by (intro nth_equalityI) (auto simp: nth_slice nth_splice)

lemma splice_splice_nested:
  assumes "off + length z \<le> length b" and "o' + length d \<le> length z"
  shows "splice (splice b off z) (off + o') d = splice b off (splice z o' d)"
  using assms by (intro nth_equalityI) (auto simp: nth_splice)

lemma splice_splice_append:
  "o' + length d + length e \<le> length b \<Longrightarrow> splice (splice b o' d) (o' + length d) e = splice b o' (d @ e)"
  by (intro nth_equalityI) (auto simp: nth_splice nth_append)

lemma slice_add: "slice b off (n + m) = slice b off n @ slice b (off + n) m"
  by (simp add: slice_def take_add) (simp add: add.commute)

lemma splice_full [mem_simps]: "length d = length b \<Longrightarrow> splice b 0 d = d"
  by (simp add: splice_def)

lemma splice_Nil [mem_simps]: "splice b off [] = b"
  by (simp add: splice_def)

lemma peek_Some [mem_simps]: "off + n \<le> length b \<Longrightarrow> peek b off n = Some (slice b off n)"
  by (simp add: peek_def)

lemma poke_Some [mem_simps]:
  "off + length d \<le> length b \<Longrightarrow> poke b off d = Some (splice b off d)"
  by (simp add: poke_def)

lemma poke_None: "poke b off d = None \<longleftrightarrow> length b < off + length d"
  by (auto simp: poke_def)

lemma peek_None: "peek b off n = None \<longleftrightarrow> length b < off + n"
  by (auto simp: peek_def)

lemma ball_list_update: "\<forall>x \<in> set xs. P x \<Longrightarrow> P y \<Longrightarrow> \<forall>x \<in> set (xs[i := y]). P x"
  using set_update_subset_insert [of xs i y] by blast

section \<open>Words\<close>

lemma unat_lt_2p32: "unat (x :: u32) < 4294967296"
  using unsigned_less [of x] by simp

lemma unsigned_max_top: "(x :: u32) \<le> UINT_MAX"
  using unat_lt_2p32 [of x] by (simp add: word_le_nat_alt)

lemma UINT_MAX_top [simp]: "(x :: u32) \<le> UINT_MAX"
  by (rule unsigned_max_top)

lemma unat_UINT_MAX [simp]: "unat UINT_MAX = 4294967295"
  by simp

lemma unat_add_small:
  fixes a b :: u32
  assumes "unat a + unat b < 2 ^ 32"
  shows "unat (a + b) = unat a + unat b"
  using assms by (simp add: unat_word_ariths)

lemma unat_mult_small:
  fixes a b :: u32
  assumes "unat a * unat b < 2 ^ 32"
  shows "unat (a * b) = unat a * unat b"
  using assms by (simp add: unat_word_ariths)

lemma unat_sub_le:
  fixes a b :: u32
  assumes "unat b \<le> unat a"
  shows "unat (a - b) = unat a - unat b"
  using assms by (simp add: unat_sub word_le_nat_alt)

lemma unat_div_word: "unat ((a :: u32) div b) = unat a div unat b"
  by (simp add: unat_div)

lemma unat_mod_word: "unat ((a :: u32) mod b) = unat a mod unat b"
  by (simp add: unat_mod)

text \<open>Rounding down to a multiple, as the cache aligns sectors to pages.\<close>

lemma unat_align_down:
  fixes s n :: u32
  shows "unat ((s div n) * n) = unat s div unat n * unat n"
proof -
  have "unat s div unat n * unat n \<le> unat s"
    by simp
  also have "\<dots> < 2 ^ 32"
    using unat_lt_2p32 [of s] by simp
  finally show ?thesis
    by (simp add: unat_mult_small unat_div_word)
qed

lemma word_eq_iff_unat_eq: "(a :: u32) = b \<longleftrightarrow> unat a = unat b"
  by (rule word_unat_eq_iff)

text \<open>Distances inside a range of sectors that does not wrap around.\<close>

lemma sector_in_range:
  fixes s t :: u32
  assumes "unat s \<le> unat t"
  shows "t = s + of_nat (unat t - unat s)"
proof -
  have "of_nat (unat t - unat s) = (of_nat (unat t) :: u32) - of_nat (unat s)"
    using assms by (rule of_nat_diff)
  then show ?thesis by simp
qed

lemma unat_offset:
  fixes s :: u32
  assumes "unat s + k < 2 ^ 32"
  shows "unat (s + of_nat k) = unat s + k"
proof -
  have "unat (of_nat k :: u32) = k"
    using assms by (simp add: unsigned_of_nat take_bit_nat_eq_self_iff)
  with assms show ?thesis by (simp add: unat_add_small)
qed

text \<open>Bit operations as arithmetic, and remainders inside a block.\<close>

lemma div_mod_within:
  fixes k :: nat
  assumes "k mod b + i < b"
  shows "(k + i) div b = k div b" and "(k + i) mod b = k mod b + i"
proof -
  have eq: "(k mod b + i) + (k div b) * b = k + i"
    using div_mult_mod_eq [of k b] by linarith
  have "(a + q * b) div b = q" "(a + q * b) mod b = a" if "a < b" for a q
    using that by simp_all
  from this [OF assms, of "k div b"] show "(k + i) div b = k div b" and "(k + i) mod b = k mod b + i"
    by (simp_all only: eq)
qed

lemma mod_room:
  fixes k b n :: nat
  assumes "n dvd b" and "n dvd k" and "0 < b"
  shows "k mod b + n \<le> b"
proof -
  obtain q where q: "b = n * q" using assms(1) by (auto simp: dvd_def)
  obtain r where r: "k = n * r" using assms(2) by (auto simp: dvd_def)
  have "r mod q < q" using q assms(3) by (cases q) auto
  then have "n * (r mod q + 1) \<le> n * q" by (intro mult_le_mono2) simp
  moreover have "k mod b = n * (r mod q)" unfolding q r by (rule mult_mod_right [symmetric])
  ultimately show ?thesis unfolding q by (simp only: add_mult_distrib2 mult_1_right)
qed

lemma unat_push_small:
  fixes c :: u32
  assumes "2 ^ n * unat c < 2 ^ 32"
  shows "unat (push_bit n c) = 2 ^ n * unat c"
proof -
  have "unat (push_bit n c) = take_bit 32 (push_bit n (unat c))"
    by (simp only: unsigned_push_bit_eq) simp
  also have "\<dots> = push_bit n (unat c)"
    using assms by (simp only: take_bit_nat_eq_self_iff push_bit_eq_mult mult.commute)
  finally show ?thesis by (simp only: push_bit_eq_mult mult.commute)
qed

lemma unat_drop_word: "unat (drop_bit n (x :: u32)) = unat x div 2 ^ n"
proof -
  have "unat (drop_bit n x) = drop_bit n (take_bit 32 (unat x))"
    by (simp only: unsigned_drop_bit_eq) simp
  also have "take_bit 32 (unat x) = unat x"
    using unat_lt_2p32 [of x] by (simp add: take_bit_nat_eq_self_iff)
  finally show ?thesis by (simp only: drop_bit_eq_div)
qed

lemma word_eqI_unat: "unat (a :: u32) = unat b \<Longrightarrow> a = b"
  by (simp add: word_eq_iff_unat_eq)

lemma unat_of_small: "n < 2 ^ 32 \<Longrightarrow> unat (of_nat n :: u32) = n"
  by (simp add: unsigned_of_nat take_bit_nat_eq_self)

lemma word_masks:
  "(0xFF :: u32) = mask 8" "(0x0F :: u32) = mask 4" "(0xF0 :: u32) = push_bit 4 (mask 4)" "(0x0FFF :: u32) = mask 12"
  by (simp_all add: mask_eq_exp_minus_1)

lemma odd_word: "(c :: u32) AND 1 \<noteq> 0 \<longleftrightarrow> odd (unat c)"
  by (simp add: and_one_eq odd_iff_mod_2_eq_one word_eq_iff_unat_eq unat_mod_word)

section \<open>Outcomes\<close>

text \<open>Two facts about the \<open>option\<close> sequencing of the operations, for stepping through a model
  whose first operation has a known outcome.\<close>

lemma bind_step: "f = Some x \<Longrightarrow> f \<bind> g = g x"
  by simp

lemma bind_SomeE:
  assumes "f \<bind> g = Some y"
  obtains x where "f = Some x" and "g x = Some y"
  using assms by (auto simp: bind_eq_Some_conv)

end
