(* ===== verification/Disc.thy ===== *)
theory Disc
  imports Prelude
begin

text \<open>
  The disc interface of \<open>source/disc.h\<close> and \<open>source/common.h\<close>. The driver behind
  \<open>DISC_INTERFACE\<close> is not part of the library: its functions are fields of a record, over a
  private driver state \<open>'d\<close>, and every operation of the model that reaches the disc calls
  them. What a theorem needs of the driver is stated by the predicates \<open>disc_ok\<close> (a successful
  transfer moves the sectors it was asked for, no transfer touches other sectors),
  \<open>disc_reliable\<close> (transfers inside a range do not fail) and \<open>disc_quiet\<close> (a failed read
  leaves the buffer alone), all over an abstract contents function \<open>med\<close>.
\<close>

section \<open>Model\<close>

text \<open>\<open>readSectors\<close> returns the success flag, the bytes it stored at the start of the buffer
  and the new driver state; a failed read may have stored some bytes too. \<open>writeSectors\<close> gets
  the bytes behind the buffer pointer, at least \<open>numSectors\<close> sectors of them.\<close>

record 'd disc_interface =
  ioType :: u32
  features :: u32
  startup :: "'d \<Rightarrow> bool \<times> 'd"
  isInserted :: "'d \<Rightarrow> bool \<times> 'd"
  readSectors :: "'d \<Rightarrow> sec_t \<Rightarrow> u32 \<Rightarrow> bool \<times> u8 list \<times> 'd"
  writeSectors :: "'d \<Rightarrow> sec_t \<Rightarrow> u32 \<Rightarrow> u8 list \<Rightarrow> bool \<times> 'd"
  clearStatus :: "'d \<Rightarrow> bool \<times> 'd"
  shutdown :: "'d \<Rightarrow> bool \<times> 'd"

definition FEATURE_MEDIUM_CANREAD :: u32 where
  "FEATURE_MEDIUM_CANREAD = 1"

definition FEATURE_MEDIUM_CANWRITE :: u32 where
  "FEATURE_MEDIUM_CANWRITE = 2"

definition FAT_disc_isInserted :: "'d disc_interface \<Rightarrow> 'd \<Rightarrow> bool \<times> 'd" where
  "FAT_disc_isInserted disc m = isInserted disc m"

definition FAT_disc_readSectors ::
    "'d disc_interface \<Rightarrow> 'd \<Rightarrow> sec_t \<Rightarrow> u32 \<Rightarrow> bool \<times> u8 list \<times> 'd" where
  "FAT_disc_readSectors disc m sector numSectors = readSectors disc m sector numSectors"

definition FAT_disc_writeSectors ::
    "'d disc_interface \<Rightarrow> 'd \<Rightarrow> sec_t \<Rightarrow> u32 \<Rightarrow> u8 list \<Rightarrow> bool \<times> 'd" where
  "FAT_disc_writeSectors disc m sector numSectors buffer = writeSectors disc m sector numSectors buffer"

definition FAT_disc_startup :: "'d disc_interface \<Rightarrow> 'd \<Rightarrow> bool \<times> 'd" where
  "FAT_disc_startup disc m = startup disc m"

definition FAT_disc_hostType :: "'d disc_interface \<Rightarrow> u32" where
  "FAT_disc_hostType disc = ioType disc"

definition FAT_disc_features :: "'d disc_interface \<Rightarrow> u32" where
  "FAT_disc_features disc = features disc"

section \<open>What a driver promises\<close>

definition in_range :: "sec_t \<Rightarrow> u32 \<Rightarrow> sec_t \<Rightarrow> bool" where
  "in_range s n t \<longleftrightarrow> unat s \<le> unat t \<and> unat t < unat s + unat n"

definition sectors_of :: "(sec_t \<Rightarrow> u8 list) \<Rightarrow> sec_t \<Rightarrow> nat \<Rightarrow> u8 list" where
  "sectors_of f s n = concat (map (\<lambda>i. f (s + of_nat i)) [0..<n])"

definition disc_ok :: "'d disc_interface \<Rightarrow> ('d \<Rightarrow> sec_t \<Rightarrow> u8 list) \<Rightarrow> nat \<Rightarrow> bool" where
  "disc_ok disc med bps \<longleftrightarrow>
     (\<forall>m s. length (med m s) = bps) \<and>
     (\<forall>m s n ok data m'. readSectors disc m s n = (ok, data, m') \<longrightarrow>
        med m' = med m \<and>
        (if ok then unat s + unat n \<le> 2 ^ 32 \<longrightarrow> data = sectors_of (med m) s (unat n)
         else length data \<le> unat n * bps)) \<and>
     (\<forall>m s n buf ok m'. writeSectors disc m s n buf = (ok, m') \<longrightarrow>
        unat n * bps \<le> length buf \<longrightarrow> unat s + unat n \<le> 2 ^ 32 \<longrightarrow>
        (\<forall>t. \<not> in_range s n t \<longrightarrow> med m' t = med m t) \<and>
        (ok \<longrightarrow> (\<forall>i < unat n. med m' (s + of_nat i) = slice buf (i * bps) bps)))"

definition disc_reliable :: "'d disc_interface \<Rightarrow> nat \<Rightarrow> bool" where
  "disc_reliable disc limit \<longleftrightarrow>
     (\<forall>m s n. 0 < unat n \<longrightarrow> unat s + unat n \<le> limit \<longrightarrow>
        fst (readSectors disc m s n) \<and> (\<forall>buf. fst (writeSectors disc m s n buf)))"

lemma disc_reliableD:
  assumes "disc_reliable disc limit" and "0 < unat n" and "unat s + unat n \<le> limit"
  shows "fst (readSectors disc m s n)" and "fst (writeSectors disc m s n buf)"
  using assms unfolding disc_reliable_def by blast+

definition disc_quiet :: "'d disc_interface \<Rightarrow> bool" where
  "disc_quiet disc \<longleftrightarrow> (\<forall>m s n data m'. readSectors disc m s n = (False, data, m') \<longrightarrow> data = [])"

section \<open>Runs of sectors\<close>

lemma sectors_of_0 [simp]: "sectors_of f s 0 = []"
  by (simp add: sectors_of_def)

lemma sectors_of_Suc: "sectors_of f s (Suc n) = sectors_of f s n @ f (s + of_nat n)"
  by (simp add: sectors_of_def)

lemma sectors_of_add:
  "sectors_of f s (n + m) = sectors_of f s n @ sectors_of f (s + of_nat n) m"
  by (induction m) (simp_all add: sectors_of_Suc add.assoc)

lemma length_sectors_of:
  assumes "\<And>t. length (f t) = bps"
  shows "length (sectors_of f s n) = n * bps"
  using assms by (induction n) (simp_all add: sectors_of_Suc)

lemma slice_sectors_of:
  assumes len: "\<And>t. length (f t) = bps" and "i < n"
  shows "slice (sectors_of f s n) (i * bps) bps = f (s + of_nat i)"
proof -
  have "sectors_of f s n = sectors_of f s i @ f (s + of_nat i) @
      sectors_of f (s + of_nat (Suc i)) (n - Suc i)"
    using sectors_of_add [of f s "Suc i" "n - Suc i"] \<open>i < n\<close> by (simp add: sectors_of_Suc)
  then show ?thesis
    by (simp add: slice_def length_sectors_of [OF len] len)
qed

lemma sectors_of_cong:
  assumes "\<And>i. i < n \<Longrightarrow> f (s + of_nat i) = g (s + of_nat i)"
  shows "sectors_of f s n = sectors_of g s n"
  using assms unfolding sectors_of_def by (intro arg_cong [where f = concat] map_cong) auto

section \<open>Consequences of the promises\<close>

lemma disc_ok_length: "disc_ok disc med bps \<Longrightarrow> length (med m s) = bps"
  by (simp add: disc_ok_def)

lemma disc_read:
  assumes "disc_ok disc med bps" and "readSectors disc m s n = (ok, data, m')"
  shows "med m' = med m"
    and "ok \<Longrightarrow> unat s + unat n \<le> 2 ^ 32 \<Longrightarrow> data = sectors_of (med m) s (unat n)"
    and "\<not> ok \<Longrightarrow> length data \<le> unat n * bps"
  using assms unfolding disc_ok_def by (metis (full_types))+

lemma disc_write:
  assumes "disc_ok disc med bps" and "writeSectors disc m s n buf = (ok, m')"
    and "unat n * bps \<le> length buf" and "unat s + unat n \<le> 2 ^ 32"
  shows "\<not> in_range s n t \<Longrightarrow> med m' t = med m t"
    and "ok \<Longrightarrow> i < unat n \<Longrightarrow> med m' (s + of_nat i) = slice buf (i * bps) bps"
  using assms unfolding disc_ok_def by (metis (full_types))+

end
