(* ===== verification/BitOps.thy ===== *)
theory BitOps
  imports Prelude
begin

text \<open>
  Little endian integers in byte arrays: \<open>source/bit_ops.h\<close>. The program calls the
  readers and writers with constant offsets inside arrays of a fixed size, so they are modelled
  as total functions. Each writer is inverted by its reader and leaves the other bytes alone.
\<close>

section \<open>Model\<close>

definition u8array_to_u16 :: "u8 list \<Rightarrow> nat \<Rightarrow> u16" where
  "u8array_to_u16 item offset =
     ucast (item ! offset) OR push_bit 8 (ucast (item ! (offset + 1)))"

definition u8array_to_u32 :: "u8 list \<Rightarrow> nat \<Rightarrow> u32" where
  "u8array_to_u32 item offset =
     ucast (item ! offset) OR push_bit 8 (ucast (item ! (offset + 1)))
     OR push_bit 16 (ucast (item ! (offset + 2))) OR push_bit 24 (ucast (item ! (offset + 3)))"

definition u16_to_u8array :: "u8 list \<Rightarrow> nat \<Rightarrow> u16 \<Rightarrow> u8 list" where
  "u16_to_u8array item offset value =
     item[offset := ucast value, offset + 1 := ucast (drop_bit 8 value)]"

definition u32_to_u8array :: "u8 list \<Rightarrow> nat \<Rightarrow> u32 \<Rightarrow> u8 list" where
  "u32_to_u8array item offset value =
     item[offset := ucast value, offset + 1 := ucast (drop_bit 8 value),
          offset + 2 := ucast (drop_bit 16 value), offset + 3 := ucast (drop_bit 24 value)]"

section \<open>Bits of the pieces\<close>

lemma u16_join: "(ucast (ucast v :: u8) :: u16) OR push_bit 8 (ucast (ucast (drop_bit 8 v) :: u8)) = v"
  by (rule bit_word_eqI) (auto simp: bit_simps)

lemma u32_join:
  "(ucast (ucast v :: u8) :: u32) OR push_bit 8 (ucast (ucast (drop_bit 8 v) :: u8))
     OR push_bit 16 (ucast (ucast (drop_bit 16 v) :: u8))
     OR push_bit 24 (ucast (ucast (drop_bit 24 v) :: u8)) = v" (is "?l = v")
proof (rule bit_word_eqI)
  fix n assume "n < LENGTH(32)"
  then consider "n < 8" | "8 \<le> n" "n < 16" | "16 \<le> n" "n < 24" | "24 \<le> n" "n < 32"
    by fastforce
  then show "bit ?l n = bit v n"
    by cases (auto simp: bit_simps)
qed

section \<open>Frames\<close>

lemma length_u16_to_u8array [simp]: "length (u16_to_u8array b i v) = length b"
  by (simp add: u16_to_u8array_def)

lemma length_u32_to_u8array [simp]: "length (u32_to_u8array b i v) = length b"
  by (simp add: u32_to_u8array_def)

lemma u8array_to_u16_cong:
  assumes "a ! i = b ! i" and "a ! (i + 1) = b ! (i + 1)"
  shows "u8array_to_u16 a i = u8array_to_u16 b i"
  using assms by (simp add: u8array_to_u16_def)

lemma u8array_to_u32_cong:
  assumes "\<And>k. k < 4 \<Longrightarrow> a ! (i + k) = b ! (i + k)"
  shows "u8array_to_u32 a i = u8array_to_u32 b i"
proof -
  have "a ! i = b ! i" "a ! (i + 1) = b ! (i + 1)" "a ! (i + 2) = b ! (i + 2)"
    "a ! (i + 3) = b ! (i + 3)"
    using assms [of 0] assms [of 1] assms [of 2] assms [of 3] by simp_all
  then show ?thesis by (simp add: u8array_to_u32_def)
qed

lemma nth_u16_to_u8array_other [mem_simps]:
  "j \<noteq> i \<Longrightarrow> j \<noteq> i + 1 \<Longrightarrow> u16_to_u8array b i v ! j = b ! j"
  by (simp add: u16_to_u8array_def)

lemma nth_u32_to_u8array_other [mem_simps]:
  "j < i \<or> i + 4 \<le> j \<Longrightarrow> u32_to_u8array b i v ! j = b ! j"
  by (auto simp: u32_to_u8array_def)

section \<open>Round trips\<close>

lemma u16_roundtrip [mem_simps]:
  assumes "i + 1 < length b"
  shows "u8array_to_u16 (u16_to_u8array b i v) i = v"
  using assms u16_join [of v] by (simp add: u8array_to_u16_def u16_to_u8array_def)

lemma u32_roundtrip [mem_simps]:
  assumes "i + 3 < length b"
  shows "u8array_to_u32 (u32_to_u8array b i v) i = v"
  using assms u32_join [of v] by (simp add: u8array_to_u32_def u32_to_u8array_def)

text \<open>Writing one field leaves every field that does not overlap it alone.\<close>

lemma u16_read_u16_other [mem_simps]:
  "j + 1 < i \<or> i + 1 < j \<Longrightarrow> u8array_to_u16 (u16_to_u8array b i v) j = u8array_to_u16 b j"
  by (auto intro!: u8array_to_u16_cong simp: nth_u16_to_u8array_other)

lemma u16_read_u32_other [mem_simps]:
  "j + 1 < i \<or> i + 3 < j \<Longrightarrow> u8array_to_u16 (u32_to_u8array b i v) j = u8array_to_u16 b j"
  by (auto intro!: u8array_to_u16_cong simp: nth_u32_to_u8array_other)

lemma u32_read_u16_other [mem_simps]:
  "j + 3 < i \<or> i + 1 < j \<Longrightarrow> u8array_to_u32 (u16_to_u8array b i v) j = u8array_to_u32 b j"
  by (auto intro!: u8array_to_u32_cong simp: nth_u16_to_u8array_other)

lemma u32_read_u32_other [mem_simps]:
  "j + 3 < i \<or> i + 3 < j \<Longrightarrow> u8array_to_u32 (u32_to_u8array b i v) j = u8array_to_u32 b j"
  by (auto intro!: u8array_to_u32_cong simp: nth_u32_to_u8array_other)

end
