(* ===== verification/Cache.thy ===== *)
theory Cache
  imports Disc BitOps
begin

text \<open>
  The sector cache of \<open>source/cache.h\<close> and \<open>source/cache.c\<close>. The record \<open>cache\<close> holds the
  fields of \<open>CACHE\<close> and, as its last two, the state its code reaches through globals: the
  driver's private state behind the disc interface and the file-static \<open>accessCounter\<close>. Other
  caches of the program share that counter; they only advance it between two operations, and no
  theorem assumes anything about its value.

  A page buffer is a list of bytes; a buffer whose allocation failed is the empty block, so that
  every access to it is undefined. Every operation returns \<open>None\<close> where the C code has no
  defined outcome, and otherwise its C result with the new cache.
\<close>

section \<open>Model\<close>

record cache_entry =
  e_sector :: sec_t
  e_count :: u32
  e_last_access :: u32
  e_dirty :: bool
  e_cache :: "u8 list"

record 'd cache =
  c_disc :: "'d disc_interface"
  c_endOfPartition :: sec_t
  c_numberOfPages :: u32
  c_sectorsPerPage :: u32
  c_bytesPerSector :: u32
  c_cacheEntries :: "cache_entry list"
  c_medium :: 'd
  c_accessCounter :: u32

definition CACHE_FREE :: sec_t where
  "CACHE_FREE = UINT_MAX"

subsection \<open>Construction\<close>

text \<open>\<open>malloc k n\<close> is the outcome of the \<open>k\<close>-th allocation of the constructor: a block of \<open>n\<close>
  bytes with whatever contents, or \<open>None\<close> for a null pointer. The constructor checks the first
  two allocations (the \<open>CACHE\<close> and its array of entries) and none of the page buffers. The byte
  counts of the two structures are those of a 32 bit target.\<close>

definition new_entry :: "u8 list option \<Rightarrow> cache_entry" where
  "new_entry block = \<lparr>e_sector = CACHE_FREE, e_count = 0, e_last_access = 0, e_dirty = False,
     e_cache = (case block of None \<Rightarrow> [] | Some b \<Rightarrow> b)\<rparr>"

definition FAT_cache_constructor ::
    "(nat \<Rightarrow> nat \<Rightarrow> u8 list option) \<Rightarrow> u32 \<Rightarrow> u32 \<Rightarrow> 'd disc_interface \<Rightarrow> sec_t \<Rightarrow> u32 \<Rightarrow> 'd \<Rightarrow> u32
      \<Rightarrow> 'd cache option" where
  "FAT_cache_constructor malloc numberOfPages sectorsPerPage discInterface endOfPartition
      bytesPerSector medium counter =
    (let numberOfPages = (if numberOfPages < 2 then 2 else numberOfPages);
         sectorsPerPage = (if sectorsPerPage < 8 then 8 else sectorsPerPage)
     in if malloc 0 24 = None then None
        else if malloc 1 (unat (20 * numberOfPages)) = None then None
        else Some \<lparr>c_disc = discInterface, c_endOfPartition = endOfPartition,
               c_numberOfPages = numberOfPages, c_sectorsPerPage = sectorsPerPage,
               c_bytesPerSector = bytesPerSector,
               c_cacheEntries = map (\<lambda>i. new_entry (malloc (2 + i) (unat (sectorsPerPage * bytesPerSector))))
                 [0..<unat numberOfPages],
               c_medium = medium, c_accessCounter = counter\<rparr>)"

subsection \<open>Finding a page\<close>

definition accessTime :: "'d cache \<Rightarrow> u32 \<times> 'd cache" where
  "accessTime c = (let n = c_accessCounter c + 1 in (n, c\<lparr>c_accessCounter := n\<rparr>))"

definition holds :: "cache_entry \<Rightarrow> sec_t \<Rightarrow> bool" where
  "holds e sector \<longleftrightarrow> sector \<ge> e_sector e \<and> sector < e_sector e + e_count e"

text \<open>The loop over the pages: the index of the page that holds the sector (\<open>Inl\<close>), or the
  flag \<open>foundFree\<close> and the page to replace (\<open>Inr\<close>).\<close>

fun getPage_scan :: "cache_entry list \<Rightarrow> sec_t \<Rightarrow> nat \<Rightarrow> bool \<Rightarrow> nat \<Rightarrow> u32 \<Rightarrow> nat + bool \<times> nat" where
  "getPage_scan [] sector i foundFree oldUsed oldAccess = Inr (foundFree, oldUsed)"
| "getPage_scan (e # es) sector i foundFree oldUsed oldAccess =
     (if holds e sector then Inl i
      else if \<not> foundFree \<and> (e_sector e = CACHE_FREE \<or> e_last_access e < oldAccess)
      then getPage_scan es sector (Suc i) (e_sector e = CACHE_FREE) i (e_last_access e)
      else getPage_scan es sector (Suc i) foundFree oldUsed oldAccess)"

definition set_entry :: "nat \<Rightarrow> (cache_entry \<Rightarrow> cache_entry) \<Rightarrow> 'd cache \<Rightarrow> 'd cache" where
  "set_entry i f c = c\<lparr>c_cacheEntries := (c_cacheEntries c)[i := f (c_cacheEntries c ! i)]\<rparr>"

text \<open>Writing the page to replace back to the disc, if it holds unwritten data.\<close>

definition getPage_evict :: "'d cache \<Rightarrow> bool \<Rightarrow> nat \<Rightarrow> bool \<times> 'd cache" where
  "getPage_evict c foundFree oldUsed =
    (let e = c_cacheEntries c ! oldUsed
     in if foundFree = False \<and> e_dirty e = True
        then (let (ok, m) = FAT_disc_writeSectors (c_disc c) (c_medium c) (e_sector e) (e_count e) (e_cache e);
                  c = c\<lparr>c_medium := m\<rparr>
              in if ok then (True, set_entry oldUsed (e_dirty_update (\<lambda>_. False)) c) else (False, c))
        else (True, c))"

text \<open>Loading the page that contains the sector into the chosen buffer.\<close>

definition getPage_load :: "'d cache \<Rightarrow> sec_t \<Rightarrow> nat \<Rightarrow> (nat option \<times> 'd cache) option" where
  "getPage_load c sector oldUsed =
    (if c_sectorsPerPage c = 0 then None
     else let sector = (sector div c_sectorsPerPage c) * c_sectorsPerPage c;
              next_page = sector + c_sectorsPerPage c;
              next_page = (if next_page > c_endOfPartition c then c_endOfPartition c else next_page);
              (ok, data, m) = FAT_disc_readSectors (c_disc c) (c_medium c) sector (next_page - sector)
          in do {
            buf \<leftarrow> poke (e_cache (c_cacheEntries c ! oldUsed)) 0 data;
            let c = set_entry oldUsed (e_cache_update (\<lambda>_. buf)) (c\<lparr>c_medium := m\<rparr>);
            if \<not> ok then Some (None, c)
            else let (t, c) = accessTime c
                 in Some (Some oldUsed,
                      set_entry oldUsed (\<lambda>e. e\<lparr>e_sector := sector, e_count := next_page - sector,
                        e_last_access := t\<rparr>) c)
          })"

text \<open>The page that holds a sector, by its index; \<open>None\<close> inside the result is the null pointer.\<close>

definition FAT_cache_getPage :: "'d cache \<Rightarrow> sec_t \<Rightarrow> (nat option \<times> 'd cache) option" where
  "FAT_cache_getPage c sector =
    (case getPage_scan (c_cacheEntries c) sector 0 False 0 UINT_MAX of
       Inl i \<Rightarrow> (let (t, c) = accessTime c in Some (Some i, set_entry i (e_last_access_update (\<lambda>_. t)) c))
     | Inr (foundFree, oldUsed) \<Rightarrow>
         if length (c_cacheEntries c) \<le> oldUsed then None
         else (let (ok, c) = getPage_evict c foundFree oldUsed
               in if ok then getPage_load c sector oldUsed else Some (None, c)))"

subsection \<open>Reading\<close>

text \<open>\<open>dest\<close> collects what was stored in the caller's buffer so far; the flag is the C result.\<close>

partial_function (option) readSectors_loop ::
    "'d cache \<Rightarrow> sec_t \<Rightarrow> u32 \<Rightarrow> u8 list \<Rightarrow> (bool \<times> u8 list \<times> 'd cache) option" where
  "readSectors_loop c sector numSectors dest =
    (if numSectors = 0 then Some (True, dest, c)
     else do {
       (entry, c) \<leftarrow> FAT_cache_getPage c sector;
       (case entry of None \<Rightarrow> Some (False, dest, c)
        | Some i \<Rightarrow> do {
            let e = c_cacheEntries c ! i;
            let sec = sector - e_sector e;
            let secs_to_read = e_count e - sec;
            let secs_to_read = (if secs_to_read > numSectors then numSectors else secs_to_read);
            data \<leftarrow> peek (e_cache e) (unat (sec * c_bytesPerSector c))
                      (unat (secs_to_read * c_bytesPerSector c));
            readSectors_loop c (sector + secs_to_read) (numSectors - secs_to_read) (dest @ data)
          })
     })"

declare readSectors_loop.simps [code]

definition FAT_cache_readSectors ::
    "'d cache \<Rightarrow> sec_t \<Rightarrow> u32 \<Rightarrow> (bool \<times> u8 list \<times> 'd cache) option" where
  "FAT_cache_readSectors c sector numSectors = readSectors_loop c sector numSectors []"

text \<open>The bytes read, or \<open>None\<close> inside the result when the function returns \<open>false\<close> and leaves
  the caller's buffer alone.\<close>

definition FAT_cache_readPartialSector ::
    "'d cache \<Rightarrow> sec_t \<Rightarrow> u32 \<Rightarrow> u32 \<Rightarrow> (u8 list option \<times> 'd cache) option" where
  "FAT_cache_readPartialSector c sector offset sz =
    (if offset + sz > c_bytesPerSector c then Some (None, c)
     else do {
       (entry, c) \<leftarrow> FAT_cache_getPage c sector;
       (case entry of None \<Rightarrow> Some (None, c)
        | Some i \<Rightarrow> do {
            let e = c_cacheEntries c ! i;
            let sec = sector - e_sector e;
            data \<leftarrow> peek (e_cache e) (unat (sec * c_bytesPerSector c + offset)) (unat sz);
            Some (Some data, c)
          })
     })"

definition FAT_cache_readSector :: "'d cache \<Rightarrow> sec_t \<Rightarrow> (u8 list option \<times> 'd cache) option" where
  "FAT_cache_readSector c sector = FAT_cache_readPartialSector c sector 0 (c_bytesPerSector c)"

text \<open>The value read into \<open>*value\<close>, or \<open>None\<close> inside the result when it stays as it was. The
  local buffer holds four bytes.\<close>

definition FAT_cache_readLittleEndianValue ::
    "'d cache \<Rightarrow> sec_t \<Rightarrow> u32 \<Rightarrow> u32 \<Rightarrow> (u32 option \<times> 'd cache) option" where
  "FAT_cache_readLittleEndianValue c sector offset num_bytes =
    do {
      (buf, c) \<leftarrow> FAT_cache_readPartialSector c sector offset num_bytes;
      (case buf of None \<Rightarrow> Some (None, c)
       | Some buf \<Rightarrow>
           if 4 < num_bytes then None
           else if num_bytes = 1 then Some (Some (ucast (buf ! 0)), c)
           else if num_bytes = 2 then Some (Some (ucast (u8array_to_u16 buf 0)), c)
           else if num_bytes = 4 then Some (Some (u8array_to_u32 buf 0), c)
           else Some (None, c))
    }"

subsection \<open>Writing\<close>

definition FAT_cache_writePartialSector ::
    "'d cache \<Rightarrow> u8 list \<Rightarrow> sec_t \<Rightarrow> u32 \<Rightarrow> u32 \<Rightarrow> (bool \<times> 'd cache) option" where
  "FAT_cache_writePartialSector c buffer sector offset sz =
    (if offset + sz > c_bytesPerSector c then Some (False, c)
     else do {
       (entry, c) \<leftarrow> FAT_cache_getPage c sector;
       (case entry of None \<Rightarrow> Some (False, c)
        | Some i \<Rightarrow> do {
            let e = c_cacheEntries c ! i;
            let sec = sector - e_sector e;
            data \<leftarrow> peek buffer 0 (unat sz);
            page \<leftarrow> poke (e_cache e) (unat (sec * c_bytesPerSector c + offset)) data;
            Some (True, set_entry i (\<lambda>e. e\<lparr>e_cache := page, e_dirty := True\<rparr>) c)
          })
     })"

definition FAT_cache_writeSector :: "'d cache \<Rightarrow> u8 list \<Rightarrow> sec_t \<Rightarrow> (bool \<times> 'd cache) option" where
  "FAT_cache_writeSector c buffer sector =
     FAT_cache_writePartialSector c buffer sector 0 (c_bytesPerSector c)"

definition FAT_cache_writeLittleEndianValue ::
    "'d cache \<Rightarrow> u32 \<Rightarrow> sec_t \<Rightarrow> u32 \<Rightarrow> u32 \<Rightarrow> (bool \<times> 'd cache) option" where
  "FAT_cache_writeLittleEndianValue c value sector offset sz =
    (if sz = 1 then FAT_cache_writePartialSector c [ucast value, 0, 0, 0] sector offset sz
     else if sz = 2
     then FAT_cache_writePartialSector c (u16_to_u8array [0, 0, 0, 0] 0 (ucast value)) sector offset sz
     else if sz = 4
     then FAT_cache_writePartialSector c (u32_to_u8array [0, 0, 0, 0] 0 value) sector offset sz
     else Some (False, c))"

definition FAT_cache_eraseWritePartialSector ::
    "'d cache \<Rightarrow> u8 list \<Rightarrow> sec_t \<Rightarrow> u32 \<Rightarrow> u32 \<Rightarrow> (bool \<times> 'd cache) option" where
  "FAT_cache_eraseWritePartialSector c buffer sector offset sz =
    (if offset + sz > c_bytesPerSector c then Some (False, c)
     else do {
       (entry, c) \<leftarrow> FAT_cache_getPage c sector;
       (case entry of None \<Rightarrow> Some (False, c)
        | Some i \<Rightarrow> do {
            let e = c_cacheEntries c ! i;
            let sec = sector - e_sector e;
            page \<leftarrow> poke (e_cache e) (unat (sec * c_bytesPerSector c))
                      (replicate (unat (c_bytesPerSector c)) 0);
            data \<leftarrow> peek buffer 0 (unat sz);
            page \<leftarrow> poke page (unat (sec * c_bytesPerSector c + offset)) data;
            Some (True, set_entry i (\<lambda>e. e\<lparr>e_cache := page, e_dirty := True\<rparr>) c)
          })
     })"

partial_function (option) writeSectors_loop ::
    "'d cache \<Rightarrow> sec_t \<Rightarrow> u32 \<Rightarrow> u8 list \<Rightarrow> (bool \<times> 'd cache) option" where
  "writeSectors_loop c sector numSectors src =
    (if numSectors = 0 then Some (True, c)
     else do {
       (entry, c) \<leftarrow> FAT_cache_getPage c sector;
       (case entry of None \<Rightarrow> Some (False, c)
        | Some i \<Rightarrow> do {
            let e = c_cacheEntries c ! i;
            let sec = sector - e_sector e;
            let secs_to_write = e_count e - sec;
            let secs_to_write = (if secs_to_write > numSectors then numSectors else secs_to_write);
            data \<leftarrow> peek src 0 (unat (secs_to_write * c_bytesPerSector c));
            page \<leftarrow> poke (e_cache e) (unat (sec * c_bytesPerSector c)) data;
            writeSectors_loop (set_entry i (\<lambda>e. e\<lparr>e_cache := page, e_dirty := True\<rparr>) c)
              (sector + secs_to_write) (numSectors - secs_to_write)
              (drop (unat (secs_to_write * c_bytesPerSector c)) src)
          })
     })"

declare writeSectors_loop.simps [code]

definition FAT_cache_writeSectors ::
    "'d cache \<Rightarrow> sec_t \<Rightarrow> u32 \<Rightarrow> u8 list \<Rightarrow> (bool \<times> 'd cache) option" where
  "FAT_cache_writeSectors c sector numSectors buffer = writeSectors_loop c sector numSectors buffer"

subsection \<open>Flushing\<close>

fun flush_entries :: "'d disc_interface \<Rightarrow> cache_entry list \<Rightarrow> 'd \<Rightarrow> bool \<times> cache_entry list \<times> 'd" where
  "flush_entries disc [] m = (True, [], m)"
| "flush_entries disc (e # es) m =
     (let (ok, m) = (if e_dirty e
                     then FAT_disc_writeSectors disc m (e_sector e) (e_count e) (e_cache e)
                     else (True, m))
      in if \<not> ok then (False, e # es, m)
         else let (ok, es, m) = flush_entries disc es m
              in (ok, e\<lparr>e_dirty := False\<rparr> # es, m))"

definition FAT_cache_flush :: "'d cache \<Rightarrow> bool \<times> 'd cache" where
  "FAT_cache_flush c =
    (let (ok, es, m) = flush_entries (c_disc c) (c_cacheEntries c) (c_medium c)
     in (ok, c\<lparr>c_cacheEntries := es, c_medium := m\<rparr>))"

definition FAT_cache_invalidate :: "'d cache \<Rightarrow> 'd cache" where
  "FAT_cache_invalidate c =
    (let (_, c) = FAT_cache_flush c
     in c\<lparr>c_cacheEntries := map (\<lambda>e. e\<lparr>e_sector := CACHE_FREE, e_last_access := 0, e_count := 0,
            e_dirty := False\<rparr>) (c_cacheEntries c)\<rparr>)"

text \<open>The destructor flushes and frees; what remains is the driver's state.\<close>

definition FAT_cache_destructor :: "'d cache \<Rightarrow> 'd" where
  "FAT_cache_destructor c = c_medium (snd (FAT_cache_flush c))"

end
