(* ===== verification/CacheSpec.thy ===== *)
theory CacheSpec
  imports Cache
begin

text \<open>
  What the sector cache promises. \<open>cview\<close> is the contents of the disc as the cache shows them:
  a cached page where there is one, the medium elsewhere. The invariant \<open>cache_inv\<close> describes the
  geometry, the page table and the coherence of clean pages with the medium. Every operation
  keeps the invariant; reads and the choice and eviction of pages leave \<open>cview\<close> alone; a write
  changes exactly the bytes it names; a flush makes the medium agree with \<open>cview\<close>.
\<close>

section \<open>Invariant and view\<close>

definition geometry_ok :: "'d cache \<Rightarrow> bool" where
  "geometry_ok c \<longleftrightarrow> 0 < unat (c_sectorsPerPage c) \<and> 0 < unat (c_bytesPerSector c) \<and>
     unat (c_sectorsPerPage c) * unat (c_bytesPerSector c) < 2 ^ 32 \<and>
     unat (c_endOfPartition c) + unat (c_sectorsPerPage c) < 2 ^ 32 \<and>
     length (c_cacheEntries c) = unat (c_numberOfPages c) \<and> 0 < length (c_cacheEntries c)"

definition entry_ok :: "sec_t \<Rightarrow> u32 \<Rightarrow> u32 \<Rightarrow> cache_entry \<Rightarrow> bool" where
  "entry_ok lim spp bps e \<longleftrightarrow> length (e_cache e) = unat spp * unat bps \<and>
     (if e_sector e = CACHE_FREE then e_count e = 0 \<and> \<not> e_dirty e
      else unat spp dvd unat (e_sector e) \<and> unat (e_sector e) < unat lim \<and>
        unat (e_count e) = min (unat spp) (unat lim - unat (e_sector e)))"

definition entries_ok :: "'d cache \<Rightarrow> bool" where
  "entries_ok c \<longleftrightarrow>
     (\<forall>e \<in> set (c_cacheEntries c). entry_ok (c_endOfPartition c) (c_sectorsPerPage c) (c_bytesPerSector c) e)"

definition pages_distinct :: "cache_entry list \<Rightarrow> bool" where
  "pages_distinct es \<longleftrightarrow> (\<forall>i < length es. \<forall>j < length es.
     i \<noteq> j \<longrightarrow> e_sector (es ! i) = e_sector (es ! j) \<longrightarrow> e_sector (es ! i) = CACHE_FREE)"

definition page_slice :: "u32 \<Rightarrow> cache_entry \<Rightarrow> sec_t \<Rightarrow> u8 list" where
  "page_slice bps e s = slice (e_cache e) ((unat s - unat (e_sector e)) * unat bps) (unat bps)"

definition coherent :: "('d \<Rightarrow> sec_t \<Rightarrow> u8 list) \<Rightarrow> 'd cache \<Rightarrow> bool" where
  "coherent med c \<longleftrightarrow> (\<forall>e \<in> set (c_cacheEntries c). \<not> e_dirty e \<longrightarrow>
     (\<forall>s. holds e s \<longrightarrow> med (c_medium c) s = page_slice (c_bytesPerSector c) e s))"

definition cache_inv :: "('d \<Rightarrow> sec_t \<Rightarrow> u8 list) \<Rightarrow> 'd cache \<Rightarrow> bool" where
  "cache_inv med c \<longleftrightarrow> disc_ok (c_disc c) med (unat (c_bytesPerSector c)) \<and> geometry_ok c \<and>
     entries_ok c \<and> pages_distinct (c_cacheEntries c) \<and> coherent med c"

definition cview :: "('d \<Rightarrow> sec_t \<Rightarrow> u8 list) \<Rightarrow> 'd cache \<Rightarrow> sec_t \<Rightarrow> u8 list" where
  "cview med c s = (case find (\<lambda>e. holds e s) (c_cacheEntries c) of
     Some e \<Rightarrow> page_slice (c_bytesPerSector c) e s | None \<Rightarrow> med (c_medium c) s)"

text \<open>The parts of a cache no operation changes.\<close>

definition geom :: "'d cache \<Rightarrow> 'd disc_interface \<times> sec_t \<times> u32 \<times> u32 \<times> u32 \<times> nat" where
  "geom c = (c_disc c, c_endOfPartition c, c_numberOfPages c, c_sectorsPerPage c,
     c_bytesPerSector c, length (c_cacheEntries c))"

lemma geomD:
  assumes "geom c' = geom c"
  shows "c_disc c' = c_disc c" "c_endOfPartition c' = c_endOfPartition c"
    "c_numberOfPages c' = c_numberOfPages c" "c_sectorsPerPage c' = c_sectorsPerPage c"
    "c_bytesPerSector c' = c_bytesPerSector c" "length (c_cacheEntries c') = length (c_cacheEntries c)"
  using assms by (simp_all add: geom_def)

lemma set_entry_simps [simp]:
  "c_disc (set_entry i f c) = c_disc c" "c_endOfPartition (set_entry i f c) = c_endOfPartition c"
  "c_numberOfPages (set_entry i f c) = c_numberOfPages c"
  "c_sectorsPerPage (set_entry i f c) = c_sectorsPerPage c"
  "c_bytesPerSector (set_entry i f c) = c_bytesPerSector c"
  "c_medium (set_entry i f c) = c_medium c"
  "c_cacheEntries (set_entry i f c) = (c_cacheEntries c)[i := f (c_cacheEntries c ! i)]"
  by (simp_all add: set_entry_def)

lemma geom_set_entry [simp]: "geom (set_entry i f c) = geom c"
  by (simp add: geom_def)

lemma geom_updates [simp]:
  "geom (c\<lparr>c_medium := m\<rparr>) = geom c" "geom (c\<lparr>c_accessCounter := n\<rparr>) = geom c"
  by (simp_all add: geom_def)

lemma accessTime_simp: "accessTime c = (c_accessCounter c + 1, c\<lparr>c_accessCounter := c_accessCounter c + 1\<rparr>)"
  by (simp add: accessTime_def Let_def)

section \<open>Which page holds a sector\<close>

lemma entry_okI:
  "cache_inv med c \<Longrightarrow> i < length (c_cacheEntries c) \<Longrightarrow>
    entry_ok (c_endOfPartition c) (c_sectorsPerPage c) (c_bytesPerSector c) (c_cacheEntries c ! i)"
  by (simp add: cache_inv_def entries_ok_def)

lemma holds_unat:
  assumes "entry_ok lim spp bps e" and "unat lim + unat spp < 2 ^ 32"
  shows "holds e s \<longleftrightarrow> e_sector e \<noteq> CACHE_FREE \<and> unat (e_sector e) \<le> unat s \<and>
           unat s < unat (e_sector e) + unat (e_count e)"
proof (cases "e_sector e = CACHE_FREE")
  case True
  with assms(1) show ?thesis
    by (simp add: holds_def entry_ok_def not_less)
next
  case False
  with assms have "unat (e_sector e) + unat (e_count e) < 2 ^ 32"
    by (auto simp: entry_ok_def)
  with False show ?thesis
    by (auto simp: holds_def word_le_nat_alt word_less_nat_alt unat_add_small)
qed

lemma holds_base:
  assumes "entry_ok lim spp bps e" and "unat lim + unat spp < 2 ^ 32" and "holds e s"
  shows "unat (e_sector e) = unat s div unat spp * unat spp"
proof -
  from assms have "e_sector e \<noteq> CACHE_FREE" and le: "unat (e_sector e) \<le> unat s"
    and "unat s < unat (e_sector e) + unat (e_count e)"
    by (auto simp: holds_unat)
  with assms(1) have lt: "unat s < unat (e_sector e) + unat spp" and "unat spp dvd unat (e_sector e)"
    by (auto simp: entry_ok_def)
  then obtain q where q: "unat (e_sector e) = q * unat spp"
    by (metis dvd_def mult.commute)
  with le lt have "unat s div unat spp = q"
    by (intro div_nat_eqI) (auto simp: mult.commute)
  with q show ?thesis by simp
qed

lemma geometry_bound: "geometry_ok c \<Longrightarrow> unat (c_endOfPartition c) + unat (c_sectorsPerPage c) < 2 ^ 32"
  by (simp add: geometry_ok_def)

lemma cache_inv_geometry: "cache_inv med c \<Longrightarrow> geometry_ok c"
  by (simp add: cache_inv_def)

lemma pages_nonempty: "cache_inv med c \<Longrightarrow> 0 < length (c_cacheEntries c)"
  unfolding cache_inv_def geometry_ok_def by blast

lemmas cache_bound = geometry_bound [OF cache_inv_geometry]

lemma holds_unique:
  assumes inv: "cache_inv med c"
    and i: "i < length (c_cacheEntries c)" "holds (c_cacheEntries c ! i) s"
    and j: "j < length (c_cacheEntries c)" "holds (c_cacheEntries c ! j) s"
  shows "i = j"
proof -
  have "unat (e_sector (c_cacheEntries c ! i)) = unat (e_sector (c_cacheEntries c ! j))"
    using holds_base [OF entry_okI [OF inv i(1)] cache_bound [OF inv] i(2)]
      holds_base [OF entry_okI [OF inv j(1)] cache_bound [OF inv] j(2)] by simp
  then have "e_sector (c_cacheEntries c ! i) = e_sector (c_cacheEntries c ! j)"
    by (simp add: word_eq_iff_unat_eq)
  moreover have "e_sector (c_cacheEntries c ! i) \<noteq> CACHE_FREE"
    using holds_unat [OF entry_okI [OF inv i(1)] cache_bound [OF inv]] i(2) by simp
  ultimately show ?thesis
    using inv i(1) j(1) by (auto simp: cache_inv_def pages_distinct_def)
qed

lemma cview_hit:
  assumes inv: "cache_inv med c" and i: "i < length (c_cacheEntries c)" "holds (c_cacheEntries c ! i) s"
  shows "cview med c s = page_slice (c_bytesPerSector c) (c_cacheEntries c ! i) s"
proof -
  obtain e where e: "find (\<lambda>e. holds e s) (c_cacheEntries c) = Some e"
    using i by (metis find_None_iff nth_mem option.exhaust)
  then obtain j where "j < length (c_cacheEntries c)" "holds (c_cacheEntries c ! j) s"
    "e = c_cacheEntries c ! j"
    by (auto simp: find_Some_iff)
  with holds_unique [OF inv i] e show ?thesis by (simp add: cview_def)
qed

lemma cview_miss:
  assumes "\<And>i. i < length (c_cacheEntries c) \<Longrightarrow> \<not> holds (c_cacheEntries c ! i) s"
  shows "cview med c s = med (c_medium c) s"
proof -
  have "find (\<lambda>e. holds e s) (c_cacheEntries c) = None"
    using assms by (auto simp: find_None_iff in_set_conv_nth)
  then show ?thesis by (simp add: cview_def)
qed

lemma cview_cases:
  assumes "cache_inv med c"
  obtains (hit) i where "i < length (c_cacheEntries c)" "holds (c_cacheEntries c ! i) s"
      "cview med c s = page_slice (c_bytesPerSector c) (c_cacheEntries c ! i) s"
  | (miss) "\<And>i. i < length (c_cacheEntries c) \<Longrightarrow> \<not> holds (c_cacheEntries c ! i) s"
      "cview med c s = med (c_medium c) s"
  using assms cview_hit cview_miss by metis

text \<open>A cached sector lies inside its page.\<close>

lemma page_offset_bound:
  assumes "entry_ok lim spp bps e" and "unat lim + unat spp < 2 ^ 32" and "holds e s"
  shows "(unat s - unat (e_sector e)) * unat bps + unat bps \<le> length (e_cache e)"
proof -
  have "unat s - unat (e_sector e) < unat spp"
    using assms holds_unat [OF assms(1,2)] by (auto simp: entry_ok_def split: if_splits)
  then have "(unat s - unat (e_sector e) + 1) * unat bps \<le> unat spp * unat bps"
    by (intro mult_right_mono) auto
  then show ?thesis using assms(1) by (simp add: entry_ok_def)
qed

lemma length_page_slice:
  assumes "entry_ok lim spp bps e" and "unat lim + unat spp < 2 ^ 32" and "holds e s"
  shows "length (page_slice bps e s) = unat bps"
  using page_offset_bound [OF assms] by (simp add: page_slice_def)

lemma length_cview:
  assumes "cache_inv med c"
  shows "length (cview med c s) = unat (c_bytesPerSector c)"
  using assms
proof (cases rule: cview_cases [where s = s])
  case (hit i)
  with assms show ?thesis
    using length_page_slice [OF entry_okI [OF assms] cache_bound [OF assms]] by simp
next
  case miss
  with assms show ?thesis
    by (auto simp: cache_inv_def intro: disc_ok_length)
qed

section \<open>Finding, evicting and loading pages\<close>

text \<open>The invariant over page indices.\<close>

lemma cache_inv_iff:
  "cache_inv med c \<longleftrightarrow> disc_ok (c_disc c) med (unat (c_bytesPerSector c)) \<and> geometry_ok c \<and>
     (\<forall>i < length (c_cacheEntries c). entry_ok (c_endOfPartition c) (c_sectorsPerPage c)
        (c_bytesPerSector c) (c_cacheEntries c ! i)) \<and>
     pages_distinct (c_cacheEntries c) \<and>
     (\<forall>i < length (c_cacheEntries c). \<not> e_dirty (c_cacheEntries c ! i) \<longrightarrow>
       (\<forall>s. holds (c_cacheEntries c ! i) s \<longrightarrow>
          med (c_medium c) s = page_slice (c_bytesPerSector c) (c_cacheEntries c ! i) s))"
  unfolding cache_inv_def entries_ok_def coherent_def by (auto simp: all_set_conv_all_nth)

lemma geom_invariant:
  assumes "geom c' = geom c"
  shows "disc_ok (c_disc c') med (unat (c_bytesPerSector c')) = disc_ok (c_disc c) med (unat (c_bytesPerSector c))"
    and "geometry_ok c' = geometry_ok c"
    and "c_endOfPartition c' = c_endOfPartition c" and "c_sectorsPerPage c' = c_sectorsPerPage c"
    and "c_bytesPerSector c' = c_bytesPerSector c"
    and "length (c_cacheEntries c') = length (c_cacheEntries c)"
  using geomD [OF assms] by (simp_all add: geometry_ok_def)

lemma cache_inv_step:
  assumes "cache_inv med c" and "geom d = geom c"
    and "\<And>j. j < length (c_cacheEntries c) \<Longrightarrow> entry_ok (c_endOfPartition c) (c_sectorsPerPage c)
      (c_bytesPerSector c) (c_cacheEntries d ! j)"
    and "pages_distinct (c_cacheEntries d)"
    and "\<And>j s. j < length (c_cacheEntries c) \<Longrightarrow> \<not> e_dirty (c_cacheEntries d ! j) \<Longrightarrow>
      holds (c_cacheEntries d ! j) s \<Longrightarrow>
      med (c_medium d) s = page_slice (c_bytesPerSector c) (c_cacheEntries d ! j) s"
  shows "cache_inv med d"
  using assms geomD(1) [OF assms(2)] unfolding cache_inv_iff geom_invariant [OF assms(2)] by simp

lemma clean_page:
  assumes "cache_inv med c" and "j < length (c_cacheEntries c)" and "\<not> e_dirty (c_cacheEntries c ! j)"
    and "holds (c_cacheEntries c ! j) s"
  shows "med (c_medium c) s = page_slice (c_bytesPerSector c) (c_cacheEntries c ! j) s"
  using assms unfolding cache_inv_iff by blast

lemma pages_distinctI:
  assumes "cache_inv med c" and "length es = length (c_cacheEntries c)"
    and "\<And>j. j < length (c_cacheEntries c) \<Longrightarrow> e_sector (es ! j) = e_sector (c_cacheEntries c ! j)"
  shows "pages_distinct es"
  using assms by (auto simp: cache_inv_def pages_distinct_def)

text \<open>Two caches show the same sector if they hold it in the same place.\<close>

lemma cview_eqI:
  assumes "cache_inv med c" and "cache_inv med c'" and "geom c' = geom c"
    and "\<And>j. j < length (c_cacheEntries c) \<Longrightarrow>
      holds (c_cacheEntries c' ! j) s = holds (c_cacheEntries c ! j) s"
    and "\<And>j. j < length (c_cacheEntries c) \<Longrightarrow> holds (c_cacheEntries c ! j) s \<Longrightarrow>
      page_slice (c_bytesPerSector c) (c_cacheEntries c' ! j) s
        = page_slice (c_bytesPerSector c) (c_cacheEntries c ! j) s"
    and "\<And>j. (\<forall>j < length (c_cacheEntries c). \<not> holds (c_cacheEntries c ! j) s) \<Longrightarrow>
      med (c_medium c') s = med (c_medium c) s"
  shows "cview med c' s = cview med c s"
  using assms(1)
proof (cases rule: cview_cases [where s = s])
  case (hit i)
  then show ?thesis
    using assms geomD [OF assms(3)] cview_hit [OF assms(2), of i s] by simp
next
  case miss
  then show ?thesis
    using assms geomD [OF assms(3)] cview_miss [of c' s med] by simp
qed

lemma holds_update [simp]: "holds (e_last_access_update f e) s = holds e s"
  "holds (e_dirty_update g e) s = holds e s" "holds (e_cache_update h e) s = holds e s"
  by (simp_all add: holds_def)

lemma page_slice_update [simp]: "page_slice b (e_last_access_update f e) s = page_slice b e s"
  "page_slice b (e_dirty_update g e) s = page_slice b e s"
  by (simp_all add: page_slice_def)

lemma page_slice_cong: "e_cache e' = e_cache e \<Longrightarrow> e_sector e' = e_sector e \<Longrightarrow> page_slice b e' s = page_slice b e s"
  by (simp add: page_slice_def)

lemma entries_update_cases:
  "j < length es \<Longrightarrow> es[i := x] ! j = (if j = i then x else es ! j)"
  by (simp add: nth_list_update)

text \<open>The access time of a page plays no part in the invariant or the view.\<close>

lemma touch_inv:
  assumes inv: "cache_inv med c" and i: "i < length (c_cacheEntries c)"
    and c'_def: "c' = set_entry i (e_last_access_update f) (c\<lparr>c_accessCounter := n\<rparr>)"
  shows "cache_inv med c'" and "cview med c' = cview med c" and "geom c' = geom c"
proof -
  show geom: "geom c' = geom c" by (simp add: c'_def)
  show inv': "cache_inv med c'"
    using inv i unfolding cache_inv_iff geom_invariant [OF geom]
    by (auto simp: c'_def nth_list_update pages_distinct_def entry_ok_def)
  show "cview med c' = cview med c"
    by (rule ext, rule cview_eqI [OF inv inv' geom]) (auto simp: c'_def nth_list_update i)
qed

text \<open>The scan of the page table.\<close>

lemma nth_Cons_diff: "Suc i \<le> k \<Longrightarrow> (e # es) ! (k - i) = es ! (k - Suc i)"
  by (metis Suc_diff_le diff_Suc_Suc nth_Cons_Suc)

lemma getPage_scan_Inl:
  "getPage_scan es s i free used acc = Inl j \<Longrightarrow> i \<le> j \<and> j - i < length es \<and> holds (es ! (j - i)) s"
proof (induction es s i free used acc rule: getPage_scan.induct)
  case (2 e es s i free used acc)
  show ?case
  proof (cases "holds e s")
    case True
    with "2.prems" show ?thesis by simp
  next
    case False
    with 2 have "Suc i \<le> j \<and> j - Suc i < length es \<and> holds (es ! (j - Suc i)) s"
      by (auto split: if_splits)
    then show ?thesis by (auto simp: nth_Cons_diff)
  qed
qed simp

lemma getPage_scan_Inr:
  "getPage_scan es s i free used acc = Inr (free', used') \<Longrightarrow>
    (\<forall>e \<in> set es. \<not> holds e s) \<and>
    (used' = used \<and> free' = free \<or>
     i \<le> used' \<and> used' - i < length es \<and> (free' \<longrightarrow> e_sector (es ! (used' - i)) = CACHE_FREE))"
proof (induction es s i free used acc rule: getPage_scan.induct)
  case (2 e es s i free used acc)
  from "2.prems" have miss: "\<not> holds e s" by (auto split: if_splits)
  let ?take = "\<not> free \<and> (e_sector e = CACHE_FREE \<or> e_last_access e < acc)"
  let ?free = "if ?take then e_sector e = CACHE_FREE else free" and ?used = "if ?take then i else used"
  have "(\<forall>e \<in> set es. \<not> holds e s) \<and>
    (used' = ?used \<and> free' = ?free \<or>
     Suc i \<le> used' \<and> used' - Suc i < length es \<and> (free' \<longrightarrow> e_sector (es ! (used' - Suc i)) = CACHE_FREE))"
    using 2 miss by (cases ?take) auto
  with miss show ?case
    by (cases ?take) (auto simp: nth_Cons_diff)
qed simp

lemma free_not_dirty:
  "cache_inv med c \<Longrightarrow> i < length (c_cacheEntries c) \<Longrightarrow> e_sector (c_cacheEntries c ! i) = CACHE_FREE \<Longrightarrow>
    \<not> e_dirty (c_cacheEntries c ! i)"
  using entry_okI by (fastforce simp: entry_ok_def)

text \<open>The sectors of a page, as the driver's transfer range.\<close>

lemma in_range_holds:
  assumes "entry_ok lim spp bps e" and "unat lim + unat spp < 2 ^ 32" and "e_sector e \<noteq> CACHE_FREE"
  shows "in_range (e_sector e) (e_count e) t = holds e t"
  using assms by (simp add: holds_unat in_range_def)

lemma entry_count_bounds:
  assumes "entry_ok lim spp bps e" and "unat lim + unat spp < 2 ^ 32" and "e_sector e \<noteq> CACHE_FREE"
  shows "unat (e_sector e) + unat (e_count e) \<le> unat lim"
    and "unat (e_count e) * unat bps \<le> length (e_cache e)"
  using assms by (auto simp: entry_ok_def)

lemma entry_count_pos: "entry_ok lim spp bps e \<Longrightarrow> 0 < unat spp \<Longrightarrow> e_sector e \<noteq> CACHE_FREE \<Longrightarrow> 0 < unat (e_count e)"
  by (auto simp: entry_ok_def)

text \<open>Writing a page back: on success the medium holds its bytes, on failure only its own
  sectors may have changed, and those are hidden by the page.\<close>

lemma writeback_medium:
  assumes disc: "disc_ok disc med (unat bps)" and eok: "entry_ok lim spp bps e"
    and bound: "unat lim + unat spp < 2 ^ 32" and nf: "e_sector e \<noteq> CACHE_FREE"
    and wr: "writeSectors disc m0 (e_sector e) (e_count e) (e_cache e) = (ok, m)"
  shows "\<not> holds e t \<Longrightarrow> med m t = med m0 t"
    and "ok \<Longrightarrow> holds e t \<Longrightarrow> med m t = page_slice bps e t"
proof -
  have cnt: "unat (e_count e) * unat bps \<le> length (e_cache e)"
    and rng: "unat (e_sector e) + unat (e_count e) \<le> 2 ^ 32"
    using entry_count_bounds [OF eok bound nf] bound by simp_all
  show "\<not> holds e t \<Longrightarrow> med m t = med m0 t"
    using disc_write(1) [OF disc wr cnt rng] in_range_holds [OF eok bound nf] by simp
  assume ok and h: "holds e t"
  then have le: "unat (e_sector e) \<le> unat t" and "unat t - unat (e_sector e) < unat (e_count e)"
    using holds_unat [OF eok bound] by auto
  with disc_write(2) [OF disc wr cnt rng \<open>ok\<close>, of "unat t - unat (e_sector e)"]
  show "med m t = page_slice bps e t"
    by (simp add: page_slice_def sector_in_range [OF le, symmetric])
qed

lemma cache_inv_disc: "cache_inv med c \<Longrightarrow> disc_ok (c_disc c) med (unat (c_bytesPerSector c))"
  by (simp add: cache_inv_def)

lemma getPage_evict_spec:
  assumes inv: "cache_inv med c" and i: "i < length (c_cacheEntries c)"
    and free: "found \<longrightarrow> e_sector (c_cacheEntries c ! i) = CACHE_FREE"
    and ev: "getPage_evict c found i = (ok, c')"
  shows "cache_inv med c'" and "cview med c' = cview med c" and "geom c' = geom c"
    and "\<And>j. j < length (c_cacheEntries c) \<Longrightarrow> holds (c_cacheEntries c' ! j) s = holds (c_cacheEntries c ! j) s"
    and "ok \<Longrightarrow> \<not> e_dirty (c_cacheEntries c' ! i)"
proof -
  let ?e = "c_cacheEntries c ! i"
  have *: "cache_inv med c' \<and> cview med c' = cview med c \<and> geom c' = geom c \<and>
    (\<forall>j < length (c_cacheEntries c). holds (c_cacheEntries c' ! j) s = holds (c_cacheEntries c ! j) s) \<and>
    (ok \<longrightarrow> \<not> e_dirty (c_cacheEntries c' ! i))"
  proof (cases "\<not> found \<and> e_dirty ?e")
    case False
    then show ?thesis
      using ev inv free free_not_dirty [OF inv i]
      by (auto simp: getPage_evict_def Let_def split: if_splits)
  next
    case True
    then have nf: "e_sector ?e \<noteq> CACHE_FREE" using free_not_dirty [OF inv i] by blast
    obtain ok' m where wr: "writeSectors (c_disc c) (c_medium c) (e_sector ?e) (e_count ?e) (e_cache ?e) = (ok', m)"
      by fastforce
    note med' = writeback_medium [OF cache_inv_disc [OF inv] entry_okI [OF inv i] cache_bound [OF inv] nf wr]
    define d where "d = (if ok' then set_entry i (e_dirty_update (\<lambda>_. False)) (c\<lparr>c_medium := m\<rparr>)
      else c\<lparr>c_medium := m\<rparr>)"
    have c': "c' = d" and ok: "ok = ok'"
      using ev True wr by (auto simp: getPage_evict_def Let_def FAT_disc_writeSectors_def d_def split: if_splits)
    have geom: "geom d = geom c" by (simp add: d_def)
    have h: "holds (c_cacheEntries d ! j) s = holds (c_cacheEntries c ! j) s"
      "page_slice b (c_cacheEntries d ! j) s = page_slice b (c_cacheEntries c ! j) s"
      if "j < length (c_cacheEntries c)" for j s b
      using i by (auto simp: d_def nth_list_update)
    have other: "\<not> holds ?e s" if "j < length (c_cacheEntries c)" "holds (c_cacheEntries c ! j) s" "j \<noteq> i" for j s
      using holds_unique [OF inv i _ that(1,2)] that(3) by blast
    have inv': "cache_inv med d"
    proof (rule cache_inv_step [OF inv geom])
      show "pages_distinct (c_cacheEntries d)"
        by (rule pages_distinctI [OF inv]) (auto simp: d_def nth_list_update i)
      fix j assume j: "j < length (c_cacheEntries c)"
      show "entry_ok (c_endOfPartition c) (c_sectorsPerPage c) (c_bytesPerSector c) (c_cacheEntries d ! j)"
        using entry_okI [OF inv j] entry_okI [OF inv i]
        by (auto simp: d_def nth_list_update i entry_ok_def split: if_splits)
      fix s assume clean: "\<not> e_dirty (c_cacheEntries d ! j)" and "holds (c_cacheEntries d ! j) s"
      then have hold: "holds (c_cacheEntries c ! j) s" by (simp add: h j)
      show "med (c_medium d) s = page_slice (c_bytesPerSector c) (c_cacheEntries d ! j) s"
      proof (cases "j = i")
        case True
        with clean have ok' using \<open>\<not> found \<and> e_dirty ?e\<close> by (auto simp: d_def split: if_splits)
        with True hold show ?thesis using med'(2) [of s] by (simp add: d_def i)
      next
        case False
        with clean have "\<not> e_dirty (c_cacheEntries c ! j)" by (auto simp: d_def split: if_splits)
        with False clean_page [OF inv j _ hold] med'(1) [OF other [OF j hold False]] show ?thesis
          by (simp add: d_def)
      qed
    qed
    have "med (c_medium d) s = med (c_medium c) s"
      if "\<forall>j < length (c_cacheEntries c). \<not> holds (c_cacheEntries c ! j) s" for s
      using that i by (simp add: d_def med'(1))
    then have "cview med d s = cview med c s" for s
      by (intro cview_eqI [OF inv inv' geom]) (simp_all add: h)
    with inv' geom h show ?thesis by (auto simp: c' ok d_def i nth_list_update)
  qed
  then show "cache_inv med c'" and "cview med c' = cview med c" and "geom c' = geom c"
    and "\<And>j. j < length (c_cacheEntries c) \<Longrightarrow> holds (c_cacheEntries c' ! j) s = holds (c_cacheEntries c ! j) s"
    and "ok \<Longrightarrow> \<not> e_dirty (c_cacheEntries c' ! i)" by blast+
qed

lemma medium_inv:
  assumes inv: "cache_inv med c" and "med m = med (c_medium c)"
  shows "cache_inv med (c\<lparr>c_medium := m\<rparr>)" and "cview med (c\<lparr>c_medium := m\<rparr>) = cview med c"
proof -
  show inv': "cache_inv med (c\<lparr>c_medium := m\<rparr>)"
  proof (rule cache_inv_step [OF inv])
    show "pages_distinct (c_cacheEntries (c\<lparr>c_medium := m\<rparr>))"
      using inv by (simp add: cache_inv_def)
    fix j s assume "j < length (c_cacheEntries c)"
      and "\<not> e_dirty (c_cacheEntries (c\<lparr>c_medium := m\<rparr>) ! j)"
      and "holds (c_cacheEntries (c\<lparr>c_medium := m\<rparr>) ! j) s"
    then show "med (c_medium (c\<lparr>c_medium := m\<rparr>)) s
      = page_slice (c_bytesPerSector c) (c_cacheEntries (c\<lparr>c_medium := m\<rparr>) ! j) s"
      using clean_page [OF inv, of j s] by (simp add: assms(2))
  qed (simp_all add: entry_okI [OF inv])
  show "cview med (c\<lparr>c_medium := m\<rparr>) = cview med c"
    by (rule ext, rule cview_eqI [OF inv inv']) (simp_all add: assms(2))
qed

text \<open>The geometry of the page a sector belongs to.\<close>

lemma page_geometry:
  assumes inv: "cache_inv med c" and s: "s < c_endOfPartition c"
  defines "base \<equiv> s div c_sectorsPerPage c * c_sectorsPerPage c"
  defines "next \<equiv> (if base + c_sectorsPerPage c > c_endOfPartition c then c_endOfPartition c
    else base + c_sectorsPerPage c)"
  shows "unat base = unat s div unat (c_sectorsPerPage c) * unat (c_sectorsPerPage c)"
    and "unat base \<le> unat s" and "unat s < unat base + unat (c_sectorsPerPage c)"
    and "unat (next - base) = min (unat (c_sectorsPerPage c)) (unat (c_endOfPartition c) - unat base)"
proof -
  let ?spp = "unat (c_sectorsPerPage c)"
  have pos: "0 < ?spp" and bound: "unat (c_endOfPartition c) + ?spp < 2 ^ 32"
    using cache_inv_geometry [OF inv] by (simp_all add: geometry_ok_def)
  show base: "unat base = unat s div ?spp * ?spp" by (simp add: base_def unat_align_down)
  then show le: "unat base \<le> unat s" by simp
  show "unat s < unat base + ?spp"
    using div_mult_mod_eq [of "unat s" ?spp] mod_less_divisor [OF pos, of "unat s"]
    unfolding base by linarith
  have lt: "unat base < unat (c_endOfPartition c)"
    using le s by (simp add: word_less_nat_alt)
  then have sum: "unat (base + c_sectorsPerPage c) = unat base + ?spp"
    using bound by (intro unat_add_small) simp
  show "unat (next - base) = min ?spp (unat (c_endOfPartition c) - unat base)"
  proof (cases "unat base + ?spp > unat (c_endOfPartition c)")
    case True
    then have "next = c_endOfPartition c" using sum by (simp add: next_def word_less_nat_alt)
    with True lt show ?thesis by (simp add: unat_sub_le)
  next
    case False
    then have "next = base + c_sectorsPerPage c" using sum by (simp add: next_def word_less_nat_alt)
    with False sum show ?thesis by (simp add: unat_sub_le)
  qed
qed

text \<open>Replacing a clean page by a freshly read one.\<close>

lemma install_page:
  assumes inv: "cache_inv med c" and i: "i < length (c_cacheEntries c)"
    and clean: "\<not> e_dirty (c_cacheEntries c ! i)"
    and eok: "entry_ok (c_endOfPartition c) (c_sectorsPerPage c) (c_bytesPerSector c) e"
    and fresh: "\<And>j. j < length (c_cacheEntries c) \<Longrightarrow> e_sector (c_cacheEntries c ! j) \<noteq> e_sector e"
    and data: "\<And>s. holds e s \<Longrightarrow> med (c_medium c) s = page_slice (c_bytesPerSector c) e s"
    and d_def: "d = c\<lparr>c_accessCounter := n, c_cacheEntries := (c_cacheEntries c)[i := e]\<rparr>"
  shows "cache_inv med d" and "cview med d = cview med c"
proof -
  let ?es = "c_cacheEntries c"
  have geom: "geom d = geom c" by (simp add: d_def geom_def)
  show inv': "cache_inv med d"
  proof (rule cache_inv_step [OF inv geom])
    show "pages_distinct (c_cacheEntries d)"
      using inv i fresh fresh [symmetric] unfolding cache_inv_def pages_distinct_def
      by (simp add: d_def nth_list_update)
    fix j assume j: "j < length (c_cacheEntries c)"
    show "entry_ok (c_endOfPartition c) (c_sectorsPerPage c) (c_bytesPerSector c) (c_cacheEntries d ! j)"
      using eok entry_okI [OF inv j] by (simp add: d_def nth_list_update i)
    fix s assume "\<not> e_dirty (c_cacheEntries d ! j)" and "holds (c_cacheEntries d ! j) s"
    then show "med (c_medium d) s = page_slice (c_bytesPerSector c) (c_cacheEntries d ! j) s"
      using data clean_page [OF inv j] by (cases "j = i") (simp_all add: d_def i)
  qed
  show "cview med d = cview med c"
  proof
    fix s
    consider (new) "holds e s" | (old) j where "j < length ?es" "j \<noteq> i" "holds (?es ! j) s"
      | (gone) "\<not> holds e s" "\<And>j. j < length ?es \<Longrightarrow> j \<noteq> i \<Longrightarrow> \<not> holds (?es ! j) s"
      by blast
    then show "cview med d s = cview med c s"
    proof cases
      case new
      have "cview med d s = page_slice (c_bytesPerSector c) e s"
        using cview_hit [OF inv', of i s] new i geomD [OF geom] by (simp add: d_def)
      moreover have miss: "\<not> holds (?es ! j) s" if "j < length ?es" for j
      proof
        assume "holds (?es ! j) s"
        then have "unat (e_sector (?es ! j)) = unat (e_sector e)"
          using holds_base [OF entry_okI [OF inv that] cache_bound [OF inv]]
            holds_base [OF eok cache_bound [OF inv] new] by simp
        with fresh [OF that] show False by (simp add: word_eq_iff_unat_eq)
      qed
      ultimately show ?thesis
        using cview_miss [OF miss] data [OF new] by simp
    next
      case (old j)
      then show ?thesis
        using cview_hit [OF inv', of j s] cview_hit [OF inv, of j s] i
        by (simp add: d_def nth_list_update)
    next
      case gone
      then have "cview med d s = med (c_medium c) s"
        using cview_miss [of d s med] i by (auto simp: d_def nth_list_update)
      moreover have "cview med c s = med (c_medium c) s"
        using gone clean_page [OF inv i clean] cview_hit [OF inv i] cview_miss [of c s med]
        by (metis (no_types))
      ultimately show ?thesis by simp
    qed
  qed
qed

lemma getPage_load_spec:
  assumes inv: "cache_inv med c" and i: "i < length (c_cacheEntries c)"
    and clean: "\<not> e_dirty (c_cacheEntries c ! i)" and s: "s < c_endOfPartition c"
    and miss: "\<And>j. j < length (c_cacheEntries c) \<Longrightarrow> \<not> holds (c_cacheEntries c ! j) s"
  obtains r c' where "getPage_load c s i = Some (r, c')" and "geom c' = geom c"
    and "r = None \<Longrightarrow> disc_quiet (c_disc c) \<Longrightarrow> cache_inv med c' \<and> cview med c' = cview med c"
    and "r = None \<Longrightarrow> \<not> disc_reliable (c_disc c) (unat (c_endOfPartition c))"
    and "r \<noteq> None \<Longrightarrow> r = Some i \<and> cache_inv med c' \<and> cview med c' = cview med c \<and>
      holds (c_cacheEntries c' ! i) s"
proof -
  let ?e = "c_cacheEntries c ! i" and ?spp = "c_sectorsPerPage c" and ?lim = "c_endOfPartition c"
  let ?bps = "unat (c_bytesPerSector c)"
  define base where "base = s div ?spp * ?spp"
  define nxt where "nxt = (if base + ?spp > ?lim then ?lim else base + ?spp)"
  note pg = page_geometry [OF inv s, folded base_def, folded nxt_def]
  have disc: "disc_ok (c_disc c) med ?bps" and pos: "0 < unat ?spp"
    and bound: "unat ?lim + unat ?spp < 2 ^ 32"
    using inv by (simp_all add: cache_inv_def geometry_ok_def)
  have nz: "?spp \<noteq> 0" using pos by auto
  have lt: "unat s < unat ?lim" using s by (simp add: word_less_nat_alt)
  obtain ok data m where rd: "readSectors (c_disc c) (c_medium c) base (nxt - base) = (ok, data, m)"
    by (metis prod_cases3)
  have med: "med m = med (c_medium c)" by (rule disc_read(1) [OF disc rd])
  have n_le: "unat (nxt - base) * ?bps \<le> length (e_cache ?e)"
    using pg(4) entry_okI [OF inv i] by (simp add: entry_ok_def)
  have data_len: "length data \<le> unat (nxt - base) * ?bps"
    using disc_read(2) [OF disc rd] disc_read(3) [OF disc rd] pg(2,4) lt bound
      length_sectors_of [of "med (c_medium c)", OF disc_ok_length [OF disc]] by (cases ok) auto
  then have poke: "poke (e_cache ?e) 0 data = Some (splice (e_cache ?e) 0 data)"
    using n_le by (simp add: poke_Some)
  define c1 where "c1 = set_entry i (e_cache_update (\<lambda>_. splice (e_cache ?e) 0 data)) (c\<lparr>c_medium := m\<rparr>)"
  note load = getPage_load_def [of c s i, unfolded Let_def, folded base_def, folded nxt_def]
  show thesis
  proof (cases ok)
    case False
    have "getPage_load c s i = Some (None, c1)"
      using nz rd poke False by (simp add: load FAT_disc_readSectors_def c1_def)
    moreover have "geom c1 = geom c" by (simp add: c1_def)
    moreover have "\<not> disc_reliable (c_disc c) (unat ?lim)"
    proof -
      have "unat base + unat (nxt - base) \<le> unat ?lim" "0 < unat (nxt - base)" using pg(2,4) lt pos by simp_all
      then show ?thesis using rd False disc_reliableD(1) [of "c_disc c" "unat ?lim" "nxt - base" base "c_medium c"] by auto
    qed
    moreover have "cache_inv med c1 \<and> cview med c1 = cview med c" if "disc_quiet (c_disc c)"
    proof -
      have "readSectors (c_disc c) (c_medium c) base (nxt - base) = (False, data, m)"
        using rd False by simp
      with that have "data = []" unfolding disc_quiet_def by blast
      then have "c1 = c\<lparr>c_medium := m\<rparr>"
        by (simp add: c1_def set_entry_def splice_Nil)
      then show ?thesis using medium_inv [OF inv med] by simp
    qed
    ultimately show thesis using that by blast
  next
    case True
    define e where "e = ?e\<lparr>e_cache := splice (e_cache ?e) 0 data, e_sector := base,
      e_count := nxt - base, e_last_access := c_accessCounter c + 1\<rparr>"
    define d where "d = c\<lparr>c_medium := m, c_accessCounter := c_accessCounter c + 1,
      c_cacheEntries := (c_cacheEntries c)[i := e]\<rparr>"
    have "getPage_load c s i = Some (Some i, d)"
      using nz rd poke True i
      by (simp add: load FAT_disc_readSectors_def accessTime_simp set_entry_def e_def d_def)
    moreover have geom: "geom d = geom c" by (simp add: d_def geom_def)
    moreover have "holds e s \<and> cache_inv med d \<and> cview med d = cview med c"
    proof -
      have nf: "base \<noteq> CACHE_FREE"
        using pg(2) lt bound pos by (auto simp: CACHE_FREE_def)
      have dvd: "unat ?spp dvd unat base" by (simp add: pg(1))
      have "length (splice (e_cache ?e) 0 data) = length (e_cache ?e)"
        using data_len n_le by simp
      then have eok: "entry_ok ?lim ?spp (c_bytesPerSector c) e"
        using entry_okI [OF inv i] nf dvd pg(2,4) lt by (simp add: e_def entry_ok_def)
      have hold: "holds e t = (unat base \<le> unat t \<and> unat t < unat base + unat (nxt - base))" for t
        using holds_unat [OF eok bound] nf by (simp add: e_def)
      have hs: "holds e s" using pg lt by (simp add: hold)
      have data: "data = sectors_of (med m) base (unat (nxt - base))"
        using disc_read(2) [OF disc rd True] pg(2,4) lt bound med by simp
      have len: "length data = unat (nxt - base) * ?bps"
        by (simp add: data length_sectors_of [OF disc_ok_length [OF disc]])
      have slice: "med m t = page_slice (c_bytesPerSector c) e t" if "holds e t" for t
      proof -
        have k: "unat t - unat base < unat (nxt - base)" and le: "unat base \<le> unat t"
          using that by (auto simp: hold)
        then have "(unat t - unat base) * ?bps + ?bps \<le> unat (nxt - base) * ?bps"
          by (metis Suc_leI add.commute mult_Suc mult_le_mono1)
        then have "page_slice (c_bytesPerSector c) e t = slice data ((unat t - unat base) * ?bps) ?bps"
          using len n_le by (simp add: page_slice_def e_def slice_splice_within)
        also have "\<dots> = med m t"
          unfolding data using slice_sectors_of [OF disc_ok_length [OF disc] k]
          by (simp add: sector_in_range [OF le, symmetric])
        finally show ?thesis by simp
      qed
      have fresh: "e_sector (c_cacheEntries c ! j) \<noteq> e_sector e" if j: "j < length (c_cacheEntries c)" for j
      proof
        assume eq: "e_sector (c_cacheEntries c ! j) = e_sector e"
        then have "holds (c_cacheEntries c ! j) s"
          using hs nf entry_okI [OF inv j] eok
          by (simp add: holds_unat [OF entry_okI [OF inv j] bound] holds_unat [OF eok bound])
             (simp add: entry_ok_def e_def)
        with miss [OF j] show False by simp
      qed
      have "cache_inv med (c\<lparr>c_medium := m\<rparr>)" "cview med (c\<lparr>c_medium := m\<rparr>) = cview med c"
        using medium_inv [OF inv med] by simp_all
      moreover have "cache_inv med d" "cview med d = cview med (c\<lparr>c_medium := m\<rparr>)"
        using install_page [OF \<open>cache_inv med (c\<lparr>c_medium := m\<rparr>)\<close>, of i e d "c_accessCounter c + 1"]
          i clean eok fresh slice by (simp_all add: d_def)
      ultimately show ?thesis using hs by simp
    qed
    moreover have "c_cacheEntries d ! i = e" using i by (simp add: d_def)
    ultimately show thesis using that [of "Some i" d] by simp
  qed
qed

text \<open>Finding a page never goes wrong inside the partition: it returns the page of the sector, or
  the null pointer when the driver failed. It never changes what the cache shows, provided a failed
  read leaves the page buffer alone.\<close>

lemma getPage_spec:
  assumes inv: "cache_inv med c" and s: "s < c_endOfPartition c"
  obtains r c' where "FAT_cache_getPage c s = Some (r, c')" and "geom c' = geom c"
    and "r = None \<Longrightarrow> disc_quiet (c_disc c) \<Longrightarrow> cache_inv med c' \<and> cview med c' = cview med c"
    and "r = None \<Longrightarrow> \<not> disc_reliable (c_disc c) (unat (c_endOfPartition c))"
    and "\<And>i. r = Some i \<Longrightarrow> cache_inv med c' \<and> cview med c' = cview med c \<and>
      i < length (c_cacheEntries c') \<and> holds (c_cacheEntries c' ! i) s"
proof (cases "getPage_scan (c_cacheEntries c) s 0 False 0 UINT_MAX")
  case (Inl i)
  then have i: "i < length (c_cacheEntries c)" "holds (c_cacheEntries c ! i) s"
    using getPage_scan_Inl [OF Inl] by simp_all
  let ?d = "set_entry i (e_last_access_update (\<lambda>_. c_accessCounter c + 1))
    (c\<lparr>c_accessCounter := c_accessCounter c + 1\<rparr>)"
  have "FAT_cache_getPage c s = Some (Some i, ?d)"
    by (simp add: FAT_cache_getPage_def Inl accessTime_simp)
  with touch_inv [OF inv i(1) refl] i show thesis
    by (intro that [of "Some i" ?d]) (simp_all add: nth_list_update)
next
  case (Inr fu)
  obtain found i where fu: "fu = (found, i)" by fastforce
  have miss: "\<not> holds (c_cacheEntries c ! j) s" if "j < length (c_cacheEntries c)" for j
    using getPage_scan_Inr [OF Inr [unfolded fu]] that by simp
  have i: "i < length (c_cacheEntries c)" and free: "found \<longrightarrow> e_sector (c_cacheEntries c ! i) = CACHE_FREE"
    using getPage_scan_Inr [OF Inr [unfolded fu]] pages_nonempty [OF inv] by auto
  obtain ok c1 where ev: "getPage_evict c found i = (ok, c1)" by fastforce
  note evict = getPage_evict_spec [OF inv i free ev]
  have page: "FAT_cache_getPage c s = (if ok then getPage_load c1 s i else Some (None, c1))"
    using i by (simp add: FAT_cache_getPage_def Inr fu ev)
  show thesis
  proof (cases ok)
    case False
    have dirty: "\<not> found" "e_dirty (c_cacheEntries c ! i)" and nf: "e_sector (c_cacheEntries c ! i) \<noteq> CACHE_FREE"
      using ev False free_not_dirty [OF inv i]
      by (auto simp: getPage_evict_def Let_def split: if_splits)
    with ev False have failed: "\<not> fst (writeSectors (c_disc c) (c_medium c) (e_sector (c_cacheEntries c ! i))
        (e_count (c_cacheEntries c ! i)) (e_cache (c_cacheEntries c ! i)))"
      by (auto simp: getPage_evict_def Let_def FAT_disc_writeSectors_def split: prod.splits if_splits)
    have "0 < unat (c_sectorsPerPage c)" using cache_inv_geometry [OF inv] unfolding geometry_ok_def by blast
    note pos = entry_count_pos [OF entry_okI [OF inv i] this nf]
    have "\<not> disc_reliable (c_disc c) (unat (c_endOfPartition c))"
      by (rule notI) (rule notE [OF failed],
        rule disc_reliableD(2) [OF _ pos entry_count_bounds(1) [OF entry_okI [OF inv i] cache_bound [OF inv] nf]])
    with page False evict show thesis by (intro that [of None c1]) simp_all
  next
    case True
    note geo = geomD [OF evict(3)]
    from i s miss True evict obtain r c' where "getPage_load c1 s i = Some (r, c')" "geom c' = geom c1"
      "r = None \<Longrightarrow> disc_quiet (c_disc c1) \<Longrightarrow> cache_inv med c' \<and> cview med c' = cview med c1"
      "r = None \<Longrightarrow> \<not> disc_reliable (c_disc c1) (unat (c_endOfPartition c1))"
      "r \<noteq> None \<Longrightarrow> r = Some i \<and> cache_inv med c' \<and> cview med c' = cview med c1 \<and> holds (c_cacheEntries c' ! i) s"
      using geo by (elim getPage_load_spec [of med c1 i s]) simp_all
    with page True evict geo i geomD(6) [OF \<open>geom c' = geom c1\<close>] show thesis
      by (intro that [of r c']) auto
  qed
qed

section \<open>Outcomes of an operation\<close>

text \<open>\<open>kept\<close>: the cache still shows the same disc. \<open>failed\<close>: the driver failed, and unless a
  failed read scribbled into a page buffer, the cache still shows the same disc.\<close>

definition kept :: "('d \<Rightarrow> sec_t \<Rightarrow> u8 list) \<Rightarrow> 'd cache \<Rightarrow> 'd cache \<Rightarrow> bool" where
  "kept med c c' \<longleftrightarrow> cache_inv med c' \<and> cview med c' = cview med c \<and> geom c' = geom c"

definition failed :: "('d \<Rightarrow> sec_t \<Rightarrow> u8 list) \<Rightarrow> 'd cache \<Rightarrow> 'd cache \<Rightarrow> bool" where
  "failed med c c' \<longleftrightarrow> geom c' = geom c \<and>
     \<not> disc_reliable (c_disc c) (unat (c_endOfPartition c)) \<and>
     (disc_quiet (c_disc c) \<longrightarrow> kept med c c')"

lemma kept_refl: "cache_inv med c \<Longrightarrow> kept med c c"
  by (simp add: kept_def)

lemma getPage_result:
  assumes inv: "cache_inv med c" and s: "s < c_endOfPartition c"
  shows "\<exists>r c'. FAT_cache_getPage c s = Some (r, c') \<and>
    (case r of None \<Rightarrow> failed med c c'
     | Some i \<Rightarrow> kept med c c' \<and> i < length (c_cacheEntries c') \<and> holds (c_cacheEntries c' ! i) s)"
proof (rule getPage_spec [OF inv s])
  fix r c'
  assume "FAT_cache_getPage c s = Some (r, c')" and "geom c' = geom c"
    and "r = None \<Longrightarrow> disc_quiet (c_disc c) \<Longrightarrow> cache_inv med c' \<and> cview med c' = cview med c"
    and "r = None \<Longrightarrow> \<not> disc_reliable (c_disc c) (unat (c_endOfPartition c))"
    and "\<And>i. r = Some i \<Longrightarrow> cache_inv med c' \<and> cview med c' = cview med c \<and>
      i < length (c_cacheEntries c') \<and> holds (c_cacheEntries c' ! i) s"
  then show ?thesis by (auto simp: kept_def failed_def split: option.split)
qed

lemma getPage_cases:
  assumes inv: "cache_inv med c" and s: "s < c_endOfPartition c"
  obtains (none) c' where "FAT_cache_getPage c s = Some (None, c')" and "failed med c c'"
  | (page) i c' where "FAT_cache_getPage c s = Some (Some i, c')" and "kept med c c'" and "cache_inv med c'"
      and "cview med c' = cview med c" and "geom c' = geom c"
      and "i < length (c_cacheEntries c')" and "holds (c_cacheEntries c' ! i) s"
  using getPage_result [OF inv s] by (fastforce simp: kept_def split: option.splits)

text \<open>The outcomes of a read that should return \<open>v\<close> and of a write that should leave the view
  \<open>v\<close>.\<close>

definition read_result :: "('d \<Rightarrow> sec_t \<Rightarrow> u8 list) \<Rightarrow> 'd cache \<Rightarrow> ('a option \<times> 'd cache) option \<Rightarrow> 'a \<Rightarrow> bool" where
  "read_result med c res v \<longleftrightarrow> (\<exists>c'. res = Some (Some v, c') \<and> kept med c c') \<or>
     (\<exists>c'. res = Some (None, c') \<and> failed med c c')"

definition write_result ::
    "('d \<Rightarrow> sec_t \<Rightarrow> u8 list) \<Rightarrow> 'd cache \<Rightarrow> (bool \<times> 'd cache) option \<Rightarrow> (sec_t \<Rightarrow> u8 list) \<Rightarrow> bool" where
  "write_result med c res v \<longleftrightarrow>
     (\<exists>c'. res = Some (True, c') \<and> cache_inv med c' \<and> geom c' = geom c \<and> cview med c' = v) \<or>
     (\<exists>c'. res = Some (False, c') \<and> failed med c c')"

lemma read_result_ok: "kept med c c' \<Longrightarrow> read_result med c (Some (Some v, c')) v"
  by (simp add: read_result_def)

lemma read_result_failed: "failed med c c' \<Longrightarrow> read_result med c (Some (None, c')) v"
  by (simp add: read_result_def)

lemma write_result_ok:
  "cache_inv med c' \<Longrightarrow> geom c' = geom c \<Longrightarrow> cview med c' = v \<Longrightarrow> write_result med c (Some (True, c')) v"
  by (simp add: write_result_def)

lemma write_result_failed: "failed med c c' \<Longrightarrow> write_result med c (Some (False, c')) v"
  by (simp add: write_result_def)

section \<open>Reading and writing through a page\<close>

lemma modify_page:
  assumes inv: "cache_inv med c" and i: "i < length (c_cacheEntries c)"
    and nf: "e_sector (c_cacheEntries c ! i) \<noteq> CACHE_FREE"
    and len: "length page = length (e_cache (c_cacheEntries c ! i))"
    and d_def: "d = set_entry i (\<lambda>e. e\<lparr>e_cache := page, e_dirty := True\<rparr>) c"
  shows "cache_inv med d" and "geom d = geom c"
    and "cview med d t = (if holds (c_cacheEntries c ! i) t
      then slice page ((unat t - unat (e_sector (c_cacheEntries c ! i))) * unat (c_bytesPerSector c))
             (unat (c_bytesPerSector c))
      else cview med c t)"
proof -
  let ?e = "c_cacheEntries c ! i"
  show geom: "geom d = geom c" by (simp add: d_def)
  have nth: "c_cacheEntries d ! j = (if j = i then ?e\<lparr>e_cache := page, e_dirty := True\<rparr> else c_cacheEntries c ! j)"
    if "j < length (c_cacheEntries c)" for j
    using that by (auto simp: d_def nth_list_update)
  have hold: "holds (?e\<lparr>e_cache := page, e_dirty := True\<rparr>) t = holds ?e t" for t
    by (simp add: holds_def)
  show inv': "cache_inv med d"
  proof (rule cache_inv_step [OF inv geom])
    show "pages_distinct (c_cacheEntries d)"
      by (rule pages_distinctI [OF inv]) (auto simp: d_def nth_list_update i)
    fix j assume j: "j < length (c_cacheEntries c)"
    show "entry_ok (c_endOfPartition c) (c_sectorsPerPage c) (c_bytesPerSector c) (c_cacheEntries d ! j)"
      using entry_okI [OF inv j] entry_okI [OF inv i] nf len by (auto simp: nth j entry_ok_def)
    fix s assume "\<not> e_dirty (c_cacheEntries d ! j)" and "holds (c_cacheEntries d ! j) s"
    then show "med (c_medium d) s = page_slice (c_bytesPerSector c) (c_cacheEntries d ! j) s"
      using clean_page [OF inv j, of s] by (auto simp: nth j split: if_splits) (simp add: d_def)
  qed
  show "cview med d t = (if holds ?e t
      then slice page ((unat t - unat (e_sector ?e)) * unat (c_bytesPerSector c)) (unat (c_bytesPerSector c))
      else cview med c t)"
  proof (cases "holds ?e t")
    case True
    then show ?thesis
      using cview_hit [OF inv', of i t] i geomD(5) [OF geom] by (simp add: nth hold) (simp add: page_slice_def d_def)
  next
    case False
    have "cview med d t = cview med c t"
      using False by (intro cview_eqI [OF inv inv' geom]) (auto simp: nth hold, simp_all add: d_def)
    with False show ?thesis by simp
  qed
qed

text \<open>Where a sector lies in its page.\<close>

lemma sector_in_page:
  assumes inv: "cache_inv med c" and i: "i < length (c_cacheEntries c)" and h: "holds (c_cacheEntries c ! i) s"
  defines "e \<equiv> c_cacheEntries c ! i" and "bps \<equiv> unat (c_bytesPerSector c)"
  shows "e_sector e \<noteq> CACHE_FREE" and "unat (s - e_sector e) = unat s - unat (e_sector e)"
    and "unat (s - e_sector e) < unat (e_count e)"
    and "unat (e_sector e) \<le> unat s"
    and "(unat s - unat (e_sector e)) * bps + bps \<le> length (e_cache e)"
    and "length (e_cache e) < 2 ^ 32"
    and "unat (e_count e) * bps \<le> length (e_cache e)"
    and "unat (e_sector e) + unat (e_count e) \<le> unat (c_endOfPartition c)"
proof -
  note eok = entry_okI [OF inv i, folded e_def] and bound = cache_bound [OF inv]
  from h show nf: "e_sector e \<noteq> CACHE_FREE" and le: "unat (e_sector e) \<le> unat s"
    and off: "unat (s - e_sector e) = unat s - unat (e_sector e)"
    and "unat (s - e_sector e) < unat (e_count e)"
    using holds_unat [OF eok bound] by (auto simp: e_def unat_sub_le)
  show "(unat s - unat (e_sector e)) * bps + bps \<le> length (e_cache e)"
    using page_offset_bound [OF eok bound] h by (simp add: e_def bps_def)
  show "length (e_cache e) < 2 ^ 32"
    using eok cache_inv_geometry [OF inv] by (simp add: entry_ok_def geometry_ok_def)
  show "unat (e_count e) * bps \<le> length (e_cache e)"
    and "unat (e_sector e) + unat (e_count e) \<le> unat (c_endOfPartition c)"
    using entry_count_bounds [OF eok bound nf] by (simp_all add: bps_def)
qed

lemma page_byte_offset:
  assumes inv: "cache_inv med c" and i: "i < length (c_cacheEntries c)" and h: "holds (c_cacheEntries c ! i) s"
    and off: "unat off \<le> unat (c_bytesPerSector c)"
  shows "unat ((s - e_sector (c_cacheEntries c ! i)) * c_bytesPerSector c + off)
    = (unat s - unat (e_sector (c_cacheEntries c ! i))) * unat (c_bytesPerSector c) + unat off"
proof -
  note sp = sector_in_page [OF inv i h]
  have "unat ((s - e_sector (c_cacheEntries c ! i)) * c_bytesPerSector c)
      = (unat s - unat (e_sector (c_cacheEntries c ! i))) * unat (c_bytesPerSector c)"
    using sp(2,5,6) by (subst unat_mult_small) simp_all
  with sp(5,6) off show ?thesis by (subst unat_add_small) simp_all
qed

lemma no_wrap_guard:
  "unat off + unat sz \<le> unat (b :: u32) \<Longrightarrow> \<not> b < off + sz"
  using unat_lt_2p32 [of b] by (simp add: word_less_nat_alt unat_add_small)

text \<open>A partial read returns the bytes the cache shows.\<close>

lemma readPartialSector_spec:
  assumes inv: "cache_inv med c" and s: "s < c_endOfPartition c"
    and fits: "unat off + unat sz \<le> unat (c_bytesPerSector c)"
  shows "read_result med c (FAT_cache_readPartialSector c s off sz)
    (slice (cview med c s) (unat off) (unat sz))"
  using inv s
proof (cases rule: getPage_cases)
  case (none c')
  then show ?thesis
    using no_wrap_guard [OF fits] by (simp add: FAT_cache_readPartialSector_def read_result_failed)
next
  case (page i c')
  note inv' = page(3) and i = page(6) and h = page(7) and bps = geomD(5) [OF page(5)]
  let ?e = "c_cacheEntries c' ! i"
  let ?o = "(unat s - unat (e_sector ?e)) * unat (c_bytesPerSector c) + unat off"
  have "unat ((s - e_sector ?e) * c_bytesPerSector c' + off) = ?o"
    using page_byte_offset [OF inv' i h, of off] fits bps by simp
  moreover have "?o + unat sz \<le> length (e_cache ?e)"
    using sector_in_page(5) [OF inv' i h] fits bps by simp
  moreover have "slice (e_cache ?e) ?o (unat sz) = slice (cview med c s) (unat off) (unat sz)"
    using cview_hit [OF inv' i h] page(4) bps fits by (simp add: page_slice_def slice_slice)
  ultimately show ?thesis
    using no_wrap_guard [OF fits] page
    by (simp add: FAT_cache_readPartialSector_def peek_Some read_result_ok)
qed

text \<open>A partial write changes exactly the bytes it names.\<close>

lemma splice_page_view:
  assumes inv: "cache_inv med c" and i: "i < length (c_cacheEntries c)"
    and h: "holds (c_cacheEntries c ! i) s" and fits: "off + length data \<le> unat (c_bytesPerSector c)"
  defines "e \<equiv> c_cacheEntries c ! i" and "bps \<equiv> unat (c_bytesPerSector c)"
  defines "page \<equiv> splice (e_cache e) ((unat s - unat (e_sector e)) * bps + off) data"
  shows "(if holds e t then slice page ((unat t - unat (e_sector e)) * bps) bps else cview med c t)
    = ((cview med c)(s := splice (cview med c s) off data)) t"
proof (cases "holds e t")
  case False
  with h show ?thesis by (auto simp: e_def)
next
  case True
  note sp = sector_in_page [OF inv i h, folded e_def bps_def]
    and tp = sector_in_page [OF inv i True [unfolded e_def], folded e_def bps_def]
  let ?s = "unat s - unat (e_sector e)" and ?t = "unat t - unat (e_sector e)"
  have view: "cview med c u = slice (e_cache e) ((unat u - unat (e_sector e)) * bps) bps" if "holds e u" for u
    using cview_hit [OF inv i that [unfolded e_def]] by (simp add: page_slice_def e_def bps_def)
  consider "t = s" | "?t < ?s" "t \<noteq> s" | "?s < ?t" "t \<noteq> s"
    using sp(4) tp(4) by (metis eq_diff_iff linorder_neqE_nat word_eq_iff_unat_eq)
  then show ?thesis
  proof cases
    case 1
    then show ?thesis
      using True sp(5) fits view [OF True]
      by (simp add: page_def slice_splice_inside bps_def)
  next
    case 2
    then have "?t * bps + bps \<le> ?s * bps"
      by (metis Suc_leI add.commute mult_Suc mult_le_mono1)
    with 2 True sp(5) fits view [OF True] show ?thesis
      by (simp add: page_def slice_splice_before bps_def)
  next
    case 3
    then have "?s * bps + bps \<le> ?t * bps"
      by (metis Suc_leI add.commute mult_Suc mult_le_mono1)
    with 3 True sp(5) fits view [OF True] show ?thesis
      by (simp add: page_def slice_splice_after bps_def)
  qed
qed

lemma write_page:
  assumes inv: "cache_inv med c" and i: "i < length (c_cacheEntries c)"
    and h: "holds (c_cacheEntries c ! i) s" and fits: "off + length data \<le> unat (c_bytesPerSector c)"
    and page: "page = splice (e_cache (c_cacheEntries c ! i))
      ((unat s - unat (e_sector (c_cacheEntries c ! i))) * unat (c_bytesPerSector c) + off) data"
    and d: "d = set_entry i (\<lambda>e. e\<lparr>e_cache := page, e_dirty := True\<rparr>) c"
  shows "cache_inv med d" and "geom d = geom c"
    and "cview med d = (cview med c)(s := splice (cview med c s) off data)"
proof -
  note sp = sector_in_page [OF inv i h]
  have "length page = length (e_cache (c_cacheEntries c ! i))"
    using sp(5) fits by (simp add: page)
  note mod = modify_page [OF inv i sp(1) this d]
  show "cache_inv med d" and "geom d = geom c" by (rule mod)+
  show "cview med d = (cview med c)(s := splice (cview med c s) off data)"
  proof
    fix t
    show "cview med d t = ((cview med c)(s := splice (cview med c s) off data)) t"
      unfolding mod(3) page by (rule splice_page_view [OF inv i h fits])
  qed
qed

lemma writePartialSector_spec:
  assumes inv: "cache_inv med c" and s: "s < c_endOfPartition c"
    and fits: "unat off + unat sz \<le> unat (c_bytesPerSector c)" and buf: "unat sz \<le> length buffer"
  shows "write_result med c (FAT_cache_writePartialSector c buffer s off sz)
    ((cview med c)(s := splice (cview med c s) (unat off) (take (unat sz) buffer)))"
  using inv s
proof (cases rule: getPage_cases)
  case (none c')
  then show ?thesis
    using no_wrap_guard [OF fits] by (simp add: FAT_cache_writePartialSector_def write_result_failed)
next
  case (page i c')
  note inv' = page(3) and i = page(6) and h = page(7) and bps = geomD(5) [OF page(5)]
  let ?e = "c_cacheEntries c' ! i" and ?data = "take (unat sz) buffer"
  let ?o = "(unat s - unat (e_sector ?e)) * unat (c_bytesPerSector c') + unat off"
  define p where "p = splice (e_cache ?e) ?o ?data"
  have off: "unat ((s - e_sector ?e) * c_bytesPerSector c' + off) = ?o"
    using page_byte_offset [OF inv' i h, of off] fits bps by simp
  have "?o + length ?data \<le> length (e_cache ?e)"
    using sector_in_page(5) [OF inv' i h] fits bps by simp
  then have "FAT_cache_writePartialSector c buffer s off sz
      = Some (True, set_entry i (\<lambda>e. e\<lparr>e_cache := p, e_dirty := True\<rparr>) c')"
    using no_wrap_guard [OF fits] page(1) buf off
    by (simp add: FAT_cache_writePartialSector_def peek_def poke_def p_def slice_def Let_def)
  then show ?thesis
    using write_page [OF inv' i h _ p_def refl] fits bps page(4,5) buf by (simp add: write_result_ok)
qed

text \<open>An erasing write zeroes the rest of the sector.\<close>

lemma eraseWritePartialSector_spec:
  assumes inv: "cache_inv med c" and s: "s < c_endOfPartition c"
    and fits: "unat off + unat sz \<le> unat (c_bytesPerSector c)" and buf: "unat sz \<le> length buffer"
  shows "write_result med c (FAT_cache_eraseWritePartialSector c buffer s off sz)
    ((cview med c)(s :=
       splice (replicate (unat (c_bytesPerSector c)) 0) (unat off) (take (unat sz) buffer)))"
  using inv s
proof (cases rule: getPage_cases)
  case (none c')
  then show ?thesis
    using no_wrap_guard [OF fits] by (simp add: FAT_cache_eraseWritePartialSector_def write_result_failed)
next
  case (page i c')
  note inv' = page(3) and i = page(6) and h = page(7) and bps = geomD(5) [OF page(5)]
  let ?e = "c_cacheEntries c' ! i" and ?data = "take (unat sz) buffer"
  let ?bps = "unat (c_bytesPerSector c)"
  let ?o = "(unat s - unat (e_sector ?e)) * unat (c_bytesPerSector c')"
  let ?sector = "splice (replicate ?bps 0) (unat off) ?data"
  define p where "p = splice (e_cache ?e) (?o + 0) ?sector"
  have off: "unat ((s - e_sector ?e) * c_bytesPerSector c' + off) = ?o + unat off"
    using page_byte_offset [OF inv' i h, of off] fits bps by simp
  have off0: "unat ((s - e_sector ?e) * c_bytesPerSector c') = ?o"
    using page_byte_offset [OF inv' i h, of 0] by simp
  have room: "?o + ?bps \<le> length (e_cache ?e)"
    using sector_in_page(5) [OF inv' i h] bps by simp
  have p: "p = splice (splice (e_cache ?e) ?o (replicate ?bps 0)) (?o + unat off) ?data"
    using splice_splice_nested [of ?o "replicate ?bps 0" "e_cache ?e" "unat off" ?data] room fits
    by (simp add: p_def)
  have "FAT_cache_eraseWritePartialSector c buffer s off sz
      = Some (True, set_entry i (\<lambda>e. e\<lparr>e_cache := p, e_dirty := True\<rparr>) c')"
    using no_wrap_guard [OF fits] page(1) buf off off0 room fits bps
    by (simp add: FAT_cache_eraseWritePartialSector_def peek_def poke_def p slice_def Let_def)
  moreover have "length ?sector = ?bps" using fits by simp
  moreover have "splice (cview med c' s) 0 ?sector = ?sector"
    using length_cview [OF inv', of s] \<open>length ?sector = ?bps\<close> bps by (intro splice_full) simp
  ultimately show ?thesis
    using write_page [OF inv' i h _ p_def refl] bps page(4,5) by (simp add: write_result_ok)
qed

subsection \<open>Little endian values\<close>

definition le_bytes :: "nat \<Rightarrow> u32 \<Rightarrow> u8 list" where
  "le_bytes n v = (if n = 1 then [ucast v] else if n = 2 then u16_to_u8array [0, 0] 0 (ucast v)
     else u32_to_u8array [0, 0, 0, 0] 0 v)"

definition le_value :: "u8 list \<Rightarrow> u32" where
  "le_value b = (if length b = 1 then ucast (b ! 0) else if length b = 2 then ucast (u8array_to_u16 b 0)
     else u8array_to_u32 b 0)"

lemma length_le_bytes: "n \<in> {1, 2, 4} \<Longrightarrow> length (le_bytes n v) = n"
  by (auto simp: le_bytes_def)

lemma le_roundtrip:
  assumes "n \<in> {1, 2, 4}"
  shows "le_value (le_bytes n v) = (if n = 4 then v else take_bit (8 * n) v)"
  using assms
  by (auto simp: le_value_def le_bytes_def u16_roundtrip u32_roundtrip
      unsigned_ucast_eq intro!: bit_word_eqI simp: bit_simps)

lemma readLittleEndianValue_spec:
  assumes inv: "cache_inv med c" and s: "s < c_endOfPartition c"
    and fits: "unat off + unat sz \<le> unat (c_bytesPerSector c)" and sz: "unat sz \<in> {1, 2, 4}"
  shows "read_result med c (FAT_cache_readLittleEndianValue c s off sz)
    (le_value (slice (cview med c s) (unat off) (unat sz)))"
proof -
  have sz': "sz = 1 \<or> sz = 2 \<or> sz = 4"
    using sz by (simp add: word_eq_iff_unat_eq)
  have len: "length (slice (cview med c s) (unat off) (unat sz)) = unat sz"
    using fits length_cview [OF inv, of s] by simp
  from readPartialSector_spec [OF inv s fits] show ?thesis
    unfolding read_result_def [of _ _ "FAT_cache_readPartialSector c s off sz"]
    using sz' len
    by (auto simp: FAT_cache_readLittleEndianValue_def le_value_def read_result_ok read_result_failed)
qed

lemma writeLittleEndianValue_spec:
  assumes inv: "cache_inv med c" and s: "s < c_endOfPartition c"
    and fits: "unat off + unat sz \<le> unat (c_bytesPerSector c)" and sz: "unat sz \<in> {1, 2, 4}"
  shows "write_result med c (FAT_cache_writeLittleEndianValue c v s off sz)
    ((cview med c)(s := splice (cview med c s) (unat off) (le_bytes (unat sz) v)))"
proof -
  have sz': "sz = 1 \<or> sz = 2 \<or> sz = 4"
    using sz by (simp add: word_eq_iff_unat_eq)
  note wr = writePartialSector_spec [OF inv s fits]
  from sz' show ?thesis
  proof (elim disjE)
    assume "sz = 1"
    with wr [of "[ucast v, 0, 0, 0]"] show ?thesis
      by (simp add: FAT_cache_writeLittleEndianValue_def le_bytes_def)
  next
    assume "sz = 2"
    with wr [of "u16_to_u8array [0, 0, 0, 0] 0 (ucast v)"] show ?thesis
      by (simp add: FAT_cache_writeLittleEndianValue_def le_bytes_def u16_to_u8array_def)
  next
    assume "sz = 4"
    with wr [of "u32_to_u8array [0, 0, 0, 0] 0 v"] show ?thesis
      by (simp add: FAT_cache_writeLittleEndianValue_def le_bytes_def u32_to_u8array_def)
  qed
qed

end
