(* ===== verification/CacheRuns.thy ===== *)
theory CacheRuns
  imports CacheSpec
begin

text \<open>
  Whole runs of sectors through the cache (\<open>_FAT_cache_readSectors\<close>,
  \<open>_FAT_cache_writeSectors\<close>), the life cycle of a cache (construction, flush, invalidation,
  destruction) and what happens outside the partition, where the C code checks nothing.
\<close>

section \<open>Runs inside one page\<close>

lemma holdsI:
  assumes "cache_inv med c" and "i < length (c_cacheEntries c)"
    and "e_sector (c_cacheEntries c ! i) \<noteq> CACHE_FREE"
    and "unat (e_sector (c_cacheEntries c ! i)) \<le> unat t"
    and "unat t < unat (e_sector (c_cacheEntries c ! i)) + unat (e_count (c_cacheEntries c ! i))"
  shows "holds (c_cacheEntries c ! i) t"
  using assms(3-5) holds_unat [OF entry_okI [OF assms(1,2)] cache_bound [OF assms(1)]] by simp

lemma page_run:
  assumes inv: "cache_inv med c" and i: "i < length (c_cacheEntries c)"
    and h: "holds (c_cacheEntries c ! i) s"
  defines "e \<equiv> c_cacheEntries c ! i" and "bps \<equiv> unat (c_bytesPerSector c)"
  assumes k: "unat s - unat (e_sector e) + k \<le> unat (e_count e)"
  shows "slice (e_cache e) ((unat s - unat (e_sector e)) * bps) (k * bps) = sectors_of (cview med c) s k"
  using k
proof (induction k)
  case 0
  then show ?case by (simp add: slice_def)
next
  case (Suc k)
  note sp = sector_in_page [OF inv i h, folded e_def bps_def]
  have bound: "unat s + k < 2 ^ 32"
    using Suc.prems sp(4,8) unat_lt_2p32 [of "c_endOfPartition c"] by simp
  then have t: "unat (s + of_nat k) = unat s + k" by (rule unat_offset)
  have hk: "holds e (s + of_nat k)"
    using sp(1,4) Suc.prems holds_unat [OF entry_okI [OF inv i] cache_bound [OF inv]] t
    by (simp add: e_def)
  have "cview med c (s + of_nat k) = slice (e_cache e) ((unat s - unat (e_sector e)) * bps + k * bps) bps"
    using cview_hit [OF inv i hk [unfolded e_def]] sp(4) t
    by (simp add: page_slice_def e_def bps_def algebra_simps)
  with Suc slice_add [of "e_cache e" "(unat s - unat (e_sector e)) * bps" "k * bps" bps]
  show ?case by (simp add: sectors_of_Suc add.commute)
qed

text \<open>How much of a transfer the page of its first sector covers.\<close>

lemma run_length:
  assumes inv: "cache_inv med c" and i: "i < length (c_cacheEntries c)"
    and h: "holds (c_cacheEntries c ! i) s" and n: "(n :: u32) \<noteq> 0"
  defines "e \<equiv> c_cacheEntries c ! i"
  defines "k \<equiv> (if e_count e - (s - e_sector e) > n then n else e_count e - (s - e_sector e))"
  shows "0 < unat k" and "unat k \<le> unat n"
    and "unat s - unat (e_sector e) + unat k \<le> unat (e_count e)"
    and "unat ((s - e_sector e) * c_bytesPerSector c)
      = (unat s - unat (e_sector e)) * unat (c_bytesPerSector c)"
    and "unat (k * c_bytesPerSector c) = unat k * unat (c_bytesPerSector c)"
    and "(unat s - unat (e_sector e)) * unat (c_bytesPerSector c) + unat k * unat (c_bytesPerSector c)
      \<le> length (e_cache e)"
proof -
  note sp = sector_in_page [OF inv i h, folded e_def]
  have avail: "unat (e_count e - (s - e_sector e)) = unat (e_count e) - (unat s - unat (e_sector e))"
    using sp(2,3) by (subst unat_sub_le) simp_all
  show "0 < unat k" and "unat k \<le> unat n"
    using avail sp(2,3) n by (auto simp: k_def word_less_nat_alt unat_gt_0)
  show le: "unat s - unat (e_sector e) + unat k \<le> unat (e_count e)"
    using avail sp(2,3) by (auto simp: k_def word_less_nat_alt)
  then have "(unat s - unat (e_sector e) + unat k) * unat (c_bytesPerSector c)
      \<le> unat (e_count e) * unat (c_bytesPerSector c)"
    by (rule mult_right_mono) simp
  with sp(7) show room: "(unat s - unat (e_sector e)) * unat (c_bytesPerSector c)
      + unat k * unat (c_bytesPerSector c) \<le> length (e_cache e)"
    by (simp add: algebra_simps)
  show "unat ((s - e_sector e) * c_bytesPerSector c)
      = (unat s - unat (e_sector e)) * unat (c_bytesPerSector c)"
    using page_byte_offset [OF inv i h, of 0] by (simp add: e_def)
  show "unat (k * c_bytesPerSector c) = unat k * unat (c_bytesPerSector c)"
    using room sp(6) by (intro unat_mult_small) simp
qed

lemma failed_trans:
  assumes "kept med c c1" and "failed med c1 c2"
  shows "failed med c c2"
  using assms geomD [of c1 c] by (auto simp: kept_def failed_def)

lemma kept_trans: "kept med c c1 \<Longrightarrow> kept med c1 c2 \<Longrightarrow> kept med c c2"
  by (simp add: kept_def)

section \<open>Reading a run\<close>

lemma readSectors_loop_spec:
  assumes "cache_inv med c" and "unat s + unat n \<le> unat (c_endOfPartition c)"
  shows "(\<exists>c'. readSectors_loop c s n dest = Some (True, dest @ sectors_of (cview med c) s (unat n), c')
      \<and> kept med c c') \<or>
    (\<exists>data c'. readSectors_loop c s n dest = Some (False, data, c') \<and> failed med c c')"
  using assms
proof (induction "unat n" arbitrary: c s n dest rule: less_induct)
  case less
  note inv = less.prems(1)
  show ?case
  proof (cases "n = 0")
    case True
    then show ?thesis by (simp add: readSectors_loop.simps kept_refl inv)
  next
    case False
    then have s: "s < c_endOfPartition c"
      using less.prems(2) by (simp add: word_less_nat_alt unat_gt_0 [symmetric])
    from inv s show ?thesis
    proof (cases rule: getPage_cases)
      case (none c')
      then show ?thesis using False by (simp add: readSectors_loop.simps [of c s n])
    next
      case (page i c1)
      let ?e = "c_cacheEntries c1 ! i"
      define k where "k = (if e_count ?e - (s - e_sector ?e) > n then n else e_count ?e - (s - e_sector ?e))"
      note run = run_length [OF page(3,6,7) False, folded k_def]
      note bps = geomD(5) [OF page(5)]
      let ?data = "sectors_of (cview med c) s (unat k)"
      have "slice (e_cache ?e) ((unat s - unat (e_sector ?e)) * unat (c_bytesPerSector c1))
          (unat k * unat (c_bytesPerSector c1)) = ?data"
        using page_run [OF page(3,6,7) run(3)] page(4) by simp
      then have loop: "readSectors_loop c s n dest = readSectors_loop c1 (s + k) (n - k) (dest @ ?data)"
        using False page(1) run(4,5,6)
        by (simp add: readSectors_loop.simps [of c s n] Let_def k_def [symmetric] peek_Some)
      have n': "unat (n - k) = unat n - unat k" using run(2) by (rule unat_sub_le)
      have s': "unat (s + k) = unat s + unat k"
        using run(2) less.prems(2) unat_lt_2p32 [of "c_endOfPartition c"] by (intro unat_add_small) simp
      have "unat (n - k) < unat n" using n' run(1,2) by simp
      from less.hyps [OF this page(3), of "s + k" "dest @ ?data"]
      have IH: "(\<exists>c'. readSectors_loop c1 (s + k) (n - k) (dest @ ?data) = Some (True,
            (dest @ ?data) @ sectors_of (cview med c1) (s + k) (unat (n - k)), c') \<and> kept med c1 c') \<or>
          (\<exists>data c'. readSectors_loop c1 (s + k) (n - k) (dest @ ?data) = Some (False, data, c') \<and> failed med c1 c')"
        using less.prems(2) n' s' run(2) geomD(2) [OF page(5)] by simp
      have "sectors_of (cview med c) s (unat n)
          = ?data @ sectors_of (cview med c) (s + k) (unat (n - k))"
        using sectors_of_add [of "cview med c" s "unat k" "unat n - unat k"] run(2) n' by simp
      with IH loop page(2,4) show ?thesis
        by (auto intro: kept_trans failed_trans)
    qed
  qed
qed

section \<open>Writing a run\<close>

definition write_run :: "(sec_t \<Rightarrow> u8 list) \<Rightarrow> sec_t \<Rightarrow> nat \<Rightarrow> nat \<Rightarrow> u8 list \<Rightarrow> sec_t \<Rightarrow> u8 list" where
  "write_run f s n bps src t =
     (if unat s \<le> unat t \<and> unat t < unat s + n then slice src ((unat t - unat s) * bps) bps else f t)"

lemma write_run_0 [simp]: "write_run f s 0 bps src = f"
  by (auto simp: write_run_def fun_eq_iff)

lemma write_run_split:
  assumes "k \<le> n" and "unat (s + of_nat k) = unat s + k" and "n * bps \<le> length src"
  shows "write_run (write_run f s k bps src) (s + of_nat k) (n - k) bps (drop (k * bps) src)
    = write_run f s n bps src"
proof
  fix t :: sec_t
  have "slice (drop (k * bps) src) ((unat t - (unat s + k)) * bps) bps
      = slice src ((unat t - unat s) * bps) bps" if "unat s + k \<le> unat t"
  proof -
    have "k * bps + (unat t - (unat s + k)) * bps = (unat t - unat s) * bps"
      using that by (simp add: add_mult_distrib [symmetric])
    then show ?thesis by (simp add: slice_def add.commute)
  qed
  with assms show "write_run (write_run f s k bps src) (s + of_nat k) (n - k) bps (drop (k * bps) src) t
    = write_run f s n bps src t"
    by (auto simp: write_run_def)
qed

lemma write_run_page:
  assumes inv: "cache_inv med c" and i: "i < length (c_cacheEntries c)"
    and h: "holds (c_cacheEntries c ! i) s"
  defines "e \<equiv> c_cacheEntries c ! i" and "bps \<equiv> unat (c_bytesPerSector c)"
  assumes k: "unat s - unat (e_sector e) + k \<le> unat (e_count e)" and src: "k * bps \<le> length src"
    and d: "d = set_entry i (\<lambda>e. e\<lparr>e_cache := splice (e_cache e) ((unat s - unat (e_sector e)) * bps)
      (take (k * bps) src), e_dirty := True\<rparr>) c"
  shows "cache_inv med d" and "geom d = geom c" and "cview med d = write_run (cview med c) s k bps src"
proof -
  note sp = sector_in_page [OF inv i h, folded e_def bps_def]
  let ?b = "unat (e_sector e)"
  let ?o = "(unat s - ?b) * bps" and ?data = "take (k * bps) src"
  have len: "length ?data = k * bps" using src by simp
  have "(unat s - ?b + k) * bps \<le> unat (e_count e) * bps" using k by (rule mult_right_mono) simp
  with sp(7) have room: "?o + k * bps \<le> length (e_cache e)" by (simp add: algebra_simps)
  have d': "d = set_entry i (\<lambda>x. x\<lparr>e_cache := splice (e_cache e) ?o ?data, e_dirty := True\<rparr>) c"
    by (simp add: d set_entry_def e_def)
  have lp: "length (splice (e_cache e) ?o ?data) = length (e_cache (c_cacheEntries c ! i))"
    using room len by (simp add: e_def)
  note mod = modify_page [OF inv i sp(1) [unfolded e_def] lp d', folded e_def bps_def]
  show "cache_inv med d" and "geom d = geom c" by (rule mod)+
  show "cview med d = write_run (cview med c) s k bps src"
  proof
    fix t
    show "cview med d t = write_run (cview med c) s k bps src t"
    proof (cases "holds e t")
      case False
      have "\<not> (unat s \<le> unat t \<and> unat t < unat s + k)"
      proof
        assume "unat s \<le> unat t \<and> unat t < unat s + k"
        then have "holds e t" unfolding e_def
          using k sp(1,4) by (intro holdsI [OF inv i]) (auto simp: e_def)
        with False show False by simp
      qed
      with False show ?thesis by (auto simp: mod(3) write_run_def)
    next
      case True
      note tp = sector_in_page [OF inv i True [unfolded e_def], folded e_def bps_def]
      have view: "cview med c t = slice (e_cache e) ((unat t - ?b) * bps) bps"
        using cview_hit [OF inv i True [unfolded e_def]] by (simp add: page_slice_def e_def bps_def)
      consider "unat t < unat s" | "unat s \<le> unat t" "unat t < unat s + k" | "unat s + k \<le> unat t"
        by linarith
      then show ?thesis
      proof cases
        case 1
        then have "Suc (unat t - ?b) * bps \<le> (unat s - ?b) * bps"
          using tp(4) by (intro mult_right_mono) auto
        with 1 True room len show ?thesis
          by (simp add: mod(3) write_run_def view slice_splice_before)
      next
        case 2
        have off: "(unat t - ?b) * bps = ?o + (unat t - unat s) * bps"
          using 2 sp(4) by (simp add: add_mult_distrib [symmetric])
        have "Suc (unat t - unat s) * bps \<le> k * bps"
          using 2 by (intro mult_right_mono) auto
        with 2 True room len off show ?thesis
          by (simp add: mod(3) write_run_def slice_splice_within)
             (simp add: slice_def drop_take min_def)
      next
        case 3
        then have "(unat s - ?b + k) * bps \<le> (unat t - ?b) * bps"
          using sp(4) by (intro mult_right_mono) auto
        with 3 True room len show ?thesis
          by (simp add: mod(3) write_run_def view slice_splice_after add_mult_distrib)
      qed
    qed
  qed
qed

text \<open>A run of sectors is written completely, or up to the sector where the driver failed.\<close>

lemma writeSectors_loop_spec:
  assumes "cache_inv med c" and "unat s + unat n \<le> unat (c_endOfPartition c)"
    and "unat n * unat (c_bytesPerSector c) \<le> length src"
  shows "(\<exists>c'. writeSectors_loop c s n src = Some (True, c') \<and> cache_inv med c' \<and> geom c' = geom c \<and>
      cview med c' = write_run (cview med c) s (unat n) (unat (c_bytesPerSector c)) src) \<or>
    (\<exists>c'. writeSectors_loop c s n src = Some (False, c') \<and> geom c' = geom c \<and>
      \<not> disc_reliable (c_disc c) (unat (c_endOfPartition c)) \<and>
      (disc_quiet (c_disc c) \<longrightarrow> cache_inv med c' \<and>
        (\<exists>k < unat n. cview med c' = write_run (cview med c) s k (unat (c_bytesPerSector c)) src)))"
  using assms
proof (induction "unat n" arbitrary: c s n src rule: less_induct)
  case less
  note inv = less.prems(1)
  let ?bps = "unat (c_bytesPerSector c)"
  show ?case
  proof (cases "n = 0")
    case True
    then show ?thesis by (simp add: writeSectors_loop.simps inv)
  next
    case False
    then have n0: "0 < unat n" by (simp add: unat_gt_0)
    then have s: "s < c_endOfPartition c"
      using less.prems(2) by (simp add: word_less_nat_alt)
    from inv s show ?thesis
    proof (cases rule: getPage_cases)
      case (none c')
      then have "writeSectors_loop c s n src = Some (False, c')"
        using False by (simp add: writeSectors_loop.simps [of c s n])
      moreover have "cview med c' = write_run (cview med c) s 0 ?bps src" if "kept med c c'"
        using that by (simp add: kept_def)
      ultimately show ?thesis using none n0 by (auto simp: failed_def kept_def)
    next
      case (page i c1)
      let ?e = "c_cacheEntries c1 ! i"
      define k where "k = (if e_count ?e - (s - e_sector ?e) > n then n else e_count ?e - (s - e_sector ?e))"
      note run = run_length [OF page(3,6,7) False, folded k_def]
      note bps = geomD(5) [OF page(5)]
      define d where "d = set_entry i (\<lambda>e. e\<lparr>e_cache := splice (e_cache e)
        ((unat s - unat (e_sector e)) * unat (c_bytesPerSector c1)) (take (unat k * unat (c_bytesPerSector c1)) src),
        e_dirty := True\<rparr>) c1"
      have "unat k * ?bps \<le> unat n * ?bps" using run(2) by (rule mult_right_mono) simp
      then have src: "unat k * ?bps \<le> length src" using less.prems(3) by (rule order_trans)
      have d': "set_entry i (\<lambda>x. x\<lparr>e_cache := splice (e_cache ?e)
        ((unat s - unat (e_sector ?e)) * ?bps) (take (unat k * ?bps) src), e_dirty := True\<rparr>) c1 = d"
        by (simp add: d_def set_entry_def bps)
      have loop: "writeSectors_loop c s n src
          = writeSectors_loop d (s + k) (n - k) (drop (unat k * ?bps) src)"
        using False page(1) run(4,5,6) src bps d'
        by (simp add: writeSectors_loop.simps [of c s n] Let_def k_def [symmetric] peek_def poke_def slice_def)
      note wr = write_run_page [OF page(3,6,7) run(3) src [folded bps] d_def]
      have geom: "geom d = geom c" and view: "cview med d = write_run (cview med c) s (unat k) ?bps src"
        using wr page(4,5) bps by simp_all
      have n': "unat (n - k) = unat n - unat k" using run(2) by (rule unat_sub_le)
      have s': "unat (s + k) = unat s + unat k"
        using run(2) less.prems(2) unat_lt_2p32 [of "c_endOfPartition c"] by (intro unat_add_small) simp
      have "unat (n - k) < unat n" using n' run(1,2) by simp
      note IH = less.hyps [OF this wr(1), of "s + k" "drop (unat k * ?bps) src"]
      have pre: "unat (s + k) + unat (n - k) \<le> unat (c_endOfPartition d)"
        "unat (n - k) * unat (c_bytesPerSector d) \<le> length (drop (unat k * ?bps) src)"
        using less.prems(2,3) n' s' run(2) geomD [OF geom] by (simp_all add: diff_mult_distrib)
      have merge: "write_run (cview med d) (s + k) j ?bps (drop (unat k * ?bps) src)
          = write_run (cview med c) s (unat k + j) ?bps src" if "j \<le> unat n - unat k" for j
      proof -
        have "(unat k + j) * ?bps \<le> unat n * ?bps" using that run(2) by (intro mult_right_mono) auto
        then have "(unat k + j) * ?bps \<le> length src" using less.prems(3) by (rule order_trans)
        then show ?thesis
          using write_run_split [of "unat k" "unat k + j" s ?bps src "cview med c"] s' view
          by simp
      qed
      from IH [OF pre] show ?thesis
      proof (elim disjE exE conjE)
        fix c'
        assume "writeSectors_loop d (s + k) (n - k) (drop (unat k * ?bps) src) = Some (True, c')"
          "cache_inv med c'" "geom c' = geom d"
          "cview med c' = write_run (cview med d) (s + k) (unat (n - k)) (unat (c_bytesPerSector d))
            (drop (unat k * ?bps) src)"
        then show ?thesis
          using loop geom merge [of "unat n - unat k"] n' run(2) geomD(5) [OF geom] by simp
      next
        fix c'
        assume "writeSectors_loop d (s + k) (n - k) (drop (unat k * ?bps) src) = Some (False, c')"
          and "geom c' = geom d" and "\<not> disc_reliable (c_disc d) (unat (c_endOfPartition d))"
          and q: "disc_quiet (c_disc d) \<longrightarrow> cache_inv med c' \<and>
            (\<exists>j < unat (n - k). cview med c' = write_run (cview med d) (s + k) j (unat (c_bytesPerSector d))
              (drop (unat k * ?bps) src))"
        moreover have "\<exists>k' < unat n. cview med c' = write_run (cview med c) s k' ?bps src"
          if "j < unat (n - k)" "cview med c' = write_run (cview med d) (s + k) j ?bps (drop (unat k * ?bps) src)" for j
          using that merge [of j] n' by (intro exI [of _ "unat k + j"]) simp
        ultimately show ?thesis
          using loop geom geomD [OF geom] by fastforce
      qed
    qed
  qed
qed

section \<open>Flushing\<close>

definition disjoint_pages :: "cache_entry list \<Rightarrow> bool" where
  "disjoint_pages es \<longleftrightarrow> sorted_wrt (\<lambda>a b. \<forall>t. \<not> (holds a t \<and> holds b t)) es"

lemma cache_inv_disjoint:
  assumes inv: "cache_inv med c"
  shows "disjoint_pages (c_cacheEntries c)"
  unfolding disjoint_pages_def sorted_wrt_iff_nth_less
proof (intro allI impI notI)
  fix i j t
  assume "i < j" and j: "j < length (c_cacheEntries c)"
    and h: "holds (c_cacheEntries c ! i) t \<and> holds (c_cacheEntries c ! j) t"
  then have i: "i < length (c_cacheEntries c)" by simp
  from holds_unique [OF inv i _ j] h have "i = j" by blast
  with \<open>i < j\<close> show False by simp
qed

text \<open>What a flush does to one page and its sectors: the page itself only loses its dirty flag;
  a clean page's sectors are not written; a page that became clean is on the medium.\<close>

definition flushed :: "('d \<Rightarrow> sec_t \<Rightarrow> u8 list) \<Rightarrow> u32 \<Rightarrow> 'd \<Rightarrow> 'd \<Rightarrow> cache_entry \<Rightarrow> cache_entry \<Rightarrow> bool" where
  "flushed med bps m m' e e' \<longleftrightarrow> (e' = e \<or> e' = e\<lparr>e_dirty := False\<rparr>) \<and>
     (\<forall>t. holds e t \<longrightarrow> (if e_dirty e then \<not> e_dirty e' \<longrightarrow> med m' t = page_slice bps e t
                          else med m' t = med m t))"

lemma flush_entries_spec:
  assumes pos: "0 < unat spp" and "disc_ok disc med (unat bps)" and "unat lim + unat spp < 2 ^ 32"
    and "\<forall>e \<in> set es. entry_ok lim spp bps e" and "disjoint_pages es"
    and "flush_entries disc es m = (ok, es', m')"
  shows "list_all2 (flushed med bps m m') es es'"
    and "(\<forall>e \<in> set es. \<not> holds e t) \<Longrightarrow> med m' t = med m t"
    and "ok \<Longrightarrow> \<forall>e \<in> set es'. \<not> e_dirty e"
    and "\<not> ok \<Longrightarrow> \<not> disc_reliable disc (unat lim)"
proof -
  have "list_all2 (flushed med bps m m') es es' \<and>
    (\<forall>t. (\<forall>e \<in> set es. \<not> holds e t) \<longrightarrow> med m' t = med m t) \<and>
    (ok \<longrightarrow> (\<forall>e \<in> set es'. \<not> e_dirty e)) \<and> (\<not> ok \<longrightarrow> \<not> disc_reliable disc (unat lim))"
    using assms(2-6)
  proof (induction es arbitrary: m es' m' ok)
    case Nil
    then show ?case by simp
  next
    case (Cons e es)
    have eok: "entry_ok lim spp bps e" and disj: "\<forall>b \<in> set es. \<forall>t. \<not> (holds e t \<and> holds b t)"
      and disjs: "disjoint_pages es"
      using Cons.prems(3,4) by (simp_all add: disjoint_pages_def)
    obtain ok1 m1 where w: "(if e_dirty e then writeSectors disc m (e_sector e) (e_count e) (e_cache e)
        else (True, m)) = (ok1, m1)"
      by fastforce
    have nf: "e_sector e \<noteq> CACHE_FREE" if "e_dirty e" using eok that by (auto simp: entry_ok_def)
    have out: "med m1 t = med m t" if "\<not> holds e t \<or> \<not> e_dirty e" for t
      using w that writeback_medium(1) [OF Cons.prems(1) eok Cons.prems(2) nf]
      by (cases "e_dirty e") auto
    have on: "med m1 t = page_slice bps e t" if "holds e t" "e_dirty e" ok1 for t
      using w that writeback_medium(2) [OF Cons.prems(1) eok Cons.prems(2) nf] by simp
    show ?case
    proof (cases ok1)
      case False
      then have res: "ok = False" "es' = e # es" "m' = m1" and dirty: "e_dirty e"
        using Cons.prems(5) w by (auto simp: FAT_disc_writeSectors_def split: if_splits)
      have "\<not> disc_reliable disc (unat lim)"
        using w dirty False entry_count_bounds(1) [OF eok Cons.prems(2) nf [OF dirty]] entry_count_pos [OF eok pos nf [OF dirty]]
          disc_reliableD(2) [of disc "unat lim" "e_count e" "e_sector e" m "e_cache e"] by auto
      moreover have "list_all2 (flushed med bps m m1) es es"
        using out disj by (intro list.rel_refl_strong) (auto simp: flushed_def)
      moreover have "flushed med bps m m1 e e" using dirty by (simp add: flushed_def)
      ultimately show ?thesis using res out by auto
    next
      case True
      obtain ok2 es2 m2 where rest: "flush_entries disc es m1 = (ok2, es2, m2)"
        by (metis prod_cases3)
      have res: "ok = ok2" "es' = e\<lparr>e_dirty := False\<rparr> # es2" "m' = m2"
        using Cons.prems(5) w True rest by (auto simp: FAT_disc_writeSectors_def split: if_splits)
      have IH: "list_all2 (flushed med bps m1 m2) es es2"
        "\<And>t. (\<forall>e \<in> set es. \<not> holds e t) \<Longrightarrow> med m2 t = med m1 t"
        "ok2 \<longrightarrow> (\<forall>e \<in> set es2. \<not> e_dirty e)" "\<not> ok2 \<longrightarrow> \<not> disc_reliable disc (unat lim)"
        using Cons.IH [OF Cons.prems(1,2) _ disjs rest] Cons.prems(3) by auto
      have "list_all2 (flushed med bps m m2) es es2"
        using IH(1)
      proof (rule list.rel_mono_strong)
        fix a b assume "a \<in> set es" and "flushed med bps m1 m2 a b"
        then show "flushed med bps m m2 a b" using out disj by (auto simp: flushed_def)
      qed
      moreover have "flushed med bps m m2 e (e\<lparr>e_dirty := False\<rparr>)"
        using IH(2) on out disj True by (auto simp: flushed_def)
      ultimately show ?thesis using res IH out by auto
    qed
  qed
  then show "list_all2 (flushed med bps m m') es es'"
    and "(\<forall>e \<in> set es. \<not> holds e t) \<Longrightarrow> med m' t = med m t"
    and "ok \<Longrightarrow> \<forall>e \<in> set es'. \<not> e_dirty e" and "\<not> ok \<Longrightarrow> \<not> disc_reliable disc (unat lim)"
    by blast+
qed

text \<open>A flush never changes what the cache shows; when it succeeds, the medium shows the same.\<close>

lemma flush_spec:
  assumes inv: "cache_inv med c" and fl: "FAT_cache_flush c = (ok, c')"
  shows "kept med c c'"
    and "ok \<Longrightarrow> (\<forall>e \<in> set (c_cacheEntries c'). \<not> e_dirty e)"
    and "ok \<Longrightarrow> med (c_medium c') = cview med c"
    and "\<not> ok \<Longrightarrow> \<not> disc_reliable (c_disc c) (unat (c_endOfPartition c))"
proof -
  obtain es m where f: "flush_entries (c_disc c) (c_cacheEntries c) (c_medium c) = (ok, es, m)"
    and c': "c' = c\<lparr>c_cacheEntries := es, c_medium := m\<rparr>"
    using fl by (auto simp: FAT_cache_flush_def split: prod.splits)
  have eok: "\<forall>e \<in> set (c_cacheEntries c). entry_ok (c_endOfPartition c) (c_sectorsPerPage c) (c_bytesPerSector c) e"
    using inv by (simp add: cache_inv_def entries_ok_def)
  have pos: "0 < unat (c_sectorsPerPage c)" using cache_inv_geometry [OF inv] by (simp add: geometry_ok_def)
  note fe = flush_entries_spec [OF pos cache_inv_disc [OF inv] cache_bound [OF inv] eok cache_inv_disjoint [OF inv] f]
  have len: "length es = length (c_cacheEntries c)"
    using fe(1) by (simp add: list_all2_lengthD)
  have fl': "flushed med (c_bytesPerSector c) (c_medium c) m (c_cacheEntries c ! j) (es ! j)"
    if "j < length (c_cacheEntries c)" for j
    using fe(1) that by (rule list_all2_nthD)
  have geom: "geom c' = geom c" using len by (simp add: c' geom_def)
  have same: "holds (es ! j) t = holds (c_cacheEntries c ! j) t"
    "page_slice b (es ! j) t = page_slice b (c_cacheEntries c ! j) t"
    "e_sector (es ! j) = e_sector (c_cacheEntries c ! j)"
    if "j < length (c_cacheEntries c)" for j t b
    using fl' [OF that] by (auto simp: flushed_def)
  have inv': "cache_inv med c'"
  proof (rule cache_inv_step [OF inv geom])
    show "pages_distinct (c_cacheEntries c')"
      by (rule pages_distinctI [OF inv]) (simp_all add: c' len same(3))
    fix j assume j: "j < length (c_cacheEntries c)"
    show "entry_ok (c_endOfPartition c) (c_sectorsPerPage c) (c_bytesPerSector c) (c_cacheEntries c' ! j)"
      using fl' [OF j] entry_okI [OF inv j] by (auto simp: c' flushed_def entry_ok_def)
    fix s assume "\<not> e_dirty (c_cacheEntries c' ! j)" and "holds (c_cacheEntries c' ! j) s"
    then show "med (c_medium c') s = page_slice (c_bytesPerSector c) (c_cacheEntries c' ! j) s"
      using fl' [OF j] same [OF j] clean_page [OF inv j, of s]
      by (auto simp: c' flushed_def split: if_splits)
  qed
  have view: "cview med c' = cview med c"
  proof
    fix s
    show "cview med c' s = cview med c s"
    proof (rule cview_eqI [OF inv inv' geom])
      assume "\<forall>j < length (c_cacheEntries c). \<not> holds (c_cacheEntries c ! j) s"
      then have "\<forall>e \<in> set (c_cacheEntries c). \<not> holds e s" by (metis in_set_conv_nth)
      from fe(2) [OF this] show "med (c_medium c') s = med (c_medium c) s" by (simp add: c')
    qed (simp_all add: c' same)
  qed
  with inv' geom show "kept med c c'" by (simp add: kept_def)
  show "ok \<Longrightarrow> \<forall>e \<in> set (c_cacheEntries c'). \<not> e_dirty e" using fe(3) by (simp add: c')
  show "med (c_medium c') = cview med c" if ok
  proof
    fix s
    from inv' have "cview med c' s = med (c_medium c') s"
    proof (cases rule: cview_cases [where s = s])
      case (hit i)
      then show ?thesis using clean_page [OF inv' hit(1) _ hit(2)] fe(3) [OF that] by (simp add: c')
    qed
    with view show "med (c_medium c') s = cview med c s" by simp
  qed
  show "\<not> ok \<Longrightarrow> \<not> disc_reliable (c_disc c) (unat (c_endOfPartition c))" by (rule fe(4))
qed

section \<open>Construction, invalidation and destruction\<close>

text \<open>A cache whose pages are all free shows the medium.\<close>

lemma free_cache_inv:
  assumes "disc_ok (c_disc c) med (unat (c_bytesPerSector c))" and "geometry_ok c"
    and "\<And>e. e \<in> set (c_cacheEntries c) \<Longrightarrow> e_sector e = CACHE_FREE \<and> e_count e = 0 \<and> \<not> e_dirty e \<and>
      length (e_cache e) = unat (c_sectorsPerPage c) * unat (c_bytesPerSector c)"
  shows "cache_inv med c" and "cview med c = med (c_medium c)"
proof -
  have free: "\<not> holds e t" if "e \<in> set (c_cacheEntries c)" for e t
    using assms(3) [OF that] by (simp add: holds_def not_less)
  show "cache_inv med c"
    using assms free
    by (auto simp: cache_inv_def entries_ok_def entry_ok_def pages_distinct_def coherent_def)
  show "cview med c = med (c_medium c)"
    using free by (intro ext cview_miss) simp
qed

text \<open>The allocator hands out blocks of the size it was asked for.\<close>

definition malloc_ok :: "(nat \<Rightarrow> nat \<Rightarrow> u8 list option) \<Rightarrow> bool" where
  "malloc_ok malloc \<longleftrightarrow> (\<forall>k n b. malloc k n = Some b \<longrightarrow> length b = n)"

lemma constructor_inv:
  assumes mk: "FAT_cache_constructor malloc pages spp disc limit bps m n = Some c"
    and alloc: "malloc_ok malloc" "\<And>k. malloc (2 + k) (unat (c_sectorsPerPage c * bps)) \<noteq> None"
    and disc: "disc_ok disc med (unat bps)" and pos: "0 < unat bps"
    and small: "max 8 (unat spp) * unat bps < 2 ^ 32" "unat limit + max 8 (unat spp) < 2 ^ 32"
  shows "cache_inv med c" and "cview med c = med m" and "c_disc c = disc"
    and "c_endOfPartition c = limit" and "c_bytesPerSector c = bps" and "c_medium c = m"
proof -
  define spp' where "spp' = (if spp < 8 then 8 else spp)"
  define pages' where "pages' = (if pages < 2 then 2 else pages)"
  have c: "c = \<lparr>c_disc = disc, c_endOfPartition = limit, c_numberOfPages = pages', c_sectorsPerPage = spp',
      c_bytesPerSector = bps,
      c_cacheEntries = map (\<lambda>i. new_entry (malloc (2 + i) (unat (spp' * bps)))) [0..<unat pages'],
      c_medium = m, c_accessCounter = n\<rparr>"
    using mk by (simp add: FAT_cache_constructor_def Let_def spp'_def pages'_def split: if_splits)
  have spp': "unat spp' = max 8 (unat spp)"
    by (auto simp: spp'_def word_less_nat_alt)
  have pages': "2 \<le> unat pages'"
    by (auto simp: pages'_def word_less_nat_alt)
  have bytes: "unat (spp' * bps) = unat spp' * unat bps"
    using small(1) by (intro unat_mult_small) (simp add: spp')
  have geo: "geometry_ok c"
    using small pos spp' pages' by (simp add: geometry_ok_def c)
  have entries: "e_sector e = CACHE_FREE \<and> e_count e = 0 \<and> \<not> e_dirty e \<and>
      length (e_cache e) = unat (c_sectorsPerPage c) * unat (c_bytesPerSector c)"
    if e: "e \<in> set (c_cacheEntries c)" for e
  proof -
    obtain i where i: "e = new_entry (malloc (2 + i) (unat (spp' * bps)))" using e by (auto simp: c)
    obtain b where b: "malloc (2 + i) (unat (spp' * bps)) = Some b"
      using alloc(2) [of i] by (auto simp: c)
    then have "length b = unat spp' * unat bps" using alloc(1) bytes by (simp add: malloc_ok_def)
    with b i show ?thesis by (simp add: new_entry_def c)
  qed
  have disc': "disc_ok (c_disc c) med (unat (c_bytesPerSector c))" using disc by (simp add: c)
  show "cache_inv med c" using free_cache_inv(1) [OF disc' geo entries] .
  show "cview med c = med m" using free_cache_inv(2) [OF disc' geo entries] by (simp add: c)
  show "c_disc c = disc" and "c_endOfPartition c = limit" and "c_bytesPerSector c = bps" and "c_medium c = m"
    by (simp_all add: c)
qed

text \<open>Invalidation flushes first: with a working driver it loses nothing.\<close>

lemma invalidate_spec:
  assumes inv: "cache_inv med c" and rel: "disc_reliable (c_disc c) (unat (c_endOfPartition c))"
  shows "kept med c (FAT_cache_invalidate c)"
    and "cview med c = med (c_medium (FAT_cache_invalidate c))"
proof -
  obtain ok d where fl: "FAT_cache_flush c = (ok, d)" by fastforce
  note fs = flush_spec [OF inv fl]
  have ok: ok using fs(4) rel by blast
  let ?d = "FAT_cache_invalidate c"
  have inv_eq: "?d = d\<lparr>c_cacheEntries := map (\<lambda>e. e\<lparr>e_sector := CACHE_FREE, e_last_access := 0,
      e_count := 0, e_dirty := False\<rparr>) (c_cacheEntries d)\<rparr>"
    by (simp add: FAT_cache_invalidate_def fl)
  have geom: "geom ?d = geom d" by (simp add: inv_eq geom_def)
  have dinv: "cache_inv med d" and dgeom: "geom d = geom c" using fs(1) by (simp_all add: kept_def)
  have disc: "disc_ok (c_disc ?d) med (unat (c_bytesPerSector ?d))" and geo: "geometry_ok ?d"
    using cache_inv_disc [OF dinv] cache_inv_geometry [OF dinv] geom_invariant(1,2) [OF geom]
    by blast+
  have entries: "e_sector e = CACHE_FREE \<and> e_count e = 0 \<and> \<not> e_dirty e \<and>
      length (e_cache e) = unat (c_sectorsPerPage ?d) * unat (c_bytesPerSector ?d)"
    if "e \<in> set (c_cacheEntries ?d)" for e
    using that dinv by (auto simp: inv_eq cache_inv_def entries_ok_def entry_ok_def)
  note fi = free_cache_inv [OF disc geo entries]
  have "c_medium ?d = c_medium d" by (simp add: inv_eq)
  then show med: "cview med c = med (c_medium ?d)" using fs(3) [OF ok] by simp
  show "kept med c ?d" using fi geom dgeom med by (simp add: kept_def)
qed

lemma destructor_spec:
  assumes "cache_inv med c" and "disc_reliable (c_disc c) (unat (c_endOfPartition c))"
  shows "med (FAT_cache_destructor c) = cview med c"
proof -
  obtain ok d where fl: "FAT_cache_flush c = (ok, d)" by fastforce
  with flush_spec(3,4) [OF assms(1) fl] assms(2) show ?thesis
    by (auto simp: FAT_cache_destructor_def)
qed

section \<open>Outside the partition\<close>

text \<open>The cache checks no sector against the partition. Beyond its end the size of the transfer
  wraps around, and a driver that serves it writes past the page buffer.\<close>

lemma load_beyond_end:
  assumes geo: "geometry_ok c" and s: "s > c_endOfPartition c"
    and aligned: "unat (c_sectorsPerPage c) dvd unat s"
    and room: "unat s + unat (c_sectorsPerPage c) < 2 ^ 32"
    and page: "length (e_cache (c_cacheEntries c ! i)) = unat (c_sectorsPerPage c) * unat (c_bytesPerSector c)"
    and rd: "readSectors (c_disc c) (c_medium c) s (c_endOfPartition c - s) = (True, data, m)"
    and len: "length data = unat (c_endOfPartition c - s) * unat (c_bytesPerSector c)"
  shows "getPage_load c s i = None"
proof -
  let ?spp = "c_sectorsPerPage c" and ?lim = "c_endOfPartition c" and ?bps = "unat (c_bytesPerSector c)"
  have "unat s div unat ?spp * unat ?spp = unat s" using aligned by simp
  then have base: "s div ?spp * ?spp = s"
    by (simp add: word_eq_iff_unat_eq unat_align_down)
  have "unat (s + ?spp) = unat s + unat ?spp" using room by (intro unat_add_small) simp
  then have next_gt: "s + ?spp > ?lim" using s by (simp add: word_less_nat_alt)
  have "unat (?lim - s) = 2 ^ 32 + unat ?lim - unat s"
    using s by (simp add: unat_sub_if' word_less_nat_alt)
  then have "unat ?spp < unat (?lim - s)" using room by simp
  moreover have "0 < ?bps" using geo by (simp add: geometry_ok_def)
  ultimately have "unat ?spp * ?bps < unat (?lim - s) * ?bps" by simp
  then have "poke (e_cache (c_cacheEntries c ! i)) 0 data = None"
    by (simp add: poke_None page len)
  then show ?thesis
    using next_gt rd by (simp add: getPage_load_def base Let_def FAT_disc_readSectors_def)
qed

text \<open>At the end itself, when it is page aligned, the page loaded is empty: the driver is asked for zero sectors,
  which \<open>disc.h\<close> rules out. When it refuses the request the transfer fails; when it serves it, the transfer makes no
  progress and the loop never ends.\<close>

definition stuck_entry :: "sec_t \<Rightarrow> cache_entry \<Rightarrow> bool" where
  "stuck_entry s e \<longleftrightarrow> \<not> holds e s \<and>
     (e_sector e \<noteq> CACHE_FREE \<longrightarrow> unat (e_sector e) + unat (e_count e) \<le> unat s) \<and>
     (e_dirty e \<longrightarrow> e_sector e \<noteq> CACHE_FREE)"

definition stuck_at :: "bool \<Rightarrow> sec_t \<Rightarrow> 'd cache \<Rightarrow> bool" where
  "stuck_at served s c \<longleftrightarrow> c_endOfPartition c = s \<and> c_sectorsPerPage c \<noteq> 0 \<and>
     unat (c_sectorsPerPage c) dvd unat s \<and> unat s + unat (c_sectorsPerPage c) < 2 ^ 32 \<and>
     c_cacheEntries c \<noteq> [] \<and> (\<forall>e \<in> set (c_cacheEntries c). stuck_entry s e) \<and>
     (\<forall>m t k buf. unat t + unat k \<le> unat s \<longrightarrow> fst (writeSectors (c_disc c) m t k buf)) \<and>
     (\<forall>m. fst (readSectors (c_disc c) m s 0) = served \<and> fst (snd (readSectors (c_disc c) m s 0)) = [])"

lemma stuck_getPage:
  assumes st: "stuck_at served s c"
  obtains (refused) c' where "\<not> served" and "FAT_cache_getPage c s = Some (None, c')"
  | (loaded) i c' where "served" and "FAT_cache_getPage c s = Some (Some i, c')" and "stuck_at served s c'"
    and "i < length (c_cacheEntries c')" and "e_sector (c_cacheEntries c' ! i) = s"
    and "e_count (c_cacheEntries c' ! i) = 0"
proof -
  have miss: "\<forall>e \<in> set (c_cacheEntries c). \<not> holds e s"
    using st by (simp add: stuck_at_def stuck_entry_def)
  obtain found i where scan: "getPage_scan (c_cacheEntries c) s 0 False 0 UINT_MAX = Inr (found, i)"
  proof (cases "getPage_scan (c_cacheEntries c) s 0 False 0 UINT_MAX")
    case (Inl j)
    with getPage_scan_Inl [OF Inl] miss show thesis by auto
  next
    case (Inr fu)
    then show thesis using that by (cases fu) simp
  qed
  have i: "i < length (c_cacheEntries c)"
    using getPage_scan_Inr [OF scan] st by (auto simp: stuck_at_def)
  let ?e = "c_cacheEntries c ! i"
  have se: "stuck_entry s ?e"
    using st i by (simp add: stuck_at_def)
  obtain d where ev: "getPage_evict c found i = (True, d)" and std: "stuck_at served s d"
    and id: "i < length (c_cacheEntries d)"
  proof (cases "\<not> found \<and> e_dirty ?e")
    case False
    then have "getPage_evict c found i = (True, c)" by (auto simp: getPage_evict_def Let_def)
    then show thesis using that st i by blast
  next
    case True
    have "unat (e_sector ?e) + unat (e_count ?e) \<le> unat s"
      using se True by (simp add: stuck_entry_def)
    then have "fst (writeSectors (c_disc c) (c_medium c) (e_sector ?e) (e_count ?e) (e_cache ?e))"
      using st unfolding stuck_at_def by blast
    then obtain m where "writeSectors (c_disc c) (c_medium c) (e_sector ?e) (e_count ?e) (e_cache ?e) = (True, m)"
      by (cases "writeSectors (c_disc c) (c_medium c) (e_sector ?e) (e_count ?e) (e_cache ?e)") auto
    then have "getPage_evict c found i = (True, set_entry i (e_dirty_update (\<lambda>_. False)) (c\<lparr>c_medium := m\<rparr>))"
      using True by (simp add: getPage_evict_def Let_def FAT_disc_writeSectors_def)
    moreover have "stuck_at served s (set_entry i (e_dirty_update (\<lambda>_. False)) (c\<lparr>c_medium := m\<rparr>))"
    proof -
      have "stuck_entry s (e_dirty_update (\<lambda>_. False) ?e)" using se by (simp add: stuck_entry_def)
      moreover have "\<forall>e \<in> set (c_cacheEntries c). stuck_entry s e" using st by (simp add: stuck_at_def)
      ultimately have "\<forall>e \<in> set ((c_cacheEntries c)[i := e_dirty_update (\<lambda>_. False) ?e]). stuck_entry s e"
        by (intro ball_list_update)
      with st show ?thesis unfolding stuck_at_def by simp
    qed
    ultimately show thesis using that i by simp
  qed
  have base: "s div c_sectorsPerPage d * c_sectorsPerPage d = s"
    using std by (simp add: stuck_at_def word_eq_iff_unat_eq unat_align_down)
  have "unat (s + c_sectorsPerPage d) = unat s + unat (c_sectorsPerPage d)"
    using std by (intro unat_add_small) (simp add: stuck_at_def)
  then have gt: "s + c_sectorsPerPage d > c_endOfPartition d"
    using std by (simp add: stuck_at_def word_less_nat_alt unat_gt_0 [symmetric])
  have endd: "c_endOfPartition d = s" and nz: "c_sectorsPerPage d \<noteq> 0" using std by (simp_all add: stuck_at_def)
  have "fst (readSectors (c_disc d) (c_medium d) s 0) = served" "fst (snd (readSectors (c_disc d) (c_medium d) s 0)) = []"
    using std by (auto simp: stuck_at_def)
  then obtain m where rd: "readSectors (c_disc d) (c_medium d) s 0 = (served, [], m)"
    by (cases "readSectors (c_disc d) (c_medium d) s 0") auto
  note load = getPage_load_def base Let_def endd FAT_disc_readSectors_def poke_def splice_Nil accessTime_simp set_entry_def
  show thesis
  proof (cases served)
    case False
    then obtain d' where "getPage_load d s i = Some (None, d')" using gt nz rd id by (simp add: load)
    then have "FAT_cache_getPage c s = Some (None, d')" using i by (simp add: FAT_cache_getPage_def scan ev)
    then show thesis using False refused by blast
  next
    case True
  define c' where "c' = d\<lparr>c_medium := m, c_accessCounter := c_accessCounter d + 1, c_cacheEntries :=
    (c_cacheEntries d)[i := (c_cacheEntries d ! i)\<lparr>e_sector := s, e_count := 0, e_last_access := c_accessCounter d + 1\<rparr>]\<rparr>"
  have "getPage_load d s i = Some (Some i, c')"
    using gt nz rd id True by (simp add: load c'_def)
  then have page: "FAT_cache_getPage c s = Some (Some i, c')"
    using i by (simp add: FAT_cache_getPage_def scan ev)
  have sfree: "s \<noteq> CACHE_FREE" using std by (auto simp: stuck_at_def CACHE_FREE_def)
  let ?x = "(c_cacheEntries d ! i)\<lparr>e_sector := s, e_count := 0, e_last_access := c_accessCounter d + 1\<rparr>"
  have "stuck_entry s ?x" using sfree by (simp add: stuck_entry_def holds_def)
  moreover have "\<forall>e \<in> set (c_cacheEntries d). stuck_entry s e" using std by (simp add: stuck_at_def)
  ultimately have "\<forall>e \<in> set ((c_cacheEntries d)[i := ?x]). stuck_entry s e"
    by (intro ball_list_update)
  with std have "stuck_at served s c'" unfolding stuck_at_def by (simp add: c'_def)
  with page id True show thesis by (intro loaded [of i c']) (simp_all add: c'_def)
  qed
qed

lemma readSectors_stuck:
  assumes "stuck_at True s c" and "n \<noteq> 0"
  shows "readSectors_loop c s n dest = None"
proof (rule ccontr)
  assume "readSectors_loop c s n dest \<noteq> None"
  then obtain r where r: "readSectors_loop c s n dest = Some r" by blast
  have "\<not> (stuck_at True s c \<and> n \<noteq> 0)"
  proof (rule readSectors_loop.raw_induct [where P = "\<lambda>c s n dest r. \<not> (stuck_at True s c \<and> n \<noteq> 0)", OF _ r])
    fix f c s n dest r
    assume IH: "\<And>c s n dest r. f c s n dest = Some r \<Longrightarrow> \<not> (stuck_at True s c \<and> n \<noteq> 0)"
      and eq: "(if n = 0 then Some (True, dest, c)
        else do {
          (entry, c) \<leftarrow> FAT_cache_getPage c s;
          (case entry of None \<Rightarrow> Some (False, dest, c)
           | Some i \<Rightarrow> do {
               let e = c_cacheEntries c ! i;
               let sec = s - e_sector e;
               let secs_to_read = e_count e - sec;
               let secs_to_read = (if secs_to_read > n then n else secs_to_read);
               data \<leftarrow> peek (e_cache e) (unat (sec * c_bytesPerSector c)) (unat (secs_to_read * c_bytesPerSector c));
               f c (s + secs_to_read) (n - secs_to_read) (dest @ data)
             })
        }) = Some r"
    show "\<not> (stuck_at True s c \<and> n \<noteq> 0)"
    proof
      assume st: "stuck_at True s c \<and> n \<noteq> 0"
      then have "stuck_at True s c" by blast
      then obtain i c' where "FAT_cache_getPage c s = Some (Some i, c')" "stuck_at True s c'"
        "e_sector (c_cacheEntries c' ! i) = s" "e_count (c_cacheEntries c' ! i) = 0"
      proof (cases rule: stuck_getPage)
        case (loaded i c')
        then show ?thesis by (intro that)
      qed simp
      with eq st have "f c' s n dest = Some r"
        by (simp add: Let_def peek_def slice_def)
      with IH [OF this] \<open>stuck_at True s c'\<close> st show False by blast
    qed
  qed
  with assms show False by blast
qed

lemma readSectors_refused:
  assumes "stuck_at False s c" and "n \<noteq> 0"
  shows "\<exists>c'. readSectors_loop c s n dest = Some (False, dest, c')"
  using assms(1)
proof (cases rule: stuck_getPage)
  case (refused c')
  then show ?thesis using assms(2) by (subst readSectors_loop.simps) simp
qed simp

end
