(* ===== verification/SectorStore.thy ===== *)
theory SectorStore
  imports CacheRuns
begin

text \<open>
  The interface between the sector cache and the code above it, as locales. A \<open>sector_store\<close> is
  a state that shows an array of sectors and lets its client read and overwrite parts of one
  sector; a \<open>value_store\<close> also moves little endian integers; a \<open>run_store\<close> also moves runs of
  whole sectors. The sector cache on a working driver is an instance of each.
\<close>

section \<open>The contracts\<close>

locale sector_store =
  fixes inv :: "'s \<Rightarrow> bool"
    and view :: "'s \<Rightarrow> sec_t \<Rightarrow> u8 list"
    and lim :: "'s \<Rightarrow> sec_t"
    and bps :: "'s \<Rightarrow> nat"
    and get :: "'s \<Rightarrow> sec_t \<Rightarrow> u32 \<Rightarrow> u32 \<Rightarrow> (u8 list option \<times> 's) option"
    and put :: "'s \<Rightarrow> u8 list \<Rightarrow> sec_t \<Rightarrow> u32 \<Rightarrow> u32 \<Rightarrow> (bool \<times> 's) option"
  assumes view_length: "inv s \<Longrightarrow> length (view s t) = bps s"
    and get_law: "inv s \<Longrightarrow> t < lim s \<Longrightarrow> unat off + unat n \<le> bps s \<Longrightarrow>
      \<exists>s'. get s t off n = Some (Some (slice (view s t) (unat off) (unat n)), s') \<and>
        inv s' \<and> view s' = view s \<and> lim s' = lim s \<and> bps s' = bps s"
    and put_law: "inv s \<Longrightarrow> t < lim s \<Longrightarrow> unat off + unat n \<le> bps s \<Longrightarrow> unat n \<le> length b \<Longrightarrow>
      \<exists>s'. put s b t off n = Some (True, s') \<and> inv s' \<and>
        view s' = (view s)(t := splice (view s t) (unat off) (take (unat n) b)) \<and>
        lim s' = lim s \<and> bps s' = bps s"
begin

lemma get_cases:
  assumes "inv s" and "t < lim s" and "unat off + unat n \<le> bps s"
  obtains s' where "get s t off n = Some (Some (slice (view s t) (unat off) (unat n)), s')"
    and "inv s'" and "view s' = view s" and "lim s' = lim s" and "bps s' = bps s"
  using get_law [OF assms] by blast

lemma put_cases:
  assumes "inv s" and "t < lim s" and "unat off + unat n \<le> bps s" and "unat n \<le> length b"
  obtains s' where "put s b t off n = Some (True, s')" and "inv s'"
    and "view s' = (view s)(t := splice (view s t) (unat off) (take (unat n) b))"
    and "lim s' = lim s" and "bps s' = bps s"
  using put_law [OF assms] by blast

text \<open>What was written is read back, and the rest of the store is not affected.\<close>

lemma get_after_put:
  assumes "inv s" and "t < lim s" and "unat off + unat n \<le> bps s" and "unat n \<le> length b"
    and "put s b t off n = Some (r, s')"
  shows "\<exists>s''. get s' t off n = Some (Some (take (unat n) b), s'')"
proof -
  obtain s1 where s1: "put s b t off n = Some (True, s1)" "inv s1" "lim s1 = lim s" "bps s1 = bps s"
    and v: "view s1 = (view s)(t := splice (view s t) (unat off) (take (unat n) b))"
    by (rule put_cases [OF assms(1-4)])
  have "slice (splice (view s t) (unat off) (take (unat n) b)) (unat off) (unat n) = take (unat n) b"
  proof -
    have "length (take (unat n) b) = unat n" using assms(4) by simp
    then show ?thesis
      using slice_splice_same [of "unat off" "take (unat n) b" "view s t"] assms(3)
        view_length [OF assms(1), of t]
      by presburger
  qed
  with get_law [of s1 t off n] s1 v assms show ?thesis by auto
qed

lemma get_other_after_put:
  assumes "inv s" and "t < lim s" and "unat off + unat n \<le> bps s" and "unat n \<le> length b"
    and "put s b t off n = Some (r, s')" and "t' < lim s" and "t' \<noteq> t" and "unat off' + unat n' \<le> bps s"
  shows "\<exists>s''. get s' t' off' n' = Some (Some (slice (view s t') (unat off') (unat n')), s'')"
proof -
  obtain s1 where "put s b t off n = Some (True, s1)" "inv s1" "lim s1 = lim s" "bps s1 = bps s"
    "view s1 = (view s)(t := splice (view s t) (unat off) (take (unat n) b))"
    by (rule put_cases [OF assms(1-4)])
  with get_law [of s1 t' off' n'] assms show ?thesis by auto
qed

end

locale value_store = sector_store inv view lim bps get put
  for inv :: "'s \<Rightarrow> bool" and view lim bps get put +
  fixes vget :: "'s \<Rightarrow> sec_t \<Rightarrow> u32 \<Rightarrow> u32 \<Rightarrow> (u32 option \<times> 's) option"
    and vput :: "'s \<Rightarrow> u32 \<Rightarrow> sec_t \<Rightarrow> u32 \<Rightarrow> u32 \<Rightarrow> (bool \<times> 's) option"
  assumes vget_law: "inv s \<Longrightarrow> t < lim s \<Longrightarrow> unat off + unat n \<le> bps s \<Longrightarrow> unat n \<in> {1, 2, 4} \<Longrightarrow>
      \<exists>s'. vget s t off n = Some (Some (le_value (slice (view s t) (unat off) (unat n))), s') \<and>
        inv s' \<and> view s' = view s \<and> lim s' = lim s \<and> bps s' = bps s"
    and vput_law: "inv s \<Longrightarrow> t < lim s \<Longrightarrow> unat off + unat n \<le> bps s \<Longrightarrow> unat n \<in> {1, 2, 4} \<Longrightarrow>
      \<exists>s'. vput s v t off n = Some (True, s') \<and> inv s' \<and>
        view s' = (view s)(t := splice (view s t) (unat off) (le_bytes (unat n) v)) \<and>
        lim s' = lim s \<and> bps s' = bps s"
begin

lemma vget_cases:
  assumes "inv s" and "t < lim s" and "unat off + unat n \<le> bps s" and "unat n \<in> {1, 2, 4}"
  obtains s' where "vget s t off n = Some (Some (le_value (slice (view s t) (unat off) (unat n))), s')"
    and "inv s'" and "view s' = view s" and "lim s' = lim s" and "bps s' = bps s"
  using vget_law [OF assms] by blast

lemma vput_cases:
  assumes "inv s" and "t < lim s" and "unat off + unat n \<le> bps s" and "unat n \<in> {1, 2, 4}"
  obtains s' where "vput s v t off n = Some (True, s')" and "inv s'"
    and "view s' = (view s)(t := splice (view s t) (unat off) (le_bytes (unat n) v))"
    and "lim s' = lim s" and "bps s' = bps s"
  using vput_law [OF assms] by blast

lemma vget_after_vput:
  assumes "inv s" and "t < lim s" and "unat off + unat n \<le> bps s" and n: "unat n \<in> {1, 2, 4}"
    and "vput s v t off n = Some (r, s')"
  shows "\<exists>s''. vget s' t off n = Some (Some (if unat n = 4 then v else take_bit (8 * unat n) v), s'')"
proof -
  obtain s1 where s1: "vput s v t off n = Some (True, s1)" "inv s1" "lim s1 = lim s" "bps s1 = bps s"
    and v: "view s1 = (view s)(t := splice (view s t) (unat off) (le_bytes (unat n) v))"
    by (rule vput_cases [OF assms(1-4)])
  have "slice (splice (view s t) (unat off) (le_bytes (unat n) v)) (unat off) (unat n) = le_bytes (unat n) v"
    using slice_splice_same [of "unat off" "le_bytes (unat n) v" "view s t"] length_le_bytes [OF n]
      assms(1-3) view_length [OF assms(1), of t]
    by simp
  with vget_law [of s1 t off n] s1 v assms le_roundtrip [OF n] show ?thesis by auto
qed

end

locale run_store = sector_store inv view lim bps get put
  for inv :: "'s \<Rightarrow> bool" and view lim bps get put +
  fixes getrun :: "'s \<Rightarrow> sec_t \<Rightarrow> u32 \<Rightarrow> (bool \<times> u8 list \<times> 's) option"
    and putrun :: "'s \<Rightarrow> sec_t \<Rightarrow> u32 \<Rightarrow> u8 list \<Rightarrow> (bool \<times> 's) option"
    and erase :: "'s \<Rightarrow> u8 list \<Rightarrow> sec_t \<Rightarrow> u32 \<Rightarrow> u32 \<Rightarrow> (bool \<times> 's) option"
  assumes getrun_law: "inv s \<Longrightarrow> unat t + unat n \<le> unat (lim s) \<Longrightarrow>
      \<exists>s'. getrun s t n = Some (True, sectors_of (view s) t (unat n), s') \<and>
        inv s' \<and> view s' = view s \<and> lim s' = lim s \<and> bps s' = bps s"
    and putrun_law: "inv s \<Longrightarrow> unat t + unat n \<le> unat (lim s) \<Longrightarrow> unat n * bps s \<le> length b \<Longrightarrow>
      \<exists>s'. putrun s t n b = Some (True, s') \<and> inv s' \<and>
        view s' = write_run (view s) t (unat n) (bps s) b \<and> lim s' = lim s \<and> bps s' = bps s"
    and erase_law: "inv s \<Longrightarrow> t < lim s \<Longrightarrow> unat off + unat n \<le> bps s \<Longrightarrow> unat n \<le> length b \<Longrightarrow>
      \<exists>s'. erase s b t off n = Some (True, s') \<and> inv s' \<and>
        view s' = (view s)(t := splice (replicate (bps s) 0) (unat off) (take (unat n) b)) \<and>
        lim s' = lim s \<and> bps s' = bps s"
begin

text \<open>A run that was written is read back.\<close>

lemma getrun_after_putrun:
  assumes "inv s" and "unat t + unat n \<le> unat (lim s)" and "length b = unat n * bps s"
    and "putrun s t n b = Some (r, s')"
  shows "\<exists>s''. getrun s' t n = Some (True, b, s'')"
proof -
  obtain s1 where s1: "putrun s t n b = Some (True, s1)" "inv s1" "lim s1 = lim s" "bps s1 = bps s"
    and v: "view s1 = write_run (view s) t (unat n) (bps s) b"
    using putrun_law [OF assms(1,2), of b] assms(3) by auto
  have small: "unat t + k < 2 ^ 32" if "k < unat n" for k
    using that assms(2) unat_lt_2p32 [of "lim s"] by simp
  have "sectors_of (view s1) t k = take (k * bps s) b" if "k \<le> unat n" for k
    using that
  proof (induction k)
    case (Suc k)
    then have "view s1 (t + of_nat k) = slice b (k * bps s) (bps s)"
      using unat_offset [OF small, of k] by (simp add: v write_run_def)
    with Suc show ?case
      by (simp add: sectors_of_Suc slice_def take_add [symmetric] add.commute)
  qed simp
  with getrun_law [of s1 t n] s1 assms show ?thesis by auto
qed

end

section \<open>The cache provides them\<close>

text \<open>A cache over a driver whose transfers inside the partition do not fail.\<close>

definition store_inv :: "('d \<Rightarrow> sec_t \<Rightarrow> u8 list) \<Rightarrow> 'd cache \<Rightarrow> bool" where
  "store_inv med c \<longleftrightarrow> cache_inv med c \<and> disc_reliable (c_disc c) (unat (c_endOfPartition c))"

lemma store_inv_geom: "cache_inv med c' \<Longrightarrow> geom c' = geom c \<Longrightarrow> store_inv med c \<Longrightarrow> store_inv med c'"
  using geomD [of c' c] by (simp add: store_inv_def)

lemma read_result_store:
  assumes "store_inv med c" and "read_result med c res v"
  shows "\<exists>c'. res = Some (Some v, c') \<and> store_inv med c' \<and> cview med c' = cview med c \<and>
    c_endOfPartition c' = c_endOfPartition c \<and> unat (c_bytesPerSector c') = unat (c_bytesPerSector c)"
proof -
  have rel: "disc_reliable (c_disc c) (unat (c_endOfPartition c))"
    using assms(1) by (simp add: store_inv_def)
  then obtain c' where "res = Some (Some v, c')" "kept med c c'"
    using assms(2) unfolding read_result_def failed_def by blast
  then show ?thesis
    using geomD [of c' c] store_inv_geom [of med c' c] assms(1) by (simp add: kept_def)
qed

lemma write_result_store:
  assumes "store_inv med c" and "write_result med c res v"
  shows "\<exists>c'. res = Some (True, c') \<and> store_inv med c' \<and> cview med c' = v \<and>
    c_endOfPartition c' = c_endOfPartition c \<and> unat (c_bytesPerSector c') = unat (c_bytesPerSector c)"
proof -
  have rel: "disc_reliable (c_disc c) (unat (c_endOfPartition c))"
    using assms(1) by (simp add: store_inv_def)
  then obtain c' where "res = Some (True, c')" "cache_inv med c'" "geom c' = geom c" "cview med c' = v"
    using assms(2) unfolding write_result_def failed_def by blast
  then show ?thesis
    using geomD [of c' c] store_inv_geom [of med c' c] assms(1) by simp
qed

lemma readSectors_store:
  assumes st: "store_inv med c" and fits: "unat t + unat n \<le> unat (c_endOfPartition c)"
  shows "\<exists>c'. FAT_cache_readSectors c t n = Some (True, sectors_of (cview med c) t (unat n), c') \<and>
    store_inv med c' \<and> cview med c' = cview med c \<and>
    c_endOfPartition c' = c_endOfPartition c \<and> unat (c_bytesPerSector c') = unat (c_bytesPerSector c)"
proof -
  have inv: "cache_inv med c" and rel: "disc_reliable (c_disc c) (unat (c_endOfPartition c))"
    using st by (simp_all add: store_inv_def)
  from readSectors_loop_spec [OF inv fits, of "[]"] rel obtain c'
    where "readSectors_loop c t n [] = Some (True, sectors_of (cview med c) t (unat n), c')" "kept med c c'"
    by (auto simp: failed_def)
  then show ?thesis
    using st geomD [of c' c] store_inv_geom [of med c' c]
    by (simp add: FAT_cache_readSectors_def kept_def)
qed

lemma writeSectors_store:
  assumes st: "store_inv med c" and fits: "unat t + unat n \<le> unat (c_endOfPartition c)"
    and src: "unat n * unat (c_bytesPerSector c) \<le> length b"
  shows "\<exists>c'. FAT_cache_writeSectors c t n b = Some (True, c') \<and> store_inv med c' \<and>
    cview med c' = write_run (cview med c) t (unat n) (unat (c_bytesPerSector c)) b \<and>
    c_endOfPartition c' = c_endOfPartition c \<and> unat (c_bytesPerSector c') = unat (c_bytesPerSector c)"
proof -
  have inv: "cache_inv med c" and rel: "disc_reliable (c_disc c) (unat (c_endOfPartition c))"
    using st by (simp_all add: store_inv_def)
  from writeSectors_loop_spec [OF inv fits src] rel obtain c'
    where "writeSectors_loop c t n b = Some (True, c')" "cache_inv med c'" "geom c' = geom c"
      "cview med c' = write_run (cview med c) t (unat n) (unat (c_bytesPerSector c)) b"
    by auto
  then show ?thesis
    using st geomD [of c' c] store_inv_geom [of med c' c]
    by (simp add: FAT_cache_writeSectors_def)
qed

interpretation store: value_store "store_inv med" "cview med" c_endOfPartition
    "\<lambda>c. unat (c_bytesPerSector c)" FAT_cache_readPartialSector FAT_cache_writePartialSector
    FAT_cache_readLittleEndianValue FAT_cache_writeLittleEndianValue
  for med :: "'d \<Rightarrow> sec_t \<Rightarrow> u8 list"
proof (unfold_locales, goal_cases)
  case (1 s t)
  then show ?case by (simp add: store_inv_def length_cview)
next
  case (2 s t off n)
  then show ?case
    using readPartialSector_spec [of med s t off n] by (intro read_result_store) (simp_all add: store_inv_def)
next
  case (3 s t off n b)
  then show ?case
    using writePartialSector_spec [of med s t off n b] by (intro write_result_store) (simp_all add: store_inv_def)
next
  case (4 s t off n)
  then show ?case
    using readLittleEndianValue_spec [of med s t off n] by (intro read_result_store) (simp_all add: store_inv_def)
next
  case (5 s t off n v)
  then show ?case
    using writeLittleEndianValue_spec [of med s t off n v] by (intro write_result_store) (simp_all add: store_inv_def)
qed

interpretation runs: run_store "store_inv med" "cview med" c_endOfPartition
    "\<lambda>c. unat (c_bytesPerSector c)" FAT_cache_readPartialSector FAT_cache_writePartialSector
    FAT_cache_readSectors FAT_cache_writeSectors FAT_cache_eraseWritePartialSector
  for med :: "'d \<Rightarrow> sec_t \<Rightarrow> u8 list"
proof (unfold_locales, goal_cases)
  case (1 s t n)
  then show ?case by (intro readSectors_store)
next
  case (2 s t n b)
  then show ?case by (intro writeSectors_store)
next
  case (3 s t off n b)
  then show ?case
    using eraseWritePartialSector_spec [of med s t off n b] by (intro write_result_store) (simp_all add: store_inv_def)
qed

end
