(* ===== verification/CacheTrace.thy ===== *)
theory CacheTrace
  imports SectorStore
begin

text \<open>
  The sector cache against its abstract specification: an array of sectors and the operations a
  client sees. Any sequence of cache operations returns what the array returns, whatever pages are
  loaded, evicted and written back on the way.
\<close>

section \<open>Operations and their specification\<close>

datatype cache_op =
    Read_part sec_t u32 u32
  | Write_part sec_t u32 u32 "u8 list"
  | Erase_write sec_t u32 u32 "u8 list"
  | Read_run sec_t u32
  | Write_run sec_t u32 "u8 list"
  | Flush
  | Invalidate

datatype outcome = Bytes "u8 list" | Done | Failed

definition cache_op :: "'d cache \<Rightarrow> cache_op \<Rightarrow> (outcome \<times> 'd cache) option" where
  "cache_op c op = (case op of
     Read_part s off n \<Rightarrow> map_option (map_prod (\<lambda>r. case r of None \<Rightarrow> Failed | Some b \<Rightarrow> Bytes b) id)
       (FAT_cache_readPartialSector c s off n)
   | Write_part s off n b \<Rightarrow> map_option (map_prod (\<lambda>ok. if ok then Done else Failed) id)
       (FAT_cache_writePartialSector c b s off n)
   | Erase_write s off n b \<Rightarrow> map_option (map_prod (\<lambda>ok. if ok then Done else Failed) id)
       (FAT_cache_eraseWritePartialSector c b s off n)
   | Read_run s n \<Rightarrow> map_option (\<lambda>(ok, b, c). (if ok then Bytes b else Failed, c)) (FAT_cache_readSectors c s n)
   | Write_run s n b \<Rightarrow> map_option (map_prod (\<lambda>ok. if ok then Done else Failed) id) (FAT_cache_writeSectors c s n b)
   | Flush \<Rightarrow> Some (map_prod (\<lambda>ok. if ok then Done else Failed) id (FAT_cache_flush c))
   | Invalidate \<Rightarrow> Some (Done, FAT_cache_invalidate c))"

fun cache_ops :: "'d cache \<Rightarrow> cache_op list \<Rightarrow> (outcome list \<times> 'd cache) option" where
  "cache_ops c [] = Some ([], c)"
| "cache_ops c (op # ops) = do {
     (r, c) \<leftarrow> cache_op c op;
     (rs, c) \<leftarrow> cache_ops c ops;
     Some (r # rs, c)
   }"

definition array_op :: "nat \<Rightarrow> (sec_t \<Rightarrow> u8 list) \<Rightarrow> cache_op \<Rightarrow> outcome \<times> (sec_t \<Rightarrow> u8 list)" where
  "array_op bps a op = (case op of
     Read_part s off n \<Rightarrow> (Bytes (slice (a s) (unat off) (unat n)), a)
   | Write_part s off n b \<Rightarrow> (Done, a(s := splice (a s) (unat off) (take (unat n) b)))
   | Erase_write s off n b \<Rightarrow> (Done, a(s := splice (replicate bps 0) (unat off) (take (unat n) b)))
   | Read_run s n \<Rightarrow> (Bytes (sectors_of a s (unat n)), a)
   | Write_run s n b \<Rightarrow> (Done, write_run a s (unat n) bps b)
   | Flush \<Rightarrow> (Done, a)
   | Invalidate \<Rightarrow> (Done, a))"

fun array_ops :: "nat \<Rightarrow> (sec_t \<Rightarrow> u8 list) \<Rightarrow> cache_op list \<Rightarrow> outcome list \<times> (sec_t \<Rightarrow> u8 list)" where
  "array_ops bps a [] = ([], a)"
| "array_ops bps a (op # ops) =
     (let (r, a) = array_op bps a op; (rs, a) = array_ops bps a ops in (r # rs, a))"

text \<open>The operations the library issues: inside the partition, and with a buffer that is long
  enough.\<close>

definition op_fits :: "nat \<Rightarrow> sec_t \<Rightarrow> cache_op \<Rightarrow> bool" where
  "op_fits bps lim op = (case op of
     Read_part s off n \<Rightarrow> s < lim \<and> unat off + unat n \<le> bps
   | Write_part s off n b \<Rightarrow> s < lim \<and> unat off + unat n \<le> bps \<and> unat n \<le> length b
   | Erase_write s off n b \<Rightarrow> s < lim \<and> unat off + unat n \<le> bps \<and> unat n \<le> length b
   | Read_run s n \<Rightarrow> unat s + unat n \<le> unat lim
   | Write_run s n b \<Rightarrow> unat s + unat n \<le> unat lim \<and> unat n * bps \<le> length b
   | Flush \<Rightarrow> True
   | Invalidate \<Rightarrow> True)"

section \<open>The cache implements the array\<close>

definition shows_same :: "('d \<Rightarrow> sec_t \<Rightarrow> u8 list) \<Rightarrow> 'd cache \<Rightarrow> (sec_t \<Rightarrow> u8 list) \<Rightarrow> 'd cache \<Rightarrow> bool" where
  "shows_same med c a c' \<longleftrightarrow> store_inv med c' \<and> cview med c' = a \<and> c_endOfPartition c' = c_endOfPartition c \<and>
     unat (c_bytesPerSector c') = unat (c_bytesPerSector c)"

lemma kept_same: "store_inv med c \<Longrightarrow> kept med c c' \<Longrightarrow> shows_same med c (cview med c) c'"
  using geomD [of c' c] store_inv_geom [of med c' c] by (simp add: kept_def shows_same_def)

lemma cache_op_refines:
  assumes st: "store_inv med c" and fits: "op_fits (unat (c_bytesPerSector c)) (c_endOfPartition c) op"
  shows "\<exists>c'. cache_op c op = Some (fst (array_op (unat (c_bytesPerSector c)) (cview med c) op), c') \<and>
    shows_same med c (snd (array_op (unat (c_bytesPerSector c)) (cview med c) op)) c'"
proof (cases op)
  case (Read_part s off n)
  with store.get_law [OF st, of s off n] fits show ?thesis
    by (auto simp: cache_op_def array_op_def op_fits_def shows_same_def)
next
  case (Write_part s off n b)
  with store.put_law [OF st, of s off n b] fits show ?thesis
    by (auto simp: cache_op_def array_op_def op_fits_def shows_same_def)
next
  case (Erase_write s off n b)
  with runs.erase_law [OF st, of s off n b] fits show ?thesis
    by (auto simp: cache_op_def array_op_def op_fits_def shows_same_def)
next
  case (Read_run s n)
  with runs.getrun_law [OF st, of s n] fits show ?thesis
    by (auto simp: cache_op_def array_op_def op_fits_def shows_same_def)
next
  case (Write_run s n b)
  with runs.putrun_law [OF st, of s n b] fits show ?thesis
    by (auto simp: cache_op_def array_op_def op_fits_def shows_same_def)
next
  case Flush
  obtain ok c' where fl: "FAT_cache_flush c = (ok, c')" by fastforce
  have inv: "cache_inv med c" and rel: "disc_reliable (c_disc c) (unat (c_endOfPartition c))"
    using st by (simp_all add: store_inv_def)
  show ?thesis
    using flush_spec [OF inv fl] rel kept_same [OF st, of c'] Flush fl
    by (auto simp: cache_op_def array_op_def)
next
  case Invalidate
  have inv: "cache_inv med c" and rel: "disc_reliable (c_disc c) (unat (c_endOfPartition c))"
    using st by (simp_all add: store_inv_def)
  show ?thesis
    using invalidate_spec(1) [OF inv rel] kept_same [OF st] Invalidate
    by (simp add: cache_op_def array_op_def)
qed

lemma cache_ops_refine:
  assumes "store_inv med c" and "list_all (op_fits (unat (c_bytesPerSector c)) (c_endOfPartition c)) ops"
  shows "\<exists>c'. cache_ops c ops = Some (fst (array_ops (unat (c_bytesPerSector c)) (cview med c) ops), c') \<and>
    shows_same med c (snd (array_ops (unat (c_bytesPerSector c)) (cview med c) ops)) c'"
  using assms
proof (induction ops arbitrary: c)
  case Nil
  then show ?case by (simp add: shows_same_def)
next
  case (Cons op ops)
  obtain c1 where c1: "cache_op c op = Some (fst (array_op (unat (c_bytesPerSector c)) (cview med c) op), c1)"
      "shows_same med c (snd (array_op (unat (c_bytesPerSector c)) (cview med c) op)) c1"
    using cache_op_refines [of med c op] Cons.prems by auto
  have st: "store_inv med c1" and fits: "list_all (op_fits (unat (c_bytesPerSector c1)) (c_endOfPartition c1)) ops"
    using c1(2) Cons.prems(2) by (simp_all add: shows_same_def)
  from Cons.IH [OF this] c1 show ?case by (auto simp: shows_same_def split_beta)
qed

end
