(* ===== verification/Fat.thy ===== *)
theory Fat
  imports SectorStore
begin

text \<open>
  The partition record of \<open>source/partition.h\<close> and the file allocation table of
  \<open>source/file_allocation_table.h\<close> and \<open>source/file_allocation_table.c\<close>. A \<open>PARTITION\<close> keeps its
  cache by pointer and is the only user of it, so the model keeps it by value; the list of open
  files hangs off the partition as the address of its first element in the heap of file
  structures. The lock of the partition is empty on the modelled target and is left out.

  Every operation returns the new partition; \<open>None\<close> means that the C code has no defined outcome
  (an undefined value is used, a division by zero, or a loop that never ends).
\<close>

section \<open>The partition\<close>

datatype fs_type = FS_UNKNOWN | FS_FAT12 | FS_FAT16 | FS_FAT32

record fat =
  fat_fatStart :: sec_t
  fat_sectorsPerFat :: u32
  fat_lastCluster :: u32
  fat_firstFree :: u32
  fat_numberFreeCluster :: u32
  fat_numberLastAllocCluster :: u32

record 'd partition =
  p_disc :: "'d disc_interface"
  p_cache :: "'d cache"
  p_filesysType :: fs_type
  p_totalSize :: u64
  p_rootDirStart :: sec_t
  p_rootDirCluster :: u32
  p_numberOfSectors :: u32
  p_dataStart :: sec_t
  p_bytesPerSector :: u32
  p_sectorsPerCluster :: u32
  p_bytesPerCluster :: u32
  p_fsInfoSector :: u32
  p_fat :: fat
  p_cwdCluster :: u32
  p_openFileCount :: int
  p_firstOpenFile :: "nat option"
  p_readOnly :: bool
  p_label :: "u8 list"

text \<open>Running an operation of the cache on the partition's cache.\<close>

definition on_cache :: "('d cache \<Rightarrow> ('r \<times> 'd cache) option) \<Rightarrow> 'd partition \<Rightarrow> ('r \<times> 'd partition) option" where
  "on_cache f p = do { (r, c) \<leftarrow> f (p_cache p); Some (r, p\<lparr>p_cache := c\<rparr>) }"

definition CLUSTER_EOF_16 :: u32 where "CLUSTER_EOF_16 = 0xFFFF"
definition CLUSTER_EOF :: u32 where "CLUSTER_EOF = 0x0FFFFFFF"
definition CLUSTER_FREE :: u32 where "CLUSTER_FREE = 0"
definition CLUSTER_ROOT :: u32 where "CLUSTER_ROOT = 0"
definition CLUSTER_FIRST :: u32 where "CLUSTER_FIRST = 2"
definition CLUSTER_ERROR :: u32 where "CLUSTER_ERROR = 0xFFFFFFFF"
definition CLUSTERS_PER_FAT12 :: u32 where "CLUSTERS_PER_FAT12 = 4085"
definition CLUSTERS_PER_FAT16 :: u32 where "CLUSTERS_PER_FAT16 = 65525"

lemmas cluster_defs = CLUSTER_EOF_def CLUSTER_FREE_def CLUSTER_ROOT_def CLUSTER_FIRST_def CLUSTER_ERROR_def

definition FAT_fat_clusterToSector :: "'d partition \<Rightarrow> u32 \<Rightarrow> sec_t" where
  "FAT_fat_clusterToSector p cluster =
    (if cluster \<ge> CLUSTER_FIRST then (cluster - CLUSTER_FIRST) * p_sectorsPerCluster p + p_dataStart p
     else p_rootDirStart p)"

definition FAT_fat_isValidCluster :: "'d partition \<Rightarrow> u32 \<Rightarrow> bool" where
  "FAT_fat_isValidCluster p cluster \<longleftrightarrow> cluster \<ge> CLUSTER_FIRST \<and> cluster \<le> fat_lastCluster (p_fat p)"

section \<open>Single entries\<close>

text \<open>Where the entry of a cluster lies. A sector size below two or four bytes divides by zero.\<close>

definition fat12_pos :: "'d partition \<Rightarrow> u32 \<Rightarrow> (sec_t \<times> u32) option" where
  "fat12_pos p cluster =
    (if p_bytesPerSector p = 0 then None
     else Some (fat_fatStart (p_fat p) + ((cluster * 3) div 2) div p_bytesPerSector p,
                ((cluster * 3) div 2) mod p_bytesPerSector p))"

definition fat12_next_pos :: "'d partition \<Rightarrow> sec_t \<Rightarrow> u32 \<Rightarrow> sec_t \<times> u32" where
  "fat12_next_pos p sector offset =
    (let offset = offset + 1
     in if offset \<ge> p_bytesPerSector p then (sector + 1, 0) else (sector, offset))"

definition fat16_pos :: "'d partition \<Rightarrow> u32 \<Rightarrow> (sec_t \<times> u32) option" where
  "fat16_pos p cluster =
    (if drop_bit 1 (p_bytesPerSector p) = 0 then None
     else Some (fat_fatStart (p_fat p) + push_bit 1 cluster div p_bytesPerSector p,
                push_bit 1 (cluster mod drop_bit 1 (p_bytesPerSector p))))"

definition fat32_pos :: "'d partition \<Rightarrow> u32 \<Rightarrow> (sec_t \<times> u32) option" where
  "fat32_pos p cluster =
    (if drop_bit 2 (p_bytesPerSector p) = 0 then None
     else Some (fat_fatStart (p_fat p) + push_bit 2 cluster div p_bytesPerSector p,
                push_bit 2 (cluster mod drop_bit 2 (p_bytesPerSector p))))"

definition readValue :: "'d partition \<Rightarrow> sec_t \<Rightarrow> u32 \<Rightarrow> u32 \<Rightarrow> (u32 option \<times> 'd partition) option" where
  "readValue p sector offset n = on_cache (\<lambda>c. FAT_cache_readLittleEndianValue c sector offset n) p"

definition writeValue :: "'d partition \<Rightarrow> u32 \<Rightarrow> sec_t \<Rightarrow> u32 \<Rightarrow> u32 \<Rightarrow> (bool \<times> 'd partition) option" where
  "writeValue p value sector offset n =
     on_cache (\<lambda>c. FAT_cache_writeLittleEndianValue c value sector offset n) p"

text \<open>What a variable holds after a read into it that may have failed.\<close>

definition stored :: "u32 \<Rightarrow> u32 option \<Rightarrow> u32" where
  "stored old r = (case r of None \<Rightarrow> old | Some v \<Rightarrow> v)"

definition FAT_fat_nextCluster :: "'d partition \<Rightarrow> u32 \<Rightarrow> (u32 \<times> 'd partition) option" where
  "FAT_fat_nextCluster p cluster =
    (if cluster = CLUSTER_FREE then Some (CLUSTER_FREE, p)
     else case p_filesysType p of
       FS_UNKNOWN \<Rightarrow> Some (CLUSTER_ERROR, p)
     | FS_FAT12 \<Rightarrow> do {
         (sector, offset) \<leftarrow> fat12_pos p cluster;
         (r, p) \<leftarrow> readValue p sector offset 1;
         let nextCluster = stored CLUSTER_FREE r;
         let (sector, offset) = fat12_next_pos p sector offset;
         (r, p) \<leftarrow> readValue p sector offset 1;
         let nextCluster_h = stored 0 r;
         let nextCluster = nextCluster OR push_bit 8 nextCluster_h;
         let nextCluster = (if cluster AND 1 \<noteq> 0 then drop_bit 4 nextCluster else nextCluster AND 0x0FFF);
         Some (if nextCluster \<ge> 0x0FF7 then CLUSTER_EOF else nextCluster, p)
       }
     | FS_FAT16 \<Rightarrow> do {
         (sector, offset) \<leftarrow> fat16_pos p cluster;
         (r, p) \<leftarrow> readValue p sector offset 2;
         let nextCluster = stored CLUSTER_FREE r;
         Some (if nextCluster \<ge> 0xFFF7 then CLUSTER_EOF else nextCluster, p)
       }
     | FS_FAT32 \<Rightarrow> do {
         (sector, offset) \<leftarrow> fat32_pos p cluster;
         (r, p) \<leftarrow> readValue p sector offset 4;
         let nextCluster = stored CLUSTER_FREE r;
         Some (if nextCluster \<ge> 0x0FFFFFF7 then CLUSTER_EOF else nextCluster, p)
       })"

text \<open>The old value of a FAT12 entry is read into an uninitialised variable: when that read
  fails, the value the function goes on with is undefined. The results of the writes are
  ignored.\<close>

definition FAT_fat_writeFatEntry :: "'d partition \<Rightarrow> u32 \<Rightarrow> u32 \<Rightarrow> (bool \<times> 'd partition) option" where
  "FAT_fat_writeFatEntry p cluster value =
    (if cluster < CLUSTER_FIRST \<or> cluster > fat_lastCluster (p_fat p) then Some (False, p)
     else case p_filesysType p of
       FS_UNKNOWN \<Rightarrow> Some (False, p)
     | FS_FAT12 \<Rightarrow> do {
         (sector, offset) \<leftarrow> fat12_pos p cluster;
         if cluster AND 1 \<noteq> 0 then do {
           (r, p) \<leftarrow> readValue p sector offset 1;
           oldValue \<leftarrow> r;
           let value = push_bit 4 value OR (oldValue AND 0x0F);
           (_, p) \<leftarrow> writeValue p (value AND 0xFF) sector offset 1;
           let (sector, offset) = fat12_next_pos p sector offset;
           (_, p) \<leftarrow> writeValue p (drop_bit 8 value AND 0xFF) sector offset 1;
           Some (True, p)
         } else do {
           (_, p) \<leftarrow> writeValue p value sector offset 1;
           let (sector, offset) = fat12_next_pos p sector offset;
           (r, p) \<leftarrow> readValue p sector offset 1;
           oldValue \<leftarrow> r;
           let value = (drop_bit 8 value AND 0x0F) OR (oldValue AND 0xF0);
           (_, p) \<leftarrow> writeValue p value sector offset 1;
           Some (True, p)
         }
       }
     | FS_FAT16 \<Rightarrow> do {
         (sector, offset) \<leftarrow> fat16_pos p cluster;
         (_, p) \<leftarrow> writeValue p value sector offset 2;
         Some (True, p)
       }
     | FS_FAT32 \<Rightarrow> do {
         (sector, offset) \<leftarrow> fat32_pos p cluster;
         (_, p) \<leftarrow> writeValue p value sector offset 4;
         Some (True, p)
       })"

section \<open>Allocation\<close>

text \<open>The search for a free cluster: the flag tells whether one was found, the number is
  \<open>firstFree\<close> when the loop is left.\<close>

partial_function (option) findFree ::
    "'d partition \<Rightarrow> u32 \<Rightarrow> u32 \<Rightarrow> bool \<Rightarrow> ((bool \<times> u32) \<times> 'd partition) option" where
  "findFree p lastCluster firstFree loopedAroundFAT =
    do {
      (n, p) \<leftarrow> FAT_fat_nextCluster p firstFree;
      if n = CLUSTER_FREE then Some ((True, firstFree), p)
      else let firstFree = firstFree + 1
           in if firstFree > lastCluster
              then (if loopedAroundFAT then Some ((False, firstFree), p)
                    else findFree p lastCluster CLUSTER_FIRST True)
              else findFree p lastCluster firstFree loopedAroundFAT
    }"

declare findFree.simps [code]

definition set_fat :: "(fat \<Rightarrow> fat) \<Rightarrow> 'd partition \<Rightarrow> 'd partition" where
  "set_fat f p = p\<lparr>p_fat := f (p_fat p)\<rparr>"

text \<open>The bookkeeping of an allocation.\<close>

definition note_alloc :: "u32 \<Rightarrow> fat \<Rightarrow> fat" where
  "note_alloc n f = f\<lparr>fat_firstFree := n,
     fat_numberFreeCluster := (if fat_numberFreeCluster f \<noteq> 0 then fat_numberFreeCluster f - 1
       else fat_numberFreeCluster f),
     fat_numberLastAllocCluster := n\<rparr>"

definition FAT_fat_linkFreeCluster :: "'d partition \<Rightarrow> u32 \<Rightarrow> (u32 \<times> 'd partition) option" where
  "FAT_fat_linkFreeCluster p cluster =
    (let lastCluster = fat_lastCluster (p_fat p)
     in if cluster > lastCluster then Some (CLUSTER_ERROR, p)
        else do {
          (curLink, p) \<leftarrow> FAT_fat_nextCluster p cluster;
          if curLink \<ge> CLUSTER_FIRST \<and> curLink \<le> lastCluster then Some (curLink, p)
          else do {
            let firstFree = fat_firstFree (p_fat p);
            let firstFree = (if firstFree < CLUSTER_FIRST then CLUSTER_FIRST else firstFree);
            ((found, firstFree), p) \<leftarrow> findFree p lastCluster firstFree False;
            if \<not> found then Some (CLUSTER_ERROR, set_fat (\<lambda>f. f\<lparr>fat_firstFree := firstFree\<rparr>) p)
            else do {
              let p = set_fat (note_alloc firstFree) p;
              (_, p) \<leftarrow> (if cluster \<ge> CLUSTER_FIRST \<and> cluster \<le> lastCluster
                         then FAT_fat_writeFatEntry p cluster firstFree else Some (True, p));
              (_, p) \<leftarrow> FAT_fat_writeFatEntry p firstFree CLUSTER_EOF;
              Some (firstFree, p)
            }
          }
        })"

definition writeRun :: "'d partition \<Rightarrow> sec_t \<Rightarrow> u32 \<Rightarrow> u8 list \<Rightarrow> (bool \<times> 'd partition) option" where
  "writeRun p sector n buf = on_cache (\<lambda>c. FAT_cache_writeSectors c sector n buf) p"

text \<open>Writing the block to the sectors of a cluster one by one, from index \<open>i\<close> on; \<open>k\<close> of them
  are left.\<close>

fun clearCluster :: "'d partition \<Rightarrow> u32 \<Rightarrow> u8 list \<Rightarrow> u32 \<Rightarrow> nat \<Rightarrow> 'd partition option" where
  "clearCluster p newCluster emptySector i 0 = Some p"
| "clearCluster p newCluster emptySector i (Suc k) =
     do {
       (_, p) \<leftarrow> writeRun p (FAT_fat_clusterToSector p newCluster + i) 1 emptySector;
       clearCluster p newCluster emptySector (i + 1) k
     }"

text \<open>\<open>malloc\<close> is the outcome of the allocation of the empty sector; it is not checked.\<close>

definition FAT_fat_linkFreeClusterCleared ::
    "(nat \<Rightarrow> u8 list option) \<Rightarrow> 'd partition \<Rightarrow> u32 \<Rightarrow> (u32 \<times> 'd partition) option" where
  "FAT_fat_linkFreeClusterCleared malloc p cluster =
    do {
      (newCluster, p) \<leftarrow> FAT_fat_linkFreeCluster p cluster;
      if newCluster = CLUSTER_FREE \<or> newCluster = CLUSTER_ERROR then Some (CLUSTER_ERROR, p)
      else do {
        emptySector \<leftarrow> malloc (unat (p_bytesPerSector p));
        emptySector \<leftarrow> poke emptySector 0 (replicate (unat (p_bytesPerSector p)) 0);
        p \<leftarrow> clearCluster p newCluster emptySector 0 (unat (p_sectorsPerCluster p));
        Some (newCluster, p)
      }
    }"

section \<open>Releasing and following chains\<close>

definition note_free :: "u32 \<Rightarrow> fat \<Rightarrow> fat" where
  "note_free limit f = (if fat_numberFreeCluster f < limit
     then f\<lparr>fat_numberFreeCluster := fat_numberFreeCluster f + 1\<rparr> else f)"

partial_function (option) clearLinks_loop :: "'d partition \<Rightarrow> u32 \<Rightarrow> (bool \<times> 'd partition) option" where
  "clearLinks_loop p cluster =
    (if cluster \<noteq> CLUSTER_EOF \<and> cluster \<noteq> CLUSTER_FREE \<and> cluster \<noteq> CLUSTER_ERROR
     then do {
       (nextCluster, p) \<leftarrow> FAT_fat_nextCluster p cluster;
       (_, p) \<leftarrow> FAT_fat_writeFatEntry p cluster CLUSTER_FREE;
       if p_sectorsPerCluster p = 0 then None
       else clearLinks_loop (set_fat (note_free (p_numberOfSectors p div p_sectorsPerCluster p)) p) nextCluster
     } else Some (True, p))"

declare clearLinks_loop.simps [code]

definition FAT_fat_clearLinks :: "'d partition \<Rightarrow> u32 \<Rightarrow> (bool \<times> 'd partition) option" where
  "FAT_fat_clearLinks p cluster =
    (if cluster < CLUSTER_FIRST \<or> cluster > fat_lastCluster (p_fat p) then Some (False, p)
     else clearLinks_loop
       (if cluster < fat_firstFree (p_fat p) then set_fat (\<lambda>f. f\<lparr>fat_firstFree := cluster\<rparr>) p else p)
       cluster)"

text \<open>The walk to the last cluster to keep: \<open>k\<close> is the rest of \<open>chainLength\<close>.\<close>

fun trimChain_walk :: "'d partition \<Rightarrow> u32 \<Rightarrow> u32 \<Rightarrow> nat \<Rightarrow> ((u32 \<times> u32) \<times> 'd partition) option" where
  "trimChain_walk p startCluster nextCluster 0 = Some ((startCluster, nextCluster), p)"
| "trimChain_walk p startCluster nextCluster (Suc k) =
     (if nextCluster \<noteq> CLUSTER_FREE \<and> nextCluster \<noteq> CLUSTER_EOF
      then do {
        (n, p) \<leftarrow> FAT_fat_nextCluster p nextCluster;
        trimChain_walk p nextCluster n k
      } else Some ((startCluster, nextCluster), p))"

definition FAT_fat_trimChain :: "'d partition \<Rightarrow> u32 \<Rightarrow> u32 \<Rightarrow> (u32 \<times> 'd partition) option" where
  "FAT_fat_trimChain p startCluster chainLength =
    (if chainLength = 0
     then do { (_, p) \<leftarrow> FAT_fat_clearLinks p startCluster; Some (CLUSTER_FREE, p) }
     else do {
       (nextCluster, p) \<leftarrow> FAT_fat_nextCluster p startCluster;
       ((startCluster, nextCluster), p) \<leftarrow> trimChain_walk p startCluster nextCluster (unat (chainLength - 1));
       (_, p) \<leftarrow> (if nextCluster \<noteq> CLUSTER_FREE \<and> nextCluster \<noteq> CLUSTER_EOF
                  then FAT_fat_clearLinks p nextCluster else Some (True, p));
       (_, p) \<leftarrow> FAT_fat_writeFatEntry p startCluster CLUSTER_EOF;
       Some (startCluster, p)
     })"

text \<open>The condition reads the entry up to twice and the body once more; each read may replace
  cached pages.\<close>

partial_function (option) FAT_fat_lastCluster :: "'d partition \<Rightarrow> u32 \<Rightarrow> (u32 \<times> 'd partition) option" where
  "FAT_fat_lastCluster p cluster =
    do {
      (n, p) \<leftarrow> FAT_fat_nextCluster p cluster;
      if n = CLUSTER_FREE then Some (cluster, p)
      else do {
        (n, p) \<leftarrow> FAT_fat_nextCluster p cluster;
        if n = CLUSTER_EOF then Some (cluster, p)
        else do {
          (n, p) \<leftarrow> FAT_fat_nextCluster p cluster;
          FAT_fat_lastCluster p n
        }
      }
    }"

declare FAT_fat_lastCluster.simps [code]

partial_function (option) freeClusterCount_loop ::
    "'d partition \<Rightarrow> u32 \<Rightarrow> u32 \<Rightarrow> (u32 \<times> 'd partition) option" where
  "freeClusterCount_loop p curCluster count =
    (if curCluster \<le> fat_lastCluster (p_fat p)
     then do {
       (n, p) \<leftarrow> FAT_fat_nextCluster p curCluster;
       freeClusterCount_loop p (curCluster + 1) (if n = CLUSTER_FREE then count + 1 else count)
     } else Some (count, p))"

declare freeClusterCount_loop.simps [code]

definition FAT_fat_freeClusterCount :: "'d partition \<Rightarrow> (u32 \<times> 'd partition) option" where
  "FAT_fat_freeClusterCount p = freeClusterCount_loop p CLUSTER_FIRST 0"

end
