(* ===== verification/FatSpec.thy ===== *)
theory FatSpec
  imports Fat
begin

text \<open>
  The file allocation table as a function from clusters to links. \<open>fat_table\<close> decodes the entries
  of FAT12, FAT16 and FAT32 from the bytes the cache shows; reading an entry through the cache
  yields its value, and writing one changes that entry and nothing else on the disc.
\<close>

section \<open>The table in the sectors\<close>

text \<open>The file allocation table as one array of bytes.\<close>

definition fat_bytes :: "(sec_t \<Rightarrow> u8 list) \<Rightarrow> 'd partition \<Rightarrow> nat \<Rightarrow> u8" where
  "fat_bytes v p k =
    (if k < unat (fat_sectorsPerFat (p_fat p)) * unat (p_bytesPerSector p)
     then v (fat_fatStart (p_fat p) + of_nat (k div unat (p_bytesPerSector p))) ! (k mod unat (p_bytesPerSector p))
     else 0)"

definition entry_pos :: "fs_type \<Rightarrow> nat \<Rightarrow> nat" where
  "entry_pos ty c = (case ty of FS_UNKNOWN \<Rightarrow> 0 | FS_FAT12 \<Rightarrow> 3 * c div 2 | FS_FAT16 \<Rightarrow> 2 * c | FS_FAT32 \<Rightarrow> 4 * c)"

definition entry_len :: "fs_type \<Rightarrow> nat" where
  "entry_len ty = (case ty of FS_UNKNOWN \<Rightarrow> 0 | FS_FAT12 \<Rightarrow> 2 | FS_FAT16 \<Rightarrow> 2 | FS_FAT32 \<Rightarrow> 4)"

definition eof_limit :: "fs_type \<Rightarrow> u32" where
  "eof_limit ty = (case ty of FS_UNKNOWN \<Rightarrow> 0 | FS_FAT12 \<Rightarrow> 0x0FF7 | FS_FAT16 \<Rightarrow> 0xFFF7 | FS_FAT32 \<Rightarrow> 0x0FFFFFF7)"

definition raw_entry :: "fs_type \<Rightarrow> (nat \<Rightarrow> u8) \<Rightarrow> nat \<Rightarrow> u32" where
  "raw_entry ty B c = (let k = entry_pos ty c in
     case ty of
       FS_UNKNOWN \<Rightarrow> 0
     | FS_FAT12 \<Rightarrow> (let w = ucast (B k) OR push_bit 8 (ucast (B (k + 1)))
                    in if odd c then drop_bit 4 w else w AND 0x0FFF)
     | FS_FAT16 \<Rightarrow> le_value (map B [k..<k + 2])
     | FS_FAT32 \<Rightarrow> le_value (map B [k..<k + 4]))"

definition link_of :: "fs_type \<Rightarrow> u32 \<Rightarrow> u32" where
  "link_of ty v = (if v \<ge> eof_limit ty then CLUSTER_EOF else v)"

definition entry_mask :: "fs_type \<Rightarrow> u32 \<Rightarrow> u32" where
  "entry_mask ty v = (case ty of FS_UNKNOWN \<Rightarrow> 0 | FS_FAT12 \<Rightarrow> take_bit 12 v | FS_FAT16 \<Rightarrow> take_bit 16 v | FS_FAT32 \<Rightarrow> v)"

definition readable :: "'d partition \<Rightarrow> u32 \<Rightarrow> bool" where
  "readable p c \<longleftrightarrow> unat c < 2 ^ 28 \<and>
     entry_pos (p_filesysType p) (unat c) + entry_len (p_filesysType p)
       \<le> unat (fat_sectorsPerFat (p_fat p)) * unat (p_bytesPerSector p)"

definition pview :: "('d \<Rightarrow> sec_t \<Rightarrow> u8 list) \<Rightarrow> 'd partition \<Rightarrow> sec_t \<Rightarrow> u8 list" where
  "pview med p = cview med (p_cache p)"

text \<open>The link of a cluster, as the table of the partition has it.\<close>

definition fat_table :: "('d \<Rightarrow> sec_t \<Rightarrow> u8 list) \<Rightarrow> 'd partition \<Rightarrow> u32 \<Rightarrow> u32" where
  "fat_table med p c =
    (if c = CLUSTER_FREE then CLUSTER_FREE
     else if readable p c
     then link_of (p_filesysType p) (raw_entry (p_filesysType p) (fat_bytes (pview med p) p) (unat c))
     else CLUSTER_ERROR)"

definition fat_wf :: "'d partition \<Rightarrow> bool" where
  "fat_wf p \<longleftrightarrow> p_filesysType p \<noteq> FS_UNKNOWN \<and> p_bytesPerSector p = c_bytesPerSector (p_cache p) \<and>
     0 < unat (p_bytesPerSector p) \<and> 4 dvd unat (p_bytesPerSector p) \<and> p_sectorsPerCluster p \<noteq> 0 \<and>
     unat (fat_fatStart (p_fat p)) + unat (fat_sectorsPerFat (p_fat p)) \<le> unat (c_endOfPartition (p_cache p)) \<and>
     CLUSTER_FIRST \<le> fat_lastCluster (p_fat p) \<and>
     fat_lastCluster (p_fat p) < eof_limit (p_filesysType p) \<and> readable p (fat_lastCluster (p_fat p))"

definition part_ok :: "('d \<Rightarrow> sec_t \<Rightarrow> u8 list) \<Rightarrow> 'd partition \<Rightarrow> bool" where
  "part_ok med p \<longleftrightarrow> store_inv med (p_cache p) \<and> fat_wf p"

text \<open>Steps that change nothing but the cache.\<close>

definition same_part :: "'d partition \<Rightarrow> 'd partition \<Rightarrow> bool" where
  "same_part p p' \<longleftrightarrow> (\<exists>c. p' = p\<lparr>p_cache := c\<rparr> \<and> c_endOfPartition c = c_endOfPartition (p_cache p) \<and>
     c_bytesPerSector c = c_bytesPerSector (p_cache p))"

definition pkept :: "('d \<Rightarrow> sec_t \<Rightarrow> u8 list) \<Rightarrow> 'd partition \<Rightarrow> 'd partition \<Rightarrow> bool" where
  "pkept med p p' \<longleftrightarrow> part_ok med p' \<and> pview med p' = pview med p \<and> same_part p p'"

lemma same_part_refl: "same_part p p"
  unfolding same_part_def by (rule exI [of _ "p_cache p"]) simp

lemma same_part_trans: "same_part p q \<Longrightarrow> same_part q r \<Longrightarrow> same_part p r"
  unfolding same_part_def by force

lemma same_partD [geom_simps]:
  assumes "same_part p p'"
  shows "p_disc p' = p_disc p" "p_filesysType p' = p_filesysType p" "p_totalSize p' = p_totalSize p"
    "p_rootDirStart p' = p_rootDirStart p" "p_rootDirCluster p' = p_rootDirCluster p"
    "p_numberOfSectors p' = p_numberOfSectors p" "p_dataStart p' = p_dataStart p"
    "p_bytesPerSector p' = p_bytesPerSector p" "p_sectorsPerCluster p' = p_sectorsPerCluster p"
    "p_bytesPerCluster p' = p_bytesPerCluster p" "p_fsInfoSector p' = p_fsInfoSector p"
    "p_fat p' = p_fat p" "p_cwdCluster p' = p_cwdCluster p" "p_openFileCount p' = p_openFileCount p"
    "p_firstOpenFile p' = p_firstOpenFile p" "p_readOnly p' = p_readOnly p" "p_label p' = p_label p"
    "c_endOfPartition (p_cache p') = c_endOfPartition (p_cache p)"
    "c_bytesPerSector (p_cache p') = c_bytesPerSector (p_cache p)"
  using assms by (auto simp: same_part_def)

lemma readable_same: "same_part p p' \<Longrightarrow> readable p' c = readable p c"
  by (simp add: readable_def geom_simps)

lemma fat_wf_same: "same_part p p' \<Longrightarrow> fat_wf p' = fat_wf p"
  by (simp add: fat_wf_def readable_same geom_simps)

lemma fat_bytes_same: "same_part p p' \<Longrightarrow> fat_bytes v p' = fat_bytes v p"
  by (simp add: fun_eq_iff fat_bytes_def geom_simps)

lemma pkept_refl: "part_ok med p \<Longrightarrow> pkept med p p"
  by (simp add: pkept_def same_part_refl)

lemma pkept_trans: "pkept med p q \<Longrightarrow> pkept med q r \<Longrightarrow> pkept med p r"
  unfolding pkept_def by (auto intro: same_part_trans)

lemma pkept_table: "pkept med p p' \<Longrightarrow> fat_table med p' = fat_table med p"
  unfolding pkept_def fat_table_def
  using same_partD(2) [of p p'] readable_same [of p p'] fat_bytes_same [of p p']
  by (intro ext) (elim conjE, simp)

lemma pkeptD: "pkept med p p' \<Longrightarrow> part_ok med p'" "pkept med p p' \<Longrightarrow> same_part p p'"
  "pkept med p p' \<Longrightarrow> pview med p' = pview med p"
  by (simp_all add: pkept_def)


section \<open>Positions\<close>

definition fat_sector :: "'d partition \<Rightarrow> nat \<Rightarrow> sec_t" where
  "fat_sector p k = fat_fatStart (p_fat p) + of_nat (k div unat (p_bytesPerSector p))"

definition fat_offset :: "'d partition \<Rightarrow> nat \<Rightarrow> u32" where
  "fat_offset p k = of_nat (k mod unat (p_bytesPerSector p))"

definition fat_size :: "'d partition \<Rightarrow> nat" where
  "fat_size p = unat (fat_sectorsPerFat (p_fat p)) * unat (p_bytesPerSector p)"

lemma fat_wfD:
  assumes "fat_wf p"
  shows "p_filesysType p \<noteq> FS_UNKNOWN" "p_bytesPerSector p = c_bytesPerSector (p_cache p)"
    "0 < unat (p_bytesPerSector p)" "4 dvd unat (p_bytesPerSector p)" "p_sectorsPerCluster p \<noteq> 0"
    "unat (fat_fatStart (p_fat p)) + unat (fat_sectorsPerFat (p_fat p)) \<le> unat (c_endOfPartition (p_cache p))"
    "CLUSTER_FIRST \<le> fat_lastCluster (p_fat p)" "fat_lastCluster (p_fat p) < eof_limit (p_filesysType p)"
    "readable p (fat_lastCluster (p_fat p))"
  using assms unfolding fat_wf_def by blast+

lemma unat_fat_offset [simp]:
  "unat (fat_offset p k) = k mod unat (p_bytesPerSector p)" if "0 < unat (p_bytesPerSector p)"
proof -
  have "k mod unat (p_bytesPerSector p) < unat (p_bytesPerSector p)" using that by simp
  also have "\<dots> < 2 ^ 32" using unat_lt_2p32 [of "p_bytesPerSector p"] by simp
  finally show ?thesis
    by (simp add: fat_offset_def unsigned_of_nat take_bit_nat_eq_self_iff)
qed

lemma fat_sector_bound:
  assumes wf: "fat_wf p" and k: "k < fat_size p"
  shows "unat (fat_sector p k) = unat (fat_fatStart (p_fat p)) + k div unat (p_bytesPerSector p)"
    and "fat_sector p k < c_endOfPartition (p_cache p)"
proof -
  have "k div unat (p_bytesPerSector p) < unat (fat_sectorsPerFat (p_fat p))"
    using k by (simp add: fat_size_def less_mult_imp_div_less)
  then have lt: "unat (fat_fatStart (p_fat p)) + k div unat (p_bytesPerSector p) < unat (c_endOfPartition (p_cache p))"
    using fat_wfD(6) [OF wf] by simp
  also have "\<dots> < 2 ^ 32" using unat_lt_2p32 [of "c_endOfPartition (p_cache p)"] by simp
  finally show u: "unat (fat_sector p k) = unat (fat_fatStart (p_fat p)) + k div unat (p_bytesPerSector p)"
    unfolding fat_sector_def by (rule unat_offset)
  with lt show "fat_sector p k < c_endOfPartition (p_cache p)" by (simp add: word_less_nat_alt)
qed

lemma fat12_pos_eq:
  assumes "0 < unat (p_bytesPerSector p)" and "unat c < 2 ^ 28"
  shows "fat12_pos p c = Some (fat_sector p (3 * unat c div 2), fat_offset p (3 * unat c div 2))"
proof -
  have u: "unat ((c * 3) div 2) = 3 * unat c div 2"
    using assms(2) by (simp add: unat_div_word unat_mult_small mult.commute)
  have "((c * 3) div 2) div p_bytesPerSector p = of_nat (3 * unat c div 2 div unat (p_bytesPerSector p))"
    by (subst u [symmetric]) (simp add: unat_div_word [symmetric])
  moreover have "((c * 3) div 2) mod p_bytesPerSector p = of_nat (3 * unat c div 2 mod unat (p_bytesPerSector p))"
    by (subst u [symmetric]) (simp add: unat_mod_word [symmetric])
  moreover have "p_bytesPerSector p \<noteq> 0" using assms(1) by auto
  ultimately show ?thesis by (simp add: fat12_pos_def fat_sector_def fat_offset_def)
qed

lemma fat12_next_pos_eq:
  assumes wf: "fat_wf p"
  shows "fat12_next_pos p (fat_sector p k) (fat_offset p k) = (fat_sector p (k + 1), fat_offset p (k + 1))"
proof -
  let ?b = "unat (p_bytesPerSector p)"
  have b: "0 < ?b" using fat_wfD(3) [OF wf] .
  have lt: "k mod ?b < ?b" using b by simp
  have "k mod ?b + 1 < 4294967296"
    using lt unat_lt_2p32 [of "p_bytesPerSector p"] by linarith
  then have "unat (fat_offset p k + 1) = k mod ?b + 1"
    using unat_add_small [of "fat_offset p k" 1] b by simp
  then have ge: "fat_offset p k + 1 \<ge> p_bytesPerSector p \<longleftrightarrow> k mod ?b + 1 = ?b"
    using lt by (auto simp: word_le_nat_alt)
  show ?thesis
  proof (cases "k mod ?b + 1 = ?b")
    case True
    then have "(k + 1) div ?b = k div ?b + 1" and "(k + 1) mod ?b = 0"
      using b by (simp_all add: div_Suc mod_Suc)
    with True ge show ?thesis
      by (simp add: fat12_next_pos_def fat_sector_def fat_offset_def)
  next
    case False
    then have "(k + 1) div ?b = k div ?b" and "(k + 1) mod ?b = k mod ?b + 1"
      using b by (simp_all add: div_Suc mod_Suc)
    with False ge show ?thesis
      by (simp add: fat12_next_pos_def fat_sector_def fat_offset_def Let_def add.commute)
  qed
qed

text \<open>Entries of two or four bytes: the byte position is a multiple of the entry size.\<close>

lemma fat_pow_pos:
  assumes c: "2 ^ n * unat c < 2 ^ 32" and b: "2 ^ n dvd unat (p_bytesPerSector p)" "0 < unat (p_bytesPerSector p)"
  shows "drop_bit n (p_bytesPerSector p) \<noteq> 0"
    and "fat_fatStart (p_fat p) + push_bit n c div p_bytesPerSector p = fat_sector p (2 ^ n * unat c)"
    and "push_bit n (c mod drop_bit n (p_bytesPerSector p)) = fat_offset p (2 ^ n * unat c)"
proof -
  let ?b = "unat (p_bytesPerSector p)"
  obtain q where q: "?b = 2 ^ n * q" using b(1) by (auto simp: dvd_def)
  have d: "unat (drop_bit n (p_bytesPerSector p)) = q" by (simp add: unat_drop_word q)
  then show "drop_bit n (p_bytesPerSector p) \<noteq> 0" using b(2) q by (auto simp: word_eq_iff_unat_eq)
  have "push_bit n c div p_bytesPerSector p = of_nat (unat (push_bit n c div p_bytesPerSector p))" by simp
  also have "\<dots> = of_nat (2 ^ n * unat c div ?b)"
    by (simp only: unat_div_word unat_push_small [OF c])
  finally show "fat_fatStart (p_fat p) + push_bit n c div p_bytesPerSector p = fat_sector p (2 ^ n * unat c)"
    by (simp add: fat_sector_def)
  have m: "unat (c mod drop_bit n (p_bytesPerSector p)) = unat c mod q" by (simp add: unat_mod_word d)
  have "2 ^ n * (unat c mod q) \<le> 2 ^ n * unat c" by simp
  then have "2 ^ n * unat (c mod drop_bit n (p_bytesPerSector p)) < 2 ^ 32" unfolding m using c by linarith
  then have "unat (push_bit n (c mod drop_bit n (p_bytesPerSector p))) = 2 ^ n * (unat c mod q)"
    by (simp only: unat_push_small m)
  also have "\<dots> = 2 ^ n * unat c mod ?b" by (simp only: q mult_mod_right)
  finally show "push_bit n (c mod drop_bit n (p_bytesPerSector p)) = fat_offset p (2 ^ n * unat c)"
    by (intro word_eqI_unat) (simp only: unat_fat_offset [OF b(2)])
qed


section \<open>Access to the bytes of the table\<close>

text \<open>Bytes that lie in one sector, read and written through the cache.\<close>

lemma fat_bytes_slice:
  assumes wf: "fat_wf p" and len: "\<And>s. length (v s) = unat (p_bytesPerSector p)"
    and fit: "k mod unat (p_bytesPerSector p) + n \<le> unat (p_bytesPerSector p)" "k + n \<le> fat_size p"
  shows "slice (v (fat_sector p k)) (k mod unat (p_bytesPerSector p)) n = map (fat_bytes v p) [k..<k + n]"
proof (rule nth_equalityI)
  let ?b = "unat (p_bytesPerSector p)"
  show l: "length (slice (v (fat_sector p k)) (k mod ?b) n) = length (map (fat_bytes v p) [k..<k + n])"
    using fit by (simp add: len)
  fix i assume "i < length (slice (v (fat_sector p k)) (k mod ?b) n)"
  then have i: "i < n" using l by simp
  have "k mod ?b + i < ?b" using i fit by simp
  then have "(k + i) div ?b = k div ?b" and "(k + i) mod ?b = k mod ?b + i"
    by (rule div_mod_within)+
  then show "slice (v (fat_sector p k)) (k mod ?b) n ! i = map (fat_bytes v p) [k..<k + n] ! i"
    using i fit by (simp add: nth_slice len fat_bytes_def fat_sector_def fat_size_def)
qed


lemma fat_bytes_splice:
  assumes wf: "fat_wf p" and len: "\<And>s. length (v s) = unat (p_bytesPerSector p)"
    and fit: "k mod unat (p_bytesPerSector p) + length d \<le> unat (p_bytesPerSector p)"
      "k + length d \<le> fat_size p" "d \<noteq> []"
  shows "fat_bytes (v(fat_sector p k := splice (v (fat_sector p k)) (k mod unat (p_bytesPerSector p)) d)) p j
    = (if k \<le> j \<and> j < k + length d then d ! (j - k) else fat_bytes v p j)"
proof (cases "j < fat_size p")
  case False
  then show ?thesis using fit by (auto simp: fat_bytes_def fat_size_def)
next
  case True
  let ?b = "unat (p_bytesPerSector p)"
  have b: "0 < ?b" by (rule fat_wfD(3) [OF wf])
  have k: "k < fat_size p" using fit by (cases d) auto
  have sec: "fat_sector p j = fat_sector p k \<longleftrightarrow> j div ?b = k div ?b"
    using fat_sector_bound(1) [OF wf True] fat_sector_bound(1) [OF wf k]
    by (auto simp: word_eq_iff_unat_eq)
  have j: "fat_bytes w p j = w (fat_sector p j) ! (j mod ?b)" for w
    using True by (simp add: fat_bytes_def fat_size_def fat_sector_def)
  show ?thesis
  proof (cases "j div ?b = k div ?b")
    case True
    have "j mod ?b < ?b" using b by simp
    moreover obtain q where "j = q + j mod ?b" and "k = q + k mod ?b"
      using True div_mult_mod_eq [of j ?b] div_mult_mod_eq [of k ?b] by metis
    then have "k \<le> j \<and> j < k + length d \<longleftrightarrow> k mod ?b \<le> j mod ?b \<and> j mod ?b < k mod ?b + length d"
      and "j - k = j mod ?b - k mod ?b"
      by arith+
    ultimately show ?thesis
      using True sec fit by (simp add: j nth_splice len)
  next
    case False
    have "\<not> (k \<le> j \<and> j < k + length d)"
    proof
      assume r: "k \<le> j \<and> j < k + length d"
      then have "k mod ?b + (j - k) < ?b" using fit by linarith
      from div_mod_within(1) [OF this] r False show False by simp
    qed
    with False sec show ?thesis by (subst if_not_P) (simp_all add: j)
  qed
qed


text \<open>One little endian access to the table.\<close>

lemma part_okD:
  assumes "part_ok med p"
  shows "store_inv med (p_cache p)" "fat_wf p" "length (pview med p s) = unat (p_bytesPerSector p)"
  using assms store.view_length [of med "p_cache p" s] fat_wfD(2) [of p]
  by (simp_all add: part_ok_def pview_def)

lemma cache_step:
  assumes "part_ok med p" and "store_inv med c" and "c_endOfPartition c = c_endOfPartition (p_cache p)"
    and "unat (c_bytesPerSector c) = unat (c_bytesPerSector (p_cache p))"
  shows "part_ok med (p\<lparr>p_cache := c\<rparr>)" and "same_part p (p\<lparr>p_cache := c\<rparr>)"
proof -
  show sp: "same_part p (p\<lparr>p_cache := c\<rparr>)"
    using assms by (auto simp: same_part_def word_eq_iff_unat_eq)
  show "part_ok med (p\<lparr>p_cache := c\<rparr>)"
    using assms fat_wf_same [OF sp] by (simp add: part_ok_def)
qed

lemma fat_access_bounds:
  assumes ok: "part_ok med p" and n: "unat n \<in> {1, 2, 4}"
    and fit: "k mod unat (p_bytesPerSector p) + unat n \<le> unat (p_bytesPerSector p)" "k + unat n \<le> fat_size p"
  shows "fat_sector p k < c_endOfPartition (p_cache p)"
    and "unat (fat_offset p k) + unat n \<le> unat (c_bytesPerSector (p_cache p))"
  using fat_sector_bound(2) [OF part_okD(2) [OF ok], of k] fat_wfD(2,3) [OF part_okD(2) [OF ok]] n fit
  by auto

lemma readValue_fat:
  assumes ok: "part_ok med p" and n: "unat n \<in> {1, 2, 4}"
    and fit: "k mod unat (p_bytesPerSector p) + unat n \<le> unat (p_bytesPerSector p)" "k + unat n \<le> fat_size p"
  obtains p' where "readValue p (fat_sector p k) (fat_offset p k) n
      = Some (Some (le_value (map (fat_bytes (pview med p) p) [k..<k + unat n])), p')" and "pkept med p p'"
proof -
  note wf = part_okD(2) [OF ok]
  from store.vget_cases [OF part_okD(1) [OF ok] fat_access_bounds [OF ok n fit] n] obtain c
    where c: "FAT_cache_readLittleEndianValue (p_cache p) (fat_sector p k) (fat_offset p k) n
        = Some (Some (le_value (slice (cview med (p_cache p) (fat_sector p k)) (unat (fat_offset p k)) (unat n))), c)"
      "store_inv med c" "cview med c = cview med (p_cache p)" "c_endOfPartition c = c_endOfPartition (p_cache p)"
      "unat (c_bytesPerSector c) = unat (c_bytesPerSector (p_cache p))"
    by metis
  note st = cache_step [OF ok c(2,4,5)]
  have "slice (cview med (p_cache p) (fat_sector p k)) (unat (fat_offset p k)) (unat n)
      = map (fat_bytes (pview med p) p) [k..<k + unat n]"
    using fat_bytes_slice [OF wf part_okD(3) [OF ok] fit] fat_wfD(3) [OF wf] by (simp add: pview_def)
  with c(1) have "readValue p (fat_sector p k) (fat_offset p k) n
      = Some (Some (le_value (map (fat_bytes (pview med p) p) [k..<k + unat n])), p\<lparr>p_cache := c\<rparr>)"
    by (simp add: readValue_def on_cache_def)
  moreover have "pkept med p (p\<lparr>p_cache := c\<rparr>)"
    using st c(3) by (simp add: pkept_def pview_def)
  ultimately show thesis by (rule that)
qed


text \<open>A step that may change the table, to the bytes \<open>B\<close>, and nothing else of the disc.\<close>

definition table_step :: "('d \<Rightarrow> sec_t \<Rightarrow> u8 list) \<Rightarrow> 'd partition \<Rightarrow> 'd partition \<Rightarrow> (nat \<Rightarrow> u8) \<Rightarrow> bool" where
  "table_step med p p' B \<longleftrightarrow> part_ok med p' \<and> same_part p p' \<and> fat_bytes (pview med p') p' = B \<and>
     (\<forall>s. \<not> in_range (fat_fatStart (p_fat p)) (fat_sectorsPerFat (p_fat p)) s \<longrightarrow>
        pview med p' s = pview med p s)"

lemma table_stepD:
  assumes "table_step med p p' B"
  shows "part_ok med p'" "same_part p p'" "fat_bytes (pview med p') p' = B"
    "\<not> in_range (fat_fatStart (p_fat p)) (fat_sectorsPerFat (p_fat p)) s \<Longrightarrow> pview med p' s = pview med p s"
  using assms by (simp_all add: table_step_def)

lemma table_step_trans:
  assumes "table_step med p q A" and "table_step med q r B"
  shows "table_step med p r B"
  using assms same_part_trans [of p q r] same_partD(12) [of p q] by (auto simp: table_step_def)

lemma table_step_kept:
  "pkept med p p' \<Longrightarrow> table_step med p p' (fat_bytes (pview med p) p)"
  by (simp add: pkept_def table_step_def fat_bytes_same [of p p'])

lemma writeValue_fat:
  assumes ok: "part_ok med p" and n: "unat n \<in> {1, 2, 4}"
    and fit: "k mod unat (p_bytesPerSector p) + unat n \<le> unat (p_bytesPerSector p)" "k + unat n \<le> fat_size p"
  obtains p' where "writeValue p v (fat_sector p k) (fat_offset p k) n = Some (True, p')"
    and "table_step med p p' (\<lambda>j. if k \<le> j \<and> j < k + unat n then le_bytes (unat n) v ! (j - k)
      else fat_bytes (pview med p) p j)"
proof -
  note wf = part_okD(2) [OF ok]
  have len: "length (le_bytes (unat n) v) = unat n" by (rule length_le_bytes [OF n])
  then have ne: "le_bytes (unat n) v \<noteq> []" using n by auto
  have k: "k < fat_size p" using fit(2) n by auto
  from store.vput_cases [OF part_okD(1) [OF ok] fat_access_bounds [OF ok n fit] n] obtain c
    where c: "FAT_cache_writeLittleEndianValue (p_cache p) v (fat_sector p k) (fat_offset p k) n = Some (True, c)"
      "store_inv med c" "cview med c = (cview med (p_cache p))(fat_sector p k :=
        splice (cview med (p_cache p) (fat_sector p k)) (unat (fat_offset p k)) (le_bytes (unat n) v))"
      "c_endOfPartition c = c_endOfPartition (p_cache p)"
      "unat (c_bytesPerSector c) = unat (c_bytesPerSector (p_cache p))"
    by metis
  note st = cache_step [OF ok c(2,4,5)]
  have bytes: "fat_bytes (pview med (p\<lparr>p_cache := c\<rparr>)) (p\<lparr>p_cache := c\<rparr>)
      = (\<lambda>j. if k \<le> j \<and> j < k + unat n then le_bytes (unat n) v ! (j - k) else fat_bytes (pview med p) p j)"
    using fat_bytes_splice [where v = "pview med p" and k = k and d = "le_bytes (unat n) v", OF wf part_okD(3) [OF ok]]
      fit ne
    by (intro ext) (simp add: fat_bytes_same [OF st(2)] pview_def c(3) fat_wfD(3) [OF wf] len)
  have "in_range (fat_fatStart (p_fat p)) (fat_sectorsPerFat (p_fat p)) (fat_sector p k)"
    using fat_sector_bound(1) [OF wf k] k
    by (simp add: in_range_def fat_size_def less_mult_imp_div_less)
  then have "table_step med p (p\<lparr>p_cache := c\<rparr>) (\<lambda>j. if k \<le> j \<and> j < k + unat n
      then le_bytes (unat n) v ! (j - k) else fat_bytes (pview med p) p j)"
    using st bytes c(3) by (auto simp: table_step_def pview_def)
  moreover have "writeValue p v (fat_sector p k) (fat_offset p k) n = Some (True, p\<lparr>p_cache := c\<rparr>)"
    using c(1) by (simp add: writeValue_def on_cache_def)
  ultimately show thesis by (rule that [rotated])
qed


section \<open>One entry\<close>

lemma le_value_1: "le_value [b] = ucast b"
  by (simp add: le_value_def)

lemma upt_2: "[k..<k + 2] = [k, k + 1]" and upt_4: "[k..<k + 4] = [k, k + 1, k + 2, k + 3]"
  by (simp_all add: upt_rec)

lemma same_part_pos:
  assumes "same_part p p'"
  shows "fat_sector p' = fat_sector p" "fat_offset p' = fat_offset p" "fat_size p' = fat_size p"
    "fat12_next_pos p' = fat12_next_pos p"
  using same_partD(8,12) [OF assms]
  by (simp_all add: fun_eq_iff fat_sector_def fat_offset_def fat_size_def fat12_next_pos_def)

lemma byte_room: "0 < b \<Longrightarrow> k mod b + unat (1 :: u32) \<le> b"
  by (simp add: Suc_leI)

lemma readByte_fat:
  assumes ok: "part_ok med p" and fit: "k < fat_size p"
  obtains p' where "readValue p (fat_sector p k) (fat_offset p k) 1
      = Some (Some (ucast (fat_bytes (pview med p) p k)), p')" and "pkept med p p'"
proof (rule readValue_fat [OF ok _ byte_room [OF fat_wfD(3) [OF part_okD(2) [OF ok]]], of k])
  fix p' assume "readValue p (fat_sector p k) (fat_offset p k) 1
      = Some (Some (le_value (map (fat_bytes (pview med p) p) [k..<k + unat (1 :: u32)])), p')" "pkept med p p'"
  then show thesis by (intro that [of p']) (simp_all add: le_value_1)
qed (use fit in simp_all)

lemma writeByte_fat:
  assumes ok: "part_ok med p" and fit: "k < fat_size p"
  obtains p' where "writeValue p v (fat_sector p k) (fat_offset p k) 1 = Some (True, p')"
    and "table_step med p p' ((fat_bytes (pview med p) p)(k := ucast v))"
proof (rule writeValue_fat [OF ok _ byte_room [OF fat_wfD(3) [OF part_okD(2) [OF ok]]], of k v])
  fix p' assume w: "writeValue p v (fat_sector p k) (fat_offset p k) 1 = Some (True, p')"
    "table_step med p p' (\<lambda>j. if k \<le> j \<and> j < k + unat (1 :: u32) then le_bytes (unat (1 :: u32)) v ! (j - k)
      else fat_bytes (pview med p) p j)"
  moreover have "(\<lambda>j. if k \<le> j \<and> j < k + unat (1 :: u32) then le_bytes (unat (1 :: u32)) v ! (j - k)
      else fat_bytes (pview med p) p j) = (fat_bytes (pview med p) p)(k := ucast v)"
    by (auto simp: fun_eq_iff le_bytes_def)
  ultimately show thesis by (intro that [of p']) simp_all
qed (use fit in simp_all)

lemma nextCluster_fat12:
  assumes ok: "part_ok med p" and ty: "p_filesysType p = FS_FAT12" and rd: "readable p c" and c: "c \<noteq> CLUSTER_FREE"
  shows "\<exists>p'. FAT_fat_nextCluster p c = Some (fat_table med p c, p') \<and> pkept med p p'"
proof -
  let ?k = "3 * unat c div 2"
  note wf = part_okD(2) [OF ok]
  have small: "unat c < 2 ^ 28" and fit: "?k + 2 \<le> fat_size p"
    using rd by (simp_all add: readable_def ty entry_pos_def entry_len_def fat_size_def)
  obtain p1 where p1: "readValue p (fat_sector p ?k) (fat_offset p ?k) 1
      = Some (Some (ucast (fat_bytes (pview med p) p ?k)), p1)" "pkept med p p1"
    using fit by (elim readByte_fat [OF ok, of ?k, rotated]) simp
  note ok1 = pkeptD(1) [OF p1(2)] and sp = pkeptD(2) [OF p1(2)]
  obtain p2 where p2: "readValue p1 (fat_sector p (?k + 1)) (fat_offset p (?k + 1)) 1
      = Some (Some (ucast (fat_bytes (pview med p) p (?k + 1))), p2)" "pkept med p1 p2"
    using fit readByte_fat [OF ok1, of "?k + 1"]
    unfolding same_part_pos [OF sp] fat_bytes_same [OF sp] pkeptD(3) [OF p1(2)] by auto
  show ?thesis
    using fat12_pos_eq [OF fat_wfD(3) [OF wf] small] p1 p2 c ty rd fat12_next_pos_eq [OF wf, of ?k] odd_word [of c]
      pkept_trans [OF p1(2) p2(2)] same_part_pos(4) [OF sp]
    by (simp add: FAT_fat_nextCluster_def stored_def Let_def fat_table_def raw_entry_def
        link_of_def eof_limit_def entry_pos_def)
qed


text \<open>The entries of FAT16 and FAT32 lie in one sector.\<close>

lemma fat_pow_fit:
  assumes ok: "part_ok med p" and n: "n \<le> 2"
  shows "2 ^ n dvd unat (p_bytesPerSector p)"
    and "(2 ^ n * k) mod unat (p_bytesPerSector p) + 2 ^ n \<le> unat (p_bytesPerSector p)"
proof -
  have "(2 :: nat) ^ n dvd 2 ^ 2" using n by (rule le_imp_power_dvd)
  then show d: "2 ^ n dvd unat (p_bytesPerSector p)"
    using fat_wfD(4) [OF part_okD(2) [OF ok]] by (auto intro: dvd_trans)
  show "(2 ^ n * k) mod unat (p_bytesPerSector p) + 2 ^ n \<le> unat (p_bytesPerSector p)"
    using d fat_wfD(3) [OF part_okD(2) [OF ok]] by (intro mod_room) simp_all
qed

lemma nextCluster_fat16:
  assumes ok: "part_ok med p" and ty: "p_filesysType p = FS_FAT16" and rd: "readable p c" and c: "c \<noteq> CLUSTER_FREE"
  shows "\<exists>p'. FAT_fat_nextCluster p c = Some (fat_table med p c, p') \<and> pkept med p p'"
proof -
  have small: "2 ^ 1 * unat c < 2 ^ 32" and fit: "2 ^ 1 * unat c + unat (2 :: u32) \<le> fat_size p"
    using rd by (simp_all add: readable_def ty entry_pos_def entry_len_def fat_size_def)
  note pos = fat_pow_pos [OF small fat_pow_fit(1) [OF ok] fat_wfD(3) [OF part_okD(2) [OF ok]]]
  obtain p1 where "readValue p (fat_sector p (2 ^ 1 * unat c)) (fat_offset p (2 ^ 1 * unat c)) 2
      = Some (Some (le_value (map (fat_bytes (pview med p) p) [2 ^ 1 * unat c..<2 ^ 1 * unat c + unat (2 :: u32)])), p1)"
    "pkept med p p1"
    using fit fat_pow_fit(2) [OF ok, of 1 "unat c"] by (elim readValue_fat [OF ok, rotated 3]) simp_all
  then show ?thesis
    using pos c rd
    by (simp add: FAT_fat_nextCluster_def fat16_pos_def ty stored_def Let_def fat_table_def raw_entry_def
        link_of_def eof_limit_def entry_pos_def)
qed

lemma nextCluster_fat32:
  assumes ok: "part_ok med p" and ty: "p_filesysType p = FS_FAT32" and rd: "readable p c" and c: "c \<noteq> CLUSTER_FREE"
  shows "\<exists>p'. FAT_fat_nextCluster p c = Some (fat_table med p c, p') \<and> pkept med p p'"
proof -
  have small: "2 ^ 2 * unat c < 2 ^ 32" and fit: "2 ^ 2 * unat c + unat (4 :: u32) \<le> fat_size p"
    using rd by (simp_all add: readable_def ty entry_pos_def entry_len_def fat_size_def)
  note pos = fat_pow_pos [OF small fat_pow_fit(1) [OF ok] fat_wfD(3) [OF part_okD(2) [OF ok]]]
  obtain p1 where "readValue p (fat_sector p (2 ^ 2 * unat c)) (fat_offset p (2 ^ 2 * unat c)) 4
      = Some (Some (le_value (map (fat_bytes (pview med p) p) [2 ^ 2 * unat c..<2 ^ 2 * unat c + unat (4 :: u32)])), p1)"
    "pkept med p p1"
    using fit fat_pow_fit(2) [OF ok, of 2 "unat c"] by (elim readValue_fat [OF ok, rotated 3]) simp_all
  then show ?thesis
    using pos c rd
    by (simp add: FAT_fat_nextCluster_def fat32_pos_def ty stored_def Let_def fat_table_def raw_entry_def
        link_of_def eof_limit_def entry_pos_def)
qed

lemma nextCluster_spec:
  assumes ok: "part_ok med p" and c: "c = CLUSTER_FREE \<or> readable p c"
  shows "\<exists>p'. FAT_fat_nextCluster p c = Some (fat_table med p c, p') \<and> pkept med p p'"
proof (cases "c = CLUSTER_FREE")
  case True
  then show ?thesis using pkept_refl [OF ok] by (simp add: FAT_fat_nextCluster_def fat_table_def)
next
  case False
  with c have "readable p c" by simp
  with False show ?thesis
    using fat_wfD(1) [OF part_okD(2) [OF ok]] nextCluster_fat12 [OF ok] nextCluster_fat16 [OF ok] nextCluster_fat32 [OF ok]
    by (cases "p_filesysType p") simp_all
qed

section \<open>Writing one entry\<close>

lemma readable_mono: "readable p d \<Longrightarrow> unat c \<le> unat d \<Longrightarrow> readable p c"
  by (auto simp: readable_def entry_pos_def entry_len_def split: fs_type.splits)

lemma valid_readable:
  "fat_wf p \<Longrightarrow> c \<le> fat_lastCluster (p_fat p) \<Longrightarrow> readable p c"
  using readable_mono [OF fat_wfD(9)] by (simp add: word_le_nat_alt)

lemma fat_table_step:
  assumes st: "table_step med p p' B" and wf: "fat_wf p" and c: "readable p c" "c \<noteq> CLUSTER_FREE"
    and at: "raw_entry (p_filesysType p) B (unat c) = entry_mask (p_filesysType p) v"
    and other: "\<And>d. d \<noteq> unat c \<Longrightarrow> raw_entry (p_filesysType p) B d
      = raw_entry (p_filesysType p) (fat_bytes (pview med p) p) d"
  shows "fat_table med p' = (fat_table med p)(c := link_of (p_filesysType p) (entry_mask (p_filesysType p) v))"
proof
  note sp = table_stepD(2) [OF st]
  fix d
  show "fat_table med p' d = ((fat_table med p)(c := link_of (p_filesysType p) (entry_mask (p_filesysType p) v))) d"
  proof (cases "d = c")
    case True
    with c at show ?thesis
      by (simp add: fat_table_def table_stepD(3) [OF st] readable_same [OF sp] same_partD(2) [OF sp])
  next
    case False
    then have "unat d \<noteq> unat c" by (simp add: word_eq_iff_unat_eq)
    with False other [of "unat d"] show ?thesis
      by (simp add: fat_table_def table_stepD(3) [OF st] readable_same [OF sp] same_partD(2) [OF sp])
  qed
qed

lemma raw_entry_cong:
  assumes "\<And>j. entry_pos ty c \<le> j \<Longrightarrow> j < entry_pos ty c + entry_len ty \<Longrightarrow> B j = A j"
  shows "raw_entry ty B c = raw_entry ty A c"
  using assms by (cases ty) (auto simp: raw_entry_def Let_def entry_len_def intro!: arg_cong [where f = le_value])

lemma le_values: "le_value (le_bytes 2 v) = take_bit 16 v" "le_value (le_bytes 4 v) = v"
  using le_roundtrip [of 2 v] le_roundtrip [of 4 v] by simp_all

lemma map_overlay:
  "length d = n \<Longrightarrow> map (\<lambda>j. if k \<le> j \<and> j < k + n then d ! (j - k) else A j) [k..<k + n] = d"
  by (rule nth_equalityI) simp_all

lemma write_pow_entry:
  assumes ok: "part_ok med p" and v: "FAT_fat_isValidCluster p c" and e: "e \<in> {1, 2}" and n: "unat n = 2 ^ e"
    and shape: "\<And>d. entry_pos (p_filesysType p) d = 2 ^ e * d" "entry_len (p_filesysType p) = 2 ^ e"
      "\<And>B d. raw_entry (p_filesysType p) B d = le_value (map B [2 ^ e * d..<2 ^ e * d + 2 ^ e])"
      "entry_mask (p_filesysType p) v = le_value (le_bytes (2 ^ e) v)"
  shows "\<exists>p' B. writeValue p v (fat_sector p (2 ^ e * unat c)) (fat_offset p (2 ^ e * unat c)) n = Some (True, p') \<and>
    table_step med p p' B \<and>
    fat_table med p' = (fat_table med p)(c := link_of (p_filesysType p) (entry_mask (p_filesysType p) v))"
proof -
  note wf = part_okD(2) [OF ok]
  have rd: "readable p c" and nf: "c \<noteq> CLUSTER_FREE"
    using v valid_readable [OF wf] by (auto simp: FAT_fat_isValidCluster_def cluster_defs)
  let ?k = "2 ^ e * unat c" and ?n = "2 ^ e :: nat"
  have n': "unat n \<in> {1, 2, 4}" using n e by auto
  have fit: "?k mod unat (p_bytesPerSector p) + unat n \<le> unat (p_bytesPerSector p)" "?k + unat n \<le> fat_size p"
    using rd fat_pow_fit(2) [OF ok, of e "unat c"] e by (auto simp: n readable_def shape fat_size_def)
  let ?B = "\<lambda>j. if ?k \<le> j \<and> j < ?k + ?n then le_bytes ?n v ! (j - ?k) else fat_bytes (pview med p) p j"
  obtain p1 where p1: "writeValue p v (fat_sector p ?k) (fat_offset p ?k) n = Some (True, p1)" "table_step med p p1 ?B"
    using writeValue_fat [OF ok n' fit] unfolding n by blast
  have "map ?B [?k..<?k + ?n] = le_bytes ?n v"
    using e by (intro map_overlay) (auto simp: length_le_bytes)
  then have at: "raw_entry (p_filesysType p) ?B (unat c) = entry_mask (p_filesysType p) v"
    by (simp only: shape)
  have other: "raw_entry (p_filesysType p) ?B d = raw_entry (p_filesysType p) (fat_bytes (pview med p) p) d"
    if "d \<noteq> unat c" for d
  proof (rule raw_entry_cong)
    fix j assume j: "entry_pos (p_filesysType p) d \<le> j" "j < entry_pos (p_filesysType p) d + entry_len (p_filesysType p)"
    have "\<not> (?k \<le> j \<and> j < ?k + ?n)" using j that e by (auto simp: shape)
    then show "?B j = fat_bytes (pview med p) p j" by (rule if_not_P)
  qed
  from fat_table_step [OF p1(2) wf rd nf at other] p1 show ?thesis by blast
qed

lemma writeFatEntry_pow:
  assumes ok: "part_ok med p" and ty: "p_filesysType p \<in> {FS_FAT16, FS_FAT32}" and v: "FAT_fat_isValidCluster p c"
  shows "\<exists>p' B. FAT_fat_writeFatEntry p c v = Some (True, p') \<and> table_step med p p' B \<and>
    fat_table med p' = (fat_table med p)(c := link_of (p_filesysType p) (entry_mask (p_filesysType p) v))"
proof -
  note wf = part_okD(2) [OF ok]
  have rd: "readable p c" using v valid_readable [OF wf] by (simp add: FAT_fat_isValidCluster_def)
  have small: "2 ^ e * unat c < 2 ^ 32" if "e \<in> {1, 2}" for e
    using rd that by (auto simp: readable_def)
  note pos = fat_pow_pos [OF small fat_pow_fit(1) [OF ok] fat_wfD(3) [OF wf]]
  from ty consider (fat16) "p_filesysType p = FS_FAT16" | (fat32) "p_filesysType p = FS_FAT32" by blast
  then show ?thesis
  proof cases
    case fat16
    have "\<exists>p' B. writeValue p v (fat_sector p (2 ^ 1 * unat c)) (fat_offset p (2 ^ 1 * unat c)) 2 = Some (True, p') \<and>
        table_step med p p' B \<and>
        fat_table med p' = (fat_table med p)(c := link_of (p_filesysType p) (entry_mask (p_filesysType p) v))"
      by (rule write_pow_entry [OF ok v])
        (simp_all add: fat16 entry_pos_def entry_len_def raw_entry_def entry_mask_def le_values Let_def del: upt_Suc)
    then show ?thesis
      using pos [of 1] v
      by (auto simp: FAT_fat_writeFatEntry_def fat16_pos_def fat16 FAT_fat_isValidCluster_def not_less)
  next
    case fat32
    have "\<exists>p' B. writeValue p v (fat_sector p (2 ^ 2 * unat c)) (fat_offset p (2 ^ 2 * unat c)) 4 = Some (True, p') \<and>
        table_step med p p' B \<and>
        fat_table med p' = (fat_table med p)(c := link_of (p_filesysType p) (entry_mask (p_filesysType p) v))"
      by (rule write_pow_entry [OF ok v])
        (simp_all add: fat32 entry_pos_def entry_len_def raw_entry_def entry_mask_def le_values Let_def del: upt_Suc)
    then show ?thesis
      using pos [of 2] v
      by (auto simp: FAT_fat_writeFatEntry_def fat32_pos_def fat32 FAT_fat_isValidCluster_def not_less)
  qed
qed

text \<open>FAT12: the entries of two neighbours share a byte.\<close>

definition nibble_lo :: "u32 \<Rightarrow> u8 \<Rightarrow> u8" where
  "nibble_lo v a = ucast ((push_bit 4 v OR (ucast a AND 0x0F)) AND 0xFF)"

definition nibble_hi :: "u32 \<Rightarrow> u8 \<Rightarrow> u8" where
  "nibble_hi v a = ucast ((drop_bit 8 v AND 0x0F) OR (ucast a AND 0xF0))"

lemma nibble_hi_byte: "ucast (drop_bit 8 (push_bit 4 v OR (ucast a AND 0x0F)) AND 0xFF) = (ucast (drop_bit 4 v) :: u8)"
  for v :: u32 and a :: u8
  unfolding word_masks by (rule bit_word_eqI) (auto simp: bit_simps)

lemma nibble_odd:
  "drop_bit 4 ((ucast (nibble_lo v a) :: u32) OR push_bit 8 (ucast (ucast (drop_bit 4 v) :: u8))) = take_bit 12 v"
proof (rule bit_word_eqI)
  fix n assume "n < LENGTH(32)"
  show "bit (drop_bit 4 ((ucast (nibble_lo v a) :: u32) OR push_bit 8 (ucast (ucast (drop_bit 4 v) :: u8)))) n
      = bit (take_bit 12 v) n"
    unfolding word_masks nibble_lo_def by (cases "n < 4") (auto simp: bit_simps)
qed

lemma nibble_odd_other:
  "((b :: u32) OR push_bit 8 (ucast (nibble_lo v a))) AND 0x0FFF = (b OR push_bit 8 (ucast a)) AND 0x0FFF"
  unfolding word_masks nibble_lo_def by (rule bit_word_eqI) (auto simp: bit_simps)

lemma nibble_even:
  "((ucast (ucast v :: u8) :: u32) OR push_bit 8 (ucast (nibble_hi v a))) AND 0x0FFF = take_bit 12 v"
  unfolding word_masks nibble_hi_def by (rule bit_word_eqI) (auto simp: bit_simps)

lemma nibble_even_other:
  "drop_bit 4 ((ucast (nibble_hi v a) :: u32) OR b) = drop_bit 4 (ucast a OR b)"
  unfolding word_masks nibble_hi_def
  by (rule bit_word_eqI) (auto simp: bit_simps dest: bit_imp_le_length)

lemma entry_frame_fat12:
  assumes "d \<noteq> c" and "\<And>j. j \<noteq> 3 * c div 2 \<Longrightarrow> j \<noteq> 3 * c div 2 + 1 \<Longrightarrow> B j = A j"
    and lo: "odd c \<Longrightarrow> B (3 * c div 2) = nibble_lo v (A (3 * c div 2))"
    and hi: "even c \<Longrightarrow> B (3 * c div 2 + 1) = nibble_hi v (A (3 * c div 2 + 1))"
  shows "raw_entry FS_FAT12 B d = raw_entry FS_FAT12 A d"
proof -
  consider "d + 1 = c" "odd c" | "d = c + 1" "even c" | "d + 1 = c" "even c" | "d = c + 1" "odd c" | "d + 1 < c" | "c + 1 < d"
    using assms(1) by linarith
  then show ?thesis
  proof cases
    case 1
    then have "even d" "3 * c div 2 = 3 * d div 2 + 1" by presburger+
    then show ?thesis using lo assms(2) [of "3 * d div 2"] 1 nibble_odd_other
      by (simp add: raw_entry_def entry_pos_def Let_def)
  next
    case 2
    then have "odd d" "3 * c div 2 + 1 = 3 * d div 2" by presburger+
    then show ?thesis using hi assms(2) [of "3 * d div 2 + 1"] 2 nibble_even_other
      by (simp add: raw_entry_def entry_pos_def Let_def)
  qed (intro raw_entry_cong assms(2); simp add: entry_pos_def entry_len_def; presburger)+
qed


lemma writeFatEntry_fat12:
  assumes ok: "part_ok med p" and ty: "p_filesysType p = FS_FAT12" and v: "FAT_fat_isValidCluster p c"
  shows "\<exists>p' B. FAT_fat_writeFatEntry p c v = Some (True, p') \<and> table_step med p p' B \<and>
    fat_table med p' = (fat_table med p)(c := link_of (p_filesysType p) (entry_mask (p_filesysType p) v))"
proof -
  let ?k = "3 * unat c div 2" and ?A = "fat_bytes (pview med p) p"
  note wf = part_okD(2) [OF ok]
  have rd: "readable p c" and nf: "c \<noteq> CLUSTER_FREE"
    using v valid_readable [OF wf] by (auto simp: FAT_fat_isValidCluster_def cluster_defs)
  have small: "unat c < 2 ^ 28" and fit: "?k < fat_size p" "?k + 1 < fat_size p"
    using rd by (simp_all add: readable_def ty entry_pos_def entry_len_def fat_size_def)
  note pos = fat12_pos_eq [OF fat_wfD(3) [OF wf] small] fat12_next_pos_eq [OF wf, of ?k]
  note fin = fat_table_step [OF _ wf rd nf, of med _ _ v, unfolded ty]
  have mask: "entry_mask FS_FAT12 v = take_bit 12 v" by (simp add: entry_mask_def)
  show ?thesis
  proof (cases "odd (unat c)")
    case True
    obtain p1 where p1: "readValue p (fat_sector p ?k) (fat_offset p ?k) 1 = Some (Some (ucast (?A ?k)), p1)" "pkept med p p1"
      by (rule readByte_fat [OF ok fit(1)])
    note sp1 = pkeptD(2) [OF p1(2)]
    let ?v = "push_bit 4 v OR (ucast (?A ?k) AND 0x0F)"
    obtain p2 where p2: "writeValue p1 (?v AND 0xFF) (fat_sector p ?k) (fat_offset p ?k) 1 = Some (True, p2)"
      "table_step med p1 p2 (?A(?k := nibble_lo v (?A ?k)))"
      using writeByte_fat [OF pkeptD(1) [OF p1(2)], of ?k "?v AND 0xFF"] fit
      unfolding same_part_pos [OF sp1] fat_bytes_same [OF sp1] pkeptD(3) [OF p1(2)] nibble_lo_def [symmetric] by blast
    note sp2 = table_stepD(2) [OF p2(2)]
    have sp02: "same_part p p2" by (rule same_part_trans [OF sp1 sp2])
    let ?B = "?A(?k := nibble_lo v (?A ?k), ?k + 1 := ucast (drop_bit 4 v))"
    obtain p3 where p3: "writeValue p2 (drop_bit 8 ?v AND 0xFF) (fat_sector p (?k + 1)) (fat_offset p (?k + 1)) 1 = Some (True, p3)"
      "table_step med p2 p3 ?B"
      using writeByte_fat [OF table_stepD(1) [OF p2(2)], of "?k + 1" "drop_bit 8 ?v AND 0xFF"] fit
      unfolding same_part_pos [OF sp02] table_stepD(3) [OF p2(2)] nibble_hi_byte by blast
    have st: "table_step med p p3 ?B"
      by (rule table_step_trans [OF table_step_kept [OF p1(2)] table_step_trans [OF p2(2) p3(2)]])
    have "raw_entry FS_FAT12 ?B (unat c) = take_bit 12 v"
      using True nibble_odd by (simp add: raw_entry_def entry_pos_def Let_def)
    moreover have "raw_entry FS_FAT12 ?B d = raw_entry FS_FAT12 ?A d" if "d \<noteq> unat c" for d
      using that True by (intro entry_frame_fat12 [where c = "unat c"]) simp_all
    ultimately have "fat_table med p3 = (fat_table med p)(c := link_of FS_FAT12 (take_bit 12 v))"
      using fin [OF st] mask by simp
    moreover have "FAT_fat_writeFatEntry p c v = Some (True, p3)"
      using pos p1(1) p2(1) p3(1) v True odd_word [of c] same_part_pos(4) [OF sp02]
      by (simp add: FAT_fat_writeFatEntry_def ty FAT_fat_isValidCluster_def not_less Let_def)
    ultimately show ?thesis using st mask ty by auto
  next
    case False
    obtain p1 where p1: "writeValue p v (fat_sector p ?k) (fat_offset p ?k) 1 = Some (True, p1)"
      "table_step med p p1 (?A(?k := ucast v))"
      by (rule writeByte_fat [OF ok fit(1)])
    note sp1 = table_stepD(2) [OF p1(2)]
    obtain p2 where p2: "readValue p1 (fat_sector p (?k + 1)) (fat_offset p (?k + 1)) 1
        = Some (Some (ucast (?A (?k + 1))), p2)" "pkept med p1 p2"
      using readByte_fat [OF table_stepD(1) [OF p1(2)], of "?k + 1"] fit
      unfolding same_part_pos [OF sp1] table_stepD(3) [OF p1(2)] by auto
    have sp02: "same_part p p2" by (rule same_part_trans [OF sp1 pkeptD(2) [OF p2(2)]])
    note st2 = table_step_kept [OF p2(2), unfolded table_stepD(3) [OF p1(2)]]
    let ?v = "(drop_bit 8 v AND 0x0F) OR (ucast (?A (?k + 1)) AND 0xF0)"
    let ?B = "?A(?k := ucast v, ?k + 1 := nibble_hi v (?A (?k + 1)))"
    obtain p3 where p3: "writeValue p2 ?v (fat_sector p (?k + 1)) (fat_offset p (?k + 1)) 1 = Some (True, p3)"
      "table_step med p2 p3 ?B"
      using writeByte_fat [OF table_stepD(1) [OF st2], of "?k + 1" ?v] fit
      unfolding same_part_pos [OF sp02] table_stepD(3) [OF st2] nibble_hi_def [symmetric] by blast
    have st: "table_step med p p3 ?B"
      by (rule table_step_trans [OF p1(2) table_step_trans [OF st2 p3(2)]])
    have "raw_entry FS_FAT12 ?B (unat c) = take_bit 12 v"
      using False nibble_even by (simp add: raw_entry_def entry_pos_def Let_def)
    moreover have "raw_entry FS_FAT12 ?B d = raw_entry FS_FAT12 ?A d" if "d \<noteq> unat c" for d
      using that False by (intro entry_frame_fat12 [where c = "unat c"]) simp_all
    ultimately have "fat_table med p3 = (fat_table med p)(c := link_of FS_FAT12 (take_bit 12 v))"
      using fin [OF st] mask by simp
    moreover have "FAT_fat_writeFatEntry p c v = Some (True, p3)"
      using pos p1(1) p2(1) p3(1) v False odd_word [of c] same_part_pos(4) [OF sp1]
      by (simp add: FAT_fat_writeFatEntry_def ty FAT_fat_isValidCluster_def not_less Let_def)
    ultimately show ?thesis using st mask ty by auto
  qed
qed

lemma writeFatEntry_spec:
  assumes "part_ok med p" and "FAT_fat_isValidCluster p c"
  shows "\<exists>p' B. FAT_fat_writeFatEntry p c v = Some (True, p') \<and> table_step med p p' B \<and>
    fat_table med p' = (fat_table med p)(c := link_of (p_filesysType p) (entry_mask (p_filesysType p) v))"
  using writeFatEntry_fat12 [OF assms(1) _ assms(2), of v] writeFatEntry_pow [OF assms(1) _ assms(2), of v]
    fat_wfD(1) [OF part_okD(2) [OF assms(1)]]
  by (cases "p_filesysType p") simp_all

end
