(* ===== verification/FatChains.thy ===== *)
theory FatChains
  imports FatSpec
begin

text \<open>
  Cluster chains. The locale \<open>cluster_table\<close> states what the code above single entries relies on:
  a table of links that is read and written one entry at a time. The file allocation table is an
  instance of it, and on that contract rest the specifications of the operations that follow,
  allocate, cut and release chains.
\<close>

section \<open>Chains\<close>

fun chain :: "(u32 \<Rightarrow> u32) \<Rightarrow> (u32 \<Rightarrow> bool) \<Rightarrow> u32 list \<Rightarrow> bool" where
  "chain t V [] = False"
| "chain t V [c] = (V c \<and> (t c = CLUSTER_EOF \<or> t c = CLUSTER_FREE))"
| "chain t V (c # d # cs) = (V c \<and> t c = d \<and> chain t V (d # cs))"

lemma chain_hd: "chain t V (c # cs) \<Longrightarrow> V c"
  by (cases cs) simp_all

lemma chain_valid: "chain t V cs \<Longrightarrow> c \<in> set cs \<Longrightarrow> V c"
  by (induction t V cs rule: chain.induct) auto

lemma chain_drop: "chain t V (xs @ c # cs) \<Longrightarrow> chain t V (c # cs)"
  by (induction xs) (simp, metis append_Cons append_is_Nil_conv chain.simps(3) list.distinct(1) list.exhaust)

lemma chain_link: "chain t V (xs @ c # d # cs) \<Longrightarrow> t c = d"
  using chain_drop [of t V xs c "d # cs"] by simp

lemma chain_last: "chain t V cs \<Longrightarrow> t (last cs) = CLUSTER_EOF \<or> t (last cs) = CLUSTER_FREE"
  by (induction t V cs rule: chain.induct) auto

text \<open>A chain is determined by its first cluster, so none of its clusters comes twice.\<close>

lemma chain_unique:
  assumes "chain t V (c # as)" and "chain t V (c # bs)" and "\<not> V CLUSTER_EOF" and "\<not> V CLUSTER_FREE"
  shows "as = bs"
  using assms
proof (induction as arbitrary: bs c)
  case Nil
  then show ?case by (cases bs) (auto dest: chain_hd)
next
  case (Cons a as)
  then show ?case by (cases bs) (auto dest: chain_hd)
qed

lemma chain_distinct:
  assumes "chain t V cs" and nv: "\<not> V CLUSTER_EOF" "\<not> V CLUSTER_FREE"
  shows "distinct cs"
  using assms(1)
proof (induction cs)
  case (Cons c cs)
  show ?case
  proof (cases cs)
    case (Cons d ds)
    have "c \<notin> set cs"
    proof
      assume "c \<in> set cs"
      then obtain xs ys where xs: "cs = xs @ c # ys" by (meson split_list)
      then have "chain t V (c # ys)" using Cons.prems chain_drop [of t V "c # xs" c ys] by simp
      from chain_unique [OF Cons.prems this nv] xs show False by simp
    qed
    with Cons.IH Cons.prems Cons show ?thesis by simp
  qed simp
qed simp

lemma chain_cong:
  assumes "chain t V cs" and "\<And>c. c \<in> set cs \<Longrightarrow> t' c = t c"
  shows "chain t' V cs"
  using assms by (induction t V cs rule: chain.induct) auto

text \<open>Growing and cutting a chain.\<close>

lemma chain_append:
  assumes "chain t V (cs @ [c])" and "V n" and "n \<notin> set (cs @ [c])" and "distinct (cs @ [c])"
  shows "chain (t(c := n, n := CLUSTER_EOF)) V (cs @ [c, n])"
  using assms
proof (induction cs)
  case (Cons x cs)
  then show ?case by (cases cs) auto
qed auto

lemma chain_cut:
  assumes "chain t V (cs @ c # ds)" and "distinct (cs @ c # ds)"
  shows "chain (t(c := CLUSTER_EOF)) V (cs @ [c])"
  using assms
proof (induction cs)
  case Nil
  then show ?case using chain_hd [of t V c ds] by simp
next
  case (Cons x cs)
  then show ?case by (cases cs) auto
qed

section \<open>The contract of the table\<close>

locale cluster_table =
  fixes inv :: "'s \<Rightarrow> bool"
    and tbl :: "'s \<Rightarrow> u32 \<Rightarrow> u32"
    and valid :: "'s \<Rightarrow> u32 \<Rightarrow> bool"
    and frame :: "'s \<Rightarrow> 's \<Rightarrow> bool"
    and next_link :: "'s \<Rightarrow> u32 \<Rightarrow> (u32 \<times> 's) option"
    and set_link :: "'s \<Rightarrow> u32 \<Rightarrow> u32 \<Rightarrow> (bool \<times> 's) option"
  assumes valid_law: "inv s \<Longrightarrow> valid s c \<Longrightarrow> c \<noteq> CLUSTER_FREE \<and> c \<noteq> CLUSTER_EOF \<and> c \<noteq> CLUSTER_ERROR"
    and next_law: "inv s \<Longrightarrow> c = CLUSTER_FREE \<or> valid s c \<Longrightarrow>
      \<exists>s'. next_link s c = Some (tbl s c, s') \<and> inv s' \<and> tbl s' = tbl s \<and> frame s s'"
    and set_law: "inv s \<Longrightarrow> valid s c \<Longrightarrow> v = CLUSTER_EOF \<or> v = CLUSTER_FREE \<or> valid s v \<Longrightarrow>
      \<exists>s'. set_link s c v = Some (True, s') \<and> inv s' \<and> tbl s' = (tbl s)(c := v) \<and> frame s s'"
    and frame_valid: "frame s s' \<Longrightarrow> valid s' = valid s"
    and frame_trans: "frame s s' \<Longrightarrow> frame s' s'' \<Longrightarrow> frame s s''"
begin

lemma next_cases:
  assumes "inv s" and "c = CLUSTER_FREE \<or> valid s c"
  obtains s' where "next_link s c = Some (tbl s c, s')" and "inv s'" and "tbl s' = tbl s" and "frame s s'"
  using next_law [OF assms] by blast

lemma set_cases:
  assumes "inv s" and "valid s c" and "v = CLUSTER_EOF \<or> v = CLUSTER_FREE \<or> valid s v"
  obtains s' where "set_link s c v = Some (True, s')" and "inv s'" and "tbl s' = (tbl s)(c := v)" and "frame s s'"
  using set_law [OF assms] by blast

lemma chain_facts:
  assumes "inv s" and "chain (tbl s) (valid s) cs"
  shows "distinct cs" and "c \<in> set cs \<Longrightarrow> c \<noteq> CLUSTER_FREE \<and> c \<noteq> CLUSTER_EOF \<and> c \<noteq> CLUSTER_ERROR"
  using assms valid_law chain_valid chain_distinct by metis+

lemma next_in_chain:
  assumes "inv s" and "chain (tbl s) (valid s) (xs @ c # d # cs)"
  obtains s' where "next_link s c = Some (d, s')" and "inv s'" and "tbl s' = tbl s" and "frame s s'"
  using assms chain_link [OF assms(2)] chain_valid [OF assms(2), of c] next_cases [of s c] by auto

text \<open>Linking a valid cluster behind the last one of a chain and ending the chain there.\<close>

lemma link_behind:
  assumes s: "inv s" and c: "valid s c" and n: "valid s n"
  obtains s1 s2 where "set_link s c n = Some (True, s1)" and "set_link s1 n CLUSTER_EOF = Some (True, s2)"
    and "inv s2" and "tbl s2 = (tbl s)(c := n, n := CLUSTER_EOF)" and "frame s s2"
proof -
  obtain s1 where s1: "set_link s c n = Some (True, s1)" "inv s1" "tbl s1 = (tbl s)(c := n)" "frame s s1"
    using set_cases [OF s c] n by metis
  moreover obtain s2 where "set_link s1 n CLUSTER_EOF = Some (True, s2)" "inv s2"
    "tbl s2 = (tbl s1)(n := CLUSTER_EOF)" "frame s1 s2"
    using set_cases [of s1 n] s1 n frame_valid [OF s1(4)] by metis
  ultimately show thesis using that frame_trans by auto
qed

end

section \<open>The file allocation table provides it\<close>

text \<open>Steps that change nothing but the cache, the contents of the table and, for \<open>same_fs\<close>, the
  counters of the allocator.\<close>

definition fat_step :: "('d \<Rightarrow> sec_t \<Rightarrow> u8 list) \<Rightarrow> 'd partition \<Rightarrow> 'd partition \<Rightarrow> bool" where
  "fat_step med p p' \<longleftrightarrow> same_part p p' \<and>
     (\<forall>s. \<not> in_range (fat_fatStart (p_fat p)) (fat_sectorsPerFat (p_fat p)) s \<longrightarrow>
        pview med p' s = pview med p s)"

lemma fat_step_trans: "fat_step med p q \<Longrightarrow> fat_step med q r \<Longrightarrow> fat_step med p r"
  unfolding fat_step_def using same_part_trans [of p q r] same_partD(12) [of p q] by auto

lemma fat_step_kept: "pkept med p p' \<Longrightarrow> fat_step med p p'"
  by (simp add: pkept_def fat_step_def)

lemma isValid_same: "same_part p p' \<Longrightarrow> FAT_fat_isValidCluster p' = FAT_fat_isValidCluster p"
  by (auto simp: fun_eq_iff FAT_fat_isValidCluster_def same_partD(12))

lemma eof_limit_le: "eof_limit ty \<le> 0x0FFFFFF7"
  by (cases ty) (simp_all add: eof_limit_def)

lemma valid_link:
  assumes wf: "fat_wf p" and v: "FAT_fat_isValidCluster p c"
  shows "c < eof_limit (p_filesysType p)" and "c \<noteq> CLUSTER_FREE \<and> c \<noteq> CLUSTER_EOF \<and> c \<noteq> CLUSTER_ERROR"
proof -
  show lt: "c < eof_limit (p_filesysType p)"
    using v fat_wfD(8) [OF wf] by (auto simp: FAT_fat_isValidCluster_def)
  have "c < 0x0FFFFFF7" using lt eof_limit_le by (rule less_le_trans)
  then show "c \<noteq> CLUSTER_FREE \<and> c \<noteq> CLUSTER_EOF \<and> c \<noteq> CLUSTER_ERROR"
    using v by (auto simp: FAT_fat_isValidCluster_def cluster_defs)
qed

text \<open>Links to valid clusters, the end mark and the free mark are read back as they were written.\<close>

lemma link_roundtrip:
  assumes "ty \<noteq> FS_UNKNOWN" and "v = CLUSTER_EOF \<or> v = CLUSTER_FREE \<or> v < eof_limit ty"
  shows "link_of ty (entry_mask ty v) = v"
proof -
  have "take_bit 12 v = v" if "v < 0x0FF7" for v :: u32
    using that unat_lt_2p32 [of v] by (intro word_eqI_unat) (simp add: word_less_nat_alt unsigned_take_bit_eq take_bit_nat_eq_self_iff)
  moreover have "take_bit 16 v = v" if "v < 0xFFF7" for v :: u32
    using that by (intro word_eqI_unat) (simp add: word_less_nat_alt unsigned_take_bit_eq take_bit_nat_eq_self_iff)
  ultimately show ?thesis
    using assms by (cases ty) (auto simp: link_of_def entry_mask_def eof_limit_def cluster_defs not_le)
qed

interpretation ft: cluster_table "part_ok med" "fat_table med" FAT_fat_isValidCluster "fat_step med"
    FAT_fat_nextCluster FAT_fat_writeFatEntry
  for med :: "'d \<Rightarrow> sec_t \<Rightarrow> u8 list"
proof (unfold_locales, goal_cases)
  case (1 s c)
  then show ?case using valid_link(2) [OF part_okD(2)] by blast
next
  case (2 s c)
  then have "c = CLUSTER_FREE \<or> readable s c"
    using valid_readable [OF part_okD(2)] by (auto simp: FAT_fat_isValidCluster_def)
  from nextCluster_spec [OF 2(1) this] show ?case
    using pkeptD(1) pkept_table fat_step_kept by metis
next
  case (3 s c v)
  have v: "link_of (p_filesysType s) (entry_mask (p_filesysType s) v) = v"
    using 3(3) valid_link(1) [OF part_okD(2) [OF 3(1)]] fat_wfD(1) [OF part_okD(2) [OF 3(1)]]
    by (intro link_roundtrip) auto
  from writeFatEntry_spec [OF 3(1,2), of v] show ?case
    unfolding v by (auto simp: table_step_def fat_step_def)
next
  case (4 s s')
  then show ?case by (simp add: fat_step_def isValid_same)
next
  case (5 s s' s'')
  then show ?case by (rule fat_step_trans)
qed


section \<open>The bookkeeping of the allocator\<close>

definition same_region :: "fat \<Rightarrow> fat \<Rightarrow> bool" where
  "same_region f g \<longleftrightarrow> fat_fatStart g = fat_fatStart f \<and> fat_sectorsPerFat g = fat_sectorsPerFat f \<and>
     fat_lastCluster g = fat_lastCluster f"

lemma same_region_refl [simp]: "same_region f f"
  by (simp add: same_region_def)

lemma same_region_counters [simp]:
  "same_region f (f\<lparr>fat_firstFree := n\<rparr>)" "same_region f (note_alloc n f)" "same_region f (note_free n f)"
  by (simp_all add: same_region_def note_alloc_def note_free_def)

text \<open>What the operations of the table leave alone: all of the partition but the cache and the
  counters, and all of the disc but the table.\<close>

definition fs_step :: "('d \<Rightarrow> sec_t \<Rightarrow> u8 list) \<Rightarrow> 'd partition \<Rightarrow> 'd partition \<Rightarrow> bool" where
  "fs_step med p p' \<longleftrightarrow> (\<exists>c f. p' = p\<lparr>p_cache := c, p_fat := f\<rparr> \<and> same_region (p_fat p) f \<and>
       c_endOfPartition c = c_endOfPartition (p_cache p) \<and> c_bytesPerSector c = c_bytesPerSector (p_cache p)) \<and>
     (\<forall>s. \<not> in_range (fat_fatStart (p_fat p)) (fat_sectorsPerFat (p_fat p)) s \<longrightarrow>
        pview med p' s = pview med p s)"

lemma fs_step_refl: "fs_step med p p"
proof -
  have "p = p\<lparr>p_cache := p_cache p, p_fat := p_fat p\<rparr>" by simp
  then show ?thesis unfolding fs_step_def by (metis same_region_refl)
qed

lemma fs_step_fat: "fat_step med p p' \<Longrightarrow> fs_step med p p'"
proof -
  assume st: "fat_step med p p'"
  then obtain c where c: "p' = p\<lparr>p_cache := c\<rparr>" "c_endOfPartition c = c_endOfPartition (p_cache p)"
    "c_bytesPerSector c = c_bytesPerSector (p_cache p)"
    by (auto simp: fat_step_def same_part_def)
  then have "p' = p\<lparr>p_cache := c, p_fat := p_fat p\<rparr>" by simp
  with st c(2,3) show ?thesis unfolding fs_step_def fat_step_def by (metis same_region_refl)
qed

lemma fs_step_trans:
  assumes pq: "fs_step med p q" and qr: "fs_step med q r"
  shows "fs_step med p r"
proof -
  obtain c f where q: "q = p\<lparr>p_cache := c, p_fat := f\<rparr>" "same_region (p_fat p) f"
    "c_endOfPartition c = c_endOfPartition (p_cache p)" "c_bytesPerSector c = c_bytesPerSector (p_cache p)"
    using pq unfolding fs_step_def by blast
  obtain d g where r: "r = q\<lparr>p_cache := d, p_fat := g\<rparr>" "same_region (p_fat q) g"
    "c_endOfPartition d = c_endOfPartition (p_cache q)" "c_bytesPerSector d = c_bytesPerSector (p_cache q)"
    using qr unfolding fs_step_def by blast
  have "r = p\<lparr>p_cache := d, p_fat := g\<rparr>" using q(1) r(1) by simp
  moreover have "same_region (p_fat p) g" "c_endOfPartition d = c_endOfPartition (p_cache p)"
    "c_bytesPerSector d = c_bytesPerSector (p_cache p)"
    using q r by (simp_all add: same_region_def)
  moreover have "pview med r s = pview med p s"
    if "\<not> in_range (fat_fatStart (p_fat p)) (fat_sectorsPerFat (p_fat p)) s" for s
    using pq qr that q(1,2) by (simp add: fs_step_def same_region_def)
  ultimately show ?thesis unfolding fs_step_def by blast
qed

lemma fs_step_set:
  assumes "same_region (p_fat p) (f (p_fat p))"
  shows "fs_step med p (set_fat f p)"
  unfolding fs_step_def
  by (intro conjI exI [of _ "p_cache p"] exI [of _ "f (p_fat p)"]) (simp_all add: set_fat_def pview_def assms)

lemma set_fat_ok:
  assumes "same_region (p_fat p) (f (p_fat p))"
  shows "part_ok med (set_fat f p) = part_ok med p" and "fat_table med (set_fat f p) = fat_table med p"
    and "FAT_fat_isValidCluster (set_fat f p) = FAT_fat_isValidCluster p" and "pview med (set_fat f p) = pview med p"
    and "p_fat (set_fat f p) = f (p_fat p)"
proof -
  have bytes: "fat_bytes v (set_fat f p) = fat_bytes v p" for v
    using assms by (simp add: fun_eq_iff fat_bytes_def set_fat_def same_region_def)
  have rd: "readable (set_fat f p) = readable p"
    using assms by (simp add: fun_eq_iff readable_def set_fat_def same_region_def)
  show view: "pview med (set_fat f p) = pview med p" by (simp add: pview_def set_fat_def)
  show "fat_table med (set_fat f p) = fat_table med p"
    by (simp add: fun_eq_iff fat_table_def bytes rd view) (simp add: set_fat_def)
  show "part_ok med (set_fat f p) = part_ok med p"
    using assms by (simp add: part_ok_def fat_wf_def rd) (simp add: set_fat_def same_region_def)
  show "FAT_fat_isValidCluster (set_fat f p) = FAT_fat_isValidCluster p" "p_fat (set_fat f p) = f (p_fat p)"
    using assms by (simp_all add: fun_eq_iff FAT_fat_isValidCluster_def set_fat_def same_region_def)
qed

lemma fs_stepD:
  assumes "fs_step med p p'"
  shows "p_disc p' = p_disc p" "p_filesysType p' = p_filesysType p" "p_rootDirStart p' = p_rootDirStart p"
    "p_rootDirCluster p' = p_rootDirCluster p" "p_numberOfSectors p' = p_numberOfSectors p"
    "p_dataStart p' = p_dataStart p" "p_bytesPerSector p' = p_bytesPerSector p"
    "p_sectorsPerCluster p' = p_sectorsPerCluster p" "p_bytesPerCluster p' = p_bytesPerCluster p"
    "same_region (p_fat p) (p_fat p')" "p_cwdCluster p' = p_cwdCluster p"
    "p_firstOpenFile p' = p_firstOpenFile p" "p_openFileCount p' = p_openFileCount p"
    "p_readOnly p' = p_readOnly p" "p_label p' = p_label p" "FAT_fat_isValidCluster p' = FAT_fat_isValidCluster p"
    "fat_lastCluster (p_fat p') = fat_lastCluster (p_fat p)"
    "c_endOfPartition (p_cache p') = c_endOfPartition (p_cache p)"
    "\<not> in_range (fat_fatStart (p_fat p)) (fat_sectorsPerFat (p_fat p)) s \<Longrightarrow> pview med p' s = pview med p s"
  using assms by (auto simp: fs_step_def same_region_def fun_eq_iff FAT_fat_isValidCluster_def)

section \<open>Following a chain\<close>

text \<open>Two or three reads per cluster, all of the same entry.\<close>

lemma next_kept:
  assumes "part_ok med p" and "FAT_fat_isValidCluster p c"
  obtains p' where "FAT_fat_nextCluster p c = Some (fat_table med p c, p')" and "pkept med p p'"
  using nextCluster_spec [OF assms(1), of c] valid_readable [OF part_okD(2) [OF assms(1)], of c] assms(2)
  by (auto simp: FAT_fat_isValidCluster_def)

lemma pkept_valid: "pkept med p p' \<Longrightarrow> FAT_fat_isValidCluster p' = FAT_fat_isValidCluster p"
  by (rule isValid_same) (rule pkeptD(2))

lemma lastCluster_unfold:
  assumes ok: "part_ok med p" and c: "FAT_fat_isValidCluster p c"
  obtains p' where "pkept med p p'" and "FAT_fat_lastCluster p c =
    (if fat_table med p c = CLUSTER_FREE \<or> fat_table med p c = CLUSTER_EOF then Some (c, p')
     else FAT_fat_lastCluster p' (fat_table med p c))"
proof -
  obtain p1 where p1: "FAT_fat_nextCluster p c = Some (fat_table med p c, p1)" "pkept med p p1"
    using next_kept [OF ok c] .
  obtain p2 where p2: "FAT_fat_nextCluster p1 c = Some (fat_table med p c, p2)" "pkept med p1 p2"
    using next_kept [OF pkeptD(1) [OF p1(2)]] c unfolding pkept_valid [OF p1(2)] pkept_table [OF p1(2)] by blast
  note k2 = pkept_trans [OF p1(2) p2(2)]
  obtain p3 where p3: "FAT_fat_nextCluster p2 c = Some (fat_table med p c, p3)" "pkept med p2 p3"
    using next_kept [OF pkeptD(1) [OF k2]] c unfolding pkept_valid [OF k2] pkept_table [OF k2] by blast
  note k3 = pkept_trans [OF k2 p3(2)]
  show thesis
  proof (cases "fat_table med p c = CLUSTER_FREE \<or> fat_table med p c = CLUSTER_EOF")
    case True
    then show thesis
    proof
      assume "fat_table med p c = CLUSTER_FREE"
      with p1 show thesis by (intro that [OF p1(2)]) (simp add: FAT_fat_lastCluster.simps [of p])
    next
      assume "fat_table med p c = CLUSTER_EOF"
      with p1 p2 show thesis
        by (intro that [OF k2]) (simp add: FAT_fat_lastCluster.simps [of p] cluster_defs)
    qed
  next
    case False
    with p1 p2 p3 show thesis by (intro that [OF k3]) (simp add: FAT_fat_lastCluster.simps [of p])
  qed
qed

lemma lastCluster_spec:
  assumes "part_ok med p" and "chain (fat_table med p) (FAT_fat_isValidCluster p) (c # cs)"
  shows "\<exists>p'. FAT_fat_lastCluster p c = Some (last (c # cs), p') \<and> pkept med p p'"
  using assms
proof (induction cs arbitrary: c p)
  case Nil
  then have c: "FAT_fat_isValidCluster p c"
    and fin: "fat_table med p c = CLUSTER_FREE \<or> fat_table med p c = CLUSTER_EOF" by auto
  obtain p' where "pkept med p p'" "FAT_fat_lastCluster p c = Some (c, p')"
    using lastCluster_unfold [OF Nil(1) c] unfolding if_P [OF fin] .
  then show ?case by auto
next
  case (Cons d ds)
  have c: "FAT_fat_isValidCluster p c" using Cons.prems(2) by (rule chain_hd)
  have link: "fat_table med p c = d" and rest: "chain (fat_table med p) (FAT_fat_isValidCluster p) (d # ds)"
    using Cons.prems(2) by simp_all
  have "d \<noteq> CLUSTER_FREE \<and> d \<noteq> CLUSTER_EOF"
    using ft.valid_law [OF Cons.prems(1) chain_hd [OF rest]] by blast
  then have nf: "\<not> (d = CLUSTER_FREE \<or> d = CLUSTER_EOF)" by blast
  obtain p1 where p1: "pkept med p p1" "FAT_fat_lastCluster p c = FAT_fat_lastCluster p1 d"
    using lastCluster_unfold [OF Cons.prems(1) c] unfolding link if_not_P [OF nf] .
  have "chain (fat_table med p1) (FAT_fat_isValidCluster p1) (d # ds)"
    using rest unfolding pkept_valid [OF p1(1)] pkept_table [OF p1(1)] .
  from Cons.IH [OF pkeptD(1) [OF p1(1)] this] p1 show ?case
    using pkept_trans by auto
qed

text \<open>On a set of clusters that link only to each other the walk never ends.\<close>

lemma lastCluster_diverges:
  assumes "part_ok med p" and "c \<in> S" and closed: "\<And>d. d \<in> S \<Longrightarrow> FAT_fat_isValidCluster p d \<and> fat_table med p d \<in> S"
  shows "FAT_fat_lastCluster p c = None"
proof (rule ccontr)
  assume "FAT_fat_lastCluster p c \<noteq> None"
  then obtain r where r: "FAT_fat_lastCluster p c = Some r" by blast
  let ?P = "\<lambda>p c. part_ok med p \<and> c \<in> S \<and> (\<forall>d \<in> S. FAT_fat_isValidCluster p d \<and> fat_table med p d \<in> S)"
  have "\<not> ?P p c"
  proof (rule FAT_fat_lastCluster.raw_induct [where P = "\<lambda>p c r. \<not> ?P p c", OF _ r])
    fix f p c r
    assume IH: "\<And>p c r. f p c = Some r \<Longrightarrow> \<not> ?P p c"
      and eq: "(do {
        (n, p) \<leftarrow> FAT_fat_nextCluster p c;
        if n = CLUSTER_FREE then Some (c, p)
        else do {
          (n, p) \<leftarrow> FAT_fat_nextCluster p c;
          if n = CLUSTER_EOF then Some (c, p)
          else do {
            (n, p) \<leftarrow> FAT_fat_nextCluster p c;
            f p n
          }
        }
      }) = Some r"
    show "\<not> ?P p c"
    proof
      assume P: "?P p c"
      then have ok: "part_ok med p" and c: "FAT_fat_isValidCluster p c" and n: "fat_table med p c \<in> S" by blast+
      have nf: "fat_table med p c \<noteq> CLUSTER_FREE \<and> fat_table med p c \<noteq> CLUSTER_EOF"
        using ft.valid_law [OF ok] P n by blast
      obtain p1 where p1: "FAT_fat_nextCluster p c = Some (fat_table med p c, p1)" "pkept med p p1"
        using next_kept [OF ok c] .
      obtain p2 where p2: "FAT_fat_nextCluster p1 c = Some (fat_table med p c, p2)" "pkept med p1 p2"
        using next_kept [OF pkeptD(1) [OF p1(2)]] c unfolding pkept_valid [OF p1(2)] pkept_table [OF p1(2)] by blast
      note k2 = pkept_trans [OF p1(2) p2(2)]
      obtain p3 where p3: "FAT_fat_nextCluster p2 c = Some (fat_table med p c, p3)" "pkept med p2 p3"
        using next_kept [OF pkeptD(1) [OF k2]] c unfolding pkept_valid [OF k2] pkept_table [OF k2] by blast
      note k3 = pkept_trans [OF k2 p3(2)]
      have "f p3 (fat_table med p c) = Some r" using eq p1 p2 p3 nf by simp
      from IH [OF this] P n show False
        using pkeptD(1) [OF k3] unfolding pkept_valid [OF k3] pkept_table [OF k3] by blast
    qed
  qed
  with assms show False by blast
qed

section \<open>Releasing a chain\<close>

lemma clearLinks_unfold:
  assumes ok: "part_ok med p" and c: "FAT_fat_isValidCluster p c"
  obtains p' where "part_ok med p'" and "fs_step med p p'" and "fat_table med p' = (fat_table med p)(c := CLUSTER_FREE)"
    and "p_fat p' = note_free (p_numberOfSectors p div p_sectorsPerCluster p) (p_fat p)"
    and "clearLinks_loop p c = clearLinks_loop p' (fat_table med p c)"
proof -
  obtain p1 where p1: "FAT_fat_nextCluster p c = Some (fat_table med p c, p1)" "pkept med p p1"
    using next_kept [OF ok c] .
  have c1: "FAT_fat_isValidCluster p1 c" using c pkept_valid [OF p1(2)] by simp
  obtain p2 where p2: "FAT_fat_writeFatEntry p1 c CLUSTER_FREE = Some (True, p2)" "part_ok med p2"
    "fat_table med p2 = (fat_table med p)(c := CLUSTER_FREE)" "fat_step med p1 p2"
    using ft.set_cases [OF pkeptD(1) [OF p1(2)] c1, of CLUSTER_FREE] pkept_table [OF p1(2)] by metis
  have st: "fat_step med p p2" using fat_step_trans [OF fat_step_kept [OF p1(2)] p2(4)] .
  then have sp: "same_part p p2" by (simp add: fat_step_def)
  let ?L = "p_numberOfSectors p div p_sectorsPerCluster p"
  define p3 where "p3 = set_fat (note_free ?L) p2"
  have spc: "p_sectorsPerCluster p \<noteq> 0" using fat_wfD(5) [OF part_okD(2) [OF ok]] .
  show thesis
  proof (rule that [of p3])
    show "part_ok med p3" "fat_table med p3 = (fat_table med p)(c := CLUSTER_FREE)" "p_fat p3 = note_free ?L (p_fat p)"
      using p2(2,3) by (simp_all add: p3_def set_fat_ok same_partD(12) [OF sp])
    show "fs_step med p p3"
      using fs_step_trans [OF fs_step_fat [OF st] fs_step_set] by (simp add: p3_def)
    show "clearLinks_loop p c = clearLinks_loop p3 (fat_table med p c)"
      using ft.valid_law [OF ok c] p1 p2(1) spc
      by (subst clearLinks_loop.simps) (simp add: same_partD [OF sp] p3_def)
  qed
qed

lemma clearLinks_loop_spec:
  assumes "part_ok med p" and "chain (fat_table med p) (FAT_fat_isValidCluster p) (c # cs)"
  shows "\<exists>p'. clearLinks_loop p c = Some (True, p') \<and> part_ok med p' \<and> fs_step med p p' \<and>
    fat_table med p' = (\<lambda>d. if d \<in> set (c # cs) then CLUSTER_FREE else fat_table med p d) \<and>
    p_fat p' = (note_free (p_numberOfSectors p div p_sectorsPerCluster p) ^^ length (c # cs)) (p_fat p)"
  using assms
proof (induction cs arbitrary: c p)
  case Nil
  then have c: "FAT_fat_isValidCluster p c" and fin: "fat_table med p c = CLUSTER_EOF \<or> fat_table med p c = CLUSTER_FREE"
    by simp_all
  obtain p' where "part_ok med p'" "fs_step med p p'" "fat_table med p' = (fat_table med p)(c := CLUSTER_FREE)"
    "p_fat p' = note_free (p_numberOfSectors p div p_sectorsPerCluster p) (p_fat p)"
    "clearLinks_loop p c = clearLinks_loop p' (fat_table med p c)"
    using clearLinks_unfold [OF Nil(1) c] .
  with fin show ?case
    by (intro exI [of _ p']) (auto simp: clearLinks_loop.simps [of p'] fun_eq_iff)
next
  case (Cons d ds)
  note ch = Cons.prems(2)
  have c: "FAT_fat_isValidCluster p c" using ch by (rule chain_hd)
  have link: "fat_table med p c = d" and rest: "chain (fat_table med p) (FAT_fat_isValidCluster p) (d # ds)"
    using ch by simp_all
  have notin: "c \<notin> set (d # ds)" using ft.chain_facts(1) [OF Cons.prems(1) ch] by simp
  obtain p1 where p1: "part_ok med p1" "fs_step med p p1" "fat_table med p1 = (fat_table med p)(c := CLUSTER_FREE)"
    "p_fat p1 = note_free (p_numberOfSectors p div p_sectorsPerCluster p) (p_fat p)"
    "clearLinks_loop p c = clearLinks_loop p1 d"
    using clearLinks_unfold [OF Cons.prems(1) c] link by metis
  have "chain (fat_table med p1) (FAT_fat_isValidCluster p1) (d # ds)"
    unfolding fs_stepD(16) [OF p1(2)] by (rule chain_cong [OF rest]) (use p1(3) notin in auto)
  from Cons.IH [OF p1(1) this] obtain p' where
    p': "clearLinks_loop p1 d = Some (True, p')" "part_ok med p'" "fs_step med p1 p'"
      "fat_table med p' = (\<lambda>e. if e \<in> set (d # ds) then CLUSTER_FREE else fat_table med p1 e)"
      "p_fat p' = (note_free (p_numberOfSectors p1 div p_sectorsPerCluster p1) ^^ length (d # ds)) (p_fat p1)"
    by blast
  show ?case
  proof (intro exI conjI)
    show "clearLinks_loop p c = Some (True, p')" using p1(5) p'(1) by simp
    show "part_ok med p'" by (rule p'(2))
    show "fs_step med p p'" by (rule fs_step_trans [OF p1(2) p'(3)])
    show "fat_table med p' = (\<lambda>e. if e \<in> set (c # d # ds) then CLUSTER_FREE else fat_table med p e)"
      using p'(4) p1(3) by (auto simp: fun_eq_iff)
    show "p_fat p' = (note_free (p_numberOfSectors p div p_sectorsPerCluster p) ^^ length (c # d # ds)) (p_fat p)"
      using p'(5) p1(4) by (simp add: fs_stepD(5,8) [OF p1(2)] funpow_swap1)
  qed
qed

end
