(* ===== verification/FatAlloc.thy ===== *)
theory FatAlloc
  imports FatChains
begin

text \<open>
  What the operations on chains do to the table: \<open>clearLinks\<close> releases exactly the clusters of a
  chain, \<open>trimChain\<close> keeps a prefix of it, \<open>linkFreeCluster\<close> takes the first free cluster in
  circular order, \<open>linkFreeClusterCleared\<close> also zeroes its sectors, and \<open>freeClusterCount\<close> counts.
\<close>

section \<open>Releasing\<close>

lemma clearLinks_spec:
  assumes ok: "part_ok med p" and ch: "chain (fat_table med p) (FAT_fat_isValidCluster p) (c # cs)"
  shows "\<exists>p'. FAT_fat_clearLinks p c = Some (True, p') \<and> part_ok med p' \<and> fs_step med p p' \<and>
    fat_table med p' = (\<lambda>d. if d \<in> set (c # cs) then CLUSTER_FREE else fat_table med p d) \<and>
    p_fat p' = (note_free (p_numberOfSectors p div p_sectorsPerCluster p) ^^ length (c # cs))
      ((p_fat p)\<lparr>fat_firstFree := min c (fat_firstFree (p_fat p))\<rparr>)"
proof -
  let ?f = "\<lambda>f. f\<lparr>fat_firstFree := min c (fat_firstFree f)\<rparr>"
  let ?q = "set_fat ?f p"
  have sr: "same_region (p_fat p) (?f (p_fat p))" by simp
  note q = set_fat_ok [where f = ?f, OF sr]
  have st: "fs_step med p ?q" by (rule fs_step_set) simp
  have "chain (fat_table med ?q) (FAT_fat_isValidCluster ?q) (c # cs)" unfolding q(2,3) by (rule ch)
  from clearLinks_loop_spec [OF iffD2 [OF q(1) ok] this] obtain p' where
    p': "clearLinks_loop ?q c = Some (True, p')" "part_ok med p'" "fs_step med ?q p'"
      "fat_table med p' = (\<lambda>d. if d \<in> set (c # cs) then CLUSTER_FREE else fat_table med p d)"
      "p_fat p' = (note_free (p_numberOfSectors p div p_sectorsPerCluster p) ^^ length (c # cs)) (?f (p_fat p))"
    unfolding fs_stepD(5,8) [OF st] q(2,5) by blast
  have "(if c < fat_firstFree (p_fat p) then set_fat (\<lambda>f. f\<lparr>fat_firstFree := c\<rparr>) p else p) = ?q"
    by (auto simp: set_fat_def min_def)
  then have "FAT_fat_clearLinks p c = clearLinks_loop ?q c"
    using chain_hd [OF ch]
    by (auto simp: FAT_fat_clearLinks_def FAT_fat_isValidCluster_def simp flip: not_less)
  with p' fs_step_trans [OF st p'(3)] show ?thesis by auto
qed

lemma clearLinks_invalid:
  "\<not> FAT_fat_isValidCluster p c \<Longrightarrow> FAT_fat_clearLinks p c = Some (False, p)"
  by (auto simp: FAT_fat_clearLinks_def FAT_fat_isValidCluster_def)

text \<open>The count of free clusters grows by the number of clusters released, up to its limit.\<close>

lemma note_free_count:
  assumes "unat (fat_numberFreeCluster f) \<le> unat L"
  shows "unat (fat_numberFreeCluster ((note_free L ^^ n) f)) = min (unat L) (unat (fat_numberFreeCluster f) + n)"
  using assms
proof (induction n)
  case (Suc n)
  let ?g = "(note_free L ^^ n) f"
  show ?case
  proof (cases "fat_numberFreeCluster ?g < L")
    case True
    then have lt: "unat (fat_numberFreeCluster ?g) < unat L" by (simp add: word_less_nat_alt)
    then have "unat (fat_numberFreeCluster ?g + 1) = unat (fat_numberFreeCluster ?g) + 1"
      using unat_lt_2p32 [of L] by (intro unat_add_small [where b = 1, simplified unat_1]) simp
    with True lt Suc show ?thesis by (simp add: note_free_def [of L ?g])
  next
    case False
    then have "unat L \<le> unat (fat_numberFreeCluster ?g)" by (simp add: word_less_nat_alt not_less)
    with False Suc show ?thesis by (simp add: note_free_def [of L ?g])
  qed
qed simp

lemma note_free_firstFree [simp]: "fat_firstFree ((note_free L ^^ n) f) = fat_firstFree f"
  by (induction n) (simp_all add: note_free_def)

section \<open>Cutting\<close>

lemma trimChain_walk_spec:
  assumes "part_ok med p" and "chain (fat_table med p) (FAT_fat_isValidCluster p) (c # cs)"
  shows "\<exists>p'. trimChain_walk p c (fat_table med p c) k
      = Some ((last (take (Suc k) (c # cs)), fat_table med p (last (take (Suc k) (c # cs)))), p') \<and> pkept med p p'"
  using assms
proof (induction k arbitrary: p c cs)
  case 0
  then show ?case using pkept_refl by simp
next
  case (Suc k)
  show ?case
  proof (cases cs)
    case Nil
    with Suc.prems have "fat_table med p c = CLUSTER_FREE \<or> fat_table med p c = CLUSTER_EOF" by auto
    with Nil show ?thesis using pkept_refl [OF Suc.prems(1)] by auto
  next
    case (Cons d ds)
    have link: "fat_table med p c = d" and rest: "chain (fat_table med p) (FAT_fat_isValidCluster p) (d # ds)"
      using Suc.prems(2) Cons by simp_all
    have d: "d \<noteq> CLUSTER_FREE" "d \<noteq> CLUSTER_EOF"
      using ft.valid_law [OF Suc.prems(1) chain_hd [OF rest]] by blast+
    obtain p1 where p1: "FAT_fat_nextCluster p d = Some (fat_table med p d, p1)" "pkept med p p1"
      using next_kept [OF Suc.prems(1) chain_hd [OF rest]] .
    have "chain (fat_table med p1) (FAT_fat_isValidCluster p1) (d # ds)"
      using rest unfolding pkept_valid [OF p1(2)] pkept_table [OF p1(2)] .
    from Suc.IH [OF pkeptD(1) [OF p1(2)] this] show ?thesis
      using p1 d link Cons pkept_trans [OF p1(2)] by (auto simp: pkept_table [OF p1(2)])
  qed
qed


lemma trimChain_drop_all:
  assumes "part_ok med p" and "chain (fat_table med p) (FAT_fat_isValidCluster p) (c # cs)"
  shows "\<exists>p'. FAT_fat_trimChain p c 0 = Some (CLUSTER_FREE, p') \<and> part_ok med p' \<and> fs_step med p p' \<and>
    fat_table med p' = (\<lambda>d. if d \<in> set (c # cs) then CLUSTER_FREE else fat_table med p d)"
  using clearLinks_spec [OF assms] by (auto simp: FAT_fat_trimChain_def)

definition released :: "u32 \<Rightarrow> u32 list \<Rightarrow> fat \<Rightarrow> fat" where
  "released limit cs f = (if cs = [] then f
     else (note_free limit ^^ length cs) (f\<lparr>fat_firstFree := min (hd cs) (fat_firstFree f)\<rparr>))"

lemma trimChain_spec:
  assumes ok: "part_ok med p" and ch: "chain (fat_table med p) (FAT_fat_isValidCluster p) cs"
    and n: "0 < unat n"
  defines "front \<equiv> take (unat n) cs" and "rear \<equiv> drop (unat n) cs"
  shows "\<exists>p'. FAT_fat_trimChain p (hd cs) n = Some (last front, p') \<and> part_ok med p' \<and> fs_step med p p' \<and>
    fat_table med p' = (\<lambda>d. if d \<in> set rear then CLUSTER_FREE else if d = last front then CLUSTER_EOF
      else fat_table med p d) \<and>
    chain (fat_table med p') (FAT_fat_isValidCluster p') front \<and>
    p_fat p' = released (p_numberOfSectors p div p_sectorsPerCluster p) rear (p_fat p)"
proof -
  obtain c ds where cs: "cs = c # ds" using ch by (cases cs) auto
  have n1: "unat (n - 1) = unat n - 1" "n \<noteq> 0" using n by (auto simp: unat_sub_if' word_le_nat_alt)
  have split: "cs = front @ rear" by (simp add: front_def rear_def)
  have kne: "front \<noteq> []" using n by (simp add: front_def cs)
  then obtain ks l where ks: "front = ks @ [l]" by (metis append_butlast_last_id)
  have dist: "distinct cs" by (rule ft.chain_facts(1) [OF ok ch])
  have l: "FAT_fat_isValidCluster p l" using chain_valid [OF ch, of l] by (simp add: split ks)
  obtain p1 where p1: "FAT_fat_nextCluster p c = Some (fat_table med p c, p1)" "pkept med p p1"
    using next_kept [OF ok] chain_hd [of _ _ c ds] ch cs by metis
  have "chain (fat_table med p1) (FAT_fat_isValidCluster p1) (c # ds)"
    using ch unfolding pkept_valid [OF p1(2)] pkept_table [OF p1(2)] cs .
  from trimChain_walk_spec [OF pkeptD(1) [OF p1(2)] this, of "unat n - 1"] obtain p2 where
    "trimChain_walk p1 c (fat_table med p c) (unat n - 1) = Some ((l, fat_table med p l), p2)" "pkept med p1 p2"
    using n ks unfolding pkept_table [OF p1(2)] by (auto simp: front_def cs)
  note p2 = this(1) pkept_trans [OF p1(2) this(2)]
  obtain p3 where p3: "(if fat_table med p l \<noteq> CLUSTER_FREE \<and> fat_table med p l \<noteq> CLUSTER_EOF
      then FAT_fat_clearLinks p2 (fat_table med p l) else Some (True, p2)) = Some (True, p3)"
    "part_ok med p3" "fs_step med p p3"
    "fat_table med p3 = (\<lambda>d. if d \<in> set rear then CLUSTER_FREE else fat_table med p d)"
    "p_fat p3 = released (p_numberOfSectors p div p_sectorsPerCluster p) rear (p_fat p)"
  proof (cases rear)
    case Nil
    with split ks have "last cs = l" by simp
    with chain_last [OF ch] have "fat_table med p l = CLUSTER_EOF \<or> fat_table med p l = CLUSTER_FREE" by simp
    then show thesis
      using that [of p2] Nil pkeptD(1) [OF p2(2)] pkept_table [OF p2(2)] fs_step_fat [OF fat_step_kept [OF p2(2)]]
        same_partD(12) [OF pkeptD(2) [OF p2(2)]]
      by (auto simp: released_def)
  next
    case (Cons d es)
    have link: "fat_table med p l = d" and ch': "chain (fat_table med p) (FAT_fat_isValidCluster p) (d # es)"
      using ch chain_link [of _ _ ks l d es] chain_drop [of _ _ front d es] by (simp_all add: split Cons ks)
    have "chain (fat_table med p2) (FAT_fat_isValidCluster p2) (d # es)"
      using ch' unfolding pkept_valid [OF p2(2)] pkept_table [OF p2(2)] .
    from clearLinks_spec [OF pkeptD(1) [OF p2(2)] this] obtain p3 where
      "FAT_fat_clearLinks p2 d = Some (True, p3)" "part_ok med p3" "fs_step med p2 p3"
      "fat_table med p3 = (\<lambda>d. if d \<in> set rear then CLUSTER_FREE else fat_table med p d)"
      "p_fat p3 = released (p_numberOfSectors p div p_sectorsPerCluster p) rear (p_fat p)"
      unfolding pkept_table [OF p2(2)] Cons released_def
      using same_partD(6,9,12) [OF pkeptD(2) [OF p2(2)]] by auto
    then show thesis
      using that [of p3] ft.valid_law [OF ok chain_hd [OF ch']] fs_step_trans [OF fs_step_fat [OF fat_step_kept [OF p2(2)]]]
      by (auto simp: link)
  qed
  have "FAT_fat_isValidCluster p3 l" using l fs_stepD(16) [OF p3(3)] by simp
  from ft.set_cases [OF p3(2) this, of CLUSTER_EOF] obtain p4 where
    p4: "FAT_fat_writeFatEntry p3 l CLUSTER_EOF = Some (True, p4)" "part_ok med p4"
      "fat_table med p4 = (fat_table med p3)(l := CLUSTER_EOF)" "fat_step med p3 p4"
    by blast
  have st: "fs_step med p p4" by (rule fs_step_trans [OF p3(3) fs_step_fat [OF p4(4)]])
  have lnd: "l \<notin> set rear" using dist unfolding split ks by simp
  have tbl: "fat_table med p4 = (\<lambda>d. if d \<in> set rear then CLUSTER_FREE else if d = last front then CLUSTER_EOF
      else fat_table med p d)"
    using lnd by (auto simp: p4(3) p3(4) ks fun_eq_iff)
  have "chain ((fat_table med p)(l := CLUSTER_EOF)) (FAT_fat_isValidCluster p) front"
    using chain_cut [of _ _ ks l rear] ch dist by (simp add: split ks)
  then have "chain (fat_table med p4) (FAT_fat_isValidCluster p4) front"
    unfolding fs_stepD(16) [OF st]
    by (rule chain_cong) (use dist in \<open>auto simp: split tbl ks\<close>)
  moreover have "FAT_fat_trimChain p (hd cs) n = Some (last front, p4)"
    using p1(1) p2(1) p3(1) p4(1) n1 by (simp add: FAT_fat_trimChain_def cs ks)
  moreover have "p_fat p4 = released (p_numberOfSectors p div p_sectorsPerCluster p) rear (p_fat p)"
    using p4(4) same_partD(12) [of p3 p4] p3(5) by (simp add: fat_step_def)
  ultimately show ?thesis using p4(2) st tbl by blast
qed


section \<open>Allocating\<close>

definition first_free :: "(u32 \<Rightarrow> u32) \<Rightarrow> nat \<Rightarrow> nat \<Rightarrow> u32 option" where
  "first_free t lo hi = find (\<lambda>c. t c = CLUSTER_FREE) (map of_nat [lo..<Suc hi])"

text \<open>The cluster an allocation takes: the first free one from \<open>start\<close> on, else the first free
  one of all.\<close>

definition alloc_choice :: "(u32 \<Rightarrow> u32) \<Rightarrow> u32 \<Rightarrow> u32 \<Rightarrow> u32 option" where
  "alloc_choice t start lastCluster =
    (case first_free t (unat start) (unat lastCluster) of Some c \<Rightarrow> Some c
     | None \<Rightarrow> first_free t 2 (unat lastCluster))"

lemma first_free_step:
  assumes "lo \<le> hi"
  shows "first_free t lo hi = (if t (of_nat lo) = CLUSTER_FREE then Some (of_nat lo) else first_free t (Suc lo) hi)"
proof -
  have "[lo..<Suc hi] = lo # [Suc lo..<Suc hi]" using assms by (intro upt_conv_Cons) simp
  then show ?thesis by (simp add: first_free_def del: upt_Suc)
qed

lemma first_free_empty: "hi < lo \<Longrightarrow> first_free t lo hi = None"
  by (simp add: first_free_def)

lemma first_free_Some:
  assumes "first_free t lo hi = Some c" and "hi < 2 ^ 32"
  shows "lo \<le> unat c" and "unat c \<le> hi" and "t c = CLUSTER_FREE"
proof -
  obtain i where i: "i < length [lo..<Suc hi]" "c = of_nat ([lo..<Suc hi] ! i)" "t c = CLUSTER_FREE"
    using assms(1) unfolding first_free_def find_Some_iff by (auto simp del: upt_Suc)
  then have c: "c = of_nat (lo + i)" and b: "lo + i \<le> hi" by (simp_all del: upt_Suc add: nth_upt)
  have "unat c = lo + i" unfolding c using b assms(2) by (simp add: unsigned_of_nat take_bit_nat_eq_self_iff del: of_nat_add)
  with b i show "lo \<le> unat c" "unat c \<le> hi" "t c = CLUSTER_FREE" by simp_all
qed

lemma first_free_None:
  assumes "first_free t lo hi = None" and "lo \<le> unat c" and "unat c \<le> hi"
  shows "t c \<noteq> CLUSTER_FREE"
proof -
  have "c = of_nat (unat c)" by simp
  moreover have "unat c \<in> set [lo..<Suc hi]" using assms(2,3) by (simp del: upt_Suc)
  ultimately have "c \<in> set (map of_nat [lo..<Suc hi])" by (metis image_eqI set_map)
  with assms(1) show ?thesis unfolding first_free_def find_None_iff by blast
qed

lemma valid_unat:
  "FAT_fat_isValidCluster p c \<longleftrightarrow> 2 \<le> unat c \<and> unat c \<le> unat (fat_lastCluster (p_fat p))"
  by (simp add: FAT_fat_isValidCluster_def CLUSTER_FIRST_def word_le_nat_alt)

lemma last_small: "part_ok med p \<Longrightarrow> unat (fat_lastCluster (p_fat p)) < 2 ^ 28"
  using fat_wfD(9) [OF part_okD(2), of med p] by (simp add: readable_def)

lemma findFree_from:
  assumes "part_ok med p" and "2 \<le> unat start" and "unat start \<le> unat (fat_lastCluster (p_fat p))"
  defines "lastc \<equiv> fat_lastCluster (p_fat p)"
  shows "\<exists>p'. pkept med p p' \<and> findFree p lastc start looped =
    (case first_free (fat_table med p) (unat start) (unat lastc) of
       Some n \<Rightarrow> Some ((True, n), p')
     | None \<Rightarrow> if looped then Some ((False, lastc + 1), p') else findFree p' lastc CLUSTER_FIRST True)"
  using assms(1-3) unfolding lastc_def
proof (induction "unat (fat_lastCluster (p_fat p)) - unat start" arbitrary: p start)
  case (0 p start)
  note small = last_small [OF 0(2)]
  have eq: "start = fat_lastCluster (p_fat p)" using 0 by (simp add: word_eq_iff_unat_eq)
  have v: "FAT_fat_isValidCluster p start" using 0 by (simp add: valid_unat)
  obtain p1 where p1: "FAT_fat_nextCluster p start = Some (fat_table med p start, p1)" "pkept med p p1"
    using next_kept [OF 0(2) v] .
  have "start + 1 > fat_lastCluster (p_fat p)"
    using small unat_add_small [of start 1] by (simp add: word_less_nat_alt eq)
  then show ?case
    using p1 eq by (intro exI [of _ p1]) (simp add: findFree.simps [of p] first_free_step first_free_empty)
next
  case (Suc k p start)
  note small = last_small [OF Suc(3)]
  have v: "FAT_fat_isValidCluster p start" using Suc by (simp add: valid_unat)
  have up: "unat (start + 1) = unat start + 1" using small Suc(5) by (intro unat_add_small [where b = 1, simplified unat_1]) simp
  have le: "unat (start + 1) \<le> unat (fat_lastCluster (p_fat p))" using Suc(2) up by simp
  obtain p1 where p1: "FAT_fat_nextCluster p start = Some (fat_table med p start, p1)" "pkept med p p1"
    using next_kept [OF Suc(3) v] .
  have same: "fat_lastCluster (p_fat p1) = fat_lastCluster (p_fat p)" "fat_table med p1 = fat_table med p"
    using same_partD(12) [OF pkeptD(2) [OF p1(2)]] pkept_table [OF p1(2)] by simp_all
  have step: "findFree p (fat_lastCluster (p_fat p)) start looped =
      (if fat_table med p start = CLUSTER_FREE then Some ((True, start), p1)
       else findFree p1 (fat_lastCluster (p_fat p)) (start + 1) looped)"
    using p1 le by (simp add: findFree.simps [of p] word_less_nat_alt not_less)
  show ?case
  proof (cases "fat_table med p start = CLUSTER_FREE")
    case True
    with step p1 Suc(5) show ?thesis by (intro exI [of _ p1]) (simp add: first_free_step)
  next
    case False
    have "k = unat (fat_lastCluster (p_fat p1)) - unat (start + 1)" using Suc(2) up same by simp
    from Suc(1) [OF this pkeptD(1) [OF p1(2)]] obtain p2 where "pkept med p1 p2"
      "findFree p1 (fat_lastCluster (p_fat p)) (start + 1) looped =
        (case first_free (fat_table med p) (unat (start + 1)) (unat (fat_lastCluster (p_fat p))) of
           Some n \<Rightarrow> Some ((True, n), p2)
         | None \<Rightarrow> if looped then Some ((False, fat_lastCluster (p_fat p) + 1), p2)
             else findFree p2 (fat_lastCluster (p_fat p)) CLUSTER_FIRST True)"
      using le up Suc(4) unfolding same by auto
    then show ?thesis
      using False step Suc(5) up by (intro exI [of _ p2]) (simp add: first_free_step pkept_trans [OF p1(2)])
  qed
qed

lemma findFree_spec:
  assumes ok: "part_ok med p" and start: "2 \<le> unat start" "unat start \<le> unat (fat_lastCluster (p_fat p))"
  shows "\<exists>p'. pkept med p p' \<and> findFree p (fat_lastCluster (p_fat p)) start False =
    Some (case alloc_choice (fat_table med p) start (fat_lastCluster (p_fat p)) of
       Some n \<Rightarrow> ((True, n), p') | None \<Rightarrow> ((False, fat_lastCluster (p_fat p) + 1), p'))"
proof -
  obtain p1 where p1: "pkept med p p1" "findFree p (fat_lastCluster (p_fat p)) start False =
    (case first_free (fat_table med p) (unat start) (unat (fat_lastCluster (p_fat p))) of
       Some n \<Rightarrow> Some ((True, n), p1)
     | None \<Rightarrow> findFree p1 (fat_lastCluster (p_fat p)) CLUSTER_FIRST True)"
    using findFree_from [OF ok start, of False] by auto
  show ?thesis
  proof (cases "first_free (fat_table med p) (unat start) (unat (fat_lastCluster (p_fat p)))")
    case (Some n)
    with p1 show ?thesis by (intro exI [of _ p1]) (simp add: alloc_choice_def)
  next
    case None
    have same: "fat_lastCluster (p_fat p1) = fat_lastCluster (p_fat p)" "fat_table med p1 = fat_table med p"
      using same_partD(12) [OF pkeptD(2) [OF p1(1)]] pkept_table [OF p1(1)] by simp_all
    have "unat CLUSTER_FIRST = 2" by (simp add: CLUSTER_FIRST_def)
    then obtain p2 where "pkept med p1 p2" "findFree p1 (fat_lastCluster (p_fat p)) CLUSTER_FIRST True =
      (case first_free (fat_table med p) 2 (unat (fat_lastCluster (p_fat p))) of
         Some n \<Rightarrow> Some ((True, n), p2) | None \<Rightarrow> Some ((False, fat_lastCluster (p_fat p) + 1), p2))"
      using findFree_from [OF pkeptD(1) [OF p1(1)], of CLUSTER_FIRST True] start unfolding same by auto
    then show ?thesis
      using None p1 pkept_trans [OF p1(1)]
      by (intro exI [of _ p2]) (simp add: alloc_choice_def split: option.splits)
  qed
qed

lemma alloc_choice_Some:
  assumes "alloc_choice t start lastc = Some n" and "2 \<le> unat start" and "unat lastc < 2 ^ 32"
  shows "2 \<le> unat n" and "unat n \<le> unat lastc" and "t n = CLUSTER_FREE"
  using assms first_free_Some [of t _ "unat lastc" n]
  by (fastforce simp: alloc_choice_def split: option.splits)+

lemma alloc_choice_None:
  assumes "alloc_choice t start lastc = None" and "2 \<le> unat c" and "unat c \<le> unat lastc"
  shows "t c \<noteq> CLUSTER_FREE"
  using assms first_free_None [of t 2 "unat lastc" c] by (auto simp: alloc_choice_def split: option.splits)


definition alloc_start :: "'d partition \<Rightarrow> u32" where
  "alloc_start p = (if fat_firstFree (p_fat p) < CLUSTER_FIRST then CLUSTER_FIRST else fat_firstFree (p_fat p))"

lemma alloc_start_bounds:
  assumes "part_ok med p" and "fat_firstFree (p_fat p) \<le> fat_lastCluster (p_fat p)"
  shows "2 \<le> unat (alloc_start p)" and "unat (alloc_start p) \<le> unat (fat_lastCluster (p_fat p))"
  using assms fat_wfD(7) [OF part_okD(2) [OF assms(1)]]
  by (auto simp: alloc_start_def CLUSTER_FIRST_def word_le_nat_alt word_less_nat_alt)

lemma alloc_start_kept: "same_part p p' \<Longrightarrow> alloc_start p' = alloc_start p"
  by (simp add: alloc_start_def same_partD(12))

lemma next_from:
  assumes ok: "part_ok med p" and c: "c = CLUSTER_FREE \<or> FAT_fat_isValidCluster p c"
  obtains p' where "FAT_fat_nextCluster p c = Some (fat_table med p c, p')" and "pkept med p p'"
  using nextCluster_spec [OF ok, of c] valid_readable [OF part_okD(2) [OF ok], of c] c
  by (auto simp: FAT_fat_isValidCluster_def)

lemma linkFree_guard: "c = CLUSTER_FREE \<or> FAT_fat_isValidCluster p c \<Longrightarrow> \<not> fat_lastCluster (p_fat p) < c"
  by (auto simp: FAT_fat_isValidCluster_def CLUSTER_FREE_def)

lemma linkFreeCluster_linked:
  assumes ok: "part_ok med p" and c: "c = CLUSTER_FREE \<or> FAT_fat_isValidCluster p c"
    and link: "FAT_fat_isValidCluster p (fat_table med p c)"
  shows "\<exists>p'. FAT_fat_linkFreeCluster p c = Some (fat_table med p c, p') \<and> pkept med p p'"
proof -
  obtain p1 where "FAT_fat_nextCluster p c = Some (fat_table med p c, p1)" "pkept med p p1"
    using next_from [OF ok c] .
  then show ?thesis
    using link linkFree_guard [OF c]
    by (intro exI [of _ p1]) (simp add: FAT_fat_linkFreeCluster_def FAT_fat_isValidCluster_def)
qed

lemma linkFree_search:
  assumes ok: "part_ok med p" and c: "c = CLUSTER_FREE \<or> FAT_fat_isValidCluster p c"
    and link: "\<not> FAT_fat_isValidCluster p (fat_table med p c)"
  obtains p1 where "pkept med p p1" and "FAT_fat_linkFreeCluster p c =
    do {
      ((found, n), p) \<leftarrow> findFree p1 (fat_lastCluster (p_fat p1)) (alloc_start p1) False;
      if \<not> found then Some (CLUSTER_ERROR, set_fat (\<lambda>f. f\<lparr>fat_firstFree := n\<rparr>) p)
      else do {
        let q = set_fat (note_alloc n) p;
        (_, q) \<leftarrow> (if FAT_fat_isValidCluster p1 c then FAT_fat_writeFatEntry q c n else Some (True, q));
        (_, q) \<leftarrow> FAT_fat_writeFatEntry q n CLUSTER_EOF;
        Some (n, q)
      }
    }"
proof -
  obtain p1 where p1: "FAT_fat_nextCluster p c = Some (fat_table med p c, p1)" "pkept med p p1"
    using next_from [OF ok c] .
  have fat: "p_fat p1 = p_fat p" by (rule same_partD(12) [OF pkeptD(2) [OF p1(2)]])
  have g: "\<not> fat_lastCluster (p_fat p) < c" by (rule linkFree_guard [OF c])
  have nl: "\<not> (fat_table med p c \<ge> CLUSTER_FIRST \<and> fat_table med p c \<le> fat_lastCluster (p_fat p))"
    using link by (simp add: FAT_fat_isValidCluster_def)
  show thesis
    using p1(1) by (intro that [OF p1(2)])
      (simp only: FAT_fat_linkFreeCluster_def Let_def g if_False bind.simps prod.case nl fat alloc_start_def
        FAT_fat_isValidCluster_def)
qed

lemma linkFreeCluster_full:
  assumes ok: "part_ok med p" and c: "c = CLUSTER_FREE \<or> FAT_fat_isValidCluster p c"
    and link: "\<not> FAT_fat_isValidCluster p (fat_table med p c)"
    and ff: "fat_firstFree (p_fat p) \<le> fat_lastCluster (p_fat p)"
    and none: "alloc_choice (fat_table med p) (alloc_start p) (fat_lastCluster (p_fat p)) = None"
  shows "\<exists>p'. FAT_fat_linkFreeCluster p c = Some (CLUSTER_ERROR, p') \<and> part_ok med p' \<and> fs_step med p p' \<and>
    fat_table med p' = fat_table med p \<and>
    p_fat p' = (p_fat p)\<lparr>fat_firstFree := fat_lastCluster (p_fat p) + 1\<rparr>"
proof -
  obtain p1 where p1: "pkept med p p1" and eq: "FAT_fat_linkFreeCluster p c =
    do {
      ((found, n), p) \<leftarrow> findFree p1 (fat_lastCluster (p_fat p1)) (alloc_start p1) False;
      if \<not> found then Some (CLUSTER_ERROR, set_fat (\<lambda>f. f\<lparr>fat_firstFree := n\<rparr>) p)
      else do {
        let q = set_fat (note_alloc n) p;
        (_, q) \<leftarrow> (if FAT_fat_isValidCluster p1 c then FAT_fat_writeFatEntry q c n else Some (True, q));
        (_, q) \<leftarrow> FAT_fat_writeFatEntry q n CLUSTER_EOF;
        Some (n, q)
      }
    }"
    using linkFree_search [OF ok c link] .
  have same: "p_fat p1 = p_fat p" "fat_table med p1 = fat_table med p" "alloc_start p1 = alloc_start p"
    using same_partD(12) [OF pkeptD(2) [OF p1]] pkept_table [OF p1] alloc_start_kept [OF pkeptD(2) [OF p1]] by simp_all
  obtain p2 where p2: "pkept med p1 p2" "findFree p1 (fat_lastCluster (p_fat p)) (alloc_start p) False
      = Some ((False, fat_lastCluster (p_fat p) + 1), p2)"
    using findFree_spec [OF pkeptD(1) [OF p1], of "alloc_start p"] alloc_start_bounds [OF ok ff] none
    by (auto simp: same)
  note k2 = pkept_trans [OF p1 p2(1)]
  have fat2: "p_fat p2 = p_fat p" by (rule same_partD(12) [OF pkeptD(2) [OF k2]])
  let ?f = "\<lambda>f. f\<lparr>fat_firstFree := fat_lastCluster (p_fat p) + 1\<rparr>"
  have "FAT_fat_linkFreeCluster p c = Some (CLUSTER_ERROR, set_fat ?f p2)"
    using p2(2) by (simp add: eq same)
  moreover have "fs_step med p (set_fat ?f p2)"
    by (rule fs_step_trans [OF fs_step_fat [OF fat_step_kept [OF k2]] fs_step_set]) simp
  ultimately show ?thesis
    using pkeptD(1) [OF k2] pkept_table [OF k2] by (auto simp: set_fat_ok fat2)
qed

text \<open>The two writes of an allocation.\<close>

lemma link_writes:
  assumes q: "part_ok med q" and c: "c = CLUSTER_FREE \<or> FAT_fat_isValidCluster q c"
    and n: "FAT_fat_isValidCluster q n" and b: "b \<longleftrightarrow> FAT_fat_isValidCluster q c"
  obtains q' where "do {
        (_, q) \<leftarrow> (if b then FAT_fat_writeFatEntry q c n else Some (True, q));
        (_, q) \<leftarrow> FAT_fat_writeFatEntry q n CLUSTER_EOF;
        Some (n, q)
      } = Some (n, q')" and "part_ok med q'" and "fat_step med q q'"
    and "fat_table med q' = (if c = CLUSTER_FREE then fat_table med q else (fat_table med q)(c := n))(n := CLUSTER_EOF)"
proof (cases "FAT_fat_isValidCluster q c")
  case True
  then have "c \<noteq> CLUSTER_FREE" using ft.valid_law [OF q] by blast
  obtain q1 q2 where "FAT_fat_writeFatEntry q c n = Some (True, q1)" "FAT_fat_writeFatEntry q1 n CLUSTER_EOF = Some (True, q2)"
    "part_ok med q2" "fat_table med q2 = (fat_table med q)(c := n, n := CLUSTER_EOF)" "fat_step med q q2"
    by (rule ft.link_behind [OF q True n])
  with True b \<open>c \<noteq> CLUSTER_FREE\<close> show thesis by (intro that [of q2]) simp_all
next
  case False
  obtain q2 where "FAT_fat_writeFatEntry q n CLUSTER_EOF = Some (True, q2)" "part_ok med q2"
    "fat_table med q2 = (fat_table med q)(n := CLUSTER_EOF)" "fat_step med q q2"
    using ft.set_cases [OF q n, of CLUSTER_EOF] by blast
  with False b c show thesis by (intro that [of q2]) simp_all
qed

lemma linkFreeCluster_spec:
  assumes ok: "part_ok med p" and c: "c = CLUSTER_FREE \<or> FAT_fat_isValidCluster p c"
    and link: "\<not> FAT_fat_isValidCluster p (fat_table med p c)"
    and ff: "fat_firstFree (p_fat p) \<le> fat_lastCluster (p_fat p)"
    and some: "alloc_choice (fat_table med p) (alloc_start p) (fat_lastCluster (p_fat p)) = Some n"
  shows "\<exists>p'. FAT_fat_linkFreeCluster p c = Some (n, p') \<and> part_ok med p' \<and> fs_step med p p' \<and>
    fat_table med p' = (if c = CLUSTER_FREE then fat_table med p else (fat_table med p)(c := n))(n := CLUSTER_EOF) \<and>
    p_fat p' = note_alloc n (p_fat p) \<and> FAT_fat_isValidCluster p n \<and> fat_table med p n = CLUSTER_FREE"
proof -
  obtain p1 where p1: "pkept med p p1" and eq: "FAT_fat_linkFreeCluster p c =
    do {
      ((found, n), p) \<leftarrow> findFree p1 (fat_lastCluster (p_fat p1)) (alloc_start p1) False;
      if \<not> found then Some (CLUSTER_ERROR, set_fat (\<lambda>f. f\<lparr>fat_firstFree := n\<rparr>) p)
      else do {
        let q = set_fat (note_alloc n) p;
        (_, q) \<leftarrow> (if FAT_fat_isValidCluster p1 c then FAT_fat_writeFatEntry q c n else Some (True, q));
        (_, q) \<leftarrow> FAT_fat_writeFatEntry q n CLUSTER_EOF;
        Some (n, q)
      }
    }"
    using linkFree_search [OF ok c link] .
  have same: "p_fat p1 = p_fat p" "fat_table med p1 = fat_table med p" "alloc_start p1 = alloc_start p"
    using same_partD(12) [OF pkeptD(2) [OF p1]] pkept_table [OF p1] alloc_start_kept [OF pkeptD(2) [OF p1]] by simp_all
  note start = alloc_start_bounds [OF ok ff]
  obtain p2 where p2: "pkept med p1 p2"
    "findFree p1 (fat_lastCluster (p_fat p)) (alloc_start p) False = Some ((True, n), p2)"
    using findFree_spec [OF pkeptD(1) [OF p1], of "alloc_start p"] start some by (auto simp: same)
  note k2 = pkept_trans [OF p1 p2(1)]
  note choice = alloc_choice_Some [OF some start(1)]
  have vn: "FAT_fat_isValidCluster p n" and tn: "fat_table med p n = CLUSTER_FREE"
    using choice last_small [OF ok] by (simp_all add: valid_unat)
  define q where "q = set_fat (note_alloc n) p2"
  have q: "part_ok med q" "fat_table med q = fat_table med p" "p_fat q = note_alloc n (p_fat p)"
    "FAT_fat_isValidCluster q = FAT_fat_isValidCluster p"
    using pkeptD(1) [OF k2] pkept_table [OF k2] same_partD(12) [OF pkeptD(2) [OF k2]] pkept_valid [OF k2]
    by (simp_all add: q_def set_fat_ok)
  have stq: "fs_step med p q"
    unfolding q_def by (rule fs_step_trans [OF fs_step_fat [OF fat_step_kept [OF k2]] fs_step_set]) simp
  obtain q' where q': "do {
        (_, q) \<leftarrow> (if FAT_fat_isValidCluster p1 c then FAT_fat_writeFatEntry q c n else Some (True, q));
        (_, q) \<leftarrow> FAT_fat_writeFatEntry q n CLUSTER_EOF;
        Some (n, q)
      } = Some (n, q')" "part_ok med q'" "fat_step med q q'"
    "fat_table med q' = (if c = CLUSTER_FREE then fat_table med q else (fat_table med q)(c := n))(n := CLUSTER_EOF)"
    by (rule link_writes [OF q(1), of c n "FAT_fat_isValidCluster p1 c"]) (use c vn q(4) pkept_valid [OF p1] in auto)
  have "FAT_fat_linkFreeCluster p c = Some (n, q')"
    using p2(2) q'(1) by (simp add: eq same q_def [symmetric])
  moreover have "fs_step med p q'"
    by (rule fs_step_trans [OF stq fs_step_fat [OF q'(3)]])
  moreover have "p_fat q' = note_alloc n (p_fat p)"
    using q'(3) same_partD(12) [of q q'] q(3) by (simp add: fat_step_def)
  ultimately show ?thesis using q'(2,4) q(2) vn tn by auto
qed


lemma link_preserves_chain:
  assumes ok: "part_ok med p" and ch: "chain (fat_table med p) (FAT_fat_isValidCluster p) (cs @ [c])"
    and eof: "fat_table med p c = CLUSTER_EOF"
    and n: "FAT_fat_isValidCluster p n" "fat_table med p n = CLUSTER_FREE"
  shows "chain ((fat_table med p)(c := n, n := CLUSTER_EOF)) (FAT_fat_isValidCluster p) (cs @ [c, n])"
proof -
  have link: "fat_table med p x \<noteq> CLUSTER_FREE" if "x \<in> set (cs @ [c])" for x
  proof (cases "x = c")
    case True
    then show ?thesis using eof by (simp add: cluster_defs)
  next
    case False
    then have "x \<in> set cs" using that by simp
    then obtain xs ys where "cs = xs @ x # ys" by (auto dest: split_list)
    then obtain y zs where "cs @ [c] = xs @ x # y # zs" by (cases ys) auto
    with ch have "fat_table med p x = y" "FAT_fat_isValidCluster p y"
      using chain_link [of _ _ xs x y zs] chain_valid [OF ch, of y] by simp_all
    then show ?thesis using ft.valid_law [OF ok] by auto
  qed
  then have "n \<notin> set (cs @ [c])" using n(2) by blast
  with ch n(1) ft.chain_facts(1) [OF ok ch] show ?thesis by (intro chain_append)
qed

text \<open>After a failed search \<open>firstFree\<close> is one past the last cluster, and the next search starts
  there: if the slack of the table reads as free, a cluster that does not exist is allocated.\<close>

lemma writeFatEntry_invalid:
  "\<not> FAT_fat_isValidCluster p c \<Longrightarrow> FAT_fat_writeFatEntry p c v = Some (False, p)"
  by (auto simp: FAT_fat_writeFatEntry_def FAT_fat_isValidCluster_def not_le)

lemma linkFreeCluster_past_end:
  assumes ok: "part_ok med p" and c: "FAT_fat_isValidCluster p c"
    and link: "\<not> FAT_fat_isValidCluster p (fat_table med p c)"
    and ff: "fat_firstFree (p_fat p) = fat_lastCluster (p_fat p) + 1"
    and slack: "readable p (fat_lastCluster (p_fat p) + 1)"
      "fat_table med p (fat_lastCluster (p_fat p) + 1) = CLUSTER_FREE"
      "fat_lastCluster (p_fat p) + 1 < eof_limit (p_filesysType p)"
  shows "\<exists>p'. FAT_fat_linkFreeCluster p c = Some (fat_lastCluster (p_fat p) + 1, p') \<and>
    \<not> FAT_fat_isValidCluster p (fat_lastCluster (p_fat p) + 1) \<and>
    fat_table med p' = (fat_table med p)(c := fat_lastCluster (p_fat p) + 1)"
proof -
  let ?n = "fat_lastCluster (p_fat p) + 1"
  note small = last_small [OF ok]
  have un: "unat ?n = unat (fat_lastCluster (p_fat p)) + 1"
    using small by (intro unat_add_small [where b = 1, simplified unat_1]) simp
  have two: "2 \<le> unat (fat_lastCluster (p_fat p))" and c0: "c = CLUSTER_FREE \<or> FAT_fat_isValidCluster p c"
    using c by (auto simp: valid_unat)
  have inv: "\<not> FAT_fat_isValidCluster p ?n" using un by (simp add: valid_unat)
  obtain p1 where p1: "pkept med p p1" and eq: "FAT_fat_linkFreeCluster p c =
    do {
      ((found, n), p) \<leftarrow> findFree p1 (fat_lastCluster (p_fat p1)) (alloc_start p1) False;
      if \<not> found then Some (CLUSTER_ERROR, set_fat (\<lambda>f. f\<lparr>fat_firstFree := n\<rparr>) p)
      else do {
        let q = set_fat (note_alloc n) p;
        (_, q) \<leftarrow> (if FAT_fat_isValidCluster p1 c then FAT_fat_writeFatEntry q c n else Some (True, q));
        (_, q) \<leftarrow> FAT_fat_writeFatEntry q n CLUSTER_EOF;
        Some (n, q)
      }
    }"
    using linkFree_search [OF ok c0 link] .
  have start: "alloc_start p1 = ?n"
    using alloc_start_kept [OF pkeptD(2) [OF p1]] un two
    by (simp add: alloc_start_def ff CLUSTER_FIRST_def word_less_nat_alt)
  obtain p2 where p2: "FAT_fat_nextCluster p1 ?n = Some (CLUSTER_FREE, p2)" "pkept med p1 p2"
    using nextCluster_spec [OF pkeptD(1) [OF p1], of ?n] slack readable_same [OF pkeptD(2) [OF p1]]
      pkept_table [OF p1] by auto
  note k2 = pkept_trans [OF p1 p2(2)]
  have find: "findFree p1 (fat_lastCluster (p_fat p1)) ?n False = Some ((True, ?n), p2)"
    using p2(1) by (simp add: findFree.simps [of p1])
  define q where "q = set_fat (note_alloc ?n) p2"
  have q: "part_ok med q" "fat_table med q = fat_table med p" "FAT_fat_isValidCluster q = FAT_fat_isValidCluster p"
    "p_filesysType q = p_filesysType p"
    using pkeptD(1) [OF k2] pkept_table [OF k2] pkept_valid [OF k2] same_partD(2) [OF pkeptD(2) [OF k2]]
    by (simp_all add: q_def set_fat_ok) (simp add: set_fat_def)
  have mask: "link_of (p_filesysType q) (entry_mask (p_filesysType q) ?n) = ?n"
    using slack(3) fat_wfD(1) [OF part_okD(2) [OF q(1)]] q(4) by (intro link_roundtrip) simp_all
  obtain q1 where q1: "FAT_fat_writeFatEntry q c ?n = Some (True, q1)"
    "fat_table med q1 = (fat_table med p)(c := ?n)" "same_part q q1"
    using writeFatEntry_spec [OF q(1), of c ?n] c q(2,3) mask by (auto simp: table_step_def)
  have "FAT_fat_writeFatEntry q1 ?n CLUSTER_EOF = Some (False, q1)"
    using inv q(3) isValid_same [OF q1(3)] by (intro writeFatEntry_invalid) simp
  then have "FAT_fat_linkFreeCluster p c = Some (?n, q1)"
    using find q1(1) c by (simp add: eq start pkept_valid [OF p1] q_def [symmetric])
  with inv q1(2) show ?thesis by blast
qed

section \<open>Counting\<close>

lemma freeClusterCount_loop_spec:
  assumes "part_ok med p" and "2 \<le> unat cur" and "unat cur \<le> Suc (unat (fat_lastCluster (p_fat p)))"
  shows "\<exists>p'. pkept med p p' \<and> freeClusterCount_loop p cur count = Some (count +
    of_nat (length (filter (\<lambda>i. fat_table med p (of_nat i) = CLUSTER_FREE)
      [unat cur..<Suc (unat (fat_lastCluster (p_fat p)))])), p')"
  using assms
proof (induction "Suc (unat (fat_lastCluster (p_fat p))) - unat cur" arbitrary: p cur count)
  case (0 p cur count)
  then have "\<not> cur \<le> fat_lastCluster (p_fat p)" by (simp add: word_le_nat_alt)
  with 0 show ?case
    using pkept_refl [of med p] by (intro exI [of _ p]) (simp add: freeClusterCount_loop.simps [of p])
next
  case (Suc k p cur count)
  note small = last_small [OF Suc(3)]
  have le: "unat cur \<le> unat (fat_lastCluster (p_fat p))" using Suc(2) by simp
  have v: "FAT_fat_isValidCluster p cur" using Suc le by (simp add: valid_unat)
  have up: "unat (cur + 1) = unat cur + 1" using small le by (intro unat_add_small [where b = 1, simplified unat_1]) simp
  obtain p1 where p1: "FAT_fat_nextCluster p cur = Some (fat_table med p cur, p1)" "pkept med p p1"
    using next_kept [OF Suc(3) v] .
  have same: "fat_lastCluster (p_fat p1) = fat_lastCluster (p_fat p)" "fat_table med p1 = fat_table med p"
    using same_partD(12) [OF pkeptD(2) [OF p1(2)]] pkept_table [OF p1(2)] by simp_all
  have "k = Suc (unat (fat_lastCluster (p_fat p1))) - unat (cur + 1)" using Suc(2) up same by simp
  from Suc(1) [OF this pkeptD(1) [OF p1(2)], of "if fat_table med p cur = CLUSTER_FREE then count + 1 else count"]
  obtain p2 where p2: "pkept med p1 p2" "freeClusterCount_loop p1 (cur + 1)
      (if fat_table med p cur = CLUSTER_FREE then count + 1 else count) =
    Some ((if fat_table med p cur = CLUSTER_FREE then count + 1 else count) +
      of_nat (length (filter (\<lambda>i. fat_table med p (of_nat i) = CLUSTER_FREE)
        [unat (cur + 1)..<Suc (unat (fat_lastCluster (p_fat p)))])), p2)"
    using le up Suc(4) unfolding same by auto
  have "[unat cur..<Suc (unat (fat_lastCluster (p_fat p)))] = unat cur # [unat (cur + 1)..<Suc (unat (fat_lastCluster (p_fat p)))]"
    unfolding up using le by (simp add: upt_conv_Cons del: upt_Suc)
  moreover have "cur \<le> fat_lastCluster (p_fat p)" using le by (simp add: word_le_nat_alt)
  ultimately show ?case
    using p1 p2 by (intro exI [of _ p2])
      (simp add: freeClusterCount_loop.simps [of p] pkept_trans [OF p1(2)] add.commute add.left_commute del: upt_Suc)
qed

lemma freeClusterCount_spec:
  assumes ok: "part_ok med p"
  shows "\<exists>p' n. FAT_fat_freeClusterCount p = Some (n, p') \<and> pkept med p p' \<and>
    unat n = card {c. FAT_fat_isValidCluster p c \<and> fat_table med p c = CLUSTER_FREE}"
proof -
  let ?l = "unat (fat_lastCluster (p_fat p))" and ?P = "\<lambda>i. fat_table med p (of_nat i) = CLUSTER_FREE"
  have two: "unat CLUSTER_FIRST = 2" by (simp add: CLUSTER_FIRST_def)
  have small: "?l < 2 ^ 28" by (rule last_small [OF ok])
  have "2 \<le> ?l" using fat_wfD(7) [OF part_okD(2) [OF ok]] two by (simp add: word_le_nat_alt)
  then obtain p' where p': "pkept med p p'" "FAT_fat_freeClusterCount p
      = Some (of_nat (length (filter ?P [2..<Suc ?l])), p')"
    using freeClusterCount_loop_spec [OF ok, of CLUSTER_FIRST 0] two
    by (auto simp: FAT_fat_freeClusterCount_def simp del: upt_Suc)
  have "length (filter ?P [2..<Suc ?l]) \<le> length [2..<Suc ?l]" by (rule length_filter_le)
  then have len: "length (filter ?P [2..<Suc ?l]) < 2 ^ 32" using small by (simp del: upt_Suc)
  have img: "{c. FAT_fat_isValidCluster p c \<and> fat_table med p c = CLUSTER_FREE} = of_nat ` set (filter ?P [2..<Suc ?l])"
  proof (intro equalityI subsetI)
    fix c assume "c \<in> {c. FAT_fat_isValidCluster p c \<and> fat_table med p c = CLUSTER_FREE}"
    then have "unat c \<in> set (filter ?P [2..<Suc ?l])" by (auto simp: valid_unat simp del: upt_Suc)
    then show "c \<in> of_nat ` set (filter ?P [2..<Suc ?l])" by (rule rev_image_eqI) simp
  next
    fix c :: u32 assume "c \<in> of_nat ` set (filter ?P [2..<Suc ?l])"
    then obtain i where i: "c = of_nat i" "?P i" "2 \<le> i" "i \<le> ?l" by (auto simp del: upt_Suc)
    then have "unat c = i" using small by (simp add: unsigned_of_nat take_bit_nat_eq_self_iff)
    with i show "c \<in> {c. FAT_fat_isValidCluster p c \<and> fat_table med p c = CLUSTER_FREE}" by (simp add: valid_unat)
  qed
  have "inj_on (of_nat :: nat \<Rightarrow> u32) (set (filter ?P [2..<Suc ?l]))"
  proof (rule inj_onI)
    fix x y assume xy: "x \<in> set (filter ?P [2..<Suc ?l])" "y \<in> set (filter ?P [2..<Suc ?l])"
      and eq: "(of_nat x :: u32) = of_nat y"
    have "x < 2 ^ 32" "y < 2 ^ 32" using xy small by (auto simp del: upt_Suc)
    then have "unat (of_nat x :: u32) = x" "unat (of_nat y :: u32) = y"
      by (simp_all add: unsigned_of_nat take_bit_nat_eq_self_iff)
    with eq show "x = y" by metis
  qed
  then have "card {c. FAT_fat_isValidCluster p c \<and> fat_table med p c = CLUSTER_FREE} = length (filter ?P [2..<Suc ?l])"
    unfolding img using distinct_card [OF distinct_filter [OF distinct_upt [of 2 "Suc ?l"], of ?P]]
    by (simp only: card_image)
  with p' len show ?thesis by (auto simp: unsigned_of_nat take_bit_nat_eq_self_iff simp del: upt_Suc)
qed


section \<open>Clusters on the disc\<close>

text \<open>The data region lies behind the table and inside the partition.\<close>

definition data_ok :: "'d partition \<Rightarrow> bool" where
  "data_ok p \<longleftrightarrow>
     unat (fat_fatStart (p_fat p)) + unat (fat_sectorsPerFat (p_fat p)) \<le> unat (p_dataStart p) \<and>
     unat (p_dataStart p) + (unat (fat_lastCluster (p_fat p)) - 1) * unat (p_sectorsPerCluster p)
       \<le> unat (c_endOfPartition (p_cache p))"

definition in_cluster :: "'d partition \<Rightarrow> u32 \<Rightarrow> sec_t \<Rightarrow> bool" where
  "in_cluster p c s \<longleftrightarrow> in_range (FAT_fat_clusterToSector p c) (p_sectorsPerCluster p) s"

lemma clusterToSector_valid:
  assumes d: "data_ok p" and v: "FAT_fat_isValidCluster p c"
  shows "unat (FAT_fat_clusterToSector p c) = unat (p_dataStart p) + (unat c - 2) * unat (p_sectorsPerCluster p)"
    and "unat (FAT_fat_clusterToSector p c) + unat (p_sectorsPerCluster p) \<le> unat (c_endOfPartition (p_cache p))"
proof -
  let ?spc = "unat (p_sectorsPerCluster p)"
  have c: "2 \<le> unat c" "unat c \<le> unat (fat_lastCluster (p_fat p))" using v by (simp_all add: valid_unat)
  then have "(unat c - 2 + 1) * ?spc \<le> (unat (fat_lastCluster (p_fat p)) - 1) * ?spc" by (intro mult_right_mono) auto
  then have le: "unat (p_dataStart p) + (unat c - 2) * ?spc + ?spc \<le> unat (c_endOfPartition (p_cache p))"
    using d by (simp add: data_ok_def)
  then have small: "unat (p_dataStart p) + (unat c - 2) * ?spc < 2 ^ 32" if "0 < ?spc"
    using that unat_lt_2p32 [of "c_endOfPartition (p_cache p)"] by simp
  have sub: "unat (c - CLUSTER_FIRST) = unat c - 2"
    using c by (subst unat_sub_le) (simp_all add: CLUSTER_FIRST_def)
  have ge: "c \<ge> CLUSTER_FIRST" using c by (simp add: CLUSTER_FIRST_def word_le_nat_alt)
  show eq: "unat (FAT_fat_clusterToSector p c) = unat (p_dataStart p) + (unat c - 2) * ?spc"
  proof (cases "?spc = 0")
    case True
    then have "p_sectorsPerCluster p = 0" by (simp add: word_eq_iff_unat_eq)
    with ge show ?thesis by (simp add: FAT_fat_clusterToSector_def)
  next
    case False
    then have "unat ((c - CLUSTER_FIRST) * p_sectorsPerCluster p) = (unat c - 2) * ?spc"
      using small by (subst unat_mult_small) (simp_all add: sub)
    with ge small False show ?thesis
      by (simp add: FAT_fat_clusterToSector_def unat_add_small add.commute)
  qed
  show "unat (FAT_fat_clusterToSector p c) + ?spc \<le> unat (c_endOfPartition (p_cache p))"
    using le eq by simp
qed

text \<open>Different clusters share no sector, and none lies in the table.\<close>

lemma clusters_disjoint:
  assumes d: "data_ok p" and v: "FAT_fat_isValidCluster p a" "FAT_fat_isValidCluster p b"
    and s: "in_cluster p a s" "in_cluster p b s"
  shows "a = b"
proof -
  let ?spc = "unat (p_sectorsPerCluster p)"
  have spc: "0 < ?spc" using s(1) by (auto simp: in_cluster_def in_range_def)
  have "(unat s - unat (p_dataStart p)) div ?spc = unat x - 2"
    if "FAT_fat_isValidCluster p x" "in_cluster p x s" for x
    using that clusterToSector_valid(1) [OF d that(1)] spc
    by (intro div_nat_eqI) (auto simp: in_cluster_def in_range_def mult.commute)
  with v s have "unat a - 2 = unat b - 2" by metis
  with v show "a = b" by (auto simp: valid_unat word_eq_iff_unat_eq)
qed

lemma cluster_not_in_table:
  assumes "data_ok p" and "FAT_fat_isValidCluster p c" and "in_cluster p c s"
  shows "\<not> in_range (fat_fatStart (p_fat p)) (fat_sectorsPerFat (p_fat p)) s"
  using assms clusterToSector_valid(1) [OF assms(1,2)] by (auto simp: in_cluster_def in_range_def data_ok_def)

lemma fat_table_same_view:
  assumes "same_part p p'" and wf: "fat_wf p"
    and "\<And>s. in_range (fat_fatStart (p_fat p)) (fat_sectorsPerFat (p_fat p)) s \<Longrightarrow> pview med p' s = pview med p s"
  shows "fat_table med p' = fat_table med p"
proof -
  have "fat_bytes (pview med p') p' k = fat_bytes (pview med p) p k" for k
  proof (cases "k < fat_size p")
    case True
    then have "in_range (fat_fatStart (p_fat p)) (fat_sectorsPerFat (p_fat p)) (fat_sector p k)"
      using fat_sector_bound(1) [OF wf True]
      by (simp add: in_range_def fat_size_def less_mult_imp_div_less)
    then show ?thesis
      using assms(3) unfolding fat_bytes_same [OF assms(1)] by (simp add: fat_bytes_def fat_sector_def)
  next
    case False
    then show ?thesis unfolding fat_bytes_same [OF assms(1)] by (simp add: fat_bytes_def fat_size_def)
  qed
  then have "fat_bytes (pview med p') p' = fat_bytes (pview med p) p" by blast
  then show ?thesis
    by (intro ext) (simp add: fat_table_def readable_same [OF assms(1)] same_partD(2) [OF assms(1)])
qed

lemma writeRun_one:
  assumes ok: "part_ok med p" and s: "unat s < unat (c_endOfPartition (p_cache p))"
    and b: "length b = unat (p_bytesPerSector p)"
  obtains p' where "writeRun p s 1 b = Some (True, p')" and "part_ok med p'" and "same_part p p'"
    and "pview med p' = (pview med p)(s := b)"
proof -
  have fits: "unat s + unat (1 :: u32) \<le> unat (c_endOfPartition (p_cache p))" using s by simp
  have bps: "unat (c_bytesPerSector (p_cache p)) = unat (p_bytesPerSector p)"
    using fat_wfD(2) [OF part_okD(2) [OF ok]] by simp
  obtain c where c: "FAT_cache_writeSectors (p_cache p) s 1 b = Some (True, c)" "store_inv med c"
    "cview med c = write_run (cview med (p_cache p)) s 1 (unat (p_bytesPerSector p)) b"
    "c_endOfPartition c = c_endOfPartition (p_cache p)" "unat (c_bytesPerSector c) = unat (c_bytesPerSector (p_cache p))"
    using runs.putrun_law [OF part_okD(1) [OF ok] fits, of b] b bps by auto
  have "pview med (p\<lparr>p_cache := c\<rparr>) = (pview med p)(s := b)"
    by (auto simp: pview_def c(3) write_run_def fun_eq_iff word_eq_iff_unat_eq slice_def b)
  moreover have "writeRun p s 1 b = Some (True, p\<lparr>p_cache := c\<rparr>)" using c(1) by (simp add: writeRun_def on_cache_def)
  ultimately show thesis using that cache_step [OF ok c(2,4,5)] by blast
qed


lemma clearCluster_spec:
  assumes "part_ok med p" and "data_ok p" and "FAT_fat_isValidCluster p n"
    and "i + k \<le> unat (p_sectorsPerCluster p)"
  defines "zeros \<equiv> replicate (unat (p_bytesPerSector p)) 0"
  shows "\<exists>p'. clearCluster p n zeros (of_nat i) k = Some p' \<and> part_ok med p' \<and> same_part p p' \<and>
    pview med p' = (\<lambda>s. if unat (FAT_fat_clusterToSector p n) + i \<le> unat s \<and>
      unat s < unat (FAT_fat_clusterToSector p n) + i + k then zeros else pview med p s)"
  using assms(1-4) unfolding zeros_def
proof (induction k arbitrary: p i)
  case 0
  then show ?case using same_part_refl [of p] by (auto simp: fun_eq_iff)
next
  case (Suc k p i)
  let ?z = "replicate (unat (p_bytesPerSector p)) (0 :: u8)"
  let ?first = "FAT_fat_clusterToSector p n"
  have bound: "unat ?first + i < unat (c_endOfPartition (p_cache p))"
    using clusterToSector_valid(2) [OF Suc(3,4)] Suc(5) by simp
  then have small: "unat ?first + i < 2 ^ 32" using unat_lt_2p32 [of "c_endOfPartition (p_cache p)"] by simp
  note u = unat_offset [OF small]
  obtain p1 where p1: "writeRun p (?first + of_nat i) 1 ?z = Some (True, p1)" "part_ok med p1" "same_part p p1"
    "pview med p1 = (pview med p)(?first + of_nat i := ?z)"
    using writeRun_one [OF Suc(2), of "?first + of_nat i" ?z] u bound by auto
  note sp = same_partD [OF p1(3)]
  have first: "FAT_fat_clusterToSector p1 n = ?first" by (simp add: FAT_fat_clusterToSector_def sp)
  have "data_ok p1" "FAT_fat_isValidCluster p1 n" "Suc i + k \<le> unat (p_sectorsPerCluster p1)"
    using Suc(3-5) isValid_same [OF p1(3)] by (simp_all add: data_ok_def sp)
  from Suc(1) [OF p1(2) this] obtain p2 where p2: "clearCluster p1 n ?z (of_nat (Suc i)) k = Some p2" "part_ok med p2"
    "same_part p1 p2" "pview med p2 = (\<lambda>s. if unat ?first + Suc i \<le> unat s \<and> unat s < unat ?first + Suc i + k
      then ?z else pview med p1 s)"
    unfolding first sp by blast
  have "clearCluster p n ?z (of_nat i) (Suc k) = Some p2"
    using p1(1) p2(1) by (simp add: add.commute)
  moreover have "pview med p2 = (\<lambda>s. if unat ?first + i \<le> unat s \<and> unat s < unat ?first + i + Suc k
      then ?z else pview med p s)"
    unfolding p2(4) p1(4) using u by (auto simp: fun_eq_iff word_eq_iff_unat_eq)
  ultimately show ?case using p2(2) same_part_trans [OF p1(3) p2(3)] by blast
qed

text \<open>The cluster an allocation returns is zeroed, and nothing else of the data changes.\<close>

lemma linkFreeClusterCleared_spec:
  assumes link: "FAT_fat_linkFreeCluster p c = Some (n, q)" and q: "part_ok med q" "data_ok q"
    and n: "FAT_fat_isValidCluster q n"
    and block: "malloc (unat (p_bytesPerSector q)) = Some block" "length block = unat (p_bytesPerSector q)"
  shows "\<exists>p'. FAT_fat_linkFreeClusterCleared malloc p c = Some (n, p') \<and> pview med p' = (\<lambda>s. if in_cluster q n s
      then replicate (unat (p_bytesPerSector q)) 0 else pview med q s) \<and>
    part_ok med p' \<and> same_part q p' \<and> fat_table med p' = fat_table med q"
proof -
  have nv: "\<not> (n = CLUSTER_FREE \<or> n = CLUSTER_ERROR)" using ft.valid_law [OF q(1) n] by blast
  let ?z = "replicate (unat (p_bytesPerSector q)) (0 :: u8)"
  have z: "poke block 0 ?z = Some ?z" using block by (simp add: poke_def splice_full)
  obtain p' where p': "clearCluster q n ?z 0 (unat (p_sectorsPerCluster q)) = Some p'" "part_ok med p'" "same_part q p'"
    "pview med p' = (\<lambda>s. if in_cluster q n s then ?z else pview med q s)"
    using clearCluster_spec [OF q n, of 0 "unat (p_sectorsPerCluster q)"] by (auto simp: in_cluster_def in_range_def)
  have "FAT_fat_linkFreeClusterCleared malloc p c = Some (n, p')"
    using link nv block z p'(1) by (simp add: FAT_fat_linkFreeClusterCleared_def)
  moreover have "fat_table med p' = fat_table med q"
    using cluster_not_in_table [OF q(2) n] p'(4)
    by (intro fat_table_same_view [OF p'(3) part_okD(2) [OF q(1)]]) auto
  ultimately show ?thesis using p'(2-4) by blast
qed

end
