(* ===== verification/FatForest.thy ===== *)
theory FatForest
  imports FatAlloc
begin

text \<open>
  The chains of a partition all together. \<open>forest\<close> says that a list of chains holds every cluster
  in use exactly once, each chain ended by the end mark; \<open>alloc_inv\<close> adds the bookkeeping of the
  allocator. Creating, extending, cutting and deleting chains, in any order, keeps both.
\<close>

section \<open>Forests\<close>

definition forest :: "(u32 \<Rightarrow> u32) \<Rightarrow> (u32 \<Rightarrow> bool) \<Rightarrow> u32 list list \<Rightarrow> bool" where
  "forest t V css \<longleftrightarrow> (\<forall>cs \<in> set css. chain t V cs \<and> t (last cs) = CLUSTER_EOF) \<and> distinct (concat css) \<and>
     (\<forall>c. V c \<longrightarrow> t c \<noteq> CLUSTER_FREE \<longrightarrow> c \<in> set (concat css))"

definition proper :: "(u32 \<Rightarrow> bool) \<Rightarrow> bool" where
  "proper V \<longleftrightarrow> \<not> V CLUSTER_FREE \<and> \<not> V CLUSTER_EOF"

lemma forestD:
  assumes "forest t V css"
  shows "cs \<in> set css \<Longrightarrow> chain t V cs" "cs \<in> set css \<Longrightarrow> t (last cs) = CLUSTER_EOF"
    "distinct (concat css)" "V c \<Longrightarrow> t c \<noteq> CLUSTER_FREE \<Longrightarrow> c \<in> set (concat css)"
  using assms by (auto simp: forest_def)

lemma chain_ne: "chain t V cs \<Longrightarrow> cs \<noteq> []"
  by auto

lemma chain_used:
  assumes "chain t V cs" and "t (last cs) = CLUSTER_EOF" and "proper V" and "c \<in> set cs"
  shows "t c \<noteq> CLUSTER_FREE"
  using assms
proof (induction t V cs rule: chain.induct)
  case (3 t V x d cs)
  then show ?case by (auto simp: proper_def dest: chain_hd)
qed (auto simp: cluster_defs)

lemma forest_used:
  assumes "forest t V css" and "proper V" and "c \<in> set (concat css)"
  shows "V c" and "t c \<noteq> CLUSTER_FREE"
  using assms chain_used [of t V _ c] chain_valid [of t V _ c] by (auto simp: forest_def)

lemma forest_free:
  assumes "forest t V css" and "proper V"
  shows "{c. V c \<and> t c = CLUSTER_FREE} = {c. V c} - set (concat css)"
  using forest_used [OF assms] forestD(4) [OF assms(1)] by blast

lemma forest_length:
  assumes "forest t V css" and "proper V"
  shows "length (concat css) = card (set (concat css))"
    and "length (concat css) + card {c. V c \<and> t c = CLUSTER_FREE} = card {c. V c}"
proof -
  show len: "length (concat css) = card (set (concat css))"
    using distinct_card [OF forestD(3) [OF assms(1)]] by simp
  have "set (concat css) \<subseteq> {c. V c}" using forest_used(1) [OF assms] by blast
  then show "length (concat css) + card {c. V c \<and> t c = CLUSTER_FREE} = card {c. V c}"
    unfolding len forest_free [OF assms] by (simp only: card_Diff_subset finite card_mono le_add_diff_inverse)
qed

section \<open>Growing, cutting and deleting chains of a forest\<close>

text \<open>A chain whose entries do not change is still one.\<close>

lemma ended_chain_cong:
  assumes "chain t V ds" and "t (last ds) = CLUSTER_EOF" and "\<forall>d \<in> set ds. t' d = t d"
  shows "chain t' V ds \<and> t' (last ds) = CLUSTER_EOF"
  using chain_cong [OF assms(1), of t'] assms last_in_set [OF chain_ne [OF assms(1)]] by simp

lemma forest_create:
  assumes f: "forest t V css" and V: "proper V" and n: "V n" "t n = CLUSTER_FREE"
  shows "forest (t(n := CLUSTER_EOF)) V (css @ [[n]])"
proof -
  have fresh: "n \<notin> set (concat css)" using forest_used(2) [OF f V] n by blast
  have "chain (t(n := CLUSTER_EOF)) V cs \<and> (t(n := CLUSTER_EOF)) (last cs) = CLUSTER_EOF" if "cs \<in> set css" for cs
    using fresh that by (intro ended_chain_cong [OF forestD(1,2) [OF f that]]) auto
  with f fresh n show ?thesis by (auto simp: forest_def)
qed

lemma forest_extend:
  assumes f: "forest t V (xs @ cs # ys)" and V: "proper V" and n: "V n" "t n = CLUSTER_FREE"
  shows "forest (t(last cs := n, n := CLUSTER_EOF)) V (xs @ (cs @ [n]) # ys)"
proof -
  let ?t = "t(last cs := n, n := CLUSTER_EOF)"
  have fresh: "n \<notin> set (concat (xs @ cs # ys))" using forest_used(2) [OF f V] n by blast
  have cs: "chain t V cs" "cs \<noteq> []" using forestD(1) [OF f, of cs] chain_ne by auto
  have dist: "distinct (concat (xs @ cs # ys))" by (rule forestD(3) [OF f])
  have other: "chain ?t V ds \<and> ?t (last ds) = CLUSTER_EOF" if ds: "ds \<in> set xs \<union> set ys" for ds
  proof -
    have "last cs \<notin> set ds" "n \<notin> set ds" using ds dist fresh cs(2) by (auto dest: last_in_set)
    moreover have "chain t V ds" "t (last ds) = CLUSTER_EOF" using forestD(1,2) [OF f, of ds] ds by auto
    ultimately show ?thesis by (intro ended_chain_cong [of t]) auto
  qed
  obtain bs c where bs: "cs = bs @ [c]" using cs(2) by (metis append_butlast_last_id)
  have new: "chain ?t V (cs @ [n])"
    using chain_append [of t V bs c n] cs(1) n(1) fresh dist by (simp add: bs)
  have "d \<in> set (concat (xs @ (cs @ [n]) # ys))" if "V d" "?t d \<noteq> CLUSTER_FREE" for d
  proof (cases "d = n \<or> d = last cs")
    case True
    then show ?thesis using last_in_set [OF cs(2)] by auto
  next
    case False
    with that have "d \<in> set (concat (xs @ cs # ys))" using forestD(4) [OF f, of d] by simp
    then show ?thesis by auto
  qed
  with other new dist fresh show ?thesis by (auto simp: forest_def)
qed

lemma forest_cut:
  assumes f: "forest t V (xs @ cs # ys)" and V: "proper V" and k: "0 < k"
  defines "t' \<equiv> \<lambda>d. if d \<in> set (drop k cs) then CLUSTER_FREE else if d = last (take k cs) then CLUSTER_EOF else t d"
  assumes cut: "chain t' V (take k cs)"
  shows "forest t' V (xs @ take k cs # ys)"
proof -
  have cs: "chain t V cs" "cs \<noteq> []" using forestD(1) [OF f, of cs] chain_ne by auto
  have split: "cs = take k cs @ drop k cs" by simp
  have dist: "distinct (concat (xs @ cs # ys))" by (rule forestD(3) [OF f])
  have lst: "last (take k cs) \<in> set (take k cs)" using cs(2) k by simp
  have sub: "set (take k cs) \<subseteq> set cs" "set (drop k cs) \<subseteq> set cs" by (simp_all add: set_take_subset set_drop_subset)
  have sep: "set (take k cs) \<inter> set (drop k cs) = {}"
    using dist by (intro set_take_disj_set_drop_if_distinct) simp_all
  have other: "chain t' V ds \<and> t' (last ds) = CLUSTER_EOF" if ds: "ds \<in> set xs \<union> set ys" for ds
  proof -
    have "set ds \<inter> set cs = {}" using ds dist by auto
    then have same: "t' d = t d" if "d \<in> set ds" for d using that sub lst by (auto simp: t'_def)
    moreover have "chain t V ds" "t (last ds) = CLUSTER_EOF" using forestD(1,2) [OF f, of ds] ds by auto
    ultimately show ?thesis by (intro ended_chain_cong [of t]) auto
  qed
  have "t' (last (take k cs)) = CLUSTER_EOF" using lst sep by (auto simp: t'_def)
  moreover have "d \<in> set (concat (xs @ take k cs # ys))" if "V d" "t' d \<noteq> CLUSTER_FREE" for d
  proof -
    have nd: "d \<notin> set (drop k cs)" using that(2) by (auto simp: t'_def)
    show ?thesis
    proof (cases "d = last (take k cs)")
      case True
      then show ?thesis using lst by auto
    next
      case False
      then have "d \<in> set (concat (xs @ cs # ys))" using forestD(4) [OF f that(1)] that(2) nd by (simp add: t'_def)
      then show ?thesis using nd set_append [of "take k cs" "drop k cs"] by auto
    qed
  qed
  moreover have "distinct (concat (xs @ take k cs # ys))" using dist sub(1) by auto
  ultimately show ?thesis using other cut by (auto simp: forest_def)
qed

lemma forest_delete:
  assumes f: "forest t V (xs @ cs # ys)"
  shows "forest (\<lambda>d. if d \<in> set cs then CLUSTER_FREE else t d) V (xs @ ys)"
proof -
  let ?t = "\<lambda>d. if d \<in> set cs then CLUSTER_FREE else t d"
  have dist: "distinct (concat (xs @ cs # ys))" by (rule forestD(3) [OF f])
  have other: "chain ?t V ds \<and> ?t (last ds) = CLUSTER_EOF" if ds: "ds \<in> set xs \<union> set ys" for ds
  proof -
    have "set ds \<inter> set cs = {}" using ds dist by auto
    then have same: "?t d = t d" if "d \<in> set ds" for d using that by auto
    moreover have "chain t V ds" "t (last ds) = CLUSTER_EOF" using forestD(1,2) [OF f, of ds] ds by auto
    ultimately show ?thesis by (intro ended_chain_cong [of t]) auto
  qed
  moreover have "d \<in> set (concat (xs @ ys))" if "V d" "?t d \<noteq> CLUSTER_FREE" for d
  proof -
    have "d \<notin> set cs" "t d \<noteq> CLUSTER_FREE" using that(2) by (auto split: if_splits)
    then show ?thesis using forestD(4) [OF f that(1)] by auto
  qed
  moreover have "distinct (concat (xs @ ys))" using dist by auto
  ultimately show ?thesis by (auto simp: forest_def)
qed

section \<open>The invariant of the allocator\<close>

definition clusters :: "'d partition \<Rightarrow> u32 set" where
  "clusters p = {c. FAT_fat_isValidCluster p c}"

text \<open>The table is a forest of ended chains and the search for a free cluster starts inside it. The
  counter of free clusters is exact as well when it was when the volume was mounted, which the code
  sees to on FAT32 only.\<close>

definition table_inv :: "('d \<Rightarrow> sec_t \<Rightarrow> u8 list) \<Rightarrow> 'd partition \<Rightarrow> u32 list list \<Rightarrow> bool" where
  "table_inv med p css \<longleftrightarrow> part_ok med p \<and> forest (fat_table med p) (FAT_fat_isValidCluster p) css \<and>
     fat_firstFree (p_fat p) \<le> fat_lastCluster (p_fat p)"

definition alloc_inv :: "('d \<Rightarrow> sec_t \<Rightarrow> u8 list) \<Rightarrow> 'd partition \<Rightarrow> u32 list list \<Rightarrow> bool" where
  "alloc_inv med p css \<longleftrightarrow> table_inv med p css \<and>
     unat (fat_numberFreeCluster (p_fat p)) + length (concat css) = card (clusters p) \<and>
     card (clusters p) \<le> unat (p_numberOfSectors p div p_sectorsPerCluster p)"

lemma table_invD:
  assumes "table_inv med p css"
  shows "part_ok med p" "forest (fat_table med p) (FAT_fat_isValidCluster p) css"
    "fat_firstFree (p_fat p) \<le> fat_lastCluster (p_fat p)"
  using assms by (simp_all add: table_inv_def)

lemma alloc_invD:
  assumes "alloc_inv med p css"
  shows "part_ok med p" "forest (fat_table med p) (FAT_fat_isValidCluster p) css"
    "fat_firstFree (p_fat p) \<le> fat_lastCluster (p_fat p)"
    "unat (fat_numberFreeCluster (p_fat p)) + length (concat css) = card (clusters p)"
    "card (clusters p) \<le> unat (p_numberOfSectors p div p_sectorsPerCluster p)"
    "table_inv med p css"
  using assms by (simp_all add: alloc_inv_def table_inv_def)

lemma proper_valid: "part_ok med p \<Longrightarrow> proper (FAT_fat_isValidCluster p)"
  using ft.valid_law [of med p] by (auto simp: proper_def)

text \<open>What the allocator returns on a partition in order.\<close>

definition full :: "('d \<Rightarrow> sec_t \<Rightarrow> u8 list) \<Rightarrow> 'd partition \<Rightarrow> bool" where
  "full med p \<longleftrightarrow> (\<forall>c. FAT_fat_isValidCluster p c \<longrightarrow> fat_table med p c \<noteq> CLUSTER_FREE)"

lemma free_count:
  assumes inv: "alloc_inv med p css"
  shows "card {c. FAT_fat_isValidCluster p c \<and> fat_table med p c = CLUSTER_FREE} =
    unat (fat_numberFreeCluster (p_fat p))"
  using forest_length(2) [OF alloc_invD(2) [OF inv] proper_valid [OF alloc_invD(1) [OF inv]]]
    alloc_invD(4) [OF inv] by (simp add: clusters_def)

lemma full_count:
  assumes inv: "alloc_inv med p css"
  shows "full med p \<longleftrightarrow> fat_numberFreeCluster (p_fat p) = 0"
proof -
  have "full med p \<longleftrightarrow> {c. FAT_fat_isValidCluster p c \<and> fat_table med p c = CLUSTER_FREE} = {}"
    by (auto simp: full_def)
  also have "\<dots> \<longleftrightarrow> card {c. FAT_fat_isValidCluster p c \<and> fat_table med p c = CLUSTER_FREE} = 0"
    by simp
  also have "\<dots> \<longleftrightarrow> unat (fat_numberFreeCluster (p_fat p)) = 0"
    unfolding free_count [OF inv] ..
  also have "\<dots> \<longleftrightarrow> fat_numberFreeCluster (p_fat p) = 0"
    by (simp add: unsigned_eq_0_iff)
  finally show ?thesis .
qed

lemma linkFree_cases:
  assumes inv: "table_inv med p css"
    and c: "c = CLUSTER_FREE \<or> FAT_fat_isValidCluster p c \<and> fat_table med p c = CLUSTER_EOF"
  obtains (taken) n p' where "FAT_fat_linkFreeCluster p c = Some (n, p')" and "part_ok med p'" and "fs_step med p p'"
      and "fat_table med p' = (if c = CLUSTER_FREE then fat_table med p else (fat_table med p)(c := n))(n := CLUSTER_EOF)"
      and "p_fat p' = note_alloc n (p_fat p)" and "FAT_fat_isValidCluster p n" and "fat_table med p n = CLUSTER_FREE"
  | (none) p' where "full med p" and "FAT_fat_linkFreeCluster p c = Some (CLUSTER_ERROR, p')"
      and "part_ok med p'" and "fs_step med p p'" and "fat_table med p' = fat_table med p"
      and "p_fat p' = (p_fat p)\<lparr>fat_firstFree := fat_lastCluster (p_fat p) + 1\<rparr>"
proof -
  have ok: "part_ok med p" and ff: "fat_firstFree (p_fat p) \<le> fat_lastCluster (p_fat p)"
    using table_invD [OF inv] by simp_all
  have c': "c = CLUSTER_FREE \<or> FAT_fat_isValidCluster p c" using c by blast
  have nv: "\<not> FAT_fat_isValidCluster p (fat_table med p c)"
    using c proper_valid [OF ok] by (auto simp: proper_def fat_table_def)
  show thesis
  proof (cases "alloc_choice (fat_table med p) (alloc_start p) (fat_lastCluster (p_fat p))")
    case None
    have "full med p"
      using alloc_choice_None [OF None] by (auto simp: full_def valid_unat)
    with linkFreeCluster_full [OF ok c' nv ff None] show thesis using none by blast
  next
    case (Some n)
    from linkFreeCluster_spec [OF ok c' nv ff Some] show thesis using taken by blast
  qed
qed

section \<open>Steps\<close>

text \<open>The calls by which the library creates, extends, cuts and deletes the chain of a file or
  directory, on the partition and the list of its chains.\<close>

inductive alloc_step :: "'d partition \<times> u32 list list \<Rightarrow> 'd partition \<times> u32 list list \<Rightarrow> bool" where
  create: "FAT_fat_linkFreeCluster p CLUSTER_FREE = Some (n, p') \<Longrightarrow> n \<noteq> CLUSTER_ERROR \<Longrightarrow>
    alloc_step (p, css) (p', css @ [[n]])"
| extend: "FAT_fat_linkFreeCluster p (last cs) = Some (n, p') \<Longrightarrow> n \<noteq> CLUSTER_ERROR \<Longrightarrow>
    alloc_step (p, xs @ cs # ys) (p', xs @ (cs @ [n]) # ys)"
| truncate: "FAT_fat_trimChain p (hd cs) k = Some (r, p') \<Longrightarrow> 0 < unat k \<Longrightarrow>
    alloc_step (p, xs @ cs # ys) (p', xs @ take (unat k) cs # ys)"
| delete: "FAT_fat_clearLinks p (hd cs) = Some (r, p') \<Longrightarrow> alloc_step (p, xs @ cs # ys) (p', xs @ ys)"

inductive_cases alloc_stepE: "alloc_step (p, css) (p', css')"

lemma table_after:
  assumes ok: "part_ok med p'" and st: "fs_step med p p'"
    and f: "forest (fat_table med p') (FAT_fat_isValidCluster p) css'"
    and ff: "fat_firstFree (p_fat p') \<le> fat_lastCluster (p_fat p)"
  shows "table_inv med p' css'"
  using assms fs_stepD [OF st] by (simp add: table_inv_def)

lemma inv_after:
  assumes inv: "alloc_inv med p css" and tab: "table_inv med p' css'" and st: "fs_step med p p'"
    and n: "unat (fat_numberFreeCluster (p_fat p')) + length (concat css') = card (clusters p)"
  shows "alloc_inv med p' css'"
proof -
  have "clusters p' = clusters p" "p_numberOfSectors p' = p_numberOfSectors p"
    "p_sectorsPerCluster p' = p_sectorsPerCluster p"
    using fs_stepD [OF st] by (simp_all add: clusters_def)
  with assms alloc_invD(5) [OF inv] show ?thesis by (simp add: alloc_inv_def)
qed

lemma note_alloc_exact:
  assumes "unat (fat_numberFreeCluster f) + k = m" and "k < m"
  shows "unat (fat_numberFreeCluster (note_alloc n f)) + Suc k = m"
proof -
  have "0 < unat (fat_numberFreeCluster f)" using assms by simp
  then have "unat (fat_numberFreeCluster f - 1) = unat (fat_numberFreeCluster f) - 1" "fat_numberFreeCluster f \<noteq> 0"
    by (auto simp: unat_sub_if' word_le_nat_alt)
  with assms show ?thesis by (simp add: note_alloc_def)
qed

lemma released_exact:
  assumes "unat (fat_numberFreeCluster f) + k = m" and "m \<le> unat L" and "length cs \<le> k"
  shows "unat (fat_numberFreeCluster (released L cs f)) + (k - length cs) = m"
  using assms note_free_count [of "f\<lparr>fat_firstFree := min (hd cs) (fat_firstFree f)\<rparr>" L "length cs"]
  by (simp add: released_def)

lemma released_first: "fat_firstFree (released L cs f) \<le> fat_firstFree f"
  by (simp add: released_def)

lemma grown_inv:
  assumes V: "proper (FAT_fat_isValidCluster p)" and ok: "part_ok med p'" and st: "fs_step med p p'"
    and f: "forest (fat_table med p') (FAT_fat_isValidCluster p) css'"
    and fat: "p_fat p' = note_alloc n (p_fat p)" and n: "FAT_fat_isValidCluster p n"
    and len: "length (concat css') = Suc (length (concat css))"
  shows "table_inv med p' css'" and "alloc_inv med p css \<Longrightarrow> alloc_inv med p' css'"
proof -
  have "fat_firstFree (p_fat p') \<le> fat_lastCluster (p_fat p)"
    using n by (simp add: fat note_alloc_def FAT_fat_isValidCluster_def)
  then show tab: "table_inv med p' css'" by (rule table_after [OF ok st f])
  assume inv: "alloc_inv med p css"
  have "set (concat css') \<subseteq> clusters p" using forest_used(1) [OF f V] by (auto simp: clusters_def)
  then have "length (concat css') \<le> card (clusters p)"
    unfolding forest_length(1) [OF f V] by (intro card_mono) simp_all
  then have "unat (fat_numberFreeCluster (p_fat p')) + length (concat css') = card (clusters p)"
    using note_alloc_exact [OF alloc_invD(4) [OF inv], of n] by (simp add: fat len)
  then show "alloc_inv med p' css'" by (rule inv_after [OF inv tab st])
qed

lemma shrunk_inv:
  assumes inv: "table_inv med p css" and ok: "part_ok med p'" and st: "fs_step med p p'"
    and f: "forest (fat_table med p') (FAT_fat_isValidCluster p) css'"
    and fat: "p_fat p' = released (p_numberOfSectors p div p_sectorsPerCluster p) cs (p_fat p)"
    and len: "length (concat css) = length (concat css') + length cs"
  shows "table_inv med p' css'" and "alloc_inv med p css \<Longrightarrow> alloc_inv med p' css'"
proof -
  have "fat_firstFree (p_fat p') \<le> fat_lastCluster (p_fat p)"
    using released_first table_invD(3) [OF inv] unfolding fat by (rule order_trans)
  then show tab: "table_inv med p' css'" by (rule table_after [OF ok st f])
  assume inv: "alloc_inv med p css"
  have "unat (fat_numberFreeCluster (p_fat p')) + length (concat css') = card (clusters p)"
    using released_exact [OF alloc_invD(4,5) [OF inv], of cs] by (simp add: fat len)
  then show "alloc_inv med p' css'" by (rule inv_after [OF inv tab st])
qed

lemma create_inv:
  assumes inv: "table_inv med p css" and run: "FAT_fat_linkFreeCluster p CLUSTER_FREE = Some (n, p')"
    and n: "n \<noteq> CLUSTER_ERROR"
  shows "table_inv med p' (css @ [[n]])" and "alloc_inv med p css \<Longrightarrow> alloc_inv med p' (css @ [[n]])"
proof -
  note V = proper_valid [OF table_invD(1) [OF inv]]
  from inv disjI1 [OF refl] have "table_inv med p' (css @ [[n]]) \<and> (alloc_inv med p css \<longrightarrow> alloc_inv med p' (css @ [[n]]))"
  proof (cases rule: linkFree_cases)
    case (taken n1 p1)
    then have e: "n1 = n" "p1 = p'" using run by simp_all
    have f: "forest (fat_table med p') (FAT_fat_isValidCluster p) (css @ [[n]])"
      using taken e forest_create [OF table_invD(2) [OF inv] V, of n] by simp
    have len: "length (concat (css @ [[n]])) = Suc (length (concat css))" by simp
    show ?thesis
      using grown_inv [OF V taken(2,3) [unfolded e] f taken(5,6) [unfolded e] len] by blast
  qed (use run n in simp)
  then show "table_inv med p' (css @ [[n]])" and "alloc_inv med p css \<Longrightarrow> alloc_inv med p' (css @ [[n]])" by blast+
qed

lemma extend_inv:
  assumes inv: "table_inv med p (xs @ cs # ys)" and run: "FAT_fat_linkFreeCluster p (last cs) = Some (n, p')"
    and n: "n \<noteq> CLUSTER_ERROR"
  shows "table_inv med p' (xs @ (cs @ [n]) # ys)"
    and "alloc_inv med p (xs @ cs # ys) \<Longrightarrow> alloc_inv med p' (xs @ (cs @ [n]) # ys)"
proof -
  have f: "forest (fat_table med p) (FAT_fat_isValidCluster p) (xs @ cs # ys)"
    and V: "proper (FAT_fat_isValidCluster p)"
    using table_invD [OF inv] proper_valid by blast+
  have ch: "chain (fat_table med p) (FAT_fat_isValidCluster p) cs" and eof: "fat_table med p (last cs) = CLUSTER_EOF"
    using forestD(1,2) [OF f, of cs] by simp_all
  have v: "FAT_fat_isValidCluster p (last cs)" using chain_valid [OF ch last_in_set [OF chain_ne [OF ch]]] .
  then have nf: "last cs \<noteq> CLUSTER_FREE" using V by (auto simp: proper_def)
  from inv disjI2 [OF conjI [OF v eof]] have "table_inv med p' (xs @ (cs @ [n]) # ys) \<and>
    (alloc_inv med p (xs @ cs # ys) \<longrightarrow> alloc_inv med p' (xs @ (cs @ [n]) # ys))"
  proof (cases rule: linkFree_cases)
    case (taken n1 p1)
    then have e: "n1 = n" "p1 = p'" using run by simp_all
    have f': "forest (fat_table med p') (FAT_fat_isValidCluster p) (xs @ (cs @ [n]) # ys)"
      using taken e nf forest_extend [OF f V, of n] by simp
    have len: "length (concat (xs @ (cs @ [n]) # ys)) = Suc (length (concat (xs @ cs # ys)))" by simp
    show ?thesis
      using grown_inv [OF V taken(2,3) [unfolded e] f' taken(5,6) [unfolded e] len] by blast
  qed (use run n in simp)
  then show "table_inv med p' (xs @ (cs @ [n]) # ys)"
    and "alloc_inv med p (xs @ cs # ys) \<Longrightarrow> alloc_inv med p' (xs @ (cs @ [n]) # ys)" by blast+
qed

lemma truncate_inv:
  assumes inv: "table_inv med p (xs @ cs # ys)" and run: "FAT_fat_trimChain p (hd cs) k = Some (r, p')"
    and k: "0 < unat k"
  shows "table_inv med p' (xs @ take (unat k) cs # ys)"
    and "alloc_inv med p (xs @ cs # ys) \<Longrightarrow> alloc_inv med p' (xs @ take (unat k) cs # ys)"
proof -
  have f: "forest (fat_table med p) (FAT_fat_isValidCluster p) (xs @ cs # ys)"
    and ok: "part_ok med p" using table_invD [OF inv] by blast+
  have ch: "chain (fat_table med p) (FAT_fat_isValidCluster p) cs" using forestD(1) [OF f, of cs] by simp
  note trim = trimChain_spec [OF ok ch k, unfolded run option.inject prod.inject]
  have t: "part_ok med p'" "fs_step med p p'"
    "fat_table med p' = (\<lambda>d. if d \<in> set (drop (unat k) cs) then CLUSTER_FREE
      else if d = last (take (unat k) cs) then CLUSTER_EOF else fat_table med p d)"
    "chain (fat_table med p') (FAT_fat_isValidCluster p') (take (unat k) cs)"
    "p_fat p' = released (p_numberOfSectors p div p_sectorsPerCluster p) (drop (unat k) cs) (p_fat p)"
    using trim by blast+
  have cut: "chain (fat_table med p') (FAT_fat_isValidCluster p) (take (unat k) cs)"
    using t(4) unfolding fs_stepD(16) [OF t(2)] .
  have f': "forest (fat_table med p') (FAT_fat_isValidCluster p) (xs @ take (unat k) cs # ys)"
    unfolding t(3) by (rule forest_cut [OF f proper_valid [OF ok] k cut [unfolded t(3)]])
  have len: "length (concat (xs @ cs # ys)) = length (concat (xs @ take (unat k) cs # ys)) + length (drop (unat k) cs)"
    by simp
  show "table_inv med p' (xs @ take (unat k) cs # ys)"
    and "alloc_inv med p (xs @ cs # ys) \<Longrightarrow> alloc_inv med p' (xs @ take (unat k) cs # ys)"
    using shrunk_inv [OF inv t(1,2) f' t(5) len] by blast+
qed

lemma delete_inv:
  assumes inv: "table_inv med p (xs @ cs # ys)" and run: "FAT_fat_clearLinks p (hd cs) = Some (r, p')"
  shows "table_inv med p' (xs @ ys)" and "alloc_inv med p (xs @ cs # ys) \<Longrightarrow> alloc_inv med p' (xs @ ys)"
proof -
  have f: "forest (fat_table med p) (FAT_fat_isValidCluster p) (xs @ cs # ys)"
    and ok: "part_ok med p" using table_invD [OF inv] by blast+
  have ch: "chain (fat_table med p) (FAT_fat_isValidCluster p) cs" using forestD(1) [OF f, of cs] by simp
  obtain c ds where cs: "cs = c # ds" using ch by (cases cs) auto
  from clearLinks_spec [OF ok ch [unfolded cs]] run have t: "part_ok med p'" "fs_step med p p'"
    "fat_table med p' = (\<lambda>d. if d \<in> set cs then CLUSTER_FREE else fat_table med p d)"
    "p_fat p' = released (p_numberOfSectors p div p_sectorsPerCluster p) cs (p_fat p)"
    by (simp_all add: cs released_def)
  have f': "forest (fat_table med p') (FAT_fat_isValidCluster p) (xs @ ys)"
    using forest_delete [OF f] by (simp add: t(3))
  have len: "length (concat (xs @ cs # ys)) = length (concat (xs @ ys)) + length cs" by simp
  show "table_inv med p' (xs @ ys)" and "alloc_inv med p (xs @ cs # ys) \<Longrightarrow> alloc_inv med p' (xs @ ys)"
    using shrunk_inv [OF inv t(1,2) f' t(4) len] by blast+
qed

lemmas step_inv = create_inv extend_inv truncate_inv delete_inv

lemma alloc_step_inv:
  assumes "alloc_step (p, css) (p', css')"
  shows "table_inv med p css \<Longrightarrow> table_inv med p' css'" and "alloc_inv med p css \<Longrightarrow> alloc_inv med p' css'"
proof -
  show tab: "table_inv med p' css'" if "table_inv med p css"
    using assms that by (auto elim!: alloc_stepE intro: step_inv(1,3,5,7))
  show "alloc_inv med p' css'" if inv: "alloc_inv med p css"
    using assms inv alloc_invD(6) [OF inv] by (auto elim!: alloc_stepE intro: step_inv(2,4,6,8))
qed

lemma alloc_steps_inv:
  assumes "alloc_step\<^sup>*\<^sup>* s s'"
  shows "table_inv med (fst s) (snd s) \<Longrightarrow> table_inv med (fst s') (snd s')"
    and "alloc_inv med (fst s) (snd s) \<Longrightarrow> alloc_inv med (fst s') (snd s')"
proof -
  show "table_inv med (fst s') (snd s')" if "table_inv med (fst s) (snd s)"
    using assms
  proof (induction rule: rtranclp_induct)
    case (step s1 s2)
    then show ?case using alloc_step_inv(1) [of "fst s1" "snd s1" "fst s2" "snd s2" med] by simp
  qed (rule that)
  show "alloc_inv med (fst s') (snd s')" if "alloc_inv med (fst s) (snd s)"
    using assms
  proof (induction rule: rtranclp_induct)
    case (step s1 s2)
    then show ?case using alloc_step_inv(2) [of "fst s1" "snd s1" "fst s2" "snd s2" med] by simp
  qed (rule that)
qed

end
