(* ===== verification/RamDisc.thy ===== *)
theory RamDisc
  imports FatForest
begin

text \<open>
  A disc in memory: a driver that keeps the promises of \<open>Disc\<close>, and with it a cache and FAT
  partitions that satisfy the invariants of the development. The properties are applied to them.
\<close>

section \<open>The driver\<close>

type_synonym ram = "u32 \<Rightarrow> u8 list"

definition ram_med :: "nat \<Rightarrow> ram \<Rightarrow> sec_t \<Rightarrow> u8 list" where
  "ram_med bps m s = take bps (m s @ replicate bps 0)"

definition ram_disc :: "nat \<Rightarrow> ram disc_interface" where
  "ram_disc bps = \<lparr>ioType = 0, features = 3, startup = (\<lambda>m. (True, m)), isInserted = (\<lambda>m. (True, m)),
     readSectors = (\<lambda>m s n. (True, sectors_of (ram_med bps m) s (unat n), m)),
     writeSectors = (\<lambda>m s n buf. (True, \<lambda>t. if in_range s n t then slice buf ((unat t - unat s) * bps) bps else m t)),
     clearStatus = (\<lambda>m. (True, m)), shutdown = (\<lambda>m. (True, m))\<rparr>"

lemma ram_disc_ok: "disc_ok (ram_disc bps) (ram_med bps) bps"
proof -
  have "slice buf (i * bps) bps = take bps (slice buf (i * bps) bps @ replicate bps 0)"
    if "i < k" "k * bps \<le> length buf" for i k and buf :: "u8 list"
  proof -
    have "i * bps + bps \<le> k * bps" using that(1) mult_le_mono1 [of "Suc i" k bps] by simp
    then show ?thesis using that by simp
  qed
  moreover have "unat (s + of_nat i) - unat s = i" "in_range s n (s + of_nat i)"
    if "i < unat n" "unat s + unat n \<le> 2 ^ 32" for i and s n :: u32
    using that unat_offset [of s i] by (simp_all add: in_range_def)
  ultimately show ?thesis by (auto simp: disc_ok_def ram_disc_def ram_med_def)
qed

lemma ram_disc_reliable: "disc_reliable (ram_disc bps) n"
  by (simp add: disc_reliable_def ram_disc_def)

lemma ram_disc_quiet: "disc_quiet (ram_disc bps)"
  by (simp add: disc_quiet_def ram_disc_def)

section \<open>A cache on it\<close>

definition ram_cache :: "nat \<Rightarrow> u32 \<Rightarrow> ram \<Rightarrow> ram cache" where
  "ram_cache bps lim m = \<lparr>c_disc = ram_disc bps, c_endOfPartition = lim, c_numberOfPages = 2,
     c_sectorsPerPage = 8, c_bytesPerSector = of_nat bps,
     c_cacheEntries = replicate 2 (new_entry (Some (replicate (8 * bps) 0))), c_medium = m, c_accessCounter = 0\<rparr>"

lemma ram_cache_store:
  assumes "0 < bps" and "bps \<le> 4096" and "unat lim < 2 ^ 31"
  shows "store_inv (ram_med bps) (ram_cache bps lim m)" and "cview (ram_med bps) (ram_cache bps lim m) = ram_med bps m"
    and "c_endOfPartition (ram_cache bps lim m) = lim" and "c_bytesPerSector (ram_cache bps lim m) = of_nat bps"
proof -
  have bps: "unat (of_nat bps :: u32) = bps" using assms by (simp add: unat_of_nat take_bit_nat_eq_self)
  have geo: "geometry_ok (ram_cache bps lim m)"
    using assms bps by (simp add: geometry_ok_def ram_cache_def)
  have disc: "disc_ok (c_disc (ram_cache bps lim m)) (ram_med bps) (unat (c_bytesPerSector (ram_cache bps lim m)))"
    using ram_disc_ok by (simp add: ram_cache_def bps)
  have entries: "e_sector e = CACHE_FREE \<and> e_count e = 0 \<and> \<not> e_dirty e \<and> length (e_cache e) =
      unat (c_sectorsPerPage (ram_cache bps lim m)) * unat (c_bytesPerSector (ram_cache bps lim m))"
    if "e \<in> set (c_cacheEntries (ram_cache bps lim m))" for e
    using that bps by (auto simp: ram_cache_def new_entry_def)
  show "store_inv (ram_med bps) (ram_cache bps lim m)"
    using free_cache_inv(1) [OF disc geo entries] ram_disc_reliable [of bps]
    by (simp add: store_inv_def) (simp add: ram_cache_def)
  show "cview (ram_med bps) (ram_cache bps lim m) = ram_med bps m"
    using free_cache_inv(2) [OF disc geo entries] by (simp add: ram_cache_def)
  show "c_endOfPartition (ram_cache bps lim m) = lim" "c_bytesPerSector (ram_cache bps lim m) = of_nat bps"
    by (simp_all add: ram_cache_def)
qed

section \<open>A FAT16 partition on it\<close>

text \<open>Sectors of eight bytes; the table takes sectors one and two and has room for eight entries,
  the data region starts at sector four, a cluster is one sector. On \<open>ram16\<close> the clusters 2, 3 and 4 are a chain.\<close>

definition ram16 :: ram where
  "ram16 s = (if s = 1 then [0xF8, 0xFF, 0xFF, 0xFF, 3, 0, 4, 0]
     else if s = 2 then [0xFF, 0xFF, 0, 0, 0, 0, 0, 0]
     else if s = 4 then [10, 11, 12, 13, 14, 15, 16, 17] else if s = 5 then [20, 21, 22, 23, 24, 25, 26, 27]
     else if s = 6 then [30, 31, 32, 33, 34, 35, 36, 37] else [])"

definition ram_part_on :: "ram \<Rightarrow> u32 \<Rightarrow> u32 \<Rightarrow> u32 \<Rightarrow> ram partition" where
  "ram_part_on m lastc first free = \<lparr>p_disc = ram_disc 8, p_cache = ram_cache 8 16 m, p_filesysType = FS_FAT16,
     p_totalSize = 0, p_rootDirStart = 3, p_rootDirCluster = 0, p_numberOfSectors = 16, p_dataStart = 4,
     p_bytesPerSector = 8, p_sectorsPerCluster = 1, p_bytesPerCluster = 8, p_fsInfoSector = 0,
     p_fat = \<lparr>fat_fatStart = 1, fat_sectorsPerFat = 2, fat_lastCluster = lastc, fat_firstFree = first,
       fat_numberFreeCluster = free, fat_numberLastAllocCluster = 0\<rparr>,
     p_cwdCluster = 0, p_openFileCount = 0, p_firstOpenFile = None, p_readOnly = False, p_label = []\<rparr>"

abbreviation ram_part :: "u32 \<Rightarrow> u32 \<Rightarrow> u32 \<Rightarrow> ram partition" where
  "ram_part \<equiv> ram_part_on ram16"

abbreviation med8 :: "ram \<Rightarrow> sec_t \<Rightarrow> u8 list" where
  "med8 \<equiv> ram_med 8"

lemma ram_part_ok:
  assumes "lastc = 4 \<or> lastc = 6"
  shows "part_ok med8 (ram_part_on m lastc first free)" and "data_ok (ram_part_on m lastc first free)"
proof -
  have st: "store_inv med8 (ram_cache 8 16 m)" and lim: "c_endOfPartition (ram_cache 8 16 m) = 16"
    "c_bytesPerSector (ram_cache 8 16 m) = 8"
    using ram_cache_store [of 8 16 m] by simp_all
  show "part_ok med8 (ram_part_on m lastc first free)"
    using assms by (auto simp: part_ok_def st ram_part_on_def fat_wf_def lim readable_def entry_pos_def entry_len_def
        eof_limit_def CLUSTER_FIRST_def)
  show "data_ok (ram_part_on m lastc first free)"
    using assms by (auto simp: data_ok_def ram_part_on_def lim)
qed

lemma ram_valid: "FAT_fat_isValidCluster (ram_part_on m lastc first free) c \<longleftrightarrow> 2 \<le> c \<and> c \<le> lastc"
  by (simp add: FAT_fat_isValidCluster_def ram_part_on_def CLUSTER_FIRST_def)

lemma ram_table:
  "fat_table med8 (ram_part lastc first free) 2 = 3" "fat_table med8 (ram_part lastc first free) 3 = 4"
  "fat_table med8 (ram_part lastc first free) 4 = CLUSTER_EOF" "fat_table med8 (ram_part lastc first free) 5 = CLUSTER_FREE"
  "fat_table med8 (ram_part lastc first free) 6 = CLUSTER_FREE"
proof -
  have view: "cview med8 (ram_cache 8 16 ram16) = med8 ram16"
    using ram_cache_store(2) [of 8 16 ram16] by simp
  note eval = fat_table_def pview_def view readable_def entry_pos_def entry_len_def raw_entry_def link_of_def eof_limit_def
    fat_bytes_def ram_part_on_def cluster_defs le_value_def u8array_to_u16_def ram_med_def ram16_def upt_rec
  show "fat_table med8 (ram_part lastc first free) 2 = 3" by (simp add: eval)
  show "fat_table med8 (ram_part lastc first free) 3 = 4" by (simp add: eval)
  show "fat_table med8 (ram_part lastc first free) 4 = CLUSTER_EOF" by (simp add: eval)
  show "fat_table med8 (ram_part lastc first free) 5 = CLUSTER_FREE" by (simp add: eval)
  show "fat_table med8 (ram_part lastc first free) 6 = CLUSTER_FREE" by (simp add: eval)
qed

lemma ram_chain:
  assumes "lastc = 4 \<or> lastc = 6"
  shows "chain (fat_table med8 (ram_part lastc first free)) (FAT_fat_isValidCluster (ram_part lastc first free)) [2, 3, 4]"
  using assms by (auto simp: ram_table ram_valid)

lemma word_interval: "{c :: u32. 2 \<le> c \<and> c \<le> 6} = {2, 3, 4, 5, 6}"
proof -
  have "c \<in> {2, 3, 4, 5, 6}" if "2 \<le> c" "c \<le> 6" for c :: u32
  proof -
    have "unat c = 2 \<or> unat c = 3 \<or> unat c = 4 \<or> unat c = 5 \<or> unat c = 6"
      using that by (simp add: word_le_nat_alt) arith
    then show ?thesis by (auto simp: word_eq_iff_unat_eq)
  qed
  then show ?thesis by auto
qed

lemma ram_alloc_inv: "alloc_inv med8 (ram_part 6 5 2) [[2, 3, 4]]"
proof -
  have "c \<in> {2, 3, 4}" if "2 \<le> c" "c \<le> 6" "fat_table med8 (ram_part 6 5 2) c \<noteq> CLUSTER_FREE" for c
  proof -
    have "c = 2 \<or> c = 3 \<or> c = 4 \<or> c = 5 \<or> c = 6" using that(1,2) word_interval by blast
    with that(3) show ?thesis by (auto simp: ram_table)
  qed
  then have "forest (fat_table med8 (ram_part 6 5 2)) (FAT_fat_isValidCluster (ram_part 6 5 2)) [[2, 3, 4]]"
    using ram_chain [of 6 5 2] by (simp add: forest_def ram_table ram_valid)
  moreover have "card (clusters (ram_part 6 5 2)) = 5"
    by (simp add: clusters_def ram_valid word_interval)
  ultimately show ?thesis
    using ram_part_ok(1) [of 6 ram16 5 2] by (simp add: alloc_inv_def table_inv_def) (simp add: ram_part_on_def)
qed

end
