(* ===== verification/CacheTheorems.thy ===== *)
theory CacheTheorems
  imports CacheTrace RamDisc
begin

text \<open>The properties of the sector cache, each with an application to the disc in memory.\<close>

section \<open>Replacement\<close>

lemma getPage_scan_free:
  assumes "getPage_scan es s i True used acc = Inr r"
  shows "r = (True, used)"
  using assms by (induction es arbitrary: i) (auto split: if_splits)

lemma getPage_scan_victim:
  assumes "getPage_scan es s i False used acc = Inr (free, v)"
  shows "if free then \<exists>k < length es. v = i + k \<and> e_sector (es ! k) = CACHE_FREE \<and>
      (\<forall>j < k. e_sector (es ! j) \<noteq> CACHE_FREE)
    else (\<forall>e \<in> set es. e_sector e \<noteq> CACHE_FREE) \<and>
      (v = used \<and> (\<forall>e \<in> set es. acc \<le> e_last_access e) \<or>
       (\<exists>k < length es. v = i + k \<and> e_last_access (es ! k) \<le> acc \<and>
          (\<forall>e \<in> set es. e_last_access (es ! k) \<le> e_last_access e)))"
  using assms
proof (induction es arbitrary: i used acc)
  case (Cons e es)
  from Cons.prems have miss: "\<not> holds e s" by (auto split: if_splits)
  consider (free) "e_sector e = CACHE_FREE" | (older) "e_sector e \<noteq> CACHE_FREE" "e_last_access e < acc"
    | (newer) "e_sector e \<noteq> CACHE_FREE" "acc \<le> e_last_access e" by (force simp: not_less)
  then show ?case
  proof cases
    case free
    with Cons.prems miss have "getPage_scan es s (Suc i) True i (e_last_access e) = Inr (free, v)" by simp
    from getPage_scan_free [OF this] show ?thesis using free by (intro if_P [THEN iffD2]) (auto intro!: exI [of _ 0])
  next
    case older
    with Cons.prems miss have "getPage_scan es s (Suc i) False i (e_last_access e) = Inr (free, v)" by simp
    note IH = Cons.IH [OF this]
    show ?thesis
    proof (cases free)
      case True
      with IH obtain k where "k < length es" "v = Suc i + k" "e_sector (es ! k) = CACHE_FREE"
        "\<forall>j < k. e_sector (es ! j) \<noteq> CACHE_FREE" by auto
      with older True show ?thesis by (auto intro!: exI [of _ "Suc k"] simp: less_Suc_eq_0_disj)
    next
      case False
      with IH have nf: "\<forall>e \<in> set es. e_sector e \<noteq> CACHE_FREE" by simp
      from IH False consider "v = i" "\<forall>x \<in> set es. e_last_access e \<le> e_last_access x"
        | k where "k < length es" "v = Suc i + k" "e_last_access (es ! k) \<le> e_last_access e"
          "\<forall>x \<in> set es. e_last_access (es ! k) \<le> e_last_access x" by auto
      then show ?thesis
      proof cases
        case 1
        with older nf False show ?thesis by (auto intro!: exI [of _ 0])
      next
        case (2 k)
        with older nf False show ?thesis by (auto intro!: exI [of _ "Suc k"])
      qed
    qed
  next
    case newer
    with Cons.prems miss have "getPage_scan es s (Suc i) False used acc = Inr (free, v)" by (simp add: not_less [symmetric])
    note IH = Cons.IH [OF this]
    show ?thesis
    proof (cases free)
      case True
      with IH obtain k where "k < length es" "v = Suc i + k" "e_sector (es ! k) = CACHE_FREE"
        "\<forall>j < k. e_sector (es ! j) \<noteq> CACHE_FREE" by auto
      with newer True show ?thesis by (auto intro!: exI [of _ "Suc k"] simp: less_Suc_eq_0_disj)
    next
      case False
      with IH have nf: "\<forall>e \<in> set es. e_sector e \<noteq> CACHE_FREE" by simp
      from IH False consider "v = used" "\<forall>x \<in> set es. acc \<le> e_last_access x"
        | k where "k < length es" "v = Suc i + k" "e_last_access (es ! k) \<le> acc"
          "\<forall>x \<in> set es. e_last_access (es ! k) \<le> e_last_access x" by auto
      then show ?thesis
      proof cases
        case 1
        with newer nf False show ?thesis by auto
      next
        case (2 k)
        with newer nf False show ?thesis by (auto intro!: exI [of _ "Suc k"])
      qed
    qed
  qed
qed simp

lemma getPage_load_index: "getPage_load c s u = Some (Some v, c') \<Longrightarrow> v = u"
  by (auto simp: getPage_load_def Let_def accessTime_simp bind_eq_Some_conv split: if_splits prod.splits)

text \<open>The page a miss loads into: the first free one, else one that was not used for longest.\<close>

lemma getPage_victim:
  assumes miss: "\<forall>e \<in> set (c_cacheEntries c). \<not> holds e s"
    and get: "FAT_cache_getPage c s = Some (Some v, c')"
  shows "v < length (c_cacheEntries c)"
    and "(\<exists>e \<in> set (c_cacheEntries c). e_sector e = CACHE_FREE) \<Longrightarrow> e_sector (c_cacheEntries c ! v) = CACHE_FREE"
    and "(\<forall>e \<in> set (c_cacheEntries c). e_sector e \<noteq> CACHE_FREE) \<Longrightarrow>
      \<forall>e \<in> set (c_cacheEntries c). e_last_access (c_cacheEntries c ! v) \<le> e_last_access e"
proof -
  let ?es = "c_cacheEntries c"
  obtain free u where scan: "getPage_scan ?es s 0 False 0 UINT_MAX = Inr (free, u)"
  proof (cases "getPage_scan ?es s 0 False 0 UINT_MAX")
    case (Inl i)
    then show thesis using getPage_scan_Inl [OF Inl] miss nth_mem [of i ?es] by auto
  next
    case (Inr r)
    then show thesis using that by (cases r) auto
  qed
  then have u: "u < length ?es" using get by (auto simp: FAT_cache_getPage_def split: if_splits)
  have "v = u"
    using get u scan by (auto simp: FAT_cache_getPage_def split: if_splits prod.splits intro: getPage_load_index)
  show "v < length ?es" using u \<open>v = u\<close> by simp
  note vic = getPage_scan_victim [OF scan]
  show "e_sector (?es ! v) = CACHE_FREE" if "\<exists>e \<in> set ?es. e_sector e = CACHE_FREE"
    using vic that \<open>v = u\<close> by (auto split: if_splits)
  show "\<forall>e \<in> set ?es. e_last_access (?es ! v) \<le> e_last_access e" if "\<forall>e \<in> set ?es. e_sector e \<noteq> CACHE_FREE"
  proof -
    have "\<not> free" using vic that by (auto split: if_splits dest: nth_mem)
    with vic consider "u = 0" "\<forall>e \<in> set ?es. UINT_MAX \<le> e_last_access e"
      | "\<forall>e \<in> set ?es. e_last_access (?es ! u) \<le> e_last_access e" by auto
    then show ?thesis
    proof cases
      case 1
      then show ?thesis using order_trans [OF UINT_MAX_top] by blast
    qed (simp add: \<open>v = u\<close>)
  qed
qed


section \<open>The properties\<close>

text \<open>C2: refinement. Any sequence of partial and whole sector reads and writes, flushes and
  invalidations inside the partition returns what the same sequence returns on an array of
  sectors, whatever pages it loads and evicts; destroying the cache afterwards leaves that array
  on the disc.\<close>

theorem cache_refines_array:
  assumes st: "store_inv med c" and fits: "list_all (op_fits (unat (c_bytesPerSector c)) (c_endOfPartition c)) ops"
  shows "\<exists>rs a c'. array_ops (unat (c_bytesPerSector c)) (cview med c) ops = (rs, a) \<and>
    cache_ops c ops = Some (rs, c') \<and> med (FAT_cache_destructor c') = a"
proof -
  obtain c' where c': "cache_ops c ops = Some (fst (array_ops (unat (c_bytesPerSector c)) (cview med c) ops), c')"
    "shows_same med c (snd (array_ops (unat (c_bytesPerSector c)) (cview med c) ops)) c'"
    using cache_ops_refine [OF st fits] by blast
  then have "cache_inv med c'" "disc_reliable (c_disc c') (unat (c_endOfPartition c'))"
    unfolding shows_same_def store_inv_def by blast+
  then have "med (FAT_cache_destructor c') = cview med c'" by (rule destructor_spec)
  with c' show ?thesis by (simp add: shows_same_def prod_eq_iff)
qed

text \<open>Two pages of eight sectors, and operations that touch three of them.\<close>

definition demo_ops :: "cache_op list" where
  "demo_ops = [Write_part 3 1 2 [7, 8, 9], Write_run 7 2 [1, 1, 1, 1, 2, 2, 2, 2], Erase_write 17 0 1 [5],
     Flush, Read_part 3 0 4, Read_run 7 2, Invalidate, Read_part 17 0 2]"

theorem cache_refines_array_witness:
  "\<exists>c'. cache_ops (ram_cache 4 40 (\<lambda>s. [6])) demo_ops = Some
    ([Done, Done, Done, Done, Bytes [6, 7, 8, 0], Bytes [1, 1, 1, 1, 2, 2, 2, 2], Done, Bytes [5, 0]], c')"
proof -
  note rc = ram_cache_store [of 4 40 "\<lambda>s. [6]", simplified]
  have fits: "list_all (op_fits (unat (c_bytesPerSector (ram_cache 4 40 (\<lambda>s. [6])))) (c_endOfPartition (ram_cache 4 40 (\<lambda>s. [6])))) demo_ops"
    by (simp add: rc demo_ops_def op_fits_def)
  have two: "[0..<2] = [0, 1 :: nat]" by (simp add: upt_rec)
  have "fst (array_ops 4 (ram_med 4 (\<lambda>s. [6])) demo_ops) =
      [Done, Done, Done, Done, Bytes [6, 7, 8, 0], Bytes [1, 1, 1, 1, 2, 2, 2, 2], Done, Bytes [5, 0]]"
    by (simp add: demo_ops_def array_op_def ram_med_def slice_def splice_def write_run_def sectors_of_def two)
  with cache_refines_array [OF rc(1) fits] show ?thesis by (auto simp: rc)
qed

text \<open>A partial read inside the partition returns the bytes the cache shows there and
  changes nothing the cache shows. It may instead report a failure, but only when the driver
  fails transfers inside the partition.\<close>

theorem partial_read_returns_view:
  assumes "cache_inv med c" and "s < c_endOfPartition c" and "unat off + unat sz \<le> unat (c_bytesPerSector c)"
  shows "\<exists>r c'. FAT_cache_readPartialSector c s off sz = Some (r, c') \<and>
    (case r of Some b \<Rightarrow> b = slice (cview med c s) (unat off) (unat sz) \<and> cache_inv med c' \<and> cview med c' = cview med c
     | None \<Rightarrow> \<not> disc_reliable (c_disc c) (unat (c_endOfPartition c)))"
  using readPartialSector_spec [OF assms] by (auto simp: read_result_def kept_def failed_def)

theorem partial_read_returns_view_witness:
  "\<exists>c'. FAT_cache_readPartialSector (ram_cache 8 16 ram16) 2 1 3 = Some (Some [0xFF, 0, 0], c')"
proof -
  note rc = ram_cache_store [of 8 16 ram16, simplified]
  have inv: "cache_inv (ram_med 8) (ram_cache 8 16 ram16)" using rc(1) by (simp add: store_inv_def)
  have "slice (ram_med 8 ram16 2) 1 3 = [0xFF, 0, 0]" by (simp add: slice_def ram_med_def ram16_def)
  moreover have "disc_reliable (c_disc (ram_cache 8 16 ram16)) 16" using rc(1) by (simp add: store_inv_def rc(3))
  ultimately show ?thesis
    using partial_read_returns_view [OF inv, of 2 1 3] by (auto simp: rc split: option.splits)
qed

text \<open>A partial write inside the partition changes exactly the bytes it names of what
  the cache shows. It may instead report a failure, when the driver fails transfers inside the
  partition; a driver whose failed reads leave the buffer alone then loses nothing.\<close>

theorem partial_write_changes_bytes:
  assumes "cache_inv med c" and "s < c_endOfPartition c" and "unat off + unat sz \<le> unat (c_bytesPerSector c)"
    and "unat sz \<le> length buffer"
  shows "\<exists>ok c'. FAT_cache_writePartialSector c buffer s off sz = Some (ok, c') \<and>
    (if ok then cache_inv med c' \<and>
       cview med c' = (cview med c)(s := splice (cview med c s) (unat off) (take (unat sz) buffer))
     else \<not> disc_reliable (c_disc c) (unat (c_endOfPartition c)) \<and>
       (disc_quiet (c_disc c) \<longrightarrow> cache_inv med c' \<and> cview med c' = cview med c))"
  using writePartialSector_spec [OF assms] by (auto simp: write_result_def kept_def failed_def)

theorem partial_write_changes_bytes_witness:
  "\<exists>c'. FAT_cache_writePartialSector (ram_cache 8 16 ram16) [5, 6] 2 1 2 = Some (True, c') \<and>
    cview (ram_med 8) c' 2 = [0xFF, 5, 6, 0, 0, 0, 0, 0] \<and> cview (ram_med 8) c' 1 = ram16 1"
proof -
  note rc = ram_cache_store [of 8 16 ram16, simplified]
  have inv: "cache_inv (ram_med 8) (ram_cache 8 16 ram16)" using rc(1) by (simp add: store_inv_def)
  have rel: "disc_reliable (c_disc (ram_cache 8 16 ram16)) 16" using rc(1) by (simp add: store_inv_def rc(3))
  have "splice (ram_med 8 ram16 2) 1 [5, 6] = [0xFF, 5, 6, 0, 0, 0, 0, 0]" "ram_med 8 ram16 1 = ram16 1"
    by (simp_all add: splice_def ram_med_def ram16_def)
  with partial_write_changes_bytes [OF inv, of 2 1 2 "[5, 6]"] rel show ?thesis
    by (auto simp: rc split: if_splits)
qed

text \<open>A little endian value of one, two or four bytes that was written is read back,
  cut to its width.\<close>

theorem value_roundtrip:
  assumes "store_inv med c" and "s < c_endOfPartition c" and "unat off + unat n \<le> unat (c_bytesPerSector c)"
    and "unat n \<in> {1, 2, 4}" and "FAT_cache_writeLittleEndianValue c v s off n = Some (r, c')"
  shows "\<exists>c''. FAT_cache_readLittleEndianValue c' s off n =
    Some (Some (if unat n = 4 then v else take_bit (8 * unat n) v), c'')"
  using assms by (rule store.vget_after_vput)

theorem value_roundtrip_witness:
  "\<exists>c' c''. FAT_cache_writeLittleEndianValue (ram_cache 8 16 ram16) 0x12345 9 6 2 = Some (True, c') \<and>
    FAT_cache_readLittleEndianValue c' 9 6 2 = Some (Some 0x2345, c'')"
proof -
  note rc = ram_cache_store [of 8 16 ram16, simplified]
  obtain c' where c': "FAT_cache_writeLittleEndianValue (ram_cache 8 16 ram16) 0x12345 9 6 2 = Some (True, c')"
    using store.vput_law [OF rc(1), of 9 6 2 "0x12345"] by (auto simp: rc)
  have cut: "take_bit 16 (0x12345 :: u32) = 0x2345" by (simp add: take_bit_eq_mod)
  show ?thesis using value_roundtrip [OF rc(1) _ _ _ c'] c' cut by (auto simp: rc)
qed

text \<open>A flush changes nothing the cache shows. When it reports success no page is dirty
  and the disc holds what the cache shows; it fails only when the driver does.\<close>

theorem flush_writes_view:
  assumes "cache_inv med c"
  shows "\<exists>ok c'. FAT_cache_flush c = (ok, c') \<and> cache_inv med c' \<and> cview med c' = cview med c \<and>
    (if ok then med (c_medium c') = cview med c \<and> (\<forall>e \<in> set (c_cacheEntries c'). \<not> e_dirty e)
     else \<not> disc_reliable (c_disc c) (unat (c_endOfPartition c)))"
proof -
  obtain ok c' where fl: "FAT_cache_flush c = (ok, c')" by fastforce
  from flush_spec [OF assms fl] fl show ?thesis by (auto simp: kept_def)
qed

theorem flush_writes_view_witness:
  "\<exists>c c'. FAT_cache_writePartialSector (ram_cache 8 16 ram16) [5, 6] 2 1 2 = Some (True, c) \<and>
    FAT_cache_flush c = (True, c') \<and> ram_med 8 (c_medium c') 2 = [0xFF, 5, 6, 0, 0, 0, 0, 0]"
proof -
  note rc = ram_cache_store [of 8 16 ram16, simplified]
  obtain c where c: "FAT_cache_writePartialSector (ram_cache 8 16 ram16) [5, 6] 2 1 2 = Some (True, c)"
    "store_inv (ram_med 8) c"
    "cview (ram_med 8) c = (ram_med 8 ram16)(2 := splice (ram_med 8 ram16 2) 1 [5, 6])"
    using store.put_law [OF rc(1), of 2 1 2 "[5, 6]"] by (auto simp: rc)
  have "splice (ram_med 8 ram16 2) 1 [5, 6] = [0xFF, 5, 6, 0, 0, 0, 0, 0]"
    by (simp add: splice_def ram_med_def ram16_def)
  then show ?thesis using flush_writes_view [of "ram_med 8" c] c by (auto simp: store_inv_def split: if_splits)
qed

text \<open>C38: functional. On a miss the page loaded replaces a free page when there is one, and otherwise one
  whose last access is the oldest.\<close>

theorem miss_replaces_oldest:
  assumes "\<forall>e \<in> set (c_cacheEntries c). \<not> holds e s" and "FAT_cache_getPage c s = Some (Some v, c')"
  shows "v < length (c_cacheEntries c) \<and>
    (if \<exists>e \<in> set (c_cacheEntries c). e_sector e = CACHE_FREE then e_sector (c_cacheEntries c ! v) = CACHE_FREE
     else \<forall>e \<in> set (c_cacheEntries c). e_last_access (c_cacheEntries c ! v) \<le> e_last_access e)"
  using getPage_victim [OF assms] by auto

theorem miss_replaces_oldest_witness:
  "\<exists>v c'. FAT_cache_getPage (ram_cache 8 16 ram16) 2 = Some (Some v, c') \<and> v < 2 \<and>
    e_sector (c_cacheEntries (ram_cache 8 16 ram16) ! v) = CACHE_FREE"
proof -
  note rc = ram_cache_store [of 8 16 ram16, simplified]
  have inv: "cache_inv (ram_med 8) (ram_cache 8 16 ram16)"
    and rel: "disc_reliable (c_disc (ram_cache 8 16 ram16)) 16"
    using rc(1) by (simp_all add: store_inv_def rc(3))
  have free: "\<forall>e \<in> set (c_cacheEntries (ram_cache 8 16 ram16)). \<not> holds e 2" "length (c_cacheEntries (ram_cache 8 16 ram16)) = 2"
    "\<exists>e \<in> set (c_cacheEntries (ram_cache 8 16 ram16)). e_sector e = CACHE_FREE"
    by (simp_all add: ram_cache_def new_entry_def holds_def CACHE_FREE_def)
  obtain v c' where "FAT_cache_getPage (ram_cache 8 16 ram16) 2 = Some (Some v, c')"
    using getPage_result [OF inv, of 2] rel by (auto simp: rc(3) failed_def split: option.splits)
  with miss_replaces_oldest [OF free(1) this] free show ?thesis by auto
qed

text \<open>C40: safety. A transfer that starts at the end of the partition, when it lies on a page boundary, asks the driver
  for zero sectors, which the contract of the driver in \<open>disc.h\<close> rules out (at least one). So it depends on the driver
  what becomes of it: the transfer fails if the driver refuses such a request, and it never ends if the driver serves it,
  because the page loaded is empty and the loop makes no progress. (The pages in the cache lie in front of the end, and
  writes there succeed.)\<close>

theorem transfer_at_end:
  assumes "stuck_at served s c" and "n \<noteq> 0"
  shows "if served then FAT_cache_readSectors c s n = None
    else \<exists>c'. FAT_cache_readSectors c s n = Some (False, [], c')"
  using assms readSectors_stuck [of s c n "[]"] readSectors_refused [of s c n "[]"]
  by (cases served) (simp_all add: FAT_cache_readSectors_def)

text \<open>The disc in memory serves the request; a driver that keeps to the contract and refuses it makes the transfer fail.\<close>

definition strict_disc :: "ram disc_interface" where
  "strict_disc = (ram_disc 8)\<lparr>readSectors := \<lambda>m s n. if n = 0 then (False, [], m) else readSectors (ram_disc 8) m s n\<rparr>"

theorem transfer_at_end_witness:
  "FAT_cache_readSectors (ram_cache 8 16 ram16) 16 1 = None \<and>
   (\<exists>c'. FAT_cache_readSectors ((ram_cache 8 16 ram16)\<lparr>c_disc := strict_disc\<rparr>) 16 1 = Some (False, [], c'))"
proof -
  have "stuck_at True 16 (ram_cache 8 16 ram16)"
    by (simp add: stuck_at_def stuck_entry_def ram_cache_def new_entry_def holds_def CACHE_FREE_def) (simp add: ram_disc_def)
  moreover have "stuck_at False 16 ((ram_cache 8 16 ram16)\<lparr>c_disc := strict_disc\<rparr>)"
    by (simp add: stuck_at_def stuck_entry_def ram_cache_def new_entry_def holds_def CACHE_FREE_def)
      (simp add: strict_disc_def ram_disc_def)
  ultimately show ?thesis using transfer_at_end [of True 16 _ 1] transfer_at_end [of False 16 _ 1] unfolding if_True if_False by (intro conjI) simp_all
qed

end
