(* ===== verification/FatTheorems.thy ===== *)
theory FatTheorems
  imports RamDisc
begin

text \<open>The properties of the file allocation table and its allocator, each with an application to
  the partition in memory.\<close>

section \<open>The allocator over any sequence of calls\<close>

text \<open>C3: invariant. However the library creates, extends, cuts and deletes chains, every cluster in
  use is on exactly one chain, every chain ends in the end mark and \<open>firstFree\<close> stays inside the
  table, as long as no allocation fails; a counter of free clusters that was exact stays exact.\<close>

theorem chains_stay_disjoint:
  assumes "alloc_step\<^sup>*\<^sup>* (p, css) (p', css')" and "table_inv med p css"
  shows "table_inv med p' css' \<and> distinct (concat css') \<and>
    (\<forall>c. FAT_fat_isValidCluster p' c \<longrightarrow> (fat_table med p' c \<noteq> CLUSTER_FREE) = (c \<in> set (concat css'))) \<and>
    (alloc_inv med p css \<longrightarrow> alloc_inv med p' css' \<and> unat (fat_numberFreeCluster (p_fat p')) =
      card {c. FAT_fat_isValidCluster p' c \<and> fat_table med p' c = CLUSTER_FREE})"
proof -
  have inv: "table_inv med p' css'" and exact: "alloc_inv med p css \<Longrightarrow> alloc_inv med p' css'"
    using alloc_steps_inv [OF assms(1), of med] assms(2) by simp_all
  note f = table_invD(2) [OF inv] and V = proper_valid [OF table_invD(1) [OF inv]]
  show ?thesis
    using inv forestD(3) [OF f] free_count [OF exact] exact forest_used(2) [OF f V] forestD(4) [OF f] by auto
qed

theorem chains_stay_disjoint_witness:
  "\<exists>p1 p2 n. FAT_fat_trimChain (ram_part 6 5 2) 2 2 = Some (3, p1) \<and>
    FAT_fat_linkFreeCluster p1 3 = Some (n, p2) \<and> alloc_inv med8 p2 [[2, 3, n]]"
proof -
  have chn: "chain (fat_table med8 (ram_part 6 5 2)) (FAT_fat_isValidCluster (ram_part 6 5 2)) [2, 3, 4]"
    by (rule ram_chain) simp
  obtain p1 where p1: "FAT_fat_trimChain (ram_part 6 5 2) 2 2 = Some (3, p1)" "fs_step med8 (ram_part 6 5 2) p1"
    using trimChain_spec [OF ram_part_ok(1) [where m = ram16] chn, of 2] by auto
  then have s1: "alloc_step (ram_part 6 5 2, [[2, 3, 4]]) (p1, [[2, 3]])"
    using alloc_step.truncate [of "ram_part 6 5 2" "[2, 3, 4]" 2 3 p1 "[]" "[]"] by simp
  then have inv1: "alloc_inv med8 p1 [[2, 3]]"
    using chains_stay_disjoint [OF r_into_rtranclp [of alloc_step, OF s1]] ram_alloc_inv
      alloc_invD(6) [OF ram_alloc_inv] by simp
  have v3: "FAT_fat_isValidCluster p1 3 \<and> fat_table med8 p1 3 = CLUSTER_EOF"
    using alloc_invD(2) [OF inv1] by (simp add: forest_def)
  have "\<exists>n p2. FAT_fat_linkFreeCluster p1 3 = Some (n, p2) \<and> n \<noteq> CLUSTER_ERROR"
    using alloc_invD(6) [OF inv1] disjI2 [OF v3]
  proof (cases rule: linkFree_cases)
    case (taken n p')
    then show ?thesis using ft.valid_law [OF alloc_invD(1) [OF inv1], of n] by auto
  next
    case (none p')
    have "clusters p1 = clusters (ram_part 6 5 2)"
      unfolding clusters_def fs_stepD(16) [OF p1(2)] ..
    then have "card (clusters p1) = 5" by (simp add: clusters_def ram_valid word_interval)
    then have "unat (fat_numberFreeCluster (p_fat p1)) = 3" using alloc_invD(4) [OF inv1] by simp
    then show ?thesis using full_count [OF inv1] none by auto
  qed
  then obtain n p2 where p2: "FAT_fat_linkFreeCluster p1 3 = Some (n, p2)" "n \<noteq> CLUSTER_ERROR" by blast
  then have s2: "alloc_step (p1, [[2, 3]]) (p2, [[2, 3, n]])"
    using alloc_step.extend [of p1 "[2, 3]" n p2 "[]" "[]"] by simp
  have "alloc_step\<^sup>*\<^sup>* (ram_part 6 5 2, [[2, 3, 4]]) (p2, [[2, 3, n]])"
    by (rule converse_rtranclp_into_rtranclp [of alloc_step, OF s1 r_into_rtranclp [of alloc_step, OF s2]])
  from chains_stay_disjoint [OF this alloc_invD(6) [OF ram_alloc_inv]] ram_alloc_inv p1 p2 show ?thesis by auto
qed

text \<open>C20: functional. On a table in order an allocation, for a new chain or behind the last cluster of
  one, succeeds exactly when some cluster is free, and then it takes a free cluster, links it and ends
  the chain there; an exact counter of free clusters is zero exactly when it fails.\<close>

theorem allocation_succeeds_iff_free:
  assumes "table_inv med p css"
    and "c = CLUSTER_FREE \<or> FAT_fat_isValidCluster p c \<and> fat_table med p c = CLUSTER_EOF"
  shows "\<exists>n p'. FAT_fat_linkFreeCluster p c = Some (n, p') \<and> part_ok med p' \<and>
    (if \<exists>d. FAT_fat_isValidCluster p d \<and> fat_table med p d = CLUSTER_FREE
     then FAT_fat_isValidCluster p n \<and> fat_table med p n = CLUSTER_FREE \<and> fat_table med p' =
       (if c = CLUSTER_FREE then fat_table med p else (fat_table med p)(c := n))(n := CLUSTER_EOF)
     else n = CLUSTER_ERROR \<and> fat_table med p' = fat_table med p) \<and>
    (alloc_inv med p css \<longrightarrow> (n = CLUSTER_ERROR) = (fat_numberFreeCluster (p_fat p) = 0))"
  using assms
proof (cases rule: linkFree_cases)
  case (taken n p')
  then have "\<exists>d. FAT_fat_isValidCluster p d \<and> fat_table med p d = CLUSTER_FREE" "\<not> full med p"
    by (auto simp: full_def)
  moreover have "n \<noteq> CLUSTER_ERROR" using ft.valid_law [OF table_invD(1) [OF assms(1)] taken(6)] by blast
  ultimately show ?thesis using taken full_count [of med p css] by auto
next
  case (none p')
  then have "\<not> (\<exists>d. FAT_fat_isValidCluster p d \<and> fat_table med p d = CLUSTER_FREE)" by (auto simp: full_def)
  then show ?thesis using none full_count [of med p css] by auto
qed

theorem allocation_succeeds_iff_free_witness:
  "\<exists>n p'. FAT_fat_linkFreeCluster (ram_part 6 5 2) 4 = Some (n, p') \<and> fat_table med8 p' 4 = n \<and>
    fat_table med8 p' n = CLUSTER_EOF"
proof -
  have "(4 :: u32) = CLUSTER_FREE \<or> FAT_fat_isValidCluster (ram_part 6 5 2) 4 \<and> fat_table med8 (ram_part 6 5 2) 4 = CLUSTER_EOF"
    by (simp add: ram_table ram_valid)
  moreover have "\<exists>d. FAT_fat_isValidCluster (ram_part 6 5 2) d \<and> fat_table med8 (ram_part 6 5 2) d = CLUSTER_FREE"
    by (rule exI [of _ 5]) (simp add: ram_table ram_valid)
  ultimately obtain n p' where
    "FAT_fat_linkFreeCluster (ram_part 6 5 2) 4 = Some (n, p')" "fat_table med8 (ram_part 6 5 2) n = CLUSTER_FREE"
    "fat_table med8 p' = (fat_table med8 (ram_part 6 5 2))(4 := n, n := CLUSTER_EOF)"
    using allocation_succeeds_iff_free [OF alloc_invD(6) [OF ram_alloc_inv], of 4] by (auto simp: CLUSTER_FREE_def)
  moreover from this have "n \<noteq> 4" by (auto simp: ram_table cluster_defs)
  ultimately show ?thesis by auto
qed

section \<open>Single entries\<close>

text \<open>Reading the entry of a cluster of a FAT12, FAT16 or FAT32 table yields the link
  the table has there, with every end mark as \<open>CLUSTER_EOF\<close>, and changes nothing.\<close>

theorem next_cluster_reads_table:
  assumes "part_ok med p" and "c = CLUSTER_FREE \<or> readable p c"
  shows "\<exists>p'. FAT_fat_nextCluster p c = Some (fat_table med p c, p') \<and> part_ok med p' \<and> pview med p' = pview med p"
  using nextCluster_spec [OF assms] by (auto simp: pkept_def)

theorem next_cluster_reads_table_witness: "\<exists>p'. FAT_fat_nextCluster (ram_part 6 5 2) 3 = Some (4, p')"
proof -
  have "readable (ram_part 6 5 2) 3" by (simp add: readable_def ram_part_on_def entry_pos_def entry_len_def)
  with next_cluster_reads_table [OF ram_part_ok(1) [where m = ram16], of 6 3 5 2] show ?thesis by (auto simp: ram_table)
qed

text \<open>C19: roundtrip. Writing the entry of a cluster is read back, the entries of all other clusters
  keep their links (the other half of a shared FAT12 byte included), and nothing outside the table
  changes.\<close>

theorem fat_write_then_read:
  assumes "part_ok med p" and "FAT_fat_isValidCluster p c"
    and "v = CLUSTER_EOF \<or> v = CLUSTER_FREE \<or> FAT_fat_isValidCluster p v"
  shows "\<exists>p'. FAT_fat_writeFatEntry p c v = Some (True, p') \<and> part_ok med p' \<and>
    (\<forall>d. FAT_fat_isValidCluster p d \<longrightarrow>
      (\<exists>p''. FAT_fat_nextCluster p' d = Some (if d = c then v else fat_table med p d, p''))) \<and>
    (\<forall>s. \<not> in_range (fat_fatStart (p_fat p)) (fat_sectorsPerFat (p_fat p)) s \<longrightarrow> pview med p' s = pview med p s)"
proof -
  obtain p' where p': "FAT_fat_writeFatEntry p c v = Some (True, p')" "part_ok med p'"
    "fat_table med p' = (fat_table med p)(c := v)" "fat_step med p p'"
    by (rule ft.set_cases [OF assms])
  have "\<exists>p''. FAT_fat_nextCluster p' d = Some (if d = c then v else fat_table med p d, p'')"
    if "FAT_fat_isValidCluster p d" for d
    using ft.next_law [OF p'(2), of d] that ft.frame_valid [OF p'(4)] by (auto simp: p'(3))
  with p' show ?thesis by (auto simp: fat_step_def)
qed

theorem fat_write_then_read_witness:
  "\<exists>p' p''. FAT_fat_writeFatEntry (ram_part 6 5 2) 5 6 = Some (True, p') \<and> FAT_fat_nextCluster p' 5 = Some (6, p'')"
proof -
  have v: "FAT_fat_isValidCluster (ram_part 6 5 2) 5" "FAT_fat_isValidCluster (ram_part 6 5 2) 6"
    by (simp_all add: ram_valid)
  obtain p' where "FAT_fat_writeFatEntry (ram_part 6 5 2) 5 6 = Some (True, p')"
    "\<exists>p''. FAT_fat_nextCluster p' 5 = Some (6, p'')"
    using fat_write_then_read [OF ram_part_ok(1) [where m = ram16] v(1), of 6] v by fastforce
  then show ?thesis by blast
qed

section \<open>Chains\<close>

text \<open>C39: termination. The last cluster of a chain is found, and the walk changes nothing.\<close>

theorem last_cluster_of_chain:
  assumes "part_ok med p" and "chain (fat_table med p) (FAT_fat_isValidCluster p) (c # cs)"
  shows "\<exists>p'. FAT_fat_lastCluster p c = Some (last (c # cs), p') \<and> pview med p' = pview med p"
  using lastCluster_spec [OF assms] by (auto simp: pkept_def)

theorem last_cluster_of_chain_witness: "\<exists>p'. FAT_fat_lastCluster (ram_part 6 5 2) 2 = Some (4, p')"
  using last_cluster_of_chain [OF ram_part_ok(1) [where m = ram16] ram_chain, of 6 5 2] by auto

text \<open>On a table whose links run in a circle the walk to the last cluster never
  ends.\<close>

theorem last_cluster_of_circle_diverges:
  assumes "part_ok med p" and "c \<in> S" and "\<And>d. d \<in> S \<Longrightarrow> FAT_fat_isValidCluster p d \<and> fat_table med p d \<in> S"
  shows "FAT_fat_lastCluster p c = None"
  using assms by (rule lastCluster_diverges)

theorem last_cluster_of_circle_diverges_witness:
  "\<exists>p. FAT_fat_writeFatEntry (ram_part 6 5 2) 4 2 = Some (True, p) \<and> FAT_fat_lastCluster p 2 = None"
proof -
  obtain p where p: "FAT_fat_writeFatEntry (ram_part 6 5 2) 4 2 = Some (True, p)" "part_ok med8 p"
    "fat_table med8 p = (fat_table med8 (ram_part 6 5 2))(4 := 2)" "fat_step med8 (ram_part 6 5 2) p"
    by (rule ft.set_cases [OF ram_part_ok(1) [where m = ram16], of 6 5 2 4 2]) (simp_all add: ram_valid)
  have "FAT_fat_lastCluster p 2 = None"
    by (rule last_cluster_of_circle_diverges [OF p(2), of _ "{2, 3, 4}"])
      (auto simp: p(3) ram_table ram_valid ft.frame_valid [OF p(4)])
  with p show ?thesis by blast
qed

text \<open>C21: functional. Cutting a chain to its first \<open>n\<close> clusters returns the last of them, ends the
  chain there, frees exactly the others and counts them.\<close>

theorem trim_chain_cuts:
  assumes "part_ok med p" and "chain (fat_table med p) (FAT_fat_isValidCluster p) cs" and "0 < unat n"
  shows "\<exists>p'. FAT_fat_trimChain p (hd cs) n = Some (last (take (unat n) cs), p') \<and> part_ok med p' \<and>
    chain (fat_table med p') (FAT_fat_isValidCluster p') (take (unat n) cs) \<and>
    (\<forall>d. fat_table med p' d = (if d \<in> set (drop (unat n) cs) then CLUSTER_FREE
      else if d = last (take (unat n) cs) then CLUSTER_EOF else fat_table med p d)) \<and>
    p_fat p' = released (p_numberOfSectors p div p_sectorsPerCluster p) (drop (unat n) cs) (p_fat p)"
  using trimChain_spec [OF assms] by (elim exE conjE) (intro exI conjI allI, assumption, assumption, assumption, simp_all)

theorem trim_chain_cuts_witness:
  "\<exists>p'. FAT_fat_trimChain (ram_part 6 5 2) 2 1 = Some (2, p') \<and> fat_table med8 p' 3 = CLUSTER_FREE \<and>
    fat_table med8 p' 4 = CLUSTER_FREE \<and> unat (fat_numberFreeCluster (p_fat p')) = 4"
proof -
  have "unat (fat_numberFreeCluster (p_fat (ram_part 6 5 2))) = 2" by (simp add: ram_part_on_def)
  then have "unat (fat_numberFreeCluster (released 16 [3, 4] (p_fat (ram_part 6 5 2)))) = 4"
    using released_exact(1) [of "p_fat (ram_part 6 5 2)" 3 5 16 "[3, 4]"] by simp
  moreover have "p_numberOfSectors (ram_part 6 5 2) div p_sectorsPerCluster (ram_part 6 5 2) = 16"
    by (simp add: ram_part_on_def)
  moreover have chn: "chain (fat_table med8 (ram_part 6 5 2)) (FAT_fat_isValidCluster (ram_part 6 5 2)) [2, 3, 4]"
    by (rule ram_chain) simp
  ultimately show ?thesis using trim_chain_cuts [OF ram_part_ok(1) [where m = ram16] chn, of 1] by auto
qed

text \<open>Clearing a chain frees all its clusters and no others; for a number that is not a
  cluster it reports failure and does nothing.\<close>

theorem clear_links_frees_chain:
  assumes "part_ok med p" and "chain (fat_table med p) (FAT_fat_isValidCluster p) (c # cs)"
  shows "\<exists>p'. FAT_fat_clearLinks p c = Some (True, p') \<and> part_ok med p' \<and>
    fat_table med p' = (\<lambda>d. if d \<in> set (c # cs) then CLUSTER_FREE else fat_table med p d) \<and>
    (\<forall>s. \<not> in_range (fat_fatStart (p_fat p)) (fat_sectorsPerFat (p_fat p)) s \<longrightarrow> pview med p' s = pview med p s) \<and>
    (\<forall>d. \<not> FAT_fat_isValidCluster p d \<longrightarrow> FAT_fat_clearLinks p d = Some (False, p))"
  using clearLinks_spec [OF assms] clearLinks_invalid [of p] by (auto simp: fs_step_def)

theorem clear_links_frees_chain_witness:
  "\<exists>p'. FAT_fat_clearLinks (ram_part 6 5 2) 2 = Some (True, p') \<and> fat_table med8 p' 3 = CLUSTER_FREE"
  using clear_links_frees_chain [OF ram_part_ok(1) [where m = ram16] ram_chain, of 6 5 2] by auto

text \<open>The scan for the number of free clusters counts exactly the valid clusters whose
  entry is free; on a partition in order it agrees with the counter of the allocator.\<close>

theorem free_cluster_count:
  assumes "part_ok med p"
  shows "\<exists>n p'. FAT_fat_freeClusterCount p = Some (n, p') \<and> pview med p' = pview med p \<and>
    unat n = card {c. FAT_fat_isValidCluster p c \<and> fat_table med p c = CLUSTER_FREE} \<and>
    (\<forall>css. alloc_inv med p css \<longrightarrow> n = fat_numberFreeCluster (p_fat p))"
proof -
  obtain n p' where n: "FAT_fat_freeClusterCount p = Some (n, p')" "pkept med p p'"
    "unat n = card {c. FAT_fat_isValidCluster p c \<and> fat_table med p c = CLUSTER_FREE}"
    using freeClusterCount_spec [OF assms] by blast
  moreover have "n = fat_numberFreeCluster (p_fat p)" if "alloc_inv med p css" for css
    by (rule word_eqI_unat) (simp add: n(3) free_count [OF that])
  ultimately show ?thesis by (auto simp: pkept_def)
qed

theorem free_cluster_count_witness: "\<exists>p'. FAT_fat_freeClusterCount (ram_part 6 5 2) = Some (2, p')"
proof -
  obtain n p' where n: "FAT_fat_freeClusterCount (ram_part 6 5 2) = Some (n, p')"
    "n = fat_numberFreeCluster (p_fat (ram_part 6 5 2))"
    using free_cluster_count [OF ram_part_ok(1) [where m = ram16], of 6 5 2] ram_alloc_inv by blast
  then show ?thesis by (simp add: ram_part_on_def)
qed

section \<open>Clusters on the disc\<close>

text \<open>The sectors of different clusters are disjoint, and none of them belongs to the
  table.\<close>

theorem clusters_do_not_overlap:
  assumes "data_ok p" and "FAT_fat_isValidCluster p a" and "in_cluster p a s"
  shows "(FAT_fat_isValidCluster p b \<longrightarrow> in_cluster p b s \<longrightarrow> a = b) \<and>
    \<not> in_range (fat_fatStart (p_fat p)) (fat_sectorsPerFat (p_fat p)) s \<and> s < c_endOfPartition (p_cache p)"
proof -
  have "s < c_endOfPartition (p_cache p)"
    using clusterToSector_valid(2) [OF assms(1,2)] assms(3)
    by (simp add: in_cluster_def in_range_def word_less_nat_alt)
  with clusters_disjoint [OF assms(1,2) _ assms(3)] cluster_not_in_table [OF assms] show ?thesis by blast
qed

theorem clusters_do_not_overlap_witness:
  "in_cluster (ram_part 6 5 2) 3 5 \<and> \<not> in_cluster (ram_part 6 5 2) 4 5"
proof -
  have s: "in_cluster (ram_part 6 5 2) 3 5"
    by (simp add: in_cluster_def in_range_def FAT_fat_clusterToSector_def CLUSTER_FIRST_def ram_part_on_def)
  from clusters_do_not_overlap [OF ram_part_ok(2) [where m = ram16] _ s, of 4] s show ?thesis by (auto simp: ram_valid)
qed

text \<open>An allocation with clearing fills every sector of the new cluster with zeros and
  no other sector of the data region.\<close>

theorem cleared_cluster_is_zero:
  assumes "table_inv med p css" and "data_ok p"
    and "\<exists>d. FAT_fat_isValidCluster p d \<and> fat_table med p d = CLUSTER_FREE"
    and "c = CLUSTER_FREE \<or> FAT_fat_isValidCluster p c \<and> fat_table med p c = CLUSTER_EOF"
    and "malloc (unat (p_bytesPerSector p)) = Some block" and "length block = unat (p_bytesPerSector p)"
  shows "\<exists>n p'. FAT_fat_linkFreeClusterCleared malloc p c = Some (n, p') \<and> part_ok med p' \<and>
    FAT_fat_isValidCluster p n \<and> fat_table med p n = CLUSTER_FREE \<and> fat_table med p' n = CLUSTER_EOF \<and>
    (\<forall>s. in_cluster p n s \<longrightarrow> pview med p' s = replicate (unat (p_bytesPerSector p)) 0) \<and>
    (\<forall>s. \<not> in_cluster p n s \<longrightarrow> \<not> in_range (fat_fatStart (p_fat p)) (fat_sectorsPerFat (p_fat p)) s \<longrightarrow>
      pview med p' s = pview med p s)"
  using assms(1,4)
proof (cases rule: linkFree_cases)
  case (taken n q)
  note st = fs_stepD [OF taken(3)]
  have d: "data_ok q" using assms(2) st by (simp add: data_ok_def same_region_def)
  have cl: "in_cluster q n = in_cluster p n"
    using st by (simp add: fun_eq_iff in_cluster_def FAT_fat_clusterToSector_def)
  have "\<exists>p'. FAT_fat_linkFreeClusterCleared malloc p c = Some (n, p') \<and> pview med p' = (\<lambda>s. if in_cluster q n s
      then replicate (unat (p_bytesPerSector q)) 0 else pview med q s) \<and>
    part_ok med p' \<and> same_part q p' \<and> fat_table med p' = fat_table med q"
    by (rule linkFreeClusterCleared_spec [OF taken(1,2) d])
      (use assms(5,6) taken(6) st in simp_all)
  then obtain p' where p': "FAT_fat_linkFreeClusterCleared malloc p c = Some (n, p')"
    "pview med p' = (\<lambda>s. if in_cluster p n s then replicate (unat (p_bytesPerSector p)) 0 else pview med q s)"
    "part_ok med p'" "fat_table med p' = fat_table med q"
    unfolding cl st(7) by blast
  with taken st show ?thesis by (intro exI [of _ n] exI [of _ p']) auto
next
  case (none p')
  then show ?thesis using assms(3) by (auto simp: full_def)
qed

theorem cleared_cluster_is_zero_witness:
  "\<exists>n p'. FAT_fat_linkFreeClusterCleared (\<lambda>n. Some (replicate n 0xCC)) (ram_part 6 5 2) 4 = Some (n, p') \<and>
    fat_table med8 p' n = CLUSTER_EOF"
proof -
  have "(4 :: u32) = CLUSTER_FREE \<or> FAT_fat_isValidCluster (ram_part 6 5 2) 4 \<and> fat_table med8 (ram_part 6 5 2) 4 = CLUSTER_EOF"
    "\<exists>d. FAT_fat_isValidCluster (ram_part 6 5 2) d \<and> fat_table med8 (ram_part 6 5 2) d = CLUSTER_FREE"
    by (auto simp: ram_table ram_valid intro!: exI [of _ 5])
  with cleared_cluster_is_zero [OF alloc_invD(6) [OF ram_alloc_inv] ram_part_ok(2) [where m = ram16], of 4 "\<lambda>n. Some (replicate n 0xCC)"]
  show ?thesis by auto
qed

text \<open>C37: safety. After an allocation failed on a full partition, the next one starts behind the last
  cluster: when the table has room for one more entry there and it reads as free, the caller gets a
  cluster that does not exist, linked into its chain.\<close>

theorem allocation_past_the_end:
  assumes "part_ok med p" and "FAT_fat_isValidCluster p c" and "\<not> FAT_fat_isValidCluster p (fat_table med p c)"
    and "fat_firstFree (p_fat p) = fat_lastCluster (p_fat p) + 1"
    and "readable p (fat_lastCluster (p_fat p) + 1)" and "fat_table med p (fat_lastCluster (p_fat p) + 1) = CLUSTER_FREE"
    and "fat_lastCluster (p_fat p) + 1 < eof_limit (p_filesysType p)"
  shows "\<exists>p'. FAT_fat_linkFreeCluster p c = Some (fat_lastCluster (p_fat p) + 1, p') \<and>
    fat_lastCluster (p_fat p) + 1 \<noteq> CLUSTER_ERROR \<and> \<not> FAT_fat_isValidCluster p (fat_lastCluster (p_fat p) + 1) \<and>
    fat_table med p' c = fat_lastCluster (p_fat p) + 1"
proof -
  have "fat_lastCluster (p_fat p) + 1 \<noteq> CLUSTER_ERROR"
  proof
    assume eq: "fat_lastCluster (p_fat p) + 1 = CLUSTER_ERROR"
    have "eof_limit (p_filesysType p) \<le> 0x0FFFFFF7" by (rule eof_limit_le)
    with assms(7) have "CLUSTER_ERROR < 0x0FFFFFF7" unfolding eq by (rule less_le_trans)
    then show False by (simp add: CLUSTER_ERROR_def)
  qed
  with linkFreeCluster_past_end [OF assms] show ?thesis by fastforce
qed

theorem allocation_past_the_end_witness:
  "\<exists>p1 p2. FAT_fat_linkFreeCluster (ram_part 4 2 0) 4 = Some (CLUSTER_ERROR, p1) \<and>
    FAT_fat_linkFreeCluster p1 4 = Some (5, p2) \<and> \<not> FAT_fat_isValidCluster (ram_part 4 2 0) 5"
proof -
  let ?p = "ram_part 4 2 0"
  have ok: "part_ok med8 ?p" by (rule ram_part_ok) simp
  have in3: "c = 2 \<or> c = 3 \<or> c = 4" if "2 \<le> c" "c \<le> 4" for c :: u32
  proof -
    have "unat c = 2 \<or> unat c = 3 \<or> unat c = 4" using that by (simp add: word_le_nat_alt) arith
    then show ?thesis by (auto simp: word_eq_iff_unat_eq)
  qed
  have used: "fat_table med8 ?p c \<noteq> CLUSTER_FREE" if "FAT_fat_isValidCluster ?p c" for c
    using in3 [of c] that by (auto simp: ram_valid ram_table cluster_defs)
  have v4: "FAT_fat_isValidCluster ?p 4" "\<not> FAT_fat_isValidCluster ?p (fat_table med8 ?p 4)"
    by (simp_all add: ram_valid ram_table cluster_defs)
  have fat: "fat_firstFree (p_fat ?p) = 2" "fat_lastCluster (p_fat ?p) = 4" "alloc_start ?p = 2"
    by (simp_all add: ram_part_on_def alloc_start_def CLUSTER_FIRST_def)
  have none: "alloc_choice (fat_table med8 ?p) (alloc_start ?p) (fat_lastCluster (p_fat ?p)) = None"
    using alloc_choice_Some [of "fat_table med8 ?p" 2 4] used by (auto simp: fat valid_unat intro: ccontr)
  obtain p1 where p1: "FAT_fat_linkFreeCluster ?p 4 = Some (CLUSTER_ERROR, p1)" "part_ok med8 p1"
    "fs_step med8 ?p p1" "fat_table med8 p1 = fat_table med8 ?p" "p_fat p1 = (p_fat ?p)\<lparr>fat_firstFree := 5\<rparr>"
    using linkFreeCluster_full [OF ok disjI2 [OF v4(1)] v4(2) _ none] by (auto simp: fat)
  note st = fs_stepD [OF p1(3)]
  have l: "fat_lastCluster (p_fat p1) + 1 = 5" by (simp add: p1(5) fat)
  have rd: "readable p1 5" "p_filesysType p1 = FS_FAT16"
    using st(2,7) p1(5) by (simp_all add: readable_def ram_part_on_def entry_pos_def entry_len_def)
  have "\<exists>p2. FAT_fat_linkFreeCluster p1 4 = Some (fat_lastCluster (p_fat p1) + 1, p2) \<and>
      fat_lastCluster (p_fat p1) + 1 \<noteq> CLUSTER_ERROR \<and>
      \<not> FAT_fat_isValidCluster p1 (fat_lastCluster (p_fat p1) + 1) \<and>
      fat_table med8 p2 4 = fat_lastCluster (p_fat p1) + 1"
    by (rule allocation_past_the_end [OF p1(2)])
      (unfold l st(16) p1(4) rd(2), use v4 rd(1) in \<open>simp_all add: p1(5) eof_limit_def ram_table fat\<close>)
  with p1(1) show ?thesis by (auto simp: l st(16))
qed

end
