(* ===== verification/Partition.thy ===== *)
theory Partition
  imports FatAlloc
begin

text \<open>
  Mounting: \<open>source/partition.c\<close>. The functions that run before the cache exists thread the
  driver's state; afterwards it is inside the partition's cache, and the accesses to the file
  system information sector go to the driver directly, past the cache. A sector buffer is the
  block the caller allocated; a driver that stores more than the block holds, or a read outside
  it, is undefined. The destructor also synchronises the open files and stands with them, in
  the theory \<open>OpenFiles\<close>.
\<close>

section \<open>Offsets and signatures\<close>

abbreviation "BPB_bytesPerSector \<equiv> (0x0B :: nat)"
abbreviation "BPB_sectorsPerCluster \<equiv> (0x0D :: nat)"
abbreviation "BPB_reservedSectors \<equiv> (0x0E :: nat)"
abbreviation "BPB_numFATs \<equiv> (0x10 :: nat)"
abbreviation "BPB_rootEntries \<equiv> (0x11 :: nat)"
abbreviation "BPB_numSectorsSmall \<equiv> (0x13 :: nat)"
abbreviation "BPB_sectorsPerFAT \<equiv> (0x16 :: nat)"
abbreviation "BPB_numSectors \<equiv> (0x20 :: nat)"
abbreviation "BPB_FAT16_volumeLabel \<equiv> (0x2B :: nat)"
abbreviation "BPB_FAT16_fileSysType \<equiv> (0x36 :: nat)"
abbreviation "BPB_FAT32_sectorsPerFAT32 \<equiv> (0x24 :: nat)"
abbreviation "BPB_FAT32_extFlags \<equiv> (0x28 :: nat)"
abbreviation "BPB_FAT32_rootClus \<equiv> (0x2C :: nat)"
abbreviation "BPB_FAT32_fsInfo \<equiv> (0x30 :: nat)"
abbreviation "BPB_FAT32_volumeLabel \<equiv> (0x47 :: nat)"
abbreviation "BPB_FAT32_fileSysType \<equiv> (0x52 :: nat)"
abbreviation "BPB_bootSig_55 \<equiv> (0x1FE :: nat)"
abbreviation "BPB_bootSig_AA \<equiv> (0x1FF :: nat)"
abbreviation "FSIB_SIG1 \<equiv> (0x00 :: nat)"
abbreviation "FSIB_SIG2 \<equiv> (0x1e4 :: nat)"
abbreviation "FSIB_numberOfFreeCluster \<equiv> (0x1e8 :: nat)"
abbreviation "FSIB_numberLastAllocCluster \<equiv> (0x1ec :: nat)"

definition FAT_SIG :: "u8 list" where "FAT_SIG = [0x46, 0x41, 0x54]"
definition FS_INFO_SIG1 :: "u8 list" where "FS_INFO_SIG1 = [0x52, 0x52, 0x61, 0x41]"
definition FS_INFO_SIG2 :: "u8 list" where "FS_INFO_SIG2 = [0x72, 0x72, 0x41, 0x61]"
definition FS_TWL_SIG :: "u8 list" where "FS_TWL_SIG = [0xe9, 0x00, 0x00, 0x54, 0x57, 0x4c, 0x20, 0x20]"

definition MIN_SECTOR_SIZE :: u32 where "MIN_SECTOR_SIZE = 512"
definition MAX_SECTOR_SIZE :: u32 where "MAX_SECTOR_SIZE = 4096"
definition DIR_ENTRY_DATA_SIZE :: u32 where "DIR_ENTRY_DATA_SIZE = 0x20"
definition FAT16_ROOT_DIR_CLUSTER :: u32 where "FAT16_ROOT_DIR_CLUSTER = 0"

section \<open>Sector buffers\<close>

text \<open>Reading one sector into a buffer: the C result, the buffer and the driver's state.\<close>

definition readSector_buf ::
    "'d disc_interface \<Rightarrow> 'd \<Rightarrow> sec_t \<Rightarrow> u8 list \<Rightarrow> (bool \<times> u8 list \<times> 'd) option" where
  "readSector_buf disc m sector buf =
    (let (ok, data, m) = FAT_disc_readSectors disc m sector 1
     in do { buf \<leftarrow> poke buf 0 data; Some (ok, buf, m) })"

definition get_u8 :: "u8 list \<Rightarrow> nat \<Rightarrow> u8 option" where
  "get_u8 buf off = (if off < length buf then Some (buf ! off) else None)"

definition get_u16 :: "u8 list \<Rightarrow> nat \<Rightarrow> u16 option" where
  "get_u16 buf off = (if off + 2 \<le> length buf then Some (u8array_to_u16 buf off) else None)"

definition get_u32 :: "u8 list \<Rightarrow> nat \<Rightarrow> u32 option" where
  "get_u32 buf off = (if off + 4 \<le> length buf then Some (u8array_to_u32 buf off) else None)"

definition put_u32 :: "u8 list \<Rightarrow> nat \<Rightarrow> u32 \<Rightarrow> u8 list option" where
  "put_u32 buf off v = (if off + 4 \<le> length buf then Some (u32_to_u8array buf off v) else None)"

text \<open>\<open>memcmp\<close> with a signature: whether the bytes are equal.\<close>

definition memeq :: "u8 list \<Rightarrow> nat \<Rightarrow> u8 list \<Rightarrow> bool option" where
  "memeq buf off sig = do { b \<leftarrow> peek buf off (length sig); Some (b = sig) }"

definition strncpy :: "nat \<Rightarrow> u8 list \<Rightarrow> u8 list" where
  "strncpy n s = (let t = takeWhile (\<lambda>b. b \<noteq> 0) (take n s) in t @ replicate (n - length t) 0)"

section \<open>Finding the partition\<close>

definition isValidMBR :: "u8 list \<Rightarrow> bool option" where
  "isValidMBR sectorBuffer =
    do {
      a \<leftarrow> memeq sectorBuffer BPB_FAT16_fileSysType FAT_SIG;
      if a then Some True
      else do {
        b \<leftarrow> memeq sectorBuffer BPB_FAT32_fileSysType FAT_SIG;
        if b then Some True else memeq sectorBuffer 0 FS_TWL_SIG
      }
    }"

text \<open>The search in an extended partition, \<open>k\<close> logical partitions from here on. The result is
  \<open>Some r\<close> when the function returns \<open>r\<close>, and \<open>None\<close> when the loop is left.\<close>

fun findLogical :: "'d disc_interface \<Rightarrow> sec_t \<Rightarrow> sec_t \<Rightarrow> nat \<Rightarrow> u8 list \<Rightarrow> 'd
    \<Rightarrow> (sec_t option \<times> u8 list \<times> 'd) option" where
  "findLogical disc part_lba next_lba2 0 buf m = Some (None, buf, m)"
| "findLogical disc part_lba next_lba2 (Suc k) buf m =
     do {
       (ok, buf, m) \<leftarrow> readSector_buf disc m (part_lba + next_lba2) buf;
       if \<not> ok then Some (Some 0, buf, m)
       else do {
         a \<leftarrow> get_u32 buf 0x1C6;
         let part_lba2 = part_lba + next_lba2 + a;
         next_lba2 \<leftarrow> get_u32 buf 0x1D6;
         (ok, buf, m) \<leftarrow> readSector_buf disc m part_lba2 buf;
         if \<not> ok then Some (Some 0, buf, m)
         else do {
           valid \<leftarrow> isValidMBR buf;
           if valid then Some (Some part_lba2, buf, m)
           else if next_lba2 = 0 then Some (None, buf, m)
           else findLogical disc part_lba next_lba2 k buf m
         }
       }
     }"

text \<open>The loop over the entries of the partition table, 16 bytes each.\<close>

fun findPrimary :: "'d disc_interface \<Rightarrow> u8 list list \<Rightarrow> u8 list \<Rightarrow> 'd \<Rightarrow> (sec_t \<times> u8 list \<times> 'd) option" where
  "findPrimary disc [] buf m = Some (0, buf, m)"
| "findPrimary disc (ptr # ptrs) buf m =
     do {
       part_lba \<leftarrow> get_u32 ptr 0x8;
       valid \<leftarrow> isValidMBR buf;
       if valid then Some (part_lba, buf, m)
       else do {
         type \<leftarrow> get_u8 ptr 4;
         if type = 0 then findPrimary disc ptrs buf m
         else if type = 0x0F then do {
           (r, buf, m) \<leftarrow> findLogical disc part_lba 0 8 buf m;
           (case r of Some lba \<Rightarrow> Some (lba, buf, m) | None \<Rightarrow> findPrimary disc ptrs buf m)
         } else do {
           (ok, buf, m) \<leftarrow> readSector_buf disc m part_lba buf;
           if \<not> ok then Some (0, buf, m)
           else do {
             valid \<leftarrow> isValidMBR buf;
             if valid then Some (part_lba, buf, m) else findPrimary disc ptrs buf m
           }
         }
       }
     }"

definition FindFirstValidPartition_buf ::
    "'d disc_interface \<Rightarrow> u8 list \<Rightarrow> 'd \<Rightarrow> (sec_t \<times> u8 list \<times> 'd) option" where
  "FindFirstValidPartition_buf disc sectorBuffer m =
    do {
      (ok, buf, m) \<leftarrow> readSector_buf disc m 0 sectorBuffer;
      if \<not> ok then Some (0, buf, m)
      else do {
        t \<leftarrow> peek buf 0x1BE 64;
        findPrimary disc [slice t 0 16, slice t 16 16, slice t 32 16, slice t 48 16] buf m
      }
    }"

definition FindFirstValidPartition ::
    "(nat \<Rightarrow> u8 list option) \<Rightarrow> 'd disc_interface \<Rightarrow> 'd \<Rightarrow> (sec_t \<times> 'd) option" where
  "FindFirstValidPartition malloc disc m =
    (case malloc (unat MAX_SECTOR_SIZE) of
       None \<Rightarrow> Some (0, m)
     | Some sectorBuffer \<Rightarrow> do {
         (lba, _, m) \<leftarrow> FindFirstValidPartition_buf disc sectorBuffer m;
         Some (lba, m)
       })"

section \<open>The file system information sector\<close>

definition on_disc :: "('d \<Rightarrow> 'd) \<Rightarrow> 'd partition \<Rightarrow> 'd partition" where
  "on_disc f p = p\<lparr>p_cache := (p_cache p)\<lparr>c_medium := f (c_medium (p_cache p))\<rparr>\<rparr>"

definition FAT_updateFS_INFO :: "'d partition \<Rightarrow> u8 list \<Rightarrow> (u8 list \<times> 'd partition) option" where
  "FAT_updateFS_INFO p sectorBuffer =
    do {
      (n, p) \<leftarrow> FAT_fat_freeClusterCount p;
      let p = set_fat (\<lambda>f. f\<lparr>fat_numberFreeCluster := n\<rparr>) p;
      buf \<leftarrow> put_u32 sectorBuffer FSIB_numberOfFreeCluster (fat_numberFreeCluster (p_fat p));
      buf \<leftarrow> put_u32 buf FSIB_numberLastAllocCluster (fat_numberLastAllocCluster (p_fat p));
      Some (buf, on_disc (\<lambda>m. snd (FAT_disc_writeSectors (p_disc p) m (p_fsInfoSector p) 1 buf)) p)
    }"

text \<open>The two signatures and the boot signature in a zeroed sector.\<close>

definition fsinfo_frame :: "u8 list \<Rightarrow> u8 list option" where
  "fsinfo_frame buf =
    do {
      buf \<leftarrow> poke buf FSIB_SIG1 FS_INFO_SIG1;
      buf \<leftarrow> poke buf FSIB_SIG2 FS_INFO_SIG2;
      buf \<leftarrow> poke buf 0x1FE [0x55];
      poke buf 0x1FF [0xAA]
    }"

definition zeroed :: "(nat \<Rightarrow> u8 list option) \<Rightarrow> u32 \<Rightarrow> u8 list option" where
  "zeroed malloc n = (case malloc (unat n) of None \<Rightarrow> None | Some b \<Rightarrow> Some (replicate (unat n) 0))"

definition FAT_partition_createFSinfo :: "(nat \<Rightarrow> u8 list option) \<Rightarrow> 'd partition \<Rightarrow> 'd partition option" where
  "FAT_partition_createFSinfo malloc p =
    (if p_readOnly p \<or> p_filesysType p \<noteq> FS_FAT32 then Some p
     else case zeroed malloc (p_bytesPerSector p) of
       None \<Rightarrow> Some p
     | Some sectorBuffer \<Rightarrow> do {
         buf \<leftarrow> fsinfo_frame sectorBuffer;
         (_, p) \<leftarrow> FAT_updateFS_INFO p buf;
         Some p
       })"

definition readSector_part :: "'d partition \<Rightarrow> sec_t \<Rightarrow> u8 list \<Rightarrow> (bool \<times> u8 list \<times> 'd partition) option" where
  "readSector_part p sector buf =
    do {
      (ok, buf, m) \<leftarrow> readSector_buf (p_disc p) (c_medium (p_cache p)) sector buf;
      Some (ok, buf, on_disc (\<lambda>_. m) p)
    }"

definition has_fsinfo_sigs :: "u8 list \<Rightarrow> bool option" where
  "has_fsinfo_sigs buf =
    do {
      a \<leftarrow> memeq buf FSIB_SIG1 FS_INFO_SIG1;
      if \<not> a then Some False else memeq buf FSIB_SIG2 FS_INFO_SIG2
    }"

definition FAT_partition_readFSinfo ::
    "(nat \<Rightarrow> u8 list option) \<Rightarrow> (nat \<Rightarrow> u8 list option) \<Rightarrow> 'd partition \<Rightarrow> 'd partition option" where
  "FAT_partition_readFSinfo malloc malloc' p =
    (if p_filesysType p \<noteq> FS_FAT32 then Some p
     else case zeroed malloc (p_bytesPerSector p) of
       None \<Rightarrow> Some p
     | Some sectorBuffer \<Rightarrow> do {
         (ok, buf, p) \<leftarrow> readSector_part p (p_fsInfoSector p) sectorBuffer;
         if \<not> ok then Some p
         else do {
           sigs \<leftarrow> has_fsinfo_sigs buf;
           n \<leftarrow> get_u32 buf FSIB_numberOfFreeCluster;
           if \<not> sigs \<or> n = 0 then FAT_partition_createFSinfo malloc' p
           else do {
             let p = set_fat (\<lambda>f. f\<lparr>fat_numberFreeCluster := n\<rparr>) p;
             (buf, p) \<leftarrow> (if n = 0xffffffff
               then do {
                 (buf, p) \<leftarrow> FAT_updateFS_INFO p buf;
                 n \<leftarrow> get_u32 buf FSIB_numberOfFreeCluster;
                 Some (buf, set_fat (\<lambda>f. f\<lparr>fat_numberFreeCluster := n\<rparr>) p)
               } else Some (buf, p));
             l \<leftarrow> get_u32 buf FSIB_numberLastAllocCluster;
             Some (set_fat (\<lambda>f. f\<lparr>fat_numberLastAllocCluster := l\<rparr>) p)
           }
         }
       })"

definition FAT_partition_writeFSinfo :: "(nat \<Rightarrow> u8 list option) \<Rightarrow> 'd partition \<Rightarrow> 'd partition option" where
  "FAT_partition_writeFSinfo malloc p =
    (if p_filesysType p \<noteq> FS_FAT32 then Some p
     else case zeroed malloc (p_bytesPerSector p) of
       None \<Rightarrow> Some p
     | Some sectorBuffer \<Rightarrow> do {
         (ok, buf, p) \<leftarrow> readSector_part p (p_fsInfoSector p) sectorBuffer;
         if \<not> ok then Some p
         else do {
           sigs \<leftarrow> has_fsinfo_sigs buf;
           if \<not> sigs then Some p
           else do {
             buf \<leftarrow> put_u32 buf FSIB_numberOfFreeCluster (fat_numberFreeCluster (p_fat p));
             buf \<leftarrow> put_u32 buf FSIB_numberLastAllocCluster (fat_numberLastAllocCluster (p_fat p));
             Some (on_disc (\<lambda>m. snd (FAT_disc_writeSectors (p_disc p) m (p_fsInfoSector p) 1 buf)) p)
           }
         }
       })"

section \<open>Construction\<close>

text \<open>The allocations of the constructor: its own record, the cache's blocks, and the buffers of
  the reader and the creator of the information sector.\<close>

record allocs =
  m_partition :: bool
  m_cache :: "nat \<Rightarrow> nat \<Rightarrow> u8 list option"
  m_fsinfo :: "nat \<Rightarrow> u8 list option"
  m_newinfo :: "nat \<Rightarrow> u8 list option"

text \<open>The volume: the fields computed from the boot sector.\<close>

definition volume_label :: "u8 list \<Rightarrow> u8 list option" where
  "volume_label buf =
    do {
      fat16 \<leftarrow> memeq buf BPB_FAT16_fileSysType FAT_SIG;
      l \<leftarrow> peek buf (if fat16 then BPB_FAT16_volumeLabel else BPB_FAT32_volumeLabel) 11;
      Some (strncpy 11 l @ [0])
    }"

definition select_fs :: "u32 \<Rightarrow> fs_type" where
  "select_fs clusterCount =
    (if clusterCount < CLUSTERS_PER_FAT12 then FS_FAT12
     else if clusterCount < CLUSTERS_PER_FAT16 then FS_FAT16 else FS_FAT32)"

text \<open>The partition the boot sector describes, with the given cache; \<open>Some None\<close> for a sector size
  that is not supported. The C code fills the fields in the same order and creates the cache
  from \<open>startSector + numberOfSectors\<close> and \<open>bytesPerSector\<close>.\<close>

definition parse_bpb :: "'d disc_interface \<Rightarrow> sec_t \<Rightarrow> u8 list \<Rightarrow> (sec_t \<Rightarrow> u32 \<Rightarrow> 'd cache option)
    \<Rightarrow> 'd partition option option" where
  "parse_bpb disc startSector buf mk_cache =
    do {
      label \<leftarrow> volume_label buf;
      spf16 \<leftarrow> get_u16 buf BPB_sectorsPerFAT;
      spf32 \<leftarrow> get_u32 buf BPB_FAT32_sectorsPerFAT32;
      let sectorsPerFat = (if spf16 = 0 then spf32 else ucast spf16);
      nos16 \<leftarrow> get_u16 buf BPB_numSectorsSmall;
      nos32 \<leftarrow> get_u32 buf BPB_numSectors;
      let numberOfSectors = (if nos16 = 0 then nos32 else ucast nos16);
      bps \<leftarrow> get_u16 buf BPB_bytesPerSector;
      let bytesPerSector = (ucast bps :: u32);
      if bytesPerSector < MIN_SECTOR_SIZE \<or> bytesPerSector > MAX_SECTOR_SIZE then Some None
      else do {
        spc \<leftarrow> get_u8 buf BPB_sectorsPerCluster;
        let sectorsPerCluster = (ucast spc :: u32);
        reserved \<leftarrow> get_u16 buf BPB_reservedSectors;
        let fatStart = startSector + ucast reserved;
        numFATs \<leftarrow> get_u8 buf BPB_numFATs;
        let rootDirStart = fatStart + ucast numFATs * sectorsPerFat;
        rootEntries \<leftarrow> get_u16 buf BPB_rootEntries;
        let dataStart = rootDirStart + (ucast rootEntries * DIR_ENTRY_DATA_SIZE) div bytesPerSector;
        let totalSize = ((ucast numberOfSectors :: u64) - ucast (dataStart - startSector)) * ucast bytesPerSector;
        fsInfo \<leftarrow> get_u16 buf BPB_FAT32_fsInfo;
        let fsInfoSector = startSector + (if fsInfo \<noteq> 0 then ucast fsInfo else 1);
        if sectorsPerCluster = 0 then None
        else do {
          let clusterCount = (numberOfSectors - (dataStart - startSector)) div sectorsPerCluster;
          let filesysType = select_fs clusterCount;
          rootClus \<leftarrow> get_u32 buf BPB_FAT32_rootClus;
          extFlags \<leftarrow> get_u8 buf BPB_FAT32_extFlags;
          let rootDirCluster = (if filesysType \<noteq> FS_FAT32 then FAT16_ROOT_DIR_CLUSTER else rootClus);
          let fatStart = (if filesysType = FS_FAT32 \<and> extFlags AND 0x80 = 0
            then fatStart + sectorsPerFat * ucast (extFlags AND 0x0F) else fatStart);
          cache \<leftarrow> mk_cache (startSector + numberOfSectors) bytesPerSector;
          Some (Some \<lparr>p_disc = disc, p_cache = cache, p_filesysType = filesysType, p_totalSize = totalSize,
            p_rootDirStart = rootDirStart, p_rootDirCluster = rootDirCluster,
            p_numberOfSectors = numberOfSectors, p_dataStart = dataStart, p_bytesPerSector = bytesPerSector,
            p_sectorsPerCluster = sectorsPerCluster, p_bytesPerCluster = bytesPerSector * sectorsPerCluster,
            p_fsInfoSector = fsInfoSector,
            p_fat = \<lparr>fat_fatStart = fatStart, fat_sectorsPerFat = sectorsPerFat,
              fat_lastCluster = clusterCount + CLUSTER_FIRST - 1, fat_firstFree = CLUSTER_FIRST,
              fat_numberFreeCluster = 0, fat_numberLastAllocCluster = 0\<rparr>,
            p_cwdCluster = rootDirCluster, p_openFileCount = 0, p_firstOpenFile = None,
            p_readOnly = (FAT_disc_features disc AND FEATURE_MEDIUM_CANWRITE = 0), p_label = label\<rparr>)
        }
      }
    }"

text \<open>Where the partition starts, with its boot sector in the buffer; \<open>None\<close> in the result when the
  constructor gives up.\<close>

definition locate :: "'d disc_interface \<Rightarrow> sec_t \<Rightarrow> u8 list \<Rightarrow> 'd \<Rightarrow> (sec_t option \<times> u8 list \<times> 'd) option" where
  "locate disc startSector sectorBuffer m =
    do {
      (ok, buf, m) \<leftarrow> readSector_buf disc m startSector sectorBuffer;
      if \<not> ok then Some (None, buf, m)
      else do {
        s55 \<leftarrow> get_u8 buf BPB_bootSig_55;
        sAA \<leftarrow> get_u8 buf BPB_bootSig_AA;
        if s55 \<noteq> 0x55 \<or> sAA \<noteq> 0xAA then Some (None, buf, m)
        else do {
          fat16 \<leftarrow> memeq buf BPB_FAT16_fileSysType FAT_SIG;
          fat32 \<leftarrow> memeq buf BPB_FAT32_fileSysType FAT_SIG;
          if startSector \<noteq> 0 then Some (Some startSector, buf, m)
          else if fat16 \<or> fat32 then Some (Some 0, buf, m)
          else do {
            (startSector, buf, m) \<leftarrow> FindFirstValidPartition_buf disc buf m;
            (ok, buf, m) \<leftarrow> readSector_buf disc m startSector buf;
            Some (if ok then Some startSector else None, buf, m)
          }
        }
      }
    }"

text \<open>The result is \<open>Inl\<close> with the driver's state for the null pointer. A cache that could not be
  created is stored as a null pointer and dereferenced by the first operation, so that case is
  undefined here.\<close>

definition FAT_partition_constructor_buf ::
    "allocs \<Rightarrow> 'd disc_interface \<Rightarrow> u32 \<Rightarrow> u32 \<Rightarrow> sec_t \<Rightarrow> u8 list \<Rightarrow> 'd \<Rightarrow> u32 \<Rightarrow> ('d + 'd partition) option" where
  "FAT_partition_constructor_buf al disc cacheSize sectorsPerPage startSector sectorBuffer m counter =
    do {
      (start, buf, m) \<leftarrow> locate disc startSector sectorBuffer m;
      (case start of None \<Rightarrow> Some (Inl m)
       | Some startSector \<Rightarrow> do {
           valid \<leftarrow> isValidMBR buf;
           if \<not> valid then Some (Inl m)
           else if \<not> m_partition al then Some (Inl m)
           else do {
             r \<leftarrow> parse_bpb disc startSector buf
               (\<lambda>endOfPartition bps. FAT_cache_constructor (m_cache al) cacheSize sectorsPerPage disc endOfPartition
                  bps m counter);
             (case r of None \<Rightarrow> Some (Inl m)
              | Some p \<Rightarrow> do {
                  p \<leftarrow> FAT_partition_readFSinfo (m_fsinfo al) (m_newinfo al) p;
                  Some (Inr p)
                })
           }
         })
    }"

definition FAT_partition_constructor ::
    "(nat \<Rightarrow> u8 list option) \<Rightarrow> allocs \<Rightarrow> 'd disc_interface \<Rightarrow> u32 \<Rightarrow> u32 \<Rightarrow> sec_t \<Rightarrow> 'd \<Rightarrow> u32
      \<Rightarrow> ('d + 'd partition) option" where
  "FAT_partition_constructor malloc al disc cacheSize sectorsPerPage startSector m counter =
    (case malloc (unat MAX_SECTOR_SIZE) of
       None \<Rightarrow> Some (Inl m)
     | Some sectorBuffer \<Rightarrow>
         FAT_partition_constructor_buf al disc cacheSize sectorsPerPage startSector sectorBuffer m counter)"

end
