(* ===== verification/FileTime.thy ===== *)
theory FileTime
  imports Prelude
begin

text \<open>
  Time stamps: \<open>source/filetime.c\<close>. The clock of the system is a parameter of the two readers:
  \<open>None\<close> for a build without \<open>USE_RTC_TIME\<close>, \<open>Some None\<close> when \<open>time\<close> fails, else the broken-down
  local time. \<open>mktime\<close> is the standard function, as a parameter of the conversion back.
\<close>

section \<open>Model\<close>

record tm =
  tm_hour :: int
  tm_min :: int
  tm_sec :: int
  tm_mday :: int
  tm_mon :: int
  tm_year :: int
  tm_isdst :: int

definition FAT_filetime_getTimeFromRTC :: "tm option option \<Rightarrow> u16" where
  "FAT_filetime_getTimeFromRTC rtc =
    (case rtc of None \<Rightarrow> 0
     | Some None \<Rightarrow> 0
     | Some (Some t) \<Rightarrow>
         if tm_hour t < 0 \<or> tm_hour t > 23 then 0
         else if tm_min t < 0 \<or> tm_min t > 59 then 0
         else if tm_sec t < 0 \<or> tm_sec t > 59 then 0
         else word_of_int (push_bit 11 (tm_hour t AND 0x1F) OR push_bit 5 (tm_min t AND 0x3F)
                OR (drop_bit 1 (tm_sec t) AND 0x1F)))"

definition FAT_filetime_getDateFromRTC :: "tm option option \<Rightarrow> u16" where
  "FAT_filetime_getDateFromRTC rtc =
    (case rtc of None \<Rightarrow> 0
     | Some None \<Rightarrow> 0
     | Some (Some t) \<Rightarrow>
         if tm_mon t < 0 \<or> tm_mon t > 11 then 0
         else if tm_mday t < 1 \<or> tm_mday t > 31 then 0
         else word_of_int (push_bit 9 ((tm_year t - 80) AND 0x7F) OR push_bit 5 ((tm_mon t + 1) AND 0xF)
                OR (tm_mday t AND 0x1F)))"

text \<open>The fields handed to \<open>mktime\<close>; it ignores those the code leaves unset.\<close>

definition filetime_parts :: "u16 \<Rightarrow> u16 \<Rightarrow> tm" where
  "filetime_parts t d =
     \<lparr>tm_hour = uint (drop_bit 11 t), tm_min = uint (drop_bit 5 t AND 0x3F), tm_sec = 2 * uint (t AND 0x1F),
      tm_mday = uint (d AND 0x1F), tm_mon = uint (drop_bit 5 d AND 0x0F) - 1, tm_year = uint (drop_bit 9 d) + 80,
      tm_isdst = 0\<rparr>"

definition FAT_filetime_to_time_t :: "(tm \<Rightarrow> 't) \<Rightarrow> u16 \<Rightarrow> u16 \<Rightarrow> 't" where
  "FAT_filetime_to_time_t mktime t d = mktime (filetime_parts t d)"

section \<open>Round trip\<close>

lemma int_fields:
  "x AND 0x1F = x mod 32" "x AND 0x3F = x mod 64" "x AND 0xF = x mod 16" "x AND 0x7F = x mod 128" for x :: int
  using take_bit_eq_mask [of 5 x] take_bit_eq_mask [of 6 x] take_bit_eq_mask [of 4 x] take_bit_eq_mask [of 7 x]
  by (simp_all add: mask_eq_exp_minus_1 take_bit_eq_mod)

lemma or_fields:
  fixes a b :: int
  assumes "0 \<le> b" and "b < 2 ^ n"
  shows "push_bit n a OR b = 2 ^ n * a + b"
proof -
  have b: "take_bit n b = b" using assms by (simp add: take_bit_int_eq_self)
  have "push_bit n a AND b = 0"
    by (subst b [symmetric]) (auto intro!: bit_eqI simp: bit_simps)
  with plus_and_or [of "push_bit n a" b] show ?thesis by (simp add: push_bit_eq_mult mult.commute)
qed

lemma time_value:
  assumes "0 \<le> h" "h \<le> 23" "0 \<le> m" "m \<le> 59" "0 \<le> s" "s \<le> (59 :: int)"
  shows "push_bit 11 (h AND 0x1F) OR push_bit 5 (m AND 0x3F) OR (drop_bit 1 s AND 0x1F) = 2048 * h + (32 * m + s div 2)"
proof -
  have f: "h AND 0x1F = h" "m AND 0x3F = m" "drop_bit 1 s AND 0x1F = s div 2"
    using assms by (simp_all add: int_fields drop_bit_eq_div)
  have "push_bit 5 m OR s div 2 = 32 * m + s div 2" using or_fields [of "s div 2" 5 m] assms by simp
  moreover have "push_bit 11 h OR (32 * m + s div 2) = 2048 * h + (32 * m + s div 2)"
    using or_fields [of "32 * m + s div 2" 11 h] assms by simp
  ultimately show ?thesis unfolding f by (simp add: or.assoc)
qed

lemma date_value:
  assumes "80 \<le> y" "y \<le> 207" "0 \<le> m" "m \<le> 11" "1 \<le> d" "d \<le> (31 :: int)"
  shows "push_bit 9 ((y - 80) AND 0x7F) OR push_bit 5 ((m + 1) AND 0xF) OR (d AND 0x1F)
    = 512 * (y - 80) + (32 * (m + 1) + d)"
proof -
  have f: "(y - 80) AND 0x7F = y - 80" "(m + 1) AND 0xF = m + 1" "d AND 0x1F = d"
    using assms by (simp_all add: int_fields)
  have "push_bit 5 (m + 1) OR d = 32 * (m + 1) + d" using or_fields [of d 5 "m + 1"] assms by simp
  moreover have "push_bit 9 (y - 80) OR (32 * (m + 1) + d) = 512 * (y - 80) + (32 * (m + 1) + d)"
    using or_fields [of "32 * (m + 1) + d" 9 "y - 80"] assms by simp
  ultimately show ?thesis unfolding f by (simp add: or.assoc)
qed

lemma word16_fields:
  fixes v :: int
  assumes "0 \<le> v" and "v < 65536"
  shows "uint (drop_bit n (word_of_int v :: u16)) = v div 2 ^ n"
    and "uint (drop_bit n (word_of_int v :: u16) AND 0x3F) = v div 2 ^ n mod 64"
    and "uint (drop_bit n (word_of_int v :: u16) AND 0x0F) = v div 2 ^ n mod 16"
    and "uint ((word_of_int v :: u16) AND 0x1F) = v mod 32"
proof -
  have v: "uint (word_of_int v :: u16) = v" using assms by (simp add: uint_word_of_int_eq take_bit_int_eq_self)
  show d: "uint (drop_bit n (word_of_int v :: u16)) = v div 2 ^ n"
    by (simp only: unsigned_drop_bit_eq v) (use assms in \<open>simp add: drop_bit_eq_div take_bit_int_eq_self\<close>)
  show "uint (drop_bit n (word_of_int v :: u16) AND 0x3F) = v div 2 ^ n mod 64"
    "uint (drop_bit n (word_of_int v :: u16) AND 0x0F) = v div 2 ^ n mod 16"
    "uint ((word_of_int v :: u16) AND 0x1F) = v mod 32"
    using d v by (simp_all add: unsigned_and_eq int_fields)
qed


lemma three_fields:
  fixes x y z :: int
  assumes y: "0 \<le> y" "y < 2 ^ m" and z: "0 \<le> z" "z < 2 ^ n"
  defines "v \<equiv> 2 ^ (m + n) * x + (2 ^ n * y + z)"
  shows "v div 2 ^ (m + n) = x" and "v div 2 ^ n mod 2 ^ m = y" and "v mod 2 ^ n = z"
proof -
  have field: "(r + b * q) div b = q" "(r + b * q) mod b = r" if "0 \<le> r" "r < b" for r b q :: int
    using that by simp_all
  have "2 ^ n * (y + 1) \<le> 2 ^ n * 2 ^ m" using y by (intro mult_left_mono) simp_all
  then have "2 ^ n * y + 2 ^ n \<le> 2 ^ (m + n)" by (simp only: distrib_left mult_1_right power_add mult.commute [of "2 ^ n" "2 ^ m"])
  then have low: "2 ^ n * y + z < 2 ^ (m + n)" using z by linarith
  have v: "v = (2 ^ n * y + z) + 2 ^ (m + n) * x" "v = z + 2 ^ n * (y + 2 ^ m * x)"
    by (simp_all add: v_def power_add algebra_simps)
  have "0 \<le> 2 ^ n * y + z" using y z by simp
  from field(1) [OF this low] show "v div 2 ^ (m + n) = x" unfolding v(1) .
  show "v mod 2 ^ n = z" unfolding v(2) using field(2) z by blast
  have "v div 2 ^ n = y + 2 ^ m * x" unfolding v(2) using field(1) z by blast
  then show "v div 2 ^ n mod 2 ^ m = y" using field(2) y by metis
qed

definition in_range_tm :: "tm \<Rightarrow> bool" where
  "in_range_tm t \<longleftrightarrow> 0 \<le> tm_hour t \<and> tm_hour t \<le> 23 \<and> 0 \<le> tm_min t \<and> tm_min t \<le> 59 \<and>
     0 \<le> tm_sec t \<and> tm_sec t \<le> 59 \<and> 1 \<le> tm_mday t \<and> tm_mday t \<le> 31 \<and> 0 \<le> tm_mon t \<and> tm_mon t \<le> 11 \<and>
     80 \<le> tm_year t \<and> tm_year t \<le> 207"

text \<open>Stamping a file and reading the stamp back recovers the time up to the odd second.\<close>

lemma filetime_roundtrip:
  assumes "in_range_tm t"
  shows "filetime_parts (FAT_filetime_getTimeFromRTC (Some (Some t))) (FAT_filetime_getDateFromRTC (Some (Some t)))
    = t\<lparr>tm_sec := 2 * (tm_sec t div 2), tm_isdst := 0\<rparr>"
proof -
  let ?v = "2048 * tm_hour t + (32 * tm_min t + tm_sec t div 2)"
  let ?w = "512 * (tm_year t - 80) + (32 * (tm_mon t + 1) + tm_mday t)"
  have time: "FAT_filetime_getTimeFromRTC (Some (Some t)) = word_of_int ?v"
    and date: "FAT_filetime_getDateFromRTC (Some (Some t)) = word_of_int ?w"
    using assms time_value [of "tm_hour t" "tm_min t" "tm_sec t"] date_value [of "tm_year t" "tm_mon t" "tm_mday t"]
    by (simp_all add: FAT_filetime_getTimeFromRTC_def FAT_filetime_getDateFromRTC_def in_range_tm_def not_less)
  note r = assms [unfolded in_range_tm_def]
  have sec: "0 \<le> tm_sec t div 2" "tm_sec t div 2 < 32" using r by (simp_all, linarith)
  have v: "0 \<le> ?v" "?v < 65536" and w: "0 \<le> ?w" "?w < 65536" using r sec by auto
  have e: "?v = 2 ^ (6 + 5) * tm_hour t + (2 ^ 5 * tm_min t + tm_sec t div 2)"
    "?w = 2 ^ (4 + 5) * (tm_year t - 80) + (2 ^ 5 * (tm_mon t + 1) + tm_mday t)"
    and n: "(11 :: nat) = 6 + 5" "(9 :: nat) = 4 + 5" "(64 :: int) = 2 ^ 6" "(16 :: int) = 2 ^ 4" "(32 :: int) = 2 ^ 5"
    by simp_all
  have vf: "?v div 2 ^ 11 = tm_hour t" "?v div 2 ^ 5 mod 64 = tm_min t" "?v mod 32 = tm_sec t div 2"
    unfolding e(1) unfolding n by (rule three_fields; use r sec in simp)+
  have wf: "?w div 2 ^ 9 = tm_year t - 80" "?w div 2 ^ 5 mod 16 = tm_mon t + 1" "?w mod 32 = tm_mday t"
    unfolding e(2) unfolding n by (rule three_fields; use r in simp)+
  show ?thesis
    unfolding time date filetime_parts_def word16_fields [OF v] word16_fields [OF w] vf wf by (cases t) simp
qed

end
