(* ===== verification/Directory.thy ===== *)
theory Directory
  imports Partition FileTime
begin

text \<open>
  Directories: \<open>source/directory.h\<close> and \<open>source/directory.c\<close>. A name is the C string itself, the
  list of its bytes before the terminator; what an array holds behind the terminator plays no
  part. The offset in a directory position is a 32 bit word (its initial value -1 is the largest
  one). A local array that is used without having been written makes the outcome undefined.

  The multibyte and character functions of the standard library depend on the locale the program
  runs in: they are the fields of the record \<open>char_env\<close>, with the standard's behaviour in the
  \<open>C\<close> locale as the instance \<open>c_locale\<close>.
\<close>

section \<open>The environment\<close>

definition PATH_MAX :: nat where "PATH_MAX = 1024"
definition MAX_LFN_LENGTH :: nat where "MAX_LFN_LENGTH = 256"
definition MAX_ALIAS_LENGTH :: nat where "MAX_ALIAS_LENGTH = 13"
definition MAX_NUMERIC_TAIL :: nat where "MAX_NUMERIC_TAIL = 999999"

definition ATTRIB_ARCH :: u8 where "ATTRIB_ARCH = 0x20"
definition ATTRIB_DIR :: u8 where "ATTRIB_DIR = 0x10"
definition ATTRIB_LFN :: u8 where "ATTRIB_LFN = 0x0F"
definition ATTRIB_VOL :: u8 where "ATTRIB_VOL = 0x08"
definition ATTRIB_RO :: u8 where "ATTRIB_RO = 0x01"
definition CASE_LOWER_EXT :: u8 where "CASE_LOWER_EXT = 0x10"
definition CASE_LOWER_BASE :: u8 where "CASE_LOWER_BASE = 0x08"
definition DIR_ENTRY_LAST :: u8 where "DIR_ENTRY_LAST = 0x00"
definition DIR_ENTRY_FREE :: u8 where "DIR_ENTRY_FREE = 0xE5"
definition LFN_END :: u8 where "LFN_END = 0x40"
definition LFN_DEL :: u8 where "LFN_DEL = 0x80"

abbreviation "DIR_ENTRY_extension \<equiv> (0x08 :: nat)"
abbreviation "DIR_ENTRY_attributes \<equiv> (0x0B :: nat)"
abbreviation "DIR_ENTRY_caseInfo \<equiv> (0x0C :: nat)"
abbreviation "DIR_ENTRY_cTime \<equiv> (0x0E :: nat)"
abbreviation "DIR_ENTRY_cDate \<equiv> (0x10 :: nat)"
abbreviation "DIR_ENTRY_aDate \<equiv> (0x12 :: nat)"
abbreviation "DIR_ENTRY_clusterHigh \<equiv> (0x14 :: nat)"
abbreviation "DIR_ENTRY_mTime \<equiv> (0x16 :: nat)"
abbreviation "DIR_ENTRY_mDate \<equiv> (0x18 :: nat)"
abbreviation "DIR_ENTRY_cluster \<equiv> (0x1A :: nat)"
abbreviation "DIR_ENTRY_fileSize \<equiv> (0x1C :: nat)"
abbreviation "LFN_offset_ordinal \<equiv> (0x00 :: nat)"
abbreviation "LFN_offset_flag \<equiv> (0x0B :: nat)"
abbreviation "LFN_offset_reserved1 \<equiv> (0x0C :: nat)"
abbreviation "LFN_offset_checkSum \<equiv> (0x0D :: nat)"
abbreviation "LFN_offset_reserved2 \<equiv> (0x1A :: nat)"

abbreviation "CH_DOT \<equiv> (0x2E :: u8)"
abbreviation "CH_SPACE \<equiv> (0x20 :: u8)"
abbreviation "CH_UNDERSCORE \<equiv> (0x5F :: u8)"
abbreviation "DIR_SEPARATOR \<equiv> (0x2F :: u8)"

definition LFN_offset_table :: "nat list" where
  "LFN_offset_table = [0x01, 0x03, 0x05, 0x07, 0x09, 0x0E, 0x10, 0x12, 0x14, 0x16, 0x18, 0x1C, 0x1E]"

definition ILLEGAL_ALIAS_CHARACTERS :: "u8 list" where
  "ILLEGAL_ALIAS_CHARACTERS = [0x5C, 0x2F, 0x3A, 0x3B, 0x2A, 0x3F, 0x22, 0x3C, 0x3E, 0x7C, 0x26, 0x2B, 0x2C, 0x3D,
     0x5B, 0x5D, 0x20]"

definition ILLEGAL_LFN_CHARACTERS :: "u8 list" where
  "ILLEGAL_LFN_CHARACTERS = [0x5C, 0x2F, 0x3A, 0x2A, 0x3F, 0x22, 0x3C, 0x3E, 0x7C]"

text \<open>\<open>mbrtowc\<close> gets the state, the bytes up to and with the terminator, and the limit; it returns
  the number of bytes (negative on error), the character it stored, if any, and the new state.
  \<open>wcrtomb\<close> returns the number of bytes (negative on error) with the bytes.\<close>

record 'mb char_env =
  mb_init :: 'mb
  mb_cur_max :: nat
  mbrtowc :: "'mb \<Rightarrow> u8 list \<Rightarrow> nat \<Rightarrow> int \<times> u32 option \<times> 'mb"
  wcrtomb :: "'mb \<Rightarrow> u32 \<Rightarrow> int \<times> u8 list \<times> 'mb"
  towlower :: "u32 \<Rightarrow> u32"
  towupper :: "u32 \<Rightarrow> u32"
  wctob :: "u32 \<Rightarrow> int"
  tolower :: "u8 \<Rightarrow> u8"

definition lower_byte :: "u8 \<Rightarrow> u8" where
  "lower_byte b = (if 0x41 \<le> b \<and> b \<le> 0x5A then b + 0x20 else b)"

definition lower_wide :: "u32 \<Rightarrow> u32" where
  "lower_wide b = (if 0x41 \<le> b \<and> b \<le> 0x5A then b + 0x20 else b)"

definition upper_wide :: "u32 \<Rightarrow> u32" where
  "upper_wide b = (if 0x61 \<le> b \<and> b \<le> 0x7A then b - 0x20 else b)"

definition c_locale :: "unit char_env" where
  "c_locale = \<lparr>mb_init = (), mb_cur_max = 1,
     mbrtowc = (\<lambda>s b n. if n = 0 \<or> b = [] then (-2, None, s)
       else if hd b = 0 then (0, Some 0, s) else (1, Some (ucast (hd b)), s)),
     wcrtomb = (\<lambda>s w. if w < 0x100 then (1, [ucast w], s) else (-1, [], s)),
     towlower = lower_wide, towupper = upper_wide,
     wctob = (\<lambda>w. if w < 0x100 then int (unat w) else -1), tolower = lower_byte\<rparr>"

text \<open>Standard functions on strings.\<close>

definition cstr :: "u8 list \<Rightarrow> u8 list" where
  "cstr b = takeWhile (\<lambda>c. c \<noteq> 0) b"

definition strnlen :: "u8 list \<Rightarrow> nat \<Rightarrow> nat" where
  "strnlen s n = min (length s) n"

definition strncmp_eq :: "u8 list \<Rightarrow> u8 list \<Rightarrow> nat \<Rightarrow> bool" where
  "strncmp_eq a b n \<longleftrightarrow> take n (a @ [0]) = take n (b @ [0])"

definition strncasecmp_eq :: "'mb char_env \<Rightarrow> u8 list \<Rightarrow> u8 list \<Rightarrow> nat \<Rightarrow> bool" where
  "strncasecmp_eq env a b n \<longleftrightarrow> map (tolower env) (take n (a @ [0])) = map (tolower env) (take n (b @ [0]))"

section \<open>Names\<close>

partial_function (option) mbsrtowcs_length :: "'mb char_env \<Rightarrow> 'mb \<Rightarrow> u8 list \<Rightarrow> int \<Rightarrow> int option" where
  "mbsrtowcs_length env st s n =
    (let (bytes, w, st) = mbrtowc env st (s @ [0]) (mb_cur_max env)
     in if bytes < 0 then Some (-1)
        else if bytes = 0 then Some n
        else mbsrtowcs_length env st (drop (nat bytes) s) (n + 1))"

declare mbsrtowcs_length.simps [code]

definition FAT_directory_lfnLength :: "'mb char_env \<Rightarrow> u8 list \<Rightarrow> int option" where
  "FAT_directory_lfnLength env name =
    (if strnlen name PATH_MAX \<ge> PATH_MAX then Some (-1)
     else if list_ex (\<lambda>c. c \<in> set ILLEGAL_LFN_CHARACTERS) name then Some (-1)
     else if list_ex (\<lambda>c. c < 0x20 \<or> c \<ge> 0xF0) name then Some (-1)
     else do {
       n \<leftarrow> mbsrtowcs_length env (mb_init env) name 0;
       Some (if n < 0 \<or> n \<ge> int MAX_LFN_LENGTH then -1 else n)
     })"

text \<open>The characters stored, with the C result: whether the conversion succeeded.\<close>

partial_function (option) mbstoucs2_loop ::
    "'mb char_env \<Rightarrow> 'mb \<Rightarrow> u8 list \<Rightarrow> nat \<Rightarrow> u16 list \<Rightarrow> (bool \<times> u16 list) option" where
  "mbstoucs2_loop env st src room dst =
    (if room = 0 \<or> src = [] then Some (True, dst)
     else let (bytes, w, st) = mbrtowc env st (src @ [0]) (mb_cur_max env)
          in if bytes > 0
             then (case w of None \<Rightarrow> None
                   | Some w \<Rightarrow> mbstoucs2_loop env st (drop (nat bytes) src) (room - 1) (dst @ [ucast w]))
             else if bytes = 0 then Some (True, dst)
             else Some (False, dst))"

declare mbstoucs2_loop.simps [code]

definition FAT_directory_mbstoucs2 :: "'mb char_env \<Rightarrow> u8 list \<Rightarrow> nat \<Rightarrow> (bool \<times> u16 list) option" where
  "FAT_directory_mbstoucs2 env src len = mbstoucs2_loop env (mb_init env) src (len - 1) []"

text \<open>\<open>src\<close> is an array of characters, \<open>None\<close> where it has not been written. The result is the
  string, or \<open>None\<close> inside the result when a character cannot be converted.\<close>

fun ucs2tombs_loop :: "'mb char_env \<Rightarrow> 'mb \<Rightarrow> u16 option list \<Rightarrow> nat \<Rightarrow> u8 list \<Rightarrow> u8 list option option" where
  "ucs2tombs_loop env st [] len dst = (if length dst < len - 1 then None else Some (Some dst))"
| "ucs2tombs_loop env st (c # src) len dst =
     (if length dst < len - 1
      then (case c of None \<Rightarrow> None
            | Some c \<Rightarrow>
                if c = 0 then Some (Some dst)
                else let (bytes, b, st) = wcrtomb env st (ucast c)
                     in if bytes < 0 then Some None
                        else if length dst + nat bytes < len \<and> bytes > 0
                        then ucs2tombs_loop env st src len (dst @ b)
                        else Some (Some dst))
      else Some (Some dst))"

definition FAT_directory_ucs2tombs :: "'mb char_env \<Rightarrow> u16 option list \<Rightarrow> nat \<Rightarrow> u8 list option option" where
  "FAT_directory_ucs2tombs env src len =
    map_option (map_option cstr) (ucs2tombs_loop env (mb_init env) src len [])"

text \<open>The comparison's result is used only to tell zero from nonzero. \<open>len1\<close> is unsigned and may
  wrap around in the middle of a character.\<close>

partial_function (option) mbsncasecmp_loop ::
    "'mb char_env \<Rightarrow> 'mb \<Rightarrow> 'mb \<Rightarrow> u8 list \<Rightarrow> u8 list \<Rightarrow> u32 \<Rightarrow> u32 option \<Rightarrow> u32 option \<Rightarrow> u32 option" where
  "mbsncasecmp_loop env st1 st2 s1 s2 len1 old1 old2 =
    (let (b1, w1, st1) = mbrtowc env st1 (s1 @ [0]) (mb_cur_max env);
         (b2, w2, st2) = mbrtowc env st2 (s2 @ [0]) (mb_cur_max env);
         w1 = (case w1 of None \<Rightarrow> old1 | Some w \<Rightarrow> Some w);
         w2 = (case w2 of None \<Rightarrow> old2 | Some w \<Rightarrow> Some w)
     in do {
       wc1 \<leftarrow> w1;
       wc2 \<leftarrow> w2;
       let len1 = len1 - of_int b1;
       if \<not> (b1 < 0 \<or> b2 < 0) \<and> len1 > 0 \<and> towlower env wc1 = towlower env wc2 \<and> wc1 \<noteq> 0
       then mbsncasecmp_loop env st1 st2 (drop (nat b1) s1) (drop (nat b2) s2) len1 w1 w2
       else Some (towlower env wc1 - towlower env wc2)
     })"

declare mbsncasecmp_loop.simps [code]

definition FAT_directory_mbsncasecmp :: "'mb char_env \<Rightarrow> u8 list \<Rightarrow> u8 list \<Rightarrow> nat \<Rightarrow> u32 option" where
  "FAT_directory_mbsncasecmp env s1 s2 len1 =
    (if len1 = 0 then Some 0
     else mbsncasecmp_loop env (mb_init env) (mb_init env) s1 s2 (of_nat len1) None None)"

section \<open>Entries\<close>

record dir_pos =
  dp_cluster :: u32
  dp_sector :: sec_t
  dp_offset :: u32

record dir_entry =
  de_entryData :: "u8 list"
  de_dataStart :: dir_pos
  de_dataEnd :: dir_pos
  de_filename :: "u8 list"

definition FAT_directory_isDirectory :: "dir_entry \<Rightarrow> bool" where
  "FAT_directory_isDirectory entry \<longleftrightarrow> de_entryData entry ! DIR_ENTRY_attributes AND ATTRIB_DIR \<noteq> 0"

definition FAT_directory_isWritable :: "dir_entry \<Rightarrow> bool" where
  "FAT_directory_isWritable entry \<longleftrightarrow> de_entryData entry ! DIR_ENTRY_attributes AND ATTRIB_RO = 0"

definition FAT_directory_isDot :: "dir_entry \<Rightarrow> bool" where
  "FAT_directory_isDot entry \<longleftrightarrow> de_filename entry = [CH_DOT] \<or> de_filename entry = [CH_DOT, CH_DOT]"

text \<open>The short name of an entry, and whether there is one.\<close>

definition FAT_directory_entryGetAlias :: "'mb char_env \<Rightarrow> u8 list \<Rightarrow> bool \<times> u8 list" where
  "FAT_directory_entryGetAlias env entryData =
    (let destName =
       (if entryData ! 0 = DIR_ENTRY_FREE then []
        else if entryData ! 0 = CH_DOT
        then (if entryData ! 1 = CH_DOT then [CH_DOT, CH_DOT] else [CH_DOT])
        else let lowerBase = (entryData ! DIR_ENTRY_caseInfo AND CASE_LOWER_BASE \<noteq> 0);
                 base = map (if lowerBase then tolower env else (\<lambda>c. c)) (takeWhile (\<lambda>c. c \<noteq> CH_SPACE) (take 8 entryData));
                 lowerExt = (entryData ! DIR_ENTRY_caseInfo AND CASE_LOWER_EXT \<noteq> 0);
                 ext = (if entryData ! DIR_ENTRY_extension \<noteq> CH_SPACE
                   then CH_DOT # map (if lowerExt then tolower env else (\<lambda>c. c))
                     (takeWhile (\<lambda>c. c \<noteq> CH_SPACE) (take 3 (drop DIR_ENTRY_extension entryData)))
                   else [])
             in cstr (base @ ext))
     in (destName \<noteq> [], destName))"

definition FAT_directory_entryGetCluster :: "'d partition \<Rightarrow> u8 list \<Rightarrow> u32" where
  "FAT_directory_entryGetCluster p entryData =
    (if p_filesysType p = FS_FAT32
     then ucast (u8array_to_u16 entryData DIR_ENTRY_cluster)
       OR push_bit 16 (ucast (u8array_to_u16 entryData DIR_ENTRY_clusterHigh))
     else ucast (u8array_to_u16 entryData DIR_ENTRY_cluster))"

text \<open>The rotating checksum over the eleven bytes of a short name.\<close>

definition rotate_add :: "u8 \<Rightarrow> u8 \<Rightarrow> u8" where
  "rotate_add s b = (if s AND 1 \<noteq> 0 then 0x80 else 0) + drop_bit 1 s + b"

definition alias_checksum :: "u8 list \<Rightarrow> u8" where
  "alias_checksum data = foldl rotate_add 0 (take 11 data)"

section \<open>Walking through a directory\<close>

text \<open>\<open>malloc\<close> serves the empty sector of a directory that is extended.\<close>

definition FAT_directory_incrementDirEntryPosition ::
    "(nat \<Rightarrow> u8 list option) \<Rightarrow> 'd partition \<Rightarrow> dir_pos \<Rightarrow> bool \<Rightarrow> ((bool \<times> dir_pos) \<times> 'd partition) option" where
  "FAT_directory_incrementDirEntryPosition malloc p entryPosition extendDirectory =
    (let position = entryPosition\<lparr>dp_offset := dp_offset entryPosition + 1\<rparr>
     in if dp_offset position = p_bytesPerSector p div DIR_ENTRY_DATA_SIZE
        then let position = position\<lparr>dp_offset := 0, dp_sector := dp_sector position + 1\<rparr>
             in if dp_sector position = p_sectorsPerCluster p \<and> dp_cluster position \<noteq> FAT16_ROOT_DIR_CLUSTER
                then do {
                  let position = position\<lparr>dp_sector := 0\<rparr>;
                  (tempCluster, p) \<leftarrow> FAT_fat_nextCluster p (dp_cluster position);
                  if tempCluster = CLUSTER_EOF
                  then (if extendDirectory
                        then do {
                          (tempCluster, p) \<leftarrow> FAT_fat_linkFreeClusterCleared malloc p (dp_cluster position);
                          if \<not> FAT_fat_isValidCluster p tempCluster then Some ((False, entryPosition), p)
                          else Some ((True, position\<lparr>dp_cluster := tempCluster\<rparr>), p)
                        } else Some ((False, entryPosition), p))
                  else Some ((True, position\<lparr>dp_cluster := tempCluster\<rparr>), p)
                }
                else if dp_cluster position = FAT16_ROOT_DIR_CLUSTER \<and>
                  dp_sector position = p_dataStart p - p_rootDirStart p
                then Some ((False, entryPosition), p)
                else Some ((True, position), p)
        else Some ((True, position), p))"

abbreviation no_malloc :: "nat \<Rightarrow> u8 list option" where
  "no_malloc \<equiv> \<lambda>_. None"

text \<open>Reading and writing the entry at a position. A failed read leaves the local array as it was.\<close>

definition readEntry :: "'d partition \<Rightarrow> dir_pos \<Rightarrow> u8 list option \<Rightarrow> ((bool \<times> u8 list option) \<times> 'd partition) option" where
  "readEntry p pos old =
    do {
      (r, p) \<leftarrow> on_cache (\<lambda>c. FAT_cache_readPartialSector c
        (FAT_fat_clusterToSector p (dp_cluster pos) + dp_sector pos) (dp_offset pos * DIR_ENTRY_DATA_SIZE)
        DIR_ENTRY_DATA_SIZE) p;
      Some (case r of None \<Rightarrow> (False, old) | Some d \<Rightarrow> (True, Some d), p)
    }"

definition writeEntry :: "'d partition \<Rightarrow> dir_pos \<Rightarrow> u8 list \<Rightarrow> (bool \<times> 'd partition) option" where
  "writeEntry p pos data =
    on_cache (\<lambda>c. FAT_cache_writePartialSector c data
      (FAT_fat_clusterToSector p (dp_cluster pos) + dp_sector pos) (dp_offset pos * DIR_ENTRY_DATA_SIZE)
      DIR_ENTRY_DATA_SIZE) p"

text \<open>The 13 characters of a long name entry go to index \<open>lfnPos\<close> on, which is negative for an
  entry with ordinal 0; the code checks only the upper bound of the array.\<close>

fun lfn_store :: "u16 option list \<Rightarrow> u8 list \<Rightarrow> int \<Rightarrow> nat list \<Rightarrow> u16 option list option" where
  "lfn_store lfn data lfnPos [] = Some lfn"
| "lfn_store lfn data lfnPos (off # offs) =
     (if lfnPos < int MAX_LFN_LENGTH - 1
      then (if lfnPos < 0 then None
            else lfn_store (lfn[nat lfnPos := Some (ucast (data ! off) OR push_bit 8 (ucast (data ! (off + 1))))])
              data (lfnPos + 1) offs)
      else lfn_store lfn data (lfnPos + 1) offs)"

definition lfn_ordinal :: "u8 list \<Rightarrow> int" where
  "lfn_ordinal data = uint (data ! LFN_offset_ordinal AND NOT LFN_END)"

record dir_scan =
  ds_start :: dir_pos
  ds_end :: dir_pos
  ds_data :: "u8 list option"
  ds_lfn :: "u16 option list"
  ds_lfnChkSum :: u8
  ds_lfnExists :: bool

text \<open>One long name entry.\<close>

definition scan_lfn :: "u8 list \<Rightarrow> dir_scan \<Rightarrow> dir_scan option" where
  "scan_lfn data s =
    (let s = (if data ! LFN_offset_ordinal AND LFN_DEL \<noteq> 0 then s\<lparr>ds_lfnExists := False\<rparr>
              else if data ! LFN_offset_ordinal AND LFN_END \<noteq> 0
              then let lfnPos = min (lfn_ordinal data * 13) (int MAX_LFN_LENGTH - 1)
                   in s\<lparr>ds_start := ds_end s, ds_lfnExists := True, ds_lfn := (ds_lfn s)[nat lfnPos := Some 0],
                        ds_lfnChkSum := data ! LFN_offset_checkSum\<rparr>
              else s);
         s = (if ds_lfnChkSum s \<noteq> data ! LFN_offset_checkSum then s\<lparr>ds_lfnExists := False\<rparr> else s)
     in if ds_lfnExists s
        then do {
          lfn \<leftarrow> lfn_store (ds_lfn s) data ((lfn_ordinal data - 1) * 13) LFN_offset_table;
          Some (s\<lparr>ds_lfn := lfn\<rparr>)
        } else Some s)"

text \<open>An entry that names a file: the name, and where its entries start; \<open>None\<close> in the result when
  a long name cannot be converted.\<close>

definition scan_name :: "'mb char_env \<Rightarrow> u8 list \<Rightarrow> dir_scan \<Rightarrow> (u8 list \<times> dir_pos) option option" where
  "scan_name env data s =
    (let lfnExists = (ds_lfnExists s \<and> alias_checksum data = ds_lfnChkSum s)
     in if lfnExists
        then do {
          name \<leftarrow> FAT_directory_ucs2tombs env (ds_lfn s) PATH_MAX;
          Some (map_option (\<lambda>n. (n, ds_start s)) name)
        } else Some (Some (snd (FAT_directory_entryGetAlias env data), ds_end s)))"

text \<open>The flag is the C result. When it is false, the name in the entry may have been cleared; no
  caller looks at it.\<close>

partial_function (option) getNextEntry_loop ::
    "'mb char_env \<Rightarrow> 'd partition \<Rightarrow> dir_entry \<Rightarrow> dir_scan \<Rightarrow> ((bool \<times> dir_entry) \<times> 'd partition) option" where
  "getNextEntry_loop env p entry s =
    do {
      ((ok, pos), p) \<leftarrow> FAT_directory_incrementDirEntryPosition no_malloc p (ds_end s) False;
      if \<not> ok then Some ((False, entry), p)
      else do {
        let s = s\<lparr>ds_end := pos\<rparr>;
        ((_, data), p) \<leftarrow> readEntry p pos (ds_data s);
        entryData \<leftarrow> data;
        let s = s\<lparr>ds_data := data\<rparr>;
        if entryData ! DIR_ENTRY_attributes = ATTRIB_LFN then do {
          s \<leftarrow> scan_lfn entryData s;
          getNextEntry_loop env p entry s
        }
        else if entryData ! DIR_ENTRY_attributes AND ATTRIB_VOL \<noteq> 0 then getNextEntry_loop env p entry s
        else if entryData ! 0 = DIR_ENTRY_LAST then Some ((False, entry), p)
        else if entryData ! 0 \<noteq> DIR_ENTRY_FREE \<and> entryData ! 0 > 0x20 then do {
          r \<leftarrow> scan_name env entryData s;
          (case r of None \<Rightarrow> Some ((False, entry), p)
           | Some (name, start) \<Rightarrow> Some ((True, \<lparr>de_entryData = entryData, de_dataStart = start,
               de_dataEnd = pos, de_filename = name\<rparr>), p))
        }
        else getNextEntry_loop env p entry s
      }
    }"

declare getNextEntry_loop.simps [code]

definition FAT_directory_getNextEntry ::
    "'mb char_env \<Rightarrow> 'd partition \<Rightarrow> dir_entry \<Rightarrow> ((bool \<times> dir_entry) \<times> 'd partition) option" where
  "FAT_directory_getNextEntry env p entry =
    (let start = de_dataEnd entry;
         start = (if dp_cluster start = FAT16_ROOT_DIR_CLUSTER then start\<lparr>dp_cluster := p_rootDirCluster p\<rparr> else start)
     in getNextEntry_loop env p entry
       \<lparr>ds_start = start, ds_end = start, ds_data = None, ds_lfn = replicate MAX_LFN_LENGTH None,
        ds_lfnChkSum = 0, ds_lfnExists = False\<rparr>)"

definition FAT_directory_getFirstEntry ::
    "'mb char_env \<Rightarrow> 'd partition \<Rightarrow> dir_entry \<Rightarrow> u32 \<Rightarrow> ((bool \<times> dir_entry) \<times> 'd partition) option" where
  "FAT_directory_getFirstEntry env p entry dirCluster =
    (let start = \<lparr>dp_cluster = dirCluster, dp_sector = 0, dp_offset = -1\<rparr>
     in FAT_directory_getNextEntry env p (entry\<lparr>de_dataStart := start, de_dataEnd := start\<rparr>))"

definition FAT_directory_getRootEntry :: "'d partition \<Rightarrow> dir_entry" where
  "FAT_directory_getRootEntry p =
    (let start = \<lparr>dp_cluster = 0, dp_sector = 0, dp_offset = 0\<rparr>;
         data = (replicate 11 CH_SPACE @ replicate 21 0)[0 := CH_DOT, DIR_ENTRY_attributes := ATTRIB_DIR];
         data = u16_to_u8array data DIR_ENTRY_cluster (ucast (p_rootDirCluster p));
         data = u16_to_u8array data DIR_ENTRY_clusterHigh (ucast (drop_bit 16 (p_rootDirCluster p)))
     in \<lparr>de_entryData = data, de_dataStart = start, de_dataEnd = start, de_filename = [CH_DOT]\<rparr>)"

partial_function (option) getVolumeLabel_loop ::
    "'d partition \<Rightarrow> dir_pos \<Rightarrow> u8 list option \<Rightarrow> (u8 list option \<times> 'd partition) option" where
  "getVolumeLabel_loop p pos old =
    do {
      ((ok, data), p) \<leftarrow> readEntry p pos old;
      if \<not> ok then Some (None, p)
      else do {
        entryData \<leftarrow> data;
        if entryData ! DIR_ENTRY_attributes = ATTRIB_VOL \<and> entryData ! 0 \<noteq> DIR_ENTRY_FREE
        then Some (Some (take 11 entryData), p)
        else do {
          let last = (entryData ! 0 = DIR_ENTRY_LAST);
          ((ok, pos), p) \<leftarrow> FAT_directory_incrementDirEntryPosition no_malloc p pos False;
          if last \<or> \<not> ok then Some (None, p) else getVolumeLabel_loop p pos data
        }
      }
    }"

declare getVolumeLabel_loop.simps [code]

definition FAT_directory_getVolumeLabel :: "'d partition \<Rightarrow> (u8 list option \<times> 'd partition) option" where
  "FAT_directory_getVolumeLabel p =
    (let pos = de_dataEnd (FAT_directory_getRootEntry p);
         pos = (if dp_cluster pos = FAT16_ROOT_DIR_CLUSTER then pos\<lparr>dp_cluster := p_rootDirCluster p\<rparr> else pos)
     in getVolumeLabel_loop p pos None)"

end
