(* ===== verification/DirectoryOps.thy ===== *)
theory DirectoryOps
  imports Directory
begin

text \<open>
  The operations of \<open>source/directory.c\<close> that look up, remove and create entries. The model
  follows the loops of the code; a search along a chain that never ends is undefined.
\<close>

section \<open>Entries by position\<close>

definition clear_name :: "dir_entry \<Rightarrow> dir_entry" where
  "clear_name entry = entry\<lparr>de_filename := []\<rparr>"

text \<open>The loop over the entries from the start to the end position: the result is the C variable
  \<open>entryStillValid\<close>, the array of the long name and the data of the last entry.\<close>

partial_function (option) entryFromPosition_loop ::
    "'d partition \<Rightarrow> dir_pos \<Rightarrow> dir_pos \<Rightarrow> u8 list option \<Rightarrow> u16 option list
      \<Rightarrow> ((bool \<times> u16 option list \<times> u8 list option) \<times> 'd partition) option" where
  "entryFromPosition_loop p pos entryEnd old lfn =
    do {
      ((_, data), p) \<leftarrow> readEntry p pos old;
      entryData \<leftarrow> data;
      if pos = entryEnd then do {
        ((ok, _), p) \<leftarrow> FAT_directory_incrementDirEntryPosition no_malloc p pos False;
        Some ((ok, lfn, Some entryData), p)
      } else do {
        lfn \<leftarrow> lfn_store lfn entryData ((lfn_ordinal entryData - 1) * 13) LFN_offset_table;
        ((ok, pos), p) \<leftarrow> FAT_directory_incrementDirEntryPosition no_malloc p pos False;
        if ok then entryFromPosition_loop p pos entryEnd data lfn else Some ((False, lfn, None), p)
      }
    }"

declare entryFromPosition_loop.simps [code]

definition FAT_directory_entryFromPosition ::
    "'mb char_env \<Rightarrow> 'd partition \<Rightarrow> dir_entry \<Rightarrow> ((bool \<times> dir_entry) \<times> 'd partition) option" where
  "FAT_directory_entryFromPosition env p entry =
    do {
      ((ok, lfn, data), p) \<leftarrow> entryFromPosition_loop p (de_dataStart entry) (de_dataEnd entry) None
        (replicate MAX_LFN_LENGTH None);
      let entry = (case data of None \<Rightarrow> clear_name entry | Some d \<Rightarrow> (clear_name entry)\<lparr>de_entryData := d\<rparr>);
      if \<not> ok then Some ((False, entry), p)
      else if de_dataStart entry = de_dataEnd entry
      then let (ok, alias) = FAT_directory_entryGetAlias env (de_entryData entry)
           in Some ((ok, entry\<lparr>de_filename := alias\<rparr>), p)
      else do {
        name \<leftarrow> FAT_directory_ucs2tombs env lfn PATH_MAX;
        (case name of None \<Rightarrow> Some ((False, entry), p)
         | Some n \<Rightarrow> Some ((True, entry\<lparr>de_filename := n\<rparr>), p))
      }
    }"

section \<open>Entries by path\<close>

text \<open>Does the entry carry the name? First the long name, then the short one.\<close>

definition entry_matches :: "'mb char_env \<Rightarrow> u8 list \<Rightarrow> nat \<Rightarrow> dir_entry \<Rightarrow> bool option" where
  "entry_matches env name n entry =
    do {
      long \<leftarrow> (if n = strnlen (de_filename entry) PATH_MAX
        then do { d \<leftarrow> FAT_directory_mbsncasecmp env name (de_filename entry) n; Some (d = 0) }
        else Some False);
      let alias = snd (FAT_directory_entryGetAlias env (de_entryData entry));
      Some (long \<or> (n = strnlen alias MAX_ALIAS_LENGTH \<and> strncasecmp_eq env name alias n))
    }"

text \<open>The search in one directory. \<open>final\<close> tells that no further separator follows in the path. The
  result is \<open>foundFile\<close> when the loop is left.\<close>

partial_function (option) findInDirectory ::
    "'mb char_env \<Rightarrow> 'd partition \<Rightarrow> u8 list \<Rightarrow> nat \<Rightarrow> bool \<Rightarrow> bool \<Rightarrow> dir_entry
      \<Rightarrow> ((bool \<times> dir_entry) \<times> 'd partition) option" where
  "findInDirectory env p name n final foundFile entry =
    (if \<not> foundFile then Some ((False, entry), p)
     else do {
       found \<leftarrow> entry_matches env name n entry;
       if found \<and> (final \<or> FAT_directory_isDirectory entry) then Some ((True, entry), p)
       else do {
         ((foundFile, entry), p) \<leftarrow> FAT_directory_getNextEntry env p entry;
         findInDirectory env p name n final foundFile entry
       }
     })"

declare findInDirectory.simps [code]

definition skip_separators :: "u8 list \<Rightarrow> u8 list" where
  "skip_separators path = dropWhile (\<lambda>c. c = DIR_SEPARATOR) path"

text \<open>The walk along the path: \<open>path\<close> is the rest of the string, \<open>room\<close> the distance to \<open>pathEnd\<close>.\<close>

partial_function (option) entryFromPath_loop ::
    "'mb char_env \<Rightarrow> 'd partition \<Rightarrow> dir_entry \<Rightarrow> u32 \<Rightarrow> u8 list \<Rightarrow> int
      \<Rightarrow> ((bool \<times> dir_entry) \<times> 'd partition) option" where
  "entryFromPath_loop env p entry dirCluster path room =
    (let dirnameLength = length (takeWhile (\<lambda>c. c \<noteq> DIR_SEPARATOR) path);
         final = (dirnameLength = length path)
     in if dirnameLength > PATH_MAX then Some ((False, entry), p)
        else do {
          ((foundFile, entry), p) \<leftarrow>
            (if dirCluster = p_rootDirCluster p \<and>
                (strncmp_eq [CH_DOT] path dirnameLength \<or> strncmp_eq [CH_DOT, CH_DOT] path dirnameLength)
             then Some ((True, FAT_directory_getRootEntry p), p)
             else do {
               ((foundFile, entry), p) \<leftarrow> FAT_directory_getFirstEntry env p entry dirCluster;
               findInDirectory env p path dirnameLength final foundFile entry
             });
          if \<not> foundFile then Some ((False, entry), p)
          else if final \<or> int dirnameLength \<ge> room then Some ((True, entry), p)
          else if FAT_directory_isDirectory entry then do {
            let dirCluster = FAT_directory_entryGetCluster p (de_entryData entry);
            let dirCluster = (if dirCluster = CLUSTER_ROOT then p_rootDirCluster p else dirCluster);
            let rest = skip_separators (drop dirnameLength path);
            let room = room - (int (length path) - int (length rest));
            if room \<le> 0 then Some ((True, entry), p) else entryFromPath_loop env p entry dirCluster rest room
          } else None
        })"

declare entryFromPath_loop.simps [code]

text \<open>\<open>pathEnd\<close> is the index in the path at which to stop, or \<open>None\<close> for a null pointer.\<close>

definition FAT_directory_entryFromPath ::
    "'mb char_env \<Rightarrow> 'd partition \<Rightarrow> dir_entry \<Rightarrow> u8 list \<Rightarrow> nat option
      \<Rightarrow> ((bool \<times> dir_entry) \<times> 'd partition) option" where
  "FAT_directory_entryFromPath env p entry path pathEnd =
    (let pathEnd = (case pathEnd of None \<Rightarrow> length path | Some n \<Rightarrow> n);
         absolute = (path \<noteq> [] \<and> hd path = DIR_SEPARATOR);
         rest = (if absolute then skip_separators path else path);
         room = int pathEnd - (int (length path) - int (length rest))
     in do {
       ((found, entry), p) \<leftarrow>
         (if absolute \<and> room \<le> 0 then Some ((True, FAT_directory_getRootEntry p), p)
          else entryFromPath_loop env p entry (if absolute then p_rootDirCluster p else p_cwdCluster p) rest room);
       if \<not> found then Some ((False, entry), p)
       else if p_filesysType p = FS_FAT32 \<and> FAT_directory_isDirectory entry \<and>
         FAT_directory_entryGetCluster p (de_entryData entry) = CLUSTER_ROOT
       then Some ((True, FAT_directory_getRootEntry p), p)
       else Some ((True, entry), p)
     })"

section \<open>Removing\<close>

partial_function (option) removeEntry_loop ::
    "'d partition \<Rightarrow> dir_pos \<Rightarrow> dir_pos \<Rightarrow> u8 list option \<Rightarrow> (bool \<times> 'd partition) option" where
  "removeEntry_loop p pos entryEnd old =
    do {
      ((_, data), p) \<leftarrow> readEntry p pos old;
      entryData \<leftarrow> data;
      let entryData = entryData[0 := DIR_ENTRY_FREE];
      (_, p) \<leftarrow> writeEntry p pos entryData;
      ((ok, pos'), p) \<leftarrow> FAT_directory_incrementDirEntryPosition no_malloc p pos False;
      if ok \<and> pos \<noteq> entryEnd then removeEntry_loop p pos' entryEnd (Some entryData)
      else Some (ok, p)
    }"

declare removeEntry_loop.simps [code]

definition FAT_directory_removeEntry :: "'d partition \<Rightarrow> dir_entry \<Rightarrow> (bool \<times> 'd partition) option" where
  "FAT_directory_removeEntry p entry = removeEntry_loop p (de_dataStart entry) (de_dataEnd entry) None"

section \<open>Finding room\<close>

text \<open>The scan for \<open>size\<close> consecutive free entries; the result is \<open>entryStillValid\<close>,
  \<open>endOfDirectory\<close>, the gap so far, what is still missing, and the local array.\<close>

partial_function (option) findGap_loop ::
    "(nat \<Rightarrow> u8 list option) \<Rightarrow> 'd partition \<Rightarrow> nat \<Rightarrow> dir_pos \<Rightarrow> dir_pos \<Rightarrow> nat \<Rightarrow> u8 list option
      \<Rightarrow> ((bool \<times> bool \<times> dir_pos \<times> dir_pos \<times> nat) \<times> 'd partition) option" where
  "findGap_loop malloc p sz gapStart gapEnd remain old =
    (if remain = 0 then Some ((True, False, gapStart, gapEnd, 0), p)
     else do {
       ((_, data), p) \<leftarrow> readEntry p gapEnd old;
       entryData \<leftarrow> data;
       let free = (entryData ! 0 = DIR_ENTRY_LAST \<or> entryData ! 0 = DIR_ENTRY_FREE);
       let gapStart = (if free \<and> remain = sz then gapEnd else gapStart);
       let remain = (if free then remain - 1 else sz);
       if entryData ! 0 = DIR_ENTRY_LAST then Some ((True, True, gapStart, gapEnd, remain), p)
       else if remain = 0 then Some ((True, False, gapStart, gapEnd, 0), p)
       else do {
         ((ok, gapEnd), p) \<leftarrow> FAT_directory_incrementDirEntryPosition malloc p gapEnd True;
         if ok then findGap_loop malloc p sz gapStart gapEnd remain data
         else Some ((False, False, gapStart, gapEnd, remain), p)
       }
     })"

declare findGap_loop.simps [code]

text \<open>Moving the end mark: \<open>k\<close> entries behind the gap's end are overwritten with it. The result is
  \<open>entryStillValid\<close> and the position before the last increment.\<close>

fun moveEnd :: "(nat \<Rightarrow> u8 list option) \<Rightarrow> 'd partition \<Rightarrow> dir_pos \<Rightarrow> dir_pos \<Rightarrow> nat
    \<Rightarrow> ((bool \<times> dir_pos) \<times> 'd partition) option" where
  "moveEnd malloc p dataEnd gapEnd 0 = Some ((True, dataEnd), p)"
| "moveEnd malloc p dataEnd gapEnd (Suc k) =
     do {
       let dataEnd = gapEnd;
       ((ok, gapEnd), p) \<leftarrow> FAT_directory_incrementDirEntryPosition malloc p gapEnd True;
       (_, p) \<leftarrow> writeEntry p gapEnd (replicate 32 DIR_ENTRY_LAST);
       if ok then moveEnd malloc p dataEnd gapEnd k else Some ((False, dataEnd), p)
     }"

definition FAT_directory_findEntryGap ::
    "(nat \<Rightarrow> u8 list option) \<Rightarrow> 'd partition \<Rightarrow> dir_entry \<Rightarrow> u32 \<Rightarrow> nat
      \<Rightarrow> ((bool \<times> dir_entry) \<times> 'd partition) option" where
  "FAT_directory_findEntryGap malloc p entry dirCluster sz =
    (let start = \<lparr>dp_cluster = dirCluster, dp_sector = 0, dp_offset = 0\<rparr>
     in do {
       ((ok, endOfDirectory, gapStart, gapEnd, remain), p) \<leftarrow> findGap_loop malloc p sz start start sz None;
       if \<not> ok then Some ((False, entry), p)
       else do {
         let entry = entry\<lparr>de_dataStart := gapStart\<rparr>;
         if endOfDirectory then do {
           ((ok, dataEnd), p) \<leftarrow> moveEnd malloc p (de_dataEnd entry) gapEnd (remain + 1);
           Some ((ok, entry\<lparr>de_dataEnd := dataEnd\<rparr>), p)
         } else Some ((True, entry\<lparr>de_dataEnd := gapEnd\<rparr>), p)
       }
     })"

section \<open>Does a name exist?\<close>

partial_function (option) entryExists_loop ::
    "'mb char_env \<Rightarrow> 'd partition \<Rightarrow> u8 list \<Rightarrow> bool \<Rightarrow> dir_entry \<Rightarrow> (bool \<times> 'd partition) option" where
  "entryExists_loop env p name foundFile entry =
    (if \<not> foundFile then Some (False, p)
     else do {
       long \<leftarrow> (if strnlen name PATH_MAX = strnlen (de_filename entry) PATH_MAX
         then do { d \<leftarrow> FAT_directory_mbsncasecmp env name (de_filename entry) (strnlen name PATH_MAX); Some (d = 0) }
         else Some False);
       let alias = snd (FAT_directory_entryGetAlias env (de_entryData entry));
       if long \<or> strncasecmp_eq env name alias MAX_ALIAS_LENGTH then Some (True, p)
       else do {
         ((foundFile, entry), p) \<leftarrow> FAT_directory_getNextEntry env p entry;
         entryExists_loop env p name foundFile entry
       }
     })"

declare entryExists_loop.simps [code]

text \<open>\<open>blank_entry\<close> stands for the uninitialised local entry; only its positions are set before it
  is used.\<close>

definition blank_entry :: dir_entry where
  "blank_entry = (let pos = \<lparr>dp_cluster = 0, dp_sector = 0, dp_offset = 0\<rparr>
     in \<lparr>de_entryData = replicate 32 0, de_dataStart = pos, de_dataEnd = pos, de_filename = []\<rparr>)"

definition FAT_directory_entryExists ::
    "'mb char_env \<Rightarrow> 'd partition \<Rightarrow> u8 list \<Rightarrow> u32 \<Rightarrow> (bool \<times> 'd partition) option" where
  "FAT_directory_entryExists env p name dirCluster =
    (if strnlen name PATH_MAX \<ge> PATH_MAX then Some (False, p)
     else do {
       ((foundFile, entry), p) \<leftarrow> FAT_directory_getFirstEntry env p blank_entry dirCluster;
       entryExists_loop env p name foundFile entry
     })"


section \<open>Short names\<close>

text \<open>One character of the alias: the byte to store, or \<open>None\<close> for a space that is skipped, and
  whether the conversion loses something.\<close>

definition alias_char :: "'mb char_env \<Rightarrow> u32 \<Rightarrow> u8 option \<times> bool" where
  "alias_char env lfnChar =
    (let oemChar = wctob env (towupper env lfnChar);
         lossy = (wctob env lfnChar \<noteq> oemChar)
     in if oemChar = 0x20 then (None, True)
        else let (oemChar, lossy) = (if oemChar = -1 then (0x5F, True) else (oemChar, lossy));
                 c = (word_of_int oemChar :: u8)
             in if c = 0 \<or> c \<in> set ILLEGAL_ALIAS_CHARACTERS then (Some CH_UNDERSCORE, True)
                else (Some c, lossy))"

text \<open>The first part: the rest of the name, the alias and the flag. \<open>None\<close> inside the result is a
  name that cannot be converted.\<close>

partial_function (option) alias_primary ::
    "'mb char_env \<Rightarrow> 'mb \<Rightarrow> u8 list \<Rightarrow> nat \<Rightarrow> u8 list \<Rightarrow> bool \<Rightarrow> (u8 list \<times> nat \<times> u8 list \<times> bool) option option" where
  "alias_primary env st lfn lfnPos alias lossy =
    (if length alias < 8 \<and> lfn \<noteq> [] \<and> hd lfn \<noteq> CH_DOT
     then let (bytesUsed, w, st) = mbrtowc env st (lfn @ [0]) (PATH_MAX - lfnPos)
          in if bytesUsed < 0 then Some None
             else do {
               w \<leftarrow> w;
               let (c, l) = alias_char env w;
               alias_primary env st (drop (nat bytesUsed) lfn) (lfnPos + nat bytesUsed)
                 (case c of None \<Rightarrow> alias | Some c \<Rightarrow> alias @ [c]) (lossy \<or> l)
             }
     else Some (Some (lfn, lfnPos, alias, lossy)))"

declare alias_primary.simps [code]

text \<open>The extension: \<open>k\<close> characters are left to take; skipped spaces count.\<close>

fun alias_extension ::
    "'mb char_env \<Rightarrow> 'mb \<Rightarrow> u8 list \<Rightarrow> nat \<Rightarrow> u8 list \<Rightarrow> bool \<Rightarrow> nat \<Rightarrow> (u8 list \<times> u8 list \<times> bool) option option" where
  "alias_extension env st ext room alias lossy 0 = Some (Some (ext, alias, lossy))"
| "alias_extension env st ext room alias lossy (Suc k) =
     (if ext \<noteq> []
      then let (bytesUsed, w, st) = mbrtowc env st (ext @ [0]) room
           in if bytesUsed < 0 then Some None
              else do {
                w \<leftarrow> w;
                let (c, l) = alias_char env w;
                alias_extension env st (drop (nat bytesUsed) ext) room
                  (case c of None \<Rightarrow> alias | Some c \<Rightarrow> alias @ [c]) (lossy \<or> l) k
              }
      else Some (Some (ext, alias, lossy)))"

text \<open>The C result (-1 for an error, 0 for an exact match, else the length) and the alias.\<close>

definition FAT_directory_createAlias :: "'mb char_env \<Rightarrow> u8 list \<Rightarrow> (int \<times> u8 list) option" where
  "FAT_directory_createAlias env lfn =
    (let start = dropWhile (\<lambda>c. c = CH_DOT) lfn;
         lossy = (start \<noteq> lfn)
     in do {
       r \<leftarrow> alias_primary env (mb_init env) start (length lfn - length start) [] lossy;
       (case r of None \<Rightarrow> Some (-1, [])
        | Some (rest, lfnPos, alias, lossy) \<Rightarrow> do {
            let lossy = (lossy \<or> (rest \<noteq> [] \<and> hd rest \<noteq> CH_DOT));
            let dots = length (filter (\<lambda>c. c = CH_DOT) lfn);
            let lossy = (lossy \<or> 1 < dots);
            let ext = rev (takeWhile (\<lambda>c. c \<noteq> CH_DOT) (rev lfn));
            if 0 < dots \<and> ext \<noteq> []
            then do {
              r \<leftarrow> alias_extension env (mb_init env) ext (PATH_MAX - lfnPos) (alias @ [CH_DOT]) lossy 3;
              (case r of None \<Rightarrow> Some (-1, [])
               | Some (ext, alias, lossy) \<Rightarrow>
                   let lossy = (lossy \<or> ext \<noteq> [])
                   in Some (if lossy then int (length alias) else 0, alias))
            } else Some (if lossy then int (length alias) else 0, alias)
          })
     })"

section \<open>Creating entries\<close>

text \<open>The primary part of the alias padded to eight characters, and the numeric tail \<open>~i\<close>
  written over its end.\<close>

definition pad_alias :: "u8 list \<Rightarrow> u8 list" where
  "pad_alias alias =
    (let i = length (takeWhile (\<lambda>c. c \<noteq> CH_DOT) alias)
     in if i < 8 then take i alias @ replicate (8 - i) CH_UNDERSCORE @ drop i alias else alias)"

fun put_digits :: "nat \<Rightarrow> nat \<Rightarrow> u8 list \<Rightarrow> nat \<Rightarrow> u8 list" where
  "put_digits 0 j alias pos = alias[pos := 0x7E]"
| "put_digits (Suc k) j alias pos =
     (if j = 0 then alias[pos := 0x7E]
      else put_digits k (j div 10) (alias[pos := 0x30 + of_nat (j mod 10)]) (pos - 1))"

definition numeric_tail :: "u8 list \<Rightarrow> nat \<Rightarrow> u8 list" where
  "numeric_tail alias i = put_digits 7 i alias 7"

text \<open>The first numeric tail from \<open>i\<close> on that makes a new name, \<open>k\<close> of them left.\<close>

fun find_tail :: "'mb char_env \<Rightarrow> 'd partition \<Rightarrow> u8 list \<Rightarrow> u32 \<Rightarrow> nat \<Rightarrow> nat \<Rightarrow> (u8 list option \<times> 'd partition) option" where
  "find_tail env p alias dirCluster i 0 = Some (None, p)"
| "find_tail env p alias dirCluster i (Suc k) =
     (let alias = numeric_tail alias i
      in do {
        (taken, p) \<leftarrow> FAT_directory_entryExists env p alias dirCluster;
        if \<not> taken then Some (Some alias, p) else find_tail env p alias dirCluster (i + 1) k
      })"

text \<open>The eleven bytes of the entry for an alias.\<close>

definition alias_bytes :: "u8 list \<Rightarrow> u8 list" where
  "alias_bytes alias =
    (let primary = take 8 (takeWhile (\<lambda>c. c \<noteq> CH_DOT) alias);
         rest = drop (length primary) alias;
         ext = (if rest \<noteq> [] \<and> hd rest = CH_DOT then take 3 (tl rest) else [])
     in primary @ replicate (8 - length primary) CH_SPACE @ ext @ replicate (3 - length ext) CH_SPACE)"

text \<open>Reading the array of the long name at an index.\<close>

definition lfn_at :: "u16 list \<Rightarrow> nat \<Rightarrow> u16 option" where
  "lfn_at lfn k = (if k < length lfn then Some (lfn ! k) else None)"

fun lfn_chars :: "u16 list \<Rightarrow> nat \<Rightarrow> nat \<Rightarrow> nat list \<Rightarrow> u8 list \<Rightarrow> u8 list option" where
  "lfn_chars lfn base j [] data = Some data"
| "lfn_chars lfn base j (off # offs) data =
     do {
       c \<leftarrow> lfn_at lfn (base + j);
       if c = 0 then do {
         prev \<leftarrow> (if j > 1 then do { d \<leftarrow> lfn_at lfn (base + j - 1); Some (d = 0) } else Some False);
         lfn_chars lfn base (j + 1) offs (u16_to_u8array data off (if prev then 0xffff else 0))
       } else lfn_chars lfn base (j + 1) offs (u16_to_u8array data off c)
     }"

text \<open>The long name entry \<open>i - 1\<close> of \<open>entrySize - 1\<close>.\<close>

definition lfn_entry :: "u16 list \<Rightarrow> nat \<Rightarrow> nat \<Rightarrow> u8 \<Rightarrow> u8 list option" where
  "lfn_entry lfn entrySize i chk =
    do {
      let data = (replicate 32 0)[LFN_offset_ordinal := of_nat (i - 1) OR (if i = entrySize then LFN_END else 0)];
      data \<leftarrow> lfn_chars lfn ((i - 2) * 13) 0 LFN_offset_table data;
      let data = data[LFN_offset_checkSum := chk, LFN_offset_flag := ATTRIB_LFN, LFN_offset_reserved1 := 0];
      Some (u16_to_u8array data LFN_offset_reserved2 0)
    }"

text \<open>Writing the entries from position \<open>pos\<close> on, \<open>i\<close> of them left.\<close>

fun write_entries :: "'d partition \<Rightarrow> dir_pos \<Rightarrow> u16 list \<Rightarrow> nat \<Rightarrow> u8 \<Rightarrow> u8 list \<Rightarrow> nat \<Rightarrow> 'd partition option" where
  "write_entries p pos lfn entrySize chk entryData 0 = Some p"
| "write_entries p pos lfn entrySize chk entryData (Suc i) =
     do {
       data \<leftarrow> (if 0 < i then lfn_entry lfn entrySize (Suc i) chk else Some entryData);
       (_, p) \<leftarrow> writeEntry p pos data;
       ((ok, pos), p) \<leftarrow> FAT_directory_incrementDirEntryPosition no_malloc p pos False;
       if ok then write_entries p pos lfn entrySize chk entryData i else Some p
     }"

text \<open>The name to create, without trailing spaces.\<close>

definition trim_name :: "u8 list \<Rightarrow> u8 list" where
  "trim_name name = rev (dropWhile (\<lambda>c. c = CH_SPACE) (rev name))"

text \<open>The alias for a name, and the number of entries it takes; \<open>None\<close> in the result when the
  function fails.\<close>

definition choose_alias ::
    "'mb char_env \<Rightarrow> 'd partition \<Rightarrow> u8 list \<Rightarrow> nat \<Rightarrow> u32 \<Rightarrow> ((u8 list \<times> nat) option \<times> 'd partition) option" where
  "choose_alias env p name lfnLen dirCluster =
    do {
      (aliasLen, alias) \<leftarrow> FAT_directory_createAlias env name;
      if aliasLen < 0 then Some (None, p)
      else if aliasLen = 0 then Some (Some (alias, 1), p)
      else do {
        let entrySize = (lfnLen + 12) div 13 + 1;
        (clash, p) \<leftarrow> (if \<not> strncasecmp_eq env alias name MAX_ALIAS_LENGTH then Some (True, p)
          else FAT_directory_entryExists env p alias dirCluster);
        if clash then do {
          (r, p) \<leftarrow> find_tail env p (pad_alias alias) dirCluster 1 MAX_NUMERIC_TAIL;
          Some (map_option (\<lambda>a. (a, entrySize)) r, p)
        } else Some (Some (alias, entrySize), p)
      }
    }"

definition FAT_directory_addEntry ::
    "'mb char_env \<Rightarrow> (nat \<Rightarrow> u8 list option) \<Rightarrow> 'd partition \<Rightarrow> dir_entry \<Rightarrow> u32
      \<Rightarrow> ((bool \<times> dir_entry) \<times> 'd partition) option" where
  "FAT_directory_addEntry env malloc p entry dirCluster =
    (let name = trim_name (de_filename entry);
         entry = entry\<lparr>de_filename := name\<rparr>
     in if strnlen name PATH_MAX < 1 then Some ((False, entry), p)
        else do {
          lfnLen \<leftarrow> FAT_directory_lfnLength env name;
          if lfnLen < 0 then Some ((False, entry), p)
          else do {
            (exists, p) \<leftarrow> FAT_directory_entryExists env p name dirCluster;
            if exists then Some ((False, entry), p)
            else do {
              (r, p) \<leftarrow> (if name = [CH_DOT] then Some (Some (CH_DOT # replicate 10 CH_SPACE, 1, 0), p)
                else if name = [CH_DOT, CH_DOT] then Some (Some (CH_DOT # CH_DOT # replicate 9 CH_SPACE, 1, 0), p)
                else do {
                  (r, p) \<leftarrow> choose_alias env p name (nat lfnLen) dirCluster;
                  Some (map_option (\<lambda>(alias, entrySize). (alias_bytes alias, entrySize, alias_checksum (alias_bytes alias))) r, p)
                });
              (case r of None \<Rightarrow> Some ((False, entry), p)
               | Some (short, entrySize, chk) \<Rightarrow> do {
                   let entry = entry\<lparr>de_entryData := short @ drop 11 (de_entryData entry)\<rparr>;
                   ((ok, entry), p) \<leftarrow> FAT_directory_findEntryGap malloc p entry dirCluster entrySize;
                   if \<not> ok then Some ((False, entry), p)
                   else do {
                     (_, chars) \<leftarrow> FAT_directory_mbstoucs2 env name MAX_LFN_LENGTH;
                     let lfn = chars @ replicate (MAX_LFN_LENGTH - length chars) 0;
                     p \<leftarrow> write_entries p (de_dataStart entry) lfn entrySize chk (de_entryData entry) entrySize;
                     Some ((True, entry), p)
                   }
                 })
            }
          }
        })"

section \<open>The current directory and file status\<close>

definition FAT_directory_chdir :: "'mb char_env \<Rightarrow> 'd partition \<Rightarrow> u8 list \<Rightarrow> (bool \<times> 'd partition) option" where
  "FAT_directory_chdir env p path =
    do {
      ((found, entry), p) \<leftarrow> FAT_directory_entryFromPath env p blank_entry path None;
      if \<not> found then Some (False, p)
      else if \<not> FAT_directory_isDirectory entry then Some (False, p)
      else Some (True, p\<lparr>p_cwdCluster := FAT_directory_entryGetCluster p (de_entryData entry)\<rparr>)
    }"

record 't stat =
  st_dev :: u32
  st_ino :: u32
  st_dir :: bool
  st_writable :: bool
  st_nlink :: nat
  st_uid :: nat
  st_gid :: nat
  st_rdev :: u32
  st_size :: u32
  st_atime :: 't
  st_mtime :: 't
  st_ctime :: 't

text \<open>The mode bits are kept as their two varying parts: the type and the write permissions; the
  read permissions are always set.\<close>

definition FAT_directory_entryStat :: "(tm \<Rightarrow> 't) \<Rightarrow> 'd partition \<Rightarrow> dir_entry \<Rightarrow> 't stat" where
  "FAT_directory_entryStat mktime p entry =
    (let data = de_entryData entry
     in \<lparr>st_dev = FAT_disc_hostType (p_disc p), st_ino = FAT_directory_entryGetCluster p data,
         st_dir = FAT_directory_isDirectory entry, st_writable = FAT_directory_isWritable entry,
         st_nlink = 1, st_uid = 1, st_gid = 2, st_rdev = FAT_disc_hostType (p_disc p),
         st_size = u8array_to_u32 data DIR_ENTRY_fileSize,
         st_atime = FAT_filetime_to_time_t mktime 0 (u8array_to_u16 data DIR_ENTRY_aDate),
         st_mtime = FAT_filetime_to_time_t mktime (u8array_to_u16 data DIR_ENTRY_mTime) (u8array_to_u16 data DIR_ENTRY_mDate),
         st_ctime = FAT_filetime_to_time_t mktime (u8array_to_u16 data DIR_ENTRY_cTime) (u8array_to_u16 data DIR_ENTRY_cDate)\<rparr>)"

end
