(* ===== verification/File.thy ===== *)
theory File
  imports DirectoryOps
begin

text \<open>
  Open files: \<open>source/fatfile.h\<close> and \<open>source/fatfile.c\<close>. A \<open>FILE_STRUCT\<close> is a record without its
  pointer to the partition, which is passed along. The functions on one open file take the record
  and return it changed; those that link files into the partition's list work on a heap of
  records, in the theory \<open>OpenFiles\<close>. The error a call leaves in \<open>errno\<close> is returned beside
  its C result. \<open>off_t\<close> has 32 bits on the modelled target.
\<close>

section \<open>Data\<close>

datatype errno = EBADF | EIO | ENOSPC | EINVAL | EOVERFLOW | EFBIG | ENODEV | EACCES | EROFS | EEXIST
  | EISDIR | ENOTDIR | ENOENT | ENOTEMPTY | EPERM | EXDEV | ENAMETOOLONG | ENOMEM | ENOTSUP

definition FILE_MAX_SIZE :: u32 where "FILE_MAX_SIZE = 0xFFFFFFFF"

record file_pos =
  fp_cluster :: u32
  fp_sector :: sec_t
  fp_byte :: u32

record file_struct =
  f_filesize :: u32
  f_startCluster :: u32
  f_currentPosition :: u32
  f_rwPosition :: file_pos
  f_appendPosition :: file_pos
  f_dirEntryStart :: dir_pos
  f_dirEntryEnd :: dir_pos
  f_prevOpenFile :: "nat option"
  f_nextOpenFile :: "nat option"
  f_read :: bool
  f_write :: bool
  f_append :: bool
  f_inUse :: bool
  f_modified :: bool

definition file_sector :: "'d partition \<Rightarrow> file_pos \<Rightarrow> sec_t" where
  "file_sector p pos = FAT_fat_clusterToSector p (fp_cluster pos) + fp_sector pos"

section \<open>Reading\<close>

text \<open>The local state of \<open>_FAT_read_r\<close>. \<open>rd_out\<close> is what was stored in the caller's buffer up to the
  moving pointer; \<open>None\<close> marks a byte a failed partial read left as it was.\<close>

record 'd reading =
  rd_part :: "'d partition"
  rd_pos :: file_pos
  rd_remain :: u32
  rd_out :: "u8 option list"
  rd_ok :: bool
  rd_errno :: "errno option"

definition read_partial :: "'d reading \<Rightarrow> u32 \<Rightarrow> u32 \<Rightarrow> 'd reading option" where
  "read_partial s off n =
    do {
      (r, p) \<leftarrow> on_cache (\<lambda>c. FAT_cache_readPartialSector c (file_sector (rd_part s) (rd_pos s)) off n) (rd_part s);
      Some (s\<lparr>rd_part := p, rd_remain := rd_remain s - n,
        rd_out := rd_out s @ (case r of None \<Rightarrow> replicate (unat n) None | Some d \<Rightarrow> map Some d)\<rparr>)
    }"

text \<open>Reading \<open>n\<close> sectors at the position, into the buffer; the pointer moves only on success.\<close>

definition read_sectors :: "'d reading \<Rightarrow> sec_t \<Rightarrow> u32 \<Rightarrow> 'd reading option" where
  "read_sectors s sector n =
    (let p = rd_part s
     in do {
       (ok, data, c) \<leftarrow> FAT_cache_readSectors (p_cache p) sector n;
       let s = s\<lparr>rd_part := p\<lparr>p_cache := c\<rparr>\<rparr>;
       if \<not> ok then Some (s\<lparr>rd_ok := False, rd_errno := Some EIO\<rparr>)
       else Some (s\<lparr>rd_out := rd_out s @ map Some data, rd_remain := rd_remain s - n * p_bytesPerSector p,
         rd_pos := (rd_pos s)\<lparr>fp_sector := fp_sector (rd_pos s) + n\<rparr>\<rparr>)
     })"

definition read_align_sector :: "'d reading \<Rightarrow> 'd reading option" where
  "read_align_sector s =
    (let bps = p_bytesPerSector (rd_part s);
         tempVar = bps - fp_byte (rd_pos s);
         tempVar = (if tempVar > rd_remain s then rd_remain s else tempVar)
     in if tempVar < bps \<and> rd_ok s
        then do {
          s \<leftarrow> read_partial s (fp_byte (rd_pos s)) tempVar;
          let pos = rd_pos s;
          let pos = pos\<lparr>fp_byte := fp_byte pos + tempVar\<rparr>;
          let pos = (if fp_byte pos \<ge> bps then pos\<lparr>fp_byte := 0, fp_sector := fp_sector pos + 1\<rparr> else pos);
          Some (s\<lparr>rd_pos := pos\<rparr>)
        } else Some s)"

definition read_align_cluster :: "'d reading \<Rightarrow> 'd reading option" where
  "read_align_cluster s =
    (let p = rd_part s;
         bps = p_bytesPerSector p;
         left = p_sectorsPerCluster p - fp_sector (rd_pos s)
     in if bps = 0 then None
        else let tempVar = (if rd_remain s > left * bps then left else rd_remain s div bps)
             in if tempVar > 0 \<and> rd_ok s then read_sectors s (file_sector p (rd_pos s)) tempVar else Some s)"

text \<open>Advancing to the next cluster, which is \<open>n\<close>, behind cluster \<open>c\<close>; at the end of the file the
  position stays behind the last sector of \<open>c\<close>.\<close>

definition read_advance :: "'d reading \<Rightarrow> u32 \<Rightarrow> u32 \<Rightarrow> 'd reading" where
  "read_advance s c n =
    (let p = rd_part s
     in if rd_remain s = 0 \<and> n = CLUSTER_EOF
        then s\<lparr>rd_pos := (rd_pos s)\<lparr>fp_sector := p_sectorsPerCluster p, fp_cluster := c\<rparr>\<rparr>
        else if \<not> FAT_fat_isValidCluster p n then s\<lparr>rd_errno := Some EIO, rd_ok := False\<rparr>
        else s\<lparr>rd_pos := (rd_pos s)\<lparr>fp_sector := 0, fp_cluster := n\<rparr>\<rparr>)"

definition read_next_cluster :: "'d reading \<Rightarrow> 'd reading option" where
  "read_next_cluster s =
    (if fp_sector (rd_pos s) \<ge> p_sectorsPerCluster (rd_part s) \<and> rd_ok s
     then do {
       (n, p) \<leftarrow> FAT_fat_nextCluster (rd_part s) (fp_cluster (rd_pos s));
       Some (read_advance (s\<lparr>rd_part := p\<rparr>) (fp_cluster (rd_pos s)) n)
     } else Some s)"

text \<open>Collecting consecutive clusters; \<open>LIMIT_SECTORS\<close> is not defined on the modelled target.\<close>

partial_function (option) chunk_loop ::
    "'d partition \<Rightarrow> u32 \<Rightarrow> u32 \<Rightarrow> u32 \<Rightarrow> ((u32 \<times> u32 \<times> u32) \<times> 'd partition) option" where
  "chunk_loop p nextChunkStart chunkSize remain =
    (let chunkEnd = nextChunkStart
     in do {
       (nextChunkStart, p) \<leftarrow> FAT_fat_nextCluster p chunkEnd;
       let chunkSize = chunkSize + p_bytesPerCluster p;
       if nextChunkStart = chunkEnd + 1 \<and> chunkSize + p_bytesPerCluster p \<le> remain
       then chunk_loop p nextChunkStart chunkSize remain
       else Some ((chunkEnd, nextChunkStart, chunkSize), p)
     })"

declare chunk_loop.simps [code]

partial_function (option) read_clusters :: "'d reading \<Rightarrow> 'd reading option" where
  "read_clusters s =
    (if rd_remain s \<ge> p_bytesPerCluster (rd_part s) \<and> rd_ok s
     then do {
       ((chunkEnd, nextChunkStart, chunkSize), p) \<leftarrow> chunk_loop (rd_part s) (fp_cluster (rd_pos s)) 0 (rd_remain s);
       (ok, data, c) \<leftarrow> FAT_cache_readSectors (p_cache p) (FAT_fat_clusterToSector p (fp_cluster (rd_pos s)))
         (chunkSize div p_bytesPerSector p);
       let s = s\<lparr>rd_part := p\<lparr>p_cache := c\<rparr>\<rparr>;
       if \<not> ok then Some (s\<lparr>rd_ok := False, rd_errno := Some EIO\<rparr>)
       else read_clusters (read_advance (s\<lparr>rd_out := rd_out s @ map Some data, rd_remain := rd_remain s - chunkSize\<rparr>)
         chunkEnd nextChunkStart)
     } else Some s)"

declare read_clusters.simps [code]

definition read_rest_sectors :: "'d reading \<Rightarrow> 'd reading option" where
  "read_rest_sectors s =
    (let p = rd_part s; tempVar = rd_remain s div p_bytesPerSector p
     in if tempVar > 0 \<and> rd_ok s
        then read_sectors s (FAT_fat_clusterToSector p (fp_cluster (rd_pos s))) tempVar else Some s)"

definition read_tail :: "'d reading \<Rightarrow> 'd reading option" where
  "read_tail s =
    (if rd_remain s > 0 \<and> rd_ok s
     then do {
       let n = rd_remain s;
       s \<leftarrow> read_partial s 0 n;
       Some (s\<lparr>rd_pos := (rd_pos s)\<lparr>fp_byte := fp_byte (rd_pos s) + n\<rparr>, rd_remain := 0\<rparr>)
     } else Some s)"

text \<open>The body of \<open>_FAT_read_r\<close>, from the position to the end of the request.\<close>

definition read_body :: "'d reading \<Rightarrow> 'd reading option" where
  "read_body s =
    do {
      s \<leftarrow> read_align_sector s;
      s \<leftarrow> read_align_cluster s;
      s \<leftarrow> read_next_cluster s;
      s \<leftarrow> read_clusters s;
      s \<leftarrow> read_rest_sectors s;
      read_tail s
    }"

text \<open>The C result is the number of bytes read, \<open>None\<close> for -1; then what was stored, the error and
  the new file and partition.\<close>

type_synonym 'd read_outcome = "(u32 option \<times> u8 option list \<times> errno option) \<times> file_struct \<times> 'd partition"

definition FAT_read_r :: "file_struct \<Rightarrow> 'd partition \<Rightarrow> u32 \<Rightarrow> 'd read_outcome option" where
  "FAT_read_r file p len =
    (if len = 0 then Some ((Some 0, [], None), file, p)
     else if \<not> f_inUse file \<or> \<not> f_read file then Some ((None, [], Some EBADF), file, p)
     else if f_currentPosition file \<ge> f_filesize file \<or> f_startCluster file = CLUSTER_FREE
     then Some ((Some 0, [], Some EOVERFLOW), file, p)
     else let over = (len + f_currentPosition file > f_filesize file);
              len = (if over then f_filesize file - f_currentPosition file else len)
          in do {
            s \<leftarrow> read_body \<lparr>rd_part = p, rd_pos = f_rwPosition file, rd_remain = len, rd_out = [], rd_ok = True,
              rd_errno = (if over then Some EOVERFLOW else None)\<rparr>;
            let n = len - rd_remain s;
            Some ((Some n, rd_out s, rd_errno s),
              file\<lparr>f_rwPosition := rd_pos s, f_currentPosition := f_currentPosition file + n\<rparr>, rd_part s)
          })"

section \<open>Writing\<close>

text \<open>The flag is the C result, with the error set; \<open>ok\<close> is what \<open>flagNoError\<close> points to (true where the
  caller passes no flag). Afterwards the flag holds \<open>ok \<and> result\<close>.\<close>

definition FAT_check_position_for_next_cluster ::
    "file_pos \<Rightarrow> 'd partition \<Rightarrow> u32 \<Rightarrow> bool \<Rightarrow> ((bool \<times> file_pos \<times> errno option) \<times> 'd partition) option" where
  "FAT_check_position_for_next_cluster position p remain ok =
    (if remain = 0 then Some ((True, position, None), p)
     else if \<not> ok then Some ((False, position, None), p)
     else if fp_sector position > p_sectorsPerCluster p then Some ((False, position, Some EINVAL), p)
     else if fp_sector position = p_sectorsPerCluster p then do {
       (tempNextCluster, p) \<leftarrow> FAT_fat_nextCluster p (fp_cluster position);
       (tempNextCluster, p) \<leftarrow> (if tempNextCluster = CLUSTER_EOF \<or> tempNextCluster = CLUSTER_FREE
         then FAT_fat_linkFreeCluster p (fp_cluster position) else Some (tempNextCluster, p));
       if \<not> FAT_fat_isValidCluster p tempNextCluster then Some ((False, position, Some ENOSPC), p)
       else Some ((True, position\<lparr>fp_sector := 0, fp_cluster := tempNextCluster\<rparr>, None), p)
     } else Some ((True, position, None), p))"

definition zero_partial :: "'d partition \<Rightarrow> file_pos \<Rightarrow> u32 \<Rightarrow> u32 \<Rightarrow> 'd partition option" where
  "zero_partial p pos off n =
    do {
      (_, p) \<leftarrow> on_cache (\<lambda>c. FAT_cache_writePartialSector c (replicate (unat (p_bytesPerSector p)) 0)
        (file_sector p pos) off n) p;
      Some p
    }"

text \<open>The loop that zeroes whole sectors, allocating clusters on the way; \<open>None\<close> inside the result is
  the return when the disc is full.\<close>

partial_function (option) extend_loop ::
    "'d partition \<Rightarrow> file_pos \<Rightarrow> u32 \<Rightarrow> ((file_pos \<times> u32) option \<times> 'd partition) option" where
  "extend_loop p position remain =
    (if remain \<ge> p_bytesPerSector p
     then do {
       (pos, p) \<leftarrow> (if fp_sector position \<ge> p_sectorsPerCluster p
         then do {
           (n, p) \<leftarrow> FAT_fat_linkFreeCluster p (fp_cluster position);
           Some (if FAT_fat_isValidCluster p n then Some (position\<lparr>fp_sector := 0, fp_cluster := n\<rparr>) else None, p)
         } else Some (Some position, p));
       (case pos of None \<Rightarrow> Some (None, p)
        | Some position \<Rightarrow> do {
            (_, p) \<leftarrow> writeRun p (file_sector p position) 1 (replicate (unat (p_bytesPerSector p)) 0);
            extend_loop p (position\<lparr>fp_sector := fp_sector position + 1\<rparr>) (remain - p_bytesPerSector p)
          })
     } else Some (Some (position, remain), p))"

declare extend_loop.simps [code]

definition FAT_file_extend_r ::
    "file_struct \<Rightarrow> 'd partition \<Rightarrow> ((bool \<times> errno option) \<times> file_struct \<times> 'd partition) option" where
  "FAT_file_extend_r file p =
    (let bps = p_bytesPerSector p;
         grown = (\<lambda>position. file\<lparr>f_rwPosition := position, f_filesize := f_currentPosition file\<rparr>)
     in if bps = 0 \<or> p_bytesPerCluster p = 0 then None
        else do {
          (cluster, p) \<leftarrow> FAT_fat_lastCluster p (f_startCluster file);
          let position = \<lparr>fp_cluster = cluster, fp_sector = f_filesize file mod p_bytesPerCluster p div bps,
            fp_byte = f_filesize file mod bps\<rparr>;
          let remain = f_currentPosition file - f_filesize file;
          (pos, p) \<leftarrow> (if remain > 0 \<and> f_filesize file > 0 \<and> fp_sector position = 0 \<and> fp_byte position = 0
            then do {
              (n, p) \<leftarrow> FAT_fat_linkFreeCluster p (fp_cluster position);
              Some (if FAT_fat_isValidCluster p n then Some (position\<lparr>fp_sector := 0, fp_cluster := n\<rparr>) else None, p)
            } else Some (Some position, p));
          (case pos of None \<Rightarrow> Some ((False, Some ENOSPC), file, p)
           | Some position \<Rightarrow>
               if remain + fp_byte position < bps then do {
                 p \<leftarrow> zero_partial p position (fp_byte position) remain;
                 Some ((True, None), grown (position\<lparr>fp_byte := fp_byte position + remain\<rparr>), p)
               } else do {
                 p \<leftarrow> (if fp_byte position > 0
                   then zero_partial p position (fp_byte position) (bps - fp_byte position) else Some p);
                 let (remain, position) = (if fp_byte position > 0
                   then (remain - (bps - fp_byte position),
                     position\<lparr>fp_byte := 0, fp_sector := fp_sector position + 1\<rparr>)
                   else (remain, position));
                 (r, p) \<leftarrow> extend_loop p position remain;
                 (case r of None \<Rightarrow> Some ((False, Some ENOSPC), file, p)
                  | Some (position, remain) \<Rightarrow> do {
                      ((ok, position, err), p) \<leftarrow> FAT_check_position_for_next_cluster position p remain True;
                      if \<not> ok then Some ((False, err), file, p)
                      else if remain > 0 then do {
                        p \<leftarrow> zero_partial p position 0 remain;
                        Some ((True, None), grown (position\<lparr>fp_byte := remain\<rparr>), p)
                      } else Some ((True, None), grown position, p)
                    })
               })
        })"

text \<open>The local state of \<open>_FAT_write_r\<close>; \<open>wr_src\<close> is the caller's buffer from the moving pointer on.\<close>

record 'd writing =
  wr_part :: "'d partition"
  wr_pos :: file_pos
  wr_remain :: u32
  wr_src :: "u8 list"
  wr_ok :: bool
  wr_errno :: "errno option"

definition note_errno :: "errno option \<Rightarrow> errno option \<Rightarrow> errno option" where
  "note_errno new old = (case new of None \<Rightarrow> old | Some e \<Rightarrow> Some e)"

definition write_check :: "'d writing \<Rightarrow> 'd writing option" where
  "write_check s =
    do {
      ((r, pos, err), p) \<leftarrow> FAT_check_position_for_next_cluster (wr_pos s) (wr_part s) (wr_remain s) (wr_ok s);
      Some (s\<lparr>wr_part := p, wr_pos := pos, wr_ok := wr_ok s \<and> r, wr_errno := note_errno err (wr_errno s)\<rparr>)
    }"

text \<open>The result of the partial writes is ignored.\<close>

definition write_align_sector :: "'d writing \<Rightarrow> 'd writing option" where
  "write_align_sector s =
    (let bps = p_bytesPerSector (wr_part s); pos = wr_pos s;
         tempVar = bps - fp_byte pos;
         tempVar = (if tempVar > wr_remain s then wr_remain s else tempVar)
     in if tempVar < bps \<and> wr_ok s
        then do {
          (_, p) \<leftarrow> on_cache (\<lambda>c. FAT_cache_writePartialSector c (wr_src s) (file_sector (wr_part s) pos)
            (fp_byte pos) tempVar) (wr_part s);
          let pos = pos\<lparr>fp_byte := fp_byte pos + tempVar\<rparr>;
          let pos = (if fp_byte pos \<ge> bps then pos\<lparr>fp_byte := 0, fp_sector := fp_sector pos + 1\<rparr> else pos);
          Some (s\<lparr>wr_part := p, wr_pos := pos, wr_remain := wr_remain s - tempVar,
            wr_src := drop (unat tempVar) (wr_src s)\<rparr>)
        } else Some s)"

definition write_sectors :: "'d writing \<Rightarrow> sec_t \<Rightarrow> u32 \<Rightarrow> 'd writing option" where
  "write_sectors s sector n =
    do {
      (ok, p) \<leftarrow> writeRun (wr_part s) sector n (wr_src s);
      let s = s\<lparr>wr_part := p\<rparr>;
      let k = n * p_bytesPerSector p;
      if \<not> ok then Some (s\<lparr>wr_ok := False, wr_errno := Some EIO\<rparr>)
      else Some (s\<lparr>wr_src := drop (unat k) (wr_src s), wr_remain := wr_remain s - k,
        wr_pos := (wr_pos s)\<lparr>fp_sector := fp_sector (wr_pos s) + n\<rparr>\<rparr>)
    }"

definition write_align_cluster :: "'d writing \<Rightarrow> 'd writing option" where
  "write_align_cluster s =
    (let p = wr_part s; bps = p_bytesPerSector p;
         left = p_sectorsPerCluster p - fp_sector (wr_pos s)
     in if bps = 0 then None
        else let tempVar = (if wr_remain s > left * bps then left else wr_remain s div bps)
             in if tempVar > 0 \<and> tempVar < p_sectorsPerCluster p \<and> wr_ok s
                then write_sectors s (file_sector p (wr_pos s)) tempVar else Some s)"

text \<open>Grouping consecutive clusters: \<open>chunkEnd\<close>, \<open>nextChunkStart\<close>, \<open>chunkSize\<close>, the flag and the error.\<close>

partial_function (option) group_loop ::
    "'d partition \<Rightarrow> file_pos \<Rightarrow> u32 \<Rightarrow> u32 \<Rightarrow> u32 \<Rightarrow> u32
      \<Rightarrow> ((u32 \<times> u32 \<times> u32 \<times> bool \<times> errno option) \<times> 'd partition) option" where
  "group_loop p next_position chunkEnd nextChunkStart chunkSize remain =
    (if chunkSize + p_bytesPerCluster p < remain
     then do {
       ((ok, next_position, err), p) \<leftarrow> FAT_check_position_for_next_cluster
         (next_position\<lparr>fp_sector := p_sectorsPerCluster p\<rparr>) p (remain - chunkSize) True;
       if \<not> ok then Some ((chunkEnd, nextChunkStart, chunkSize, False, err), p)
       else let nextChunkStart = fp_cluster next_position
            in if nextChunkStart \<noteq> chunkEnd + 1 then Some ((chunkEnd, nextChunkStart, chunkSize, True, None), p)
               else group_loop p next_position nextChunkStart nextChunkStart (chunkSize + p_bytesPerCluster p) remain
     } else Some ((chunkEnd, nextChunkStart, chunkSize, True, None), p))"

declare group_loop.simps [code]

partial_function (option) write_clusters :: "'d writing \<Rightarrow> 'd writing option" where
  "write_clusters s =
    (if wr_remain s \<ge> p_bytesPerCluster (wr_part s) \<and> wr_ok s
     then do {
       s \<leftarrow> write_check s;
       if \<not> wr_ok s then Some s
       else do {
         let cl = fp_cluster (wr_pos s);
         ((chunkEnd, nextChunkStart, chunkSize, ok, err), p) \<leftarrow>
           group_loop (wr_part s) (wr_pos s) cl cl (p_bytesPerCluster (wr_part s)) (wr_remain s);
         let s = s\<lparr>wr_ok := ok, wr_errno := note_errno err (wr_errno s)\<rparr>;
         (ok, p) \<leftarrow> writeRun p (FAT_fat_clusterToSector p cl) (chunkSize div p_bytesPerSector p) (wr_src s);
         let s = s\<lparr>wr_part := p\<rparr>;
         if \<not> ok then Some (s\<lparr>wr_ok := False, wr_errno := Some EIO\<rparr>)
         else let pos = (if chunkEnd \<noteq> nextChunkStart \<and> FAT_fat_isValidCluster p nextChunkStart
                then (wr_pos s)\<lparr>fp_cluster := nextChunkStart, fp_sector := 0\<rparr>
                else (wr_pos s)\<lparr>fp_cluster := chunkEnd, fp_sector := p_sectorsPerCluster p\<rparr>)
              in write_clusters (s\<lparr>wr_pos := pos, wr_src := drop (unat chunkSize) (wr_src s),
                   wr_remain := wr_remain s - chunkSize\<rparr>)
       }
     } else Some s)"

declare write_clusters.simps [code]

definition write_rest_sectors :: "'d writing \<Rightarrow> 'd writing option" where
  "write_rest_sectors s =
    (let p = wr_part s; tempVar = wr_remain s div p_bytesPerSector p
     in if tempVar > 0 \<and> wr_ok s
        then write_sectors s (FAT_fat_clusterToSector p (fp_cluster (wr_pos s))) tempVar else Some s)"

definition write_tail :: "bool \<Rightarrow> 'd writing \<Rightarrow> 'd writing option" where
  "write_tail appending s =
    (if wr_remain s > 0 \<and> wr_ok s
     then do {
       let sector = file_sector (wr_part s) (wr_pos s);
       (_, p) \<leftarrow> on_cache (\<lambda>c. if appending
         then FAT_cache_eraseWritePartialSector c (wr_src s) sector 0 (wr_remain s)
         else FAT_cache_writePartialSector c (wr_src s) sector 0 (wr_remain s)) (wr_part s);
       Some (s\<lparr>wr_part := p, wr_pos := (wr_pos s)\<lparr>fp_byte := fp_byte (wr_pos s) + wr_remain s\<rparr>, wr_remain := 0\<rparr>)
     } else Some s)"

definition write_body :: "bool \<Rightarrow> 'd writing \<Rightarrow> 'd writing option" where
  "write_body appending s =
    do {
      s \<leftarrow> write_check s;
      s \<leftarrow> write_align_sector s;
      s \<leftarrow> write_align_cluster s;
      s \<leftarrow> write_clusters s;
      s \<leftarrow> write_check s;
      s \<leftarrow> write_rest_sectors s;
      write_tail appending s
    }"

text \<open>The C result, \<open>None\<close> for -1, and the error, with the new file and partition. \<open>src\<close> is the
  memory behind the caller's pointer.\<close>

type_synonym 'd write_outcome = "(u32 option \<times> errno option) \<times> file_struct \<times> 'd partition"

text \<open>A cluster for the start of the file, if it has none; \<open>False\<close> when the disc is full.\<close>

definition write_start :: "file_struct \<Rightarrow> 'd partition \<Rightarrow> (bool \<times> file_struct \<times> 'd partition) option" where
  "write_start file p =
    (if f_startCluster file = CLUSTER_FREE
     then do {
       (n, p) \<leftarrow> FAT_fat_linkFreeCluster p CLUSTER_FREE;
       if \<not> FAT_fat_isValidCluster p n then Some (False, file, p)
       else let pos = \<lparr>fp_cluster = n, fp_sector = 0, fp_byte = 0\<rparr>
            in Some (True, file\<lparr>f_startCluster := n, f_appendPosition := pos, f_rwPosition := pos\<rparr>, p)
     } else Some (True, file, p))"

definition write_finish :: "file_struct \<Rightarrow> 'd writing \<Rightarrow> u32 \<Rightarrow> 'd write_outcome" where
  "write_finish file s len =
    (let n = len - wr_remain s;
         file = file\<lparr>f_modified := True\<rparr>;
         file = (if f_append file
           then file\<lparr>f_appendPosition := wr_pos s, f_filesize := f_filesize file + n\<rparr>
           else let cur = f_currentPosition file + n
                in file\<lparr>f_rwPosition := wr_pos s, f_currentPosition := cur,
                     f_filesize := (if f_filesize file < cur then cur else f_filesize file)\<rparr>)
     in ((Some n, wr_errno s), file, wr_part s))"

definition FAT_write_r :: "file_struct \<Rightarrow> 'd partition \<Rightarrow> u8 list \<Rightarrow> u32 \<Rightarrow> 'd write_outcome option" where
  "FAT_write_r file p src len =
    (if \<not> f_inUse file \<or> \<not> f_write file then Some ((None, Some EBADF), file, p)
     else let len = (if len + f_filesize file > FILE_MAX_SIZE \<or> len + f_filesize file < f_filesize file
                then FILE_MAX_SIZE - f_filesize file else len)
          in if len = 0 then Some ((Some 0, None), file, p)
             else do {
               (ok, file, p) \<leftarrow> write_start file p;
               if \<not> ok then Some ((None, Some ENOSPC), file, p)
               else do {
                 ((ok, err), file, p) \<leftarrow> (if \<not> f_append file \<and> f_currentPosition file > f_filesize file
                   then FAT_file_extend_r file p else Some ((True, None), file, p));
                 if \<not> ok then Some ((None, err), file, p)
                 else do {
                   let position = (if f_append file then f_appendPosition file else f_rwPosition file);
                   let appending = (f_append file \<or> len + f_currentPosition file > f_filesize file);
                   s \<leftarrow> write_body appending \<lparr>wr_part = p, wr_pos = position, wr_remain = len, wr_src = src,
                     wr_ok = True, wr_errno = err\<rparr>;
                   Some (write_finish file s len)
                 }
               }
             })"

end
