(* ===== verification/FileData.thy ===== *)
theory FileData
  imports File FatForest
begin

text \<open>
  The bytes of a file: the sectors of the clusters of its chain, one after the other. A position
  of the file structure (cluster, sector in the cluster, byte in the sector) stands for an offset
  into them; both \<open>(c, sectorsPerCluster, 0)\<close> and \<open>(d, 0, 0)\<close> with \<open>d\<close> the cluster behind \<open>c\<close>
  stand for the offset at the end of \<open>c\<close>.
\<close>

section \<open>Clusters as bytes\<close>

definition volume_ok :: "('d \<Rightarrow> sec_t \<Rightarrow> u8 list) \<Rightarrow> 'd partition \<Rightarrow> bool" where
  "volume_ok med p \<longleftrightarrow> part_ok med p \<and> data_ok p \<and>
     unat (p_bytesPerCluster p) = unat (p_sectorsPerCluster p) * unat (p_bytesPerSector p)"

definition cluster_bytes :: "(sec_t \<Rightarrow> u8 list) \<Rightarrow> 'd partition \<Rightarrow> u32 \<Rightarrow> u8 list" where
  "cluster_bytes v p c = sectors_of v (FAT_fat_clusterToSector p c) (unat (p_sectorsPerCluster p))"

definition chain_bytes :: "(sec_t \<Rightarrow> u8 list) \<Rightarrow> 'd partition \<Rightarrow> u32 list \<Rightarrow> u8 list" where
  "chain_bytes v p cs = concat (map (cluster_bytes v p) cs)"

abbreviation bps :: "'d partition \<Rightarrow> nat" where "bps p \<equiv> unat (p_bytesPerSector p)"
abbreviation spc :: "'d partition \<Rightarrow> nat" where "spc p \<equiv> unat (p_sectorsPerCluster p)"
abbreviation bpc :: "'d partition \<Rightarrow> nat" where "bpc p \<equiv> unat (p_bytesPerCluster p)"

lemma volume_okD:
  assumes "volume_ok med p"
  shows "part_ok med p" "data_ok p" "bpc p = spc p * bps p" "0 < bps p" "0 < spc p" "0 < bpc p" "bps p \<le> bpc p"
    "length (pview med p s) = bps p" "bps p dvd bpc p"
proof -
  show ok: "part_ok med p" and "data_ok p" and bpc: "bpc p = spc p * bps p"
    using assms by (simp_all add: volume_ok_def)
  show pos: "0 < bps p" "0 < spc p"
    using fat_wfD(3,5) [OF part_okD(2) [OF ok]] by (auto simp: word_eq_iff_unat_eq)
  then show "0 < bpc p" "bps p \<le> bpc p" "bps p dvd bpc p" by (simp_all add: bpc)
  show "length (pview med p s) = bps p" by (rule part_okD(3) [OF ok])
qed

lemma length_cluster_bytes: "(\<And>s. length (v s) = bps p) \<Longrightarrow> length (cluster_bytes v p c) = spc p * bps p"
  by (simp add: cluster_bytes_def length_sectors_of)

lemma concat_slice:
  assumes "\<And>x. x \<in> set xs \<Longrightarrow> length x = n" and "k < length xs" and "a + m \<le> n"
  shows "slice (concat xs) (k * n + a) m = slice (xs ! k) a m"
  using assms
proof (induction xs arbitrary: k)
  case (Cons x xs)
  show ?case
  proof (cases k)
    case 0
    have "length x = n" using Cons.prems(1) by simp
    then show ?thesis using 0 Cons.prems(3) by (simp add: slice_def)
  next
    case (Suc j)
    have "length x = n" using Cons.prems(1) by simp
    then have "slice (concat (x # xs)) (k * n + a) m = slice (concat xs) (j * n + a) m"
      by (simp add: slice_def Suc)
    then show ?thesis using Cons.IH [of j] Cons.prems Suc by simp
  qed
qed simp

lemma length_concat_equal: "(\<And>x. x \<in> set xs \<Longrightarrow> length x = n) \<Longrightarrow> length (concat xs) = length xs * n"
  by (induction xs) auto

lemma length_chain_bytes:
  "volume_ok med p \<Longrightarrow> length (chain_bytes (pview med p) p cs) = length cs * bpc p"
  using length_cluster_bytes [of "pview med p" p] volume_okD(3,8) [of med p]
  unfolding chain_bytes_def by (subst length_concat_equal [where n = "bpc p"]) auto

text \<open>What lies at a place inside a cluster of the chain.\<close>

lemma slice_of_run:
  assumes "\<And>s. length (v s) = b" and "a + m \<le> n"
  shows "slice (sectors_of v s n) (a * b) (m * b) = sectors_of v (s + of_nat a) m"
proof -
  have "n = a + (m + (n - (a + m)))" using assms(2) by simp
  then have "sectors_of v s n = sectors_of v s a @ sectors_of v (s + of_nat a) m @
      sectors_of v (s + of_nat a + of_nat m) (n - (a + m))"
    by (metis sectors_of_add)
  then show ?thesis by (simp add: slice_def length_sectors_of [OF assms(1)])
qed

lemma run_slice:
  assumes ok: "volume_ok med p" and k: "k < length cs" and a: "a + m \<le> spc p"
  shows "slice (chain_bytes (pview med p) p cs) (k * bpc p + a * bps p) (m * bps p) =
    sectors_of (pview med p) (FAT_fat_clusterToSector p (cs ! k) + of_nat a) m"
proof -
  note vd = volume_okD [OF ok]
  have "a * bps p + m * bps p \<le> bpc p"
    using mult_le_mono1 [OF a, of "bps p"] by (simp add: vd(3) add_mult_distrib)
  then have "slice (chain_bytes (pview med p) p cs) (k * bpc p + a * bps p) (m * bps p) =
      slice (map (cluster_bytes (pview med p) p) cs ! k) (a * bps p) (m * bps p)"
    unfolding chain_bytes_def using length_cluster_bytes [of "pview med p" p] vd(3,8) k
    by (intro concat_slice) auto
  also have "\<dots> = sectors_of (pview med p) (FAT_fat_clusterToSector p (cs ! k) + of_nat a) m"
    using slice_of_run [OF vd(8) a] k by (simp add: cluster_bytes_def)
  finally show ?thesis .
qed

lemma sector_slice:
  assumes ok: "volume_ok med p" and k: "k < length cs" and a: "a < spc p" and m: "b + m \<le> bps p"
  shows "slice (chain_bytes (pview med p) p cs) (k * bpc p + a * bps p + b) m =
    slice (pview med p (FAT_fat_clusterToSector p (cs ! k) + of_nat a)) b m"
proof -
  have "slice (chain_bytes (pview med p) p cs) (k * bpc p + a * bps p + b) m =
      slice (slice (chain_bytes (pview med p) p cs) (k * bpc p + a * bps p) (1 * bps p)) b m"
    using m by (simp add: slice_slice)
  also have "slice (chain_bytes (pview med p) p cs) (k * bpc p + a * bps p) (1 * bps p) =
      pview med p (FAT_fat_clusterToSector p (cs ! k) + of_nat a)"
    using run_slice [OF ok k, of a 1] a by (simp add: sectors_of_Suc)
  finally show ?thesis .
qed

text \<open>Clusters with consecutive numbers are consecutive on the disc.\<close>

lemma next_cluster_sector:
  assumes "volume_ok med p" and "FAT_fat_isValidCluster p c" and "FAT_fat_isValidCluster p (c + 1)"
  shows "FAT_fat_clusterToSector p (c + 1) = FAT_fat_clusterToSector p c + of_nat (spc p)"
proof -
  note d = volume_okD(2) [OF assms(1)]
  have "2 \<le> unat c" "unat (c + 1) \<noteq> 0" using assms(2,3) by (auto simp: valid_unat)
  then obtain m where m: "unat c = m + 2" by (metis le_add_diff_inverse2)
  have "unat (c + 1) = unat c + 1"
    using \<open>unat (c + 1) \<noteq> 0\<close> unat_lt_2p32 [of c] by (auto simp: unat_word_ariths mod_Suc split: if_splits)
  with m have "unat (FAT_fat_clusterToSector p (c + 1)) = unat (FAT_fat_clusterToSector p c) + spc p"
    using clusterToSector_valid(1) [OF d assms(2)] clusterToSector_valid(1) [OF d assms(3)] m by simp
  then show ?thesis
    using clusterToSector_valid(2) [OF d assms(2)] unat_lt_2p32 [of "c_endOfPartition (p_cache p)"]
    by (intro word_eqI_unat) (simp add: unat_add_small)
qed

definition consecutive :: "u32 list \<Rightarrow> nat \<Rightarrow> nat \<Rightarrow> bool" where
  "consecutive cs k j \<longleftrightarrow> (\<forall>i < j. cs ! (k + Suc i) = cs ! (k + i) + 1)"

lemma consecutive_run:
  assumes ok: "volume_ok med p" and V: "\<And>c. c \<in> set cs \<Longrightarrow> FAT_fat_isValidCluster p c"
    and k: "k + j < length cs" and con: "consecutive cs k j"
  shows "FAT_fat_clusterToSector p (cs ! (k + j)) = FAT_fat_clusterToSector p (cs ! k) + of_nat (j * spc p)"
    and "slice (chain_bytes (pview med p) p cs) (k * bpc p) (Suc j * bpc p) =
      sectors_of (pview med p) (FAT_fat_clusterToSector p (cs ! k)) (Suc j * spc p)"
proof -
  have start: "FAT_fat_clusterToSector p (cs ! (k + i)) = FAT_fat_clusterToSector p (cs ! k) + of_nat (i * spc p)"
    if "i \<le> j" for i
    using that
  proof (induction i)
    case (Suc i)
    then have "cs ! (k + Suc i) = cs ! (k + i) + 1" using con by (simp add: consecutive_def)
    moreover have "FAT_fat_isValidCluster p (cs ! (k + i))" "FAT_fat_isValidCluster p (cs ! (k + Suc i))"
      using V [of "cs ! (k + i)"] V [of "cs ! (k + Suc i)"] Suc.prems k by simp_all
    ultimately show ?case using next_cluster_sector [OF ok, of "cs ! (k + i)"] Suc by (simp add: algebra_simps)
  qed simp
  show "FAT_fat_clusterToSector p (cs ! (k + j)) = FAT_fat_clusterToSector p (cs ! k) + of_nat (j * spc p)"
    using start [of j] by simp
  have run: "slice (chain_bytes (pview med p) p cs) (k * bpc p) (i * bpc p) =
      sectors_of (pview med p) (FAT_fat_clusterToSector p (cs ! k)) (i * spc p)" if "i \<le> Suc j" for i
    using that
  proof (induction i)
    case 0
    then show ?case by (simp add: slice_def)
  next
    case (Suc i)
    have "slice (chain_bytes (pview med p) p cs) (k * bpc p + i * bpc p) (bpc p) =
        sectors_of (pview med p) (FAT_fat_clusterToSector p (cs ! (k + i))) (spc p)"
      using run_slice [OF ok, of "k + i" cs 0 "spc p"] Suc.prems k
      by (simp add: volume_okD(3) [OF ok] add_mult_distrib)
    then show ?case
      using Suc start [of i] slice_add [of "chain_bytes (pview med p) p cs" "k * bpc p" "i * bpc p" "bpc p"]
        sectors_of_add [of "pview med p" "FAT_fat_clusterToSector p (cs ! k)" "i * spc p" "spc p"]
      by (simp add: add.commute)
  qed
  then show "slice (chain_bytes (pview med p) p cs) (k * bpc p) (Suc j * bpc p) =
      sectors_of (pview med p) (FAT_fat_clusterToSector p (cs ! k)) (Suc j * spc p)" by blast
qed

text \<open>Where the sectors of a valid cluster are.\<close>

lemma cluster_sector:
  assumes "volume_ok med p" and "FAT_fat_isValidCluster p c" and "a \<le> spc p"
  shows "unat (FAT_fat_clusterToSector p c + of_nat a) = unat (FAT_fat_clusterToSector p c) + a"
    and "unat (FAT_fat_clusterToSector p c) + spc p \<le> unat (c_endOfPartition (p_cache p))"
proof -
  show le: "unat (FAT_fat_clusterToSector p c) + spc p \<le> unat (c_endOfPartition (p_cache p))"
    by (rule clusterToSector_valid(2) [OF volume_okD(2) [OF assms(1)] assms(2)])
  show "unat (FAT_fat_clusterToSector p c + of_nat a) = unat (FAT_fat_clusterToSector p c) + a"
    using le assms(3) unat_lt_2p32 [of "c_endOfPartition (p_cache p)"] by (intro unat_offset) simp
qed

lemma consecutive_room:
  assumes ok: "volume_ok med p" and V: "\<And>c. c \<in> set cs \<Longrightarrow> FAT_fat_isValidCluster p c"
    and k: "k + j < length cs" and con: "consecutive cs k j"
  shows "unat (FAT_fat_clusterToSector p (cs ! k)) + Suc j * spc p \<le> unat (c_endOfPartition (p_cache p))"
proof -
  have start: "unat (FAT_fat_clusterToSector p (cs ! (k + i))) = unat (FAT_fat_clusterToSector p (cs ! k)) + i * spc p"
    if "i \<le> j" for i
    using that
  proof (induction i)
    case (Suc i)
    then have "cs ! (k + Suc i) = cs ! (k + i) + 1" using con by (simp add: consecutive_def)
    moreover have "FAT_fat_isValidCluster p (cs ! (k + i))" "FAT_fat_isValidCluster p (cs ! (k + Suc i))"
      using V [of "cs ! (k + i)"] V [of "cs ! (k + Suc i)"] Suc.prems k by simp_all
    ultimately show ?case
      using next_cluster_sector [OF ok, of "cs ! (k + i)"] cluster_sector(1) [OF ok, of "cs ! (k + i)" "spc p"] Suc
      by simp
  qed simp
  have "FAT_fat_isValidCluster p (cs ! (k + j))" using V [of "cs ! (k + j)"] k by simp
  from cluster_sector(2) [OF ok this, of 0] show ?thesis using start [of j] by simp
qed

section \<open>Positions\<close>

definition pos_at :: "'d partition \<Rightarrow> u32 list \<Rightarrow> file_pos \<Rightarrow> nat \<Rightarrow> bool" where
  "pos_at p cs pos n \<longleftrightarrow> (\<exists>k < length cs. fp_cluster pos = cs ! k \<and>
     n = k * bpc p + unat (fp_sector pos) * bps p + unat (fp_byte pos) \<and> unat (fp_byte pos) < bps p \<and>
     unat (fp_sector pos) \<le> spc p \<and> (unat (fp_sector pos) = spc p \<longrightarrow> fp_byte pos = 0))"

lemma volume_same:
  assumes "same_part p p'"
  shows "bps p' = bps p" "spc p' = spc p" "bpc p' = bpc p" "cluster_bytes v p' = cluster_bytes v p"
    "chain_bytes v p' = chain_bytes v p" "pos_at p' = pos_at p" "FAT_fat_clusterToSector p' = FAT_fat_clusterToSector p"
    "file_sector p' = file_sector p" "data_ok p' = data_ok p" "FAT_fat_isValidCluster p' = FAT_fat_isValidCluster p"
proof -
  note sp = same_partD [OF assms]
  show c: "FAT_fat_clusterToSector p' = FAT_fat_clusterToSector p"
    by (simp add: fun_eq_iff FAT_fat_clusterToSector_def sp)
  show "bps p' = bps p" "spc p' = spc p" "bpc p' = bpc p" by (simp_all add: sp)
  show cb: "cluster_bytes v p' = cluster_bytes v p" by (simp add: fun_eq_iff cluster_bytes_def c sp)
  show "chain_bytes v p' = chain_bytes v p" by (simp add: fun_eq_iff chain_bytes_def cb)
  show "pos_at p' = pos_at p" by (simp add: fun_eq_iff pos_at_def sp)
  show "file_sector p' = file_sector p" by (simp add: fun_eq_iff file_sector_def c)
  show "data_ok p' = data_ok p" by (simp add: data_ok_def sp)
  show "FAT_fat_isValidCluster p' = FAT_fat_isValidCluster p" by (rule isValid_same [OF assms])
qed

lemma volume_kept:
  assumes "pkept med p p'" and "volume_ok med p"
  shows "volume_ok med p'"
  using assms(2) pkeptD(1) [OF assms(1)] volume_same [OF pkeptD(2) [OF assms(1)]] by (simp add: volume_ok_def)


section \<open>The chain of a file\<close>

definition file_chain :: "('d \<Rightarrow> sec_t \<Rightarrow> u8 list) \<Rightarrow> 'd partition \<Rightarrow> u32 list \<Rightarrow> bool" where
  "file_chain med p cs \<longleftrightarrow> volume_ok med p \<and> chain (fat_table med p) (FAT_fat_isValidCluster p) cs \<and>
     fat_table med p (last cs) = CLUSTER_EOF"

lemma file_chainD:
  assumes "file_chain med p cs"
  shows "volume_ok med p" "part_ok med p" "data_ok p" "chain (fat_table med p) (FAT_fat_isValidCluster p) cs"
    "fat_table med p (last cs) = CLUSTER_EOF" "cs \<noteq> []" "k < length cs \<Longrightarrow> FAT_fat_isValidCluster p (cs ! k)"
    "c \<in> set cs \<Longrightarrow> FAT_fat_isValidCluster p c"
proof -
  show v: "volume_ok med p" and ch: "chain (fat_table med p) (FAT_fat_isValidCluster p) cs"
    and "fat_table med p (last cs) = CLUSTER_EOF"
    using assms by (simp_all add: file_chain_def)
  show "part_ok med p" "data_ok p" "cs \<noteq> []" using volume_okD(1,2) [OF v] ch by auto
  show "c \<in> set cs \<Longrightarrow> FAT_fat_isValidCluster p c" for c by (rule chain_valid [OF ch])
  then show "k < length cs \<Longrightarrow> FAT_fat_isValidCluster p (cs ! k)" by simp
qed

lemma file_chain_kept:
  assumes "pkept med p p'" and "file_chain med p cs"
  shows "file_chain med p' cs"
  using assms volume_kept [OF assms(1)] unfolding file_chain_def pkept_valid [OF assms(1)] pkept_table [OF assms(1)]
  by blast

lemma valid_not_mark:
  assumes "file_chain med p cs" and "FAT_fat_isValidCluster p c"
  shows "c \<noteq> CLUSTER_FREE" and "c \<noteq> CLUSTER_EOF"
  using proper_valid [OF file_chainD(2) [OF assms(1)]] assms(2) by (auto simp: proper_def)

lemma chain_head_used:
  assumes "file_chain med p cs"
  shows "hd cs \<noteq> CLUSTER_FREE" and "hd cs = cs ! 0"
  using valid_not_mark(1) [OF assms, of "hd cs"] file_chainD(6,8) [OF assms] by (simp_all add: hd_conv_nth)

text \<open>The cluster behind one of the chain.\<close>

lemma file_chain_next:
  assumes "file_chain med p cs" and "k < length cs"
  shows "fat_table med p (cs ! k) = (if Suc k < length cs then cs ! Suc k else CLUSTER_EOF)"
proof (cases "Suc k < length cs")
  case True
  then have "cs = take k cs @ cs ! k # cs ! Suc k # drop (Suc (Suc k)) cs"
    by (metis Cons_nth_drop_Suc Suc_lessD id_take_nth_drop)
  then show ?thesis using chain_link [of "fat_table med p" "FAT_fat_isValidCluster p" "take k cs"]
      file_chainD(4) [OF assms(1)] True by metis
next
  case False
  then have "cs ! k = last cs" using assms(2) file_chainD(6) [OF assms(1)] by (metis Suc_lessI diff_Suc_1 last_conv_nth)
  then show ?thesis using file_chainD(5) [OF assms(1)] False by simp
qed

end
