(* ===== verification/FileRead.thy ===== *)
theory FileRead
  imports FileData
begin

text \<open>
  Reading a file returns its bytes. The proof follows \<open>_FAT_read_r\<close> from one alignment step to the
  next; \<open>reading_at\<close> is the invariant: the position stands for an offset in the chain, and
  what was stored so far is the slice of the chain's bytes up to that offset.
\<close>

section \<open>Transfers\<close>

lemma read_partial_sector:
  assumes ok: "volume_ok med (rd_part s)"
    and t: "unat (file_sector (rd_part s) (rd_pos s)) < unat (c_endOfPartition (p_cache (rd_part s)))"
    and n: "unat off + unat n \<le> bps (rd_part s)"
  obtains p' where "read_partial s off n = Some (s\<lparr>rd_part := p', rd_remain := rd_remain s - n, rd_out := rd_out s @
      map Some (slice (pview med (rd_part s) (file_sector (rd_part s) (rd_pos s))) (unat off) (unat n))\<rparr>)"
    and "pkept med (rd_part s) p'"
proof -
  let ?p = "rd_part s" let ?t = "file_sector ?p (rd_pos s)"
  note pok = volume_okD(1) [OF ok]
  have bps: "unat (c_bytesPerSector (p_cache ?p)) = bps ?p"
    using fat_wfD(2) [OF part_okD(2) [OF pok]] by simp
  have t': "?t < c_endOfPartition (p_cache ?p)" using t by (simp add: word_less_nat_alt)
  obtain c' where c': "FAT_cache_readPartialSector (p_cache ?p) ?t off n =
      Some (Some (slice (cview med (p_cache ?p) ?t) (unat off) (unat n)), c')" "store_inv med c'"
    "cview med c' = cview med (p_cache ?p)" "c_endOfPartition c' = c_endOfPartition (p_cache ?p)"
    "unat (c_bytesPerSector c') = unat (c_bytesPerSector (p_cache ?p))"
    by (rule store.get_cases [OF part_okD(1) [OF pok] t', of off n]) (use n bps in auto)
  have "pkept med ?p (?p\<lparr>p_cache := c'\<rparr>)"
    using cache_step [OF pok c'(2,4,5)] c'(3) by (simp add: pkept_def pview_def)
  then show thesis
    using c'(1) by (intro that [of "?p\<lparr>p_cache := c'\<rparr>"]) (simp_all add: read_partial_def on_cache_def pview_def)
qed

lemma read_partial_step:
  assumes ok: "volume_ok med (rd_part s)" and c: "FAT_fat_isValidCluster (rd_part s) (fp_cluster (rd_pos s))"
    and a: "unat (fp_sector (rd_pos s)) < spc (rd_part s)" and n: "unat off + unat n \<le> bps (rd_part s)"
  obtains p' where "read_partial s off n = Some (s\<lparr>rd_part := p', rd_remain := rd_remain s - n, rd_out := rd_out s @
      map Some (slice (pview med (rd_part s) (file_sector (rd_part s) (rd_pos s))) (unat off) (unat n))\<rparr>)"
    and "pkept med (rd_part s) p'"
proof -
  have "unat (file_sector (rd_part s) (rd_pos s)) < unat (c_endOfPartition (p_cache (rd_part s)))"
    using cluster_sector [OF ok c, of "unat (fp_sector (rd_pos s))"] a by (simp add: file_sector_def)
  then show thesis by (rule read_partial_sector [OF ok _ n that])
qed

lemma read_run_step:
  assumes ok: "volume_ok med p" and n: "unat t + unat n \<le> unat (c_endOfPartition (p_cache p))"
  obtains c where "FAT_cache_readSectors (p_cache p) t n = Some (True, sectors_of (pview med p) t (unat n), c)"
    and "pkept med p (p\<lparr>p_cache := c\<rparr>)"
proof -
  note pok = volume_okD(1) [OF ok]
  obtain c where c: "FAT_cache_readSectors (p_cache p) t n = Some (True, sectors_of (cview med (p_cache p)) t (unat n), c)"
    "store_inv med c" "cview med c = cview med (p_cache p)" "c_endOfPartition c = c_endOfPartition (p_cache p)"
    "unat (c_bytesPerSector c) = unat (c_bytesPerSector (p_cache p))"
    using runs.getrun_law [OF part_okD(1) [OF pok] n] by blast
  have "pkept med p (p\<lparr>p_cache := c\<rparr>)"
    using cache_step [OF pok c(2,4,5)] c(3) by (simp add: pkept_def pview_def)
  then show thesis using c(1) by (intro that [of c]) (simp_all add: pview_def)
qed

section \<open>The invariant\<close>

definition reading_at :: "('d \<Rightarrow> sec_t \<Rightarrow> u8 list) \<Rightarrow> 'd partition \<Rightarrow> u32 list \<Rightarrow> nat \<Rightarrow> nat \<Rightarrow> nat \<Rightarrow> 'd reading \<Rightarrow> bool" where
  "reading_at med p cs start fin n s \<longleftrightarrow> pkept med p (rd_part s) \<and> rd_ok s \<and> pos_at p cs (rd_pos s) n \<and>
     start \<le> n \<and> n + unat (rd_remain s) = fin \<and>
     rd_out s = map Some (slice (chain_bytes (pview med p) p cs) start (n - start))"

lemma reading_atD:
  assumes "reading_at med p cs start fin n s"
  shows "pkept med p (rd_part s)" "rd_ok s" "pos_at p cs (rd_pos s) n" "start \<le> n" "n + unat (rd_remain s) = fin"
    "rd_out s = map Some (slice (chain_bytes (pview med p) p cs) start (n - start))"
  using assms by (simp_all add: reading_at_def)

lemma reading_more:
  assumes "reading_at med p cs start fin n s" and "pkept med (rd_part s) q"
    and "pos_at p cs pos (n + unat m)" and "unat m \<le> unat (rd_remain s)"
    and "data = slice (chain_bytes (pview med p) p cs) n (unat m)"
  shows "reading_at med p cs start fin (n + unat m)
    (s\<lparr>rd_part := q, rd_pos := pos, rd_remain := rd_remain s - m, rd_out := rd_out s @ map Some data\<rparr>)"
proof -
  note r = reading_atD [OF assms(1)]
  have "unat (rd_remain s - m) = unat (rd_remain s) - unat m" using assms(4) by (rule unat_sub_le)
  moreover have "slice (chain_bytes (pview med p) p cs) start (n + unat m - start) =
      slice (chain_bytes (pview med p) p cs) start (n - start) @ data"
    using r(4) slice_add [of "chain_bytes (pview med p) p cs" start "n - start" "unat m"] assms(5) by simp
  ultimately show ?thesis
    using r assms(3,4) pkept_trans [OF r(1) assms(2)] by (simp add: reading_at_def)
qed


text \<open>The cluster of the position, and what a state knows of it.\<close>

lemma reading_place:
  assumes "file_chain med p cs" and "reading_at med p cs start fin n s"
  obtains k where "k < length cs" and "fp_cluster (rd_pos s) = cs ! k"
    and "n = k * bpc p + unat (fp_sector (rd_pos s)) * bps p + unat (fp_byte (rd_pos s))"
    and "unat (fp_byte (rd_pos s)) < bps p" and "unat (fp_sector (rd_pos s)) \<le> spc p"
    and "unat (fp_sector (rd_pos s)) = spc p \<Longrightarrow> fp_byte (rd_pos s) = 0"
    and "file_chain med (rd_part s) cs" and "same_part p (rd_part s)" and "pview med (rd_part s) = pview med p"
    and "FAT_fat_isValidCluster (rd_part s) (cs ! k)"
proof -
  note k = reading_atD(1) [OF assms(2)]
  have fc: "file_chain med (rd_part s) cs" by (rule file_chain_kept [OF k assms(1)])
  show thesis
    using reading_atD(3) [OF assms(2)] that fc pkeptD(2,3) [OF k] file_chainD(7) [OF fc] unfolding pos_at_def by blast
qed

section \<open>The steps\<close>

definition at_sector_start :: "'d reading \<Rightarrow> bool" where
  "at_sector_start s \<longleftrightarrow> rd_remain s = 0 \<or> fp_byte (rd_pos s) = 0"

lemma read_align_sector_spec:
  assumes fc: "file_chain med p cs" and at: "reading_at med p cs start fin n s"
    and start: "unat (fp_sector (rd_pos s)) < spc p \<or> bps p \<le> unat (rd_remain s)"
  obtains s' n' where "read_align_sector s = Some s'" and "reading_at med p cs start fin n' s'"
    and "at_sector_start s'" and "rd_errno s' = rd_errno s"
proof -
  obtain k where k: "k < length cs" "fp_cluster (rd_pos s) = cs ! k"
    "n = k * bpc p + unat (fp_sector (rd_pos s)) * bps p + unat (fp_byte (rd_pos s))"
    "unat (fp_byte (rd_pos s)) < bps p" "file_chain med (rd_part s) cs" "same_part p (rd_part s)"
    "pview med (rd_part s) = pview med p" "FAT_fat_isValidCluster (rd_part s) (cs ! k)"
    "unat (fp_sector (rd_pos s)) \<le> spc p" "unat (fp_sector (rd_pos s)) = spc p \<Longrightarrow> fp_byte (rd_pos s) = 0"
    using reading_place [OF fc at] by metis
  note vs = volume_same [OF k(6)] and ok = file_chainD(1) [OF k(5)]
  let ?b = "fp_byte (rd_pos s)" and ?B = "p_bytesPerSector (rd_part s)"
  define m where "m = (if ?B - ?b > rd_remain s then rd_remain s else ?B - ?b)"
  have sub: "unat (?B - ?b) = bps p - unat ?b" using k(4) by (simp add: unat_sub_le vs(1))
  have um: "unat m = min (bps p - unat ?b) (unat (rd_remain s))"
    using sub by (auto simp: m_def word_less_nat_alt not_less)
  have fit: "unat ?b + unat m \<le> bps (rd_part s)" using k(4) by (simp add: um vs(1))
  show thesis
  proof (cases "m < ?B")
    case False
    then have "bps p \<le> unat m" by (simp add: word_less_nat_alt not_less vs(1))
    then have "bps p \<le> bps p - unat ?b" using um by simp
    then have "unat ?b = 0" using k(4) by arith
    then have "at_sector_start s" by (simp add: at_sector_start_def word_eq_iff_unat_eq)
    moreover have "read_align_sector s = Some s"
      using False by (simp add: read_align_sector_def Let_def m_def [symmetric])
    ultimately show thesis using that at by blast
  next
    case True
    then have "unat m < bps p" by (simp add: word_less_nat_alt vs(1))
    then have inside: "unat (fp_sector (rd_pos s)) < spc p" using start k(9,10) um by fastforce
    obtain q where q: "read_partial s ?b m = Some (s\<lparr>rd_part := q, rd_remain := rd_remain s - m, rd_out := rd_out s @
        map Some (slice (pview med (rd_part s) (file_sector (rd_part s) (rd_pos s))) (unat ?b) (unat m))\<rparr>)"
      "pkept med (rd_part s) q"
      by (rule read_partial_step [OF ok, of ?b m]) (use k(2,8) inside vs fit in simp_all)
    define data where "data = slice (pview med (rd_part s) (file_sector (rd_part s) (rd_pos s))) (unat ?b) (unat m)"
    define pos where "pos = (rd_pos s)\<lparr>fp_byte := ?b + m\<rparr>"
    define pos' where "pos' = (if fp_byte pos \<ge> ?B then pos\<lparr>fp_byte := 0, fp_sector := fp_sector pos + 1\<rparr> else pos)"
    have data: "data = slice (chain_bytes (pview med p) p cs) n (unat m)"
      using sector_slice [OF file_chainD(1) [OF fc] k(1) inside, of "unat ?b" "unat m"] fit k(2,3)
      by (simp add: data_def vs k(7) file_sector_def)
    have ub: "unat (?b + m) = unat ?b + unat m"
      using fit unat_lt_2p32 [of ?B] by (intro unat_add_small) simp
    have us: "unat (fp_sector (rd_pos s) + 1) = unat (fp_sector (rd_pos s)) + 1"
      using inside unat_lt_2p32 [of "p_sectorsPerCluster p"] by (intro unat_add_small [where b = 1, simplified unat_1]) simp
    have full: "?B \<le> ?b + m \<longleftrightarrow> unat ?b + unat m = bps p"
      using fit by (auto simp: word_le_nat_alt ub vs(1))
    have pos: "pos_at p cs pos' (n + unat m)"
      using k(1,2,3) inside fit volume_okD(4) [OF file_chainD(1) [OF fc]]
      by (auto simp: pos_at_def pos'_def pos_def full ub us vs(1) intro!: exI [of _ k])
    have "reading_at med p cs start fin (n + unat m)
      (s\<lparr>rd_part := q, rd_pos := pos', rd_remain := rd_remain s - m, rd_out := rd_out s @ map Some data\<rparr>)"
      by (rule reading_more [OF at q(2) pos _ data]) (simp add: um)
    moreover have "at_sector_start
      (s\<lparr>rd_part := q, rd_pos := pos', rd_remain := rd_remain s - m, rd_out := rd_out s @ map Some data\<rparr>)"
    proof (cases "unat ?b + unat m = bps p")
      case True
      then show ?thesis by (simp add: at_sector_start_def pos'_def pos_def full)
    next
      case False
      then have "m = rd_remain s" using um fit by (simp add: word_eq_iff_unat_eq vs(1))
      then show ?thesis by (simp add: at_sector_start_def)
    qed
    moreover have "read_align_sector s = Some
      (s\<lparr>rd_part := q, rd_pos := pos', rd_remain := rd_remain s - m, rd_out := rd_out s @ map Some data\<rparr>)"
      using True reading_atD(2) [OF at] q(1)
      by (simp add: read_align_sector_def Let_def m_def [symmetric] data_def [symmetric] pos_def pos'_def)
    ultimately show thesis
      by (intro that [of "s\<lparr>rd_part := q, rd_pos := pos', rd_remain := rd_remain s - m, rd_out := rd_out s @ map Some data\<rparr>"
          "n + unat m"]) simp_all
  qed
qed


text \<open>Whole sectors at the position.\<close>

lemma read_sectors_step:
  assumes fc: "file_chain med p cs" and at: "reading_at med p cs start fin n s" and k: "k < length cs"
    and c: "fp_cluster (rd_pos s) = cs ! k" and b: "fp_byte (rd_pos s) = 0"
    and place: "n = k * bpc p + unat (fp_sector (rd_pos s)) * bps p"
    and m: "unat (fp_sector (rd_pos s)) + unat m \<le> spc p" "unat m * bps p \<le> unat (rd_remain s)"
  obtains s' where "read_sectors s (file_sector (rd_part s) (rd_pos s)) m = Some s'"
    and "reading_at med p cs start fin (n + unat m * bps p) s'" and "rd_errno s' = rd_errno s"
    and "fp_sector (rd_pos s') = fp_sector (rd_pos s) + m" and "fp_byte (rd_pos s') = 0"
    and "fp_cluster (rd_pos s') = cs ! k" and "unat (rd_remain s') = unat (rd_remain s) - unat m * bps p"
proof -
  note kp = reading_atD(1) [OF at]
  note vs = volume_same [OF pkeptD(2) [OF kp]] and view = pkeptD(3) [OF kp]
  have fc': "file_chain med (rd_part s) cs" by (rule file_chain_kept [OF kp fc])
  note ok = file_chainD(1) [OF fc']
  let ?a = "unat (fp_sector (rd_pos s))" and ?q = "rd_part s"
  let ?t = "file_sector ?q (rd_pos s)"
  have t: "?t = FAT_fat_clusterToSector ?q (cs ! k) + of_nat ?a" by (simp add: file_sector_def c)
  note cs = cluster_sector [OF ok file_chainD(7) [OF fc' k], of ?a]
  have room: "unat ?t + unat m \<le> unat (c_endOfPartition (p_cache ?q))"
    unfolding t using cs m(1) by (simp add: vs)
  obtain ca where ca: "FAT_cache_readSectors (p_cache ?q) ?t m = Some (True, sectors_of (pview med ?q) ?t (unat m), ca)"
    "pkept med ?q (?q\<lparr>p_cache := ca\<rparr>)"
    by (rule read_run_step [OF ok room])
  have "unat m * bps p \<le> spc p * bps p" using m(1) by (intro mult_le_mono1) simp
  then have small: "unat m * bps p < 4294967296"
    using unat_lt_2p32 [of "p_bytesPerCluster p"] volume_okD(3) [OF file_chainD(1) [OF fc]] by linarith
  have um: "unat (m * p_bytesPerSector ?q) = unat m * bps p"
    using small vs(1) by (subst unat_mult_small) simp_all
  have data: "sectors_of (pview med ?q) ?t (unat m) = slice (chain_bytes (pview med p) p cs) n (unat (m * p_bytesPerSector ?q))"
    using run_slice [OF file_chainD(1) [OF fc] k m(1)] by (simp add: um place file_sector_def c vs view)
  have us: "unat (fp_sector (rd_pos s) + m) = ?a + unat m"
    using m(1) unat_lt_2p32 [of "p_sectorsPerCluster p"] by (intro unat_add_small) simp
  define pos where "pos = (rd_pos s)\<lparr>fp_sector := fp_sector (rd_pos s) + m\<rparr>"
  have pos: "pos_at p cs pos (n + unat (m * p_bytesPerSector ?q))"
    using k c b m(1) volume_okD(4) [OF file_chainD(1) [OF fc]]
    by (auto simp: pos_at_def pos_def us um place add_mult_distrib intro!: exI [of _ k])
  let ?s' = "s\<lparr>rd_part := ?q\<lparr>p_cache := ca\<rparr>, rd_pos := pos, rd_remain := rd_remain s - m * p_bytesPerSector ?q,
    rd_out := rd_out s @ map Some (sectors_of (pview med ?q) ?t (unat m))\<rparr>"
  have "reading_at med p cs start fin (n + unat (m * p_bytesPerSector ?q)) ?s'"
    by (rule reading_more [OF at ca(2) pos _ data]) (simp add: um m(2))
  moreover have "read_sectors s ?t m = Some ?s'"
    using ca(1) by (simp add: read_sectors_def Let_def pos_def)
  moreover have "unat (rd_remain s - m * p_bytesPerSector ?q) = unat (rd_remain s) - unat m * bps p"
    using m(2) by (subst unat_sub_le) (simp_all add: um)
  ultimately show thesis using c b by (intro that [of ?s']) (simp_all add: um pos_def)
qed

lemma mod_less_remain:
  assumes "0 < b" and "k = n div b"
  shows "n - k * b < (b :: nat)" and "k * b \<le> n"
  using assms by (simp_all add: minus_div_mult_eq_mod)

definition at_cluster_edge :: "'d partition \<Rightarrow> 'd reading \<Rightarrow> bool" where
  "at_cluster_edge p s \<longleftrightarrow> unat (fp_sector (rd_pos s)) = spc p \<or> unat (rd_remain s) < bps p"

lemma read_align_cluster_spec:
  assumes fc: "file_chain med p cs" and at: "reading_at med p cs start fin n s" and byte: "at_sector_start s"
  obtains s' n' where "read_align_cluster s = Some s'" and "reading_at med p cs start fin n' s'"
    and "at_sector_start s'" and "at_cluster_edge p s'" and "rd_errno s' = rd_errno s"
proof -
  obtain k where k: "k < length cs" "fp_cluster (rd_pos s) = cs ! k"
    "n = k * bpc p + unat (fp_sector (rd_pos s)) * bps p + unat (fp_byte (rd_pos s))"
    "unat (fp_sector (rd_pos s)) \<le> spc p" "same_part p (rd_part s)"
    using reading_place [OF fc at] by metis
  note vs = volume_same [OF k(5)] and vd = volume_okD [OF file_chainD(1) [OF fc]]
  let ?q = "rd_part s" let ?a = "unat (fp_sector (rd_pos s))"
  define left where "left = p_sectorsPerCluster ?q - fp_sector (rd_pos s)"
  have left: "unat left = spc p - ?a" using k(4) by (simp add: left_def unat_sub_le vs(2))
  have "unat left * bps p \<le> spc p * bps p" by (intro mult_le_mono1) (simp add: left)
  then have "unat left * bps p < 4294967296" using unat_lt_2p32 [of "p_bytesPerCluster p"] vd(3) by linarith
  then have ul: "unat (left * p_bytesPerSector ?q) = unat left * bps p"
    using vs(1) by (subst unat_mult_small) simp_all
  define m where "m = (if rd_remain s > left * p_bytesPerSector ?q then left else rd_remain s div p_bytesPerSector ?q)"
  have um: "unat m = (if unat (rd_remain s) > unat left * bps p then unat left else unat (rd_remain s) div bps p)"
    by (simp add: m_def word_less_nat_alt ul unat_div_word vs(1))
  have nz: "p_bytesPerSector ?q \<noteq> 0" using vd(4) by (metis unat_0 less_irrefl vs(1))
  have eq: "read_align_cluster s = (if m > 0 then read_sectors s (file_sector ?q (rd_pos s)) m else Some s)"
    using nz reading_atD(2) [OF at] by (simp add: read_align_cluster_def Let_def m_def left_def)
  have mle: "unat m \<le> unat left"
  proof (cases "unat (rd_remain s) > unat left * bps p")
    case False
    then have "unat (rd_remain s) div bps p \<le> unat left * bps p div bps p" by (intro div_le_mono) simp
    then show ?thesis using False vd(4) by (simp add: um)
  qed (simp add: um)
  show thesis
  proof (cases "m > 0")
    case False
    then have m0: "unat m = 0" by (simp add: word_neq_0_conv [symmetric])
    have "at_cluster_edge p s"
    proof (cases "unat (rd_remain s) > unat left * bps p")
      case True
      then show ?thesis using m0 um left k(4) by (simp add: at_cluster_edge_def)
    next
      case False
      then have "unat (rd_remain s) div bps p = 0" using m0 um by simp
      then show ?thesis using vd(4) by (simp add: at_cluster_edge_def div_eq_0_iff)
    qed
    then show thesis using that [of s n] eq False at byte by simp
  next
    case True
    then have mpos: "0 < unat m" by (simp add: word_less_nat_alt)
    have mr: "unat m * bps p \<le> unat (rd_remain s)" by (simp add: um)
    then have "0 < unat (rd_remain s)" using mult_pos_pos [OF mpos vd(4)] by linarith
    then have "rd_remain s \<noteq> 0" by auto
    then have b: "fp_byte (rd_pos s) = 0" using byte by (simp add: at_sector_start_def)
    obtain s' where s': "read_sectors s (file_sector ?q (rd_pos s)) m = Some s'"
      "reading_at med p cs start fin (n + unat m * bps p) s'" "rd_errno s' = rd_errno s"
      "fp_sector (rd_pos s') = fp_sector (rd_pos s) + m" "fp_byte (rd_pos s') = 0"
      "unat (rd_remain s') = unat (rd_remain s) - unat m * bps p"
      by (rule read_sectors_step [OF fc at k(1,2) b, of m]) (use k mle left mr b in auto)
    have us: "unat (fp_sector (rd_pos s) + m) = ?a + unat m"
      using mle left k(4) unat_lt_2p32 [of "p_sectorsPerCluster p"] by (intro unat_add_small) simp
    have "at_cluster_edge p s'"
    proof (cases "unat (rd_remain s) > unat left * bps p")
      case True
      then show ?thesis using left k(4) by (simp add: at_cluster_edge_def s'(4) us um)
    next
      case False
      then have "unat m = unat (rd_remain s) div bps p" using um by simp
      from mod_less_remain(1) [OF vd(4) this] show ?thesis by (simp add: at_cluster_edge_def s'(6))
    qed
    moreover have "at_sector_start s'" by (simp add: at_sector_start_def s'(5))
    ultimately show thesis using that [OF _ s'(2)] eq True s' by simp
  qed
qed


text \<open>Advancing at the end of a cluster.\<close>

definition reading_upto :: "('d \<Rightarrow> sec_t \<Rightarrow> u8 list) \<Rightarrow> 'd partition \<Rightarrow> u32 list \<Rightarrow> nat \<Rightarrow> nat \<Rightarrow> nat \<Rightarrow> 'd reading \<Rightarrow> bool" where
  "reading_upto med p cs start fin n s \<longleftrightarrow> pkept med p (rd_part s) \<and> rd_ok s \<and> start \<le> n \<and> n + unat (rd_remain s) = fin \<and>
     rd_out s = map Some (slice (chain_bytes (pview med p) p cs) start (n - start)) \<and> fp_byte (rd_pos s) = 0"

definition loop_ready :: "'d partition \<Rightarrow> 'd reading \<Rightarrow> bool" where
  "loop_ready p s \<longleftrightarrow> at_sector_start s \<and> (rd_remain s \<noteq> 0 \<longrightarrow> unat (fp_sector (rd_pos s)) < spc p) \<and>
     (bps p \<le> unat (rd_remain s) \<longrightarrow> fp_sector (rd_pos s) = 0)"

lemma read_advance_spec:
  assumes fc: "file_chain med p cs" and up: "reading_upto med p cs start fin (Suc k * bpc p) s"
    and k: "k < length cs" and fin: "fin \<le> length cs * bpc p"
  shows "reading_at med p cs start fin (Suc k * bpc p) (read_advance s (cs ! k) (fat_table med p (cs ! k)))"
    and "loop_ready p (read_advance s (cs ! k) (fat_table med p (cs ! k)))"
    and "rd_errno (read_advance s (cs ! k) (fat_table med p (cs ! k))) = rd_errno s"
proof -
  let ?s' = "read_advance s (cs ! k) (fat_table med p (cs ! k))"
  note vd = volume_okD [OF file_chainD(1) [OF fc]]
  note u = up [unfolded reading_upto_def]
  have kp: "pkept med p (rd_part s)" and b: "fp_byte (rd_pos s) = 0" using u by blast+
  note vs = volume_same [OF pkeptD(2) [OF kp]]
  have next_of: "fat_table med p (cs ! k) = (if Suc k < length cs then cs ! Suc k else CLUSTER_EOF)"
    by (rule file_chain_next [OF fc k])
  have ne: "\<not> FAT_fat_isValidCluster p CLUSTER_EOF"
    using proper_valid [OF file_chainD(2) [OF fc]] by (simp add: proper_def)
  have "reading_at med p cs start fin (Suc k * bpc p) ?s' \<and> loop_ready p ?s' \<and> rd_errno ?s' = rd_errno s"
  proof (cases "Suc k < length cs")
    case True
    have v: "FAT_fat_isValidCluster p (cs ! Suc k)" by (rule file_chainD(7) [OF fc True])
    then have "cs ! Suc k \<noteq> CLUSTER_EOF" using ne by auto
    then have s': "?s' = s\<lparr>rd_pos := (rd_pos s)\<lparr>fp_sector := 0, fp_cluster := cs ! Suc k\<rparr>\<rparr>"
      using True v by (simp add: read_advance_def Let_def next_of vs)
    have "pos_at p cs ((rd_pos s)\<lparr>fp_sector := 0, fp_cluster := cs ! Suc k\<rparr>) (Suc k * bpc p)"
      unfolding pos_at_def using True b vd(4,5) by (intro exI [of _ "Suc k"]) simp
    then show ?thesis using u b vd(5) unfolding s' by (simp add: reading_at_def loop_ready_def at_sector_start_def)
  next
    case False
    then have lenk: "length cs = Suc k" using k by simp
    then have r0: "unat (rd_remain s) = 0" using u fin by simp
    then have r: "rd_remain s = 0" by (simp add: unsigned_eq_0_iff)
    have s': "?s' = s\<lparr>rd_pos := (rd_pos s)\<lparr>fp_sector := p_sectorsPerCluster (rd_part s), fp_cluster := cs ! k\<rparr>\<rparr>"
      using False r by (simp add: read_advance_def Let_def next_of)
    have "pos_at p cs ((rd_pos s)\<lparr>fp_sector := p_sectorsPerCluster (rd_part s), fp_cluster := cs ! k\<rparr>) (Suc k * bpc p)"
      unfolding pos_at_def using k b vd(3,4) vs by (intro exI [of _ k]) simp
    then show ?thesis using u r vd(4) unfolding s' by (simp add: reading_at_def loop_ready_def at_sector_start_def)
  qed
  then show "reading_at med p cs start fin (Suc k * bpc p) ?s'" "loop_ready p ?s'" "rd_errno ?s' = rd_errno s"
    by blast+
qed

lemma next_in_file:
  assumes "file_chain med p cs" and "k < length cs"
  obtains q where "FAT_fat_nextCluster p (cs ! k) = Some (fat_table med p (cs ! k), q)" and "pkept med p q"
  using next_kept [OF file_chainD(2,7) [OF assms(1)]] assms by metis

lemma read_next_cluster_spec:
  assumes fc: "file_chain med p cs" and at: "reading_at med p cs start fin n s" and st: "at_sector_start s"
    and edge: "at_cluster_edge p s" and fin: "fin \<le> length cs * bpc p"
  obtains s' where "read_next_cluster s = Some s'" and "reading_at med p cs start fin n s'"
    and "loop_ready p s'" and "rd_errno s' = rd_errno s"
proof -
  obtain k where k: "k < length cs" "fp_cluster (rd_pos s) = cs ! k"
    "n = k * bpc p + unat (fp_sector (rd_pos s)) * bps p + unat (fp_byte (rd_pos s))"
    "unat (fp_sector (rd_pos s)) \<le> spc p" "unat (fp_sector (rd_pos s)) = spc p \<Longrightarrow> fp_byte (rd_pos s) = 0"
    "file_chain med (rd_part s) cs" "same_part p (rd_part s)"
    using reading_place [OF fc at] by metis
  note vs = volume_same [OF k(7)] and vd = volume_okD [OF file_chainD(1) [OF fc]]
  have ge: "fp_sector (rd_pos s) \<ge> p_sectorsPerCluster (rd_part s) \<longleftrightarrow> unat (fp_sector (rd_pos s)) = spc p"
    using k(4) vs(2) by (auto simp: word_le_nat_alt)
  show thesis
  proof (cases "unat (fp_sector (rd_pos s)) = spc p")
    case False
    then have "read_next_cluster s = Some s" using ge by (simp add: read_next_cluster_def)
    moreover have "loop_ready p s" using False k(4) edge st by (auto simp: loop_ready_def at_cluster_edge_def)
    ultimately show thesis using that at by blast
  next
    case True
    have n: "n = Suc k * bpc p" and b: "fp_byte (rd_pos s) = 0" using k(3,5) True vd(3) by simp_all
    obtain q where q: "FAT_fat_nextCluster (rd_part s) (cs ! k) = Some (fat_table med (rd_part s) (cs ! k), q)"
      "pkept med (rd_part s) q"
      by (rule next_in_file [OF k(6,1)])
    have t: "fat_table med (rd_part s) = fat_table med p" by (rule pkept_table [OF reading_atD(1) [OF at]])
    have "reading_upto med p cs start fin (Suc k * bpc p) (s\<lparr>rd_part := q\<rparr>)"
      using at pkept_trans [OF reading_atD(1) [OF at] q(2)] b by (simp add: reading_at_def reading_upto_def n)
    note adv = read_advance_spec [OF fc this k(1) fin]
    have "read_next_cluster s = Some (read_advance (s\<lparr>rd_part := q\<rparr>) (cs ! k) (fat_table med p (cs ! k)))"
      using q(1) ge True reading_atD(2) [OF at] by (simp add: read_next_cluster_def k(2) t)
    then show thesis by (rule that) (use adv n in simp_all)
  qed
qed


section \<open>Whole clusters\<close>

lemma next_number:
  assumes "file_chain med p cs" and "k < length cs" and "fat_table med p (cs ! k) = cs ! k + 1"
  shows "Suc k < length cs" and "cs ! Suc k = cs ! k + 1"
proof -
  have ok: "part_ok med p" by (rule file_chainD(2) [OF assms(1)])
  have "unat (cs ! k) \<le> unat (fat_lastCluster (p_fat p))"
    using file_chainD(7) [OF assms(1,2)] by (simp add: valid_unat)
  then have "unat (cs ! k) < 2 ^ 28" using last_small [OF ok] by simp
  moreover have "unat (fat_lastCluster (p_fat p)) < unat (eof_limit (p_filesysType p))"
    using fat_wfD(8) [OF part_okD(2) [OF ok]] by (simp add: word_less_nat_alt)
  moreover have "unat (eof_limit (p_filesysType p)) \<le> 0x0FFFFFF7"
    using eof_limit_le [of "p_filesysType p"] by (simp add: word_le_nat_alt)
  ultimately have "unat (cs ! k) + 1 < unat CLUSTER_EOF"
    using \<open>unat (cs ! k) \<le> _\<close> by (simp add: CLUSTER_EOF_def)
  moreover have "unat (cs ! k + 1) = unat (cs ! k) + 1"
    using \<open>unat (cs ! k) < 2 ^ 28\<close> by (intro unat_add_small [where b = 1, simplified unat_1]) simp
  ultimately have "cs ! k + 1 \<noteq> CLUSTER_EOF" by auto
  with assms file_chain_next [OF assms(1,2)] show "Suc k < length cs" "cs ! Suc k = cs ! k + 1"
    by (auto split: if_splits)
qed

lemma chunk_loop_spec:
  assumes "file_chain med p cs" and "k < length cs" and "unat z + bpc p \<le> unat r" and "unat r + bpc p < 2 ^ 32"
  obtains j q z' where "chunk_loop p (cs ! k) z r = Some ((cs ! (k + j), fat_table med p (cs ! (k + j)), z'), q)"
    and "pkept med p q" and "k + j < length cs" and "consecutive cs k j"
    and "unat z' = unat z + Suc j * bpc p" and "unat z' \<le> unat r"
proof -
  have "\<exists>j q z'. chunk_loop p (cs ! k) z r = Some ((cs ! (k + j), fat_table med p (cs ! (k + j)), z'), q) \<and>
      pkept med p q \<and> k + j < length cs \<and> consecutive cs k j \<and> unat z' = unat z + Suc j * bpc p \<and> unat z' \<le> unat r"
    using assms
  proof (induction "length cs - k" arbitrary: p k z rule: less_induct)
    case less
    note fc = less.prems(1)
    obtain q where q: "FAT_fat_nextCluster p (cs ! k) = Some (fat_table med p (cs ! k), q)" "pkept med p q"
      by (rule next_in_file [OF fc less.prems(2)])
    note vs = volume_same [OF pkeptD(2) [OF q(2)]] and bc = same_partD(10) [OF pkeptD(2) [OF q(2)]]
    have uz: "unat (z + p_bytesPerCluster p) = unat z + bpc p"
      using less.prems(3,4) by (intro unat_add_small) simp
    have uz2: "unat (z + p_bytesPerCluster p + p_bytesPerCluster p) = unat z + bpc p + bpc p"
      using less.prems(3,4) uz by (subst unat_add_small) simp_all
    show ?case
    proof (cases "fat_table med p (cs ! k) = cs ! k + 1 \<and> z + p_bytesPerCluster p + p_bytesPerCluster p \<le> r")
      case False
      have "chunk_loop p (cs ! k) z r = Some ((cs ! k, fat_table med p (cs ! k), z + p_bytesPerCluster p), q)"
        by (subst chunk_loop.simps) (use False in \<open>auto simp: bc Let_def q(1)\<close>)
      then show ?thesis
        using q(2) less.prems(2,3) uz
        by (intro exI [of _ 0] exI [of _ q] exI [of _ "z + p_bytesPerCluster p"]) (simp add: consecutive_def)
    next
      case True
      note nx = next_number [OF fc less.prems(2)]
      have k': "Suc k < length cs" "cs ! Suc k = cs ! k + 1" using nx True by simp_all
      have "unat z + bpc p + bpc p \<le> unat r" using True unfolding word_le_nat_alt uz2 by blast
      then have room: "unat (z + p_bytesPerCluster p) + bpc q \<le> unat r" "unat r + bpc q < 2 ^ 32"
        using less.prems(4) by (simp_all add: uz vs)
      have "length cs - Suc k < length cs - k" using less.prems(2) by simp
      from less.hyps [OF this file_chain_kept [OF q(2) fc] k'(1) room] obtain j q' z' where
        rec: "chunk_loop q (cs ! Suc k) (z + p_bytesPerCluster p) r =
          Some ((cs ! (Suc k + j), fat_table med q (cs ! (Suc k + j)), z'), q')"
        "pkept med q q'" "Suc k + j < length cs" "consecutive cs (Suc k) j"
        "unat z' = unat (z + p_bytesPerCluster p) + Suc j * bpc q" "unat z' \<le> unat r" by blast
      have "chunk_loop p (cs ! k) z r = Some ((cs ! (k + Suc j), fat_table med p (cs ! (k + Suc j)), z'), q')"
        by (subst chunk_loop.simps)
          (use True k'(2) rec(1) pkept_table [OF q(2)] in \<open>auto simp: bc Let_def q(1)\<close>)
      moreover have "consecutive cs k (Suc j)"
        using rec(4) k'(2) by (auto simp: consecutive_def less_Suc_eq_0_disj)
      ultimately show ?thesis
        using rec pkept_trans [OF q(2) rec(2)] uz vs(3)
        by (intro exI [of _ "Suc j"] exI [of _ q'] exI [of _ z']) simp
    qed
  qed
  then show thesis using that by blast
qed


lemma read_clusters_spec:
  assumes fc: "file_chain med p cs" and at: "reading_at med p cs start fin n s" and ready: "loop_ready p s"
    and fin: "fin \<le> length cs * bpc p" and small: "unat (rd_remain s) + bpc p < 2 ^ 32"
  obtains s' n' where "read_clusters s = Some s'" and "reading_at med p cs start fin n' s'" and "loop_ready p s'"
    and "unat (rd_remain s') < bpc p" and "rd_errno s' = rd_errno s"
proof -
  note vd = volume_okD [OF file_chainD(1) [OF fc]]
  have "\<exists>s' n'. read_clusters s = Some s' \<and> reading_at med p cs start fin n' s' \<and> loop_ready p s' \<and>
      unat (rd_remain s') < bpc p \<and> rd_errno s' = rd_errno s"
    using at ready small
  proof (induction "unat (rd_remain s)" arbitrary: s n rule: less_induct)
    case less
    note at = less.prems(1) and ready = less.prems(2)
    obtain k where k: "k < length cs" "fp_cluster (rd_pos s) = cs ! k"
      "n = k * bpc p + unat (fp_sector (rd_pos s)) * bps p + unat (fp_byte (rd_pos s))"
      "file_chain med (rd_part s) cs" "same_part p (rd_part s)" "pview med (rd_part s) = pview med p"
      using reading_place [OF fc at] by metis
    note vs = volume_same [OF k(5)] and kp = reading_atD(1) [OF at]
    show ?case
    proof (cases "bpc p \<le> unat (rd_remain s)")
      case False
      then have "read_clusters s = Some s"
        by (subst read_clusters.simps) (simp add: word_le_nat_alt vs)
      then show ?thesis using at ready False by (intro exI [of _ s] exI [of _ n]) simp
    next
      case True
      have pos0: "fp_sector (rd_pos s) = 0" "fp_byte (rd_pos s) = 0"
        using ready True vd(4,7) by (auto simp: loop_ready_def at_sector_start_def)
      then have n: "n = k * bpc p" using k(3) by simp
      obtain j q z where ch: "chunk_loop (rd_part s) (cs ! k) 0 (rd_remain s) =
          Some ((cs ! (k + j), fat_table med (rd_part s) (cs ! (k + j)), z), q)"
        "pkept med (rd_part s) q" "k + j < length cs" "consecutive cs k j" "unat z = Suc j * bpc p" "unat z \<le> unat (rd_remain s)"
        by (rule chunk_loop_spec [OF k(4,1), of 0 "rd_remain s"]) (use True less.prems(3) vs in auto)
      note kq = pkept_trans [OF kp ch(2)]
      note vq = volume_same [OF pkeptD(2) [OF kq]] and sq = same_partD [OF pkeptD(2) [OF kq]] and viewq = pkeptD(3) [OF kq]
      have okq: "volume_ok med q" by (rule volume_kept [OF kq file_chainD(1) [OF fc]])
      define t where "t = FAT_fat_clusterToSector q (cs ! k)"
      have uz: "unat (z div p_bytesPerSector q) = Suc j * spc p"
        using vd(3,4) ch(5) by (simp add: unat_div_word vq)
      note con = consecutive_run [OF file_chainD(1) [OF fc] file_chainD(8) [OF fc] ch(3,4)]
      have "unat t + Suc j * spc p \<le> unat (c_endOfPartition (p_cache p))"
        using consecutive_room [OF file_chainD(1) [OF fc] file_chainD(8) [OF fc] ch(3,4)] by (simp add: t_def vq)
      then have room: "unat t + unat (z div p_bytesPerSector q) \<le> unat (c_endOfPartition (p_cache q))"
        by (simp add: uz sq(18))
      obtain ca where ca: "FAT_cache_readSectors (p_cache q) t (z div p_bytesPerSector q) =
          Some (True, sectors_of (pview med q) t (unat (z div p_bytesPerSector q)), ca)"
        "pkept med q (q\<lparr>p_cache := ca\<rparr>)"
        by (rule read_run_step [OF okq room])
      define data where "data = sectors_of (pview med q) t (unat (z div p_bytesPerSector q))"
      have data: "data = slice (chain_bytes (pview med p) p cs) n (unat z)"
        using con(2) by (simp add: data_def t_def vq viewq uz n ch(5))
      define s1 where "s1 = s\<lparr>rd_part := q\<lparr>p_cache := ca\<rparr>, rd_out := rd_out s @ map Some data, rd_remain := rd_remain s - z\<rparr>"
      have ur: "unat (rd_remain s - z) = unat (rd_remain s) - unat z" using ch(6) by (rule unat_sub_le)
      have end_n: "n + unat z = Suc (k + j) * bpc p" by (simp add: n ch(5) add_mult_distrib)
      have out: "slice (chain_bytes (pview med p) p cs) start (Suc (k + j) * bpc p - start) =
          slice (chain_bytes (pview med p) p cs) start (n - start) @ data"
        using reading_atD(4) [OF at] slice_add [of "chain_bytes (pview med p) p cs" start "n - start" "unat z"] end_n
        by (simp add: data)
      have up: "reading_upto med p cs start fin (Suc (k + j) * bpc p) s1"
        using reading_atD [OF at] pkept_trans [OF kq ca(2)] ur ch(6) end_n out pos0(2)
        by (simp add: reading_upto_def s1_def)
      note adv = read_advance_spec [OF fc up ch(3) fin]
      have t_eq: "fat_table med (rd_part s) = fat_table med p" by (rule pkept_table [OF kp])
      define s2 where "s2 = read_advance s1 (cs ! (k + j)) (fat_table med p (cs ! (k + j)))"
      have rem2: "rd_remain s2 = rd_remain s - z"
        by (simp add: s2_def read_advance_def Let_def s1_def)
      have run: "read_clusters s = read_clusters s2"
        using ch(1) ca(1) True reading_atD(2) [OF at] k(2) t_eq
        by (subst read_clusters.simps) (simp add: word_le_nat_alt vs s2_def s1_def data_def t_def Let_def)
      have "unat (rd_remain s2) < unat (rd_remain s)" using ch(5,6) vd(6) by (simp add: rem2 ur)
      note IH = less.hyps [OF this, of "Suc (k + j) * bpc p"]
      have err: "rd_errno s2 = rd_errno s" using adv(3) by (simp add: s2_def s1_def)
      have "unat (rd_remain s2) + bpc p < 2 ^ 32" using less.prems(3) by (simp add: rem2 ur)
      from IH [OF adv(1,2) [folded s2_def] this] show ?thesis unfolding run err .
    qed
  qed
  then show thesis using that by blast
qed


section \<open>The rest\<close>

lemma read_rest_spec:
  assumes fc: "file_chain med p cs" and at: "reading_at med p cs start fin n s" and ready: "loop_ready p s"
    and less_c: "unat (rd_remain s) < bpc p"
  obtains s' n' where "read_rest_sectors s = Some s'" and "reading_at med p cs start fin n' s'"
    and "unat (rd_remain s') < bps p" and "rd_errno s' = rd_errno s"
    and "rd_remain s' \<noteq> 0 \<longrightarrow> fp_byte (rd_pos s') = 0 \<and> unat (fp_sector (rd_pos s')) < spc p"
proof -
  obtain k where k: "k < length cs" "fp_cluster (rd_pos s) = cs ! k"
    "n = k * bpc p + unat (fp_sector (rd_pos s)) * bps p + unat (fp_byte (rd_pos s))" "same_part p (rd_part s)"
    using reading_place [OF fc at] by metis
  note vs = volume_same [OF k(4)] and vd = volume_okD [OF file_chainD(1) [OF fc]]
  define m where "m = rd_remain s div p_bytesPerSector (rd_part s)"
  have um: "unat m = unat (rd_remain s) div bps p" by (simp add: m_def unat_div_word vs)
  have eq: "read_rest_sectors s = (if m > 0
      then read_sectors s (FAT_fat_clusterToSector (rd_part s) (fp_cluster (rd_pos s))) m else Some s)"
    using reading_atD(2) [OF at] by (simp add: read_rest_sectors_def Let_def m_def)
  show thesis
  proof (cases "m > 0")
    case False
    then have "unat (rd_remain s) div bps p = 0" using um by (simp add: word_neq_0_conv [symmetric])
    then have "unat (rd_remain s) < bps p" using vd(4) by (simp add: div_eq_0_iff)
    then show thesis using that [of s n] eq False at ready by (auto simp: loop_ready_def at_sector_start_def)
  next
    case True
    then have "1 \<le> unat m" by (simp add: word_less_nat_alt)
    then have "1 * bps p \<le> unat m * bps p" by (rule mult_le_mono1)
    moreover have mr: "unat m * bps p \<le> unat (rd_remain s)" by (simp add: um)
    ultimately have ge: "bps p \<le> unat (rd_remain s)" unfolding mult_1 by (rule order_trans)
    then have pos: "fp_sector (rd_pos s) = 0" "fp_byte (rd_pos s) = 0"
      using ready vd(4) by (auto simp: loop_ready_def at_sector_start_def)
    have "unat m * bps p < spc p * bps p" using mr less_c vd(3) by linarith
    then have msp: "unat m < spc p" by simp
    have fs: "FAT_fat_clusterToSector (rd_part s) (fp_cluster (rd_pos s)) = file_sector (rd_part s) (rd_pos s)"
      by (simp add: file_sector_def pos)
    obtain s' where s': "read_sectors s (file_sector (rd_part s) (rd_pos s)) m = Some s'"
      "reading_at med p cs start fin (n + unat m * bps p) s'" "rd_errno s' = rd_errno s"
      "fp_sector (rd_pos s') = fp_sector (rd_pos s) + m" "fp_byte (rd_pos s') = 0"
      "unat (rd_remain s') = unat (rd_remain s) - unat m * bps p"
      by (rule read_sectors_step [OF fc at k(1,2) pos(2), of m]) (use k msp mr pos in auto)
    have "unat (rd_remain s') < bps p" using mod_less_remain(1) [OF vd(4) um] by (simp add: s'(6))
    then show thesis using that [OF _ s'(2)] eq True s' fs msp pos by simp
  qed
qed

lemma read_tail_spec:
  assumes fc: "file_chain med p cs" and at: "reading_at med p cs start fin n s"
    and less_b: "unat (rd_remain s) < bps p"
    and place: "rd_remain s \<noteq> 0 \<longrightarrow> fp_byte (rd_pos s) = 0 \<and> unat (fp_sector (rd_pos s)) < spc p"
  obtains s' where "read_tail s = Some s'" and "reading_at med p cs start fin fin s'" and "rd_remain s' = 0"
    and "rd_errno s' = rd_errno s"
proof -
  obtain k where k: "k < length cs" "fp_cluster (rd_pos s) = cs ! k"
    "n = k * bpc p + unat (fp_sector (rd_pos s)) * bps p + unat (fp_byte (rd_pos s))"
    "file_chain med (rd_part s) cs" "same_part p (rd_part s)" "pview med (rd_part s) = pview med p"
    "FAT_fat_isValidCluster (rd_part s) (cs ! k)"
    using reading_place [OF fc at] by metis
  note vs = volume_same [OF k(5)]
  show thesis
  proof (cases "rd_remain s = 0")
    case True
    then have "read_tail s = Some s" "n = fin" using reading_atD(5) [OF at] by (simp_all add: read_tail_def)
    then show thesis using that at True by blast
  next
    case False
    let ?m = "rd_remain s"
    have b: "fp_byte (rd_pos s) = 0" and a: "unat (fp_sector (rd_pos s)) < spc p" using place False by simp_all
    obtain q where q: "read_partial s 0 ?m = Some (s\<lparr>rd_part := q, rd_remain := ?m - ?m, rd_out := rd_out s @
        map Some (slice (pview med (rd_part s) (file_sector (rd_part s) (rd_pos s))) (unat (0 :: u32)) (unat ?m))\<rparr>)"
      "pkept med (rd_part s) q"
      by (rule read_partial_step [OF file_chainD(1) [OF k(4)], of 0 ?m]) (use k a vs less_b in simp_all)
    define data where "data = slice (pview med (rd_part s) (file_sector (rd_part s) (rd_pos s))) (unat (0 :: u32)) (unat ?m)"
    define pos where "pos = (rd_pos s)\<lparr>fp_byte := fp_byte (rd_pos s) + ?m\<rparr>"
    have data: "data = slice (chain_bytes (pview med p) p cs) n (unat ?m)"
      using sector_slice [OF file_chainD(1) [OF fc] k(1) a, of 0 "unat ?m"] less_b k(2,3) b
      by (simp add: data_def vs k(6) file_sector_def)
    have pos: "pos_at p cs pos (n + unat ?m)"
      using k(1,2,3) a b less_b by (auto simp: pos_at_def pos_def intro!: exI [of _ k])
    have at': "reading_at med p cs start fin (n + unat ?m)
      (s\<lparr>rd_part := q, rd_pos := pos, rd_remain := ?m - ?m, rd_out := rd_out s @ map Some data\<rparr>)"
      by (rule reading_more [OF at q(2) pos _ data]) simp
    have fin: "n + unat ?m = fin" by (rule reading_atD(5) [OF at])
    have "read_tail s = Some (s\<lparr>rd_part := q, rd_pos := pos, rd_remain := ?m - ?m, rd_out := rd_out s @ map Some data\<rparr>)"
      using False reading_atD(2) [OF at] q(1)
      by (simp add: read_tail_def Let_def data_def pos_def word_neq_0_conv [symmetric])
    then show thesis using at' unfolding fin
      by (intro that [of "s\<lparr>rd_part := q, rd_pos := pos, rd_remain := ?m - ?m, rd_out := rd_out s @ map Some data\<rparr>"]) simp_all
  qed
qed

section \<open>The whole read\<close>

lemma read_body_spec:
  assumes fc: "file_chain med p cs" and at: "reading_at med p cs start fin n s"
    and start: "unat (fp_sector (rd_pos s)) < spc p \<or> bps p \<le> unat (rd_remain s)" and fin: "fin \<le> length cs * bpc p"
    and small: "fin + bpc p < 2 ^ 32"
  obtains s' where "read_body s = Some s'" and "reading_at med p cs start fin fin s'" and "rd_remain s' = 0"
    and "rd_errno s' = rd_errno s"
proof -
  obtain s1 n1 where s1: "read_align_sector s = Some s1" "reading_at med p cs start fin n1 s1" "at_sector_start s1"
    "rd_errno s1 = rd_errno s"
    by (rule read_align_sector_spec [OF fc at start])
  obtain s2 n2 where s2: "read_align_cluster s1 = Some s2" "reading_at med p cs start fin n2 s2" "at_sector_start s2"
    "at_cluster_edge p s2" "rd_errno s2 = rd_errno s1"
    by (rule read_align_cluster_spec [OF fc s1(2,3)])
  obtain s3 where s3: "read_next_cluster s2 = Some s3" "reading_at med p cs start fin n2 s3" "loop_ready p s3"
    "rd_errno s3 = rd_errno s2"
    by (rule read_next_cluster_spec [OF fc s2(2,3,4) fin])
  have "unat (rd_remain s3) + bpc p < 2 ^ 32" using reading_atD(5) [OF s3(2)] small by simp
  then obtain s4 n4 where s4: "read_clusters s3 = Some s4" "reading_at med p cs start fin n4 s4" "loop_ready p s4"
    "unat (rd_remain s4) < bpc p" "rd_errno s4 = rd_errno s3"
    using read_clusters_spec [OF fc s3(2,3) fin] by metis
  obtain s5 n5 where s5: "read_rest_sectors s4 = Some s5" "reading_at med p cs start fin n5 s5"
    "unat (rd_remain s5) < bps p" "rd_errno s5 = rd_errno s4"
    "rd_remain s5 \<noteq> 0 \<longrightarrow> fp_byte (rd_pos s5) = 0 \<and> unat (fp_sector (rd_pos s5)) < spc p"
    by (rule read_rest_spec [OF fc s4(2-4)])
  obtain s6 where s6: "read_tail s5 = Some s6" "reading_at med p cs start fin fin s6" "rd_remain s6 = 0"
    "rd_errno s6 = rd_errno s5"
    by (rule read_tail_spec [OF fc s5(2,3,5)])
  have "read_body s = Some s6" by (simp add: read_body_def s1(1) s2(1) s3(1) s4(1) s5(1) s6(1))
  then show thesis using that s6 s5(4) s4(5) s3(4) s2(5) s1(4) by simp
qed

text \<open>A file that is open for reading, its position where \<open>currentPosition\<close> says.\<close>

definition readable_file :: "('d \<Rightarrow> sec_t \<Rightarrow> u8 list) \<Rightarrow> 'd partition \<Rightarrow> u32 list \<Rightarrow> file_struct \<Rightarrow> bool" where
  "readable_file med p cs file \<longleftrightarrow> file_chain med p cs \<and> f_startCluster file = hd cs \<and> f_inUse file \<and> f_read file \<and>
     unat (f_filesize file) \<le> length cs * bpc p \<and> unat (f_filesize file) + bpc p < 2 ^ 32 \<and>
     pos_at p cs (f_rwPosition file) (unat (f_currentPosition file))"

lemma read_r_eq:
  assumes rf: "readable_file med p cs file" and cur: "f_currentPosition file < f_filesize file" and len: "0 < unat len"
    and nowrap: "unat len + unat (f_currentPosition file) < 2 ^ 32"
    and n: "n = min (unat len) (unat (f_filesize file) - unat (f_currentPosition file))"
    and err: "err = (if unat len + unat (f_currentPosition file) > unat (f_filesize file) then Some EOVERFLOW else None)"
    and body: "read_body \<lparr>rd_part = p, rd_pos = f_rwPosition file, rd_remain = of_nat n, rd_out = [], rd_ok = True,
      rd_errno = err\<rparr> = Some s'" "rd_remain s' = 0" "rd_errno s' = err"
  shows "FAT_read_r file p len = Some ((Some (of_nat n), rd_out s', err),
    file\<lparr>f_rwPosition := rd_pos s', f_currentPosition := f_currentPosition file + of_nat n\<rparr>, rd_part s')"
proof -
  let ?cur = "f_currentPosition file" and ?size = "f_filesize file"
  note rf' = rf [unfolded readable_file_def]
  have hd: "f_startCluster file \<noteq> CLUSTER_FREE" using rf' chain_head_used by metis
  have cur': "unat ?cur < unat ?size" using cur by (simp add: word_less_nat_alt)
  have ulen: "unat (len + ?cur) = unat len + unat ?cur" using nowrap by (intro unat_add_small) simp
  have over: "len + ?cur > ?size \<longleftrightarrow> unat len + unat ?cur > unat ?size" by (simp add: word_less_nat_alt ulen)
  define len' where "len' = (if len + ?cur > ?size then ?size - ?cur else len)"
  have ul: "unat len' = n" using cur' by (auto simp: len'_def n word_less_nat_alt ulen unat_sub_le)
  have len'n: "len' = of_nat n" unfolding ul [symmetric] by simp
  have nz: "len \<noteq> 0" using len by auto
  have cur_lt: "(?size \<le> ?cur) = False" using cur by (simp add: not_le)
  show ?thesis
    using nz rf' hd body unfolding FAT_read_r_def
    by (simp add: Let_def cur_lt over len'_def [symmetric, unfolded over] err [symmetric] len'n)
qed

lemma read_r_spec:
  assumes rf: "readable_file med p cs file" and start: "unat (fp_sector (f_rwPosition file)) < spc p \<or>
      bps p \<le> min (unat len) (unat (f_filesize file) - unat (f_currentPosition file))"
    and cur: "f_currentPosition file < f_filesize file" and len: "0 < unat len"
    and nowrap: "unat len + unat (f_currentPosition file) < 2 ^ 32"
  defines "n \<equiv> min (unat len) (unat (f_filesize file) - unat (f_currentPosition file))"
  obtains pos p' where "FAT_read_r file p len = Some ((Some (of_nat n),
      map Some (slice (chain_bytes (pview med p) p cs) (unat (f_currentPosition file)) n),
      if unat len + unat (f_currentPosition file) > unat (f_filesize file) then Some EOVERFLOW else None),
      file\<lparr>f_rwPosition := pos, f_currentPosition := f_currentPosition file + of_nat n\<rparr>, p')"
    and "pkept med p p'" and "pos_at p cs pos (unat (f_currentPosition file) + n)"
proof -
  let ?cur = "f_currentPosition file" and ?size = "f_filesize file"
  note rf' = rf [unfolded readable_file_def]
  have fc: "file_chain med p cs" using rf' by blast
  define err where "err = (if unat len + unat ?cur > unat ?size then Some EOVERFLOW else None)"
  define s where "s = \<lparr>rd_part = p, rd_pos = f_rwPosition file, rd_remain = of_nat n, rd_out = [], rd_ok = True, rd_errno = err\<rparr>"
  have "n \<le> unat len" by (simp add: n_def)
  then have un: "unat (of_nat n :: u32) = n" using unat_lt_2p32 [of len] by (simp add: unat_of_nat take_bit_nat_eq_self)
  have at: "reading_at med p cs (unat ?cur) (unat ?cur + n) (unat ?cur) s"
    using rf' pkept_refl [OF file_chainD(2) [OF fc]] un by (simp add: reading_at_def s_def slice_def)
  have "unat ?cur + n \<le> unat ?size" using cur by (simp add: n_def word_less_nat_alt)
  then have bounds: "unat ?cur + n \<le> length cs * bpc p" "unat ?cur + n + bpc p < 2 ^ 32" using rf' by linarith+
  have ins: "unat (fp_sector (rd_pos s)) < spc p \<or> bps p \<le> unat (rd_remain s)"
    using start unfolding n_def [symmetric] by (simp add: s_def un)
  obtain s' where s': "read_body s = Some s'" "reading_at med p cs (unat ?cur) (unat ?cur + n) (unat ?cur + n) s'"
    "rd_remain s' = 0" "rd_errno s' = rd_errno s"
    by (rule read_body_spec [OF fc at ins bounds])
  note r = reading_atD [OF s'(2)]
  have "FAT_read_r file p len = Some ((Some (of_nat n), rd_out s', err),
      file\<lparr>f_rwPosition := rd_pos s', f_currentPosition := ?cur + of_nat n\<rparr>, rd_part s')"
    by (rule read_r_eq [OF rf cur len nowrap _ err_def]) (use s' in \<open>simp_all add: n_def s_def\<close>)
  then have "FAT_read_r file p len = Some ((Some (of_nat n),
      map Some (slice (chain_bytes (pview med p) p cs) (unat ?cur) n),
      if unat len + unat ?cur > unat ?size then Some EOVERFLOW else None),
      file\<lparr>f_rwPosition := rd_pos s', f_currentPosition := ?cur + of_nat n\<rparr>, rd_part s')"
    by (simp add: r(6) err_def)
  then show thesis by (rule that [OF _ r(1,3)])
qed

text \<open>A read of less than a sector from the position behind the last sector of a cluster takes the
  sector that follows the cluster on the disc.\<close>

lemma read_body_at_end:
  assumes fc: "file_chain med p cs" and k: "Suc k < length cs" and n: "0 < unat n" "unat n < bps p"
    and pos: "pos = \<lparr>fp_cluster = cs ! k, fp_sector = p_sectorsPerCluster p, fp_byte = 0\<rparr>"
    and range: "unat (file_sector p pos) < unat (c_endOfPartition (p_cache p))"
  obtains p' where "read_body \<lparr>rd_part = p, rd_pos = pos, rd_remain = n, rd_out = [], rd_ok = True, rd_errno = e\<rparr> =
      Some \<lparr>rd_part = p', rd_pos = \<lparr>fp_cluster = cs ! Suc k, fp_sector = 0, fp_byte = n\<rparr>, rd_remain = 0,
        rd_out = map Some (slice (pview med p (file_sector p pos)) 0 (unat n)), rd_ok = True, rd_errno = e\<rparr>"
    and "pkept med p p'"
proof -
  note vd = volume_okD [OF file_chainD(1) [OF fc]]
  let ?s = "\<lparr>rd_part = p, rd_pos = pos, rd_remain = n, rd_out = [], rd_ok = True, rd_errno = e\<rparr>"
  define data where "data = map Some (slice (pview med p (file_sector p pos)) 0 (unat n))"
  obtain q where q: "read_partial ?s 0 n = Some (?s\<lparr>rd_part := q, rd_remain := 0, rd_out := data\<rparr>)" "pkept med p q"
    using read_partial_sector [of med ?s 0 n] file_chainD(1) [OF fc] range n(2) by (auto simp: data_def)
  note sq = same_partD [OF pkeptD(2) [OF q(2)]]
  have lt: "n < p_bytesPerSector p" using n(2) by (simp add: word_less_nat_alt)
  have a1: "read_align_sector ?s =
      Some (?s\<lparr>rd_part := q, rd_remain := 0, rd_out := data, rd_pos := pos\<lparr>fp_byte := n\<rparr>\<rparr>)"
    using lt q(1) by (simp add: read_align_sector_def pos Let_def)
  let ?s1 = "?s\<lparr>rd_part := q, rd_remain := 0, rd_out := data, rd_pos := pos\<lparr>fp_byte := n\<rparr>\<rparr>"
  have bz: "p_bytesPerSector q \<noteq> 0" using vd(4) sq by auto
  have a2: "read_align_cluster ?s1 = Some ?s1"
    using bz by (simp add: read_align_cluster_def Let_def)
  obtain r where r: "FAT_fat_nextCluster q (cs ! k) = Some (fat_table med q (cs ! k), r)" "pkept med q r"
    by (rule next_in_file [OF file_chain_kept [OF q(2) fc] Suc_lessD [OF k]])
  have nx: "fat_table med q (cs ! k) = cs ! Suc k"
    using file_chain_next [OF fc, of k] k by (simp add: pkept_table [OF q(2)])
  note kept = pkept_trans [OF q(2) r(2)]
  have v: "FAT_fat_isValidCluster r (cs ! Suc k)" using file_chainD(7) [OF fc k] by (simp add: pkept_valid [OF kept])
  have ne: "cs ! Suc k \<noteq> CLUSTER_EOF" using valid_not_mark(2) [OF fc file_chainD(7) [OF fc k]] .
  let ?s3 = "\<lparr>rd_part = r, rd_pos = \<lparr>fp_cluster = cs ! Suc k, fp_sector = 0, fp_byte = n\<rparr>, rd_remain = 0,
        rd_out = data, rd_ok = True, rd_errno = e\<rparr>"
  have a3: "read_next_cluster ?s1 = Some ?s3"
    using r(1) v ne sq by (simp add: read_next_cluster_def pos read_advance_def Let_def nx)
  have cz: "\<not> p_bytesPerCluster r \<le> 0" using vd(6) same_partD [OF pkeptD(2) [OF kept]] by (auto simp: word_le_nat_alt)
  have a4: "read_clusters ?s3 = Some ?s3" using cz by (subst read_clusters.simps) simp
  have a5: "read_rest_sectors ?s3 = Some ?s3" by (simp add: read_rest_sectors_def Let_def)
  have a6: "read_tail ?s3 = Some ?s3" by (simp add: read_tail_def)
  have "read_body ?s = Some ?s3" by (simp only: read_body_def a1 a2 a3 a4 a5 a6 Option.bind.simps)
  then show thesis by (intro that [OF _ kept]) (simp only: data_def)
qed

end
