(* ===== verification/OpenFiles.thy ===== *)
theory OpenFiles
  imports File
begin

text \<open>
  Synchronising, seeking, truncating, opening and closing files (\<open>source/fatfile.c\<close>) and the
  destructor of a partition (\<open>source/partition.c\<close>). The partition and the heap of file structures
  make up the record \<open>fs\<close>; the partition's doubly linked list of open files runs through the
  heap. A function that fails before it has linked its file leaves the file structure, which its
  caller then discards, out of the heap.
\<close>

section \<open>Writing a file's entry back\<close>

text \<open>The two stamps come from the clock. The old entry is read into an uninitialised array.\<close>

definition sync_entry :: "tm option option \<Rightarrow> file_struct \<Rightarrow> u8 list \<Rightarrow> u8 list" where
  "sync_entry rtc file data =
    (let data = u32_to_u8array data DIR_ENTRY_fileSize (f_filesize file);
         data = u16_to_u8array data DIR_ENTRY_cluster (ucast (f_startCluster file));
         data = u16_to_u8array data DIR_ENTRY_clusterHigh (ucast (drop_bit 16 (f_startCluster file)));
         data = u16_to_u8array data DIR_ENTRY_mTime (FAT_filetime_getTimeFromRTC rtc);
         data = u16_to_u8array data DIR_ENTRY_mDate (FAT_filetime_getDateFromRTC rtc);
         data = u16_to_u8array data DIR_ENTRY_aDate (FAT_filetime_getDateFromRTC rtc)
     in data[DIR_ENTRY_attributes := data ! DIR_ENTRY_attributes OR ATTRIB_ARCH])"

definition flush_partition :: "'d partition \<Rightarrow> bool \<times> 'd partition" where
  "flush_partition p = (let (ok, c) = FAT_cache_flush (p_cache p) in (ok, p\<lparr>p_cache := c\<rparr>))"

text \<open>The C result is \<open>None\<close> for 0.\<close>

definition FAT_syncToDisc ::
    "tm option option \<Rightarrow> file_struct \<Rightarrow> 'd partition \<Rightarrow> (errno option \<times> file_struct \<times> 'd partition) option" where
  "FAT_syncToDisc rtc file p =
    (if \<not> f_inUse file then Some (Some EBADF, file, p)
     else if f_write file \<and> f_modified file then do {
       ((_, data), p) \<leftarrow> readEntry p (f_dirEntryEnd file) None;
       dirEntryData \<leftarrow> data;
       (_, p) \<leftarrow> writeEntry p (f_dirEntryEnd file) (sync_entry rtc file dirEntryData);
       let (ok, p) = flush_partition p;
       Some (if ok then (None, file\<lparr>f_modified := False\<rparr>, p) else (Some EIO, file, p))
     } else Some (None, file\<lparr>f_modified := False\<rparr>, p))"

section \<open>Seeking\<close>

abbreviation "SEEK_SET \<equiv> (0 :: nat)"
abbreviation "SEEK_CUR \<equiv> (1 :: nat)"
abbreviation "SEEK_END \<equiv> (2 :: nat)"

text \<open>Following the chain for \<open>k\<close> clusters from \<open>cluster\<close>, whose link is \<open>n\<close>; what is left of \<open>k\<close>, and
  the cluster reached.\<close>

fun seek_walk :: "'d partition \<Rightarrow> u32 \<Rightarrow> u32 \<Rightarrow> nat \<Rightarrow> ((nat \<times> u32) \<times> 'd partition) option" where
  "seek_walk p cluster n 0 = Some ((0, cluster), p)"
| "seek_walk p cluster n (Suc k) =
     (if n \<noteq> CLUSTER_FREE \<and> n \<noteq> CLUSTER_EOF
      then do { (n', p) \<leftarrow> FAT_fat_nextCluster p n; seek_walk p n n' k }
      else Some ((Suc k, cluster), p))"

text \<open>The addition is one of signed numbers of 32 bits, the size of \<open>off_t\<close>: \<open>None\<close> when it overflows. An unsigned position
  or size from 2 to the 31 on is negative as an \<open>off_t\<close>, by the conversion of the compiler.\<close>

definition seek_target :: "file_struct \<Rightarrow> u32 \<Rightarrow> nat \<Rightarrow> (errno + u32) option" where
  "seek_target file pos dir =
    (if dir \<notin> {SEEK_SET, SEEK_CUR, SEEK_END} then Some (Inl EINVAL)
     else let base = (if dir = SEEK_SET then 0 else if dir = SEEK_CUR then f_currentPosition file else f_filesize file);
              newPosition = base + pos
          in if sint newPosition \<noteq> sint base + sint pos then None
             else if sint pos > 0 \<and> sint newPosition < 0 then Some (Inl EOVERFLOW)
             else if sint newPosition < 0 then Some (Inl EINVAL)
             else Some (Inr newPosition))"

text \<open>The C result is the new position, \<open>Inl\<close> the error for -1. A seek that runs out of clusters has
  already changed the sector and byte of the read/write position.\<close>

definition FAT_seek_r ::
    "file_struct \<Rightarrow> 'd partition \<Rightarrow> u32 \<Rightarrow> nat \<Rightarrow> ((errno + u32) \<times> file_struct \<times> 'd partition) option" where
  "FAT_seek_r file p pos dir =
    (if \<not> f_inUse file then Some (Inl EBADF, file, p)
     else case seek_target file pos dir of
       None \<Rightarrow> None
     | Some (Inl e) \<Rightarrow> Some (Inl e, file, p)
     | Some (Inr position) \<Rightarrow>
         if position \<le> f_filesize file \<and> f_startCluster file \<noteq> CLUSTER_FREE
         then (let bpc = p_bytesPerCluster p; bps = p_bytesPerSector p
               in if bpc = 0 \<or> bps = 0 then None
                  else let ahead = (position \<ge> f_currentPosition file);
                           currentCount = int (unat (f_currentPosition file div bpc))
                             - (if fp_sector (f_rwPosition file) = p_sectorsPerCluster p then 1 else 0);
                           clusCount = int (unat (position div bpc)) - (if ahead then currentCount else 0);
                           cluster = (if ahead then fp_cluster (f_rwPosition file) else f_startCluster file);
                           rw = (f_rwPosition file)\<lparr>fp_sector := position mod bpc div bps, fp_byte := position mod bps\<rparr>
                       in do {
                         (n, p) \<leftarrow> FAT_fat_nextCluster p cluster;
                         ((left, cluster), p) \<leftarrow> seek_walk p cluster n (nat clusCount);
                         if left > 0 \<and> \<not> (left = 1 \<and> f_filesize file = position \<and> fp_sector rw = 0)
                         then Some (Inl EINVAL, file\<lparr>f_rwPosition := rw\<rparr>, p)
                         else let rw = (if left > 0 then rw\<lparr>fp_sector := p_sectorsPerCluster p, fp_byte := 0\<rparr> else rw)
                              in Some (Inr position, file\<lparr>f_rwPosition := rw\<lparr>fp_cluster := cluster\<rparr>,
                                f_currentPosition := position\<rparr>, p)
                       })
         else Some (Inr position, file\<lparr>f_currentPosition := position\<rparr>, p))"

section \<open>Status, truncation, synchronisation\<close>

definition FAT_fstat_r ::
    "'mb char_env \<Rightarrow> (tm \<Rightarrow> 't) \<Rightarrow> file_struct \<Rightarrow> 'd partition \<Rightarrow> ((errno + 't stat) \<times> 'd partition) option" where
  "FAT_fstat_r env mktime file p =
    (if \<not> f_inUse file then Some (Inl EBADF, p)
     else do {
       ((ok, entry), p) \<leftarrow> FAT_directory_entryFromPosition env p
         (blank_entry\<lparr>de_dataStart := f_dirEntryStart file, de_dataEnd := f_dirEntryEnd file\<rparr>);
       if \<not> ok then Some (Inl EIO, p)
       else Some (Inr ((FAT_directory_entryStat mktime p entry)\<lparr>st_ino := f_startCluster file,
         st_size := f_filesize file\<rparr>), p)
     })"

text \<open>The C result is -1 when the flag is false.\<close>

definition FAT_ftruncate_r ::
    "file_struct \<Rightarrow> 'd partition \<Rightarrow> u32 \<Rightarrow> ((bool \<times> errno option) \<times> file_struct \<times> 'd partition) option" where
  "FAT_ftruncate_r file p len =
    (let newSize = len;
         finish = (\<lambda>ok err file p. Some ((ok, err), file\<lparr>f_filesize := newSize, f_modified := True\<rparr>, p))
     in if sint len < 0 then Some ((False, Some EINVAL), file, p)
        else if \<not> f_inUse file then Some ((False, Some EBADF), file, p)
        else if \<not> f_write file then Some ((False, Some EINVAL), file, p)
        else if newSize > f_filesize file then do {
          (ok, file, p) \<leftarrow> (if f_startCluster file = CLUSTER_FREE
            then do {
              (n, p) \<leftarrow> FAT_fat_linkFreeCluster p CLUSTER_FREE;
              if \<not> FAT_fat_isValidCluster p n then Some (False, file, p)
              else Some (True, file\<lparr>f_startCluster := n,
                f_rwPosition := \<lparr>fp_cluster = n, fp_sector = 0, fp_byte = 0\<rparr>\<rparr>, p)
            } else Some (True, file, p));
          if \<not> ok then Some ((False, Some ENOSPC), file, p)
          else do {
            let savedPosition = f_rwPosition file;
            let savedOffset = f_currentPosition file;
            ((ok, err), file, p) \<leftarrow> FAT_file_extend_r (file\<lparr>f_currentPosition := newSize\<rparr>) p;
            let file = (if f_append file then file\<lparr>f_appendPosition := f_rwPosition file\<rparr> else file);
            finish ok err (file\<lparr>f_rwPosition := savedPosition, f_currentPosition := savedOffset\<rparr>) p
          }
        }
        else if newSize < f_filesize file then
          (if len = 0 then do {
             (_, p) \<leftarrow> FAT_fat_clearLinks p (f_startCluster file);
             finish True None (file\<lparr>f_startCluster := CLUSTER_FREE,
               f_appendPosition := \<lparr>fp_cluster = CLUSTER_FREE, fp_sector = 0, fp_byte = 0\<rparr>\<rparr>) p
           }
           else if p_bytesPerCluster p = 0 \<or> p_bytesPerSector p = 0 then None
           else do {
             (lastCluster, p) \<leftarrow> FAT_fat_trimChain p (f_startCluster file) ((newSize - 1) div p_bytesPerCluster p + 1);
             finish True None (if f_append file
               then file\<lparr>f_appendPosition := \<lparr>fp_cluster = lastCluster,
                 fp_sector = (if newSize mod p_bytesPerCluster p = 0 then p_sectorsPerCluster p
                   else newSize mod p_bytesPerCluster p div p_bytesPerSector p),
                 fp_byte = newSize mod p_bytesPerSector p\<rparr>\<rparr>
               else file) p
           })
        else finish True None file p)"

definition FAT_fsync_r ::
    "tm option option \<Rightarrow> file_struct \<Rightarrow> 'd partition \<Rightarrow> (errno option \<times> file_struct \<times> 'd partition) option" where
  "FAT_fsync_r rtc file p =
    (if \<not> f_inUse file then Some (Some EBADF, file, p) else FAT_syncToDisc rtc file p)"

section \<open>The heap of open files\<close>

record 'd fs =
  fs_part :: "'d partition"
  fs_files :: "nat \<Rightarrow> file_struct option"

definition update_file :: "nat \<Rightarrow> (file_struct \<Rightarrow> file_struct) \<Rightarrow> 'd fs \<Rightarrow> 'd fs option" where
  "update_file a f s =
    (case fs_files s a of None \<Rightarrow> None | Some x \<Rightarrow> Some (s\<lparr>fs_files := (fs_files s)(a \<mapsto> f x)\<rparr>))"

definition update_opt :: "nat option \<Rightarrow> (file_struct \<Rightarrow> file_struct) \<Rightarrow> 'd fs \<Rightarrow> 'd fs option" where
  "update_opt a f s = (case a of None \<Rightarrow> Some s | Some a \<Rightarrow> update_file a f s)"

text \<open>Linking a file in front of the list, as the end of \<open>_FAT_open_r\<close> does, and out of it, as
  \<open>_FAT_close_r\<close> does.\<close>

definition link_file :: "nat \<Rightarrow> file_struct \<Rightarrow> 'd fs \<Rightarrow> 'd fs option" where
  "link_file a file s =
    (let p = fs_part s; first = p_firstOpenFile p
     in do {
       s \<leftarrow> update_opt first (\<lambda>x. x\<lparr>f_prevOpenFile := Some a\<rparr>) s;
       Some (s\<lparr>fs_part := p\<lparr>p_openFileCount := p_openFileCount p + 1, p_firstOpenFile := Some a\<rparr>,
         fs_files := (fs_files s)(a \<mapsto> file\<lparr>f_nextOpenFile := first, f_prevOpenFile := None\<rparr>)\<rparr>)
     })"

definition unlink_file :: "nat \<Rightarrow> 'd fs \<Rightarrow> 'd fs option" where
  "unlink_file a s =
    do {
      file \<leftarrow> fs_files s a;
      let s = s\<lparr>fs_part := (fs_part s)\<lparr>p_openFileCount := p_openFileCount (fs_part s) - 1\<rparr>\<rparr>;
      s \<leftarrow> update_opt (f_nextOpenFile file) (\<lambda>x. x\<lparr>f_prevOpenFile := f_prevOpenFile file\<rparr>) s;
      (case f_prevOpenFile file of
         Some b \<Rightarrow> update_file b (\<lambda>x. x\<lparr>f_nextOpenFile := f_nextOpenFile file\<rparr>) s
       | None \<Rightarrow> Some (s\<lparr>fs_part := (fs_part s)\<lparr>p_firstOpenFile := f_nextOpenFile file\<rparr>\<rparr>))
    }"

definition FAT_close_r :: "tm option option \<Rightarrow> nat \<Rightarrow> 'd fs \<Rightarrow> (errno option \<times> 'd fs) option" where
  "FAT_close_r rtc a s =
    do {
      file \<leftarrow> fs_files s a;
      if \<not> f_inUse file then Some (Some EBADF, s)
      else do {
        (ret, file, p) \<leftarrow> (if f_write file then FAT_syncToDisc rtc file (fs_part s) else Some (None, file, fs_part s));
        s \<leftarrow> unlink_file a (s\<lparr>fs_part := p, fs_files := (fs_files s)(a \<mapsto> file\<lparr>f_inUse := False\<rparr>)\<rparr>);
        Some (ret, s)
      }
    }"

section \<open>Opening\<close>

definition O_APPEND :: u32 where "O_APPEND = 0x0008"
definition O_CREAT :: u32 where "O_CREAT = 0x0200"
definition O_TRUNC :: u32 where "O_TRUNC = 0x0400"
definition O_EXCL :: u32 where "O_EXCL = 0x0800"

text \<open>The path behind the device name; \<open>None\<close> when it holds a second colon.\<close>

definition strip_device :: "u8 list \<Rightarrow> u8 list option" where
  "strip_device path =
    (let rest = (if 0x3A \<in> set path then tl (dropWhile (\<lambda>c. c \<noteq> 0x3A) path) else path)
     in if 0x3A \<in> set rest then None else Some rest)"

text \<open>Read and write access from the lowest two flag bits.\<close>

definition access_mode :: "u32 \<Rightarrow> (bool \<times> bool) option" where
  "access_mode flags =
    (if flags AND 3 = 0 then Some (True, False)
     else if flags AND 3 = 1 then Some (False, True)
     else if flags AND 3 = 2 then Some (True, True) else None)"

text \<open>Creating the directory entry of a new file: the directory, then the entry. \<open>strncpy\<close> leaves a
  name of \<open>PATH_MAX - 1\<close> bytes or more without a terminator.\<close>

definition last_separator :: "u8 list \<Rightarrow> nat option" where
  "last_separator path =
    (if DIR_SEPARATOR \<in> set path
     then Some (length path - 1 - length (takeWhile (\<lambda>c. c \<noteq> DIR_SEPARATOR) (rev path))) else None)"

definition new_file_entry :: "tm option option \<Rightarrow> u8 list \<Rightarrow> dir_entry" where
  "new_file_entry rtc name =
    (let data = u16_to_u8array (replicate 32 0) DIR_ENTRY_cTime (FAT_filetime_getTimeFromRTC rtc);
         data = u16_to_u8array data DIR_ENTRY_cDate (FAT_filetime_getDateFromRTC rtc)
     in blank_entry\<lparr>de_entryData := data, de_filename := name\<rparr>)"

definition create_file ::
    "'mb char_env \<Rightarrow> (nat \<Rightarrow> u8 list option) \<Rightarrow> tm option option \<Rightarrow> 'd partition \<Rightarrow> u8 list
      \<Rightarrow> ((errno + dir_entry) \<times> 'd partition) option" where
  "create_file env malloc rtc p path =
    do {
      (r, p) \<leftarrow> (case last_separator path of
         None \<Rightarrow> Some (Some (p_cwdCluster p, path), p)
       | Some pathEnd \<Rightarrow> do {
           ((ok, entry), p) \<leftarrow> FAT_directory_entryFromPath env p blank_entry path (Some pathEnd);
           if \<not> ok \<or> \<not> FAT_directory_isDirectory entry then Some (None, p)
           else Some (Some (FAT_directory_entryGetCluster p (de_entryData entry), drop (pathEnd + 1) path), p)
         });
      (case r of None \<Rightarrow> Some (Inl ENOTDIR, p)
       | Some (dirCluster, name) \<Rightarrow>
           if PATH_MAX - 1 \<le> length name then None
           else do {
             ((ok, entry), p) \<leftarrow> FAT_directory_addEntry env malloc p (new_file_entry rtc name) dirCluster;
             Some (if ok then Inr entry else Inl ENOSPC, p)
           })
    }"

text \<open>The file structure for an entry, truncated and positioned as the flags ask.\<close>

definition open_entry :: "'d partition \<Rightarrow> dir_entry \<Rightarrow> u32 \<Rightarrow> bool \<Rightarrow> bool \<Rightarrow> bool \<Rightarrow> (file_struct \<times> 'd partition) option" where
  "open_entry p entry flags rd wr modified =
    do {
      let start = FAT_directory_entryGetCluster p (de_entryData entry);
      let trunc = (flags AND O_TRUNC \<noteq> 0 \<and> wr \<and> start \<noteq> 0);
      (_, p) \<leftarrow> (if trunc then FAT_fat_clearLinks p start else Some (True, p));
      let start = (if trunc then CLUSTER_FREE else start);
      let sz = (if trunc then 0 else u8array_to_u32 (de_entryData entry) DIR_ENTRY_fileSize);
      let rw = \<lparr>fp_cluster = start, fp_sector = 0, fp_byte = 0\<rparr>;
      let append = (flags AND O_APPEND \<noteq> 0);
      (pos, p) \<leftarrow> (if append
        then (if p_bytesPerCluster p = 0 \<or> p_bytesPerSector p = 0 then None
          else do {
            (cl, p) \<leftarrow> FAT_fat_lastCluster p start;
            let full = (sz > 0 \<and> sz mod p_bytesPerCluster p = 0);
            Some (\<lparr>fp_cluster = cl,
              fp_sector = (if full then p_sectorsPerCluster p else sz mod p_bytesPerCluster p div p_bytesPerSector p),
              fp_byte = (if full then 0 else sz mod p_bytesPerSector p)\<rparr>, p)
          })
        else Some (rw, p));
      Some (\<lparr>f_filesize = sz, f_startCluster = start, f_currentPosition = 0, f_rwPosition = rw,
        f_appendPosition = pos, f_dirEntryStart = de_dataStart entry, f_dirEntryEnd = de_dataEnd entry,
        f_prevOpenFile = None, f_nextOpenFile = None, f_read = rd, f_write = wr, f_append = append,
        f_inUse = True, f_modified = (modified \<or> trunc)\<rparr>, p)
    }"

text \<open>\<open>mounted\<close> tells whether the device of the path is the partition at hand. The result is the
  address of the file structure.\<close>

definition FAT_open_r ::
    "'mb char_env \<Rightarrow> (nat \<Rightarrow> u8 list option) \<Rightarrow> tm option option \<Rightarrow> bool \<Rightarrow> nat \<Rightarrow> u8 list \<Rightarrow> u32 \<Rightarrow> 'd fs
      \<Rightarrow> ((errno + nat) \<times> 'd fs) option" where
  "FAT_open_r env malloc rtc mounted a path flags s =
    (if \<not> mounted then Some (Inl ENODEV, s)
     else case strip_device path of
       None \<Rightarrow> Some (Inl EINVAL, s)
     | Some path \<Rightarrow>
     (case access_mode flags of
       None \<Rightarrow> Some (Inl EACCES, s)
     | Some (rd, wr) \<Rightarrow>
         if wr \<and> p_readOnly (fs_part s) then Some (Inl EROFS, s)
         else do {
           ((fileExists, entry), p) \<leftarrow> FAT_directory_entryFromPath env (fs_part s) blank_entry path None;
           let s = s\<lparr>fs_part := p\<rparr>;
           if flags AND O_CREAT \<noteq> 0 \<and> flags AND O_EXCL \<noteq> 0 \<and> fileExists then Some (Inl EEXIST, s)
           else if fileExists \<and> FAT_directory_isDirectory entry then Some (Inl EISDIR, s)
           else do {
             (r, p) \<leftarrow> (if fileExists then Some (Inr entry, p)
               else if flags AND O_CREAT = 0 then Some (Inl ENOENT, p)
               else if p_readOnly p then Some (Inl EROFS, p)
               else create_file env malloc rtc p path);
             let s = s\<lparr>fs_part := p\<rparr>;
             (case r of Inl e \<Rightarrow> Some (Inl e, s)
              | Inr entry \<Rightarrow>
                  if wr \<and> \<not> FAT_directory_isWritable entry then Some (Inl EROFS, s)
                  else do {
                    (file, p) \<leftarrow> open_entry p entry flags rd wr (\<not> fileExists);
                    s \<leftarrow> link_file a file (s\<lparr>fs_part := p\<rparr>);
                    Some (Inr a, s)
                  })
           }
         }))"

section \<open>Attributes\<close>

definition FAT_findEntry ::
    "'mb char_env \<Rightarrow> bool \<Rightarrow> u8 list \<Rightarrow> 'd partition \<Rightarrow> ((bool \<times> dir_entry) \<times> 'd partition) option" where
  "FAT_findEntry env mounted path p =
    (if \<not> mounted then Some ((False, blank_entry), p)
     else case strip_device path of
       None \<Rightarrow> Some ((False, blank_entry), p)
     | Some path \<Rightarrow> FAT_directory_entryFromPath env p blank_entry path None)"

definition FAT_getAttr :: "'mb char_env \<Rightarrow> bool \<Rightarrow> u8 list \<Rightarrow> 'd partition \<Rightarrow> (u8 option \<times> 'd partition) option" where
  "FAT_getAttr env mounted path p =
    do {
      ((ok, entry), p) \<leftarrow> FAT_findEntry env mounted path p;
      Some (if ok then Some (de_entryData entry ! DIR_ENTRY_attributes) else None, p)
    }"

definition FAT_setAttr :: "'mb char_env \<Rightarrow> bool \<Rightarrow> u8 list \<Rightarrow> u8 \<Rightarrow> 'd partition \<Rightarrow> (bool \<times> 'd partition) option" where
  "FAT_setAttr env mounted path attr p =
    do {
      ((ok, entry), p) \<leftarrow> FAT_findEntry env mounted path p;
      if \<not> ok then Some (False, p)
      else do {
        let pos = de_dataEnd entry;
        (_, p) \<leftarrow> on_cache (\<lambda>c. FAT_cache_writePartialSector c [attr]
          (FAT_fat_clusterToSector p (dp_cluster pos) + dp_sector pos)
          (dp_offset pos * DIR_ENTRY_DATA_SIZE + of_nat DIR_ENTRY_attributes) 1) p;
        Some (flush_partition p)
      }
    }"

section \<open>Unmounting\<close>

text \<open>Synchronising the open files in the order of the list.\<close>

partial_function (option) sync_files :: "tm option option \<Rightarrow> nat option \<Rightarrow> 'd fs \<Rightarrow> 'd fs option" where
  "sync_files rtc a s =
    (case a of None \<Rightarrow> Some s
     | Some a \<Rightarrow> do {
         file \<leftarrow> fs_files s a;
         (_, file, p) \<leftarrow> FAT_syncToDisc rtc file (fs_part s);
         sync_files rtc (f_nextOpenFile file) (s\<lparr>fs_part := p, fs_files := (fs_files s)(a \<mapsto> file)\<rparr>)
       })"

declare sync_files.simps [code]

definition FAT_partition_destructor ::
    "(nat \<Rightarrow> u8 list option) \<Rightarrow> tm option option \<Rightarrow> 'd fs \<Rightarrow> 'd option" where
  "FAT_partition_destructor malloc rtc s =
    do {
      s \<leftarrow> sync_files rtc (p_firstOpenFile (fs_part s)) s;
      p \<leftarrow> FAT_partition_writeFSinfo malloc (fs_part s);
      Some (FAT_cache_destructor (p_cache p))
    }"

end
