(* ===== verification/FileSeek.thy ===== *)
theory FileSeek
  imports FileRead OpenFiles
begin

text \<open>
  Seeking. A seek inside the file walks the chain from the cluster of the position, or from the
  start, and ends at a position that stands for the requested offset, so that a read from there
  returns the bytes at that offset.
\<close>

section \<open>Walking the chain\<close>

lemma seek_walk_spec:
  assumes "file_chain med p cs" and "k < length cs"
  shows "\<exists>p'. seek_walk p (cs ! k) (fat_table med p (cs ! k)) m =
      Some ((m - (length cs - 1 - k), cs ! min (k + m) (length cs - 1)), p') \<and> pkept med p p'"
  using assms
proof (induction m arbitrary: p k)
  case 0
  then have "min k (length cs - 1) = k" by simp
  then show ?case using pkept_refl [OF file_chainD(2) [OF 0(1)]] by auto
next
  case (Suc m)
  note nx = file_chain_next [OF Suc.prems]
  show ?case
  proof (cases "Suc k < length cs")
    case True
    then have v: "FAT_fat_isValidCluster p (cs ! Suc k)" by (rule file_chainD(7) [OF Suc.prems(1)])
    then have ne: "cs ! Suc k \<noteq> CLUSTER_FREE" "cs ! Suc k \<noteq> CLUSTER_EOF"
      using valid_not_mark [OF Suc.prems(1) v] by simp_all
    obtain q where q: "FAT_fat_nextCluster p (cs ! Suc k) = Some (fat_table med p (cs ! Suc k), q)" "pkept med p q"
      by (rule next_in_file [OF Suc.prems(1) True])
    obtain p' where p': "seek_walk q (cs ! Suc k) (fat_table med q (cs ! Suc k)) m =
        Some ((m - (length cs - 1 - Suc k), cs ! min (Suc k + m) (length cs - 1)), p')" "pkept med q p'"
      using Suc.IH [OF file_chain_kept [OF q(2) Suc.prems(1)] True] by blast
    have "seek_walk p (cs ! k) (fat_table med p (cs ! k)) (Suc m) =
        Some ((m - (length cs - 1 - Suc k), cs ! min (Suc k + m) (length cs - 1)), p')"
      using nx True ne q(1) p'(1) by (simp add: pkept_table [OF q(2)])
    moreover have "m - (length cs - 1 - Suc k) = Suc m - (length cs - 1 - k)" using True by simp
    ultimately show ?thesis using pkept_trans [OF q(2) p'(2)] by auto
  next
    case False
    then have "k = length cs - 1" using Suc.prems(2) by simp
    then show ?thesis using nx False pkept_refl [OF file_chainD(2) [OF Suc.prems(1)]] Suc.prems(2) by auto
  qed
qed

section \<open>The cluster an offset belongs to\<close>

text \<open>The cluster index the seek starts from, computed from the stored position.\<close>

lemma pos_at_count:
  assumes ok: "volume_ok med p" and pos: "pos_at p cs pos n"
  obtains k where "k < length cs" and "fp_cluster pos = cs ! k"
    and "int (n div bpc p) - (if fp_sector pos = p_sectorsPerCluster p then 1 else 0) = int k"
    and "k * bpc p \<le> n"
proof -
  note vd = volume_okD [OF ok]
  obtain k where k: "k < length cs" "fp_cluster pos = cs ! k"
    "n = k * bpc p + unat (fp_sector pos) * bps p + unat (fp_byte pos)" "unat (fp_byte pos) < bps p"
    "unat (fp_sector pos) \<le> spc p" "unat (fp_sector pos) = spc p \<Longrightarrow> fp_byte pos = 0"
    using pos by (auto simp: pos_at_def)
  have "int (n div bpc p) - (if fp_sector pos = p_sectorsPerCluster p then 1 else 0) = int k"
  proof (cases "unat (fp_sector pos) = spc p")
    case True
    then have "n = Suc k * bpc p" using k(3,6) vd(3) by simp
    then have "n div bpc p = Suc k" using vd(6) by (metis nonzero_mult_div_cancel_right neq0_conv)
    then show ?thesis using True by (simp add: word_unat_eq_iff)
  next
    case False
    then have "unat (fp_sector pos) < spc p" using k(5) by simp
    then have "unat (fp_sector pos) * bps p + unat (fp_byte pos) < bpc p"
      using k(4) mult_le_mono1 [of "Suc (unat (fp_sector pos))" "spc p" "bps p"] vd(3) by simp
    then have "n div bpc p = k" using vd(6) by (simp add: k(3) add.assoc)
    moreover have "fp_sector pos \<noteq> p_sectorsPerCluster p" using False by auto
    ultimately show ?thesis by simp
  qed
  then show thesis using that k(1,2,3) by simp
qed

lemma offset_parts:
  assumes ok: "volume_ok med p"
  shows "n = n div bpc p * bpc p + n mod bpc p div bps p * bps p + n mod bps p"
    and "n mod bpc p div bps p < spc p"
proof -
  note vd = volume_okD [OF ok]
  have "n mod bps p = n mod bpc p mod bps p" using vd(9) by (simp add: mod_mod_cancel)
  then show "n = n div bpc p * bpc p + n mod bpc p div bps p * bps p + n mod bps p" by (simp add: add.assoc)
  have "n mod bpc p < spc p * bps p" using vd(3,6) by (metis mod_less_divisor)
  then show "n mod bpc p div bps p < spc p" by (simp add: less_mult_imp_div_less)
qed

section \<open>The seek\<close>

definition positioned :: "('d \<Rightarrow> sec_t \<Rightarrow> u8 list) \<Rightarrow> 'd partition \<Rightarrow> u32 list \<Rightarrow> file_struct \<Rightarrow> bool" where
  "positioned med p cs file \<longleftrightarrow> file_chain med p cs \<and> f_startCluster file = hd cs \<and> f_inUse file \<and>
     unat (f_filesize file) \<le> length cs * bpc p \<and>
     pos_at p cs (f_rwPosition file) (unat (f_currentPosition file))"

lemma seek_r_run:
  assumes "f_inUse file" and "seek_target file off dir = Some (Inr position)" and "position \<le> f_filesize file"
    and "f_startCluster file \<noteq> CLUSTER_FREE" and "p_bytesPerCluster p \<noteq> 0" and "p_bytesPerSector p \<noteq> 0"
    and "(if position \<ge> f_currentPosition file then fp_cluster (f_rwPosition file) else f_startCluster file) = c"
    and "nat (int (unat (position div p_bytesPerCluster p)) - (if position \<ge> f_currentPosition file
      then int (unat (f_currentPosition file div p_bytesPerCluster p)) -
        (if fp_sector (f_rwPosition file) = p_sectorsPerCluster p then 1 else 0) else 0)) = m"
    and "FAT_fat_nextCluster p c = Some (n, q)" and "seek_walk q c n m = Some ((left, cl), p')"
    and "rw = (f_rwPosition file)\<lparr>fp_sector := position mod p_bytesPerCluster p div p_bytesPerSector p,
      fp_byte := position mod p_bytesPerSector p\<rparr>"
  shows "FAT_seek_r file p off dir =
    (if left > 0 \<and> \<not> (left = 1 \<and> f_filesize file = position \<and> fp_sector rw = 0)
     then Some (Inl EINVAL, file\<lparr>f_rwPosition := rw\<rparr>, p')
     else Some (Inr position, file\<lparr>f_rwPosition := (if left > 0 then rw\<lparr>fp_sector := p_sectorsPerCluster p', fp_byte := 0\<rparr> else rw)
       \<lparr>fp_cluster := cl\<rparr>, f_currentPosition := position\<rparr>, p'))"
  unfolding FAT_seek_r_def Let_def assms(2) option.case sum.case
  by (simp only: assms(1,3-10) assms(11) [symmetric] simp_thms if_True if_False Option.bind.simps prod.case)

lemma seek_r_spec:
  assumes f: "positioned med p cs file" and tg: "seek_target file off dir = Some (Inr position)"
    and le: "position \<le> f_filesize file"
  obtains pos p' where "FAT_seek_r file p off dir =
      Some (Inr position, file\<lparr>f_rwPosition := pos, f_currentPosition := position\<rparr>, p')"
    and "pkept med p p'" and "pos_at p cs pos (unat position)"
    and "unat position < length cs * bpc p \<longrightarrow> unat (fp_sector pos) < spc p"
proof -
  note f' = f [unfolded positioned_def]
  have fc: "file_chain med p cs" using f' by blast
  note vd = volume_okD [OF file_chainD(1) [OF fc]] and hd = chain_head_used [OF fc]
  let ?cur = "f_currentPosition file" and ?n = "unat position"
  let ?ahead = "position \<ge> ?cur"
  let ?cc = "int (unat (?cur div p_bytesPerCluster p)) - (if fp_sector (f_rwPosition file) = p_sectorsPerCluster p then 1 else 0)"
  obtain k where k: "k < length cs" "fp_cluster (f_rwPosition file) = cs ! k"
    "int (unat ?cur div bpc p) - (if fp_sector (f_rwPosition file) = p_sectorsPerCluster p then 1 else 0) = int k"
    "k * bpc p \<le> unat ?cur"
    using pos_at_count [OF file_chainD(1) [OF fc], of cs "f_rwPosition file" "unat ?cur"] f' by metis
  define j where "j = (if ?ahead then k else 0)"
  have j: "j < length cs" "(if ?ahead then fp_cluster (f_rwPosition file) else f_startCluster file) = cs ! j"
    using k(1,2) f' hd by (auto simp: j_def)
  have jle: "j \<le> ?n div bpc p"
  proof (cases ?ahead)
    case True
    then have "k * bpc p \<le> ?n" using k(4) by (simp add: word_le_nat_alt)
    then have "k \<le> ?n div bpc p" using vd(6) by (simp add: less_eq_div_iff_mult_less_eq)
    then show ?thesis by (simp add: j_def True)
  qed (simp add: j_def)
  define m where "m = ?n div bpc p - j"
  have cnt: "nat (int (unat (position div p_bytesPerCluster p)) - (if ?ahead then ?cc else 0)) = m"
    using jle k(3) by (auto simp: m_def j_def unat_div_word)
  obtain q where q: "FAT_fat_nextCluster p (cs ! j) = Some (fat_table med p (cs ! j), q)" "pkept med p q"
    by (rule next_in_file [OF fc j(1)])
  obtain p' where p': "seek_walk q (cs ! j) (fat_table med q (cs ! j)) m =
      Some ((m - (length cs - 1 - j), cs ! min (j + m) (length cs - 1)), p')" "pkept med q p'"
    using seek_walk_spec [OF file_chain_kept [OF q(2) fc] j(1)] by blast
  note kept = pkept_trans [OF q(2) p'(2)]
  have jm: "j + m = ?n div bpc p" using jle by (simp add: m_def)
  have nz: "p_bytesPerCluster p \<noteq> 0" "p_bytesPerSector p \<noteq> 0" using vd(4,6) by auto
  define rw where "rw = (f_rwPosition file)\<lparr>fp_sector := position mod p_bytesPerCluster p div p_bytesPerSector p,
    fp_byte := position mod p_bytesPerSector p\<rparr>"
  note parts = offset_parts [OF file_chainD(1) [OF fc], of ?n]
  have seek: "FAT_seek_r file p off dir =
    (if m - (length cs - 1 - j) > 0 \<and> \<not> (m - (length cs - 1 - j) = 1 \<and> f_filesize file = position \<and> fp_sector rw = 0)
     then Some (Inl EINVAL, file\<lparr>f_rwPosition := rw\<rparr>, p')
     else Some (Inr position, file\<lparr>f_rwPosition := (if m - (length cs - 1 - j) > 0
         then rw\<lparr>fp_sector := p_sectorsPerCluster p', fp_byte := 0\<rparr> else rw)
       \<lparr>fp_cluster := cs ! min (j + m) (length cs - 1)\<rparr>, f_currentPosition := position\<rparr>, p'))"
    by (rule seek_r_run [OF _ tg le _ nz j(2) cnt q(1) p'(1) [unfolded pkept_table [OF q(2)]] rw_def]) (use f' hd(1) in simp_all)
  show thesis
  proof (cases "j + m < length cs")
    case True
    then have "m - (length cs - 1 - j) = 0" "min (j + m) (length cs - 1) = j + m" by simp_all
    then have eq: "FAT_seek_r file p off dir = Some (Inr position,
        file\<lparr>f_rwPosition := rw\<lparr>fp_cluster := cs ! (j + m)\<rparr>, f_currentPosition := position\<rparr>, p')"
      by (simp add: seek)
    have "pos_at p cs (rw\<lparr>fp_cluster := cs ! (j + m)\<rparr>) ?n"
      unfolding pos_at_def using True parts vd(4) jm
      by (intro exI [of _ "j + m"]) (simp add: rw_def unat_div_word unat_mod_word)
    moreover have "unat (fp_sector (rw\<lparr>fp_cluster := cs ! (j + m)\<rparr>)) < spc p"
      using parts(2) by (simp add: rw_def unat_div_word unat_mod_word)
    ultimately show thesis using that eq kept by blast
  next
    case False
    have "?n \<le> length cs * bpc p" using le f' by (simp add: word_le_nat_alt)
    then have "?n div bpc p \<le> length cs" using div_le_mono [of ?n "length cs * bpc p" "bpc p"] vd(6) by simp
    then have jm': "j + m = length cs" using False jm by simp
    then have n: "?n = length cs * bpc p"
      using \<open>?n \<le> length cs * bpc p\<close> jm by (metis div_times_less_eq_dividend order_antisym)
    have size: "f_filesize file = position" using le f' n by (simp add: word_le_nat_alt word_unat_eq_iff)
    have zero: "fp_sector rw = 0" using n by (simp add: rw_def word_unat_eq_iff unat_div_word unat_mod_word)
    have one: "m - (length cs - 1 - j) = 1" using jm' j(1) by simp
    have mn: "min (j + m) (length cs - 1) = length cs - 1" using jm' by simp
    let ?pos = "rw\<lparr>fp_sector := p_sectorsPerCluster p, fp_byte := 0, fp_cluster := cs ! (length cs - 1)\<rparr>"
    have last_place: "length cs - 1 < length cs" "length cs * bpc p = (length cs - 1) * bpc p + bpc p"
      using j(1) by (cases "length cs"; simp)+
    have "FAT_seek_r file p off dir = Some (Inr position, file\<lparr>f_rwPosition := ?pos, f_currentPosition := position\<rparr>, p')"
      unfolding seek one mn by (simp add: size zero same_partD [OF pkeptD(2) [OF kept]])
    moreover have "pos_at p cs ?pos ?n"
      unfolding pos_at_def using last_place vd(3,4) n
      by (intro exI [of _ "length cs - 1"]) simp
    moreover have "\<not> ?n < length cs * bpc p" by (simp add: n)
    ultimately show thesis by (intro that [of ?pos p', OF _ kept]) simp_all
  qed
qed

end
