(* ===== verification/FileTheorems.thy ===== *)
theory FileTheorems
  imports FileSeek RamDisc
begin

text \<open>
  The properties of open files, each applied to a file on the disc in memory.
\<close>

section \<open>Files on the disc in memory\<close>

definition ram_file :: "u32 \<Rightarrow> u32 \<Rightarrow> file_pos \<Rightarrow> file_struct" where
  "ram_file sz cur pos = \<lparr>f_filesize = sz, f_startCluster = 2, f_currentPosition = cur, f_rwPosition = pos,
     f_appendPosition = pos, f_dirEntryStart = \<lparr>dp_cluster = 0, dp_sector = 0, dp_offset = 0\<rparr>,
     f_dirEntryEnd = \<lparr>dp_cluster = 0, dp_sector = 0, dp_offset = 0\<rparr>, f_prevOpenFile = None, f_nextOpenFile = None,
     f_read = True, f_write = True, f_append = False, f_inUse = True, f_modified = False\<rparr>"

text \<open>A disc whose chain is 2 and 4, with cluster 3 a file of its own.\<close>

definition ram_split :: ram where
  "ram_split = ram16(1 := [0xF8, 0xFF, 0xFF, 0xFF, 4, 0, 0xFF, 0xFF])"

lemma ram_volume: "lastc = 4 \<or> lastc = 6 \<Longrightarrow> volume_ok med8 (ram_part_on m lastc first free)"
  using ram_part_ok [of lastc m first free] by (simp add: volume_ok_def) (simp add: ram_part_on_def)

lemma ram_pview: "pview med8 (ram_part_on m lastc first free) = med8 m"
  using ram_cache_store(2) [of 8 16 m] by (simp add: pview_def ram_part_on_def)

lemma ram_geometry:
  "bps (ram_part_on m lastc first free) = 8" "spc (ram_part_on m lastc first free) = 1"
  "bpc (ram_part_on m lastc first free) = 8" "p_sectorsPerCluster (ram_part_on m lastc first free) = 1"
  by (simp_all add: ram_part_on_def)

lemma ram_file_chain: "file_chain med8 (ram_part 6 5 2) [2, 3, 4]"
  using ram_chain [of 6 5 2] ram_volume [of 6] by (simp add: file_chain_def ram_table)

lemma ram_chain_bytes: "chain_bytes (pview med8 (ram_part 6 5 2)) (ram_part 6 5 2) [2, 3, 4] =
  [10, 11, 12, 13, 14, 15, 16, 17, 20, 21, 22, 23, 24, 25, 26, 27, 30, 31, 32, 33, 34, 35, 36, 37]"
  unfolding ram_pview
  by (simp add: chain_bytes_def cluster_bytes_def sectors_of_def FAT_fat_clusterToSector_def ram_part_on_def
      CLUSTER_FIRST_def ram_med_def ram16_def)

lemma ram_readable:
  assumes "pos_at (ram_part 6 5 2) [2, 3, 4] pos (unat cur)" and "unat sz \<le> 24"
  shows "readable_file med8 (ram_part 6 5 2) [2, 3, 4] (ram_file sz cur pos)"
  using assms ram_file_chain by (simp add: readable_file_def ram_file_def ram_geometry)

section \<open>Reading\<close>

lemma read_r_readable:
  assumes "readable_file med p cs file"
    and "unat (fp_sector (f_rwPosition file)) < spc p \<or>
      bps p \<le> min (unat len) (unat (f_filesize file) - unat (f_currentPosition file))"
    and "f_currentPosition file < f_filesize file" and "0 < unat len"
    and "unat len + unat (f_currentPosition file) < 2 ^ 32"
  shows "\<exists>n pos file' p'. n = min (unat len) (unat (f_filesize file) - unat (f_currentPosition file)) \<and>
    FAT_read_r file p len = Some ((Some (of_nat n),
      map Some (slice (chain_bytes (pview med p) p cs) (unat (f_currentPosition file)) n),
      if unat len + unat (f_currentPosition file) > unat (f_filesize file) then Some EOVERFLOW else None), file', p') \<and>
    file' = file\<lparr>f_rwPosition := pos, f_currentPosition := f_currentPosition file + of_nat n\<rparr> \<and>
    pview med p' = pview med p \<and> readable_file med p' cs file'"
proof -
  define n where "n = min (unat len) (unat (f_filesize file) - unat (f_currentPosition file))"
  obtain pos p' where r: "FAT_read_r file p len = Some ((Some (of_nat n),
      map Some (slice (chain_bytes (pview med p) p cs) (unat (f_currentPosition file)) n),
      if unat len + unat (f_currentPosition file) > unat (f_filesize file) then Some EOVERFLOW else None),
      file\<lparr>f_rwPosition := pos, f_currentPosition := f_currentPosition file + of_nat n\<rparr>, p')"
    "pkept med p p'" "pos_at p cs pos (unat (f_currentPosition file) + n)"
    unfolding n_def by (rule read_r_spec [OF assms])
  have "unat (f_currentPosition file) + n \<le> unat (f_filesize file)"
    using assms(3) by (simp add: n_def word_less_nat_alt)
  then have un: "unat (f_currentPosition file + of_nat n) = unat (f_currentPosition file) + n"
    using unat_lt_2p32 [of "f_filesize file"] by (intro unat_offset) simp
  have "readable_file med p' cs (file\<lparr>f_rwPosition := pos, f_currentPosition := f_currentPosition file + of_nat n\<rparr>)"
    using assms(1) r(3) file_chain_kept [OF r(2)] volume_same [OF pkeptD(2) [OF r(2)]]
    by (simp add: readable_file_def un)
  with r(1) pkeptD(3) [OF r(2)] show ?thesis unfolding n_def [symmetric] by blast
qed

text \<open>C4: functional. A read of at least one byte from a position in front of the end of an open file
  returns the bytes of its chain from that position on, as many as asked for or left in the file, with
  \<open>EOVERFLOW\<close> set when the request was longer; the disc and the table keep their contents, and the file is
  ready for the next read. Position and length together stay below 2 to the 32, and a read of less than a
  sector does not start at the position behind the last sector of a cluster: there the code reads the sector behind
  that cluster, while a read that takes a whole sector or more is right.\<close>

theorem read_returns_file_bytes:
  assumes "readable_file med p cs file"
    and "unat (fp_sector (f_rwPosition file)) < spc p \<or>
      bps p \<le> min (unat len) (unat (f_filesize file) - unat (f_currentPosition file))"
    and "f_currentPosition file < f_filesize file" and "0 < unat len"
    and "unat len + unat (f_currentPosition file) < 2 ^ 32"
  shows "\<exists>n pos file' p'. n = min (unat len) (unat (f_filesize file) - unat (f_currentPosition file)) \<and>
    FAT_read_r file p len = Some ((Some (of_nat n),
      map Some (slice (chain_bytes (pview med p) p cs) (unat (f_currentPosition file)) n),
      if unat len + unat (f_currentPosition file) > unat (f_filesize file) then Some EOVERFLOW else None), file', p') \<and>
    file' = file\<lparr>f_rwPosition := pos, f_currentPosition := f_currentPosition file + of_nat n\<rparr> \<and>
    pview med p' = pview med p \<and> readable_file med p' cs file'"
  by (rule read_r_readable [OF assms])

theorem read_returns_file_bytes_witness:
  "\<exists>file' p'. FAT_read_r (ram_file 20 6 \<lparr>fp_cluster = 2, fp_sector = 0, fp_byte = 6\<rparr>) (ram_part 6 5 2) 12 =
    Some ((Some 12, map Some [16, 17, 20, 21, 22, 23, 24, 25, 26, 27, 30, 31], None), file', p')"
proof -
  let ?f = "ram_file 20 6 \<lparr>fp_cluster = 2, fp_sector = 0, fp_byte = 6\<rparr>"
  have "pos_at (ram_part 6 5 2) [2, 3, 4] \<lparr>fp_cluster = 2, fp_sector = 0, fp_byte = 6\<rparr> (unat (6 :: u32))"
    by (auto simp: pos_at_def ram_geometry intro!: exI [of _ 0])
  then have f: "readable_file med8 (ram_part 6 5 2) [2, 3, 4] ?f" by (rule ram_readable) simp
  have "slice (chain_bytes (pview med8 (ram_part 6 5 2)) (ram_part 6 5 2) [2, 3, 4]) 6 12 =
      [16, 17, 20, 21, 22, 23, 24, 25, 26, 27, 30, 31]"
    by (simp add: ram_chain_bytes slice_def)
  with read_returns_file_bytes [OF f, of 12] show ?thesis
    by (auto simp: ram_geometry) (auto simp: ram_file_def)
qed

lemma seek_read_r:
  assumes "readable_file med p cs file" and "seek_target file off dir = Some (Inr position)"
    and "position < f_filesize file" and "0 < unat len" and "unat len + unat position < 2 ^ 32"
  shows "\<exists>file1 p1 file2 p2 n. FAT_seek_r file p off dir = Some (Inr position, file1, p1) \<and>
    n = min (unat len) (unat (f_filesize file) - unat position) \<and>
    FAT_read_r file1 p1 len = Some ((Some (of_nat n), map Some (slice (chain_bytes (pview med p) p cs) (unat position) n),
      if unat len + unat position > unat (f_filesize file) then Some EOVERFLOW else None), file2, p2) \<and>
    readable_file med p2 cs file2"
proof -
  have pf: "positioned med p cs file" using assms(1) by (simp add: readable_file_def positioned_def)
  have le: "position \<le> f_filesize file" using assms(3) by simp
  obtain pos p1 where s: "FAT_seek_r file p off dir =
      Some (Inr position, file\<lparr>f_rwPosition := pos, f_currentPosition := position\<rparr>, p1)"
    "pkept med p p1" "pos_at p cs pos (unat position)"
    "unat position < length cs * bpc p \<longrightarrow> unat (fp_sector pos) < spc p"
    by (rule seek_r_spec [OF pf assms(2) le])
  let ?f = "file\<lparr>f_rwPosition := pos, f_currentPosition := position\<rparr>"
  note vs = volume_same [OF pkeptD(2) [OF s(2)]]
  have rf: "readable_file med p1 cs ?f"
    using assms(1) s(3) file_chain_kept [OF s(2)] vs by (simp add: readable_file_def)
  have "unat position < length cs * bpc p"
    using assms(1,3) by (simp add: readable_file_def word_less_nat_alt)
  then have inside: "unat (fp_sector (f_rwPosition ?f)) < spc p1" using s(4) vs by simp
  show ?thesis
    using read_r_readable [OF rf disjI1 [OF inside], of len] assms(3-5) s(1) pkeptD(3) [OF s(2)] vs(5)
    by auto
qed

text \<open>C25: functional. A seek to an offset inside an open file followed by a read returns the bytes at that
  offset, from whatever position the file had.
  The new offset lies in front of the end of the file, and offset and length together below 4 GiB.\<close>

theorem seek_then_read:
  assumes "readable_file med p cs file" and "seek_target file off dir = Some (Inr position)"
    and "position < f_filesize file" and "0 < unat len" and "unat len + unat position < 2 ^ 32"
  shows "\<exists>file1 p1 file2 p2 n. FAT_seek_r file p off dir = Some (Inr position, file1, p1) \<and>
    n = min (unat len) (unat (f_filesize file) - unat position) \<and>
    FAT_read_r file1 p1 len = Some ((Some (of_nat n), map Some (slice (chain_bytes (pview med p) p cs) (unat position) n),
      if unat len + unat position > unat (f_filesize file) then Some EOVERFLOW else None), file2, p2) \<and>
    readable_file med p2 cs file2"
  by (rule seek_read_r [OF assms])

theorem seek_then_read_witness:
  "\<exists>file1 p1 file2 p2. FAT_seek_r (ram_file 20 8 \<lparr>fp_cluster = 2, fp_sector = 1, fp_byte = 0\<rparr>) (ram_part 6 5 2) 9 SEEK_CUR =
      Some (Inr 17, file1, p1) \<and>
    FAT_read_r file1 p1 2 = Some ((Some 2, [Some 31, Some 32], None), file2, p2)"
proof -
  let ?f = "ram_file 20 8 \<lparr>fp_cluster = 2, fp_sector = 1, fp_byte = 0\<rparr>"
  have "pos_at (ram_part 6 5 2) [2, 3, 4] \<lparr>fp_cluster = 2, fp_sector = 1, fp_byte = 0\<rparr> (unat (8 :: u32))"
    by (auto simp: pos_at_def ram_geometry intro!: exI [of _ 0])
  then have f: "readable_file med8 (ram_part 6 5 2) [2, 3, 4] ?f" by (rule ram_readable) simp
  have "slice (chain_bytes (pview med8 (ram_part 6 5 2)) (ram_part 6 5 2) [2, 3, 4]) 17 2 = [31, 32]"
    by (simp add: ram_chain_bytes slice_def)
  moreover have "seek_target ?f 9 SEEK_CUR = Some (Inr 17)" by (simp add: seek_target_def ram_file_def)
  ultimately show ?thesis using seek_then_read [OF f, of 9 SEEK_CUR 17 2] by (auto simp: ram_file_def)
qed

text \<open>The signed value of a sum, which tells whether the addition overflows.\<close>

lemma int_half: "int k < 2 ^ 31 \<longleftrightarrow> k < 2 ^ 31"
  by simp

lemma sint_u32: "sint (x :: u32) = (if unat x < 2 ^ 31 then int (unat x) else int (unat x) - 2 ^ 32)"
proof -
  have u: "uint x = int (unat x)" "0 \<le> uint x" "uint x < 2 ^ 32" using uint_lt2p [of x] by simp_all
  have s: "sint x = signed_take_bit 31 (uint x)" by (simp add: sint_uint)
  show ?thesis
  proof (cases "uint x < 2 ^ 31")
    case True
    then have "unat x < 2 ^ 31" unfolding u(1) int_half .
    moreover have "signed_take_bit 31 (uint x) = uint x"
      by (rule signed_take_bit_int_eq_self) (use True in \<open>auto intro: order_trans [OF _ u(2)]\<close>)
    ultimately show ?thesis unfolding s if_P [OF \<open>unat x < 2 ^ 31\<close>] u(1) [symmetric] by blast
  next
    case False
    then have "\<not> unat x < 2 ^ 31" unfolding u(1) int_half .
    moreover have "signed_take_bit 31 (uint x) = uint x - 2 ^ 32"
    proof -
      have "(uint x + 2 ^ 31) mod 2 ^ 32 = (uint x + 2 ^ 31 - 2 ^ 32) mod 2 ^ 32" by (rule minus_mod_self2 [symmetric])
      also have "\<dots> = uint x + 2 ^ 31 - 2 ^ 32" using u(3) False by (intro mod_pos_pos_trivial) simp_all
      finally show ?thesis by (simp add: signed_take_bit_eq_take_bit_shift take_bit_eq_mod)
    qed
    ultimately show ?thesis unfolding s if_not_P [OF \<open>\<not> unat x < 2 ^ 31\<close>] u(1) [symmetric] by blast
  qed
qed

lemma sint_sum:
  fixes x y :: u32
  defines "n \<equiv> sint x + sint y"
  shows "sint (x + y) = n \<longleftrightarrow> - (2 ^ 31) \<le> n \<and> n < 2 ^ 31"
proof
  assume "sint (x + y) = n"
  then show "- (2 ^ 31) \<le> n \<and> n < 2 ^ 31" using sint_range_size [of "x + y"] by (simp add: word_size)
next
  assume "- (2 ^ 31) \<le> n \<and> n < 2 ^ 31"
  then show "sint (x + y) = n" by (simp add: sint_word_ariths n_def signed_take_bit_int_eq_self)
qed

text \<open>C36: bounds. The target of a seek, for every base (zero, the position or the size of the file) and every signed offset.
  From a base below 2 to the 31 it is exactly their sum; it is refused with \<open>EINVAL\<close> below zero, and from 2 to the 31 on the
  signed addition overflows, which C leaves undefined, so \<open>EOVERFLOW\<close> is never returned there. A base from 2 to the 31 on is
  negative as an \<open>off_t\<close>: a sum below 2 to the 31 overflows, one below 2 to the 32 is refused, with \<open>EOVERFLOW\<close> for
  a positive offset and \<open>EINVAL\<close> otherwise, and one from 2 to the 32 on is accepted as the sum less 2 to the 32.\<close>

theorem seek_target_exact:
  assumes "dir = SEEK_SET \<and> base = 0 \<or> dir = SEEK_CUR \<and> base = f_currentPosition file \<or>
      dir = SEEK_END \<and> base = f_filesize file"
  shows "seek_target file off dir =
    (let n = int (unat base) + sint off
     in if unat base < 2 ^ 31
        then (if n < 0 then Some (Inl EINVAL) else if n < 2 ^ 31 then Some (Inr (word_of_int n)) else None)
        else (if n < 2 ^ 31 then None
              else if n < 2 ^ 32 then Some (Inl (if sint off > 0 then EOVERFLOW else EINVAL))
              else Some (Inr (word_of_int (n - 2 ^ 32)))))"
proof -
  define n where "n = int (unat base) + sint off"
  have step: "seek_target file off dir = (if sint (base + off) \<noteq> sint base + sint off then None
      else if sint off > 0 \<and> sint (base + off) < 0 then Some (Inl EOVERFLOW)
      else if sint (base + off) < 0 then Some (Inl EINVAL) else Some (Inr (base + off)))"
    using assms(1) by (auto simp: seek_target_def Let_def)
  have off: "- (2 ^ 31) \<le> sint off" "sint off < 2 ^ 31" using sint_range_size [of off] by (simp_all add: word_size)
  have sb: "sint base + sint off = (if unat base < 2 ^ 31 then n else n - 2 ^ 32)" by (simp add: sint_u32 [of base] n_def)
  have add: "base + off = word_of_int n" "base + off = word_of_int (n - 2 ^ 32)"
    by (simp_all add: n_def wi_hom_add [symmetric])
  have nums: "(2 :: int) ^ 31 = 2147483648" "(2 :: int) ^ 32 = 4294967296" by simp_all
  have le: "0 \<le> int (unat base)" "int (unat base) < 2 ^ 32" using uint_lt2p [of base] by simp_all
  show ?thesis
  proof (cases "unat base < 2 ^ 31")
    case True
    then have "int (unat base) < 2 ^ 31" unfolding int_half .
    then have lo: "- (2 ^ 31) \<le> n" "n < 0 \<longrightarrow> \<not> 0 < sint off" using off le unfolding n_def nums by linarith+
    have s: "sint (base + off) = n \<longleftrightarrow> n < 2 ^ 31" using sint_sum [of base off] lo(1) unfolding sb if_P [OF True] by blast
    show ?thesis
    proof (cases "n < 2 ^ 31")
      case small: True
      then have "sint (base + off) = n" using s by blast
      then show ?thesis using small lo(2) True unfolding Let_def n_def [symmetric] step sb add(1) [symmetric] by (simp only: if_True simp_thms refl if_False) auto
    next
      case False
      then have "sint (base + off) \<noteq> n" "\<not> n < 0" using s unfolding nums by auto
      then show ?thesis using False True unfolding Let_def n_def [symmetric] step sb by simp
    qed
  next
    case False
    then have "2 ^ 31 \<le> int (unat base)" unfolding int_half [symmetric] not_less .
    then have hi: "n - 2 ^ 32 < 2 ^ 31" "2 ^ 32 \<le> n \<longrightarrow> 0 < sint off" using off le unfolding n_def nums by linarith+
    have s: "sint (base + off) = n - 2 ^ 32 \<longleftrightarrow> \<not> n < 2 ^ 31"
      using sint_sum [of base off] hi(1) unfolding sb if_not_P [OF False] nums by (simp del: of_int_add) linarith
    show ?thesis
    proof (cases "n < 2 ^ 31")
      case True
      then show ?thesis using s False unfolding Let_def n_def [symmetric] step sb by simp
    next
      case big: False
      then have "sint (base + off) = n - 2 ^ 32" using s by blast
      then show ?thesis using big hi(2) False unfolding Let_def n_def [symmetric] step sb add(2) [symmetric] by auto
    qed
  qed
qed

theorem seek_target_exact_witness:
  "\<forall>pos. seek_target (ram_file 20 6 pos) 0xFFFFFFFF SEEK_CUR = Some (Inr 5) \<and>
    seek_target (ram_file 20 6 pos) 0xFFFFFFF9 SEEK_CUR = Some (Inl EINVAL) \<and>
    seek_target (ram_file 20 6 pos) 0x7FFFFFFF SEEK_END = None \<and>
    seek_target (ram_file 0x80000010 6 pos) 16 SEEK_END = Some (Inl EOVERFLOW) \<and>
    seek_target (ram_file 0x80000010 6 pos) 0x7FFFFFF0 SEEK_END = Some (Inr 0)"
proof
  fix pos
  have c: "SEEK_CUR = SEEK_SET \<and> (6 :: u32) = 0 \<or> SEEK_CUR = SEEK_CUR \<and> 6 = f_currentPosition (ram_file 20 6 pos) \<or>
      SEEK_CUR = SEEK_END \<and> 6 = f_filesize (ram_file 20 6 pos)"
    by (simp add: ram_file_def)
  have e: "SEEK_END = SEEK_SET \<and> n = 0 \<or> SEEK_END = SEEK_CUR \<and> n = f_currentPosition (ram_file n 6 pos) \<or>
      SEEK_END = SEEK_END \<and> n = f_filesize (ram_file n 6 pos)" for n
    by (simp add: ram_file_def)
  show "seek_target (ram_file 20 6 pos) 0xFFFFFFFF SEEK_CUR = Some (Inr 5) \<and>
    seek_target (ram_file 20 6 pos) 0xFFFFFFF9 SEEK_CUR = Some (Inl EINVAL) \<and>
    seek_target (ram_file 20 6 pos) 0x7FFFFFFF SEEK_END = None \<and>
    seek_target (ram_file 0x80000010 6 pos) 16 SEEK_END = Some (Inl EOVERFLOW) \<and>
    seek_target (ram_file 0x80000010 6 pos) 0x7FFFFFF0 SEEK_END = Some (Inr 0)"
    using seek_target_exact [OF c, of "0xFFFFFFFF"] seek_target_exact [OF c, of "0xFFFFFFF9"]
      seek_target_exact [OF e [of 20], of "0x7FFFFFFF"] seek_target_exact [OF e [of "0x80000010"], of 16]
      seek_target_exact [OF e [of "0x80000010"], of "0x7FFFFFF0"]
    by simp
qed

text \<open>C35: safety. After a read to the end of a cluster the position stays behind its last sector. When
  the file has grown since, the next read of less than a sector takes the sector that follows the
  cluster on the disc, whichever file that belongs to, instead of the next cluster of the chain.\<close>

theorem short_read_at_cluster_end:
  assumes "readable_file med p cs file" and "Suc k < length cs"
    and "f_rwPosition file = \<lparr>fp_cluster = cs ! k, fp_sector = p_sectorsPerCluster p, fp_byte = 0\<rparr>"
    and "0 < unat len" and "unat len < bps p" and "unat (f_currentPosition file) + unat len \<le> unat (f_filesize file)"
    and "unat (file_sector p (f_rwPosition file)) < unat (c_endOfPartition (p_cache p))"
  shows "\<exists>file' p'. FAT_read_r file p len = Some ((Some len,
    map Some (slice (pview med p (FAT_fat_clusterToSector p (cs ! k) + p_sectorsPerCluster p)) 0 (unat len)), None), file', p')"
proof -
  have fc: "file_chain med p cs" using assms(1) by (simp add: readable_file_def)
  obtain p' where p': "read_body \<lparr>rd_part = p, rd_pos = f_rwPosition file, rd_remain = len, rd_out = [], rd_ok = True,
      rd_errno = None\<rparr> = Some \<lparr>rd_part = p', rd_pos = \<lparr>fp_cluster = cs ! Suc k, fp_sector = 0, fp_byte = len\<rparr>,
      rd_remain = 0, rd_out = map Some (slice (pview med p (file_sector p (f_rwPosition file))) 0 (unat len)),
      rd_ok = True, rd_errno = None\<rparr>"
    by (rule read_body_at_end [OF fc assms(2,4,5,3,7)])
  have n: "unat len = min (unat len) (unat (f_filesize file) - unat (f_currentPosition file))" using assms(6) by simp
  have "unat (f_currentPosition file) < unat (f_filesize file)" using assms(4,6) by linarith
  then have cur: "f_currentPosition file < f_filesize file" by (simp add: word_less_nat_alt)
  have nowrap: "unat len + unat (f_currentPosition file) < 2 ^ 32"
    using assms(6) unat_lt_2p32 [of "f_filesize file"] by simp
  from read_r_eq [OF assms(1) cur assms(4) nowrap n refl, of "\<lparr>rd_part = p',
      rd_pos = \<lparr>fp_cluster = cs ! Suc k, fp_sector = 0, fp_byte = len\<rparr>, rd_remain = 0,
      rd_out = map Some (slice (pview med p (file_sector p (f_rwPosition file))) 0 (unat len)), rd_ok = True, rd_errno = None\<rparr>"]
  show ?thesis using p' assms(3,6) by (simp add: file_sector_def)
qed

lemma split_table:
  "fat_table med8 (ram_part_on ram_split 6 5 2) 2 = 4" "fat_table med8 (ram_part_on ram_split 6 5 2) 4 = CLUSTER_EOF"
proof -
  have view: "cview med8 (ram_cache 8 16 m) = med8 m" for m using ram_cache_store(2) [of 8 16 m] by simp
  note eval = fat_table_def pview_def view readable_def entry_pos_def entry_len_def raw_entry_def link_of_def eof_limit_def
    fat_bytes_def ram_part_on_def cluster_defs le_value_def u8array_to_u16_def ram_med_def ram_split_def ram16_def upt_rec
  show "fat_table med8 (ram_part_on ram_split 6 5 2) 2 = 4" by (simp add: eval)
  show "fat_table med8 (ram_part_on ram_split 6 5 2) 4 = CLUSTER_EOF" by (simp add: eval)
qed

text \<open>The file has the bytes 10 to 17 and 30 to 37; the ninth is read as 20, from a cluster that is not
  in its chain.\<close>

theorem short_read_at_cluster_end_witness:
  "\<exists>file' p'. FAT_read_r (ram_file 16 8 \<lparr>fp_cluster = 2, fp_sector = 1, fp_byte = 0\<rparr>) (ram_part_on ram_split 6 5 2) 1 =
      Some ((Some 1, [Some 20], None), file', p') \<and>
    chain_bytes (pview med8 (ram_part_on ram_split 6 5 2)) (ram_part_on ram_split 6 5 2) [2, 4] ! 8 = 30"
proof -
  let ?p = "ram_part_on ram_split 6 5 2" and ?pos = "\<lparr>fp_cluster = 2, fp_sector = 1, fp_byte = 0\<rparr>"
  have fc: "file_chain med8 ?p [2, 4]"
    using ram_volume [of 6] by (simp add: file_chain_def split_table ram_valid)
  have "pos_at ?p [2, 4] ?pos 8" by (auto simp: pos_at_def ram_geometry intro!: exI [of _ 0])
  then have f: "readable_file med8 ?p [2, 4] (ram_file 16 8 ?pos)"
    using fc by (simp add: readable_file_def ram_file_def ram_geometry)
  have "file_sector ?p ?pos = 5"
    by (simp add: file_sector_def FAT_fat_clusterToSector_def ram_part_on_def CLUSTER_FIRST_def)
  moreover have "slice (pview med8 ?p 5) 0 1 = [20]"
    by (simp add: ram_pview slice_def ram_med_def ram_split_def ram16_def)
  moreover have "unat (c_endOfPartition (p_cache ?p)) = 16" by (simp add: ram_part_on_def ram_cache_def)
  moreover have "f_rwPosition (ram_file 16 8 ?pos) = ?pos" by (simp add: ram_file_def)
  ultimately have "\<exists>file' p'. FAT_read_r (ram_file 16 8 ?pos) ?p 1 = Some ((Some 1, [Some 20], None), file', p')"
    using short_read_at_cluster_end [OF f, of 0 1] by (simp add: ram_geometry file_sector_def) (simp add: ram_file_def)
  moreover have "chain_bytes (pview med8 ?p) ?p [2, 4] ! 8 = 30"
    unfolding ram_pview
    by (simp add: chain_bytes_def cluster_bytes_def sectors_of_def FAT_fat_clusterToSector_def ram_part_on_def
        CLUSTER_FIRST_def ram_med_def ram_split_def ram16_def)
  ultimately show ?thesis by blast
qed

end
