(* ===== verification/FileUpdate.thy ===== *)
theory FileUpdate
  imports FileData
begin

text \<open>
  What a write to sectors of a file's clusters does to the bytes of the file and to everything else.
  The bytes of a chain are those of its sectors in order; the sectors are all different, so that
  overwriting some of them is overwriting the bytes at their place.
\<close>

section \<open>The sectors of a chain\<close>

definition chain_sectors :: "'d partition \<Rightarrow> u32 list \<Rightarrow> sec_t list" where
  "chain_sectors p cs = concat (map (\<lambda>c. map (\<lambda>i. FAT_fat_clusterToSector p c + of_nat i) [0..<spc p]) cs)"

lemma length_chain_sectors [simp]: "length (chain_sectors p cs) = length cs * spc p"
  unfolding chain_sectors_def by (subst length_concat_equal [where n = "spc p"]) auto

lemma chain_bytes_sectors: "chain_bytes v p cs = concat (map v (chain_sectors p cs))"
  by (induction cs) (simp_all add: chain_bytes_def chain_sectors_def cluster_bytes_def sectors_of_def comp_def)

lemma nth_chain_sectors:
  assumes "k < length cs" and "a < spc p"
  shows "chain_sectors p cs ! (k * spc p + a) = FAT_fat_clusterToSector p (cs ! k) + of_nat a"
    and "k * spc p + a < length (chain_sectors p cs)"
proof -
  have "Suc k * spc p \<le> length cs * spc p" using assms(1) by (intro mult_right_mono) simp_all
  then show "k * spc p + a < length (chain_sectors p cs)" using assms(2) by simp
  show "chain_sectors p cs ! (k * spc p + a) = FAT_fat_clusterToSector p (cs ! k) + of_nat a"
    using assms
  proof (induction cs arbitrary: k)
    case (Cons c cs)
    show ?case
    proof (cases k)
      case 0
      then show ?thesis using Cons.prems by (simp add: chain_sectors_def nth_append)
    next
      case (Suc j)
      then have "chain_sectors p (c # cs) ! (k * spc p + a) = chain_sectors p cs ! (j * spc p + a)"
        by (simp add: chain_sectors_def nth_append)
      then show ?thesis using Cons.IH [of j] Cons.prems Suc by simp
    qed
  qed simp
qed

lemma chain_sectors_cluster:
  assumes "volume_ok med p" and "\<And>c. c \<in> set cs \<Longrightarrow> FAT_fat_isValidCluster p c" and "t \<in> set (chain_sectors p cs)"
  obtains c where "c \<in> set cs" and "in_cluster p c t"
proof -
  obtain c i where c: "c \<in> set cs" "i < spc p" "t = FAT_fat_clusterToSector p c + of_nat i"
    using assms(3) by (auto simp: chain_sectors_def)
  have "unat t = unat (FAT_fat_clusterToSector p c) + i"
    using cluster_sector(1) [OF assms(1) assms(2) [OF c(1)], of i] c by simp
  then have "in_cluster p c t" using c(2) by (simp add: in_cluster_def in_range_def)
  then show thesis using that c(1) by blast
qed

lemma distinct_chain_sectors:
  assumes ok: "volume_ok med p" and V: "\<And>c. c \<in> set cs \<Longrightarrow> FAT_fat_isValidCluster p c" and dist: "distinct cs"
  shows "distinct (chain_sectors p cs)"
  using V dist
proof (induction cs)
  case (Cons c cs)
  have v: "FAT_fat_isValidCluster p c" using Cons.prems(1) by simp
  let ?own = "map (\<lambda>i. FAT_fat_clusterToSector p c + of_nat i) [0..<spc p]"
  have u: "unat (FAT_fat_clusterToSector p c + of_nat i) = unat (FAT_fat_clusterToSector p c) + i" if "i < spc p" for i
    using cluster_sector(1) [OF ok v, of i] that by simp
  have "inj_on (\<lambda>i. FAT_fat_clusterToSector p c + of_nat i :: sec_t) (set [0..<spc p])"
  proof (rule inj_onI)
    fix i j assume "i \<in> set [0..<spc p]" "j \<in> set [0..<spc p]"
      "(FAT_fat_clusterToSector p c + of_nat i :: sec_t) = FAT_fat_clusterToSector p c + of_nat j"
    then have "unat (FAT_fat_clusterToSector p c) + i = unat (FAT_fat_clusterToSector p c) + j"
      using u [of i] u [of j] by (metis atLeastLessThan_iff set_upt)
    then show "i = j" by simp
  qed
  then have "distinct ?own" by (simp add: distinct_map)
  moreover have "set ?own \<inter> set (chain_sectors p cs) = {}"
  proof -
    have False if t: "t \<in> set ?own" "t \<in> set (chain_sectors p cs)" for t
    proof -
      have "in_cluster p c t" using t(1) u by (auto simp: in_cluster_def in_range_def)
      moreover obtain d where "d \<in> set cs" "in_cluster p d t"
        using chain_sectors_cluster [OF ok _ t(2)] Cons.prems(1) by auto
      ultimately show False
        using clusters_disjoint [OF volume_okD(2) [OF ok] v, of d t] Cons.prems by auto
    qed
    then show ?thesis by blast
  qed
  moreover have "chain_sectors p (c # cs) = ?own @ chain_sectors p cs" by (simp add: chain_sectors_def)
  ultimately show ?case using Cons by simp
qed (simp add: chain_sectors_def)

section \<open>Bytes of equally long blocks\<close>

lemma nth_concat_equal:
  assumes "\<And>x. x \<in> set xs \<Longrightarrow> length x = b" and "j < length xs * b"
  shows "concat xs ! j = xs ! (j div b) ! (j mod b)"
  using assms
proof (induction xs arbitrary: j)
  case (Cons x xs)
  have len: "length x = b" using Cons.prems(1) by simp
  have b: "0 < b" using Cons.prems(2) by (cases b) auto
  show ?case
  proof (cases "j < b")
    case True
    then show ?thesis by (simp add: nth_append len)
  next
    case False
    then have "j div b = Suc ((j - b) div b)" "j mod b = (j - b) mod b"
      using b by (simp_all add: le_div_geq le_mod_geq)
    then show ?thesis using False Cons.IH [of "j - b"] Cons.prems by (simp add: nth_append len)
  qed
qed simp

lemma concat_update:
  assumes "\<And>x. x \<in> set xs \<Longrightarrow> length x = b" and "\<And>x. x \<in> set ys \<Longrightarrow> length x = b" and "length ys = length xs"
    and "o' + length d \<le> length xs * b"
    and "\<And>q r. q < length xs \<Longrightarrow> r < b \<Longrightarrow>
      ys ! q ! r = (if o' \<le> q * b + r \<and> q * b + r < o' + length d then d ! (q * b + r - o') else xs ! q ! r)"
  shows "concat ys = splice (concat xs) o' d"
proof (rule nth_equalityI)
  have lx: "length (concat xs) = length xs * b" by (rule length_concat_equal [OF assms(1)])
  have ly: "length (concat ys) = length xs * b" using length_concat_equal [OF assms(2)] assms(3) by simp
  show "length (concat ys) = length (splice (concat xs) o' d)" using assms(4) by (simp add: lx ly)
  fix j assume "j < length (concat ys)"
  then have j: "j < length xs * b" by (simp add: ly)
  then have b: "0 < b" by (cases b) auto
  have q: "j div b < length xs" "j mod b < b" using j b by (simp_all add: less_mult_imp_div_less)
  have "concat ys ! j = ys ! (j div b) ! (j mod b)" by (rule nth_concat_equal [OF assms(2)]) (simp_all add: assms(3) j)
  also have "\<dots> = (if o' \<le> j \<and> j < o' + length d then d ! (j - o') else xs ! (j div b) ! (j mod b))"
    using assms(5) [OF q] by simp
  also have "xs ! (j div b) ! (j mod b) = concat xs ! j" by (rule nth_concat_equal [OF assms(1) j, symmetric])
  finally show "concat ys ! j = splice (concat xs) o' d ! j"
    using assms(4) j by (simp add: nth_splice lx)
qed

section \<open>Writes\<close>

text \<open>A run of sectors that are consecutive in the chain as well.\<close>

lemma chain_write_run:
  assumes dist: "distinct ss" and len: "\<And>t. length (v t) = b" and run: "m + n \<le> length ss"
    and at: "\<And>i. i < n \<Longrightarrow> ss ! (m + i) = s + of_nat i" and small: "unat s + n \<le> 2 ^ 32" and src: "n * b \<le> length src"
  shows "concat (map (write_run v s n b src) ss) = splice (concat (map v ss)) (m * b) (take (n * b) src)"
proof (rule concat_update)
  have l: "length (write_run v s n b src t) = b" for t
  proof -
    have "b \<le> length src - (unat t - unat s) * b" if "unat s \<le> unat t" "unat t < unat s + n"
    proof -
      have "Suc (unat t - unat s) \<le> n" using that by linarith
      then have "Suc (unat t - unat s) * b \<le> n * b" by (rule mult_le_mono1)
      then have "(unat t - unat s) * b + b \<le> n * b" by (simp add: add.commute)
      then show ?thesis using src by simp
    qed
    then show ?thesis by (auto simp: write_run_def len)
  qed
  then show "length x = b" if "x \<in> set (map (write_run v s n b src) ss)" for x using that by auto
  show "length x = b" if "x \<in> set (map v ss)" for x using that len by auto
  show "length (map (write_run v s n b src) ss) = length (map v ss)" by simp
  have "(m + n) * b \<le> length ss * b" using run by (rule mult_right_mono) simp
  then show "m * b + length (take (n * b) src) \<le> length (map v ss) * b" using src by (simp add: add_mult_distrib)
  fix q r assume "q < length (map v ss)" and r: "r < b"
  then have q: "q < length ss" by simp
  have inside: "unat s \<le> unat (ss ! q) \<and> unat (ss ! q) < unat s + n \<longleftrightarrow> m \<le> q \<and> q < m + n"
  proof
    assume t: "unat s \<le> unat (ss ! q) \<and> unat (ss ! q) < unat s + n"
    define i where "i = unat (ss ! q) - unat s"
    have "i < n" "s + of_nat i = ss ! q"
      using t by (auto simp: i_def word_eq_iff_unat_eq unat_offset)
    then have "ss ! (m + i) = ss ! q" using at by simp
    then have "m + i = q" using dist q run \<open>i < n\<close> by (simp add: nth_eq_iff_index_eq)
    then show "m \<le> q \<and> q < m + n" using \<open>i < n\<close> by auto
  next
    assume "m \<le> q \<and> q < m + n"
    then obtain i where "q = m + i" "i < n" by (metis le_iff_add nat_add_left_cancel_less)
    then show "unat s \<le> unat (ss ! q) \<and> unat (ss ! q) < unat s + n"
      using at [of i] small unat_offset [of s i] by simp
  qed
  have bound: "m * b \<le> q * b + r \<and> q * b + r < m * b + n * b \<longleftrightarrow> m \<le> q \<and> q < m + n"
  proof -
    have "m * b \<le> q * b + r \<longleftrightarrow> m \<le> q"
    proof
      assume "m * b \<le> q * b + r"
      then have "m * b < Suc q * b" using r by simp
      then have "m < Suc q" using mult_less_cancel2 by blast
      then show "m \<le> q" by simp
    qed (simp add: trans_le_add1)
    moreover have "q * b + r < (m + n) * b \<longleftrightarrow> q < m + n"
    proof
      assume "q * b + r < (m + n) * b"
      then have "q * b < (m + n) * b" by (rule le_less_trans [OF le_add1])
      then show "q < m + n" using mult_less_cancel2 by blast
    next
      assume "q < m + n"
      then have "Suc q * b \<le> (m + n) * b" by (intro mult_right_mono) simp_all
      then show "q * b + r < (m + n) * b" using r by simp
    qed
    ultimately show ?thesis by (simp add: add_mult_distrib)
  qed
  show "map (write_run v s n b src) ss ! q ! r =
    (if m * b \<le> q * b + r \<and> q * b + r < m * b + length (take (n * b) src)
     then take (n * b) src ! (q * b + r - m * b) else map v ss ! q ! r)"
  proof (cases "m \<le> q \<and> q < m + n")
    case True
    then obtain i where i: "q = m + i" "i < n" by (metis le_iff_add nat_add_left_cancel_less)
    have u: "unat (ss ! q) - unat s = i" using at [OF i(2)] i small unat_offset [of s i] by simp
    have le: "i * b + b \<le> n * b" using i(2) mult_le_mono1 [of "Suc i" n b] by simp
    have "map (write_run v s n b src) ss ! q ! r = slice src (i * b) b ! r"
      using q True inside u by (simp add: write_run_def)
    also have "\<dots> = src ! (i * b + r)" using r le src by (simp add: nth_slice)
    finally show ?thesis using True bound src r le i(1) by (simp add: add_mult_distrib)
  next
    case False
    then have "\<not> (m * b \<le> q * b + r \<and> q * b + r < m * b + n * b)"
      and "\<not> (unat s \<le> unat (ss ! q) \<and> unat (ss ! q) < unat s + n)"
      using bound inside by blast+
    then show ?thesis using q src by (auto simp: write_run_def)
  qed
qed

text \<open>A part of one sector.\<close>

lemma chain_write_part:
  assumes dist: "distinct ss" and len: "\<And>t. length (v t) = b" and m: "m < length ss" and fit: "off + length d \<le> b"
  shows "concat (map (v(ss ! m := splice (v (ss ! m)) off d)) ss) = splice (concat (map v ss)) (m * b + off) d"
proof (rule concat_update)
  have "length (splice (v (ss ! m)) off d) = b" using fit by (simp add: len)
  then show "length x = b" if "x \<in> set (map (v(ss ! m := splice (v (ss ! m)) off d)) ss)" for x
    using that len by (auto split: if_splits)
  show "length x = b" if "x \<in> set (map v ss)" for x using that len by auto
  show "length (map (v(ss ! m := splice (v (ss ! m)) off d)) ss) = length (map v ss)" by simp
  have "Suc m * b \<le> length ss * b" using m by (intro mult_right_mono) simp_all
  then show "m * b + off + length d \<le> length (map v ss) * b" using fit by simp
  fix q r assume "q < length (map v ss)" and r: "r < b"
  then have q: "q < length ss" by simp
  have eq: "ss ! q = ss ! m \<longleftrightarrow> q = m" using dist q m by (simp add: nth_eq_iff_index_eq)
  have other: "\<not> (m * b + off \<le> q * b + r \<and> q * b + r < m * b + off + length d)" if "q \<noteq> m"
  proof -
    from that have "q < m \<or> m < q" by arith
    then show ?thesis
    proof
      assume "q < m"
      then have "Suc q * b \<le> m * b" by (intro mult_right_mono) simp_all
      then show ?thesis using r by simp
    next
      assume "m < q"
      then have "Suc m * b \<le> q * b" by (intro mult_right_mono) simp_all
      then show ?thesis using fit by simp
    qed
  qed
  show "map (v(ss ! m := splice (v (ss ! m)) off d)) ss ! q ! r =
    (if m * b + off \<le> q * b + r \<and> q * b + r < m * b + off + length d then d ! (q * b + r - (m * b + off))
     else map v ss ! q ! r)"
  proof (cases "q = m")
    case True
    then show ?thesis using m r fit by (simp add: nth_splice len)
  next
    case False
    then show ?thesis using q eq other by auto
  qed
qed

end
