(* ===== verification/FileGrow.thy ===== *)
theory FileGrow
  imports FileUpdate FileRead
begin

text \<open>
  A file whose chain grows while bytes are stored in it: \<open>growing\<close> says that the chain of the file is
  one of the chains of the volume, extends the one the file had at the start, and that no sector
  outside the table and the chain has changed; \<open>stored\<close> says which bytes the clusters of the chain hold.
  Both are kept by allocating the next cluster and by writing to the sectors of the chain.
\<close>

section \<open>Volumes of the same geometry\<close>

definition in_table :: "'d partition \<Rightarrow> sec_t \<Rightarrow> bool" where
  "in_table p t \<longleftrightarrow> in_range (fat_fatStart (p_fat p)) (fat_sectorsPerFat (p_fat p)) t"

definition same_volume :: "'d partition \<Rightarrow> 'd partition \<Rightarrow> bool" where
  "same_volume p p' \<longleftrightarrow> (\<exists>c f. p' = p\<lparr>p_cache := c, p_fat := f\<rparr> \<and> same_region (p_fat p) f \<and>
     c_endOfPartition c = c_endOfPartition (p_cache p) \<and> c_bytesPerSector c = c_bytesPerSector (p_cache p))"

lemma same_volume_step: "fs_step med p p' \<Longrightarrow> same_volume p p'"
  by (simp add: fs_step_def same_volume_def)

lemma same_volume_refl: "same_volume p p"
  by (rule same_volume_step [OF fs_step_refl])

lemma same_volume_part:
  assumes "same_part p p'"
  shows "same_volume p p'"
proof -
  obtain c where c: "p' = p\<lparr>p_cache := c\<rparr>" "c_endOfPartition c = c_endOfPartition (p_cache p)"
    "c_bytesPerSector c = c_bytesPerSector (p_cache p)"
    using assms unfolding same_part_def by blast
  have "p' = p\<lparr>p_cache := c, p_fat := p_fat p\<rparr>" using c(1) by simp
  with c(2,3) show ?thesis unfolding same_volume_def by (metis same_region_refl)
qed

lemma same_volume_trans:
  assumes "same_volume p q" and "same_volume q r"
  shows "same_volume p r"
proof -
  obtain c f where q: "q = p\<lparr>p_cache := c, p_fat := f\<rparr>" "same_region (p_fat p) f"
    "c_endOfPartition c = c_endOfPartition (p_cache p)" "c_bytesPerSector c = c_bytesPerSector (p_cache p)"
    using assms(1) unfolding same_volume_def by blast
  obtain d g where r: "r = q\<lparr>p_cache := d, p_fat := g\<rparr>" "same_region (p_fat q) g"
    "c_endOfPartition d = c_endOfPartition (p_cache q)" "c_bytesPerSector d = c_bytesPerSector (p_cache q)"
    using assms(2) unfolding same_volume_def by blast
  show ?thesis
    unfolding same_volume_def using q r by (intro exI [of _ d] exI [of _ g]) (simp add: same_region_def)
qed

lemma same_volumeD:
  assumes "same_volume p p'"
  shows "p_bytesPerSector p' = p_bytesPerSector p" "p_sectorsPerCluster p' = p_sectorsPerCluster p"
    "p_bytesPerCluster p' = p_bytesPerCluster p" "cluster_bytes v p' = cluster_bytes v p"
    "chain_bytes v p' = chain_bytes v p" "chain_sectors p' = chain_sectors p" "pos_at p' = pos_at p"
    "FAT_fat_clusterToSector p' = FAT_fat_clusterToSector p" "file_sector p' = file_sector p"
    "data_ok p' = data_ok p" "FAT_fat_isValidCluster p' = FAT_fat_isValidCluster p" "in_table p' = in_table p"
    "in_cluster p' = in_cluster p" "c_endOfPartition (p_cache p') = c_endOfPartition (p_cache p)"
    "fat_lastCluster (p_fat p') = fat_lastCluster (p_fat p)"
proof -
  obtain c f where q: "p' = p\<lparr>p_cache := c, p_fat := f\<rparr>" "same_region (p_fat p) f"
    "c_endOfPartition c = c_endOfPartition (p_cache p)" "c_bytesPerSector c = c_bytesPerSector (p_cache p)"
    using assms unfolding same_volume_def by blast
  show geo: "p_bytesPerSector p' = p_bytesPerSector p" "p_sectorsPerCluster p' = p_sectorsPerCluster p"
    "p_bytesPerCluster p' = p_bytesPerCluster p" "c_endOfPartition (p_cache p') = c_endOfPartition (p_cache p)"
    "fat_lastCluster (p_fat p') = fat_lastCluster (p_fat p)"
    using q by (simp_all add: same_region_def)
  show c: "FAT_fat_clusterToSector p' = FAT_fat_clusterToSector p"
    using q by (simp add: fun_eq_iff FAT_fat_clusterToSector_def)
  show cb: "cluster_bytes v p' = cluster_bytes v p" by (simp add: fun_eq_iff cluster_bytes_def c geo)
  show "chain_bytes v p' = chain_bytes v p" by (simp add: fun_eq_iff chain_bytes_def cb)
  show "chain_sectors p' = chain_sectors p" by (simp add: fun_eq_iff chain_sectors_def c geo)
  show "pos_at p' = pos_at p" by (simp add: fun_eq_iff pos_at_def geo)
  show "file_sector p' = file_sector p" by (simp add: fun_eq_iff file_sector_def c)
  show "data_ok p' = data_ok p" using q by (simp add: data_ok_def same_region_def)
  show "FAT_fat_isValidCluster p' = FAT_fat_isValidCluster p"
    using geo(5) by (simp add: fun_eq_iff FAT_fat_isValidCluster_def)
  show "in_table p' = in_table p" using q by (simp add: fun_eq_iff in_table_def same_region_def)
  show "in_cluster p' = in_cluster p" by (simp add: fun_eq_iff in_cluster_def c geo)
qed

lemma same_volume_ok: "same_volume p p' \<Longrightarrow> volume_ok med p \<Longrightarrow> part_ok med p' \<Longrightarrow> volume_ok med p'"
  using same_volumeD [of p p'] by (simp add: volume_ok_def)

section \<open>The file being written\<close>

text \<open>\<open>p0\<close> is the partition at the start, \<open>xs\<close> and \<open>ys\<close> the other chains, \<open>ds\<close> the chain of the file by
  now, and \<open>d\<close> the bytes written so far, from offset \<open>start\<close> on.\<close>

definition frame :: "('d \<Rightarrow> sec_t \<Rightarrow> u8 list) \<Rightarrow> 'd partition \<Rightarrow> u32 list \<Rightarrow> 'd partition \<Rightarrow> bool" where
  "frame med p0 ds p \<longleftrightarrow>
     (\<forall>t. \<not> in_table p0 t \<longrightarrow> (\<forall>c \<in> set ds. \<not> in_cluster p0 c t) \<longrightarrow> pview med p t = pview med p0 t)"

definition stored :: "('d \<Rightarrow> sec_t \<Rightarrow> u8 list) \<Rightarrow> 'd partition \<Rightarrow> nat \<Rightarrow> u8 list \<Rightarrow> u32 list \<Rightarrow> 'd partition \<Rightarrow> bool" where
  "stored med p0 start d ds p \<longleftrightarrow> start + length d \<le> length ds * bpc p0 \<and>
     chain_bytes (pview med p) p0 ds = splice (chain_bytes (pview med p0) p0 ds) start d"

definition growing ::
    "('d \<Rightarrow> sec_t \<Rightarrow> u8 list) \<Rightarrow> 'd partition \<Rightarrow> u32 list list \<Rightarrow> u32 list \<Rightarrow> u32 list list \<Rightarrow> u32 list \<Rightarrow> 'd partition \<Rightarrow> bool"
  where
  "growing med p0 xs cs ys ds p \<longleftrightarrow> volume_ok med p0 \<and> volume_ok med p \<and> same_volume p0 p \<and>
     forest (fat_table med p) (FAT_fat_isValidCluster p0) (xs @ ds # ys) \<and> (\<exists>es. ds = cs @ es) \<and> frame med p0 ds p"

lemma growingD:
  assumes "growing med p0 xs cs ys ds p"
  shows "volume_ok med p0" "volume_ok med p" "same_volume p0 p"
    "forest (fat_table med p) (FAT_fat_isValidCluster p0) (xs @ ds # ys)" "frame med p0 ds p"
    "part_ok med p" "proper (FAT_fat_isValidCluster p0)"
    "chain (fat_table med p) (FAT_fat_isValidCluster p0) ds" "fat_table med p (last ds) = CLUSTER_EOF"
    "c \<in> set ds \<Longrightarrow> FAT_fat_isValidCluster p0 c" "k < length ds \<Longrightarrow> FAT_fat_isValidCluster p0 (ds ! k)"
    "distinct ds" "ds \<noteq> []" "file_chain med p ds"
proof -
  show a: "volume_ok med p0" "volume_ok med p" "same_volume p0 p"
    "forest (fat_table med p) (FAT_fat_isValidCluster p0) (xs @ ds # ys)" "frame med p0 ds p"
    using assms by (simp_all add: growing_def)
  show "part_ok med p" "proper (FAT_fat_isValidCluster p0)"
    using volume_okD(1) [OF a(2)] proper_valid [OF volume_okD(1) [OF a(1)]] .
  show ch: "chain (fat_table med p) (FAT_fat_isValidCluster p0) ds" "fat_table med p (last ds) = CLUSTER_EOF"
    using forestD(1,2) [OF a(4), of ds] by simp_all
  then show "ds \<noteq> []" by auto
  show "c \<in> set ds \<Longrightarrow> FAT_fat_isValidCluster p0 c" for c by (rule chain_valid [OF ch(1)])
  then show "k < length ds \<Longrightarrow> FAT_fat_isValidCluster p0 (ds ! k)" by simp
  show "distinct ds" using forestD(3) [OF a(4)] by simp
  show "file_chain med p ds" using a ch same_volumeD(11) [OF a(3)] by (simp add: file_chain_def)
qed

lemma growing_prefix: "growing med p0 xs cs ys ds p \<Longrightarrow> \<exists>es. ds = cs @ es"
  by (simp add: growing_def)

text \<open>Steps that show the same sectors outside the table keep what was stored.\<close>

lemma chain_bytes_cong:
  "(\<And>t. t \<in> set (chain_sectors p cs) \<Longrightarrow> v t = w t) \<Longrightarrow> chain_bytes v p cs = chain_bytes w p cs"
  by (simp add: chain_bytes_sectors cong: map_cong)

lemma chain_sector_outside:
  assumes "volume_ok med p" and "\<And>c. c \<in> set cs \<Longrightarrow> FAT_fat_isValidCluster p c" and "t \<in> set (chain_sectors p cs)"
  shows "\<not> in_table p t"
  using chain_sectors_cluster [OF assms] cluster_not_in_table [OF volume_okD(2) [OF assms(1)]] assms(2)
  unfolding in_table_def by metis

lemma stored_step:
  assumes g: "growing med p0 xs cs ys ds q" and st: "stored med p0 start d ds p"
    and view: "\<And>t. \<not> in_table p0 t \<Longrightarrow> pview med p' t = pview med p t"
  shows "stored med p0 start d ds p'"
proof -
  have "chain_bytes (pview med p') p0 ds = chain_bytes (pview med p) p0 ds"
    by (rule chain_bytes_cong, rule view, rule chain_sector_outside [OF growingD(1,10) [OF g]])
  with st show ?thesis by (simp add: stored_def)
qed

lemma splice_append_left: "o' + length d \<le> length a \<Longrightarrow> splice (a @ b) o' d = splice a o' d @ b"
  by (simp add: splice_def)

lemma stored_extend:
  assumes g: "growing med p0 xs cs ys ds p" and st: "stored med p0 start d ds p"
    and n: "FAT_fat_isValidCluster p0 n" "n \<notin> set ds"
  shows "stored med p0 start d (ds @ [n]) p"
proof -
  note ok = growingD(1) [OF g]
  have same: "pview med p t = pview med p0 t" if t: "t \<in> set (chain_sectors p0 [n])" for t
  proof -
    have v: "\<And>c. c \<in> set [n] \<Longrightarrow> FAT_fat_isValidCluster p0 c" using n(1) by simp
    have "in_cluster p0 n t" using chain_sectors_cluster [OF ok v t] by auto
    then have "\<not> in_cluster p0 c t" if "c \<in> set ds" for c
      using clusters_disjoint [OF volume_okD(2) [OF ok] n(1) growingD(10) [OF g that], of t] that n(2) by blast
    then show ?thesis
      using growingD(5) [OF g] chain_sector_outside [OF ok v t] unfolding frame_def by blast
  qed
  have "chain_bytes (pview med p) p0 [n] = chain_bytes (pview med p0) p0 [n]" by (rule chain_bytes_cong) (rule same)
  moreover have "start + length d \<le> length (chain_bytes (pview med p0) p0 ds)"
    using st by (simp add: stored_def length_chain_bytes [OF ok])
  ultimately show ?thesis
    using st splice_append_left [of start d "chain_bytes (pview med p0) p0 ds" "chain_bytes (pview med p0) p0 [n]"]
    by (simp add: stored_def chain_bytes_def)
qed

lemma growing_kept:
  assumes g: "growing med p0 xs cs ys ds p" and k: "pkept med p q"
  shows "growing med p0 xs cs ys ds q"
  using g volume_kept [OF k] pkeptD(3) [OF k] pkept_table [OF k]
    same_volume_trans [OF growingD(3) [OF g] same_volume_part [OF pkeptD(2) [OF k]]]
  by (simp add: growing_def frame_def)

lemma frame_step:
  assumes "frame med p0 ds p" and "\<And>t. \<not> in_table p0 t \<Longrightarrow> pview med p' t = pview med p t" and "set ds \<subseteq> set ds'"
  shows "frame med p0 ds' p'"
  using assms unfolding frame_def by (metis subsetD)

text \<open>A step of the allocator on the chain.\<close>

lemma growing_step:
  assumes g: "growing med p0 xs cs ys ds p" and fs: "fs_step med p p'" and ok: "part_ok med p'"
    and f: "forest (fat_table med p') (FAT_fat_isValidCluster p0) (xs @ (ds @ es) # ys)"
  shows "growing med p0 xs cs ys (ds @ es) p'"
proof -
  note sv = same_volume_trans [OF growingD(3) [OF g] same_volume_step [OF fs]]
  have view: "pview med p' t = pview med p t" if "\<not> in_table p0 t" for t
    using fs_stepD(19) [OF fs, of t] that same_volumeD(12) [OF growingD(3) [OF g]] by (metis in_table_def)
  have "frame med p0 (ds @ es) p'" by (rule frame_step [OF growingD(5) [OF g] view]) auto
  moreover have "volume_ok med p'" by (rule same_volume_ok [OF sv growingD(1) [OF g] ok])
  ultimately show ?thesis
    using growingD(1) [OF g] growing_prefix [OF g] sv f unfolding growing_def by auto
qed

definition may_allocate :: "'d partition \<Rightarrow> bool" where
  "may_allocate p \<longleftrightarrow> fat_firstFree (p_fat p) \<le> fat_lastCluster (p_fat p)"

lemma growing_table:
  assumes "growing med p0 xs cs ys ds p" and "may_allocate p"
  shows "table_inv med p (xs @ ds # ys)"
  using growingD(4,6) [OF assms(1)] same_volumeD(11) [OF growingD(3) [OF assms(1)]] assms(2)
  by (simp add: table_inv_def may_allocate_def)

text \<open>The cluster behind the one at a position: the next of the chain or, at its end, a new one.\<close>

lemma next_position:
  assumes g: "growing med p0 xs cs ys ds p" and st: "stored med p0 start d ds p" and ff: "may_allocate p"
    and k: "k < length ds" "fp_cluster pos = ds ! k" and edge: "fp_sector pos = p_sectorsPerCluster p"
    and rem: "rem \<noteq> 0"
  obtains (further) es p' where "FAT_check_position_for_next_cluster pos p rem True =
        Some ((True, pos\<lparr>fp_sector := 0, fp_cluster := (ds @ es) ! Suc k\<rparr>, None), p')"
      and "growing med p0 xs cs ys (ds @ es) p'" and "stored med p0 start d (ds @ es) p'" and "may_allocate p'"
      and "Suc k < length (ds @ es)"
  | (none) p' where "FAT_check_position_for_next_cluster pos p rem True = Some ((False, pos, Some ENOSPC), p')"
      and "growing med p0 xs cs ys ds p'" and "stored med p0 start d ds p'" and "full med p'" and "Suc k = length ds"
proof -
  note fc = growingD(14) [OF g]
  obtain q where q: "FAT_fat_nextCluster p (ds ! k) = Some (fat_table med p (ds ! k), q)" "pkept med p q"
    by (rule next_in_file [OF fc k(1)])
  note gq = growing_kept [OF g q(2)]
  have stq: "stored med p0 start d ds q" using st pkeptD(3) [OF q(2)] by (simp add: stored_def)
  have ffq: "may_allocate q" using ff same_partD(12) [OF pkeptD(2) [OF q(2)]] by (simp add: may_allocate_def)
  note Vq = same_volumeD(11) [OF growingD(3) [OF gq]]
  have V: "proper (FAT_fat_isValidCluster p0)" by (rule growingD(7) [OF g])
  note link = file_chain_next [OF fc k(1)]
  show thesis
  proof (cases "Suc k < length ds")
    case True
    have v: "FAT_fat_isValidCluster p0 (ds ! Suc k)" by (rule growingD(11) [OF g True])
    then have "ds ! Suc k \<noteq> CLUSTER_EOF" "ds ! Suc k \<noteq> CLUSTER_FREE" using V by (auto simp: proper_def)
    then have "FAT_check_position_for_next_cluster pos p rem True =
        Some ((True, pos\<lparr>fp_sector := 0, fp_cluster := ds ! Suc k\<rparr>, None), q)"
      using rem edge q(1) link True v Vq k(2) by (simp add: FAT_check_position_for_next_cluster_def)
    then show thesis using further [of "[]" q] gq stq ffq True by simp
  next
    case False
    then have len: "length ds = Suc k" using k(1) by simp
    then have last: "Suc k = length ds" "ds ! k = last ds"
      using growingD(13) [OF g] by (simp_all add: last_conv_nth)
    have eof: "fat_table med q (ds ! k) = CLUSTER_EOF" using growingD(9) [OF gq] last(2) by simp
    have run: "FAT_check_position_for_next_cluster pos p rem True =
      FAT_fat_linkFreeCluster q (ds ! k) \<bind> (\<lambda>(n, p). if \<not> FAT_fat_isValidCluster p n then Some ((False, pos, Some ENOSPC), p)
         else Some ((True, pos\<lparr>fp_sector := 0, fp_cluster := n\<rparr>, None), p))"
      using rem edge q(1) link False k(2) by (simp add: FAT_check_position_for_next_cluster_def)
    have v: "FAT_fat_isValidCluster q (ds ! k)" using growingD(11) [OF g k(1)] Vq by simp
    from growing_table [OF gq ffq] disjI2 [OF conjI [OF v eof]] show thesis
    proof (cases rule: linkFree_cases)
      case (taken n p')
      note vol = same_volume_step [OF taken(3)]
      have vn: "FAT_fat_isValidCluster p0 n" using taken(6) Vq by simp
      have nf: "ds ! k \<noteq> CLUSTER_FREE" using v proper_valid [OF growingD(6) [OF gq]] by (auto simp: proper_def)
      have f: "forest (fat_table med p') (FAT_fat_isValidCluster p0) (xs @ (ds @ [n]) # ys)"
        using forest_extend [OF growingD(4) [OF gq] V vn taken(7)] taken(4) nf last(2) by simp
      have "n \<notin> set (concat (xs @ ds # ys))" using forest_used(2) [OF growingD(4) [OF gq] V, of n] taken(7) by blast
      then have fresh: "n \<notin> set ds" by simp
      have view: "pview med p' t = pview med q t" if "\<not> in_table p0 t" for t
        using fs_stepD(19) [OF taken(3), of t] that same_volumeD(12) [OF growingD(3) [OF gq]] by (metis in_table_def)
      have g': "growing med p0 xs cs ys (ds @ [n]) p'" by (rule growing_step [OF gq taken(3,2) f])
      have st': "stored med p0 start d (ds @ [n]) p'"
        by (rule stored_step [OF g' stored_extend [OF gq stq vn fresh] view])
      have "may_allocate p'"
        using taken(5,6) fs_stepD(17) [OF taken(3)] by (simp add: may_allocate_def note_alloc_def FAT_fat_isValidCluster_def)
      moreover have "FAT_check_position_for_next_cluster pos p rem True =
          Some ((True, pos\<lparr>fp_sector := 0, fp_cluster := (ds @ [n]) ! Suc k\<rparr>, None), p')"
        using run taken(1,6) fs_stepD(16) [OF taken(3)] by (simp add: last(1))
      ultimately show thesis using further [of "[n]" p'] g' st' last(1) by simp
    next
      case (none p')
      have f: "forest (fat_table med p') (FAT_fat_isValidCluster p0) (xs @ (ds @ []) # ys)"
        using growingD(4) [OF gq] none(5) by simp
      have g': "growing med p0 xs cs ys ds p'" using growing_step [OF gq none(4,3) f] by simp
      have view: "pview med p' t = pview med q t" if "\<not> in_table p0 t" for t
        using fs_stepD(19) [OF none(4), of t] that same_volumeD(12) [OF growingD(3) [OF gq]] by (metis in_table_def)
      have ne: "\<not> FAT_fat_isValidCluster p' CLUSTER_ERROR"
        using valid_link(2) [OF part_okD(2) [OF none(3)], of CLUSTER_ERROR] by blast
      have "full med p'" using none(1,5) fs_stepD(16) [OF none(4)] by (simp add: full_def)
      moreover have "FAT_check_position_for_next_cluster pos p rem True = Some ((False, pos, Some ENOSPC), p')"
        using run none(2) ne by simp
      ultimately show thesis using that(2) [of p'] g' stored_step [OF gq stq view] last(1) by simp
    qed
  qed
qed

section \<open>Writes to the sectors of the chain\<close>

lemma data_step:
  assumes g: "growing med p0 xs cs ys ds p" and sp: "same_part p p'" and ok: "part_ok med p'"
    and other: "\<And>t. t \<notin> set (chain_sectors p0 ds) \<Longrightarrow> pview med p' t = pview med p t"
  shows "growing med p0 xs cs ys ds p'" and "fat_table med p' = fat_table med p"
proof -
  note sv = same_volume_trans [OF growingD(3) [OF g] same_volume_part [OF sp]]
  have outside: "t \<notin> set (chain_sectors p0 ds)" if "in_table p0 t" for t
    using chain_sector_outside [OF growingD(1,10) [OF g], where t = t] that by blast
  show tab: "fat_table med p' = fat_table med p"
  proof (rule fat_table_same_view [OF sp part_okD(2) [OF growingD(6) [OF g]]])
    fix t assume "in_range (fat_fatStart (p_fat p)) (fat_sectorsPerFat (p_fat p)) t"
    then have "in_table p0 t" using same_volumeD(12) [OF growingD(3) [OF g]] by (metis in_table_def)
    then show "pview med p' t = pview med p t" by (rule other [OF outside])
  qed
  have "frame med p0 ds p'"
  proof -
    have "pview med p' t = pview med p t" if "\<forall>c \<in> set ds. \<not> in_cluster p0 c t" for t
    proof (rule other)
      show "t \<notin> set (chain_sectors p0 ds)"
        using chain_sectors_cluster [OF growingD(1,10) [OF g], where t = t] that by blast
    qed
    then show ?thesis using growingD(5) [OF g] by (simp add: frame_def)
  qed
  then show "growing med p0 xs cs ys ds p'"
    using g sv tab same_volume_ok [OF sv growingD(1) [OF g] ok] by (simp add: growing_def)
qed

lemma stored_more:
  assumes ok: "volume_ok med p0" and st: "stored med p0 start d ds p" and fit: "start + length d + length e \<le> length ds * bpc p0"
    and view: "chain_bytes (pview med p') p0 ds = splice (chain_bytes (pview med p) p0 ds) (start + length d) e"
  shows "stored med p0 start (d @ e) ds p'"
  using st fit view splice_splice_append [of start d e "chain_bytes (pview med p0) p0 ds"]
  by (simp add: stored_def length_chain_bytes [OF ok])

lemma write_run_step:
  assumes g: "growing med p0 xs cs ys ds p" and st: "stored med p0 start d ds p"
    and j: "j + unat m \<le> length ds * spc p0" and place: "start + length d = j * bps p0"
    and run: "\<And>i. i < unat m \<Longrightarrow> chain_sectors p0 ds ! (j + i) = t + of_nat i"
    and room: "unat t + unat m \<le> unat (c_endOfPartition (p_cache p))" and src: "unat m * bps p0 \<le> length src"
  obtains p' where "writeRun p t m src = Some (True, p')" and "growing med p0 xs cs ys ds p'"
    and "stored med p0 start (d @ take (unat m * bps p0) src) ds p'" and "fat_table med p' = fat_table med p"
    and "same_part p p'"
proof -
  note ok = growingD(1) [OF g] and pok = growingD(6) [OF g]
  have bps: "unat (c_bytesPerSector (p_cache p)) = bps p0"
    using fat_wfD(2) [OF part_okD(2) [OF pok]] same_volumeD(1) [OF growingD(3) [OF g]] by simp
  obtain c where c: "FAT_cache_writeSectors (p_cache p) t m src = Some (True, c)" "store_inv med c"
    "cview med c = write_run (cview med (p_cache p)) t (unat m) (bps p0) src"
    "c_endOfPartition c = c_endOfPartition (p_cache p)" "unat (c_bytesPerSector c) = unat (c_bytesPerSector (p_cache p))"
    using runs.putrun_law [OF part_okD(1) [OF pok] room, of src] src unfolding bps by blast
  let ?p = "p\<lparr>p_cache := c\<rparr>"
  note sp = cache_step [OF pok c(2,4,5)]
  have view: "pview med ?p = write_run (pview med p) t (unat m) (bps p0) src" using c(3) by (simp add: pview_def)
  have len: "length (pview med p s) = bps p0" for s
    using volume_okD(8) [OF growingD(2) [OF g]] same_volumeD(1) [OF growingD(3) [OF g]] by simp
  have dist: "distinct (chain_sectors p0 ds)" by (rule distinct_chain_sectors [OF ok growingD(10,12) [OF g]])
  have small: "unat t + unat m \<le> 2 ^ 32" using room unat_lt_2p32 [of "c_endOfPartition (p_cache p)"] by simp
  have j': "j + unat m \<le> length (chain_sectors p0 ds)" using j by simp
  have bytes: "chain_bytes (pview med ?p) p0 ds = splice (chain_bytes (pview med p) p0 ds) (j * bps p0) (take (unat m * bps p0) src)"
    unfolding chain_bytes_sectors view by (rule chain_write_run [OF dist len j' run small src])
  have other: "pview med ?p s = pview med p s" if "s \<notin> set (chain_sectors p0 ds)" for s
  proof (rule ccontr)
    assume "pview med ?p s \<noteq> pview med p s"
    then have i: "unat t \<le> unat s" "unat s < unat t + unat m" unfolding view write_run_def by (metis (full_types))+
    then have "s = chain_sectors p0 ds ! (j + (unat s - unat t))"
      using run [of "unat s - unat t"] sector_in_range [OF i(1)] by simp
    moreover have "j + (unat s - unat t) < length (chain_sectors p0 ds)" using i j' by simp
    ultimately show False using that nth_mem by metis
  qed
  note d = data_step [OF g sp(2,1) other]
  have "j * bps p0 + unat m * bps p0 \<le> length ds * bpc p0"
    using mult_le_mono1 [OF j, of "bps p0"] by (simp add: volume_okD(3) [OF ok] algebra_simps)
  then have fit: "start + length d + length (take (unat m * bps p0) src) \<le> length ds * bpc p0"
    using place src by simp
  have "stored med p0 start (d @ take (unat m * bps p0) src) ds ?p"
    by (rule stored_more [OF ok st fit]) (simp add: bytes place)
  then show thesis using that [of ?p] c(1) d sp(2) by (simp add: writeRun_def on_cache_def)
qed

text \<open>A part of one sector, with or without zeroing the sector first.\<close>

lemma sector_step:
  assumes g: "growing med p0 xs cs ys ds p" and st: "stored med p0 start d ds p"
    and j: "j < length ds * spc p0" and place: "start + length d = j * bps p0 + off" and t: "chain_sectors p0 ds ! j = t"
    and fit: "off + length e \<le> bps p0"
    and c: "store_inv med c" "cview med c = (cview med (p_cache p))(t := splice (cview med (p_cache p) t) off e)"
      "c_endOfPartition c = c_endOfPartition (p_cache p)" "unat (c_bytesPerSector c) = unat (c_bytesPerSector (p_cache p))"
  shows "growing med p0 xs cs ys ds (p\<lparr>p_cache := c\<rparr>)" and "stored med p0 start (d @ e) ds (p\<lparr>p_cache := c\<rparr>)"
    and "same_part p (p\<lparr>p_cache := c\<rparr>)" and "fat_table med (p\<lparr>p_cache := c\<rparr>) = fat_table med p"
proof -
  note ok = growingD(1) [OF g] and pok = growingD(6) [OF g]
  let ?p = "p\<lparr>p_cache := c\<rparr>"
  note sp = cache_step [OF pok c(1,3,4)]
  have view: "pview med ?p = (pview med p)(t := splice (pview med p t) off e)"
    using c(2) by (simp add: pview_def)
  have len: "length (pview med p s) = bps p0" for s
    using volume_okD(8) [OF growingD(2) [OF g]] same_volumeD(1) [OF growingD(3) [OF g]] by simp
  have dist: "distinct (chain_sectors p0 ds)" by (rule distinct_chain_sectors [OF ok growingD(10,12) [OF g]])
  have j': "j < length (chain_sectors p0 ds)" using j by simp
  have other: "pview med ?p s = pview med p s" if "s \<notin> set (chain_sectors p0 ds)" for s
    using that nth_mem [OF j'] t by (auto simp: view)
  from data_step [OF g sp(2,1) other]
  show "growing med p0 xs cs ys ds ?p" "fat_table med ?p = fat_table med p" by blast+
  show "same_part p ?p" by (rule sp(2))
  have bytes: "chain_bytes (pview med ?p) p0 ds = splice (chain_bytes (pview med p) p0 ds) (j * bps p0 + off) e"
    unfolding chain_bytes_sectors view t [symmetric] by (rule chain_write_part [OF dist len j' fit])
  have "Suc j * bps p0 \<le> length ds * bpc p0"
    using mult_le_mono1 [of "Suc j" "length ds * spc p0" "bps p0"] j by (simp add: volume_okD(3) [OF ok] algebra_simps)
  then have fit': "start + length d + length e \<le> length ds * bpc p0"
    using place fit by simp
  show "stored med p0 start (d @ e) ds ?p"
    by (rule stored_more [OF ok st fit']) (simp add: bytes place)
qed

lemma growing_bps: "growing med p0 xs cs ys ds p \<Longrightarrow> unat (c_bytesPerSector (p_cache p)) = bps p0"
  using fat_wfD(2) [OF part_okD(2) [OF growingD(6)]] same_volumeD(1) [OF growingD(3)] by metis

lemma write_part_step:
  assumes g: "growing med p0 xs cs ys ds p" and st: "stored med p0 start d ds p"
    and j: "j < length ds * spc p0" and place: "start + length d = j * bps p0 + unat off"
    and t: "chain_sectors p0 ds ! j = t" "t < c_endOfPartition (p_cache p)"
    and fit: "unat off + unat n \<le> bps p0" and src: "unat n \<le> length src"
  obtains p' where "on_cache (\<lambda>c. FAT_cache_writePartialSector c src t off n) p = Some (True, p')"
    and "growing med p0 xs cs ys ds p'" and "stored med p0 start (d @ take (unat n) src) ds p'"
    and "same_part p p'"
proof -
  note bps = growing_bps [OF g]
  obtain c where c: "FAT_cache_writePartialSector (p_cache p) src t off n = Some (True, c)" "store_inv med c"
    "cview med c = (cview med (p_cache p))(t := splice (cview med (p_cache p) t) (unat off) (take (unat n) src))"
    "c_endOfPartition c = c_endOfPartition (p_cache p)" "unat (c_bytesPerSector c) = unat (c_bytesPerSector (p_cache p))"
    using store.put_law [OF part_okD(1) [OF growingD(6) [OF g]] t(2), of off n src] fit src unfolding bps by blast
  have f: "unat off + length (take (unat n) src) \<le> bps p0" using fit src by simp
  show thesis
    using that [of "p\<lparr>p_cache := c\<rparr>"] c(1) sector_step [OF g st j place t(1) f c(2-5)]
    by (simp add: on_cache_def)
qed

text \<open>The bytes at the start of a sector that is zeroed behind them.\<close>

lemma erase_part_step:
  assumes g: "growing med p0 xs cs ys ds p" and st: "stored med p0 start d ds p"
    and j: "j < length ds * spc p0" and place: "start + length d = j * bps p0"
    and t: "chain_sectors p0 ds ! j = t" "t < c_endOfPartition (p_cache p)"
    and fit: "unat n \<le> bps p0" and src: "unat n \<le> length src"
  obtains p' where "on_cache (\<lambda>c. FAT_cache_eraseWritePartialSector c src t 0 n) p = Some (True, p')"
    and "growing med p0 xs cs ys ds p'"
    and "stored med p0 start (d @ take (unat n) src @ replicate (bps p0 - unat n) 0) ds p'" and "same_part p p'"
proof -
  note bps = growing_bps [OF g] and inv = part_okD(1) [OF growingD(6) [OF g]]
  let ?e = "take (unat n) src @ replicate (bps p0 - unat n) 0"
  obtain c where c: "FAT_cache_eraseWritePartialSector (p_cache p) src t 0 n = Some (True, c)" "store_inv med c"
    "cview med c = (cview med (p_cache p))(t := splice (replicate (bps p0) 0) (unat 0) (take (unat n) src))"
    "c_endOfPartition c = c_endOfPartition (p_cache p)" "unat (c_bytesPerSector c) = unat (c_bytesPerSector (p_cache p))"
    using runs.erase_law [OF inv t(2), of 0 n src] fit src unfolding bps by auto
  have len: "length (cview med (p_cache p) t) = bps p0"
    using store.view_length [OF inv] bps by simp
  have e: "length ?e = bps p0" using fit src by simp
  have "splice (replicate (bps p0) 0) (unat 0) (take (unat n) src) = ?e"
    using src by (simp add: splice_def)
  also have "?e = splice (cview med (p_cache p) t) 0 ?e" using e len by (simp only: splice_full)
  finally have v: "cview med c = (cview med (p_cache p))(t := splice (cview med (p_cache p) t) 0 ?e)"
    using c(3) by simp
  have place': "start + length d = j * bps p0 + 0" and f: "0 + length ?e \<le> bps p0" using place e by simp_all
  show thesis
    using that [of "p\<lparr>p_cache := c\<rparr>"] c(1) sector_step [OF g st j place' t(1) f c(2) v c(4,5)]
    by (simp add: on_cache_def)
qed

lemma may_allocate_same: "same_part p p' \<Longrightarrow> may_allocate p' = may_allocate p"
  by (simp add: may_allocate_def same_partD(12))

end
