(* ===== verification/FileWrite.thy ===== *)
theory FileWrite
  imports FileGrow
begin

text \<open>
  Writing a file. The proof follows \<open>_FAT_write_r\<close> from one alignment step to the next; \<open>writing_at\<close>
  is the invariant: the chain of the file may have grown, the bytes of its clusters are those of
  before with what was written so far put in their place, and nothing else on the disc has changed
  but the table. When the disc is full the write stops at the end of the last cluster.
\<close>

section \<open>The invariant\<close>

definition writing_at ::
    "('d \<Rightarrow> sec_t \<Rightarrow> u8 list) \<Rightarrow> 'd partition \<Rightarrow> u32 list list \<Rightarrow> u32 list \<Rightarrow> u32 list list \<Rightarrow> u8 list
      \<Rightarrow> nat \<Rightarrow> nat \<Rightarrow> nat \<Rightarrow> u32 list \<Rightarrow> 'd writing \<Rightarrow> bool" where
  "writing_at med p0 xs cs ys src start fin n ds s \<longleftrightarrow>
     growing med p0 xs cs ys ds (wr_part s) \<and> stored med p0 start (take (n - start) src) ds (wr_part s) \<and>
     pos_at p0 ds (wr_pos s) n \<and> start \<le> n \<and> n + unat (wr_remain s) = fin \<and> wr_src s = drop (n - start) src \<and>
     fin - start \<le> length src \<and>
     (if wr_ok s then may_allocate (wr_part s) \<and> wr_errno s = None
      else full med (wr_part s) \<and> wr_errno s = Some ENOSPC \<and> n = length ds * bpc p0 \<and> n < fin)"

lemma writing_atD:
  assumes "writing_at med p0 xs cs ys src start fin n ds s"
  shows "growing med p0 xs cs ys ds (wr_part s)" "stored med p0 start (take (n - start) src) ds (wr_part s)"
    "pos_at p0 ds (wr_pos s) n" "start \<le> n" "n + unat (wr_remain s) = fin" "wr_src s = drop (n - start) src"
    "fin - start \<le> length src" "wr_ok s \<Longrightarrow> may_allocate (wr_part s)" "wr_ok s \<Longrightarrow> wr_errno s = None"
    "\<not> wr_ok s \<Longrightarrow> full med (wr_part s)" "\<not> wr_ok s \<Longrightarrow> wr_errno s = Some ENOSPC"
    "\<not> wr_ok s \<Longrightarrow> n = length ds * bpc p0" "length (take (n - start) src) = n - start"
    "unat (wr_remain s) \<le> length (wr_src s)" "\<not> wr_ok s \<Longrightarrow> n < fin"
  using assms by (auto simp: writing_at_def)

text \<open>What the position means for the sectors of the chain.\<close>

lemma writing_place:
  assumes at: "writing_at med p0 xs cs ys src start fin n ds s"
  obtains k where "k < length ds" and "fp_cluster (wr_pos s) = ds ! k"
    and "n = k * bpc p0 + unat (fp_sector (wr_pos s)) * bps p0 + unat (fp_byte (wr_pos s))"
    and "unat (fp_byte (wr_pos s)) < bps p0" and "unat (fp_sector (wr_pos s)) \<le> spc p0"
    and "unat (fp_sector (wr_pos s)) = spc p0 \<Longrightarrow> fp_byte (wr_pos s) = 0"
    and "n = (k * spc p0 + unat (fp_sector (wr_pos s))) * bps p0 + unat (fp_byte (wr_pos s))"
    and "file_sector (wr_part s) (wr_pos s) = FAT_fat_clusterToSector p0 (ds ! k) + of_nat (unat (fp_sector (wr_pos s)))"
    and "same_volume p0 (wr_part s)" and "FAT_fat_isValidCluster p0 (ds ! k)"
proof -
  note g = writing_atD(1) [OF at]
  obtain k where k: "k < length ds" "fp_cluster (wr_pos s) = ds ! k"
    "n = k * bpc p0 + unat (fp_sector (wr_pos s)) * bps p0 + unat (fp_byte (wr_pos s))"
    "unat (fp_byte (wr_pos s)) < bps p0" "unat (fp_sector (wr_pos s)) \<le> spc p0"
    "unat (fp_sector (wr_pos s)) = spc p0 \<longrightarrow> fp_byte (wr_pos s) = 0"
    using writing_atD(3) [OF at] unfolding pos_at_def by blast
  have "file_sector (wr_part s) (wr_pos s) = FAT_fat_clusterToSector p0 (ds ! k) + of_nat (unat (fp_sector (wr_pos s)))"
    using same_volumeD(8) [OF growingD(3) [OF g]] by (simp add: file_sector_def k(2))
  moreover have "n = (k * spc p0 + unat (fp_sector (wr_pos s))) * bps p0 + unat (fp_byte (wr_pos s))"
    using k(3) volume_okD(3) [OF growingD(1) [OF g]] by (simp add: algebra_simps)
  ultimately show thesis using k that growingD(3,11) [OF g] by blast
qed

lemma writing_more:
  assumes at: "writing_at med p0 xs cs ys src start fin n ds s" and ok: "wr_ok s"
    and g: "growing med p0 xs cs ys ds q"
    and st: "stored med p0 start (take (n - start) src @ take (unat m) (wr_src s)) ds q"
    and sp: "same_part (wr_part s) q" and pos: "pos_at p0 ds pos (n + unat m)" and m: "unat m \<le> unat (wr_remain s)"
  shows "writing_at med p0 xs cs ys src start fin (n + unat m) ds
    (s\<lparr>wr_part := q, wr_pos := pos, wr_remain := wr_remain s - m, wr_src := drop (unat m) (wr_src s)\<rparr>)"
proof -
  note w = writing_atD [OF at]
  have "unat (wr_remain s - m) = unat (wr_remain s) - unat m" by (rule unat_sub_le [OF m])
  moreover have "take (n + unat m - start) src = take (n - start) src @ take (unat m) (wr_src s)"
    using w(4,6) take_add [of "n - start" "unat m" src] by simp
  moreover have "drop (unat m + n - start) src = drop (n + unat m - start) src" by (simp only: add.commute)
  ultimately show ?thesis
    using g st pos m ok w(4-9) may_allocate_same [OF sp] by (simp add: writing_at_def)
qed

section \<open>The steps\<close>

lemma write_check_spec:
  assumes at: "writing_at med p0 xs cs ys src start fin n ds s"
  obtains ds' s' where "write_check s = Some s'" and "writing_at med p0 xs cs ys src start fin n ds' s'"
    and "wr_ok s' \<Longrightarrow> wr_ok s \<and> (wr_remain s \<noteq> 0 \<longrightarrow> unat (fp_sector (wr_pos s')) < spc p0)"
    and "wr_remain s' = wr_remain s"
    and "fp_byte (wr_pos s') = fp_byte (wr_pos s)"
    and "unat (fp_sector (wr_pos s)) \<noteq> spc p0 \<Longrightarrow> wr_pos s' = wr_pos s"
    and "unat (fp_sector (wr_pos s)) = spc p0 \<Longrightarrow> wr_remain s \<noteq> 0 \<Longrightarrow> wr_ok s' \<Longrightarrow> fp_sector (wr_pos s') = 0"
proof -
  note w = writing_atD [OF at]
  obtain k where k: "k < length ds" "fp_cluster (wr_pos s) = ds ! k"
    "n = k * bpc p0 + unat (fp_sector (wr_pos s)) * bps p0 + unat (fp_byte (wr_pos s))"
    "unat (fp_byte (wr_pos s)) < bps p0" "unat (fp_sector (wr_pos s)) \<le> spc p0"
    "unat (fp_sector (wr_pos s)) = spc p0 \<longrightarrow> fp_byte (wr_pos s) = 0" "same_volume p0 (wr_part s)"
    using writing_place [OF at] by metis
  note sv = same_volumeD [OF k(7)] and vd = volume_okD [OF growingD(1) [OF w(1)]]
  show thesis
  proof (cases "wr_remain s = 0 \<or> \<not> wr_ok s")
    case True
    then have "write_check s = Some s"
      by (auto simp: write_check_def FAT_check_position_for_next_cluster_def note_errno_def)
    then show thesis by (rule that [OF _ at]) (use True in auto)
  next
    case False
    then have rem: "wr_remain s \<noteq> 0" and ok: "wr_ok s" by simp_all
    show thesis
    proof (cases "unat (fp_sector (wr_pos s)) = spc p0")
      case inside: False
      then have "\<not> fp_sector (wr_pos s) > p_sectorsPerCluster (wr_part s)"
        "fp_sector (wr_pos s) \<noteq> p_sectorsPerCluster (wr_part s)"
        using k(5) sv(2) by (auto simp: word_less_nat_alt)
      then have "write_check s = Some s"
        using rem ok by (simp add: write_check_def FAT_check_position_for_next_cluster_def note_errno_def)
      then show thesis by (rule that [OF _ at]) (use inside k(5) ok in simp_all)
    next
      case edge: True
      then have e: "fp_sector (wr_pos s) = p_sectorsPerCluster (wr_part s)" by (simp add: sv(2) word_eq_iff_unat_eq)
      have n: "n = Suc k * bpc p0" and b: "fp_byte (wr_pos s) = 0" using k(3,6) edge vd(3) by simp_all
      show thesis
      proof (rule next_position [OF w(1,2) w(8) [OF ok] k(1,2) e rem])
        fix es p'
        assume run: "FAT_check_position_for_next_cluster (wr_pos s) (wr_part s) (wr_remain s) True =
            Some ((True, (wr_pos s)\<lparr>fp_sector := 0, fp_cluster := (ds @ es) ! Suc k\<rparr>, None), p')"
          and g: "growing med p0 xs cs ys (ds @ es) p'" and st: "stored med p0 start (take (n - start) src) (ds @ es) p'"
          and ma: "may_allocate p'" and len: "Suc k < length (ds @ es)"
        let ?s = "s\<lparr>wr_part := p', wr_pos := (wr_pos s)\<lparr>fp_sector := 0, fp_cluster := (ds @ es) ! Suc k\<rparr>\<rparr>"
        have "pos_at p0 (ds @ es) ((wr_pos s)\<lparr>fp_sector := 0, fp_cluster := (ds @ es) ! Suc k\<rparr>) n"
          unfolding pos_at_def using len b vd(4,5) n by (intro exI [of _ "Suc k"]) simp
        then have at': "writing_at med p0 xs cs ys src start fin n (ds @ es) ?s"
          using g st ma ok w(4-9) by (simp add: writing_at_def)
        have run': "write_check s = Some ?s"
          using run ok w(9) [OF ok] by (simp add: write_check_def note_errno_def)
        show thesis by (rule that [OF run' at']) (use edge b ok vd(5) in simp_all)
      next
        fix p'
        assume run: "FAT_check_position_for_next_cluster (wr_pos s) (wr_part s) (wr_remain s) True =
            Some ((False, wr_pos s, Some ENOSPC), p')"
          and g: "growing med p0 xs cs ys ds p'" and st: "stored med p0 start (take (n - start) src) ds p'"
          and fl: "full med p'" and len: "Suc k = length ds"
        let ?s = "s\<lparr>wr_part := p', wr_ok := False, wr_errno := Some ENOSPC\<rparr>"
        have at': "writing_at med p0 xs cs ys src start fin n ds ?s"
          using g st fl w(3-7) n len rem by (simp add: writing_at_def) (metis gr0I unat_eq_zero less_add_same_cancel1)
        have run': "write_check s = Some ?s"
          using run ok by (simp add: write_check_def note_errno_def)
        show thesis by (rule that [OF run' at']) (use edge in simp_all)
      qed
    qed
  qed
qed

definition whole_sectors :: "'d writing \<Rightarrow> bool" where
  "whole_sectors s \<longleftrightarrow> (wr_ok s \<longrightarrow> wr_remain s = 0 \<or> fp_byte (wr_pos s) = 0)"

lemma write_align_sector_spec:
  assumes at: "writing_at med p0 xs cs ys src start fin n ds s"
    and inside: "wr_ok s \<Longrightarrow> unat (fp_sector (wr_pos s)) < spc p0"
  obtains s' n' where "write_align_sector s = Some s'" and "writing_at med p0 xs cs ys src start fin n' ds s'"
    and "whole_sectors s'"
proof -
  note w = writing_atD [OF at]
  obtain k where k: "k < length ds" "fp_cluster (wr_pos s) = ds ! k"
    "n = k * bpc p0 + unat (fp_sector (wr_pos s)) * bps p0 + unat (fp_byte (wr_pos s))"
    "unat (fp_byte (wr_pos s)) < bps p0" "unat (fp_sector (wr_pos s)) \<le> spc p0"
    "n = (k * spc p0 + unat (fp_sector (wr_pos s))) * bps p0 + unat (fp_byte (wr_pos s))"
    "file_sector (wr_part s) (wr_pos s) = FAT_fat_clusterToSector p0 (ds ! k) + of_nat (unat (fp_sector (wr_pos s)))"
    "same_volume p0 (wr_part s)" "FAT_fat_isValidCluster p0 (ds ! k)"
    "unat (fp_sector (wr_pos s)) = spc p0 \<Longrightarrow> fp_byte (wr_pos s) = 0"
    using writing_place [OF at] by metis
  note sv = same_volumeD [OF k(8)] and ok0 = growingD(1) [OF w(1)]
  note vd = volume_okD [OF ok0]
  let ?b = "fp_byte (wr_pos s)" and ?B = "p_bytesPerSector (wr_part s)" and ?a = "unat (fp_sector (wr_pos s))"
  define m where "m = (if ?B - ?b > wr_remain s then wr_remain s else ?B - ?b)"
  have sub: "unat (?B - ?b) = bps p0 - unat ?b" using k(4) by (simp add: unat_sub_le sv(1))
  have um: "unat m = min (bps p0 - unat ?b) (unat (wr_remain s))"
    using sub by (auto simp: m_def word_less_nat_alt not_less)
  have fit: "unat ?b + unat m \<le> bps p0" using k(4) by (simp add: um)
  show thesis
  proof (cases "m < ?B \<and> wr_ok s")
    case False
    have run: "write_align_sector s = Some s"
      using False by (auto simp: write_align_sector_def Let_def m_def [symmetric])
    have "?b = 0" if "wr_ok s"
    proof -
      have "bps p0 \<le> unat m" using False that by (simp add: word_less_nat_alt not_less sv(1))
      then have "bps p0 \<le> bps p0 - unat ?b" unfolding um by simp
      then have "unat ?b = 0" using k(4) by arith
      then show ?thesis by (simp add: word_eq_iff_unat_eq)
    qed
    then have "whole_sectors s" by (simp add: whole_sectors_def)
    then show thesis by (rule that [OF run at])
  next
    case True
    then have mB: "unat m < bps p0" and wok: "wr_ok s" by (simp_all add: word_less_nat_alt sv(1))
    have a: "?a < spc p0" using inside wok by simp
    note ns = nth_chain_sectors [OF k(1) a]
    have j: "k * spc p0 + ?a < length ds * spc p0" using ns(2) by simp
    have t: "file_sector (wr_part s) (wr_pos s) < c_endOfPartition (p_cache (wr_part s))"
      using cluster_sector [OF ok0 k(9), of ?a] a by (simp add: word_less_nat_alt k(7) sv(14))
    have place: "start + length (take (n - start) src) = (k * spc p0 + ?a) * bps p0 + unat ?b"
      using w(4,13) k(6) by simp
    have src: "unat m \<le> length (wr_src s)" using w(14) um by simp
    obtain q where q: "on_cache (\<lambda>c. FAT_cache_writePartialSector c (wr_src s)
        (file_sector (wr_part s) (wr_pos s)) ?b m) (wr_part s) = Some (True, q)"
      "growing med p0 xs cs ys ds q" "stored med p0 start (take (n - start) src @ take (unat m) (wr_src s)) ds q"
      "same_part (wr_part s) q"
      by (rule write_part_step [OF w(1,2) j place _ t fit src]) (use ns(1) k(7) in simp_all)
    define pos where "pos = (wr_pos s)\<lparr>fp_byte := ?b + m\<rparr>"
    define pos' where "pos' = (if fp_byte pos \<ge> ?B then pos\<lparr>fp_byte := 0, fp_sector := fp_sector pos + 1\<rparr> else pos)"
    have ub: "unat (?b + m) = unat ?b + unat m"
      using fit unat_lt_2p32 [of "p_bytesPerSector p0"] by (intro unat_add_small) simp
    have us: "unat (fp_sector (wr_pos s) + 1) = ?a + 1"
      using a unat_lt_2p32 [of "p_sectorsPerCluster p0"] by (intro unat_add_small [where b = 1, simplified unat_1]) simp
    have full: "?B \<le> ?b + m \<longleftrightarrow> unat ?b + unat m = bps p0"
      using fit by (auto simp: word_le_nat_alt ub sv(1))
    have pos: "pos_at p0 ds pos' (n + unat m)"
      using k(1,2,3) a fit vd(4)
      by (auto simp: pos_at_def pos'_def pos_def full ub us intro!: exI [of _ k])
    let ?s = "s\<lparr>wr_part := q, wr_pos := pos', wr_remain := wr_remain s - m, wr_src := drop (unat m) (wr_src s)\<rparr>"
    have at': "writing_at med p0 xs cs ys src start fin (n + unat m) ds ?s"
      by (rule writing_more [OF at wok q(2,3,4) pos]) (simp add: um)
    have "whole_sectors ?s"
    proof (cases "unat ?b + unat m = bps p0")
      case True
      then show ?thesis by (simp add: whole_sectors_def pos'_def pos_def full)
    next
      case False
      then have "m = wr_remain s" using um fit by (simp add: word_eq_iff_unat_eq)
      then show ?thesis by (simp add: whole_sectors_def)
    qed
    moreover have "write_align_sector s = Some ?s"
      using True q(1) by (simp add: write_align_sector_def Let_def m_def [symmetric] pos_def pos'_def)
    ultimately show thesis using that at' by blast
  qed
qed

text \<open>Whole sectors at the position.\<close>

lemma write_sectors_step:
  assumes at: "writing_at med p0 xs cs ys src start fin n ds s" and wok: "wr_ok s" and b: "fp_byte (wr_pos s) = 0"
    and m: "unat (fp_sector (wr_pos s)) + unat m \<le> spc p0" "unat m * bps p0 \<le> unat (wr_remain s)"
  obtains s' where "write_sectors s (file_sector (wr_part s) (wr_pos s)) m = Some s'"
    and "writing_at med p0 xs cs ys src start fin (n + unat m * bps p0) ds s'" and "wr_ok s'"
    and "fp_sector (wr_pos s') = fp_sector (wr_pos s) + m" and "fp_byte (wr_pos s') = 0"
    and "unat (wr_remain s') = unat (wr_remain s) - unat m * bps p0"
proof -
  note w = writing_atD [OF at]
  obtain k where k: "k < length ds" "fp_cluster (wr_pos s) = ds ! k"
    "n = k * bpc p0 + unat (fp_sector (wr_pos s)) * bps p0 + unat (fp_byte (wr_pos s))"
    "n = (k * spc p0 + unat (fp_sector (wr_pos s))) * bps p0 + unat (fp_byte (wr_pos s))"
    "file_sector (wr_part s) (wr_pos s) = FAT_fat_clusterToSector p0 (ds ! k) + of_nat (unat (fp_sector (wr_pos s)))"
    "same_volume p0 (wr_part s)" "FAT_fat_isValidCluster p0 (ds ! k)"
    using writing_place [OF at] by metis
  note sv = same_volumeD [OF k(6)] and ok0 = growingD(1) [OF w(1)]
  note vd = volume_okD [OF ok0]
  let ?a = "unat (fp_sector (wr_pos s))" and ?t = "file_sector (wr_part s) (wr_pos s)"
  note cl = cluster_sector [OF ok0 k(7), of ?a]
  have room: "unat ?t + unat m \<le> unat (c_endOfPartition (p_cache (wr_part s)))"
    using cl m(1) by (simp add: k(5) sv(14))
  have run: "chain_sectors p0 ds ! ((k * spc p0 + ?a) + i) = ?t + of_nat i" if "i < unat m" for i
    using nth_chain_sectors(1) [OF k(1), of "?a + i" p0] that m(1) by (simp add: k(5) add.assoc)
  have "Suc k * spc p0 \<le> length ds * spc p0" using k(1) by (intro mult_right_mono) simp_all
  then have j: "(k * spc p0 + ?a) + unat m \<le> length ds * spc p0" using m(1) by simp
  have place: "start + length (take (n - start) src) = (k * spc p0 + ?a) * bps p0"
    using w(4,13) k(4) b by simp
  have src: "unat m * bps p0 \<le> length (wr_src s)" using w(14) m(2) by simp
  have "unat m * bps p0 \<le> spc p0 * bps p0" using m(1) by (intro mult_le_mono1) simp
  then have small: "unat m * bps p0 < 4294967296"
    using unat_lt_2p32 [of "p_bytesPerCluster p0"] vd(3) by linarith
  have um: "unat (m * p_bytesPerSector (wr_part s)) = unat m * bps p0"
    using small sv(1) by (subst unat_mult_small) simp_all
  obtain q where q: "writeRun (wr_part s) ?t m (wr_src s) = Some (True, q)" "growing med p0 xs cs ys ds q"
    "stored med p0 start (take (n - start) src @ take (unat m * bps p0) (wr_src s)) ds q" "same_part (wr_part s) q"
    by (rule write_run_step [OF w(1,2) j place run room src])
  have us: "unat (fp_sector (wr_pos s) + m) = ?a + unat m"
    using m(1) unat_lt_2p32 [of "p_sectorsPerCluster p0"] by (intro unat_add_small) simp
  let ?k = "m * p_bytesPerSector (wr_part s)"
  define pos where "pos = (wr_pos s)\<lparr>fp_sector := fp_sector (wr_pos s) + m\<rparr>"
  have pos: "pos_at p0 ds pos (n + unat ?k)"
    using k b m(1) vd(4) by (auto simp: pos_at_def pos_def us um add_mult_distrib intro!: exI [of _ k])
  let ?s' = "s\<lparr>wr_part := q, wr_pos := pos, wr_remain := wr_remain s - ?k, wr_src := drop (unat ?k) (wr_src s)\<rparr>"
  have at': "writing_at med p0 xs cs ys src start fin (n + unat ?k) ds ?s'"
    by (rule writing_more [OF at wok q(2) _ q(4) pos]) (simp_all add: um m(2) q(3))
  have B: "p_bytesPerSector q = p_bytesPerSector (wr_part s)" by (rule same_partD(8) [OF q(4)])
  have runs: "write_sectors s ?t m = Some ?s'"
    using q(1) B by (simp add: write_sectors_def Let_def pos_def)
  have "unat (wr_remain s - ?k) = unat (wr_remain s) - unat m * bps p0"
    using m(2) by (subst unat_sub_le) (simp_all add: um)
  then show thesis
    by (intro that [OF runs]) (use at' wok b in \<open>simp_all add: um pos_def\<close>)
qed

definition cluster_edge :: "'d partition \<Rightarrow> 'd writing \<Rightarrow> bool" where
  "cluster_edge p s \<longleftrightarrow> (wr_ok s \<longrightarrow> unat (wr_remain s) < bps p \<or> unat (fp_sector (wr_pos s)) \<in> {0, spc p})"

lemma write_align_cluster_spec:
  assumes at: "writing_at med p0 xs cs ys src start fin n ds s" and byte: "whole_sectors s"
  obtains s' n' where "write_align_cluster s = Some s'" and "writing_at med p0 xs cs ys src start fin n' ds s'"
    and "whole_sectors s'" and "cluster_edge p0 s'"
proof -
  note w = writing_atD [OF at]
  have k: "unat (fp_sector (wr_pos s)) \<le> spc p0" "same_volume p0 (wr_part s)"
    using writing_place [OF at] by metis+
  note sv = same_volumeD [OF k(2)] and vd = volume_okD [OF growingD(1) [OF w(1)]]
  let ?q = "wr_part s" let ?a = "unat (fp_sector (wr_pos s))"
  define left where "left = p_sectorsPerCluster ?q - fp_sector (wr_pos s)"
  have left: "unat left = spc p0 - ?a" using k(1) by (simp add: left_def unat_sub_le sv(2))
  have "unat left * bps p0 \<le> spc p0 * bps p0" by (intro mult_le_mono1) (simp add: left)
  then have "unat left * bps p0 < 4294967296" using unat_lt_2p32 [of "p_bytesPerCluster p0"] vd(3) by linarith
  then have ul: "unat (left * p_bytesPerSector ?q) = unat left * bps p0"
    using sv(1) by (subst unat_mult_small) simp_all
  define m where "m = (if wr_remain s > left * p_bytesPerSector ?q then left else wr_remain s div p_bytesPerSector ?q)"
  have um: "unat m = (if unat (wr_remain s) > unat left * bps p0 then unat left else unat (wr_remain s) div bps p0)"
    using ul by (simp add: m_def word_less_nat_alt unat_div_word sv(1))
  have nz: "p_bytesPerSector ?q \<noteq> 0" using vd(4) by (metis unat_0 less_irrefl sv(1))
  have eq: "write_align_cluster s =
    (if m > 0 \<and> m < p_sectorsPerCluster ?q \<and> wr_ok s then write_sectors s (file_sector ?q (wr_pos s)) m else Some s)"
    using nz by (simp only: write_align_cluster_def Let_def m_def left_def if_False)
  have mle: "unat m \<le> unat left"
  proof (cases "unat (wr_remain s) > unat left * bps p0")
    case False
    then have "unat (wr_remain s) div bps p0 \<le> unat left * bps p0 div bps p0" by (intro div_le_mono) simp
    then show ?thesis using False vd(4) by (simp add: um)
  qed (simp add: um)
  show thesis
  proof (cases "m > 0 \<and> m < p_sectorsPerCluster ?q \<and> wr_ok s")
    case False
    have "unat (wr_remain s) < bps p0 \<or> ?a \<in> {0, spc p0}" if wok: "wr_ok s"
    proof -
      consider "unat m = 0" | "spc p0 \<le> unat m"
        using False wok by (auto simp: word_less_nat_alt sv(2) not_less unat_eq_zero)
      then show ?thesis
      proof cases
        case 1
        show ?thesis
        proof (cases "unat (wr_remain s) > unat left * bps p0")
          case True
          then show ?thesis using 1 um left k(1) by simp
        next
          case False
          then have "unat (wr_remain s) div bps p0 = 0" using 1 um by simp
          then show ?thesis using vd(4) by (simp add: div_eq_0_iff)
        qed
      next
        case 2
        then have "?a = 0" using mle left k(1) vd(5) by simp
        then show ?thesis by simp
      qed
    qed
    then have "cluster_edge p0 s" by (simp add: cluster_edge_def)
    moreover have "write_align_cluster s = Some s" using eq False by simp
    ultimately show thesis using that at byte by blast
  next
    case True
    then have mpos: "0 < unat m" and wok: "wr_ok s" by (simp_all add: word_less_nat_alt)
    have mr: "unat m * bps p0 \<le> unat (wr_remain s)" by (simp add: um)
    then have "0 < unat (wr_remain s)" using mult_pos_pos [OF mpos vd(4)] by linarith
    then have "wr_remain s \<noteq> 0" by auto
    then have b: "fp_byte (wr_pos s) = 0" using byte wok by (simp add: whole_sectors_def)
    have fit: "?a + unat m \<le> spc p0" using mle left k(1) by simp
    obtain s' where s': "write_sectors s (file_sector ?q (wr_pos s)) m = Some s'"
      "writing_at med p0 xs cs ys src start fin (n + unat m * bps p0) ds s'" "wr_ok s'"
      "fp_sector (wr_pos s') = fp_sector (wr_pos s) + m" "fp_byte (wr_pos s') = 0"
      "unat (wr_remain s') = unat (wr_remain s) - unat m * bps p0"
      by (rule write_sectors_step [OF at wok b fit mr])
    have us: "unat (fp_sector (wr_pos s) + m) = ?a + unat m"
      using fit unat_lt_2p32 [of "p_sectorsPerCluster p0"] by (intro unat_add_small) simp
    have "cluster_edge p0 s'"
    proof (cases "unat (wr_remain s) > unat left * bps p0")
      case True
      then show ?thesis using left k(1) by (simp add: cluster_edge_def s'(4) us um)
    next
      case False
      then have "unat m = unat (wr_remain s) div bps p0" using um by simp
      from mod_less_remain(1) [OF vd(4) this] show ?thesis by (simp add: cluster_edge_def s'(6))
    qed
    moreover have "whole_sectors s'" by (simp add: whole_sectors_def s'(5))
    moreover have "write_align_cluster s = Some s'" using eq True s'(1) by simp
    ultimately show thesis using that s'(2) by blast
  qed
qed

section \<open>Whole clusters\<close>

text \<open>What the grouping loop hands over: a run of clusters with consecutive numbers from index \<open>k\<close> of the
  chain on, and the cluster to go on with.\<close>

definition grouped ::
    "('d \<Rightarrow> sec_t \<Rightarrow> u8 list) \<Rightarrow> 'd partition \<Rightarrow> u32 list \<Rightarrow> nat \<Rightarrow> u32 \<Rightarrow> nat \<Rightarrow> u32 \<times> u32 \<times> u32 \<times> bool \<times> errno option
      \<Rightarrow> 'd partition \<Rightarrow> bool" where
  "grouped med p0 ds k remain j r p = (case r of (chunkEnd, nextStart, chunkSize, ok, err) \<Rightarrow>
     k + j < length ds \<and> consecutive ds k j \<and> chunkEnd = ds ! (k + j) \<and> unat chunkSize = Suc j * bpc p0 \<and>
     unat chunkSize \<le> unat remain \<and>
     (nextStart = chunkEnd \<or> Suc (k + j) < length ds \<and> nextStart = ds ! Suc (k + j)) \<and>
     (if ok then may_allocate p \<and> err = None
      else full med p \<and> err = Some ENOSPC \<and> Suc (k + j) = length ds \<and> nextStart = chunkEnd \<and>
        unat chunkSize < unat remain))"

lemma consecutive_append: "k + j < length ds \<Longrightarrow> consecutive (ds @ es) k j = consecutive ds k j"
  by (simp add: consecutive_def nth_append)

lemma consecutive_Suc: "consecutive ds k j \<Longrightarrow> ds ! Suc (k + j) = ds ! (k + j) + 1 \<Longrightarrow> consecutive ds k (Suc j)"
  by (auto simp: consecutive_def less_Suc_eq)

lemma group_loop_spec:
  assumes "growing med p0 xs cs ys ds p" and "stored med p0 start d ds p" and "may_allocate p"
    and "k + j < length ds" and "consecutive ds k j" and "fp_cluster pos = ds ! (k + j)"
    and "unat chunkSize = Suc j * bpc p0" and "unat chunkSize \<le> unat remain" and "unat remain + bpc p0 < 4294967296"
  shows "\<exists>es j' r p'. group_loop p pos (ds ! (k + j)) (ds ! (k + j)) chunkSize remain = Some (r, p') \<and>
    growing med p0 xs cs ys (ds @ es) p' \<and> stored med p0 start d (ds @ es) p' \<and> grouped med p0 (ds @ es) k remain j' r p'"
  using assms
proof (induction "unat remain - unat chunkSize" arbitrary: p ds j pos chunkSize rule: less_induct)
  case less
  note g = less.prems(1) and st = less.prems(2) and ma = less.prems(3) and kj = less.prems(4) and con = less.prems(5)
  note sv = same_volumeD [OF growingD(3) [OF g]] and vd = volume_okD [OF growingD(1) [OF g]]
  have sum: "unat (chunkSize + p_bytesPerCluster p) = unat chunkSize + bpc p0"
    using less.prems(8,9) by (subst unat_add_small) (simp_all add: sv(3))
  show ?case
  proof (cases "chunkSize + p_bytesPerCluster p < remain")
    case False
    then have "group_loop p pos (ds ! (k + j)) (ds ! (k + j)) chunkSize remain =
        Some ((ds ! (k + j), ds ! (k + j), chunkSize, True, None), p)"
      by (subst group_loop.simps) simp
    moreover have "grouped med p0 (ds @ []) k remain j (ds ! (k + j), ds ! (k + j), chunkSize, True, None) p"
      using less.prems by (simp add: grouped_def)
    ultimately show ?thesis using g st by (intro exI [of _ "[]"] exI [of _ j]) simp
  next
    case True
    then have lt: "unat chunkSize + bpc p0 < unat remain" using sum by (simp add: word_less_nat_alt)
    have rem: "remain - chunkSize \<noteq> 0" using lt by auto
    let ?pos = "pos\<lparr>fp_sector := p_sectorsPerCluster p\<rparr>"
    have c: "fp_cluster ?pos = ds ! (k + j)" and e: "fp_sector ?pos = p_sectorsPerCluster p"
      using less.prems(6) by simp_all
    show ?thesis
    proof (rule next_position [OF g st ma kj c e rem])
      fix es p1
      assume run: "FAT_check_position_for_next_cluster ?pos p (remain - chunkSize) True =
          Some ((True, ?pos\<lparr>fp_sector := 0, fp_cluster := (ds @ es) ! Suc (k + j)\<rparr>, None), p1)"
        and g1: "growing med p0 xs cs ys (ds @ es) p1" and st1: "stored med p0 start d (ds @ es) p1"
        and ma1: "may_allocate p1" and len: "Suc (k + j) < length (ds @ es)"
      let ?n = "(ds @ es) ! Suc (k + j)"
      have here: "(ds @ es) ! (k + j) = ds ! (k + j)" using kj by (simp add: nth_append)
      have con1: "consecutive (ds @ es) k j" using con consecutive_append [OF kj] by simp
      have B: "p_bytesPerCluster p1 = p_bytesPerCluster p"
        using same_volumeD(3) [OF growingD(3) [OF g1]] sv(3) by simp
      show ?thesis
      proof (cases "?n = ds ! (k + j) + 1")
        case False
        have "group_loop p pos (ds ! (k + j)) (ds ! (k + j)) chunkSize remain =
            Some ((ds ! (k + j), ?n, chunkSize, True, None), p1)"
          using True run False by (subst group_loop.simps) (simp add: Let_def)
        moreover have "grouped med p0 (ds @ es) k remain j (ds ! (k + j), ?n, chunkSize, True, None) p1"
          using less.prems(7,8) len con1 ma1 here unfolding grouped_def by simp
        ultimately show ?thesis using g1 st1 by blast
      next
        case succ: True
        let ?pos' = "?pos\<lparr>fp_sector := 0, fp_cluster := ?n\<rparr>"
        have unfold: "group_loop p pos (ds ! (k + j)) (ds ! (k + j)) chunkSize remain =
            group_loop p1 ?pos' ?n ?n (chunkSize + p_bytesPerCluster p) remain"
          using True run succ B by (subst group_loop.simps) (simp add: Let_def)
        have con2: "consecutive (ds @ es) k (Suc j)" using consecutive_Suc [OF con1] succ here by simp
        have "\<exists>es' j' r p'. group_loop p1 ?pos' ((ds @ es) ! (k + Suc j)) ((ds @ es) ! (k + Suc j))
            (chunkSize + p_bytesPerCluster p) remain = Some (r, p') \<and>
          growing med p0 xs cs ys ((ds @ es) @ es') p' \<and> stored med p0 start d ((ds @ es) @ es') p' \<and>
          grouped med p0 ((ds @ es) @ es') k remain j' r p'"
        proof (rule less.hyps [OF _ g1 st1 ma1 _ con2])
          show "unat remain - unat (chunkSize + p_bytesPerCluster p) < unat remain - unat chunkSize"
            using lt sum vd(6) by linarith
        qed (use len less.prems(7,9) lt sum in simp_all)
        then show ?thesis unfolding unfold by (simp only: append_assoc add_Suc_right) blast
      qed
    next
      fix p1
      assume run: "FAT_check_position_for_next_cluster ?pos p (remain - chunkSize) True =
          Some ((False, ?pos, Some ENOSPC), p1)"
        and g1: "growing med p0 xs cs ys ds p1" and st1: "stored med p0 start d ds p1"
        and fl: "full med p1" and len: "Suc (k + j) = length ds"
      have "group_loop p pos (ds ! (k + j)) (ds ! (k + j)) chunkSize remain =
          Some ((ds ! (k + j), ds ! (k + j), chunkSize, False, Some ENOSPC), p1)"
        using True run by (subst group_loop.simps) simp
      moreover have "grouped med p0 (ds @ []) k remain j (ds ! (k + j), ds ! (k + j), chunkSize, False, Some ENOSPC) p1"
        using less.prems(7,8) len con fl kj lt by (simp add: grouped_def)
      ultimately show ?thesis using g1 st1 by (intro exI [of _ "[]"] exI [of _ j]) simp
    qed
  qed
qed

lemma consecutive_sectors:
  assumes ok: "volume_ok med p" and V: "\<And>c. c \<in> set cs \<Longrightarrow> FAT_fat_isValidCluster p c"
    and k: "k + j < length cs" and con: "consecutive cs k j" and i: "i < Suc j * spc p"
  shows "chain_sectors p cs ! (k * spc p + i) = FAT_fat_clusterToSector p (cs ! k) + of_nat i"
proof -
  let ?q = "i div spc p" and ?a = "i mod spc p"
  have spc: "0 < spc p" by (rule volume_okD(5) [OF ok])
  have q: "?q \<le> j" using i spc by (simp add: less_mult_imp_div_less less_Suc_eq_le [symmetric])
  have a: "?a < spc p" using spc by simp
  have "consecutive cs k ?q" using con q by (simp add: consecutive_def)
  then have "FAT_fat_clusterToSector p (cs ! (k + ?q)) = FAT_fat_clusterToSector p (cs ! k) + of_nat (?q * spc p)"
    using consecutive_run(1) [OF ok V, of cs k ?q] k q by simp
  moreover have "chain_sectors p cs ! ((k + ?q) * spc p + ?a) = FAT_fat_clusterToSector p (cs ! (k + ?q)) + of_nat ?a"
    by (rule nth_chain_sectors(1)) (use k q a in simp_all)
  moreover have "(k + ?q) * spc p + ?a = k * spc p + i" by (simp add: add_mult_distrib)
  ultimately show ?thesis
    by (simp only: add.assoc of_nat_add [symmetric] div_mult_mod_eq)
qed

text \<open>One round of the loop after the position has been moved to the start of a cluster.\<close>

definition write_chunk :: "'d writing \<Rightarrow> u32 \<times> u32 \<times> u32 \<times> bool \<times> errno option \<Rightarrow> 'd partition \<Rightarrow> 'd writing" where
  "write_chunk s r p = (case r of (chunkEnd, nextStart, chunkSize, ok, err) \<Rightarrow>
     s\<lparr>wr_ok := ok, wr_errno := note_errno err (wr_errno s), wr_part := p,
       wr_pos := (if chunkEnd \<noteq> nextStart \<and> FAT_fat_isValidCluster p nextStart
         then (wr_pos s)\<lparr>fp_cluster := nextStart, fp_sector := 0\<rparr>
         else (wr_pos s)\<lparr>fp_cluster := chunkEnd, fp_sector := p_sectorsPerCluster p\<rparr>),
       wr_src := drop (unat chunkSize) (wr_src s), wr_remain := wr_remain s - chunkSize\<rparr>)"

lemma write_clusters_step:
  assumes c: "p_bytesPerCluster (wr_part s) \<le> wr_remain s" "wr_ok s" and chk: "write_check s = Some s1" "wr_ok s1"
    and gr: "group_loop (wr_part s1) (wr_pos s1) (fp_cluster (wr_pos s1)) (fp_cluster (wr_pos s1))
      (p_bytesPerCluster (wr_part s1)) (wr_remain s1) = Some ((ce, ns, sz, ok, err), p2)"
    and wr: "writeRun p2 (FAT_fat_clusterToSector p2 (fp_cluster (wr_pos s1))) (sz div p_bytesPerSector p2) (wr_src s1) =
      Some (True, p3)"
  shows "write_clusters s = write_clusters (write_chunk s1 (ce, ns, sz, ok, err) p3)"
  by (subst write_clusters.simps) (simp add: c chk gr wr write_chunk_def Let_def)

lemma write_chunk_spec:
  assumes at: "writing_at med p0 xs cs ys src start fin n ds s" and wok: "wr_ok s"
    and k: "k < length ds" "fp_cluster (wr_pos s) = ds ! k" "n = k * bpc p0" and b: "fp_byte (wr_pos s) = 0"
    and rem: "bpc p0 \<le> unat (wr_remain s)" and fin: "fin + bpc p0 < 4294967296"
  obtains es n' ce ns sz ok err p2 p3 where
    "group_loop (wr_part s) (wr_pos s) (fp_cluster (wr_pos s)) (fp_cluster (wr_pos s))
      (p_bytesPerCluster (wr_part s)) (wr_remain s) = Some ((ce, ns, sz, ok, err), p2)"
    and "writeRun p2 (FAT_fat_clusterToSector p2 (fp_cluster (wr_pos s))) (sz div p_bytesPerSector p2) (wr_src s) =
      Some (True, p3)"
    and "writing_at med p0 xs cs ys src start fin n' (ds @ es) (write_chunk s (ce, ns, sz, ok, err) p3)"
    and "whole_sectors (write_chunk s (ce, ns, sz, ok, err) p3)"
    and "cluster_edge p0 (write_chunk s (ce, ns, sz, ok, err) p3)"
    and "unat (wr_remain (write_chunk s (ce, ns, sz, ok, err) p3)) < unat (wr_remain s)"
proof -
  note w = writing_atD [OF at]
  note g = w(1) and sv = same_volumeD [OF growingD(3) [OF w(1)]] and ok0 = growingD(1) [OF w(1)]
  note vd = volume_okD [OF ok0]
  have con0: "consecutive ds k 0" by (simp add: consecutive_def)
  have "\<exists>es j' r p'. group_loop (wr_part s) (wr_pos s) (ds ! (k + 0)) (ds ! (k + 0)) (p_bytesPerCluster (wr_part s))
      (wr_remain s) = Some (r, p') \<and> growing med p0 xs cs ys (ds @ es) p' \<and>
      stored med p0 start (take (n - start) src) (ds @ es) p' \<and> grouped med p0 (ds @ es) k (wr_remain s) j' r p'"
    by (rule group_loop_spec [OF w(1,2) w(8) [OF wok] _ con0]) (use k rem w(5) fin in \<open>simp_all add: sv(3)\<close>)
  then obtain es j ce ns sz ok err p2 where run: "group_loop (wr_part s) (wr_pos s) (fp_cluster (wr_pos s))
      (fp_cluster (wr_pos s)) (p_bytesPerCluster (wr_part s)) (wr_remain s) = Some ((ce, ns, sz, ok, err), p2)"
    and g2: "growing med p0 xs cs ys (ds @ es) p2" and st2: "stored med p0 start (take (n - start) src) (ds @ es) p2"
    and gr: "grouped med p0 (ds @ es) k (wr_remain s) j (ce, ns, sz, ok, err) p2"
    unfolding add_0_right k(2) [symmetric] by (metis prod_cases5)
  let ?ds = "ds @ es"
  have kj: "k + j < length ?ds" and con: "consecutive ?ds k j" and ce: "ce = ?ds ! (k + j)"
    and sz: "unat sz = Suc j * bpc p0" "unat sz \<le> unat (wr_remain s)"
    and ns: "ns = ce \<or> Suc (k + j) < length ?ds \<and> ns = ?ds ! Suc (k + j)"
    and fl: "if ok then may_allocate p2 \<and> err = None
      else full med p2 \<and> err = Some ENOSPC \<and> Suc (k + j) = length ?ds \<and> ns = ce \<and> unat sz < unat (wr_remain s)"
    using gr unfolding grouped_def case_prod_conv by blast+
  note sv2 = same_volumeD [OF growingD(3) [OF g2]]
  have V: "\<And>c. c \<in> set ?ds \<Longrightarrow> FAT_fat_isValidCluster p0 c" by (rule growingD(10) [OF g2])
  have head: "?ds ! k = ds ! k" using k(1) by (simp add: nth_append)
  let ?t = "FAT_fat_clusterToSector p2 (fp_cluster (wr_pos s))" and ?m = "sz div p_bytesPerSector p2"
  have t: "?t = FAT_fat_clusterToSector p0 (?ds ! k)" by (simp add: sv2(8) head k(2))
  have szm: "unat sz = Suc j * spc p0 * bps p0" using sz(1) by (simp only: vd(3) mult.assoc)
  have um: "unat ?m = Suc j * spc p0" using vd(4) szm by (simp add: unat_div_word sv2(1))
  have "Suc (k + j) * spc p0 \<le> length ?ds * spc p0" using kj by (intro mult_right_mono) simp_all
  then have jj: "k * spc p0 + unat ?m \<le> length ?ds * spc p0" by (simp add: um add_mult_distrib)
  have place: "start + length (take (n - start) src) = k * spc p0 * bps p0"
    using w(4,13) k(3) by (simp only: vd(3) mult.assoc)
  have room: "unat ?t + unat ?m \<le> unat (c_endOfPartition (p_cache p2))"
    using consecutive_room [OF ok0 V kj con] by (simp only: t um sv2(14))
  have seq: "chain_sectors p0 ?ds ! (k * spc p0 + i) = ?t + of_nat i" if "i < unat ?m" for i
    unfolding t by (rule consecutive_sectors [OF ok0 V kj con]) (use that um in simp_all)
  have szb: "unat ?m * bps p0 = unat sz" using um szm by simp
  have srclen: "unat ?m * bps p0 \<le> length (wr_src s)" using szb sz(2) w(14) by simp
  obtain p3 where p3: "writeRun p2 ?t ?m (wr_src s) = Some (True, p3)" "growing med p0 xs cs ys ?ds p3"
    "stored med p0 start (take (n - start) src @ take (unat ?m * bps p0) (wr_src s)) ?ds p3"
    "fat_table med p3 = fat_table med p2" "same_part p2 p3"
    by (rule write_run_step [OF g2 st2 jj place seq room srclen])
  note sv3 = same_volumeD [OF growingD(3) [OF p3(2)]]
  let ?s = "write_chunk s (ce, ns, sz, ok, err) p3"
  have st3: "stored med p0 start (take (n + unat sz - start) src) ?ds p3"
    using p3(3) w(4,6) take_add [of "n - start" "unat sz" src] unfolding szb by simp
  have n': "n + unat sz = Suc (k + j) * bpc p0" using k(3) sz(1) by (simp add: add_mult_distrib)
  have ne: "ns \<noteq> ce" if "Suc (k + j) < length ?ds" "ns = ?ds ! Suc (k + j)"
    using that ce growingD(12) [OF g2] by (simp add: nth_eq_iff_index_eq)
  have pos: "pos_at p0 ?ds (wr_pos ?s) (n + unat sz)"
  proof (cases "ns = ce")
    case True
    then show ?thesis
      unfolding pos_at_def using kj ce b n' vd(3,4) by (intro exI [of _ "k + j"]) (simp add: write_chunk_def sv3(2))
  next
    case False
    then have nx: "Suc (k + j) < length ?ds" "ns = ?ds ! Suc (k + j)" using ns by simp_all
    have v: "FAT_fat_isValidCluster p3 ns" using growingD(11) [OF g2 nx(1)] nx(2) sv3(11) by simp
    show ?thesis
      unfolding pos_at_def using nx v False b n' vd(4,5)
      by (intro exI [of _ "Suc (k + j)"]) (auto simp: write_chunk_def)
  qed
  have full: "full med p3 = full med p2" by (simp add: full_def p3(4) sv2(11) sv3(11))
  have us: "unat (wr_remain s - sz) = unat (wr_remain s) - unat sz" by (rule unat_sub_le [OF sz(2)])
  have dr: "drop (unat sz) (wr_src s) = drop (n + unat sz - start) src"
    using w(4,6) by (simp add: add.commute)
  have at': "writing_at med p0 xs cs ys src start fin (n + unat sz) ?ds ?s"
  proof -
    have "n + unat sz + unat (wr_remain s - sz) = fin" using us sz(2) w(5) by simp
    moreover have "n + unat sz = length ?ds * bpc p0 \<and> n + unat sz < fin" if "\<not> ok" using fl that n' w(5) by simp
    moreover have "start \<le> n + unat sz" using w(4) by simp
    ultimately show ?thesis
      using p3(2) st3 pos w(7) w(9) [OF wok] dr fl full may_allocate_same [OF p3(5)]
      unfolding writing_at_def by (cases ok) (simp_all add: write_chunk_def note_errno_def)
  qed
  have byte: "fp_byte (wr_pos ?s) = 0" using b by (simp add: write_chunk_def)
  have edge: "unat (fp_sector (wr_pos ?s)) \<in> {0, spc p0}" by (simp add: write_chunk_def sv3(2))
  have "bpc p0 \<le> unat sz" using sz(1) by simp
  then have "unat (wr_remain ?s) < unat (wr_remain s)" using us vd(6) sz(2) by (simp add: write_chunk_def)
  then show thesis
    using that [OF run p3(1) at'] byte edge by (simp add: whole_sectors_def cluster_edge_def)
qed

lemma write_clusters_spec:
  assumes "writing_at med p0 xs cs ys src start fin n ds s" and "whole_sectors s" and "cluster_edge p0 s"
    and "fin + bpc p0 < 4294967296"
  shows "\<exists>ds' n' s'. write_clusters s = Some s' \<and> writing_at med p0 xs cs ys src start fin n' ds' s' \<and>
    whole_sectors s' \<and> cluster_edge p0 s' \<and> (wr_ok s' \<longrightarrow> unat (wr_remain s') < bpc p0)"
  using assms
proof (induction "unat (wr_remain s)" arbitrary: s n ds rule: less_induct)
  case less
  note at = less.prems(1)
  note w = writing_atD [OF at]
  note sv = same_volumeD [OF growingD(3) [OF w(1)]] and vd = volume_okD [OF growingD(1) [OF w(1)]]
  show ?case
  proof (cases "p_bytesPerCluster (wr_part s) \<le> wr_remain s \<and> wr_ok s")
    case False
    then have "write_clusters s = Some s" by (subst write_clusters.simps) auto
    moreover have "wr_ok s \<longrightarrow> unat (wr_remain s) < bpc p0" using False by (auto simp: word_le_nat_alt sv(3))
    ultimately show ?thesis using less.prems by blast
  next
    case True
    then have wok: "wr_ok s" and ge: "bpc p0 \<le> unat (wr_remain s)" by (simp_all add: word_le_nat_alt sv(3))
    have rem: "wr_remain s \<noteq> 0" using ge vd(6) by auto
    have b: "fp_byte (wr_pos s) = 0" using less.prems(2) wok rem by (simp add: whole_sectors_def)
    have sec: "unat (fp_sector (wr_pos s)) \<in> {0, spc p0}"
      using less.prems(3) wok ge vd(7) by (auto simp: cluster_edge_def)
    obtain ds1 s1 where s1: "write_check s = Some s1" "writing_at med p0 xs cs ys src start fin n ds1 s1"
      "wr_ok s1 \<Longrightarrow> wr_ok s \<and> (wr_remain s \<noteq> 0 \<longrightarrow> unat (fp_sector (wr_pos s1)) < spc p0)"
      "wr_remain s1 = wr_remain s" "fp_byte (wr_pos s1) = fp_byte (wr_pos s)"
      "unat (fp_sector (wr_pos s)) \<noteq> spc p0 \<Longrightarrow> wr_pos s1 = wr_pos s"
      "unat (fp_sector (wr_pos s)) = spc p0 \<Longrightarrow> wr_remain s \<noteq> 0 \<Longrightarrow> wr_ok s1 \<Longrightarrow> fp_sector (wr_pos s1) = 0"
      by (rule write_check_spec [OF at]) blast
    show ?thesis
    proof (cases "wr_ok s1")
      case False
      then have "write_clusters s = Some s1" using True s1(1) by (subst write_clusters.simps) simp
      then show ?thesis using s1(2) False by (auto simp: whole_sectors_def cluster_edge_def)
    next
      case ok1: True
      have "fp_sector (wr_pos s1) = 0"
      proof (cases "unat (fp_sector (wr_pos s)) = spc p0")
        case True
        then show ?thesis using s1(7) rem ok1 by blast
      next
        case False
        then show ?thesis using s1(6) sec by (simp add: unat_eq_zero)
      qed
      moreover obtain k where k: "k < length ds1" "fp_cluster (wr_pos s1) = ds1 ! k"
        "n = k * bpc p0 + unat (fp_sector (wr_pos s1)) * bps p0 + unat (fp_byte (wr_pos s1))"
        using writing_place [OF s1(2)] by metis
      ultimately have n: "n = k * bpc p0" using b s1(5) by simp
      have b1: "fp_byte (wr_pos s1) = 0" using b s1(5) by simp
      have ge1: "bpc p0 \<le> unat (wr_remain s1)" using ge s1(4) by simp
      obtain es n' ce ns sz ok err p2 p3 where c:
        "group_loop (wr_part s1) (wr_pos s1) (fp_cluster (wr_pos s1)) (fp_cluster (wr_pos s1))
          (p_bytesPerCluster (wr_part s1)) (wr_remain s1) = Some ((ce, ns, sz, ok, err), p2)"
        "writeRun p2 (FAT_fat_clusterToSector p2 (fp_cluster (wr_pos s1))) (sz div p_bytesPerSector p2) (wr_src s1) =
          Some (True, p3)"
        "writing_at med p0 xs cs ys src start fin n' (ds1 @ es) (write_chunk s1 (ce, ns, sz, ok, err) p3)"
        "whole_sectors (write_chunk s1 (ce, ns, sz, ok, err) p3)"
        "cluster_edge p0 (write_chunk s1 (ce, ns, sz, ok, err) p3)"
        "unat (wr_remain (write_chunk s1 (ce, ns, sz, ok, err) p3)) < unat (wr_remain s1)"
        by (rule write_chunk_spec [OF s1(2) ok1 k(1,2) n b1 ge1 less.prems(4)])
      have "write_clusters s = write_clusters (write_chunk s1 (ce, ns, sz, ok, err) p3)"
        by (rule write_clusters_step [OF _ _ s1(1) ok1 c(1,2)]) (use True in simp_all)
      with less.hyps [OF c(6) [unfolded s1(4)] c(3,4,5) less.prems(4)] show ?thesis by simp
    qed
  qed
qed

section \<open>The rest\<close>

lemma write_rest_sectors_spec:
  assumes at: "writing_at med p0 xs cs ys src start fin n ds s" and byte: "whole_sectors s" and edge: "cluster_edge p0 s"
    and inside: "wr_ok s \<Longrightarrow> wr_remain s \<noteq> 0 \<Longrightarrow> unat (fp_sector (wr_pos s)) < spc p0"
    and small: "wr_ok s \<Longrightarrow> unat (wr_remain s) < bpc p0"
  obtains s' n' where "write_rest_sectors s = Some s'" and "writing_at med p0 xs cs ys src start fin n' ds s'"
    and "whole_sectors s'" and "wr_ok s' \<Longrightarrow> wr_remain s' \<noteq> 0 \<Longrightarrow> unat (fp_sector (wr_pos s')) < spc p0"
    and "wr_ok s' \<Longrightarrow> unat (wr_remain s') < bps p0"
proof -
  note w = writing_atD [OF at]
  note sv = same_volumeD [OF growingD(3) [OF w(1)]] and vd = volume_okD [OF growingD(1) [OF w(1)]]
  define m where "m = wr_remain s div p_bytesPerSector (wr_part s)"
  have um: "unat m = unat (wr_remain s) div bps p0" by (simp add: m_def unat_div_word sv(1))
  have eq: "write_rest_sectors s = (if m > 0 \<and> wr_ok s
      then write_sectors s (FAT_fat_clusterToSector (wr_part s) (fp_cluster (wr_pos s))) m else Some s)"
    by (simp add: write_rest_sectors_def Let_def m_def)
  show thesis
  proof (cases "m > 0 \<and> wr_ok s")
    case False
    have run: "write_rest_sectors s = Some s" using eq False by simp
    have "unat (wr_remain s) < bps p0" if "wr_ok s"
    proof -
      have "unat m = 0" using False that by (simp add: word_less_nat_alt)
      then show ?thesis using um vd(4) by (simp add: div_eq_0_iff)
    qed
    then show thesis using that [OF run at byte] inside by blast
  next
    case True
    then have wok: "wr_ok s" and mpos: "0 < unat m" by (simp_all add: word_less_nat_alt)
    have mr: "unat m * bps p0 \<le> unat (wr_remain s)" by (simp add: um)
    have "1 * bps p0 \<le> unat m * bps p0" using mpos by (intro mult_le_mono1) simp
    then have ge: "bps p0 \<le> unat (wr_remain s)" using mr by linarith
    then have rem: "wr_remain s \<noteq> 0" using vd(4) by auto
    have b: "fp_byte (wr_pos s) = 0" using byte wok rem by (simp add: whole_sectors_def)
    have sec: "fp_sector (wr_pos s) = 0"
      using edge wok ge inside [OF wok rem] by (auto simp: cluster_edge_def unat_eq_zero)
    have lt: "unat m * bps p0 < spc p0 * bps p0" using mr small [OF wok] unfolding vd(3) by (rule le_less_trans)
    then have ms: "unat m < spc p0" using mult_less_cancel2 by blast
    have fit: "unat (fp_sector (wr_pos s)) + unat m \<le> spc p0" using sec ms by simp
    obtain s' where s': "write_sectors s (file_sector (wr_part s) (wr_pos s)) m = Some s'"
      "writing_at med p0 xs cs ys src start fin (n + unat m * bps p0) ds s'" "wr_ok s'"
      "fp_sector (wr_pos s') = fp_sector (wr_pos s) + m" "fp_byte (wr_pos s') = 0"
      "unat (wr_remain s') = unat (wr_remain s) - unat m * bps p0"
      by (rule write_sectors_step [OF at wok b fit mr])
    have run: "write_rest_sectors s = Some s'" using eq True s'(1) sec by (simp add: file_sector_def)
    have "whole_sectors s'" by (simp add: whole_sectors_def s'(5))
    then show thesis
      using that [OF run s'(2)] s'(4,6) sec ms mod_less_remain(1) [OF vd(4) um] by simp
  qed
qed

text \<open>The end of the write. A write that appends zeroes the sector behind its last bytes, so that only the
  bytes up to the new end are known.\<close>

definition written ::
    "('d \<Rightarrow> sec_t \<Rightarrow> u8 list) \<Rightarrow> bool \<Rightarrow> 'd partition \<Rightarrow> u32 list list \<Rightarrow> u32 list \<Rightarrow> u32 list list \<Rightarrow> u8 list
      \<Rightarrow> nat \<Rightarrow> nat \<Rightarrow> nat \<Rightarrow> u32 list \<Rightarrow> 'd writing \<Rightarrow> bool" where
  "written med appending p0 xs cs ys src start fin n ds s \<longleftrightarrow>
     growing med p0 xs cs ys ds (wr_part s) \<and> pos_at p0 ds (wr_pos s) n \<and> start \<le> n \<and> n + unat (wr_remain s) = fin \<and>
     n \<le> length ds * bpc p0 \<and>
     (let m = (if appending then n else length ds * bpc p0)
      in take m (chain_bytes (pview med (wr_part s)) p0 ds) =
         take m (splice (chain_bytes (pview med p0) p0 ds) start (take (n - start) src))) \<and>
     (if wr_ok s then n = fin \<and> may_allocate (wr_part s) \<and> wr_errno s = None
      else full med (wr_part s) \<and> wr_errno s = Some ENOSPC \<and> n = length ds * bpc p0 \<and> n < fin)"

lemma writing_written:
  assumes at: "writing_at med p0 xs cs ys src start fin n ds s" and rem0: "wr_ok s \<Longrightarrow> wr_remain s = 0"
  shows "written med appending p0 xs cs ys src start fin n ds s"
proof -
  note w = writing_atD [OF at]
  have "n \<le> length ds * bpc p0" using w(2,4,13) by (simp add: stored_def)
  moreover have "wr_ok s \<Longrightarrow> n = fin" using w(5) rem0 by simp
  ultimately show ?thesis
    using w rem0 unfolding written_def Let_def stored_def by (cases "wr_ok s") simp_all
qed

lemma take_splice_append:
  "o' + length d + length z \<le> length b \<Longrightarrow> take (o' + length d) (splice b o' (d @ z)) = take (o' + length d) (splice b o' d)"
  by (simp add: splice_def)

lemma write_tail_spec:
  assumes at: "writing_at med p0 xs cs ys src start fin n ds s" and byte: "whole_sectors s"
    and inside: "wr_ok s \<Longrightarrow> wr_remain s \<noteq> 0 \<Longrightarrow> unat (fp_sector (wr_pos s)) < spc p0"
    and small: "wr_ok s \<Longrightarrow> unat (wr_remain s) < bps p0"
  obtains s' n' where "write_tail appending s = Some s'" and "written med appending p0 xs cs ys src start fin n' ds s'"
proof (cases "wr_remain s > 0 \<and> wr_ok s")
  case False
  then have "write_tail appending s = Some s" by (auto simp: write_tail_def)
  moreover have "wr_ok s \<Longrightarrow> wr_remain s = 0" using False by (simp add: word_neq_0_conv [symmetric])
  ultimately show thesis using that writing_written [OF at] by blast
next
  case True
  then have wok: "wr_ok s" and rem: "wr_remain s \<noteq> 0" by auto
  note w = writing_atD [OF at]
  obtain k where k: "k < length ds" "fp_cluster (wr_pos s) = ds ! k"
    "n = k * bpc p0 + unat (fp_sector (wr_pos s)) * bps p0 + unat (fp_byte (wr_pos s))"
    "n = (k * spc p0 + unat (fp_sector (wr_pos s))) * bps p0 + unat (fp_byte (wr_pos s))"
    "file_sector (wr_part s) (wr_pos s) = FAT_fat_clusterToSector p0 (ds ! k) + of_nat (unat (fp_sector (wr_pos s)))"
    "same_volume p0 (wr_part s)" "FAT_fat_isValidCluster p0 (ds ! k)"
    using writing_place [OF at] by metis
  note sv = same_volumeD [OF k(6)] and ok0 = growingD(1) [OF w(1)]
  let ?a = "unat (fp_sector (wr_pos s))" and ?t = "file_sector (wr_part s) (wr_pos s)"
  have a: "?a < spc p0" by (rule inside [OF wok rem])
  have b: "fp_byte (wr_pos s) = 0" using byte wok rem by (simp add: whole_sectors_def)
  note ns = nth_chain_sectors [OF k(1) a]
  have j: "k * spc p0 + ?a < length ds * spc p0" using ns(2) by simp
  have sec: "chain_sectors p0 ds ! (k * spc p0 + ?a) = ?t" using ns(1) k(5) by simp
  have t: "?t < c_endOfPartition (p_cache (wr_part s))"
    using cluster_sector [OF ok0 k(7), of ?a] a by (simp add: word_less_nat_alt k(5) sv(14))
  have place: "start + length (take (n - start) src) = (k * spc p0 + ?a) * bps p0"
    using w(4,13) k(4) b by simp
  have fit: "unat (wr_remain s) \<le> bps p0" using small [OF wok] by simp
  define pos where "pos = (wr_pos s)\<lparr>fp_byte := fp_byte (wr_pos s) + wr_remain s\<rparr>"
  have pos: "pos_at p0 ds pos fin"
    using k(1,2,3) a b small [OF wok] w(5) by (auto simp: pos_at_def pos_def intro!: exI [of _ k])
  have tk: "take (fin - start) src = take (n - start) src @ take (unat (wr_remain s)) (wr_src s)"
  proof -
    have "fin - start = n - start + unat (wr_remain s)" using w(4,5) by simp
    then show ?thesis using w(6) take_add [of "n - start" "unat (wr_remain s)" src] by simp
  qed
  have len: "length (take (fin - start) src) = fin - start" "start \<le> fin" using w(4,5,7) by simp_all
  let ?s = "\<lambda>q. s\<lparr>wr_part := q, wr_pos := pos, wr_remain := 0\<rparr>"
  show thesis
  proof (cases appending)
    case False
    have place': "start + length (take (n - start) src) = (k * spc p0 + ?a) * bps p0 + unat (0 :: u32)"
      using place by simp
    have fit': "unat (0 :: u32) + unat (wr_remain s) \<le> bps p0" using fit by simp
    obtain q where q: "on_cache (\<lambda>c. FAT_cache_writePartialSector c (wr_src s) ?t 0 (wr_remain s)) (wr_part s) = Some (True, q)"
      "growing med p0 xs cs ys ds q" "stored med p0 start (take (n - start) src @ take (unat (wr_remain s)) (wr_src s)) ds q"
      "same_part (wr_part s) q"
      by (rule write_part_step [OF w(1,2) j place' sec t fit' w(14)])
    have "stored med p0 start (take (fin - start) src) ds q" using q(3) tk by simp
    then have "written med appending p0 xs cs ys src start fin fin ds (?s q)"
      using q(2) pos len w(8,9) [OF wok] wok may_allocate_same [OF q(4)]
      unfolding written_def stored_def by simp
    moreover have "write_tail appending s = Some (?s q)"
      using True False q(1) by (simp add: write_tail_def Let_def pos_def)
    ultimately show thesis by (rule that [rotated])
  next
    case app: True
    obtain q where q: "on_cache (\<lambda>c. FAT_cache_eraseWritePartialSector c (wr_src s) ?t 0 (wr_remain s)) (wr_part s) = Some (True, q)"
      "growing med p0 xs cs ys ds q" "stored med p0 start (take (n - start) src @ take (unat (wr_remain s)) (wr_src s) @
        replicate (bps p0 - unat (wr_remain s)) 0) ds q"
      "same_part (wr_part s) q"
      by (rule erase_part_step [OF w(1,2) j place sec t fit w(14)])
    let ?z = "replicate (bps p0 - unat (wr_remain s)) 0 :: u8 list"
    have st: "stored med p0 start (take (fin - start) src @ ?z) ds q" using q(3) tk by simp
    have "take (start + length (take (fin - start) src)) (splice (chain_bytes (pview med p0) p0 ds) start (take (fin - start) src @ ?z)) =
        take (start + length (take (fin - start) src)) (splice (chain_bytes (pview med p0) p0 ds) start (take (fin - start) src))"
      using st by (intro take_splice_append) (simp add: stored_def length_chain_bytes [OF ok0])
    then have "take fin (chain_bytes (pview med q) p0 ds) =
        take fin (splice (chain_bytes (pview med p0) p0 ds) start (take (fin - start) src))"
      using st len by (simp add: stored_def)
    moreover have "fin \<le> length ds * bpc p0" using st len by (simp add: stored_def)
    ultimately have "written med appending p0 xs cs ys src start fin fin ds (?s q)"
      using q(2) pos len w(8,9) [OF wok] wok may_allocate_same [OF q(4)] app unfolding written_def by simp
    moreover have "write_tail appending s = Some (?s q)"
      using True app q(1) by (simp add: write_tail_def Let_def pos_def)
    ultimately show thesis by (rule that [rotated])
  qed
qed

section \<open>The whole write\<close>

lemma write_body_spec:
  assumes at: "writing_at med p0 xs cs ys src start fin n ds s" and ok: "wr_ok s" and rem: "wr_remain s \<noteq> 0"
    and fin: "fin + bpc p0 < 4294967296"
  obtains s' n' ds' where "write_body appending s = Some s'" and "written med appending p0 xs cs ys src start fin n' ds' s'"
proof -
  obtain ds1 s1 where s1: "write_check s = Some s1" "writing_at med p0 xs cs ys src start fin n ds1 s1"
    "wr_ok s1 \<Longrightarrow> wr_ok s \<and> (wr_remain s \<noteq> 0 \<longrightarrow> unat (fp_sector (wr_pos s1)) < spc p0)"
    by (rule write_check_spec [OF at]) blast
  obtain s2 n2 where s2: "write_align_sector s1 = Some s2" "writing_at med p0 xs cs ys src start fin n2 ds1 s2" "whole_sectors s2"
    by (rule write_align_sector_spec [OF s1(2)]) (use s1(3) rem in blast)+
  obtain s3 n3 where s3: "write_align_cluster s2 = Some s3" "writing_at med p0 xs cs ys src start fin n3 ds1 s3"
    "whole_sectors s3" "cluster_edge p0 s3"
    by (rule write_align_cluster_spec [OF s2(2,3)])
  obtain ds4 n4 s4 where s4: "write_clusters s3 = Some s4" "writing_at med p0 xs cs ys src start fin n4 ds4 s4"
    "whole_sectors s4" "cluster_edge p0 s4" "wr_ok s4 \<longrightarrow> unat (wr_remain s4) < bpc p0"
    using write_clusters_spec [OF s3(2-4) fin] by blast
  obtain ds5 s5 where s5: "write_check s4 = Some s5" "writing_at med p0 xs cs ys src start fin n4 ds5 s5"
    "wr_ok s5 \<Longrightarrow> wr_ok s4 \<and> (wr_remain s4 \<noteq> 0 \<longrightarrow> unat (fp_sector (wr_pos s5)) < spc p0)"
    "wr_remain s5 = wr_remain s4" "fp_byte (wr_pos s5) = fp_byte (wr_pos s4)"
    "unat (fp_sector (wr_pos s4)) \<noteq> spc p0 \<Longrightarrow> wr_pos s5 = wr_pos s4"
    "unat (fp_sector (wr_pos s4)) = spc p0 \<Longrightarrow> wr_remain s4 \<noteq> 0 \<Longrightarrow> wr_ok s5 \<Longrightarrow> fp_sector (wr_pos s5) = 0"
    by (rule write_check_spec [OF s4(2)]) blast
  have bps: "0 < bps p0" by (rule volume_okD(4) [OF growingD(1) [OF writing_atD(1) [OF at]]])
  have whole: "whole_sectors s5" using s4(3) s5(3-5) by (auto simp: whole_sectors_def)
  have edge: "cluster_edge p0 s5"
  proof (cases "wr_ok s5 \<and> wr_remain s4 \<noteq> 0")
    case True
    then show ?thesis
      using s4(4) s5(3,4,6,7) by (cases "unat (fp_sector (wr_pos s4)) = spc p0") (auto simp: cluster_edge_def)
  next
    case False
    then show ?thesis using bps s5(4) by (auto simp: cluster_edge_def)
  qed
  have in5: "wr_ok s5 \<Longrightarrow> wr_remain s5 \<noteq> 0 \<Longrightarrow> unat (fp_sector (wr_pos s5)) < spc p0" using s5(3,4) by simp
  have sm5: "wr_ok s5 \<Longrightarrow> unat (wr_remain s5) < bpc p0" using s5(3,4) s4(5) by simp
  obtain s6 n6 where s6: "write_rest_sectors s5 = Some s6" "writing_at med p0 xs cs ys src start fin n6 ds5 s6"
    "whole_sectors s6" "wr_ok s6 \<Longrightarrow> wr_remain s6 \<noteq> 0 \<Longrightarrow> unat (fp_sector (wr_pos s6)) < spc p0"
    "wr_ok s6 \<Longrightarrow> unat (wr_remain s6) < bps p0"
    by (rule write_rest_sectors_spec [OF s5(2) whole edge in5 sm5])
      (assumption | blast)+
  obtain s7 n7 where s7: "write_tail appending s6 = Some s7" "written med appending p0 xs cs ys src start fin n7 ds5 s7"
    by (rule write_tail_spec [OF s6(2,3,4,5)])
  have "write_body appending s = Some s7"
    by (simp only: write_body_def s1(1) s2(1) s3(1) s4(1) s5(1) s6(1) s7(1) Option.bind.simps)
  then show thesis by (rule that) (rule s7(2))
qed

text \<open>A file open for writing, with its chain among those of the volume.\<close>

definition write_start_at :: "file_struct \<Rightarrow> nat" where
  "write_start_at file = unat (if f_append file then f_filesize file else f_currentPosition file)"

definition writable_file ::
    "('d \<Rightarrow> sec_t \<Rightarrow> u8 list) \<Rightarrow> 'd partition \<Rightarrow> u32 list list \<Rightarrow> u32 list \<Rightarrow> u32 list list \<Rightarrow> file_struct \<Rightarrow> bool" where
  "writable_file med p xs cs ys file \<longleftrightarrow> volume_ok med p \<and> table_inv med p (xs @ cs # ys) \<and> f_inUse file \<and>
     f_write file \<and> f_startCluster file = hd cs \<and> unat (f_filesize file) \<le> length cs * bpc p \<and>
     f_currentPosition file \<le> f_filesize file \<and>
     pos_at p cs (if f_append file then f_appendPosition file else f_rwPosition file) (write_start_at file)"

definition file_bytes :: "('d \<Rightarrow> sec_t \<Rightarrow> u8 list) \<Rightarrow> 'd partition \<Rightarrow> u32 list \<Rightarrow> file_struct \<Rightarrow> u8 list" where
  "file_bytes med p cs file = take (unat (f_filesize file)) (chain_bytes (pview med p) p cs)"

lemma splice_take:
  assumes "o' \<le> k" and "k \<le> length b" and "o' + length d \<le> length b"
  shows "take (max k (o' + length d)) (splice b o' d) = splice (take k b) o' d"
proof (cases "d = []")
  case False
  then have "0 < length d" by simp
  then have "o' < length b" using assms(3) by linarith
  then show ?thesis using assms by (cases "k \<le> o' + length d") (simp_all add: splice_def max_def min_def drop_take)
qed (use assms in \<open>simp add: splice_Nil max_def\<close>)

lemma write_r_spec:
  assumes f: "writable_file med p xs cs ys file" and len: "0 < unat len" "unat len \<le> length src"
    and fin: "unat len + unat (f_filesize file) + bpc p < 2 ^ 32"
  obtains ds p' m file' err where "FAT_write_r file p src len = Some ((Some m, err), file', p')"
    and "growing med p xs cs ys ds p'" and "unat m \<le> unat len"
    and "file_bytes med p' ds file' = splice (file_bytes med p cs file) (write_start_at file) (take (unat m) src)"
    and "unat (f_filesize file') = max (unat (f_filesize file)) (write_start_at file + unat m)"
    and "f_modified file'"
    and "f_append file' = f_append file" "f_inUse file' = f_inUse file" "f_write file' = f_write file"
      "f_read file' = f_read file" "f_startCluster file' = f_startCluster file"
    and "f_currentPosition file' = (if f_append file then f_currentPosition file else f_currentPosition file + m)"
    and "write_start_at file + unat m \<le> length ds * bpc p"
    and "pos_at p ds (if f_append file' then f_appendPosition file' else f_rwPosition file') (write_start_at file + unat m)"
    and "err = None \<and> m = len \<and> may_allocate p' \<or>
      err = Some ENOSPC \<and> full med p' \<and> write_start_at file + unat m = length ds * bpc p \<and> unat m < unat len"
proof -
  have ok: "volume_ok med p" and tab: "table_inv med p (xs @ cs # ys)" and use: "f_inUse file" "f_write file"
    and hd: "f_startCluster file = hd cs" and fits: "unat (f_filesize file) \<le> length cs * bpc p"
    and cur: "f_currentPosition file \<le> f_filesize file"
    and pos: "pos_at p cs (if f_append file then f_appendPosition file else f_rwPosition file) (write_start_at file)"
    using f by (simp_all add: writable_file_def)
  define start where "start = write_start_at file"
  have startle: "start \<le> unat (f_filesize file)" using cur by (simp add: start_def write_start_at_def word_le_nat_alt)
  have g: "growing med p xs cs ys cs p"
    using ok tab by (simp add: growing_def table_inv_def same_volume_refl frame_def)
  have st: "stored med p start [] cs p" using startle fits by (simp add: stored_def splice_Nil)
  have ma: "may_allocate p" using tab by (simp add: table_inv_def may_allocate_def)
  define position where "position = (if f_append file then f_appendPosition file else f_rwPosition file)"
  define appending where "appending = (f_append file \<or> len + f_currentPosition file > f_filesize file)"
  define s0 where "s0 = \<lparr>wr_part = p, wr_pos = position, wr_remain = len, wr_src = src, wr_ok = True, wr_errno = None\<rparr>"
  have at: "writing_at med p xs cs ys src start (start + unat len) start cs s0"
    using g st ma pos len by (simp add: writing_at_def s0_def position_def start_def)
  have rem: "wr_remain s0 \<noteq> 0" using len by (auto simp: s0_def)
  have fin': "start + unat len + bpc p < 4294967296" using fin startle by simp
  obtain s n ds where s: "write_body appending s0 = Some s"
    "written med appending p xs cs ys src start (start + unat len) n ds s"
    by (rule write_body_spec [OF at _ rem fin']) (simp add: s0_def)
  note w = s(2) [unfolded written_def Let_def]
  have gs: "growing med p xs cs ys ds (wr_part s)" and posn: "pos_at p ds (wr_pos s) n" and n: "start \<le> n"
    "n + unat (wr_remain s) = start + unat len" "n \<le> length ds * bpc p"
    and bytes: "take (if appending then n else length ds * bpc p) (chain_bytes (pview med (wr_part s)) p ds) =
      take (if appending then n else length ds * bpc p) (splice (chain_bytes (pview med p) p ds) start (take (n - start) src))"
    and fl: "if wr_ok s then n = start + unat len \<and> may_allocate (wr_part s) \<and> wr_errno s = None
      else full med (wr_part s) \<and> wr_errno s = Some ENOSPC \<and> n = length ds * bpc p \<and> n < start + unat len"
    using w by blast+
  define m where "m = len - wr_remain s"
  have um: "unat m = n - start" unfolding m_def using n by (subst unat_sub_le) simp_all
  have clip: "\<not> (len + f_filesize file > FILE_MAX_SIZE \<or> len + f_filesize file < f_filesize file)"
  proof -
    have "unat (len + f_filesize file) = unat len + unat (f_filesize file)" using fin by (intro unat_add_small) simp
    then show ?thesis using fin by (simp add: FILE_MAX_SIZE_def word_less_nat_alt not_less)
  qed
  have nf: "f_startCluster file \<noteq> CLUSTER_FREE"
    using chain_head_used(1) [OF growingD(14) [OF g]] hd by simp
  have run: "FAT_write_r file p src len = Some (write_finish file s len)"
  proof -
    have "write_start file p = Some (True, file, p)" using nf by (simp add: write_start_def)
    moreover have "len \<noteq> 0" using len by auto
    moreover have "\<not> (f_currentPosition file > f_filesize file)" using cur by (simp add: not_less)
    ultimately show ?thesis
      by (simp only: FAT_write_r_def Let_def use clip s(1) s0_def [symmetric] position_def [symmetric]
          appending_def [symmetric] simp_thms if_False if_True Option.bind.simps prod.case)
  qed
  define file' where "file' = fst (snd (write_finish file s len))"
  have out: "write_finish file s len = ((Some m, wr_errno s), file', wr_part s)"
    by (simp add: write_finish_def Let_def m_def file'_def)
  have small: "unat m + start + bpc p < 4294967296" using um n fin startle by simp
  have sz: "unat (f_filesize file') = max (unat (f_filesize file)) (start + unat m)"
  proof (cases "f_append file")
    case True
    then have "start = unat (f_filesize file)" by (simp add: start_def write_start_at_def)
    moreover have "unat (f_filesize file + m) = unat (f_filesize file) + unat m"
      using small calculation by (intro unat_add_small) simp
    ultimately show ?thesis using True by (simp add: file'_def write_finish_def Let_def m_def)
  next
    case False
    then have "start = unat (f_currentPosition file)" by (simp add: start_def write_start_at_def)
    moreover have "unat (f_currentPosition file + m) = unat (f_currentPosition file) + unat m"
      using small calculation by (intro unat_add_small) simp
    ultimately show ?thesis using False
      by (simp add: file'_def write_finish_def Let_def m_def word_less_nat_alt max_def)
  qed
  have bnd: "start + unat m \<le> length ds * bpc p" using n um by simp
  obtain es where es: "ds = cs @ es" using growing_prefix [OF gs] by blast
  have len_ds: "length (chain_bytes (pview med p) p ds) = length ds * bpc p" by (rule length_chain_bytes [OF ok])
  have old: "take (unat (f_filesize file)) (chain_bytes (pview med p) p ds) = file_bytes med p cs file"
    using fits length_chain_bytes [OF ok, of cs] by (simp add: file_bytes_def es chain_bytes_def)
  have sz_ds: "unat (f_filesize file) \<le> length ds * bpc p" using fits es by (simp add: add_mult_distrib)
  have mm: "take (n - start) src = take (unat m) src" by (simp add: um)
  have lm: "length (take (unat m) src) = unat m" using len um n by simp
  have upto: "take (max (unat (f_filesize file)) (start + unat m)) (chain_bytes (pview med (wr_part s)) p ds) =
      take (max (unat (f_filesize file)) (start + unat m)) (splice (chain_bytes (pview med p) p ds) start (take (unat m) src))"
  proof -
    let ?M = "if appending then n else length ds * bpc p"
    have "unat (f_filesize file) \<le> n" if app: "appending"
    proof (cases "wr_ok s")
      case True
      then have "n = start + unat len" using fl by simp
      moreover have "unat (len + f_currentPosition file) = unat len + unat (f_currentPosition file)"
        using fin cur by (intro unat_add_small) (simp add: word_le_nat_alt)
      ultimately show ?thesis
        using app by (cases "f_append file") (simp_all add: appending_def start_def write_start_at_def word_less_nat_alt)
    qed (use fl sz_ds in simp)
    then have "max (unat (f_filesize file)) (start + unat m) \<le> ?M" using sz_ds bnd um n(1) by simp
    then show ?thesis using arg_cong [OF bytes, of "take (max (unat (f_filesize file)) (start + unat m))"]
      by (simp only: take_take min_absorb1 mm)
  qed
  have cb: "chain_bytes v (wr_part s) = chain_bytes v p" for v by (rule same_volumeD(5) [OF growingD(3) [OF gs]])
  have "take (max (unat (f_filesize file)) (start + unat m)) (splice (chain_bytes (pview med p) p ds) start (take (unat m) src)) =
      splice (take (unat (f_filesize file)) (chain_bytes (pview med p) p ds)) start (take (unat m) src)"
    using splice_take [of start "unat (f_filesize file)" "chain_bytes (pview med p) p ds" "take (unat m) src"]
      startle sz_ds bnd lm by (simp add: len_ds)
  then have content: "file_bytes med (wr_part s) ds file' = splice (file_bytes med p cs file) start (take (unat m) src)"
    using upto old by (simp add: file_bytes_def sz cb)
  have fields: "f_modified file'" "f_append file' = f_append file" "f_inUse file' = f_inUse file"
    "f_write file' = f_write file" "f_read file' = f_read file" "f_startCluster file' = f_startCluster file"
    by (simp_all add: file'_def write_finish_def Let_def)
  have upd: "f_currentPosition file' = (if f_append file then f_currentPosition file else f_currentPosition file + m)"
    by (simp add: file'_def write_finish_def Let_def m_def)
  have np: "start + unat m = n" using um n(1) by simp
  have posn': "pos_at p ds (if f_append file' then f_appendPosition file' else f_rwPosition file') (start + unat m)"
    using posn unfolding np by (simp add: file'_def write_finish_def Let_def)
  have outcome: "wr_errno s = None \<and> m = len \<and> may_allocate (wr_part s) \<or>
      wr_errno s = Some ENOSPC \<and> full med (wr_part s) \<and> start + unat m = length ds * bpc p \<and> unat m < unat len"
    using fl np by (cases "wr_ok s") (simp_all add: word_eq_iff_unat_eq)
  have le: "unat m \<le> unat len" using um n by simp
  show thesis
    by (rule that [OF run [unfolded out] gs le content [unfolded start_def] sz [unfolded start_def] fields upd bnd [unfolded start_def]
      posn' [unfolded start_def] outcome [unfolded start_def]])
qed

end
