(* ===== verification/WriteTheorems.thy ===== *)
theory WriteTheorems
  imports FileWrite FileTheorems
begin

text \<open>
  The properties of writing to open files, each applied to a file on the disc in memory.
\<close>

section \<open>The other files\<close>

lemma growing_other:
  assumes g: "growing med p xs cs ys ds p'" and c: "FAT_fat_isValidCluster p c" "c \<notin> set ds"
  shows "cluster_bytes (pview med p') p' c = cluster_bytes (pview med p) p c"
proof -
  note ok = growingD(1) [OF g]
  have same: "pview med p' t = pview med p t" if t: "t \<in> set (chain_sectors p [c])" for t
  proof -
    have v: "\<And>d. d \<in> set [c] \<Longrightarrow> FAT_fat_isValidCluster p d" using c(1) by simp
    have "in_cluster p c t" using chain_sectors_cluster [OF ok v t] by auto
    then have "\<not> in_cluster p d t" if "d \<in> set ds" for d
      using clusters_disjoint [OF volume_okD(2) [OF ok] c(1) growingD(10) [OF g that], of t] that c(2) by blast
    then show ?thesis
      using growingD(5) [OF g] chain_sector_outside [OF ok v t] unfolding frame_def by blast
  qed
  have "chain_bytes (pview med p') p [c] = chain_bytes (pview med p) p [c]" by (rule chain_bytes_cong) (rule same)
  then show ?thesis using same_volumeD(4) [OF growingD(3) [OF g]] by (simp add: chain_bytes_def)
qed

lemma growing_others:
  assumes g: "growing med p xs cs ys ds p'" and zs: "zs \<in> set xs \<union> set ys"
  shows "chain_bytes (pview med p') p' zs = chain_bytes (pview med p) p zs"
proof -
  have "cluster_bytes (pview med p') p' c = cluster_bytes (pview med p) p c" if c: "c \<in> set zs" for c
  proof (rule growing_other [OF g])
    show "FAT_fat_isValidCluster p c" using forest_used(1) [OF growingD(4,7) [OF g], of c] zs c by auto
    show "c \<notin> set ds" using forestD(3) [OF growingD(4) [OF g]] zs c by auto
  qed
  then show ?thesis by (simp add: chain_bytes_def cong: map_cong)
qed

section \<open>Writing\<close>

lemma write_r_writable:
  assumes f: "writable_file med p xs cs ys file" and len: "0 < unat len" "unat len \<le> length src"
    and fin: "unat len + unat (f_filesize file) + bpc p < 2 ^ 32"
  obtains ds p' m file' err where "FAT_write_r file p src len = Some ((Some m, err), file', p')"
    and "growing med p xs cs ys ds p'" and "unat m \<le> unat len"
    and "file_bytes med p' ds file' = splice (file_bytes med p cs file) (write_start_at file) (take (unat m) src)"
    and "f_append file' = f_append file" "f_read file' = f_read file" "f_startCluster file' = f_startCluster file"
    and "\<not> f_append file \<longrightarrow> unat (f_currentPosition file') = unat (f_currentPosition file) + unat m"
    and "unat (f_filesize file') = max (unat (f_filesize file)) (write_start_at file + unat m)"
    and "err = None \<and> m = len \<and> writable_file med p' xs ds ys file' \<or>
      err = Some ENOSPC \<and> full med p' \<and> write_start_at file + unat m = length ds * bpc p \<and> unat m < unat len"
proof (rule write_r_spec [OF assms])
  fix ds p' m file' err
  assume r: "FAT_write_r file p src len = Some ((Some m, err), file', p')"
    and g: "growing med p xs cs ys ds p'" and m: "unat m \<le> unat len"
    and bytes: "file_bytes med p' ds file' = splice (file_bytes med p cs file) (write_start_at file) (take (unat m) src)"
    and sz: "unat (f_filesize file') = max (unat (f_filesize file)) (write_start_at file + unat m)"
    and fields: "f_append file' = f_append file" "f_inUse file' = f_inUse file" "f_write file' = f_write file"
      "f_read file' = f_read file" "f_startCluster file' = f_startCluster file"
    and upd: "f_currentPosition file' = (if f_append file then f_currentPosition file else f_currentPosition file + m)"
    and bnd: "write_start_at file + unat m \<le> length ds * bpc p"
    and pos: "pos_at p ds (if f_append file' then f_appendPosition file' else f_rwPosition file') (write_start_at file + unat m)"
    and out: "err = None \<and> m = len \<and> may_allocate p' \<or>
      err = Some ENOSPC \<and> full med p' \<and> write_start_at file + unat m = length ds * bpc p \<and> unat m < unat len"
  note w = f [unfolded writable_file_def]
  have cur: "unat (f_currentPosition file) \<le> unat (f_filesize file)" using w by (simp add: word_le_nat_alt)
  have cur': "unat (f_currentPosition file') = unat (f_currentPosition file) + unat m" if "\<not> f_append file"
  proof -
    have "unat (f_currentPosition file + m) = unat (f_currentPosition file) + unat m"
      using cur m fin by (intro unat_add_small) simp
    then show ?thesis using upd that by simp
  qed
  have start': "write_start_at file' = write_start_at file + unat m"
    using cur' sz fields(1) by (cases "f_append file") (simp_all add: write_start_at_def)
  have le': "f_currentPosition file' \<le> f_filesize file'"
    using cur cur' upd sz by (cases "f_append file") (simp_all add: word_le_nat_alt write_start_at_def max_def)
  obtain es where es: "ds = cs @ es" using growing_prefix [OF g] by blast
  have cne: "cs \<noteq> []" using forestD(1) [OF table_invD(2)] w by fastforce
  have fit: "unat (f_filesize file') \<le> length ds * bpc p"
  proof -
    have "unat (f_filesize file) \<le> length ds * bpc p" using w es by (simp add: add_mult_distrib)
    then show ?thesis using sz bnd by simp
  qed
  note sv = same_volumeD [OF growingD(3) [OF g]]
  have "writable_file med p' xs ds ys file'" if "may_allocate p'"
    unfolding writable_file_def
    using growingD(2) [OF g] growing_table [OF g that] fields w es cne fit le' pos start' sv(3,7) by simp
  then show thesis using that [OF r g m bytes fields(1,4,5)] cur' sz out by blast
qed

text \<open>With free clusters for all its bytes a write does not stop early.\<close>

definition free_clusters :: "('d \<Rightarrow> sec_t \<Rightarrow> u8 list) \<Rightarrow> 'd partition \<Rightarrow> nat" where
  "free_clusters med p = card {c. FAT_fat_isValidCluster p c \<and> fat_table med p c = CLUSTER_FREE}"

lemma growing_full:
  assumes inv: "table_inv med p (xs @ cs # ys)" and g: "growing med p xs cs ys ds p'" and full: "full med p'"
  shows "length ds = length cs + free_clusters med p"
proof -
  note V = growingD(7) [OF g] and sv = same_volumeD(11) [OF growingD(3) [OF g]]
  have none: "{c. FAT_fat_isValidCluster p c \<and> fat_table med p' c = CLUSTER_FREE} = {}"
    using full sv by (auto simp: full_def)
  show ?thesis
    using forest_length(2) [OF table_invD(2) [OF inv] V] forest_length(2) [OF growingD(4) [OF g] V]
    unfolding none free_clusters_def by simp
qed

lemma write_r_room:
  assumes f: "writable_file med p xs cs ys file" and len: "0 < unat len" "unat len \<le> length src"
    and fin: "unat len + unat (f_filesize file) + bpc p < 2 ^ 32"
    and room: "write_start_at file + unat len \<le> (length cs + free_clusters med p) * bpc p"
  obtains ds p' file' where "FAT_write_r file p src len = Some ((Some len, None), file', p')"
    and "writable_file med p' xs ds ys file'"
    and "file_bytes med p' ds file' = splice (file_bytes med p cs file) (write_start_at file) (take (unat len) src)"
proof (rule write_r_writable [OF f len fin])
  fix ds p' m file' err
  assume r: "FAT_write_r file p src len = Some ((Some m, err), file', p')" and g: "growing med p xs cs ys ds p'"
    and bytes: "file_bytes med p' ds file' = splice (file_bytes med p cs file) (write_start_at file) (take (unat m) src)"
    and out: "err = None \<and> m = len \<and> writable_file med p' xs ds ys file' \<or>
      err = Some ENOSPC \<and> full med p' \<and> write_start_at file + unat m = length ds * bpc p \<and> unat m < unat len"
  have inv: "table_inv med p (xs @ cs # ys)" using f by (simp add: writable_file_def)
  have "\<not> (full med p' \<and> write_start_at file + unat m = length ds * bpc p \<and> unat m < unat len)"
    using growing_full [OF inv g] room by auto
  with out have "err = None" "m = len" "writable_file med p' xs ds ys file'" by auto
  then show thesis using that r bytes by blast
qed

text \<open>C5: functional. A write to an open file puts as many bytes as it says at the current position (at the end of
  the file in append mode), leaves all other bytes of the file as they were, lets the chain grow only
  at its end and with clusters that were free, and changes no byte of any other chain. It stores all
  bytes and leaves the file ready for the next write, or it reports \<open>ENOSPC\<close>, there is no free cluster
  left and the chain is used up to its last byte.
  The request is not empty and, with the size of the file, stays a cluster below 4 GiB.\<close>

theorem write_stores_bytes:
  assumes "writable_file med p xs cs ys file" and "0 < unat len" and "unat len \<le> length src"
    and "unat len + unat (f_filesize file) + bpc p < 2 ^ 32"
  shows "\<exists>ds m err file' p'. FAT_write_r file p src len = Some ((Some m, err), file', p') \<and> unat m \<le> unat len \<and>
    file_bytes med p' ds file' = splice (file_bytes med p cs file) (write_start_at file) (take (unat m) src) \<and>
    (\<exists>es. ds = cs @ es) \<and> forest (fat_table med p') (FAT_fat_isValidCluster p) (xs @ ds # ys) \<and>
    (\<forall>zs \<in> set xs \<union> set ys. chain_bytes (pview med p') p' zs = chain_bytes (pview med p) p zs) \<and>
    (err = None \<and> m = len \<and> writable_file med p' xs ds ys file' \<or>
     err = Some ENOSPC \<and> full med p' \<and> write_start_at file + unat m = length ds * bpc p \<and> unat m < unat len)"
proof (rule write_r_writable [OF assms])
  fix ds p' m file' err
  assume r: "FAT_write_r file p src len = Some ((Some m, err), file', p')" and g: "growing med p xs cs ys ds p'"
    and m: "unat m \<le> unat len"
    and bytes: "file_bytes med p' ds file' = splice (file_bytes med p cs file) (write_start_at file) (take (unat m) src)"
    and out: "err = None \<and> m = len \<and> writable_file med p' xs ds ys file' \<or>
      err = Some ENOSPC \<and> full med p' \<and> write_start_at file + unat m = length ds * bpc p \<and> unat m < unat len"
  have "\<forall>zs \<in> set xs \<union> set ys. chain_bytes (pview med p') p' zs = chain_bytes (pview med p) p zs"
    using growing_others [OF g] by blast
  with r m bytes growing_prefix [OF g] growingD(4) [OF g] out show ?thesis by blast
qed

lemma ram_writable:
  assumes "pos_at (ram_part 6 5 2) [2, 3, 4] pos (unat cur)" and "unat sz \<le> 24" and "cur \<le> sz"
  shows "writable_file med8 (ram_part 6 5 2) [] [2, 3, 4] [] (ram_file sz cur pos)"
  using assms ram_volume [of 6] alloc_invD(6) [OF ram_alloc_inv]
  by (simp add: writable_file_def ram_file_def ram_geometry write_start_at_def)

lemma ram_end_writable:
  "writable_file med8 (ram_part 6 5 2) [] [2, 3, 4] [] (ram_file 23 22 \<lparr>fp_cluster = 4, fp_sector = 0, fp_byte = 6\<rparr>)"
proof (rule ram_writable)
  show "pos_at (ram_part 6 5 2) [2, 3, 4] \<lparr>fp_cluster = 4, fp_sector = 0, fp_byte = 6\<rparr> (unat (22 :: u32))"
    by (auto simp: pos_at_def ram_geometry intro!: exI [of _ 2])
qed simp_all

text \<open>Four bytes from offset 22 on, in a file of 23.\<close>

theorem write_stores_bytes_witness:
  "\<exists>ds m err file' p'. FAT_write_r (ram_file 23 22 \<lparr>fp_cluster = 4, fp_sector = 0, fp_byte = 6\<rparr>) (ram_part 6 5 2)
      [1, 2, 3, 4] 4 = Some ((Some m, err), file', p') \<and> unat m \<le> 4 \<and>
    file_bytes med8 p' ds file' = [10, 11, 12, 13, 14, 15, 16, 17, 20, 21, 22, 23, 24, 25, 26, 27, 30, 31, 32, 33, 34, 35] @
      take (unat m) [1, 2, 3, 4] @ drop (unat m) [36]"
proof -
  let ?pos = "\<lparr>fp_cluster = 4, fp_sector = 0, fp_byte = 6\<rparr>"
  have f: "writable_file med8 (ram_part 6 5 2) [] [2, 3, 4] [] (ram_file 23 22 ?pos)" by (rule ram_end_writable)
  have b: "file_bytes med8 (ram_part 6 5 2) [2, 3, 4] (ram_file 23 22 ?pos) =
      [10, 11, 12, 13, 14, 15, 16, 17, 20, 21, 22, 23, 24, 25, 26, 27, 30, 31, 32, 33, 34, 35, 36]"
    by (simp add: file_bytes_def ram_chain_bytes) (simp add: ram_file_def)
  have st: "write_start_at (ram_file 23 22 ?pos) = 22" by (simp add: write_start_at_def ram_file_def)
  obtain ds m err file' p' where w: "FAT_write_r (ram_file 23 22 ?pos) (ram_part 6 5 2) [1, 2, 3, 4] 4 =
      Some ((Some m, err), file', p')" "unat m \<le> unat (4 :: u32)"
    "file_bytes med8 p' ds file' = splice (file_bytes med8 (ram_part 6 5 2) [2, 3, 4] (ram_file 23 22 ?pos))
      (write_start_at (ram_file 23 22 ?pos)) (take (unat m) [1, 2, 3, 4])"
    using write_stores_bytes [OF f, of 4 "[1, 2, 3, 4]"] by (auto simp: ram_geometry ram_file_def)
  let ?old = "[10, 11, 12, 13, 14, 15, 16, 17, 20, 21, 22, 23, 24, 25, 26, 27, 30, 31, 32, 33, 34, 35, 36] :: u8 list"
  have "splice ?old 22 d = take 22 ?old @ d @ drop (length d) (drop 22 ?old)" for d
    by (simp only: splice_def drop_drop add.commute)
  moreover have "take 22 ?old = [10, 11, 12, 13, 14, 15, 16, 17, 20, 21, 22, 23, 24, 25, 26, 27, 30, 31, 32, 33, 34, 35]"
    "drop 22 ?old = [36]"
    by simp_all
  moreover have "length (take (unat m) [1, 2, 3, 4 :: u8]) = unat m" using w(2) by simp
  ultimately have "file_bytes med8 p' ds file' =
      [10, 11, 12, 13, 14, 15, 16, 17, 20, 21, 22, 23, 24, 25, 26, 27, 30, 31, 32, 33, 34, 35] @
      take (unat m) [1, 2, 3, 4] @ drop (unat m) [36]"
    using w(3) by (simp only: b st)
  then show ?thesis using w(1,2) by (intro exI conjI) simp_all
qed

text \<open>C22: roundtrip. What was written at the position of a file that is open for reading and writing is read back
  after a seek to that position.
  The write stored all its bytes, was not in append mode, and with the size of the file stays two clusters below 4 GiB.\<close>

theorem written_bytes_are_read_back:
  assumes "writable_file med p xs cs ys file" and "\<not> f_append file" and "f_read file"
    and "0 < unat len" and "unat len \<le> length src" and "unat len + unat (f_filesize file) + 2 * bpc p < 2 ^ 32"
    and "FAT_write_r file p src len = Some ((Some len, None), file1, p1)"
    and "seek_target file1 off dir = Some (Inr (f_currentPosition file))"
  shows "\<exists>file2 p2 file3 p3. FAT_seek_r file1 p1 off dir = Some (Inr (f_currentPosition file), file2, p2) \<and>
    FAT_read_r file2 p2 len = Some ((Some len, map Some (take (unat len) src), None), file3, p3)"
proof -
  have fin: "unat len + unat (f_filesize file) + bpc p < 2 ^ 32" using assms(6) by simp
  show ?thesis
  proof (rule write_r_writable [OF assms(1,4,5) fin])
    fix ds p' m file' err
    assume r: "FAT_write_r file p src len = Some ((Some m, err), file', p')" and g: "growing med p xs cs ys ds p'"
      and bytes: "file_bytes med p' ds file' = splice (file_bytes med p cs file) (write_start_at file) (take (unat m) src)"
      and fields: "f_append file' = f_append file" "f_read file' = f_read file"
      and sz: "unat (f_filesize file') = max (unat (f_filesize file)) (write_start_at file + unat m)"
      and out: "err = None \<and> m = len \<and> writable_file med p' xs ds ys file' \<or>
        err = Some ENOSPC \<and> full med p' \<and> write_start_at file + unat m = length ds * bpc p \<and> unat m < unat len"
    have e: "m = len" "err = None" "file' = file1" "p' = p1" using r assms(7) by simp_all
    have w: "writable_file med p1 xs ds ys file1" using out e by simp
    note wd = w [unfolded writable_file_def] and wd0 = assms(1) [unfolded writable_file_def]
    let ?cur = "f_currentPosition file"
    have start: "write_start_at file = unat ?cur" using assms(2) by (simp add: write_start_at_def)
    have le: "unat ?cur \<le> unat (f_filesize file)" using wd0 by (simp add: word_le_nat_alt)
    have sz1: "unat (f_filesize file1) = max (unat (f_filesize file)) (unat ?cur + unat len)" using sz e start by simp
    have bpc: "bpc p1 = bpc p" using same_volumeD(3) [OF growingD(3) [OF g]] e by simp
    have fc: "file_chain med p1 ds" using growingD(14) [OF g] e by simp
    have rf: "readable_file med p1 ds file1"
      using wd fc fields e assms(2,3,6) sz1 le bpc by (auto simp: readable_file_def write_start_at_def max_def)
    have lt: "?cur < f_filesize file1" using sz1 assms(4) by (simp add: word_less_nat_alt)
    have nowrap: "unat len + unat ?cur < 2 ^ 32" using fin le by simp
    obtain file2 p2 file3 p3 n where s: "FAT_seek_r file1 p1 off dir = Some (Inr ?cur, file2, p2)"
      "n = min (unat len) (unat (f_filesize file1) - unat ?cur)"
      "FAT_read_r file2 p2 len = Some ((Some (of_nat n), map Some (slice (chain_bytes (pview med p1) p1 ds) (unat ?cur) n),
        if unat len + unat ?cur > unat (f_filesize file1) then Some EOVERFLOW else None), file3, p3)"
      using seek_read_r [OF rf assms(8) lt assms(4) nowrap] by blast
    have n: "n = unat len" using s(2) sz1 by simp
    have old: "length (file_bytes med p cs file) = unat (f_filesize file)"
      using wd0 length_chain_bytes [of med p cs] by (simp add: file_bytes_def)
    have tk: "length (take (unat len) src) = unat len" using assms(5) by simp
    have "slice (chain_bytes (pview med p1) p1 ds) (unat ?cur) (unat len) = slice (file_bytes med p1 ds file1) (unat ?cur) (unat len)"
      using sz1 by (simp add: file_bytes_def slice_def drop_take)
    also have "\<dots> = slice (splice (file_bytes med p cs file) (unat ?cur) (take (unat len) src)) (unat ?cur) (length (take (unat len) src))"
      using bytes e start tk by simp
    also have "\<dots> = take (unat len) src" using le old assms(5) by (simp add: slice_def splice_def min_absorb2)
    finally have "slice (chain_bytes (pview med p1) p1 ds) (unat ?cur) (unat len) = take (unat len) src" .
    then show ?thesis using s(1,3) n sz1 by (intro exI conjI) simp_all
  qed
qed

theorem written_bytes_are_read_back_witness:
  "\<exists>file1 p1 file2 p2 file3 p3. FAT_write_r (ram_file 23 22 \<lparr>fp_cluster = 4, fp_sector = 0, fp_byte = 6\<rparr>) (ram_part 6 5 2)
      [1, 2, 3, 4] 4 = Some ((Some 4, None), file1, p1) \<and>
    FAT_seek_r file1 p1 22 SEEK_SET = Some (Inr 22, file2, p2) \<and>
    FAT_read_r file2 p2 4 = Some ((Some 4, map Some [1, 2, 3, 4], None), file3, p3)"
proof -
  let ?f = "ram_file 23 22 \<lparr>fp_cluster = 4, fp_sector = 0, fp_byte = 6\<rparr>"
  have w: "writable_file med8 (ram_part 6 5 2) [] [2, 3, 4] [] ?f" by (rule ram_end_writable)
  have room: "write_start_at ?f + unat (4 :: u32) \<le> (length [2, 3, 4 :: u32] + free_clusters med8 (ram_part 6 5 2)) * bpc (ram_part 6 5 2)"
    using free_count [OF ram_alloc_inv]
    by (simp add: free_clusters_def ram_geometry write_start_at_def) (simp add: ram_part_on_def ram_file_def)
  obtain file1 p1 where r: "FAT_write_r ?f (ram_part 6 5 2) [1, 2, 3, 4] 4 = Some ((Some 4, None), file1, p1)"
    by (rule write_r_room [OF w _ _ _ room, of "[1, 2, 3, 4]"]) (auto simp: ram_geometry ram_file_def)
  have "seek_target file1 22 SEEK_SET = Some (Inr (f_currentPosition ?f))" by (simp add: seek_target_def ram_file_def)
  from written_bytes_are_read_back [OF w _ _ _ _ _ r this] r show ?thesis
    by (simp add: ram_geometry) (simp add: ram_file_def)
qed

text \<open>C23: liveness. A write for whose bytes the chain and the free clusters have room stores all of them, and takes
  the clusters it needs from the free ones.
  The request is not empty and, with the size of the file, stays a cluster below 4 GiB.\<close>

theorem write_succeeds_with_room:
  assumes "writable_file med p xs cs ys file" and "0 < unat len" and "unat len \<le> length src"
    and "unat len + unat (f_filesize file) + bpc p < 2 ^ 32"
    and "write_start_at file + unat len \<le> (length cs + free_clusters med p) * bpc p"
  shows "\<exists>ds file' p'. FAT_write_r file p src len = Some ((Some len, None), file', p') \<and>
    writable_file med p' xs ds ys file' \<and> length ds + free_clusters med p' = length cs + free_clusters med p"
proof (rule write_r_room [OF assms])
  fix ds p' file'
  assume r: "FAT_write_r file p src len = Some ((Some len, None), file', p')" and w: "writable_file med p' xs ds ys file'"
  obtain ds' where g: "growing med p xs cs ys ds' p'"
    by (rule write_r_writable [OF assms(1-4)]) (use r in auto)
  have V: "proper (FAT_fat_isValidCluster p)" "FAT_fat_isValidCluster p' = FAT_fat_isValidCluster p"
    using growingD(7) [OF g] same_volumeD(11) [OF growingD(3) [OF g]] .
  have f: "forest (fat_table med p) (FAT_fat_isValidCluster p) (xs @ cs # ys)"
    "forest (fat_table med p') (FAT_fat_isValidCluster p) (xs @ ds # ys)"
    using assms(1) w V(2) by (simp_all add: writable_file_def table_inv_def)
  have "length ds + free_clusters med p' = length cs + free_clusters med p"
    using forest_length(2) [OF f(1) V(1)] forest_length(2) [OF f(2) V(1)]
    unfolding free_clusters_def V(2) by simp
  with r w show ?thesis by blast
qed

theorem write_succeeds_with_room_witness:
  "\<exists>file' p'. FAT_write_r (ram_file 23 22 \<lparr>fp_cluster = 4, fp_sector = 0, fp_byte = 6\<rparr>) (ram_part 6 5 2)
    (replicate 10 7) 10 = Some ((Some 10, None), file', p')"
proof -
  let ?f = "ram_file 23 22 \<lparr>fp_cluster = 4, fp_sector = 0, fp_byte = 6\<rparr>"
  have w: "writable_file med8 (ram_part 6 5 2) [] [2, 3, 4] [] ?f" by (rule ram_end_writable)
  have room: "write_start_at ?f + unat (10 :: u32) \<le> (length [2, 3, 4 :: u32] + free_clusters med8 (ram_part 6 5 2)) * bpc (ram_part 6 5 2)"
    using free_count [OF ram_alloc_inv]
    by (simp add: free_clusters_def ram_geometry write_start_at_def) (simp add: ram_part_on_def ram_file_def)
  from write_succeeds_with_room [OF w _ _ _ room, of "replicate 10 7"] show ?thesis
    by (auto simp: ram_geometry ram_file_def)
qed

section \<open>The first write to an empty file\<close>





end
