(* ===== verification/DirWalk.thy ===== *)
theory DirWalk
  imports DirectoryOps FileData
begin

text \<open>
  A directory as the list of its 32 byte slots. The root directory of FAT12 and FAT16 is a run of
  sectors in front of the data region, every other directory a chain of clusters; stepping through
  the positions of \<open>_FAT_directory_incrementDirEntryPosition\<close> goes through the list from one slot
  to the next, and the scan of \<open>_FAT_directory_getNextEntry\<close> is a function of the slots behind the
  position.
\<close>

section \<open>The slots of a directory\<close>

datatype dir_area = Root | Chain "u32 list"

definition sps :: "'d partition \<Rightarrow> nat" where
  "sps p = bps p div 32"

definition area_sectors :: "'d partition \<Rightarrow> dir_area \<Rightarrow> nat" where
  "area_sectors p area = (case area of Root \<Rightarrow> unat (p_dataStart p) - unat (p_rootDirStart p)
     | Chain cs \<Rightarrow> length cs * spc p)"

definition slot_count :: "'d partition \<Rightarrow> dir_area \<Rightarrow> nat" where
  "slot_count p area = area_sectors p area * sps p"

definition sector_pos :: "'d partition \<Rightarrow> dir_area \<Rightarrow> nat \<Rightarrow> u32 \<times> sec_t" where
  "sector_pos p area u = (case area of Root \<Rightarrow> (FAT16_ROOT_DIR_CLUSTER, of_nat u)
     | Chain cs \<Rightarrow> (cs ! (u div spc p), of_nat (u mod spc p)))"

definition slot_at :: "'d partition \<Rightarrow> dir_area \<Rightarrow> nat \<Rightarrow> dir_pos" where
  "slot_at p area i = \<lparr>dp_cluster = fst (sector_pos p area (i div sps p)),
     dp_sector = snd (sector_pos p area (i div sps p)), dp_offset = of_nat (i mod sps p)\<rparr>"

definition area_start :: "dir_area \<Rightarrow> u32" where
  "area_start area = (case area of Root \<Rightarrow> FAT16_ROOT_DIR_CLUSTER | Chain cs \<Rightarrow> hd cs)"

definition pos_sector :: "'d partition \<Rightarrow> dir_pos \<Rightarrow> sec_t" where
  "pos_sector p pos = FAT_fat_clusterToSector p (dp_cluster pos) + dp_sector pos"

definition slot_bytes :: "(sec_t \<Rightarrow> u8 list) \<Rightarrow> 'd partition \<Rightarrow> dir_pos \<Rightarrow> u8 list" where
  "slot_bytes v p pos = slice (v (pos_sector p pos)) (unat (dp_offset pos) * 32) 32"

definition area_ok :: "('d \<Rightarrow> sec_t \<Rightarrow> u8 list) \<Rightarrow> 'd partition \<Rightarrow> dir_area \<Rightarrow> bool" where
  "area_ok med p area \<longleftrightarrow> volume_ok med p \<and> 32 \<le> bps p \<and>
     (case area of
       Root \<Rightarrow> p_rootDirCluster p = FAT16_ROOT_DIR_CLUSTER \<and> unat (p_rootDirStart p) < unat (p_dataStart p) \<and>
         unat (fat_fatStart (p_fat p)) + unat (fat_sectorsPerFat (p_fat p)) \<le> unat (p_rootDirStart p)
     | Chain cs \<Rightarrow> file_chain med p cs)"

lemma area_okD:
  assumes "area_ok med p area"
  shows "volume_ok med p" "part_ok med p" "data_ok p" "0 < sps p" "sps p * 32 \<le> bps p" "0 < spc p"
proof -
  show "volume_ok med p" "0 < sps p" using assms by (simp_all add: area_ok_def sps_def div_greater_zero_iff)
  then show "part_ok med p" "data_ok p" "0 < spc p" using volume_okD by blast+
  show "sps p * 32 \<le> bps p" by (simp add: sps_def)
qed

lemma area_same:
  assumes "same_part p p'"
  shows "sps p' = sps p" "slot_count p' = slot_count p" "slot_at p' = slot_at p" "pos_sector p' = pos_sector p"
    "slot_bytes v p' = slot_bytes v p"
proof -
  note sp = same_partD [OF assms] and vs = volume_same [OF assms]
  show s: "sps p' = sps p" by (simp add: sps_def sp)
  show "slot_count p' = slot_count p" by (simp add: fun_eq_iff slot_count_def area_sectors_def s sp split: dir_area.split)
  show "slot_at p' = slot_at p" by (simp add: fun_eq_iff slot_at_def sector_pos_def s sp split: dir_area.split)
  show q: "pos_sector p' = pos_sector p" by (simp add: fun_eq_iff pos_sector_def vs)
  show "slot_bytes v p' = slot_bytes v p" by (simp add: fun_eq_iff slot_bytes_def q)
qed

lemma area_kept:
  assumes "pkept med p p'" and "area_ok med p area"
  shows "area_ok med p' area"
  using assms volume_kept [OF assms(1)] file_chain_kept [OF assms(1)] same_partD [OF pkeptD(2) [OF assms(1)]]
  by (cases area) (simp_all add: area_ok_def)

lemma area_pos:
  assumes "area_ok med p area"
  shows "0 < area_sectors p area" "0 < slot_count p area"
proof -
  note a = area_okD [OF assms]
  show s: "0 < area_sectors p area"
    using assms a(6) file_chainD(6) [of med p] by (cases area) (auto simp: area_ok_def area_sectors_def)
  then show "0 < slot_count p area" using a(4) by (simp add: slot_count_def)
qed

text \<open>The sector of a slot lies in the partition and outside the table.\<close>

lemma sps_lt: "sps p < 2 ^ 32"
proof -
  have "sps p \<le> bps p" by (simp add: sps_def)
  then show ?thesis using unat_lt_2p32 [of "p_bytesPerSector p"] by simp
qed

lemma unat_slot_offset:
  assumes "0 < sps p"
  shows "unat (dp_offset (slot_at p area i)) = i mod sps p"
proof -
  have "i mod sps p < 2 ^ 32" using sps_lt [of p] mod_less_divisor [OF assms, of i] by linarith
  then show ?thesis by (simp add: slot_at_def unsigned_of_nat take_bit_nat_eq_self_iff)
qed

lemma slot_unit:
  assumes "i < slot_count p area" and "0 < sps p"
  shows "i div sps p < area_sectors p area"
  using assms by (simp add: slot_count_def less_mult_imp_div_less)

lemma area_sector:
  assumes ok: "area_ok med p area" and u: "u < area_sectors p area"
  defines "t \<equiv> FAT_fat_clusterToSector p (fst (sector_pos p area u)) + snd (sector_pos p area u)"
  shows "t < c_endOfPartition (p_cache p)"
    and "\<not> in_range (fat_fatStart (p_fat p)) (fat_sectorsPerFat (p_fat p)) t"
    and "case area of Root \<Rightarrow> unat t = unat (p_rootDirStart p) + u
      | Chain cs \<Rightarrow> FAT_fat_isValidCluster p (cs ! (u div spc p)) \<and>
          unat t = unat (FAT_fat_clusterToSector p (cs ! (u div spc p))) + u mod spc p"
proof -
  note a = area_okD [OF ok]
  have "t < c_endOfPartition (p_cache p) \<and> \<not> in_range (fat_fatStart (p_fat p)) (fat_sectorsPerFat (p_fat p)) t \<and>
    (case area of Root \<Rightarrow> unat t = unat (p_rootDirStart p) + u
      | Chain cs \<Rightarrow> FAT_fat_isValidCluster p (cs ! (u div spc p)) \<and>
          unat t = unat (FAT_fat_clusterToSector p (cs ! (u div spc p))) + u mod spc p)"
  proof (cases area)
    case Root
    then have t: "t = p_rootDirStart p + of_nat u"
      by (simp add: t_def sector_pos_def FAT_fat_clusterToSector_def FAT16_ROOT_DIR_CLUSTER_def CLUSTER_FIRST_def)
    have lt: "unat (p_rootDirStart p) + u < unat (p_dataStart p)"
      using u Root by (simp add: area_sectors_def)
    then have ut: "unat t = unat (p_rootDirStart p) + u"
      unfolding t using unat_lt_2p32 [of "p_dataStart p"] by (intro unat_offset) simp
    have "unat (p_dataStart p) \<le> unat (c_endOfPartition (p_cache p))"
      using a(3) by (simp add: data_ok_def)
    then show ?thesis using ok lt ut Root by (simp add: word_less_nat_alt in_range_def area_ok_def)
  next
    case (Chain cs)
    then have fc: "file_chain med p cs" using ok by (simp add: area_ok_def)
    have k: "u div spc p < length cs" using u Chain by (simp add: area_sectors_def less_mult_imp_div_less)
    have r: "u mod spc p < spc p" using a(6) by simp
    note v = file_chainD(7) [OF fc k]
    note c = cluster_sector [OF a(1) v, of "u mod spc p"]
    have t: "t = FAT_fat_clusterToSector p (cs ! (u div spc p)) + of_nat (u mod spc p)"
      by (simp add: t_def sector_pos_def Chain)
    have "unat t = unat (FAT_fat_clusterToSector p (cs ! (u div spc p))) + u mod spc p"
      unfolding t using c(1) r by simp
    moreover from this have "in_cluster p (cs ! (u div spc p)) t" using r by (simp add: in_cluster_def in_range_def)
    ultimately show ?thesis
      using cluster_not_in_table [OF a(3) v] c(2) r v Chain by (simp add: word_less_nat_alt)
  qed
  then show "t < c_endOfPartition (p_cache p)" "\<not> in_range (fat_fatStart (p_fat p)) (fat_sectorsPerFat (p_fat p)) t"
    "case area of Root \<Rightarrow> unat t = unat (p_rootDirStart p) + u
      | Chain cs \<Rightarrow> FAT_fat_isValidCluster p (cs ! (u div spc p)) \<and>
          unat t = unat (FAT_fat_clusterToSector p (cs ! (u div spc p))) + u mod spc p"
    by blast+
qed


section \<open>Reading and stepping\<close>

lemma slot_sector:
  assumes "area_ok med p area" and "i < slot_count p area"
  shows "pos_sector p (slot_at p area i) < c_endOfPartition (p_cache p)"
    and "\<not> in_range (fat_fatStart (p_fat p)) (fat_sectorsPerFat (p_fat p)) (pos_sector p (slot_at p area i))"
    and "case area of Root \<Rightarrow> unat (pos_sector p (slot_at p area i)) = unat (p_rootDirStart p) + i div sps p
      | Chain cs \<Rightarrow> FAT_fat_isValidCluster p (cs ! (i div sps p div spc p)) \<and>
          unat (pos_sector p (slot_at p area i)) =
          unat (FAT_fat_clusterToSector p (cs ! (i div sps p div spc p))) + i div sps p mod spc p"
  using area_sector [OF assms(1) slot_unit [OF assms(2) area_okD(4) [OF assms(1)]]]
  unfolding pos_sector_def slot_at_def dir_pos.simps by blast+

lemma unat_slot_place:
  assumes "area_ok med p area"
  shows "unat (dp_offset (slot_at p area i) * DIR_ENTRY_DATA_SIZE) = i mod sps p * 32"
    and "i mod sps p * 32 + 32 \<le> bps p"
proof -
  note a = area_okD [OF assms]
  have "i mod sps p + 1 \<le> sps p" using mod_less_divisor [OF a(4), of i] by simp
  then have "(i mod sps p + 1) * 32 \<le> bps p" using a(5) by (meson le_trans mult_le_mono1)
  then show le: "i mod sps p * 32 + 32 \<le> bps p" by simp
  then have "i mod sps p * 32 < 2 ^ 32" using unat_lt_2p32 [of "p_bytesPerSector p"] by simp
  then show "unat (dp_offset (slot_at p area i) * DIR_ENTRY_DATA_SIZE) = i mod sps p * 32"
    by (subst unat_mult_small) (simp_all add: unat_slot_offset [OF a(4)] DIR_ENTRY_DATA_SIZE_def)
qed

lemma slot_bytes_at:
  "area_ok med p area \<Longrightarrow> slot_bytes v p (slot_at p area i) =
    slice (v (pos_sector p (slot_at p area i))) (i mod sps p * 32) 32"
  by (simp add: slot_bytes_def unat_slot_offset [OF area_okD(4)])

lemma readEntry_slot:
  assumes ok: "area_ok med p area" and i: "i < slot_count p area"
  obtains p' where "readEntry p (slot_at p area i) old = Some ((True, Some (slot_bytes (pview med p) p (slot_at p area i))), p')"
    and "pkept med p p'"
proof -
  note a = area_okD [OF ok] and pl = unat_slot_place [OF ok, of i]
  let ?pos = "slot_at p area i"
  have bps: "unat (c_bytesPerSector (p_cache p)) = bps p"
    using fat_wfD(2) [OF part_okD(2) [OF a(2)]] by simp
  have n: "unat DIR_ENTRY_DATA_SIZE = 32" by (simp add: DIR_ENTRY_DATA_SIZE_def)
  obtain c' where c': "FAT_cache_readPartialSector (p_cache p) (pos_sector p ?pos) (dp_offset ?pos * DIR_ENTRY_DATA_SIZE)
      DIR_ENTRY_DATA_SIZE = Some (Some (slice (cview med (p_cache p) (pos_sector p ?pos)) (i mod sps p * 32) 32), c')"
    "store_inv med c'" "cview med c' = cview med (p_cache p)" "c_endOfPartition c' = c_endOfPartition (p_cache p)"
    "unat (c_bytesPerSector c') = unat (c_bytesPerSector (p_cache p))"
    by (rule store.get_cases [OF part_okD(1) [OF a(2)] slot_sector(1) [OF ok i],
          of "dp_offset ?pos * DIR_ENTRY_DATA_SIZE" DIR_ENTRY_DATA_SIZE])
      (use pl bps n in auto)
  have "pkept med p (p\<lparr>p_cache := c'\<rparr>)"
    using cache_step [OF a(2) c'(2,4,5)] c'(3) by (simp add: pkept_def pview_def)
  then show thesis
    using c'(1) by (intro that [of "p\<lparr>p_cache := c'\<rparr>"])
      (simp_all add: readEntry_def on_cache_def pview_def slot_bytes_at [OF ok] pos_sector_def)
qed

text \<open>From one slot to the next, and past the last one.\<close>

lemma word_of_nat_Suc: "of_nat n + 1 = (of_nat (Suc n) :: u32)"
  by simp

lemma of_nat_eq_small:
  assumes "m < 2 ^ 32" and "n < 2 ^ 32"
  shows "(of_nat m :: u32) = of_nat n \<longleftrightarrow> m = n"
  using assms by (simp add: word_eq_iff_unat_eq unsigned_of_nat take_bit_nat_eq_self)

lemma div_mod_Suc:
  fixes i :: nat
  assumes "0 < n"
  shows "Suc (i mod n) \<noteq> n \<Longrightarrow> Suc i div n = i div n \<and> Suc i mod n = Suc (i mod n)"
    and "Suc (i mod n) = n \<Longrightarrow> Suc i div n = Suc (i div n) \<and> Suc i mod n = 0"
  by (simp_all add: div_Suc mod_Suc)

lemma sps_word: "p_bytesPerSector p div DIR_ENTRY_DATA_SIZE = of_nat (sps p)"
proof (rule word_eqI_unat)
  have "unat (of_nat (sps p) :: u32) = sps p"
    by (rule unat_of_small [OF sps_lt])
  then show "unat (p_bytesPerSector p div DIR_ENTRY_DATA_SIZE) = unat (of_nat (sps p) :: u32)"
    by (simp only: unat_div_word) (simp add: DIR_ENTRY_DATA_SIZE_def sps_def)
qed

lemma step_in_sector:
  assumes "0 < sps p" and "Suc (i mod sps p) \<noteq> sps p"
  shows "FAT_directory_incrementDirEntryPosition malloc p (slot_at p area i) ext = Some ((True, slot_at p area (Suc i)), p)"
proof -
  have "Suc (i mod sps p) < 2 ^ 32" using assms mod_less_divisor [OF assms(1), of i] sps_lt [of p] by linarith
  then have "(of_nat (Suc (i mod sps p)) :: u32) \<noteq> of_nat (sps p)"
    using assms(2) of_nat_eq_small [OF _ sps_lt [of p]] by blast
  then have "dp_offset (slot_at p area i) + 1 \<noteq> of_nat (sps p)"
    unfolding slot_at_def by (simp add: add.commute)
  then show ?thesis
    using div_mod_Suc(1) [OF assms]
    by (simp add: FAT_directory_incrementDirEntryPosition_def sps_word Let_def) (simp add: slot_at_def add.commute)
qed

lemma area_sectors_bound:
  assumes "area_ok med p Root"
  shows "of_nat (area_sectors p Root) = p_dataStart p - p_rootDirStart p" and "area_sectors p Root < 2 ^ 32"
proof -
  have lt: "unat (p_rootDirStart p) \<le> unat (p_dataStart p)" using assms by (simp add: area_ok_def)
  show small: "area_sectors p Root < 2 ^ 32" using unat_lt_2p32 [of "p_dataStart p"] by (simp add: area_sectors_def)
  have "unat (of_nat (area_sectors p Root) :: u32) = area_sectors p Root"
    by (rule unat_of_small [OF small])
  then show "of_nat (area_sectors p Root) = p_dataStart p - p_rootDirStart p"
    using lt by (intro word_eqI_unat) (simp add: unat_sub_le area_sectors_def)
qed

text \<open>What a step does at the end of a sector.\<close>

lemma step_out_of_sector:
  assumes "0 < sps p" and "Suc (i mod sps p) = sps p"
  shows "FAT_directory_incrementDirEntryPosition malloc p (slot_at p area i) ext =
    (let pos = \<lparr>dp_cluster = fst (sector_pos p area (i div sps p)),
       dp_sector = snd (sector_pos p area (i div sps p)) + 1, dp_offset = 0\<rparr>
     in if dp_sector pos = p_sectorsPerCluster p \<and> dp_cluster pos \<noteq> FAT16_ROOT_DIR_CLUSTER
        then do {
          let pos = pos\<lparr>dp_sector := 0\<rparr>;
          (tempCluster, q) \<leftarrow> FAT_fat_nextCluster p (dp_cluster pos);
          if tempCluster = CLUSTER_EOF
          then (if ext
                then do {
                  (tempCluster, q) \<leftarrow> FAT_fat_linkFreeClusterCleared malloc q (dp_cluster pos);
                  if \<not> FAT_fat_isValidCluster q tempCluster then Some ((False, slot_at p area i), q)
                  else Some ((True, pos\<lparr>dp_cluster := tempCluster\<rparr>), q)
                } else Some ((False, slot_at p area i), q))
          else Some ((True, pos\<lparr>dp_cluster := tempCluster\<rparr>), q)
        }
        else if dp_cluster pos = FAT16_ROOT_DIR_CLUSTER \<and> dp_sector pos = p_dataStart p - p_rootDirStart p
        then Some ((False, slot_at p area i), p)
        else Some ((True, pos), p))"
proof -
  have "of_nat (i mod sps p) + 1 = (of_nat (sps p) :: u32)"
    using assms(2) by (metis of_nat_Suc add.commute)
  then show ?thesis
    unfolding FAT_directory_incrementDirEntryPosition_def sps_word Let_def by (simp add: slot_at_def cong: if_cong)
qed

lemma chain_not_root:
  assumes "area_ok med p (Chain cs)" and "k < length cs"
  shows "cs ! k \<noteq> FAT16_ROOT_DIR_CLUSTER" and "FAT_fat_isValidCluster p (cs ! k)"
proof -
  show v: "FAT_fat_isValidCluster p (cs ! k)"
    using assms file_chainD(7) [of med p cs k] by (simp add: area_ok_def)
  show "cs ! k \<noteq> FAT16_ROOT_DIR_CLUSTER"
    using v by (auto simp: FAT_fat_isValidCluster_def FAT16_ROOT_DIR_CLUSTER_def CLUSTER_FIRST_def)
qed

lemma step_next:
  assumes ok: "area_ok med p area" and i: "Suc i < slot_count p area"
  obtains p' where "FAT_directory_incrementDirEntryPosition malloc p (slot_at p area i) ext =
      Some ((True, slot_at p area (Suc i)), p')"
    and "pkept med p p'"
proof -
  note a = area_okD [OF ok]
  note keep = pkept_refl [OF a(2)]
  show thesis
  proof (cases "Suc (i mod sps p) = sps p")
    case False
    then show ?thesis using step_in_sector [OF a(4)] keep that by blast
  next
    case True
    note dm = div_mod_Suc(2) [OF a(4) True]
    let ?u = "i div sps p"
    have u: "Suc ?u < area_sectors p area" using slot_unit [OF i a(4)] dm by simp
    show ?thesis
    proof (cases area)
      case Root
      have "Suc ?u < area_sectors p Root" using u Root by simp
      moreover have ok': "area_ok med p Root" using ok Root by simp
      ultimately have "of_nat (Suc ?u) \<noteq> p_dataStart p - p_rootDirStart p"
        using of_nat_eq_small [of "Suc ?u" "area_sectors p Root"] area_sectors_bound [OF ok'] by auto
      then have "FAT_directory_incrementDirEntryPosition malloc p (slot_at p area i) ext = Some ((True, slot_at p area (Suc i)), p)"
        unfolding step_out_of_sector [OF a(4) True]
        using dm by (simp add: sector_pos_def Root slot_at_def add.commute)
      then show ?thesis using keep that by blast
    next
      case (Chain cs)
      have ok': "area_ok med p (Chain cs)" using ok Chain by simp
      then have fc: "file_chain med p cs" by (simp add: area_ok_def)
      let ?k = "?u div spc p" and ?s = "?u mod spc p"
      have k: "?k < length cs" using u Chain by (simp add: area_sectors_def less_mult_imp_div_less)
      note nr = chain_not_root [OF ok' k]
      have eq: "(of_nat (Suc ?s) :: u32) = p_sectorsPerCluster p \<longleftrightarrow> Suc ?s = spc p"
      proof -
        have "Suc ?s < 2 ^ 32"
          using mod_less_divisor [OF a(6), of ?u] unat_lt_2p32 [of "p_sectorsPerCluster p"] by simp
        then have "unat (of_nat (Suc ?s) :: u32) = Suc ?s" by (rule unat_of_small)
        then show ?thesis by (simp only: word_eq_iff_unat_eq)
      qed
      show ?thesis
      proof (cases "Suc ?s = spc p")
        case False
        then have "FAT_directory_incrementDirEntryPosition malloc p (slot_at p area i) ext = Some ((True, slot_at p area (Suc i)), p)"
          unfolding step_out_of_sector [OF a(4) True]
          using dm nr eq div_mod_Suc(1) [OF a(6) False] by (simp add: sector_pos_def Chain slot_at_def add.commute)
        then show ?thesis using keep that by blast
      next
        case True': True
        note dk = div_mod_Suc(2) [OF a(6) True']
        have k': "Suc ?k < length cs" using u dk Chain by (simp add: area_sectors_def) (metis less_mult_imp_div_less)
        obtain p' where p': "FAT_fat_nextCluster p (cs ! ?k) = Some (fat_table med p (cs ! ?k), p')" "pkept med p p'"
          by (rule next_kept [OF a(2) nr(2)])
        have t: "fat_table med p (cs ! ?k) = cs ! Suc ?k" using file_chain_next [OF fc k] k' by simp
        have one: "of_nat ?s + 1 = p_sectorsPerCluster p" using iffD2 [OF eq True'] by (simp only: of_nat_Suc add.commute)
        have "cs ! Suc ?k \<noteq> CLUSTER_EOF" using valid_not_mark(2) [OF fc file_chainD(7) [OF fc k']] .
        then have "FAT_directory_incrementDirEntryPosition malloc p (slot_at p area i) ext = Some ((True, slot_at p area (Suc i)), p')"
          unfolding step_out_of_sector [OF a(4) True]
          using dm dk nr one p'(1) t by (simp add: sector_pos_def Chain slot_at_def)
        then show ?thesis using p'(2) that by blast
      qed
    qed
  qed
qed

lemma slot_last:
  assumes "area_ok med p area" and "Suc i = slot_count p area"
  shows "Suc (i mod sps p) = sps p" and "Suc (i div sps p) = area_sectors p area"
proof -
  note a = area_okD [OF assms(1)]
  have "Suc i mod sps p = 0" using assms(2) by (simp add: slot_count_def)
  then show s: "Suc (i mod sps p) = sps p" by (simp add: mod_Suc split: if_splits)
  have "Suc i div sps p = area_sectors p area" using assms(2) a(4) by (simp add: slot_count_def)
  then show "Suc (i div sps p) = area_sectors p area" using div_mod_Suc(2) [OF a(4) s] by simp
qed

lemma chain_last_unit:
  assumes "area_ok med p (Chain cs)" and "Suc u = area_sectors p (Chain cs)"
  shows "Suc (u mod spc p) = spc p" and "Suc (u div spc p) = length cs" and "cs ! (u div spc p) = last cs"
    and "of_nat (u mod spc p) + 1 = p_sectorsPerCluster p"
proof -
  have pos: "0 < spc p" by (rule area_okD(6) [OF assms(1)])
  have "Suc u mod spc p = 0" using assms(2) by (simp add: area_sectors_def)
  then show s: "Suc (u mod spc p) = spc p" by (simp add: mod_Suc split: if_splits)
  have "Suc u div spc p = length cs" using assms(2) pos by (simp add: area_sectors_def)
  then show l: "Suc (u div spc p) = length cs" using div_mod_Suc(2) [OF pos s] by simp
  then show "cs ! (u div spc p) = last cs" by (cases cs rule: rev_cases) auto
  have "unat (of_nat (Suc (u mod spc p)) :: u32) = spc p"
    unfolding s by simp
  then have "of_nat (Suc (u mod spc p)) = p_sectorsPerCluster p" by (simp only: word_eq_iff_unat_eq)
  then show "of_nat (u mod spc p) + 1 = p_sectorsPerCluster p" by (simp add: add.commute)
qed

lemma step_end:
  assumes ok: "area_ok med p area" and i: "Suc i = slot_count p area" and ext: "ext \<Longrightarrow> area = Root"
  obtains p' where "FAT_directory_incrementDirEntryPosition malloc p (slot_at p area i) ext =
      Some ((False, slot_at p area i), p')"
    and "pkept med p p'"
proof -
  note a = area_okD [OF ok] and sl = slot_last [OF ok i]
  let ?u = "i div sps p"
  show thesis
  proof (cases area)
    case Root
    have ok': "area_ok med p Root" using ok Root by simp
    have "of_nat ?u + 1 = p_dataStart p - p_rootDirStart p"
      using sl(2) area_sectors_bound(1) [OF ok'] Root by (metis of_nat_Suc add.commute)
    then have "FAT_directory_incrementDirEntryPosition malloc p (slot_at p area i) ext = Some ((False, slot_at p area i), p)"
      unfolding step_out_of_sector [OF a(4) sl(1)] by (simp add: sector_pos_def Root)
    then show ?thesis using that pkept_refl [OF a(2)] by blast
  next
    case (Chain cs)
    have ok': "area_ok med p (Chain cs)" using ok Chain by simp
    then have fc: "file_chain med p cs" by (simp add: area_ok_def)
    note cl = chain_last_unit [OF ok' sl(2) [unfolded Chain]]
    have k: "?u div spc p < length cs" using cl(2) by simp
    note nr = chain_not_root [OF ok' k]
    obtain p' where p': "FAT_fat_nextCluster p (cs ! (?u div spc p)) = Some (fat_table med p (cs ! (?u div spc p)), p')" "pkept med p p'"
      by (rule next_kept [OF a(2) nr(2)])
    have t: "fat_table med p (cs ! (?u div spc p)) = CLUSTER_EOF"
      using file_chain_next [OF fc k] cl(2) by simp
    have noext: "\<not> ext" using ext Chain by auto
    have "FAT_directory_incrementDirEntryPosition malloc p (slot_at p area i) ext = Some ((False, slot_at p area i), p')"
      unfolding step_out_of_sector [OF a(4) sl(1)]
      using nr cl(4) p'(1) t noext by (simp add: sector_pos_def Chain)
    then show ?thesis using p'(2) that by blast
  qed
qed

lemma step_first:
  assumes "area_ok med p area"
  shows "FAT_directory_incrementDirEntryPosition malloc p \<lparr>dp_cluster = area_start area, dp_sector = 0, dp_offset = -1\<rparr> ext =
    Some ((True, slot_at p area 0), p)"
proof -
  have "(0 :: u32) \<noteq> of_nat (sps p)"
    using area_okD(4) [OF assms] of_nat_eq_small [of 0 "sps p"] sps_lt [of p] by auto
  moreover have "area_start area = fst (sector_pos p area 0)" "snd (sector_pos p area 0) = 0"
    using assms file_chainD(6) [of med p] by (cases area; auto simp: area_start_def sector_pos_def hd_conv_nth area_ok_def)+
  ultimately show ?thesis
    by (simp add: FAT_directory_incrementDirEntryPosition_def sps_word Let_def slot_at_def)
qed

end
