(* ===== verification/DirScan.thy ===== *)
theory DirScan
  imports DirWalk
begin

text \<open>
  The entries of a directory as a function of its slots. \<open>scan_slots\<close> is one search for the next
  entry, \<open>entries_of\<close> the list of all entries; \<open>getNextEntry_spec\<close> shows that the calls of
  \<open>_FAT_directory_getNextEntry\<close> return them one after the other.
\<close>

section \<open>Scanning a list of slots\<close>

type_synonym slot = "dir_pos \<times> u8 list"

definition dir_content :: "(sec_t \<Rightarrow> u8 list) \<Rightarrow> 'd partition \<Rightarrow> dir_area \<Rightarrow> slot list" where
  "dir_content v p area = map (\<lambda>i. (slot_at p area i, slot_bytes v p (slot_at p area i))) [0..<slot_count p area]"

definition scan_start :: dir_scan where
  "scan_start = (let pos = \<lparr>dp_cluster = 0, dp_sector = 0, dp_offset = 0\<rparr>
     in \<lparr>ds_start = pos, ds_end = pos, ds_data = None, ds_lfn = replicate MAX_LFN_LENGTH None,
         ds_lfnChkSum = 0, ds_lfnExists = False\<rparr>)"

text \<open>The next entry with the slots behind it; \<open>Some None\<close> when there is none.\<close>

fun scan_slots :: "'mb char_env \<Rightarrow> slot list \<Rightarrow> dir_scan \<Rightarrow> (dir_entry \<times> slot list) option option" where
  "scan_slots env [] s = Some None"
| "scan_slots env ((pos, data) # rest) s =
     (let s = s\<lparr>ds_end := pos, ds_data := Some data\<rparr>
      in if data ! DIR_ENTRY_attributes = ATTRIB_LFN then do {
           s \<leftarrow> scan_lfn data s;
           scan_slots env rest s
         }
         else if data ! DIR_ENTRY_attributes AND ATTRIB_VOL \<noteq> 0 then scan_slots env rest s
         else if data ! 0 = DIR_ENTRY_LAST then Some None
         else if data ! 0 \<noteq> DIR_ENTRY_FREE \<and> data ! 0 > 0x20 then do {
           r \<leftarrow> scan_name env data s;
           Some (map_option (\<lambda>(name, start). (\<lparr>de_entryData = data, de_dataStart = start,
             de_dataEnd = pos, de_filename = name\<rparr>, rest)) r)
         }
         else scan_slots env rest s)"

text \<open>The state of a scan matters only through the long name it collects.\<close>

definition same_scan :: "dir_scan \<Rightarrow> dir_scan \<Rightarrow> bool" where
  "same_scan s t \<longleftrightarrow> ds_lfn s = ds_lfn t \<and> ds_lfnChkSum s = ds_lfnChkSum t \<and> ds_lfnExists s = ds_lfnExists t \<and>
     (ds_lfnExists s \<longrightarrow> ds_start s = ds_start t)"

lemma scan_lfn_same:
  assumes "same_scan s t" and "ds_end s = ds_end t"
  shows "rel_option same_scan (scan_lfn data s) (scan_lfn data t)"
  using assms by (auto simp: scan_lfn_def Let_def same_scan_def split: option.split Option.bind_split)

lemma scan_slots_same: "same_scan s t \<Longrightarrow> scan_slots env slots s = scan_slots env slots t"
proof (induction env slots s arbitrary: t rule: scan_slots.induct)
  case (2 env pos data rest s)
  let ?s = "s\<lparr>ds_end := pos, ds_data := Some data\<rparr>" and ?t = "t\<lparr>ds_end := pos, ds_data := Some data\<rparr>"
  have st: "same_scan ?s ?t" using 2(4) by (simp add: same_scan_def)
  show ?case
  proof (cases "data ! DIR_ENTRY_attributes = ATTRIB_LFN")
    case True
    have "rel_option same_scan (scan_lfn data ?s) (scan_lfn data ?t)" by (rule scan_lfn_same [OF st]) simp
    then show ?thesis
      using True 2(1) [OF refl True] by (cases "scan_lfn data ?s"; cases "scan_lfn data ?t") (auto simp: Let_def)
  next
    case False
    have "scan_name env data ?s = scan_name env data ?t" using st by (auto simp: scan_name_def same_scan_def Let_def)
    then show ?thesis using False 2(2) [OF refl False] 2(3) [OF refl False] st by (auto simp: Let_def)
  qed
qed simp

lemma scan_rest:
  "scan_slots env slots s = Some (Some (e, rest)) \<Longrightarrow> length rest < length slots"
proof (induction env slots s rule: scan_slots.induct)
  case (2 env pos data rest' s)
  show ?case using 2(4) 2(1-3) [OF refl]
    by (auto simp: Let_def bind_eq_Some_conv split: if_splits)
qed simp

function entries_of :: "'mb char_env \<Rightarrow> slot list \<Rightarrow> dir_entry list option" where
  "entries_of env slots =
    (case scan_slots env slots scan_start of
       None \<Rightarrow> None
     | Some None \<Rightarrow> Some []
     | Some (Some (e, rest)) \<Rightarrow> map_option ((#) e) (entries_of env rest))"
  by auto
termination
  by (relation "measure (length \<circ> snd)") (auto dest: scan_rest)

declare entries_of.simps [simp del]

section \<open>The code follows the scan\<close>

lemma length_dir_content [simp]: "length (dir_content v p area) = slot_count p area"
  by (simp add: dir_content_def)

lemma nth_dir_content:
  "i < slot_count p area \<Longrightarrow> dir_content v p area ! i = (slot_at p area i, slot_bytes v p (slot_at p area i))"
  by (simp add: dir_content_def)

lemma drop_dir_content:
  assumes "i < slot_count p area"
  shows "drop i (dir_content v p area) = (slot_at p area i, slot_bytes v p (slot_at p area i)) # drop (Suc i) (dir_content v p area)"
  using Cons_nth_drop_Suc [of i "dir_content v p area"] assms by (simp add: nth_dir_content)

lemma dir_content_same: "same_part p p' \<Longrightarrow> dir_content v p' = dir_content v p"
  by (simp add: fun_eq_iff dir_content_def area_same)

lemma dir_content_kept: "pkept med p p' \<Longrightarrow> dir_content (pview med p') p' = dir_content (pview med p) p"
  by (simp add: pkeptD(3) dir_content_same [OF pkeptD(2)])

text \<open>What a search returns for the outcome of a scan; a failed one leaves the entry alone.\<close>

definition scan_result :: "dir_entry \<Rightarrow> (dir_entry \<times> slot list) option \<Rightarrow> bool \<times> dir_entry" where
  "scan_result entry r = (case r of None \<Rightarrow> (False, entry) | Some (e, rest) \<Rightarrow> (True, e))"

lemma getNextEntry_read:
  assumes "area_ok med p area" and "i < slot_count p area"
    and step: "FAT_directory_incrementDirEntryPosition no_malloc p0 (ds_end s) False = Some ((True, slot_at p area i), p)"
  obtains p' where "pkept med p p'"
    and "getNextEntry_loop env p0 entry s =
      (let s = s\<lparr>ds_end := slot_at p area i, ds_data := Some (slot_bytes (pview med p) p (slot_at p area i))\<rparr>;
           entryData = slot_bytes (pview med p) p (slot_at p area i)
       in if entryData ! DIR_ENTRY_attributes = ATTRIB_LFN then do {
            s \<leftarrow> scan_lfn entryData s;
            getNextEntry_loop env p' entry s
          }
          else if entryData ! DIR_ENTRY_attributes AND ATTRIB_VOL \<noteq> 0 then getNextEntry_loop env p' entry s
          else if entryData ! 0 = DIR_ENTRY_LAST then Some ((False, entry), p')
          else if entryData ! 0 \<noteq> DIR_ENTRY_FREE \<and> entryData ! 0 > 0x20 then do {
            r \<leftarrow> scan_name env entryData s;
            (case r of None \<Rightarrow> Some ((False, entry), p')
             | Some (name, start) \<Rightarrow> Some ((True, \<lparr>de_entryData = entryData, de_dataStart = start,
                 de_dataEnd = slot_at p area i, de_filename = name\<rparr>), p'))
          }
          else getNextEntry_loop env p' entry s)"
proof -
  obtain p' where p': "readEntry p (slot_at p area i) (ds_data s) =
      Some ((True, Some (slot_bytes (pview med p) p (slot_at p area i))), p')" "pkept med p p'"
    by (rule readEntry_slot [OF assms(1,2)])
  show thesis
    by (rule that [OF p'(2)], subst getNextEntry_loop.simps) (simp add: step p'(1) Let_def cong: if_cong)
qed

lemma getNextEntry_end:
  "FAT_directory_incrementDirEntryPosition no_malloc p (ds_end s) False = Some ((False, pos), p') \<Longrightarrow>
    getNextEntry_loop env p entry s = Some ((False, entry), p')"
  by (subst getNextEntry_loop.simps) simp

lemma getNextEntry_loop_spec:
  assumes "area_ok med p area" and "i < slot_count p area"
    and "FAT_directory_incrementDirEntryPosition no_malloc p0 (ds_end s) False = Some ((True, slot_at p area i), p)"
    and "scan_slots env (drop i (dir_content (pview med p) p area)) s = Some r"
  shows "\<exists>p'. getNextEntry_loop env p0 entry s = Some (scan_result entry r, p') \<and> pkept med p p'"
  using assms
proof (induction "slot_count p area - i" arbitrary: i s p p0)
  case (Suc n)
  note ok = Suc.prems(1) and i = Suc.prems(2)
  let ?d = "slot_bytes (pview med p) p (slot_at p area i)"
  obtain p1 where p1: "pkept med p p1" and loop: "getNextEntry_loop env p0 entry s =
      (let s = s\<lparr>ds_end := slot_at p area i, ds_data := Some ?d\<rparr>;
           entryData = ?d
       in if entryData ! DIR_ENTRY_attributes = ATTRIB_LFN then do {
            s \<leftarrow> scan_lfn entryData s;
            getNextEntry_loop env p1 entry s
          }
          else if entryData ! DIR_ENTRY_attributes AND ATTRIB_VOL \<noteq> 0 then getNextEntry_loop env p1 entry s
          else if entryData ! 0 = DIR_ENTRY_LAST then Some ((False, entry), p1)
          else if entryData ! 0 \<noteq> DIR_ENTRY_FREE \<and> entryData ! 0 > 0x20 then do {
            r \<leftarrow> scan_name env entryData s;
            (case r of None \<Rightarrow> Some ((False, entry), p1)
             | Some (name, start) \<Rightarrow> Some ((True, \<lparr>de_entryData = entryData, de_dataStart = start,
                 de_dataEnd = slot_at p area i, de_filename = name\<rparr>), p1))
          }
          else getNextEntry_loop env p1 entry s)"
    by (rule getNextEntry_read [OF ok i Suc.prems(3), of env entry])
  have ok1: "area_ok med p1 area" by (rule area_kept [OF p1 ok])
  note same = area_same [OF pkeptD(2) [OF p1]]
  have following: "\<exists>p'. getNextEntry_loop env p1 entry t = Some (scan_result entry r, p') \<and> pkept med p p'"
    if t: "ds_end t = slot_at p area i" and sc: "scan_slots env (drop (Suc i) (dir_content (pview med p) p area)) t = Some r"
    for t
  proof (cases "Suc i < slot_count p area")
    case True
    then have i1: "Suc i < slot_count p1 area" by (simp add: same)
    obtain p2 where p2: "FAT_directory_incrementDirEntryPosition no_malloc p1 (slot_at p1 area i) False =
        Some ((True, slot_at p1 area (Suc i)), p2)" "pkept med p1 p2"
      by (rule step_next [OF ok1 i1])
    note same2 = area_same [OF pkeptD(2) [OF p2(2)]] and p02 = pkept_trans [OF p1 p2(2)]
    have "\<exists>p'. getNextEntry_loop env p1 entry t = Some (scan_result entry r, p') \<and> pkept med p2 p'"
    proof (rule Suc.hyps(1))
      show "n = slot_count p2 area - Suc i" using Suc.hyps(2) by (simp add: same same2)
      show "area_ok med p2 area" by (rule area_kept [OF p2(2) ok1])
      show "Suc i < slot_count p2 area" using i1 by (simp add: same2)
      show "FAT_directory_incrementDirEntryPosition no_malloc p1 (ds_end t) False = Some ((True, slot_at p2 area (Suc i)), p2)"
        using p2(1) t by (simp add: same same2)
      show "scan_slots env (drop (Suc i) (dir_content (pview med p2) p2 area)) t = Some r"
        using sc by (simp only: dir_content_kept [OF p02])
    qed
    then show ?thesis using pkept_trans [OF p02] by blast
  next
    case False
    then have "Suc i = slot_count p1 area" using i by (simp add: same)
    then obtain p2 where p2: "FAT_directory_incrementDirEntryPosition no_malloc p1 (slot_at p1 area i) False =
        Some ((False, slot_at p1 area i), p2)" "pkept med p1 p2"
      by (rule step_end [OF ok1, where ext = False]) simp
    have "r = None" using sc False by simp
    moreover have "getNextEntry_loop env p1 entry t = Some ((False, entry), p2)"
      using p2(1) t by (intro getNextEntry_end) (simp add: same)
    ultimately show ?thesis using pkept_trans [OF p1 p2(2)] by (auto simp: scan_result_def)
  qed
  have sc: "scan_slots env ((slot_at p area i, ?d) # drop (Suc i) (dir_content (pview med p) p area)) s = Some r"
    using Suc.prems(4) by (simp only: drop_dir_content [OF i])
  let ?s = "s\<lparr>ds_end := slot_at p area i, ds_data := Some ?d\<rparr>"
  show ?case
  proof (cases "?d ! DIR_ENTRY_attributes = ATTRIB_LFN")
    case True
    then obtain t where t: "scan_lfn ?d ?s = Some t"
      "scan_slots env (drop (Suc i) (dir_content (pview med p) p area)) t = Some r"
      using sc by (auto simp: Let_def bind_eq_Some_conv)
    have "ds_end t = slot_at p area i"
      using t(1) by (auto simp: scan_lfn_def Let_def bind_eq_Some_conv split: if_splits)
    then show ?thesis using following [OF _ t(2)] t(1) True unfolding loop by (simp add: Let_def)
  next
    case lfn: False
    show ?thesis
    proof (cases "?d ! DIR_ENTRY_attributes AND ATTRIB_VOL \<noteq> 0")
      case True
      then show ?thesis using following [of ?s] sc lfn unfolding loop by (simp add: Let_def)
    next
      case vol: False
      consider "?d ! 0 = DIR_ENTRY_LAST" | "?d ! 0 \<noteq> DIR_ENTRY_LAST" "?d ! 0 \<noteq> DIR_ENTRY_FREE \<and> ?d ! 0 > 0x20"
        | "?d ! 0 \<noteq> DIR_ENTRY_LAST" "\<not> (?d ! 0 \<noteq> DIR_ENTRY_FREE \<and> ?d ! 0 > 0x20)" by blast
      then show ?thesis
      proof cases
        case 1
        then show ?thesis using sc lfn vol p1 unfolding loop by (auto simp: Let_def scan_result_def)
      next
        case 2
        then show ?thesis using sc lfn vol p1 unfolding loop
          by (auto simp: Let_def scan_result_def bind_eq_Some_conv split: option.splits prod.splits)
      next
        case 3
        then show ?thesis using following [of ?s] sc lfn vol unfolding loop
          by (auto simp: Let_def split: if_splits)
      qed
    qed
  qed
qed simp

section \<open>The entries one after the other\<close>

lemma scan_slots_at:
  assumes "scan_slots env slots s = Some (Some (e, rest))"
  obtains j where "j < length slots" and "rest = drop (Suc j) slots" and "de_dataEnd e = fst (slots ! j)"
    and "de_entryData e = snd (slots ! j)"
proof -
  have "\<exists>j < length slots. rest = drop (Suc j) slots \<and> de_dataEnd e = fst (slots ! j) \<and> de_entryData e = snd (slots ! j)"
    using assms
  proof (induction env slots s rule: scan_slots.induct)
    case (2 env pos data rest' s)
    have shift: "\<exists>j < length ((pos, data) # rest'). rest = drop (Suc j) ((pos, data) # rest') \<and>
        de_dataEnd e = fst (((pos, data) # rest') ! j) \<and> de_entryData e = snd (((pos, data) # rest') ! j)"
      if "\<exists>j < length rest'. rest = drop (Suc j) rest' \<and> de_dataEnd e = fst (rest' ! j) \<and> de_entryData e = snd (rest' ! j)"
      using that by (metis Suc_less_eq drop_Suc_Cons length_Cons nth_Cons_Suc)
    show ?case using 2(4) 2(1-3) [OF refl] shift
      by (auto simp: Let_def bind_eq_Some_conv split: if_splits)
  qed simp
  then show thesis using that by blast
qed

lemma entries_of_Cons:
  assumes "entries_of env slots = Some (e # es)"
  obtains j where "j < length slots" and "scan_slots env slots scan_start = Some (Some (e, drop (Suc j) slots))"
    and "entries_of env (drop (Suc j) slots) = Some es"
    and "de_dataEnd e = fst (slots ! j)" and "de_entryData e = snd (slots ! j)"
proof -
  obtain rest where r: "scan_slots env slots scan_start = Some (Some (e, rest))" "entries_of env rest = Some es"
    using assms by (subst (asm) entries_of.simps) (auto split: option.splits)
  from scan_slots_at [OF r(1)] show thesis using r that by metis
qed

lemma entries_of_Nil: "entries_of env slots = Some [] \<longleftrightarrow> scan_slots env slots scan_start = Some None"
  by (subst entries_of.simps) (auto split: option.splits)

lemma entries_of_at:
  assumes "entries_of env slots = Some es" and "k < length es"
  shows "\<exists>j < length slots. de_dataEnd (es ! k) = fst (slots ! j) \<and> de_entryData (es ! k) = snd (slots ! j) \<and>
    entries_of env (drop (Suc j) slots) = Some (drop (Suc k) es)"
  using assms
proof (induction k arbitrary: slots es)
  case 0
  then obtain e es' where es: "es = e # es'" by (cases es) auto
  obtain j where "j < length slots" "entries_of env (drop (Suc j) slots) = Some es'"
    "de_dataEnd e = fst (slots ! j)" "de_entryData e = snd (slots ! j)"
    by (rule entries_of_Cons [OF 0(1) [unfolded es]])
  then show ?case using es by auto
next
  case (Suc k)
  then obtain e es' where es: "es = e # es'" by (cases es) auto
  obtain i where i: "i < length slots" "entries_of env (drop (Suc i) slots) = Some es'"
    by (rule entries_of_Cons [OF Suc.prems(1) [unfolded es]])
  from Suc.IH [OF i(2)] Suc.prems(2) es obtain j where j: "j < length (drop (Suc i) slots)"
    "de_dataEnd (es' ! k) = fst (drop (Suc i) slots ! j)" "de_entryData (es' ! k) = snd (drop (Suc i) slots ! j)"
    "entries_of env (drop (Suc j) (drop (Suc i) slots)) = Some (drop (Suc k) es')"
    by auto
  have "Suc i + j < length slots" using j(1) i(1) by simp
  then show ?case using j i(1) es by (intro exI [of _ "Suc i + j"]) (simp add: add.commute)
qed

definition dir_entries :: "'mb char_env \<Rightarrow> ('d \<Rightarrow> sec_t \<Rightarrow> u8 list) \<Rightarrow> 'd partition \<Rightarrow> dir_area \<Rightarrow> dir_entry list option" where
  "dir_entries env med p area = entries_of env (dir_content (pview med p) p area)"

lemma dir_entries_kept: "pkept med p p' \<Longrightarrow> dir_entries env med p' area = dir_entries env med p area"
  by (simp add: dir_entries_def dir_content_kept)

lemma search_result:
  assumes "entries_of env slots = Some es" and "\<not> ds_lfnExists s" and "ds_lfn s = replicate MAX_LFN_LENGTH None"
    and "ds_lfnChkSum s = 0"
  obtains r where "scan_slots env slots s = Some r" and "scan_result entry r = (es \<noteq> [], if es = [] then entry else hd es)"
proof -
  have eq: "scan_slots env slots s = scan_slots env slots scan_start"
    using assms(2-4) by (intro scan_slots_same) (simp add: same_scan_def scan_start_def Let_def)
  show thesis
  proof (cases es)
    case Nil
    then show ?thesis using that [of None] assms(1) eq by (simp add: entries_of_Nil scan_result_def)
  next
    case (Cons e es')
    obtain j where "scan_slots env slots scan_start = Some (Some (e, drop (Suc j) slots))"
      by (rule entries_of_Cons [OF assms(1) [unfolded Cons]])
    then show ?thesis using that [of "Some (e, drop (Suc j) slots)"] Cons eq by (simp add: scan_result_def)
  qed
qed

lemma getFirstEntry_spec:
  assumes ok: "area_ok med p area" and es: "dir_entries env med p area = Some es"
  obtains p' entry' where "FAT_directory_getFirstEntry env p entry (area_start area) =
      Some ((es \<noteq> [], if es = [] then entry' else hd es), p')"
    and "pkept med p p'"
proof -
  let ?pos = "\<lparr>dp_cluster = area_start area, dp_sector = 0, dp_offset = -1\<rparr>"
  let ?entry = "entry\<lparr>de_dataStart := ?pos, de_dataEnd := ?pos\<rparr>"
  let ?s = "\<lparr>ds_start = ?pos, ds_end = ?pos, ds_data = None, ds_lfn = replicate MAX_LFN_LENGTH None,
    ds_lfnChkSum = 0, ds_lfnExists = False\<rparr>"
  have root: "(if area_start area = FAT16_ROOT_DIR_CLUSTER then p_rootDirCluster p else area_start area) = area_start area"
    using ok chain_not_root(1) [of med p _ 0] file_chainD(6) [of med p]
    by (cases area) (auto simp: area_ok_def area_start_def hd_conv_nth)
  then have eq: "FAT_directory_getFirstEntry env p entry (area_start area) = getNextEntry_loop env p ?entry ?s"
    by (auto simp: FAT_directory_getFirstEntry_def FAT_directory_getNextEntry_def Let_def)
  obtain r where r: "scan_slots env (dir_content (pview med p) p area) ?s = Some r"
    "scan_result ?entry r = (es \<noteq> [], if es = [] then ?entry else hd es)"
    by (rule search_result [OF es [unfolded dir_entries_def], of ?s ?entry]) auto
  have "FAT_directory_incrementDirEntryPosition no_malloc p (ds_end ?s) False = Some ((True, slot_at p area 0), p)"
    using step_first [OF ok] by simp
  from getNextEntry_loop_spec [OF ok area_pos(2) [OF ok] this, of env r ?entry] r obtain p'
    where "getNextEntry_loop env p ?entry ?s = Some ((es \<noteq> [], if es = [] then ?entry else hd es), p')" "pkept med p p'"
    by auto
  then show thesis using that [of ?entry p'] by (simp add: eq)
qed

lemma getNextEntry_spec:
  assumes ok: "area_ok med p area" and es: "dir_entries env med p area = Some es" and k: "k < length es"
  obtains p' entry' where "FAT_directory_getNextEntry env p (es ! k) =
      Some ((Suc k < length es, if Suc k < length es then es ! Suc k else entry'), p')"
    and "pkept med p p'"
proof -
  note a = area_okD [OF ok]
  obtain j where j: "j < slot_count p area" "de_dataEnd (es ! k) = slot_at p area j"
    "entries_of env (drop (Suc j) (dir_content (pview med p) p area)) = Some (drop (Suc k) es)"
    using entries_of_at [OF es [unfolded dir_entries_def] k] nth_dir_content [of _ p area "pview med p"] by auto
  let ?pos = "slot_at p area j"
  let ?s = "\<lparr>ds_start = ?pos, ds_end = ?pos, ds_data = None, ds_lfn = replicate MAX_LFN_LENGTH None,
    ds_lfnChkSum = 0, ds_lfnExists = False\<rparr>"
  have root: "(if dp_cluster ?pos = FAT16_ROOT_DIR_CLUSTER then ?pos\<lparr>dp_cluster := p_rootDirCluster p\<rparr> else ?pos) = ?pos"
  proof (cases area)
    case Root
    then show ?thesis using ok by (simp add: area_ok_def slot_at_def sector_pos_def)
  next
    case (Chain cs)
    have "j div sps p div spc p < length cs"
      using slot_unit [OF j(1) a(4)] by (simp add: Chain area_sectors_def less_mult_imp_div_less)
    then show ?thesis using chain_not_root(1) [of med p cs] ok by (simp add: Chain slot_at_def sector_pos_def)
  qed
  have eq: "FAT_directory_getNextEntry env p (es ! k) = getNextEntry_loop env p (es ! k) ?s"
    using root by (simp add: FAT_directory_getNextEntry_def Let_def j(2) del: if_split_asm) 
  obtain r where r: "scan_slots env (drop (Suc j) (dir_content (pview med p) p area)) ?s = Some r"
    "scan_result (es ! k) r = (drop (Suc k) es \<noteq> [], if drop (Suc k) es = [] then es ! k else hd (drop (Suc k) es))"
    by (rule search_result [OF j(3), of ?s "es ! k"]) auto
  have res: "scan_result (es ! k) r = (Suc k < length es, if Suc k < length es then es ! Suc k else es ! k)"
    unfolding r(2) by (auto simp: hd_drop_conv_nth not_le)
  show thesis
  proof (cases "Suc j < slot_count p area")
    case True
    obtain p1 where p1: "FAT_directory_incrementDirEntryPosition no_malloc p (slot_at p area j) False =
        Some ((True, slot_at p area (Suc j)), p1)" "pkept med p p1"
      by (rule step_next [OF ok True])
    note same = area_same [OF pkeptD(2) [OF p1(2)]]
    have st: "FAT_directory_incrementDirEntryPosition no_malloc p (ds_end ?s) False = Some ((True, slot_at p1 area (Suc j)), p1)"
      using p1(1) by (simp add: same)
    have i: "Suc j < slot_count p1 area" using True by (simp add: same)
    have sc: "scan_slots env (drop (Suc j) (dir_content (pview med p1) p1 area)) ?s = Some r"
      using r(1) by (simp only: dir_content_kept [OF p1(2)])
    from getNextEntry_loop_spec [OF area_kept [OF p1(2) ok] i st sc, of "es ! k"] res
    show ?thesis using that eq pkept_trans [OF p1(2)] by metis
  next
    case False
    then have l: "Suc j = slot_count p area" using j(1) by simp
    obtain p1 where p1: "FAT_directory_incrementDirEntryPosition no_malloc p (slot_at p area j) False =
        Some ((False, slot_at p area j), p1)" "pkept med p p1"
      by (rule step_end [OF ok l, where ext = False]) simp
    have "r = None" using r(1) l by simp
    moreover have "getNextEntry_loop env p (es ! k) ?s = Some ((False, es ! k), p1)"
      by (rule getNextEntry_end [where pos = "slot_at p area j"]) (simp add: p1(1))
    ultimately show ?thesis using that [of "es ! k" p1] eq p1(2) res by (simp add: scan_result_def split: if_splits)
  qed
qed

section \<open>Lookups\<close>

text \<open>The first entry of the directory the test accepts.\<close>

definition search_outcome :: "(dir_entry \<Rightarrow> bool) \<Rightarrow> dir_entry list \<Rightarrow> bool \<times> dir_entry \<Rightarrow> bool" where
  "search_outcome P es r \<longleftrightarrow> (case find P es of None \<Rightarrow> \<not> fst r | Some e \<Rightarrow> r = (True, e))"

lemma findInDirectory_from:
  assumes "area_ok med p area" and "dir_entries env med p area = Some es" and "k < length es"
    and "\<And>e. e \<in> set es \<Longrightarrow> entry_matches env name n e = Some (M e)"
  shows "\<exists>r p'. findInDirectory env p name n final True (es ! k) = Some (r, p') \<and> pkept med p p' \<and>
    search_outcome (\<lambda>e. M e \<and> (final \<or> FAT_directory_isDirectory e)) (drop k es) r"
  using assms
proof (induction "length es - k" arbitrary: k p)
  case (Suc m)
  note ok = Suc.prems(1) and es = Suc.prems(2) and k = Suc.prems(3)
  have drop: "drop k es = es ! k # drop (Suc k) es" using k by (simp add: Cons_nth_drop_Suc)
  have m: "entry_matches env name n (es ! k) = Some (M (es ! k))" using Suc.prems(4) k by simp
  show ?case
  proof (cases "M (es ! k) \<and> (final \<or> FAT_directory_isDirectory (es ! k))")
    case True
    then show ?thesis using pkept_refl [OF area_okD(2) [OF ok]] m
      by (subst findInDirectory.simps) (auto simp: drop search_outcome_def)
  next
    case False
    obtain p1 entry' where p1: "FAT_directory_getNextEntry env p (es ! k) =
        Some ((Suc k < length es, if Suc k < length es then es ! Suc k else entry'), p1)" "pkept med p p1"
      by (rule getNextEntry_spec [OF ok es k])
    have step: "findInDirectory env p name n final True (es ! k) =
        findInDirectory env p1 name n final (Suc k < length es) (if Suc k < length es then es ! Suc k else entry')"
      using m p1(1) False by (subst findInDirectory.simps) auto
    show ?thesis
    proof (cases "Suc k < length es")
      case True
      have "\<exists>r p'. findInDirectory env p1 name n final True (es ! Suc k) = Some (r, p') \<and> pkept med p1 p' \<and>
          search_outcome (\<lambda>e. M e \<and> (final \<or> FAT_directory_isDirectory e)) (drop (Suc k) es) r"
        using Suc.hyps(2) True Suc.prems(4) area_kept [OF p1(2) ok] es dir_entries_kept [OF p1(2), of env]
        by (intro Suc.hyps(1)) auto
      then show ?thesis using step True False pkept_trans [OF p1(2)] by (auto simp: drop search_outcome_def)
    next
      case last: False
      then have "findInDirectory env p1 name n final (Suc k < length es) entry' = Some ((False, entry'), p1)"
        by (subst findInDirectory.simps) simp
      then show ?thesis using step last False p1(2) by (auto simp: drop search_outcome_def)
    qed
  qed
qed simp

lemma findInDirectory_spec:
  assumes ok: "area_ok med p area" and es: "dir_entries env med p area = Some es"
    and "\<And>e. e \<in> set es \<Longrightarrow> entry_matches env name n e = Some (M e)"
  obtains r p' where "do { ((foundFile, entry), p) \<leftarrow> FAT_directory_getFirstEntry env p entry (area_start area);
      findInDirectory env p name n final foundFile entry } = Some (r, p')"
    and "pkept med p p'" and "search_outcome (\<lambda>e. M e \<and> (final \<or> FAT_directory_isDirectory e)) es r"
proof -
  obtain p1 entry' where p1: "FAT_directory_getFirstEntry env p entry (area_start area) =
      Some ((es \<noteq> [], if es = [] then entry' else hd es), p1)" "pkept med p p1"
    by (rule getFirstEntry_spec [OF ok es])
  show thesis
  proof (cases es)
    case Nil
    then have "findInDirectory env p1 name n final False entry' = Some ((False, entry'), p1)"
      by (subst findInDirectory.simps) simp
    then show ?thesis using that [of "(False, entry')" p1] p1 Nil by (simp add: search_outcome_def)
  next
    case (Cons e es')
    then obtain r p' where r: "findInDirectory env p1 name n final True (es ! 0) = Some (r, p')" "pkept med p1 p'"
      "search_outcome (\<lambda>e. M e \<and> (final \<or> FAT_directory_isDirectory e)) (drop 0 es) r"
      using findInDirectory_from [OF area_kept [OF p1(2) ok], of env es 0 name n M final] es dir_entries_kept [OF p1(2), of env] assms(3)
      by auto
    then show ?thesis using that [of r p'] p1 Cons pkept_trans [OF p1(2)] by simp
  qed
qed

definition same_name :: "'mb char_env \<Rightarrow> u8 list \<Rightarrow> dir_entry \<Rightarrow> bool option" where
  "same_name env name entry =
    do {
      long \<leftarrow> (if strnlen name PATH_MAX = strnlen (de_filename entry) PATH_MAX
         then do { d \<leftarrow> FAT_directory_mbsncasecmp env name (de_filename entry) (strnlen name PATH_MAX); Some (d = 0) }
         else Some False);
      Some (long \<or> strncasecmp_eq env name (snd (FAT_directory_entryGetAlias env (de_entryData entry))) MAX_ALIAS_LENGTH)
    }"

lemma entryExists_loop_step:
  assumes "same_name env name entry = Some b"
  shows "entryExists_loop env p name True entry =
    (if b then Some (True, p)
     else do {
       ((foundFile, entry), p) \<leftarrow> FAT_directory_getNextEntry env p entry;
       entryExists_loop env p name foundFile entry
     })"
  using assms by (subst entryExists_loop.simps) (auto simp: same_name_def bind_eq_Some_conv split: if_splits)

lemma entryExists_from:
  assumes "area_ok med p area" and "dir_entries env med p area = Some es" and "k < length es"
    and "\<And>e. e \<in> set es \<Longrightarrow> same_name env name e = Some (M e)"
  shows "\<exists>p'. entryExists_loop env p name True (es ! k) = Some (\<exists>e \<in> set (drop k es). M e, p') \<and> pkept med p p'"
  using assms
proof (induction "length es - k" arbitrary: k p)
  case (Suc m)
  note ok = Suc.prems(1) and es = Suc.prems(2) and k = Suc.prems(3)
  have drop: "drop k es = es ! k # drop (Suc k) es" using k by (simp add: Cons_nth_drop_Suc)
  have m: "same_name env name (es ! k) = Some (M (es ! k))" using Suc.prems(4) k by simp
  show ?case
  proof (cases "M (es ! k)")
    case True
    then show ?thesis using pkept_refl [OF area_okD(2) [OF ok]] by (simp add: entryExists_loop_step [OF m] drop)
  next
    case False
    obtain p1 entry' where p1: "FAT_directory_getNextEntry env p (es ! k) =
        Some ((Suc k < length es, if Suc k < length es then es ! Suc k else entry'), p1)" "pkept med p p1"
      by (rule getNextEntry_spec [OF ok es k])
    show ?thesis
    proof (cases "Suc k < length es")
      case True
      have "\<exists>p'. entryExists_loop env p1 name True (es ! Suc k) = Some (\<exists>e \<in> set (drop (Suc k) es). M e, p') \<and> pkept med p1 p'"
        using Suc.hyps(2) True Suc.prems(4) area_kept [OF p1(2) ok] es dir_entries_kept [OF p1(2), of env]
        by (intro Suc.hyps(1)) auto
      then show ?thesis using p1 True False pkept_trans [OF p1(2)] by (auto simp: drop entryExists_loop_step [OF m])
    next
      case last: False
      then show ?thesis using p1 False
        by (simp add: drop entryExists_loop_step [OF m]) (subst entryExists_loop.simps, simp)
    qed
  qed
qed simp

lemma entryExists_spec:
  assumes ok: "area_ok med p area" and es: "dir_entries env med p area = Some es" and "length name < PATH_MAX"
    and "\<And>e. e \<in> set es \<Longrightarrow> same_name env name e = Some (M e)"
  obtains p' where "FAT_directory_entryExists env p name (area_start area) = Some (\<exists>e \<in> set es. M e, p')"
    and "pkept med p p'"
proof -
  obtain p1 entry' where p1: "FAT_directory_getFirstEntry env p blank_entry (area_start area) =
      Some ((es \<noteq> [], if es = [] then entry' else hd es), p1)" "pkept med p p1"
    by (rule getFirstEntry_spec [OF ok es])
  have len: "\<not> strnlen name PATH_MAX \<ge> PATH_MAX" using assms(3) by (simp add: strnlen_def)
  show thesis
  proof (cases es)
    case Nil
    then have "entryExists_loop env p1 name False entry' = Some (False, p1)"
      by (subst entryExists_loop.simps) simp
    then show ?thesis using that p1 len Nil by (simp add: FAT_directory_entryExists_def)
  next
    case (Cons e es')
    then obtain p' where r: "entryExists_loop env p1 name True (es ! 0) = Some (\<exists>e \<in> set (drop 0 es). M e, p')" "pkept med p1 p'"
      using entryExists_from [OF area_kept [OF p1(2) ok], of env es 0 name M] es dir_entries_kept [OF p1(2), of env] assms(4)
      by auto
    then show ?thesis using that [of p'] p1 len Cons pkept_trans [OF p1(2)] by (simp add: FAT_directory_entryExists_def)
  qed
qed

end
