(* ===== verification/DirNames.thy ===== *)
theory DirNames
  imports DirScan
begin

text \<open>
  Long names in directory slots: what \<open>_FAT_directory_addEntry\<close> writes for a name and what the scan of
  \<open>_FAT_directory_getNextEntry\<close> makes of it. A name of \<open>n\<close> characters takes \<open>(n + 12) div 13\<close> slots,
  the last characters first, in front of the slot with the short name.
\<close>

section \<open>One slot\<close>

text \<open>The character stored at index \<open>j\<close> of the slot that starts at \<open>base\<close>: behind the terminator the
  slot is filled with ones.\<close>

definition stored_char :: "u16 list \<Rightarrow> nat \<Rightarrow> nat \<Rightarrow> u16" where
  "stored_char lfn base j = (if lfn ! (base + j) = 0 \<and> j > 1 \<and> lfn ! (base + j - 1) = 0 then 0xffff else lfn ! (base + j))"

lemma lfn_chars_fill:
  assumes "base + j + length offs \<le> length lfn" and "sorted_wrt (\<lambda>a b. a + 1 < b) offs"
    and "\<And>off. off \<in> set offs \<Longrightarrow> off + 1 < length data"
  shows "\<exists>data'. lfn_chars lfn base j offs data = Some data' \<and> length data' = length data \<and>
    (\<forall>i < length offs. u8array_to_u16 data' (offs ! i) = stored_char lfn base (j + i)) \<and>
    (\<forall>k. (\<forall>off \<in> set offs. k \<noteq> off \<and> k \<noteq> off + 1) \<longrightarrow> data' ! k = data ! k)"
  using assms
proof (induction offs arbitrary: j data)
  case (Cons off offs)
  let ?c = "stored_char lfn base j"
  let ?d = "u16_to_u8array data off ?c"
  have at: "lfn_at lfn (base + j) = Some (lfn ! (base + j))" "lfn_at lfn (base + j - 1) = Some (lfn ! (base + j - 1))"
    using Cons.prems(1) by (simp_all add: lfn_at_def)
  have step: "lfn_chars lfn base j (off # offs) data = lfn_chars lfn base (j + 1) offs ?d"
    using at by (simp add: stored_char_def)
  have "\<exists>data'. lfn_chars lfn base (j + 1) offs ?d = Some data' \<and> length data' = length ?d \<and>
    (\<forall>i < length offs. u8array_to_u16 data' (offs ! i) = stored_char lfn base (j + 1 + i)) \<and>
    (\<forall>k. (\<forall>off \<in> set offs. k \<noteq> off \<and> k \<noteq> off + 1) \<longrightarrow> data' ! k = ?d ! k)"
    using Cons.prems by (intro Cons.IH) auto
  then obtain data' where d': "lfn_chars lfn base (j + 1) offs ?d = Some data'" "length data' = length data"
    "\<And>i. i < length offs \<Longrightarrow> u8array_to_u16 data' (offs ! i) = stored_char lfn base (j + 1 + i)"
    "\<And>k. (\<forall>off \<in> set offs. k \<noteq> off \<and> k \<noteq> off + 1) \<Longrightarrow> data' ! k = ?d ! k"
    by auto
  have apart: "off + 1 < o'" if "o' \<in> set offs" for o' using Cons.prems(2) that by simp
  have "\<forall>o' \<in> set offs. off \<noteq> o' \<and> off \<noteq> o' + 1" "\<forall>o' \<in> set offs. off + 1 \<noteq> o' \<and> off + 1 \<noteq> o' + 1"
    using apart by (auto dest: apart)
  then have "u8array_to_u16 data' off = u8array_to_u16 ?d off"
    using d'(4) [of off] d'(4) [of "off + 1"] by (intro u8array_to_u16_cong) auto
  also have "\<dots> = ?c" using Cons.prems(3) by (intro u16_roundtrip) simp
  finally have "u8array_to_u16 data' off = ?c" .
  then have "u8array_to_u16 data' ((off # offs) ! i) = stored_char lfn base (j + i)" if "i < length (off # offs)" for i
    using that d'(3) by (cases i) auto
  moreover have "data' ! k = data ! k" if "\<forall>o' \<in> set (off # offs). k \<noteq> o' \<and> k \<noteq> o' + 1" for k
    using that d'(4) by (simp add: nth_u16_to_u8array_other)
  ultimately show ?case using d'(1,2) step by auto
qed simp

text \<open>Storing a slot's characters into the array.\<close>

lemma lfn_store_fill:
  assumes "0 \<le> pos"
  shows "\<exists>lfn'. lfn_store lfn data pos offs = Some lfn' \<and> length lfn' = length lfn \<and>
    (\<forall>m < length lfn. lfn' ! m = (if nat pos \<le> m \<and> m < nat pos + length offs \<and> m < MAX_LFN_LENGTH - 1
       then Some (u8array_to_u16 data (offs ! (m - nat pos))) else lfn ! m))"
  using assms
proof (induction offs arbitrary: lfn pos)
  case (Cons off offs)
  show ?case
  proof (cases "pos < int MAX_LFN_LENGTH - 1")
    case True
    let ?l = "lfn[nat pos := Some (u8array_to_u16 data off)]"
    obtain l' where l': "lfn_store ?l data (pos + 1) offs = Some l'" "length l' = length lfn"
      "\<And>m. m < length lfn \<Longrightarrow> l' ! m = (if nat (pos + 1) \<le> m \<and> m < nat (pos + 1) + length offs \<and> m < MAX_LFN_LENGTH - 1
        then Some (u8array_to_u16 data (offs ! (m - nat (pos + 1)))) else ?l ! m)"
      using Cons.IH [of "pos + 1" ?l] Cons.prems by auto
    have n1: "nat (pos + 1) = Suc (nat pos)" using Cons.prems by simp
    have lt: "nat pos < MAX_LFN_LENGTH - 1" using True Cons.prems by linarith
    have "l' ! m = (if nat pos \<le> m \<and> m < nat pos + length (off # offs) \<and> m < MAX_LFN_LENGTH - 1
        then Some (u8array_to_u16 data ((off # offs) ! (m - nat pos))) else lfn ! m)" if "m < length lfn" for m
      using l'(3) [OF that] that lt unfolding n1
      by (cases "m = nat pos") (auto simp: nth_Cons' not_le Suc_le_eq)
    then show ?thesis using True Cons.prems l'(1,2) by (simp add: u8array_to_u16_def)
  next
    case False
    obtain l' where l': "lfn_store lfn data (pos + 1) offs = Some l'" "length l' = length lfn"
      "\<And>m. m < length lfn \<Longrightarrow> l' ! m = (if nat (pos + 1) \<le> m \<and> m < nat (pos + 1) + length offs \<and> m < MAX_LFN_LENGTH - 1
        then Some (u8array_to_u16 data (offs ! (m - nat (pos + 1)))) else lfn ! m)"
      using Cons.IH [of "pos + 1" lfn] Cons.prems by auto
    have "MAX_LFN_LENGTH - 1 \<le> nat pos" using False by linarith
    then have "\<forall>m < length lfn. l' ! m = (if nat pos \<le> m \<and> m < nat pos + length (off # offs) \<and> m < MAX_LFN_LENGTH - 1
        then Some (u8array_to_u16 data ((off # offs) ! (m - nat pos))) else lfn ! m)"
      using l'(3) Cons.prems by auto
    then show ?thesis using False l'(1,2) by auto
  qed
qed auto

section \<open>The slots of a name\<close>

definition name_slots :: "nat \<Rightarrow> nat" where
  "name_slots n = (n + 12) div 13"

definition name_array :: "u16 list \<Rightarrow> u16 list" where
  "name_array chars = chars @ replicate (MAX_LFN_LENGTH - length chars) 0"

definition carries_name :: "u16 list \<Rightarrow> nat \<Rightarrow> u8 \<Rightarrow> nat \<Rightarrow> u8 list \<Rightarrow> bool" where
  "carries_name lfn entrySize chk k d \<longleftrightarrow> length d = 32 \<and> d ! LFN_offset_flag = ATTRIB_LFN \<and> d ! LFN_offset_checkSum = chk \<and>
     d ! LFN_offset_ordinal = of_nat k OR (if Suc k = entrySize then LFN_END else 0) \<and>
     (\<forall>j < 13. u8array_to_u16 d (LFN_offset_table ! j) = stored_char lfn ((k - 1) * 13) j)"

lemma offset_table:
  "length LFN_offset_table = 13" "sorted_wrt (\<lambda>a b. a + 1 < b) LFN_offset_table"
  "off \<in> set LFN_offset_table \<Longrightarrow> off + 1 < 32"
  "off \<in> set LFN_offset_table \<Longrightarrow> off \<noteq> 0 \<and> off + 1 \<noteq> 0 \<and> off \<noteq> 0xB \<and> off + 1 \<noteq> 0xB \<and> off \<noteq> 0xC \<and> off + 1 \<noteq> 0xC \<and>
    off \<noteq> 0xD \<and> off + 1 \<noteq> 0xD \<and> off \<noteq> 0x1A \<and> off + 1 \<noteq> 0x1A \<and> off \<noteq> 0x1B \<and> off + 1 \<noteq> 0x1B"
  by (auto simp: LFN_offset_table_def)

lemma lfn_entry_carries:
  assumes "0 < k" and "k * 13 \<le> length lfn"
  obtains d where "lfn_entry lfn entrySize (Suc k) chk = Some d" and "carries_name lfn entrySize chk k d"
proof -
  let ?zero = "(replicate 32 0)[LFN_offset_ordinal := of_nat k OR (if Suc k = entrySize then LFN_END else 0)] :: u8 list"
  have base: "(Suc k - 2) * 13 = (k - 1) * 13" by simp
  have fit: "(k - 1) * 13 + 0 + length LFN_offset_table \<le> length lfn"
    using assms by (cases k) (simp_all add: offset_table(1))
  obtain d1 where d1: "lfn_chars lfn ((k - 1) * 13) 0 LFN_offset_table ?zero = Some d1" "length d1 = 32"
    "\<And>i. i < 13 \<Longrightarrow> u8array_to_u16 d1 (LFN_offset_table ! i) = stored_char lfn ((k - 1) * 13) i"
    "\<And>m. (\<forall>off \<in> set LFN_offset_table. m \<noteq> off \<and> m \<noteq> off + 1) \<Longrightarrow> d1 ! m = ?zero ! m"
    using lfn_chars_fill [OF fit offset_table(2), of ?zero] offset_table(1,3) by auto
  let ?named = "d1[LFN_offset_checkSum := chk, LFN_offset_flag := ATTRIB_LFN, LFN_offset_reserved1 := 0]"
  let ?d = "u16_to_u8array ?named LFN_offset_reserved2 0"
  have "d1 ! 0 = ?zero ! 0" using offset_table(4) by (intro d1(4)) auto
  then have ord: "?d ! 0 = of_nat k OR (if Suc k = entrySize then LFN_END else 0)"
    by (simp add: nth_u16_to_u8array_other)
  have "u8array_to_u16 ?d (LFN_offset_table ! j) = stored_char lfn ((k - 1) * 13) j" if j: "j < 13" for j
  proof -
    have off: "LFN_offset_table ! j \<in> set LFN_offset_table" using j offset_table(1) by simp
    have "u8array_to_u16 ?d (LFN_offset_table ! j) = u8array_to_u16 d1 (LFN_offset_table ! j)"
      using offset_table(4) [OF off] by (intro u8array_to_u16_cong) (simp_all add: nth_u16_to_u8array_other)
    then show ?thesis using d1(3) [OF j] by simp
  qed
  then have "carries_name lfn entrySize chk k ?d"
    using ord d1(2) by (simp add: carries_name_def nth_u16_to_u8array_other)
  moreover have "lfn_entry lfn entrySize (Suc k) chk = Some ?d"
    using d1(1) by (simp add: lfn_entry_def)
  ultimately show thesis by (rule that [rotated])
qed

section \<open>Scanning them\<close>

lemma ordinal_byte:
  assumes "k < 20"
  shows "(of_nat k OR LFN_END) AND LFN_END \<noteq> (0 :: u8)" and "(of_nat k :: u8) AND LFN_END = 0"
    and "(of_nat k :: u8) AND LFN_DEL = 0" and "(of_nat k OR LFN_END) AND LFN_DEL = (0 :: u8)"
    and "uint (of_nat k AND NOT LFN_END :: u8) = int k" and "uint ((of_nat k OR LFN_END) AND NOT LFN_END :: u8) = int k"
proof -
  have "list_all (\<lambda>k. (of_nat k OR LFN_END) AND LFN_END \<noteq> (0 :: u8) \<and> (of_nat k :: u8) AND LFN_END = 0 \<and>
    (of_nat k :: u8) AND LFN_DEL = 0 \<and> (of_nat k OR LFN_END) AND LFN_DEL = (0 :: u8) \<and>
    uint (of_nat k AND NOT LFN_END :: u8) = int k \<and> uint ((of_nat k OR LFN_END) AND NOT LFN_END :: u8) = int k) [0..<20]"
    by code_simp
  with assms show "(of_nat k OR LFN_END) AND LFN_END \<noteq> (0 :: u8)" "(of_nat k :: u8) AND LFN_END = 0"
    "(of_nat k :: u8) AND LFN_DEL = 0" "(of_nat k OR LFN_END) AND LFN_DEL = (0 :: u8)"
    "uint (of_nat k AND NOT LFN_END :: u8) = int k" "uint ((of_nat k OR LFN_END) AND NOT LFN_END :: u8) = int k"
    by (simp_all add: list_all_iff)
qed

text \<open>What the array holds once the slots down to \<open>k\<close> have been read.\<close>

definition name_read :: "u16 list \<Rightarrow> u8 \<Rightarrow> dir_pos \<Rightarrow> nat \<Rightarrow> dir_scan \<Rightarrow> bool" where
  "name_read chars chk start k s \<longleftrightarrow> ds_lfnExists s \<and> ds_lfnChkSum s = chk \<and> ds_start s = start \<and>
     length (ds_lfn s) = MAX_LFN_LENGTH \<and>
     (\<forall>m < length chars. (k - 1) * 13 \<le> m \<longrightarrow> ds_lfn s ! m = Some (chars ! m)) \<and>
     ds_lfn s ! length chars = Some 0"

text \<open>Names that fit: not empty, without a terminator inside, and in at most 19 slots. A name of 248
  characters or more makes the code read behind the array \<open>lfn\<close>.\<close>

definition long_name :: "u16 list \<Rightarrow> bool" where
  "long_name chars \<longleftrightarrow> chars \<noteq> [] \<and> length chars \<le> 247 \<and> 0 \<notin> set chars"

lemma long_nameD:
  assumes "long_name chars"
  shows "0 < name_slots (length chars)" "name_slots (length chars) < 20" "length chars \<le> name_slots (length chars) * 13"
    "(name_slots (length chars) - 1) * 13 < length chars" "length (name_array chars) = MAX_LFN_LENGTH"
    "name_slots (length chars) * 13 \<le> 247"
proof -
  have n: "0 < length chars" "length chars \<le> 247" using assms by (simp_all add: long_name_def)
  show lt: "name_slots (length chars) < 20" using n by (simp add: name_slots_def less_mult_imp_div_less)
  show "0 < name_slots (length chars)" "length chars \<le> name_slots (length chars) * 13"
    "(name_slots (length chars) - 1) * 13 < length chars"
    using n unfolding name_slots_def by linarith+
  show "length (name_array chars) = MAX_LFN_LENGTH" using n by (simp add: name_array_def MAX_LFN_LENGTH_def)
  show "name_slots (length chars) * 13 \<le> 247" using lt by simp
qed

lemma stored_name_char:
  assumes "long_name chars" and "b \<le> m" and "m \<le> length chars" and "b < length chars"
  shows "stored_char (name_array chars) b (m - b) = (if m < length chars then chars ! m else 0)"
proof -
  have nth: "name_array chars ! i = (if i < length chars then chars ! i else 0)" if "i < MAX_LFN_LENGTH" for i
    using that by (simp add: name_array_def nth_append)
  have "m < MAX_LFN_LENGTH" using assms(1,3) by (simp add: long_name_def MAX_LFN_LENGTH_def)
  moreover have "chars ! i \<noteq> 0" if "i < length chars" for i using that assms(1) by (metis long_name_def nth_mem)
  ultimately show ?thesis using assms(2-4) nth by (auto simp: stored_char_def)
qed

lemma scan_first_name_slot:
  assumes nm: "long_name chars" and K: "K = name_slots (length chars)"
    and d: "carries_name (name_array chars) (Suc K) chk K d" and s: "length (ds_lfn s) = MAX_LFN_LENGTH"
  obtains t where "scan_lfn d s = Some t" and "name_read chars chk (ds_end s) K t"
proof -
  note n = long_nameD [OF nm, folded K] and o = ordinal_byte [OF long_nameD(2) [OF nm, folded K]]
  have ord: "d ! LFN_offset_ordinal = of_nat K OR LFN_END" and chk: "d ! LFN_offset_checkSum = chk"
    using d by (simp_all add: carries_name_def)
  have lo: "lfn_ordinal d = int K" using o(6) by (simp add: lfn_ordinal_def ord)
  have mx: "min (lfn_ordinal d * 13) (int MAX_LFN_LENGTH - 1) = int (K * 13)"
    using n(6) by (simp add: lo MAX_LFN_LENGTH_def)
  define b where "b = (K - 1) * 13"
  have K13: "b + 13 = K * 13" using n(1) by (cases K) (simp_all add: b_def)
  have base: "(lfn_ordinal d - 1) * 13 = int b" using n(1) by (simp add: lo b_def of_nat_diff)
  let ?l = "(ds_lfn s)[K * 13 := Some 0]"
  have nn: "nat ((lfn_ordinal d - 1) * 13) = b" by (simp only: base nat_int)
  obtain l' where l': "lfn_store ?l d ((lfn_ordinal d - 1) * 13) LFN_offset_table = Some l'" "length l' = MAX_LFN_LENGTH"
    "\<And>m. m < MAX_LFN_LENGTH \<Longrightarrow> l' ! m = (if b \<le> m \<and> m < b + 13 \<and> m < MAX_LFN_LENGTH - 1
       then Some (u8array_to_u16 d (LFN_offset_table ! (m - b))) else ?l ! m)"
    using lfn_store_fill [of "(lfn_ordinal d - 1) * 13" ?l d LFN_offset_table] s base
    unfolding nn offset_table(1) by auto
  have val: "l' ! m = Some (if m < length chars then chars ! m else 0)" if m: "b \<le> m" "m \<le> length chars" for m
  proof -
    have small: "m < MAX_LFN_LENGTH - 1" using m(2) n(3,6) by (simp add: MAX_LFN_LENGTH_def)
    show ?thesis
    proof (cases "m < K * 13")
      case True
      then have j: "m - b < 13" using m(1) K13 by linarith
      then have "u8array_to_u16 d (LFN_offset_table ! (m - b)) = stored_char (name_array chars) (b) (m - b)"
        using d by (simp add: carries_name_def b_def)
      also have "\<dots> = (if m < length chars then chars ! m else 0)"
        by (rule stored_name_char [OF nm m n(4) [folded b_def]])
      finally show ?thesis using l'(3) [of m] m(1) small True by (simp add: K13)
    next
      case False
      then have "m = K * 13" "m = length chars" using m(2) n(3) by linarith+
      then show ?thesis using l'(3) [of m] small s by (simp add: K13 MAX_LFN_LENGTH_def)
    qed
  qed
  let ?t = "s\<lparr>ds_start := ds_end s, ds_lfnExists := True, ds_lfn := l', ds_lfnChkSum := chk\<rparr>"
  have "scan_lfn d s = Some ?t"
    using l'(1) mx o(1,4) unfolding scan_lfn_def by (simp add: ord [symmetric] chk Let_def nat_int del: of_nat_mult) 
  moreover have "name_read chars chk (ds_end s) K ?t"
    using val l'(2) n(4) by (auto simp: name_read_def b_def)
  ultimately show thesis by (rule that)
qed

lemma scan_next_name_slot:
  assumes nm: "long_name chars" and k: "0 < k" "k < name_slots (length chars)"
    and d: "carries_name (name_array chars) (Suc (name_slots (length chars))) chk k d"
    and s: "name_read chars chk start (Suc k) s"
  obtains t where "scan_lfn d s = Some t" and "name_read chars chk start k t"
proof -
  note n = long_nameD [OF nm]
  have k20: "k < 20" using k(2) n(2) by simp
  note o = ordinal_byte [OF k20]
  have ord: "d ! LFN_offset_ordinal = of_nat k" and chk: "d ! LFN_offset_checkSum = chk"
    using d k(2) by (simp_all add: carries_name_def)
  define b where "b = (k - 1) * 13"
  have k13: "b + 13 = k * 13" using k(1) by (cases k) (simp_all add: b_def)
  have "k * 13 \<le> (name_slots (length chars) - 1) * 13" using k by (intro mult_le_mono1) simp
  then have below: "b + 13 < length chars" using n(4) k13 by simp
  have lo: "lfn_ordinal d = int k" using o(5) by (simp add: lfn_ordinal_def ord)
  have base: "(lfn_ordinal d - 1) * 13 = int b" using k(1) by (simp add: lo b_def of_nat_diff)
  have nn: "nat ((lfn_ordinal d - 1) * 13) = b" by (simp only: base nat_int)
  have len: "length (ds_lfn s) = MAX_LFN_LENGTH" using s by (simp add: name_read_def)
  obtain l' where l': "lfn_store (ds_lfn s) d ((lfn_ordinal d - 1) * 13) LFN_offset_table = Some l'" "length l' = MAX_LFN_LENGTH"
    "\<And>m. m < MAX_LFN_LENGTH \<Longrightarrow> l' ! m = (if b \<le> m \<and> m < b + 13 \<and> m < MAX_LFN_LENGTH - 1
       then Some (u8array_to_u16 d (LFN_offset_table ! (m - b))) else ds_lfn s ! m)"
    using lfn_store_fill [of "(lfn_ordinal d - 1) * 13" "ds_lfn s" d LFN_offset_table] len base
    unfolding nn offset_table(1) by auto
  have small: "length chars < MAX_LFN_LENGTH - 1" using n(3,6) by (simp add: MAX_LFN_LENGTH_def)
  have val: "l' ! m = Some (chars ! m)" if m: "b \<le> m" "m < length chars" for m
  proof (cases "m < b + 13")
    case True
    then have "u8array_to_u16 d (LFN_offset_table ! (m - b)) = stored_char (name_array chars) b (m - b)"
      using d m(1) by (simp add: carries_name_def b_def)
    also have "\<dots> = chars ! m" using stored_name_char [OF nm m(1)] m(2) below by simp
    finally show ?thesis using l'(3) [of m] m small True by simp
  next
    case False
    then show ?thesis using l'(3) [of m] m small s k13 by (auto simp: name_read_def)
  qed
  have fin: "l' ! length chars = Some 0" using l'(3) [of "length chars"] small below s by (simp add: name_read_def)
  have "scan_lfn d s = Some (s\<lparr>ds_lfn := l'\<rparr>)"
    using l'(1) o(2,3) s unfolding scan_lfn_def by (simp add: ord chk Let_def name_read_def)
  moreover have "name_read chars chk start k (s\<lparr>ds_lfn := l'\<rparr>)"
    using val l'(2) fin s by (auto simp: name_read_def b_def)
  ultimately show thesis by (rule that)
qed

definition name_slots_at :: "u16 list \<Rightarrow> u8 \<Rightarrow> nat \<Rightarrow> slot list \<Rightarrow> bool" where
  "name_slots_at chars chk k slots \<longleftrightarrow> length slots = k \<and>
     (\<forall>i < k. carries_name (name_array chars) (Suc (name_slots (length chars))) chk (k - i) (snd (slots ! i)))"

lemma name_slots_at_Cons:
  "name_slots_at chars chk (Suc k) (x # slots) \<longleftrightarrow>
    carries_name (name_array chars) (Suc (name_slots (length chars))) chk (Suc k) (snd x) \<and> name_slots_at chars chk k slots"
  by (auto simp: name_slots_at_def All_less_Suc2)

lemma scan_slots_lfn:
  "d ! LFN_offset_flag = ATTRIB_LFN \<Longrightarrow> scan_slots env ((pos, d) # rest) s =
    do { s \<leftarrow> scan_lfn d (s\<lparr>ds_end := pos, ds_data := Some d\<rparr>); scan_slots env rest s }"
  by simp

lemma scan_name_rest:
  assumes nm: "long_name chars" and "k < name_slots (length chars)" and "name_slots_at chars chk k slots"
    and "name_read chars chk start (Suc k) s"
  shows "\<exists>t. scan_slots env (slots @ rest) s = scan_slots env rest t \<and> name_read chars chk start 1 t"
  using assms(2-)
proof (induction k arbitrary: slots s)
  case 0
  then have "slots = []" by (simp add: name_slots_at_def)
  then show ?case using 0(3) by (auto simp: name_read_def)
next
  case (Suc k)
  then obtain pos d slots' where sl: "slots = (pos, d) # slots'" by (cases slots) (auto simp: name_slots_at_def)
  have d: "carries_name (name_array chars) (Suc (name_slots (length chars))) chk (Suc k) d" and at: "name_slots_at chars chk k slots'"
    using Suc.prems(2) by (simp_all add: sl name_slots_at_Cons)
  let ?s = "s\<lparr>ds_end := pos, ds_data := Some d\<rparr>"
  have "name_read chars chk start (Suc (Suc k)) ?s" using Suc.prems(3) by (simp add: name_read_def)
  then obtain t where t: "scan_lfn d ?s = Some t" "name_read chars chk start (Suc k) t"
    by (rule scan_next_name_slot [OF nm zero_less_Suc Suc.prems(1) d])
  from Suc.IH [OF _ at t(2)] Suc.prems(1) obtain u where "scan_slots env (slots' @ rest) t = scan_slots env rest u"
    "name_read chars chk start 1 u" by auto
  moreover have "scan_slots env (slots @ rest) s = scan_slots env (slots' @ rest) t"
    using d t(1) by (simp only: sl append_Cons) (subst scan_slots_lfn; simp add: carries_name_def)
  ultimately show ?case by auto
qed

lemma scan_name_slots:
  assumes nm: "long_name chars" and at: "name_slots_at chars chk (name_slots (length chars)) slots"
    and s: "length (ds_lfn s) = MAX_LFN_LENGTH"
  obtains t where "scan_slots env (slots @ rest) s = scan_slots env rest t" and "name_read chars chk (fst (hd slots)) 1 t"
proof -
  obtain k where k: "name_slots (length chars) = Suc k" using long_nameD(1) [OF nm] by (cases "name_slots (length chars)") auto
  then obtain pos d slots' where sl: "slots = (pos, d) # slots'" using at by (cases slots) (auto simp: name_slots_at_def)
  have d: "carries_name (name_array chars) (Suc (Suc k)) chk (Suc k) d" and at': "name_slots_at chars chk k slots'"
    using at name_slots_at_Cons [of chars chk k "(pos, d)" slots'] by (simp_all add: sl k)
  let ?s = "s\<lparr>ds_end := pos, ds_data := Some d\<rparr>"
  obtain t where t: "scan_lfn d ?s = Some t" "name_read chars chk pos (Suc k) t"
    using scan_first_name_slot [OF nm refl, of chk d ?s] d s by (auto simp: k)
  from scan_name_rest [OF nm _ at' t(2), of env rest] k obtain u where "scan_slots env (slots' @ rest) t = scan_slots env rest u"
    "name_read chars chk pos 1 u" by auto
  moreover have "scan_slots env (slots @ rest) s = scan_slots env (slots' @ rest) t"
    using d t(1) by (simp only: sl append_Cons) (subst scan_slots_lfn; simp add: carries_name_def)
  ultimately show thesis using that sl by auto
qed

section \<open>The name that is read\<close>

text \<open>The stored characters are those of the name in the environment's encoding.\<close>

definition encodes :: "'mb char_env \<Rightarrow> u8 list \<Rightarrow> u16 list \<Rightarrow> bool" where
  "encodes env name chars \<longleftrightarrow> FAT_directory_mbstoucs2 env name MAX_LFN_LENGTH = Some (True, chars) \<and>
     (\<forall>rest. FAT_directory_ucs2tombs env (map Some chars @ Some 0 # rest) PATH_MAX = Some (Some name))"

text \<open>An entry of the short form: no label, and its first byte does not hide it.\<close>

definition visible :: "u8 list \<Rightarrow> bool" where
  "visible d \<longleftrightarrow> d ! DIR_ENTRY_attributes AND ATTRIB_VOL = 0 \<and> d ! 0 \<noteq> DIR_ENTRY_FREE \<and> d ! 0 > 0x20"

lemma visible_slot:
  assumes "visible d"
  shows "scan_slots env ((pos, d) # rest) s =
    do { r \<leftarrow> scan_name env d (s\<lparr>ds_end := pos, ds_data := Some d\<rparr>);
         Some (map_option (\<lambda>(name, start). (\<lparr>de_entryData = d, de_dataStart = start,
           de_dataEnd = pos, de_filename = name\<rparr>, rest)) r) }"
proof -
  have "(ATTRIB_LFN :: u8) AND ATTRIB_VOL \<noteq> 0" by (simp add: ATTRIB_LFN_def ATTRIB_VOL_def)
  then have "d ! DIR_ENTRY_attributes \<noteq> ATTRIB_LFN" using assms by (auto simp: visible_def)
  moreover have "d ! 0 \<noteq> DIR_ENTRY_LAST" using assms by (auto simp: visible_def DIR_ENTRY_LAST_def)
  ultimately show ?thesis using assms by (simp add: visible_def Let_def)
qed

lemma long_name_read_back:
  assumes "long_name chars" and enc: "encodes env name chars"
    and "name_slots_at chars (alias_checksum d) (name_slots (length chars)) slots" and "visible d"
    and "length (ds_lfn s) = MAX_LFN_LENGTH"
  shows "scan_slots env (slots @ (pos, d) # rest) s =
    Some (Some (\<lparr>de_entryData = d, de_dataStart = fst (hd slots), de_dataEnd = pos, de_filename = name\<rparr>, rest))"
proof -
  obtain t where t: "scan_slots env (slots @ (pos, d) # rest) s = scan_slots env ((pos, d) # rest) t"
    "name_read chars (alias_checksum d) (fst (hd slots)) 1 t"
    by (rule scan_name_slots [OF assms(1,3,5)])
  have n: "length chars < MAX_LFN_LENGTH" using assms(1) by (simp add: long_name_def MAX_LFN_LENGTH_def)
  have "ds_lfn t = take (length chars) (ds_lfn t) @ ds_lfn t ! length chars # drop (Suc (length chars)) (ds_lfn t)"
    using t(2) n by (intro id_take_nth_drop) (simp add: name_read_def)
  moreover have "take (length chars) (ds_lfn t) = map Some chars"
    using t(2) n by (intro nth_equalityI) (auto simp: name_read_def)
  ultimately have "ds_lfn t = map Some chars @ Some 0 # drop (Suc (length chars)) (ds_lfn t)"
    using t(2) by (simp add: name_read_def)
  then have "FAT_directory_ucs2tombs env (ds_lfn t) PATH_MAX = Some (Some name)"
    using enc unfolding encodes_def by metis
  then show ?thesis
    unfolding t(1) visible_slot [OF assms(4)] using t(2) by (simp add: scan_name_def name_read_def)
qed

section \<open>Names in the C locale\<close>

lemma c_mbrtowc:
  "c \<noteq> 0 \<Longrightarrow> 0 < n \<Longrightarrow> mbrtowc c_locale st (c # rest) n = (1, Some (ucast c), ())"
  "0 < n \<Longrightarrow> mbrtowc c_locale st (0 # rest) n = (0, Some 0, ())"
  "mb_cur_max c_locale = 1" "mb_init c_locale = ()"
  by (simp_all add: c_locale_def)

lemma ucast_byte:
  "(ucast (ucast c :: u32) :: u16) = ucast c" "(ucast (ucast c :: u16) :: u32) = ucast c" "(ucast c :: u16) = 0 \<longleftrightarrow> c = 0"
  for c :: u8
proof -
  show "(ucast (ucast c :: u32) :: u16) = ucast c" "(ucast (ucast c :: u16) :: u32) = ucast c"
    by (rule bit_word_eqI; auto simp: bit_simps dest: bit_imp_le_length)+
  have "(ucast (ucast c :: u16) :: u8) = c"
    by (rule bit_word_eqI) (auto simp: bit_simps dest: bit_imp_le_length)
  then show "(ucast c :: u16) = 0 \<longleftrightarrow> c = 0" by (metis unsigned_0)
qed

lemma c_mbsrtowcs: "0 \<notin> set s \<Longrightarrow> mbsrtowcs_length c_locale st s n = Some (n + int (length s))"
proof (induction s arbitrary: n st)
  case Nil
  then show ?case by (subst mbsrtowcs_length.simps) (simp add: c_mbrtowc)
next
  case (Cons c s)
  then have "mbsrtowcs_length c_locale st (c # s) n = mbsrtowcs_length c_locale () s (n + 1)"
    by (subst mbsrtowcs_length.simps) (simp add: c_mbrtowc)
  then show ?case using Cons by simp
qed

lemma c_mbstoucs2_loop:
  "0 \<notin> set s \<Longrightarrow> length s \<le> room \<Longrightarrow> mbstoucs2_loop c_locale st s room dst = Some (True, dst @ map ucast s)"
proof (induction s arbitrary: room dst st)
  case Nil
  then show ?case by (subst mbstoucs2_loop.simps) simp
next
  case (Cons c s)
  then have "mbstoucs2_loop c_locale st (c # s) room dst = mbstoucs2_loop c_locale () s (room - 1) (dst @ [ucast (ucast c :: u32)])"
    by (subst mbstoucs2_loop.simps) (simp add: c_mbrtowc)
  then show ?case using Cons by (simp add: ucast_byte)
qed

lemma c_ucs2tombs_loop:
  "0 \<notin> set s \<Longrightarrow> length dst + length s < len - 1 \<Longrightarrow>
    ucs2tombs_loop c_locale st (map (Some \<circ> ucast) s @ Some 0 # rest) len dst = Some (Some (dst @ s))"
proof (induction s arbitrary: dst st)
  case (Cons c s)
  have nz: "(ucast c :: u16) \<noteq> 0" using Cons.prems(1) by (auto simp: ucast_byte)
  have lt: "unat c < 2 ^ LENGTH(8)" by (rule unsigned_less)
  then have "unat (ucast c :: u32) = unat c" by (simp only: unsigned_ucast_eq) (simp add: take_bit_nat_eq_self)
  then have "(ucast c :: u32) < 0x100" using lt by (simp add: word_less_nat_alt)
  moreover have "(ucast (ucast c :: u32) :: u8) = c"
    by (rule bit_word_eqI) (auto simp: bit_simps dest: bit_imp_le_length)
  ultimately have "wcrtomb c_locale st (ucast (ucast c :: u16)) = (1, [c], ())"
    unfolding ucast_byte(2) by (simp add: c_locale_def)
  then show ?case using Cons nz by simp
qed simp

lemma lfnLength_c:
  assumes "FAT_directory_lfnLength c_locale name = Some n" and "0 \<le> n"
  shows "n = int (length name)" and "length name < MAX_LFN_LENGTH" and "0 \<notin> set name" and "length name < PATH_MAX"
proof -
  have z: "0 \<notin> set name" and lt: "length name < PATH_MAX"
    using assms by (auto simp: FAT_directory_lfnLength_def list_ex_iff strnlen_def split: if_splits)
  then show "0 \<notin> set name" "length name < PATH_MAX" by simp_all
  have "mbsrtowcs_length c_locale (mb_init c_locale) name 0 = Some (int (length name))" using c_mbsrtowcs [OF z] by simp
  then have "n = (if int (length name) < 0 \<or> int (length name) \<ge> int MAX_LFN_LENGTH then -1 else int (length name))"
    using assms unfolding FAT_directory_lfnLength_def by (auto split: if_splits)
  then show "n = int (length name)" "length name < MAX_LFN_LENGTH" using assms(2) by (auto split: if_splits)
qed

lemma c_encodes:
  assumes "FAT_directory_lfnLength c_locale name = Some n" and "0 \<le> n"
  shows "encodes c_locale name (map ucast name)"
proof -
  note l = lfnLength_c [OF assms]
  have "FAT_directory_mbstoucs2 c_locale name MAX_LFN_LENGTH = Some (True, map ucast name)"
    unfolding FAT_directory_mbstoucs2_def using l(2) c_mbstoucs2_loop [OF l(3), of "MAX_LFN_LENGTH - 1" _ "[]"] by simp
  moreover have "FAT_directory_ucs2tombs c_locale (map Some (map ucast name) @ Some 0 # rest) PATH_MAX = Some (Some name)" for rest
  proof -
    have "takeWhile (\<lambda>c. c \<noteq> 0) name = name" using l(3) by (auto simp: takeWhile_eq_all_conv)
    then show ?thesis
      using c_ucs2tombs_loop [OF l(3), of "[]" PATH_MAX _ rest] l(2)
      by (simp add: FAT_directory_ucs2tombs_def cstr_def MAX_LFN_LENGTH_def PATH_MAX_def)
  qed
  ultimately show ?thesis by (simp add: encodes_def)
qed

lemma c_long_name:
  assumes "FAT_directory_lfnLength c_locale name = Some n" and "0 < n" and "n \<le> 247"
  shows "long_name (map ucast name)"
proof -
  note l = lfnLength_c [OF assms(1)]
  have "(ucast c :: u16) \<noteq> 0" if "c \<in> set name" for c
    using l(3) assms(2) that by (auto simp: ucast_byte)
  then show ?thesis using l(1) assms by (auto simp: long_name_def)
qed

end
