(* ===== verification/DirAlias.thy ===== *)
theory DirAlias
  imports DirNames
begin

text \<open>
  Short names in the \<open>C\<close> locale: comparing names, the alias of a name and its numeric tails. The first byte
  of an alias decides whether the entry is visible; an alias that loses nothing is read back
  as the name it came from.
\<close>

section \<open>Comparing names\<close>

lemma mbrtowc_c:
  "mbrtowc c_locale st (s @ [0]) (mb_cur_max c_locale) =
    (if s = [] \<or> hd s = 0 then (0, Some 0, ()) else (1, Some (ucast (hd s)), ()))"
  by (cases s) (simp_all add: c_locale_def)

lemmas mbrtowc_cs = mbrtowc_c mbrtowc_c [of _ "[]", simplified] mbrtowc_c [of _ "c # s" for c s, simplified]

lemma mbsncasecmp_total: "\<exists>d. mbsncasecmp_loop c_locale st1 st2 s1 s2 len old1 old2 = Some d"
proof (induction s1 arbitrary: st1 st2 s2 len old1 old2)
  case Nil
  show ?case by (subst mbsncasecmp_loop.simps) (auto simp: mbrtowc_cs Let_def)
next
  case (Cons c s1)
  show ?case by (subst mbsncasecmp_loop.simps) (auto simp: mbrtowc_cs Let_def Cons.IH)
qed

definition matches_c :: "u8 list \<Rightarrow> dir_entry \<Rightarrow> bool" where
  "matches_c name e \<longleftrightarrow> same_name c_locale name e = Some True"

lemma same_name_c: "same_name c_locale name e = Some (matches_c name e)"
proof -
  have "\<exists>b. same_name c_locale name e = Some b"
    using mbsncasecmp_total [of "()" "()" name "de_filename e"]
    by (auto simp: same_name_def FAT_directory_mbsncasecmp_def bind_eq_Some_conv)
  then show ?thesis by (auto simp: matches_c_def)
qed

section \<open>One character\<close>

lemma wctob_c: "wctob c_locale w = (if w < 0x100 then int (unat w) else -1)"
  by (simp add: c_locale_def)

definition upper_byte :: "u8 \<Rightarrow> u8" where
  "upper_byte c = (if 0x61 \<le> c \<and> c \<le> 0x7A then c - 0x20 else c)"

lemma unat_byte: "unat (ucast (c :: u8) :: u32) = unat c" "unat (c :: u8) < 256"
proof -
  have lt: "unat c < 2 ^ LENGTH(8)" by (rule unsigned_less)
  then show "unat (ucast c :: u32) = unat c" by (simp only: unsigned_ucast_eq) (simp add: take_bit_nat_eq_self)
  show "unat c < 256" using lt by simp
qed

lemma unat_upper: "unat (upper_byte c) = (if 0x61 \<le> unat c \<and> unat c \<le> 0x7A then unat c - 0x20 else unat c)"
  by (auto simp: upper_byte_def word_le_nat_alt unat_sub)

lemma upper_wide_byte: "upper_wide (ucast c) = ucast (upper_byte c)"
proof (rule word_eqI_unat)
  have "unat (upper_wide (ucast c)) = (if 0x61 \<le> unat c \<and> unat c \<le> 0x7A then unat c - 0x20 else unat c)"
    by (auto simp: upper_wide_def word_le_nat_alt unat_byte unat_sub)
  then show "unat (upper_wide (ucast c)) = unat (ucast (upper_byte c) :: u32)" by (simp add: unat_byte unat_upper)
qed

lemma byte_eq: "(c :: u8) = d \<longleftrightarrow> unat c = unat d"
  by (rule word_unat_eq_iff)

lemma wctob_byte: "wctob c_locale (ucast (c :: u8)) = int (unat c)"
  using unat_byte(2) [of c] by (simp add: wctob_c word_less_nat_alt unat_byte)

text \<open>What becomes of a byte of the name: skipped, replaced, or taken in upper case.\<close>

lemma alias_char_c:
  "alias_char c_locale (ucast c) =
    (if c = CH_SPACE then (None, True)
     else if c = 0 \<or> upper_byte c \<in> set ILLEGAL_ALIAS_CHARACTERS then (Some CH_UNDERSCORE, True)
     else (Some (upper_byte c), upper_byte c \<noteq> c))"
proof -
  have up: "towupper c_locale (ucast c) = ucast (upper_byte c)" by (simp add: c_locale_def upper_wide_byte)
  have sp: "int (unat (upper_byte c)) = 0x20 \<longleftrightarrow> c = CH_SPACE"
    by (auto simp: unat_upper byte_eq)
  have z: "upper_byte c = 0 \<longleftrightarrow> c = 0" by (auto simp: unat_upper byte_eq)
  have w: "word_of_int (int (unat (upper_byte c))) = upper_byte c" by simp
  have m: "uint (upper_byte c) \<noteq> -1" using uint_ge_0 [of "upper_byte c"] by linarith
  have z0: "upper_byte 0 = 0" by (simp add: upper_byte_def)
  have l: "int (unat c) \<noteq> int (unat (upper_byte c)) \<longleftrightarrow> upper_byte c \<noteq> c" by (simp only: of_nat_eq_iff byte_eq) auto
  show ?thesis
    unfolding alias_char_def up wctob_byte Let_def sp l
    using m z0 by (simp add: w z)
qed

lemma upper_byte_facts:
  "upper_byte c = CH_DOT \<longleftrightarrow> c = CH_DOT" "0x20 < c \<Longrightarrow> 0x20 < upper_byte c" "upper_byte c = DIR_ENTRY_FREE \<longleftrightarrow> c = DIR_ENTRY_FREE"
  by (auto simp: byte_eq unat_upper DIR_ENTRY_FREE_def word_less_nat_alt)

section \<open>The alias of a name\<close>

definition alias_map :: "u8 list \<Rightarrow> u8 list" where
  "alias_map s = List.map_filter (\<lambda>c. fst (alias_char c_locale (ucast c))) s"

definition loses :: "u8 list \<Rightarrow> bool" where
  "loses s \<longleftrightarrow> list_ex (\<lambda>c. snd (alias_char c_locale (ucast c))) s"

lemma alias_map_simps [simp]:
  "alias_map [] = []" "alias_map (c # s) = (case fst (alias_char c_locale (ucast c)) of None \<Rightarrow> alias_map s | Some x \<Rightarrow> x # alias_map s)"
  "loses [] = False" "loses (c # s) = (snd (alias_char c_locale (ucast c)) \<or> loses s)"
  by (simp_all add: alias_map_def loses_def map_filter_def split: option.split)

lemma lossless: "\<not> loses s \<Longrightarrow> alias_map s = s \<and> CH_SPACE \<notin> set s \<and> 0 \<notin> set s"
  by (induction s) (auto simp: alias_char_c split: if_splits)

lemma alias_primary_c:
  assumes "0 \<notin> set lfn" and "pos + length lfn < PATH_MAX"
  shows "\<exists>k \<le> length lfn. alias_primary c_locale st lfn pos al lossy =
      Some (Some (drop k lfn, pos + k, al @ alias_map (take k lfn), lossy \<or> loses (take k lfn))) \<and>
    CH_DOT \<notin> set (take k lfn) \<and> (length al \<le> 8 \<longrightarrow> length (al @ alias_map (take k lfn)) \<le> 8) \<and>
    (length al < 8 \<and> lfn \<noteq> [] \<and> hd lfn \<noteq> CH_DOT \<longrightarrow> 0 < k)"
  using assms
proof (induction lfn arbitrary: pos al lossy st)
  case Nil
  show ?case by (intro exI [of _ 0]) (subst alias_primary.simps, simp)
next
  case (Cons c lfn)
  show ?case
  proof (cases "length al < 8 \<and> c \<noteq> CH_DOT")
    case False
    then show ?thesis by (intro exI [of _ 0]) (subst alias_primary.simps, auto)
  next
    case True
    obtain x l where x: "alias_char c_locale (ucast c) = (x, l)" by (cases "alias_char c_locale (ucast c)")
    let ?a = "case x of None \<Rightarrow> al | Some c \<Rightarrow> al @ [c]"
    have step: "alias_primary c_locale st (c # lfn) pos al lossy = alias_primary c_locale () lfn (pos + 1) ?a (lossy \<or> l)"
      using True Cons.prems x by (subst alias_primary.simps) (simp add: c_mbrtowc)
    have "\<exists>k \<le> length lfn. alias_primary c_locale () lfn (pos + 1) ?a (lossy \<or> l) =
        Some (Some (drop k lfn, pos + 1 + k, ?a @ alias_map (take k lfn), (lossy \<or> l) \<or> loses (take k lfn))) \<and>
      CH_DOT \<notin> set (take k lfn) \<and> (length ?a \<le> 8 \<longrightarrow> length (?a @ alias_map (take k lfn)) \<le> 8) \<and>
      (length ?a < 8 \<and> lfn \<noteq> [] \<and> hd lfn \<noteq> CH_DOT \<longrightarrow> 0 < k)"
      using Cons.prems by (intro Cons.IH) simp_all
    then obtain k where k: "k \<le> length lfn" "alias_primary c_locale () lfn (pos + 1) ?a (lossy \<or> l) =
        Some (Some (drop k lfn, pos + 1 + k, ?a @ alias_map (take k lfn), (lossy \<or> l) \<or> loses (take k lfn)))"
      "CH_DOT \<notin> set (take k lfn)" "length ?a \<le> 8 \<longrightarrow> length (?a @ alias_map (take k lfn)) \<le> 8" by blast
    have "length ?a \<le> 8" using True by (simp split: option.split)
    then have "length (?a @ alias_map (take k lfn)) \<le> 8" using k(4) by blast
    then show ?thesis
      using k(1-3) True x unfolding step
      by (intro exI [of _ "Suc k"]) (auto split: option.splits)
  qed
qed

lemma alias_extension_c:
  assumes "0 \<notin> set ext" and "0 < room"
  shows "alias_extension c_locale st ext room al lossy k =
    Some (Some (drop k ext, al @ alias_map (take k ext), lossy \<or> loses (take k ext)))"
  using assms(1)
proof (induction k arbitrary: st ext al lossy)
  case (Suc k)
  show ?case
  proof (cases ext)
    case (Cons c ext')
    then show ?thesis
      using Suc assms(2) by (cases "alias_char c_locale (ucast c)") (auto simp: c_mbrtowc split: option.splits)
  qed simp
qed simp

definition start_of :: "u8 list \<Rightarrow> u8 list" where
  "start_of name = dropWhile (\<lambda>c. c = CH_DOT) name"

definition ext_of :: "u8 list \<Rightarrow> u8 list" where
  "ext_of name = rev (takeWhile (\<lambda>c. c \<noteq> CH_DOT) (rev name))"

text \<open>Names for which the entry that is created can be found again under the same name: the first
  character that is no dot is neither a space nor the mark of a free entry, and the last one is no dot.\<close>

definition creatable :: "u8 list \<Rightarrow> bool" where
  "creatable name \<longleftrightarrow> name \<noteq> [] \<and> last name \<noteq> CH_DOT \<and> hd (start_of name) \<noteq> CH_SPACE \<and> hd (start_of name) \<noteq> DIR_ENTRY_FREE"

lemma creatable_start:
  assumes "creatable name"
  shows "start_of name \<noteq> []" and "hd (start_of name) \<noteq> CH_DOT" and "set (start_of name) \<subseteq> set name"
proof -
  have "last name \<in> set name" "last name \<noteq> CH_DOT" using assms by (simp_all add: creatable_def)
  then show ne: "start_of name \<noteq> []" by (auto simp: start_of_def dropWhile_eq_Nil_conv)
  show "hd (start_of name) \<noteq> CH_DOT" using ne hd_dropWhile [of "\<lambda>c. c = CH_DOT" name] unfolding start_of_def by blast
  show "set (start_of name) \<subseteq> set name" unfolding start_of_def by (meson set_dropWhileD subsetI)
qed

text \<open>The short name that is read back from the bytes of an alias.\<close>

definition good_first :: "u8 list \<Rightarrow> bool" where
  "good_first alias \<longleftrightarrow> alias \<noteq> [] \<and> hd alias \<noteq> CH_DOT \<and> 0x20 < hd alias \<and> hd alias \<noteq> DIR_ENTRY_FREE"

lemma alias_map_first:
  assumes "c \<noteq> CH_SPACE" and "c \<noteq> CH_DOT" and "0x20 \<le> c" and "c \<noteq> DIR_ENTRY_FREE"
  shows "good_first (alias_map (c # s))"
proof -
  have gt: "0x20 < c" using assms(1,3) by (simp add: order_less_le)
  have "c \<noteq> 0" using assms(3) by auto
  moreover have "good_first (CH_UNDERSCORE # s)" for s by (simp add: good_first_def DIR_ENTRY_FREE_def)
  moreover have "good_first (upper_byte c # s)" for s
    using upper_byte_facts [of c] gt assms(2,4) by (simp add: good_first_def)
  ultimately show ?thesis using assms(1) by (simp add: alias_char_c)
qed

text \<open>Names that are their own short name: base \<open>b\<close> and extension \<open>e\<close>.\<close>

definition short_form :: "u8 list \<Rightarrow> u8 list \<Rightarrow> u8 list \<Rightarrow> bool" where
  "short_form name b e \<longleftrightarrow> name = (if e = [] then b else b @ CH_DOT # e) \<and> good_first b \<and> length b \<le> 8 \<and> length e \<le> 3 \<and>
     CH_DOT \<notin> set (b @ e) \<and> CH_SPACE \<notin> set (b @ e) \<and> 0 \<notin> set (b @ e)"

lemma ext_of_last: "CH_DOT \<notin> set e \<Longrightarrow> ext_of (b @ CH_DOT # e) = e"
  by (simp add: ext_of_def takeWhile_append)

lemma ext_of_Nil: "name \<noteq> [] \<Longrightarrow> last name \<noteq> CH_DOT \<Longrightarrow> ext_of name \<noteq> []"
  by (cases name rule: rev_cases) (simp_all add: ext_of_def)

lemma good_first_append: "good_first a \<Longrightarrow> good_first (a @ b)"
  by (auto simp: good_first_def)

lemma createAlias_c:
  assumes z: "0 \<notin> set name" and len: "length name < PATH_MAX" and cr: "creatable name"
    and pr: "\<forall>c \<in> set name. 0x20 \<le> c"
  obtains (exact) b e where "FAT_directory_createAlias c_locale name = Some (0, name)" and "short_form name b e"
  | (lossy) n al where "FAT_directory_createAlias c_locale name = Some (n, al)" and "0 < n" and "good_first al" and "length al \<le> 12"
proof -
  let ?start = "start_of name" and ?ext = "ext_of name"
  let ?dots = "length (filter (\<lambda>c. c = CH_DOT) name)"
  note cs = creatable_start [OF cr]
  have name: "name \<noteq> []" "last name \<noteq> CH_DOT" using cr by (simp_all add: creatable_def)
  have le: "length ?start \<le> length name" by (simp add: start_of_def length_dropWhile_le)
  have zs: "0 \<notin> set ?start" using z cs(3) by blast
  have bound: "length name - length ?start + length ?start < PATH_MAX" using len le by simp
  obtain k where k: "k \<le> length ?start" "alias_primary c_locale (mb_init c_locale) ?start (length name - length ?start) [] (?start \<noteq> name) =
      Some (Some (drop k ?start, length name - length ?start + k, alias_map (take k ?start), ?start \<noteq> name \<or> loses (take k ?start)))"
    "CH_DOT \<notin> set (take k ?start)" "length (alias_map (take k ?start)) \<le> 8" "0 < k"
    using alias_primary_c [OF zs bound, of "mb_init c_locale" "[]" "?start \<noteq> name"] cs(1,2) by auto
  let ?P = "alias_map (take k ?start)" and ?rest = "drop k ?start"
  have gP: "good_first ?P"
  proof -
    obtain c s where start: "?start = c # s" using cs(1) by (cases ?start) auto
    then have "take k ?start = c # take (k - 1) s" using k(5) by (cases k) simp_all
    moreover have "c \<noteq> CH_SPACE" "c \<noteq> CH_DOT" "c \<noteq> DIR_ENTRY_FREE" using cr cs(2) start by (simp_all add: creatable_def)
    moreover have "0x20 \<le> c" using pr cs(3) start by auto
    ultimately show ?thesis using alias_map_first [of c "take (k - 1) s"] by (simp only: simp_thms)
  qed
  let ?lossy = "((?start \<noteq> name \<or> loses (take k ?start)) \<or> ?rest \<noteq> [] \<and> hd ?rest \<noteq> CH_DOT) \<or> 1 < ?dots"
  have fold_ext: "rev (takeWhile (\<lambda>c. c \<noteq> CH_DOT) (rev name)) = ?ext" and fold_start: "dropWhile (\<lambda>c. c = CH_DOT) name = ?start"
    by (simp_all add: ext_of_def start_of_def)
  have clean: "name = ?P @ ?rest \<and> CH_DOT \<notin> set ?P \<and> CH_SPACE \<notin> set ?P \<and> 0 \<notin> set ?P \<and> length ?P \<le> 8 \<and>
      (?rest = [] \<or> (\<exists>r. ?rest = CH_DOT # r \<and> CH_DOT \<notin> set r))" if "\<not> ?lossy"
  proof -
    have st: "?start = name" and nl: "\<not> loses (take k ?start)" using that by simp_all
    have P: "?P = take k name" and "CH_SPACE \<notin> set ?P" "0 \<notin> set ?P" using lossless [OF nl] st by simp_all
    moreover have "name = ?P @ ?rest" unfolding P by (simp add: st)
    moreover have "CH_DOT \<notin> set ?P" using k(3) P st by simp
    moreover have "?rest = [] \<or> (\<exists>r. ?rest = CH_DOT # r \<and> CH_DOT \<notin> set r)"
    proof (cases ?rest)
      case (Cons c r)
      then have "c = CH_DOT" using that by simp
      moreover have "?dots = length (filter (\<lambda>c. c = CH_DOT) ?P) + length (filter (\<lambda>c. c = CH_DOT) ?rest)"
        using \<open>name = ?P @ ?rest\<close> by (metis filter_append length_append)
      moreover have "\<not> 1 < ?dots" using that by simp
      ultimately have "filter (\<lambda>c. c = CH_DOT) r = []" by (simp add: Cons)
      then show ?thesis using Cons \<open>c = CH_DOT\<close> by (auto simp: filter_empty_conv)
    qed simp
    ultimately show ?thesis using k(4) by blast
  qed
  show thesis
  proof (cases "0 < ?dots \<and> ?ext \<noteq> []")
    case True
    let ?al = "(?P @ [CH_DOT]) @ alias_map (take 3 ?ext)"
    let ?l = "(?lossy \<or> loses (take 3 ?ext)) \<or> drop 3 ?ext \<noteq> []"
    have "set ?ext \<subseteq> set name" by (auto simp: ext_of_def dest: set_takeWhileD)
    then have ze: "0 \<notin> set ?ext" using z by blast
    have room: "0 < PATH_MAX - (length name - length ?start + k)" using k(1) le len by simp
    have t3: "loses ?ext \<longrightarrow> loses (take 3 ?ext) \<or> \<not> length ?ext \<le> 3" by auto
    have run: "FAT_directory_createAlias c_locale name = Some (if ?l then int (length ?al) else 0, ?al)"
      using True k(2) alias_extension_c [OF ze room, of "mb_init c_locale" "?P @ [CH_DOT]" ?lossy 3]
      unfolding FAT_directory_createAlias_def fold_ext fold_start Let_def by (auto simp: t3)
    show ?thesis
    proof (cases ?l)
      case True
      have "length (alias_map xs) \<le> length xs" for xs by (induction xs) (auto split: option.split)
      from this [of "take 3 ?ext"] have "length ?al \<le> 12" using k(4) by simp
      then show ?thesis using lossy [of "int (length ?al)" ?al] True run good_first_append [OF gP] by simp
    next
      case False
      have nl: "\<not> ?lossy" using False by blast
      have "CH_DOT \<in> set name" using True by (metis (mono_tags, lifting) filter_empty_conv length_greater_0_conv)
      then obtain r where r: "?rest = CH_DOT # r" "CH_DOT \<notin> set r" using clean [OF nl] by (metis append_Nil2)
      then have nm: "name = ?P @ CH_DOT # r" using clean [OF nl] by metis
      have e: "?ext = r" using ext_of_last [OF r(2), of ?P] nm by metis
      have le: "\<not> loses (take 3 ?ext)" "length ?ext \<le> 3" using False by auto
      then have t3: "take 3 ?ext = r" using e by simp
      note ll = lossless [OF le(1), unfolded t3]
      have al: "?al = name" using ll nm t3 by simp
      have "short_form name ?P r"
        using clean [OF nl] ll gP r(2) le(2) e nm True by (simp add: short_form_def)
      moreover have "FAT_directory_createAlias c_locale name = Some (0, name)" using run unfolding if_not_P [OF False] al .
      ultimately show ?thesis using exact by blast
    qed
  next
    case False
    then have d0: "?dots = 0" using ext_of_Nil [OF name] by simp
    have t3: "loses ?ext \<longrightarrow> loses (take 3 ?ext) \<or> \<not> length ?ext \<le> 3" by auto
    have run: "FAT_directory_createAlias c_locale name = Some (if ?lossy then int (length ?P) else 0, ?P)"
      using False k(2) unfolding FAT_directory_createAlias_def fold_ext fold_start Let_def by auto
    show ?thesis
    proof (cases ?lossy)
      case True
      then show ?thesis using lossy [of "int (length ?P)" ?P] run gP k(4) by (simp add: good_first_def)
    next
      case nl: False
      have "CH_DOT \<notin> set name" using d0 by (simp add: filter_empty_conv) blast
      then have "?rest = []" using clean [OF nl] by (metis in_set_conv_decomp Un_iff set_append)
      then have nm: "name = ?P" using clean [OF nl] by (metis append_Nil2)
      have "short_form name ?P []" using clean [OF nl] gP nm by (simp add: short_form_def)
      moreover have run0: "FAT_directory_createAlias c_locale name = Some (0, ?P)" using run unfolding if_not_P [OF nl] .
      have "FAT_directory_createAlias c_locale name = Some (0, name)" using run0 by (simp only: nm [symmetric])
      ultimately show ?thesis using exact by blast
    qed
  qed
qed

section \<open>Numeric tails\<close>

lemma put_digits_0:
  assumes "j < 10 ^ m" and "m \<le> k" and "m < pos"
  shows "put_digits k j al pos ! 0 = al ! 0" and "length (put_digits k j al pos) = length al"
proof -
  have "put_digits k j al pos ! 0 = al ! 0 \<and> length (put_digits k j al pos) = length al"
    using assms
  proof (induction k arbitrary: j al pos m)
    case (Suc k)
    show ?case
    proof (cases "j = 0")
      case False
      then obtain l where l: "m = Suc l" using Suc.prems(1) by (cases m) auto
      have "j div 10 < 10 ^ l" using Suc.prems(1) l by (simp add: less_mult_imp_div_less mult.commute)
      then show ?thesis using Suc.IH [of "j div 10" l "pos - 1" "al[pos := 0x30 + of_nat (j mod 10)]"] Suc.prems l False by simp
    qed (use Suc.prems in simp)
  qed simp
  then show "put_digits k j al pos ! 0 = al ! 0" "length (put_digits k j al pos) = length al" by simp_all
qed

lemma pad_alias_first:
  assumes "good_first al"
  shows "good_first (pad_alias al)"
proof -
  obtain c s where al: "al = c # s" using assms by (cases al) (auto simp: good_first_def)
  then have "c \<noteq> CH_DOT" using assms by (simp add: good_first_def)
  then show ?thesis using assms by (auto simp: pad_alias_def al good_first_def Let_def)
qed

lemma numeric_tail_first:
  assumes "good_first al" and "i \<le> MAX_NUMERIC_TAIL"
  shows "good_first (numeric_tail al i)"
proof -
  have "i < 10 ^ 6" using assms(2) by (simp add: MAX_NUMERIC_TAIL_def)
  then have "numeric_tail al i ! 0 = al ! 0" "length (numeric_tail al i) = length al"
    unfolding numeric_tail_def using put_digits_0 [of i 6 7 7 al] by simp_all
  moreover from this assms(1) have "numeric_tail al i \<noteq> []" by (auto simp: good_first_def)
  moreover have "hd al = al ! 0" using assms(1) by (simp add: good_first_def hd_conv_nth)
  ultimately show ?thesis using assms(1) by (simp add: good_first_def hd_conv_nth [of "numeric_tail al i"])
qed

section \<open>The bytes of the short name\<close>

lemma length_alias_bytes [simp]: "length (alias_bytes al) = 11"
  by (auto simp: alias_bytes_def Let_def min_def)

lemma alias_bytes_first:
  assumes "good_first al"
  shows "alias_bytes al ! 0 = hd al"
proof -
  obtain c s where al: "al = c # s" using assms by (cases al) (auto simp: good_first_def)
  then have "c \<noteq> CH_DOT" using assms by (simp add: good_first_def)
  then show ?thesis by (simp add: alias_bytes_def al Let_def)
qed

text \<open>The entry as \<open>_FAT_directory_addEntry\<close> fills it in: an ordinary file or directory, in upper case.\<close>

definition plain_entry :: "u8 list \<Rightarrow> bool" where
  "plain_entry d \<longleftrightarrow> length d = 32 \<and> d ! DIR_ENTRY_attributes AND ATTRIB_VOL = 0 \<and>
     d ! DIR_ENTRY_caseInfo AND CASE_LOWER_BASE = 0 \<and> d ! DIR_ENTRY_caseInfo AND CASE_LOWER_EXT = 0"

definition short_data :: "u8 list \<Rightarrow> u8 list \<Rightarrow> u8 list" where
  "short_data al d = alias_bytes al @ drop 11 d"

lemma short_data_facts:
  assumes "plain_entry d"
  shows "length (short_data al d) = 32" "k < 21 \<Longrightarrow> short_data al d ! (11 + k) = d ! (11 + k)"
    "alias_checksum (short_data al d) = alias_checksum (alias_bytes al)" "k < 11 \<Longrightarrow> short_data al d ! k = alias_bytes al ! k"
    "good_first al \<Longrightarrow> visible (short_data al d)"
proof -
  show "length (short_data al d) = 32" using assms by (simp add: short_data_def plain_entry_def)
  show nth: "short_data al d ! (11 + k) = d ! (11 + k)" if "k < 21" for k
    using assms that by (simp add: short_data_def plain_entry_def nth_append)
  show "alias_checksum (short_data al d) = alias_checksum (alias_bytes al)"
    by (simp add: alias_checksum_def short_data_def)
  show low: "short_data al d ! k = alias_bytes al ! k" if "k < 11" for k using that by (simp add: short_data_def nth_append)
  show "visible (short_data al d)" if g: "good_first al"
    using g assms nth [of 0] low [of 0] alias_bytes_first [OF g] by (simp add: visible_def plain_entry_def good_first_def)
qed

lemma takeWhile_padded: "x \<notin> set b \<Longrightarrow> takeWhile (\<lambda>c. c \<noteq> x) (b @ replicate n x) = b"
  by (induction b) (auto simp: takeWhile_eq_Nil_iff hd_replicate)

lemma alias_bytes_short:
  assumes "short_form name b e"
  shows "alias_bytes name = b @ replicate (8 - length b) CH_SPACE @ e @ replicate (3 - length e) CH_SPACE"
proof -
  have nd: "CH_DOT \<notin> set b" "length b \<le> 8" "length e \<le> 3" using assms by (simp_all add: short_form_def)
  have tw: "takeWhile (\<lambda>c. c \<noteq> CH_DOT) (b @ CH_DOT # e) = b" "takeWhile (\<lambda>c. c \<noteq> CH_DOT) b = b"
    using nd(1) by (auto simp: takeWhile_append takeWhile_eq_all_conv)
  have sf: "name = (if e = [] then b else b @ CH_DOT # e)" using assms by (simp add: short_form_def)
  show ?thesis using nd unfolding alias_bytes_def sf Let_def by (cases "e = []") (simp_all add: tw del: takeWhile_eq_all_conv)
qed

text \<open>A name that is its own short name is read back from the slot.\<close>

lemma short_name_read_back:
  assumes sf: "short_form name b e" and pl: "plain_entry d"
  shows "FAT_directory_entryGetAlias c_locale (short_data name d) = (True, name)"
proof -
  let ?d = "short_data name d"
  note f = short_data_facts [OF pl] and ab = alias_bytes_short [OF sf]
  have s: "good_first b" "CH_SPACE \<notin> set b" "CH_SPACE \<notin> set e" "0 \<notin> set (b @ e)" "length b \<le> 8" "length e \<le> 3"
    "name = (if e = [] then b else b @ CH_DOT # e)"
    using sf by (simp_all add: short_form_def)
  have lower: "?d ! DIR_ENTRY_caseInfo AND CASE_LOWER_BASE = 0" "?d ! DIR_ENTRY_caseInfo AND CASE_LOWER_EXT = 0"
    using f(2) [of 1] pl by (simp_all add: plain_entry_def)
  have b0: "b \<noteq> []" "hd b \<noteq> CH_DOT" "hd b \<noteq> DIR_ENTRY_FREE" using s(1) by (simp_all add: good_first_def)
  have d0: "?d ! 0 = hd b" using f(4) [of 0] b0(1) by (simp add: ab nth_append hd_conv_nth)
  have base: "takeWhile (\<lambda>c. c \<noteq> CH_SPACE) (take 8 ?d) = b"
    using takeWhile_padded [OF s(2), of "8 - length b"] s(5) by (simp add: short_data_def ab)
  have ext: "takeWhile (\<lambda>c. c \<noteq> CH_SPACE) (take 3 (drop DIR_ENTRY_extension ?d)) = e"
    using takeWhile_padded [OF s(3), of "3 - length e"] s(5,6) by (simp add: short_data_def ab)
  have ext0: "?d ! DIR_ENTRY_extension \<noteq> CH_SPACE \<longleftrightarrow> e \<noteq> []"
  proof -
    have "?d ! DIR_ENTRY_extension = (e @ replicate (3 - length e) CH_SPACE) ! 0"
      using f(4) [of 8] s(5,6) by (simp add: ab nth_append)
    then show ?thesis using s(3) by (cases e) auto
  qed
  have "cstr (b @ (if e \<noteq> [] then CH_DOT # e else [])) = name"
    using s(4,7) by (auto simp: cstr_def takeWhile_eq_all_conv)
  moreover have "name \<noteq> []" using s(7) b0(1) by auto
  ultimately show ?thesis
    using b0 unfolding FAT_directory_entryGetAlias_def d0 base ext ext0 Let_def by (cases "e = []") (simp_all add: lower)
qed

end
