(* ===== verification/DirWrite.thy ===== *)
theory DirWrite
  imports DirNames FileGrow
begin

text \<open>
  Writing slots of a directory. Different slots share no byte, no slot lies in the table or in the
  sectors of another directory or file, so a write changes one slot of one directory.
\<close>

section \<open>Different slots\<close>

lemma unit_sector_inj:
  assumes ok: "area_ok med p area" and i: "i < slot_count p area" "j < slot_count p area"
    and eq: "pos_sector p (slot_at p area i) = pos_sector p (slot_at p area j)"
  shows "i div sps p = j div sps p"
proof -
  note a = area_okD [OF ok]
  note si = slot_sector(3) [OF ok i(1)] and sj = slot_sector(3) [OF ok i(2)]
  show ?thesis
  proof (cases area)
    case Root
    then show ?thesis using si sj eq by simp
  next
    case (Chain cs)
    have fc: "file_chain med p cs" using ok Chain by (simp add: area_ok_def)
    let ?u = "i div sps p" and ?w = "j div sps p"
    have k: "?u div spc p < length cs" "?w div spc p < length cs"
      using slot_unit [OF i(1) a(4)] slot_unit [OF i(2) a(4)] by (simp_all add: Chain area_sectors_def less_mult_imp_div_less)
    have v: "FAT_fat_isValidCluster p (cs ! (?u div spc p))" "FAT_fat_isValidCluster p (cs ! (?w div spc p))"
      using si sj Chain by simp_all
    have r: "?u mod spc p < spc p" "?w mod spc p < spc p" using a(6) by simp_all
    have "in_cluster p (cs ! (?u div spc p)) (pos_sector p (slot_at p area i))" using si r(1) Chain by (simp add: in_cluster_def in_range_def)
    moreover have "in_cluster p (cs ! (?w div spc p)) (pos_sector p (slot_at p area i))"
      unfolding eq using sj r(2) Chain by (simp add: in_cluster_def in_range_def)
    ultimately have same: "cs ! (?u div spc p) = cs ! (?w div spc p)" by (rule clusters_disjoint [OF a(3) v])
    have "distinct cs" using chain_distinct [OF file_chainD(4) [OF fc]] proper_valid [OF a(2)] by (auto simp: proper_def)
    then have "?u div spc p = ?w div spc p" using same k by (simp add: nth_eq_iff_index_eq)
    moreover have "?u mod spc p = ?w mod spc p" using si sj eq Chain same by simp
    ultimately show ?thesis by (metis div_mult_mod_eq)
  qed
qed

definition area_secs :: "'d partition \<Rightarrow> dir_area \<Rightarrow> sec_t set" where
  "area_secs p area = (\<lambda>i. pos_sector p (slot_at p area i)) ` {..<slot_count p area}"

text \<open>Steps that write to the slots of one directory only.\<close>

definition dir_step :: "('d \<Rightarrow> sec_t \<Rightarrow> u8 list) \<Rightarrow> dir_area \<Rightarrow> 'd partition \<Rightarrow> 'd partition \<Rightarrow> bool" where
  "dir_step med area p p' \<longleftrightarrow> part_ok med p' \<and> same_part p p' \<and>
     (\<forall>t. t \<notin> area_secs p area \<longrightarrow> pview med p' t = pview med p t)"

lemma area_secs_same: "same_part p p' \<Longrightarrow> area_secs p' = area_secs p"
  by (simp add: fun_eq_iff area_secs_def area_same)

lemma dir_stepD:
  assumes "dir_step med area p p'"
  shows "part_ok med p'" "same_part p p'" "t \<notin> area_secs p area \<Longrightarrow> pview med p' t = pview med p t"
  using assms by (simp_all add: dir_step_def)

lemma dir_step_kept: "pkept med p p' \<Longrightarrow> dir_step med area p p'"
  by (simp add: dir_step_def pkept_def)

lemma dir_step_trans:
  assumes "dir_step med area p q" and "dir_step med area q r"
  shows "dir_step med area p r"
  using dir_stepD [OF assms(1)] dir_stepD [OF assms(2)] area_secs_same [OF dir_stepD(2) [OF assms(1)]]
    same_part_trans [OF dir_stepD(2) [OF assms(1)] dir_stepD(2) [OF assms(2)]]
  by (simp add: dir_step_def)

lemma dir_step_table:
  assumes ok: "area_ok med p area" and st: "dir_step med area p p'"
  shows "fat_table med p' = fat_table med p" and "area_ok med p' area"
proof -
  note a = area_okD [OF ok] and d = dir_stepD [OF st]
  show tab: "fat_table med p' = fat_table med p"
  proof (rule fat_table_same_view [OF d(2) part_okD(2) [OF a(2)]])
    fix t assume "in_range (fat_fatStart (p_fat p)) (fat_sectorsPerFat (p_fat p)) t"
    then have "t \<notin> area_secs p area" using slot_sector(2) [OF ok] by (auto simp: area_secs_def)
    then show "pview med p' t = pview med p t" by (rule d(3))
  qed
  have vol: "volume_ok med p'"
    using a(1) d(1) volume_same [OF d(2)] by (simp add: volume_ok_def)
  show "area_ok med p' area"
    using ok vol tab same_partD [OF d(2)] isValid_same [OF d(2)]
    by (cases area) (simp_all add: area_ok_def file_chain_def)
qed

lemma length_slot_bytes:
  assumes "area_ok med p area"
  shows "length (slot_bytes (pview med p) p (slot_at p area i)) = 32"
  using unat_slot_place(2) [OF assms, of i] volume_okD(8) [OF area_okD(1) [OF assms]]
  by (simp add: slot_bytes_at [OF assms])

section \<open>One slot\<close>

lemma slot_update:
  assumes ok: "area_ok med p area" and i: "i < slot_count p area" and d: "length d = 32"
    and st: "part_ok med p'" "same_part p p'"
  defines "t \<equiv> pos_sector p (slot_at p area i)"
  assumes view: "pview med p' = (pview med p)(t := splice (pview med p t) (i mod sps p * 32) d)"
  shows "dir_step med area p p'"
    and "dir_content (pview med p') p' area = (dir_content (pview med p) p area)[i := (slot_at p area i, d)]"
proof -
  note a = area_okD [OF ok] and pl = unat_slot_place [OF ok, of i]
  let ?pos = "slot_at p area i"
  show step: "dir_step med area p p'" using st view i by (auto simp: dir_step_def area_secs_def t_def)
  note same = area_same [OF dir_stepD(2) [OF step]]
  have len: "length (pview med p t) = bps p" for t by (rule volume_okD(8) [OF a(1)])
  have bytes: "slot_bytes (pview med p') p (slot_at p area j) = (if j = i then d else slot_bytes (pview med p) p (slot_at p area j))"
    if j: "j < slot_count p area" for j
  proof (cases "pos_sector p (slot_at p area j) = t")
    case False
    then have "j \<noteq> i" by (auto simp: t_def)
    then show ?thesis using False by (simp add: slot_bytes_at [OF ok] view)
  next
    case sec: True
    then have u: "j div sps p = i div sps p" using unit_sector_inj [OF ok j i] unfolding t_def by blast
    let ?x = "i mod sps p * 32" and ?y = "j mod sps p * 32"
    have fit: "?x + length d \<le> length (pview med p t)" using pl(2) d by (simp add: len)
    show ?thesis
    proof (cases "j = i")
      case True
      then show ?thesis using slice_splice_same [OF fit] d sec by (simp add: slot_bytes_at [OF ok] view)
    next
      case False
      then have "j mod sps p \<noteq> i mod sps p" using u by (metis div_mult_mod_eq)
      then consider "?y + 32 \<le> ?x" | "?x + 32 \<le> ?y" by linarith
      then have "slice (splice (pview med p t) ?x d) ?y 32 = slice (pview med p t) ?y 32"
        by cases (use slice_splice_before [OF fit] slice_splice_after [OF fit] d in simp_all)
      then show ?thesis using sec False by (simp add: slot_bytes_at [OF ok] view)
    qed
  qed
  show "dir_content (pview med p') p' area = (dir_content (pview med p) p area)[i := (?pos, d)]"
    by (rule nth_equalityI) (auto simp: dir_content_def same bytes nth_list_update)
qed

lemma writeEntry_slot:
  assumes ok: "area_ok med p area" and i: "i < slot_count p area" and d: "length d = 32"
  obtains p' where "writeEntry p (slot_at p area i) d = Some (True, p')" and "dir_step med area p p'"
    and "dir_content (pview med p') p' area = (dir_content (pview med p) p area)[i := (slot_at p area i, d)]"
proof -
  note a = area_okD [OF ok] and pl = unat_slot_place [OF ok, of i]
  let ?pos = "slot_at p area i" let ?t = "pos_sector p ?pos"
  have bps: "unat (c_bytesPerSector (p_cache p)) = bps p"
    using fat_wfD(2) [OF part_okD(2) [OF a(2)]] by simp
  have n: "unat DIR_ENTRY_DATA_SIZE = 32" by (simp add: DIR_ENTRY_DATA_SIZE_def)
  obtain c' where c': "FAT_cache_writePartialSector (p_cache p) d ?t (dp_offset ?pos * DIR_ENTRY_DATA_SIZE)
      DIR_ENTRY_DATA_SIZE = Some (True, c')" "store_inv med c'"
    "cview med c' = (cview med (p_cache p))(?t := splice (cview med (p_cache p) ?t) (i mod sps p * 32) d)"
    "c_endOfPartition c' = c_endOfPartition (p_cache p)" "unat (c_bytesPerSector c') = unat (c_bytesPerSector (p_cache p))"
    by (rule store.put_cases [OF part_okD(1) [OF a(2)] slot_sector(1) [OF ok i],
          of "dp_offset ?pos * DIR_ENTRY_DATA_SIZE" DIR_ENTRY_DATA_SIZE d])
      (use pl bps n d in auto)
  let ?p' = "p\<lparr>p_cache := c'\<rparr>"
  note st = cache_step [OF a(2) c'(2,4,5)]
  have view: "pview med ?p' = (pview med p)(?t := splice (pview med p ?t) (i mod sps p * 32) d)"
    using c'(3) by (simp add: pview_def)
  note up = slot_update [OF ok i d st view]
  have "writeEntry p ?pos d = Some (True, ?p')"
    using c'(1) by (simp add: writeEntry_def on_cache_def pos_sector_def)
  then show thesis using that up by blast
qed

section \<open>Several slots\<close>

definition put_slots :: "'d partition \<Rightarrow> dir_area \<Rightarrow> nat \<Rightarrow> u8 list list \<Rightarrow> slot list" where
  "put_slots p area i ds = map (\<lambda>j. (slot_at p area (i + j), ds ! j)) [0..<length ds]"

lemma length_put_slots [simp]: "length (put_slots p area i ds) = length ds"
  by (simp add: put_slots_def)

lemma put_slots_Cons: "put_slots p area i (d # ds) = (slot_at p area i, d) # put_slots p area (Suc i) ds"
  by (simp add: put_slots_def upt_conv_Cons map_Suc_upt [symmetric] del: upt_Suc)

lemma put_slots_Nil [simp]: "put_slots p area i [] = []"
  by (simp add: put_slots_def)

lemma splice_Cons:
  assumes "i < length b"
  shows "splice (b[i := x]) (Suc i) xs = splice b i (x # xs)"
  using assms by (simp add: splice_def take_Suc_conv_app_nth drop_update_cancel upd_conv_take_nth_drop add.commute)

lemma write_entries_spec:
  assumes "area_ok med p area" and "i + k < slot_count p area" and "length ns = k" and "length d = 32"
    and "\<And>m. m < k \<Longrightarrow> lfn_entry lfn entrySize (Suc (k - m)) chk = Some (ns ! m) \<and> length (ns ! m) = 32"
  shows "\<exists>p'. write_entries p (slot_at p area i) lfn entrySize chk d (Suc k) = Some p' \<and> dir_step med area p p' \<and>
    dir_content (pview med p') p' area = splice (dir_content (pview med p) p area) i (put_slots p area i (ns @ [d]))"
  using assms
proof (induction k arbitrary: i p ns)
  case 0
  note ok = 0(1)
  have i: "i < slot_count p area" using 0(2) by simp
  obtain p1 where p1: "writeEntry p (slot_at p area i) d = Some (True, p1)" "dir_step med area p p1"
    "dir_content (pview med p1) p1 area = (dir_content (pview med p) p area)[i := (slot_at p area i, d)]"
    by (rule writeEntry_slot [OF ok i 0(4)])
  note ok1 = dir_step_table(2) [OF ok p1(2)] and same = area_same [OF dir_stepD(2) [OF p1(2)]]
  have i1: "i < slot_count p1 area" using i by (simp add: same)
  obtain b pos p2 where p2: "FAT_directory_incrementDirEntryPosition no_malloc p1 (slot_at p1 area i) False = Some ((b, pos), p2)"
    "pkept med p1 p2"
    using step_next [OF ok1, of i no_malloc False] step_end [OF ok1, of i False no_malloc] i1
    by (metis Suc_lessI)
  have "write_entries p (slot_at p area i) lfn entrySize chk d (Suc 0) = Some p2"
    using p1(1) p2(1) by (simp add: same)
  moreover have "dir_content (pview med p2) p2 area = splice (dir_content (pview med p) p area) i (put_slots p area i [d])"
    using i unfolding dir_content_kept [OF p2(2)] p1(3) put_slots_Cons splice_Cons [symmetric, of i "dir_content (pview med p) p area"]
    by (simp add: splice_Cons [symmetric]) (simp add: splice_Nil)
  ultimately show ?case using dir_step_trans [OF p1(2) dir_step_kept [OF p2(2)]] 0(3) by auto
next
  case (Suc k)
  note ok = Suc.prems(1)
  have i: "i < slot_count p area" "Suc i < slot_count p area" using Suc.prems(2) by simp_all
  obtain n ns' where ns: "ns = n # ns'" "length ns' = k" using Suc.prems(3) by (cases ns) auto
  have n: "lfn_entry lfn entrySize (Suc (Suc k)) chk = Some n" "length n = 32"
    using Suc.prems(5) [of 0] ns by simp_all
  obtain p1 where p1: "writeEntry p (slot_at p area i) n = Some (True, p1)" "dir_step med area p p1"
    "dir_content (pview med p1) p1 area = (dir_content (pview med p) p area)[i := (slot_at p area i, n)]"
    by (rule writeEntry_slot [OF ok i(1) n(2)])
  note ok1 = dir_step_table(2) [OF ok p1(2)] and same = area_same [OF dir_stepD(2) [OF p1(2)]]
  have i1: "Suc i < slot_count p1 area" using i by (simp add: same)
  obtain p2 where p2: "FAT_directory_incrementDirEntryPosition no_malloc p1 (slot_at p1 area i) False =
      Some ((True, slot_at p1 area (Suc i)), p2)" "pkept med p1 p2"
    by (rule step_next [OF ok1 i1])
  note same2 = area_same [OF pkeptD(2) [OF p2(2)]]
  have "\<exists>p'. write_entries p2 (slot_at p2 area (Suc i)) lfn entrySize chk d (Suc k) = Some p' \<and> dir_step med area p2 p' \<and>
    dir_content (pview med p') p' area = splice (dir_content (pview med p2) p2 area) (Suc i) (put_slots p2 area (Suc i) (ns' @ [d]))"
  proof (rule Suc.IH [OF area_kept [OF p2(2) ok1] _ ns(2) Suc.prems(4)])
    show "Suc i + k < slot_count p2 area" using Suc.prems(2) by (simp add: same same2)
    fix m assume "m < k"
    then show "lfn_entry lfn entrySize (Suc (k - m)) chk = Some (ns' ! m) \<and> length (ns' ! m) = 32"
      using Suc.prems(5) [of "Suc m"] ns by simp
  qed
  then obtain p' where p': "write_entries p2 (slot_at p2 area (Suc i)) lfn entrySize chk d (Suc k) = Some p'" "dir_step med area p2 p'"
    "dir_content (pview med p') p' area = splice (dir_content (pview med p2) p2 area) (Suc i) (put_slots p2 area (Suc i) (ns' @ [d]))"
    by blast
  have pl: "put_slots p2 area (Suc i) ds = put_slots p area (Suc i) ds" for ds
    by (simp add: put_slots_def same same2)
  have "write_entries p (slot_at p area i) lfn entrySize chk d (Suc (Suc k)) = Some p'"
    using p1(1) p2(1) p'(1) n(1) by (simp add: same same2)
  moreover have "dir_content (pview med p') p' area = splice (dir_content (pview med p) p area) i (put_slots p area i (ns @ [d]))"
    using i(1) by (simp add: p'(3) dir_content_kept [OF p2(2)] p1(3) pl splice_Cons ns put_slots_Cons)
  ultimately show ?case
    using dir_step_trans [OF p1(2) dir_step_trans [OF dir_step_kept [OF p2(2)] p'(2)]] by blast
qed

end
