(* ===== verification/DirGrow.thy ===== *)
theory DirGrow
  imports DirWrite
begin

text \<open>
  Directories that grow: a directory in a chain of clusters gets a cleared cluster when a step goes past
  its last slot, on a partition whose other chains are left alone.
\<close>

section \<open>The state of a directory\<close>

definition area_chains :: "dir_area \<Rightarrow> u32 list list" where
  "area_chains area = (case area of Root \<Rightarrow> [] | Chain cs \<Rightarrow> [cs])"

fun area_grows :: "dir_area \<Rightarrow> dir_area \<Rightarrow> bool" where
  "area_grows Root area = (area = Root)"
| "area_grows (Chain cs) Root = False"
| "area_grows (Chain cs) (Chain ds) = (\<exists>es. ds = cs @ es)"

lemma area_grows_refl: "area_grows a a"
  by (cases a) auto

lemma area_grows_trans: "area_grows a b \<Longrightarrow> area_grows b c \<Longrightarrow> area_grows a c"
  by (cases a; cases b; cases c) auto

lemma area_grows_start:
  assumes "area_grows a b" and "area_ok med p a"
  shows "area_start b = area_start a"
  using assms file_chainD(6) [of med p] by (cases a; cases b) (auto simp: area_start_def area_ok_def)

text \<open>The directory in \<open>area\<close> beside the other chains, and the states it may go to: only its own
  sectors and the table change.\<close>

definition dir_inv :: "('d \<Rightarrow> sec_t \<Rightarrow> u8 list) \<Rightarrow> u32 list list \<Rightarrow> u32 list list \<Rightarrow> 'd partition \<Rightarrow> dir_area \<Rightarrow> bool" where
  "dir_inv med xs ys p area \<longleftrightarrow> area_ok med p area \<and>
     forest (fat_table med p) (FAT_fat_isValidCluster p) (xs @ area_chains area @ ys)"

definition dir_evolves :: "('d \<Rightarrow> sec_t \<Rightarrow> u8 list) \<Rightarrow> u32 list list \<Rightarrow> u32 list list \<Rightarrow> 'd partition \<Rightarrow> dir_area
    \<Rightarrow> 'd partition \<Rightarrow> dir_area \<Rightarrow> bool" where
  "dir_evolves med xs ys p area p' area' \<longleftrightarrow> dir_inv med xs ys p' area' \<and> same_volume p p' \<and> area_grows area area' \<and>
     (\<forall>t. \<not> in_table p t \<longrightarrow> t \<notin> area_secs p area' \<longrightarrow> pview med p' t = pview med p t)"

lemma vol_same:
  assumes "same_volume p p'"
  shows "sps p' = sps p" "slot_count p' = slot_count p" "slot_at p' = slot_at p" "pos_sector p' = pos_sector p"
    "slot_bytes v p' = slot_bytes v p" "dir_content v p' = dir_content v p" "area_secs p' = area_secs p"
    "p_dataStart p' = p_dataStart p" "p_rootDirStart p' = p_rootDirStart p" "p_rootDirCluster p' = p_rootDirCluster p"
    "p_filesysType p' = p_filesysType p" "p_readOnly p' = p_readOnly p" "p_cwdCluster p' = p_cwdCluster p"
    "same_region (p_fat p) (p_fat p')"
proof -
  obtain c f where q: "p' = p\<lparr>p_cache := c, p_fat := f\<rparr>" "same_region (p_fat p) f"
    using assms unfolding same_volume_def by blast
  note sv = same_volumeD [OF assms]
  show geo: "p_dataStart p' = p_dataStart p" "p_rootDirStart p' = p_rootDirStart p" "p_rootDirCluster p' = p_rootDirCluster p"
    "p_filesysType p' = p_filesysType p" "p_readOnly p' = p_readOnly p" "p_cwdCluster p' = p_cwdCluster p"
    "same_region (p_fat p) (p_fat p')"
    using q by simp_all
  show s: "sps p' = sps p" by (simp add: sps_def sv)
  show n: "slot_count p' = slot_count p"
    by (simp add: fun_eq_iff slot_count_def area_sectors_def s sv geo split: dir_area.split)
  show a: "slot_at p' = slot_at p" by (simp add: fun_eq_iff slot_at_def sector_pos_def s sv split: dir_area.split)
  show q: "pos_sector p' = pos_sector p" by (simp add: fun_eq_iff pos_sector_def sv)
  show b: "slot_bytes v p' = slot_bytes v p" by (simp add: fun_eq_iff slot_bytes_def q)
  show "dir_content v p' = dir_content v p" by (simp add: fun_eq_iff dir_content_def n a b)
  show "area_secs p' = area_secs p" by (simp add: fun_eq_iff area_secs_def n a q)
qed

lemma dir_invD:
  assumes "dir_inv med xs ys p area"
  shows "area_ok med p area" "forest (fat_table med p) (FAT_fat_isValidCluster p) (xs @ area_chains area @ ys)"
  using assms by (simp_all add: dir_inv_def)

lemma dir_evolvesD:
  assumes "dir_evolves med xs ys p area p' area'"
  shows "dir_inv med xs ys p' area'" "same_volume p p'" "area_grows area area'"
    "\<not> in_table p t \<Longrightarrow> t \<notin> area_secs p area' \<Longrightarrow> pview med p' t = pview med p t"
  using assms by (simp_all add: dir_evolves_def)

lemma dir_evolves_refl: "dir_inv med xs ys p area \<Longrightarrow> dir_evolves med xs ys p area p area"
  by (simp add: dir_evolves_def same_volume_refl area_grows_refl)

lemma slot_at_grows:
  assumes "area_grows a b" and "i < slot_count p a" and "0 < sps p"
  shows "slot_at p b i = slot_at p a i" and "slot_count p a \<le> slot_count p b"
proof -
  have "slot_at p b i = slot_at p a i \<and> slot_count p a \<le> slot_count p b"
  proof (cases a)
    case Root
    then show ?thesis using assms(1) by simp
  next
    case (Chain cs)
    then obtain es where b: "b = Chain (cs @ es)" using assms(1) by (cases b) auto
    have "i div sps p div spc p < length cs"
      using slot_unit [OF assms(2,3)] by (simp add: Chain area_sectors_def less_mult_imp_div_less)
    then show ?thesis by (simp add: slot_at_def sector_pos_def Chain b nth_append slot_count_def area_sectors_def add_mult_distrib)
  qed
  then show "slot_at p b i = slot_at p a i" "slot_count p a \<le> slot_count p b" by simp_all
qed

lemma area_secs_grows: "area_grows a b \<Longrightarrow> 0 < sps p \<Longrightarrow> area_secs p a \<subseteq> area_secs p b"
proof
  fix t assume g: "area_grows a b" "0 < sps p" and "t \<in> area_secs p a"
  then obtain i where i: "i < slot_count p a" "t = pos_sector p (slot_at p a i)" by (auto simp: area_secs_def)
  note s = slot_at_grows [OF g(1) i(1) g(2)]
  have "i < slot_count p b" "t = pos_sector p (slot_at p b i)" using i s by simp_all
  then show "t \<in> area_secs p b" unfolding area_secs_def by blast
qed

lemma dir_evolves_trans:
  assumes pq: "dir_evolves med xs ys p a q b" and qr: "dir_evolves med xs ys q b r c"
  shows "dir_evolves med xs ys p a r c"
proof -
  note d = dir_evolvesD [OF pq] and e = dir_evolvesD [OF qr]
  have sps: "0 < sps p" using area_okD(4) [OF dir_invD(1) [OF d(1)]] vol_same(1) [OF d(2)] by simp
  have "pview med r t = pview med p t" if t: "\<not> in_table p t" "t \<notin> area_secs p c" for t
    using t d(4) [of t] e(4) [of t] area_secs_grows [OF e(3) sps] same_volumeD(12) [OF d(2)] vol_same(7) [OF d(2)] by auto
  then show ?thesis
    using e(1) same_volume_trans [OF d(2) e(2)] area_grows_trans [OF d(3) e(3)] by (simp add: dir_evolves_def)
qed

lemma dir_evolves_step:
  assumes inv: "dir_inv med xs ys p area" and st: "dir_step med area p p'"
  shows "dir_evolves med xs ys p area p' area"
  using inv dir_step_table [OF dir_invD(1) [OF inv] st] dir_stepD [OF st] isValid_same [OF dir_stepD(2) [OF st]]
    same_volume_part [OF dir_stepD(2) [OF st]]
  by (simp add: dir_evolves_def dir_inv_def area_grows_refl)

lemma dir_evolves_kept: "dir_inv med xs ys p area \<Longrightarrow> pkept med p p' \<Longrightarrow> dir_evolves med xs ys p area p' area"
  by (rule dir_evolves_step) (auto intro: dir_step_kept)

section \<open>A step past the last slot\<close>

definition malloc_ok :: "(nat \<Rightarrow> u8 list option) \<Rightarrow> bool" where
  "malloc_ok malloc \<longleftrightarrow> (\<forall>n. \<exists>block. malloc n = Some block \<and> length block = n)"

lemma next_in_chain_end:
  assumes ok: "area_ok med p area" and area: "area = Chain cs" and i: "Suc i = slot_count p area"
  obtains q where "pkept med p q" and "FAT_directory_incrementDirEntryPosition malloc p (slot_at p area i) True =
    do {
      (n, r) \<leftarrow> FAT_fat_linkFreeClusterCleared malloc q (last cs);
      if \<not> FAT_fat_isValidCluster r n then Some ((False, slot_at p area i), r)
      else Some ((True, \<lparr>dp_cluster = n, dp_sector = 0, dp_offset = 0\<rparr>), r)
    }"
proof -
  note a = area_okD [OF ok] and sl = slot_last [OF ok i]
  let ?u = "i div sps p"
  have ok': "area_ok med p (Chain cs)" using ok area by simp
  then have fc: "file_chain med p cs" by (simp add: area_ok_def)
  note cl = chain_last_unit [OF ok' sl(2) [unfolded area]]
  have k: "?u div spc p < length cs" using cl(2) by simp
  note nr = chain_not_root [OF ok' k]
  obtain q where q: "FAT_fat_nextCluster p (cs ! (?u div spc p)) = Some (fat_table med p (cs ! (?u div spc p)), q)" "pkept med p q"
    by (rule next_kept [OF a(2) nr(2)])
  have t: "fat_table med p (cs ! (?u div spc p)) = CLUSTER_EOF"
    using file_chain_next [OF fc k] cl(2) by simp
  have "FAT_directory_incrementDirEntryPosition malloc p (slot_at p area i) True =
    do {
      (n, r) \<leftarrow> FAT_fat_linkFreeClusterCleared malloc q (last cs);
      if \<not> FAT_fat_isValidCluster r n then Some ((False, slot_at p area i), r)
      else Some ((True, \<lparr>dp_cluster = n, dp_sector = 0, dp_offset = 0\<rparr>), r)
    }"
    unfolding step_out_of_sector [OF a(4) sl(1)]
    using nr cl(3,4) q(1) t by (simp add: sector_pos_def area cong: if_cong)
  with q(2) show thesis by (rule that)
qed

lemma table_inv_dir:
  "dir_inv med xs ys p area \<Longrightarrow> may_allocate p \<Longrightarrow> table_inv med p (xs @ area_chains area @ ys)"
  using area_okD(2) [of med p area] by (simp add: table_inv_def dir_inv_def may_allocate_def)

lemma slot_in_clusters:
  assumes ok: "area_ok med p (Chain cs)" and i: "i < slot_count p (Chain cs)"
  shows "\<exists>c \<in> set cs. in_cluster p c (pos_sector p (slot_at p (Chain cs) i))"
proof -
  note a = area_okD [OF ok]
  have "i div sps p div spc p < length cs"
    using slot_unit [OF i a(4)] by (simp add: area_sectors_def less_mult_imp_div_less)
  moreover have "i div sps p mod spc p < spc p" using a(6) by simp
  ultimately show ?thesis using slot_sector(3) [OF ok i] by (intro bexI [of _ "cs ! (i div sps p div spc p)"])
      (simp_all add: in_cluster_def in_range_def)
qed

lemma slot_of_cluster:
  assumes ok: "area_ok med p (Chain cs)" and k: "k < length cs" and t: "in_cluster p (cs ! k) t"
  shows "t \<in> area_secs p (Chain cs)"
proof -
  note a = area_okD [OF ok]
  have fc: "file_chain med p cs" using ok by (simp add: area_ok_def)
  let ?s = "unat t - unat (FAT_fat_clusterToSector p (cs ! k))"
  let ?i = "(k * spc p + ?s) * sps p"
  have s: "?s < spc p" "unat (FAT_fat_clusterToSector p (cs ! k)) \<le> unat t" using t by (auto simp: in_cluster_def in_range_def)
  have "k * spc p + ?s < (k + 1) * spc p" using s(1) by simp
  also have "\<dots> \<le> length cs * spc p" using k by (intro mult_le_mono1) simp
  finally have lt: "?i < slot_count p (Chain cs)" using a(4) by (simp add: slot_count_def area_sectors_def)
  have u: "?i div sps p = k * spc p + ?s" using a(4) by simp
  have "(k * spc p + ?s) div spc p = k" "(k * spc p + ?s) mod spc p = ?s" using s(1) by simp_all
  then have "unat (pos_sector p (slot_at p (Chain cs) ?i)) = unat (FAT_fat_clusterToSector p (cs ! k)) + ?s"
    using slot_sector(3) [OF ok lt] by (simp add: u)
  then have "t = pos_sector p (slot_at p (Chain cs) ?i)" using s(2) by (intro word_eqI_unat) simp
  then show ?thesis using lt by (auto simp: area_secs_def)
qed

text \<open>The new cluster behind the chain of a directory.\<close>

lemma grown_directory:
  assumes inv: "dir_inv med xs ys p (Chain cs)" and ok': "part_ok med p'" and sv: "same_volume p p'"
    and n: "FAT_fat_isValidCluster p n" "n \<notin> set cs"
    and f: "forest (fat_table med p') (FAT_fat_isValidCluster p) (xs @ (cs @ [n]) # ys)"
    and view: "\<And>t. \<not> in_table p t \<Longrightarrow> pview med p' t = (if in_cluster p n t then replicate (bps p) 0 else pview med p t)"
  shows "dir_evolves med xs ys p (Chain cs) p' (Chain (cs @ [n]))"
    and "take (slot_count p (Chain cs)) (dir_content (pview med p') p' (Chain (cs @ [n]))) = dir_content (pview med p) p (Chain cs)"
    and "\<And>x. x \<in> set (drop (slot_count p (Chain cs)) (dir_content (pview med p') p' (Chain (cs @ [n])))) \<Longrightarrow> snd x = replicate 32 0"
    and "slot_count p (Chain cs) < slot_count p' (Chain (cs @ [n]))"
proof -
  let ?a = "Chain cs" and ?b = "Chain (cs @ [n])"
  note ok = dir_invD(1) [OF inv] and vs = vol_same [OF sv] and sd = same_volumeD [OF sv]
  note a = area_okD [OF ok]
  have vol: "volume_ok med p'" by (rule same_volume_ok [OF sv a(1) ok'])
  have ch: "chain (fat_table med p') (FAT_fat_isValidCluster p) (cs @ [n])" "fat_table med p' (last (cs @ [n])) = CLUSTER_EOF"
    using forestD(1,2) [OF f, of "cs @ [n]"] by simp_all
  then have okb: "area_ok med p' ?b" using ok vol by (simp add: area_ok_def file_chain_def sd)
  have invb: "dir_inv med xs ys p' ?b" using okb f by (simp add: dir_inv_def area_chains_def sd)
  have grows: "area_grows ?a ?b" by simp
  note sg = slot_at_grows [OF grows _ a(4)]
  have frame: "pview med p' t = pview med p t" if t: "\<not> in_table p t" "t \<notin> area_secs p ?b" for t
  proof -
    have "t \<notin> area_secs p' ?b" using t(2) vs by simp
    then have "\<not> in_cluster p' ((cs @ [n]) ! length cs) t" using slot_of_cluster [OF okb, of "length cs" t] by auto
    then have "\<not> in_cluster p n t" using sd(13) by simp
    then show ?thesis using view [OF t(1)] by simp
  qed
  show "dir_evolves med xs ys p ?a p' ?b" using invb sv frame by (simp add: dir_evolves_def)
  have count: "slot_count p ?b = slot_count p ?a + spc p * sps p"
    by (simp add: slot_count_def area_sectors_def add_mult_distrib)
  then show lt: "slot_count p ?a < slot_count p' ?b" using a(4,6) by (simp add: vs)
  have old: "slot_bytes (pview med p') p (slot_at p ?b i) = slot_bytes (pview med p) p (slot_at p ?a i)"
    if i: "i < slot_count p ?a" for i
  proof -
    let ?t = "pos_sector p (slot_at p ?a i)"
    obtain c where c: "c \<in> set cs" "in_cluster p c ?t" using slot_in_clusters [OF ok i] by blast
    have "FAT_fat_isValidCluster p c" using c(1) file_chainD(8) [of med p cs c] ok by (simp add: area_ok_def)
    then have "\<not> in_cluster p n ?t" using clusters_disjoint [OF a(3) _ n(1) c(2)] c(1) n(2) by blast
    then have "pview med p' ?t = pview med p ?t" using view slot_sector(2) [OF ok i] by (simp add: in_table_def)
    then show ?thesis using sg(1) [OF i] by (simp add: slot_bytes_def)
  qed
  show "take (slot_count p ?a) (dir_content (pview med p') p' ?b) = dir_content (pview med p) p ?a"
    using lt old sg(1) by (intro nth_equalityI) (auto simp: nth_dir_content vs)
  show "snd x = replicate 32 0" if x: "x \<in> set (drop (slot_count p ?a) (dir_content (pview med p') p' ?b))" for x
  proof -
    obtain j where j: "slot_count p ?a \<le> j" "j < slot_count p ?b" "x = dir_content (pview med p') p' ?b ! j"
      using x by (auto simp: in_set_conv_nth vs) (metis add.commute le_add1 less_diff_conv nth_drop)
    have jb: "j < slot_count p' ?b" using j(2) by (simp add: vs)
    have "length cs * spc p \<le> j div sps p" using j(1) a(4) by (simp add: slot_count_def area_sectors_def less_eq_div_iff_mult_less_eq)
    then have "length cs \<le> j div sps p div spc p" using a(6) by (simp add: less_eq_div_iff_mult_less_eq)
    moreover have "j div sps p div spc p < length (cs @ [n])"
      using slot_unit [OF j(2) a(4)] by (simp add: area_sectors_def less_mult_imp_div_less)
    ultimately have k: "j div sps p div spc p = length cs" by simp
    let ?t = "pos_sector p (slot_at p ?b j)"
    have "j div sps p mod spc p < spc p" using a(6) by simp
    then have "in_cluster p n ?t"
      using slot_sector(3) [OF okb jb] k by (simp add: vs sd in_cluster_def in_range_def)
    moreover have "\<not> in_table p ?t" using slot_sector(2) [OF okb jb] sd(12) by (simp add: in_table_def vs fun_eq_iff)
    ultimately have "pview med p' ?t = replicate (bps p) 0" using view by simp
    moreover have "32 \<le> bps p - j mod sps p * 32" using unat_slot_place(2) [OF ok, of j] by linarith
    ultimately show ?thesis
      using unat_slot_offset [OF a(4), of ?b j] j(2)
      by (simp add: j(3) nth_dir_content vs slot_bytes_def slice_def min_def)
  qed
qed

text \<open>What a step with extension may do: the slots so far stay as they are, new ones are empty.\<close>

definition extended :: "slot list \<Rightarrow> slot list \<Rightarrow> bool" where
  "extended old new \<longleftrightarrow> (\<exists>zs. new = old @ zs \<and> (\<forall>z \<in> set zs. snd z = replicate 32 0))"

lemma extended_refl: "extended c c"
  by (simp add: extended_def)

lemma extended_trans: "extended a b \<Longrightarrow> extended b c \<Longrightarrow> extended a c"
  unfolding extended_def by fastforce

definition no_room :: "('d \<Rightarrow> sec_t \<Rightarrow> u8 list) \<Rightarrow> 'd partition \<Rightarrow> dir_area \<Rightarrow> bool" where
  "no_room med p area \<longleftrightarrow> area = Root \<or> full med p"

lemma full_kept: "pkept med p q \<Longrightarrow> full med q = full med p"
  by (simp add: full_def pkept_table pkept_valid)

lemma extend_chain:
  assumes inv: "dir_inv med xs ys p (Chain cs)" and ff: "may_allocate p" and m: "malloc_ok malloc"
    and i: "Suc i = slot_count p (Chain cs)"
  obtains (grown) n p' where "FAT_directory_incrementDirEntryPosition malloc p (slot_at p (Chain cs) i) True =
        Some ((True, slot_at p (Chain (cs @ [n])) (Suc i)), p')"
      and "dir_evolves med xs ys p (Chain cs) p' (Chain (cs @ [n]))" and "may_allocate p'"
      and "extended (dir_content (pview med p) p (Chain cs)) (dir_content (pview med p') p' (Chain (cs @ [n])))"
      and "Suc i < slot_count p' (Chain (cs @ [n]))"
  | (stuck) p' where "FAT_directory_incrementDirEntryPosition malloc p (slot_at p (Chain cs) i) True =
        Some ((False, slot_at p (Chain cs) i), p')"
      and "dir_evolves med xs ys p (Chain cs) p' (Chain cs)"
      and "dir_content (pview med p') p' (Chain cs) = dir_content (pview med p) p (Chain cs)" and "full med p'"
proof -
  note ok = dir_invD(1) [OF inv]
  note a = area_okD [OF ok]
  have fc: "file_chain med p cs" using ok by (simp add: area_ok_def)
  obtain q where q: "pkept med p q" "FAT_directory_incrementDirEntryPosition malloc p (slot_at p (Chain cs) i) True =
    do {
      (n, r) \<leftarrow> FAT_fat_linkFreeClusterCleared malloc q (last cs);
      if \<not> FAT_fat_isValidCluster r n then Some ((False, slot_at p (Chain cs) i), r)
      else Some ((True, \<lparr>dp_cluster = n, dp_sector = 0, dp_offset = 0\<rparr>), r)
    }"
    by (rule next_in_chain_end [OF ok refl i])
  note ev = dir_evolves_kept [OF inv q(1)]
  note invq = dir_evolvesD(1) [OF ev] and spq = pkeptD(2) [OF q(1)]
  have okq: "area_ok med q (Chain cs)" by (rule dir_invD(1) [OF invq])
  then have fcq: "file_chain med q cs" by (simp add: area_ok_def)
  have ffq: "may_allocate q" using ff same_partD(12) [OF spq] by (simp add: may_allocate_def)
  have tab: "table_inv med q (xs @ cs # ys)" using table_inv_dir [OF invq ffq] by (simp add: area_chains_def)
  have v: "FAT_fat_isValidCluster q (last cs)" using file_chainD(6,8) [OF fcq] by simp
  have eof: "fat_table med q (last cs) = CLUSTER_EOF" by (rule file_chainD(5) [OF fcq])
  note Vq = isValid_same [OF spq]
  have Vp: "proper (FAT_fat_isValidCluster p)" by (rule proper_valid [OF a(2)])
  from tab disjI2 [OF conjI [OF v eof]] show thesis
  proof (cases rule: linkFree_cases)
    case (taken n r)
    note svr = same_volume_trans [OF same_volume_part [OF spq] same_volume_step [OF taken(3)]]
    have vn: "FAT_fat_isValidCluster p n" using taken(6) Vq by simp
    have nr: "FAT_fat_isValidCluster r n" using vn same_volumeD(11) [OF svr] by simp
    have dr: "data_ok r" using a(3) same_volumeD(10) [OF svr] by simp
    obtain block where block: "malloc (unat (p_bytesPerSector r)) = Some block" "length block = unat (p_bytesPerSector r)"
      using m unfolding malloc_ok_def by blast
    obtain p' where p': "FAT_fat_linkFreeClusterCleared malloc q (last cs) = Some (n, p')"
      "pview med p' = (\<lambda>s. if in_cluster r n s then replicate (bps r) 0 else pview med r s)"
      "part_ok med p'" "same_part r p'" "fat_table med p' = fat_table med r"
      using linkFreeClusterCleared_spec [where malloc = malloc, OF taken(1,2) dr nr block] by blast
    note sv = same_volume_trans [OF svr same_volume_part [OF p'(4)]]
    have nf: "last cs \<noteq> CLUSTER_FREE" using v proper_valid [OF area_okD(2) [OF okq]] by (auto simp: proper_def)
    have fq: "forest (fat_table med q) (FAT_fat_isValidCluster p) (xs @ cs # ys)"
      using table_invD(2) [OF tab] Vq by simp
    have f: "forest (fat_table med p') (FAT_fat_isValidCluster p) (xs @ (cs @ [n]) # ys)"
      using forest_extend [OF fq Vp vn taken(7)] taken(4) nf p'(5) by simp
    have "n \<notin> set (concat (xs @ cs # ys))" using forest_used(2) [OF fq Vp, of n] taken(7) by blast
    then have fresh: "n \<notin> set cs" by simp
    have view: "pview med p' t = (if in_cluster p n t then replicate (bps p) 0 else pview med p t)" if t: "\<not> in_table p t" for t
    proof -
      have "pview med r t = pview med q t"
        using fs_stepD(19) [OF taken(3), of t] t same_partD(12) [OF spq] by (simp add: in_table_def)
      then show ?thesis using p'(2) pkeptD(3) [OF q(1)] same_volumeD(1,13) [OF svr] by simp
    qed
    note g = grown_directory [OF inv p'(3) sv vn fresh f view]
    have "FAT_fat_isValidCluster p' n" using vn same_volumeD(11) [OF sv] by simp
    moreover have "slot_at p (Chain (cs @ [n])) (Suc i) = \<lparr>dp_cluster = n, dp_sector = 0, dp_offset = 0\<rparr>"
    proof -
      have "Suc i div sps p = length cs * spc p" "Suc i mod sps p = 0" using i a(4) by (simp_all add: slot_count_def area_sectors_def)
      then show ?thesis using a(6) by (simp add: slot_at_def sector_pos_def)
    qed
    ultimately have "FAT_directory_incrementDirEntryPosition malloc p (slot_at p (Chain cs) i) True =
        Some ((True, slot_at p (Chain (cs @ [n])) (Suc i)), p')"
      unfolding q(2) using p'(1) by simp
    moreover have "may_allocate p'"
      using taken(5,6) fs_stepD(17) [OF taken(3)] same_partD(12) [OF p'(4)]
      by (simp add: may_allocate_def note_alloc_def FAT_fat_isValidCluster_def)
    moreover have "extended (dir_content (pview med p) p (Chain cs)) (dir_content (pview med p') p' (Chain (cs @ [n])))"
    proof -
      let ?c = "dir_content (pview med p') p' (Chain (cs @ [n]))" let ?k = "slot_count p (Chain cs)"
      have "?c = dir_content (pview med p) p (Chain cs) @ drop ?k ?c" using g(2) by (metis append_take_drop_id)
      then show ?thesis using g(3) unfolding extended_def by blast
    qed
    moreover have "Suc i < slot_count p' (Chain (cs @ [n]))" using g(4) i by simp
    ultimately show ?thesis using grown g(1) by blast
  next
    case (none r)
    note svr = same_volume_trans [OF same_volume_part [OF spq] same_volume_step [OF none(4)]]
    have "FAT_fat_linkFreeClusterCleared malloc q (last cs) = Some (CLUSTER_ERROR, r)"
      using none(2) by (simp add: FAT_fat_linkFreeClusterCleared_def)
    moreover have "\<not> FAT_fat_isValidCluster r CLUSTER_ERROR"
      using valid_link(2) [OF part_okD(2) [OF none(3)], of CLUSTER_ERROR] by blast
    ultimately have run: "FAT_directory_incrementDirEntryPosition malloc p (slot_at p (Chain cs) i) True =
        Some ((False, slot_at p (Chain cs) i), r)"
      unfolding q(2) by simp
    have view: "pview med r t = pview med p t" if "\<not> in_table p t" for t
      using fs_stepD(19) [OF none(4), of t] that same_partD(12) [OF spq] pkeptD(3) [OF q(1)] by (simp add: in_table_def)
    have vol: "volume_ok med r" by (rule same_volume_ok [OF svr a(1) none(3)])
    have inv': "dir_inv med xs ys r (Chain cs)"
      using invq vol none(5) same_volumeD(11) [OF same_volume_step [OF none(4)]] same_volumeD(1) [OF svr] 
        same_partD(8) [OF spq]
      by (simp add: dir_inv_def area_ok_def file_chain_def)
    have ev': "dir_evolves med xs ys p (Chain cs) r (Chain cs)"
      using inv' svr view by (simp add: dir_evolves_def)
    have "dir_content (pview med r) p (Chain cs) = dir_content (pview med p) p (Chain cs)"
      using slot_sector(2) [OF ok] view by (auto simp: dir_content_def slot_bytes_def in_table_def)
    then have "dir_content (pview med r) r (Chain cs) = dir_content (pview med p) p (Chain cs)"
      using vol_same(6) [OF svr] by simp
    moreover have "full med r"
      using none(1,5) same_volumeD(11) [OF same_volume_step [OF none(4)]] by (simp add: full_def)
    ultimately show ?thesis using stuck run ev' by blast
  qed
qed

lemma next_slot:
  assumes inv: "dir_inv med xs ys p area" and ff: "may_allocate p" and m: "malloc_ok malloc"
    and i: "i < slot_count p area"
  obtains (further) area' p' where "FAT_directory_incrementDirEntryPosition malloc p (slot_at p area i) True =
        Some ((True, slot_at p area' (Suc i)), p')"
      and "dir_evolves med xs ys p area p' area'" and "may_allocate p'" and "Suc i < slot_count p' area'"
      and "extended (dir_content (pview med p) p area) (dir_content (pview med p') p' area')"
      and "Suc i < slot_count p area \<Longrightarrow> area' = area"
  | (stuck) p' where "FAT_directory_incrementDirEntryPosition malloc p (slot_at p area i) True =
        Some ((False, slot_at p area i), p')"
      and "dir_evolves med xs ys p area p' area" and "dir_content (pview med p') p' area = dir_content (pview med p) p area"
      and "no_room med p' area" and "Suc i = slot_count p area"
proof (cases "Suc i < slot_count p area")
  case True
  obtain p' where p': "FAT_directory_incrementDirEntryPosition malloc p (slot_at p area i) True =
      Some ((True, slot_at p area (Suc i)), p')" "pkept med p p'"
    by (rule step_next [OF dir_invD(1) [OF inv] True])
  note sp = pkeptD(2) [OF p'(2)]
  have "may_allocate p'" using ff same_partD(12) [OF sp] by (simp add: may_allocate_def)
  then show thesis
    using further [OF p'(1) dir_evolves_kept [OF inv p'(2)]] True dir_content_kept [OF p'(2)] area_same(2) [OF sp] extended_refl
    by metis
next
  case False
  then have l: "Suc i = slot_count p area" using i by simp
  show thesis
  proof (cases area)
    case Root
    obtain p' where p': "FAT_directory_incrementDirEntryPosition malloc p (slot_at p area i) True =
        Some ((False, slot_at p area i), p')" "pkept med p p'"
      by (rule step_end [OF dir_invD(1) [OF inv] l Root])
    then show thesis using stuck dir_evolves_kept [OF inv p'(2)] dir_content_kept [OF p'(2)] Root l
      by (simp add: no_room_def)
  next
    case (Chain cs)
    from inv [unfolded Chain] ff m l [unfolded Chain] show thesis
    proof (cases rule: extend_chain)
      case (grown n p')
      then show ?thesis using further [of "Chain (cs @ [n])" p'] Chain l by simp
    next
      case (stuck p')
      then show ?thesis using that(2) [of p'] Chain l by (simp add: no_room_def)
    qed
  qed
qed

end
