(* ===== verification/DirTidy.thy ===== *)
theory DirTidy
  imports DirGrow
begin

text \<open>
  Tidy directories: slots that are free or skipped, groups of slots that make an entry with its long
  name, and behind them an end mark or the end of the directory. Creating and removing entries
  keep a directory tidy; in a directory that is not, a long name without its entry could attach itself
  to another one.
\<close>

section \<open>Items\<close>

datatype item = Skip slot | Named "slot list" slot

fun item_slots :: "item \<Rightarrow> slot list" where
  "item_slots (Skip s) = [s]"
| "item_slots (Named ns s) = ns @ [s]"

definition is_free :: "slot \<Rightarrow> bool" where
  "is_free s \<longleftrightarrow> snd s ! 0 = DIR_ENTRY_FREE"

definition is_last :: "slot \<Rightarrow> bool" where
  "is_last s \<longleftrightarrow> snd s ! 0 = DIR_ENTRY_LAST"

definition skipped :: "slot \<Rightarrow> bool" where
  "skipped s \<longleftrightarrow> \<not> is_last s \<and> (is_free s \<or> snd s ! DIR_ENTRY_attributes \<noteq> ATTRIB_LFN \<and>
     (snd s ! DIR_ENTRY_attributes AND ATTRIB_VOL \<noteq> 0 \<or> \<not> snd s ! 0 > 0x20))"

text \<open>The entry a group of slots makes.\<close>

definition item_entry :: "'mb char_env \<Rightarrow> item \<Rightarrow> dir_entry option" where
  "item_entry env i = (case i of Skip s \<Rightarrow> None
     | Named ns s \<Rightarrow> (case scan_slots env (ns @ [s]) scan_start of Some (Some (e, [])) \<Rightarrow> Some e | _ \<Rightarrow> None))"

definition item_ok :: "'mb char_env \<Rightarrow> item \<Rightarrow> bool" where
  "item_ok env i = (case i of Skip s \<Rightarrow> skipped s
     | Named ns s \<Rightarrow> list_all (\<lambda>x. \<not> is_free x \<and> \<not> is_last x) (ns @ [s]) \<and>
         (case item_entry env i of None \<Rightarrow> False
          | Some e \<Rightarrow> de_dataStart e = fst (hd (ns @ [s])) \<and> de_dataEnd e = fst s))"

definition tail_ok :: "slot list \<Rightarrow> bool" where
  "tail_ok tail \<longleftrightarrow> tail = [] \<or> is_last (hd tail) \<and> snd (hd tail) ! DIR_ENTRY_attributes \<noteq> ATTRIB_LFN \<and>
     snd (hd tail) ! DIR_ENTRY_attributes AND ATTRIB_VOL = 0"

definition slots_of :: "item list \<Rightarrow> slot list" where
  "slots_of items = concat (map item_slots items)"

definition listing :: "'mb char_env \<Rightarrow> item list \<Rightarrow> dir_entry list" where
  "listing env items = List.map_filter (item_entry env) items"

definition tidy :: "'mb char_env \<Rightarrow> slot list \<Rightarrow> item list \<Rightarrow> slot list \<Rightarrow> bool" where
  "tidy env content items tail \<longleftrightarrow> content = slots_of items @ tail \<and> list_all (item_ok env) items \<and> tail_ok tail"

lemma slots_of_simps [simp]:
  "slots_of [] = []" "slots_of (i # items) = item_slots i @ slots_of items" "slots_of (xs @ ys) = slots_of xs @ slots_of ys"
  by (simp_all add: slots_of_def)

lemma listing_simps [simp]:
  "listing env [] = []" "listing env (Skip s # items) = listing env items"
  "listing env (xs @ ys) = listing env xs @ listing env ys"
  by (simp_all add: listing_def map_filter_def item_entry_def)

lemma listing_Cons: "listing env (i # items) = (case item_entry env i of None \<Rightarrow> listing env items | Some e \<Rightarrow> e # listing env items)"
  by (simp add: listing_def map_filter_def split: option.split)

section \<open>The listing is what the scan finds\<close>

lemma scan_slots_append:
  "scan_slots env slots s = Some (Some (e, r)) \<Longrightarrow> scan_slots env (slots @ rest) s = Some (Some (e, r @ rest))"
proof (induction env slots s rule: scan_slots.induct)
  case (2 env pos data rest' s)
  show ?case using 2(4) 2(1-3) [OF refl]
    by (auto simp: Let_def bind_eq_Some_conv split: if_splits)
qed simp

lemma free_byte: "DIR_ENTRY_FREE AND LFN_DEL \<noteq> 0" "\<not> DIR_ENTRY_LAST > 0x20"
  by (simp_all add: DIR_ENTRY_FREE_def LFN_DEL_def DIR_ENTRY_LAST_def)

lemma scan_skipped:
  assumes sk: "skipped x" and s: "\<not> ds_lfnExists s"
  shows "scan_slots env (x # rest) s = scan_slots env rest s"
proof -
  obtain pos d where x: "x = (pos, d)" by (cases x)
  let ?s = "s\<lparr>ds_end := pos, ds_data := Some d\<rparr>"
  have same: "same_scan ?s s" using s by (simp add: same_scan_def)
  show ?thesis
  proof (cases "d ! DIR_ENTRY_attributes = ATTRIB_LFN")
    case True
    then have "d ! 0 = DIR_ENTRY_FREE" using sk by (auto simp: skipped_def is_free_def x)
    then have "scan_lfn d ?s = Some ?s" using s free_byte(1) by (simp add: scan_lfn_def Let_def)
    then show ?thesis using True scan_slots_same [OF same] by (simp add: x)
  next
    case False
    then have "d ! DIR_ENTRY_attributes AND ATTRIB_VOL \<noteq> 0 \<or> d ! 0 \<noteq> DIR_ENTRY_LAST \<and> \<not> (d ! 0 \<noteq> DIR_ENTRY_FREE \<and> d ! 0 > 0x20)"
      using sk by (auto simp: skipped_def is_free_def is_last_def x)
    then show ?thesis using False scan_slots_same [OF same] by (auto simp: x Let_def)
  qed
qed

lemma entries_of_skipped: "skipped x \<Longrightarrow> entries_of env (x # rest) = entries_of env rest"
  using scan_skipped [of x scan_start env rest]
  by (subst (1 2) entries_of.simps) (simp add: scan_start_def Let_def)

lemma entries_of_named:
  assumes "item_ok env (Named ns s)" and "item_entry env (Named ns s) = Some e"
  shows "entries_of env (ns @ s # rest) = map_option ((#) e) (entries_of env rest)"
proof -
  have "scan_slots env (ns @ [s]) scan_start = Some (Some (e, []))"
    using assms(2) by (auto simp: item_entry_def split: option.splits list.splits)
  from scan_slots_append [OF this, of rest] show ?thesis by (subst entries_of.simps) simp
qed

lemma entries_of_tail: "tail_ok tail \<Longrightarrow> entries_of env tail = Some []"
  by (cases tail) (auto simp: entries_of_Nil tail_ok_def is_last_def Let_def)

lemma named_entry: "item_ok env (Named ns s) \<Longrightarrow> \<exists>e. item_entry env (Named ns s) = Some e"
  by (auto simp: item_ok_def split: option.splits)

lemma entries_of_items:
  assumes "list_all (item_ok env) items"
  shows "entries_of env (slots_of items @ rest) = map_option ((@) (listing env items)) (entries_of env rest)"
  using assms
proof (induction items)
  case Nil
  then show ?case by (cases "entries_of env rest") auto
next
  case (Cons i items)
  show ?case
  proof (cases i)
    case (Skip s)
    then have "skipped s" using Cons.prems by (simp add: item_ok_def)
    then show ?thesis using Cons by (simp add: Skip entries_of_skipped)
  next
    case (Named ns s)
    then have ok: "item_ok env (Named ns s)" using Cons.prems by simp
    obtain e where e: "item_entry env (Named ns s) = Some e" using named_entry [OF ok] by blast
    show ?thesis
      using Cons entries_of_named [OF ok e, of "slots_of items @ rest"]
      by (cases "entries_of env rest") (simp_all add: Named listing_Cons e)
  qed
qed

lemma tidy_entries: "tidy env content items tail \<Longrightarrow> entries_of env content = Some (listing env items)"
  by (simp add: tidy_def entries_of_items entries_of_tail)

section \<open>Gaps\<close>

lemma item_nonempty [simp]: "item_slots i \<noteq> []"
  by (cases i) simp_all

lemma items_not_last: "list_all (item_ok env) items \<Longrightarrow> x \<in> set (slots_of items) \<Longrightarrow> \<not> is_last x"
proof (induction items)
  case (Cons i items)
  then show ?case by (cases i) (auto simp: item_ok_def skipped_def list_all_iff)
qed simp

lemma first_last:
  assumes t: "tidy env content items tail" and l: "l < length content" "is_last (content ! l)"
    and before: "\<And>j. j < l \<Longrightarrow> \<not> is_last (content ! j)"
  shows "l = length (slots_of items)" and "tail \<noteq> []"
proof -
  have c: "content = slots_of items @ tail" and ok: "list_all (item_ok env) items" and tl: "tail_ok tail"
    using t by (simp_all add: tidy_def)
  have ge: "length (slots_of items) \<le> l"
  proof (rule ccontr)
    assume "\<not> length (slots_of items) \<le> l"
    then have "content ! l \<in> set (slots_of items)" by (simp add: c nth_append)
    then show False using items_not_last [OF ok] l(2) by blast
  qed
  then show ne: "tail \<noteq> []" using l(1) by (auto simp: c)
  then have "content ! length (slots_of items) = hd tail" by (simp add: c nth_append hd_conv_nth)
  then have "is_last (content ! length (slots_of items))" using tl ne by (auto simp: tail_ok_def)
  then show "l = length (slots_of items)" using before [of "length (slots_of items)"] ge by (cases "length (slots_of items) = l") auto
qed

text \<open>A run of free slots is a run of skipped items.\<close>

lemma named_slot_not_free:
  "item_ok env (Named ns s) \<Longrightarrow> x \<in> set (ns @ [s]) \<Longrightarrow> \<not> is_free x"
  by (auto simp: item_ok_def list_all_iff)

lemma free_run:
  assumes "list_all (item_ok env) items" and "g + n \<le> length (slots_of items)"
    and "\<And>j. g \<le> j \<Longrightarrow> j < g + n \<Longrightarrow> is_free (slots_of items ! j)" and "0 < n"
  obtains i1 mid i2 where "items = i1 @ mid @ i2" and "slots_of i1 = take g (slots_of items)" and "length (slots_of mid) = n"
    and "listing env mid = []"
proof -
  have start: "\<exists>mid i2. items = mid @ i2 \<and> length (slots_of mid) = n \<and> listing env mid = []"
    if "list_all (item_ok env) items" "n \<le> length (slots_of items)" "\<And>j. j < n \<Longrightarrow> is_free (slots_of items ! j)" for items n
    using that
  proof (induction n arbitrary: items)
    case 0
    show ?case by (intro exI [of _ "[]"] exI [of _ items]) simp
  next
    case (Suc n)
    then obtain i items' where its: "items = i # items'" by (cases items) auto
    have free: "is_free (slots_of items ! 0)" using Suc.prems(3) [of 0] by simp
    show ?case
    proof (cases i)
      case (Named ns s)
      have "slots_of items ! 0 \<in> set (ns @ [s])" by (simp add: its Named nth_append)
      then show ?thesis using named_slot_not_free [of env ns s] Suc.prems(1) free by (simp add: its Named)
    next
      case (Skip s)
      have "\<exists>mid i2. items' = mid @ i2 \<and> length (slots_of mid) = n \<and> listing env mid = []"
      proof (rule Suc.IH)
        show "list_all (item_ok env) items'" "n \<le> length (slots_of items')" using Suc.prems(1,2) by (simp_all add: its Skip)
        show "is_free (slots_of items' ! j)" if "j < n" for j using Suc.prems(3) [of "Suc j"] that by (simp add: its Skip)
      qed
      then obtain mid i2 where "items' = mid @ i2" "length (slots_of mid) = n" "listing env mid = []" by blast
      then show ?thesis by (intro exI [of _ "Skip s # mid"] exI [of _ i2]) (simp add: its Skip)
    qed
  qed
  have "\<exists>i1 mid i2. items = i1 @ mid @ i2 \<and> slots_of i1 = take g (slots_of items) \<and> length (slots_of mid) = n \<and> listing env mid = []"
    using assms
  proof (induction items arbitrary: g)
    case Nil
    then show ?case by simp
  next
    case (Cons i items)
    let ?k = "length (item_slots i)"
    show ?case
    proof (cases "g = 0")
      case True
      have "\<exists>mid i2. i # items = mid @ i2 \<and> length (slots_of mid) = n \<and> listing env mid = []"
        using Cons.prems True by (intro start) simp_all
      then obtain mid i2 where "i # items = mid @ i2" "length (slots_of mid) = n" "listing env mid = []" by blast
      then show ?thesis by (intro exI [of _ "[]"] exI [of _ mid] exI [of _ i2]) (simp add: True)
    next
      case False
      have k: "?k \<le> g"
      proof (cases i)
        case (Named ns s)
        show ?thesis
        proof (rule ccontr)
          assume "\<not> ?k \<le> g"
          then have "slots_of (i # items) ! g \<in> set (ns @ [s])"
            using nth_mem [of g "ns @ [s]"] by (simp add: Named nth_append)
          moreover have "is_free (slots_of (i # items) ! g)" using Cons.prems(3) [of g] Cons.prems(4) by simp
          moreover have "item_ok env (Named ns s)" using Cons.prems(1) Named by simp
          ultimately show False using named_slot_not_free by blast
        qed
      qed (use False in simp)
      have "\<exists>i1 mid i2. items = i1 @ mid @ i2 \<and> slots_of i1 = take (g - ?k) (slots_of items) \<and> length (slots_of mid) = n \<and> listing env mid = []"
      proof (rule Cons.IH)
        show "list_all (item_ok env) items" "g - ?k + n \<le> length (slots_of items)" "0 < n" using Cons.prems k by simp_all
        show "is_free (slots_of items ! j)" if "g - ?k \<le> j" "j < g - ?k + n" for j
          using Cons.prems(3) [of "j + ?k"] that k by (simp add: nth_append)
      qed
      then obtain i1 mid i2 where "items = i1 @ mid @ i2" "slots_of i1 = take (g - ?k) (slots_of items)"
        "length (slots_of mid) = n" "listing env mid = []" by blast
      then show ?thesis using k by (intro exI [of _ "i # i1"] exI [of _ mid] exI [of _ i2]) simp
    qed
  qed
  then show thesis using that by blast
qed

text \<open>A gap of \<open>n\<close> slots at \<open>g\<close>, after which a new item fits into the directory.\<close>

definition gap_in :: "'mb char_env \<Rightarrow> slot list \<Rightarrow> nat \<Rightarrow> nat \<Rightarrow> item list \<Rightarrow> item list \<Rightarrow> slot list \<Rightarrow> bool" where
  "gap_in env content g n i1 i2 tail \<longleftrightarrow> g + n \<le> length content \<and> take g content = slots_of i1 \<and>
     drop (g + n) content = slots_of i2 @ tail \<and> list_all (item_ok env) (i1 @ i2) \<and> tail_ok tail"

lemma gap_filled:
  assumes "gap_in env content g n i1 i2 tail" and "item_ok env i" and "length (item_slots i) = n"
  shows "tidy env (splice content g (item_slots i)) (i1 @ i # i2) tail"
  using assms by (simp add: gap_in_def tidy_def splice_def)

lemma gap_between:
  assumes t: "tidy env content items tail" and n: "0 < n" and g: "g + n \<le> length content"
    and free: "\<And>j. g \<le> j \<Longrightarrow> j < g + n \<Longrightarrow> is_free (content ! j)"
    and last: "\<And>j. j < g + n \<Longrightarrow> \<not> is_last (content ! j)"
  obtains i1 i2 where "gap_in env content g n i1 i2 tail" and "listing env items = listing env (i1 @ i2)"
proof -
  have c: "content = slots_of items @ tail" and ok: "list_all (item_ok env) items" and tl: "tail_ok tail"
    using t by (simp_all add: tidy_def)
  have le: "g + n \<le> length (slots_of items)"
  proof (rule ccontr)
    assume "\<not> g + n \<le> length (slots_of items)"
    then have lt: "length (slots_of items) < g + n" by simp
    then have "tail \<noteq> []" using g by (auto simp: c)
    then have "is_last (content ! length (slots_of items))"
      using tl by (auto simp: c nth_append hd_conv_nth tail_ok_def)
    then show False using last [OF lt] by blast
  qed
  have "is_free (slots_of items ! j)" if "g \<le> j" "j < g + n" for j using free [OF that] le that by (simp add: c nth_append)
  then obtain i1 mid i2 where its: "items = i1 @ mid @ i2" "slots_of i1 = take g (slots_of items)" "length (slots_of mid) = n"
    "listing env mid = []"
    by (rule free_run [OF ok le _ n])
  have "length (slots_of i1) = g" using its(2) le by simp
  then have "drop (g + n) (slots_of items) = slots_of i2" using its(1,3) by simp
  then have "drop (g + n) content = slots_of i2 @ tail" using le by (simp add: c)
  moreover have "take g content = slots_of i1" using its(2) le by (simp add: c)
  moreover have "list_all (item_ok env) (i1 @ i2)" using ok unfolding its(1) by simp
  ultimately have "gap_in env content g n i1 i2 tail" using g tl by (simp add: gap_in_def)
  then show thesis using that its(1,4) by simp
qed

text \<open>The gap that reaches over the end mark, once the mark has been set behind it.\<close>

lemma gap_at_end:
  assumes t: "tidy env content items tail" and l: "l < length content" "is_last (content ! l)"
    and before: "\<And>j. j < l \<Longrightarrow> \<not> is_last (content ! j)" and g: "g \<le> l" "l < g + n"
    and free: "\<And>j. g \<le> j \<Longrightarrow> j < l \<Longrightarrow> is_free (content ! j)"
    and new: "g + n < length content'" "take l content' = take l content" "snd (content' ! (g + n)) = replicate 32 0"
  obtains i1 tail' where "gap_in env content' g n i1 [] tail'" and "listing env items = listing env i1"
proof -
  have c: "content = slots_of items @ tail" and ok: "list_all (item_ok env) items"
    using t by (simp_all add: tidy_def)
  have len: "l = length (slots_of items)" by (rule first_last(1) [OF t l before])
  obtain i1 where i1: "slots_of i1 = take g (slots_of items)" "listing env items = listing env i1" "list_all (item_ok env) i1"
  proof (cases "g = l")
    case True
    then show ?thesis using that [of items] len ok by simp
  next
    case False
    have le: "g + (l - g) \<le> length (slots_of items)" "0 < l - g" using len g(1) False by simp_all
    have fr: "is_free (slots_of items ! j)" if "g \<le> j" "j < g + (l - g)" for j
      using free [of j] that len g by (simp add: c nth_append)
    obtain i1 mid i2 where its: "items = i1 @ mid @ i2" "slots_of i1 = take g (slots_of items)" "length (slots_of mid) = l - g"
      "listing env mid = []"
      by (rule free_run [OF ok le(1) fr le(2)])
    have "length (slots_of i1) = g" using its(2) len g by simp
    then have "length (slots_of i2) = 0" using its(1,3) len g by simp
    then have "i2 = []" by (cases i2) simp_all
    then have "listing env items = listing env i1" "list_all (item_ok env) i1" using its(1,4) ok by simp_all
    then show ?thesis using that its(2) by blast
  qed
  have tk: "take g content' = slots_of i1"
    using arg_cong [OF new(2), of "take g"] g(1) len by (simp add: i1(1) c min_def)
  have "tail_ok (drop (g + n) content')"
    using new(1,3) by (auto simp: tail_ok_def is_last_def hd_drop_conv_nth DIR_ENTRY_LAST_def ATTRIB_LFN_def)
  then have "gap_in env content' g n i1 [] (drop (g + n) content')"
    using new(1) tk i1(3) by (simp add: gap_in_def)
  then show thesis using that i1(2) by blast
qed

lemma tidy_extended:
  assumes t: "tidy env content items tail" and e: "extended content content'"
  obtains tail' where "tidy env content' items tail'"
proof -
  obtain zs where zs: "content' = content @ zs" "\<forall>z \<in> set zs. snd z = replicate 32 0" using e by (auto simp: extended_def)
  have "tail_ok (tail @ zs)"
  proof (cases tail)
    case Nil
    then show ?thesis using zs(2) by (cases zs) (auto simp: tail_ok_def is_last_def DIR_ENTRY_LAST_def ATTRIB_LFN_def)
  next
    case (Cons x xs)
    then show ?thesis using t by (simp add: tidy_def tail_ok_def)
  qed
  then show thesis using that [of "tail @ zs"] t zs(1) by (simp add: tidy_def)
qed

end
