(* ===== verification/DirGap.thy ===== *)
theory DirGap
  imports DirTidy
begin

text \<open>
  The search of \<open>_FAT_directory_findEntryGap\<close> for room: a run of free slots in front of the end mark, or
  the slots from the free ones in front of the mark on, with clusters added as needed and the mark
  set again behind the gap.
\<close>

section \<open>The scan for free slots\<close>

definition gap_outcome :: "('d \<Rightarrow> sec_t \<Rightarrow> u8 list) \<Rightarrow> 'd partition \<Rightarrow> dir_area \<Rightarrow> nat
    \<Rightarrow> bool \<times> bool \<times> dir_pos \<times> dir_pos \<times> nat \<Rightarrow> bool" where
  "gap_outcome med p area n res \<longleftrightarrow> (case res of (ok, atEnd, gapStart, gapEnd, remain) \<Rightarrow>
     let c = dir_content (pview med p) p area in
     if \<not> ok then no_room med p area
     else may_allocate p \<and> (\<exists>g. gapStart = slot_at p area g \<and>
       (if atEnd
        then \<exists>l < length c. gapEnd = slot_at p area l \<and> g \<le> l \<and> l < g + n \<and> remain = g + n - Suc l \<and> is_last (c ! l) \<and>
          (\<forall>j. g \<le> j \<longrightarrow> j < l \<longrightarrow> is_free (c ! j)) \<and> (\<forall>j < l. \<not> is_last (c ! j))
        else gapEnd = slot_at p area (g + n - 1) \<and> g + n \<le> length c \<and>
          (\<forall>j. g \<le> j \<longrightarrow> j < g + n \<longrightarrow> is_free (c ! j)) \<and> (\<forall>j < g + n. \<not> is_last (c ! j)))))"

text \<open>Before slot \<open>i\<close> is looked at: the last \<open>n - remain\<close> slots were free, none was an end mark.\<close>

definition gap_so_far :: "slot list \<Rightarrow> nat \<Rightarrow> nat \<Rightarrow> nat \<Rightarrow> bool" where
  "gap_so_far c n remain i \<longleftrightarrow> 0 < remain \<and> remain \<le> n \<and> n - remain \<le> i \<and>
     (\<forall>j. i - (n - remain) \<le> j \<longrightarrow> j < i \<longrightarrow> is_free (c ! j)) \<and> (\<forall>j < i. \<not> is_last (c ! j))"

lemma not_free_and_last: "\<not> (is_free x \<and> is_last x)"
  by (simp add: is_free_def is_last_def DIR_ENTRY_FREE_def DIR_ENTRY_LAST_def)

lemma gap_so_far_next:
  assumes "gap_so_far c n remain i" and "\<not> is_last (c ! i)" and "is_free (c ! i) \<Longrightarrow> remain \<noteq> 1"
  shows "gap_so_far c n (if is_free (c ! i) then remain - 1 else n) (Suc i)"
  using assms by (auto simp: gap_so_far_def less_Suc_eq Suc_diff_le)

lemma gap_so_far_extended:
  assumes "gap_so_far c n remain i" and "extended c c'" and "i \<le> length c"
  shows "gap_so_far c' n remain i"
  using assms by (auto simp: gap_so_far_def extended_def nth_append)

lemma findGap_step:
  assumes ok: "area_ok med p area" and i: "i < slot_count p area" and r: "0 < remain"
  defines "x \<equiv> dir_content (pview med p) p area ! i"
  obtains q where "pkept med p q" and "findGap_loop malloc p n gapStart (slot_at p area i) remain old =
    (let gapStart = (if (is_free x \<or> is_last x) \<and> remain = n then slot_at p area i else gapStart);
         remain = (if is_free x \<or> is_last x then remain - 1 else n)
     in if is_last x then Some ((True, True, gapStart, slot_at p area i, remain), q)
        else if remain = 0 then Some ((True, False, gapStart, slot_at p area i, 0), q)
        else do {
          ((ok, gapEnd), p) \<leftarrow> FAT_directory_incrementDirEntryPosition malloc q (slot_at p area i) True;
          if ok then findGap_loop malloc p n gapStart gapEnd remain (Some (snd x))
          else Some ((False, False, gapStart, gapEnd, remain), p)
        })"
proof -
  obtain q where q: "readEntry p (slot_at p area i) old = Some ((True, Some (slot_bytes (pview med p) p (slot_at p area i))), q)"
    "pkept med p q"
    by (rule readEntry_slot [OF ok i])
  have x: "x = (slot_at p area i, slot_bytes (pview med p) p (slot_at p area i))" using i by (simp add: x_def nth_dir_content)
  show thesis
    using r q(1)
    by (intro that [OF q(2)]) (subst findGap_loop.simps, simp add: x is_free_def is_last_def Let_def disj_commute cong: if_cong)
qed

lemma gap_outcome_last:
  assumes "may_allocate p" and "l < slot_count p area" and "g \<le> l" and "l < g + n" and "is_last (dir_content (pview med p) p area ! l)"
    and "\<And>j. g \<le> j \<Longrightarrow> j < l \<Longrightarrow> is_free (dir_content (pview med p) p area ! j)"
    and "\<And>j. j < l \<Longrightarrow> \<not> is_last (dir_content (pview med p) p area ! j)"
    and "gs = slot_at p area g" and "ge = slot_at p area l" and "r = g + n - Suc l"
  shows "gap_outcome med p area n (True, True, gs, ge, r)"
  using assms by (auto simp: gap_outcome_def Let_def)

lemma gap_outcome_found:
  assumes "may_allocate p" and "g + n \<le> slot_count p area"
    and "\<And>j. g \<le> j \<Longrightarrow> j < g + n \<Longrightarrow> is_free (dir_content (pview med p) p area ! j)"
    and "\<And>j. j < g + n \<Longrightarrow> \<not> is_last (dir_content (pview med p) p area ! j)"
    and "gs = slot_at p area g" and "ge = slot_at p area (g + n - 1)"
  shows "gap_outcome med p area n (True, False, gs, ge, r)"
  using assms by (auto simp: gap_outcome_def Let_def)

lemma findGap_last:
  assumes inv: "dir_inv med xs ys p area" and ff: "may_allocate p" and i: "i < slot_count p area"
    and so_far: "gap_so_far (dir_content (pview med p) p area) n remain i"
    and start: "remain < n \<Longrightarrow> gapStart = slot_at p area (i - (n - remain))"
    and last: "is_last (dir_content (pview med p) p area ! i)"
  shows "\<exists>res q. findGap_loop malloc p n gapStart (slot_at p area i) remain old = Some (res, q) \<and> pkept med p q \<and>
    gap_outcome med q area n res"
proof -
  let ?c = "dir_content (pview med p) p area"
  have r: "0 < remain" "remain \<le> n" "n - remain \<le> i" using so_far by (simp_all add: gap_so_far_def)
  let ?g = "if remain = n then slot_at p area i else gapStart"
  obtain q where q: "pkept med p q"
    "findGap_loop malloc p n gapStart (slot_at p area i) remain old = Some ((True, True, ?g, slot_at p area i, remain - 1), q)"
    by (rule findGap_step [OF dir_invD(1) [OF inv] i r(1), of malloc n gapStart old]) (simp add: last)
  note sp = pkeptD(2) [OF q(1)]
  have c: "dir_content (pview med q) q area = ?c" by (simp add: dir_content_kept [OF q(1)])
  have g: "?g = slot_at p area (i - (n - remain))" using start r(2) by auto
  have "gap_outcome med q area n (True, True, ?g, slot_at p area i, remain - 1)"
  proof (rule gap_outcome_last [where l = i and g = "i - (n - remain)"], goal_cases)
    case 1
    then show ?case using ff same_partD(12) [OF sp] by (simp add: may_allocate_def)
  next
    case (6 j)
    then show ?case using so_far by (simp add: c gap_so_far_def)
  next
    case (7 j)
    then show ?case using so_far by (simp add: c gap_so_far_def)
  qed (use i r last g area_same [OF sp] c in simp_all)
  then show ?thesis using q by blast
qed

lemma findGap_spec:
  assumes "dir_inv med xs ys p area" and "may_allocate p" and "malloc_ok malloc" and "i < slot_count p area"
    and "gap_so_far (dir_content (pview med p) p area) n remain i"
    and "remain < n \<Longrightarrow> gapStart = slot_at p area (i - (n - remain))"
  shows "\<exists>res p' area'. findGap_loop malloc p n gapStart (slot_at p area i) remain old = Some (res, p') \<and>
    dir_evolves med xs ys p area p' area' \<and>
    extended (dir_content (pview med p) p area) (dir_content (pview med p') p' area') \<and> gap_outcome med p' area' n res"
  using assms
proof (induction "slot_count p area - i" arbitrary: p i remain gapStart old rule: less_induct)
  case less
  note inv = less.prems(1) and ff = less.prems(2) and m = less.prems(3) and i = less.prems(4)
    and so_far = less.prems(5) and start = less.prems(6)
  note ok = dir_invD(1) [OF inv]
  let ?c = "dir_content (pview med p) p area" let ?x = "?c ! i"
  have r: "0 < remain" "remain \<le> n" "n - remain \<le> i" using so_far by (simp_all add: gap_so_far_def)
  show ?case
  proof (cases "is_last ?x")
    case True
    from findGap_last [OF inv ff i so_far start True, of malloc old] obtain res q where
      "findGap_loop malloc p n gapStart (slot_at p area i) remain old = Some (res, q)" "pkept med p q" "gap_outcome med q area n res"
      by blast
    then show ?thesis using dir_evolves_kept [OF inv, of q] dir_content_kept [of med p q] extended_refl by metis
  next
    case nl: False
    let ?g = "if is_free ?x \<and> remain = n then slot_at p area i else gapStart"
    let ?r = "if is_free ?x then remain - 1 else n"
    obtain q where q: "pkept med p q" and loop: "findGap_loop malloc p n gapStart (slot_at p area i) remain old =
      (if ?r = 0 then Some ((True, False, ?g, slot_at p area i, 0), q)
        else do {
          ((ok, gapEnd), p) \<leftarrow> FAT_directory_incrementDirEntryPosition malloc q (slot_at p area i) True;
          if ok then findGap_loop malloc p n ?g gapEnd ?r (Some (snd ?x))
          else Some ((False, False, ?g, gapEnd, ?r), p)
        })"
      by (rule findGap_step [OF ok i r(1), of malloc n gapStart old]) (simp add: nl Let_def cong: if_cong)
    note sp = pkeptD(2) [OF q]
    note same = area_same [OF sp] and c = dir_content_kept [OF q]
    note ev = dir_evolves_kept [OF inv q]
    have ffq: "may_allocate q" using ff same_partD(12) [OF sp] by (simp add: may_allocate_def)
    show ?thesis
    proof (cases "?r = 0")
      case True
      then have fr: "is_free ?x" "remain = 1" using r by (auto split: if_splits)
      have g: "?g = slot_at p area (Suc i - n)" using start r fr by (cases "n = 1") auto
      have "gap_outcome med q area n (True, False, ?g, slot_at p area i, 0)"
      proof (rule gap_outcome_found [where g = "Suc i - n"], goal_cases)
        case (3 j)
        then show ?case using so_far fr r by (cases "j = i") (auto simp: c gap_so_far_def)
      next
        case (4 j)
        then show ?case using so_far nl r fr by (cases "j = i") (auto simp: c gap_so_far_def)
      qed (use i r fr g same ffq in simp_all)
      moreover have "findGap_loop malloc p n gapStart (slot_at p area i) remain old = Some ((True, False, ?g, slot_at p area i, 0), q)"
        using loop True by simp
      moreover have "extended ?c (dir_content (pview med q) q area)" using c extended_refl by simp
      ultimately show ?thesis using ev by blast
    next
      case False
      have gs: "gap_so_far ?c n ?r (Suc i)" using so_far nl False by (intro gap_so_far_next) (auto split: if_splits)
      have gst: "?r < n \<Longrightarrow> ?g = slot_at p area (Suc i - (n - ?r))"
        using start r False by (auto simp: Suc_diff_le split: if_splits)
      have iq: "i < slot_count q area" using i by (simp add: same)
      from dir_evolvesD(1) [OF ev] ffq m iq show ?thesis
      proof (cases rule: next_slot)
        case (stuck p')
        have "gap_outcome med p' area n (False, False, ?g, slot_at p area i, ?r)"
          using stuck(4) by (simp add: gap_outcome_def Let_def)
        moreover have "findGap_loop malloc p n gapStart (slot_at p area i) remain old =
            Some ((False, False, ?g, slot_at p area i, ?r), p')"
          using loop False stuck(1) by (simp add: same)
        ultimately show ?thesis using dir_evolves_trans [OF ev stuck(2)] stuck(3) c extended_refl by metis
      next
        case (further area' p')
        have step: "findGap_loop malloc p n gapStart (slot_at p area i) remain old =
            findGap_loop malloc p' n ?g (slot_at p' area' (Suc i)) ?r (Some (snd ?x))"
          using loop False further(1) vol_same(3) [OF dir_evolvesD(2) [OF further(2)]] by (simp add: same)
        note ev' = dir_evolves_trans [OF ev further(2)]
        note vs = vol_same [OF dir_evolvesD(2) [OF ev']]
        have ext: "extended ?c (dir_content (pview med p') p' area')" using further(5) c by simp
        have gs': "gap_so_far (dir_content (pview med p') p' area') n ?r (Suc i)"
          using gap_so_far_extended [OF gs ext] i by simp
        have gst': "?r < n \<Longrightarrow> ?g = slot_at p' area' (Suc i - (n - ?r))"
        proof -
          assume lt: "?r < n"
          have "Suc i - (n - ?r) < slot_count p area" using lt i by linarith
          then show ?thesis
            using gst [OF lt] slot_at_grows(1) [OF dir_evolvesD(3) [OF ev'] _ area_okD(4) [OF ok]] by (simp only: vs)
        qed
        have "\<exists>res p2 area2. findGap_loop malloc p' n ?g (slot_at p' area' (Suc i)) ?r (Some (snd ?x)) = Some (res, p2) \<and>
          dir_evolves med xs ys p' area' p2 area2 \<and>
          extended (dir_content (pview med p') p' area') (dir_content (pview med p2) p2 area2) \<and> gap_outcome med p2 area2 n res"
        proof (cases "Suc i < slot_count p area")
          case True
          then have a': "area' = area" using further(6) by (simp add: same)
          have lt: "slot_count p' area - Suc i < slot_count p area - i" using i by (simp add: vs)
          show ?thesis
            using less.hyps [OF lt, of ?r ?g "Some (snd ?x)"] dir_evolvesD(1) [OF ev'] further(3,4) m gs' gst'
            unfolding a' by blast
        next
          case l: False
          let ?c' = "dir_content (pview med p') p' area'"
          have "?c' ! Suc i \<in> set (drop (length ?c) ?c')"
            using further(4) l i by (simp add: in_set_conv_nth) (metis Suc_lessI add_0_right diff_is_0_eq length_drop length_dir_content nth_drop less_or_eq_imp_le zero_less_diff)
          then have "snd (?c' ! Suc i) = replicate 32 0" using ext by (auto simp: extended_def)
          then have last: "is_last (?c' ! Suc i)" by (simp add: is_last_def DIR_ENTRY_LAST_def)
          from findGap_last [OF dir_evolvesD(1) [OF ev'] further(3,4) gs' gst' last, of malloc "Some (snd ?x)"]
          obtain res q2 where "findGap_loop malloc p' n ?g (slot_at p' area' (Suc i)) ?r (Some (snd ?x)) = Some (res, q2)"
            "pkept med p' q2" "gap_outcome med q2 area' n res" by blast
          then show ?thesis
            using dir_evolves_kept [OF dir_evolvesD(1) [OF ev'], of q2] dir_content_kept [of med p' q2] extended_refl by metis
        qed
        then show ?thesis using step dir_evolves_trans [OF ev'] extended_trans [OF ext] by metis
      qed
    qed
  qed
qed

section \<open>Moving the end mark\<close>

definition empty_slot :: "u8 list" where
  "empty_slot = replicate 32 DIR_ENTRY_LAST"

lemma empty_slot: "empty_slot = replicate 32 0" "length empty_slot = 32"
  by (simp_all add: empty_slot_def DIR_ENTRY_LAST_def)

lemma no_room_step: "area_ok med p area \<Longrightarrow> dir_step med area p p' \<Longrightarrow> no_room med p area \<Longrightarrow> no_room med p' area"
  using dir_step_table(1) [of med p area p'] isValid_same [OF dir_stepD(2) [of med area p p']]
  by (auto simp: no_room_def full_def)

lemma extended_take: "extended c c' \<Longrightarrow> k \<le> length c \<Longrightarrow> take k c' = take k c"
  by (auto simp: extended_def)

lemma extended_nth: "extended c c' \<Longrightarrow> k < length c \<Longrightarrow> c' ! k = c ! k"
  by (auto simp: extended_def nth_append)

lemma extended_length: "extended c c' \<Longrightarrow> length c \<le> length c'"
  by (auto simp: extended_def)

text \<open>The slots from \<open>i\<close> on once the mark has been moved by \<open>k\<close>, or when that failed.\<close>

definition mark_moved :: "('d \<Rightarrow> sec_t \<Rightarrow> u8 list) \<Rightarrow> slot list \<Rightarrow> nat \<Rightarrow> nat \<Rightarrow> dir_pos \<Rightarrow> bool \<times> dir_pos
    \<Rightarrow> 'd partition \<Rightarrow> dir_area \<Rightarrow> bool" where
  "mark_moved med c i k dataEnd res p area \<longleftrightarrow>
     (let c' = dir_content (pview med p) p area in
      take i c' = take i c \<and> i < length c' \<and> (c' ! i = c ! i \<or> \<not> fst res \<and> snd (c' ! i) = empty_slot) \<and>
      (if fst res
       then i + k < length c' \<and> snd res = (if k = 0 then dataEnd else slot_at p area (i + k - 1)) \<and> may_allocate p \<and>
         (\<forall>j. i < j \<longrightarrow> j \<le> i + k \<longrightarrow> snd (c' ! j) = empty_slot)
       else no_room med p area))"

lemma moveEnd_spec:
  assumes "dir_inv med xs ys p area" and "may_allocate p" and "malloc_ok malloc" and "i < slot_count p area"
  shows "\<exists>res p' area'. moveEnd malloc p dataEnd (slot_at p area i) k = Some (res, p') \<and>
    dir_evolves med xs ys p area p' area' \<and> mark_moved med (dir_content (pview med p) p area) i k dataEnd res p' area'"
  using assms
proof (induction k arbitrary: p area i dataEnd)
  case 0
  then have "mark_moved med (dir_content (pview med p) p area) i 0 dataEnd (True, dataEnd) p area"
    by (simp add: mark_moved_def Let_def)
  then show ?case using dir_evolves_refl [OF 0(1)] by (intro exI [of _ "(True, dataEnd)"] exI [of _ p] exI [of _ area]) simp
next
  case (Suc k)
  note inv = Suc.prems(1) and ff = Suc.prems(2) and m = Suc.prems(3) and i = Suc.prems(4)
  let ?c = "dir_content (pview med p) p area"
  from inv ff m i show ?case
  proof (cases rule: next_slot)
    case (stuck p1)
    note vs = vol_same [OF dir_evolvesD(2) [OF stuck(2)]] and ok1 = dir_invD(1) [OF dir_evolvesD(1) [OF stuck(2)]]
    have i1: "i < slot_count p1 area" using i by (simp add: vs)
    obtain p2 where p2: "writeEntry p1 (slot_at p1 area i) empty_slot = Some (True, p2)" "dir_step med area p1 p2"
      "dir_content (pview med p2) p2 area = (dir_content (pview med p1) p1 area)[i := (slot_at p1 area i, empty_slot)]"
      by (rule writeEntry_slot [OF ok1 i1 empty_slot(2)])
    have "moveEnd malloc p dataEnd (slot_at p area i) (Suc k) = Some ((False, slot_at p area i), p2)"
      using stuck(1) p2(1) by (simp add: vs empty_slot_def)
    moreover have "mark_moved med ?c i (Suc k) dataEnd (False, slot_at p area i) p2 area"
      using no_room_step [OF ok1 p2(2) stuck(4)] i by (simp add: mark_moved_def Let_def p2(3) stuck(3))
    ultimately show ?thesis
      using dir_evolves_trans [OF stuck(2) dir_evolves_step [OF dir_evolvesD(1) [OF stuck(2)] p2(2)]] by blast
  next
    case (further area1 p1)
    note ev1 = further(2)
    note vs = vol_same [OF dir_evolvesD(2) [OF ev1]] and ok1 = dir_invD(1) [OF dir_evolvesD(1) [OF ev1]]
    let ?c1 = "dir_content (pview med p1) p1 area1"
    obtain p2 where p2: "writeEntry p1 (slot_at p1 area1 (Suc i)) empty_slot = Some (True, p2)" "dir_step med area1 p1 p2"
      "dir_content (pview med p2) p2 area1 = ?c1[Suc i := (slot_at p1 area1 (Suc i), empty_slot)]"
      by (rule writeEntry_slot [OF ok1 further(4) empty_slot(2)])
    note ev2 = dir_evolves_trans [OF ev1 dir_evolves_step [OF dir_evolvesD(1) [OF ev1] p2(2)]]
    note sp2 = dir_stepD(2) [OF p2(2)]
    note same2 = area_same [OF sp2]
    have ff2: "may_allocate p2" using further(3) same_partD(12) [OF sp2] by (simp add: may_allocate_def)
    have i2: "Suc i < slot_count p2 area1" using further(4) by (simp add: same2)
    from Suc.IH [OF dir_evolvesD(1) [OF ev2] ff2 m i2, of "slot_at p area i"] obtain res p' area' where
      r: "moveEnd malloc p2 (slot_at p area i) (slot_at p2 area1 (Suc i)) k = Some (res, p')"
      "dir_evolves med xs ys p2 area1 p' area'"
      "mark_moved med (dir_content (pview med p2) p2 area1) (Suc i) k (slot_at p area i) res p' area'"
      by blast
    note ev' = dir_evolves_trans [OF ev2 r(2)]
    let ?c' = "dir_content (pview med p') p' area'" let ?c2 = "dir_content (pview med p2) p2 area1"
    have run: "moveEnd malloc p dataEnd (slot_at p area i) (Suc k) = Some (res, p')"
      using further(1) p2(1) r(1) by (simp add: vs same2 empty_slot_def)
    have mm: "take (Suc i) ?c' = take (Suc i) ?c2" "Suc i < length ?c'" "?c' ! Suc i = ?c2 ! Suc i \<or> snd (?c' ! Suc i) = empty_slot"
      "fst res \<Longrightarrow> Suc i + k < length ?c' \<and> snd res = (if k = 0 then slot_at p area i else slot_at p' area' (Suc i + k - 1)) \<and>
        may_allocate p' \<and> (\<forall>j. Suc i < j \<longrightarrow> j \<le> Suc i + k \<longrightarrow> snd (?c' ! j) = empty_slot)"
      "\<not> fst res \<Longrightarrow> no_room med p' area'"
      using r(3) by (auto simp: mark_moved_def Let_def)
    have "take (Suc i) ?c2 = take (Suc i) ?c" using extended_take [OF further(5), of "Suc i"] i by (simp add: p2(3))
    then have tk: "take (Suc i) ?c' = take (Suc i) ?c" using mm(1) by simp
    have c': "take i ?c' = take i ?c" "?c' ! i = ?c ! i"
      using arg_cong [OF tk, of "take i"] arg_cong [OF tk, of "\<lambda>l. l ! i"] by simp_all
    have marked: "snd (?c' ! Suc i) = empty_slot" using mm(3) further(4) by (auto simp: p2(3))
    have at: "slot_at p' area' i = slot_at p area i"
      using slot_at_grows(1) [OF dir_evolvesD(3) [OF ev'] i area_okD(4) [OF dir_invD(1) [OF inv]]]
        vol_same(3) [OF dir_evolvesD(2) [OF ev']] by simp
    have all: "fst res \<Longrightarrow> \<forall>j. i < j \<longrightarrow> j \<le> i + Suc k \<longrightarrow> snd (?c' ! j) = empty_slot"
    proof (intro allI impI)
      fix j assume "fst res" "i < j" "j \<le> i + Suc k"
      then show "snd (?c' ! j) = empty_slot" using mm(4) marked by (cases "j = Suc i") auto
    qed
    have "mark_moved med ?c i (Suc k) dataEnd res p' area'"
      using c' mm(2,4,5) all at unfolding mark_moved_def Let_def by (cases "fst res") auto
    then show ?thesis using run ev' by blast
  qed
qed

section \<open>The gap\<close>

text \<open>In a tidy directory the search ends with a gap in which an entry can be created between the entries
  that are there, or fails because there is no room; either way the listing stays.\<close>

lemma take_nth_after:
  assumes "take l c' = take l c" and "j < l" and "l \<le> length c" and "l \<le> length c'"
  shows "c' ! j = c ! j"
  using arg_cong [OF assms(1), of "\<lambda>l. l ! j"] assms(2-4) by simp

lemma findEntryGap_spec:
  assumes inv: "dir_inv med xs ys p area" and ff: "may_allocate p" and m: "malloc_ok malloc" and n: "0 < n"
    and t: "tidy env (dir_content (pview med p) p area) items tail"
  obtains (found) g p' area' i1 i2 tail' where
      "FAT_directory_findEntryGap malloc p entry (area_start area) n = Some ((True,
        entry\<lparr>de_dataStart := slot_at p' area' g, de_dataEnd := slot_at p' area' (g + n - 1)\<rparr>), p')"
      and "dir_evolves med xs ys p area p' area'" and "may_allocate p'"
      and "gap_in env (dir_content (pview med p') p' area') g n i1 i2 tail'" and "listing env items = listing env (i1 @ i2)"
  | (no_gap) entry' p' area' tail' where "FAT_directory_findEntryGap malloc p entry (area_start area) n = Some ((False, entry'), p')"
      and "dir_evolves med xs ys p area p' area'" and "tidy env (dir_content (pview med p') p' area') items tail'"
      and "no_room med p' area'"
proof -
  let ?c = "dir_content (pview med p) p area"
  note ok = dir_invD(1) [OF inv]
  have c0: "0 < slot_count p area" by (rule area_pos(2) [OF ok])
  have so_far: "gap_so_far ?c n n 0" using n by (simp add: gap_so_far_def)
  have start: "\<lparr>dp_cluster = area_start area, dp_sector = 0, dp_offset = 0\<rparr> = slot_at p area 0"
    using ok file_chainD(6) [of med p] by (cases area) (auto simp: area_start_def slot_at_def sector_pos_def hd_conv_nth area_ok_def)
  obtain res p1 area1 where r: "findGap_loop malloc p n (slot_at p area 0) (slot_at p area 0) n None = Some (res, p1)"
    "dir_evolves med xs ys p area p1 area1" "extended ?c (dir_content (pview med p1) p1 area1)" "gap_outcome med p1 area1 n res"
    using findGap_spec [OF inv ff m c0 so_far, of "slot_at p area 0" None] by auto
  obtain ok1 atEnd gs ge rm where res: "res = (ok1, atEnd, gs, ge, rm)" by (cases res) auto
  let ?c1 = "dir_content (pview med p1) p1 area1"
  obtain tail1 where t1: "tidy env ?c1 items tail1" by (rule tidy_extended [OF t r(3)])
  show thesis
  proof (cases ok1)
    case False
    then have "FAT_directory_findEntryGap malloc p entry (area_start area) n = Some ((False, entry), p1)"
      using r(1) by (simp add: FAT_directory_findEntryGap_def start res Let_def)
    moreover have "no_room med p1 area1" using r(4) False by (simp add: gap_outcome_def res Let_def)
    ultimately show thesis using no_gap r(2) t1 by blast
  next
    case True
    note out = r(4) [unfolded res gap_outcome_def Let_def split]
    show thesis
    proof (cases atEnd)
      case False
      then obtain g where g: "gs = slot_at p1 area1 g" "ge = slot_at p1 area1 (g + n - 1)" "g + n \<le> length ?c1"
        "\<And>j. g \<le> j \<Longrightarrow> j < g + n \<Longrightarrow> is_free (?c1 ! j)" "\<And>j. j < g + n \<Longrightarrow> \<not> is_last (?c1 ! j)" and ff1: "may_allocate p1"
        using out True by auto
      obtain i1 i2 where gap: "gap_in env ?c1 g n i1 i2 tail1" "listing env items = listing env (i1 @ i2)"
        by (rule gap_between [OF t1 n g(3,4,5)])
      have "FAT_directory_findEntryGap malloc p entry (area_start area) n = Some ((True,
          entry\<lparr>de_dataStart := slot_at p1 area1 g, de_dataEnd := slot_at p1 area1 (g + n - 1)\<rparr>), p1)"
        using r(1) True False g(1,2) by (simp add: FAT_directory_findEntryGap_def start res Let_def)
      then show thesis using found r(2) ff1 gap by blast
    next
      case atEnd: True
      then obtain g l where g: "gs = slot_at p1 area1 g" "ge = slot_at p1 area1 l" "l < length ?c1" "g \<le> l" "l < g + n"
        "rm = g + n - Suc l" "is_last (?c1 ! l)"
        "\<And>j. g \<le> j \<Longrightarrow> j < l \<Longrightarrow> is_free (?c1 ! j)" "\<And>j. j < l \<Longrightarrow> \<not> is_last (?c1 ! j)" and ff1: "may_allocate p1"
        using out True by auto
      have l1: "l < slot_count p1 area1" using g(3) by simp
      let ?k = "rm + 1" let ?de = "de_dataEnd (entry\<lparr>de_dataStart := gs\<rparr>)"
      obtain r2 p2 area2 where mv: "moveEnd malloc p1 ?de (slot_at p1 area1 l) ?k = Some (r2, p2)"
        "dir_evolves med xs ys p1 area1 p2 area2" "mark_moved med ?c1 l ?k ?de r2 p2 area2"
        using moveEnd_spec [OF dir_evolvesD(1) [OF r(2)] ff1 m l1, of ?de ?k] by blast
      note ev = dir_evolves_trans [OF r(2) mv(2)]
      let ?c2 = "dir_content (pview med p2) p2 area2"
      have mm: "take l ?c2 = take l ?c1" "l < length ?c2" "?c2 ! l = ?c1 ! l \<or> snd (?c2 ! l) = empty_slot"
        "fst r2 \<Longrightarrow> l + ?k < length ?c2 \<and> snd r2 = slot_at p2 area2 (l + ?k - 1) \<and> may_allocate p2 \<and>
          (\<forall>j. l < j \<longrightarrow> j \<le> l + ?k \<longrightarrow> snd (?c2 ! j) = empty_slot)"
        "\<not> fst r2 \<Longrightarrow> no_room med p2 area2"
        using mv(3) by (auto simp: mark_moved_def Let_def)
      have gk: "l + ?k = g + n" using g(4,5,6) by simp
      have ge': "g + n - 1 = l + rm" using gk by simp
      have run: "FAT_directory_findEntryGap malloc p entry (area_start area) n =
          Some ((fst r2, entry\<lparr>de_dataStart := gs, de_dataEnd := snd r2\<rparr>), p2)"
        using r(1) mv(1) True atEnd g(2) by (cases r2) (simp add: FAT_directory_findEntryGap_def start res Let_def del: moveEnd.simps)
      show thesis
      proof (cases "fst r2")
        case True
        have at: "slot_at p2 area2 g = gs"
          using slot_at_grows(1) [OF dir_evolvesD(3) [OF mv(2)] _ area_okD(4) [OF dir_invD(1) [OF dir_evolvesD(1) [OF r(2)]]], of g]
            vol_same(3) [OF dir_evolvesD(2) [OF mv(2)]] g(1,3,4) by simp
        have nw: "g + n < length ?c2" "snd (?c2 ! (g + n)) = replicate 32 0"
          using mm(4) [OF True] g(5) unfolding gk by (auto simp: gk empty_slot)
        obtain i1 tail' where gap: "gap_in env ?c2 g n i1 [] tail'" "listing env items = listing env i1"
          by (rule gap_at_end [OF t1 g(3,7,9) g(4,5) g(8) nw(1) mm(1) nw(2)])
        show thesis
          using found [of p2 area2 g i1 "[]" tail'] run True mm(4) ev gap at ge' by simp
      next
        case False
        have "\<exists>tail'. tidy env ?c2 items tail'"
        proof -
          have len: "l = length (slots_of items)" by (rule first_last(1) [OF t1 g(3,7,9)])
          have c1: "?c1 = slots_of items @ tail1" "list_all (item_ok env) items" "tail_ok tail1" using t1 by (simp_all add: tidy_def)
          have "take l ?c2 = slots_of items" using mm(1) len by (simp add: c1(1))
          moreover have "?c2 = take l ?c2 @ drop l ?c2" by simp
          moreover have "tail_ok (drop l ?c2)"
          proof -
            have "?c1 ! l = hd tail1" using first_last(2) [OF t1 g(3,7,9)] by (simp add: c1(1) len nth_append hd_conv_nth)
            moreover have "hd (drop l ?c2) = ?c2 ! l" using mm(2) by (simp add: hd_drop_conv_nth)
            ultimately show ?thesis using mm(3) c1(3) first_last(2) [OF t1 g(3,7,9)]
              by (auto simp: tail_ok_def is_last_def empty_slot DIR_ENTRY_LAST_def ATTRIB_LFN_def)
          qed
          ultimately show ?thesis using c1(2) unfolding tidy_def by metis
        qed
        then obtain tail' where "tidy env ?c2 items tail'" by blast
        then show thesis using no_gap [of _ p2 area2 tail'] run False mm(5) ev by simp
      qed
    qed
  qed
qed

end
