(* ===== verification/DirAdd.thy ===== *)
theory DirAdd
  imports DirAlias DirGap
begin

text \<open>
  Creating an entry: the choice of the short name, the slots that are written, and
  \<open>_FAT_directory_addEntry\<close> as a whole on a tidy directory in the \<open>C\<close> locale.
\<close>

section \<open>Names against the entries of a directory\<close>

definition name_taken :: "u8 list \<Rightarrow> dir_entry list \<Rightarrow> bool" where
  "name_taken name es \<longleftrightarrow> (\<exists>e \<in> set es. matches_c name e)"

lemma entryExists_c:
  assumes "area_ok med p area" and "dir_entries c_locale med p area = Some es" and "length name < PATH_MAX"
  obtains p' where "FAT_directory_entryExists c_locale p name (area_start area) = Some (name_taken name es, p')"
    and "pkept med p p'"
  unfolding name_taken_def using entryExists_spec [OF assms same_name_c] by blast

lemma mbsncasecmp_refl: "mbsncasecmp_loop c_locale () () s s len old old = Some 0"
proof (induction s arbitrary: len old)
  case Nil
  show ?case by (subst mbsncasecmp_loop.simps) (auto simp: mbrtowc_cs Let_def)
next
  case (Cons c s)
  show ?case by (subst mbsncasecmp_loop.simps) (auto simp: mbrtowc_cs Let_def Cons.IH)
qed

lemma matches_own_name: "matches_c (de_filename e) e"
  by (simp add: matches_c_def same_name_def FAT_directory_mbsncasecmp_def mbsncasecmp_refl bind_eq_Some_conv)

section \<open>The choice of the short name\<close>

lemma length_tail [simp]: "length (put_digits k j al pos) = length al" "length (numeric_tail al j) = length al"
proof -
  show put: "length (put_digits k j al pos) = length al" for k j al pos
    by (induction k j al pos rule: put_digits.induct) simp_all
  show "length (numeric_tail al j) = length al" by (simp add: numeric_tail_def put)
qed

lemma length_pad_alias: "length (pad_alias al) \<le> length al + 8"
  using length_takeWhile_le [of "\<lambda>c. c \<noteq> CH_DOT" al] unfolding pad_alias_def Let_def by simp linarith?

text \<open>The tails are written one over the other; a later one covers the one before.\<close>

lemma put_digits_other:
  "pos < q \<Longrightarrow> (put_digits k j al pos)[q := x] = put_digits k j (al[q := x]) pos"
proof (induction k arbitrary: j al pos)
  case (Suc k)
  then show ?case by (simp add: list_update_swap)
qed (simp add: list_update_swap)

lemma put_digits_again:
  "k \<le> pos \<Longrightarrow> i \<le> j \<Longrightarrow> put_digits k j (put_digits k i al pos) pos = put_digits k j al pos"
proof (induction k arbitrary: i j al pos)
  case (Suc k)
  have "put_digits k (j div 10) (put_digits k (i div 10) al' (pos - 1)) (pos - 1) = put_digits k (j div 10) al' (pos - 1)" for al'
    using Suc.prems by (intro Suc.IH) (simp_all add: div_le_mono)
  then show ?case using Suc.prems by (simp add: put_digits_other)
qed simp

lemma numeric_tail_again: "i \<le> j \<Longrightarrow> numeric_tail (numeric_tail al i) j = numeric_tail al j"
  by (simp add: numeric_tail_def put_digits_again)

lemma find_tail_spec:
  assumes "area_ok med p area" and "dir_entries c_locale med p area = Some es" and "length al < PATH_MAX"
  obtains (found) j p' where "find_tail c_locale p al (area_start area) i k = Some (Some (numeric_tail al j), p')"
      and "pkept med p p'" and "i \<le> j" and "j < i + k" and "\<not> name_taken (numeric_tail al j) es"
  | (all_taken) p' where "find_tail c_locale p al (area_start area) i k = Some (None, p')"
      and "pkept med p p'" and "\<And>j. i \<le> j \<Longrightarrow> j < i + k \<Longrightarrow> name_taken (numeric_tail al j) es"
proof -
  have "(\<exists>j p'. find_tail c_locale p al (area_start area) i k = Some (Some (numeric_tail al j), p') \<and> pkept med p p' \<and>
      i \<le> j \<and> j < i + k \<and> \<not> name_taken (numeric_tail al j) es) \<or>
    (\<exists>p'. find_tail c_locale p al (area_start area) i k = Some (None, p') \<and> pkept med p p' \<and>
      (\<forall>j. i \<le> j \<longrightarrow> j < i + k \<longrightarrow> name_taken (numeric_tail al j) es))"
    using assms
  proof (induction k arbitrary: p i al)
    case 0
    then show ?case using pkept_refl [OF area_okD(2)] by auto
  next
    case (Suc k)
    have len: "length (numeric_tail al i) < PATH_MAX" using Suc.prems(3) by simp
    obtain p1 where p1: "FAT_directory_entryExists c_locale p (numeric_tail al i) (area_start area) =
        Some (name_taken (numeric_tail al i) es, p1)" "pkept med p p1"
      by (rule entryExists_c [OF Suc.prems(1,2) len])
    show ?case
    proof (cases "name_taken (numeric_tail al i) es")
      case False
      then show ?thesis using p1 by (intro disjI1 exI [of _ i]) auto
    next
      case True
      have es1: "dir_entries c_locale med p1 area = Some es" using Suc.prems(2) dir_entries_kept [OF p1(2)] by metis
      let ?al = "numeric_tail al i"
      have step: "find_tail c_locale p al (area_start area) i (Suc k) = find_tail c_locale p1 ?al (area_start area) (i + 1) k"
        using p1(1) True by simp
      have again: "numeric_tail ?al j = numeric_tail al j" if "i + 1 \<le> j" for j
        using that by (simp add: numeric_tail_again)
      from Suc.IH [OF area_kept [OF p1(2) Suc.prems(1)] es1 len, of "i + 1"] show ?thesis
      proof (elim disjE exE conjE)
        fix j p' assume r: "find_tail c_locale p1 ?al (area_start area) (i + 1) k = Some (Some (numeric_tail ?al j), p')" "pkept med p1 p'"
          "i + 1 \<le> j" "j < i + 1 + k" "\<not> name_taken (numeric_tail ?al j) es"
        show ?thesis using r again [OF r(3)] pkept_trans [OF p1(2)] by (intro disjI1 exI [of _ j] exI [of _ p']) (simp add: step del: find_tail.simps)
      next
        fix p' assume r: "find_tail c_locale p1 ?al (area_start area) (i + 1) k = Some (None, p')" "pkept med p1 p'"
          "\<forall>j. i + 1 \<le> j \<longrightarrow> j < i + 1 + k \<longrightarrow> name_taken (numeric_tail ?al j) es"
        have "name_taken (numeric_tail al j) es" if "i \<le> j" "j < i + Suc k" for j
          using r(3) [rule_format, of j] again [of j] True that by (cases "j = i") simp_all
        then show ?thesis using r(1,2) pkept_trans [OF p1(2)] by (intro disjI2 exI [of _ p']) (simp add: step del: find_tail.simps)
      qed
    qed
  qed
  then show thesis using found all_taken by blast
qed

text \<open>What the choice comes to, for the entries \<open>es\<close> of the directory.\<close>

definition fresh_alias :: "u8 list \<Rightarrow> dir_entry list \<Rightarrow> u8 list \<Rightarrow> bool" where
  "fresh_alias name es al \<longleftrightarrow> good_first al \<and> (al = name \<or> \<not> name_taken al es)"

text \<open>The alias of the name loses something, and all its numeric tails are taken.\<close>

definition tails_used :: "u8 list \<Rightarrow> dir_entry list \<Rightarrow> bool" where
  "tails_used name es \<longleftrightarrow> (\<exists>n al. FAT_directory_createAlias c_locale name = Some (n, al) \<and> 0 < n \<and>
     (\<forall>j. 1 \<le> j \<longrightarrow> j \<le> MAX_NUMERIC_TAIL \<longrightarrow> name_taken (numeric_tail (pad_alias al) j) es))"

lemma choose_alias_spec:
  assumes ok: "area_ok med p area" and es: "dir_entries c_locale med p area = Some es"
    and name: "0 \<notin> set name" "length name < MAX_LFN_LENGTH" "creatable name" "\<forall>c \<in> set name. 0x20 \<le> c"
  obtains (exact) b e p' where "choose_alias c_locale p name (length name) (area_start area) = Some (Some (name, 1), p')"
      and "pkept med p p'" and "short_form name b e"
  | (other) al p' where "choose_alias c_locale p name (length name) (area_start area) =
        Some (Some (al, Suc (name_slots (length name))), p')"
      and "pkept med p p'" and "fresh_alias name es al"
  | (full) p' where "choose_alias c_locale p name (length name) (area_start area) = Some (None, p')"
      and "pkept med p p'" and "tails_used name es"
proof -
  have len: "length name < PATH_MAX" using name(2) by (simp add: MAX_LFN_LENGTH_def PATH_MAX_def)
  from name(1) len name(3,4) show thesis
  proof (cases rule: createAlias_c)
    case (exact b e)
    then show thesis using that(1) [of p] pkept_refl [OF area_okD(2) [OF ok]] by (simp add: choose_alias_def)
  next
    case (lossy n al)
    let ?clash = "\<not> strncasecmp_eq c_locale al name MAX_ALIAS_LENGTH"
    have al: "length al < PATH_MAX" "length (pad_alias al) < PATH_MAX"
      using lossy(4) length_pad_alias [of al] by (simp_all add: PATH_MAX_def)
    obtain q b where q: "(if ?clash then Some (True, p) else FAT_directory_entryExists c_locale p al (area_start area)) = Some (b, q)"
      "pkept med p q" "\<not> b \<Longrightarrow> \<not> name_taken al es"
    proof (cases ?clash)
      case True
      then show thesis using that [of True p] pkept_refl [OF area_okD(2) [OF ok]] by simp
    next
      case False
      obtain q where "FAT_directory_entryExists c_locale p al (area_start area) = Some (name_taken al es, q)" "pkept med p q"
        by (rule entryExists_c [OF ok es al(1)])
      then show thesis using that [of "name_taken al es" q] False by simp
    qed
    have run: "choose_alias c_locale p name (length name) (area_start area) =
      (if b then do {
         (r, p) \<leftarrow> find_tail c_locale q (pad_alias al) (area_start area) 1 MAX_NUMERIC_TAIL;
         Some (map_option (\<lambda>a. (a, Suc (name_slots (length name)))) r, p)
       } else Some (Some (al, Suc (name_slots (length name))), q))"
      using lossy(1,2) q(1) by (simp add: choose_alias_def name_slots_def Let_def)
    show thesis
    proof (cases b)
      case False
      then show thesis using that(2) [OF _ q(2)] run q(3) lossy(3) by (simp add: fresh_alias_def)
    next
      case True
      have es': "dir_entries c_locale med q area = Some es" using es dir_entries_kept [OF q(2)] by metis
      from area_kept [OF q(2) ok] es' al(2) show thesis
      proof (cases rule: find_tail_spec [of med q area es "pad_alias al" 1 MAX_NUMERIC_TAIL])
        case (found j p')
        have "good_first (numeric_tail (pad_alias al) j)"
          using found(4) by (intro numeric_tail_first pad_alias_first lossy(3)) simp
        then show thesis using that(2) [OF _ pkept_trans [OF q(2) found(2)]] run True found(1,5) by (simp add: fresh_alias_def)
      next
        case (all_taken p')
        have "tails_used name es" using all_taken(3) lossy(1,2) unfolding tails_used_def by (intro exI [of _ n] exI [of _ al]) auto
        then show thesis using that(3) [OF _ pkept_trans [OF q(2) all_taken(2)]] run True all_taken(1) by simp
      qed
    qed
  qed
qed

section \<open>The slots that are written\<close>

lemma ordinal_marks:
  assumes "0 < k" and "k < 20"
  shows "(of_nat k OR (if b then LFN_END else 0) :: u8) \<notin> {DIR_ENTRY_FREE, DIR_ENTRY_LAST}"
proof -
  have "list_all (\<lambda>k. (of_nat k OR LFN_END :: u8) \<noteq> DIR_ENTRY_FREE \<and> (of_nat k OR LFN_END :: u8) \<noteq> DIR_ENTRY_LAST \<and>
    (of_nat k :: u8) \<noteq> DIR_ENTRY_FREE \<and> (of_nat k :: u8) \<noteq> DIR_ENTRY_LAST) [1..<20]"
    by code_simp
  with assms show ?thesis by (auto simp: list_all_iff)
qed

lemma visible_marks:
  "visible d \<Longrightarrow> \<not> is_free (pos, d) \<and> \<not> is_last (pos, d)"
  by (auto simp: visible_def is_free_def is_last_def DIR_ENTRY_LAST_def)

text \<open>The long name entries of a name: the slots as \<open>write_entries\<close> gets them.\<close>

definition name_entries :: "u16 list \<Rightarrow> u8 \<Rightarrow> u8 list list \<Rightarrow> bool" where
  "name_entries chars chk ns \<longleftrightarrow> length ns = name_slots (length chars) \<and>
     (\<forall>m < length ns. lfn_entry (name_array chars) (Suc (length ns)) (Suc (length ns - m)) chk = Some (ns ! m) \<and>
        carries_name (name_array chars) (Suc (length ns)) chk (length ns - m) (ns ! m))"

lemma name_entries_exist:
  assumes nm: "long_name chars"
  obtains ns where "name_entries chars chk ns"
proof -
  note n = long_nameD [OF nm]
  let ?K = "name_slots (length chars)"
  let ?ns = "map (\<lambda>m. the (lfn_entry (name_array chars) (Suc ?K) (Suc (?K - m)) chk)) [0..<?K]"
  have "lfn_entry (name_array chars) (Suc ?K) (Suc (?K - m)) chk = Some (?ns ! m) \<and>
      carries_name (name_array chars) (Suc ?K) chk (?K - m) (?ns ! m)" if m: "m < ?K" for m
  proof -
    have "(?K - m) * 13 \<le> ?K * 13" by simp
    then have "(?K - m) * 13 \<le> length (name_array chars)" using n(5,6) by (simp add: MAX_LFN_LENGTH_def)
    then obtain d where "lfn_entry (name_array chars) (Suc ?K) (Suc (?K - m)) chk = Some d"
      "carries_name (name_array chars) (Suc ?K) chk (?K - m) d"
      using lfn_entry_carries [of "?K - m" "name_array chars" "Suc ?K" chk] m by auto
    then show ?thesis using m by simp
  qed
  then show thesis by (intro that [of ?ns]) (simp add: name_entries_def)
qed

text \<open>A new item: its slots, and the entry they make.\<close>

definition makes :: "'mb char_env \<Rightarrow> slot list \<Rightarrow> item \<Rightarrow> u8 list \<Rightarrow> u8 list \<Rightarrow> bool" where
  "makes env slots i name d \<longleftrightarrow> item_ok env i \<and> item_slots i = slots \<and>
     item_entry env i = Some \<lparr>de_entryData = d, de_dataStart = fst (hd slots), de_dataEnd = fst (last slots), de_filename = name\<rparr>"

lemma put_slots_snoc:
  "put_slots p area g (ns @ [d]) = put_slots p area g ns @ [(slot_at p area (g + length ns), d)]"
  by (simp add: put_slots_def nth_append)

lemma makes_long:
  assumes nm: "long_name chars" and enc: "encodes env name chars" and v: "visible d"
    and ns: "name_entries chars (alias_checksum d) ns"
  shows "\<exists>i. makes env (put_slots p area g (ns @ [d])) i name d"
proof -
  let ?K = "name_slots (length chars)" and ?pos = "slot_at p area (g + length ns)"
  let ?ss = "put_slots p area g ns"
  note n = long_nameD [OF nm]
  have len: "length ns = ?K" using ns by (simp add: name_entries_def)
  have each: "carries_name (name_array chars) (Suc ?K) (alias_checksum d) (?K - m) (ns ! m)" if "m < ?K" for m
    using ns that by (simp add: name_entries_def len)
  have at: "name_slots_at chars (alias_checksum d) ?K ?ss"
    using each by (simp add: name_slots_at_def len put_slots_def)
  have ne: "?ss \<noteq> []" using n(1) len by (metis length_put_slots less_numeral_extra(3) list.size(3))
  let ?e = "\<lparr>de_entryData = d, de_dataStart = fst (hd ?ss), de_dataEnd = ?pos, de_filename = name\<rparr>"
  have "scan_slots env (?ss @ [(?pos, d)]) scan_start = Some (Some (?e, []))"
    by (rule long_name_read_back [OF nm enc at v]) (simp add: scan_start_def Let_def)
  then have e: "item_entry env (Named ?ss (?pos, d)) = Some ?e" by (simp add: item_entry_def)
  have "\<not> is_free x \<and> \<not> is_last x" if x: "x \<in> set ?ss" for x
  proof -
    obtain m where m: "m < ?K" "snd x = ns ! m" using x by (auto simp: put_slots_def len)
    have k: "0 < ?K - m" "?K - m < 20" using m(1) n(2) by simp_all
    have "snd x ! 0 = of_nat (?K - m) OR (if Suc (?K - m) = Suc ?K then LFN_END else 0)"
      using each [OF m(1)] m(2) by (simp add: carries_name_def)
    then show ?thesis using ordinal_marks [OF k] by (auto simp: is_free_def is_last_def)
  qed
  then have "item_ok env (Named ?ss (?pos, d))"
    using visible_marks [OF v] e ne by (auto simp: item_ok_def list_all_iff)
  then show ?thesis
    using e ne unfolding makes_def put_slots_snoc by (intro exI [of _ "Named ?ss (?pos, d)"]) simp
qed

lemma makes_short:
  assumes sf: "short_form name b e" and pl: "plain_entry d"
  shows "\<exists>i. makes c_locale (put_slots p area g [short_data name d]) i name (short_data name d)"
proof -
  let ?d = "short_data name d" and ?pos = "slot_at p area g"
  have gf: "good_first name" using sf good_first_append [of b] by (auto simp: short_form_def)
  have v: "visible ?d" by (rule short_data_facts(5) [OF pl gf])
  let ?e = "\<lparr>de_entryData = ?d, de_dataStart = ?pos, de_dataEnd = ?pos, de_filename = name\<rparr>"
  have "scan_slots c_locale [(?pos, ?d)] scan_start = Some (Some (?e, []))"
    unfolding visible_slot [OF v] by (simp add: scan_name_def scan_start_def Let_def short_name_read_back [OF sf pl])
  then have "item_entry c_locale (Named [] (?pos, ?d)) = Some ?e" by (simp add: item_entry_def)
  then show ?thesis
    using visible_marks [OF v] by (intro exI [of _ "Named [] (?pos, ?d)"]) (simp add: makes_def item_ok_def put_slots_Cons)
qed

section \<open>Adding an entry\<close>

lemma write_named:
  assumes inv: "dir_inv med xs ys p area"
    and gap: "gap_in env (dir_content (pview med p) p area) g (Suc (length ns)) i1 i2 tail"
    and d: "length d = 32"
    and each: "\<And>m. m < length ns \<Longrightarrow> lfn_entry lfn n (Suc (length ns - m)) chk = Some (ns ! m) \<and> length (ns ! m) = 32"
    and mk: "makes env (put_slots p area g (ns @ [d])) i name d"
  obtains p' where "write_entries p (slot_at p area g) lfn n chk d (Suc (length ns)) = Some p'"
    and "dir_evolves med xs ys p area p' area" and "tidy env (dir_content (pview med p') p' area) (i1 @ i # i2) tail"
proof -
  have fit: "g + length ns < slot_count p area" using gap by (simp add: gap_in_def)
  from write_entries_spec [OF dir_invD(1) [OF inv] fit refl d each] obtain p' where
    p': "write_entries p (slot_at p area g) lfn n chk d (Suc (length ns)) = Some p'" "dir_step med area p p'"
    "dir_content (pview med p') p' area = splice (dir_content (pview med p) p area) g (put_slots p area g (ns @ [d]))"
    by blast
  have i: "item_ok env i" "item_slots i = put_slots p area g (ns @ [d])" using mk by (simp_all add: makes_def)
  have "tidy env (dir_content (pview med p') p' area) (i1 @ i # i2) tail"
    unfolding p'(3) i(2) [symmetric] by (rule gap_filled [OF gap i(1)]) (simp add: i(2))
  then show thesis using that p'(1) dir_evolves_step [OF inv p'(2)] by blast
qed

lemma listing_with:
  "item_entry env i = Some e \<Longrightarrow> listing env (i1 @ i # i2) = listing env i1 @ e # listing env i2"
  by (simp add: listing_Cons)

text \<open>Names for which an entry can be created: as the code tests them, and creatable.\<close>

definition name_fits :: "u8 list \<Rightarrow> bool" where
  "name_fits name \<longleftrightarrow> creatable name \<and>
     (case FAT_directory_lfnLength c_locale name of None \<Rightarrow> False | Some n \<Rightarrow> 0 < n \<and> n \<le> 247)"

lemma name_fitsD:
  assumes "name_fits name"
  shows "creatable name" "FAT_directory_lfnLength c_locale name = Some (int (length name))" "0 \<notin> set name"
    "length name < MAX_LFN_LENGTH" "length name < PATH_MAX" "\<forall>c \<in> set name. 0x20 \<le> c" "name \<noteq> []"
    "encodes c_locale name (map ucast name)" "long_name (map ucast name)"
proof -
  obtain n where n: "FAT_directory_lfnLength c_locale name = Some n" "0 < n" "n \<le> 247" and cr: "creatable name"
    using assms by (auto simp: name_fits_def split: option.splits)
  note l = lfnLength_c [OF n(1)] c_encodes [OF n(1)] c_long_name [OF n]
  show "FAT_directory_lfnLength c_locale name = Some (int (length name))" "0 \<notin> set name"
    "length name < MAX_LFN_LENGTH" "length name < PATH_MAX" "encodes c_locale name (map ucast name)" "long_name (map ucast name)"
    using l n by simp_all
  show "creatable name" "name \<noteq> []" using cr by (simp_all add: creatable_def)
  show "\<forall>c \<in> set name. 0x20 \<le> c"
    using n by (auto simp: FAT_directory_lfnLength_def list_ex_iff not_less split: if_splits)
qed

definition made_entry :: "dir_entry \<Rightarrow> u8 list \<Rightarrow> u8 list \<Rightarrow> dir_entry \<Rightarrow> bool" where
  "made_entry e name d entry' \<longleftrightarrow> de_filename e = name \<and> de_entryData e = d \<and> de_entryData entry' = d \<and>
     de_dataStart e = de_dataStart entry' \<and> de_dataEnd e = de_dataEnd entry'"

lemma create_entry:
  fixes p :: "'d partition"
  assumes inv: "dir_inv med xs ys p area" and ff: "may_allocate p" and m: "malloc_ok malloc"
    and t: "tidy c_locale (dir_content (pview med p) p area) items tail" and d: "length d = 32" and de: "de_entryData entry = d" and chars: "chars = name_array (map ucast name)"
    and each: "\<And>m. m < length ns \<Longrightarrow> lfn_entry chars (Suc (length ns)) (Suc (length ns - m)) chk = Some (ns ! m) \<and> length (ns ! m) = 32"
    and mk: "\<And>(q :: 'd partition) area g. \<exists>i. makes c_locale (put_slots q area g (ns @ [d])) i name d"
  obtains (created) entry' p' area' items' tail' l1 e l2 where
      "do { ((ok, entry), p) \<leftarrow> FAT_directory_findEntryGap malloc p entry (area_start area) (Suc (length ns));
         if \<not> ok then Some ((False, entry), p)
         else do {
           p \<leftarrow> write_entries p (de_dataStart entry) chars (Suc (length ns)) chk (de_entryData entry) (Suc (length ns));
           Some ((True, entry), p)
         } } = Some ((True, entry'), p')"
      and "dir_evolves med xs ys p area p' area'" and "tidy c_locale (dir_content (pview med p') p' area') items' tail'"
      and "listing c_locale items = l1 @ l2" and "listing c_locale items' = l1 @ e # l2" and "made_entry e name d entry'"
  | (no_room) entry' p' area' tail' where
      "do { ((ok, entry), p) \<leftarrow> FAT_directory_findEntryGap malloc p entry (area_start area) (Suc (length ns));
         if \<not> ok then Some ((False, entry), p)
         else do {
           p \<leftarrow> write_entries p (de_dataStart entry) chars (Suc (length ns)) chk (de_entryData entry) (Suc (length ns));
           Some ((True, entry), p)
         } } = Some ((False, entry'), p')"
      and "dir_evolves med xs ys p area p' area'" and "tidy c_locale (dir_content (pview med p') p' area') items tail'"
      and "no_room med p' area'"
proof -
  from inv ff m zero_less_Suc t show thesis
  proof (cases rule: findEntryGap_spec [where entry = entry and n = "Suc (length ns)"])
    case (found g p1 area1 i1 i2 tail1)
    let ?entry = "entry\<lparr>de_dataStart := slot_at p1 area1 g, de_dataEnd := slot_at p1 area1 (g + Suc (length ns) - 1)\<rparr>"
    obtain i where i: "makes c_locale (put_slots p1 area1 g (ns @ [d])) i name d" using mk by blast
    obtain p2 where p2: "write_entries p1 (slot_at p1 area1 g) chars (Suc (length ns)) chk d (Suc (length ns)) = Some p2"
      "dir_evolves med xs ys p1 area1 p2 area1" "tidy c_locale (dir_content (pview med p2) p2 area1) (i1 @ i # i2) tail1"
      by (rule write_named [OF dir_evolvesD(1) [OF found(2)] found(4) d each i])
    let ?e = "\<lparr>de_entryData = d, de_dataStart = slot_at p1 area1 g, de_dataEnd = slot_at p1 area1 (g + length ns), de_filename = name\<rparr>"
    have e: "item_entry c_locale i = Some ?e" "made_entry ?e name d ?entry"
      using i by (cases ns; simp add: makes_def put_slots_snoc put_slots_Cons) (simp add: made_entry_def de)
    show thesis
      using created [OF _ dir_evolves_trans [OF found(2) p2(2)] p2(3) _ listing_with [OF e(1)] e(2)] found(1,5) p2(1)
      by (simp add: de del: write_entries.simps)
  next
    case (no_gap entry' p1 area1 tail1)
    then show thesis using no_room [of entry' p1] by simp
  qed
qed

text \<open>The test for the name, and the short name with the number of slots.\<close>

lemma addEntry_start:
  assumes fits: "name_fits name" and nm: "trim_name (de_filename entry) = name" and ok: "area_ok med p area"
    and es: "dir_entries c_locale med p area = Some es"
  obtains (exists) p' where "FAT_directory_addEntry c_locale malloc p entry (area_start area) =
        Some ((False, entry\<lparr>de_filename := name\<rparr>), p')" and "pkept med p p'" and "name_taken name es"
  | (full) p' where "FAT_directory_addEntry c_locale malloc p entry (area_start area) =
        Some ((False, entry\<lparr>de_filename := name\<rparr>), p')" and "pkept med p p'" and "tails_used name es"
  | (chosen) al n p' where "pkept med p p'" and "\<not> name_taken name es" and "fresh_alias name es al"
      and "n = 1 \<and> al = name \<and> (\<exists>b e. short_form name b e) \<or> n = Suc (name_slots (length name))"
      and "FAT_directory_addEntry c_locale malloc p entry (area_start area) =
        (let entry = entry\<lparr>de_filename := name, de_entryData := short_data al (de_entryData entry)\<rparr>
         in do { ((ok, entry), p) \<leftarrow> FAT_directory_findEntryGap malloc p' entry (area_start area) n;
           if \<not> ok then Some ((False, entry), p)
           else do {
             p \<leftarrow> write_entries p (de_dataStart entry) (name_array (map ucast name)) n (alias_checksum (alias_bytes al))
               (de_entryData entry) n;
             Some ((True, entry), p)
           } })"
proof -
  note f = name_fitsD [OF fits]
  have dots: "name \<noteq> [CH_DOT]" "name \<noteq> [CH_DOT, CH_DOT]" "\<not> strnlen name PATH_MAX < 1"
    using f(1,7,5) by (auto simp: creatable_def strnlen_def)
  obtain p1 where p1: "FAT_directory_entryExists c_locale p name (area_start area) = Some (name_taken name es, p1)" "pkept med p p1"
    by (rule entryExists_c [OF ok es f(5)])
  show thesis
  proof (cases "name_taken name es")
    case True
    then show thesis
      using exists [OF _ p1(2)] p1(1) f(2) dots(3) by (simp add: FAT_directory_addEntry_def nm)
  next
    case False
    have es1: "dir_entries c_locale med p1 area = Some es" using es dir_entries_kept [OF p1(2)] by metis
    have mb: "FAT_directory_mbstoucs2 c_locale name MAX_LFN_LENGTH = Some (True, map ucast name)"
      using f(8) by (simp add: encodes_def)
    have refused: "FAT_directory_addEntry c_locale malloc p entry (area_start area) = Some ((False, entry\<lparr>de_filename := name\<rparr>), q)"
      if "choose_alias c_locale p1 name (length name) (area_start area) = Some (None, q)" for q
      using p1(1) f(2) dots False that by (simp add: FAT_directory_addEntry_def nm)
    have run: "FAT_directory_addEntry c_locale malloc p entry (area_start area) =
        (let entry = entry\<lparr>de_filename := name, de_entryData := short_data al (de_entryData entry)\<rparr>
         in do { ((ok, entry), p) \<leftarrow> FAT_directory_findEntryGap malloc q entry (area_start area) n;
           if \<not> ok then Some ((False, entry), p)
           else do {
             p \<leftarrow> write_entries p (de_dataStart entry) (name_array (map ucast name)) n (alias_checksum (alias_bytes al))
               (de_entryData entry) n;
             Some ((True, entry), p)
           } })"
      if "choose_alias c_locale p1 name (length name) (area_start area) = Some (Some (al, n), q)" for q al n
      using p1(1) f(2) dots False mb that
      by (simp add: FAT_directory_addEntry_def nm name_array_def short_data_def Let_def cong: if_cong)
    from area_kept [OF p1(2) ok] es1 f(3,4,1,6) show thesis
    proof (cases rule: choose_alias_spec)
      case (exact b e p')
      have "good_first name" using exact(3) good_first_append [of b] by (auto simp: short_form_def)
      then show thesis
        using chosen [OF pkept_trans [OF p1(2) exact(2)] False, of name 1] exact(3) run [OF exact(1)] by (auto simp: fresh_alias_def)
    next
      case (other al p')
      then show thesis
        using chosen [OF pkept_trans [OF p1(2) other(2)] False other(3), of "Suc (name_slots (length name))"] run [OF other(1)] by blast
    next
      case (full p')
      then show thesis using that(2) [OF refused pkept_trans [OF p1(2) full(2)]] by blast
    qed
  qed
qed

text \<open>The whole operation on a tidy directory: the new entry appears in the listing between the old ones,
  or the listing stays.\<close>

lemma addEntry_spec:
  fixes p :: "'d partition"
  assumes inv: "dir_inv med xs ys p area" and ff: "may_allocate p" and m: "malloc_ok malloc"
    and t: "tidy c_locale (dir_content (pview med p) p area) items tail"
    and fits: "name_fits (trim_name (de_filename entry))" and pl: "plain_entry (de_entryData entry)"
  defines "name \<equiv> trim_name (de_filename entry)"
  obtains (created) entry' p' area' items' tail' l1 e l2 al where
      "FAT_directory_addEntry c_locale malloc p entry (area_start area) = Some ((True, entry'), p')"
      and "dir_evolves med xs ys p area p' area'" and "tidy c_locale (dir_content (pview med p') p' area') items' tail'"
      and "listing c_locale items = l1 @ l2" and "listing c_locale items' = l1 @ e # l2"
      and "made_entry e name (short_data al (de_entryData entry)) entry'"
      and "\<not> name_taken name (l1 @ l2)" and "fresh_alias name (l1 @ l2) al"
  | (refused) entry' p' area' tail' where
      "FAT_directory_addEntry c_locale malloc p entry (area_start area) = Some ((False, entry'), p')"
      and "dir_evolves med xs ys p area p' area'" and "tidy c_locale (dir_content (pview med p') p' area') items tail'"
      and "name_taken name (listing c_locale items) \<or> tails_used name (listing c_locale items) \<or> no_room med p' area'"
proof -
  let ?es = "listing c_locale items" and ?d = "de_entryData entry" and ?chars = "map ucast name :: u16 list"
  note ok = dir_invD(1) [OF inv] and f = name_fitsD [OF fits [folded name_def]]
  have es: "dir_entries c_locale med p area = Some ?es" using tidy_entries [OF t] by (simp add: dir_entries_def)
  have kept: "dir_evolves med xs ys p area q area" "tidy c_locale (dir_content (pview med q) q area) items tail"
    if "pkept med p q" for q
    using dir_evolves_kept [OF inv that] t by (simp_all add: dir_content_kept [OF that])
  from fits [folded name_def] meta_eq_to_obj_eq [OF name_def [symmetric]] ok es show thesis
  proof (cases rule: addEntry_start [where malloc = malloc])
    case (exists q)
    then show thesis using refused [OF exists(1) kept [OF exists(2)]] by blast
  next
    case (full q)
    then show thesis using refused [OF full(1) kept [OF full(2)]] by blast
  next
    case (chosen al n q)
    let ?data = "short_data al ?d" and ?chk = "alias_checksum (alias_bytes al)"
    note ev = kept(1) [OF chosen(1)] and tq = kept(2) [OF chosen(1)] and sd = short_data_facts [OF pl]
    have v: "visible ?data" using chosen(3) by (intro sd(5)) (simp add: fresh_alias_def)
    have ffq: "may_allocate q" using ff same_partD(12) [OF pkeptD(2) [OF chosen(1)]] by (simp add: may_allocate_def)
    obtain ns where n: "n = Suc (length ns)"
      and each: "\<And>k. k < length ns \<Longrightarrow> lfn_entry (name_array ?chars) (Suc (length ns)) (Suc (length ns - k)) ?chk = Some (ns ! k) \<and>
        length (ns ! k) = 32"
      and mk: "\<And>(r :: 'd partition) area g. \<exists>i. makes c_locale (put_slots r area g (ns @ [?data])) i name ?data"
      using chosen(4)
    proof
      assume "n = 1 \<and> al = name \<and> (\<exists>b e. short_form name b e)"
      then obtain b e where s: "n = 1" "al = name" and sf: "short_form name b e" by blast
      show thesis using s makes_short [OF sf pl] by (intro that [of "[]"]) simp_all
    next
      assume n: "n = Suc (name_slots (length name))"
      obtain ns where ns: "name_entries ?chars ?chk ns" by (rule name_entries_exist [OF f(9)])
      then have "length ns = name_slots (length name)" "\<And>k. k < length ns \<Longrightarrow> lfn_entry (name_array ?chars) (Suc (length ns)) (Suc (length ns - k)) ?chk = Some (ns ! k) \<and>
        length (ns ! k) = 32"
        unfolding name_entries_def carries_name_def length_map by blast+
      then show thesis using n ns sd(3) by (intro that [of ns] makes_long [OF f(9,8) v]) simp_all
    qed
    note run = chosen(5) [unfolded n Let_def]
    show thesis
    proof (rule create_entry [where entry = "entry\<lparr>de_filename := name, de_entryData := ?data\<rparr>",
          OF dir_evolvesD(1) [OF ev] ffq m tq sd(1) _ refl each mk], goal_cases)
      case 1
      then show ?case by simp
    next
      case (2 k)
      then show ?case .
    next
      case created: (3 entry' p' area' items' tail' l1 e l2)
      show thesis
        using that(1) [OF _ dir_evolves_trans [OF ev created(2)] created(3,4,5,6)] created(1) run chosen(2,3) created(4)
        by simp
    next
      case no_room: (4 entry' p' area' tail')
      show thesis
        using that(2) [OF _ dir_evolves_trans [OF ev no_room(2)] no_room(3)] no_room(1,4) run by simp
    qed
  qed
qed

end
