(* ===== verification/DirFound.thy ===== *)
theory DirFound
  imports DirAdd
begin

text \<open>
  The search of the path walk against the test for an existing name: what the walk accepts is taken, so the walk
  finds the entry that was created for a name.
\<close>

definition accepts_c :: "u8 list \<Rightarrow> dir_entry \<Rightarrow> bool" where
  "accepts_c name e \<longleftrightarrow> entry_matches c_locale name (length name) e = Some True"

lemma entry_matches_c: "entry_matches c_locale name (length name) e = Some (accepts_c name e)"
proof -
  have "\<exists>d. FAT_directory_mbsncasecmp c_locale name (de_filename e) (length name) = Some d"
    using mbsncasecmp_total [of "()" "()" name "de_filename e"] by (simp add: FAT_directory_mbsncasecmp_def)
  then have "\<exists>b. entry_matches c_locale name (length name) e = Some b" by (auto simp: entry_matches_def Let_def)
  then show ?thesis by (auto simp: accepts_c_def)
qed

lemma accepts_own:
  assumes "length name < PATH_MAX" and "de_filename e = name"
  shows "accepts_c name e"
  using assms by (simp add: accepts_c_def entry_matches_def FAT_directory_mbsncasecmp_def mbsncasecmp_refl Let_def strnlen_def)

lemma strncasecmp_longer:
  assumes "length a = strnlen b k" and "strncasecmp_eq env a b (length a)"
  shows "strncasecmp_eq env a b k"
proof (cases "length b < k")
  case True
  then show ?thesis using assms by (simp add: strncasecmp_eq_def strnlen_def)
next
  case False
  then show ?thesis using assms by (simp add: strncasecmp_eq_def strnlen_def)
qed

lemma accepted_matches:
  assumes len: "length name < PATH_MAX" and acc: "accepts_c name e"
  shows "matches_c name e"
proof -
  have n: "strnlen name PATH_MAX = length name" using len by (simp add: strnlen_def)
  let ?shrt = "snd (FAT_directory_entryGetAlias c_locale (de_entryData e))"
  let ?long = "if length name = strnlen (de_filename e) PATH_MAX
    then do { d \<leftarrow> FAT_directory_mbsncasecmp c_locale name (de_filename e) (length name); Some (d = 0) } else Some False"
  obtain long where long: "?long = Some long"
    and acc': "long \<or> length name = strnlen ?shrt MAX_ALIAS_LENGTH \<and> strncasecmp_eq c_locale name ?shrt (length name)"
    using acc unfolding accepts_c_def entry_matches_def Let_def by (elim bind_SomeE) (simp only: option.inject simp_thms)
  have "same_name c_locale name e = Some (long \<or> strncasecmp_eq c_locale name ?shrt MAX_ALIAS_LENGTH)"
    unfolding same_name_def n long by simp
  moreover have "long \<or> strncasecmp_eq c_locale name ?shrt MAX_ALIAS_LENGTH" using acc' strncasecmp_longer by blast
  ultimately show ?thesis by (simp add: matches_c_def)
qed

text \<open>The entry created for a name is the only one the walk accepts.\<close>

lemma find_created:
  assumes len: "length name < PATH_MAX" and fresh: "\<not> name_taken name (l1 @ l2)" and e: "de_filename e = name"
  shows "find (\<lambda>x. accepts_c name x \<and> (True \<or> FAT_directory_isDirectory x)) (l1 @ e # l2) = Some e"
proof -
  have "\<not> accepts_c name x" if "x \<in> set l1" for x
    using fresh that accepted_matches [OF len] by (auto simp: name_taken_def)
  then have "find (accepts_c name) (l1 @ e # l2) = Some e"
    using accepts_own [OF len e] by (induction l1) auto
  then show ?thesis by simp
qed

lemma created_found:
  assumes ok: "area_ok med p area" and t: "tidy c_locale (dir_content (pview med p) p area) items tail"
    and l: "listing c_locale items = l1 @ e # l2" and len: "length name < PATH_MAX"
    and fresh: "\<not> name_taken name (l1 @ l2)" and e: "de_filename e = name"
  obtains p' where "do { ((foundFile, entry), p) \<leftarrow> FAT_directory_getFirstEntry c_locale p entry (area_start area);
      findInDirectory c_locale p name (length name) True foundFile entry } = Some ((True, e), p')" and "pkept med p p'"
proof -
  have es: "dir_entries c_locale med p area = Some (l1 @ e # l2)" using tidy_entries [OF t] by (simp add: dir_entries_def l)
  obtain r p' where r: "do { ((foundFile, entry), p) \<leftarrow> FAT_directory_getFirstEntry c_locale p entry (area_start area);
      findInDirectory c_locale p name (length name) True foundFile entry } = Some (r, p')" "pkept med p p'"
    "search_outcome (\<lambda>x. accepts_c name x \<and> (True \<or> FAT_directory_isDirectory x)) (l1 @ e # l2) r"
    by (rule findInDirectory_spec [OF ok es entry_matches_c])
  then show thesis using that find_created [OF len fresh e] by (simp add: search_outcome_def)
qed

end
