(* ===== verification/DirRemove.thy ===== *)
theory DirRemove
  imports DirGap
begin

text \<open>
  Removing an entry: \<open>_FAT_directory_removeEntry\<close> marks the slots of one entry of a tidy directory as free, and
  only that entry leaves the listing.
\<close>

section \<open>Slots marked as free\<close>

lemma slot_at_inj:
  assumes ok: "area_ok med p area" and i: "i < slot_count p area" "j < slot_count p area"
    and eq: "slot_at p area i = slot_at p area j"
  shows "i = j"
proof -
  have "i div sps p = j div sps p" using unit_sector_inj [OF ok i] eq by simp
  moreover have "i mod sps p = j mod sps p"
    using arg_cong [OF eq, of "\<lambda>pos. unat (dp_offset pos)"] unat_slot_offset [OF area_okD(4) [OF ok]] by metis
  ultimately show ?thesis by (metis div_mult_mod_eq)
qed

definition freed :: "slot \<Rightarrow> slot" where
  "freed x = (fst x, (snd x)[0 := DIR_ENTRY_FREE])"

lemma snd_nth_content:
  "i < slot_count p area \<Longrightarrow> snd (dir_content v p area ! i) = slot_bytes v p (slot_at p area i)"
  "i < slot_count p area \<Longrightarrow> fst (dir_content v p area ! i) = slot_at p area i"
  by (simp_all add: nth_dir_content)

lemma free_slot:
  assumes ok: "area_ok med p area" and i: "i < slot_count p area"
  defines "c \<equiv> dir_content (pview med p) p area"
  obtains q data where "dir_step med area p q" and "dir_content (pview med q) q area = c[i := freed (c ! i)]"
    and "removeEntry_loop p (slot_at p area i) entryEnd old =
      do {
        ((ok, pos'), r) \<leftarrow> FAT_directory_incrementDirEntryPosition no_malloc q (slot_at q area i) False;
        if ok \<and> slot_at p area i \<noteq> entryEnd then removeEntry_loop r pos' entryEnd data else Some (ok, r)
      }"
proof -
  let ?pos = "slot_at p area i" let ?d = "slot_bytes (pview med p) p ?pos"
  obtain p1 where p1: "readEntry p ?pos old = Some ((True, Some ?d), p1)" "pkept med p p1"
    by (rule readEntry_slot [OF ok i])
  note same = area_same [OF pkeptD(2) [OF p1(2)]] and ok1 = area_kept [OF p1(2) ok]
  have len: "length (?d[0 := DIR_ENTRY_FREE]) = 32" by (simp add: length_slot_bytes [OF ok])
  have i1: "i < slot_count p1 area" using i by (simp add: same)
  obtain q where q: "writeEntry p1 (slot_at p1 area i) (?d[0 := DIR_ENTRY_FREE]) = Some (True, q)" "dir_step med area p1 q"
    "dir_content (pview med q) q area = (dir_content (pview med p1) p1 area)[i := (slot_at p1 area i, ?d[0 := DIR_ENTRY_FREE])]"
    by (rule writeEntry_slot [OF ok1 i1 len])
  have st: "dir_step med area p q" by (rule dir_step_trans [OF dir_step_kept [OF p1(2)] q(2)])
  have "dir_content (pview med q) q area = c[i := freed (c ! i)]"
    unfolding q(3) dir_content_kept [OF p1(2)] c_def by (simp add: freed_def snd_nth_content [OF i] same)
  moreover have "slot_at q area i = ?pos" using area_same [OF dir_stepD(2) [OF st]] by simp
  ultimately show thesis
    using p1(1) q(1) by (intro that [OF st]) (assumption, subst removeEntry_loop.simps, simp add: same Let_def)
qed

text \<open>The slots \<open>i\<close> to \<open>i + k\<close> of a content, freed.\<close>

definition freed_run :: "nat \<Rightarrow> nat \<Rightarrow> slot list \<Rightarrow> slot list" where
  "freed_run i k c = map (\<lambda>j. if i \<le> j \<and> j \<le> i + k then freed (c ! j) else c ! j) [0..<length c]"

lemma freed_run_0: "i < length c \<Longrightarrow> freed_run i 0 c = c[i := freed (c ! i)]"
  by (rule nth_equalityI) (auto simp: freed_run_def nth_list_update)

lemma freed_run_Suc: "i < length c \<Longrightarrow> freed_run i (Suc k) c = freed_run (Suc i) k (c[i := freed (c ! i)])"
  by (rule nth_equalityI) (auto simp: freed_run_def nth_list_update)

lemma freed_run_middle: "length b = Suc m \<Longrightarrow> freed_run (length a) m (a @ b @ c) = a @ map freed b @ c"
  by (rule nth_equalityI) (auto simp: freed_run_def nth_append simp del: upt_Suc)

lemma removeEntry_loop_spec:
  assumes "area_ok med p area" and "i + k < slot_count p area"
  shows "\<exists>p'. removeEntry_loop p (slot_at p area i) (slot_at p area (i + k)) old = Some (Suc (i + k) < slot_count p area, p') \<and>
    dir_step med area p p' \<and> dir_content (pview med p') p' area = freed_run i k (dir_content (pview med p) p area)"
  using assms
proof (induction k arbitrary: i p old)
  case (0 i p old)
  note ok = 0(1)
  have i: "i < slot_count p area" using 0(2) by simp
  obtain q data where q: "dir_step med area p q"
    "dir_content (pview med q) q area = (dir_content (pview med p) p area)[i := freed (dir_content (pview med p) p area ! i)]"
    "removeEntry_loop p (slot_at p area i) (slot_at p area i) old =
      do {
        ((ok, pos'), r) \<leftarrow> FAT_directory_incrementDirEntryPosition no_malloc q (slot_at q area i) False;
        if ok \<and> slot_at p area i \<noteq> slot_at p area i then removeEntry_loop r pos' (slot_at p area i) data else Some (ok, r)
      }"
    by (rule free_slot [OF ok i])
  note okq = dir_step_table(2) [OF ok q(1)] and same = area_same [OF dir_stepD(2) [OF q(1)]]
  have "\<exists>pos r. FAT_directory_incrementDirEntryPosition no_malloc q (slot_at q area i) False = Some ((Suc i < slot_count q area, pos), r) \<and>
    pkept med q r"
  proof (cases "Suc i < slot_count q area")
    case True
    then show ?thesis using step_next [OF okq True, of no_malloc False] by (metis (full_types))
  next
    case False
    then have l: "Suc i = slot_count q area" using i by (simp add: same)
    show ?thesis using step_end [OF okq l, of False no_malloc] False by (metis (full_types))
  qed
  then obtain pos r where r: "FAT_directory_incrementDirEntryPosition no_malloc q (slot_at q area i) False =
      Some ((Suc i < slot_count q area, pos), r)" "pkept med q r"
    by blast
  show ?case
    using q(3) r(1) dir_step_trans [OF q(1) dir_step_kept [OF r(2)]] i
    by (simp add: same dir_content_kept [OF r(2)] q(2) freed_run_0)
next
  case (Suc k)
  note ok = Suc.prems(1)
  have i: "i < slot_count p area" "Suc i < slot_count p area" using Suc.prems(2) by simp_all
  let ?c = "dir_content (pview med p) p area" and ?stop = "slot_at p area (i + Suc k)"
  obtain q data where q: "dir_step med area p q"
    "dir_content (pview med q) q area = ?c[i := freed (?c ! i)]"
    "removeEntry_loop p (slot_at p area i) ?stop old =
      do {
        ((ok, pos'), r) \<leftarrow> FAT_directory_incrementDirEntryPosition no_malloc q (slot_at q area i) False;
        if ok \<and> slot_at p area i \<noteq> ?stop then removeEntry_loop r pos' ?stop data else Some (ok, r)
      }"
    by (rule free_slot [OF ok i(1)])
  note okq = dir_step_table(2) [OF ok q(1)] and same = area_same [OF dir_stepD(2) [OF q(1)]]
  have iq: "Suc i < slot_count q area" using i by (simp add: same)
  obtain r where r: "FAT_directory_incrementDirEntryPosition no_malloc q (slot_at q area i) False =
      Some ((True, slot_at q area (Suc i)), r)" "pkept med q r"
    by (rule step_next [OF okq iq])
  note same' = area_same [OF pkeptD(2) [OF r(2)]]
  have ne: "slot_at p area i \<noteq> ?stop" using slot_at_inj [OF ok i(1) Suc.prems(2)] by auto
  have fit: "Suc i + k < slot_count r area" using Suc.prems(2) by (simp add: same same')
  obtain p' where p': "removeEntry_loop r (slot_at r area (Suc i)) (slot_at r area (Suc i + k)) data = Some (Suc (Suc i + k) < slot_count r area, p')"
    "dir_step med area r p'" "dir_content (pview med p') p' area = freed_run (Suc i) k (dir_content (pview med r) r area)"
    using Suc.IH [OF area_kept [OF r(2) okq] fit, of data] by blast
  have "removeEntry_loop p (slot_at p area i) ?stop old = Some (Suc (i + Suc k) < slot_count p area, p')"
    using p'(1) ne r(1) unfolding q(3) by (simp add: same same')
  moreover have "dir_content (pview med p') p' area = freed_run i (Suc k) ?c"
    unfolding p'(3) dir_content_kept [OF r(2)] q(2) using i(1) by (simp add: freed_run_Suc)
  ultimately show ?case using dir_step_trans [OF q(1) dir_step_trans [OF dir_step_kept [OF r(2)] p'(2)]] by blast
qed

section \<open>Removing an entry of a tidy directory\<close>

lemma listing_nth:
  assumes "k < length (listing env items)" and "list_all (item_ok env) items"
  obtains i1 ns s i2 where "items = i1 @ Named ns s # i2" and "item_entry env (Named ns s) = Some (listing env items ! k)"
    and "listing env i1 = take k (listing env items)" and "listing env i2 = drop (Suc k) (listing env items)"
proof -
  have "\<exists>i1 ns s i2. items = i1 @ Named ns s # i2 \<and> item_entry env (Named ns s) = Some (listing env items ! k) \<and>
    listing env i1 = take k (listing env items) \<and> listing env i2 = drop (Suc k) (listing env items)"
    using assms
  proof (induction items arbitrary: k)
    case (Cons i items)
    show ?case
    proof (cases "item_entry env i")
      case None
      then have l: "listing env (i # items) = listing env items" by (simp add: listing_Cons)
      have "k < length (listing env items)" "list_all (item_ok env) items" using Cons.prems l by simp_all
      from Cons.IH [OF this] obtain i1 ns s i2 where r: "items = i1 @ Named ns s # i2"
        "item_entry env (Named ns s) = Some (listing env items ! k)"
        "listing env i1 = take k (listing env items)" "listing env i2 = drop (Suc k) (listing env items)"
        by (elim exE conjE)
      have "listing env (i # i1) = take k (listing env items)" using None r(3) by (simp only: listing_Cons option.case)
      then show ?thesis unfolding l using r(1,2,4) by (intro exI [of _ "i # i1"] exI [of _ ns] exI [of _ s] exI [of _ i2]) (simp only: append_Cons simp_thms)
    next
      case (Some e)
      then have l: "listing env (i # items) = e # listing env items" by (simp add: listing_Cons)
      obtain ns s where i: "i = Named ns s" using Some by (cases i) (auto simp: item_entry_def)
      show ?thesis
      proof (cases k)
        case 0
        then show ?thesis using Some i l by (intro exI [of _ "[]"] exI [of _ ns] exI [of _ s] exI [of _ items]) simp
      next
        case (Suc k')
        then have "k' < length (listing env items)" "list_all (item_ok env) items" using Cons.prems l by simp_all
        from Cons.IH [OF this] obtain i1 ns' s' i2 where r: "items = i1 @ Named ns' s' # i2"
          "item_entry env (Named ns' s') = Some (listing env items ! k')"
          "listing env i1 = take k' (listing env items)" "listing env i2 = drop (Suc k') (listing env items)"
          by (elim exE conjE)
        have "listing env (i # i1) = take k (e # listing env items)" using Some r(3) by (simp only: listing_Cons option.case Suc take_Suc_Cons)
        then show ?thesis unfolding l using r(1,2,4)
          by (intro exI [of _ "i # i1"] exI [of _ ns'] exI [of _ s'] exI [of _ i2])
            (simp only: append_Cons Suc nth_Cons_Suc drop_Suc_Cons simp_thms)
      qed
    qed
  qed simp
  then show thesis using that by blast
qed

lemma freed_items:
  assumes "list_all (\<lambda>x. length (snd x) = 32) slots"
  shows "list_all (item_ok env) (map (Skip \<circ> freed) slots)" and "slots_of (map (Skip \<circ> freed) slots) = map freed slots"
    and "listing env (map (Skip \<circ> freed) slots) = []"
  using assms by (induction slots)
    (auto simp: item_ok_def skipped_def freed_def is_free_def is_last_def DIR_ENTRY_FREE_def DIR_ENTRY_LAST_def)

lemma content_bytes:
  assumes "area_ok med p area" and "x \<in> set (dir_content (pview med p) p area)"
  shows "length (snd x) = 32"
  using assms length_slot_bytes [OF assms(1)] by (auto simp: dir_content_def)

text \<open>The result of the code is false when the entry ends in the last slot of the directory, although the entry
  has been removed.\<close>

lemma removeEntry_step:
  assumes inv: "dir_inv med xs ys p area" and t: "tidy env (dir_content (pview med p) p area) items tail"
    and k: "k < length (listing env items)"
  defines "e \<equiv> listing env items ! k"
  obtains b p' items' where "FAT_directory_removeEntry p e = Some (b, p')"
    and "b \<longleftrightarrow> de_dataEnd e \<noteq> slot_at p area (slot_count p area - 1)"
    and "dir_step med area p p'" and "tidy env (dir_content (pview med p') p' area) items' tail"
    and "listing env items' = take k (listing env items) @ drop (Suc k) (listing env items)"
proof -
  let ?c = "dir_content (pview med p) p area"
  note ok = dir_invD(1) [OF inv]
  have c: "?c = slots_of items @ tail" and oks: "list_all (item_ok env) items" and tl: "tail_ok tail"
    using t by (simp_all add: tidy_def)
  obtain i1 ns s i2 where its: "items = i1 @ Named ns s # i2" "item_entry env (Named ns s) = Some e"
    "listing env i1 = take k (listing env items)" "listing env i2 = drop (Suc k) (listing env items)"
    unfolding e_def by (rule listing_nth [OF k oks])
  let ?b = "ns @ [s]" and ?i = "length (slots_of i1)"
  have cc: "?c = slots_of i1 @ ?b @ slots_of i2 @ tail" unfolding c its(1) by simp
  have len: "slot_count p area = ?i + (Suc (length ns) + length (slots_of i2 @ tail))"
    using arg_cong [OF cc, of length] by simp
  then have fit: "?i + length ns < slot_count p area" by simp
  have okn: "list_all (item_ok env) i1" "item_ok env (Named ns s)" "list_all (item_ok env) i2"
    using oks unfolding its(1) by simp_all
  have at: "fst (?c ! ?i) = fst (hd ?b)" "fst (?c ! (?i + length ns)) = fst s"
    unfolding cc by (cases ns; simp add: nth_append)+
  have pos: "de_dataStart e = slot_at p area ?i" "de_dataEnd e = slot_at p area (?i + length ns)"
    using okn(2) its(2) at snd_nth_content(2) [of ?i p area "pview med p"] snd_nth_content(2) [OF fit, of "pview med p"] fit
    by (simp_all add: item_ok_def)
  obtain p' where p': "removeEntry_loop p (slot_at p area ?i) (slot_at p area (?i + length ns)) None =
      Some (Suc (?i + length ns) < slot_count p area, p')" "dir_step med area p p'"
    "dir_content (pview med p') p' area = freed_run ?i (length ns) ?c"
    using removeEntry_loop_spec [OF ok fit, of None] by blast
  have run: "FAT_directory_removeEntry p e = Some (Suc (?i + length ns) < slot_count p area, p')"
    using p'(1) by (simp add: FAT_directory_removeEntry_def pos)
  have b: "Suc (?i + length ns) < slot_count p area \<longleftrightarrow> de_dataEnd e \<noteq> slot_at p area (slot_count p area - 1)"
  proof -
    have "?i + length ns = slot_count p area - 1" if "slot_at p area (?i + length ns) = slot_at p area (slot_count p area - 1)"
      using slot_at_inj [OF ok fit _ that] fit by simp
    then have "de_dataEnd e = slot_at p area (slot_count p area - 1) \<longleftrightarrow> ?i + length ns = slot_count p area - 1"
      unfolding pos(2) by metis
    then show ?thesis using fit by linarith
  qed
  have new: "dir_content (pview med p') p' area = slots_of i1 @ map freed ?b @ slots_of i2 @ tail"
    unfolding p'(3) unfolding cc by (rule freed_run_middle) simp
  have "list_all (\<lambda>x. length (snd x) = 32) ?b"
    using content_bytes [OF ok] unfolding cc list_all_iff by simp
  note fr = freed_items [OF this]
  let ?items = "i1 @ map (Skip \<circ> freed) ?b @ i2"
  have "tidy env (dir_content (pview med p') p' area) ?items tail"
    unfolding tidy_def new slots_of_simps(3) fr(2) list_all_append using okn(1,3) fr(1) tl by simp
  moreover have "listing env ?items = take k (listing env items) @ drop (Suc k) (listing env items)"
    unfolding listing_simps(3) fr(3) its(3,4) by simp
  ultimately show thesis using that [OF run b p'(2)] by blast
qed

lemma removeEntry_spec:
  assumes inv: "dir_inv med xs ys p area" and t: "tidy env (dir_content (pview med p) p area) items tail"
    and k: "k < length (listing env items)"
  defines "e \<equiv> listing env items ! k"
  obtains b p' items' where "FAT_directory_removeEntry p e = Some (b, p')"
    and "b \<longleftrightarrow> de_dataEnd e \<noteq> slot_at p area (slot_count p area - 1)"
    and "dir_evolves med xs ys p area p' area" and "tidy env (dir_content (pview med p') p' area) items' tail"
    and "listing env items' = take k (listing env items) @ drop (Suc k) (listing env items)"
  unfolding e_def by (rule removeEntry_step [OF inv t k]) (rule that [unfolded e_def], assumption+, rule dir_evolves_step [OF inv], assumption+)

end
