(* ===== verification/DirDisc.thy ===== *)
theory DirDisc
  imports RamDisc DirAdd
begin

text \<open>
  A FAT16 volume with directories on the disc in memory: sectors of 64 bytes, the table in sector one, a root
  directory of four slots in sectors two and three, and the subdirectory in cluster 2 at sector four.
\<close>

definition readme :: "u8 list" where
  "readme = [0x52, 0x45, 0x41, 0x44, 0x4D, 0x45]"

definition plain_data :: "u8 list" where
  "plain_data = replicate 11 0x20 @ [0x20] @ replicate 20 0"

definition readme_slot :: "u8 list" where
  "readme_slot = readme @ replicate 5 0x20 @ [0x20] @ replicate 20 0"

definition deleted_slot :: "u8 list" where
  "deleted_slot = 0xE5 # replicate 31 0x20"

definition ram_dirs :: ram where
  "ram_dirs s = (if s = 1 then [0xF8, 0xFF, 0xFF, 0xFF, 0xFF, 0xFF] @ replicate 58 0
     else if s = 2 then readme_slot @ deleted_slot
     else if s = 4 then deleted_slot @ readme_slot else [])"

definition dir_part :: "ram partition" where
  "dir_part = \<lparr>p_disc = ram_disc 64, p_cache = ram_cache 64 16 ram_dirs, p_filesysType = FS_FAT16,
     p_totalSize = 0, p_rootDirStart = 2, p_rootDirCluster = 0, p_numberOfSectors = 16, p_dataStart = 4,
     p_bytesPerSector = 64, p_sectorsPerCluster = 1, p_bytesPerCluster = 64, p_fsInfoSector = 0,
     p_fat = \<lparr>fat_fatStart = 1, fat_sectorsPerFat = 1, fat_lastCluster = 3, fat_firstFree = 3,
       fat_numberFreeCluster = 1, fat_numberLastAllocCluster = 0\<rparr>,
     p_cwdCluster = 0, p_openFileCount = 0, p_firstOpenFile = None, p_readOnly = False, p_label = []\<rparr>"

abbreviation med64 :: "ram \<Rightarrow> sec_t \<Rightarrow> u8 list" where
  "med64 \<equiv> ram_med 64"

lemma dir_part_ok: "part_ok med64 dir_part" "volume_ok med64 dir_part"
proof -
  have st: "store_inv med64 (ram_cache 64 16 ram_dirs)" and lim: "c_endOfPartition (ram_cache 64 16 ram_dirs) = 16"
    "c_bytesPerSector (ram_cache 64 16 ram_dirs) = 64"
    using ram_cache_store [of 64 16 ram_dirs] by simp_all
  show ok: "part_ok med64 dir_part"
    by (auto simp: part_ok_def st dir_part_def fat_wf_def lim readable_def entry_pos_def entry_len_def
        eof_limit_def CLUSTER_FIRST_def)
  have "data_ok dir_part"
    by (auto simp: data_ok_def dir_part_def lim)
  then show "volume_ok med64 dir_part" using ok by (simp add: volume_ok_def) (simp add: dir_part_def)
qed

lemma dir_part_valid: "FAT_fat_isValidCluster dir_part c \<longleftrightarrow> 2 \<le> c \<and> c \<le> 3"
  by (simp add: FAT_fat_isValidCluster_def dir_part_def CLUSTER_FIRST_def)

lemma dir_part_view: "pview med64 dir_part = med64 ram_dirs"
proof -
  have "cview med64 (ram_cache 64 16 ram_dirs) = med64 ram_dirs" using ram_cache_store(2) [of 64 16 ram_dirs] by simp
  then show ?thesis by (simp add: pview_def dir_part_def)
qed

lemma dir_part_table: "fat_table med64 dir_part 2 = CLUSTER_EOF" "fat_table med64 dir_part 3 = CLUSTER_FREE"
proof -
  note eval = fat_table_def readable_def entry_pos_def entry_len_def raw_entry_def link_of_def eof_limit_def
    fat_bytes_def cluster_defs le_value_def u8array_to_u16_def
  show "fat_table med64 dir_part 2 = CLUSTER_EOF"
    unfolding eval dir_part_view by (simp add: dir_part_def ram_med_def ram_dirs_def upt_rec)
  show "fat_table med64 dir_part 3 = CLUSTER_FREE"
    unfolding eval dir_part_view by (simp add: dir_part_def ram_med_def ram_dirs_def upt_rec)
qed

lemma dir_part_forest: "forest (fat_table med64 dir_part) (FAT_fat_isValidCluster dir_part) [[2]]"
proof -
  have "c = 2" if "2 \<le> c" "c \<le> 3" "fat_table med64 dir_part c \<noteq> CLUSTER_FREE" for c :: u32
  proof -
    have "unat c = 2 \<or> unat c = 3" using that(1,2) by (simp add: word_le_nat_alt) arith
    then have "c = 2 \<or> c = 3" by (auto simp: word_eq_iff_unat_eq)
    with that(3) show ?thesis by (auto simp: dir_part_table)
  qed
  then show ?thesis by (simp add: forest_def dir_part_table dir_part_valid)
qed

lemma dir_part_areas: "dir_inv med64 [[2]] [] dir_part Root" "dir_inv med64 [] [] dir_part (Chain [2])"
proof -
  show "dir_inv med64 [[2]] [] dir_part Root"
    using dir_part_ok dir_part_forest
    by (simp add: dir_inv_def area_ok_def area_chains_def) (simp add: dir_part_def FAT16_ROOT_DIR_CLUSTER_def)
  have "file_chain med64 dir_part [2]"
    using dir_part_ok by (simp add: file_chain_def dir_part_table dir_part_valid)
  then show "dir_inv med64 [] [] dir_part (Chain [2])"
    using dir_part_ok dir_part_forest
    by (simp add: dir_inv_def area_ok_def area_chains_def) (simp add: dir_part_def)
qed

section \<open>The two directories\<close>

abbreviation root_pos :: "u32 \<Rightarrow> u32 \<Rightarrow> dir_pos" where
  "root_pos s o' \<equiv> \<lparr>dp_cluster = 0, dp_sector = s, dp_offset = o'\<rparr>"

abbreviation sub_pos :: "u32 \<Rightarrow> dir_pos" where
  "sub_pos o' \<equiv> \<lparr>dp_cluster = 2, dp_sector = 0, dp_offset = o'\<rparr>"

lemma root_content:
  "dir_content (pview med64 dir_part) dir_part Root =
    [(root_pos 0 0, readme_slot), (root_pos 0 1, deleted_slot), (root_pos 1 0, replicate 32 0), (root_pos 1 1, replicate 32 0)]"
proof -
  have "slot_count dir_part Root = 4" "sps dir_part = 2"
    by (simp_all add: slot_count_def area_sectors_def sps_def) (simp_all add: dir_part_def)
  then show ?thesis
    unfolding dir_part_view
    by (simp add: dir_content_def upt_rec slot_at_def sector_pos_def slot_bytes_def pos_sector_def FAT_fat_clusterToSector_def
        FAT16_ROOT_DIR_CLUSTER_def CLUSTER_FIRST_def)
      (simp add: dir_part_def ram_med_def ram_dirs_def slice_def readme_slot_def deleted_slot_def readme_def)
qed

lemma sub_content:
  "dir_content (pview med64 dir_part) dir_part (Chain [2]) = [(sub_pos 0, deleted_slot), (sub_pos 1, readme_slot)]"
proof -
  have "slot_count dir_part (Chain [2]) = 2" "sps dir_part = 2" "p_sectorsPerCluster dir_part = 1"
    by (simp_all add: slot_count_def area_sectors_def sps_def) (simp_all add: dir_part_def)
  then show ?thesis
    unfolding dir_part_view
    by (simp add: dir_content_def upt_rec slot_at_def sector_pos_def slot_bytes_def pos_sector_def FAT_fat_clusterToSector_def
        CLUSTER_FIRST_def)
      (simp add: dir_part_def ram_med_def ram_dirs_def slice_def readme_slot_def deleted_slot_def readme_def)
qed

lemma readme_short: "short_form readme readme []" "readme_slot = short_data readme plain_data" "plain_entry plain_data"
  by code_simp+

definition readme_entry :: "dir_pos \<Rightarrow> dir_entry" where
  "readme_entry pos = \<lparr>de_entryData = readme_slot, de_dataStart = pos, de_dataEnd = pos, de_filename = readme\<rparr>"

lemma readme_item: "item_ok c_locale (Named [] (pos, readme_slot))" "item_entry c_locale (Named [] (pos, readme_slot)) = Some (readme_entry pos)"
proof -
  note v = short_data_facts(5) [OF readme_short(3), of readme, folded readme_short(2)]
  have vis: "visible readme_slot" using v readme_short(1) by (simp add: short_form_def)
  have "scan_slots c_locale [(pos, readme_slot)] scan_start = Some (Some (readme_entry pos, []))"
    unfolding visible_slot [OF vis] readme_entry_def
    by (simp add: scan_name_def scan_start_def Let_def short_name_read_back [OF readme_short(1,3), folded readme_short(2)])
  then show e: "item_entry c_locale (Named [] (pos, readme_slot)) = Some (readme_entry pos)" by (simp add: item_entry_def)
  show "item_ok c_locale (Named [] (pos, readme_slot))"
    using e visible_marks [OF vis] by (simp add: item_ok_def readme_entry_def)
qed

lemma item_entry_Skip [simp]: "item_entry env (Skip s) = None"
  by (simp add: item_entry_def)

lemma deleted_skipped: "skipped (pos, deleted_slot)"
  by (simp add: skipped_def is_free_def is_last_def deleted_slot_def DIR_ENTRY_FREE_def DIR_ENTRY_LAST_def)

lemma root_tidy:
  "tidy c_locale (dir_content (pview med64 dir_part) dir_part Root) [Named [] (root_pos 0 0, readme_slot), Skip (root_pos 0 1, deleted_slot)]
    [(root_pos 1 0, replicate 32 0), (root_pos 1 1, replicate 32 0)]"
  "listing c_locale [Named [] (root_pos 0 0, readme_slot), Skip (root_pos 0 1, deleted_slot)] = [readme_entry (root_pos 0 0)]"
  using readme_item deleted_skipped
  by (simp_all add: root_content tidy_def listing_Cons tail_ok_def is_last_def DIR_ENTRY_LAST_def ATTRIB_LFN_def)
    (simp add: item_ok_def)

lemma sub_tidy:
  "tidy c_locale (dir_content (pview med64 dir_part) dir_part (Chain [2])) [Skip (sub_pos 0, deleted_slot), Named [] (sub_pos 1, readme_slot)] []"
  "listing c_locale [Skip (sub_pos 0, deleted_slot), Named [] (sub_pos 1, readme_slot)] = [readme_entry (sub_pos 1)]"
  using readme_item deleted_skipped
  by (simp_all add: sub_content tidy_def listing_Cons tail_ok_def) (simp add: item_ok_def)

end
