(* ===== verification/DirTheorems.thy ===== *)
theory DirTheorems
  imports DirFound DirRemove DirDisc
begin

text \<open>
  The properties of directories, each applied to a directory of the volume on the disc in memory.
\<close>

section \<open>Listing a directory\<close>

text \<open>C11: refinement. The calls for the first entry and for the entry behind a given one go through a directory entry by
  entry: they return the entries that its slots make, in order, and report the end behind the last one.
  They write nothing and leave the listing as it is.\<close>

theorem entries_in_order:
  assumes "area_ok med p area" and "dir_entries env med p area = Some es"
  shows "(\<exists>p' e. FAT_directory_getFirstEntry env p entry (area_start area) =
        Some ((es \<noteq> [], if es = [] then e else hd es), p') \<and>
      pkept med p p' \<and> dir_entries env med p' area = Some es) \<and>
    (\<forall>k < length es. \<exists>p' e. FAT_directory_getNextEntry env p (es ! k) =
        Some ((Suc k < length es, if Suc k < length es then es ! Suc k else e), p') \<and>
      pkept med p p' \<and> dir_entries env med p' area = Some es)"
proof (intro conjI allI impI)
  have kept: "dir_entries env med p' area = Some es" if "pkept med p p'" for p'
    using assms(2) dir_entries_kept [OF that, of env area] by simp
  show "\<exists>p' e. FAT_directory_getFirstEntry env p entry (area_start area) =
      Some ((es \<noteq> [], if es = [] then e else hd es), p') \<and> pkept med p p' \<and> dir_entries env med p' area = Some es"
    by (rule getFirstEntry_spec [OF assms]) (use kept in blast)
  show "\<exists>p' e. FAT_directory_getNextEntry env p (es ! k) =
      Some ((Suc k < length es, if Suc k < length es then es ! Suc k else e), p') \<and> pkept med p p' \<and>
      dir_entries env med p' area = Some es" if "k < length es" for k
    by (rule getNextEntry_spec [OF assms that]) (use kept in blast)
qed

lemma root_entries: "dir_entries c_locale med64 dir_part Root = Some [readme_entry (root_pos 0 0)]"
  using tidy_entries [OF root_tidy(1)] by (simp add: dir_entries_def root_tidy(2))

theorem entries_in_order_witness:
  "(\<exists>p'. FAT_directory_getFirstEntry c_locale dir_part blank_entry FAT16_ROOT_DIR_CLUSTER = Some ((True, readme_entry (root_pos 0 0)), p')) \<and>
   (\<exists>p' e. FAT_directory_getNextEntry c_locale dir_part (readme_entry (root_pos 0 0)) = Some ((False, e), p'))"
  using entries_in_order [OF dir_invD(1) [OF dir_part_areas(1)] root_entries, of blank_entry] by (auto simp: area_start_def)

section \<open>Creating an entry\<close>


definition zero_malloc :: "nat \<Rightarrow> u8 list option" where
  "zero_malloc n = Some (replicate n 0)"


definition notes_entry :: dir_entry where
  "notes_entry = \<lparr>de_entryData = plain_data, de_dataStart = root_pos 0 0, de_dataEnd = root_pos 0 0,
     de_filename = [0x4E, 0x4F, 0x54, 0x45, 0x53]\<rparr>"






text \<open>A name that ends in a dot is not lost in the conversion to its short name, so the code writes no long name, and the
  short name has no dot: \<open>FOO.\<close> is created, is not found, and is created again.\<close>

definition foo_entry :: dir_entry where
  "foo_entry = notes_entry\<lparr>de_filename := [0x46, 0x4F, 0x4F, 0x2E]\<rparr>"

definition finds_foo :: "ram partition \<Rightarrow> bool option" where
  "finds_foo p = do {
     ((foundFile, x), q) \<leftarrow> FAT_directory_getFirstEntry c_locale p blank_entry 2;
     ((found, e), q) \<leftarrow> findInDirectory c_locale q (de_filename foo_entry) 4 True foundFile x;
     Some found
   }"

lemma trailing_dot_lost:
  "do {
     ((made, entry), p) \<leftarrow> FAT_directory_addEntry c_locale zero_malloc dir_part foo_entry 2;
     found \<leftarrow> finds_foo p;
     ((again, entry), q) \<leftarrow> FAT_directory_addEntry c_locale zero_malloc p foo_entry 2;
     Some (made, found, again)
   } = Some (True, False, True)"
  by code_simp

section \<open>Removing an entry\<close>

text \<open>C13: functional. Removing an entry of a tidy directory takes exactly that entry out of the listing, long name and all, and keeps the
  directory tidy; it writes only to the sectors of the directory. It reports failure exactly when the entry ended in
  the last slot of the directory, although the entry is gone then as well.\<close>

theorem removeEntry_takes_one:
  assumes "dir_inv med xs ys p area" and "tidy env (dir_content (pview med p) p area) items tail"
    and "k < length (listing env items)" and "e = listing env items ! k"
  shows "\<exists>b p' items'. FAT_directory_removeEntry p e = Some (b, p') \<and>
    (b \<longleftrightarrow> de_dataEnd e \<noteq> slot_at p area (slot_count p area - 1)) \<and>
    dir_evolves med xs ys p area p' area \<and> tidy env (dir_content (pview med p') p' area) items' tail \<and>
    listing env items' = take k (listing env items) @ drop (Suc k) (listing env items)"
  by (rule removeEntry_spec [OF assms(1-3), folded assms(4)]) blast

theorem removeEntry_takes_one_witness:
  "\<exists>p' items'. FAT_directory_removeEntry dir_part (readme_entry (sub_pos 1)) = Some (False, p') \<and>
    tidy c_locale (dir_content (pview med64 p') p' (Chain [2])) items' [] \<and> listing c_locale items' = []"
proof -
  have k: "0 < length (listing c_locale [Skip (sub_pos 0, deleted_slot), Named [] (sub_pos 1, readme_slot)])"
    and e: "readme_entry (sub_pos 1) = listing c_locale [Skip (sub_pos 0, deleted_slot), Named [] (sub_pos 1, readme_slot)] ! 0"
    unfolding sub_tidy(2) by simp_all
  have last: "slot_at dir_part (Chain [2]) (slot_count dir_part (Chain [2]) - 1) = sub_pos 1" by code_simp
  from removeEntry_takes_one [OF dir_part_areas(2) sub_tidy(1) k e] show ?thesis
    unfolding last sub_tidy(2) by (auto simp: readme_entry_def)
qed

end
