(* ===== verification/MountSpec.thy ===== *)
theory MountSpec
  imports Partition FileGrow RamDisc
begin

text \<open>
  Mounting a volume: the numbers a boot sector states, as a \<open>layout\<close>, what they have to satisfy, and
  the proof that \<open>_FAT_partition_constructor\<close> then returns a partition that has them and that meets
  the invariants the properties of the table and of files start from.
\<close>

section \<open>The layout a boot sector describes\<close>

record layout =
  l_bps :: nat
  l_spc :: nat
  l_reserved :: nat
  l_fats :: nat
  l_spf :: nat
  l_root :: nat
  l_sectors :: nat

definition layout_of :: "u8 list \<Rightarrow> layout" where
  "layout_of b = \<lparr>l_bps = unat (u8array_to_u16 b BPB_bytesPerSector), l_spc = unat (b ! BPB_sectorsPerCluster),
     l_reserved = unat (u8array_to_u16 b BPB_reservedSectors), l_fats = unat (b ! BPB_numFATs),
     l_spf = (if u8array_to_u16 b BPB_sectorsPerFAT = 0 then unat (u8array_to_u32 b BPB_FAT32_sectorsPerFAT32)
       else unat (u8array_to_u16 b BPB_sectorsPerFAT)),
     l_root = unat (u8array_to_u16 b BPB_rootEntries),
     l_sectors = (if u8array_to_u16 b BPB_numSectorsSmall = 0 then unat (u8array_to_u32 b BPB_numSectors)
       else unat (u8array_to_u16 b BPB_numSectorsSmall))\<rparr>"

definition l_data :: "layout \<Rightarrow> nat" where
  "l_data l = l_reserved l + l_fats l * l_spf l + (l_root l * 32) div l_bps l"

definition l_clusters :: "layout \<Rightarrow> nat" where
  "l_clusters l = (l_sectors l - l_data l) div l_spc l"

definition l_type :: "layout \<Rightarrow> fs_type" where
  "l_type l = (if l_clusters l < 4085 then FS_FAT12 else if l_clusters l < 65525 then FS_FAT16 else FS_FAT32)"

definition layout_ok :: "nat \<Rightarrow> layout \<Rightarrow> bool" where
  "layout_ok start l \<longleftrightarrow> 512 \<le> l_bps l \<and> l_bps l \<le> 4096 \<and> 4 dvd l_bps l \<and> 0 < l_spc l \<and> l_spc l < 256 \<and> 0 < l_fats l \<and>
     start + l_sectors l < 2 ^ 31 \<and> l_data l + l_spc l \<le> l_sectors l \<and>
     entry_pos (l_type l) (l_clusters l + 1) + entry_len (l_type l) \<le> l_spf l * l_bps l"

section \<open>Reading the boot sector\<close>

lemma get_at_front:
  "off < length b \<Longrightarrow> get_u8 (b @ r) off = Some (b ! off)"
  "off + 2 \<le> length b \<Longrightarrow> get_u16 (b @ r) off = Some (u8array_to_u16 b off)"
  "off + 4 \<le> length b \<Longrightarrow> get_u32 (b @ r) off = Some (u8array_to_u32 b off)"
  by (simp_all add: get_u8_def get_u16_def get_u32_def u8array_to_u16_def u8array_to_u32_def nth_append)

lemma memeq_at_front:
  "off + length sig \<le> length b \<Longrightarrow> memeq (b @ r) off sig = Some (slice b off (length sig) = sig)"
  by (simp add: memeq_def peek_def slice_def)

lemma read_boot_sector:
  assumes disc: "disc_ok disc med (length b)" and rel: "disc_reliable disc lim" and t: "unat start + 1 \<le> lim" "lim \<le> 2 ^ 32"
    and b: "med m start = b" and buf: "length b \<le> length buf"
  obtains m' where "readSector_buf disc m start buf = Some (True, b @ drop (length b) buf, m')" and "med m' = med m"
proof -
  obtain ok data m' where r: "readSectors disc m start 1 = (ok, data, m')" by (metis prod_cases3)
  have ok: ok using disc_reliableD(1) [OF rel, of 1 start m] t(1) r by simp
  have "data = sectors_of (med m) start (unat (1 :: u32))" using disc_read(2) [OF disc r ok] t by simp
  then have data: "data = b" using b by (simp add: sectors_of_Suc)
  have "poke buf 0 data = Some (b @ drop (length b) buf)" using buf data by (simp add: poke_def splice_def)
  then show thesis
    using that [of m'] r ok disc_read(1) [OF disc r] by (simp add: readSector_buf_def FAT_disc_readSectors_def Let_def)
qed

section \<open>The fields of the partition\<close>

lemma unat_wide:
  "unat (ucast (x :: u16) :: u32) = unat x" "unat (ucast (y :: u8) :: u32) = unat y"
  by (simp_all add: unsigned_ucast_eq take_bit_nat_eq_self_iff order_less_trans [OF unsigned_less])

definition bpb_fields :: "nat \<Rightarrow> layout \<Rightarrow> 'd partition \<Rightarrow> bool" where
  "bpb_fields start l p \<longleftrightarrow> p_filesysType p = l_type l \<and> unat (p_bytesPerSector p) = l_bps l \<and>
     unat (p_sectorsPerCluster p) = l_spc l \<and> unat (p_bytesPerCluster p) = l_bps l * l_spc l \<and>
     unat (p_rootDirStart p) = start + l_reserved l + l_fats l * l_spf l \<and> unat (p_dataStart p) = start + l_data l \<and>
     unat (p_numberOfSectors p) = l_sectors l \<and>
     unat (fat_fatStart (p_fat p)) = start + l_reserved l \<and> unat (fat_sectorsPerFat (p_fat p)) = l_spf l \<and>
     unat (fat_lastCluster (p_fat p)) = l_clusters l + 1 \<and> fat_firstFree (p_fat p) = CLUSTER_FIRST \<and>
     p_rootDirCluster p = FAT16_ROOT_DIR_CLUSTER \<and> p_cwdCluster p = FAT16_ROOT_DIR_CLUSTER \<and>
     p_openFileCount p = 0 \<and> p_firstOpenFile p = None"

lemma parse_bpb_layout:
  assumes len: "512 \<le> length b" and ok: "layout_ok (unat start) (layout_of b)" and small: "l_clusters (layout_of b) < 65525"
    and mk: "\<And>lim bps. unat lim = unat start + l_sectors (layout_of b) \<Longrightarrow> unat bps = l_bps (layout_of b) \<Longrightarrow> mk lim bps = Some cache"
  obtains p where "parse_bpb disc start (b @ r) mk = Some (Some p)" and "bpb_fields (unat start) (layout_of b) p"
    and "p_cache p = cache" and "p_disc p = disc"
    and "p_readOnly p = (FAT_disc_features disc AND FEATURE_MEDIUM_CANWRITE = 0)"
proof -
  let ?l = "layout_of b"
  note nums = ok [unfolded layout_ok_def]
  define spf where "spf = (if u8array_to_u16 b BPB_sectorsPerFAT = 0 then u8array_to_u32 b BPB_FAT32_sectorsPerFAT32
    else ucast (u8array_to_u16 b BPB_sectorsPerFAT) :: u32)"
  define nos where "nos = (if u8array_to_u16 b BPB_numSectorsSmall = 0 then u8array_to_u32 b BPB_numSectors
    else ucast (u8array_to_u16 b BPB_numSectorsSmall) :: u32)"
  define bps where "bps = (ucast (u8array_to_u16 b BPB_bytesPerSector) :: u32)"
  define spc where "spc = (ucast (b ! BPB_sectorsPerCluster) :: u32)"
  define fat where "fat = start + ucast (u8array_to_u16 b BPB_reservedSectors)"
  define rds where "rds = fat + ucast (b ! BPB_numFATs) * spf"
  define dst where "dst = rds + (ucast (u8array_to_u16 b BPB_rootEntries) * DIR_ENTRY_DATA_SIZE) div bps"
  define cnt where "cnt = (nos - (dst - start)) div spc"
  have uspf: "unat spf = l_spf ?l" by (simp add: spf_def layout_of_def unat_wide)
  have unos: "unat nos = l_sectors ?l" by (simp add: nos_def layout_of_def unat_wide)
  have ubps: "unat bps = l_bps ?l" by (simp add: bps_def layout_of_def unat_wide)
  have uspc: "unat spc = l_spc ?l" by (simp add: spc_def layout_of_def unat_wide)
  have bound: "unat start + l_data ?l < 2 ^ 31" using nums by simp
  have ufat: "unat fat = unat start + l_reserved ?l"
    using bound unfolding fat_def by (subst unat_add_small) (simp_all add: unat_wide layout_of_def l_data_def)
  have fs: "l_fats ?l = unat (b ! BPB_numFATs)" by (simp add: layout_of_def)
  have prod: "unat (ucast (b ! BPB_numFATs) * spf) = l_fats ?l * l_spf ?l"
    using bound uspf fs by (subst unat_mult_small) (simp_all add: unat_wide l_data_def)
  have urds: "unat rds = unat start + l_reserved ?l + l_fats ?l * l_spf ?l"
    using bound unfolding rds_def by (subst unat_add_small) (simp_all add: ufat prod l_data_def)
  have root: "unat ((ucast (u8array_to_u16 b BPB_rootEntries) * DIR_ENTRY_DATA_SIZE) div bps) = (l_root ?l * 32) div l_bps ?l"
  proof -
    have lt: "unat (u8array_to_u16 b BPB_rootEntries) < 65536" using unsigned_less [of "u8array_to_u16 b BPB_rootEntries"] by simp
    have "unat (ucast (u8array_to_u16 b BPB_rootEntries) * DIR_ENTRY_DATA_SIZE) = l_root ?l * 32"
      using lt by (subst unat_mult_small) (simp_all add: unat_wide layout_of_def DIR_ENTRY_DATA_SIZE_def)
    then show ?thesis by (simp only: unat_div_word ubps)
  qed
  have udst: "unat dst = unat start + l_data ?l"
    using bound unfolding dst_def by (subst unat_add_small) (simp_all add: urds root l_data_def)
  have udiff: "unat (dst - start) = l_data ?l" using udst by (subst unat_sub_le) simp_all
  have ucnt: "unat cnt = l_clusters ?l"
    using nums unos udiff unfolding cnt_def by (simp add: unat_div_word uspc l_clusters_def unat_sub_le)
  have type: "select_fs cnt = l_type ?l"
    using ucnt by (simp add: select_fs_def l_type_def word_less_nat_alt CLUSTERS_PER_FAT12_def CLUSTERS_PER_FAT16_def)
  have nf: "l_type ?l \<noteq> FS_FAT32" using small by (simp add: l_type_def)
  have last: "unat (cnt + CLUSTER_FIRST - 1) = l_clusters ?l + 1"
  proof -
    have e: "cnt + CLUSTER_FIRST - 1 = cnt + 1" by (simp add: CLUSTER_FIRST_def)
    have "unat (cnt + 1) = unat cnt + 1" using small ucnt by (intro unat_add_small [where b = 1, simplified unat_1]) simp
    then show ?thesis unfolding e ucnt .
  qed
  have lim: "unat (start + nos) = unat start + l_sectors ?l" using nums unos by (subst unat_add_small) simp_all
  have bpc: "unat (bps * spc) = l_bps ?l * l_spc ?l"
  proof -
    have "l_bps ?l * l_spc ?l \<le> 4096 * 255" using nums by (intro mult_le_mono) simp_all
    then show ?thesis using ubps uspc by (subst unat_mult_small) simp_all
  qed
  have size_ok: "\<not> (bps < MIN_SECTOR_SIZE \<or> bps > MAX_SECTOR_SIZE)"
    using nums ubps by (simp add: word_less_nat_alt MIN_SECTOR_SIZE_def MAX_SECTOR_SIZE_def)
  have spc0: "spc \<noteq> 0" using nums uspc by auto
  obtain label where label: "volume_label (b @ r) = Some label"
  proof -
    have "\<exists>label. volume_label (b @ r) = Some label"
      using len by (cases "slice b BPB_FAT16_fileSysType (length FAT_SIG) = FAT_SIG")
        (simp_all add: volume_label_def memeq_at_front FAT_SIG_def peek_def)
    then show thesis using that by blast
  qed
  have g: "get_u16 (b @ r) BPB_sectorsPerFAT = Some (u8array_to_u16 b BPB_sectorsPerFAT)"
    "get_u32 (b @ r) BPB_FAT32_sectorsPerFAT32 = Some (u8array_to_u32 b BPB_FAT32_sectorsPerFAT32)"
    "get_u16 (b @ r) BPB_numSectorsSmall = Some (u8array_to_u16 b BPB_numSectorsSmall)"
    "get_u32 (b @ r) BPB_numSectors = Some (u8array_to_u32 b BPB_numSectors)"
    "get_u16 (b @ r) BPB_bytesPerSector = Some (u8array_to_u16 b BPB_bytesPerSector)"
    "get_u8 (b @ r) BPB_sectorsPerCluster = Some (b ! BPB_sectorsPerCluster)"
    "get_u16 (b @ r) BPB_reservedSectors = Some (u8array_to_u16 b BPB_reservedSectors)"
    "get_u8 (b @ r) BPB_numFATs = Some (b ! BPB_numFATs)"
    "get_u16 (b @ r) BPB_rootEntries = Some (u8array_to_u16 b BPB_rootEntries)"
    "get_u16 (b @ r) BPB_FAT32_fsInfo = Some (u8array_to_u16 b BPB_FAT32_fsInfo)"
    "get_u32 (b @ r) BPB_FAT32_rootClus = Some (u8array_to_u32 b BPB_FAT32_rootClus)"
    "get_u8 (b @ r) BPB_FAT32_extFlags = Some (b ! BPB_FAT32_extFlags)"
    using len by (simp_all add: get_at_front)
  have mk': "mk (start + nos) bps = Some cache" by (rule mk [OF lim ubps])
  have not32: "(l_type ?l \<noteq> FS_FAT32) = True" "(l_type ?l = FS_FAT32 \<and> P) = False" for P using nf by simp_all
  obtain p where p: "parse_bpb disc start (b @ r) mk = Some (Some p)" and
    "p_filesysType p = l_type ?l" "p_bytesPerSector p = bps" "p_sectorsPerCluster p = spc" "p_bytesPerCluster p = bps * spc"
    "p_rootDirStart p = rds" "p_dataStart p = dst" "p_numberOfSectors p = nos"
    "fat_fatStart (p_fat p) = fat" "fat_sectorsPerFat (p_fat p) = spf" "fat_lastCluster (p_fat p) = cnt + CLUSTER_FIRST - 1"
    "fat_firstFree (p_fat p) = CLUSTER_FIRST" "p_rootDirCluster p = FAT16_ROOT_DIR_CLUSTER"
    "p_cwdCluster p = FAT16_ROOT_DIR_CLUSTER" "p_openFileCount p = 0" "p_firstOpenFile p = None" "p_cache p = cache" "p_disc p = disc"
    "p_readOnly p = (FAT_disc_features disc AND FEATURE_MEDIUM_CANWRITE = 0)"
    unfolding parse_bpb_def label g Option.bind.simps Let_def spf_def [symmetric] nos_def [symmetric] bps_def [symmetric]
      spc_def [symmetric] fat_def [symmetric] rds_def [symmetric] dst_def [symmetric] cnt_def [symmetric] type mk' not32
    using size_ok spc0 by simp
  then show thesis
    using that [OF p] ufat urds udst unos ubps uspc uspf last bpc by (simp add: bpb_fields_def)
qed

section \<open>The invariants\<close>

lemma entry_pos_mono: "a \<le> b \<Longrightarrow> entry_pos ty a \<le> entry_pos ty b"
  by (cases ty) (simp_all add: entry_pos_def div_le_mono)

lemma bpb_volume_ok:
  assumes ok: "layout_ok start l" and small: "l_clusters l < 65525" and f: "bpb_fields start l p"
    and st: "store_inv med (p_cache p)" and lim: "unat (c_endOfPartition (p_cache p)) = start + l_sectors l"
    and bps: "c_bytesPerSector (p_cache p) = p_bytesPerSector p"
  shows "volume_ok med p" and "may_allocate p"
proof -
  have n: "512 \<le> l_bps l" "4 dvd l_bps l" "0 < l_spc l" "0 < l_fats l" "start + l_sectors l < 2 ^ 31"
    "l_data l + l_spc l \<le> l_sectors l" "entry_pos (l_type l) (l_clusters l + 1) + entry_len (l_type l) \<le> l_spf l * l_bps l"
    using ok unfolding layout_ok_def by blast+
  have fd: "p_filesysType p = l_type l" "bps p = l_bps l" "spc p = l_spc l" "bpc p = l_bps l * l_spc l"
    "unat (p_dataStart p) = start + l_data l" "unat (fat_fatStart (p_fat p)) = start + l_reserved l"
    "unat (fat_sectorsPerFat (p_fat p)) = l_spf l" "unat (fat_lastCluster (p_fat p)) = l_clusters l + 1"
    "fat_firstFree (p_fat p) = CLUSTER_FIRST"
    using f unfolding bpb_fields_def by blast+
  have c1: "1 \<le> l_clusters l"
  proof -
    have "l_spc l div l_spc l \<le> (l_sectors l - l_data l) div l_spc l"
      using n by (intro div_le_mono) linarith
    then show ?thesis using n(3) by (simp add: l_clusters_def)
  qed
  have lt: "fat_lastCluster (p_fat p) < eof_limit (p_filesysType p)"
    using fd small by (auto simp: word_less_nat_alt eof_limit_def l_type_def)
  have rd: "readable p (fat_lastCluster (p_fat p))"
    using n(7) small by (simp add: readable_def fd)
  have fatfit: "l_reserved l + l_spf l \<le> l_data l"
  proof -
    have "1 * l_spf l \<le> l_fats l * l_spf l" using n(4) by (intro mult_le_mono1) simp
    then show ?thesis unfolding l_data_def by linarith
  qed
  have "l_clusters l * l_spc l \<le> l_sectors l - l_data l" by (simp add: l_clusters_def)
  then have datafit: "l_data l + l_clusters l * l_spc l \<le> l_sectors l" using n(6) by linarith
  have nz: "p_sectorsPerCluster p \<noteq> 0" using n(3) fd(3) by auto
  have ty: "p_filesysType p \<noteq> FS_UNKNOWN" by (simp add: fd l_type_def)
  have end1: "unat (fat_fatStart (p_fat p)) + unat (fat_sectorsPerFat (p_fat p)) \<le> unat (c_endOfPartition (p_cache p))"
    unfolding fd lim using fatfit n(6) by linarith
  have "fat_wf p"
    unfolding fat_wf_def using ty nz lt rd end1 bps n(1,2) c1
    by (simp add: fd CLUSTER_FIRST_def word_le_nat_alt)
  then have "part_ok med p" using st by (simp add: part_ok_def)
  moreover have "data_ok p"
    unfolding data_ok_def fd lim using fatfit datafit by simp
  ultimately show "volume_ok med p" by (simp add: volume_ok_def fd mult.commute)
  show "may_allocate p" using c1 by (simp add: may_allocate_def fd CLUSTER_FIRST_def word_le_nat_alt)
qed

section \<open>The constructor\<close>

lemma constructor_layout:
  assumes "disc_ok disc med (l_bps (layout_of b))" and "disc_reliable disc (unat start + l_sectors (layout_of b))"
    and "med m start = b" and "b ! BPB_bootSig_55 = 0x55" and "b ! BPB_bootSig_AA = 0xAA"
    and "slice b BPB_FAT16_fileSysType 3 = FAT_SIG"
    and "layout_ok (unat start) (layout_of b)" and "l_clusters (layout_of b) < 65525"
    and "malloc (unat MAX_SECTOR_SIZE) = Some buf" and "length buf = unat MAX_SECTOR_SIZE"
    and "m_partition al" and "malloc_ok (m_cache al)" and "\<And>k n. m_cache al k n \<noteq> None"
    and "max 8 (unat pageSize) * l_bps (layout_of b) < 2 ^ 32"
    and "unat start + l_sectors (layout_of b) + max 8 (unat pageSize) < 2 ^ 32"
  shows "\<exists>p. FAT_partition_constructor malloc al disc cacheSize pageSize start m counter = Some (Inr p) \<and>
    bpb_fields (unat start) (layout_of b) p \<and> volume_ok med p \<and> may_allocate p \<and> pview med p = med m \<and> p_disc p = disc \<and>
    p_readOnly p = (FAT_disc_features disc AND FEATURE_MEDIUM_CANWRITE = 0)"
proof -
  let ?l = "layout_of b"
  have len: "length b = l_bps ?l" using disc_ok_length [OF assms(1), of m start] assms(3) by simp
  have n: "512 \<le> l_bps ?l" "l_bps ?l \<le> 4096" "0 < l_spc ?l" "unat start + l_sectors ?l < 2 ^ 31" "l_data ?l + l_spc ?l \<le> l_sectors ?l"
    using assms(7) unfolding layout_ok_def by blast+
  have len': "512 \<le> length b" using n(1) len by simp
  let ?r = "drop (length b) buf"
  have one: "unat start + 1 \<le> unat start + l_sectors ?l" "unat start + l_sectors ?l \<le> 2 ^ 32"
    using n(3-5) by simp_all
  have lb: "length b \<le> length buf" using len n(2) assms(10) by (simp add: MAX_SECTOR_SIZE_def)
  obtain m' where rd: "readSector_buf disc m start buf = Some (True, b @ ?r, m')" "med m' = med m"
    by (rule read_boot_sector [where med = med, OF _ assms(2) one assms(3) lb]) (use assms(1) len in simp_all)
  have sl: "length FAT_SIG = 3" by (simp add: FAT_SIG_def)
  have sig: "memeq (b @ ?r) BPB_FAT16_fileSysType FAT_SIG = Some True"
    using memeq_at_front [of BPB_FAT16_fileSysType FAT_SIG b ?r] len' assms(6) sl by simp
  have sig32: "memeq (b @ ?r) BPB_FAT32_fileSysType FAT_SIG = Some (slice b BPB_FAT32_fileSysType 3 = FAT_SIG)"
    using memeq_at_front [of BPB_FAT32_fileSysType FAT_SIG b ?r] len' sl by simp
  have loc: "locate disc start buf m = Some (Some start, b @ ?r, m')"
    using rd(1) len' assms(4,5) sig sig32 by (simp add: locate_def get_at_front)
  have valid: "isValidMBR (b @ ?r) = Some True" using sig by (simp add: isValidMBR_def)
  define mk where "mk = (\<lambda>endOfPartition bps. FAT_cache_constructor (m_cache al) cacheSize pageSize disc endOfPartition bps m' counter)"
  obtain c where c: "mk (start + of_nat (l_sectors ?l)) (of_nat (l_bps ?l)) = Some c"
    using assms(13) by (auto simp: mk_def FAT_cache_constructor_def Let_def)
  have ubps: "unat (of_nat (l_bps ?l) :: u32) = l_bps ?l" using n(2) by (simp add: unat_of_nat take_bit_nat_eq_self)
  have mk: "mk lim bps = Some c" if "unat lim = unat start + l_sectors ?l" "unat bps = l_bps ?l" for lim bps
  proof -
    have "lim = start + of_nat (l_sectors ?l)" using that(1) n(4) by (intro word_eqI_unat) (simp add: unat_offset)
    moreover have "bps = of_nat (l_bps ?l)" using that(2) by (intro word_eqI_unat) (simp add: ubps)
    ultimately show ?thesis using c by simp
  qed
  have lim: "unat (start + of_nat (l_sectors ?l)) = unat start + l_sectors ?l" using n(4) by (intro unat_offset) simp
  obtain p where p: "parse_bpb disc start (b @ ?r) mk = Some (Some p)" "bpb_fields (unat start) ?l p" "p_cache p = c"
    "p_disc p = disc" "p_readOnly p = (FAT_disc_features disc AND FEATURE_MEDIUM_CANWRITE = 0)"
    by (rule parse_bpb_layout [OF len' assms(7,8) mk])
  have ci: "cache_inv med c" "cview med c = med m'" "c_disc c = disc" "c_endOfPartition c = start + of_nat (l_sectors ?l)"
    "c_bytesPerSector c = of_nat (l_bps ?l)"
    by (rule constructor_inv [where med = med, OF c [unfolded mk_def] assms(12) assms(13)];
      use assms(1,14,15) ubps lim n(1) in simp)+
  have st: "store_inv med (p_cache p)" using ci(1,3,4) assms(2) p(3) lim by (simp add: store_inv_def)
  have fb: "unat (p_bytesPerSector p) = l_bps ?l" "p_filesysType p = l_type ?l" using p(2) unfolding bpb_fields_def by blast+
  have "c_bytesPerSector (p_cache p) = p_bytesPerSector p" using fb(1) ci(5) ubps p(3) by (intro word_eqI_unat) simp
  then have inv: "volume_ok med p" "may_allocate p"
    using bpb_volume_ok [OF assms(7,8) p(2) st] p(3) ci(4) lim by simp_all
  have "p_filesysType p \<noteq> FS_FAT32" using fb(2) assms(8) by (simp add: l_type_def)
  then have "FAT_partition_readFSinfo (m_fsinfo al) (m_newinfo al) p = Some p" by (simp add: FAT_partition_readFSinfo_def)
  then have "FAT_partition_constructor malloc al disc cacheSize pageSize start m counter = Some (Inr p)"
    using assms(9,11) loc valid p(1)
    by (simp add: FAT_partition_constructor_def FAT_partition_constructor_buf_def mk_def [symmetric])
  moreover have "pview med p = med m" using ci(2) rd(2) p(3) by (simp add: pview_def)
  ultimately show ?thesis using p(2,4,5) inv by blast
qed

section \<open>A volume on the disc in memory\<close>

text \<open>A volume of twenty sectors of 512 bytes: one reserved, one table, one of the root directory.\<close>

definition boot512 :: "u8 list" where
  "boot512 = [0xEB, 0, 0x90, 0, 0, 0, 0, 0, 0, 0, 0, 0x00, 0x02, 1, 1, 0, 1, 16, 0, 20, 0, 0xF8, 1, 0] @ replicate 30 0 @
     [0x46, 0x41, 0x54] @ replicate 453 0 @ [0x55, 0xAA]"

definition ram512 :: ram where
  "ram512 s = (if s = 0 then boot512 else [])"

definition al512 :: allocs where
  "al512 = \<lparr>m_partition = True, m_cache = (\<lambda>k n. Some (replicate n 0)), m_fsinfo = (\<lambda>n. None), m_newinfo = (\<lambda>n. None)\<rparr>"

lemma boot512_nth:
  "boot512 ! 11 = 0" "boot512 ! 12 = 2" "boot512 ! 13 = 1" "boot512 ! 14 = 1" "boot512 ! 15 = 0" "boot512 ! 16 = 1"
  "boot512 ! 17 = 16" "boot512 ! 18 = 0" "boot512 ! 19 = 20" "boot512 ! 20 = 0" "boot512 ! 22 = 1" "boot512 ! 23 = 0"
  "boot512 ! 510 = 0x55" "boot512 ! 511 = 0xAA" "length boot512 = 512" "slice boot512 54 3 = [0x46, 0x41, 0x54]"
  by (simp_all add: boot512_def nth_append slice_def)

lemma boot512_layout: "layout_of boot512 = \<lparr>l_bps = 512, l_spc = 1, l_reserved = 1, l_fats = 1, l_spf = 1, l_root = 16, l_sectors = 20\<rparr>"
  by (simp add: layout_of_def u8array_to_u16_def boot512_nth)

lemma boot512_ok: "layout_ok 0 (layout_of boot512)" "l_clusters (layout_of boot512) = 17"
  by (simp_all add: boot512_layout layout_ok_def l_data_def l_clusters_def l_type_def entry_pos_def entry_len_def)

lemma boot512_mounts:
  "\<exists>p. FAT_partition_constructor (\<lambda>n. Some (replicate n 0xCC)) al512 (ram_disc 512) 4 8 0 ram512 0 = Some (Inr p)"
proof -
  have b: "ram_med 512 ram512 0 = boot512" by (simp add: ram_med_def ram512_def boot512_nth)
  have d: "disc_ok (ram_disc 512) (ram_med 512) (l_bps (layout_of boot512))" using ram_disc_ok by (simp add: boot512_layout)
  have r: "disc_reliable (ram_disc 512) (unat (0 :: u32) + l_sectors (layout_of boot512))" by (rule ram_disc_reliable)
  have m: "malloc_ok (m_cache al512)" "\<And>k n. m_cache al512 k n \<noteq> None" "m_partition al512"
    by (simp_all add: malloc_ok_def al512_def)
  have "\<exists>p. FAT_partition_constructor (\<lambda>n. Some (replicate n 0xCC)) al512 (ram_disc 512) 4 8 0 ram512 0 = Some (Inr p) \<and>
    bpb_fields (unat (0 :: u32)) (layout_of boot512) p \<and> volume_ok (ram_med 512) p \<and> may_allocate p \<and>
    pview (ram_med 512) p = ram_med 512 ram512 \<and> p_disc p = ram_disc 512 \<and>
    p_readOnly p = (FAT_disc_features (ram_disc 512) AND FEATURE_MEDIUM_CANWRITE = 0)"
    by (rule constructor_layout [where buf = "replicate 4096 0xCC"]; (rule d r b m)?)
      (simp_all add: boot512_nth boot512_ok FAT_SIG_def MAX_SECTOR_SIZE_def, simp_all add: boot512_layout)
  then show ?thesis by blast
qed

end
