(* ===== verification/DirCalls.thy ===== *)
theory DirCalls
  imports OpenFiles
begin

text \<open>
  The calls on names and directories: \<open>source/fatdir.h\<close> and \<open>source/fatdir.c\<close>. As in \<open>OpenFiles\<close>,
  \<open>mounted\<close> tells whether the device of the path is the partition at hand, and the path still has
  its device name. The result of a call that returns an \<open>int\<close> is the error it leaves in \<open>errno\<close>,
  \<open>None\<close> for 0.
\<close>

section \<open>Names\<close>

definition FAT_stat_r ::
    "'mb char_env \<Rightarrow> (tm \<Rightarrow> 't) \<Rightarrow> bool \<Rightarrow> u8 list \<Rightarrow> 'd partition \<Rightarrow> ((errno + 't stat) \<times> 'd partition) option" where
  "FAT_stat_r env mktime mounted path p =
    (if \<not> mounted then Some (Inl ENODEV, p)
     else case strip_device path of
       None \<Rightarrow> Some (Inl EINVAL, p)
     | Some path \<Rightarrow> do {
         ((found, dirEntry), p) \<leftarrow> FAT_directory_entryFromPath env p blank_entry path None;
         Some (if found then Inr (FAT_directory_entryStat mktime p dirEntry) else Inl ENOENT, p)
       })"

definition FAT_link_r :: "u8 list \<Rightarrow> u8 list \<Rightarrow> errno option" where
  "FAT_link_r existing newLink = Some ENOTSUP"

text \<open>The loop over the entries of a directory that is to be removed: true when there are only the
  two dot entries.\<close>

partial_function (option) only_dots ::
    "'mb char_env \<Rightarrow> 'd partition \<Rightarrow> bool \<Rightarrow> dir_entry \<Rightarrow> (bool \<times> 'd partition) option" where
  "only_dots env p nextEntry dirContents =
    (if \<not> nextEntry then Some (True, p)
     else if \<not> FAT_directory_isDot dirContents then Some (False, p)
     else do {
       ((nextEntry, dirContents), p) \<leftarrow> FAT_directory_getNextEntry env p dirContents;
       only_dots env p nextEntry dirContents
     })"

declare only_dots.simps [code]

text \<open>Whether the entry may be removed by \<open>rmdir\<close> or by \<open>unlink\<close>.\<close>

definition unlink_refused ::
    "'mb char_env \<Rightarrow> 'd partition \<Rightarrow> dir_entry \<Rightarrow> bool \<Rightarrow> (errno option \<times> 'd partition) option" where
  "unlink_refused env p dirEntry isRmDir =
    (if FAT_directory_isDirectory dirEntry
     then (if \<not> isRmDir then Some (Some EISDIR, p)
       else do {
         let cluster = FAT_directory_entryGetCluster p (de_entryData dirEntry);
         ((nextEntry, dirContents), p) \<leftarrow> FAT_directory_getFirstEntry env p blank_entry cluster;
         (empty, p) \<leftarrow> only_dots env p nextEntry dirContents;
         Some (if empty then None else Some ENOTEMPTY, p)
       })
     else Some (if isRmDir then Some ENOTDIR else None, p))"

text \<open>The removal: the chain, the entries of the name, the flush; a failed step does not stop the
  next one.\<close>

definition unlink_entry :: "'d partition \<Rightarrow> dir_entry \<Rightarrow> (errno option \<times> 'd partition) option" where
  "unlink_entry p dirEntry =
    do {
      let cluster = FAT_directory_entryGetCluster p (de_entryData dirEntry);
      (ok1, p) \<leftarrow> (if FAT_fat_isValidCluster p cluster then FAT_fat_clearLinks p cluster else Some (True, p));
      (ok2, p) \<leftarrow> FAT_directory_removeEntry p dirEntry;
      let (ok3, p) = flush_partition p;
      Some (if ok1 \<and> ok2 \<and> ok3 then None else Some EIO, p)
    }"

definition FAT_unlinkCommon ::
    "'mb char_env \<Rightarrow> bool \<Rightarrow> u8 list \<Rightarrow> bool \<Rightarrow> 'd partition \<Rightarrow> (errno option \<times> 'd partition) option" where
  "FAT_unlinkCommon env mounted path isRmDir p =
    (if \<not> mounted then Some (Some ENODEV, p)
     else if p_readOnly p then Some (Some EROFS, p)
     else case strip_device path of
       None \<Rightarrow> Some (Some EINVAL, p)
     | Some path \<Rightarrow> do {
         ((found, dirEntry), p) \<leftarrow> FAT_directory_entryFromPath env p blank_entry path None;
         if \<not> found then Some (Some ENOENT, p)
         else do {
           (refused, p) \<leftarrow> unlink_refused env p dirEntry isRmDir;
           (case refused of Some e \<Rightarrow> Some (Some e, p) | None \<Rightarrow> unlink_entry p dirEntry)
         }
       })"

definition FAT_unlink_r :: "'mb char_env \<Rightarrow> bool \<Rightarrow> u8 list \<Rightarrow> 'd partition \<Rightarrow> (errno option \<times> 'd partition) option" where
  "FAT_unlink_r env mounted path p = FAT_unlinkCommon env mounted path False p"

definition FAT_rmdir_r :: "'mb char_env \<Rightarrow> bool \<Rightarrow> u8 list \<Rightarrow> 'd partition \<Rightarrow> (errno option \<times> 'd partition) option" where
  "FAT_rmdir_r env mounted path p = FAT_unlinkCommon env mounted path True p"

definition FAT_chdir_r :: "'mb char_env \<Rightarrow> bool \<Rightarrow> u8 list \<Rightarrow> 'd partition \<Rightarrow> (errno option \<times> 'd partition) option" where
  "FAT_chdir_r env mounted path p =
    (if \<not> mounted then Some (Some ENODEV, p)
     else case strip_device path of
       None \<Rightarrow> Some (Some EINVAL, p)
     | Some path \<Rightarrow> do {
         (ok, p) \<leftarrow> FAT_directory_chdir env p path;
         Some (if ok then None else Some ENOTDIR, p)
       })"

text \<open>The directory a new name goes to, and the last part of the name; \<open>None\<close> when the path before
  it is no directory.\<close>

definition parent_of ::
    "'mb char_env \<Rightarrow> 'd partition \<Rightarrow> u8 list \<Rightarrow> ((u32 \<times> u8 list) option \<times> 'd partition) option" where
  "parent_of env p path =
    (case last_separator path of
       None \<Rightarrow> Some (Some (p_cwdCluster p, path), p)
     | Some pathEnd \<Rightarrow> do {
         ((ok, dirEntry), p) \<leftarrow> FAT_directory_entryFromPath env p blank_entry path (Some pathEnd);
         Some (if \<not> ok \<or> \<not> FAT_directory_isDirectory dirEntry then None
           else Some (FAT_directory_entryGetCluster p (de_entryData dirEntry), drop (pathEnd + 1) path), p)
       })"

text \<open>\<open>mounted'\<close> tells whether the new name is on the same partition. As in \<open>create_file\<close>, a name that
  \<open>strncpy\<close> does not terminate makes the outcome undefined.\<close>

definition rename_entry ::
    "'mb char_env \<Rightarrow> (nat \<Rightarrow> u8 list option) \<Rightarrow> u8 list \<Rightarrow> u8 list \<Rightarrow> 'd partition \<Rightarrow> (errno option \<times> 'd partition) option" where
  "rename_entry env malloc oldName newName p =
    do {
      ((found, oldDirEntry), p) \<leftarrow> FAT_directory_entryFromPath env p blank_entry oldName None;
      if \<not> found then Some (Some ENOENT, p)
      else do {
        ((found, _), p) \<leftarrow> FAT_directory_entryFromPath env p blank_entry newName None;
        if found then Some (Some EEXIST, p)
        else do {
          (r, p) \<leftarrow> parent_of env p newName;
          (case r of None \<Rightarrow> Some (Some ENOTDIR, p)
           | Some (dirCluster, name) \<Rightarrow>
               if PATH_MAX - 1 \<le> length name then None
               else do {
                 ((ok, _), p) \<leftarrow> FAT_directory_addEntry env malloc p (oldDirEntry\<lparr>de_filename := name\<rparr>) dirCluster;
                 if \<not> ok then Some (Some ENOSPC, p)
                 else do {
                   (ok, p) \<leftarrow> FAT_directory_removeEntry p oldDirEntry;
                   if \<not> ok then Some (Some EIO, p)
                   else let (ok, p) = flush_partition p in Some (if ok then None else Some EIO, p)
                 }
               })
        }
      }
    }"

definition FAT_rename_r ::
    "'mb char_env \<Rightarrow> (nat \<Rightarrow> u8 list option) \<Rightarrow> bool \<Rightarrow> bool \<Rightarrow> u8 list \<Rightarrow> u8 list \<Rightarrow> 'd partition
      \<Rightarrow> (errno option \<times> 'd partition) option" where
  "FAT_rename_r env malloc mounted mounted' oldName newName p =
    (if \<not> mounted then Some (Some ENODEV, p)
     else if \<not> mounted' then Some (Some EXDEV, p)
     else if p_readOnly p then Some (Some EROFS, p)
     else case (strip_device oldName, strip_device newName) of
       (Some oldName, Some newName) \<Rightarrow> rename_entry env malloc oldName newName p
     | _ \<Rightarrow> Some (Some EINVAL, p))"

section \<open>Making a directory\<close>

definition put_cluster :: "u8 list \<Rightarrow> u32 \<Rightarrow> u8 list" where
  "put_cluster data cluster =
    u16_to_u8array (u16_to_u8array data DIR_ENTRY_cluster (ucast cluster)) DIR_ENTRY_clusterHigh
      (ucast (drop_bit 16 cluster))"

text \<open>The entry of the new directory, and the two entries inside it.\<close>

definition new_dir_data :: "tm option option \<Rightarrow> u8 list" where
  "new_dir_data rtc =
    (let data = u16_to_u8array (replicate 32 0) DIR_ENTRY_cTime (FAT_filetime_getTimeFromRTC rtc);
         data = u16_to_u8array data DIR_ENTRY_cDate (FAT_filetime_getDateFromRTC rtc);
         data = u16_to_u8array data DIR_ENTRY_mTime (FAT_filetime_getTimeFromRTC rtc);
         data = u16_to_u8array data DIR_ENTRY_mDate (FAT_filetime_getDateFromRTC rtc);
         data = u16_to_u8array data DIR_ENTRY_aDate (FAT_filetime_getDateFromRTC rtc)
     in data[DIR_ENTRY_attributes := ATTRIB_DIR])"

definition dot_data :: "u32 \<Rightarrow> u8 list" where
  "dot_data dirCluster =
    put_cluster ((replicate 11 CH_SPACE @ replicate 21 0)[0 := CH_DOT, DIR_ENTRY_attributes := ATTRIB_DIR]) dirCluster"

definition dotdot_data :: "'d partition \<Rightarrow> u32 \<Rightarrow> u32 \<Rightarrow> u8 list" where
  "dotdot_data p dirCluster parentCluster =
    put_cluster ((dot_data dirCluster)[1 := CH_DOT])
      (if parentCluster = p_rootDirCluster p then FAT16_ROOT_DIR_CLUSTER else parentCluster)"

text \<open>The allocation, the entry in the parent, the two dot entries, the flush. A cluster that was
  allocated stays allocated when the entry cannot be written.\<close>

definition make_directory ::
    "'mb char_env \<Rightarrow> (nat \<Rightarrow> u8 list option) \<Rightarrow> tm option option \<Rightarrow> u32 \<Rightarrow> u8 list \<Rightarrow> 'd partition
      \<Rightarrow> (errno option \<times> 'd partition) option" where
  "make_directory env malloc rtc parentCluster name p =
    do {
      (dirCluster, p) \<leftarrow> FAT_fat_linkFreeClusterCleared malloc p CLUSTER_FREE;
      if \<not> FAT_fat_isValidCluster p dirCluster then Some (Some ENOSPC, p)
      else do {
        ((ok, _), p) \<leftarrow> FAT_directory_addEntry env malloc p
          (blank_entry\<lparr>de_entryData := put_cluster (new_dir_data rtc) dirCluster, de_filename := name\<rparr>) parentCluster;
        if \<not> ok then Some (Some ENOSPC, p)
        else do {
          (_, p) \<leftarrow> on_cache (\<lambda>c. FAT_cache_eraseWritePartialSector c (dot_data dirCluster)
            (FAT_fat_clusterToSector p dirCluster) 0 DIR_ENTRY_DATA_SIZE) p;
          (_, p) \<leftarrow> on_cache (\<lambda>c. FAT_cache_writePartialSector c (dotdot_data p dirCluster parentCluster)
            (FAT_fat_clusterToSector p dirCluster) DIR_ENTRY_DATA_SIZE DIR_ENTRY_DATA_SIZE) p;
          let (ok, p) = flush_partition p;
          Some (if ok then None else Some EIO, p)
        }
      }
    }"

definition FAT_mkdir_r ::
    "'mb char_env \<Rightarrow> (nat \<Rightarrow> u8 list option) \<Rightarrow> tm option option \<Rightarrow> bool \<Rightarrow> u8 list \<Rightarrow> 'd partition
      \<Rightarrow> (errno option \<times> 'd partition) option" where
  "FAT_mkdir_r env malloc rtc mounted path p =
    (if \<not> mounted then Some (Some ENODEV, p)
     else case strip_device path of
       None \<Rightarrow> Some (Some EINVAL, p)
     | Some path \<Rightarrow> do {
         ((fileExists, _), p) \<leftarrow> FAT_directory_entryFromPath env p blank_entry path None;
         if fileExists then Some (Some EEXIST, p)
         else if p_readOnly p then Some (Some EROFS, p)
         else do {
           (r, p) \<leftarrow> parent_of env p path;
           (case r of None \<Rightarrow> Some (Some ENOTDIR, p)
            | Some (parentCluster, name) \<Rightarrow>
                if PATH_MAX - 1 \<le> length name then None
                else make_directory env malloc rtc parentCluster name p)
         }
       })"

section \<open>File system status\<close>

definition ST_RDONLY :: u32 where "ST_RDONLY = 1"
definition ST_NOSUID :: u32 where "ST_NOSUID = 2"

record statvfs =
  f_bsize :: u32
  f_frsize :: u32
  f_blocks :: u32
  f_bfree :: u32
  f_bavail :: u32
  f_files :: u32
  f_ffree :: u32
  f_favail :: u32
  f_fsid :: u32
  f_flag :: u32
  f_namemax :: u32

text \<open>The two functions serve the buffers of the information sector's reader and creator.\<close>

definition FAT_statvfs_r ::
    "(nat \<Rightarrow> u8 list option) \<Rightarrow> (nat \<Rightarrow> u8 list option) \<Rightarrow> bool \<Rightarrow> 'd partition
      \<Rightarrow> ((errno + statvfs) \<times> 'd partition) option" where
  "FAT_statvfs_r malloc malloc' mounted p =
    (if \<not> mounted then Some (Inl ENODEV, p)
     else do {
       (freeClusterCount, p) \<leftarrow> (if p_filesysType p = FS_FAT32
         then do {
           p \<leftarrow> FAT_partition_readFSinfo malloc malloc' p;
           Some (fat_numberFreeCluster (p_fat p), p)
         } else FAT_fat_freeClusterCount p);
       let blocks = fat_lastCluster (p_fat p) - CLUSTER_FIRST + 1;
       Some (Inr \<lparr>f_bsize = p_bytesPerCluster p, f_frsize = p_bytesPerCluster p, f_blocks = blocks,
         f_bfree = freeClusterCount, f_bavail = freeClusterCount, f_files = blocks, f_ffree = freeClusterCount,
         f_favail = freeClusterCount, f_fsid = FAT_disc_hostType (p_disc p),
         f_flag = ST_NOSUID OR (if p_readOnly p then ST_RDONLY else 0), f_namemax = of_nat PATH_MAX\<rparr>, p)
     })"

section \<open>Iterating over a directory\<close>

record dir_state =
  di_currentEntry :: dir_entry
  di_startCluster :: u32
  di_inUse :: bool
  di_validEntry :: bool

definition FAT_diropen_r ::
    "'mb char_env \<Rightarrow> bool \<Rightarrow> u8 list \<Rightarrow> dir_state \<Rightarrow> 'd partition \<Rightarrow> ((errno + dir_state) \<times> 'd partition) option" where
  "FAT_diropen_r env mounted path state p =
    (if \<not> mounted then Some (Inl ENODEV, p)
     else case strip_device path of
       None \<Rightarrow> Some (Inl EINVAL, p)
     | Some path \<Rightarrow> do {
         ((fileExists, dirEntry), p) \<leftarrow> FAT_directory_entryFromPath env p blank_entry path None;
         if \<not> fileExists then Some (Inl ENOENT, p)
         else if \<not> FAT_directory_isDirectory dirEntry then Some (Inl ENOTDIR, p)
         else do {
           let start = FAT_directory_entryGetCluster p (de_entryData dirEntry);
           ((valid, entry), p) \<leftarrow> FAT_directory_getFirstEntry env p (di_currentEntry state) start;
           Some (Inr \<lparr>di_currentEntry = entry, di_startCluster = start, di_inUse = True, di_validEntry = valid\<rparr>, p)
         }
       })"

definition FAT_dirreset_r ::
    "'mb char_env \<Rightarrow> dir_state \<Rightarrow> 'd partition \<Rightarrow> ((errno option \<times> dir_state) \<times> 'd partition) option" where
  "FAT_dirreset_r env state p =
    (if \<not> di_inUse state then Some ((Some EBADF, state), p)
     else do {
       ((valid, entry), p) \<leftarrow> FAT_directory_getFirstEntry env p (di_currentEntry state) (di_startCluster state);
       Some ((None, state\<lparr>di_currentEntry := entry, di_validEntry := valid\<rparr>), p)
     })"

text \<open>The C result is 0 with the name and the status, or -1, with or without an error.\<close>

definition FAT_dirnext_r ::
    "'mb char_env \<Rightarrow> (tm \<Rightarrow> 't) \<Rightarrow> dir_state \<Rightarrow> 'd partition
      \<Rightarrow> (((errno option + u8 list \<times> 't stat) \<times> dir_state) \<times> 'd partition) option" where
  "FAT_dirnext_r env mktime state p =
    (if \<not> di_inUse state then Some ((Inl (Some EBADF), state), p)
     else if \<not> di_validEntry state then Some ((Inl None, state), p)
     else do {
       let current = di_currentEntry state;
       ((valid, entry), p) \<leftarrow> FAT_directory_getNextEntry env p current;
       Some ((Inr (de_filename current, FAT_directory_entryStat mktime p current),
         state\<lparr>di_currentEntry := entry, di_validEntry := valid\<rparr>), p)
     })"

definition FAT_dirclose_r :: "dir_state \<Rightarrow> dir_state" where
  "FAT_dirclose_r state = state\<lparr>di_inUse := False\<rparr>"

end
