(* ===== verification/Devices.thy ===== *)
theory Devices
  imports DirCalls
begin

text \<open>
  The device table of \<open>testbench/iosupport.c\<close>, which stands in for the C library's, and the calls of
  \<open>source/libfat.c\<close> that mount and unmount a volume as a device of it. An entry of the table is the
  null device or a device with its name, whether its operations are those of the library, and its
  data, the mounted volume. A name is a C string.
\<close>

section \<open>The table\<close>

datatype 'v device = Stdnull | Device (dv_name: "u8 list") (dv_libfat: bool) (dv_data: 'v)

definition STD_MAX :: nat where "STD_MAX = 16"

abbreviation "CH_COLON \<equiv> (0x3A :: u8)"

record 'v device_table =
  dt_list :: "'v device list"
  dt_default :: int

definition empty_table :: "'v device_table" where
  "empty_table = \<lparr>dt_list = replicate STD_MAX Stdnull, dt_default = -1\<rparr>"

definition setDefaultDevice :: "int \<Rightarrow> 'v device_table \<Rightarrow> 'v device_table" where
  "setDefaultDevice device t = (if device > 2 \<and> device \<le> int STD_MAX then t\<lparr>dt_default := device\<rparr> else t)"

definition stdnull_name :: "u8 list" where
  "stdnull_name = [0x73, 0x74, 0x64, 0x6E, 0x75, 0x6C, 0x6C]"

definition device_name :: "'v device \<Rightarrow> u8 list" where
  "device_name d = (case d of Stdnull \<Rightarrow> stdnull_name | Device n _ _ \<Rightarrow> n)"

definition isdigit :: "u8 \<Rightarrow> bool" where
  "isdigit c \<longleftrightarrow> 0x30 \<le> c \<and> c \<le> 0x39"

text \<open>Does a path name the device? Its name, an optional digit, a colon.\<close>

definition names_device :: "u8 list \<Rightarrow> 'v device \<Rightarrow> bool" where
  "names_device name d =
    (let n = device_name d; rest = drop (length n) name
     in take (length n) name = n \<and>
        (case rest of [] \<Rightarrow> False
         | c # cs \<Rightarrow> c = CH_COLON \<or> (isdigit c \<and> cs \<noteq> [] \<and> hd cs = CH_COLON)))"

fun find_index :: "('a \<Rightarrow> bool) \<Rightarrow> nat \<Rightarrow> 'a list \<Rightarrow> int" where
  "find_index P i [] = -1"
| "find_index P i (x # xs) = (if P x then int i else find_index P (i + 1) xs)"

definition FindDevice :: "u8 list \<Rightarrow> 'v device_table \<Rightarrow> int" where
  "FindDevice name t =
    (if CH_COLON \<notin> set name then dt_default t else find_index (names_device name) 0 (dt_list t))"

definition RemoveDevice :: "u8 list \<Rightarrow> 'v device_table \<Rightarrow> (int \<times> 'v device_table) option" where
  "RemoveDevice name t =
    (let dev = FindDevice name t
     in if dev = -1 then Some (-1, t)
        else if nat dev \<ge> STD_MAX then None
        else Some (0, t\<lparr>dt_list := (dt_list t)[nat dev := Stdnull]\<rparr>))"

definition AddDevice :: "'v device \<Rightarrow> 'v device_table \<Rightarrow> int \<times> 'v device_table" where
  "AddDevice device t =
    (let devnum = find_index (\<lambda>d. device_name d = device_name device \<or> device_name d = stdnull_name) 3 (drop 3 (dt_list t))
     in if devnum = -1 then (-1, t) else (devnum, t\<lparr>dt_list := (dt_list t)[nat devnum := device]\<rparr>))"

definition GetDeviceOpTab :: "u8 list \<Rightarrow> 'v device_table \<Rightarrow> 'v device option" where
  "GetDeviceOpTab name t =
    (let dev = FindDevice name t in if dev \<ge> 0 \<and> dev < int STD_MAX then Some (dt_list t ! nat dev) else None)"

text \<open>The partition a path is on; the null device has none.\<close>

definition FAT_partition_getPartitionFromPath :: "u8 list \<Rightarrow> 'v device_table \<Rightarrow> 'v option" where
  "FAT_partition_getPartitionFromPath path t =
    (case GetDeviceOpTab path t of Some (Device _ _ v) \<Rightarrow> Some v | _ \<Rightarrow> None)"

definition FAT_getCwdClusterPtr :: "u8 list \<Rightarrow> 'd fs device_table \<Rightarrow> u32 option" where
  "FAT_getCwdClusterPtr name t =
    map_option (\<lambda>s. p_cwdCluster (fs_part s)) (FAT_partition_getPartitionFromPath name t)"

section \<open>Mounting\<close>

definition DEFAULT_CACHE_PAGES :: u32 where "DEFAULT_CACHE_PAGES = 16"
definition DEFAULT_SECTORS_PAGE :: u32 where "DEFAULT_SECTORS_PAGE = 8"

text \<open>What a call allocates: the constructor's sector buffer and blocks, and the entry of the device.\<close>

record mount_env =
  me_buffer :: "nat \<Rightarrow> u8 list option"
  me_allocs :: allocs
  me_devops :: bool
  me_counter :: u32

text \<open>\<open>m\<close> is the state of the driver. The result is the C result, with the driver's state and the
  table; once the volume is mounted its cache carries the state.\<close>

definition fatMount ::
    "mount_env \<Rightarrow> u8 list \<Rightarrow> 'd disc_interface \<Rightarrow> sec_t \<Rightarrow> u32 \<Rightarrow> u32 \<Rightarrow> 'd \<Rightarrow> 'd fs device_table
      \<Rightarrow> (bool \<times> 'd \<times> 'd fs device_table) option" where
  "fatMount env name interface startSector cacheSize SectorsPerPage m t =
    (if length name > 8 then Some (False, m, t)
     else let (ok, m) = startup interface m
          in if \<not> ok then Some (False, m, t)
             else let (ok, m) = isInserted interface m
                  in if \<not> ok then Some (False, m, t)
                     else if FindDevice (name @ [CH_COLON]) t \<ge> 0 then Some (True, m, t)
                     else if \<not> me_devops env then Some (False, m, t)
                     else do {
                       r \<leftarrow> FAT_partition_constructor (me_buffer env) (me_allocs env) interface cacheSize SectorsPerPage
                         startSector m (me_counter env);
                       (case r of Inl m \<Rightarrow> Some (False, m, t)
                        | Inr p \<Rightarrow>
                            let (_, t) = AddDevice (Device name True \<lparr>fs_part = p, fs_files = Map.empty\<rparr>) t
                            in Some (True, c_medium (p_cache p), t))
                     })"

definition fatMountSimple ::
    "mount_env \<Rightarrow> u8 list \<Rightarrow> 'd disc_interface \<Rightarrow> 'd \<Rightarrow> 'd fs device_table
      \<Rightarrow> (bool \<times> 'd \<times> 'd fs device_table) option" where
  "fatMountSimple env name interface m t = fatMount env name interface 0 DEFAULT_CACHE_PAGES DEFAULT_SECTORS_PAGE m t"

text \<open>The table afterwards, with the driver's state when a volume was unmounted.\<close>

definition fatUnmount ::
    "(nat \<Rightarrow> u8 list option) \<Rightarrow> tm option option \<Rightarrow> u8 list \<Rightarrow> 'd fs device_table
      \<Rightarrow> ('d option \<times> 'd fs device_table) option" where
  "fatUnmount malloc rtc name t =
    (case GetDeviceOpTab name t of
       Some (Device _ True s) \<Rightarrow> do {
         (r, t) \<leftarrow> RemoveDevice name t;
         if r = -1 then Some (None, t)
         else do { m \<leftarrow> FAT_partition_destructor malloc rtc s; Some (Some m, t) }
       }
     | _ \<Rightarrow> Some (None, t))"

text \<open>\<open>discs\<close> are the entries of \<open>_FAT_disc_interfaces\<close>, each with what its \<open>getInterface\<close> returns and the
  state of its driver; the first one that is mounted is the default. Changing the directory of the
  process is the C library's business: the result is the path the code passes to \<open>chdir\<close>.\<close>

fun mount_all ::
    "mount_env \<Rightarrow> u32 \<Rightarrow> (u8 list \<times> ('d disc_interface \<times> 'd) option) list \<Rightarrow> u8 list option \<Rightarrow> 'd fs device_table
      \<Rightarrow> (u8 list option \<times> 'd fs device_table) option" where
  "mount_all env cacheSize [] defaultDevice t = Some (defaultDevice, t)"
| "mount_all env cacheSize ((name, disc) # discs) defaultDevice t =
     (case disc of None \<Rightarrow> mount_all env cacheSize discs defaultDevice t
      | Some (disc, m) \<Rightarrow> do {
          (ok, m, t) \<leftarrow> fatMount env name disc 0 cacheSize DEFAULT_SECTORS_PAGE m t;
          mount_all env cacheSize discs
            (case defaultDevice of None \<Rightarrow> if ok then Some name else None | Some d \<Rightarrow> Some d) t
        })"

definition fatInit ::
    "mount_env \<Rightarrow> (u8 list \<times> ('d disc_interface \<times> 'd) option) list \<Rightarrow> u32 \<Rightarrow> bool \<Rightarrow> 'd fs device_table
      \<Rightarrow> (bool \<times> u8 list option \<times> 'd fs device_table) option" where
  "fatInit env discs cacheSize setAsDefaultDevice t =
    do {
      (defaultDevice, t) \<leftarrow> mount_all env cacheSize discs None t;
      Some (case defaultDevice of None \<Rightarrow> (False, None, t)
        | Some name \<Rightarrow> (True, if setAsDefaultDevice then Some (name @ [CH_COLON, DIR_SEPARATOR]) else None, t))
    }"

definition fatInitDefault ::
    "mount_env \<Rightarrow> (u8 list \<times> ('d disc_interface \<times> 'd) option) list \<Rightarrow> 'd fs device_table
      \<Rightarrow> (bool \<times> u8 list option \<times> 'd fs device_table) option" where
  "fatInitDefault env discs t = fatInit env discs DEFAULT_CACHE_PAGES True t"

text \<open>The name as a device name: without a trailing slash, with a colon. An empty name reads in front of
  the string, as does a name that is one slash.\<close>

definition label_device :: "u8 list \<Rightarrow> u8 list option" where
  "label_device name =
    (if name = [] then None
     else let name = (if last name = DIR_SEPARATOR then butlast name else name)
          in if name = [] then None
             else Some (if last name = CH_COLON then name else name @ [CH_COLON]))"

definition NO_NAME :: "u8 list" where
  "NO_NAME = [0x4E, 0x4F, 0x20, 0x4E, 0x41, 0x4D, 0x45]"

text \<open>The label, or \<open>None\<close> inside the result when the caller's string is left alone. \<open>casecmp\<close> is
  \<open>strncasecmp\<close> of the C library: whether two strings agree in so many characters. \<open>alloc\<close> tells whether
  there is memory for the copy of the name; the code copies without a check.\<close>

definition fatGetVolumeLabel ::
    "bool \<Rightarrow> (u8 list \<Rightarrow> u8 list \<Rightarrow> nat \<Rightarrow> bool) \<Rightarrow> u8 list \<Rightarrow> 'd fs device_table
      \<Rightarrow> (u8 list option \<times> 'd partition option) option" where
  "fatGetVolumeLabel alloc casecmp name t =
    do {
      buf \<leftarrow> (if alloc then label_device name else None);
      let i = length (takeWhile (\<lambda>c. c \<noteq> CH_COLON) buf);
      (case GetDeviceOpTab buf t of
         Some (Device n True s) \<Rightarrow>
           if \<not> casecmp buf n i then Some (None, None)
           else do {
             (label, p) \<leftarrow> FAT_directory_getVolumeLabel (fs_part s);
             let label = cstr (case label of Some l \<Rightarrow> l | None \<Rightarrow> p_label p);
             Some (Some (if take 7 label = NO_NAME then [] else label), Some p)
           }
       | _ \<Rightarrow> Some (None, None))
    }"

end
