(* ===== verification/MountTheorems.thy ===== *)
theory MountTheorems
  imports MountSpec Devices
begin

text \<open>
  The properties of mounting: what the constructor makes of a boot sector, what a lookup in the table
  of devices finds after a mount, and two cases in which \<open>fatMount\<close> reports success for a volume that
  cannot be reached.
\<close>

section \<open>The constructor\<close>

text \<open>C26: invariant. On a working medium whose boot sector has the FAT12 or FAT16 signature and describes a layout
  that fits the medium, the constructor returns a partition with the numbers of that layout, which
  shows the sectors of the medium and satisfies the invariants that reading, writing and allocating
  start from. A cluster count on either side of the boundary between FAT12 and FAT16 keeps the last
  cluster below the reserved numbers of its format.\<close>

theorem mount_establishes_invariants:
  assumes "disc_ok disc med (l_bps (layout_of b))" and "disc_reliable disc (unat start + l_sectors (layout_of b))"
    and "med m start = b" and "b ! BPB_bootSig_55 = 0x55" and "b ! BPB_bootSig_AA = 0xAA"
    and "slice b BPB_FAT16_fileSysType 3 = FAT_SIG"
    and "layout_ok (unat start) (layout_of b)" and "l_clusters (layout_of b) < 65525"
    and "malloc (unat MAX_SECTOR_SIZE) = Some buf" and "length buf = unat MAX_SECTOR_SIZE"
    and "m_partition al" and "malloc_ok (m_cache al)" and "\<And>k n. m_cache al k n \<noteq> None"
    and "max 8 (unat pageSize) * l_bps (layout_of b) < 2 ^ 32"
    and "unat start + l_sectors (layout_of b) + max 8 (unat pageSize) < 2 ^ 32"
  shows "\<exists>p. FAT_partition_constructor malloc al disc cacheSize pageSize start m counter = Some (Inr p) \<and>
    bpb_fields (unat start) (layout_of b) p \<and> volume_ok med p \<and> may_allocate p \<and> pview med p = med m \<and> p_disc p = disc \<and>
    p_readOnly p = (FAT_disc_features disc AND FEATURE_MEDIUM_CANWRITE = 0)"
  by (rule constructor_layout [where med = med and b = b and buf = buf]) (rule assms)+

theorem mount_establishes_invariants_witness:
  "\<exists>p. FAT_partition_constructor (\<lambda>n. Some (replicate n 0xCC)) al512 (ram_disc 512) 4 8 0 ram512 0 = Some (Inr p) \<and>
    p_filesysType p = FS_FAT12 \<and> unat (p_dataStart p) = 3 \<and> unat (fat_lastCluster (p_fat p)) = 18 \<and>
    volume_ok (ram_med 512) p \<and> may_allocate p"
proof -
  have b: "ram_med 512 ram512 0 = boot512" by (simp add: ram_med_def ram512_def boot512_nth)
  have d: "disc_ok (ram_disc 512) (ram_med 512) (l_bps (layout_of boot512))" using ram_disc_ok by (simp add: boot512_layout)
  have r: "disc_reliable (ram_disc 512) (unat (0 :: u32) + l_sectors (layout_of boot512))" by (rule ram_disc_reliable)
  have m: "malloc_ok (m_cache al512)" "\<And>k n. m_cache al512 k n \<noteq> None" "m_partition al512"
    by (simp_all add: malloc_ok_def al512_def)
  have "\<exists>p. FAT_partition_constructor (\<lambda>n. Some (replicate n 0xCC)) al512 (ram_disc 512) 4 8 0 ram512 0 = Some (Inr p) \<and>
    bpb_fields (unat (0 :: u32)) (layout_of boot512) p \<and> volume_ok (ram_med 512) p \<and> may_allocate p \<and>
    pview (ram_med 512) p = ram_med 512 ram512 \<and> p_disc p = ram_disc 512 \<and>
    p_readOnly p = (FAT_disc_features (ram_disc 512) AND FEATURE_MEDIUM_CANWRITE = 0)"
    by (rule mount_establishes_invariants [where buf = "replicate 4096 0xCC"]; (rule d r b m)?)
      (simp_all add: boot512_nth boot512_ok FAT_SIG_def MAX_SECTOR_SIZE_def, simp_all add: boot512_layout)
  then show ?thesis
    using boot512_ok(2) by (auto simp: bpb_fields_def boot512_layout l_data_def l_type_def)
qed


section \<open>The lookup\<close>

lemma find_index_found:
  assumes "k < length xs" and "P (xs ! k)" and "\<And>j. j < k \<Longrightarrow> \<not> P (xs ! j)"
  shows "find_index P i xs = int (i + k)"
  using assms
proof (induction P i xs arbitrary: k rule: find_index.induct)
  case (2 P i x xs)
  show ?case
  proof (cases k)
    case (Suc l)
    have "\<not> P x" using "2.prems"(3) [of 0] Suc by simp
    moreover have "find_index P (i + 1) xs = int ((i + 1) + l)"
      using "2.IH" [OF \<open>\<not> P x\<close>, of l] "2.prems"(1,2) "2.prems"(3) [of "Suc j" for j] Suc by simp
    ultimately show ?thesis using Suc by simp
  qed (use "2.prems" in simp)
qed simp

lemma find_index_none: "(\<And>x. x \<in> set xs \<Longrightarrow> \<not> P x) \<Longrightarrow> find_index P i xs = -1"
  by (induction P i xs rule: find_index.induct) auto

lemma find_index_cases:
  obtains (none) "find_index P i xs = -1" "\<And>x. x \<in> set xs \<Longrightarrow> \<not> P x"
  | (found) k where "k < length xs" "P (xs ! k)" "\<And>j. j < k \<Longrightarrow> \<not> P (xs ! j)" "find_index P i xs = int (i + k)"
proof (cases "\<exists>k. k < length xs \<and> P (xs ! k)")
  case True
  define k where "k = (LEAST k. k < length xs \<and> P (xs ! k))"
  have k: "k < length xs" "P (xs ! k)" using LeastI_ex [OF True] by (simp_all add: k_def)
  moreover have "\<not> P (xs ! j)" if "j < k" for j
    using not_less_Least [OF that [unfolded k_def]] that k(1) by simp
  ultimately show thesis using found find_index_found by blast
next
  case False
  then have "\<not> P x" if "x \<in> set xs" for x using that by (auto simp: in_set_conv_nth)
  then show thesis using none find_index_none by blast
qed

lemma split_at_first:
  assumes "x \<notin> set a" and "x \<notin> set c" and "a @ x # b = c @ x # d"
  shows "a = c"
proof -
  have "takeWhile (\<lambda>y. y \<noteq> x) (e @ x # f) = e" if "x \<notin> set e" for e f
    using that by (subst takeWhile_append2) auto
  from this [OF assms(1), of b] this [OF assms(2), of d] show ?thesis by (simp only: assms(3))
qed

text \<open>Which names a path with a device matches: the device's name itself, and that name with a digit.\<close>

lemma names_device_iff:
  assumes "CH_COLON \<notin> set name" and "CH_COLON \<notin> set (device_name d)"
  shows "names_device (name @ CH_COLON # rest) d \<longleftrightarrow>
    name = device_name d \<or> (\<exists>c. isdigit c \<and> name = device_name d @ [c])"
proof
  let ?n = "device_name d" let ?path = "name @ CH_COLON # rest"
  assume "names_device ?path d"
  then obtain c cs where m: "take (length ?n) ?path = ?n" "drop (length ?n) ?path = c # cs"
    "c = CH_COLON \<or> isdigit c \<and> cs \<noteq> [] \<and> hd cs = CH_COLON"
    by (auto simp: names_device_def Let_def split: list.splits)
  have p: "?path = ?n @ c # cs" using m(1,2) by (metis append_take_drop_id)
  from m(3) show "name = ?n \<or> (\<exists>c. isdigit c \<and> name = ?n @ [c])"
  proof
    assume "c = CH_COLON"
    then have "name @ CH_COLON # rest = ?n @ CH_COLON # cs" using p by simp
    then have "name = ?n" using split_at_first assms by metis
    then show ?thesis ..
  next
    assume d: "isdigit c \<and> cs \<noteq> [] \<and> hd cs = CH_COLON"
    then have "c \<noteq> CH_COLON" by (auto simp: isdigit_def)
    have "name @ CH_COLON # rest = (?n @ [c]) @ CH_COLON # tl cs" using p d by (metis append.assoc append_Cons append_Nil list.collapse)
    then have "name = ?n @ [c]" by (rule split_at_first [rotated 2]) (use assms \<open>c \<noteq> CH_COLON\<close> in auto)
    then show ?thesis using d by blast
  qed
next
  assume "name = device_name d \<or> (\<exists>c. isdigit c \<and> name = device_name d @ [c])"
  then show "names_device (name @ CH_COLON # rest) d"
    by (auto simp: names_device_def Let_def isdigit_def)
qed


section \<open>Mounting\<close>

text \<open>A table as the library keeps it: the first three entries are the null device, and no name has a
  colon in it or is that of the null device.\<close>

definition table_ok :: "'v device_table \<Rightarrow> bool" where
  "table_ok t \<longleftrightarrow> length (dt_list t) = STD_MAX \<and> take 3 (dt_list t) = replicate 3 Stdnull \<and>
     (\<forall>d \<in> set (dt_list t). CH_COLON \<notin> set (device_name d) \<and> (d \<noteq> Stdnull \<longrightarrow> device_name d \<noteq> stdnull_name))"

definition matches :: "u8 list \<Rightarrow> 'v device \<Rightarrow> bool" where
  "matches name d \<longleftrightarrow> name = device_name d \<or> (\<exists>c. isdigit c \<and> name = device_name d @ [c])"

lemma table_okD:
  assumes "table_ok t"
  shows "length (dt_list t) = 16" "k < 3 \<Longrightarrow> dt_list t ! k = Stdnull" "d \<in> set (dt_list t) \<Longrightarrow> CH_COLON \<notin> set (device_name d)"
    "d \<in> set (dt_list t) \<Longrightarrow> device_name d = stdnull_name \<Longrightarrow> d = Stdnull"
proof -
  show "length (dt_list t) = 16" "d \<in> set (dt_list t) \<Longrightarrow> CH_COLON \<notin> set (device_name d)"
    "d \<in> set (dt_list t) \<Longrightarrow> device_name d = stdnull_name \<Longrightarrow> d = Stdnull"
    using assms by (auto simp: table_ok_def STD_MAX_def)
  show "dt_list t ! k = Stdnull" if "k < 3"
  proof -
    have "take 3 (dt_list t) ! k = replicate 3 Stdnull ! k" using assms by (simp only: table_ok_def)
    also have "\<dots> = Stdnull" by (rule nth_replicate [OF that])
    finally have "take 3 (dt_list t) ! k = Stdnull" .
    then show ?thesis using that by simp
  qed
qed

lemma find_device_cong:
  assumes "CH_COLON \<notin> set name" and "\<And>d. d \<in> set ds \<Longrightarrow> CH_COLON \<notin> set (device_name d)"
  shows "find_index (names_device (name @ CH_COLON # rest)) i ds = find_index (matches name) i ds"
proof -
  have "names_device (name @ CH_COLON # rest) d \<longleftrightarrow> matches name d" if "d \<in> set ds" for d
    unfolding matches_def by (rule names_device_iff [OF assms(1) assms(2) [OF that]])
  then show ?thesis by (induction ds arbitrary: i) simp_all
qed

lemma FindDevice_matches:
  assumes "table_ok t" and "CH_COLON \<notin> set name"
  shows "FindDevice (name @ CH_COLON # rest) t = find_index (matches name) 0 (dt_list t)"
  using find_device_cong [OF assms(2), of "dt_list t"] table_okD(3) [OF assms(1)] by (simp add: FindDevice_def)

text \<open>Adding a device that no lookup finds takes the first free entry.\<close>

lemma AddDevice_new:
  assumes ok: "table_ok t" and new: "\<And>d. d \<in> set (dt_list t) \<Longrightarrow> device_name d \<noteq> device_name dev"
    and free: "Stdnull \<in> set (drop 3 (dt_list t))"
  obtains k where "3 \<le> k" and "k < 16" and "dt_list t ! k = Stdnull"
    and "AddDevice dev t = (int k, t\<lparr>dt_list := (dt_list t)[k := dev]\<rparr>)"
proof -
  let ?P = "\<lambda>d. device_name d = device_name dev \<or> device_name d = stdnull_name"
  note len = table_okD(1) [OF ok]
  show thesis
  proof (rule find_index_cases [of ?P 3 "drop 3 (dt_list t)"])
    assume "\<And>x. x \<in> set (drop 3 (dt_list t)) \<Longrightarrow> \<not> ?P x"
    from this [OF free] have False by (simp add: device_name_def)
    then show thesis ..
  next
    fix k assume k: "k < length (drop 3 (dt_list t))" "?P (drop 3 (dt_list t) ! k)"
      and run: "find_index ?P 3 (drop 3 (dt_list t)) = int (3 + k)"
    have mem: "dt_list t ! (3 + k) \<in> set (dt_list t)" using k(1) len by simp
    have "device_name (dt_list t ! (3 + k)) = stdnull_name" using k new [OF mem] by simp
    then have "dt_list t ! (3 + k) = Stdnull" by (rule table_okD(4) [OF ok mem])
    then show thesis using that [of "3 + k"] k(1) run len by (simp add: AddDevice_def Let_def nat_add_distrib)
  qed
qed

lemma find_index_update:
  assumes "k < length xs" and "\<not> P (xs ! k)" and "\<not> P x"
  shows "find_index P i (xs[k := x]) = find_index P i xs"
  using assms
proof (induction P i xs arbitrary: k rule: find_index.induct)
  case (2 P i y ys)
  then show ?case by (cases k) auto
qed simp

definition SD :: "u8 list" where "SD = [0x73, 0x64]"

definition env512 :: mount_env where
  "env512 = \<lparr>me_buffer = (\<lambda>n. Some (replicate n 0xCC)), me_allocs = al512, me_devops = True, me_counter = 0\<rparr>"

lemma empty_table_ok: "table_ok empty_table"
  by (simp add: table_ok_def empty_table_def STD_MAX_def device_name_def stdnull_name_def numeral_3_eq_3)

text \<open>C27: functional. A mount that reports success for a name that no mounted device answers to, with a free entry
  in the table, has mounted the volume: every path with that name as its device leads to the new
  partition, which has no open files, and paths with other names lead where they led, unless the name
  is the new one with a digit behind it. Where a device answers to the name, as \<open>sd\<close> does to \<open>sd1\<close>
  (\<open>numbered_mount_does_nothing\<close>), and where the table is full (\<open>mount_into_full_table\<close>), the call reports
  success as well but mounts nothing.\<close>

theorem mount_reaches_partition:
  assumes "table_ok t" and "CH_COLON \<notin> set name" and "name \<noteq> stdnull_name"
    and "FindDevice (name @ [CH_COLON]) t < 0" and "Stdnull \<in> set (drop 3 (dt_list t))"
    and "fatMount env name disc start cacheSize pageSize m t = Some (True, m', t')"
  shows "\<exists>p m1. FAT_partition_constructor (me_buffer env) (me_allocs env) disc cacheSize pageSize start m1 (me_counter env) =
      Some (Inr p) \<and> m' = c_medium (p_cache p) \<and> table_ok t' \<and>
    (\<forall>path. FAT_partition_getPartitionFromPath (name @ CH_COLON # path) t' = Some \<lparr>fs_part = p, fs_files = Map.empty\<rparr>) \<and>
    (\<forall>other path. CH_COLON \<notin> set other \<longrightarrow> other \<noteq> name \<longrightarrow> (\<forall>c. isdigit c \<longrightarrow> other \<noteq> name @ [c]) \<longrightarrow>
       other \<noteq> stdnull_name \<longrightarrow> (\<forall>c. isdigit c \<longrightarrow> other \<noteq> stdnull_name @ [c]) \<longrightarrow>
       FAT_partition_getPartitionFromPath (other @ CH_COLON # path) t' = FAT_partition_getPartitionFromPath (other @ CH_COLON # path) t)"
proof -
  note len = table_okD(1) [OF assms(1)]
  have none: "\<not> matches name d" if "d \<in> set (dt_list t)" for d
  proof (rule find_index_cases [of "matches name" 0 "dt_list t"])
    fix k assume "find_index (matches name) 0 (dt_list t) = int (0 + k)"
    then show ?thesis using assms(4) FindDevice_matches [OF assms(1,2), of "[]"] by simp
  qed (use that in blast)
  obtain m1 p where p: "FAT_partition_constructor (me_buffer env) (me_allocs env) disc cacheSize pageSize start m1 (me_counter env) =
      Some (Inr p)" "m' = c_medium (p_cache p)" "t' = snd (AddDevice (Device name True \<lparr>fs_part = p, fs_files = Map.empty\<rparr>) t)"
    using assms(4,6)
    by (auto simp: fatMount_def Let_def split: if_splits prod.splits Option.bind_splits sum.splits)
  let ?dev = "Device name True \<lparr>fs_part = p, fs_files = Map.empty\<rparr>"
  have dn: "device_name ?dev = name" by (simp add: device_name_def)
  have new: "device_name d \<noteq> device_name ?dev" if "d \<in> set (dt_list t)" for d
    using none [OF that] by (auto simp: matches_def dn)
  obtain k where k: "3 \<le> k" "k < 16" "dt_list t ! k = Stdnull" "t' = t\<lparr>dt_list := (dt_list t)[k := ?dev]\<rparr>"
    by (rule AddDevice_new [OF assms(1) new assms(5)]) (use p(3) in auto)
  have l': "dt_list t' = (dt_list t)[k := ?dev]" by (simp add: k(4))
  have ok': "table_ok t'"
  proof -
    have "\<forall>d \<in> set ((dt_list t)[k := ?dev]). CH_COLON \<notin> set (device_name d) \<and> (d \<noteq> Stdnull \<longrightarrow> device_name d \<noteq> stdnull_name)"
      by (rule ball_list_update) (use assms(1-3) in \<open>simp_all add: table_ok_def dn\<close>)
    then show ?thesis using assms(1) k(1) by (simp add: table_ok_def l')
  qed
  have own: "FAT_partition_getPartitionFromPath (name @ CH_COLON # path) t' = Some \<lparr>fs_part = p, fs_files = Map.empty\<rparr>" for path
  proof -
    have "find_index (matches name) 0 (dt_list t') = int (0 + k)"
      using none len k(2) by (intro find_index_found) (auto simp: l' matches_def dn nth_list_update)
    then have "FindDevice (name @ CH_COLON # path) t' = int k"
      using FindDevice_matches [OF ok' assms(2)] by simp
    then show ?thesis
      using k(2) len by (simp add: FAT_partition_getPartitionFromPath_def GetDeviceOpTab_def Let_def STD_MAX_def l')
  qed
  have other: "FAT_partition_getPartitionFromPath (other @ CH_COLON # path) t' = FAT_partition_getPartitionFromPath (other @ CH_COLON # path) t"
    if o: "CH_COLON \<notin> set other" "other \<noteq> name" "\<forall>c. isdigit c \<longrightarrow> other \<noteq> name @ [c]" "other \<noteq> stdnull_name"
      "\<forall>c. isdigit c \<longrightarrow> other \<noteq> stdnull_name @ [c]" for other path
  proof -
    have nm: "\<not> matches other (dt_list t ! k)" "\<not> matches other ?dev"
      using o by (auto simp: matches_def k(3) dn) (auto simp: device_name_def)
    have fd: "FindDevice (other @ CH_COLON # path) t' = FindDevice (other @ CH_COLON # path) t"
      unfolding FindDevice_matches [OF ok' o(1)] FindDevice_matches [OF assms(1) o(1)] l'
      by (rule find_index_update) (use nm k(2) len in simp_all)
    show ?thesis
    proof (rule find_index_cases [of "matches other" 0 "dt_list t"])
      assume "find_index (matches other) 0 (dt_list t) = -1"
      then show ?thesis using fd FindDevice_matches [OF assms(1) o(1)]
        by (simp add: FAT_partition_getPartitionFromPath_def GetDeviceOpTab_def)
    next
      fix j assume j: "j < length (dt_list t)" "matches other (dt_list t ! j)" "find_index (matches other) 0 (dt_list t) = int (0 + j)"
      then have "j \<noteq> k" using nm by auto
      then show ?thesis using fd FindDevice_matches [OF assms(1) o(1)] j len
        by (simp add: FAT_partition_getPartitionFromPath_def GetDeviceOpTab_def STD_MAX_def Let_def l')
    qed
  qed
  show ?thesis using p(1,2) ok' own other by blast
qed

theorem mount_reaches_partition_witness:
  "\<exists>p m' t'. fatMount env512 SD (ram_disc 512) 0 4 8 ram512 empty_table = Some (True, m', t') \<and>
    FAT_partition_getPartitionFromPath (SD @ [CH_COLON, 0x2F]) t' = Some \<lparr>fs_part = p, fs_files = Map.empty\<rparr>"
proof -
  have sd: "CH_COLON \<notin> set SD" "SD \<noteq> stdnull_name" by (simp_all add: SD_def stdnull_name_def)
  have none: "FindDevice (SD @ [CH_COLON]) (empty_table :: ram fs device_table) < 0"
    unfolding FindDevice_matches [OF empty_table_ok sd(1)]
    by (subst find_index_none) (auto simp: empty_table_def matches_def SD_def device_name_def stdnull_name_def)
  have free: "Stdnull \<in> set (drop 3 (dt_list (empty_table :: ram fs device_table)))"
    by (simp add: empty_table_def STD_MAX_def)
  obtain p where "FAT_partition_constructor (\<lambda>n. Some (replicate n 0xCC)) al512 (ram_disc 512) 4 8 0 ram512 0 = Some (Inr p)"
    using boot512_mounts by blast
  then have "fatMount env512 SD (ram_disc 512) 0 4 8 ram512 empty_table = Some (True, c_medium (p_cache p),
      snd (AddDevice (Device SD True \<lparr>fs_part = p, fs_files = Map.empty\<rparr>) empty_table))"
    using none by (simp add: fatMount_def env512_def case_prod_beta Let_def) (simp add: ram_disc_def SD_def)
  then obtain m' t' where m: "fatMount env512 SD (ram_disc 512) 0 4 8 ram512 empty_table = Some (True, m', t')"
    by blast
  from mount_reaches_partition [OF empty_table_ok sd none free m] m show ?thesis by auto
qed

text \<open>With a table that has no free entry the mount reports success and the volume cannot be reached.\<close>

lemma mount_into_full_table:
  assumes "table_ok t" and "CH_COLON \<notin> set name" and "FindDevice (name @ [CH_COLON]) t < 0" and "Stdnull \<notin> set (drop 3 (dt_list t))"
    and "fatMount env name disc start cacheSize pageSize m t = Some (True, m', t')"
  shows "t' = t"
proof -
  have none: "\<not> matches name d" if "d \<in> set (dt_list t)" for d
  proof (rule find_index_cases [of "matches name" 0 "dt_list t"])
    fix k assume "find_index (matches name) 0 (dt_list t) = int (0 + k)"
    then show ?thesis using assms(3) FindDevice_matches [OF assms(1,2), of "[]"] by simp
  qed (use that in blast)
  have "snd (AddDevice (Device name True v) t) = t" for v
  proof -
    have "\<not> (device_name d = name \<or> device_name d = stdnull_name)" if "d \<in> set (drop 3 (dt_list t))" for d
      using none [OF in_set_dropD [OF that]] table_okD(4) [OF assms(1) in_set_dropD [OF that]] that assms(4)
      by (auto simp: matches_def)
    then have "find_index (\<lambda>d. device_name d = device_name (Device name True v) \<or> device_name d = stdnull_name) 3 (drop 3 (dt_list t)) = -1"
      by (intro find_index_none) (simp add: device_name_def [of "Device _ _ _"])
    then show ?thesis by (simp add: AddDevice_def)
  qed
  note same = this
  obtain r where r: "(case r of Inl m \<Rightarrow> Some (False, m, t)
      | Inr p \<Rightarrow> Some (True, c_medium (p_cache p), snd (AddDevice (Device name True \<lparr>fs_part = p, fs_files = Map.empty\<rparr>) t))) =
      Some (True, m', t')"
    using assms(3,5) by (auto simp: fatMount_def Let_def case_prod_beta bind_eq_Some_conv split: if_splits)
  show ?thesis using r same by (cases r) auto
qed

text \<open>Mounting a volume under the name of a mounted device with a digit behind it reports success,
  mounts nothing, and leaves paths with that name on the other device.\<close>

theorem numbered_mount_does_nothing:
  assumes "table_ok t" and "Device other lib v \<in> set (dt_list t)" and "isdigit c" and "length other < 8"
    and "snd (startup disc m) = m1" and "fst (startup disc m)" and "isInserted disc m1 = (True, m2)"
  shows "fatMount env (other @ [c]) disc start cacheSize pageSize m t = Some (True, m2, t)"
proof -
  have colon: "CH_COLON \<notin> set other" "CH_COLON \<notin> set (other @ [c])"
    using table_okD(3) [OF assms(1,2)] assms(3) by (auto simp: device_name_def isdigit_def)
  have "FindDevice ((other @ [c]) @ CH_COLON # []) t \<ge> 0"
  proof (rule find_index_cases [of "matches (other @ [c])" 0 "dt_list t"])
    assume "\<And>x. x \<in> set (dt_list t) \<Longrightarrow> \<not> matches (other @ [c]) x"
    from this [OF assms(2)] assms(3) show ?thesis by (auto simp: matches_def device_name_def)
  next
    fix k assume "find_index (matches (other @ [c])) 0 (dt_list t) = int (0 + k)"
    then show ?thesis unfolding FindDevice_matches [OF assms(1) colon(2)] by simp
  qed
  then show ?thesis using assms(4-7) by (simp add: fatMount_def Let_def case_prod_beta)
qed

theorem numbered_mount_does_nothing_witness:
  "\<exists>t. Device SD True \<lparr>fs_part = ram_part 6 5 2, fs_files = Map.empty\<rparr> \<in> set (dt_list t) \<and>
    fatMount env512 (SD @ [0x31]) (ram_disc 512) 0 4 8 ram512 t = Some (True, ram512, t)"
proof -
  let ?d = "Device SD True \<lparr>fs_part = ram_part 6 5 2, fs_files = Map.empty\<rparr>"
  let ?t = "\<lparr>dt_list = replicate 3 Stdnull @ ?d # replicate 12 Stdnull, dt_default = -1\<rparr>"
  have t: "table_ok ?t" by (auto simp: table_ok_def STD_MAX_def device_name_def stdnull_name_def SD_def)
  have d: "?d \<in> set (dt_list ?t)" by simp
  have s: "snd (startup (ram_disc 512) ram512) = ram512" "fst (startup (ram_disc 512) ram512)"
    "isInserted (ram_disc 512) ram512 = (True, ram512)" by (simp_all add: ram_disc_def)
  from numbered_mount_does_nothing [OF t d _ _ s, of "0x31"] d show ?thesis
    by (intro exI [of _ ?t]) (simp add: isdigit_def SD_def)
qed

end
