(* ===== verification/WorkDir.thy ===== *)
theory WorkDir
  imports Devices
begin

text \<open>
  The working directory of the process, \<open>testbench/chdir.c\<close>: a path with a device name in a buffer of
  \<open>PATH_MAX\<close> bytes, to which a relative path is added in place. The buffer is a list of bytes, a pointer
  into it an index; an access outside it, or a search for the end of a string without one, is
  undefined. \<open>PATH_MAX\<close> is the platform's (\<open>limits.h\<close>) and the length of the buffer.
\<close>

section \<open>Strings in a buffer\<close>

definition put_byte :: "u8 list \<Rightarrow> nat \<Rightarrow> u8 \<Rightarrow> u8 list option" where
  "put_byte buf i c = (if i < length buf then Some (buf[i := c]) else None)"

definition byte_before :: "u8 list \<Rightarrow> nat \<Rightarrow> u8 option" where
  "byte_before buf i = (if 0 < i \<and> i \<le> length buf then Some (buf ! (i - 1)) else None)"

text \<open>The string at the start of the buffer.\<close>

definition buf_string :: "u8 list \<Rightarrow> u8 list option" where
  "buf_string buf = (if 0 \<in> set buf then Some (cstr buf) else None)"

definition strncpy_to :: "nat \<Rightarrow> u8 list \<Rightarrow> u8 list" where
  "strncpy_to n s = take n (s @ replicate n 0)"

section \<open>Adding a path\<close>

text \<open>The first component of the rest, with the separator behind it if there is one.\<close>

definition next_part :: "u8 list \<Rightarrow> u8 list" where
  "next_part extra = takeWhile (\<lambda>c. c \<noteq> DIR_SEPARATOR) extra"

definition extra_size :: "u8 list \<Rightarrow> nat" where
  "extra_size extra = (let n = length (next_part extra) in if n < length extra then n + 1 else n)"

lemma rest_shorter:
  assumes "extra_size (skip_separators extra) \<noteq> 0"
  shows "length (skip_separators extra) - extra_size (skip_separators extra) < length extra"
proof -
  have "skip_separators extra \<noteq> []" using assms by (auto simp: extra_size_def next_part_def Let_def)
  moreover have "length (skip_separators extra) \<le> length extra" by (simp add: skip_separators_def length_dropWhile_le)
  ultimately show ?thesis using assms by (cases "skip_separators extra") auto
qed

text \<open>Going up: the separator in front of the end is removed, and the path ends behind the one before.\<close>

definition go_up :: "u8 list \<Rightarrow> nat \<Rightarrow> ((u8 list \<times> nat option)) option" where
  "go_up buf pathEnd =
    do {
      c \<leftarrow> byte_before buf pathEnd;
      buf \<leftarrow> (if c = DIR_SEPARATOR then put_byte buf (pathEnd - 1) 0 else Some buf);
      path \<leftarrow> buf_string buf;
      Some (buf, last_separator path)
    }"

text \<open>The loop over the components. The result is the error, the buffer and the end of the path.\<close>

function concatenate_loop ::
    "nat \<Rightarrow> u8 list \<Rightarrow> nat \<Rightarrow> nat \<Rightarrow> u8 list \<Rightarrow> (errno option \<times> u8 list \<times> nat) option" where
  "concatenate_loop maxLength buf pathEnd pathLength extra0 =
    (let extra = skip_separators extra0; extraSize = extra_size extra; part = next_part extra
     in if extraSize = 0 then Some (None, buf, pathEnd)
        else if part = [CH_DOT] then do {
          buf \<leftarrow> put_byte buf pathEnd 0;
          concatenate_loop maxLength buf pathEnd pathLength (drop extraSize extra)
        }
        else if part = [CH_DOT, CH_DOT] then do {
          (buf, separator) \<leftarrow> go_up buf pathEnd;
          (case separator of None \<Rightarrow> Some (Some ENOENT, buf, pathEnd)
           | Some k \<Rightarrow> do {
               buf \<leftarrow> put_byte buf (k + 1) 0;
               concatenate_loop maxLength buf (k + 1) k (drop extraSize extra)
             })
        }
        else if pathLength + extraSize \<ge> maxLength then Some (Some ENAMETOOLONG, buf, pathEnd)
        else do {
          buf \<leftarrow> poke buf pathEnd (take extraSize extra);
          buf \<leftarrow> put_byte buf (pathEnd + extraSize) 0;
          concatenate_loop maxLength buf (pathEnd + extraSize) (pathLength + extraSize) (drop extraSize extra)
        })"
  by auto
termination
  by (relation "measure (\<lambda>(_, _, _, _, extra). length extra)") (simp_all add: rest_shorter)

declare concatenate_loop.simps [simp del]

definition concatenate_path :: "u8 list \<Rightarrow> u8 list \<Rightarrow> nat \<Rightarrow> (errno option \<times> u8 list) option" where
  "concatenate_path path extra maxLength =
    (let pathLength = length (takeWhile (\<lambda>c. c \<noteq> 0) (take maxLength path))
     in if pathLength \<ge> maxLength then Some (Some ENAMETOOLONG, path)
        else do {
          c \<leftarrow> byte_before path pathLength;
          (path, pathEnd) \<leftarrow> (if c \<noteq> DIR_SEPARATOR
            then do { path \<leftarrow> put_byte path pathLength DIR_SEPARATOR; Some (path, pathLength + 1) }
            else Some (path, pathLength));
          (path, pathEnd) \<leftarrow> (if extra \<noteq> [] \<and> hd extra = DIR_SEPARATOR
            then do {
              let pathEnd = length (takeWhile (\<lambda>c. c \<noteq> DIR_SEPARATOR) path) + 1;
              path \<leftarrow> put_byte path pathEnd 0;
              Some (path, pathEnd)
            } else Some (path, pathEnd));
          (err, path, pathEnd) \<leftarrow> concatenate_loop maxLength path pathEnd pathLength extra;
          if err \<noteq> None then Some (err, path)
          else do {
            c \<leftarrow> byte_before path pathEnd;
            if c \<noteq> DIR_SEPARATOR
            then do {
              path \<leftarrow> put_byte path pathEnd DIR_SEPARATOR;
              path \<leftarrow> put_byte path (pathEnd + 1) 0;
              Some (None, path)
            } else Some (None, path)
          }
        })"

section \<open>Changing the directory\<close>

record 'd process =
  pr_cwd :: "u8 list"
  pr_devices :: "'d fs device_table"

definition initial_cwd :: "nat \<Rightarrow> u8 list" where
  "initial_cwd PATHMAX = strncpy_to PATHMAX [DIR_SEPARATOR]"

text \<open>The operation of a device: that of the library, on the volume its data points to; what another driver's
  operation returns is \<open>other\<close>, where the driver has one.\<close>

definition device_chdir ::
    "'mb char_env \<Rightarrow> (u8 list \<Rightarrow> errno option) option \<Rightarrow> int \<Rightarrow> u8 list \<Rightarrow> 'd fs device_table
      \<Rightarrow> (errno option \<times> 'd fs device_table) option" where
  "device_chdir env other dev path t =
    (if dev < 0 then Some (Some ENODEV, t)
     else if nat dev \<ge> STD_MAX then None
     else case dt_list t ! nat dev of
       Stdnull \<Rightarrow> Some (Some ENODEV, t)
     | Device name libfat s \<Rightarrow>
         if \<not> libfat then Some (case other of None \<Rightarrow> Some ENODEV | Some f \<Rightarrow> f path, t)
         else do {
           (err, p) \<leftarrow> FAT_chdir_r env True path (fs_part s);
           Some (err, t\<lparr>dt_list := (dt_list t)[nat dev := Device name libfat (s\<lparr>fs_part := p\<rparr>)]\<rparr>)
         })"

definition chdir ::
    "'mb char_env \<Rightarrow> (u8 list \<Rightarrow> errno option) option \<Rightarrow> nat \<Rightarrow> u8 list \<Rightarrow> 'd process \<Rightarrow> (errno option \<times> 'd process) option" where
  "chdir env other PATHMAX path s =
    (if length path \<ge> PATHMAX then Some (Some ENAMETOOLONG, s)
     else do {
       let named = (CH_COLON \<in> set path);
       let temp_cwd = strncpy_to PATHMAX (if named then path else takeWhile (\<lambda>c. c \<noteq> 0) (pr_cwd s));
       let path = (if named then tl (dropWhile (\<lambda>c. c \<noteq> CH_COLON) path) else path);
       start \<leftarrow> buf_string temp_cwd;
       rest \<leftarrow> (if CH_COLON \<in> set start then Some (tl (dropWhile (\<lambda>c. c \<noteq> CH_COLON) start)) else None);
       if rest = [] \<or> hd rest \<noteq> DIR_SEPARATOR then Some (Some ENOENT, s)
       else do {
         (err, temp_cwd) \<leftarrow> concatenate_path temp_cwd path PATHMAX;
         if err \<noteq> None then Some (err, s)
         else do {
           new \<leftarrow> buf_string temp_cwd;
           let dev = FindDevice new (pr_devices s);
           (err, t) \<leftarrow> device_chdir env other dev new (pr_devices s);
           if err \<noteq> None then Some (err, s\<lparr>pr_devices := t\<rparr>)
           else Some (None, s\<lparr>pr_cwd := strncpy_to PATHMAX new, pr_devices := setDefaultDevice dev t\<rparr>)
         }
       }
     })"

end
