(* ===== verification/WorkDirSpec.thy ===== *)
theory WorkDirSpec
  imports WorkDir
begin

text \<open>
  The working directory as a device and a list of directory names: adding a path in the buffer is resolving
  its components one after the other.
\<close>

section \<open>Paths\<close>

fun resolve :: "u8 list list \<Rightarrow> u8 list list \<Rightarrow> u8 list list option" where
  "resolve dirs [] = Some dirs"
| "resolve dirs (part # parts) =
     (if part = [CH_DOT] then resolve dirs parts
      else if part = [CH_DOT, CH_DOT] then (if dirs = [] then None else resolve (butlast dirs) parts)
      else resolve (dirs @ [part]) parts)"

function segments :: "u8 list \<Rightarrow> u8 list list" where
  "segments extra =
    (let rest = skip_separators extra
     in if extra_size rest = 0 then [] else next_part rest # segments (drop (extra_size rest) rest))"
  by auto
termination
  by (relation "measure length") (simp_all add: rest_shorter)

declare segments.simps [simp del]

definition encode :: "u8 list \<Rightarrow> u8 list list \<Rightarrow> u8 list" where
  "encode dev dirs = dev @ DIR_SEPARATOR # concat (map (\<lambda>d. d @ [DIR_SEPARATOR]) dirs)"

definition dir_name :: "u8 list \<Rightarrow> bool" where
  "dir_name d \<longleftrightarrow> d \<noteq> [] \<and> DIR_SEPARATOR \<notin> set d \<and> 0 \<notin> set d"

lemma encode_simps:
  "encode dev [] = dev @ [DIR_SEPARATOR]" "encode dev (dirs @ [d]) = encode dev dirs @ d @ [DIR_SEPARATOR]"
  "encode dev dirs \<noteq> []" "last (encode dev dirs) = DIR_SEPARATOR"
proof -
  show "encode dev [] = dev @ [DIR_SEPARATOR]" "encode dev (dirs @ [d]) = encode dev dirs @ d @ [DIR_SEPARATOR]"
    "encode dev dirs \<noteq> []"
    by (simp_all add: encode_def)
  show "last (encode dev dirs) = DIR_SEPARATOR" by (cases dirs rule: rev_cases) (simp_all add: encode_def)
qed

text \<open>The parts of a path are those between its separators.\<close>

lemma extra_size_name:
  assumes "dir_name d"
  shows "next_part (d @ DIR_SEPARATOR # s) = d" "extra_size (d @ DIR_SEPARATOR # s) = Suc (length d)"
    "skip_separators (d @ s) = d @ s" "next_part d = d" "extra_size d = length d"
proof -
  have tw: "takeWhile (\<lambda>c. c \<noteq> DIR_SEPARATOR) d = d" using assms by (auto simp: dir_name_def takeWhile_eq_all_conv)
  show np: "next_part (d @ DIR_SEPARATOR # s) = d" "next_part d = d"
    using assms by (auto simp: next_part_def tw takeWhile_append dir_name_def)
  then show "extra_size (d @ DIR_SEPARATOR # s) = Suc (length d)" "extra_size d = length d" by (simp_all add: extra_size_def)
  show "skip_separators (d @ s) = d @ s" using assms by (cases d) (auto simp: skip_separators_def dir_name_def)
qed

lemma segments_join: "list_all dir_name ds \<Longrightarrow> segments (concat (map (\<lambda>d. d @ [DIR_SEPARATOR]) ds)) = ds"
proof (induction ds)
  case Nil
  show ?case by (subst segments.simps) (simp add: skip_separators_def extra_size_def next_part_def)
next
  case (Cons d ds)
  then show ?case using extra_size_name [of d] by (subst segments.simps) (simp add: Let_def)
qed

section \<open>What the buffer holds\<close>

definition buf_holds :: "u8 list \<Rightarrow> u8 list \<Rightarrow> bool" where
  "buf_holds buf s \<longleftrightarrow> length s < length buf \<and> take (length s) buf = s \<and> buf ! length s = 0 \<and> 0 \<notin> set s"

lemma holds_split: "buf_holds buf s \<Longrightarrow> buf = s @ 0 # drop (Suc (length s)) buf"
  by (metis append_take_drop_id buf_holds_def Cons_nth_drop_Suc)

lemma holds_string: "buf_holds buf s \<Longrightarrow> buf_string buf = Some s"
proof -
  assume h: "buf_holds buf s"
  have "cstr (s @ 0 # r) = s" for r using h by (auto simp: cstr_def buf_holds_def takeWhile_append)
  then show ?thesis using holds_split [OF h] by (metis buf_string_def in_set_conv_decomp)
qed

lemma holds_put:
  assumes "take (length s) buf = s" and "length s < length buf" and "0 \<notin> set s"
  shows "put_byte buf (length s) 0 = Some (buf[length s := 0]) \<and> buf_holds (buf[length s := 0]) s"
  using assms by (simp add: put_byte_def buf_holds_def)

lemma holds_before: "buf_holds buf s \<Longrightarrow> s \<noteq> [] \<Longrightarrow> byte_before buf (length s) = Some (last s)"
proof -
  assume h: "buf_holds buf s" "s \<noteq> []"
  then have "buf ! (length s - 1) = s ! (length s - 1)"
    by (metis diff_less buf_holds_def length_greater_0_conv nth_take zero_less_one)
  then show ?thesis using h by (simp add: byte_before_def buf_holds_def last_conv_nth)
qed

section \<open>One component\<close>

definition path_ok :: "u8 list \<Rightarrow> u8 list list \<Rightarrow> bool" where
  "path_ok dev dirs \<longleftrightarrow> DIR_SEPARATOR \<notin> set dev \<and> 0 \<notin> set dev \<and> list_all dir_name dirs"

lemma path_ok_zero: "path_ok dev dirs \<Longrightarrow> 0 \<notin> set (encode dev dirs)"
  by (auto simp: path_ok_def encode_def dir_name_def list_all_iff)

lemma last_separator_encode:
  assumes "dir_name d"
  shows "last_separator (encode dev ds @ d) = Some (length (encode dev ds) - 1)"
proof -
  have tw: "takeWhile (\<lambda>c. c \<noteq> DIR_SEPARATOR) (rev d @ DIR_SEPARATOR # s) = rev d" for s
    using assms by (auto simp: dir_name_def takeWhile_append)
  have "rev (encode dev ds) = DIR_SEPARATOR # tl (rev (encode dev ds))"
    using encode_simps(3,4) [of dev ds] by (metis hd_rev list.exhaust_sel rev_is_Nil_conv)
  then have "takeWhile (\<lambda>c. c \<noteq> DIR_SEPARATOR) (rev (encode dev ds @ d)) = rev d" using tw by (metis rev_append)
  moreover have "DIR_SEPARATOR \<in> set (encode dev ds @ d)" by (simp add: encode_def)
  ultimately show ?thesis by (simp add: last_separator_def)
qed

lemma go_up_spec:
  assumes h: "buf_holds buf (encode dev dirs)" and ok: "path_ok dev dirs"
  obtains buf' where "go_up buf (length (encode dev dirs)) = Some (buf', if dirs = [] then None else Some (length (encode dev (butlast dirs)) - 1))"
    and "length buf' = length buf" and "buf_holds buf' (butlast (encode dev dirs))"
proof -
  let ?s = "encode dev dirs" let ?t = "butlast ?s"
  note e = encode_simps(3,4) [of dev dirs]
  have len: "length ?t = length ?s - 1" "0 < length ?s" using e(1) by simp_all
  have tk: "take (length ?t) buf = ?t"
  proof -
    have "take (length ?s) buf = ?s" using h by (simp add: buf_holds_def)
    then have "take (length ?s - 1) (take (length ?s) buf) = ?t" by (simp only: butlast_conv_take)
    then show ?thesis by (simp add: len(1) min_def)
  qed
  have lt: "length ?t < length buf" unfolding len(1) using h by (simp add: buf_holds_def less_imp_diff_less)
  have z: "0 \<notin> set ?t" using path_ok_zero [OF ok] in_set_butlastD by metis
  note pb = holds_put [OF tk lt z]
  let ?b = "buf[length ?t := 0]"
  have up: "go_up buf (length ?s) = Some (?b, last_separator ?t)"
    using holds_before [OF h e(1)] e(2) pb holds_string [of ?b ?t] by (simp add: go_up_def len(1))
  have "last_separator ?t = (if dirs = [] then None else Some (length (encode dev (butlast dirs)) - 1))"
  proof (cases dirs rule: rev_cases)
    case Nil
    then show ?thesis using ok by (simp add: encode_simps(1) last_separator_def path_ok_def)
  next
    case (snoc ds d)
    then have "dir_name d" using ok by (simp add: path_ok_def)
    then show ?thesis using last_separator_encode [of d dev ds] by (simp add: snoc encode_simps(2) butlast_append)
  qed
  then show thesis using that [of ?b] up pb by simp
qed

lemma copy_part:
  assumes h: "buf_holds buf s" and z: "0 \<notin> set x" and fit: "length s + length x < length buf"
  obtains b1 b2 where "poke buf (length s) x = Some b1" and "put_byte b1 (length s + length x) 0 = Some b2"
    and "length b2 = length buf" and "buf_holds b2 (s @ x)"
proof -
  let ?b1 = "splice buf (length s) x"
  have len: "length ?b1 = length buf" using fit by simp
  have "take (length (s @ x)) ?b1 = s @ x"
    using h fit by (simp add: splice_def buf_holds_def)
  then have "put_byte ?b1 (length (s @ x)) 0 = Some (?b1[length (s @ x) := 0]) \<and> buf_holds (?b1[length (s @ x) := 0]) (s @ x)"
    using h z fit len by (intro holds_put) (auto simp: buf_holds_def)
  then show thesis using that [of ?b1 "?b1[length (s @ x) := 0]"] fit len by (simp add: poke_def)
qed

section \<open>The loop\<close>

text \<open>The string at the end of the loop: the last component may still lack its separator.\<close>

definition path_reached :: "nat \<Rightarrow> u8 list \<Rightarrow> u8 list list \<Rightarrow> u8 list \<Rightarrow> nat \<Rightarrow> bool" where
  "path_reached maxLength dev ds buf pathEnd \<longleftrightarrow> length buf = maxLength \<and> path_ok dev ds \<and> pathEnd + 1 < maxLength \<and>
     (\<exists>s. buf_holds buf s \<and> pathEnd = length s \<and> (s = encode dev ds \<or> s = butlast (encode dev ds) \<and> ds \<noteq> []))"

definition loop_outcome :: "nat \<Rightarrow> u8 list \<Rightarrow> u8 list list option \<Rightarrow> (errno option \<times> u8 list \<times> nat) option \<Rightarrow> bool" where
  "loop_outcome maxLength dev target r \<longleftrightarrow> (case target of
     None \<Rightarrow> \<exists>buf e. r = Some (Some ENOENT, buf, e)
   | Some ds \<Rightarrow> \<exists>buf e. r = Some (None, buf, e) \<and> path_reached maxLength dev ds buf e)"

lemma dir_name_part:
  assumes "0 \<notin> set extra" and "extra_size (skip_separators extra) \<noteq> 0"
  shows "dir_name (next_part (skip_separators extra))"
proof -
  have "hd (skip_separators extra) \<noteq> DIR_SEPARATOR" if "skip_separators extra \<noteq> []"
    using that hd_dropWhile [of "\<lambda>c. c = DIR_SEPARATOR" extra] by (simp add: skip_separators_def)
  moreover have "skip_separators extra \<noteq> []" using assms(2) by (auto simp: extra_size_def next_part_def Let_def)
  ultimately show ?thesis
    using assms(1) by (auto simp: dir_name_def next_part_def skip_separators_def takeWhile_eq_Nil_iff dest!: set_takeWhileD set_dropWhileD)
qed

lemma take_extra:
  "take (extra_size extra) extra = next_part extra @ (if length (next_part extra) < length extra then [DIR_SEPARATOR] else [])"
proof -
  let ?n = "length (next_part extra)"
  have tk: "take ?n extra = next_part extra" by (simp add: next_part_def takeWhile_eq_take [symmetric])
  show ?thesis
  proof (cases "?n < length extra")
    case True
    then have "extra ! ?n = DIR_SEPARATOR" unfolding next_part_def using nth_length_takeWhile by fastforce
    then show ?thesis using True tk by (simp add: extra_size_def take_Suc_conv_app_nth)
  next
    case False
    then show ?thesis using tk by (simp add: extra_size_def)
  qed
qed

lemma loop_end:
  assumes "extra_size (skip_separators extra) = 0"
  shows "concatenate_loop maxLength buf pathEnd pl extra = Some (None, buf, pathEnd)" and "segments extra = []"
  using assms by (simp_all add: concatenate_loop.simps [of maxLength buf pathEnd pl extra] segments.simps [of extra] Let_def)

lemma path_ok_more:
  "path_ok dev dirs \<Longrightarrow> dir_name d \<Longrightarrow> path_ok dev (dirs @ [d])" "path_ok dev dirs \<Longrightarrow> path_ok dev (butlast dirs)"
  by (auto simp: path_ok_def list_all_iff dest: in_set_butlastD)

lemma encode_butlast_length:
  assumes "dirs \<noteq> []"
  shows "length (encode dev (butlast dirs)) \<le> length (encode dev dirs)" "take (length (encode dev (butlast dirs))) (encode dev dirs) = encode dev (butlast dirs)"
    "length (encode dev (butlast dirs)) \<le> length (butlast (encode dev dirs))"
  using assms by (cases dirs rule: rev_cases; simp add: encode_simps(2) butlast_append)+

lemma loop_spec:
  assumes "buf_holds buf (encode dev dirs)" and "length buf = maxLength" and "path_ok dev dirs" and "0 \<notin> set extra"
    and "length (encode dev dirs) + length extra + 1 < maxLength" and "pl + length extra < maxLength"
  shows "loop_outcome maxLength dev (resolve dirs (segments extra))
    (concatenate_loop maxLength buf (length (encode dev dirs)) pl extra)"
  using assms
proof (induction "length extra" arbitrary: buf dirs pl extra rule: less_induct)
  case less
  note h = less.prems(1) and len = less.prems(2) and ok = less.prems(3) and z = less.prems(4)
  let ?x = "skip_separators extra" and ?e = "length (encode dev dirs)"
  let ?rest = "drop (extra_size ?x) ?x" and ?part = "next_part ?x"
  show ?case
  proof (cases "extra_size ?x = 0")
    case True
    have "path_reached maxLength dev dirs buf ?e"
      unfolding path_reached_def using h len ok less.prems(5) by (intro conjI exI [of _ "encode dev dirs"]) auto
    then show ?thesis using loop_end [OF True] by (simp add: loop_outcome_def)
  next
    case False
    have xl: "length ?x \<le> length extra" "set ?x \<subseteq> set extra"
      by (auto simp: skip_separators_def length_dropWhile_le dest: set_dropWhileD)
    have shorter: "length ?rest < length extra" using rest_shorter [OF False] by simp
    have zr: "0 \<notin> set ?rest" using z xl(2) set_drop_subset by fastforce
    have sz: "extra_size ?x \<le> length ?x" by (auto simp: extra_size_def Let_def next_part_def length_takeWhile_le)
    have rl: "extra_size ?x + length ?rest \<le> length extra" using sz xl(1) by simp
    have dn: "dir_name ?part" by (rule dir_name_part [OF z False])
    have sg: "segments extra = ?part # segments ?rest" using False by (subst segments.simps) (simp add: Let_def)
    note loop = concatenate_loop.simps [of maxLength buf ?e pl extra, unfolded Let_def if_not_P [OF False]]
    consider (dot) "?part = [CH_DOT]" | (up) "?part = [CH_DOT, CH_DOT]" | (name) "?part \<noteq> [CH_DOT]" "?part \<noteq> [CH_DOT, CH_DOT]" by blast
    then show ?thesis
    proof cases
      case dot
      have "put_byte buf ?e 0 = Some buf" using h by (auto simp: put_byte_def buf_holds_def list_update_same_conv)
      then have "concatenate_loop maxLength buf ?e pl extra = concatenate_loop maxLength buf ?e pl ?rest"
        unfolding loop dot by simp
      moreover have "loop_outcome maxLength dev (resolve dirs (segments ?rest)) (concatenate_loop maxLength buf ?e pl ?rest)"
        by (rule less.hyps [OF shorter h len ok zr]) (use less.prems(5,6) shorter in linarith)+
      ultimately show ?thesis unfolding sg dot by simp
    next
      case up
      obtain buf' where b: "go_up buf ?e = Some (buf', if dirs = [] then None else Some (length (encode dev (butlast dirs)) - 1))"
        "length buf' = length buf" "buf_holds buf' (butlast (encode dev dirs))"
        by (rule go_up_spec [OF h ok])
      show ?thesis
      proof (cases "dirs = []")
        case True
        then have "concatenate_loop maxLength buf ?e pl extra = Some (Some ENOENT, buf', ?e)"
          unfolding loop up using b(1) by simp
        then show ?thesis unfolding sg up using True by (simp add: loop_outcome_def)
      next
        case ne: False
        let ?s = "encode dev (butlast dirs)" let ?b = "buf'[length ?s := 0]"
        note eb = encode_butlast_length [OF ne, of dev] and okb = path_ok_more(2) [OF ok]
        have s0: "0 < length ?s" using encode_simps(3) by simp
        have tk: "take (length ?s) buf' = ?s"
        proof -
          have "take (length ?s) (take (length (butlast (encode dev dirs))) buf') = take (length ?s) (butlast (encode dev dirs))"
            using b(3) by (simp only: buf_holds_def)
          then have "take (length ?s) buf' = take (length ?s) (butlast (encode dev dirs))" using eb(3) by (simp add: min_def)
          also have "\<dots> = take (length ?s) (encode dev dirs)" using eb(3) [unfolded length_butlast] s0 by (intro take_butlast) linarith
          finally show ?thesis by (simp only: eb(2))
        qed
        have lt: "length ?s < length buf'" using eb(1) less.prems(5) by (simp add: b(2) len)
        note pb = holds_put [OF tk lt path_ok_zero [OF okb]]
        have "concatenate_loop maxLength buf ?e pl extra = concatenate_loop maxLength ?b (length ?s) (length ?s - 1) ?rest"
          unfolding loop up using b(1) ne pb s0 by simp
        moreover have "loop_outcome maxLength dev (resolve (butlast dirs) (segments ?rest))
            (concatenate_loop maxLength ?b (length ?s) (length ?s - 1) ?rest)"
          by (rule less.hyps [OF shorter conjunct2 [OF pb] _ okb zr])
            (use less.prems(5,6) shorter eb(1) b(2) len s0 in simp_all)
        ultimately show ?thesis unfolding sg up using ne by simp
      qed
    next
      case name
      let ?t = "take (extra_size ?x) ?x"
      have lt: "length ?t = extra_size ?x" using sz by simp
      have zt: "0 \<notin> set ?t" using z xl(2) set_take_subset by fastforce
      have fit: "?e + length ?t < length buf" using lt rl less.prems(5) len by linarith
      obtain b1 b2 where b: "poke buf ?e ?t = Some b1" "put_byte b1 (?e + length ?t) 0 = Some b2" "length b2 = length buf"
        "buf_holds b2 (encode dev dirs @ ?t)"
        by (rule copy_part [OF h zt fit])
      have "\<not> maxLength \<le> pl + extra_size ?x" using rl less.prems(6) by linarith
      then have run: "concatenate_loop maxLength buf ?e pl extra =
          concatenate_loop maxLength b2 (?e + extra_size ?x) (pl + extra_size ?x) ?rest"
        unfolding loop using name b(1,2) lt by simp
      have res: "resolve dirs (segments extra) = resolve (dirs @ [?part]) (segments ?rest)" unfolding sg using name by simp
      note okn = path_ok_more(1) [OF ok dn]
      show ?thesis
      proof (cases "length ?part < length ?x")
        case True
        then have t: "encode dev dirs @ ?t = encode dev (dirs @ [?part])" using take_extra [of ?x] by (simp add: encode_simps(2))
        have len': "length (encode dev (dirs @ [?part])) = ?e + extra_size ?x" using arg_cong [OF t, of length] lt by simp
        have "loop_outcome maxLength dev (resolve (dirs @ [?part]) (segments ?rest))
            (concatenate_loop maxLength b2 (length (encode dev (dirs @ [?part]))) (pl + extra_size ?x) ?rest)"
          by (rule less.hyps [OF shorter b(4) [unfolded t] _ okn zr]) (use less.prems(5,6) rl b(3) len len' in linarith)+
        then show ?thesis unfolding run res len' .
      next
        case whole: False
        then have t: "?t = ?part" and all: "?rest = []" using take_extra [of ?x] by (simp_all add: extra_size_def Let_def)
        have e0: "extra_size (skip_separators []) = 0" by (simp add: skip_separators_def extra_size_def next_part_def)
        have "path_reached maxLength dev (dirs @ [?part]) b2 (?e + extra_size ?x)"
          unfolding path_reached_def
        proof (intro conjI exI [of _ "encode dev dirs @ ?part"])
          show "length b2 = maxLength" using b(3) len by simp
          show "?e + extra_size ?x + 1 < maxLength" using rl less.prems(5) by linarith
          show "encode dev dirs @ ?part = encode dev (dirs @ [?part]) \<or>
              encode dev dirs @ ?part = butlast (encode dev (dirs @ [?part])) \<and> dirs @ [?part] \<noteq> []"
            by (simp add: encode_simps(2) butlast_append)
        qed (use okn b(4) t lt in simp_all)
        then show ?thesis unfolding run res all loop_end(1) [OF e0] loop_end(2) [OF e0] by (simp add: loop_outcome_def)
      qed
    qed
  qed
qed

section \<open>Adding a path\<close>

text \<open>The directory a path starts from: the root for an absolute path, else the directory in the buffer.\<close>

definition starts_at :: "u8 list \<Rightarrow> u8 list \<Rightarrow> u8 list list \<Rightarrow> u8 list \<Rightarrow> bool" where
  "starts_at s dev dirs extra \<longleftrightarrow> path_ok dev dirs \<and>
     (if extra \<noteq> [] \<and> hd extra = DIR_SEPARATOR then dirs = [] \<and> (\<exists>w. s = dev @ DIR_SEPARATOR # w) else s = encode dev dirs)"

definition path_outcome :: "nat \<Rightarrow> u8 list \<Rightarrow> u8 list list option \<Rightarrow> (errno option \<times> u8 list) option \<Rightarrow> bool" where
  "path_outcome maxLength dev target r \<longleftrightarrow> (case target of
     None \<Rightarrow> \<exists>buf. r = Some (Some ENOENT, buf)
   | Some ds \<Rightarrow> path_ok dev ds \<and> (\<exists>buf. r = Some (None, buf) \<and> buf_holds buf (encode dev ds) \<and> length buf = maxLength))"

lemma finish_path:
  assumes "path_reached maxLength dev ds buf e"
  shows "path_outcome maxLength dev (Some ds)
    (do { c \<leftarrow> byte_before buf e;
       if c \<noteq> DIR_SEPARATOR
       then do {
         path \<leftarrow> put_byte buf e DIR_SEPARATOR;
         path \<leftarrow> put_byte path (e + 1) 0;
         Some (None, path)
       } else Some (None, buf) })"
proof -
  obtain s where h: "buf_holds buf s" "e = length s" and s: "s = encode dev ds \<or> s = butlast (encode dev ds) \<and> ds \<noteq> []"
    and len: "length buf = maxLength" "e + 1 < maxLength" and ok: "path_ok dev ds"
    using assms by (auto simp: path_reached_def)
  from s show ?thesis
  proof
    assume s: "s = encode dev ds"
    have "byte_before buf e = Some DIR_SEPARATOR"
      using holds_before [OF h(1)] encode_simps(3,4) [of dev ds] by (simp add: s h(2))
    then show ?thesis using h(1) len ok by (simp add: path_outcome_def s)
  next
    assume s: "s = butlast (encode dev ds) \<and> ds \<noteq> []"
    then obtain ds' d where ds: "ds = ds' @ [d]" by (metis append_butlast_last_id)
    have sd: "s = encode dev ds' @ d" using s by (simp add: ds encode_simps(2) butlast_append)
    have d: "dir_name d" using ok by (simp add: ds path_ok_def)
    then have "last s = last d" "s \<noteq> []" by (simp_all add: sd dir_name_def)
    then have bb: "byte_before buf e = Some (last d)" using holds_before [OF h(1)] h(2) by simp
    have nsep: "last d \<noteq> DIR_SEPARATOR" using d by (metis dir_name_def last_in_set)
    have full: "encode dev ds = s @ [DIR_SEPARATOR]" by (simp add: sd ds encode_simps(2))
    let ?b = "buf[e := DIR_SEPARATOR]"
    have "take (length (s @ [DIR_SEPARATOR])) ?b = s @ [DIR_SEPARATOR]"
      using h len by (simp add: buf_holds_def take_Suc_conv_app_nth)
    then have "put_byte ?b (length (s @ [DIR_SEPARATOR])) 0 = Some (?b[length (s @ [DIR_SEPARATOR]) := 0]) \<and>
        buf_holds (?b[length (s @ [DIR_SEPARATOR]) := 0]) (s @ [DIR_SEPARATOR])"
      using len h by (intro holds_put) (auto simp: buf_holds_def)
    then show ?thesis using bb nsep len h(2) ok by (simp add: path_outcome_def full) (simp add: put_byte_def)
  qed
qed

lemma concatenate_spec:
  assumes h: "buf_holds buf s" and len: "length buf = maxLength" and z: "0 \<notin> set extra" and st: "starts_at s dev dirs extra"
    and fit: "length s + length extra + 2 < maxLength"
  shows "path_outcome maxLength dev (resolve dirs (segments extra)) (concatenate_path buf extra maxLength)"
proof -
  have ok: "path_ok dev dirs" using st by (simp add: starts_at_def)
  have sl: "length (takeWhile (\<lambda>c. c \<noteq> 0) (take maxLength buf)) = length s"
  proof -
    have "cstr buf = s" using holds_string [OF h] by (auto simp: buf_string_def split: if_splits)
    then show ?thesis using len by (simp add: cstr_def)
  qed
  let ?abs = "extra \<noteq> [] \<and> hd extra = DIR_SEPARATOR"
  have ne: "s \<noteq> []" using st encode_simps(3) by (auto simp: starts_at_def split: if_splits)
  define s1 where "s1 = (if last s = DIR_SEPARATOR then s else s @ [DIR_SEPARATOR])"
  define b1 where "b1 = (if last s = DIR_SEPARATOR then buf else buf[length s := DIR_SEPARATOR])"
  have b1: "length b1 = maxLength" "take (length s1) b1 = s1" "length s1 \<le> Suc (length s)"
    using h len fit by (auto simp: b1_def s1_def buf_holds_def take_Suc_conv_app_nth)
  have start: "concatenate_path buf extra maxLength = do {
      (path, pathEnd) \<leftarrow> (if ?abs
        then do {
          let pathEnd = length (takeWhile (\<lambda>c. c \<noteq> DIR_SEPARATOR) b1) + 1;
          path \<leftarrow> put_byte b1 pathEnd 0;
          Some (path, pathEnd)
        } else Some (b1, length s1));
      (err, path, pathEnd) \<leftarrow> concatenate_loop maxLength path pathEnd (length s) extra;
      if err \<noteq> None then Some (err, path)
      else do {
        c \<leftarrow> byte_before path pathEnd;
        if c \<noteq> DIR_SEPARATOR
        then do {
          path \<leftarrow> put_byte path pathEnd DIR_SEPARATOR;
          path \<leftarrow> put_byte path (pathEnd + 1) 0;
          Some (None, path)
        } else Some (None, path)
      }
    }"
  proof -
    have nl: "\<not> maxLength \<le> length s" using fit by simp
    have put: "put_byte buf (length s) DIR_SEPARATOR = Some (buf[length s := DIR_SEPARATOR])"
      using fit len by (simp add: put_byte_def)
    have first: "(if last s \<noteq> DIR_SEPARATOR
        then do { path \<leftarrow> put_byte buf (length s) DIR_SEPARATOR; Some (path, length s + 1) }
        else Some (buf, length s)) = Some (b1, length s1)"
      using put by (simp add: b1_def s1_def)
    show ?thesis
      unfolding concatenate_path_def sl Let_def if_not_P [OF nl] holds_before [OF h ne] bind.bind_lunit first by simp
  qed
  obtain b2 where b2: "(if ?abs
        then do {
          let pathEnd = length (takeWhile (\<lambda>c. c \<noteq> DIR_SEPARATOR) b1) + 1;
          path \<leftarrow> put_byte b1 pathEnd 0;
          Some (path, pathEnd)
        } else Some (b1, length s1)) = Some (b2, length (encode dev dirs))"
    and hb: "buf_holds b2 (encode dev dirs)" "length b2 = maxLength" "length (encode dev dirs) \<le> length s1"
  proof (cases ?abs)
    case True
    obtain w where d: "dirs = []" "s = dev @ DIR_SEPARATOR # w" using st True by (auto simp: starts_at_def)
    have dv: "DIR_SEPARATOR \<notin> set dev" "0 \<notin> set dev" using ok by (simp_all add: path_ok_def)
    obtain w' where s1: "s1 = dev @ DIR_SEPARATOR # w'"
      using d(2) that by (cases "last s = DIR_SEPARATOR") (simp_all add: s1_def)
    have bw: "b1 = dev @ DIR_SEPARATOR # w' @ drop (length s1) b1" using b1(2) s1 by (metis append_Cons append_assoc append_take_drop_id)
    have "takeWhile (\<lambda>c. c \<noteq> DIR_SEPARATOR) b1 = dev" by (subst bw) (use dv in \<open>auto simp: takeWhile_append\<close>)
    moreover have "take (length (encode dev dirs)) b1 = encode dev dirs" by (subst bw) (simp add: d encode_simps(1))
    moreover have "length (encode dev dirs) < length b1" using b1(1) fit d by (simp add: encode_simps(1))
    ultimately show thesis
      using that [of "b1[length (encode dev dirs) := 0]"] holds_put [of "encode dev dirs" b1] path_ok_zero [OF ok] True b1(1) s1
      by (simp add: d encode_simps(1))
  next
    case False
    then have s: "s = encode dev dirs" using st by (auto simp: starts_at_def)
    then have "s1 = s" "b1 = buf" using encode_simps(4) by (simp_all add: s1_def b1_def)
    then show thesis using that [of buf] False h len s by auto
  qed
  have "loop_outcome maxLength dev (resolve dirs (segments extra)) (concatenate_loop maxLength b2 (length (encode dev dirs)) (length s) extra)"
    by (rule loop_spec [OF hb(1,2) ok z]) (use hb(3) b1(3) fit in linarith)+
  then show ?thesis
    unfolding start b2
    by (auto simp: loop_outcome_def split: option.splits dest: finish_path) (simp add: path_outcome_def)
qed

section \<open>Changing the directory\<close>

text \<open>A device name with its colon.\<close>

definition device_prefix :: "u8 list \<Rightarrow> bool" where
  "device_prefix dev \<longleftrightarrow> (\<exists>n. dev = n @ [CH_COLON] \<and> CH_COLON \<notin> set n \<and> DIR_SEPARATOR \<notin> set n \<and> 0 \<notin> set n)"

definition cwd_at :: "nat \<Rightarrow> u8 list \<Rightarrow> u8 list list \<Rightarrow> 'd process \<Rightarrow> bool" where
  "cwd_at PATHMAX dev dirs s \<longleftrightarrow> buf_holds (pr_cwd s) (encode dev dirs) \<and> length (pr_cwd s) = PATHMAX \<and>
     device_prefix dev \<and> list_all dir_name dirs"

text \<open>Where a path leads from a directory: the device, the directory to start from, and the components.\<close>

definition chdir_target :: "u8 list \<Rightarrow> u8 list list \<Rightarrow> u8 list \<Rightarrow> (u8 list \<times> u8 list list \<times> u8 list) option" where
  "chdir_target dev dirs path =
    (if CH_COLON \<in> set path
     then let new = takeWhile (\<lambda>c. c \<noteq> CH_COLON) path @ [CH_COLON]; rest = drop (length new) path
          in if rest = [] \<or> hd rest \<noteq> DIR_SEPARATOR then None else Some (new, [], rest)
     else if path \<noteq> [] \<and> hd path = DIR_SEPARATOR then Some (dev, [], path) else Some (dev, dirs, path))"

lemma strncpy_holds: "length s < n \<Longrightarrow> 0 \<notin> set s \<Longrightarrow> buf_holds (strncpy_to n s) s \<and> length (strncpy_to n s) = n"
  by (simp add: buf_holds_def strncpy_to_def nth_append)

lemma device_prefix_split:
  assumes "device_prefix dev"
  shows "CH_COLON \<in> set (dev @ r)" "tl (dropWhile (\<lambda>c. c \<noteq> CH_COLON) (dev @ r)) = r" "path_ok dev []"
proof -
  obtain n where n: "dev = n @ [CH_COLON]" "CH_COLON \<notin> set n" "DIR_SEPARATOR \<notin> set n" "0 \<notin> set n"
    using assms by (auto simp: device_prefix_def)
  have "dropWhile (\<lambda>c. c \<noteq> CH_COLON) (n @ CH_COLON # r) = CH_COLON # r" using n(2) by (auto simp: dropWhile_append)
  then show "CH_COLON \<in> set (dev @ r)" "tl (dropWhile (\<lambda>c. c \<noteq> CH_COLON) (dev @ r)) = r" "path_ok dev []"
    using n by (simp_all add: path_ok_def)
qed

lemma chdir_run:
  assumes temp: "strncpy_to PATHMAX (if CH_COLON \<in> set path then path else takeWhile (\<lambda>c. c \<noteq> 0) (pr_cwd s)) = temp"
    and extra: "(if CH_COLON \<in> set path then tl (dropWhile (\<lambda>c. c \<noteq> CH_COLON) path) else path) = extra"
    and len: "length path < PATHMAX" and h: "buf_holds temp str" "length temp = PATHMAX" and z: "0 \<notin> set extra"
    and dev: "device_prefix dev" and str: "str = dev @ DIR_SEPARATOR # w" and st: "starts_at str dev dirs extra"
    and fit: "length str + length extra + 2 < PATHMAX"
  shows "case resolve dirs (segments extra) of
      None \<Rightarrow> chdir env other PATHMAX path s = Some (Some ENOENT, s)
    | Some ds \<Rightarrow> cwd_at PATHMAX dev ds (s\<lparr>pr_cwd := strncpy_to PATHMAX (encode dev ds)\<rparr>) \<and>
        chdir env other PATHMAX path s =
        (let new = encode dev ds; d = FindDevice new (pr_devices s)
         in do {
           (err, t) \<leftarrow> device_chdir env other d new (pr_devices s);
           Some (err, if err = None then s\<lparr>pr_cwd := strncpy_to PATHMAX new, pr_devices := setDefaultDevice d t\<rparr>
             else s\<lparr>pr_devices := t\<rparr>)
         })"
proof -
  have nl: "\<not> PATHMAX \<le> length path" using len by simp
  have start: "buf_string temp = Some str" by (rule holds_string [OF h(1)])
  have rest: "(if CH_COLON \<in> set str then Some (tl (dropWhile (\<lambda>c. c \<noteq> CH_COLON) str)) else None) = Some (DIR_SEPARATOR # w)"
    using device_prefix_split(1,2) [OF dev, of "DIR_SEPARATOR # w"] by (simp add: str)
  note cs = concatenate_spec [OF h z st fit]
  show ?thesis
  proof (cases "resolve dirs (segments extra)")
    case None
    then show ?thesis using cs unfolding chdir_def if_not_P [OF nl] Let_def temp extra start bind.bind_lunit rest
      by (auto simp: path_outcome_def)
  next
    case (Some ds)
    then obtain buf where b: "concatenate_path temp extra PATHMAX = Some (None, buf)" "buf_holds buf (encode dev ds)"
      and ok: "path_ok dev ds" and fits: "length (encode dev ds) < PATHMAX"
      using cs by (auto simp: path_outcome_def buf_holds_def)
    have "cwd_at PATHMAX dev ds (s\<lparr>pr_cwd := strncpy_to PATHMAX (encode dev ds)\<rparr>)"
      using strncpy_holds [OF fits path_ok_zero [OF ok]] ok dev by (simp add: cwd_at_def path_ok_def)
    then show ?thesis unfolding Some chdir_def if_not_P [OF nl] Let_def temp extra start bind.bind_lunit rest
      using b(1) holds_string [OF b(2)] by (simp cong: if_cong) (auto intro!: Option.bind_cong split: prod.splits)
  qed
qed

lemma chdir_spec:
  assumes cwd: "cwd_at PATHMAX dev0 dirs0 s" and z: "0 \<notin> set path"
    and fit: "length path + length (encode dev0 dirs0) + 2 < PATHMAX" "CH_COLON \<in> set path \<longrightarrow> 2 * length path + 2 < PATHMAX"
    and target: "chdir_target dev0 dirs0 path = Some (dev, dirs, extra)" and sep: "DIR_SEPARATOR \<notin> set dev"
  shows "case resolve dirs (segments extra) of
      None \<Rightarrow> chdir env other PATHMAX path s = Some (Some ENOENT, s)
    | Some ds \<Rightarrow> cwd_at PATHMAX dev ds (s\<lparr>pr_cwd := strncpy_to PATHMAX (encode dev ds)\<rparr>) \<and>
        chdir env other PATHMAX path s =
        (let new = encode dev ds; d = FindDevice new (pr_devices s)
         in do {
           (err, t) \<leftarrow> device_chdir env other d new (pr_devices s);
           Some (err, if err = None then s\<lparr>pr_cwd := strncpy_to PATHMAX new, pr_devices := setDefaultDevice d t\<rparr>
             else s\<lparr>pr_devices := t\<rparr>)
         })"
proof (cases "CH_COLON \<in> set path")
  case True
  let ?n = "takeWhile (\<lambda>c. c \<noteq> CH_COLON) path"
  have ex: "extra = drop (length (?n @ [CH_COLON])) path" "extra \<noteq> []" "hd extra = DIR_SEPARATOR" "dev = ?n @ [CH_COLON]" "dirs = []"
    using target True by (auto simp: chdir_target_def Let_def split: if_splits)
  have dw: "dropWhile (\<lambda>c. c \<noteq> CH_COLON) path = CH_COLON # extra"
  proof -
    have "dropWhile (\<lambda>c. c \<noteq> CH_COLON) path \<noteq> []" using True by (auto simp: dropWhile_eq_Nil_conv)
    then have "hd (dropWhile (\<lambda>c. c \<noteq> CH_COLON) path) = CH_COLON" by (metis (mono_tags, lifting) hd_dropWhile)
    moreover have "tl (dropWhile (\<lambda>c. c \<noteq> CH_COLON) path) = extra"
      by (simp add: ex(1) dropWhile_eq_drop drop_Suc [symmetric] tl_drop)
    ultimately show ?thesis using \<open>dropWhile (\<lambda>c. c \<noteq> CH_COLON) path \<noteq> []\<close> by (metis list.collapse)
  qed
  have path: "path = ?n @ CH_COLON # extra" using takeWhile_dropWhile_id [of "\<lambda>c. c \<noteq> CH_COLON" path] dw by metis
  have nc: "CH_COLON \<notin> set ?n" by (auto dest: set_takeWhileD)
  have zs: "0 \<notin> set ?n" "0 \<notin> set extra" using z path by (metis Un_iff set_append, metis Un_iff list.set_intros(2) set_append)
  have dp: "device_prefix dev" unfolding device_prefix_def ex(4) using nc zs(1) sep ex(4) by (intro exI [of _ ?n]) auto
  have ps: "path = dev @ DIR_SEPARATOR # tl extra" using path ex(2,3,4) by (metis append.assoc append_Cons append_Nil list.collapse)
  have lt: "length path < PATHMAX" using fit(1) by simp
  have st: "starts_at path dev dirs extra" unfolding starts_at_def using ex(2,3,5) device_prefix_split(3) [OF dp] ps by auto
  have fe: "length path + length extra + 2 < PATHMAX" using fit(2) True arg_cong [OF path, of length] by simp
  show ?thesis
    by (rule chdir_run [where temp = "strncpy_to PATHMAX path", OF _ _ lt _ _ zs(2) dp ps st fe]) (use True dw strncpy_holds [OF lt z] in simp_all)
next
  case False
  have h: "buf_holds (pr_cwd s) (encode dev0 dirs0)" "length (pr_cwd s) = PATHMAX" and dp: "device_prefix dev0" and dn: "list_all dir_name dirs0"
    using cwd by (simp_all add: cwd_at_def)
  have ex: "dev = dev0" "extra = path" "dirs = (if path \<noteq> [] \<and> hd path = DIR_SEPARATOR then [] else dirs0)"
    using target False by (auto simp: chdir_target_def split: if_splits)
  have tw: "takeWhile (\<lambda>c. c \<noteq> 0) (pr_cwd s) = encode dev0 dirs0"
    using holds_string [OF h(1)] by (simp add: buf_string_def cstr_def split: if_splits)
  have lt: "length path < PATHMAX" "length (encode dev0 dirs0) < PATHMAX" using fit(1) by simp_all
  have ok: "path_ok dev0 dirs0" using device_prefix_split(3) [OF dp] dn by (simp add: path_ok_def)
  note sh = strncpy_holds [OF lt(2) path_ok_zero [OF ok]]
  have es: "encode dev0 dirs0 = dev @ DIR_SEPARATOR # concat (map (\<lambda>d. d @ [DIR_SEPARATOR]) dirs0)" by (simp add: encode_def ex(1))
  have st: "starts_at (encode dev0 dirs0) dev dirs extra"
    using ok ex es by (auto simp: starts_at_def path_ok_def)
  have fe: "length (encode dev0 dirs0) + length extra + 2 < PATHMAX" using fit(1) ex(2) by simp
  have ze: "0 \<notin> set extra" using z ex(2) by simp
  have dp': "device_prefix dev" using dp ex(1) by simp
  show ?thesis
    by (rule chdir_run [where temp = "strncpy_to PATHMAX (encode dev0 dirs0)", OF _ _ lt(1) _ _ ze dp' es st fe]) (use False tw sh ex(2) in simp_all)
qed

text \<open>A path that fills the buffer up to its last byte leaves no room for the separator that is added behind it.\<close>

lemma separator_overflows:
  "concatenate_path (strncpy_to 16 [0x66, CH_COLON, DIR_SEPARATOR]) (replicate 12 0x61) 16 = None"
  by code_simp

text \<open>The buffer starts as a single separator, without a device name: until a path with a device name has been
  entered, every change of directory reads behind a null pointer.\<close>

lemma first_chdir_undefined:
  assumes "pr_cwd s = initial_cwd PATHMAX" and "1 < PATHMAX" and "length path < PATHMAX" and "CH_COLON \<notin> set path"
  shows "chdir env other PATHMAX path s = None"
proof -
  have "buf_holds (initial_cwd PATHMAX) [DIR_SEPARATOR]"
    unfolding initial_cwd_def using strncpy_holds [of "[DIR_SEPARATOR]" PATHMAX] assms(2) by simp
  then have "takeWhile (\<lambda>c. c \<noteq> 0) (pr_cwd s) = [DIR_SEPARATOR]"
    using holds_string [of "initial_cwd PATHMAX" "[DIR_SEPARATOR]"] assms(1) by (simp add: buf_string_def cstr_def split: if_splits)
  moreover have "buf_string (strncpy_to PATHMAX [DIR_SEPARATOR]) = Some [DIR_SEPARATOR]"
    using strncpy_holds [of "[DIR_SEPARATOR]" PATHMAX] assms(2) by (intro holds_string) simp
  ultimately show ?thesis using assms(3,4) by (simp add: chdir_def)
qed

end
