(* ===== verification/WorkTheorems.thy ===== *)
theory WorkTheorems
  imports WorkDirSpec DirDisc
begin

text \<open>
  The property of the working directory, applied to a process with the volume of \<open>DirDisc\<close> mounted.
\<close>

definition fat_prefix :: "u8 list" where
  "fat_prefix = [0x66, 0x61, 0x74, CH_COLON]"

definition mounted_dirs :: "ram fs device_table" where
  "mounted_dirs = \<lparr>dt_list = (replicate STD_MAX Stdnull)[3 := Device [0x66, 0x61, 0x74] True \<lparr>fs_part = dir_part, fs_files = Map.empty\<rparr>],
     dt_default = 3\<rparr>"

definition in_games :: "ram process" where
  "in_games = \<lparr>pr_cwd = strncpy_to 32 (encode fat_prefix [[0x67]]), pr_devices = mounted_dirs\<rparr>"

lemma up_succeeds:
  "FindDevice (encode fat_prefix []) mounted_dirs = 3"
  "map_option fst (device_chdir c_locale None 3 (encode fat_prefix []) mounted_dirs) = Some None"
  by code_simp+

text \<open>C28: functional. A change of directory resolves the path: the components one after the other, from the root of the named
  device, from the root of the current one or from the current directory, where a single dot stays and two dots
  go up. It fails with \<open>ENOENT\<close> when the path leads above the root; otherwise the device is asked for the
  resolved directory, and if it agrees the resolved path and the device become the current ones. The current
  directory has a device (the one the process starts with has none); a device name in the path has a separator behind it
  (without one the call returns \<open>ENOENT\<close>); and the lengths are bounded: the path and the current directory
  together, and twice the path where it names a device, stay two characters below \<open>PATH_MAX\<close>. The length check of the code
  counts parts of the path twice, so longer paths fail with \<open>ENAMETOOLONG\<close>
  although the resolved one would fit (\<open>length_of_root_counts\<close>).\<close>

theorem chdir_resolves_path:
  assumes "cwd_at PATHMAX dev0 dirs0 s" and "0 \<notin> set path"
    and "length path + length (encode dev0 dirs0) + 2 < PATHMAX" and "CH_COLON \<in> set path \<longrightarrow> 2 * length path + 2 < PATHMAX"
    and "chdir_target dev0 dirs0 path = Some (dev, dirs, extra)" and "DIR_SEPARATOR \<notin> set dev"
  shows "case resolve dirs (segments extra) of
      None \<Rightarrow> chdir env other PATHMAX path s = Some (Some ENOENT, s)
    | Some ds \<Rightarrow> cwd_at PATHMAX dev ds (s\<lparr>pr_cwd := strncpy_to PATHMAX (encode dev ds)\<rparr>) \<and>
        chdir env other PATHMAX path s =
        (let new = encode dev ds; d = FindDevice new (pr_devices s)
         in do {
           (err, t) \<leftarrow> device_chdir env other d new (pr_devices s);
           Some (err, if err = None then s\<lparr>pr_cwd := strncpy_to PATHMAX new, pr_devices := setDefaultDevice d t\<rparr>
             else s\<lparr>pr_devices := t\<rparr>)
         })"
  using assms by (rule chdir_spec)

lemma in_games_facts:
  "cwd_at 32 fat_prefix [[0x67]] in_games" "chdir_target fat_prefix [[0x67]] [CH_DOT, CH_DOT] = Some (fat_prefix, [[0x67]], [CH_DOT, CH_DOT])"
  "resolve [[0x67]] (segments [CH_DOT, CH_DOT]) = Some []"
proof -
  have "device_prefix fat_prefix"
    unfolding device_prefix_def by (intro exI [of _ "[0x66, 0x61, 0x74]"]) (simp add: fat_prefix_def)
  moreover have "buf_holds (pr_cwd in_games) (encode fat_prefix [[0x67]])" "length (pr_cwd in_games) = 32" "dir_name [0x67]"
    by code_simp+
  ultimately show "cwd_at 32 fat_prefix [[0x67]] in_games" by (simp add: cwd_at_def)
qed code_simp+

text \<open>The length that \<open>_concatenate_path\<close> counts starts from the whole buffer and is not reset when the path starts at
  the root, so what is replaced counts as well: with a buffer of 32 bytes neither \<open>/\<close> and 25 letters behind
  \<open>fat:/g/\<close>, nor \<open>fat:/\<close> and 16 letters, is accepted, although both results would fit. A device name without a
  separator behind it is no path at all.\<close>

lemma length_of_root_counts:
  "map_option fst (chdir c_locale None 32 (DIR_SEPARATOR # replicate 25 0x61) in_games) = Some (Some ENAMETOOLONG)"
  "map_option fst (chdir c_locale None 32 (fat_prefix @ DIR_SEPARATOR # replicate 16 0x61) in_games) = Some (Some ENAMETOOLONG)"
  "map_option fst (chdir c_locale None 32 (fat_prefix @ [0x67]) in_games) = Some (Some ENOENT)"
  by code_simp+

theorem chdir_resolves_path_witness:
  "\<exists>s'. chdir c_locale None 32 [CH_DOT, CH_DOT] in_games = Some (None, s') \<and> cstr (pr_cwd s') = encode fat_prefix []"
proof -
  obtain t where t: "device_chdir c_locale None 3 (encode fat_prefix []) mounted_dirs = Some (None, t)"
    using up_succeeds(2) by auto
  have dv: "pr_devices in_games = mounted_dirs" by (simp add: in_games_def)
  have str: "cstr (strncpy_to 32 (encode fat_prefix [])) = encode fat_prefix []" by code_simp
  have pre: "0 \<notin> set [CH_DOT, CH_DOT]" "length [CH_DOT, CH_DOT] + length (encode fat_prefix [[0x67]]) + 2 < 32"
    "CH_COLON \<in> set [CH_DOT, CH_DOT] \<longrightarrow> 2 * length [CH_DOT, CH_DOT] + 2 < 32" "DIR_SEPARATOR \<notin> set fat_prefix"
    by (simp_all add: encode_def fat_prefix_def)
  from chdir_resolves_path [OF in_games_facts(1) pre(1-3) in_games_facts(2) pre(4), of c_locale None] show ?thesis
    unfolding in_games_facts(3) by (simp add: Let_def dv up_succeeds(1) t str)
qed

end
