(* ===== verification/WcText.thy ===== *)
theory WcText
  imports Prelude
begin

text \<open>
  The text helpers of \<open>wcfat.c\<close>, the compact front end that reads FAT32 volumes without the
  library: its own \<open>strncmp\<close>, \<open>memcpy\<close> and \<open>memset\<close>, the comparison of names, the conversions
  between UTF-8 and wide characters, short names and their checksum. The front end is built with
  wide characters of 16 bits, unsigned plain \<open>char\<close>s and a \<open>long\<close> of 32 bits. A string is the rest
  of its memory block from the pointer on, with its terminator: running off the block is undefined.
  A null pointer argument, where the code tests for it, is \<open>None\<close>.
\<close>

type_synonym wchar = u16

definition FAT_ERR_NOFAT :: int where "FAT_ERR_NOFAT = -1"
definition FAT_ERR_BROKEN :: int where "FAT_ERR_BROKEN = -2"
definition FAT_ERR_PARAM :: int where "FAT_ERR_PARAM = -4"

section \<open>Memory and strings\<close>

text \<open>The test of the count comes after the decrement, so a count of zero counts down from \<open>2 ^ 32\<close>.\<close>

fun wc_strncmp :: "u8 list \<Rightarrow> u8 list \<Rightarrow> u32 \<Rightarrow> int option" where
  "wc_strncmp (a # s) (b # t) n =
    (if a \<noteq> b then Some (uint a - uint b)
     else if a = 0 then Some 0
     else if n - 1 = 0 then Some 0 else wc_strncmp s t (n - 1))"
| "wc_strncmp _ _ _ = None"

definition wc_toupper :: "wchar \<Rightarrow> u32" where
  "wc_toupper c = (if c < 0x61 \<or> c > 0x7A then ucast c else ucast c - (0x61 - 0x41))"

fun wc_memcpy :: "u8 list \<Rightarrow> u8 list \<Rightarrow> nat \<Rightarrow> u8 list option" where
  "wc_memcpy dst src 0 = Some dst"
| "wc_memcpy (d # dst) (s # src) (Suc n) = map_option ((#) s) (wc_memcpy dst src n)"
| "wc_memcpy _ _ (Suc n) = None"

fun wc_memset :: "u8 list \<Rightarrow> u8 \<Rightarrow> u32 \<Rightarrow> u8 list option" where
  "wc_memset (d # dst) v n =
    (if n - 1 = 0 then Some (v # dst) else map_option ((#) v) (wc_memset dst v (n - 1)))"
| "wc_memset [] v n = None"

fun wc_wstrcasecmp :: "wchar list \<Rightarrow> wchar list \<Rightarrow> int option" where
  "wc_wstrcasecmp (a # s) (b # t) =
    (if a \<noteq> 0 \<and> b \<noteq> 0 \<and> wc_toupper a = wc_toupper b then wc_wstrcasecmp s t
     else Some (sint (wc_toupper a - wc_toupper b)))"
| "wc_wstrcasecmp _ _ = None"

section \<open>UTF-8\<close>

text \<open>The loop of \<open>utf16to8\<close>: the bytes stored so far are \<open>out\<close>.\<close>

fun utf16to8_loop :: "wchar list \<Rightarrow> u32 \<Rightarrow> u8 list \<Rightarrow> u8 list option" where
  "utf16to8_loop [] remaining out = None"
| "utf16to8_loop (wc # src) remaining out =
    (if wc = 0 \<or> remaining = 0 then Some out
     else if wc < 0x80 then
       if remaining < 1 then Some out
       else utf16to8_loop src (remaining - 1) (out @ [ucast wc])
     else if wc < 0x800 then
       if remaining < 2 then Some out
       else utf16to8_loop src (remaining - 2)
         (out @ [ucast (drop_bit 6 wc OR 0xC0), ucast ((wc AND 0x3F) OR 0x80)])
     else
       if remaining < 3 then Some out
       else utf16to8_loop src (remaining - 3)
         (out @ [ucast (drop_bit 12 wc OR 0xE0), ucast ((drop_bit 6 wc AND 0x3F) OR 0x80), ucast ((wc AND 0x3F) OR 0x80)]))"

fun utf16to8 :: "u8 list option \<Rightarrow> wchar list option \<Rightarrow> u32 \<Rightarrow> (u8 list option \<times> nat) option" where
  "utf16to8 (Some dst) (Some src) dst_size =
    (if dst_size = 0 then Some (Some dst, 0)
     else do {
       out \<leftarrow> utf16to8_loop src (dst_size - 1) [];
       dst \<leftarrow> poke dst 0 (out @ [0]);
       Some (Some dst, length out)
     })"
| "utf16to8 dst _ _ = Some (dst, 0)"

text \<open>The bytes behind a lead byte: one for each bit set behind its top bit. The lead is a byte, so a
  shift drops its top bit.\<close>

fun utf8_tail :: "u8 \<Rightarrow> u32 \<Rightarrow> nat \<Rightarrow> u8 list \<Rightarrow> (u8 \<times> u32 \<times> nat \<times> u8 list) option" where
  "utf8_tail lead val sh Z =
    (if lead AND 0x80 = 0 then Some (lead, val, sh, Z)
     else case Z of
       [] \<Rightarrow> None
     | z # Z \<Rightarrow> utf8_tail (push_bit 1 lead) (push_bit 6 val OR ucast (z XOR 0x80)) (sh + 5) Z)"

declare utf8_tail.simps [simp del]

lemma utf8_tail_shorter: "utf8_tail lead val sh Z = Some (l, v, s, Z') \<Longrightarrow> length Z' \<le> length Z"
proof (induction lead val sh Z rule: utf8_tail.induct)
  case (1 lead val sh Z)
  then show ?case
    by (cases Z) (fastforce simp: utf8_tail.simps [of lead val sh] split: if_splits)+
qed

text \<open>One character: the value and the rest of the text. A byte that only continues a character gives a
  shift by minus one, and one with seven continuations a shift beyond the word: both are undefined.\<close>

definition utf8_char :: "u8 \<Rightarrow> u8 list \<Rightarrow> (wchar \<times> u8 list) option" where
  "utf8_char z Z =
    (if z < 0x80 then Some (ucast z, Z)
     else do {
       (lead, val, sh, Z) \<leftarrow> utf8_tail (push_bit 1 (z XOR 0x80)) 0 0 Z;
       if sh = 0 \<or> sh - 1 \<ge> 32 then None
       else Some (ucast (val OR push_bit (sh - 1) (ucast lead)), Z)
     })"

lemma utf8_char_shorter: "utf8_char z Z = Some (w, Z') \<Longrightarrow> length Z' \<le> length Z"
  using utf8_tail_shorter by (fastforce simp: utf8_char_def split: if_splits Option.bind_splits)

function utf8to16_loop :: "u8 list \<Rightarrow> u8 \<Rightarrow> wchar list \<Rightarrow> (wchar list \<times> u8 list) option" where
  "utf8to16_loop [] separator out = None"
| "utf8to16_loop (z # Z) separator out =
    (if z = separator then Some (out, z # Z)
     else case utf8_char z Z of
       None \<Rightarrow> None
     | Some (w, Z) \<Rightarrow> utf8to16_loop Z separator (out @ [w]))"
  by pat_completeness auto
termination
  by (relation "measure (\<lambda>(Z, _, _). length Z)") (auto dest: utf8_char_shorter)

text \<open>The block \<open>psplit\<close> gets the text and a terminator; the result is the number of bytes read, the
  separator included unless it ends the string.\<close>

definition utf8to16 :: "u8 list \<Rightarrow> wchar list \<Rightarrow> u8 \<Rightarrow> (wchar list \<times> nat) option" where
  "utf8to16 pdir psplit separator = do {
     (out, Z) \<leftarrow> utf8to16_loop pdir separator [];
     psplit \<leftarrow> poke psplit 0 (out @ [0]);
     let Z = (if hd Z \<noteq> 0 then tl Z else Z);
     Some (psplit, length pdir - length Z)
   }"

section \<open>Short names\<close>

text \<open>The characters of a wide string in the eleven bytes of a short name. A character above \<open>0xFF\<close> goes to
  \<open>wchar2dbcs\<close>, which is empty, and is dropped.\<close>

fun wstrtosfn_loop :: "wchar list \<Rightarrow> nat \<Rightarrow> u8 list \<Rightarrow> (int \<times> u8 list) option" where
  "wstrtosfn_loop [] name_idx name = None"
| "wstrtosfn_loop (c # str) name_idx name =
    (if c \<noteq> 0 \<and> name_idx < 10 then
       if c = 0x2E then
         if name_idx < 8 then wstrtosfn_loop str 8 name else Some (0, name)
       else if c < 0x100 then wstrtosfn_loop str (name_idx + 1) (name[name_idx := ucast (wc_toupper c)])
       else wstrtosfn_loop str name_idx name
     else Some (1, name))"

fun wstrtosfn :: "wchar list \<Rightarrow> u8 list option \<Rightarrow> (int \<times> u8 list option) option" where
  "wstrtosfn str None = Some (FAT_ERR_PARAM, None)"
| "wstrtosfn str (Some name) = map_option (\<lambda>(r, name). (r, Some name)) (wstrtosfn_loop str 0 name)"

text \<open>The checksum of a short name, kept in the top byte of a word.\<close>

definition crc_step :: "u32 \<Rightarrow> u8 \<Rightarrow> u32" where
  "crc_step s b = drop_bit 1 s + push_bit 24 (ucast b) + (if s AND push_bit 24 1 \<noteq> 0 then 0x80000000 else 0)"

definition crc4lfn :: "u8 list \<Rightarrow> u8" where
  "crc4lfn name = ucast (drop_bit 24 (foldl crc_step 0 (take 11 name)))"

text \<open>A short name as text: the base up to its first space, a dot and the extension up to its first space.\<close>

function sfn2lfn_loop :: "u8 list \<Rightarrow> nat \<Rightarrow> wchar list \<Rightarrow> wchar list" where
  "sfn2lfn_loop name i out =
    (if i < 11 then
       if name ! i = 0x20 \<and> \<not> i < 8 then out
       else let i = (if name ! i = 0x20 then 8 else i)
            in if i = 8 \<and> name ! 8 = 0x20 then out
               else let out = (if i = 8 then out @ [0x2E] else out)
                    in sfn2lfn_loop name (i + 1) (out @ [ucast (name ! i)])
     else out)"
  by pat_completeness auto
termination
  by (relation "measure (\<lambda>(_, i, _). 11 - i)") (auto split: if_splits)

declare sfn2lfn_loop.simps [simp del]

definition sfn2lfn :: "u8 list \<Rightarrow> wchar list \<Rightarrow> wchar list option" where
  "sfn2lfn entry lfn = poke lfn 0 (sfn2lfn_loop entry 0 [] @ [0])"

end
