(* ===== verification/WcVolume.thy ===== *)
theory WcVolume
  imports WcText Disc BitOps "HOL-Library.Signed_Division"
begin

text \<open>
  The volume of \<open>wcfat.c\<close>: its global variables as a record, the recognition of a FAT32 boot
  sector (\<open>check_fat\<close>), the search for it (\<open>probe\<close>), the link of a cluster and its first sector.
  The packed structures of \<open>wcfat.h\<close> that lie over a buffer are read by their offsets. The results of
  \<open>readSectors\<close> are ignored by the code, so a failed read goes on with what the buffer held.
\<close>

section \<open>The global variables\<close>

record part_info =
  pi_lba :: u32
  pi_root_cluster :: u32
  pi_fat_sect0 :: u32
  pi_fat_sect1 :: u32
  pi_size :: u32
  pi_clust_shift :: u32
  pi_total_sect :: u32
  pi_total_clust :: u32
  pi_info_sect :: u32
  pi_data_sect :: u32
  pi_last_used :: u32
  pi_free_cnt :: u32
  pi_current_cluster :: u32
  pi_sect :: u32
  pi_label :: "u8 list"

record pwd_struct =
  pwd_length :: u16
  pwd_name :: "wchar list"

record 'd wc =
  wc_medium :: 'd
  wc_pi :: part_info
  wc_chain_buf :: "u8 list"
  wc_cached_sector :: u32
  wc_direntry_buffer :: "u8 list"
  wc_dir_idx :: "32 word"
  wc_start_cluster :: u32
  wc_pwd :: pwd_struct
  wc_cachesec :: u32
  wc_cache :: "u8 list"

text \<open>The variables when the program starts; the label and the buffers are zero.\<close>

definition wc_start :: "'d \<Rightarrow> 'd wc" where
  "wc_start m = \<lparr>wc_medium = m,
     wc_pi = \<lparr>pi_lba = 0, pi_root_cluster = 0, pi_fat_sect0 = 0, pi_fat_sect1 = 0, pi_size = 0, pi_clust_shift = 0,
       pi_total_sect = 0, pi_total_clust = 0, pi_info_sect = 0, pi_data_sect = 0, pi_last_used = 0, pi_free_cnt = 0,
       pi_current_cluster = 0, pi_sect = 0, pi_label = replicate 12 0\<rparr>,
     wc_chain_buf = replicate 512 0, wc_cached_sector = 0, wc_direntry_buffer = replicate 4096 0, wc_dir_idx = 0,
     wc_start_cluster = 0, wc_pwd = \<lparr>pwd_length = 0, pwd_name = replicate 255 0\<rparr>, wc_cachesec = 0,
     wc_cache = replicate 4096 0\<rparr>"

text \<open>A read into a buffer, at an offset of it.\<close>

definition wc_read :: "'d disc_interface \<Rightarrow> 'd \<Rightarrow> sec_t \<Rightarrow> u32 \<Rightarrow> u8 list \<Rightarrow> nat \<Rightarrow> (u8 list \<times> 'd) option" where
  "wc_read disc m sector n buf off = do {
     let (_, data, m) = readSectors disc m sector n;
     buf \<leftarrow> poke buf off data;
     Some (buf, m)
   }"

section \<open>The boot sector\<close>

abbreviation EXT_FLAG_MIRROR :: u32 where "EXT_FLAG_MIRROR \<equiv> 0x80"
abbreviation EXT_FLAG_ACT :: u32 where "EXT_FLAG_ACT \<equiv> 0x0F"

abbreviation bpb_spc :: "u8 list \<Rightarrow> u32" where "bpb_spc b \<equiv> ucast (b ! 13)"
abbreviation bpb_cnt_rsv :: "u8 list \<Rightarrow> u32" where "bpb_cnt_rsv b \<equiv> ucast (u8array_to_u16 b 14)"
abbreviation bpb_cnt_fat :: "u8 list \<Rightarrow> u32" where "bpb_cnt_fat b \<equiv> u8array_to_u32 b 16"
abbreviation bpb_media_type :: "u8 list \<Rightarrow> u32" where "bpb_media_type b \<equiv> u8array_to_u32 b 20"
abbreviation bpb_sect_cnt_32 :: "u8 list \<Rightarrow> u32" where "bpb_sect_cnt_32 b \<equiv> u8array_to_u32 b 32"
abbreviation bpb_fatsz_32 :: "u8 list \<Rightarrow> u32" where "bpb_fatsz_32 b \<equiv> u8array_to_u32 b 36"
abbreviation bpb_ext_flags :: "u8 list \<Rightarrow> u32" where "bpb_ext_flags b \<equiv> ucast (u8array_to_u16 b 40)"
abbreviation bpb_root_cluster :: "u8 list \<Rightarrow> u32" where "bpb_root_cluster b \<equiv> u8array_to_u32 b 44"
abbreviation bpb_info_sect :: "u8 list \<Rightarrow> u32" where "bpb_info_sect b \<equiv> ucast (u8array_to_u16 b 48)"

abbreviation BPB_volume_label :: nat where "BPB_volume_label \<equiv> 71"
abbreviation BPB_fs_type :: nat where "BPB_fs_type \<equiv> 82"

definition FS_TYPE_FAT32 :: "u8 list" where
  "FS_TYPE_FAT32 = [0x46, 0x41, 0x54, 0x33, 0x32, 0x20, 0x20, 0x20, 0]"

definition ctz :: "u32 \<Rightarrow> u32" where
  "ctz x = of_nat (length (takeWhile (\<lambda>i. \<not> bit x i) [0..<32]))"

definition check_fat :: "u8 list \<Rightarrow> u32 \<Rightarrow> part_info \<Rightarrow> (bool \<times> part_info) option" where
  "check_fat buf lba p =
    (if bpb_cnt_fat buf > 2 \<or> bpb_media_type buf \<noteq> 0xF800 then Some (False, p)
     else if bpb_info_sect buf \<noteq> 1 then Some (False, p)
     else do {
       differ \<leftarrow> wc_strncmp (drop BPB_fs_type buf) FS_TYPE_FAT32 8;
       if differ \<noteq> 0 then Some (False, p)
       else if bpb_ext_flags buf AND EXT_FLAG_MIRROR = 0 \<and> bpb_ext_flags buf AND EXT_FLAG_ACT > 1 then Some (False, p)
       else
         let sect_cnt = bpb_sect_cnt_32 buf - (bpb_cnt_rsv buf + bpb_cnt_fat buf * bpb_fatsz_32 buf)
         in if bpb_spc buf = 0 then None
            else
              let clusters = sect_cnt div bpb_spc buf
              in if clusters < 0x10000 then Some (False, p)
                 else do {
                   let p = p\<lparr>pi_lba := lba, pi_size := bpb_sect_cnt_32 buf, pi_root_cluster := bpb_root_cluster buf,
                     pi_clust_shift := ctz (bpb_spc buf), pi_total_sect := sect_cnt, pi_total_clust := clusters,
                     pi_fat_sect0 := lba + bpb_cnt_rsv buf\<rparr>;
                   let p = p\<lparr>pi_fat_sect1 := pi_fat_sect0 p + bpb_fatsz_32 buf\<rparr>;
                   let p = (if bpb_ext_flags buf AND EXT_FLAG_MIRROR \<noteq> 0 then p\<lparr>pi_fat_sect1 := pi_fat_sect0 p\<rparr> else p);
                   let p = (if bpb_ext_flags buf AND EXT_FLAG_ACT \<noteq> 0
                     then p\<lparr>pi_fat_sect1 := pi_fat_sect1 p + bpb_fatsz_32 buf\<rparr> else p);
                   p \<leftarrow> (if buf ! BPB_volume_label \<noteq> 0
                     then do {
                       l \<leftarrow> wc_memcpy (pi_label p) (drop BPB_volume_label buf) 11;
                       l \<leftarrow> poke l 11 [0];
                       Some (p\<lparr>pi_label := l\<rparr>)
                     } else do {
                       l \<leftarrow> wc_memset (pi_label p) 0 12;
                       Some (p\<lparr>pi_label := l\<rparr>)
                     });
                   Some (True, p\<lparr>pi_current_cluster := bpb_root_cluster buf, pi_sect := 0,
                     pi_info_sect := (if bpb_info_sect buf \<noteq> 0 then lba + bpb_info_sect buf else 0),
                     pi_data_sect := pi_fat_sect0 p + bpb_cnt_fat buf * bpb_fatsz_32 buf\<rparr>)
                 }
     })"

text \<open>Offsets in a partition table entry and in the MBR.\<close>

abbreviation MBR_part :: nat where "MBR_part \<equiv> 446"
abbreviation MBR_sig :: nat where "MBR_sig \<equiv> 510"
abbreviation PART_type :: nat where "PART_type \<equiv> 4"
abbreviation PART_lba :: nat where "PART_lba \<equiv> 8"
abbreviation PART_SIZE :: nat where "PART_SIZE \<equiv> 16"

fun probe_table :: "'d disc_interface \<Rightarrow> u8 list \<Rightarrow> nat list \<Rightarrow> u32 \<Rightarrow> u8 list \<Rightarrow> 'd \<Rightarrow> (u32 \<times> u8 list \<times> 'd) option" where
  "probe_table disc part [] lba buf m = Some (lba, buf, m)"
| "probe_table disc part (i # is) lba buf m =
    (let type = part ! (i * PART_SIZE + PART_type)
     in if type = 0x0B \<or> type = 0x0C then
          let lba = u8array_to_u32 part (i * PART_SIZE + PART_lba)
          in do {
            (buf, m) \<leftarrow> wc_read disc m lba 1 buf 0;
            Some (lba, buf, m)
          }
        else probe_table disc part is lba buf m)"

text \<open>\<open>probe\<close>, over the contents that its buffer and its copy of the partition table have on the stack
  before anything is stored in them.\<close>

definition probe :: "'d disc_interface \<Rightarrow> u8 list \<Rightarrow> u8 list \<Rightarrow> 'd wc \<Rightarrow> (int \<times> 'd wc) option" where
  "probe disc g_buf part w =
    (let (ok, m) = isInserted disc (wc_medium w)
     in if \<not> ok then Some (FAT_ERR_NOFAT, w\<lparr>wc_medium := m\<rparr>)
        else do {
          (g_buf, m) \<leftarrow> wc_read disc m 0 1 g_buf 0;
          if u8array_to_u16 g_buf MBR_sig \<noteq> 0xAA55 then Some (FAT_ERR_NOFAT, w\<lparr>wc_medium := m\<rparr>)
          else do {
            (lba, g_buf, m) \<leftarrow>
              (if g_buf ! (MBR_part + PART_type) \<noteq> 0 then do {
                 part \<leftarrow> wc_memcpy part (drop MBR_part g_buf) (4 * PART_SIZE * 4);
                 (lba, g_buf, m) \<leftarrow> probe_table disc part [0..<4] 0 g_buf m;
                 (g_buf, m) \<leftarrow> wc_read disc m lba 1 g_buf 0;
                 Some (lba, g_buf, m)
               } else Some (0, g_buf, m));
            (safe, p) \<leftarrow> check_fat g_buf lba (wc_pi w);
            Some (if safe then 1 else 0, w\<lparr>wc_medium := m, wc_pi := p\<rparr>)
          }
        })"

section \<open>Clusters\<close>

definition get_next_cluster :: "'d disc_interface \<Rightarrow> u32 \<Rightarrow> 'd wc \<Rightarrow> (u32 \<times> 'd wc) option" where
  "get_next_cluster disc cur_cluster w =
    (let sector = pi_fat_sect0 (wc_pi w) + cur_cluster div 128;
         delta = cur_cluster mod 128
     in do {
       w \<leftarrow> (if sector \<noteq> wc_cached_sector w then do {
                (buf, m) \<leftarrow> wc_read disc (wc_medium w) sector 1 (wc_chain_buf w) 0;
                Some (w\<lparr>wc_chain_buf := buf, wc_medium := m, wc_cached_sector := sector\<rparr>)
              } else Some w);
       Some (u8array_to_u32 (wc_chain_buf w) (4 * unat delta), w)
     })"

definition cluster2sector :: "part_info \<Rightarrow> u32 \<Rightarrow> u32" where
  "cluster2sector p cur_cluster = pi_data_sect p + push_bit (unat (pi_clust_shift p)) (cur_cluster - 2)"

end
