(* ===== verification/WcDir.thy ===== *)
theory WcDir
  imports WcVolume
begin

text \<open>
  Directories and paths in \<open>wcfat.c\<close>: the buffer of 128 directory entries and the walk over it, long
  names, the search of a directory by name, the recorded working directory and the descent along a
  path. A pointer to an entry is its number in the buffer.
\<close>

abbreviation FILTER_DIR :: u8 where "FILTER_DIR \<equiv> 0x10"
abbreviation FILTER_FILE :: u8 where "FILTER_FILE \<equiv> 0x20"
abbreviation SFN_SIZE :: nat where "SFN_SIZE \<equiv> 32"
abbreviation SFN_attr :: nat where "SFN_attr \<equiv> 11"
abbreviation SFN_clust_hi :: nat where "SFN_clust_hi \<equiv> 20"
abbreviation SFN_clust_lo :: nat where "SFN_clust_lo \<equiv> 26"
abbreviation SFN_size :: nat where "SFN_size \<equiv> 28"
abbreviation LFN_checksum :: nat where "LFN_checksum \<equiv> 13"

section \<open>The walk over the entries\<close>

definition get_sfn_entry :: "'d wc \<Rightarrow> nat" where
  "get_sfn_entry w = unat (wc_dir_idx w AND 0x7F)"

definition dir_bytes :: "'d wc \<Rightarrow> nat \<Rightarrow> u8 list" where
  "dir_bytes w k = slice (wc_direntry_buffer w) (k * SFN_SIZE) SFN_SIZE"

text \<open>Every 128 entries eight sectors are read. The index is signed; the overflow of its increment is undefined. The source
  tests its low seven bits by a shift to the left by 25, which leaves the range of an \<open>int\<close> from index 64 on. C does
  not define that shift; the model has what the compilers the front end is written for (gcc and MSVC) document, a
  shift of the bits.\<close>

definition proceed_idx :: "'d disc_interface \<Rightarrow> 'd wc \<Rightarrow> (nat \<times> 'd wc) option" where
  "proceed_idx disc w =
    (if wc_dir_idx w = 0x7FFFFFFF then None
     else
       let w = w\<lparr>wc_dir_idx := wc_dir_idx w + 1\<rparr>
       in do {
         w \<leftarrow> (if push_bit 25 (wc_dir_idx w) = 0 then
                  let sector = cluster2sector (wc_pi w) (wc_start_cluster w)
                  in do {
                    (buf, m) \<leftarrow> wc_read disc (wc_medium w) (sector + word_of_int (sint (wc_dir_idx w) sdiv (16 * 8))) 8
                      (wc_direntry_buffer w) 0;
                    Some (w\<lparr>wc_direntry_buffer := buf, wc_medium := m\<rparr>)
                  }
                else Some w);
         Some (get_sfn_entry w, w)
       })"

definition lfn_idx :: "nat list" where
  "lfn_idx = [30, 28, 24, 22, 20, 18, 16, 14, 9, 7, 5, 3, 1]"

text \<open>The characters of one entry go to the name from the back, each store checked against its block.\<close>

fun put_lfn :: "u8 list \<Rightarrow> nat list \<Rightarrow> int \<Rightarrow> wchar list \<Rightarrow> wchar list option" where
  "put_lfn raw [] p lfn = Some lfn"
| "put_lfn raw (i # is) p lfn =
    (if 0 \<le> p \<and> p < int (length lfn)
     then put_lfn raw is (p - 1) (lfn[nat p := u8array_to_u16 raw i]) else None)"

fun assemble_loop ::
    "'d disc_interface \<Rightarrow> u8 \<Rightarrow> nat \<Rightarrow> nat \<Rightarrow> wchar list \<Rightarrow> 'd wc \<Rightarrow> (nat option \<times> wchar list \<times> 'd wc) option" where
  "assemble_loop disc checksum 0 entry lfn w = Some (Some entry, lfn, w)"
| "assemble_loop disc checksum (Suc n) entry lfn w =
    (let raw = dir_bytes w entry
     in do {
       lfn \<leftarrow> put_lfn raw lfn_idx (int (Suc n * 13) - 1) lfn;
       if checksum \<noteq> raw ! LFN_checksum \<or> raw ! SFN_attr \<noteq> 0x0F \<or> Suc n \<noteq> unat (raw ! 0 AND 0x1F)
       then Some (None, lfn, w)
       else do {
         (entry, w) \<leftarrow> proceed_idx disc w;
         assemble_loop disc checksum n entry lfn w
       }
     })"

definition assemble_lfn :: "'d disc_interface \<Rightarrow> wchar list \<Rightarrow> 'd wc \<Rightarrow> (nat option \<times> wchar list \<times> 'd wc) option" where
  "assemble_lfn disc lfn w =
    (let entry = get_sfn_entry w;
         checksum = dir_bytes w entry ! LFN_checksum;
         count = unat (dir_bytes w entry ! 0 XOR 0x40)
     in do {
       (r, lfn, w) \<leftarrow>
         (if count > 20 then Some (None, lfn, w)
          else do {
            lfn \<leftarrow> poke lfn (count * 13) [0];
            assemble_loop disc checksum count entry lfn w
          });
       case r of
         Some entry \<Rightarrow>
           if checksum \<noteq> crc4lfn (dir_bytes w entry)
           then do { lfn \<leftarrow> poke lfn 0 [0]; Some (None, lfn, w) }
           else Some (Some entry, lfn, w)
       | None \<Rightarrow> do { lfn \<leftarrow> poke lfn 0 [0]; Some (None, lfn, w) }
     })"

text \<open>The next entry that has all attributes of the filter, with its long or short name; zero at the end
  mark. A long name that does not fit its entry yields a null pointer, which is then read through.\<close>

partial_function (option) enum_dir_entry ::
    "'d disc_interface \<Rightarrow> wchar list \<Rightarrow> u8 \<Rightarrow> 'd wc \<Rightarrow> (u32 \<times> nat option \<times> wchar list \<times> 'd wc) option" where
  "enum_dir_entry disc lfn flt w = do {
     (entry, w) \<leftarrow> proceed_idx disc w;
     if dir_bytes w entry ! 0 = 0 then Some (0, None, lfn, w)
     else if dir_bytes w entry ! 0 = 0xE5 then enum_dir_entry disc lfn flt w
     else do {
       (found, lfn, w) \<leftarrow>
         (if dir_bytes w entry ! SFN_attr = 0x0F then assemble_lfn disc lfn w
          else do { lfn \<leftarrow> poke lfn 0 [0]; Some (Some entry, lfn, w) });
       case found of
         None \<Rightarrow> None
       | Some entry \<Rightarrow>
           if flt OR dir_bytes w entry ! SFN_attr = dir_bytes w entry ! SFN_attr then do {
             lfn \<leftarrow> (if lfn ! 0 = 0 then sfn2lfn (dir_bytes w entry) lfn else Some lfn);
             Some (wc_dir_idx w + 1, Some entry, lfn, w)
           } else enum_dir_entry disc lfn flt w
     }
   }"

declare enum_dir_entry.simps [code]

definition open_dir :: "u32 \<Rightarrow> 'd wc \<Rightarrow> 'd wc" where
  "open_dir cluster w = w\<lparr>wc_dir_idx := -1, wc_start_cluster := cluster\<rparr>"

definition sfn_cluster :: "u8 list \<Rightarrow> u32" where
  "sfn_cluster e = push_bit 16 (ucast (u8array_to_u16 e SFN_clust_hi)) OR ucast (u8array_to_u16 e SFN_clust_lo)"

section \<open>The recorded directory\<close>

abbreviation SLASH16 :: wchar where "SLASH16 \<equiv> 0x2F"

definition pwdinit :: "'d wc \<Rightarrow> 'd wc" where
  "pwdinit w = w\<lparr>wc_pwd := (wc_pwd w)\<lparr>pwd_length := 0\<rparr>\<rparr>"

fun pwdup_loop :: "wchar list \<Rightarrow> nat \<Rightarrow> nat option" where
  "pwdup_loop name 0 = None"
| "pwdup_loop name (Suc k) =
    (if length name \<le> k then None else if name ! k \<noteq> SLASH16 then pwdup_loop name k else Some k)"

definition pwdup :: "pwd_struct \<Rightarrow> pwd_struct option" where
  "pwdup pwd = do {
     sz \<leftarrow> pwdup_loop (pwd_name pwd) (unat (pwd_length pwd));
     name \<leftarrow> poke (pwd_name pwd) sz [0];
     Some (pwd\<lparr>pwd_name := name, pwd_length := of_nat sz\<rparr>)
   }"

fun pwdcat_loop :: "wchar list \<Rightarrow> wchar list \<Rightarrow> nat \<Rightarrow> (wchar list \<times> nat) option" where
  "pwdcat_loop [] name sz = None"
| "pwdcat_loop (c # dir) name sz =
    (if c = 0 then Some (name, sz)
     else do { name \<leftarrow> poke name sz [c]; pwdcat_loop dir name (sz + 1) })"

definition pwdcat :: "wchar list \<Rightarrow> pwd_struct \<Rightarrow> pwd_struct option" where
  "pwdcat dir pwd =
    (case dir of
       [] \<Rightarrow> None
     | c # rest \<Rightarrow>
       if c = 0x2E then
         (case rest of [] \<Rightarrow> None | d # _ \<Rightarrow> if d = 0x2E then pwdup pwd else Some pwd)
       else do {
         let sz = unat (pwd_length pwd);
         name \<leftarrow> poke (pwd_name pwd) sz [SLASH16];
         (name, sz) \<leftarrow> pwdcat_loop dir name (sz + 1);
         name \<leftarrow> poke name sz [0];
         Some (pwd\<lparr>pwd_name := name, pwd_length := of_nat sz\<rparr>)
       })"

section \<open>Paths\<close>

partial_function (option) enterdir_loop ::
    "'d disc_interface \<Rightarrow> wchar list \<Rightarrow> wchar list \<Rightarrow> 'd wc \<Rightarrow> (u32 \<times> 'd wc) option" where
  "enterdir_loop disc dirname lfn w = do {
     (r, found, lfn, w) \<leftarrow> enum_dir_entry disc lfn FILTER_DIR w;
     (case found of
        Some entry \<Rightarrow>
          if r = 0 then Some (0, w)
          else do {
            differ \<leftarrow> wc_wstrcasecmp lfn dirname;
            if differ = 0 then do {
              let c = sfn_cluster (dir_bytes w entry);
              pwd \<leftarrow> pwdcat lfn (wc_pwd w);
              let w = w\<lparr>wc_pwd := pwd\<rparr>;
              Some (if c = 0 then pi_root_cluster (wc_pi w) else c, w)
            } else enterdir_loop disc dirname lfn w
          }
      | None \<Rightarrow> Some (0, w))
   }"

declare enterdir_loop.simps [code]

text \<open>The buffer for the name starts with arbitrary contents \<open>lfn\<close>, 128 characters of the stack; no
  character of it is read before it is stored.\<close>

definition enterdir :: "'d disc_interface \<Rightarrow> u32 \<Rightarrow> wchar list \<Rightarrow> 'd wc \<Rightarrow> (u32 \<times> 'd wc) option" where
  "enterdir disc start_cluster dirname w =
    (if dirname ! 0 = 0 then Some (0, w)
     else enterdir_loop disc dirname (replicate 128 0) (open_dir start_cluster w))"

definition stepdown :: "'d disc_interface \<Rightarrow> u8 list \<Rightarrow> u32 \<Rightarrow> u8 \<Rightarrow> 'd wc \<Rightarrow> (u32 \<times> 'd wc) option" where
  "stepdown disc path last_cluster separator w = do {
     (upath, _) \<leftarrow> utf8to16 path (replicate 256 0) separator;
     enterdir disc last_cluster upath w
   }"

abbreviation is_separator :: "u8 \<Rightarrow> bool" where
  "is_separator c \<equiv> c = 0x5C \<or> c = 0x2F"

text \<open>Over the rest of the path from the current component (\<open>path\<close>) and from the current character.\<close>

fun slidedown_loop :: "'d disc_interface \<Rightarrow> u8 list \<Rightarrow> u8 list \<Rightarrow> u32 \<Rightarrow> 'd wc \<Rightarrow> (u8 list \<times> u32 \<times> 'd wc) option" where
  "slidedown_loop disc path [] cur w = None"
| "slidedown_loop disc path (c # p) cur w =
    (if c = 0 then Some (path, cur, w)
     else if is_separator c then do {
       (ret, w) \<leftarrow> stepdown disc path cur c w;
       if ret = 0 then Some (path, cur, w) else slidedown_loop disc p p ret w
     }
     else slidedown_loop disc path p cur w)"

fun skip_leading :: "u8 list \<Rightarrow> u32 \<Rightarrow> u32 \<Rightarrow> (u8 list \<times> u32) option" where
  "skip_leading [] root cur = None"
| "skip_leading (c # p) root cur = (if is_separator c then skip_leading p root root else Some (c # p, cur))"

text \<open>The text behind the first colon of the string, if there is one.\<close>

fun after_colon :: "u8 list \<Rightarrow> u8 list option option" where
  "after_colon [] = None"
| "after_colon (c # p) = (if c = 0 then Some None else if c = 0x3A then Some (Some p) else after_colon p)"

text \<open>The result is the last component and its directory; with no path or an empty one the directory stays
  what the caller had in its variable.\<close>

definition slidedown ::
    "'d disc_interface \<Rightarrow> u8 list option \<Rightarrow> u32 \<Rightarrow> 'd wc \<Rightarrow> (u8 list option \<times> u32 \<times> 'd wc) option" where
  "slidedown disc path last_cluster w =
    (case path of
       None \<Rightarrow> Some (None, last_cluster, w)
     | Some s \<Rightarrow>
       if s = [] then None
       else if s ! 0 = 0 then Some (path, last_cluster, w)
       else do {
         colon \<leftarrow> after_colon s;
         (p, cur) \<leftarrow> skip_leading (case colon of Some p \<Rightarrow> p | None \<Rightarrow> s) (pi_root_cluster (wc_pi w))
           (pi_current_cluster (wc_pi w));
         (path, cur, w) \<leftarrow> slidedown_loop disc p p cur w;
         Some (Some path, cur, w)
       })"

text \<open>Opening a directory yields the number of its first cluster. The directory is uninitialised when there
  is no path, which is then read through; \<open>junk\<close> is what the variable holds.\<close>

definition WC_diropen_r ::
    "'d disc_interface \<Rightarrow> u8 list option \<Rightarrow> u32 \<Rightarrow> 'd wc \<Rightarrow> (u32 \<times> 'd wc) option" where
  "WC_diropen_r disc path junk w = do {
     (last_entry, last_cluster, w) \<leftarrow> slidedown disc path junk (pwdinit w);
     case last_entry of
       None \<Rightarrow> None
     | Some s \<Rightarrow>
       if s ! 0 \<noteq> 0 then do {
         (ret, w) \<leftarrow> stepdown disc s last_cluster 0 w;
         Some (ret, w)
       } else Some (last_cluster, w)
   }"

end
