(* ===== verification/WcFile.thy ===== *)
theory WcFile
  imports WcDir
begin

text \<open>
  Files in \<open>wcfat.c\<close>: the runs of consecutive clusters of a file, opening, reading through a
  buffer of eight sectors, and seeking. Writing and closing are empty in the code. A file structure has
  room for 61 runs; an access to its words behind the last is undefined.
\<close>

section \<open>The file structure\<close>

record chain_info =
  ci_count :: u32
  ci_next_cluster :: u32

record wc_file =
  wf_ptr :: u32
  wf_mode :: u32
  wf_filesize :: u32
  wf_chainCount :: u32
  wf_startCluster :: u32
  wf_cluster_chain :: "chain_info list"

section \<open>Runs of clusters\<close>

text \<open>The walk along the links: the run in hand is entry \<open>i\<close> of the chain.\<close>

partial_function (option) build_loop ::
    "'d disc_interface \<Rightarrow> u32 \<Rightarrow> nat \<Rightarrow> chain_info list \<Rightarrow> 'd wc \<Rightarrow> (u32 \<times> chain_info list \<times> 'd wc) option" where
  "build_loop disc cur_cluster i blk w = do {
     (next_cluster, w) \<leftarrow> get_next_cluster disc cur_cluster w;
     if next_cluster > 0x0FFFFFF6 then Some (of_nat i, blk, w)
     else if next_cluster - cur_cluster = 1 then
       if i < length blk
       then build_loop disc next_cluster i (blk[i := (blk ! i)\<lparr>ci_count := ci_count (blk ! i) + 1\<rparr>]) w
       else None
     else if next_cluster < pi_total_clust (wc_pi w) then
       if i + 1 < length blk
       then build_loop disc next_cluster (i + 1)
         (blk[i := (blk ! i)\<lparr>ci_next_cluster := next_cluster\<rparr>, i + 1 := \<lparr>ci_count = 0, ci_next_cluster = 0\<rparr>]) w
       else None
     else Some (word_of_int FAT_ERR_BROKEN, blk, w)
   }"

declare build_loop.simps [code]

definition build_cluster_chain ::
    "'d disc_interface \<Rightarrow> u32 \<Rightarrow> chain_info list \<Rightarrow> 'd wc \<Rightarrow> (u32 \<times> chain_info list \<times> 'd wc) option" where
  "build_cluster_chain disc start_cluster blk w =
    (if blk = [] then None
     else
       let blk = blk[0 := \<lparr>ci_count = 0, ci_next_cluster = 0\<rparr>]
       in if start_cluster < 2 \<or> start_cluster > 0xFFFFFFF6 then Some (word_of_int FAT_ERR_PARAM, blk, w)
          else build_loop disc start_cluster 0 blk w)"

text \<open>The words of a file structure from its start cluster on: pairs of the first cluster of a run and the
  number of clusters behind it.\<close>

fun run_words :: "u32 \<Rightarrow> chain_info list \<Rightarrow> (u32 \<times> u32) list" where
  "run_words c [] = []"
| "run_words c (x # xs) = (c, ci_count x) # run_words (ci_next_cluster x) xs"

fun iterate_runs :: "(u32 \<times> u32) list \<Rightarrow> u32 \<Rightarrow> (u32 \<times> u32) option" where
  "iterate_runs [] target = None"
| "iterate_runs ((c, n) # runs) target =
    (if target \<ge> n then iterate_runs runs (target - 1 - n) else Some (c + target, n - target))"

text \<open>The cluster of the position, and how many clusters of its run follow it.\<close>

definition iterate_file :: "part_info \<Rightarrow> wc_file \<Rightarrow> (u32 \<times> u32) option" where
  "iterate_file p fs =
    iterate_runs (run_words (wf_startCluster fs) (wf_cluster_chain fs))
      (drop_bit (unat (pi_clust_shift p + 9)) (wf_ptr fs))"

section \<open>Opening\<close>

partial_function (option) open_file_loop ::
    "'d disc_interface \<Rightarrow> wchar list \<Rightarrow> wc_file \<Rightarrow> wchar list \<Rightarrow> 'd wc \<Rightarrow> (u32 \<times> wc_file \<times> 'd wc) option" where
  "open_file_loop disc ufile fs lfn w = do {
     (r, found, lfn, w) \<leftarrow> enum_dir_entry disc lfn FILTER_FILE w;
     (case found of
        Some entry \<Rightarrow>
          if r = 0 then Some (0, fs, w)
          else do {
            differ \<leftarrow> wc_wstrcasecmp lfn ufile;
            if differ = 0 then do {
              let fs = fs\<lparr>wf_ptr := 0, wf_mode := 0, wf_filesize := u8array_to_u32 (dir_bytes w entry) SFN_size,
                wf_startCluster := sfn_cluster (dir_bytes w entry)\<rparr>;
              (n, blk, w) \<leftarrow> build_cluster_chain disc (wf_startCluster fs) (wf_cluster_chain fs) w;
              let fs = fs\<lparr>wf_chainCount := n, wf_cluster_chain := blk\<rparr>;
              Some (wf_startCluster fs, fs, w)
            } else open_file_loop disc ufile fs lfn w
          }
      | None \<Rightarrow> Some (0, fs, w))
   }"

declare open_file_loop.simps [code]

definition open_file ::
    "'d disc_interface \<Rightarrow> u32 \<Rightarrow> wchar list \<Rightarrow> wc_file \<Rightarrow> 'd wc \<Rightarrow> (u32 \<times> wc_file \<times> 'd wc) option" where
  "open_file disc dir_cluster ufile fs w =
    open_file_loop disc ufile fs (replicate 128 0) (open_dir dir_cluster w)"

text \<open>\<open>False\<close> is the result \<open>-1\<close> with \<open>ENOENT\<close>, \<open>True\<close> the address of the file structure.\<close>

definition WC_open_r ::
    "'d disc_interface \<Rightarrow> wc_file \<Rightarrow> u8 list option \<Rightarrow> 'd wc \<Rightarrow> (bool \<times> wc_file \<times> 'd wc) option" where
  "WC_open_r disc fs path w = do {
     (last_entry, last_cluster, w) \<leftarrow> slidedown disc path 0 w;
     s \<leftarrow> last_entry;
     (upath, _) \<leftarrow> utf8to16 s (replicate 128 0) 0;
     (c, fs, w) \<leftarrow> open_file disc last_cluster upath fs w;
     Some (c \<noteq> 0, fs, w)
   }"

definition WC_write_r :: "wc_file \<Rightarrow> u8 list \<Rightarrow> u32 \<Rightarrow> int" where
  "WC_write_r fd p len = FAT_ERR_NOFAT"

section \<open>Reading\<close>

text \<open>The first sector of the eight around the position.\<close>

definition page_sector :: "part_info \<Rightarrow> u32 \<Rightarrow> u32 \<Rightarrow> u32" where
  "page_sector p cluster ptr = cluster2sector p cluster + 8 * (drop_bit 12 ptr AND 0x07)"

definition cache_set :: "'d disc_interface \<Rightarrow> wc_file \<Rightarrow> 'd wc \<Rightarrow> 'd wc option" where
  "cache_set disc fs w = do {
     (c, _) \<leftarrow> iterate_file (wc_pi w) fs;
     let cur_sector = page_sector (wc_pi w) c (wf_ptr fs);
     let w = w\<lparr>wc_cachesec := cur_sector\<rparr>;
     (buf, m) \<leftarrow> wc_read disc (wc_medium w) cur_sector 8 (wc_cache w) 0;
     Some (w\<lparr>wc_cache := buf, wc_medium := m\<rparr>)
   }"

definition cache_get :: "'d disc_interface \<Rightarrow> wc_file \<Rightarrow> 'd wc \<Rightarrow> 'd wc option" where
  "cache_get disc fs w = do {
     (c, _) \<leftarrow> iterate_file (wc_pi w) fs;
     let cur_sector = page_sector (wc_pi w) c (wf_ptr fs);
     if cur_sector \<noteq> wc_cachesec w then do {
       (buf, m) \<leftarrow> wc_read disc (wc_medium w) cur_sector 8 (wc_cache w) 0;
       Some (w\<lparr>wc_cache := buf, wc_medium := m, wc_cachesec := cur_sector\<rparr>)
     } else Some w
   }"

text \<open>The blocks of 4096 bytes, as many at a time as lie together on the disc. \<open>off\<close> is the place in the
  caller's buffer.\<close>

partial_function (option) block_loop ::
    "'d disc_interface \<Rightarrow> u32 \<Rightarrow> u32 \<Rightarrow> nat \<Rightarrow> wc_file \<Rightarrow> u8 list \<Rightarrow> 'd wc
      \<Rightarrow> (u32 \<times> nat \<times> wc_file \<times> u8 list \<times> 'd wc) option" where
  "block_loop disc count len off fs out w =
    (if count > 0 then do {
       (c, cluster_count) \<leftarrow> iterate_file (wc_pi w) fs;
       let cur_sector = page_sector (wc_pi w) c (wf_ptr fs);
       let max_cont = cluster_count * 8 + (8 - (drop_bit 12 (wf_ptr fs) AND 0x07));
       let num_blocks = (if max_cont < count then max_cont else count);
       let sz = 0x1000 * num_blocks;
       (out, m) \<leftarrow> wc_read disc (wc_medium w) cur_sector (8 * num_blocks) out off;
       block_loop disc (count - num_blocks) (len - sz) (off + unat sz) (fs\<lparr>wf_ptr := wf_ptr fs + sz\<rparr>) out
         (w\<lparr>wc_medium := m\<rparr>)
     } else Some (len, off, fs, out, w))"

declare block_loop.simps [code]

definition WC_read_r ::
    "'d disc_interface \<Rightarrow> wc_file \<Rightarrow> u8 list \<Rightarrow> u32 \<Rightarrow> 'd wc \<Rightarrow> (u32 \<times> wc_file \<times> u8 list \<times> 'd wc) option" where
  "WC_read_r disc fs out len w =
    (let len = (if wf_filesize fs - wf_ptr fs < len then wf_filesize fs - wf_ptr fs else len);
         idx = wf_ptr fs;
         cidx = wf_ptr fs AND 0xFFF
     in do {
       (ready, len, off, fs, out, w) \<leftarrow>
         (if cidx \<noteq> 0 then do {
            w \<leftarrow> cache_get disc fs w;
            let remain = 4096 - cidx;
            let sz = (if len < remain then len else remain);
            data \<leftarrow> peek (wc_cache w) (unat cidx) (unat sz);
            out \<leftarrow> poke out 0 data;
            Some (if len - sz = 0 then Some sz else None, len - sz, unat sz, fs\<lparr>wf_ptr := wf_ptr fs + sz\<rparr>, out, w)
          } else Some (None, len, 0, fs, out, w));
       case ready of
         Some sz \<Rightarrow> Some (sz, fs, out, w)
       | None \<Rightarrow> do {
           (len, off, fs, out, w) \<leftarrow> block_loop disc (drop_bit 12 len) len off fs out w;
           (fs, out, w) \<leftarrow>
             (if len > 0 then do {
                w \<leftarrow> cache_set disc fs w;
                data \<leftarrow> peek (wc_cache w) 0 (unat len);
                out \<leftarrow> poke out off data;
                Some (fs\<lparr>wf_ptr := wf_ptr fs + len\<rparr>, out, w)
              } else Some (fs, out, w));
           Some (wf_ptr fs - idx, fs, out, w)
         }
     })"

section \<open>Seeking\<close>

text \<open>The position is compared as a signed number with zero, then as an unsigned one with the size. The
  function has no result.\<close>

definition WC_seek_r :: "wc_file \<Rightarrow> 32 word \<Rightarrow> int \<Rightarrow> wc_file" where
  "WC_seek_r fs pos dir =
    (let ptr = (if dir = 0 then pos else if dir = 2 then wf_filesize fs - pos else wf_filesize fs + pos)
     in if 0 \<le> sint ptr \<and> ptr \<le> wf_filesize fs then fs\<lparr>wf_ptr := ptr\<rparr> else fs)"

definition WC_ftell_r :: "wc_file \<Rightarrow> u32" where
  "WC_ftell_r fs = wf_ptr fs"

end
