(* ===== verification/WcFileSpec.thy ===== *)
theory WcFileSpec
  imports WcFile
begin

text \<open>
  What the front end computes on a reliable medium with sectors of 512 bytes: the links of the table, the
  runs of a chain of clusters, the record of the runs in a file structure and the search of a position
  in it. \<open>to_runs\<close> splits a chain into runs; \<open>run_left\<close> is the number of clusters that directly follow
  the first one of a list.
\<close>

section \<open>The state\<close>

definition wc_ok :: "'d disc_interface \<Rightarrow> ('d \<Rightarrow> sec_t \<Rightarrow> u8 list) \<Rightarrow> nat \<Rightarrow> 'd wc \<Rightarrow> bool" where
  "wc_ok disc med limit w \<longleftrightarrow>
     disc_ok disc med 512 \<and> disc_reliable disc limit \<and> limit \<le> 2 ^ 32 \<and>
     length (wc_chain_buf w) = 512 \<and> length (wc_direntry_buffer w) = 4096 \<and> length (wc_cache w) = 4096 \<and>
     (wc_cached_sector w = 0 \<or> wc_chain_buf w = med (wc_medium w) (wc_cached_sector w)) \<and>
     (wc_cachesec w = 0 \<or> wc_cache w = sectors_of (med (wc_medium w)) (wc_cachesec w) 8)"

definition wc_view :: "('d \<Rightarrow> sec_t \<Rightarrow> u8 list) \<Rightarrow> 'd wc \<Rightarrow> sec_t \<Rightarrow> u8 list" where
  "wc_view med w = med (wc_medium w)"

lemma wc_read_ok:
  assumes "disc_ok disc med 512" and "disc_reliable disc limit" and "limit \<le> 2 ^ 32"
    and "unat s + unat n \<le> limit" and "off + unat n * 512 \<le> length buf"
  obtains m' where "wc_read disc m s n buf off = Some (splice buf off (sectors_of (med m) s (unat n)), m')" and "med m' = med m"
proof -
  obtain ok data m' where r: "readSectors disc m s n = (ok, data, m')" by (cases "readSectors disc m s n")
  have d: "data = sectors_of (med m) s (unat n) \<and> med m' = med m"
  proof (cases "0 < unat n")
    case True
    then have ok using disc_reliableD(1) [OF assms(2) _ assms(4), of m] r by simp
    then show ?thesis using disc_read [OF assms(1) r] assms(3,4) by simp
  next
    case False
    then show ?thesis using disc_read [OF assms(1) r] assms(3,4) by (cases ok) auto
  qed
  then have d: "data = sectors_of (med m) s (unat n)" "med m' = med m" by simp_all
  have "length data = unat n * 512" unfolding d(1) by (rule length_sectors_of) (rule disc_ok_length [OF assms(1)])
  then show thesis using that [of m'] d assms(5) by (simp add: wc_read_def r poke_def)
qed

lemma wc_read_fill:
  assumes "disc_ok disc med 512" and "disc_reliable disc limit" and "limit \<le> 2 ^ 32"
    and "unat s + unat n \<le> limit" and "length buf = unat n * 512"
  obtains m' where "wc_read disc m s n buf 0 = Some (sectors_of (med m) s (unat n), m')" and "med m' = med m"
proof -
  have "length (sectors_of (med m) s (unat n)) = length buf"
    using length_sectors_of [OF disc_ok_length [OF assms(1)]] by (simp only: assms(5))
  then have "splice buf 0 (sectors_of (med m) s (unat n)) = sectors_of (med m) s (unat n)" by (rule splice_full)
  then show thesis using wc_read_ok [OF assms(1-4), of 0 buf m] that assms(5) by (metis add_0 order_refl)
qed

section \<open>The table\<close>

definition link_sector :: "part_info \<Rightarrow> u32 \<Rightarrow> sec_t" where
  "link_sector p c = pi_fat_sect0 p + c div 128"

definition wc_link :: "('d \<Rightarrow> sec_t \<Rightarrow> u8 list) \<Rightarrow> 'd wc \<Rightarrow> u32 \<Rightarrow> u32" where
  "wc_link med w c = u8array_to_u32 (wc_view med w (link_sector (wc_pi w) c)) (4 * unat (c mod 128))"

definition table_readable :: "nat \<Rightarrow> part_info \<Rightarrow> u32 list \<Rightarrow> bool" where
  "table_readable limit p cs \<longleftrightarrow> (\<forall>c \<in> set cs. 0 < unat (link_sector p c) \<and> unat (link_sector p c) < limit)"

lemma get_next_cluster_links:
  assumes ok: "wc_ok disc med limit w" and "0 < unat (link_sector (wc_pi w) c)" and "unat (link_sector (wc_pi w) c) < limit"
  obtains w' where "get_next_cluster disc c w = Some (wc_link med w c, w')" and "wc_ok disc med limit w'"
    and "wc_view med w' = wc_view med w" and "wc_pi w' = wc_pi w"
proof (cases "link_sector (wc_pi w) c = wc_cached_sector w")
  case True
  then have "wc_chain_buf w = med (wc_medium w) (link_sector (wc_pi w) c)" using assms by (auto simp: wc_ok_def)
  then show thesis
    using that [of w] True ok by (simp add: get_next_cluster_def wc_link_def wc_view_def link_sector_def)
next
  case False
  have d: "disc_ok disc med 512" "disc_reliable disc limit" "limit \<le> 2 ^ 32" and l: "length (wc_chain_buf w) = unat (1 :: u32) * 512"
    using ok by (simp_all add: wc_ok_def)
  obtain m' where m: "wc_read disc (wc_medium w) (link_sector (wc_pi w) c) 1 (wc_chain_buf w) 0 =
      Some (med (wc_medium w) (link_sector (wc_pi w) c), m')" "med m' = med (wc_medium w)"
    by (rule wc_read_fill [OF d _ l, where s = "link_sector (wc_pi w) c" and m = "wc_medium w"])
      (use assms(3) in \<open>simp_all add: sectors_of_def\<close>)
  let ?w = "w\<lparr>wc_chain_buf := med (wc_medium w) (link_sector (wc_pi w) c), wc_medium := m', wc_cached_sector := link_sector (wc_pi w) c\<rparr>"
  have "get_next_cluster disc c w = Some (wc_link med w c, ?w)"
    using False m(1) by (simp add: get_next_cluster_def wc_link_def wc_view_def link_sector_def Let_def)
  moreover have "wc_ok disc med limit ?w"
    using ok m(2) disc_ok_length [OF d(1)] by (simp add: wc_ok_def)
  ultimately show thesis using that [of ?w] m(2) by (simp add: wc_view_def)
qed

section \<open>Runs\<close>

fun run_left :: "u32 list \<Rightarrow> nat" where
  "run_left (c # d # cs) = (if d - c = 1 then Suc (run_left (d # cs)) else 0)"
| "run_left _ = 0"

fun to_runs :: "u32 list \<Rightarrow> (u32 \<times> nat) list" where
  "to_runs [] = []"
| "to_runs [c] = [(c, 0)]"
| "to_runs (c # d # cs) = (if d - c = 1 then (c, Suc (snd (hd (to_runs (d # cs))))) # tl (to_runs (d # cs)) else (c, 0) # to_runs (d # cs))"

lemma to_runs_Cons: "to_runs (c # cs) = (c, run_left (c # cs)) # tl (to_runs (c # cs))"
  by (induction "c # cs" arbitrary: c cs rule: to_runs.induct) (simp_all, metis list.sel(1) snd_conv)

lemma to_runs_total: "sum_list (map (\<lambda>(c, n). Suc n) (to_runs cs)) = length cs"
proof (induction cs rule: to_runs.induct)
  case (3 c d cs)
  then show ?case using to_runs_Cons [of d cs] by (cases "to_runs (d # cs)") auto
qed simp_all

abbreviation word_runs :: "(u32 \<times> nat) list \<Rightarrow> (u32 \<times> u32) list" where
  "word_runs \<equiv> map (\<lambda>(c, n). (c, of_nat n))"

text \<open>The search finds every cluster of a chain but the last one of a run.\<close>

lemma run_left_less: "run_left cs < length cs \<or> cs = []"
  by (induction cs rule: run_left.induct) auto

text \<open>Dropping the first cluster of a run and of the search.\<close>

lemma iterate_shift:
  assumes "d - c = 1" and "Suc n < 2 ^ 32" and "Suc j < 2 ^ 32"
  shows "iterate_runs ((c, of_nat (Suc n)) # rs) (of_nat (Suc j)) = iterate_runs ((d, of_nat n) # rs) (of_nat j)"
proof -
  have "(of_nat (Suc n) :: u32) \<le> of_nat (Suc j) \<longleftrightarrow> (of_nat n :: u32) \<le> of_nat j"
    unfolding word_le_nat_alt using assms(2,3) by (simp only: unat_of_small Suc_lessD)  simp
  then show ?thesis unfolding iterate_runs.simps using assms(1) by (simp add: algebra_simps)
qed

lemma iterate_runs_off:
  assumes "sum_list (map (\<lambda>(c, n). Suc (unat n)) runs) \<le> unat (target :: u32)"
  shows "iterate_runs runs target = None"
  using assms
proof (induction runs target rule: iterate_runs.induct)
  case (2 c n runs target)
  have le: "n \<le> target" "unat (target - 1 - n) = unat target - 1 - unat n"
  proof -
    show "n \<le> target" using "2.prems" by (simp add: word_le_nat_alt)
    have "unat (target - 1) = unat target - 1" using "2.prems" by (intro trans [OF unat_sub_le]) simp_all
    then show "unat (target - 1 - n) = unat target - 1 - unat n"
      using "2.prems" by (intro trans [OF unat_sub_le]) simp_all
  qed
  then show ?case using "2.IH" "2.prems" by simp
qed simp

lemma iterate_word_runs_off:
  assumes "length cs + length rest \<le> unat target" and "\<And>c n. (c, n) \<in> set rest \<Longrightarrow> n = 0"
  shows "iterate_runs (word_runs (to_runs cs) @ rest) target = None"
proof (rule iterate_runs_off)
  have "unat (of_nat n :: u32) \<le> n" for n by (simp add: unat_of_nat)
  then have le: "sum_list (map (\<lambda>(c, n). Suc (unat n)) (word_runs xs)) \<le> sum_list (map (\<lambda>(c, n). Suc n) xs)" for xs :: "(u32 \<times> nat) list"
    by (induction xs) (auto intro: add_le_mono)
  have "sum_list (map (\<lambda>(c, n). Suc (unat n)) rest) = length rest"
    using assms(2) by (induction rest) (auto, fastforce)
  with le [of "to_runs cs"] show "sum_list (map (\<lambda>(c, n). Suc (unat n)) (word_runs (to_runs cs) @ rest)) \<le> unat target"
    using assms(1) unfolding map_append sum_list_append to_runs_total by linarith
qed

lemma unat_max: "unat (-1 :: u32) = 4294967295"
  by (simp add: unsigned_minus_1_eq_mask mask_eq_exp_minus_1)

text \<open>The search of a position finds its cluster and what follows it in its run, except for the last
  cluster of a run, which the search passes over: it then runs off the record.\<close>

lemma iterate_runs_exact:
  assumes "length cs + length rest < 2 ^ 32 - 1" and "k < length cs" and "\<And>c n. (c, n) \<in> set rest \<Longrightarrow> n = 0"
  shows "iterate_runs (word_runs (to_runs cs) @ rest) (of_nat k) =
    (if 0 < run_left (drop k cs) then Some (cs ! k, of_nat (run_left (drop k cs))) else None)"
  using assms(1,2)
proof (induction cs arbitrary: k rule: to_runs.induct)
  case (2 c)
  have "length ([] :: u32 list) + length rest \<le> unat (-1 :: u32)" using 2 by (simp add: unat_max)
  from iterate_word_runs_off [OF this assms(3)] show ?case using 2 by simp
next
  case (3 c d cs)
  let ?n = "run_left (d # cs)" and ?rs = "word_runs (tl (to_runs (d # cs))) @ rest"
  have runs: "to_runs (d # cs) = (d, ?n) # tl (to_runs (d # cs))" by (rule to_runs_Cons)
  have small: "Suc ?n < 2 ^ 32" using run_left_less [of "d # cs"] "3.prems"(1) by simp
  show ?case
  proof (cases "d - c = 1")
    case True
    then have all: "word_runs (to_runs (c # d # cs)) @ rest = (c, of_nat (Suc ?n)) # ?rs"
      using arg_cong [OF runs, where f = "\<lambda>r. snd (hd r)"] by simp
    show ?thesis
    proof (cases k)
      case 0
      have "(0 :: u32) < of_nat (Suc ?n)" by (simp only: word_less_nat_alt unat_of_small [OF small]) simp
      then have "\<not> (0 :: u32) \<ge> of_nat (Suc ?n)" by (simp only: not_le)
      then show ?thesis unfolding all using 0 True by (simp del: of_nat_Suc)
    next
      case (Suc j)
      have "iterate_runs ((c, of_nat (Suc ?n)) # ?rs) (of_nat (Suc j)) = iterate_runs ((d, of_nat ?n) # ?rs) (of_nat j)"
        by (rule iterate_shift [OF True small]) (use "3.prems" Suc in simp)
      also have "(d, of_nat ?n) # ?rs = word_runs (to_runs (d # cs)) @ rest" by (subst (2) runs) simp
      finally show ?thesis unfolding all Suc using "3.IH"(1) [OF True, of j] "3.prems" Suc by (simp del: of_nat_Suc)
    qed
  next
    case False
    show ?thesis
    proof (cases k)
      case 0
      have "length (d # cs) + length rest \<le> unat (-1 :: u32)" using "3.prems"(1) by (simp add: unat_max)
      from iterate_word_runs_off [OF this assms(3)] show ?thesis using False 0 by simp
    next
      case (Suc j)
      then show ?thesis using "3.IH"(3) [OF False, of j] "3.prems" False by simp
    qed
  qed
qed simp

section \<open>The record of the runs\<close>

text \<open>A chain that the code follows to its end: numbers of clusters, each linked to the next; a cluster that
  does not follow its predecessor has to be below the number of clusters.\<close>

fun wc_chain :: "(u32 \<Rightarrow> u32) \<Rightarrow> u32 \<Rightarrow> u32 list \<Rightarrow> bool" where
  "wc_chain L T [] \<longleftrightarrow> False"
| "wc_chain L T [c] \<longleftrightarrow> 2 \<le> c \<and> c \<le> 0x0FFFFFF6 \<and> L c > 0x0FFFFFF6"
| "wc_chain L T (c # d # cs) \<longleftrightarrow> 2 \<le> c \<and> c \<le> 0x0FFFFFF6 \<and> L c = d \<and> (d - c = 1 \<or> d < T) \<and> wc_chain L T (d # cs)"

fun enc_runs :: "(u32 \<times> nat) list \<Rightarrow> chain_info list" where
  "enc_runs [] = []"
| "enc_runs [(c, n)] = [\<lparr>ci_count = of_nat n, ci_next_cluster = 0\<rparr>]"
| "enc_runs ((c, n) # (d, m) # rs) = \<lparr>ci_count = of_nat n, ci_next_cluster = d\<rparr> # enc_runs ((d, m) # rs)"

lemma length_enc_runs [simp]: "length (enc_runs rs) = length rs"
  by (induction rs rule: enc_runs.induct) simp_all

lemma enc_runs_first: "enc_runs ((c, n) # rs) = enc_runs ((d, n) # rs)"
  by (cases rs) auto

lemma run_words_enc: "run_words c (enc_runs ((c, n) # rs) @ zs) = word_runs ((c, n) # rs) @ run_words 0 zs"
  by (induction "(c, n) # rs" arbitrary: c n rs rule: enc_runs.induct) simp_all

lemma wc_chain_head: "wc_chain L T (c # cs) \<Longrightarrow> 2 \<le> c \<and> c \<le> 0x0FFFFFF6"
  by (cases cs) simp_all

lemma build_loop_records:
  assumes "wc_ok disc med limit w" and "table_readable limit (wc_pi w) (c # cs)"
    and "wc_chain (wc_link med w) (pi_total_clust (wc_pi w)) (c # cs)"
    and "to_runs (c # cs) = (c, n) # rs" and "i + 1 + length rs \<le> length blk"
    and "blk ! i = \<lparr>ci_count = of_nat k, ci_next_cluster = 0\<rparr>"
  obtains w' where "build_loop disc c i blk w =
      Some (of_nat (i + length rs), take i blk @ enc_runs ((c, k + n) # rs) @ drop (i + 1 + length rs) blk, w')"
    and "wc_ok disc med limit w'" and "wc_view med w' = wc_view med w" and "wc_pi w' = wc_pi w"
  using assms
proof (induction cs arbitrary: c n rs i k blk w thesis)
  case Nil
  have r: "n = 0" "rs = []" using Nil.prems(5) by simp_all
  have stop: "wc_link med w c > 0x0FFFFFF6" using Nil.prems(4) by simp
  have t: "0 < unat (link_sector (wc_pi w) c)" "unat (link_sector (wc_pi w) c) < limit"
    using Nil.prems(3) by (simp_all add: table_readable_def)
  obtain w' where w: "get_next_cluster disc c w = Some (wc_link med w c, w')" "wc_ok disc med limit w'"
    "wc_view med w' = wc_view med w" "wc_pi w' = wc_pi w"
    by (rule get_next_cluster_links [OF Nil.prems(2) t])
  have i: "i < length blk" using Nil.prems(6) by simp
  have "build_loop disc c i blk w = Some (of_nat i, blk, w')"
    by (subst build_loop.simps) (simp add: w(1) stop)
  moreover have "blk = take i blk @ enc_runs ((c, k + n) # rs) @ drop (i + 1 + length rs) blk"
    using id_take_nth_drop [OF i] Nil.prems(7) by (simp add: r)
  ultimately show ?case using Nil.prems(1) [of w'] w(2-4) by (simp add: r)
next
  case (Cons d cs)
  note ok = Cons.prems(2)
  let ?L = "wc_link med w"
  have ch: "?L c = d" "d - c = 1 \<or> d < pi_total_clust (wc_pi w)" "wc_chain ?L (pi_total_clust (wc_pi w)) (d # cs)"
    using Cons.prems(4) by simp_all
  have nend: "\<not> ?L c > 0x0FFFFFF6" using wc_chain_head [OF ch(3)] ch(1) by (simp add: not_less)
  have t: "0 < unat (link_sector (wc_pi w) c)" "unat (link_sector (wc_pi w) c) < limit"
    "table_readable limit (wc_pi w) (d # cs)"
    using Cons.prems(3) by (simp_all add: table_readable_def)
  obtain w1 where w: "get_next_cluster disc c w = Some (?L c, w1)" "wc_ok disc med limit w1"
    "wc_view med w1 = wc_view med w" "wc_pi w1 = wc_pi w"
    by (rule get_next_cluster_links [OF ok t(1,2)])
  have L: "wc_link med w1 = ?L" by (intro ext) (simp add: wc_link_def w(3,4))
  note inv = w(2) t(3) [folded w(4)] ch(3) [folded L w(4)]
  have i: "i < length blk" using Cons.prems(6) by simp
  obtain n' rs' where runs: "to_runs (d # cs) = (d, n') # rs'" using to_runs_Cons [of d cs] by blast
  show ?case
  proof (cases "d - c = 1")
    case True
    then have r: "n = Suc n'" "rs = rs'" using Cons.prems(5) runs by simp_all
    let ?blk = "blk[i := \<lparr>ci_count = of_nat (Suc k), ci_next_cluster = 0\<rparr>]"
    have step: "build_loop disc c i blk w = build_loop disc d i ?blk w1"
      using True nend i Cons.prems(7) by (subst build_loop.simps) (simp add: w(1) ch(1) add.commute)
    show ?thesis
    proof (rule Cons.IH [OF _ inv runs, of i ?blk "Suc k"])
      show "i + 1 + length rs' \<le> length ?blk" using Cons.prems(6) r by simp
      show "?blk ! i = \<lparr>ci_count = of_nat (Suc k), ci_next_cluster = 0\<rparr>" using i by simp
    next
      fix w'
      assume b: "build_loop disc d i ?blk w1 = Some (of_nat (i + length rs'),
          take i ?blk @ enc_runs ((d, Suc k + n') # rs') @ drop (i + 1 + length rs') ?blk, w')"
        and i': "wc_ok disc med limit w'" "wc_view med w' = wc_view med w1" "wc_pi w' = wc_pi w1"
      show thesis
        by (rule Cons.prems(1) [of w'])
          (use step b i' w(3,4) in \<open>simp_all add: r enc_runs_first [of d _ _ c]\<close>)
    qed
  next
    case False
    then have r: "n = 0" "rs = (d, n') # rs'" using Cons.prems(5) runs by simp_all
    let ?blk = "blk[i := \<lparr>ci_count = of_nat k, ci_next_cluster = d\<rparr>, i + 1 := \<lparr>ci_count = of_nat 0, ci_next_cluster = 0\<rparr>]"
    have i1: "i + 1 < length blk" using Cons.prems(6) r by simp
    have step: "build_loop disc c i blk w = build_loop disc d (i + 1) ?blk w1"
      using False nend i1 ch(2) Cons.prems(7) by (subst build_loop.simps) (simp add: w(1,4) ch(1))
    show ?thesis
    proof (rule Cons.IH [OF _ inv runs, of "i + 1" ?blk 0])
      show "i + 1 + 1 + length rs' \<le> length ?blk" using Cons.prems(6) r by simp
      show "?blk ! (i + 1) = \<lparr>ci_count = of_nat 0, ci_next_cluster = 0\<rparr>" using i1 by simp
    next
      fix w'
      assume b: "build_loop disc d (i + 1) ?blk w1 = Some (of_nat (i + 1 + length rs'),
          take (i + 1) ?blk @ enc_runs ((d, 0 + n') # rs') @ drop (i + 1 + 1 + length rs') ?blk, w')"
        and i': "wc_ok disc med limit w'" "wc_view med w' = wc_view med w1" "wc_pi w' = wc_pi w1"
      have "take (i + 1) ?blk = take i blk @ [\<lparr>ci_count = of_nat k, ci_next_cluster = d\<rparr>]"
        using i1 by (simp add: take_Suc_conv_app_nth)
      then show thesis
        by (intro Cons.prems(1) [of w']) (use step b i' w(3,4) in \<open>simp_all add: r\<close>)
    qed
  qed
qed

lemma run_words_zero: "(\<And>x. x \<in> set zs \<Longrightarrow> ci_count x = 0) \<Longrightarrow> (c, n) \<in> set (run_words a zs) \<Longrightarrow> n = 0"
  by (induction a zs rule: run_words.induct) auto

lemma length_run_words [simp]: "length (run_words c xs) = length xs"
  by (induction c xs rule: run_words.induct) simp_all

abbreviation no_runs :: "chain_info list" where
  "no_runs \<equiv> replicate 61 \<lparr>ci_count = 0, ci_next_cluster = 0\<rparr>"

lemma chain_records_and_finds:
  assumes "wc_ok disc med limit w" and "table_readable limit (wc_pi w) cs"
    and "wc_chain (wc_link med w) (pi_total_clust (wc_pi w)) cs" and "length (to_runs cs) \<le> 61" and "length cs < 2 ^ 28"
  obtains blk w' where "build_cluster_chain disc (hd cs) no_runs w = Some (of_nat (length (to_runs cs) - 1), blk, w')"
    and "wc_ok disc med limit w'" and "wc_view med w' = wc_view med w" and "wc_pi w' = wc_pi w" and "length blk = 61"
    and "\<And>(fs :: wc_file) k. wf_startCluster fs = hd cs \<Longrightarrow> wf_cluster_chain fs = blk \<Longrightarrow> k < length cs \<Longrightarrow>
      drop_bit (unat (pi_clust_shift (wc_pi w) + 9)) (wf_ptr fs) = of_nat k \<Longrightarrow>
      iterate_file (wc_pi w) fs = (if 0 < run_left (drop k cs) then Some (cs ! k, of_nat (run_left (drop k cs))) else None)"
proof -
  obtain c cs' where cs: "cs = c # cs'" using assms(3) by (cases cs) simp_all
  obtain n rs where runs: "to_runs (c # cs') = (c, n) # rs" using to_runs_Cons [of c cs'] by blast
  have first: "no_runs ! 0 = \<lparr>ci_count = of_nat 0, ci_next_cluster = 0\<rparr>" by simp
  have room: "0 + 1 + length rs \<le> length no_runs" using assms(4) runs cs by simp
  obtain w' where w: "build_loop disc c 0 no_runs w =
      Some (of_nat (0 + length rs), take 0 no_runs @ enc_runs ((c, 0 + n) # rs) @ drop (0 + 1 + length rs) no_runs, w')"
    "wc_ok disc med limit w'" "wc_view med w' = wc_view med w" "wc_pi w' = wc_pi w"
    by (rule build_loop_records [OF assms(1) assms(2,3) [unfolded cs] runs room first])
  let ?blk = "enc_runs ((c, n) # rs) @ drop (1 + length rs) no_runs"
  have "no_runs[0 := \<lparr>ci_count = 0, ci_next_cluster = 0\<rparr>] = no_runs" by (simp add: list_update_same_conv)
  moreover have "\<not> c < 2" "\<not> c > 0xFFFFFFF6"
    using wc_chain_head [OF assms(3) [unfolded cs]] by (simp_all add: word_le_nat_alt word_less_nat_alt)
  ultimately have b: "build_cluster_chain disc (hd cs) no_runs w = Some (of_nat (length (to_runs cs) - 1), ?blk, w')"
    using w(1) by (simp add: build_cluster_chain_def cs runs)
  show thesis
  proof (rule that [OF b w(2-4)])
    show "length ?blk = 61" using room by simp
    fix fs :: wc_file and k
    assume fs: "wf_startCluster fs = hd cs" "wf_cluster_chain fs = ?blk" "k < length cs"
      "drop_bit (unat (pi_clust_shift (wc_pi w) + 9)) (wf_ptr fs) = of_nat k"
    let ?rest = "run_words 0 (drop (1 + length rs) no_runs)"
    have "run_words c ?blk = word_runs (to_runs cs) @ ?rest" using run_words_enc by (simp only: cs runs)
    moreover have "n = 0" if "(c, n) \<in> set ?rest" for c n
      by (rule run_words_zero [OF _ that]) (auto dest: in_set_dropD)
    moreover have "length cs + length ?rest < 2 ^ 32 - 1" using assms(5) by simp
    ultimately show "iterate_file (wc_pi w) fs =
        (if 0 < run_left (drop k cs) then Some (cs ! k, of_nat (run_left (drop k cs))) else None)"
      using iterate_runs_exact [of cs ?rest k] fs by (simp add: iterate_file_def cs)
  qed
qed

end
