(* ===== verification/WcVolumeSpec.thy ===== *)
theory WcVolumeSpec
  imports WcFileSpec Partition
begin

text \<open>
  The boot sector as the front end and as the library read it, field by field.
\<close>

section \<open>Bytes of a number\<close>

lemma u32_byte:
  "b ! i = ucast (u8array_to_u32 b i)" "b ! (i + 1) = ucast (drop_bit 8 (u8array_to_u32 b i))"
  "b ! (i + 2) = ucast (drop_bit 16 (u8array_to_u32 b i))" "b ! (i + 3) = ucast (drop_bit 24 (u8array_to_u32 b i))"
  by (rule bit_word_eqI; simp only: u8array_to_u32_def; auto simp: bit_simps dest: bit_imp_le_length)+

section \<open>What the front end accepts\<close>

lemma check_fat_accepts:
  assumes "check_fat b lba p0 = Some (True, q)"
  shows "bpb_cnt_fat b \<le> 2" "bpb_media_type b = 0xF800" "bpb_info_sect b = 1" "bpb_spc b \<noteq> 0"
    and "0x10000 \<le> (bpb_sect_cnt_32 b - (bpb_cnt_rsv b + bpb_cnt_fat b * bpb_fatsz_32 b)) div bpb_spc b"
    and "pi_total_clust q = (bpb_sect_cnt_32 b - (bpb_cnt_rsv b + bpb_cnt_fat b * bpb_fatsz_32 b)) div bpb_spc b"
    and "pi_fat_sect0 q = lba + bpb_cnt_rsv b" "pi_data_sect q = lba + bpb_cnt_rsv b + bpb_cnt_fat b * bpb_fatsz_32 b"
    and "pi_root_cluster q = bpb_root_cluster b" "pi_info_sect q = lba + 1" "pi_clust_shift q = ctz (bpb_spc b)"
proof -
  have "bpb_cnt_fat b \<le> 2 \<and> bpb_media_type b = 0xF800 \<and> bpb_info_sect b = 1 \<and> bpb_spc b \<noteq> 0 \<and>
    0x10000 \<le> (bpb_sect_cnt_32 b - (bpb_cnt_rsv b + bpb_cnt_fat b * bpb_fatsz_32 b)) div bpb_spc b \<and>
    pi_total_clust q = (bpb_sect_cnt_32 b - (bpb_cnt_rsv b + bpb_cnt_fat b * bpb_fatsz_32 b)) div bpb_spc b \<and>
    pi_fat_sect0 q = lba + bpb_cnt_rsv b \<and> pi_data_sect q = lba + bpb_cnt_rsv b + bpb_cnt_fat b * bpb_fatsz_32 b \<and>
    pi_root_cluster q = bpb_root_cluster b \<and> pi_info_sect q = lba + 1 \<and> pi_clust_shift q = ctz (bpb_spc b)"
    using assms unfolding check_fat_def
    by (auto simp: Let_def not_less split: if_splits Option.bind_splits)
  then show "bpb_cnt_fat b \<le> 2" "bpb_media_type b = 0xF800" "bpb_info_sect b = 1" "bpb_spc b \<noteq> 0"
    and "0x10000 \<le> (bpb_sect_cnt_32 b - (bpb_cnt_rsv b + bpb_cnt_fat b * bpb_fatsz_32 b)) div bpb_spc b"
    and "pi_total_clust q = (bpb_sect_cnt_32 b - (bpb_cnt_rsv b + bpb_cnt_fat b * bpb_fatsz_32 b)) div bpb_spc b"
    and "pi_fat_sect0 q = lba + bpb_cnt_rsv b" "pi_data_sect q = lba + bpb_cnt_rsv b + bpb_cnt_fat b * bpb_fatsz_32 b"
    and "pi_root_cluster q = bpb_root_cluster b" "pi_info_sect q = lba + 1" "pi_clust_shift q = ctz (bpb_spc b)"
    by blast+
qed

lemma accepted_bytes:
  assumes "bpb_cnt_fat b \<le> 2" and "bpb_media_type b = 0xF800"
  shows "bpb_cnt_fat b = ucast (b ! BPB_numFATs)" "u8array_to_u16 b BPB_rootEntries = 0" "u8array_to_u16 b BPB_numSectorsSmall = 0"
    and "u8array_to_u16 b BPB_sectorsPerFAT = 0"
proof -
  have "bpb_cnt_fat b = 0 \<or> bpb_cnt_fat b = 1 \<or> bpb_cnt_fat b = 2"
  proof -
    have "unat (bpb_cnt_fat b) = 0 \<or> unat (bpb_cnt_fat b) = 1 \<or> unat (bpb_cnt_fat b) = 2"
      using assms(1) by (simp add: word_le_nat_alt) arith
    then show ?thesis by (auto simp: word_eq_iff_unat_eq)
  qed
  then have c: "b ! 17 = 0" "b ! 18 = 0" "b ! 19 = 0" "bpb_cnt_fat b = ucast (b ! 16)"
    using u32_byte [of b 16] by auto
  have m: "b ! 20 = 0" "b ! 22 = 0" "b ! 23 = 0" using u32_byte [of b 20] assms(2) by simp_all
  show "bpb_cnt_fat b = ucast (b ! BPB_numFATs)" by (rule c(4))
  show "u8array_to_u16 b BPB_rootEntries = 0" "u8array_to_u16 b BPB_numSectorsSmall = 0" "u8array_to_u16 b BPB_sectorsPerFAT = 0"
    using c m by (simp_all add: u8array_to_u16_def)
qed

section \<open>What the library makes of it\<close>

lemma parse_bpb_32:
  assumes p: "parse_bpb disc start b mk = Some (Some p)"
    and zero: "u8array_to_u16 b BPB_rootEntries = 0" "u8array_to_u16 b BPB_numSectorsSmall = 0" "u8array_to_u16 b BPB_sectorsPerFAT = 0"
  shows "p_bytesPerSector p = ucast (u8array_to_u16 b BPB_bytesPerSector)" "p_sectorsPerCluster p = bpb_spc b"
    and "p_dataStart p = start + bpb_cnt_rsv b + ucast (b ! BPB_numFATs) * bpb_fatsz_32 b"
    and "fat_lastCluster (p_fat p) = (bpb_sect_cnt_32 b - (p_dataStart p - start)) div bpb_spc b + CLUSTER_FIRST - 1"
    and "p_filesysType p = select_fs ((bpb_sect_cnt_32 b - (p_dataStart p - start)) div bpb_spc b)"
    and "p_filesysType p = FS_FAT32 \<Longrightarrow> p_rootDirCluster p = bpb_root_cluster b"
    and "b ! BPB_FAT32_extFlags AND 0x0F = 0 \<Longrightarrow> fat_fatStart (p_fat p) = start + bpb_cnt_rsv b"
    and "p_fsInfoSector p = start + (if u8array_to_u16 b 48 \<noteq> 0 then bpb_info_sect b else 1)"
proof -
  let ?data = "start + bpb_cnt_rsv b + ucast (b ! BPB_numFATs) * bpb_fatsz_32 b"
  have "p_bytesPerSector p = ucast (u8array_to_u16 b BPB_bytesPerSector) \<and> p_sectorsPerCluster p = bpb_spc b \<and>
    p_dataStart p = ?data \<and> fat_lastCluster (p_fat p) = (bpb_sect_cnt_32 b - (?data - start)) div bpb_spc b + CLUSTER_FIRST - 1 \<and>
    p_filesysType p = select_fs ((bpb_sect_cnt_32 b - (?data - start)) div bpb_spc b) \<and>
    (p_filesysType p = FS_FAT32 \<longrightarrow> p_rootDirCluster p = bpb_root_cluster b) \<and>
    (b ! BPB_FAT32_extFlags AND 0x0F = 0 \<longrightarrow> fat_fatStart (p_fat p) = start + bpb_cnt_rsv b) \<and>
    p_fsInfoSector p = start + (if u8array_to_u16 b 48 \<noteq> 0 then bpb_info_sect b else 1)"
    using p unfolding parse_bpb_def get_u16_def get_u32_def get_u8_def zero Let_def
    by (elim bind_SomeE) (clarsimp split: if_splits Option.bind_splits)
  then show "p_bytesPerSector p = ucast (u8array_to_u16 b BPB_bytesPerSector)" "p_sectorsPerCluster p = bpb_spc b"
    and "p_dataStart p = start + bpb_cnt_rsv b + ucast (b ! BPB_numFATs) * bpb_fatsz_32 b"
    and "fat_lastCluster (p_fat p) = (bpb_sect_cnt_32 b - (p_dataStart p - start)) div bpb_spc b + CLUSTER_FIRST - 1"
    and "p_filesysType p = select_fs ((bpb_sect_cnt_32 b - (p_dataStart p - start)) div bpb_spc b)"
    and "p_filesysType p = FS_FAT32 \<Longrightarrow> p_rootDirCluster p = bpb_root_cluster b"
    and "b ! BPB_FAT32_extFlags AND 0x0F = 0 \<Longrightarrow> fat_fatStart (p_fat p) = start + bpb_cnt_rsv b"
    and "p_fsInfoSector p = start + (if u8array_to_u16 b 48 \<noteq> 0 then bpb_info_sect b else 1)"
    by simp_all
qed

end
