(* ===== verification/WcReadSpec.thy ===== *)
theory WcReadSpec
  imports WcFileSpec
begin

text \<open>
  Reading in the front end, for clusters of 64 sectors, the size its arithmetic assumes: the bytes of a
  file are those of its clusters in order (\<open>wc_data\<close>); a page of eight sectors and a sequence of pages
  inside one run are parts of them, so a read that does not touch the last cluster of a run returns them.
\<close>

section \<open>The bytes of a file\<close>

definition wc_area :: "part_info \<Rightarrow> nat \<Rightarrow> u32 list \<Rightarrow> bool" where
  "wc_area p limit cs \<longleftrightarrow> pi_clust_shift p = 6 \<and> 0 < unat (pi_data_sect p) \<and> limit \<le> 2 ^ 32 \<and> 32768 * length cs < 2 ^ 32 \<and>
     (\<forall>c \<in> set cs. 2 \<le> c \<and> unat (pi_data_sect p) + 64 * (unat c - 2) + 64 \<le> limit)"

definition wc_data :: "(sec_t \<Rightarrow> u8 list) \<Rightarrow> part_info \<Rightarrow> u32 list \<Rightarrow> u8 list" where
  "wc_data view p cs = concat (map (\<lambda>c. sectors_of view (cluster2sector p c) 64) cs)"

definition located :: "part_info \<Rightarrow> wc_file \<Rightarrow> u32 list \<Rightarrow> bool" where
  "located p fs cs \<longleftrightarrow> (\<forall>ptr. unat ptr div 32768 < length cs \<longrightarrow>
     iterate_file p (fs\<lparr>wf_ptr := ptr\<rparr>) =
       (if 0 < run_left (drop (unat ptr div 32768) cs)
        then Some (cs ! (unat ptr div 32768), of_nat (run_left (drop (unat ptr div 32768) cs))) else None))"

text \<open>No position from \<open>P\<close> on lies in the last cluster of a run.\<close>

definition inside_runs :: "u32 list \<Rightarrow> nat \<Rightarrow> nat \<Rightarrow> bool" where
  "inside_runs cs P n \<longleftrightarrow> (\<forall>q. P \<le> q \<longrightarrow> q < P + n \<longrightarrow> 0 < run_left (drop (q div 32768) cs))"

lemma cluster2sector_unat:
  assumes "wc_area p limit cs" and "c \<in> set cs"
  shows "unat (cluster2sector p c) = unat (pi_data_sect p) + 64 * (unat c - 2)" and "2 \<le> unat c"
proof -
  have a: "pi_clust_shift p = 6" "2 \<le> c" "unat (pi_data_sect p) + 64 * (unat c - 2) + 64 \<le> 2 ^ 32"
    using assms by (auto simp: wc_area_def)
  have "(2 :: u32) \<le> c" by (rule a)
  then show c: "2 \<le> unat c" by (simp add: word_le_nat_alt)
  then have s: "unat (c - 2) = unat c - 2" using unat_sub_le [of 2 c] by simp
  have "2 ^ 6 * unat (c - 2) < 2 ^ 32" using a(3) s by simp
  then have "unat (push_bit 6 (c - 2)) = 64 * (unat c - 2)" using unat_push_small [of 6 "c - 2"] s by simp
  then show "unat (cluster2sector p c) = unat (pi_data_sect p) + 64 * (unat c - 2)"
    unfolding cluster2sector_def a(1) using a(3) by (subst unat_add_small) simp_all
qed

lemma cluster2sector_64:
  assumes "pi_clust_shift p = 6"
  shows "cluster2sector p c = pi_data_sect p + 64 * (c - 2)"
proof -
  have "unat (pi_clust_shift p) = 6" using assms by simp
  then show ?thesis unfolding cluster2sector_def by (simp only: push_bit_eq_mult) simp
qed

lemma run_follows:
  assumes "r \<le> run_left (drop k cs)" and "k < length cs"
  shows "k + r < length cs" and "cs ! (k + r) = cs ! k + of_nat r"
proof -
  have "r < length xs \<and> xs ! r = xs ! 0 + of_nat r" if "r \<le> run_left xs" "xs \<noteq> []" for r xs
    using that
  proof (induction xs arbitrary: r rule: run_left.induct)
    case (1 c d cs)
    then show ?case by (cases r) (auto split: if_splits simp: algebra_simps)
  qed simp_all
  from this [OF assms(1)] assms(2) show "k + r < length cs" "cs ! (k + r) = cs ! k + of_nat r" by auto
qed

lemma run_left_Suc:
  assumes "r < run_left (drop k cs)"
  shows "run_left (drop (k + r) cs) = run_left (drop k cs) - r"
proof -
  have "run_left (drop r xs) = run_left xs - r" if "r < run_left xs" for r xs
    using that by (induction xs arbitrary: r rule: run_left.induct) (auto split: if_splits simp: drop_Cons split: nat.splits)
  from this [of r "drop k cs"] assms show ?thesis by (simp add: add.commute [of k r])
qed

lemma slice_sectors_run:
  assumes "\<And>t. length (f t) = bps" and "i + m \<le> n"
  shows "slice (sectors_of f s n) (i * bps) (m * bps) = sectors_of f (s + of_nat i) m"
proof -
  obtain r where n: "n = i + (m + r)" using assms(2) by (metis add.assoc le_Suc_ex)
  show ?thesis
    unfolding n sectors_of_add by (simp add: slice_def length_sectors_of [OF assms(1)])
qed

lemma length_wc_data: "(\<And>t. length (view t) = 512) \<Longrightarrow> length (wc_data view p cs) = 32768 * length cs"
  by (induction cs) (simp_all add: wc_data_def length_sectors_of)

lemma slice_cluster:
  assumes "\<And>t. length (view t) = 512" and "k < length cs"
  shows "slice (wc_data view p cs) (k * 32768) 32768 = sectors_of view (cluster2sector p (cs ! k)) 64"
  using assms(2)
proof (induction cs arbitrary: k)
  case (Cons c cs)
  have l: "length (sectors_of view (cluster2sector p c) 64) = 32768" using length_sectors_of [OF assms(1)] by simp
  show ?case
  proof (cases k)
    case 0
    then show ?thesis using l by (simp add: wc_data_def slice_def)
  next
    case (Suc j)
    then show ?thesis using Cons.IH [of j] Cons.prems l by (simp add: wc_data_def slice_def)
  qed
qed simp

lemma run_sectors:
  assumes len: "\<And>t. length (view t) = 512" and area: "wc_area p limit cs" and "k < length cs" and "r \<le> run_left (drop k cs)"
  shows "sectors_of view (cluster2sector p (cs ! k)) (64 * (r + 1)) = slice (wc_data view p cs) (k * 32768) ((r + 1) * 32768)"
  using assms(4)
proof (induction r)
  case 0
  show ?case using slice_cluster [OF len assms(3)] by simp
next
  case (Suc r)
  have nx: "k + Suc r < length cs" "cs ! (k + Suc r) = cs ! k + of_nat (Suc r)" using run_follows [OF Suc.prems assms(3)] by simp_all
  have s: "cluster2sector p (cs ! (k + Suc r)) = cluster2sector p (cs ! k) + of_nat (64 * (r + 1))"
  proof -
    have "pi_clust_shift p = 6" using area by (simp add: wc_area_def)
    then show ?thesis unfolding nx(2) by (simp add: cluster2sector_64 algebra_simps)
  qed
  have "sectors_of view (cluster2sector p (cs ! k)) (64 * (r + 1) + 64) =
      slice (wc_data view p cs) (k * 32768) ((r + 1) * 32768) @ slice (wc_data view p cs) ((k + Suc r) * 32768) 32768"
    using Suc slice_cluster [OF len nx(1), where p = p] s by (simp only: sectors_of_add Suc_leD)
  also have "\<dots> = slice (wc_data view p cs) (k * 32768) ((r + 1) * 32768 + 32768)"
    by (simp only: slice_add) (simp add: algebra_simps)
  finally show ?case by (simp add: algebra_simps)
qed

section \<open>Pages\<close>

lemma unat_and_7: "unat ((x :: u32) AND 7) = unat x mod 8"
proof -
  have "x AND 7 = take_bit 3 x" by (simp add: take_bit_eq_mask mask_eq_exp_minus_1)
  then show ?thesis by (simp add: take_bit_eq_mod unat_mod_word)
qed

lemma page_number: "unat (drop_bit 12 (ptr :: u32) AND 7) = unat ptr div 4096 mod 8"
  by (simp only: unat_and_7 unat_drop_word) simp

lemma page_in_run:
  assumes len: "\<And>t. length (view t) = 512" and area: "wc_area p limit cs" and k: "k = unat ptr div 32768" "k < length cs"
    and r: "r \<le> run_left (drop k cs)" "unat ptr div 4096 mod 8 + nb \<le> 8 * (r + 1)" and "0 < nb"
  shows "sectors_of view (page_sector p (cs ! k) ptr) (8 * nb) = slice (wc_data view p cs) (unat ptr div 4096 * 4096) (4096 * nb)"
    and "unat (page_sector p (cs ! k) ptr) + 8 * nb \<le> limit" and "page_sector p (cs ! k) ptr \<noteq> 0"
    and "unat ptr div 4096 * 4096 + 4096 * nb \<le> 32768 * length cs"
proof -
  let ?pg = "unat ptr div 4096 mod 8" and ?c = "cs ! k"
  note last = run_follows [OF r(1) k(2)]
  have mem: "?c \<in> set cs" "cs ! (k + r) \<in> set cs" using k(2) last(1) by simp_all
  note c = cluster2sector_unat [OF area mem(1)] and l = cluster2sector_unat [OF area mem(2)]
  have small: "unat (pi_data_sect p) + 64 * (unat (cs ! (k + r)) - 2) + 64 \<le> limit" "limit \<le> 2 ^ 32" "32768 * length cs < 2 ^ 32"
    "0 < unat (pi_data_sect p)"
    using area mem(2) by (simp_all add: wc_area_def)
  have "unat (cs ! (k + r)) = unat ?c + r"
  proof -
    have "unat (cs ! k + of_nat j) = unat (cs ! k) + j" if "j \<le> r" for j
      using that
    proof (induction j)
      case (Suc j)
      note nx = run_follows [OF le_trans [OF Suc.prems r(1)] k(2)]
      have *: "cs ! (k + Suc j) \<in> set cs" "cs ! (k + Suc j) = cs ! k + of_nat (Suc j)"
        by (rule nth_mem [OF nx(1)], rule nx(2))
      have "2 \<le> unat (cs ! (k + Suc j))" by (rule cluster2sector_unat(2) [OF area *(1)])
      then have "unat ((cs ! k + of_nat j) + 1) \<noteq> 0" using *(2) by (simp add: ac_simps)
      then have "(cs ! k + of_nat j) + 1 \<noteq> 0" by (metis unat_0)
      then have "unat ((cs ! k + of_nat j) + 1) = Suc (unat (cs ! k + of_nat j))" by (simp add: unatSuc add.commute)
      then show ?case using Suc by (simp add: ac_simps)
    qed simp
    then show ?thesis using last(2) by simp
  qed
  then have room: "unat (cluster2sector p ?c) + 64 * (r + 1) \<le> limit" using small(1) c by simp
  have pg: "8 * ?pg + 8 * nb \<le> 64 * (r + 1)" using r(2) by linarith
  have pw: "8 * (drop_bit 12 ptr AND 7) = of_nat (8 * ?pg)"
    by (rule word_eqI_unat) (simp add: unat_word_ariths page_number unat_of_nat take_bit_eq_mod)
  have s: "page_sector p ?c ptr = cluster2sector p ?c + of_nat (8 * ?pg)" by (simp only: page_sector_def pw)
  have us: "unat (page_sector p ?c ptr) = unat (cluster2sector p ?c) + 8 * ?pg"
    unfolding s by (rule unat_offset) (use room pg small(2) \<open>0 < nb\<close> in linarith)
  show "unat (page_sector p ?c ptr) + 8 * nb \<le> limit" using us room pg by linarith
  show "page_sector p ?c ptr \<noteq> 0" using us c(1) small(4) by auto
  have q: "unat ptr div 4096 * 4096 = k * 32768 + ?pg * 4096"
  proof -
    have "unat ptr div 4096 div 8 = k" unfolding k(1) by (simp add: div_mult2_eq [symmetric])
    then have "unat ptr div 4096 = k * 8 + ?pg" by (metis div_mult_mod_eq)
    then show ?thesis by simp
  qed
  have lim: "k * 32768 + (r + 1) * 32768 \<le> 32768 * length cs" using last(1) by simp
  show "unat ptr div 4096 * 4096 + 4096 * nb \<le> 32768 * length cs" using q lim pg by linarith
  have "sectors_of view (page_sector p ?c ptr) (8 * nb) =
      slice (sectors_of view (cluster2sector p ?c) (64 * (r + 1))) (8 * ?pg * 512) (8 * nb * 512)"
    unfolding s by (rule slice_sectors_run [symmetric, OF len pg])
  also have "\<dots> = slice (wc_data view p cs) (k * 32768 + 8 * ?pg * 512) (8 * nb * 512)"
    unfolding run_sectors [OF len area k(2) r(1)] by (rule slice_slice) (use pg in linarith)
  finally show "sectors_of view (page_sector p ?c ptr) (8 * nb) = slice (wc_data view p cs) (unat ptr div 4096 * 4096) (4096 * nb)"
    unfolding q by (simp add: ac_simps)
qed

text \<open>The page buffer holds the page around the position.\<close>

definition page_of :: "u8 list \<Rightarrow> nat \<Rightarrow> u8 list" where
  "page_of data q = slice data (q div 4096 * 4096) 4096"

lemma located_here:
  assumes "located p fs cs" and "k = unat (wf_ptr fs) div 32768" and "k < length cs" and "0 < run_left (drop k cs)"
  shows "iterate_file p fs = Some (cs ! k, of_nat (run_left (drop k cs)))"
proof -
  have "fs\<lparr>wf_ptr := wf_ptr fs\<rparr> = fs" by simp
  then show ?thesis using assms unfolding located_def by metis
qed

lemma wc_okD:
  assumes "wc_ok disc med limit w"
  shows "disc_ok disc med 512" "disc_reliable disc limit" "limit \<le> 2 ^ 32" "length (wc_cache w) = unat (8 :: u32) * 512"
  using assms by (simp_all add: wc_ok_def)

lemma cache_set_page:
  assumes ok: "wc_ok disc med limit w" and area: "wc_area (wc_pi w) limit cs" and loc: "located (wc_pi w) fs cs"
    and k: "unat (wf_ptr fs) div 32768 < length cs" "0 < run_left (drop (unat (wf_ptr fs) div 32768) cs)"
  obtains w' where "cache_set disc fs w = Some w'" and "wc_ok disc med limit w'" and "wc_view med w' = wc_view med w"
    and "wc_pi w' = wc_pi w" and "wc_cache w' = page_of (wc_data (wc_view med w) (wc_pi w) cs) (unat (wf_ptr fs))"
proof -
  let ?k = "unat (wf_ptr fs) div 32768" and ?p = "wc_pi w" and ?v = "wc_view med w"
  note d = wc_okD [OF ok]
  have len: "length (?v t) = 512" for t using disc_ok_length [OF d(1)] by (simp add: wc_view_def)
  have pg: "unat (wf_ptr fs) div 4096 mod 8 + 1 \<le> 8 * (0 + 1)" using mod_less_divisor [of 8] by (simp add: Suc_leI)
  note page = page_in_run [OF len area refl k(1) _ pg, simplified]
  let ?s = "page_sector ?p (cs ! ?k) (wf_ptr fs)"
  obtain m' where m: "wc_read disc (wc_medium w) ?s 8 (wc_cache w) 0 = Some (sectors_of (med (wc_medium w)) ?s (unat (8 :: u32)), m')"
    "med m' = med (wc_medium w)"
    by (rule wc_read_fill [OF d(1-3) _ d(4), where s = ?s and m = "wc_medium w"]) (use page(2) in simp_all)
  let ?w = "w\<lparr>wc_cachesec := ?s, wc_cache := sectors_of (med (wc_medium w)) ?s 8, wc_medium := m'\<rparr>"
  have "cache_set disc fs w = Some ?w"
    using m(1) by (simp add: cache_set_def located_here [OF loc refl k] Let_def)
  moreover have "wc_ok disc med limit ?w"
    using ok m(2) length_sectors_of [OF disc_ok_length [OF d(1)]] by (simp add: wc_ok_def)
  ultimately show thesis
    using that [of ?w] m(2) page(1) by (simp add: wc_view_def page_of_def)
qed

lemma cache_get_page:
  assumes ok: "wc_ok disc med limit w" and area: "wc_area (wc_pi w) limit cs" and loc: "located (wc_pi w) fs cs"
    and k: "unat (wf_ptr fs) div 32768 < length cs" "0 < run_left (drop (unat (wf_ptr fs) div 32768) cs)"
  obtains w' where "cache_get disc fs w = Some w'" and "wc_ok disc med limit w'" and "wc_view med w' = wc_view med w"
    and "wc_pi w' = wc_pi w" and "wc_cache w' = page_of (wc_data (wc_view med w) (wc_pi w) cs) (unat (wf_ptr fs))"
proof (cases "page_sector (wc_pi w) (cs ! (unat (wf_ptr fs) div 32768)) (wf_ptr fs) = wc_cachesec w")
  case False
  then have eq: "cache_get disc fs w = cache_set disc fs w"
    by (auto simp: cache_get_def cache_set_def located_here [OF loc refl k] Let_def split: Option.bind_splits)
  show thesis by (rule cache_set_page [OF assms]) (rule that [unfolded eq])
next
  case True
  let ?k = "unat (wf_ptr fs) div 32768" and ?v = "wc_view med w"
  have len: "length (?v t) = 512" for t using disc_ok_length [OF wc_okD(1) [OF ok]] by (simp add: wc_view_def)
  have pg: "unat (wf_ptr fs) div 4096 mod 8 + 1 \<le> 8 * (0 + 1)" using mod_less_divisor [of 8] by (simp add: Suc_leI)
  note page = page_in_run [OF len area refl k(1) _ pg, simplified]
  have "wc_cachesec w \<noteq> 0" using page(3) True by simp
  then have "wc_cache w = sectors_of ?v (wc_cachesec w) 8" using ok by (simp add: wc_ok_def wc_view_def)
  then have "wc_cache w = page_of (wc_data ?v (wc_pi w) cs) (unat (wf_ptr fs))" using page(1) True by (simp add: page_of_def)
  then show thesis
    using that [of w] True ok by (simp add: cache_get_def located_here [OF loc refl k])
qed

section \<open>Reading\<close>

lemma located_moved [simp]: "located p (fs\<lparr>wf_ptr := q\<rparr>) cs = located p fs cs"
  by (simp add: located_def)

lemma inside_runs_at:
  assumes "inside_runs cs P n" and "P \<le> q" and "q < P + n"
  shows "0 < run_left (drop (q div 32768) cs)" and "q div 32768 < length cs"
proof -
  show r: "0 < run_left (drop (q div 32768) cs)" using assms by (simp add: inside_runs_def)
  then show "q div 32768 < length cs" by (cases "q div 32768 < length cs") simp_all
qed

lemma inside_runs_part: "inside_runs cs P n \<Longrightarrow> P \<le> q \<Longrightarrow> q + m \<le> P + n \<Longrightarrow> inside_runs cs q m"
  unfolding inside_runs_def by (meson le_trans less_le_trans)

lemma fit_page: "b \<le> 8 * r + (8 - a) \<Longrightarrow> a < 8 \<Longrightarrow> a + b \<le> 8 * (r + 1)" for a b r :: nat
  by simp

lemma block_loop_step:
  assumes "0 < count" and "iterate_file (wc_pi w) fs = Some (c, cc)"
    and "mc = cc * 8 + (8 - (drop_bit 12 (wf_ptr fs) AND 7))" and "nb = (if mc < count then mc else count)"
    and "wc_read disc (wc_medium w) (page_sector (wc_pi w) c (wf_ptr fs)) (8 * nb) out off = Some (out', m')"
  shows "block_loop disc count len off fs out w =
    block_loop disc (count - nb) (len - 0x1000 * nb) (off + unat (0x1000 * nb)) (fs\<lparr>wf_ptr := wf_ptr fs + 0x1000 * nb\<rparr>) out'
      (w\<lparr>wc_medium := m'\<rparr>)"
  by (subst block_loop.simps)
    (simp only: assms(1,2) if_True Option.bind_lunit prod.case Let_def assms(3) [symmetric] assms(4) [symmetric] assms(5))

lemma block_loop_reads:
  assumes "wc_ok disc med limit w" and "wc_area (wc_pi w) limit cs" and "located (wc_pi w) fs cs"
    and "4096 dvd unat (wf_ptr fs)" and "unat (wf_ptr fs) + 4096 * unat count \<le> 32768 * length cs"
    and "inside_runs cs (unat (wf_ptr fs)) (4096 * unat count)" and "off + 4096 * unat count \<le> length out"
  obtains w' where "block_loop disc count len off fs out w =
      Some (len - 0x1000 * count, off + 4096 * unat count, fs\<lparr>wf_ptr := wf_ptr fs + 0x1000 * count\<rparr>,
        splice out off (slice (wc_data (wc_view med w) (wc_pi w) cs) (unat (wf_ptr fs)) (4096 * unat count)), w')"
    and "wc_ok disc med limit w'" and "wc_view med w' = wc_view med w" and "wc_pi w' = wc_pi w"
  using assms
proof (induction "unat count" arbitrary: count len off fs out w thesis rule: less_induct)
  case less
  note ok = less.prems(2) and area = less.prems(3) and loc = less.prems(4)
  let ?q = "unat (wf_ptr fs)" and ?v = "wc_view med w" and ?p = "wc_pi w" and ?n = "unat count"
  let ?data = "wc_data ?v ?p cs"
  show ?case
  proof (cases "count = 0")
    case True
    have "block_loop disc count len off fs out w = Some (len, off, fs, out, w)" by (subst block_loop.simps) (simp add: True)
    then show thesis using less.prems(1) [of w] ok True by (simp add: slice_def splice_Nil)
  next
    case False
    then have n: "0 < ?n" by (simp add: unat_gt_0)
    let ?k = "?q div 32768" let ?r = "run_left (drop ?k cs)" and ?pg = "?q div 4096 mod 8"
    have k: "0 < ?r" "?k < length cs" using inside_runs_at [OF less.prems(7) order_refl] n by simp_all
    note d = wc_okD [OF ok]
    have len: "length (?v t) = 512" for t using disc_ok_length [OF d(1)] by (simp add: wc_view_def)
    have cs: "32768 * length cs < 2 ^ 32" using area by (simp add: wc_area_def)
    have rs: "?r < length cs" using run_left_less [of "drop ?k cs"] k(2) by auto
    define mc where "mc = of_nat ?r * 8 + (8 - (drop_bit 12 (wf_ptr fs) AND 7 :: u32))"
    have mc: "unat mc = 8 * ?r + (8 - ?pg)"
    proof -
      have "unat (of_nat ?r :: u32) = ?r" by (rule unat_of_small) (use rs cs in simp)
      then have a: "unat (of_nat ?r * 8 :: u32) = 8 * ?r" using rs cs by (subst unat_mult_small) simp_all
      have b: "unat (8 - (drop_bit 12 (wf_ptr fs) AND 7 :: u32)) = 8 - ?pg"
        by (subst unat_sub_le) (simp_all only: page_number, simp_all)
      have "8 * ?r + (8 - ?pg) < 2 ^ 32" using rs cs by simp
      then show ?thesis unfolding mc_def by (subst unat_add_small) (simp_all only: a b)
    qed
    define nb where "nb = (if mc < count then mc else count)"
    have nb: "unat nb = min (unat mc) ?n" "unat nb \<le> ?n" by (auto simp: nb_def word_less_nat_alt)
    have pg8: "?pg < 8" by simp
    have nb0: "0 < unat nb" unfolding nb(1) mc using n k(1) by (simp only: min_less_iff_conj) simp
    have le: "unat nb \<le> 8 * ?r + (8 - ?pg)" unfolding nb(1) mc by (rule min.cobounded1)
    have fit: "?pg + unat nb \<le> 8 * (?r + 1)" by (rule fit_page [OF le pg8])
    note page = page_in_run [OF len area refl k(2) order_refl fit nb0]
    have al: "?q div 4096 * 4096 = ?q" using less.prems(5) by simp
    have sz: "unat (0x1000 * nb) = 4096 * unat nb"
      using nb(2) less.prems(6) cs by (subst unat_mult_small) simp_all
    have s8: "unat (8 * nb) = 8 * unat nb"
      using nb(2) less.prems(6) cs by (subst unat_mult_small) simp_all
    let ?s = "page_sector ?p (cs ! ?k) (wf_ptr fs)"
    obtain m' where m: "wc_read disc (wc_medium w) ?s (8 * nb) out off =
        Some (splice out off (sectors_of (med (wc_medium w)) ?s (unat (8 * nb))), m')" "med m' = med (wc_medium w)"
      by (rule wc_read_ok [OF d(1-3), where s = ?s and n = "8 * nb" and off = off and buf = out and m = "wc_medium w"])
        (use page(2) s8 nb(2) less.prems(8) in simp_all)
    let ?out = "splice out off (slice ?data ?q (4096 * unat nb))" and ?w = "w\<lparr>wc_medium := m'\<rparr>"
    let ?fs = "fs\<lparr>wf_ptr := wf_ptr fs + 0x1000 * nb\<rparr>"
    have read: "wc_read disc (wc_medium w) ?s (8 * nb) out off = Some (?out, m')"
      using m(1) page(1) by (simp add: s8 al wc_view_def)
    have step: "block_loop disc count len off fs out w =
        block_loop disc (count - nb) (len - 0x1000 * nb) (off + 4096 * unat nb) ?fs ?out ?w"
      unfolding sz [symmetric]
      by (rule block_loop_step [OF _ located_here [OF loc refl k(2,1)] mc_def nb_def read [folded sz]])
        (use n in \<open>simp add: word_less_nat_alt\<close>)
    have cnt: "unat (count - nb) = ?n - unat nb" by (rule unat_sub_le) (rule nb(2))
    have ptr: "unat (wf_ptr ?fs) = ?q + 4096 * unat nb"
      using nb(2) less.prems(6) cs by (simp add: unat_add_small sz)
    have ld: "length (slice ?data ?q (4096 * unat nb)) = 4096 * unat nb"
      using length_wc_data [of ?v ?p cs] len page(4) al by simp
    have lo: "length ?out = length out" by (rule length_splice) (use ld nb(2) less.prems(8) in simp)
    have ok': "wc_ok disc med limit ?w" using ok m(2) by (simp add: wc_ok_def)
    show thesis
    proof (rule less.hyps [where count = "count - nb" and w = ?w and fs = ?fs and off = "off + 4096 * unat nb" and out = ?out
        and len = "len - 0x1000 * nb"])
      show "unat (count - nb) < ?n" using cnt nb0 n by simp
      show "wc_ok disc med limit ?w" by (rule ok')
      show "wc_area (wc_pi ?w) limit cs" "located (wc_pi ?w) ?fs cs" using area loc by simp_all
      show "4096 dvd unat (wf_ptr ?fs)" unfolding ptr using less.prems(5) by simp
      show "unat (wf_ptr ?fs) + 4096 * unat (count - nb) \<le> 32768 * length cs" unfolding ptr cnt using nb(2) less.prems(6) by simp
      show "inside_runs cs (unat (wf_ptr ?fs)) (4096 * unat (count - nb))"
        unfolding ptr cnt by (rule inside_runs_part [OF less.prems(7)]) (use nb(2) in simp_all)
      show "off + 4096 * unat nb + 4096 * unat (count - nb) \<le> length ?out" unfolding lo cnt using nb(2) less.prems(8) by simp
      fix w'
      assume b: "block_loop disc (count - nb) (len - 0x1000 * nb) (off + 4096 * unat nb) ?fs ?out ?w =
          Some (len - 0x1000 * nb - 0x1000 * (count - nb), off + 4096 * unat nb + 4096 * unat (count - nb),
            ?fs\<lparr>wf_ptr := wf_ptr ?fs + 0x1000 * (count - nb)\<rparr>,
            splice ?out (off + 4096 * unat nb)
              (slice (wc_data (wc_view med ?w) (wc_pi ?w) cs) (unat (wf_ptr ?fs)) (4096 * unat (count - nb))), w')"
        and i: "wc_ok disc med limit w'" "wc_view med w' = wc_view med ?w" "wc_pi w' = wc_pi ?w"
      have v: "wc_view med ?w = ?v" using m(2) by (simp add: wc_view_def)
      have n2: "4096 * ?n = 4096 * unat nb + 4096 * unat (count - nb)" using cnt nb(2) by simp
      have "splice ?out (off + 4096 * unat nb) (slice ?data (unat (wf_ptr ?fs)) (4096 * unat (count - nb))) =
          splice out off (slice ?data ?q (4096 * ?n))"
      proof -
        have "splice ?out (off + length (slice ?data ?q (4096 * unat nb))) (slice ?data (?q + 4096 * unat nb) (4096 * unat (count - nb))) =
            splice out off (slice ?data ?q (4096 * unat nb) @ slice ?data (?q + 4096 * unat nb) (4096 * unat (count - nb)))"
          by (rule splice_splice_append) (use ld n2 less.prems(8) in simp)
        then show ?thesis by (simp only: ld ptr n2 slice_add)
      qed
      with b have "block_loop disc count len off fs out w =
          Some (len - 0x1000 * count, off + 4096 * ?n, fs\<lparr>wf_ptr := wf_ptr fs + 0x1000 * count\<rparr>,
            splice out off (slice ?data ?q (4096 * ?n)), w')"
        unfolding step v by (simp add: n2 algebra_simps) (use n2 in linarith)
      then show thesis by (rule less.prems(1)) (use i v in simp_all)
    qed
  qed
qed

text \<open>The read, from any position whose bytes lie inside runs: as many bytes as are asked for or left, at the
  start of the caller's buffer.\<close>

lemma unat_and_FFF: "unat ((x :: u32) AND 0xFFF) = unat x mod 4096"
proof -
  have "x AND 0xFFF = take_bit 12 x" by (simp add: take_bit_eq_mask mask_eq_exp_minus_1)
  then show ?thesis by (simp add: take_bit_eq_mod unat_mod_word)
qed

lemma inside_runs_end:
  assumes "inside_runs cs P n" and "0 < n"
  shows "P + n \<le> 32768 * length cs"
proof -
  have "(P + n - 1) div 32768 < length cs" by (rule inside_runs_at(2) [OF assms(1)]) (use assms(2) in simp_all)
  then have "P + n - 1 < length cs * 32768" by (subst (asm) div_less_iff_less_mult) simp_all
  then show ?thesis using assms(2) by simp
qed

definition read_rest ::
    "'d disc_interface \<Rightarrow> u32 \<Rightarrow> u32 \<Rightarrow> nat \<Rightarrow> wc_file \<Rightarrow> u8 list \<Rightarrow> 'd wc \<Rightarrow> (u32 \<times> wc_file \<times> u8 list \<times> 'd wc) option" where
  "read_rest disc idx len off fs out w = do {
     (len, off, fs, out, w) \<leftarrow> block_loop disc (drop_bit 12 len) len off fs out w;
     (fs, out, w) \<leftarrow>
       (if len > 0 then do {
          w \<leftarrow> cache_set disc fs w;
          data \<leftarrow> peek (wc_cache w) 0 (unat len);
          out \<leftarrow> poke out off data;
          Some (fs\<lparr>wf_ptr := wf_ptr fs + len\<rparr>, out, w)
        } else Some (fs, out, w));
     Some (wf_ptr fs - idx, fs, out, w)
   }"

lemma read_rest_reads:
  assumes ok: "wc_ok disc med limit w" and area: "wc_area (wc_pi w) limit cs" and loc: "located (wc_pi w) fs cs"
    and al: "4096 dvd unat (wf_ptr fs)" and inside: "inside_runs cs (unat (wf_ptr fs)) (unat len)" and len: "0 < unat len"
    and room: "off + unat len \<le> length out"
  obtains w' where "read_rest disc idx len off fs out w = Some (wf_ptr fs + len - idx, fs\<lparr>wf_ptr := wf_ptr fs + len\<rparr>,
        splice out off (slice (wc_data (wc_view med w) (wc_pi w) cs) (unat (wf_ptr fs)) (unat len)), w')"
    and "wc_ok disc med limit w'" and "wc_view med w' = wc_view med w" and "wc_pi w' = wc_pi w"
proof -
  let ?q = "unat (wf_ptr fs)" and ?data = "wc_data (wc_view med w) (wc_pi w) cs"
  let ?c = "drop_bit 12 len :: u32"
  have c: "unat ?c = unat len div 4096" by (simp only: unat_drop_word) simp
  have split: "unat len = 4096 * unat ?c + unat len mod 4096" unfolding c by simp
  have fin: "?q + unat len \<le> 32768 * length cs" by (rule inside_runs_end [OF inside len])
  have cs: "32768 * length cs < 2 ^ 32" using area by (simp add: wc_area_def)
  have le: "4096 * unat ?c \<le> unat len" unfolding c by simp
  have b1: "?q + 4096 * unat ?c \<le> 32768 * length cs" using fin le by linarith
  have b2: "inside_runs cs ?q (4096 * unat ?c)" by (rule inside_runs_part [OF inside]) (use le in simp_all)
  have b3: "off + 4096 * unat ?c \<le> length out" using room le by linarith
  obtain w1 where w1: "block_loop disc ?c len off fs out w =
      Some (len - 0x1000 * ?c, off + 4096 * unat ?c, fs\<lparr>wf_ptr := wf_ptr fs + 0x1000 * ?c\<rparr>,
        splice out off (slice ?data ?q (4096 * unat ?c)), w1)"
    and i1: "wc_ok disc med limit w1" "wc_view med w1 = wc_view med w" "wc_pi w1 = wc_pi w"
    by (rule block_loop_reads [OF ok area loc al b1 b2 b3])
  have k: "unat (0x1000 * ?c) = 4096 * unat ?c" using le unat_lt_2p32 [of len] by (subst unat_mult_small) simp_all
  have l2: "unat (len - 0x1000 * ?c) = unat len mod 4096" using split le by (subst unat_sub_le) (simp_all add: k)
  show thesis
  proof (cases "unat len mod 4096 = 0")
    case True
    have "len - 0x1000 * ?c = 0" by (rule word_eqI_unat) (simp only: l2 True unat_0)
    then have e: "0x1000 * ?c = len" by simp
    have "4096 * unat ?c = unat len" using split True by simp
    then show thesis using that [of w1] w1 i1 by (simp add: read_rest_def e)
  next
    case False
    let ?fs = "fs\<lparr>wf_ptr := wf_ptr fs + 0x1000 * ?c\<rparr>" and ?l = "len - 0x1000 * ?c"
    let ?out = "splice out off (slice ?data ?q (4096 * unat ?c))"
    have q: "unat (wf_ptr ?fs) = ?q + 4096 * unat ?c" using b1 cs by (simp add: unat_add_small k)
    have lt: "?q + 4096 * unat ?c < ?q + unat len" using split False by linarith
    note at = inside_runs_at [OF inside _ lt, unfolded q [symmetric]]
    have loc1: "located (wc_pi w1) ?fs cs" using loc i1(3) by simp
    obtain w2 where w2: "cache_set disc ?fs w1 = Some w2" "wc_ok disc med limit w2" "wc_view med w2 = wc_view med w1"
      "wc_pi w2 = wc_pi w1" "wc_cache w2 = page_of (wc_data (wc_view med w1) (wc_pi w1) cs) (unat (wf_ptr ?fs))"
      by (rule cache_set_page [OF i1(1) area [folded i1(3)] loc1 at(2,1)]) (use q in simp_all)
    have pos: "?l > 0" using False l2 by (simp add: word_less_nat_alt)
    have data: "peek (wc_cache w2) 0 (unat ?l) = Some (slice ?data (?q + 4096 * unat ?c) (unat ?l))"
    proof -
      have "4096 dvd unat (wf_ptr ?fs)" unfolding q using al by simp
      then have "wc_cache w2 = slice ?data (unat (wf_ptr ?fs)) 4096" using w2(5) i1 by (simp add: page_of_def)
      moreover have "length (wc_cache w2) = 4096" using w2(2) by (simp add: wc_ok_def)
      moreover have "unat ?l \<le> 4096" unfolding l2 by (simp add: less_imp_le)
      ultimately show ?thesis using slice_slice [of 0 "unat ?l" 4096 ?data "unat (wf_ptr ?fs)"] q by (simp add: peek_def)
    qed
    have v: "length (wc_view med w t) = 512" for t using disc_ok_length [OF wc_okD(1) [OF ok]] by (simp add: wc_view_def)
    have ld: "length (slice ?data ?q (4096 * unat ?c)) = 4096 * unat ?c" "length (slice ?data (?q + 4096 * unat ?c) (unat ?l)) = unat ?l"
      using length_wc_data [of "wc_view med w" "wc_pi w" cs] v fin split by (simp_all add: l2)
    have n2: "unat len = 4096 * unat ?c + unat ?l" using split l2 by simp
    have lo: "length ?out = length out" by (rule length_splice) (use ld b3 in simp)
    have "poke ?out (off + 4096 * unat ?c) (slice ?data (?q + 4096 * unat ?c) (unat ?l)) = Some (splice out off (slice ?data ?q (unat len)))"
    proof -
      have "splice ?out (off + length (slice ?data ?q (4096 * unat ?c))) (slice ?data (?q + 4096 * unat ?c) (unat ?l)) =
          splice out off (slice ?data ?q (4096 * unat ?c) @ slice ?data (?q + 4096 * unat ?c) (unat ?l))"
        by (rule splice_splice_append) (use ld n2 room in simp)
      moreover have "off + 4096 * unat ?c + unat ?l \<le> length ?out" unfolding lo using n2 room by simp
      ultimately show ?thesis by (simp only: poke_def ld n2 slice_add if_True)
    qed
    then have "read_rest disc idx len off fs out w = Some (wf_ptr fs + len - idx, fs\<lparr>wf_ptr := wf_ptr fs + len\<rparr>,
        splice out off (slice ?data ?q (unat len)), w2)"
      unfolding read_rest_def w1 using pos w2(1) data by simp
    then show thesis by (rule that) (use w2 i1 in simp_all)
  qed
qed

lemma WC_read_r_split:
  "WC_read_r disc fs out len w =
    (let len = (if wf_filesize fs - wf_ptr fs < len then wf_filesize fs - wf_ptr fs else len); cidx = wf_ptr fs AND 0xFFF
     in if cidx \<noteq> 0 then do {
          w \<leftarrow> cache_get disc fs w;
          let sz = (if len < 4096 - cidx then len else 4096 - cidx);
          data \<leftarrow> peek (wc_cache w) (unat cidx) (unat sz);
          out \<leftarrow> poke out 0 data;
          (if len - sz = 0 then Some (sz, fs\<lparr>wf_ptr := wf_ptr fs + sz\<rparr>, out, w)
           else read_rest disc (wf_ptr fs) (len - sz) (unat sz) (fs\<lparr>wf_ptr := wf_ptr fs + sz\<rparr>) out w)
        } else read_rest disc (wf_ptr fs) len 0 fs out w)"
  by (simp add: WC_read_r_def Let_def read_rest_def bind_assoc cong: option.case_cong if_cong) 

lemma block_next: "a * 4096 + m = q \<Longrightarrow> s + m = 4096 \<Longrightarrow> q + s = (a + 1) * 4096" for a m q s :: nat
  by simp

lemma WC_read_r_reads:
  assumes ok: "wc_ok disc med limit w" and area: "wc_area (wc_pi w) limit cs" and loc: "located (wc_pi w) fs cs"
    and size: "unat (wf_ptr fs) < unat (wf_filesize fs)" and pos: "0 < unat len"
    and n: "n = min (unat len) (unat (wf_filesize fs) - unat (wf_ptr fs))"
    and inside: "inside_runs cs (unat (wf_ptr fs)) n" and room: "n \<le> length out"
  obtains w' where "WC_read_r disc fs out len w =
      Some (of_nat n, fs\<lparr>wf_ptr := wf_ptr fs + of_nat n\<rparr>,
        splice out 0 (slice (wc_data (wc_view med w) (wc_pi w) cs) (unat (wf_ptr fs)) n), w')"
    and "wc_ok disc med limit w'" and "wc_view med w' = wc_view med w" and "wc_pi w' = wc_pi w"
proof -
  let ?q = "unat (wf_ptr fs)" and ?data = "wc_data (wc_view med w) (wc_pi w) cs"
  define l where "l = (if wf_filesize fs - wf_ptr fs < len then wf_filesize fs - wf_ptr fs else len)"
  have l: "unat l = n"
    unfolding l_def n using unat_sub_le [of "wf_ptr fs" "wf_filesize fs"] size by (auto simp: word_less_nat_alt)
  have ln: "of_nat n = l" unfolding l [symmetric] by simp
  have n0: "0 < n" using n size pos by simp
  have v: "length (wc_view med w t) = 512" for t using disc_ok_length [OF wc_okD(1) [OF ok]] by (simp add: wc_view_def)
  have fin: "?q + n \<le> 32768 * length cs" by (rule inside_runs_end [OF inside n0])
  have cs: "32768 * length cs < 2 ^ 32" using area by (simp add: wc_area_def)
  note inside' = inside [folded l]
  let ?x = "wf_ptr fs AND 0xFFF"
  have x: "unat ?x = ?q mod 4096" by (rule unat_and_FFF)
  show thesis
  proof (cases "?x = 0")
    case True
    then have "4096 dvd ?q" using x by (simp add: dvd_eq_mod_eq_0)
    then obtain w' where r: "read_rest disc (wf_ptr fs) l 0 fs out w = Some (wf_ptr fs + l - wf_ptr fs, fs\<lparr>wf_ptr := wf_ptr fs + l\<rparr>,
        splice out 0 (slice ?data ?q (unat l)), w')" and i: "wc_ok disc med limit w'" "wc_view med w' = wc_view med w" "wc_pi w' = wc_pi w"
      by (rule read_rest_reads [OF ok area loc _ inside', where off = 0 and out = out and idx = "wf_ptr fs"]) (use l n0 room in simp_all)
    show thesis by (rule that [OF _ i]) (use True r in \<open>simp add: WC_read_r_split l_def [symmetric] ln l\<close>)
  next
    case False
    note at = inside_runs_at [OF inside order_refl, simplified, OF n0]
    obtain w1 where w1: "cache_get disc fs w = Some w1" and i1: "wc_ok disc med limit w1" "wc_view med w1 = wc_view med w"
      "wc_pi w1 = wc_pi w" and buf: "wc_cache w1 = page_of ?data ?q"
      by (rule cache_get_page [OF ok area loc at(2,1)])
    define sz where "sz = (if l < 4096 - ?x then l else 4096 - ?x)"
    have xl: "?q mod 4096 < 4096" by simp
    have rem: "unat (4096 - ?x) = 4096 - ?q mod 4096" using xl by (subst unat_sub_le) (simp_all add: x)
    have sz: "unat sz = min n (4096 - ?q mod 4096)" unfolding sz_def using l rem by (auto simp: word_less_nat_alt)
    have szn: "unat sz \<le> n" "?q mod 4096 + unat sz \<le> 4096" using sz xl by simp_all
    have "length (wc_cache w1) = 4096" using i1(1) by (simp add: wc_ok_def)
    moreover have "slice (page_of ?data ?q) (?q mod 4096) (unat sz) = slice ?data ?q (unat sz)"
      using szn(2) by (simp add: page_of_def slice_slice)
    ultimately have data: "peek (wc_cache w1) (unat ?x) (unat sz) = Some (slice ?data ?q (unat sz))"
      using szn(2) buf by (simp add: peek_def x)
    let ?out = "splice out 0 (slice ?data ?q (unat sz))" and ?fs = "fs\<lparr>wf_ptr := wf_ptr fs + sz\<rparr>"
    have ld: "length (slice ?data ?q (unat sz)) = unat sz"
      using length_wc_data [of "wc_view med w" "wc_pi w" cs] v fin szn(1) by simp
    have put: "poke out 0 (slice ?data ?q (unat sz)) = Some ?out" using ld szn(1) room by (simp add: poke_def)
    show thesis
    proof (cases "l - sz = 0")
      case True
      then have e: "sz = l" by simp
      have "WC_read_r disc fs out len w = Some (l, fs\<lparr>wf_ptr := wf_ptr fs + l\<rparr>, splice out 0 (slice ?data ?q n), w1)"
        unfolding WC_read_r_split l_def [symmetric] Let_def sz_def [symmetric]
        using False w1 data put by (simp add: e l)
      then show thesis using that [of w1] i1 by (simp add: ln)
    next
      case ne: False
      have "unat sz \<noteq> n"
      proof
        assume "unat sz = n"
        then have "sz = l" by (intro word_eqI_unat) (simp only: l)
        with ne show False by simp
      qed
      then have full: "unat sz = 4096 - ?q mod 4096" "unat sz < n" using sz by simp_all
      have q1: "unat (wf_ptr ?fs) = ?q + unat sz" using fin cs full(2) by (simp add: unat_add_small)
      have ls: "unat (l - sz) = n - unat sz" using unat_sub_le [of sz l] l full(2) by simp
      have "unat sz + ?q mod 4096 = 4096" using full(1) xl by simp
      with div_mult_mod_eq [of ?q 4096] have "?q + unat sz = (?q div 4096 + 1) * 4096" by (rule block_next)
      then have a: "4096 dvd unat (wf_ptr ?fs)" unfolding q1 by (metis dvd_triv_right)
      have ins: "inside_runs cs (unat (wf_ptr ?fs)) (unat (l - sz))"
        unfolding q1 ls by (rule inside_runs_part [OF inside]) (use full in simp_all)
      have lo: "length ?out = length out" by (rule length_splice) (use ld room szn in simp)
      have area1: "wc_area (wc_pi w1) limit cs" and loc1: "located (wc_pi w1) ?fs cs" using area loc i1(3) by simp_all
      obtain w' where r: "read_rest disc (wf_ptr fs) (l - sz) (unat sz) ?fs ?out w1 =
          Some (wf_ptr ?fs + (l - sz) - wf_ptr fs, ?fs\<lparr>wf_ptr := wf_ptr ?fs + (l - sz)\<rparr>,
            splice ?out (unat sz) (slice (wc_data (wc_view med w1) (wc_pi w1) cs) (unat (wf_ptr ?fs)) (unat (l - sz))), w')"
        and i: "wc_ok disc med limit w'" "wc_view med w' = wc_view med w1" "wc_pi w' = wc_pi w1"
        by (rule read_rest_reads [OF i1(1) area1 loc1 a ins, where off = "unat sz" and out = ?out and idx = "wf_ptr fs"])
          (use ls full lo room in simp_all)
      have j: "splice ?out (unat sz) (slice ?data (?q + unat sz) (n - unat sz)) = splice out 0 (slice ?data ?q n)"
      proof -
        have "length (slice ?data (?q + unat sz) (n - unat sz)) \<le> n - unat sz" by simp
        then have le: "0 + length (slice ?data ?q (unat sz)) + length (slice ?data (?q + unat sz) (n - unat sz)) \<le> length out"
          unfolding ld using room full(2) by linarith
        have "splice ?out (0 + length (slice ?data ?q (unat sz))) (slice ?data (?q + unat sz) (n - unat sz)) =
            splice out 0 (slice ?data ?q (unat sz) @ slice ?data (?q + unat sz) (n - unat sz))"
          by (rule splice_splice_append [OF le])
        then show ?thesis using full(2) by (simp only: ld add_0 slice_add [symmetric] le_add_diff_inverse less_imp_le)
      qed
      have "read_rest disc (wf_ptr fs) (l - sz) (unat sz) ?fs ?out w1 =
          Some (l, fs\<lparr>wf_ptr := wf_ptr fs + l\<rparr>, splice out 0 (slice ?data ?q n), w')"
        using r unfolding q1 ls i1(2,3) j by simp
      then have "WC_read_r disc fs out len w = Some (l, fs\<lparr>wf_ptr := wf_ptr fs + l\<rparr>, splice out 0 (slice ?data ?q n), w')"
        unfolding WC_read_r_split l_def [symmetric] Let_def sz_def [symmetric] using False w1 data put ne by simp
      then show thesis using that [of w'] i i1 by (simp add: ln)
    qed
  qed
qed

end
