(* ===== verification/WcTextSpec.thy ===== *)
theory WcTextSpec
  imports WcText Directory
begin

text \<open>
  Facts about the text helpers: the encoding of one character and its inverse, texts as sequences of
  encoded characters, the checksum step on bytes, short names as text and the comparison of names.
\<close>

section \<open>The checksum\<close>

lemma top_byte: "unat (ucast (drop_bit 24 (x :: u32)) :: u8) = unat x div 2 ^ 24"
  using unat_lt_2p32 [of x] by (simp add: unsigned_ucast_eq unat_drop_word take_bit_nat_eq_self_iff less_mult_imp_div_less)

lemma half_split: "(n :: nat) div 2 = a * (n div a div 2) + n div 2 mod a"
  by (simp only: div_mult2_eq [symmetric] mult.commute [of 2]) (simp only: div_mult2_eq mult.commute [of a] div_mult_mod_eq)

lemma high_part: "(x :: nat) mod 2 ^ 32 div 2 ^ 24 = x div 2 ^ 24 mod 256"
proof -
  have "x mod (2 ^ 24 * 256) = 2 ^ 24 * (x div 2 ^ 24 mod 256) + x mod 2 ^ 24" by (rule mod_mult2_eq)
  then show ?thesis by simp
qed

lemma top_byte_step: "ucast (drop_bit 24 (crc_step s b)) = rotate_add (ucast (drop_bit 24 s)) b"
proof -
  let ?h = "unat s div 2 ^ 24"
  let ?t = "ucast (drop_bit 24 s) :: u8"
  have "s AND push_bit 24 1 \<noteq> 0 \<longleftrightarrow> bit (unat s) 24"
    by (simp only: bit_iff_and_push_bit_not_eq_0 [symmetric]) (simp add: bit_unsigned_iff)
  then have bit: "s AND push_bit 24 1 \<noteq> 0 \<longleftrightarrow> odd ?h" by (simp add: bit_iff_odd)
  have "?t AND 1 \<noteq> 0 \<longleftrightarrow> bit (unat ?t) 0"
    by (simp only: bit_iff_and_push_bit_not_eq_0 [of _ 0, simplified, symmetric]) (simp add: bit_unsigned_iff)
  then have bit0: "?t AND 1 \<noteq> 0 \<longleftrightarrow> odd ?h" by (simp add: top_byte bit_0)
  let ?f = "if odd ?h then 128 else (0 :: nat)"
  have b: "unat (push_bit 24 (ucast b :: u32)) = 2 ^ 24 * unat b"
  proof -
    have "unat b < 256" using unsigned_less [of b] by simp
    then have "unat (ucast b :: u32) = unat b" by (simp add: unsigned_ucast_eq take_bit_nat_eq_self_iff)
    with \<open>unat b < 256\<close> show ?thesis by (subst unat_push_small) simp_all
  qed
  have f: "unat (if s AND push_bit 24 1 \<noteq> 0 then 0x80000000 else 0 :: u32) = 2 ^ 24 * ?f" by (simp only: bit split: if_split) simp
  let ?x = "unat s div 2 + 2 ^ 24 * unat b + 2 ^ 24 * ?f"
  have "(r + q * 2 ^ 24) div 2 ^ 24 = q" if "r < 2 ^ 24" for r q :: nat using that by simp
  then have q: "(unat s div 2 mod 2 ^ 24 + (?h div 2 + unat b + ?f) * 2 ^ 24) div 2 ^ 24 = ?h div 2 + unat b + ?f"
    by (blast intro: mod_less_divisor zero_less_power zero_less_numeral)
  have "?x = unat s div 2 mod 2 ^ 24 + (?h div 2 + unat b + ?f) * 2 ^ 24"
    by (subst half_split [of _ "2 ^ 24"]) (simp only: algebra_simps)
  then have x: "?x div 2 ^ 24 = ?h div 2 + unat b + ?f" by (simp only: q)
  have "unat (crc_step s b) = ?x mod 2 ^ 32"
    unfolding crc_step_def unat_word_ariths b f unat_drop_word by (simp only: mod_add_left_eq) simp
  then have l: "unat (ucast (drop_bit 24 (crc_step s b)) :: u8) = (?h div 2 + unat b + ?f) mod 256"
    by (simp only: top_byte high_part x)
  have "unat (drop_bit 1 x) = unat x div 2" for x :: u8
    by (simp add: drop_bit_eq_div unat_div)
  then have "unat (drop_bit 1 ?t) = ?h div 2" by (simp only: top_byte)
  then have "unat (rotate_add ?t b) = (?f + ?h div 2 + unat b) mod 256"
    unfolding rotate_add_def unat_word_ariths bit0 by (simp add: mod_add_left_eq)
  with l have "unat (ucast (drop_bit 24 (crc_step s b)) :: u8) = unat (rotate_add ?t b)" by (simp add: ac_simps)
  then show ?thesis by (simp only: word_unat_eq_iff)
qed

lemma crc_is_rotate: "ucast (drop_bit 24 (foldl crc_step s bs)) = foldl rotate_add (ucast (drop_bit 24 s)) bs"
  by (induction bs arbitrary: s) (simp_all add: top_byte_step)

lemma crc4lfn_alias: "crc4lfn name = alias_checksum name"
  by (simp add: crc4lfn_def alias_checksum_def crc_is_rotate)


section \<open>UTF-8\<close>

definition utf8_of :: "wchar \<Rightarrow> u8 list" where
  "utf8_of w =
    (if w < 0x80 then [ucast w]
     else if w < 0x800 then [ucast (drop_bit 6 w OR 0xC0), ucast ((w AND 0x3F) OR 0x80)]
     else [ucast (drop_bit 12 w OR 0xE0), ucast ((drop_bit 6 w AND 0x3F) OR 0x80), ucast ((w AND 0x3F) OR 0x80)])"

lemma utf8_of_length: "0 < length (utf8_of w)" "length (utf8_of w) \<le> 3"
  by (simp_all add: utf8_of_def)

lemma utf16to8_loop_encodes:
  assumes "0 \<notin> set ws" and "length (concat (map utf8_of ws)) \<le> unat remaining"
  shows "utf16to8_loop (ws @ 0 # rest) remaining out = Some (out @ concat (map utf8_of ws))"
  using assms
proof (induction ws arbitrary: remaining out)
  case (Cons w ws)
  have len: "length (utf8_of w) + length (concat (map utf8_of ws)) \<le> unat remaining" using Cons.prems by simp
  have sub: "unat (remaining - k) = unat remaining - unat k" if "unat k \<le> unat remaining" for k
    using that by (rule unat_sub_le)
  have small: "remaining \<noteq> 0" using len utf8_of_length(1) [of w] by auto
  consider "w < 0x80" | "\<not> w < 0x80" "w < 0x800" | "\<not> w < 0x80" "\<not> w < 0x800" by blast
  then show ?case
  proof cases
    case 1
    then have "length (utf8_of w) = 1" by (simp add: utf8_of_def)
    with len sub [of 1] have "length (concat (map utf8_of ws)) \<le> unat (remaining - 1)" "\<not> remaining < 1"
      by (simp_all add: word_less_nat_alt)
    then show ?thesis using 1 Cons.prems(1) small Cons.IH [of "remaining - 1"] by (simp add: utf8_of_def [of w])
  next
    case 2
    then have "length (utf8_of w) = 2" by (simp add: utf8_of_def)
    with len sub [of 2] have "length (concat (map utf8_of ws)) \<le> unat (remaining - 2)" "\<not> remaining < 2"
      by (simp_all add: word_less_nat_alt)
    then show ?thesis using 2 Cons.prems(1) small Cons.IH [of "remaining - 2"] by (simp add: utf8_of_def [of w])
  next
    case 3
    then have "length (utf8_of w) = 3" by (simp add: utf8_of_def)
    with len sub [of 3] have "length (concat (map utf8_of ws)) \<le> unat (remaining - 3)" "\<not> remaining < 3"
      by (simp_all add: word_less_nat_alt)
    then show ?thesis using 3 Cons.prems(1) small Cons.IH [of "remaining - 3"] by (simp add: utf8_of_def [of w])
  qed
qed simp

lemma bit7: "(x :: u8) AND 0x80 = 0 \<longleftrightarrow> \<not> bit x 7"
  using bit_iff_and_push_bit_not_eq_0 [of x 7] by simp

lemma less_bits:
  fixes w :: wchar
  shows "w < 0x80 \<Longrightarrow> 7 \<le> n \<Longrightarrow> \<not> bit w n" "w < 0x800 \<Longrightarrow> 11 \<le> n \<Longrightarrow> \<not> bit w n"
proof -
  have *: "\<not> bit w n" if "unat w < 2 ^ k" "k \<le> n" for k
  proof -
    have "unat w < 2 ^ n" using that by (meson less_le_trans one_le_numeral power_increasing)
    then have "\<not> bit (unat w) n" by (simp add: bit_iff_odd)
    then show ?thesis by (auto simp: bit_unsigned_iff dest: bit_imp_le_length)
  qed
  show "\<not> bit w n" if "w < 0x80" "7 \<le> n" using that * [of 7] by (simp add: word_less_nat_alt)
  show "\<not> bit w n" if "w < 0x800" "11 \<le> n" using that * [of 11] by (simp add: word_less_nat_alt)
qed

lemma word_masks16: "(0x3F :: wchar) = mask 6" "(0x80 :: wchar) = push_bit 7 1" "(0xC0 :: wchar) = push_bit 6 (mask 2)"
   "(0xE0 :: wchar) = push_bit 5 (mask 3)" "(0x80 :: u8) = push_bit 7 1"
  by (simp_all add: mask_eq_exp_minus_1)

lemma const_bits:
  "bit (0x80 :: u8) n \<longleftrightarrow> n = 7" "bit (0x80 :: wchar) n \<longleftrightarrow> n = 7" "bit (0x3F :: wchar) n \<longleftrightarrow> n < 6"
  "bit (0xC0 :: wchar) n \<longleftrightarrow> n = 6 \<or> n = 7" "bit (0xE0 :: wchar) n \<longleftrightarrow> n = 5 \<or> n = 6 \<or> n = 7" "\<not> bit (w :: wchar) 16"
  unfolding word_masks16 by (auto simp only: bit_push_bit_iff bit_mask_iff bit_1_iff possible_bit_def) (auto simp: bit_simps dest: bit_imp_le_length)

lemma int_bits:
  "bit (128 :: int) n \<longleftrightarrow> n = 7" "bit (63 :: int) n \<longleftrightarrow> n < 6" "bit (192 :: int) n \<longleftrightarrow> n = 6 \<or> n = 7"
  "bit (224 :: int) n \<longleftrightarrow> n = 5 \<or> n = 6 \<or> n = 7"
proof -
  have "(128 :: int) = push_bit 7 1" "(63 :: int) = mask 6" "(192 :: int) = push_bit 6 (mask 2)" "(224 :: int) = push_bit 5 (mask 3)"
    by (simp_all add: mask_eq_exp_minus_1)
  then show "bit (128 :: int) n \<longleftrightarrow> n = 7" "bit (63 :: int) n \<longleftrightarrow> n < 6" "bit (192 :: int) n \<longleftrightarrow> n = 6 \<or> n = 7"
    "bit (224 :: int) n \<longleftrightarrow> n = 5 \<or> n = 6 \<or> n = 7"
    by (auto simp only: bit_push_bit_iff bit_mask_iff bit_1_iff possible_bit_def) (auto simp: bit_simps)
qed

lemma ascii_iff: "(x :: u8) < 0x80 \<longleftrightarrow> \<not> bit x 7"
proof -
  have "bit x 7 \<longleftrightarrow> bit (unat x) 7" by (simp add: bit_unsigned_iff)
  also have "\<dots> \<longleftrightarrow> odd (unat x div 128)" by (simp add: bit_iff_odd)
  also have "\<dots> \<longleftrightarrow> 128 \<le> unat x"
  proof -
    have "unat x < 256" using unsigned_less [of x] by simp
    then have "unat x div 128 = 0 \<and> unat x < 128 \<or> unat x div 128 = 1 \<and> 128 \<le> unat x"
      by (cases "unat x < 128") (simp_all add: le_div_geq)
    then show ?thesis by auto
  qed
  finally show ?thesis by (auto simp: word_less_nat_alt)
qed

lemma utf8_tail_stop: "\<not> bit lead 7 \<Longrightarrow> utf8_tail lead val sh Z = Some (lead, val, sh, Z)"
  by (simp add: utf8_tail.simps [of lead] bit7)

lemma utf8_tail_more:
  "bit lead 7 \<Longrightarrow> utf8_tail lead val sh (z # Z) = utf8_tail (push_bit 1 lead) (push_bit 6 val OR ucast (z XOR 0x80)) (sh + 5) Z"
  by (simp add: utf8_tail.simps [of lead] bit7)

lemma utf8_char_one: "w < 0x80 \<Longrightarrow> utf8_char (ucast w) R = Some (w, R)"
proof -
  assume w: "w < 0x80"
  have "\<not> bit (ucast w :: u8) 7" using less_bits(1) [OF w, of 7] by (simp add: bit_simps)
  moreover have "(ucast (ucast w :: u8) :: wchar) = w"
  proof (rule bit_word_eqI)
    fix n assume "n < LENGTH(16)"
    then show "bit (ucast (ucast w :: u8) :: wchar) n = bit w n"
      using less_bits(1) [OF w, of n] by (cases "n < 8") (auto simp: bit_simps)
  qed
  ultimately show ?thesis by (simp add: utf8_char_def ascii_iff)
qed

lemma lead_bits:
  fixes z :: u8
  shows "bit (push_bit 1 (z XOR 0x80)) 7 = bit z 6" "bit (push_bit 1 (push_bit 1 (z XOR 0x80))) 7 = bit z 5"
    "bit (push_bit 1 (push_bit 1 (push_bit 1 (z XOR 0x80)))) 7 = bit z 4"
  unfolding word_masks16(5) by (simp_all only: bit_push_bit_iff bit_xor_iff) (simp_all add: bit_simps)

lemma utf8_char_two:
  assumes "w < 0x800"
  shows "utf8_char (ucast (drop_bit 6 w OR 0xC0)) (ucast ((w AND 0x3F) OR 0x80) # R) = Some (w, R)"
proof -
  define z where "z = (ucast (drop_bit 6 w OR 0xC0) :: u8)"
  define y where "y = (ucast ((w AND 0x3F) OR 0x80) :: u8)"
  have z: "bit z 7" "bit z 6" "\<not> bit z 5"
    using less_bits(2) [OF assms, of 11] unfolding z_def by (simp_all add: bit_simps const_bits int_bits)
  define l where "l = push_bit 1 (push_bit 1 (z XOR 0x80))"
  have tail: "utf8_tail (push_bit 1 (z XOR 0x80)) 0 0 (y # R) = Some (l, ucast (y XOR 0x80), 5, R)"
  proof -
    have "utf8_tail (push_bit 1 (z XOR 0x80)) 0 0 (y # R) = utf8_tail l (push_bit 6 0 OR ucast (y XOR 0x80)) (0 + 5) R"
      unfolding l_def by (rule utf8_tail_more) (simp only: lead_bits z)
    also have "\<dots> = Some (l, push_bit 6 0 OR ucast (y XOR 0x80), 0 + 5, R)"
      by (rule utf8_tail_stop) (simp only: l_def lead_bits z not_False_eq_True)
    finally show ?thesis by simp
  qed
  have "(ucast (ucast (y XOR 0x80) OR push_bit 4 (ucast l) :: u32) :: wchar) = w"
  proof (rule bit_word_eqI)
    fix n assume n: "n < LENGTH(16)"
    have w: "bit w n \<Longrightarrow> n < 11" using less_bits(2) [OF assms, of n] by (cases "n < 11") simp_all
    have "bit (ucast (ucast (y XOR 0x80) OR push_bit 4 (ucast l) :: u32) :: wchar) n \<longleftrightarrow>
      bit (y XOR 0x80) n \<or> 4 \<le> n \<and> bit l (n - 4)"
      using n unfolding bit_simps by auto
    also have "bit (y XOR 0x80) n \<longleftrightarrow> n < 6 \<and> bit w n"
      using n unfolding y_def by (auto simp: bit_simps const_bits int_bits)
    also have "4 \<le> n \<and> bit l (n - 4) \<longleftrightarrow> 6 \<le> n \<and> bit w n"
      using n w unfolding l_def z_def bit_push_bit_iff by (auto simp: bit_simps const_bits int_bits)
    finally show "bit (ucast (ucast (y XOR 0x80) OR push_bit 4 (ucast l) :: u32) :: wchar) n = bit w n" by auto
  qed
  then show ?thesis using z(1) unfolding z_def [symmetric] y_def [symmetric] utf8_char_def ascii_iff tail by simp
qed

lemma utf8_char_three:
  "utf8_char (ucast (drop_bit 12 w OR 0xE0)) (ucast ((drop_bit 6 w AND 0x3F) OR 0x80) # ucast ((w AND 0x3F) OR 0x80) # R) =
    Some (w, R)"
proof -
  define z where "z = (ucast (drop_bit 12 w OR 0xE0) :: u8)"
  define x where "x = (ucast ((drop_bit 6 w AND 0x3F) OR 0x80) :: u8)"
  define y where "y = (ucast ((w AND 0x3F) OR 0x80) :: u8)"
  have z: "bit z 7" "bit z 6" "bit z 5" "\<not> bit z 4"
    unfolding z_def by (simp_all add: bit_simps const_bits int_bits)
  define l where "l = push_bit 1 (push_bit 1 (push_bit 1 (z XOR 0x80)))"
  define v where "v = push_bit 6 (ucast (x XOR 0x80)) OR (ucast (y XOR 0x80) :: u32)"
  have tail: "utf8_tail (push_bit 1 (z XOR 0x80)) 0 0 (x # y # R) = Some (l, v, 10, R)"
  proof -
    have "utf8_tail (push_bit 1 (z XOR 0x80)) 0 0 (x # y # R) =
        utf8_tail (push_bit 1 (push_bit 1 (z XOR 0x80))) (push_bit 6 0 OR ucast (x XOR 0x80)) (0 + 5) (y # R)"
      by (rule utf8_tail_more) (simp only: lead_bits z)
    also have "\<dots> = utf8_tail l (push_bit 6 (push_bit 6 0 OR ucast (x XOR 0x80)) OR ucast (y XOR 0x80)) (0 + 5 + 5) R"
      unfolding l_def by (rule utf8_tail_more) (simp only: lead_bits z)
    also have "\<dots> = Some (l, push_bit 6 (push_bit 6 0 OR ucast (x XOR 0x80)) OR ucast (y XOR 0x80), 0 + 5 + 5, R)"
      by (rule utf8_tail_stop) (simp only: l_def lead_bits z not_False_eq_True)
    finally show ?thesis by (simp add: v_def)
  qed
  have "(ucast (v OR push_bit 9 (ucast l) :: u32) :: wchar) = w"
  proof (rule bit_word_eqI)
    fix n assume n: "n < LENGTH(16)"
    have "bit (ucast (v OR push_bit 9 (ucast l) :: u32) :: wchar) n \<longleftrightarrow>
      (6 \<le> n \<and> bit (x XOR 0x80) (n - 6)) \<or> bit (y XOR 0x80) n \<or> 9 \<le> n \<and> bit l (n - 9)"
      using n unfolding v_def bit_simps by auto
    also have "bit (y XOR 0x80) n \<longleftrightarrow> n < 6 \<and> bit w n"
      using n unfolding y_def by (auto simp: bit_simps const_bits int_bits)
    also have "6 \<le> n \<and> bit (x XOR 0x80) (n - 6) \<longleftrightarrow> 6 \<le> n \<and> n < 12 \<and> bit w n"
      using n unfolding x_def by (auto simp: bit_simps const_bits int_bits)
    also have "9 \<le> n \<and> bit l (n - 9) \<longleftrightarrow> 12 \<le> n \<and> bit w n"
      using n unfolding l_def z_def bit_push_bit_iff by (auto simp: bit_simps const_bits int_bits)
    finally show "bit (ucast (v OR push_bit 9 (ucast l) :: u32) :: wchar) n = bit w n" by auto
  qed
  then show ?thesis using z(1) unfolding z_def [symmetric] x_def [symmetric] y_def [symmetric] utf8_char_def ascii_iff tail
    by simp
qed

text \<open>An encoded character is read back and does not contain the terminator.\<close>

lemma utf8_char_of:
  assumes "w \<noteq> 0"
  obtains z Z where "utf8_of w = z # Z" and "z \<noteq> 0" and "\<And>R. utf8_char z (Z @ R) = Some (w, R)"
proof -
  consider "w < 0x80" | "\<not> w < 0x80" "w < 0x800" | "\<not> w < 0x80" "\<not> w < 0x800" by blast
  then show thesis
  proof cases
    case 1
    have "(ucast w :: u8) \<noteq> 0"
    proof
      assume *: "(ucast w :: u8) = 0"
      have "\<not> bit w n" for n
      proof (cases "n < 7")
        case True
        then have "bit w n = bit (ucast w :: u8) n" by (simp add: bit_simps)
        then show ?thesis by (simp add: *)
      qed (use less_bits(1) [OF 1] in simp)
      then show False using assms by (auto intro: bit_word_eqI)
    qed
    with 1 show thesis by (intro that [of "ucast w" "[]"]) (simp_all add: utf8_of_def utf8_char_one)
  next
    case 2
    have "bit (ucast (drop_bit 6 w OR 0xC0) :: u8) 7" by (simp add: bit_simps const_bits int_bits)
    then have "(ucast (drop_bit 6 w OR 0xC0) :: u8) \<noteq> 0" by auto
    with 2 show thesis by (intro that) (auto simp: utf8_of_def utf8_char_two)
  next
    case 3
    have "bit (ucast (drop_bit 12 w OR 0xE0) :: u8) 7" by (simp add: bit_simps const_bits int_bits)
    then have "(ucast (drop_bit 12 w OR 0xE0) :: u8) \<noteq> 0" by auto
    with 3 show thesis by (intro that) (auto simp: utf8_of_def utf8_char_three)
  qed
qed

lemma utf8to16_loop_decodes:
  assumes "0 \<notin> set ws"
  shows "utf8to16_loop (concat (map utf8_of ws) @ 0 # rest) 0 out = Some (out @ ws, 0 # rest)"
  using assms
proof (induction ws arbitrary: out)
  case (Cons w ws)
  obtain z Z where z: "utf8_of w = z # Z" "z \<noteq> 0" "\<And>R. utf8_char z (Z @ R) = Some (w, R)"
    using utf8_char_of [of w] Cons.prems by auto
  then show ?case using Cons by simp
qed simp

lemma utf8_roundtrip:
  assumes "0 \<notin> set ws" and "3 * length ws < unat dst_size" and "unat dst_size \<le> length dst" and "length ws < length psplit"
  obtains dst' n where "utf16to8 (Some dst) (Some (ws @ 0 # rest)) dst_size = Some (Some dst', n)"
    and "utf8to16 dst' psplit 0 = Some (splice psplit 0 (ws @ [0]), n)" and "length dst' = length dst"
proof -
  let ?e = "concat (map utf8_of ws)"
  have "length ?e \<le> 3 * length ws"
  proof (induction ws)
    case (Cons w ws)
    then show ?case using utf8_of_length(2) [of w] by simp
  qed simp
  moreover have "dst_size \<noteq> 0" "unat (dst_size - 1) = unat dst_size - 1"
    using assms(2) unat_sub_le [of 1 dst_size] by auto
  ultimately have e: "utf16to8_loop (ws @ 0 # rest) (dst_size - 1) [] = Some ?e" and l: "length ?e < length dst"
    using assms utf16to8_loop_encodes [OF assms(1), of "dst_size - 1"] by simp_all
  let ?d = "splice dst 0 (?e @ [0])"
  have d: "?d = ?e @ 0 # drop (length ?e + 1) dst" by (simp add: splice_def)
  have "utf16to8 (Some dst) (Some (ws @ 0 # rest)) dst_size = Some (Some ?d, length ?e)"
    using \<open>dst_size \<noteq> 0\<close> l by (simp add: e poke_def)
  moreover have "utf8to16 ?d psplit 0 = Some (splice psplit 0 (ws @ [0]), length ?e)"
    unfolding utf8to16_def d using assms(4) l by (simp add: utf8to16_loop_decodes [OF assms(1)] poke_def)
  ultimately show thesis using that l by simp
qed

end
