(* ===== verification/WcTheorems.thy ===== *)
theory WcTheorems
  imports WcVolumeSpec WcReadSpec WcTextSpec RamDisc MountSpec
begin

text \<open>
  The properties of the front end \<open>wcfat.c\<close>: what its text helpers, its reading of the boot sector, its walk over
  a directory and its reading of files have in common with the library, and where they stop working.
\<close>

section \<open>Text\<close>

text \<open>The front end computes the checksum of a short name as the library does.\<close>

theorem front_end_checksum: "crc4lfn name = alias_checksum name"
  by (rule crc4lfn_alias)

text \<open>C32: roundtrip. A text without the terminator, written as UTF-8 into a block with room for three bytes for each
  of its characters, is read back from there, whatever its characters are.\<close>

theorem utf8_text_is_read_back:
  assumes "0 \<notin> set ws" and "3 * length ws < unat dst_size" and "unat dst_size \<le> length dst" and "length ws < length psplit"
  shows "\<exists>dst' n. utf16to8 (Some dst) (Some (ws @ 0 # rest)) dst_size = Some (Some dst', n) \<and>
    utf8to16 dst' psplit 0 = Some (splice psplit 0 (ws @ [0]), n)"
  using utf8_roundtrip [OF assms] by blast

theorem utf8_text_is_read_back_witness:
  "\<exists>dst' n. utf16to8 (Some (replicate 16 0xCC)) (Some [0x41, 0xE9, 0xD55C, 0]) 16 = Some (Some dst', n) \<and>
    utf8to16 dst' (replicate 8 0xCCCC) 0 = Some ([0x41, 0xE9, 0xD55C, 0, 0xCCCC, 0xCCCC, 0xCCCC, 0xCCCC], n)"
proof -
  have "splice (replicate 8 0xCCCC) 0 [0x41, 0xE9, 0xD55C, 0 :: wchar] = [0x41, 0xE9, 0xD55C, 0, 0xCCCC, 0xCCCC, 0xCCCC, 0xCCCC]"
    by (simp add: splice_def numeral_eq_Suc)
  then show ?thesis
    using utf8_text_is_read_back [of "[0x41, 0xE9, 0xD55C]" 16 "replicate 16 0xCC" "replicate 8 0xCCCC" "[]"] by simp
qed

section \<open>The boot sector\<close>

lemma ctz_power:
  assumes "n < 32"
  shows "ctz (2 ^ n) = of_nat n"
proof -
  have "[0..<32] = [0..<n] @ n # [Suc n..<32]"
    using assms by (metis upt_add_eq_append [of 0 n "32 - n"] add.left_neutral le_add_diff_inverse less_imp_le upt_conv_Cons zero_le)
  then have "takeWhile (\<lambda>i. \<not> bit (2 ^ n :: u32) i) [0..<32] = [0..<n]"
    using assms by (simp only:) (subst takeWhile_append2, simp_all add: bit_exp_iff)
  then show ?thesis by (simp add: ctz_def)
qed

text \<open>C30: equivalence. Where the front end accepts a FAT32 boot sector with sectors of 512 bytes, clusters of a power of
  two and the first table active, and the library accepts it too, both work on the same volume: type, root directory, table, data
  region and information sector agree, every cluster starts at the same sector, and its link is at the
  same place. Volumes without these three conditions are accepted by both as well, but read differently
  (\<open>large_sectors_differ\<close>, \<open>second_table_differs\<close>, \<open>uneven_clusters_differ\<close>).\<close>

theorem front_end_and_library_agree:
  assumes "check_fat b lba p0 = Some (True, q)" and "parse_bpb disc lba b mk = Some (Some p)"
    and "u8array_to_u16 b BPB_bytesPerSector = 512" and "bpb_spc b = 2 ^ n" and "n < 32" and "b ! BPB_FAT32_extFlags AND 0x0F = 0"
  shows "p_filesysType p = FS_FAT32 \<and> p_rootDirCluster p = pi_root_cluster q \<and> fat_fatStart (p_fat p) = pi_fat_sect0 q \<and>
    p_dataStart p = pi_data_sect q \<and> fat_lastCluster (p_fat p) = pi_total_clust q + 1 \<and> p_fsInfoSector p = pi_info_sect q \<and>
    (\<forall>c \<ge> CLUSTER_FIRST. cluster2sector q c = FAT_fat_clusterToSector p c) \<and>
    (\<forall>c. unat c < 2 ^ 30 \<longrightarrow> fat32_pos p c = Some (link_sector q c, 4 * (c mod 128)))"
proof -
  note a = check_fat_accepts [OF assms(1)]
  note z = accepted_bytes [OF a(1,2)]
  note l = parse_bpb_32 [OF assms(2) z(2-4)]
  have diff: "p_dataStart p - lba = bpb_cnt_rsv b + bpb_cnt_fat b * bpb_fatsz_32 b" by (simp add: l(3) z(1))
  then have ty: "p_filesysType p = FS_FAT32"
    using a(5) l(5) by (auto simp: select_fs_def CLUSTERS_PER_FAT12_def CLUSTERS_PER_FAT16_def word_less_nat_alt word_le_nat_alt)
  have info: "u8array_to_u16 b 48 = 1"
  proof -
    have "unat (u8array_to_u16 b 48) = 1" unfolding unat_wide(1) [symmetric] a(3) by simp
    then show ?thesis by (simp add: word_unat_eq_iff)
  qed
  have shift: "unat (pi_clust_shift q) = n" unfolding a(11) assms(4) ctz_power [OF assms(5)]
    using assms(5) by (simp add: unat_of_nat take_bit_nat_eq_self)
  have data: "p_dataStart p = pi_data_sect q" by (simp add: l(3) z(1) a(8))
  have sector: "cluster2sector q c = FAT_fat_clusterToSector p c" if "c \<ge> CLUSTER_FIRST" for c
    using that by (simp add: cluster2sector_def shift FAT_fat_clusterToSector_def l(2) assms(4) data CLUSTER_FIRST_def
        push_bit_eq_mult add.commute)
  have bps: "p_bytesPerSector p = 512" using l(1) assms(3) by simp
  have pos: "fat32_pos p c = Some (link_sector q c, 4 * (c mod 128))" if "unat c < 2 ^ 30" for c
  proof -
    have "push_bit 2 c div 512 = c div 128"
      using that by (intro word_eqI_unat) (simp add: unat_div_word unat_push_small del: push_bit_numeral)
    moreover have "push_bit 2 (c mod 128) = 4 * (c mod 128)" by (simp add: push_bit_eq_mult mult.commute)
    moreover have "drop_bit 2 (512 :: u32) = 128" by simp
    ultimately show ?thesis by (simp only: fat32_pos_def bps link_sector_def l(7) [OF assms(6)] a(7)) simp
  qed
  show ?thesis
    using ty l(4,6-8) a(6-10) diff data sector pos assms(6) info by (simp add: CLUSTER_FIRST_def)
qed

text \<open>A boot sector with one sector in a cluster, 32 reserved sectors, two tables of 513 sectors, and 69632 sectors.\<close>

definition boot32 :: "u8 list" where
  "boot32 = [0xEB, 0, 0x90, 0, 0, 0, 0, 0, 0, 0, 0, 0x00, 0x02, 1, 32, 0, 2, 0, 0, 0, 0, 0xF8, 0, 0] @ replicate 8 0 @
     [0, 0x10, 1, 0, 1, 2, 0, 0, 0, 0, 0, 0, 2, 0, 0, 0, 1, 0] @ replicate 32 0 @
     [0x46, 0x41, 0x54, 0x33, 0x32, 0x20, 0x20, 0x20] @ replicate 420 0 @ [0x55, 0xAA]"

lemma boot32_nth:
  "length boot32 = 512" "boot32 ! 13 = 1" "boot32 ! 40 = 0" "boot32 ! 16 = 2" "boot32 ! 71 = 0"
  "u8array_to_u16 boot32 11 = 512" "u8array_to_u16 boot32 14 = 32" "u8array_to_u32 boot32 16 = 2" "u8array_to_u32 boot32 20 = 0xF800"
  "u8array_to_u16 boot32 17 = 0" "u8array_to_u16 boot32 19 = 0" "u8array_to_u16 boot32 22 = 0"
  "u8array_to_u32 boot32 32 = 69632" "u8array_to_u32 boot32 36 = 513" "u8array_to_u16 boot32 40 = 0" "u8array_to_u32 boot32 44 = 2"
  "u8array_to_u16 boot32 48 = 1" "slice boot32 82 3 = FAT_SIG" "slice boot32 54 3 = replicate 3 0"
  by (simp_all add: boot32_def nth_append u8array_to_u16_def u8array_to_u32_def slice_def FAT_SIG_def)

lemma boot32_type: "wc_strncmp (drop 82 boot32) FS_TYPE_FAT32 8 = Some 0"
  by (simp add: boot32_def FS_TYPE_FAT32_def)

lemma label_cleared: "wc_memset (replicate 12 0) 0 12 = Some (replicate 12 0)"
proof -
  have "replicate 12 (0 :: u8) = [0, 0, 0, 0, 0, 0, 0, 0, 0, 0, 0, 0]" by (simp add: eval_nat_numeral)
  then show ?thesis by (simp only:) simp
qed

lemma boot32_checked: "\<exists>q. check_fat boot32 0 (wc_pi (wc_start ())) = Some (True, q)"
  by (simp add: check_fat_def boot32_nth boot32_type wc_start_def Let_def label_cleared)

lemma boot32_parsed:
  "\<exists>p. parse_bpb (ram_disc 512) 0 boot32 (\<lambda>_ _. Some (ram_cache 512 69632 (\<lambda>s. []))) = Some (Some p)"
  by (simp add: parse_bpb_def get_u16_def get_u32_def get_u8_def boot32_nth volume_label_def memeq_def peek_def FAT_SIG_def
      MIN_SECTOR_SIZE_def MAX_SECTOR_SIZE_def Let_def)

theorem front_end_and_library_agree_witness:
  "\<exists>q p. check_fat boot32 0 (wc_pi (wc_start ())) = Some (True, q) \<and>
    parse_bpb (ram_disc 512) 0 boot32 (\<lambda>_ _. Some (ram_cache 512 69632 (\<lambda>s. []))) = Some (Some p) \<and>
    p_filesysType p = FS_FAT32 \<and> p_dataStart p = pi_data_sect q \<and> cluster2sector q 5 = FAT_fat_clusterToSector p 5"
proof -
  obtain q where q: "check_fat boot32 0 (wc_pi (wc_start ())) = Some (True, q)" using boot32_checked by blast
  obtain p where p: "parse_bpb (ram_disc 512) 0 boot32 (\<lambda>_ _. Some (ram_cache 512 69632 (\<lambda>s. []))) = Some (Some p)"
    using boot32_parsed by blast
  have "(5 :: u32) \<ge> CLUSTER_FIRST" by (simp add: CLUSTER_FIRST_def)
  with q p front_end_and_library_agree [OF q p, of 0] show ?thesis by (simp add: boot32_nth)
qed

text \<open>The front end does not test the size of a sector: the same volume with sectors of 1024 bytes is accepted by both, and the
  link of cluster 200 is in sector 33 for the front end and in sector 32 for the library.\<close>

definition boot1024 :: "u8 list" where
  "boot1024 = boot32[12 := 4]"

lemma large_sectors_differ:
  "\<exists>q p. check_fat boot1024 0 (wc_pi (wc_start ())) = Some (True, q) \<and>
    parse_bpb (ram_disc 1024) 0 boot1024 (\<lambda>_ _. Some (ram_cache 1024 69632 (\<lambda>s. []))) = Some (Some p) \<and>
    link_sector q 200 = 33 \<and> fat32_pos p 200 = Some (32, 800)"
proof -
  have n: "length boot1024 = 512" "boot1024 ! 13 = 1" "boot1024 ! 40 = 0" "boot1024 ! 16 = 2" "boot1024 ! 71 = 0"
    "u8array_to_u16 boot1024 11 = 1024" "u8array_to_u16 boot1024 14 = 32" "u8array_to_u32 boot1024 16 = 2" "u8array_to_u32 boot1024 20 = 0xF800"
    "u8array_to_u16 boot1024 17 = 0" "u8array_to_u16 boot1024 19 = 0" "u8array_to_u16 boot1024 22 = 0"
    "u8array_to_u32 boot1024 32 = 69632" "u8array_to_u32 boot1024 36 = 513" "u8array_to_u16 boot1024 40 = 0" "u8array_to_u32 boot1024 44 = 2"
    "u8array_to_u16 boot1024 48 = 1" "slice boot1024 82 3 = FAT_SIG" "slice boot1024 54 (Suc (Suc (Suc 0))) = [0, 0, 0]"
    "wc_strncmp (drop 82 boot1024) FS_TYPE_FAT32 8 = Some 0"
    by (simp_all add: boot1024_def boot32_def nth_append u8array_to_u16_def u8array_to_u32_def slice_def FAT_SIG_def FS_TYPE_FAT32_def)
  obtain q where "check_fat boot1024 0 (wc_pi (wc_start ())) = Some (True, q)" "pi_fat_sect0 q = 32"
    by (simp add: check_fat_def n wc_start_def Let_def label_cleared)
  moreover obtain p where "parse_bpb (ram_disc 1024) 0 boot1024 (\<lambda>_ _. Some (ram_cache 1024 69632 (\<lambda>s. []))) = Some (Some p)"
    "fat_fatStart (p_fat p) = 32" "p_bytesPerSector p = 1024"
    by (simp add: parse_bpb_def get_u16_def get_u32_def get_u8_def n volume_label_def memeq_def peek_def FAT_SIG_def
        MIN_SECTOR_SIZE_def MAX_SECTOR_SIZE_def Let_def select_fs_def CLUSTERS_PER_FAT12_def CLUSTERS_PER_FAT16_def)
  ultimately show ?thesis by (intro exI [of _ q] exI [of _ p]) (simp add: link_sector_def fat32_pos_def)
qed

text \<open>Nor does it regard the number of the active table or the size of a cluster that is no power of two: with the second
  table active it still reads the first one, and for clusters of three sectors it takes one as their size.\<close>

definition boot_second :: "u8 list" where
  "boot_second = boot32[40 := 1]"

definition boot_three :: "u8 list" where
  "boot_three = boot32[13 := 3, 34 := 4]"

lemma second_table_differs:
  "\<exists>q p. check_fat boot_second 0 (wc_pi (wc_start ())) = Some (True, q) \<and>
    parse_bpb (ram_disc 512) 0 boot_second (\<lambda>_ _. Some (ram_cache 512 69632 (\<lambda>s. []))) = Some (Some p) \<and>
    link_sector q 200 = 33 \<and> fat32_pos p 200 = Some (546, 288)"
proof -
  have n: "length boot_second = 512" "boot_second ! 13 = 1" "boot_second ! 40 = 1" "boot_second ! 16 = 2" "boot_second ! 71 = 0"
    "u8array_to_u16 boot_second 11 = 512" "u8array_to_u16 boot_second 14 = 32" "u8array_to_u32 boot_second 16 = 2" "u8array_to_u32 boot_second 20 = 0xF800"
    "u8array_to_u16 boot_second 17 = 0" "u8array_to_u16 boot_second 19 = 0" "u8array_to_u16 boot_second 22 = 0"
    "u8array_to_u32 boot_second 32 = 69632" "u8array_to_u32 boot_second 36 = 513" "u8array_to_u16 boot_second 40 = 1" "u8array_to_u32 boot_second 44 = 2"
    "u8array_to_u16 boot_second 48 = 1" "slice boot_second 82 3 = FAT_SIG" "slice boot_second 54 (Suc (Suc (Suc 0))) = [0, 0, 0]"
    "wc_strncmp (drop 82 boot_second) FS_TYPE_FAT32 8 = Some 0"
    by (simp_all add: boot_second_def boot32_def nth_append u8array_to_u16_def u8array_to_u32_def slice_def FAT_SIG_def FS_TYPE_FAT32_def)
  obtain q where "check_fat boot_second 0 (wc_pi (wc_start ())) = Some (True, q)" "pi_fat_sect0 q = 32"
    by (simp add: check_fat_def n wc_start_def Let_def label_cleared)
  moreover obtain p where "parse_bpb (ram_disc 512) 0 boot_second (\<lambda>_ _. Some (ram_cache 512 69632 (\<lambda>s. []))) = Some (Some p)"
    "fat_fatStart (p_fat p) = 545" "p_bytesPerSector p = 512"
    by (simp add: parse_bpb_def get_u16_def get_u32_def get_u8_def n volume_label_def memeq_def peek_def FAT_SIG_def
        MIN_SECTOR_SIZE_def MAX_SECTOR_SIZE_def Let_def select_fs_def CLUSTERS_PER_FAT12_def CLUSTERS_PER_FAT16_def)
  ultimately show ?thesis by (intro exI [of _ q] exI [of _ p]) (simp add: link_sector_def fat32_pos_def)
qed

lemma uneven_clusters_differ:
  "\<exists>q p. check_fat boot_three 0 (wc_pi (wc_start ())) = Some (True, q) \<and>
    parse_bpb (ram_disc 512) 0 boot_three (\<lambda>_ _. Some (ram_cache 512 69632 (\<lambda>s. []))) = Some (Some p) \<and>
    cluster2sector q 3 = 1059 \<and> FAT_fat_clusterToSector p 3 = 1061"
proof -
  have n: "length boot_three = 512" "boot_three ! 13 = 3" "boot_three ! 40 = 0" "boot_three ! 16 = 2" "boot_three ! 71 = 0"
    "u8array_to_u16 boot_three 11 = 512" "u8array_to_u16 boot_three 14 = 32" "u8array_to_u32 boot_three 16 = 2" "u8array_to_u32 boot_three 20 = 0xF800"
    "u8array_to_u16 boot_three 17 = 0" "u8array_to_u16 boot_three 19 = 0" "u8array_to_u16 boot_three 22 = 0"
    "u8array_to_u32 boot_three 32 = 266240" "u8array_to_u32 boot_three 36 = 513" "u8array_to_u16 boot_three 40 = 0" "u8array_to_u32 boot_three 44 = 2"
    "u8array_to_u16 boot_three 48 = 1" "slice boot_three 82 3 = FAT_SIG" "slice boot_three 54 (Suc (Suc (Suc 0))) = [0, 0, 0]"
    "wc_strncmp (drop 82 boot_three) FS_TYPE_FAT32 8 = Some 0" "unat (ctz 3) = 0"
    by (simp_all add: boot_three_def boot32_def nth_append u8array_to_u16_def u8array_to_u32_def slice_def FAT_SIG_def FS_TYPE_FAT32_def)
      code_simp
  obtain q where "check_fat boot_three 0 (wc_pi (wc_start ())) = Some (True, q)" "pi_data_sect q = 1058" "pi_clust_shift q = ctz 3"
    by (simp add: check_fat_def n wc_start_def Let_def label_cleared)
  moreover obtain p where "parse_bpb (ram_disc 512) 0 boot_three (\<lambda>_ _. Some (ram_cache 512 69632 (\<lambda>s. []))) = Some (Some p)"
    "p_dataStart p = 1058" "p_sectorsPerCluster p = 3"
    by (simp add: parse_bpb_def get_u16_def get_u32_def get_u8_def n volume_label_def memeq_def peek_def FAT_SIG_def
        MIN_SECTOR_SIZE_def MAX_SECTOR_SIZE_def Let_def select_fs_def CLUSTERS_PER_FAT12_def CLUSTERS_PER_FAT16_def)
  ultimately show ?thesis
    by (intro exI [of _ q] exI [of _ p]) (simp add: cluster2sector_def FAT_fat_clusterToSector_def CLUSTER_FIRST_def n)
qed

section \<open>Finding the volume\<close>

lemma wc_memcpy_short: "length dst < n \<Longrightarrow> wc_memcpy dst src n = None"
  by (induction dst src n rule: wc_memcpy.induct) simp_all

text \<open>C34: error. On a medium with a partition table whose first entry is in use, the search for the volume copies four times
  the table into its buffer of four entries, which is undefined; without a table it checks sector zero, and
  without the signature it gives up.\<close>

theorem probe_outcomes:
  assumes "disc_ok disc med 512" and "disc_reliable disc limit" and "0 < limit" and "isInserted disc (wc_medium w) = (True, m)"
    and "length g_buf = 512" and "length part = 64" and "med m 0 = b"
  shows "\<exists>m'. med m' = med m \<and> probe disc g_buf part w =
    (if u8array_to_u16 b MBR_sig \<noteq> 0xAA55 then Some (FAT_ERR_NOFAT, w\<lparr>wc_medium := m'\<rparr>)
     else if b ! (MBR_part + PART_type) \<noteq> 0 then None
     else map_option (\<lambda>(safe, p). (if safe then 1 else 0, w\<lparr>wc_medium := m', wc_pi := p\<rparr>)) (check_fat b 0 (wc_pi w)))"
proof -
  have s: "sectors_of (med m) 0 (unat (1 :: u32)) = b" using assms(7) by (simp add: sectors_of_def)
  have r: "disc_reliable disc 1" using assms(2,3) by (auto simp: disc_reliable_def)
  have l: "length g_buf = unat (1 :: u32) * 512" using assms(5) by simp
  obtain m' where m: "wc_read disc m 0 1 g_buf 0 = Some (sectors_of (med m) 0 (unat (1 :: u32)), m')" "med m' = med m"
    by (rule wc_read_fill [OF assms(1) r _ _ l, where s = 0 and m = m]) simp_all
  have "probe disc g_buf part w =
    (if u8array_to_u16 b MBR_sig \<noteq> 0xAA55 then Some (FAT_ERR_NOFAT, w\<lparr>wc_medium := m'\<rparr>)
     else if b ! (MBR_part + PART_type) \<noteq> 0 then None
     else map_option (\<lambda>(safe, p). (if safe then 1 else 0, w\<lparr>wc_medium := m', wc_pi := p\<rparr>)) (check_fat b 0 (wc_pi w)))"
    using m(1) assms(4,6) unfolding s
    by (simp add: probe_def wc_memcpy_short map_conv_bind_option case_prod_unfold comp_def)
  with m(2) show ?thesis by blast
qed

definition mbr512 :: "u8 list" where
  "mbr512 = replicate 450 0 @ [0x0C] @ replicate 59 0 @ [0x55, 0xAA]"

definition ram_mbr :: ram where
  "ram_mbr s = mbr512"

theorem probe_outcomes_witness:
  "probe (ram_disc 512) (replicate 512 0xCC) (replicate 64 0xCC) (wc_start ram_mbr) = None"
proof -
  have n: "u8array_to_u16 mbr512 MBR_sig = 0xAA55" "mbr512 ! (MBR_part + PART_type) \<noteq> 0" "length mbr512 = 512"
    by (simp_all add: mbr512_def nth_append u8array_to_u16_def)
  have b: "ram_med 512 ram_mbr 0 = mbr512" by (simp add: ram_med_def ram_mbr_def n(3))
  have i: "isInserted (ram_disc 512) (wc_medium (wc_start ram_mbr)) = (True, ram_mbr)" by (simp add: ram_disc_def wc_start_def)
  have l: "length (replicate 512 0xCC :: u8 list) = 512" "length (replicate 64 0xCC :: u8 list) = 64" by simp_all
  have "\<exists>m'. ram_med 512 m' = ram_med 512 ram_mbr \<and>
      probe (ram_disc 512) (replicate 512 0xCC) (replicate 64 0xCC) (wc_start ram_mbr) =
    (if u8array_to_u16 mbr512 MBR_sig \<noteq> 0xAA55 then Some (FAT_ERR_NOFAT, (wc_start ram_mbr)\<lparr>wc_medium := m'\<rparr>)
     else if mbr512 ! (MBR_part + PART_type) \<noteq> 0 then None
     else map_option (\<lambda>(safe, p). (if safe then 1 else 0, (wc_start ram_mbr)\<lparr>wc_medium := m', wc_pi := p\<rparr>))
       (check_fat mbr512 0 (wc_pi (wc_start ram_mbr))))"
    by (rule probe_outcomes) (rule ram_disc_ok ram_disc_reliable zero_less_one i l b)+
  then show ?thesis using n(1,2) by auto
qed

section \<open>Walking over a directory\<close>

text \<open>The entry that step \<open>n\<close> of a walk, counted from zero, stops at.\<close>

fun walk :: "'d disc_interface \<Rightarrow> nat \<Rightarrow> 'd wc \<Rightarrow> (nat \<times> 'd wc) option" where
  "walk disc 0 w = proceed_idx disc w"
| "walk disc (Suc n) w = do { (_, w) \<leftarrow> walk disc n w; proceed_idx disc w }"

lemma unat_and_7F: "unat ((x :: u32) AND 0x7F) = unat x mod 128"
proof -
  have "x AND 0x7F = take_bit 7 x" by (simp add: take_bit_eq_mask mask_eq_exp_minus_1)
  then show ?thesis by (simp add: take_bit_eq_mod unat_mod_word)
qed

lemma page_border: "push_bit 25 (of_nat k :: u32) = 0 \<longleftrightarrow> k mod 128 = 0"
proof -
  have "push_bit 25 (of_nat k :: u32) = of_nat (2 ^ 25 * k)" by (simp add: push_bit_eq_mult mult.commute)
  also have "\<dots> = 0 \<longleftrightarrow> 2 ^ 32 dvd 2 ^ 25 * k" by (simp only: word_of_nat_eq_0_iff) simp
  also have "(2 :: nat) ^ 32 = 2 ^ 25 * 128" by simp
  also have "2 ^ 25 * 128 dvd 2 ^ 25 * k \<longleftrightarrow> 128 dvd k" by (subst nat_mult_dvd_cancel_disj) simp
  finally show ?thesis by (simp only: dvd_eq_mod_eq_0)
qed

lemma page_step: "k < 2 ^ 31 \<Longrightarrow> word_of_int (sint (of_nat k :: 32 word) sdiv (16 * 8)) = (of_nat (k div 128) :: u32)"
proof -
  assume k: "k < 2 ^ 31"
  have "sint (of_nat k :: 32 word) = int k" using k by (simp add: signed_of_nat signed_take_bit_int_eq_self)
  then have "sint (of_nat k :: 32 word) sdiv (16 * 8) = int (k div 128)"
    by (simp add: signed_divide_int_def sgn_if zdiv_int)
  then show ?thesis by simp
qed

definition walked :: "('d \<Rightarrow> sec_t \<Rightarrow> u8 list) \<Rightarrow> (sec_t \<Rightarrow> u8 list) \<Rightarrow> sec_t \<Rightarrow> nat \<Rightarrow> 'd wc \<Rightarrow> bool" where
  "walked med view s n w \<longleftrightarrow> wc_view med w = view \<and> cluster2sector (wc_pi w) (wc_start_cluster w) = s \<and>
     wc_dir_idx w = of_nat n \<and> wc_direntry_buffer w = sectors_of view (s + of_nat (n div 128)) 8"

lemma proceed_walked:
  assumes ok: "wc_ok disc med limit w" and s: "wc_view med w = view" "cluster2sector (wc_pi w) (wc_start_cluster w) = s"
    and idx: "wc_dir_idx w + 1 = of_nat n" "wc_dir_idx w \<noteq> 0x7FFFFFFF" and n: "n < 2 ^ 31"
    and fit: "unat s + n div 128 + 8 \<le> limit"
    and old: "n mod 128 \<noteq> 0 \<Longrightarrow> wc_direntry_buffer w = sectors_of view (s + of_nat (n div 128)) 8"
  obtains w' where "proceed_idx disc w = Some (n mod 128, w')" and "wc_ok disc med limit w'" and "walked med view s n w'"
proof -
  note d = wc_okD [OF ok]
  let ?w = "w\<lparr>wc_dir_idx := of_nat n\<rparr>"
  have entry: "unat (of_nat n AND 0x7F :: u32) = n mod 128"
    unfolding unat_and_7F using unat_of_small [of n] n by simp
  show thesis
  proof (cases "n mod 128 = 0")
    case False
    then have "push_bit 25 (of_nat n :: u32) \<noteq> 0" by (simp only: page_border not_False_eq_True)
    then have "proceed_idx disc w = Some (n mod 128, ?w)"
      unfolding proceed_idx_def using idx by (simp add: entry get_sfn_entry_def Let_def del: push_bit_eq_0_iff)
    moreover have "wc_ok disc med limit ?w" using ok by (simp add: wc_ok_def)
    moreover have "walked med view s n ?w" using s old [OF False] by (simp add: walked_def wc_view_def)
    ultimately show thesis by (rule that)
  next
    case True
    then have b: "push_bit 25 (of_nat n :: u32) = 0" by (simp only: page_border)
    let ?s = "s + of_nat (n div 128)"
    have us: "unat ?s = unat s + n div 128" by (rule unat_offset) (use fit d(3) in simp)
    have l: "length (wc_direntry_buffer w) = unat (8 :: u32) * 512" using ok by (simp add: wc_ok_def)
    obtain m' where m: "wc_read disc (wc_medium w) ?s 8 (wc_direntry_buffer w) 0 =
        Some (sectors_of (med (wc_medium w)) ?s (unat (8 :: u32)), m')" "med m' = med (wc_medium w)"
      by (rule wc_read_fill [OF d(1-3) _ l, where s = ?s and m = "wc_medium w"]) (use us fit in simp)
    let ?v = "?w\<lparr>wc_direntry_buffer := sectors_of view ?s 8, wc_medium := m'\<rparr>"
    have "proceed_idx disc w = Some (n mod 128, ?v)"
      unfolding proceed_idx_def using idx m(1) s
      by (simp add: entry get_sfn_entry_def Let_def b page_step [OF n, simplified] wc_view_def [symmetric])
    moreover have "wc_ok disc med limit ?v"
      using ok m(2) length_sectors_of [OF disc_ok_length [OF d(1)]] s(1) by (auto simp: wc_ok_def wc_view_def)
    moreover have "walked med view s n ?v" using s m(2) by (simp add: walked_def wc_view_def)
    ultimately show thesis by (rule that)
  qed
qed

lemma walk_walked:
  assumes ok: "wc_ok disc med limit w" and "cluster2sector (wc_pi w) c = s" and "n < 2 ^ 31 - 1" and "unat s + n div 128 + 8 \<le> limit"
  obtains w' where "walk disc n (open_dir c w) = Some (n mod 128, w')" and "wc_ok disc med limit w'"
    and "walked med (wc_view med w) s n w'"
  using assms(3,4)
proof (induction n arbitrary: thesis)
  case 0
  have ok': "wc_ok disc med limit (open_dir c w)" using ok by (simp add: wc_ok_def open_dir_def)
  obtain w' where "proceed_idx disc (open_dir c w) = Some (0 mod 128, w')" "wc_ok disc med limit w'" "walked med (wc_view med w) s 0 w'"
    by (rule proceed_walked [OF ok', where n = 0 and view = "wc_view med w" and s = s])
      (use 0 assms(2) in \<open>simp_all add: open_dir_def wc_view_def\<close>)
  then show ?case using 0(1) by simp
next
  case (Suc n)
  have le: "n div 128 \<le> Suc n div 128" by (rule div_le_mono) simp
  obtain w1 where w: "walk disc n (open_dir c w) = Some (n mod 128, w1)" "wc_ok disc med limit w1" "walked med (wc_view med w) s n w1"
  proof (rule Suc.IH)
    show "n < 2 ^ 31 - 1" using Suc.prems(2) by simp
    show "unat s + n div 128 + 8 \<le> limit" using Suc.prems(3) le by linarith
  qed blast
  note idx = w(3) [unfolded walked_def]
  have n: "Suc n < 2 ^ 31" using Suc.prems(2) by simp
  have ne: "(of_nat n :: u32) \<noteq> 0x7FFFFFFF"
  proof
    assume "(of_nat n :: u32) = 0x7FFFFFFF"
    then have "unat (of_nat n :: u32) = 0x7FFFFFFF" by simp
    then show False using unat_of_small [of n] n Suc.prems(2) by simp
  qed
  have same: "Suc n div 128 = n div 128" if "Suc n mod 128 \<noteq> 0"
    using that by (simp add: div_Suc mod_Suc split: if_splits)
  obtain w' where "proceed_idx disc w1 = Some (Suc n mod 128, w')" "wc_ok disc med limit w'" "walked med (wc_view med w) s (Suc n) w'"
    by (rule proceed_walked [OF w(2), where n = "Suc n" and view = "wc_view med w" and s = s])
      (use idx n ne Suc.prems(3) same in \<open>simp_all add: add.commute\<close>)
  then show ?case using Suc.prems(1) [of w'] w(1) by simp
qed

text \<open>C33: functional. The walk over a directory stops at its entries in order, one for each step, through the first 128; from
  then on it goes back by 112 entries for every 128 steps, because it moves on by one sector where it has
  used up eight.\<close>

theorem walk_repeats_entries:
  assumes "wc_ok disc med limit w" and "cluster2sector (wc_pi w) c = s" and "n < 2 ^ 31 - 1" and "unat s + n div 128 + 8 \<le> limit"
  shows "\<exists>w'. walk disc n (open_dir c w) = Some (n mod 128, w') \<and>
    dir_bytes w' (n mod 128) = slice (sectors_of (wc_view med w) s (n div 128 + 8)) ((n - 112 * (n div 128)) * SFN_SIZE) SFN_SIZE"
proof -
  let ?q = "n div 128" and ?r = "n mod 128" and ?v = "wc_view med w"
  obtain w' where w: "walk disc n (open_dir c w) = Some (?r, w')" "walked med ?v s n w'"
    by (rule walk_walked [OF assms])
  have len: "length (?v t) = 512" for t
    using disc_ok_length [OF wc_okD(1) [OF assms(1)]] by (simp add: wc_view_def)
  have "sectors_of ?v s (?q + 8) = sectors_of ?v s ?q @ sectors_of ?v (s + of_nat ?q) 8" by (rule sectors_of_add)
  moreover have "length (sectors_of ?v s ?q) = ?q * 512" by (rule length_sectors_of) (rule len)
  moreover have "(n - 112 * ?q) * SFN_SIZE = ?q * 512 + ?r * SFN_SIZE"
  proof -
    have "n = ?q * 128 + ?r" by (simp only: div_mult_mod_eq)
    then have "n - 112 * ?q = ?q * 16 + ?r" by linarith
    then show ?thesis by simp
  qed
  ultimately have "slice (sectors_of ?v s (?q + 8)) ((n - 112 * ?q) * SFN_SIZE) SFN_SIZE =
      slice (sectors_of ?v (s + of_nat ?q) 8) (?r * SFN_SIZE) SFN_SIZE"
    by (simp add: slice_def)
  then show ?thesis using w by (auto simp: walked_def dir_bytes_def)
qed

text \<open>A volume on the disc in memory: the table in sector one, clusters of 64 sectors from sector four on, the chain
  3, 4, 7, 8, 9.\<close>

definition ramwc :: ram where
  "ramwc s = (if s = 1 then [0xF8, 0xFF, 0xFF, 0x0F, 0xFF, 0xFF, 0xFF, 0x0F, 0, 0, 0, 0, 4, 0, 0, 0, 7, 0, 0, 0, 0, 0, 0, 0, 0, 0, 0, 0,
      8, 0, 0, 0, 9, 0, 0, 0, 0xFF, 0xFF, 0xFF, 0x0F] else [ucast s])"

definition wcram :: "ram wc" where
  "wcram = (wc_start ramwc)\<lparr>wc_pi := (wc_pi (wc_start ramwc))\<lparr>pi_fat_sect0 := 1, pi_data_sect := 4, pi_clust_shift := 6,
     pi_total_clust := 100, pi_root_cluster := 2, pi_current_cluster := 2\<rparr>\<rparr>"

lemma wcram_ok: "wc_ok (ram_disc 512) (ram_med 512) 2000 wcram"
  using ram_disc_ok [of 512] ram_disc_reliable [of 512 2000] by (simp add: wc_ok_def wcram_def wc_start_def)

theorem walk_repeats_entries_witness:
  "\<exists>w'. walk (ram_disc 512) 130 (open_dir 3 wcram) = Some (2, w') \<and>
    dir_bytes w' 2 = slice (sectors_of (wc_view (ram_med 512) wcram) 68 9) (18 * 32) 32"
proof -
  have s: "cluster2sector (wc_pi wcram) 3 = 68" by (simp add: cluster2sector_def wcram_def)
  show ?thesis using walk_repeats_entries [OF wcram_ok s, of 130] by simp
qed

section \<open>Files\<close>


lemma wcram_chain:
  "table_readable 2000 (wc_pi wcram) [3, 4, 7, 8, 9]"
  "wc_chain (wc_link (ram_med 512) wcram) (pi_total_clust (wc_pi wcram)) [3, 4, 7, 8, 9]"
  by (simp_all add: table_readable_def link_sector_def wc_link_def wc_view_def wcram_def wc_start_def ram_med_def ramwc_def
      u8array_to_u32_def)


text \<open>The page of a position is computed for clusters of 64 sectors. In a file with clusters of eight sectors the page of the
  position 4096, at the start of its second cluster, is that of the cluster behind the second on the disc.\<close>

lemma small_cluster_page:
  assumes "pi_clust_shift p = 3"
  shows "page_sector p c 0x1000 = cluster2sector p (c + 1)"
proof -
  have d: "8 * (drop_bit 12 (0x1000 :: u32) AND 7) = 8" by code_simp
  have "push_bit 3 (c + 1 - 2) = push_bit 3 (c - 2) + 8" by (simp add: push_bit_eq_mult algebra_simps)
  moreover have "unat (3 :: u32) = 3" by simp
  ultimately show ?thesis unfolding page_sector_def d cluster2sector_def assms by (simp only: add.commute add.left_commute add.assoc)
qed

text \<open>C29: functional. On a volume with clusters of 64 sectors, a read from a file of at most 61 runs whose runs were
  recorded returns the bytes of its clusters at its position, as many as are asked for or left, and moves the position behind
  them, if none of these bytes lies in the last cluster of a run. For other cluster sizes the page arithmetic
  reads wrong sectors (\<open>small_cluster_page\<close>).\<close>

theorem front_end_reads_runs:
  assumes "wc_ok disc med limit w" and "table_readable limit (wc_pi w) cs"
    and "wc_chain (wc_link med w) (pi_total_clust (wc_pi w)) cs" and "length (to_runs cs) \<le> 61" and "wc_area (wc_pi w) limit cs"
  shows "\<exists>r blk w1. build_cluster_chain disc (hd cs) no_runs w = Some (r, blk, w1) \<and>
    (\<forall>fs len out n. wf_startCluster fs = hd cs \<longrightarrow> wf_cluster_chain fs = blk \<longrightarrow> unat (wf_ptr fs) < unat (wf_filesize fs) \<longrightarrow>
      0 < unat len \<longrightarrow> n = min (unat len) (unat (wf_filesize fs) - unat (wf_ptr fs)) \<longrightarrow> inside_runs cs (unat (wf_ptr fs)) n \<longrightarrow>
      n \<le> length out \<longrightarrow>
      (\<exists>w'. WC_read_r disc fs out len w1 = Some (of_nat n, fs\<lparr>wf_ptr := wf_ptr fs + of_nat n\<rparr>,
        splice out 0 (slice (wc_data (wc_view med w) (wc_pi w) cs) (unat (wf_ptr fs)) n), w')))"
proof -
  have small: "length cs < 2 ^ 28" and shift: "pi_clust_shift (wc_pi w) = 6"
    using assms(5) by (simp_all add: wc_area_def)
  obtain blk w1 where b: "build_cluster_chain disc (hd cs) no_runs w = Some (of_nat (length (to_runs cs) - 1), blk, w1)"
    and i: "wc_ok disc med limit w1" "wc_view med w1 = wc_view med w" "wc_pi w1 = wc_pi w"
    and f: "\<And>(fs :: wc_file) k. wf_startCluster fs = hd cs \<Longrightarrow> wf_cluster_chain fs = blk \<Longrightarrow> k < length cs \<Longrightarrow>
      drop_bit (unat (pi_clust_shift (wc_pi w) + 9)) (wf_ptr fs) = of_nat k \<Longrightarrow>
      iterate_file (wc_pi w) fs = (if 0 < run_left (drop k cs) then Some (cs ! k, of_nat (run_left (drop k cs))) else None)"
    by (rule chain_records_and_finds [OF assms(1-4) small]) blast
  have loc: "located (wc_pi w1) fs cs" if "wf_startCluster fs = hd cs" "wf_cluster_chain fs = blk" for fs
    unfolding located_def i(3)
  proof (intro allI impI)
    fix ptr :: u32 assume k: "unat ptr div 32768 < length cs"
    have "drop_bit 15 ptr = of_nat (unat ptr div 32768)"
    proof (rule word_eqI_unat)
      have "unat ptr div 32768 < 2 ^ 32" using k small by simp
      then show "unat (drop_bit 15 ptr) = unat (of_nat (unat ptr div 32768) :: u32)" by (simp only: unat_drop_word unat_of_small) simp
    qed
    then show "iterate_file (wc_pi w) (fs\<lparr>wf_ptr := ptr\<rparr>) = (if 0 < run_left (drop (unat ptr div 32768) cs)
        then Some (cs ! (unat ptr div 32768), of_nat (run_left (drop (unat ptr div 32768) cs))) else None)"
      using f [of "fs\<lparr>wf_ptr := ptr\<rparr>", OF _ _ k] that shift by simp
  qed
  have area: "wc_area (wc_pi w1) limit cs" using assms(5) i(3) by simp
  have "\<exists>w'. WC_read_r disc fs out len w1 = Some (of_nat n, fs\<lparr>wf_ptr := wf_ptr fs + of_nat n\<rparr>,
      splice out 0 (slice (wc_data (wc_view med w) (wc_pi w) cs) (unat (wf_ptr fs)) n), w')"
    if "wf_startCluster fs = hd cs" "wf_cluster_chain fs = blk" "unat (wf_ptr fs) < unat (wf_filesize fs)" "0 < unat len"
      "n = min (unat len) (unat (wf_filesize fs) - unat (wf_ptr fs))" "inside_runs cs (unat (wf_ptr fs)) n" "n \<le> length out" for fs len out n
    using WC_read_r_reads [OF i(1) area loc [OF that(1,2)] that(3-7)] i(2,3) by metis
  with b show ?thesis by blast
qed

theorem front_end_reads_runs_witness:
  "\<exists>r blk w1 w'. build_cluster_chain (ram_disc 512) 3 no_runs wcram = Some (r, blk, w1) \<and>
    WC_read_r (ram_disc 512) \<lparr>wf_ptr = 66044, wf_mode = 0, wf_filesize = 150000, wf_chainCount = 1, wf_startCluster = 3,
      wf_cluster_chain = blk\<rparr> (replicate 8 0xCC) 8 w1 =
    Some (8, \<lparr>wf_ptr = 66052, wf_mode = 0, wf_filesize = 150000, wf_chainCount = 1, wf_startCluster = 3, wf_cluster_chain = blk\<rparr>,
      splice (replicate 8 0xCC) 0 (slice (wc_data (wc_view (ram_med 512) wcram) (wc_pi wcram) [3, 4, 7, 8, 9]) 66044 8), w')"
proof -
  have runs: "length (to_runs [3, 4, 7, 8, 9]) \<le> 61" by simp
  have area: "wc_area (wc_pi wcram) 2000 [3, 4, 7, 8, 9]" by (simp add: wc_area_def wcram_def)
  have in_runs: "inside_runs [3, 4, 7, 8, 9] 66044 8"
    unfolding inside_runs_def
  proof (intro allI impI)
    fix q :: nat assume "66044 \<le> q" "q < 66044 + 8"
    then have "q div 32768 = 2" by simp
    then show "0 < run_left (drop (q div 32768) [3, 4, 7, 8, 9])" by simp
  qed
  obtain r blk w1 where b: "build_cluster_chain (ram_disc 512) 3 no_runs wcram = Some (r, blk, w1)"
    and f: "\<forall>fs len out n. wf_startCluster fs = 3 \<longrightarrow> wf_cluster_chain fs = blk \<longrightarrow> unat (wf_ptr fs) < unat (wf_filesize fs) \<longrightarrow>
      0 < unat len \<longrightarrow> n = min (unat len) (unat (wf_filesize fs) - unat (wf_ptr fs)) \<longrightarrow>
      inside_runs [3, 4, 7, 8, 9] (unat (wf_ptr fs)) n \<longrightarrow> n \<le> length out \<longrightarrow>
      (\<exists>w'. WC_read_r (ram_disc 512) fs out len w1 = Some (of_nat n, fs\<lparr>wf_ptr := wf_ptr fs + of_nat n\<rparr>,
        splice out 0 (slice (wc_data (wc_view (ram_med 512) wcram) (wc_pi wcram) [3, 4, 7, 8, 9]) (unat (wf_ptr fs)) n), w'))"
    using front_end_reads_runs [OF wcram_ok wcram_chain runs area] by auto
  let ?fs = "\<lparr>wf_ptr = 66044, wf_mode = 0, wf_filesize = 150000, wf_chainCount = 1, wf_startCluster = 3, wf_cluster_chain = blk\<rparr>"
  have "\<exists>w'. WC_read_r (ram_disc 512) ?fs (replicate 8 0xCC) 8 w1 = Some (of_nat 8, ?fs\<lparr>wf_ptr := wf_ptr ?fs + of_nat 8\<rparr>,
      splice (replicate 8 0xCC) 0 (slice (wc_data (wc_view (ram_med 512) wcram) (wc_pi wcram) [3, 4, 7, 8, 9]) (unat (wf_ptr ?fs)) 8), w')"
    by (rule f [rule_format]) (use in_runs in simp_all)
  moreover have "?fs\<lparr>wf_ptr := wf_ptr ?fs + of_nat 8\<rparr> = ?fs\<lparr>wf_ptr := 66052\<rparr>" "(of_nat 8 :: u32) = 8" "unat (wf_ptr ?fs) = 66044"
    by simp_all
  ultimately have "\<exists>w'. WC_read_r (ram_disc 512) ?fs (replicate 8 0xCC) 8 w1 = Some (8, ?fs\<lparr>wf_ptr := 66052\<rparr>,
      splice (replicate 8 0xCC) 0 (slice (wc_data (wc_view (ram_med 512) wcram) (wc_pi wcram) [3, 4, 7, 8, 9]) 66044 8), w')"
    by (simp only:)
  moreover have "?fs\<lparr>wf_ptr := 66052\<rparr> = \<lparr>wf_ptr = 66052, wf_mode = 0, wf_filesize = 150000, wf_chainCount = 1, wf_startCluster = 3,
    wf_cluster_chain = blk\<rparr>" by simp
  ultimately show ?thesis using b by metis
qed

end
