(* ===== verification/PathWalk.thy ===== *)
theory PathWalk
  imports DirFound
begin

text \<open>
  Looking up a path: the walk of \<open>_FAT_directory_entryFromPath\<close> against a resolution of the parts of the path,
  one directory listing after the other, in the \<open>C\<close> locale.
\<close>

section \<open>Names in a path\<close>

text \<open>The walk compares a name where it stands in the path, up to the next separator.\<close>

lemma mbsncasecmp_step:
  "mbsncasecmp_loop c_locale st1 st2 (c # s) t len old1 old2 =
    (let d = (if t = [] then 0 else hd t)
     in if c \<noteq> 0 \<and> len - 1 > 0 \<and> lower_wide (ucast c) = lower_wide (ucast d)
        then mbsncasecmp_loop c_locale () () s (if d = 0 then t else tl t) (len - 1) (Some (ucast c)) (Some (ucast d))
        else Some (lower_wide (ucast c) - lower_wide (ucast d)))"
proof -
  have w: "ucast c = (0 :: u32) \<longleftrightarrow> c = 0" for c :: u8
    using unat_byte(1) [of c] by (metis unsigned_eq_0_iff)
  have l: "towlower c_locale = lower_wide" by (simp add: c_locale_def)
  show ?thesis
    using mbrtowc_c [of st1 "c # s"] mbrtowc_c [of st2 t]
    by (subst mbsncasecmp_loop.simps) (cases t; auto simp: Let_def l w)
qed

lemma mbsncasecmp_take:
  assumes "0 < k" and "k \<le> length s" and "k < 2 ^ 32"
  shows "mbsncasecmp_loop c_locale st1 st2 (take k s) t (of_nat k) old1 old2 = mbsncasecmp_loop c_locale st1 st2 s t (of_nat k) old1 old2"
  using assms
proof (induction k arbitrary: s t st1 st2 old1 old2)
  case (Suc k)
  obtain c s' where s: "s = c # s'" using Suc.prems by (cases s) auto
  have t: "take (Suc k) s = c # take k s'" by (simp add: s)
  have len: "of_nat (Suc k) - 1 = (of_nat k :: u32)" by simp
  show ?case
  proof (cases "k = 0")
    case True
    then show ?thesis unfolding t unfolding s mbsncasecmp_step by (simp add: Let_def)
  next
    case False
    have IH: "mbsncasecmp_loop c_locale () () (take k s') t' (of_nat k) w1 w2 = mbsncasecmp_loop c_locale () () s' t' (of_nat k) w1 w2" for t' w1 w2
      using False Suc.prems by (intro Suc.IH) (simp_all add: s)
    show ?thesis unfolding t unfolding s mbsncasecmp_step len IH ..
  qed
qed simp

lemma entry_matches_take:
  assumes "n \<le> length path" and "n < 2 ^ 32"
  shows "entry_matches c_locale path n e = Some (accepts_c (take n path) e)"
proof -
  have long: "FAT_directory_mbsncasecmp c_locale path t n = FAT_directory_mbsncasecmp c_locale (take n path) t n" for t
    using mbsncasecmp_take [of n path] assms by (simp add: FAT_directory_mbsncasecmp_def)
  have short: "strncasecmp_eq c_locale path al n = strncasecmp_eq c_locale (take n path) al n" for al
    using assms(1) by (simp add: strncasecmp_eq_def)
  have "entry_matches c_locale path n e = entry_matches c_locale (take n path) n e"
    unfolding entry_matches_def by (subst long, subst short) (rule refl)
  moreover have "length (take n path) = n" using assms(1) by simp
  ultimately show ?thesis using entry_matches_c [of "take n path" e] by simp
qed

text \<open>In the \<open>C\<close> locale a name is that of an entry when it is its long or its short name but for the case of letters.\<close>

definition same_text :: "u8 list \<Rightarrow> u8 list \<Rightarrow> bool" where
  "same_text s t \<longleftrightarrow> map lower_byte s = map lower_byte t"

definition carries :: "u8 list \<Rightarrow> dir_entry \<Rightarrow> bool" where
  "carries name e \<longleftrightarrow> same_text name (de_filename e) \<or>
     same_text name (snd (FAT_directory_entryGetAlias c_locale (de_entryData e)))"

lemma unat_lower: "unat (lower_byte c) = (if 0x41 \<le> unat c \<and> unat c \<le> 0x5A then unat c + 0x20 else unat c)"
  by (auto simp: lower_byte_def word_le_nat_alt unat_word_ariths)

lemma lower_wide_byte: "lower_wide (ucast c) = ucast (lower_byte c)"
proof -
  have "unat (lower_wide (ucast c)) = (if 0x41 \<le> unat c \<and> unat c \<le> 0x5A then unat c + 0x20 else unat c)"
    using unat_byte [of c] by (auto simp: lower_wide_def word_le_nat_alt unat_word_ariths)
  then show ?thesis using unat_byte(1) [of "lower_byte c"] by (simp add: word_eq_iff_unat_eq unat_lower)
qed

lemma lower_wide_eq: "lower_wide (ucast c) = lower_wide (ucast d) \<longleftrightarrow> lower_byte c = lower_byte d"
  unfolding lower_wide_byte word_eq_iff_unat_eq [of "ucast (lower_byte c)"] unat_byte
  by (auto intro: unsigned_word_eqI)

lemma mbsncasecmp_same:
  assumes "length s = length t" and "s \<noteq> []" and "0 \<notin> set s" and "length s < 2 ^ 32"
  shows "mbsncasecmp_loop c_locale st1 st2 s t (of_nat (length s)) old1 old2 = Some 0 \<longleftrightarrow> same_text s t"
  using assms
proof (induction s arbitrary: t st1 st2 old1 old2)
  case (Cons c s)
  obtain d t' where t: "t = d # t'" "length s = length t'" using Cons.prems(1) by (cases t) auto
  have len: "of_nat (length (c # s)) - 1 = (of_nat (length s) :: u32)" by simp
  have c: "c \<noteq> 0" "0 \<notin> set s" using Cons.prems(3) by auto
  have d: "d \<noteq> 0" if "lower_byte c = lower_byte d"
  proof
    assume "d = 0"
    then have "unat (lower_byte c) = 0" using that by (simp add: lower_byte_def)
    then show False using c(1) unfolding unat_lower by (simp add: unsigned_eq_0_iff split: if_splits)
  qed
  show ?case
  proof (cases "s = []")
    case True
    then show ?thesis using t unfolding mbsncasecmp_step len by (simp add: Let_def same_text_def lower_wide_eq)
  next
    case False
    have "of_nat (length s) \<noteq> (0 :: u32)" 
      using False Cons.prems(4) by (auto simp: word_of_nat_eq_0_iff dest: dvd_imp_le)
    then have pos: "(0 :: u32) < of_nat (length s)" by (simp add: word_neq_0_conv)
    have IH: "mbsncasecmp_loop c_locale () () s t' (of_nat (length s)) w1 w2 = Some 0 \<longleftrightarrow> same_text s t'" for w1 w2
      using Cons.IH [OF t(2) False c(2)] Cons.prems(4) by simp
    show ?thesis
      unfolding mbsncasecmp_step len t(1) using pos c d IH
      by (auto simp: Let_def same_text_def lower_wide_eq)
  qed
qed simp

lemma length_alias: "length (snd (FAT_directory_entryGetAlias c_locale data)) \<le> 12"
proof -
  have "length (takeWhile P (take n xs)) \<le> n" for P n and xs :: "u8 list"
    using length_takeWhile_le [of P "take n xs"] by simp
  note tk = this [of "\<lambda>c. c \<noteq> CH_SPACE" 8 data] this [of "\<lambda>c. c \<noteq> CH_SPACE" 3 "drop DIR_ENTRY_extension data"]
  have "length (cstr xs) \<le> length xs" for xs by (simp add: cstr_def length_takeWhile_le)
  from order_trans [OF this, of _ 12] show ?thesis
    using tk by (auto simp: FAT_directory_entryGetAlias_def Let_def)
qed

lemma accepts_carries:
  assumes "0 \<notin> set name" and "length name < PATH_MAX"
  shows "accepts_c name e \<longleftrightarrow> carries name e"
proof -
  let ?al = "snd (FAT_directory_entryGetAlias c_locale (de_entryData e))"
  have lens: "same_text a b \<Longrightarrow> length a = length b" for a b unfolding same_text_def by (metis length_map)
  have n: "length name = strnlen t PATH_MAX \<longleftrightarrow> length name = length t" for t
    using assms(2) by (auto simp: strnlen_def)
  have long: "(if length name = strnlen t PATH_MAX
      then do { d \<leftarrow> FAT_directory_mbsncasecmp c_locale name t (length name); Some (d = 0) } else Some False) = Some (same_text name t)" for t
  proof (cases "length name = length t \<and> name \<noteq> []")
    case True
    obtain d where d: "mbsncasecmp_loop c_locale () () name t (of_nat (length name)) None None = Some d"
      using mbsncasecmp_total by blast
    have "length name < 2 ^ 32" using assms(2) by (simp add: PATH_MAX_def)
    with mbsncasecmp_same [of name t "()" "()" None None] True assms(1) d have "d = 0 \<longleftrightarrow> same_text name t" by auto
    then show ?thesis using True d n [of t] by (auto simp: FAT_directory_mbsncasecmp_def)
  next
    case False
    show ?thesis
    proof (cases "length name = length t")
      case True
      then have "name = []" "t = []" using False by auto
      then show ?thesis by (simp add: FAT_directory_mbsncasecmp_def same_text_def strnlen_def)
    next
      case other: False
      then have "\<not> same_text name t" using lens by blast
      then show ?thesis using n [of t] other by simp
    qed
  qed
  have short: "length name = strnlen ?al MAX_ALIAS_LENGTH \<and> strncasecmp_eq c_locale name ?al (length name) \<longleftrightarrow> same_text name ?al"
  proof -
    have "strnlen ?al MAX_ALIAS_LENGTH = length ?al" using length_alias [of "de_entryData e"] by (simp add: strnlen_def MAX_ALIAS_LENGTH_def)
    moreover have "strncasecmp_eq c_locale name ?al (length name) \<longleftrightarrow> same_text name ?al" if "length name = length ?al"
      using that by (simp add: strncasecmp_eq_def same_text_def c_locale_def)
    ultimately show ?thesis using lens [of name ?al] by metis
  qed
  show ?thesis
    unfolding accepts_c_def entry_matches_def Let_def long bind.bind_lunit short carries_def by simp
qed

text \<open>The parts of a path between its separators.\<close>

function path_parts :: "u8 list \<Rightarrow> u8 list list" where
  "path_parts path =
    (let rest = skip_separators path
     in if rest = [] then []
        else takeWhile (\<lambda>c. c \<noteq> DIR_SEPARATOR) rest # path_parts (dropWhile (\<lambda>c. c \<noteq> DIR_SEPARATOR) rest))"
  by auto
termination
proof (relation "measure length")
  fix path rest :: "u8 list"
  assume r: "rest = skip_separators path" "rest \<noteq> []"
  then have "hd rest \<noteq> DIR_SEPARATOR" using hd_dropWhile [of "\<lambda>c. c = DIR_SEPARATOR" path] by (simp add: skip_separators_def del: dropWhile_eq_Nil_conv)
  then have "length (dropWhile (\<lambda>c. c \<noteq> DIR_SEPARATOR) rest) < length rest"
    using r(2) by (cases rest) (auto intro: le_imp_less_Suc length_dropWhile_le)
  moreover have "length rest \<le> length path" using r(1) length_dropWhile_le by (simp add: skip_separators_def)
  ultimately show "(dropWhile (\<lambda>c. c \<noteq> DIR_SEPARATOR) rest, path) \<in> measure length" by simp
qed simp

declare path_parts.simps [simp del]

lemma path_parts_skip: "path_parts (skip_separators path) = path_parts path"
  by (subst (1 2) path_parts.simps) (simp add: skip_separators_def Let_def)

lemma path_parts_seps: "skip_separators path = [] \<Longrightarrow> path_parts path = []"
  by (subst path_parts.simps) simp

lemma path_parts_name:
  assumes "name \<noteq> []" and "DIR_SEPARATOR \<notin> set name" and "rest = [] \<or> hd rest = DIR_SEPARATOR"
  shows "path_parts (name @ rest) = name # path_parts rest"
proof -
  have s: "skip_separators (name @ rest) = name @ rest" using assms(1,2) by (cases name) (auto simp: skip_separators_def)
  have "takeWhile (\<lambda>c. c \<noteq> DIR_SEPARATOR) rest = []" "dropWhile (\<lambda>c. c \<noteq> DIR_SEPARATOR) rest = rest"
    using assms(3) by (cases rest; simp)+
  moreover have "\<And>c. c \<in> set name \<Longrightarrow> c \<noteq> DIR_SEPARATOR" using assms(2) by auto
  ultimately show ?thesis
    by (subst path_parts.simps) (simp add: s assms(1) takeWhile_append2 dropWhile_append2)
qed

lemma path_parts_nonempty: "path \<noteq> [] \<Longrightarrow> hd path \<noteq> DIR_SEPARATOR \<Longrightarrow> path_parts path \<noteq> []"
  by (cases path; subst path_parts.simps) (auto simp: skip_separators_def Let_def)

section \<open>Resolving a path\<close>

text \<open>\<open>dirs\<close> lists the directories by their first cluster. A step in the directory \<open>c\<close>: in the root directory the dot
  names lead to itself, any other name to the first entry of that name, which has to be a directory when more
  of the path follows.\<close>

definition path_step :: "'d partition \<Rightarrow> (u32 \<Rightarrow> dir_entry list option) \<Rightarrow> u32 \<Rightarrow> u8 list \<Rightarrow> bool \<Rightarrow> dir_entry option option" where
  "path_step p dirs c name must_dir =
    (if c = p_rootDirCluster p \<and> name \<in> {[], [CH_DOT], [CH_DOT, CH_DOT]} then Some (Some (FAT_directory_getRootEntry p))
     else map_option (find (\<lambda>e. carries name e \<and> (\<not> must_dir \<or> FAT_directory_isDirectory e))) (dirs c))"

definition entered :: "'d partition \<Rightarrow> dir_entry \<Rightarrow> u32" where
  "entered p e = (let c = FAT_directory_entryGetCluster p (de_entryData e) in if c = CLUSTER_ROOT then p_rootDirCluster p else c)"

fun resolve_parts :: "'d partition \<Rightarrow> (u32 \<Rightarrow> dir_entry list option) \<Rightarrow> u32 \<Rightarrow> u8 list list \<Rightarrow> bool \<Rightarrow> dir_entry option option" where
  "resolve_parts p dirs c [] must_dir = path_step p dirs c [] must_dir"
| "resolve_parts p dirs c [name] must_dir = path_step p dirs c name must_dir"
| "resolve_parts p dirs c (name # part # parts) must_dir =
     (case path_step p dirs c name True of
        None \<Rightarrow> None
      | Some None \<Rightarrow> Some None
      | Some (Some e) \<Rightarrow> resolve_parts p dirs (entered p e) (part # parts) must_dir)"

definition root_of :: "'d partition \<Rightarrow> dir_entry \<Rightarrow> dir_entry" where
  "root_of p e =
    (if p_filesysType p = FS_FAT32 \<and> FAT_directory_isDirectory e \<and> FAT_directory_entryGetCluster p (de_entryData e) = CLUSTER_ROOT
     then FAT_directory_getRootEntry p else e)"

text \<open>The first \<open>k\<close> bytes of a path, from the root directory when it starts with a separator. What ends with a
  separator, or stops in front of one, has to be a directory.\<close>

definition resolve_path :: "'d partition \<Rightarrow> (u32 \<Rightarrow> dir_entry list option) \<Rightarrow> u8 list \<Rightarrow> nat \<Rightarrow> dir_entry option option" where
  "resolve_path p dirs path k =
    (let absolute = (path \<noteq> [] \<and> hd path = DIR_SEPARATOR);
         parts = path_parts (take k path);
         must_dir = (k < length path \<or> path \<noteq> [] \<and> last path = DIR_SEPARATOR)
     in if absolute \<and> parts = [] then Some (Some (FAT_directory_getRootEntry p))
        else map_option (map_option (root_of p))
          (resolve_parts p dirs (if absolute then p_rootDirCluster p else p_cwdCluster p) parts must_dir))"

section \<open>The walk\<close>

definition dirs_ok :: "('d \<Rightarrow> sec_t \<Rightarrow> u8 list) \<Rightarrow> 'd partition \<Rightarrow> (u32 \<Rightarrow> dir_entry list option) \<Rightarrow> bool" where
  "dirs_ok med p dirs \<longleftrightarrow> (\<forall>c es. dirs c = Some es \<longrightarrow>
     (\<exists>area. area_ok med p area \<and> area_start area = c \<and> dir_entries c_locale med p area = Some es))"

lemma dirs_okE:
  assumes "dirs_ok med p dirs" and "dirs c = Some es"
  obtains area where "area_ok med p area" and "c = area_start area" and "dir_entries c_locale med p area = Some es"
  using assms unfolding dirs_ok_def by blast

lemma dirs_kept: "pkept med p p' \<Longrightarrow> dirs_ok med p dirs \<Longrightarrow> dirs_ok med p' dirs"
  using area_kept [of med p p'] dir_entries_kept [of med p p' c_locale] unfolding dirs_ok_def by metis

lemma path_same:
  assumes same: "p_filesysType p' = p_filesysType p" "p_rootDirCluster p' = p_rootDirCluster p"
  shows "FAT_directory_getRootEntry p' = FAT_directory_getRootEntry p" "entered p' = entered p" "root_of p' = root_of p"
    "path_step p' = path_step p" "resolve_parts p' = resolve_parts p"
proof -
  show r: "FAT_directory_getRootEntry p' = FAT_directory_getRootEntry p" by (simp add: FAT_directory_getRootEntry_def same)
  have c: "FAT_directory_entryGetCluster p' = FAT_directory_entryGetCluster p"
    by (simp add: fun_eq_iff FAT_directory_entryGetCluster_def same)
  show e: "entered p' = entered p" by (simp add: fun_eq_iff entered_def Let_def c same)
  show "root_of p' = root_of p" by (simp add: fun_eq_iff root_of_def c same r)
  show s: "path_step p' = path_step p" by (simp add: fun_eq_iff path_step_def same r)
  have "resolve_parts p' dirs c parts md = resolve_parts p dirs c parts md" for dirs c parts md
  proof (induction parts arbitrary: c)
    case (Cons name parts)
    then show ?case by (cases parts) (simp_all add: s e split: option.split)
  qed (simp add: s)
  then show "resolve_parts p' = resolve_parts p" by (simp add: fun_eq_iff)
qed

lemma path_kept:
  assumes "pkept med p p'"
  shows "FAT_directory_getRootEntry p' = FAT_directory_getRootEntry p" "entered p' = entered p" "root_of p' = root_of p"
    "path_step p' = path_step p" "resolve_parts p' = resolve_parts p"
  using path_same [OF same_partD(2,5) [OF pkeptD(2) [OF assms]]] .

lemma root_is_directory: "FAT_directory_isDirectory (FAT_directory_getRootEntry p)"
  by (simp add: FAT_directory_isDirectory_def FAT_directory_getRootEntry_def u16_to_u8array_def Let_def ATTRIB_DIR_def)

lemma step_directory: "path_step p dirs c name True = Some (Some e) \<Longrightarrow> FAT_directory_isDirectory e"
  by (auto simp: path_step_def root_is_directory find_Some_iff split: if_splits)

text \<open>The dot names, as the code compares them.\<close>

lemma strncmp_dot:
  assumes "n \<le> length path" and "0 \<notin> set path"
  shows "strncmp_eq [CH_DOT] path n \<or> strncmp_eq [CH_DOT, CH_DOT] path n \<longleftrightarrow> take n path \<in> {[], [CH_DOT], [CH_DOT, CH_DOT]}"
proof -
  have nz: "x \<noteq> 0" if "x \<in> set (take n path)" for x using that assms(2) in_set_takeD by metis
  consider "n = 0" | a where "n = 1" "take n path = [a]" | a b where "n = 2" "take n path = [a, b]"
    | a b c r where "2 < n" "take n path = a # b # c # r"
  proof -
    have "length (take n path) = n" using assms(1) by simp
    then show thesis using that
      by (cases "take n path"; cases "tl (take n path)"; cases "tl (tl (take n path))") (auto simp: numeral_2_eq_2)
  qed
  then show ?thesis
  proof cases
    case 1
    then show ?thesis by (simp add: strncmp_eq_def)
  next
    case (2 a)
    then show ?thesis using assms(1) by (auto simp: strncmp_eq_def)
  next
    case (3 a b)
    have "b \<noteq> 0" using nz 3(2) 3(1) by (metis list.set_intros(1) list.set_intros(2))
    then show ?thesis using 3 assms(1) by (auto simp: strncmp_eq_def numeral_2_eq_2)
  next
    case (4 a b c r)
    have z: "b \<noteq> 0" "c \<noteq> 0" by (rule nz, simp add: 4)+
    have n: "n = Suc (Suc (Suc (n - 3)))" using 4(1) by simp
    have "take n (path @ [0]) = a # b # c # r" using 4(2) assms(1) by simp
    then have "\<not> strncmp_eq [CH_DOT] path n" "\<not> strncmp_eq [CH_DOT, CH_DOT] path n"
      unfolding strncmp_eq_def by (subst n, use z in simp)+
    then show ?thesis unfolding 4(2) by simp
  qed
qed

text \<open>One step of the walk.\<close>

definition walk_result :: "dir_entry option \<Rightarrow> bool \<times> dir_entry \<Rightarrow> bool" where
  "walk_result r x \<longleftrightarrow> (case r of None \<Rightarrow> \<not> fst x | Some e \<Rightarrow> x = (True, e))"

lemma walk_step:
  assumes ok: "part_ok med p" and d: "dirs_ok med p dirs" and n: "n \<le> length path" "n < PATH_MAX" "0 \<notin> set path"
    and r: "path_step p dirs c (take n path) (\<not> final) = Some r"
  obtains x p' where "(if c = p_rootDirCluster p \<and> (strncmp_eq [CH_DOT] path n \<or> strncmp_eq [CH_DOT, CH_DOT] path n)
       then Some ((True, FAT_directory_getRootEntry p), p)
       else do {
         ((foundFile, entry), p) \<leftarrow> FAT_directory_getFirstEntry c_locale p entry c;
         findInDirectory c_locale p path n final foundFile entry
       }) = Some (x, p')" and "pkept med p p'" and "walk_result r x"
proof (cases "c = p_rootDirCluster p \<and> take n path \<in> {[], [CH_DOT], [CH_DOT, CH_DOT]}")
  case True
  then have "r = Some (FAT_directory_getRootEntry p)" using r by (simp add: path_step_def)
  then show ?thesis using that [of "(True, FAT_directory_getRootEntry p)" p] True pkept_refl [OF ok] strncmp_dot [OF n(1,3)]
    by (simp add: walk_result_def)
next
  case False
  have acc: "accepts_c (take n path) = carries (take n path)"
    using accepts_carries [of "take n path"] n by (auto simp: fun_eq_iff dest: in_set_takeD)
  have n32: "n < 2 ^ 32" using n(2) by (simp add: PATH_MAX_def)
  from False obtain es where es: "dirs c = Some es" "r = find (\<lambda>e. accepts_c (take n path) e \<and> (final \<or> FAT_directory_isDirectory e)) es"
    using r by (auto simp: path_step_def acc)
  obtain area where a: "area_ok med p area" "c = area_start area" "dir_entries c_locale med p area = Some es"
    by (rule dirs_okE [OF d es(1)])
  obtain x p' where x: "do { ((foundFile, entry), p) \<leftarrow> FAT_directory_getFirstEntry c_locale p entry (area_start area);
      findInDirectory c_locale p path n final foundFile entry } = Some (x, p')" "pkept med p p'"
    "search_outcome (\<lambda>e. accepts_c (take n path) e \<and> (final \<or> FAT_directory_isDirectory e)) es x"
    by (rule findInDirectory_spec [OF a(1,3) entry_matches_take [OF n(1) n32]])
  have "walk_result r x" using x(3) by (simp add: search_outcome_def walk_result_def es(2))
  then show ?thesis using that [of x p'] x(1,2) False strncmp_dot [OF n(1,3)] by (simp only: a(2) if_False simp_thms)
qed

lemma takeWhile_name:
  fixes s :: "u8 list"
  defines "n \<equiv> length (takeWhile (\<lambda>c. c \<noteq> DIR_SEPARATOR) s)"
  shows "n \<le> length s" "take n s = takeWhile (\<lambda>c. c \<noteq> DIR_SEPARATOR) s" "DIR_SEPARATOR \<notin> set (take n s)"
    "drop n s = [] \<or> hd (drop n s) = DIR_SEPARATOR" "n = length s \<longleftrightarrow> drop n s = []" "s \<noteq> [] \<Longrightarrow> hd s \<noteq> DIR_SEPARATOR \<Longrightarrow> 0 < n"
proof -
  show n: "n \<le> length s" unfolding n_def by (rule length_takeWhile_le)
  show t: "take n s = takeWhile (\<lambda>c. c \<noteq> DIR_SEPARATOR) s" unfolding n_def by (metis takeWhile_eq_take)
  show "DIR_SEPARATOR \<notin> set (take n s)" unfolding t by (auto dest: set_takeWhileD)
  have "drop n s = dropWhile (\<lambda>c. c \<noteq> DIR_SEPARATOR) s" unfolding n_def by (simp add: dropWhile_eq_drop)
  then show "drop n s = [] \<or> hd (drop n s) = DIR_SEPARATOR" using hd_dropWhile [of "\<lambda>c. c \<noteq> DIR_SEPARATOR" s] by auto
  show "n = length s \<longleftrightarrow> drop n s = []" using n by auto
  show "0 < n" if "s \<noteq> []" "hd s \<noteq> DIR_SEPARATOR" using that by (cases s) (simp_all add: n_def)
qed

lemma skip_split:
  fixes t :: "u8 list"
  defines "u \<equiv> skip_separators t"
  shows "length u \<le> length t" "t = take (length t - length u) t @ u" "set (take (length t - length u) t) \<subseteq> {DIR_SEPARATOR}"
    "u \<noteq> [] \<Longrightarrow> hd u \<noteq> DIR_SEPARATOR"
proof -
  have tu: "t = takeWhile (\<lambda>c. c = DIR_SEPARATOR) t @ u" by (simp add: u_def skip_separators_def)
  then have len: "length t = length (takeWhile (\<lambda>c. c = DIR_SEPARATOR) t) + length u" by (metis length_append)
  then show "length u \<le> length t" by simp
  have tk: "take (length t - length u) t = takeWhile (\<lambda>c. c = DIR_SEPARATOR) t" using len by (subst (2) tu) simp
  then show "t = take (length t - length u) t @ u" using tu by simp
  show "set (take (length t - length u) t) \<subseteq> {DIR_SEPARATOR}" unfolding tk by (auto dest: set_takeWhileD)
  show "hd u \<noteq> DIR_SEPARATOR" if "u \<noteq> []" using that hd_dropWhile [of "\<lambda>c. c = DIR_SEPARATOR" t] by (simp add: u_def skip_separators_def)
qed

lemma skip_all: "set t \<subseteq> {DIR_SEPARATOR} \<Longrightarrow> skip_separators (t @ u) = skip_separators u"
  unfolding skip_separators_def by (rule dropWhile_append2) auto

text \<open>The separators behind a name, up to the end \<open>j\<close>.\<close>

lemma parts_behind:
  fixes t :: "u8 list"
  defines "l \<equiv> length t - length (skip_separators t)"
  assumes j: "j \<le> length t"
  shows "path_parts (take j t) = (if j \<le> l then [] else path_parts (take (j - l) (skip_separators t)))"
proof -
  note sp = skip_split [of t, folded l_def]
  have take: "take j t = take j (take l t) @ take (j - l) (skip_separators t)"
  proof (rule trans)
    show "take j t = take j (take l t @ skip_separators t)" by (rule arg_cong [OF sp(2)])
    have "length (take l t) = l" by (simp add: l_def)
    then show "take j (take l t @ skip_separators t) = take j (take l t) @ take (j - l) (skip_separators t)"
      by (simp only: take_append)
  qed
  have set: "set (take j (take l t)) \<subseteq> {DIR_SEPARATOR}" by (rule subset_trans [OF set_take_subset sp(3)])
  have parts: "path_parts (take j t) = path_parts (take (j - l) (skip_separators t))"
  proof -
    have "path_parts (take j t) = path_parts (skip_separators (take j (take l t) @ take (j - l) (skip_separators t)))"
      unfolding path_parts_skip by (rule arg_cong [OF take])
    then show ?thesis unfolding skip_all [OF set] path_parts_skip .
  qed
  show ?thesis
  proof (cases "j \<le> l")
    case True
    then have "path_parts (take (j - l) (skip_separators t)) = []" by (simp add: path_parts_seps skip_separators_def)
    then show ?thesis using parts True by simp
  next
    case False
    then show ?thesis using parts by simp
  qed
qed

definition names_short :: "u8 list list \<Rightarrow> bool" where
  "names_short parts \<longleftrightarrow> (\<forall>name \<in> set parts. length name < PATH_MAX)"

lemma walk_result_simps [simp]:
  "walk_result None x \<longleftrightarrow> \<not> fst x" "walk_result (Some e) x \<longleftrightarrow> x = (True, e)"
  by (simp_all add: walk_result_def)

text \<open>One round of the loop: the step, and what follows it.\<close>

lemma loop_round:
  fixes s :: "u8 list" and p :: "'d partition"
  defines "n \<equiv> length (takeWhile (\<lambda>c. c \<noteq> DIR_SEPARATOR) s)"
  assumes ok: "part_ok med p" and d: "dirs_ok med p dirs" and len: "n < PATH_MAX" and z: "0 \<notin> set s"
    and r: "path_step p dirs c (take n s) (n \<noteq> length s) = Some r"
  obtains x p' where "pkept med p p'" and "walk_result r x"
    and "entryFromPath_loop c_locale p entry c s room =
      (let u = skip_separators (drop n s); room' = room - (int (length s) - int (length u)) in
       if r = None then Some ((False, snd x), p')
       else if n = length s \<or> int n \<ge> room then Some ((True, snd x), p')
       else if room' \<le> 0 then Some ((True, snd x), p') else entryFromPath_loop c_locale p' (snd x) (entered p (snd x)) u room')"
proof -
  have n: "n \<le> length s" "n < PATH_MAX" using length_takeWhile_le [of _ s] len by (simp_all add: n_def)
  obtain x p' where x: "(if c = p_rootDirCluster p \<and> (strncmp_eq [CH_DOT] s n \<or> strncmp_eq [CH_DOT, CH_DOT] s n)
       then Some ((True, FAT_directory_getRootEntry p), p)
       else do {
         ((foundFile, entry), p) \<leftarrow> FAT_directory_getFirstEntry c_locale p entry c;
         findInDirectory c_locale p s n (n = length s) foundFile entry
       }) = Some (x, p')" and k: "pkept med p p'" and res: "walk_result r x"
    by (rule walk_step [where path = s and n = n and final = "n = length s" and c = c and entry = entry,
          OF ok d n z r])
  have short: "\<not> n > PATH_MAX" using len by simp
  obtain b e where xe: "x = (b, e)" by (cases x)
  have b: "b \<longleftrightarrow> r \<noteq> None" using res xe by (cases r) auto
  have dir: "FAT_directory_isDirectory e" if "n \<noteq> length s" "r \<noteq> None"
    using that res xe r step_directory [of p dirs c "take n s"] by (cases r) auto
  have ent: "(let dirCluster = FAT_directory_entryGetCluster p' (de_entryData e)
      in if dirCluster = CLUSTER_ROOT then p_rootDirCluster p' else dirCluster) = entered p e"
    using fun_cong [OF path_kept(2) [OF k], of e] by (simp add: entered_def)
  have "entryFromPath_loop c_locale p entry c s room =
      (let u = skip_separators (drop n s); room' = room - (int (length s) - int (length u)) in
       if r = None then Some ((False, e), p')
       else if n = length s \<or> int n \<ge> room then Some ((True, e), p')
       else if room' \<le> 0 then Some ((True, e), p') else entryFromPath_loop c_locale p' e (entered p e) u room')"
    using b dir ent
    by (subst entryFromPath_loop.simps, unfold Let_def n_def [symmetric] if_not_P [OF short], unfold x xe bind.bind_lunit prod.case)
      (cases r; cases "n = length s"; simp)
  then show thesis by (intro that [OF k res]) (simp only: xe snd_conv)
qed

lemma loop_resolves:
  fixes p :: "'d partition"
  assumes "part_ok med p" and "dirs_ok med p dirs" and "0 \<notin> set s"
    and "k \<le> length s" and "k < length s \<Longrightarrow> s ! k = DIR_SEPARATOR" and "s = [] \<or> hd s \<noteq> DIR_SEPARATOR"
    and "names_short (path_parts (take k s))"
    and "resolve_parts p dirs c (path_parts (take k s)) (k < length s \<or> s \<noteq> [] \<and> last s = DIR_SEPARATOR) = Some r"
  shows "\<exists>x p'. entryFromPath_loop c_locale p entry c s (int k) = Some (x, p') \<and> pkept med p p' \<and> walk_result r x"
  using assms
proof (induction "length s" arbitrary: s k c p entry rule: less_induct)
  case less
  note ok = less.prems(1) and d = less.prems(2) and z = less.prems(3) and k = less.prems(4,5) and hd = less.prems(6)
  let ?md = "k < length s \<or> s \<noteq> [] \<and> last s = DIR_SEPARATOR"
  define n where "n = length (takeWhile (\<lambda>c. c \<noteq> DIR_SEPARATOR) s)"
  define t where "t = drop n s"
  define u where "u = skip_separators t"
  define l where "l = length t - length u"
  note w = takeWhile_name [of s, folded n_def, folded t_def]
  have st: "s = take n s @ t" by (simp add: t_def)
  have len_t: "length s = n + length t" using w(1) by (simp add: t_def)
  have nk: "n \<le> k"
  proof (rule ccontr)
    assume "\<not> n \<le> k"
    then have kn: "k < n" "k < length s" using w(1) by simp_all
    then have "s ! k \<in> set (take n s)" by (auto simp: in_set_conv_nth)
    then show False using w(3) k(2) [OF kn(2)] by simp
  qed
  have tk: "take k s = take n s @ take (k - n) t"
    using nk unfolding t_def by (metis le_add_diff_inverse take_add)
  define P where "P = path_parts (take (k - n) t)"
  have parts: "path_parts (take k s) = take n s # P" if "s \<noteq> []"
    unfolding tk P_def
  proof (rule path_parts_name)
    show "take n s \<noteq> []" using w(6) that hd by auto
    show "DIR_SEPARATOR \<notin> set (take n s)" by (rule w(3))
    show "take (k - n) t = [] \<or> List.hd (take (k - n) t) = DIR_SEPARATOR"
      using w(4) by (cases "k - n"; cases t) simp_all
  qed
  note sp = skip_split [of t, folded u_def, folded l_def]
  have behind: "P = (if k - n \<le> l then [] else path_parts (take (k - n - l) u))"
    unfolding P_def u_def l_def by (rule parts_behind) (use k(1) len_t in linarith)
  have lens: "length s = n + l + length u" using sp(1) len_t unfolding l_def by linarith
  have more: "\<exists>name parts. P = name # parts" if "k - n > l"
  proof -
    have u: "take (k - n - l) u \<noteq> []" using that lens k(1) by auto
    then have "path_parts (take (k - n - l) u) \<noteq> []" using sp(4) by (intro path_parts_nonempty) simp_all
    then show ?thesis using that by (simp add: behind neq_Nil_conv)
  qed
  have len: "n < PATH_MAX" using less.prems(7) parts w(1) by (cases "s = []") (auto simp: names_short_def n_def PATH_MAX_def)
  have last_name: "last s \<noteq> DIR_SEPARATOR" if "s \<noteq> []" "n = length s"
    using w(3) that by (metis last_in_set take_all order_refl)
  have last_sep: "last s = DIR_SEPARATOR" if "k = length s" "k - n \<le> l" "n \<noteq> length s"
  proof -
    have "l \<le> length t" by (simp add: l_def)
    then have u: "u = []" and t: "t \<noteq> []" using that lens w(1) len_t by auto
    have "take l t = t" using u by (simp add: l_def)
    then have "last t \<in> set (take l t)" using last_in_set [OF t] by simp
    then have "last t = DIR_SEPARATOR" using sp(3) by auto
    moreover have "last s = last t" by (subst st) (simp add: t)
    ultimately show ?thesis by simp
  qed
  obtain r1 where r1: "path_step p dirs c (take n s) (n \<noteq> length s) = Some r1"
    and rest: "if n = length s \<or> k - n \<le> l then r = r1
      else case r1 of None \<Rightarrow> r = None | Some e \<Rightarrow> resolve_parts p dirs (entered p e) P ?md = Some r"
  proof (cases "n = length s")
    case True
    then have kl: "k = length s" "?md = False" using k(1) nk last_name by auto
    then have P: "P = []" using True by (simp add: behind)
    have "path_step p dirs c (take n s) False = Some r"
      using less.prems(8) parts True kl(2) P by (cases "s = []") (simp_all add: path_parts_seps skip_separators_def)
    then show ?thesis using that [of r] True by simp
  next
    case False
    then have s: "s \<noteq> []" by (auto simp: n_def)
    show ?thesis
    proof (cases "k - n \<le> l")
      case True
      then have md: "?md = True" using last_sep False k(1) s by (cases "k = length s") auto
      have "path_step p dirs c (take n s) True = Some r"
        using less.prems(8) unfolding md parts [OF s] behind if_P [OF True] by simp
      then show ?thesis using that [of r] False True by simp
    next
      case more': False
      obtain name ps where P: "P = name # ps" using more more' by auto
      show ?thesis using less.prems(8) that False more' unfolding parts [OF s] P by (auto split: option.splits)
    qed
  qed
  obtain x p' where x: "pkept med p p'" "walk_result r1 x"
    "entryFromPath_loop c_locale p entry c s (int k) =
      (let u = u; room' = int k - (int (length s) - int (length u)) in
       if r1 = None then Some ((False, snd x), p')
       else if n = length s \<or> int n \<ge> int k then Some ((True, snd x), p')
       else if room' \<le> 0 then Some ((True, snd x), p') else entryFromPath_loop c_locale p' (snd x) (entered p (snd x)) u room')"
    unfolding u_def t_def by (rule loop_round [of med p dirs s, folded n_def, OF ok d len z r1])
  show ?case
  proof (cases "r1 = None \<or> n = length s \<or> k - n \<le> l")
    case True
    then have r: "r = r1" using rest by (auto split: if_splits option.splits)
    have "int k - (int (length s) - int (length u)) \<le> 0 \<or> r1 = None \<or> n = length s"
      using True lens by linarith
    then show ?thesis using x r by (cases r1) (auto simp: Let_def)
  next
    case False
    then obtain e where e: "r1 = Some e" by auto
    have xe: "x = (True, e)" using x(2) e by simp
    have go: "k - n > l" "k > n" using False by auto
    define kk where "kk = k - n - l"
    have room: "int k - (int (length s) - int (length u)) = int kk" using lens go by (simp add: kk_def)
    have pos: "kk > 0" using go by (simp add: kk_def)
    have run: "entryFromPath_loop c_locale p entry c s (int k) = entryFromPath_loop c_locale p' e (entered p e) u (int kk)"
      using x(3) xe e False go pos unfolding Let_def room by simp
    have md: "?md = (kk < length u \<or> u \<noteq> [] \<and> last u = DIR_SEPARATOR)"
    proof -
      have u: "u \<noteq> []" using go lens k(1) by auto
      have "t \<noteq> []" using u by (auto simp: u_def skip_separators_def)
      then have "last s = last t" by (subst st) simp
      also have "\<dots> = last u" by (subst sp(2)) (simp add: u)
      finally have "last s = last u" .
      then show ?thesis using u lens k(1) go by (auto simp: kk_def)
    qed
    have P: "P = path_parts (take kk u)" using behind go by (simp add: kk_def)
    have s0: "s \<noteq> []" using False by (auto simp: n_def)
    have "\<exists>x p''. entryFromPath_loop c_locale p' e (entered p e) u (int kk) = Some (x, p'') \<and> pkept med p' p'' \<and> walk_result r x"
    proof (rule less.hyps)
      have "0 < n" using w(6) [OF s0] hd s0 by simp
      then show "length u < length s" using lens by simp
      show "part_ok med p'" by (rule pkeptD(1) [OF x(1)])
      show "dirs_ok med p' dirs" by (rule dirs_kept [OF x(1) d])
      show "0 \<notin> set u" using z by (auto simp: u_def t_def skip_separators_def dest!: set_dropWhileD in_set_dropD)
      show "kk \<le> length u" using lens k(1) by (simp add: kk_def)
      show "u ! kk = DIR_SEPARATOR" if "kk < length u"
      proof -
        have "s ! k = t ! (k - n)" using nk w(1) by (simp add: t_def)
        also have "\<dots> = u ! kk" by (subst sp(2)) (use go lens len_t in \<open>simp add: nth_append kk_def l_def\<close>)
        finally show ?thesis using k(2) that lens go by (simp add: kk_def)
      qed
      show "u = [] \<or> List.hd u \<noteq> DIR_SEPARATOR" using sp(4) by auto
      show "names_short (path_parts (take kk u))" using less.prems(7) parts [OF s0] P by (simp add: names_short_def)
      show "resolve_parts p' dirs (entered p e) (path_parts (take kk u)) (kk < length u \<or> u \<noteq> [] \<and> last u = DIR_SEPARATOR) = Some r"
        using rest False go e unfolding path_kept(5) [OF x(1)] md [symmetric] P [symmetric] by simp
    qed
    then show ?thesis unfolding run using pkept_trans [OF x(1)] by blast
  qed
qed

section \<open>Whole paths\<close>

text \<open>\<open>pathEnd\<close> is the end of the path or the place of a separator in it.\<close>

lemma path_walk:
  fixes p :: "'d partition"
  assumes ok: "part_ok med p" and d: "dirs_ok med p dirs" and z: "0 \<notin> set path" and short: "names_short (path_parts (take k path))"
    and k: "k \<le> length path" "k < length path \<Longrightarrow> path ! k = DIR_SEPARATOR"
    and r: "resolve_path p dirs path k = Some r" and pe: "pathEnd = Some k \<or> pathEnd = None \<and> k = length path"
  obtains x p' where "FAT_directory_entryFromPath c_locale p entry path pathEnd = Some (x, p')" and "pkept med p p'" and "walk_result r x"
proof -
  define abs where "abs \<longleftrightarrow> path \<noteq> [] \<and> hd path = DIR_SEPARATOR"
  define s where "s = (if abs then skip_separators path else path)"
  define l where "l = length path - length s"
  define start where "start = (if abs then p_rootDirCluster p else p_cwdCluster p)"
  have pe': "(case pathEnd of None \<Rightarrow> length path | Some n \<Rightarrow> n) = k" using pe by auto
  have s: "path = take l path @ s" "length path = l + length s" "abs \<Longrightarrow> l > 0" "\<not> abs \<Longrightarrow> l = 0"
    "s = [] \<or> hd s \<noteq> DIR_SEPARATOR"
  proof -
    note sp = skip_split [of path]
    show "path = take l path @ s" "length path = l + length s"
      using sp(1,2) by (auto simp: s_def l_def)
    show "\<not> abs \<Longrightarrow> l = 0" by (simp add: s_def l_def)
    show sep: "s = [] \<or> hd s \<noteq> DIR_SEPARATOR" using sp(4) by (auto simp: s_def abs_def)
    show "l > 0" if abs
    proof (rule ccontr)
      assume "\<not> l > 0"
      then have "path = s" using \<open>path = take l path @ s\<close> by simp
      then show False using sep that by (simp add: abs_def)
    qed
  qed
  have parts: "path_parts (take k path) = (if k \<le> l then [] else path_parts (take (k - l) s))"
  proof (cases abs)
    case True
    then show ?thesis using parts_behind [OF k(1)] by (simp add: s_def l_def)
  next
    case False
    then have "s = path" "l = 0" by (simp_all add: s_def l_def)
    then show ?thesis by (simp add: path_parts_seps skip_separators_def)
  qed
  have eq: "FAT_directory_entryFromPath c_locale p entry path pathEnd =
    do {
      ((found, entry), p) \<leftarrow>
        (if abs \<and> k \<le> l then Some ((True, FAT_directory_getRootEntry p), p)
         else entryFromPath_loop c_locale p entry start s (int k - int l));
      if \<not> found then Some ((False, entry), p) else Some ((True, root_of p entry), p)
    }"
  proof -
    have room: "int k - (int (length path) - int (length s)) = int k - int l" using s(2) by simp
    show ?thesis
      unfolding FAT_directory_entryFromPath_def Let_def pe' abs_def [symmetric] s_def [symmetric] start_def [symmetric] room
      by (intro Option.bind_cong refl) (auto simp: root_of_def)
  qed
  show thesis
  proof (cases "abs \<and> k \<le> l")
    case True
    then have "r = Some (FAT_directory_getRootEntry p)"
      using r parts by (simp add: resolve_path_def Let_def abs_def)
    moreover have "root_of p (FAT_directory_getRootEntry p) = FAT_directory_getRootEntry p" by (simp add: root_of_def)
    ultimately show ?thesis using that [of "(True, FAT_directory_getRootEntry p)" p] True pkept_refl [OF ok] by (simp add: eq)
  next
    case False
    then have kl: "l \<le> k" using s(4) by (cases abs) auto
    have P: "path_parts (take k path) = path_parts (take (k - l) s)"
      using parts kl by (auto simp: path_parts_seps skip_separators_def)
    have ne: "s \<noteq> []" "path_parts (take k path) \<noteq> []" if abs
    proof -
      have lk: "l < k" using False that by simp
      then show s0: "s \<noteq> []" using k(1) s(2) by auto
      show "path_parts (take k path) \<noteq> []" unfolding P using lk s0 s(5) by (intro path_parts_nonempty) simp_all
    qed
    have md: "k < length path \<or> path \<noteq> [] \<and> last path = DIR_SEPARATOR \<longleftrightarrow> k - l < length s \<or> s \<noteq> [] \<and> last s = DIR_SEPARATOR"
    proof (cases "s = []")
      case True
      then show ?thesis using ne(1) s k(1) by (cases abs) auto
    next
      case s0: False
      then have "last path = last s" by (subst s(1)) simp
      moreover have "path \<noteq> []" using s0 s(2) by auto
      ultimately show ?thesis using s0 s(2) kl by auto
    qed
    have nr: "\<not> (abs \<and> path_parts (take k path) = [])" using ne(2) by auto
    have "map_option (map_option (root_of p)) (resolve_parts p dirs start (path_parts (take (k - l) s))
        (k - l < length s \<or> s \<noteq> [] \<and> last s = DIR_SEPARATOR)) = Some r"
      using r unfolding resolve_path_def Let_def abs_def [symmetric] if_not_P [OF nr] start_def [symmetric] md unfolding P .
    then obtain r0 where r0: "resolve_parts p dirs start (path_parts (take (k - l) s))
        (k - l < length s \<or> s \<noteq> [] \<and> last s = DIR_SEPARATOR) = Some r0" "r = map_option (root_of p) r0"
      by auto
    have zs: "0 \<notin> set s" using z by (subst (asm) s(1)) simp
    have kl': "k - l \<le> length s" using k(1) s(2) by simp
    have at: "s ! (k - l) = DIR_SEPARATOR" if "k - l < length s"
    proof -
      have "path ! k = s ! (k - l)" by (subst s(1)) (use kl s(2) in \<open>simp add: nth_append\<close>)
      then show ?thesis using k(2) that s(2) kl by simp
    qed
    obtain x p' where x: "entryFromPath_loop c_locale p entry start s (int (k - l)) = Some (x, p')" "pkept med p p'" "walk_result r0 x"
      using loop_resolves [OF ok d zs kl' at s(5) short [unfolded P] r0(1)] by blast
    have room: "int k - int l = int (k - l)" using kl by simp
    obtain b e where xe: "x = (b, e)" by (cases x)
    have "FAT_directory_entryFromPath c_locale p entry path pathEnd = Some (if b then (True, root_of p e) else (False, e), p')"
      unfolding eq if_not_P [OF False] room x(1) xe bind.bind_lunit prod.case path_kept(3) [OF x(2)] by simp
    moreover have "walk_result r (if b then (True, root_of p e) else (False, e))"
      using x(3) r0(2) xe by (cases r0) auto
    ultimately show ?thesis using that x(2) by blast
  qed
qed

end
