(* ===== verification/NameCalls.thy ===== *)
theory NameCalls
  imports DirCalls PathWalk DirRemove
begin

text \<open>
  The calls on names against the listing of the directory: \<open>unlink\<close> as the composition of the path walk, the
  release of the chain, the removal of the entry and the flush of the cache.
\<close>

section \<open>Steps beside a directory\<close>

text \<open>A step that leaves the slots of the directory alone and keeps its chain.\<close>

lemma beside_directory:
  assumes inv: "dir_inv med xs ys p area" and ok': "part_ok med p'" and sv: "same_volume p p'"
    and f: "forest (fat_table med p') (FAT_fat_isValidCluster p) (xs' @ area_chains area @ ys')"
    and view: "\<And>i. i < slot_count p area \<Longrightarrow>
      pview med p' (pos_sector p (slot_at p area i)) = pview med p (pos_sector p (slot_at p area i))"
  shows "dir_inv med xs' ys' p' area" and "dir_content (pview med p') p' area = dir_content (pview med p) p area"
proof -
  note ok = dir_invD(1) [OF inv] and vs = vol_same [OF sv] and sd = same_volumeD [OF sv]
  have vol: "volume_ok med p'" by (rule same_volume_ok [OF sv area_okD(1) [OF ok] ok'])
  have "area_ok med p' area"
  proof (cases area)
    case Root
    then show ?thesis using ok vol vs(8-10,14) sd(1) by (simp add: area_ok_def same_region_def)
  next
    case (Chain cs)
    then have "chain (fat_table med p') (FAT_fat_isValidCluster p) cs" "fat_table med p' (last cs) = CLUSTER_EOF"
      using forestD(1,2) [OF f, of cs] by (simp_all add: area_chains_def)
    then show ?thesis using ok vol by (simp add: Chain area_ok_def file_chain_def sd)
  qed
  then show "dir_inv med xs' ys' p' area" using f by (simp add: dir_inv_def sd)
  show "dir_content (pview med p') p' area = dir_content (pview med p) p area"
    by (rule nth_equalityI) (simp_all add: vs nth_dir_content slot_bytes_def view)
qed

lemma flush_part:
  assumes ok: "part_ok med p"
  obtains p' where "flush_partition p = (True, p')" and "pkept med p p'" and "med (c_medium (p_cache p')) = pview med p'"
proof -
  obtain b c where fl: "FAT_cache_flush (p_cache p) = (b, c)" by fastforce
  have st: "cache_inv med (p_cache p)" "disc_reliable (c_disc (p_cache p)) (unat (c_endOfPartition (p_cache p)))"
    using part_okD(1) [OF ok] by (simp_all add: store_inv_def)
  note s = flush_spec [OF st(1) fl]
  have b: b using s(4) st(2) by blast
  have k: "cache_inv med c" "cview med c = cview med (p_cache p)" "geom c = geom (p_cache p)"
    using s(1) by (simp_all add: kept_def)
  have g: "c_endOfPartition c = c_endOfPartition (p_cache p)" "c_bytesPerSector c = c_bytesPerSector (p_cache p)"
    using geomD [OF k(3)] by simp_all
  have "store_inv med c" by (rule store_inv_geom [OF k(1,3) part_okD(1) [OF ok]])
  from cache_step [OF ok this g(1)] g(2) have "pkept med p (p\<lparr>p_cache := c\<rparr>)"
    by (simp add: pkept_def pview_def k(2))
  moreover have "med (c_medium c) = pview med (p\<lparr>p_cache := c\<rparr>)" using s(3) [OF b] k(2) by (simp add: pview_def)
  ultimately show thesis using that [of "p\<lparr>p_cache := c\<rparr>"] b fl by (simp add: flush_partition_def)
qed

section \<open>Removing a name\<close>

text \<open>The chain of an entry: none when its first cluster is not one.\<close>

definition owns :: "'d partition \<Rightarrow> dir_entry \<Rightarrow> u32 list list \<Rightarrow> bool" where
  "owns p e fcs \<longleftrightarrow> (let c = FAT_directory_entryGetCluster p (de_entryData e)
     in if FAT_fat_isValidCluster p c then \<exists>cs. fcs = [cs] \<and> hd cs = c else fcs = [])"

text \<open>\<open>without e\<close>: the directory lists one entry less, its chain is free, and the medium agrees.\<close>

definition name_gone ::
    "('d \<Rightarrow> sec_t \<Rightarrow> u8 list) \<Rightarrow> 'mb char_env \<Rightarrow> 'd partition \<Rightarrow> dir_area \<Rightarrow> dir_entry list \<Rightarrow> u32 list list
      \<Rightarrow> 'd partition \<Rightarrow> bool" where
  "name_gone med env p area es fcs p' \<longleftrightarrow> same_volume p p' \<and>
     (\<exists>items tail. tidy env (dir_content (pview med p') p' area) items tail \<and> listing env items = es) \<and>
     fat_table med p' = (\<lambda>d. if d \<in> set (concat fcs) then CLUSTER_FREE else fat_table med p d) \<and>
     (\<forall>t. \<not> in_table p t \<longrightarrow> t \<notin> area_secs p area \<longrightarrow> pview med p' t = pview med p t) \<and>
     med (c_medium (p_cache p')) = pview med p'"

lemma release_chain:
  assumes inv: "dir_inv med (fcs @ xs) ys p area" and own: "owns p e fcs"
  obtains p' where "(if FAT_fat_isValidCluster p (FAT_directory_entryGetCluster p (de_entryData e))
      then FAT_fat_clearLinks p (FAT_directory_entryGetCluster p (de_entryData e)) else Some (True, p)) = Some (True, p')"
    and "dir_inv med xs ys p' area" and "same_volume p p'"
    and "dir_content (pview med p') p' area = dir_content (pview med p) p area"
    and "fat_table med p' = (\<lambda>d. if d \<in> set (concat fcs) then CLUSTER_FREE else fat_table med p d)"
    and "\<forall>t. \<not> in_table p t \<longrightarrow> pview med p' t = pview med p t"
proof (cases "FAT_fat_isValidCluster p (FAT_directory_entryGetCluster p (de_entryData e))")
  case False
  then have "fcs = []" using own by (simp add: owns_def)
  then show ?thesis using that [of p] False inv by (simp add: same_volume_refl)
next
  case True
  let ?c = "FAT_directory_entryGetCluster p (de_entryData e)"
  note ok = dir_invD(1) [OF inv]
  obtain cs where cs: "fcs = [cs]" "hd cs = ?c" using own True by (auto simp: owns_def)
  have f: "forest (fat_table med p) (FAT_fat_isValidCluster p) ([] @ cs # xs @ area_chains area @ ys)"
    using dir_invD(2) [OF inv] by (simp add: cs)
  have ch: "chain (fat_table med p) (FAT_fat_isValidCluster p) cs" using forestD(1) [OF f, of cs] by simp
  obtain ds where ds: "cs = ?c # ds" using chain_ne [OF ch] cs(2) by (cases cs) auto
  obtain p' where p': "FAT_fat_clearLinks p ?c = Some (True, p')" "part_ok med p'" "fs_step med p p'"
    "fat_table med p' = (\<lambda>d. if d \<in> set cs then CLUSTER_FREE else fat_table med p d)"
    using clearLinks_spec [OF area_okD(2) [OF ok] ch [unfolded ds]] ds by auto
  have sv: "same_volume p p'" by (rule same_volume_step [OF p'(3)])
  have view: "\<forall>t. \<not> in_table p t \<longrightarrow> pview med p' t = pview med p t"
    using p'(3) by (simp add: fs_step_def in_table_def)
  have f': "forest (fat_table med p') (FAT_fat_isValidCluster p) (xs @ area_chains area @ ys)"
    unfolding p'(4) using forest_delete [OF f] by simp
  have "pview med p' (pos_sector p (slot_at p area i)) = pview med p (pos_sector p (slot_at p area i))"
    if "i < slot_count p area" for i
    using view slot_sector(2) [OF ok that] by (simp add: in_table_def)
  note b = beside_directory [OF inv p'(2) sv f' this]
  show ?thesis using that [OF _ b(1) sv b(2) _ view] True p'(1,4) cs(1) by simp
qed

lemma unlink_entry_spec:
  assumes inv: "dir_inv med (fcs @ xs) ys p area" and t: "tidy env (dir_content (pview med p) p area) items tail"
    and k: "k < length (listing env items)" and own: "owns p (listing env items ! k) fcs"
  defines "e \<equiv> listing env items ! k"
  obtains p' where "unlink_entry p e = Some (if de_dataEnd e = slot_at p area (slot_count p area - 1) then Some EIO else None, p')"
    and "dir_inv med xs ys p' area"
    and "name_gone med env p area (take k (listing env items) @ drop (Suc k) (listing env items)) fcs p'"
proof -
  obtain p1 where p1: "(if FAT_fat_isValidCluster p (FAT_directory_entryGetCluster p (de_entryData e))
      then FAT_fat_clearLinks p (FAT_directory_entryGetCluster p (de_entryData e)) else Some (True, p)) = Some (True, p1)"
    "dir_inv med xs ys p1 area" "same_volume p p1"
    "dir_content (pview med p1) p1 area = dir_content (pview med p) p area"
    "fat_table med p1 = (\<lambda>d. if d \<in> set (concat fcs) then CLUSTER_FREE else fat_table med p d)"
    "\<forall>t. \<not> in_table p t \<longrightarrow> pview med p1 t = pview med p t"
    by (rule release_chain [OF inv own [folded e_def]])
  note vs = vol_same [OF p1(3)]
  obtain b p2 items' where p2: "FAT_directory_removeEntry p1 e = Some (b, p2)"
    "b \<longleftrightarrow> de_dataEnd e \<noteq> slot_at p1 area (slot_count p1 area - 1)" "dir_step med area p1 p2"
    "tidy env (dir_content (pview med p2) p2 area) items' tail"
    "listing env items' = take k (listing env items) @ drop (Suc k) (listing env items)"
    unfolding e_def by (rule removeEntry_step [OF p1(2) t [folded p1(4)] k])
  note ok1 = dir_invD(1) [OF p1(2)]
  obtain p3 where p3: "flush_partition p2 = (True, p3)" "pkept med p2 p3" "med (c_medium (p_cache p3)) = pview med p3"
    by (rule flush_part [OF dir_stepD(1) [OF p2(3)]])
  have st: "dir_step med area p1 p3" by (rule dir_step_trans [OF p2(3) dir_step_kept [OF p3(2)]])
  have run: "unlink_entry p e = Some (if de_dataEnd e = slot_at p area (slot_count p area - 1) then Some EIO else None, p3)"
    using p2(2) unfolding unlink_entry_def Let_def p1(1) bind.bind_lunit prod.case p2(1) p3(1) by (simp add: vs)
  have inv3: "dir_inv med xs ys p3 area" by (rule dir_evolvesD(1) [OF dir_evolves_step [OF p1(2) st]])
  have "same_volume p p3" by (rule same_volume_trans [OF p1(3) same_volume_part [OF dir_stepD(2) [OF st]]])
  moreover have "tidy env (dir_content (pview med p3) p3 area) items' tail"
    using p2(4) by (simp only: dir_content_kept [OF p3(2)])
  moreover have "fat_table med p3 = (\<lambda>d. if d \<in> set (concat fcs) then CLUSTER_FREE else fat_table med p d)"
    using dir_step_table(1) [OF ok1 st] p1(5) by simp
  moreover have "pview med p3 t = pview med p t" if "\<not> in_table p t" "t \<notin> area_secs p area" for t
    using dir_stepD(3) [OF st] p1(6) that by (simp add: vs)
  ultimately have "name_gone med env p area (take k (listing env items) @ drop (Suc k) (listing env items)) fcs p3"
    unfolding name_gone_def using p2(5) p3(3) by blast
  then show thesis using that run inv3 by blast
qed

lemma name_gone_kept:
  assumes k: "pkept med p q" and g: "name_gone med env q area es fcs p'"
  shows "name_gone med env p area es fcs p'"
proof -
  note sv = same_volume_part [OF pkeptD(2) [OF k]]
  show ?thesis
    using g same_volume_trans [OF sv] pkept_table [OF k] pkeptD(3) [OF k] same_volumeD(12) [OF sv] vol_same(7) [OF sv]
    by (auto simp: name_gone_def)
qed

lemma getCluster_kept: "pkept med p q \<Longrightarrow> FAT_directory_entryGetCluster q = FAT_directory_entryGetCluster p"
  using same_partD(2) [of p q] pkeptD(2) [of med p q] by (simp add: fun_eq_iff FAT_directory_entryGetCluster_def)

lemma owns_kept: "pkept med p q \<Longrightarrow> owns q = owns p"
  by (simp add: fun_eq_iff owns_def getCluster_kept pkept_valid)

section \<open>Empty directories\<close>

lemma only_dots_from:
  assumes "area_ok med p area" and "dir_entries env med p area = Some es" and "k < length es"
  shows "\<exists>p'. only_dots env p True (es ! k) = Some (list_all FAT_directory_isDot (drop k es), p') \<and> pkept med p p'"
  using assms
proof (induction "length es - k" arbitrary: k p)
  case (Suc m)
  note ok = Suc.prems(1) and es = Suc.prems(2) and k = Suc.prems(3)
  have drop: "drop k es = es ! k # drop (Suc k) es" using k by (simp add: Cons_nth_drop_Suc)
  show ?case
  proof (cases "FAT_directory_isDot (es ! k)")
    case False
    then show ?thesis using pkept_refl [OF area_okD(2) [OF ok]] by (subst only_dots.simps) (simp add: drop)
  next
    case True
    obtain p1 entry' where p1: "FAT_directory_getNextEntry env p (es ! k) =
        Some ((Suc k < length es, if Suc k < length es then es ! Suc k else entry'), p1)" "pkept med p p1"
      by (rule getNextEntry_spec [OF ok es k])
    show ?thesis
    proof (cases "Suc k < length es")
      case more: True
      have "\<exists>p'. only_dots env p1 True (es ! Suc k) = Some (list_all FAT_directory_isDot (drop (Suc k) es), p') \<and> pkept med p1 p'"
        using Suc.hyps(2) more area_kept [OF p1(2) ok] es dir_entries_kept [OF p1(2), of env] by (intro Suc.hyps(1)) auto
      then show ?thesis using p1 True more pkept_trans [OF p1(2)] by (subst only_dots.simps) (auto simp: drop)
    next
      case False
      have "only_dots env p1 False entry' = Some (True, p1)" by (subst only_dots.simps) simp
      then show ?thesis using p1 True False by (subst only_dots.simps) (auto simp: drop)
    qed
  qed
qed simp

lemma only_dots_spec:
  assumes ok: "area_ok med p area" and es: "dir_entries env med p area = Some es"
  obtains p' where "do { ((nextEntry, dirContents), p) \<leftarrow> FAT_directory_getFirstEntry env p blank_entry (area_start area);
      only_dots env p nextEntry dirContents } = Some (list_all FAT_directory_isDot es, p')" and "pkept med p p'"
proof -
  obtain p1 entry' where p1: "FAT_directory_getFirstEntry env p blank_entry (area_start area) =
      Some ((es \<noteq> [], if es = [] then entry' else hd es), p1)" "pkept med p p1"
    by (rule getFirstEntry_spec [OF ok es])
  show thesis
  proof (cases es)
    case Nil
    then show ?thesis using that [of p1] p1 by (simp add: only_dots.simps)
  next
    case (Cons e es')
    obtain p' where "only_dots env p1 True (es ! 0) = Some (list_all FAT_directory_isDot (drop 0 es), p')" "pkept med p1 p'"
      using only_dots_from [OF area_kept [OF p1(2) ok], of env es 0] es dir_entries_kept [OF p1(2), of env] Cons by auto
    then show ?thesis using that [of p'] p1 Cons pkept_trans [OF p1(2)] by simp
  qed
qed

section \<open>The call\<close>

text \<open>Why an entry is not removed.\<close>

definition refusal :: "'d partition \<Rightarrow> (u32 \<Rightarrow> dir_entry list option) \<Rightarrow> dir_entry \<Rightarrow> bool \<Rightarrow> errno option option" where
  "refusal p dirs e isRmDir =
    (if FAT_directory_isDirectory e
     then if \<not> isRmDir then Some (Some EISDIR)
       else map_option (\<lambda>es. if list_all FAT_directory_isDot es then None else Some ENOTEMPTY)
         (dirs (FAT_directory_entryGetCluster p (de_entryData e)))
     else Some (if isRmDir then Some ENOTDIR else None))"

lemma unlink_refused_spec:
  assumes ok: "part_ok med p" and d: "dirs_ok med p dirs" and r: "refusal p dirs e isRmDir = Some r"
  obtains p' where "unlink_refused c_locale p e isRmDir = Some (r, p')" and "pkept med p p'"
proof (cases "FAT_directory_isDirectory e \<and> isRmDir")
  case True
  then obtain es where es: "dirs (FAT_directory_entryGetCluster p (de_entryData e)) = Some es"
    "r = (if list_all FAT_directory_isDot es then None else Some ENOTEMPTY)"
    using r by (auto simp: refusal_def)
  obtain area where a: "area_ok med p area" "FAT_directory_entryGetCluster p (de_entryData e) = area_start area"
    "dir_entries c_locale med p area = Some es"
    by (rule dirs_okE [OF d es(1)])
  obtain p' where p': "do { ((nextEntry, dirContents), p) \<leftarrow> FAT_directory_getFirstEntry c_locale p blank_entry (area_start area);
      only_dots c_locale p nextEntry dirContents } = Some (list_all FAT_directory_isDot es, p')" "pkept med p p'"
    by (rule only_dots_spec [OF a(1,3)])
  from p'(1) have "unlink_refused c_locale p e isRmDir = Some (r, p')"
    using True by (auto simp: unlink_refused_def a(2) es(2) bind_eq_Some_conv)
  then show ?thesis using that p'(2) by blast
next
  case False
  then have "unlink_refused c_locale p e isRmDir = Some (r, p)"
    using r by (auto simp: unlink_refused_def refusal_def split: if_splits)
  then show ?thesis using that pkept_refl [OF ok] by blast
qed

definition unlink_outcome ::
    "('d \<Rightarrow> sec_t \<Rightarrow> u8 list) \<Rightarrow> u32 list list \<Rightarrow> u32 list list \<Rightarrow> 'd partition \<Rightarrow> dir_area \<Rightarrow> dir_entry list \<Rightarrow> nat
      \<Rightarrow> u32 list list \<Rightarrow> errno option \<Rightarrow> errno option \<times> 'd partition \<Rightarrow> bool" where
  "unlink_outcome med xs ys p area es k fcs refused r \<longleftrightarrow>
    (case refused of
       Some err \<Rightarrow> fst r = Some err \<and> pkept med p (snd r)
     | None \<Rightarrow> fst r = (if de_dataEnd (es ! k) = slot_at p area (slot_count p area - 1) then Some EIO else None) \<and>
         dir_inv med xs ys (snd r) area \<and>
         name_gone med c_locale p area (take k es @ drop (Suc k) es) fcs (snd r))"

lemma unlink_spec:
  fixes p :: "'d partition"
  assumes inv: "dir_inv med (fcs @ xs) ys p area" and t: "tidy c_locale (dir_content (pview med p) p area) items tail"
    and es: "listing c_locale items = es" and k: "k < length es" and own: "owns p (es ! k) fcs"
    and wr: "\<not> p_readOnly p" and path: "strip_device given = Some path" "0 \<notin> set path" "names_short (path_parts path)"
    and d: "dirs_ok med p dirs" and res: "resolve_path p dirs path (length path) = Some (Some (es ! k))"
    and ref: "refusal p dirs (es ! k) isRmDir = Some refused"
  shows "\<exists>r. FAT_unlinkCommon c_locale True given isRmDir p = Some r \<and> unlink_outcome med xs ys p area es k fcs refused r"
proof -
  note ok = area_okD(2) [OF dir_invD(1) [OF inv]]
  obtain x p1 where x: "FAT_directory_entryFromPath c_locale p blank_entry path None = Some (x, p1)" "pkept med p p1" "walk_result (Some (es ! k)) x"
    by (rule path_walk [OF ok d path(2) _ _ _ res, where pathEnd = None and entry = blank_entry]) (use path(3) in simp_all)
  have "refusal p1 dirs (es ! k) isRmDir = Some refused"
    unfolding refusal_def getCluster_kept [OF x(2)] using ref unfolding refusal_def .
  then obtain p2 where p2: "unlink_refused c_locale p1 (es ! k) isRmDir = Some (refused, p2)" "pkept med p1 p2"
    by (rule unlink_refused_spec [OF pkeptD(1) [OF x(2)] dirs_kept [OF x(2) d]])
  note k2 = pkept_trans [OF x(2) p2(2)]
  have run: "FAT_unlinkCommon c_locale True given isRmDir p =
      (case refused of Some e \<Rightarrow> Some (Some e, p2) | None \<Rightarrow> unlink_entry p2 (es ! k))"
    using x(1,3) p2(1) wr by (simp add: FAT_unlinkCommon_def path(1))
  show ?thesis
  proof (cases refused)
    case (Some err)
    then show ?thesis using run k2 by (simp add: unlink_outcome_def)
  next
    case None
    note same = area_same [OF pkeptD(2) [OF k2]]
    have inv2: "dir_inv med (fcs @ xs) ys p2 area" by (rule dir_evolvesD(1) [OF dir_evolves_kept [OF inv k2]])
    have t2: "tidy c_locale (dir_content (pview med p2) p2 area) items tail" using t by (simp only: dir_content_kept [OF k2])
    have own2: "owns p2 (listing c_locale items ! k) fcs" using own by (simp add: owns_kept [OF k2] es)
    obtain p' where p': "unlink_entry p2 (listing c_locale items ! k) = Some (if de_dataEnd (listing c_locale items ! k) = slot_at p2 area (slot_count p2 area - 1)
        then Some EIO else None, p')" "dir_inv med xs ys p' area"
      "name_gone med c_locale p2 area (take k (listing c_locale items) @ drop (Suc k) (listing c_locale items)) fcs p'"
      by (rule unlink_entry_spec [OF inv2 t2 k [folded es] own2])
    show ?thesis
      using run None p'(1,2) name_gone_kept [OF k2 p'(3)] by (simp add: unlink_outcome_def es same)
  qed
qed

end
