(* ===== verification/FileList.thy ===== *)
theory FileList
  imports OpenFiles
begin

text \<open>
  The list of open files: a doubly linked list through the heap of file structures, with its head and its
  length in the partition. Linking puts a file in front, unlinking takes it out wherever it is.
\<close>

section \<open>The list in the heap\<close>

fun linked :: "(nat \<Rightarrow> file_struct option) \<Rightarrow> nat option \<Rightarrow> nat option \<Rightarrow> nat list \<Rightarrow> bool" where
  "linked h prev first [] \<longleftrightarrow> first = None"
| "linked h prev first (a # as) \<longleftrightarrow> first = Some a \<and>
     (case h a of None \<Rightarrow> False
      | Some f \<Rightarrow> f_prevOpenFile f = prev \<and> linked h (Some a) (f_nextOpenFile f) as)"

definition files_ok :: "'d fs \<Rightarrow> nat list \<Rightarrow> bool" where
  "files_ok s as \<longleftrightarrow> linked (fs_files s) None (p_firstOpenFile (fs_part s)) as \<and> distinct as \<and>
     (\<forall>a \<in> set as. \<exists>f. fs_files s a = Some f \<and> f_inUse f) \<and>
     p_openFileCount (fs_part s) = of_nat (length as)"

lemma linked_other: "a \<notin> set as \<Longrightarrow> linked (h(a := x)) prev first as = linked h prev first as"
  by (induction as arbitrary: prev first) (auto split: option.split)

text \<open>A change of a file that keeps its links.\<close>

definition same_links :: "file_struct \<Rightarrow> file_struct \<Rightarrow> bool" where
  "same_links f g \<longleftrightarrow> f_prevOpenFile g = f_prevOpenFile f \<and> f_nextOpenFile g = f_nextOpenFile f"

lemma linked_same:
  "h a = Some f \<Longrightarrow> same_links f g \<Longrightarrow> linked (h(a \<mapsto> g)) prev first as = linked h prev first as"
  by (induction as arbitrary: prev first) (auto simp: same_links_def split: option.split)

text \<open>Changing the link back of the head.\<close>

lemma linked_set_prev:
  assumes "linked h prev first as" and "distinct as" and "first = Some b" and "h b = Some f"
  shows "linked (h(b \<mapsto> f\<lparr>f_prevOpenFile := prev'\<rparr>)) prev' first as"
  using assms by (cases as) (auto simp: linked_other)

section \<open>Linking\<close>

lemma link_file_spec:
  assumes ok: "files_ok s as" and new: "a \<notin> set as" and use: "f_inUse file"
  obtains s' where "link_file a file s = Some s'" and "files_ok s' (a # as)"
    and "fs_part s' = (fs_part s)\<lparr>p_openFileCount := p_openFileCount (fs_part s) + 1, p_firstOpenFile := Some a\<rparr>"
    and "fs_files s' a = Some (file\<lparr>f_nextOpenFile := p_firstOpenFile (fs_part s), f_prevOpenFile := None\<rparr>)"
proof (cases as)
  case Nil
  then have first: "p_firstOpenFile (fs_part s) = None" using ok by (simp add: files_ok_def)
  then show ?thesis using that ok Nil use by (simp add: link_file_def update_opt_def Let_def files_ok_def)
next
  case (Cons b bs)
  have l: "linked (fs_files s) None (p_firstOpenFile (fs_part s)) (b # bs)" "distinct (b # bs)"
    "p_openFileCount (fs_part s) = of_nat (length (b # bs))"
    using ok by (simp_all add: files_ok_def Cons)
  have first: "p_firstOpenFile (fs_part s) = Some b" using l(1) by simp
  obtain f where f: "fs_files s b = Some f" using l(1) by (auto split: option.splits)
  let ?h = "(fs_files s)(b \<mapsto> f\<lparr>f_prevOpenFile := Some a\<rparr>)"
  have h: "linked ?h (Some a) (Some b) (b # bs)" using linked_set_prev [OF l(1,2) first f] by (simp add: first)
  have u: "\<exists>g. fs_files s c = Some g \<and> f_inUse g" if "c \<in> set (b # bs)" for c
    using ok that by (auto simp: files_ok_def Cons)
  have "linked (?h(a \<mapsto> file\<lparr>f_nextOpenFile := Some b, f_prevOpenFile := None\<rparr>)) (Some a) (Some b) (b # bs)"
    using h new Cons by (simp add: linked_other del: linked.simps)
  moreover define s' where "s' = s\<lparr>fs_part := (fs_part s)\<lparr>p_openFileCount := p_openFileCount (fs_part s) + 1, p_firstOpenFile := Some a\<rparr>,
    fs_files := ?h(a \<mapsto> file\<lparr>f_nextOpenFile := Some b, f_prevOpenFile := None\<rparr>)\<rparr>"
  moreover have "link_file a file s = Some s'"
    by (simp add: link_file_def update_opt_def update_file_def Let_def first f s'_def)
  moreover have "\<exists>g. fs_files s' c = Some g \<and> f_inUse g" if "c \<in> set (a # b # bs)" for c
    using that u [of c] use f by (auto simp: s'_def)
  ultimately show ?thesis using new l(2,3) Cons first
    by (intro that [of s']) (simp_all add: files_ok_def s'_def)
qed

section \<open>Unlinking\<close>

text \<open>A list with a file in the middle.\<close>

lemma linked_append:
  assumes "linked h prev first (xs @ a # ys)"
  obtains f where "h a = Some f" and "f_prevOpenFile f = (if xs = [] then prev else Some (last xs))"
    and "linked h (Some a) (f_nextOpenFile f) ys"
  using assms
proof (induction xs arbitrary: prev first thesis)
  case Nil
  then show ?case by (auto split: option.splits)
next
  case (Cons b xs)
  from Cons.prems(2) obtain g where g: "h b = Some g" "linked h (Some b) (f_nextOpenFile g) (xs @ a # ys)"
    by (auto split: option.splits)
  show ?case
  proof (rule Cons.IH [OF _ g(2)])
    fix f assume "h a = Some f" "f_prevOpenFile f = (if xs = [] then Some b else Some (last xs))" "linked h (Some a) (f_nextOpenFile f) ys"
    then show ?case by (intro Cons.prems(1) [of f]) auto
  qed
qed

lemma linked_at:
  assumes "linked h prev first (xs @ a # ys)" and "h a = Some f"
  shows "f_prevOpenFile f = (if xs = [] then prev else Some (last xs)) \<and> linked h (Some a) (f_nextOpenFile f) ys"
  by (rule linked_append [OF assms(1)]) (use assms(2) in simp)

lemma linked_last:
  assumes "linked h prev first (xs @ ys)" and "xs \<noteq> []"
  shows "\<exists>f. h (last xs) = Some f"
proof (rule linked_append [of h prev first "butlast xs" "last xs" ys])
  have "butlast xs @ last xs # ys = xs @ ys" using append_butlast_last_id [OF assms(2)] by (metis append.assoc append_Cons append_Nil)
  then show "linked h prev first (butlast xs @ last xs # ys)" using assms(1) by (simp only:)
qed blast

text \<open>Pointing the last file of a front part past the file behind it.\<close>

lemma linked_skip:
  assumes "linked h0 prev first (xs @ a # ys)" and "distinct (xs @ ys)" and "xs \<noteq> []"
    and "\<And>b. b \<in> set xs \<Longrightarrow> h b = h0 b" and "h0 (last xs) = Some g" and "linked h (Some (last xs)) n ys"
  shows "linked (h(last xs \<mapsto> g\<lparr>f_nextOpenFile := n\<rparr>)) prev first (xs @ ys)"
  using assms
proof (induction xs arbitrary: prev first)
  case (Cons b xs)
  from Cons.prems(1) obtain f where f: "h0 b = Some f" "f_prevOpenFile f = prev" "first = Some b"
    "linked h0 (Some b) (f_nextOpenFile f) (xs @ a # ys)"
    by (auto split: option.splits)
  show ?case
  proof (cases "xs = []")
    case True
    then have "linked (h(b \<mapsto> g\<lparr>f_nextOpenFile := n\<rparr>)) (Some b) n ys"
      using Cons.prems(2,6) by (subst linked_other) simp_all
    then show ?thesis using Cons.prems(5) f True by (simp add: fun_upd_same del: fun_upd_apply)
  next
    case False
    have "linked (h(last xs \<mapsto> g\<lparr>f_nextOpenFile := n\<rparr>)) (Some b) (f_nextOpenFile f) (xs @ ys)"
      using Cons.prems False f(4) by (intro Cons.IH) auto
    moreover have "b \<noteq> last xs" using Cons.prems(2) last_in_set [OF False] by auto
    ultimately show ?thesis using f Cons.prems(4) [of b] False by (simp add: fun_upd_other del: fun_upd_apply)
  qed
qed simp

lemma linked_first: "linked h prev first (a # as) \<Longrightarrow> first = Some a \<and> (\<exists>f. h a = Some f)"
  by (auto split: option.splits)

text \<open>The heap behind both steps of the unlinking.\<close>

definition bypass :: "file_struct \<Rightarrow> (nat \<Rightarrow> file_struct option) \<Rightarrow> nat \<Rightarrow> file_struct option" where
  "bypass f h =
    (let h1 = (case f_nextOpenFile f of None \<Rightarrow> h
        | Some c \<Rightarrow> h(c := map_option (\<lambda>g. g\<lparr>f_prevOpenFile := f_prevOpenFile f\<rparr>) (h c)))
     in case f_prevOpenFile f of None \<Rightarrow> h1
        | Some b \<Rightarrow> h1(b := map_option (\<lambda>g. g\<lparr>f_nextOpenFile := f_nextOpenFile f\<rparr>) (h1 b)))"

lemma bypass_other:
  "f_nextOpenFile f \<noteq> Some a \<Longrightarrow> f_prevOpenFile f \<noteq> Some a \<Longrightarrow> bypass f h a = h a"
  by (auto simp: bypass_def Let_def split: option.splits)

lemma bypass_use: "map_option f_inUse (bypass f h b) = map_option f_inUse (h b)"
  by (auto simp: bypass_def Let_def option.map_comp comp_def split: option.splits)

lemma linked_bypass:
  assumes l: "linked h None first (xs @ a # ys)" and d: "distinct (xs @ a # ys)" and f: "h a = Some f"
  shows "linked (bypass f h) None (if xs = [] then f_nextOpenFile f else first) (xs @ ys)"
proof -
  have link: "f_prevOpenFile f = (if xs = [] then None else Some (last xs))" "linked h (Some a) (f_nextOpenFile f) ys"
    using linked_at [OF l f] by simp_all
  define h1 where "h1 = (case f_nextOpenFile f of None \<Rightarrow> h
    | Some c \<Rightarrow> h(c := map_option (\<lambda>g. g\<lparr>f_prevOpenFile := f_prevOpenFile f\<rparr>) (h c)))"
  have l1: "linked h1 (f_prevOpenFile f) (f_nextOpenFile f) ys"
  proof (cases ys)
    case (Cons c cs)
    then obtain g where c: "f_nextOpenFile f = Some c" "h c = Some g"
      using linked_first link(2) by blast
    have "linked (h(c \<mapsto> g\<lparr>f_prevOpenFile := f_prevOpenFile f\<rparr>)) (f_prevOpenFile f) (f_nextOpenFile f) ys"
      by (rule linked_set_prev [OF link(2)]) (use c d in simp_all)
    then show ?thesis by (simp add: h1_def c)
  qed (use link(2) in \<open>simp add: h1_def\<close>)
  have same: "h1 b = h b" if "b \<in> set xs" for b
    using that d link(2) by (cases ys) (auto simp: h1_def)
  show ?thesis
  proof (cases "xs = []")
    case True
    then show ?thesis using l1 link(1) by (simp add: bypass_def h1_def [symmetric] Let_def)
  next
    case False
    obtain g where g: "h (last xs) = Some g" using linked_last [OF l False] by blast
    show ?thesis
      using linked_skip [OF l _ False same g, of "f_nextOpenFile f"] d l1 link(1) False g same [OF last_in_set [OF False]]
      by (simp add: bypass_def h1_def [symmetric] Let_def del: fun_upd_apply)
  qed
qed

lemma keep_first: "p\<lparr>p_openFileCount := c, p_firstOpenFile := p_firstOpenFile p\<rparr> = p\<lparr>p_openFileCount := c\<rparr>"
  by (cases p) simp

lemma unlink_file_spec:
  assumes l: "linked (fs_files s) None (p_firstOpenFile (fs_part s)) (xs @ a # ys)" and d: "distinct (xs @ a # ys)"
    and f: "fs_files s a = Some f"
  shows "unlink_file a s = Some (s\<lparr>fs_part := (fs_part s)\<lparr>p_openFileCount := p_openFileCount (fs_part s) - 1,
       p_firstOpenFile := (if xs = [] then f_nextOpenFile f else p_firstOpenFile (fs_part s))\<rparr>, fs_files := bypass f (fs_files s)\<rparr>)"
proof -
  have link: "f_prevOpenFile f = (if xs = [] then None else Some (last xs))"
    "linked (fs_files s) (Some a) (f_nextOpenFile f) ys"
    using linked_at [OF l f] by simp_all
  have c: "\<exists>g. fs_files s c = Some g" if "f_nextOpenFile f = Some c" for c
    using that link(2) by (cases ys) (auto split: option.splits)
  have b: "\<exists>g. fs_files s b = Some g" if "f_prevOpenFile f = Some b" for b
  proof -
    have "xs \<noteq> []" "b = last xs" using that link(1) by (auto split: if_splits)
    then show ?thesis using linked_last [OF l] by simp
  qed
  show ?thesis
  proof (cases "f_nextOpenFile f")
    case None
    show ?thesis
    proof (cases "f_prevOpenFile f")
      case None
      then have "xs = []" using link(1) by (simp split: if_splits)
      then show ?thesis using None \<open>f_nextOpenFile f = None\<close>
        by (simp add: unlink_file_def update_opt_def bypass_def f Let_def)
    next
      case (Some b')
      then have xs: "xs \<noteq> []" using link(1) by (simp split: if_splits)
      obtain g' where "fs_files s b' = Some g'" using b [OF Some] by (cases "b' = c'") auto
      then show ?thesis using Some \<open>f_nextOpenFile f = None\<close> xs
        by (simp add: unlink_file_def update_opt_def update_file_def bypass_def f Let_def keep_first del: fun_upd_apply)
    qed
  next
    case (Some c')
    then obtain g where g: "fs_files s c' = Some g" using c by auto
    show ?thesis
    proof (cases "f_prevOpenFile f")
      case None
      then have "xs = []" using link(1) by (simp split: if_splits)
      then show ?thesis using None Some g
        by (simp add: unlink_file_def update_opt_def update_file_def bypass_def f Let_def keep_first del: fun_upd_apply)
    next
      case (Some b')
      then have xs: "xs \<noteq> []" using link(1) by (simp split: if_splits)
      obtain g' where "((fs_files s)(c' \<mapsto> g\<lparr>f_prevOpenFile := f_prevOpenFile f\<rparr>)) b' = Some g'" using b [OF Some] by (cases "b' = c'") auto
      then show ?thesis using Some \<open>f_nextOpenFile f = Some c'\<close> g xs
        by (simp add: unlink_file_def update_opt_def update_file_def bypass_def f Let_def keep_first del: fun_upd_apply)
    qed
  qed
qed

end
