(* ===== verification/FileSync.thy ===== *)
theory FileSync
  imports OpenFiles NameCalls FileList
begin

text \<open>
  Writing the entry of a changed file back: the directory lists the same names, and the entry of the file has its
  new size and first cluster. Closing a file does this, and takes the file out of the list of open files.
\<close>

section \<open>The data of an entry\<close>

text \<open>Entries whose bytes look the same to a scan but for what an open file changes.\<close>

definition same_short_name :: "u8 list \<Rightarrow> u8 list \<Rightarrow> bool" where
  "same_short_name d d' \<longleftrightarrow> take 11 d' = take 11 d \<and> d' ! DIR_ENTRY_caseInfo = d ! DIR_ENTRY_caseInfo"

lemma same_short_nameD:
  assumes "same_short_name d d'"
  shows "alias_checksum d' = alias_checksum d" "d' ! 0 = d ! 0" "FAT_directory_entryGetAlias env d' = FAT_directory_entryGetAlias env d"
proof -
  have t: "take 11 d' = take 11 d" and c: "d' ! DIR_ENTRY_caseInfo = d ! DIR_ENTRY_caseInfo"
    using assms by (simp_all add: same_short_name_def)
  show "alias_checksum d' = alias_checksum d" by (simp add: alias_checksum_def t)
  have n: "d' ! i = d ! i" if "i < 11" for i using arg_cong [OF t, of "\<lambda>l. l ! i"] that by simp
  then show z: "d' ! 0 = d ! 0" by simp
  have "take 8 d' = take 8 d" using arg_cong [OF t, of "take 8"] by simp
  moreover have "take 3 (drop 8 d') = take 3 (drop 8 d)" using arg_cong [OF t, of "drop 8"] by (simp add: drop_take)
  ultimately show "FAT_directory_entryGetAlias env d' = FAT_directory_entryGetAlias env d"
    using n [of 1] n [of 8] z by (simp add: FAT_directory_entryGetAlias_def c)
qed

text \<open>The slot an entry ends in.\<close>

lemma last_slot:
  assumes "scan_slots env (ns @ [(pos, d)]) s = Some (Some (e, []))"
  shows "visible d" "de_entryData e = d" "de_dataEnd e = pos"
    "same_short_name d d' \<Longrightarrow> visible d' \<Longrightarrow> scan_slots env (ns @ [(pos, d')]) s = Some (Some (e\<lparr>de_entryData := d'\<rparr>, []))"
proof -
  have "visible d \<and> de_entryData e = d \<and> de_dataEnd e = pos \<and>
    (same_short_name d d' \<and> visible d' \<longrightarrow> scan_slots env (ns @ [(pos, d')]) s = Some (Some (e\<lparr>de_entryData := d'\<rparr>, [])))"
    using assms
  proof (induction ns arbitrary: s)
    case Nil
    let ?s = "s\<lparr>ds_end := pos, ds_data := Some d\<rparr>" and ?s' = "s\<lparr>ds_end := pos, ds_data := Some d'\<rparr>"
    have v: "visible d"
      using Nil by (auto simp: visible_def Let_def bind_eq_Some_conv split: if_splits)
    obtain name start where r: "scan_name env d ?s = Some (Some (name, start))"
      "e = \<lparr>de_entryData = d, de_dataStart = start, de_dataEnd = pos, de_filename = name\<rparr>"
      using Nil unfolding append_Nil visible_slot [OF v] by (auto simp: bind_eq_Some_conv)
    have "scan_slots env [(pos, d')] s = Some (Some (e\<lparr>de_entryData := d'\<rparr>, []))" if "same_short_name d d'" "visible d'"
    proof -
      have "scan_name env d' ?s' = scan_name env d ?s"
        by (simp add: scan_name_def same_short_nameD [OF that(1)])
      then show ?thesis using r unfolding visible_slot [OF that(2)] by simp
    qed
    then show ?case using v r by simp
  next
    case (Cons x ns)
    obtain q b where x: "x = (q, b)" by (cases x)
    let ?s = "s\<lparr>ds_end := q, ds_data := Some b\<rparr>"
    have vis: False if "\<not> (b ! DIR_ENTRY_attributes = ATTRIB_LFN)" "\<not> b ! DIR_ENTRY_attributes AND ATTRIB_VOL \<noteq> 0"
      "b ! 0 = DIR_ENTRY_LAST \<or> b ! 0 \<noteq> DIR_ENTRY_FREE \<and> b ! 0 > 0x20"
      using Cons.prems that by (auto simp: x Let_def bind_eq_Some_conv split: if_splits)
    show ?case
    proof (cases "b ! DIR_ENTRY_attributes = ATTRIB_LFN")
      case True
      then obtain t where t: "scan_lfn b ?s = Some t" "scan_slots env (ns @ [(pos, d)]) t = Some (Some (e, []))"
        using Cons.prems by (auto simp: x Let_def bind_eq_Some_conv)
      then show ?thesis using Cons.IH [OF t(2)] True by (simp add: x Let_def)
    next
      case False
      then have "scan_slots env ((x # ns) @ [(pos, y)]) s = scan_slots env (ns @ [(pos, y)]) ?s" for y
        using vis by (auto simp: x Let_def)
      then show ?thesis using Cons.prems Cons.IH [of ?s] by simp
    qed
  qed
  then show "visible d" "de_entryData e = d" "de_dataEnd e = pos"
    "same_short_name d d' \<Longrightarrow> visible d' \<Longrightarrow> scan_slots env (ns @ [(pos, d')]) s = Some (Some (e\<lparr>de_entryData := d'\<rparr>, []))"
    by blast+
qed

text \<open>The bytes the synchronisation leaves and the ones it sets.\<close>

lemma nth_sync_entry:
  assumes "length d = 32" and "i < 11 \<or> i = DIR_ENTRY_caseInfo"
  shows "sync_entry rtc file d ! i = d ! i"
  using assms by (auto simp: sync_entry_def Let_def u16_to_u8array_def u32_to_u8array_def)

lemma length_sync_entry [simp]: "length (sync_entry rtc file d) = length d"
  by (simp add: sync_entry_def Let_def)

lemma sync_entry_attributes:
  "length d = 32 \<Longrightarrow> sync_entry rtc file d ! DIR_ENTRY_attributes = d ! DIR_ENTRY_attributes OR ATTRIB_ARCH"
  by (simp add: sync_entry_def Let_def u16_to_u8array_def u32_to_u8array_def)

lemma sync_entry_values:
  assumes "length d = 32"
  shows "u8array_to_u32 (sync_entry rtc file d) DIR_ENTRY_fileSize = f_filesize file"
    and "u8array_to_u16 (sync_entry rtc file d) DIR_ENTRY_cluster = ucast (f_startCluster file)"
    and "u8array_to_u16 (sync_entry rtc file d) DIR_ENTRY_clusterHigh = ucast (drop_bit 16 (f_startCluster file))"
  using assms u32_join [of "f_filesize file"] u16_join [of "ucast (f_startCluster file)"] u16_join [of "ucast (drop_bit 16 (f_startCluster file))"]
  by (simp_all add: sync_entry_def Let_def u16_to_u8array_def u32_to_u8array_def u8array_to_u32_def u8array_to_u16_def)

lemma sync_entry_same:
  assumes "length d = 32" and "visible d"
  shows "same_short_name d (sync_entry rtc file d)" and "visible (sync_entry rtc file d)"
proof -
  note n = nth_sync_entry [OF assms(1)]
  show "same_short_name d (sync_entry rtc file d)"
  proof -
    have "take 11 (sync_entry rtc file d) = take 11 d" by (rule nth_equalityI) (use assms(1) n in simp_all)
    then show ?thesis using n by (simp add: same_short_name_def)
  qed
  have "(x OR ATTRIB_ARCH) AND ATTRIB_VOL = x AND ATTRIB_VOL" for x :: u8
    by (simp add: ATTRIB_ARCH_def ATTRIB_VOL_def bit.conj_disj_distrib2)
  then show "visible (sync_entry rtc file d)"
    using assms(2) n [of 0] by (simp add: visible_def sync_entry_attributes [OF assms(1)])
qed

text \<open>The file is found again at the cluster and with the size it had.\<close>

lemma sync_entry_cluster:
  assumes "length d = 32" and "p_filesysType p = FS_FAT32 \<or> f_startCluster file < 0x10000"
  shows "FAT_directory_entryGetCluster p (sync_entry rtc file d) = f_startCluster file"
proof -
  have low: "ucast (ucast c :: u16) = c" if "c < 0x10000" for c :: u32
  proof -
    have "unat (ucast c :: u16) = unat c" using that by (simp add: unsigned_ucast_eq unsigned_take_bit_eq word_less_nat_alt take_bit_nat_eq_self)
    moreover have "unat (ucast (ucast c :: u16) :: u32) = unat (ucast c :: u16)"
      using unsigned_less [of "ucast c :: u16", where ?'a = nat] by (simp add: unsigned_ucast_eq unsigned_take_bit_eq take_bit_nat_eq_self)
    ultimately show ?thesis by (simp only: word_eq_iff_unat_eq)
  qed
  have "ucast (ucast c :: u16) OR push_bit 16 (ucast (ucast (drop_bit 16 c) :: u16)) = c" for c :: u32
    by (rule bit_word_eqI) (auto simp: bit_simps)
  then show ?thesis using assms(2) low
    by (auto simp: FAT_directory_entryGetCluster_def sync_entry_values [OF assms(1)])
qed

section \<open>The directory afterwards\<close>

text \<open>One entry of a tidy directory with other data under the same name.\<close>

lemma replace_data:
  assumes t: "tidy env content items tail" and k: "k < length (listing env items)"
  defines "e \<equiv> listing env items ! k"
  assumes d': "same_short_name (de_entryData e) d'" "visible d'"
  obtains i items' where "i < length content" and "content ! i = (de_dataEnd e, de_entryData e)"
    and "tidy env (content[i := (de_dataEnd e, d')]) items' tail"
    and "listing env items' = (listing env items)[k := e\<lparr>de_entryData := d'\<rparr>]"
proof -
  have c: "content = slots_of items @ tail" and oks: "list_all (item_ok env) items" and tl: "tail_ok tail"
    using t by (simp_all add: tidy_def)
  obtain i1 ns s i2 where its: "items = i1 @ Named ns s # i2" "item_entry env (Named ns s) = Some e"
    "listing env i1 = take k (listing env items)" "listing env i2 = drop (Suc k) (listing env items)"
    unfolding e_def by (rule listing_nth [OF k oks])
  have okn: "list_all (item_ok env) i1" "item_ok env (Named ns s)" "list_all (item_ok env) i2"
    using oks unfolding its(1) by simp_all
  obtain pos d where s: "s = (pos, d)" by (cases s)
  have "scan_slots env (ns @ [(pos, d)]) scan_start = Some (Some (e, []))"
    using its(2) by (auto simp: item_entry_def s split: option.splits list.splits)
  note l = last_slot [OF this]
  let ?i = "length (slots_of i1 @ ns)" and ?new = "Named ns (pos, d')"
  have d'': "same_short_name d d'" using d'(1) by (simp add: l(2))
  have entry: "item_entry env ?new = Some (e\<lparr>de_entryData := d'\<rparr>)"
    using l(4) [OF d'' d'(2)] by (simp add: item_entry_def)
  have "d' ! 0 = d ! 0" by (rule same_short_nameD(2) [OF d''])
  then have new: "item_ok env ?new"
    using okn(2) its(2) entry by (cases ns) (simp_all add: item_ok_def s is_free_def is_last_def)
  have cc: "content = (slots_of i1 @ ns) @ (pos, d) # slots_of i2 @ tail" unfolding c its(1) by (simp add: s)
  let ?items = "i1 @ ?new # i2"
  have "content[?i := (pos, d')] = (slots_of i1 @ ns) @ (pos, d') # slots_of i2 @ tail"
    unfolding cc list_update_length ..
  then have "tidy env (content[?i := (pos, d')]) ?items tail"
    using okn new tl by (simp add: tidy_def)
  moreover have "listing env ?items = (listing env items)[k := e\<lparr>de_entryData := d'\<rparr>]"
    unfolding listing_simps(3) listing_Cons entry option.case its(3,4) upd_conv_take_nth_drop [OF k] ..
  moreover have "?i < length content" "content ! ?i = (pos, d)" unfolding cc nth_append_length by simp_all
  ultimately show thesis using that l(2,3) by simp
qed

text \<open>The data of a listed entry.\<close>

lemma listing_data:
  assumes ok: "area_ok med p area" and t: "tidy env (dir_content (pview med p) p area) items tail"
    and k: "k < length (listing env items)"
  shows "length (de_entryData (listing env items ! k)) = 32" and "visible (de_entryData (listing env items ! k))"
proof -
  have c: "dir_content (pview med p) p area = slots_of items @ tail" and oks: "list_all (item_ok env) items"
    using t by (simp_all add: tidy_def)
  obtain i1 ns s i2 where its: "items = i1 @ Named ns s # i2" "item_entry env (Named ns s) = Some (listing env items ! k)"
    by (rule listing_nth [OF k oks])
  obtain pos d where s: "s = (pos, d)" by (cases s)
  have "scan_slots env (ns @ [(pos, d)]) scan_start = Some (Some (listing env items ! k, []))"
    using its(2) by (auto simp: item_entry_def s split: option.splits list.splits)
  note l = last_slot(1,2) [OF this]
  have "(pos, d) \<in> set (dir_content (pview med p) p area)" unfolding c its(1) by (simp add: s)
  from content_bytes [OF ok this] l
  show "length (de_entryData (listing env items ! k)) = 32" "visible (de_entryData (listing env items ! k))" by simp_all
qed

section \<open>The synchronisation\<close>

text \<open>The state behind it: the same directory but for the data of one entry, on the medium as well.\<close>

definition entry_synced ::
    "('d \<Rightarrow> sec_t \<Rightarrow> u8 list) \<Rightarrow> 'mb char_env \<Rightarrow> 'd partition \<Rightarrow> dir_area \<Rightarrow> dir_entry list \<Rightarrow> nat \<Rightarrow> u8 list \<Rightarrow> 'd partition \<Rightarrow> bool" where
  "entry_synced med env p area es k d p' \<longleftrightarrow> dir_step med area p p' \<and>
     (\<exists>items tail. tidy env (dir_content (pview med p') p' area) items tail \<and> listing env items = es[k := (es ! k)\<lparr>de_entryData := d\<rparr>]) \<and>
     med (c_medium (p_cache p')) = pview med p'"

lemma syncToDisc_spec:
  assumes ok: "area_ok med p area" and t: "tidy env (dir_content (pview med p) p area) items tail"
    and k: "k < length (listing env items)" and use: "f_inUse file" "f_write file" "f_modified file"
  defines "e \<equiv> listing env items ! k"
  assumes pos: "f_dirEntryEnd file = de_dataEnd e"
  obtains p' where "FAT_syncToDisc rtc file p = Some (None, file\<lparr>f_modified := False\<rparr>, p')"
    and "entry_synced med env p area (listing env items) k (sync_entry rtc file (de_entryData e)) p'"
proof -
  let ?c = "dir_content (pview med p) p area" and ?d = "sync_entry rtc file (de_entryData e)"
  have vis: "length (de_entryData e) = 32" "visible (de_entryData e)"
    using listing_data [OF ok t k] by (simp_all add: e_def)
  note new = sync_entry_same [OF vis]
  obtain i items' where i: "i < length ?c" "?c ! i = (de_dataEnd e, de_entryData e)"
    "tidy env (?c[i := (de_dataEnd e, ?d)]) items' tail"
    "listing env items' = (listing env items)[k := e\<lparr>de_entryData := ?d\<rparr>]"
    unfolding e_def by (rule replace_data [OF t k new [unfolded e_def]])
  have at1: "i < slot_count p area" using i(1) by simp
  have at: "slot_at p area i = de_dataEnd e" "slot_bytes (pview med p) p (slot_at p area i) = de_entryData e"
    using i(2) unfolding nth_dir_content [OF at1] prod.inject by blast+
  obtain p1 where "readEntry p (slot_at p area i) None = Some ((True, Some (slot_bytes (pview med p) p (slot_at p area i))), p1)"
    "pkept med p p1"
    by (rule readEntry_slot [OF ok at1])
  note p1 = this(1) [unfolded at(2), unfolded at(1)] this(2)
  note a1 = area_same [OF pkeptD(2) [OF p1(2)]]
  obtain p2 where p2: "writeEntry p1 (de_dataEnd e) ?d = Some (True, p2)" "dir_step med area p1 p2"
    "dir_content (pview med p2) p2 area = (dir_content (pview med p1) p1 area)[i := (de_dataEnd e, ?d)]"
    by (rule writeEntry_slot [OF area_kept [OF p1(2) ok], of i ?d]) (use at1 at(1) vis in \<open>simp_all add: a1\<close>)
  obtain p3 where p3: "flush_partition p2 = (True, p3)" "pkept med p2 p3" "med (c_medium (p_cache p3)) = pview med p3"
    by (rule flush_part [OF dir_stepD(1) [OF p2(2)]])
  have "dir_step med area p p3"
    by (rule dir_step_trans [OF dir_step_kept [OF p1(2)] dir_step_trans [OF p2(2) dir_step_kept [OF p3(2)]]])
  moreover have "tidy env (dir_content (pview med p3) p3 area) items' tail"
    unfolding dir_content_kept [OF p3(2)] p2(3) dir_content_kept [OF p1(2)] by (rule i(3))
  ultimately have "entry_synced med env p area (listing env items) k ?d p3"
    using i(4) p3(3) unfolding entry_synced_def e_def by blast
  moreover have "FAT_syncToDisc rtc file p = Some (None, file\<lparr>f_modified := False\<rparr>, p3)"
    unfolding FAT_syncToDisc_def Let_def pos using use by (simp add: p1(1) p2(1) p3(1))
  ultimately show thesis using that by blast
qed

section \<open>Closing\<close>

text \<open>Taking a file that is no longer in use out of the list.\<close>

lemma unlink_closed:
  assumes fo: "files_ok s (xs @ a # ys)" and f: "fs_files s a = Some file"
    and g: "same_links file g" and part: "p_firstOpenFile p = p_firstOpenFile (fs_part s)" "p_openFileCount p = p_openFileCount (fs_part s)"
  obtains s' where "unlink_file a (s\<lparr>fs_part := p, fs_files := (fs_files s)(a \<mapsto> g)\<rparr>) = Some s'"
    and "files_ok s' (xs @ ys)" and "fs_files s' a = Some g"
    and "fs_part s' = p\<lparr>p_openFileCount := p_openFileCount (fs_part s'), p_firstOpenFile := p_firstOpenFile (fs_part s')\<rparr>"
proof -
  define t where "t = s\<lparr>fs_part := p, fs_files := (fs_files s)(a \<mapsto> g)\<rparr>"
  define s' where "s' = t\<lparr>fs_part := (fs_part t)\<lparr>p_openFileCount := p_openFileCount (fs_part t) - 1,
    p_firstOpenFile := (if xs = [] then f_nextOpenFile g else p_firstOpenFile (fs_part t))\<rparr>, fs_files := bypass g (fs_files t)\<rparr>"
  have l: "linked (fs_files t) None (p_firstOpenFile (fs_part t)) (xs @ a # ys)" and d: "distinct (xs @ a # ys)"
    using fo linked_same [where h = "fs_files s" and a = a, OF f g] by (simp_all add: files_ok_def t_def part del: fun_upd_apply)
  have g': "fs_files t a = Some g" by (simp add: t_def)
  note u = unlink_file_spec [OF l d g', folded s'_def] and b = linked_bypass [OF l d g']
  have links: "f_prevOpenFile g = (if xs = [] then None else Some (last xs))" "linked (fs_files t) (Some a) (f_nextOpenFile g) ys"
    using linked_at [OF l g'] by simp_all
  have away: "f_nextOpenFile g \<noteq> Some a" "f_prevOpenFile g \<noteq> Some a"
  proof -
    show "f_nextOpenFile g \<noteq> Some a" using links(2) d by (cases ys) auto
    show "f_prevOpenFile g \<noteq> Some a" using links(1) d last_in_set [of xs] by auto
  qed
  have "\<exists>h. fs_files s' c = Some h \<and> f_inUse h" if c: "c \<in> set (xs @ ys)" for c
  proof -
    have "c \<noteq> a" using c d by auto
    moreover obtain h where "fs_files s c = Some h" "f_inUse h" using c fo unfolding files_ok_def by auto
    ultimately have "fs_files t c = Some h" "f_inUse h" by (simp_all add: t_def)
    then show ?thesis using bypass_use [of g "fs_files t" c] by (auto simp: s'_def)
  qed
  then have "files_ok s' (xs @ ys)"
    using b d fo by (simp add: files_ok_def s'_def t_def part del: fun_upd_apply)
  moreover have "fs_files s' a = Some g" using bypass_other [OF away] g' by (simp add: s'_def)
  moreover have "fs_part s' = p\<lparr>p_openFileCount := p_openFileCount (fs_part s'), p_firstOpenFile := p_firstOpenFile (fs_part s')\<rparr>"
    by (simp add: s'_def t_def)
  ultimately show thesis using that u unfolding t_def by blast
qed

text \<open>The state behind a close: the file is out of the list, and the entry has been written.\<close>

definition closed :: "nat \<Rightarrow> nat list \<Rightarrow> 'd partition \<Rightarrow> 'd fs \<Rightarrow> bool" where
  "closed a as p s' \<longleftrightarrow> files_ok s' as \<and> map_option f_inUse (fs_files s' a) = Some False \<and>
     fs_part s' = p\<lparr>p_openFileCount := p_openFileCount (fs_part s'), p_firstOpenFile := p_firstOpenFile (fs_part s')\<rparr>"

lemma close_spec:
  assumes fo: "files_ok s (xs @ a # ys)" and f: "fs_files s a = Some file"
    and sync: "(if f_write file then FAT_syncToDisc rtc file (fs_part s) else Some (None, file, fs_part s)) = Some (ret, file', p')"
    and links: "same_links file file'" and part: "same_part (fs_part s) p'"
  obtains s' where "FAT_close_r rtc a s = Some (ret, s')" and "closed a (xs @ ys) p' s'"
proof -
  have use: "f_inUse file" using fo f by (auto simp: files_ok_def)
  let ?g = "file'\<lparr>f_inUse := False\<rparr>"
  have g: "same_links file ?g" using links by (simp add: same_links_def)
  have first: "p_firstOpenFile p' = p_firstOpenFile (fs_part s)" "p_openFileCount p' = p_openFileCount (fs_part s)"
    using part by (auto simp: same_part_def)
  obtain s' where s': "unlink_file a (s\<lparr>fs_part := p', fs_files := (fs_files s)(a \<mapsto> ?g)\<rparr>) = Some s'"
    "files_ok s' (xs @ ys)" "fs_files s' a = Some ?g"
    "fs_part s' = p'\<lparr>p_openFileCount := p_openFileCount (fs_part s'), p_firstOpenFile := p_firstOpenFile (fs_part s')\<rparr>"
    by (rule unlink_closed [OF fo f g first])
  have "FAT_close_r rtc a s = Some (ret, s')"
    using use unfolding FAT_close_r_def f bind.bind_lunit sync prod.case s'(1) by simp
  moreover have "closed a (xs @ ys) p' s'" unfolding closed_def using s'(2-4) by simp
  ultimately show thesis by (rule that)
qed

lemma close_written_spec:
  assumes fo: "files_ok s (xs @ a # ys)" and f: "fs_files s a = Some file" and use: "f_write file" "f_modified file"
    and ok: "area_ok med (fs_part s) area" and t: "tidy env (dir_content (pview med (fs_part s)) (fs_part s) area) items tail"
    and k: "k < length (listing env items)" and pos: "f_dirEntryEnd file = de_dataEnd (listing env items ! k)"
  shows "\<exists>p' s'. FAT_close_r rtc a s = Some (None, s') \<and> closed a (xs @ ys) p' s' \<and>
    entry_synced med env (fs_part s) area (listing env items) k (sync_entry rtc file (de_entryData (listing env items ! k))) p'"
proof -
  have inuse: "f_inUse file" using fo f by (auto simp: files_ok_def)
  obtain p' where p': "FAT_syncToDisc rtc file (fs_part s) = Some (None, file\<lparr>f_modified := False\<rparr>, p')"
    "entry_synced med env (fs_part s) area (listing env items) k (sync_entry rtc file (de_entryData (listing env items ! k))) p'"
    by (rule syncToDisc_spec [OF ok t k inuse use pos])
  have part: "same_part (fs_part s) p'" using p'(2) dir_stepD(2) by (auto simp: entry_synced_def)
  have links: "same_links file (file\<lparr>f_modified := False\<rparr>)" by (simp add: same_links_def)
  obtain s' where "FAT_close_r rtc a s = Some (None, s')" "closed a (xs @ ys) p' s'"
    by (rule close_spec [OF fo f _ links part]) (use p'(1) use(1) in simp)
  then show ?thesis using p'(2) by blast
qed

end
