(* ===== verification/FileLife.thy ===== *)
theory FileLife
  imports FileSync
begin

text \<open>
  The list of open files over time: opening links a file in, closing takes it out, and using a file or the volume leaves its
  links alone.
\<close>

lemma on_cache_list: "on_cache f p = Some (r, q) \<Longrightarrow> p_firstOpenFile q = p_firstOpenFile p \<and> p_openFileCount q = p_openFileCount p"
  by (auto simp: on_cache_def bind_eq_Some_conv)

lemma readEntry_list: "readEntry p pos old = Some (r, q) \<Longrightarrow> p_firstOpenFile q = p_firstOpenFile p \<and> p_openFileCount q = p_openFileCount p"
  unfolding readEntry_def by (auto simp: bind_eq_Some_conv dest: on_cache_list)

lemma writeEntry_list: "writeEntry p pos d = Some (r, q) \<Longrightarrow> p_firstOpenFile q = p_firstOpenFile p \<and> p_openFileCount q = p_openFileCount p"
  unfolding writeEntry_def by (auto simp: bind_eq_Some_conv dest: on_cache_list)

lemma flush_list: "flush_partition p = (b, q) \<Longrightarrow> p_firstOpenFile q = p_firstOpenFile p \<and> p_openFileCount q = p_openFileCount p"
  by (auto simp: flush_partition_def split: prod.splits)

lemma sync_list:
  assumes "FAT_syncToDisc rtc fl p = Some (r, fl', q)"
  shows "same_links fl fl' \<and> f_inUse fl' = f_inUse fl \<and> p_firstOpenFile q = p_firstOpenFile p \<and> p_openFileCount q = p_openFileCount p"
proof (cases "f_inUse fl \<and> f_write fl \<and> f_modified fl")
  case False
  then show ?thesis using assms by (auto simp: FAT_syncToDisc_def same_links_def split: if_splits)
next
  case True
  with assms have run: "do { ((_, data), p) \<leftarrow> readEntry p (f_dirEntryEnd fl) None;
      dirEntryData \<leftarrow> data;
      (_, p) \<leftarrow> writeEntry p (f_dirEntryEnd fl) (sync_entry rtc fl dirEntryData);
      let (ok, p) = flush_partition p;
      Some (if ok then (None, fl\<lparr>f_modified := False\<rparr>, p) else (Some EIO, fl, p)) } = Some (r, fl', q)"
    by (simp add: FAT_syncToDisc_def)
  obtain x data p1 where re: "readEntry p (f_dirEntryEnd fl) None = Some ((x, data), p1)"
    using run by (cases "readEntry p (f_dirEntryEnd fl) None") auto
  obtain d where d: "data = Some d" using run re by (cases data) auto
  obtain y p2 where w: "writeEntry p1 (f_dirEntryEnd fl) (sync_entry rtc fl d) = Some (y, p2)"
    using run re d by (cases "writeEntry p1 (f_dirEntryEnd fl) (sync_entry rtc fl d)") auto
  obtain ok p3 where f: "flush_partition p2 = (ok, p3)" by (cases "flush_partition p2")
  have "(if ok then (None, fl\<lparr>f_modified := False\<rparr>, p3) else (Some EIO, fl, p3)) = (r, fl', q)"
    using run by (simp add: re d w f)
  then show ?thesis
    using readEntry_list [OF re] writeEntry_list [OF w] flush_list [OF f] by (auto simp: same_links_def split: if_splits)
qed

inductive list_step :: "'d fs \<times> nat list \<Rightarrow> 'd fs \<times> nat list \<Rightarrow> bool" where
  opened: "a \<notin> set as \<Longrightarrow> f_inUse fl \<Longrightarrow> link_file a fl s = Some s' \<Longrightarrow> list_step (s, as) (s', a # as)"
| closed: "a \<in> set as \<Longrightarrow> FAT_close_r rtc a s = Some (r, s') \<Longrightarrow> list_step (s, as) (s', remove1 a as)"
| used: "fs_files s a = Some f \<Longrightarrow> same_links f g \<Longrightarrow> f_inUse g = f_inUse f \<Longrightarrow>
    list_step (s, as) (s\<lparr>fs_files := (fs_files s)(a \<mapsto> g)\<rparr>, as)"
| volume: "p_firstOpenFile q = p_firstOpenFile (fs_part s) \<Longrightarrow> p_openFileCount q = p_openFileCount (fs_part s) \<Longrightarrow>
    list_step (s, as) (s\<lparr>fs_part := q\<rparr>, as)"

inductive_cases list_stepE: "list_step (s, as) (s', as')"

lemma close_list:
  assumes fo: "files_ok s as" and a: "a \<in> set as" and c: "FAT_close_r rtc a s = Some (r, s')"
  shows "files_ok s' (remove1 a as)"
proof -
  obtain xs ys where as: "as = xs @ a # ys" "a \<notin> set xs" using split_list_first [OF a] by blast
  obtain f where f: "fs_files s a = Some f" "f_inUse f" using fo a by (auto simp: files_ok_def)
  define sync where "sync = (if f_write f then FAT_syncToDisc rtc f (fs_part s) else Some (None, f, fs_part s))"
  have c': "do { (ret, fl, p) \<leftarrow> sync;
      s \<leftarrow> unlink_file a (s\<lparr>fs_part := p, fs_files := (fs_files s)(a \<mapsto> fl\<lparr>f_inUse := False\<rparr>)\<rparr>); Some (ret, s) } = Some (r, s')"
    using c f by (simp add: FAT_close_r_def sync_def)
  then obtain ret fl p where sy: "sync = Some (ret, fl, p)"
    and u: "unlink_file a (s\<lparr>fs_part := p, fs_files := (fs_files s)(a \<mapsto> fl\<lparr>f_inUse := False\<rparr>)\<rparr>) = Some s'"
    by (auto simp: bind_eq_Some_conv)
  have "same_links f fl \<and> p_firstOpenFile p = p_firstOpenFile (fs_part s) \<and> p_openFileCount p = p_openFileCount (fs_part s)"
    using sy sync_list [of rtc f "fs_part s" ret fl p] by (auto simp: sync_def same_links_def split: if_splits)
  then have l: "same_links f (fl\<lparr>f_inUse := False\<rparr>)" "p_firstOpenFile p = p_firstOpenFile (fs_part s)"
    "p_openFileCount p = p_openFileCount (fs_part s)"
    by (simp_all add: same_links_def)
  obtain t where "unlink_file a (s\<lparr>fs_part := p, fs_files := (fs_files s)(a \<mapsto> fl\<lparr>f_inUse := False\<rparr>)\<rparr>) = Some t" "files_ok t (xs @ ys)"
    by (rule unlink_closed [OF fo [unfolded as(1)] f(1) l])
  then show ?thesis using u as by (simp add: remove1_append)
qed

lemma list_step_ok: "list_step (s, as) (s', as') \<Longrightarrow> files_ok s as \<Longrightarrow> files_ok s' as'"
proof (erule list_stepE)
  fix a fl assume as: "as' = a # as" "a \<notin> set as" "f_inUse fl" "link_file a fl s = Some s'" and fo: "files_ok s as"
  obtain t where "link_file a fl s = Some t" "files_ok t (a # as)" by (rule link_file_spec [OF fo as(2,3)])
  then show "files_ok s' as'" using as by simp
next
  fix a f g assume "s' = s\<lparr>fs_files := (fs_files s)(a \<mapsto> g)\<rparr>" "as' = as" "fs_files s a = Some f" "same_links f g" "f_inUse g = f_inUse f" "files_ok s as"
  then show "files_ok s' as'"
    using linked_same [where h = "fs_files s" and a = a] by (auto simp: files_ok_def simp del: fun_upd_apply) (auto simp: fun_upd_def)
next
  fix q assume "s' = s\<lparr>fs_part := q\<rparr>" "as' = as" "p_firstOpenFile q = p_firstOpenFile (fs_part s)"
    "p_openFileCount q = p_openFileCount (fs_part s)" "files_ok s as"
  then show "files_ok s' as'" by (simp add: files_ok_def)
qed (use close_list in blast)

lemma list_steps_ok:
  assumes "list_step\<^sup>*\<^sup>* x y" and "files_ok (fst x) (snd x)"
  shows "files_ok (fst y) (snd y)"
  using assms
proof (induction rule: rtranclp_induct)
  case (step y z)
  then show ?case using list_step_ok [of "fst y" "snd y" "fst z" "snd z"] by simp
qed simp

end
