(* ===== verification/FileOpen.thy ===== *)
theory FileOpen
  imports FileList FileWrite FileRead PathWalk
begin

text \<open>
  Opening a file that exists: the path is resolved, the file structure points to the chain of the entry and at its
  first byte, and is put in front of the list of open files. The errors that stop an open are stated as well.
\<close>

section \<open>The list of open files beside the volume\<close>

text \<open>The partition with other links into the list of open files.\<close>

definition relisted :: "'d partition \<Rightarrow> 'd partition \<Rightarrow> bool" where
  "relisted p q \<longleftrightarrow> (\<exists>n first. q = p\<lparr>p_openFileCount := n, p_firstOpenFile := first\<rparr>)"

lemma relisted_same:
  assumes "relisted p q"
  shows "volume_ok med q = volume_ok med p" "part_ok med q = part_ok med p" "pview med q = pview med p"
    "fat_table med q = fat_table med p" "FAT_fat_isValidCluster q = FAT_fat_isValidCluster p"
    "table_inv med q = table_inv med p" "p_bytesPerSector q = p_bytesPerSector p" "p_bytesPerCluster q = p_bytesPerCluster p"
    "p_sectorsPerCluster q = p_sectorsPerCluster p" "pos_at q = pos_at p" "chain_bytes v q = chain_bytes v p"
proof -
  obtain n first where q: "q = p\<lparr>p_openFileCount := n, p_firstOpenFile := first\<rparr>"
    using assms unfolding relisted_def by blast
  show g: "p_bytesPerSector q = p_bytesPerSector p" "p_bytesPerCluster q = p_bytesPerCluster p"
    "p_sectorsPerCluster q = p_sectorsPerCluster p" "pview med q = pview med p"
    by (simp_all add: q pview_def)
  have r: "readable q = readable p" by (simp add: fun_eq_iff readable_def q)
  have b: "fat_bytes v q = fat_bytes v p" for v by (simp add: fun_eq_iff fat_bytes_def q)
  show t: "fat_table med q = fat_table med p" by (simp add: fun_eq_iff fat_table_def g r b) (simp add: q)
  show ok: "part_ok med q = part_ok med p" by (simp add: part_ok_def fat_wf_def r) (simp add: q)
  show v: "FAT_fat_isValidCluster q = FAT_fat_isValidCluster p" by (simp add: fun_eq_iff FAT_fat_isValidCluster_def q)
  show "volume_ok med q = volume_ok med p" by (simp add: volume_ok_def ok data_ok_def) (simp add: q)
  show "table_inv med q = table_inv med p" by (simp add: fun_eq_iff table_inv_def ok t v) (simp add: q)
  show "pos_at q = pos_at p" by (simp add: fun_eq_iff pos_at_def q)
  have "FAT_fat_clusterToSector q = FAT_fat_clusterToSector p" by (simp add: fun_eq_iff FAT_fat_clusterToSector_def q)
  then have "cluster_bytes v q = cluster_bytes v p" by (simp add: fun_eq_iff cluster_bytes_def q)
  then show "chain_bytes v q = chain_bytes v p" by (simp add: chain_bytes_def fun_eq_iff cong: map_cong)
qed

lemma relisted_files:
  assumes "relisted p q"
  shows "readable_file med q = readable_file med p" "writable_file med q = writable_file med p" "file_chain med q = file_chain med p"
proof -
  note r = relisted_same [OF assms]
  show c: "file_chain med q = file_chain med p" by (simp add: fun_eq_iff file_chain_def r)
  show "readable_file med q = readable_file med p" by (simp add: fun_eq_iff readable_file_def c r)
  show "writable_file med q = writable_file med p" by (simp add: fun_eq_iff writable_file_def r)
qed

section \<open>Errors\<close>

text \<open>Why an open stops, given what the path resolves to; \<open>None\<close> when the file is opened or created.\<close>

definition open_error :: "bool \<Rightarrow> u32 \<Rightarrow> dir_entry option \<Rightarrow> errno option" where
  "open_error readOnly flags found =
    (case access_mode flags of
       None \<Rightarrow> Some EACCES
     | Some (rd, wr) \<Rightarrow>
         if wr \<and> readOnly then Some EROFS
         else case found of
           None \<Rightarrow> if flags AND O_CREAT = 0 then Some ENOENT else if readOnly then Some EROFS else None
         | Some e \<Rightarrow> if flags AND O_CREAT \<noteq> 0 \<and> flags AND O_EXCL \<noteq> 0 then Some EEXIST
             else if FAT_directory_isDirectory e then Some EISDIR
             else if wr \<and> \<not> FAT_directory_isWritable e then Some EROFS else None)"

lemma open_walk:
  fixes s :: "'d fs"
  assumes ok: "part_ok med (fs_part s)" and d: "dirs_ok med (fs_part s) dirs" and path: "0 \<notin> set path" "names_short (path_parts path)"
    and res: "resolve_path (fs_part s) dirs path (length path) = Some found"
  obtains x p' where "FAT_directory_entryFromPath c_locale (fs_part s) blank_entry path None = Some ((found \<noteq> None, x), p')"
    and "found \<noteq> None \<longrightarrow> found = Some x" and "pkept med (fs_part s) p'"
proof -
  obtain x p' where x: "FAT_directory_entryFromPath c_locale (fs_part s) blank_entry path None = Some (x, p')"
    "pkept med (fs_part s) p'" "walk_result found x"
    by (rule path_walk [OF ok d path(1) _ _ _ res, where pathEnd = None and entry = blank_entry]) (use path(2) in simp_all)
  show thesis
  proof (rule that [of "snd x" p'])
    show "FAT_directory_entryFromPath c_locale (fs_part s) blank_entry path None = Some ((found \<noteq> None, snd x), p')"
      using x(1,3) by (cases found; cases x) (simp_all add: walk_result_def)
    show "found \<noteq> None \<longrightarrow> found = Some (snd x)" using x(3) by (auto simp: walk_result_def split: option.splits)
  qed (rule x(2))
qed

lemma open_refused_spec:
  fixes s :: "'d fs"
  assumes ok: "part_ok med (fs_part s)" and d: "dirs_ok med (fs_part s) dirs"
    and path: "strip_device given = Some path" "0 \<notin> set path" "names_short (path_parts path)"
    and res: "resolve_path (fs_part s) dirs path (length path) = Some found"
    and err: "open_error (p_readOnly (fs_part s)) flags found = Some err"
  shows "\<exists>p'. FAT_open_r c_locale malloc rtc True a given flags s = Some (Inl err, s\<lparr>fs_part := p'\<rparr>) \<and> pkept med (fs_part s) p'"
proof (cases "access_mode flags")
  case None
  then show ?thesis using err pkept_refl [OF ok]
    by (intro exI [of _ "fs_part s"]) (simp add: open_error_def FAT_open_r_def path(1))
next
  case (Some m)
  obtain rd wr where m: "access_mode flags = Some (rd, wr)" using Some by (cases m) simp
  show ?thesis
  proof (cases "wr \<and> p_readOnly (fs_part s)")
    case True
    then show ?thesis using err pkept_refl [OF ok] m
      by (intro exI [of _ "fs_part s"]) (simp add: open_error_def FAT_open_r_def path(1))
  next
    case False
    obtain x p' where x: "FAT_directory_entryFromPath c_locale (fs_part s) blank_entry path None = Some ((found \<noteq> None, x), p')"
      "found \<noteq> None \<longrightarrow> found = Some x" "pkept med (fs_part s) p'"
      by (rule open_walk [OF ok d path(2,3) res])
    have ro: "p_readOnly p' = p_readOnly (fs_part s)" by (rule same_partD(16) [OF pkeptD(2) [OF x(3)]])
    have "FAT_open_r c_locale malloc rtc True a given flags s = Some (Inl err, s\<lparr>fs_part := p'\<rparr>)"
      using err False x(1,2) m by (cases found) (auto simp: open_error_def FAT_open_r_def path(1) ro split: if_splits)
    then show ?thesis using x(3) by blast
  qed
qed

section \<open>The file structure\<close>

text \<open>An entry with a chain that holds its size. Append mode looks for the end of the file in the last cluster of the chain,
  where it is unless the chain has a cluster to spare.\<close>

definition entry_size :: "dir_entry \<Rightarrow> u32" where
  "entry_size e = u8array_to_u32 (de_entryData e) DIR_ENTRY_fileSize"

definition file_of :: "('d \<Rightarrow> sec_t \<Rightarrow> u8 list) \<Rightarrow> 'd partition \<Rightarrow> u32 list \<Rightarrow> dir_entry \<Rightarrow> bool" where
  "file_of med p cs e \<longleftrightarrow> file_chain med p cs \<and> FAT_directory_entryGetCluster p (de_entryData e) = hd cs \<and>
     unat (entry_size e) \<le> length cs * bpc p"

definition none_spare :: "'d partition \<Rightarrow> u32 list \<Rightarrow> dir_entry \<Rightarrow> bool" where
  "none_spare p cs e \<longleftrightarrow> (length cs - 1) * bpc p < max 1 (unat (entry_size e))"

text \<open>What an open file structure says of its entry, before anything is read or written.\<close>

definition freshly_opened :: "'d partition \<Rightarrow> u32 list \<Rightarrow> dir_entry \<Rightarrow> bool \<Rightarrow> bool \<Rightarrow> bool \<Rightarrow> file_struct \<Rightarrow> bool" where
  "freshly_opened p cs e rd wr app file \<longleftrightarrow> f_filesize file = entry_size e \<and> f_startCluster file = hd cs \<and>
     f_currentPosition file = 0 \<and> f_rwPosition file = \<lparr>fp_cluster = hd cs, fp_sector = 0, fp_byte = 0\<rparr> \<and>
     (app \<longrightarrow> pos_at p cs (f_appendPosition file) (unat (entry_size e))) \<and>
     f_dirEntryStart file = de_dataStart e \<and> f_dirEntryEnd file = de_dataEnd e \<and>
     f_read file = rd \<and> f_write file = wr \<and> f_append file = app \<and> f_inUse file \<and> \<not> f_modified file"

lemma append_position:
  assumes v: "volume_ok med p" and ne: "cs \<noteq> []"
    and sz: "unat sz \<le> length cs * bpc p" "(length cs - 1) * bpc p < max 1 (unat sz)"
  defines "whole \<equiv> sz > 0 \<and> sz mod p_bytesPerCluster p = 0"
  shows "pos_at p cs \<lparr>fp_cluster = last cs,
    fp_sector = (if whole then p_sectorsPerCluster p else sz mod p_bytesPerCluster p div p_bytesPerSector p),
    fp_byte = (if whole then 0 else sz mod p_bytesPerSector p)\<rparr> (unat sz)"
proof -
  let ?k = "length cs - 1"
  have b: "bpc p = spc p * bps p" "0 < bps p" "0 < spc p" using volume_okD [OF v] by simp_all
  have len: "length cs = Suc ?k" using ne by (cases cs) simp_all
  have k: "?k < length cs" "last cs = cs ! ?k" using ne by (simp_all add: last_conv_nth)
  have m: "unat (sz mod p_bytesPerCluster p) = unat sz mod bpc p" by (simp add: unat_mod)
  show ?thesis
  proof (cases whole)
    case True
    then have "0 < unat sz" "bpc p dvd unat sz" using m by (auto simp: whole_def word_less_nat_alt dvd_eq_mod_eq_0)
    then obtain j where j: "unat sz = bpc p * j" by (auto elim: dvdE)
    have "?k < j" "j \<le> Suc ?k" using sz j \<open>0 < unat sz\<close> b len by (auto simp: mult.commute)
    then have "j = Suc ?k" by linarith
    then have "unat sz = ?k * bpc p + bpc p" using j by (metis add.commute mult.commute mult_Suc)
    then show ?thesis using True k b unfolding pos_at_def by (intro exI [of _ ?k]) simp
  next
    case False
    have lo: "?k * bpc p \<le> unat sz" using sz(2) by (cases "unat sz = 0") auto
    have hi: "unat sz < ?k * bpc p + bpc p"
    proof (rule ccontr)
      assume "\<not> unat sz < ?k * bpc p + bpc p"
      moreover have "unat sz \<le> ?k * bpc p + bpc p" using sz(1) len by (metis add.commute mult_Suc)
      ultimately have e: "unat sz = Suc ?k * bpc p" by simp
      then have "unat sz mod bpc p = 0" "0 < unat sz" using b by simp_all
      then show False using False m by (simp add: whole_def word_eq_iff_unat_eq word_less_nat_alt)
    qed
    have md: "unat sz mod bpc p = unat sz - ?k * bpc p"
      using lo hi by (metis add_diff_cancel_left' le_add_diff_inverse less_diff_conv2 mod_less mod_mult_self3 add.commute)
    let ?r = "unat sz mod bpc p"
    have mm: "?r mod bps p = unat sz mod bps p" using volume_okD(9) [OF v] by (simp add: mod_mod_cancel)
    have "unat sz = ?k * bpc p + ?r" using md lo by linarith
    then have "unat sz = ?k * bpc p + ?r div bps p * bps p + unat sz mod bps p"
      using div_mult_mod_eq [of ?r "bps p"] mm by linarith
    moreover have "?r div bps p < spc p"
      using mod_less_divisor [OF volume_okD(6) [OF v], of "unat sz"] unfolding b(1) by (rule less_mult_imp_div_less)
    ultimately show ?thesis using False k b unfolding pos_at_def
      by (intro exI [of _ ?k]) (simp add: unat_div unat_mod)
  qed
qed

lemma open_entry_spec:
  assumes fo: "file_of med p cs e" and trunc: "flags AND O_TRUNC = 0 \<or> \<not> wr"
    and app: "flags AND O_APPEND = 0 \<or> none_spare p cs e"
  obtains f p' where "open_entry p e flags rd wr False = Some (f, p')" and "pkept med p p'"
    and "freshly_opened p cs e rd wr (flags AND O_APPEND \<noteq> 0) f"
proof -
  have fc: "file_chain med p cs" and start: "FAT_directory_entryGetCluster p (de_entryData e) = hd cs"
    and sz: "unat (entry_size e) \<le> length cs * bpc p"
    using fo by (simp_all add: file_of_def)
  note v = file_chainD(1) [OF fc] and ok = file_chainD(2) [OF fc] and ch = file_chainD(4) [OF fc]
  have ne: "cs \<noteq> []" by (rule chain_ne [OF ch])
  have nt: "(flags AND O_TRUNC \<noteq> 0 \<and> wr \<and> hd cs \<noteq> 0) = False" using trunc by blast
  have sz0: "u8array_to_u32 (de_entryData e) DIR_ENTRY_fileSize = entry_size e" by (simp add: entry_size_def)
  obtain p' where p': "FAT_fat_lastCluster p (hd cs) = Some (last cs, p')" "pkept med p p'"
    using lastCluster_spec [OF ok, of "hd cs" "tl cs"] ch ne by auto
  have nz: "p_bytesPerCluster p \<noteq> 0" "p_bytesPerSector p \<noteq> 0"
    using volume_okD(4,6) [OF v] by (auto simp: word_eq_iff_unat_eq)
  let ?app = "flags AND O_APPEND \<noteq> 0"
  define fl where "fl pos = \<lparr>f_filesize = entry_size e, f_startCluster = hd cs, f_currentPosition = 0,
    f_rwPosition = \<lparr>fp_cluster = hd cs, fp_sector = 0, fp_byte = 0\<rparr>, f_appendPosition = pos,
    f_dirEntryStart = de_dataStart e, f_dirEntryEnd = de_dataEnd e, f_prevOpenFile = None, f_nextOpenFile = None,
    f_read = rd, f_write = wr, f_append = ?app, f_inUse = True, f_modified = False\<rparr>" for pos
  note eq = open_entry_def [of p e flags rd wr False, unfolded start sz0 Let_def nt if_False simp_thms bind.bind_lunit prod.case]
  show thesis
  proof (cases ?app)
    case False
    have "open_entry p e flags rd wr False = Some (fl \<lparr>fp_cluster = hd cs, fp_sector = 0, fp_byte = 0\<rparr>, p)"
      using False unfolding eq fl_def by simp
    then show ?thesis using pkept_refl [OF ok] by (rule that) (use False in \<open>simp add: fl_def freshly_opened_def\<close>)
  next
    case True
    have "(length cs - 1) * bpc p < max 1 (unat (entry_size e))" using True app by (simp add: none_spare_def)
    note ap = append_position [OF v ne sz this]
    let ?whole = "entry_size e > 0 \<and> entry_size e mod p_bytesPerCluster p = 0"
    have "open_entry p e flags rd wr False = Some (fl \<lparr>fp_cluster = last cs,
      fp_sector = (if ?whole then p_sectorsPerCluster p else entry_size e mod p_bytesPerCluster p div p_bytesPerSector p),
      fp_byte = (if ?whole then 0 else entry_size e mod p_bytesPerSector p)\<rparr>, p')"
      using True nz p'(1) same_partD(8-10) [OF pkeptD(2) [OF p'(2)]] unfolding eq fl_def by simp
    then show ?thesis using p'(2) by (rule that) (use True ap in \<open>simp add: fl_def freshly_opened_def\<close>)
  qed
qed

text \<open>A file just opened can be read and written.\<close>

lemma start_position: "volume_ok med p \<Longrightarrow> cs \<noteq> [] \<Longrightarrow> pos_at p cs \<lparr>fp_cluster = hd cs, fp_sector = 0, fp_byte = 0\<rparr> 0"
  using volume_okD(4,5) [of med p] by (auto simp: pos_at_def hd_conv_nth intro!: exI [of _ 0])

lemma freshly_usable:
  assumes fo: "file_of med p cs e" and f: "freshly_opened p cs e rd wr app file"
  shows "rd \<Longrightarrow> unat (entry_size e) + bpc p < 2 ^ 32 \<Longrightarrow> readable_file med p cs file"
    and "wr \<Longrightarrow> table_inv med p (xs @ cs # ys) \<Longrightarrow> writable_file med p xs cs ys file"
proof -
  have fc: "file_chain med p cs" using fo by (simp add: file_of_def)
  note v = file_chainD(1) [OF fc] and st = start_position [OF file_chainD(1) [OF fc] chain_ne [OF file_chainD(4) [OF fc]]]
  show "rd \<Longrightarrow> unat (entry_size e) + bpc p < 2 ^ 32 \<Longrightarrow> readable_file med p cs file"
    using fo f st fc by (simp add: readable_file_def file_of_def freshly_opened_def)
  show "wr \<Longrightarrow> table_inv med p (xs @ cs # ys) \<Longrightarrow> writable_file med p xs cs ys file"
    using fo f st v by (auto simp: writable_file_def file_of_def freshly_opened_def write_start_at_def)
qed

lemma file_of_kept: "pkept med p q \<Longrightarrow> file_of med p cs e \<Longrightarrow> file_of med q cs e"
  using file_chain_kept [of med p q cs] volume_same(3) [of p q] same_partD(2) [of p q] pkeptD(2) [of med p q]
  by (simp add: file_of_def FAT_directory_entryGetCluster_def)

lemma file_of_relisted:
  assumes "relisted p q" and "file_of med p cs e"
  shows "file_of med q cs e"
proof -
  have "p_filesysType q = p_filesysType p" using assms(1) by (auto simp: relisted_def)
  then show ?thesis using assms(2) relisted_files(3) [OF assms(1)] relisted_same(8) [OF assms(1)]
    by (simp add: file_of_def FAT_directory_entryGetCluster_def)
qed

section \<open>Opening\<close>

lemma open_existing_spec:
  fixes s :: "'d fs"
  assumes ok: "part_ok med (fs_part s)" and d: "dirs_ok med (fs_part s) dirs"
    and path: "strip_device given = Some path" "0 \<notin> set path" "names_short (path_parts path)"
    and res: "resolve_path (fs_part s) dirs path (length path) = Some (Some e)"
    and err: "open_error (p_readOnly (fs_part s)) flags (Some e) = None" and m: "access_mode flags = Some (rd, wr)"
    and trunc: "flags AND O_TRUNC = 0 \<or> \<not> wr" and fo: "file_of med (fs_part s) cs e"
    and app: "flags AND O_APPEND = 0 \<or> none_spare (fs_part s) cs e"
    and files: "files_ok s as" and new: "a \<notin> set as"
  shows "\<exists>s' fl. FAT_open_r c_locale malloc rtc True a given flags s = Some (Inr a, s') \<and> files_ok s' (a # as) \<and>
    fs_files s' a = Some fl \<and> freshly_opened (fs_part s') cs e rd wr (flags AND O_APPEND \<noteq> 0) fl \<and>
    file_of med (fs_part s') cs e \<and> (\<exists>p'. pkept med (fs_part s) p' \<and> relisted p' (fs_part s'))"
proof -
  obtain x p1 where x: "FAT_directory_entryFromPath c_locale (fs_part s) blank_entry path None = Some ((Some e \<noteq> None, x), p1)"
    "Some e \<noteq> None \<longrightarrow> Some e = Some x" "pkept med (fs_part s) p1"
    by (rule open_walk [OF ok d path(2,3) res])
  have xe: "x = e" using x(2) by simp
  have fo1: "file_of med p1 cs e" by (rule file_of_kept [OF x(3) fo])
  obtain fl p2 where p2: "open_entry p1 e flags rd wr False = Some (fl, p2)" "pkept med p1 p2"
    "freshly_opened p1 cs e rd wr (flags AND O_APPEND \<noteq> 0) fl"
    by (rule open_entry_spec [OF fo1 trunc]) (use app volume_same(3) [OF pkeptD(2) [OF x(3)]] in \<open>simp add: none_spare_def\<close>)
  note k = pkept_trans [OF x(3) p2(2)]
  have "files_ok (s\<lparr>fs_part := p2\<rparr>) as"
    using files same_partD(14,15) [OF pkeptD(2) [OF k]] by (simp add: files_ok_def)
  moreover have "f_inUse fl" using p2(3) by (simp add: freshly_opened_def)
  ultimately obtain s' where s': "link_file a fl (s\<lparr>fs_part := p2\<rparr>) = Some s'" "files_ok s' (a # as)"
    "fs_part s' = p2\<lparr>p_openFileCount := p_openFileCount p2 + 1, p_firstOpenFile := Some a\<rparr>"
    "fs_files s' a = Some (fl\<lparr>f_nextOpenFile := p_firstOpenFile p2, f_prevOpenFile := None\<rparr>)"
    by (rule link_file_spec [OF _ new]) simp
  have re: "relisted p2 (fs_part s')" using s'(3) unfolding relisted_def by blast
  have "p_readOnly p1 = p_readOnly (fs_part s)" by (rule same_partD(16) [OF pkeptD(2) [OF x(3)]])
  then have "FAT_open_r c_locale malloc rtc True a given flags s = Some (Inr a, s')"
    using err x(1) xe m p2(1) s'(1) by (auto simp: FAT_open_r_def path(1) open_error_def split: if_splits)
  moreover have "freshly_opened (fs_part s') cs e rd wr (flags AND O_APPEND \<noteq> 0) (fl\<lparr>f_nextOpenFile := p_firstOpenFile p2, f_prevOpenFile := None\<rparr>)"
    using p2(3) relisted_same(10) [OF re] volume_same(6) [OF pkeptD(2) [OF p2(2)]] by (simp add: freshly_opened_def)
  moreover have "file_of med (fs_part s') cs e" by (rule file_of_relisted [OF re file_of_kept [OF k fo]])
  ultimately show ?thesis using s'(2,4) k re by blast
qed

end
