(* ===== verification/DirMake.thy ===== *)
theory DirMake
  imports NameCalls
begin

text \<open>
  \<open>mkdir\<close>: the cleared cluster, the entry in the parent directory, the two dot entries and the flush.
\<close>

lemma path_parts_length: "name \<in> set (path_parts path) \<Longrightarrow> length name \<le> length path"
proof (induction path rule: path_parts.induct)
  case (1 path)
  let ?rest = "skip_separators path"
  have len: "length ?rest \<le> length path" by (rule skip_split(1))
  have ne: "?rest \<noteq> []" using 1(2) by (subst (asm) path_parts.simps) (auto simp: Let_def)
  from 1(2) ne consider "name = takeWhile (\<lambda>c. c \<noteq> DIR_SEPARATOR) ?rest"
    | "name \<in> set (path_parts (dropWhile (\<lambda>c. c \<noteq> DIR_SEPARATOR) ?rest))"
    by (subst (asm) path_parts.simps) (auto simp: Let_def)
  then show ?case
  proof cases
    case 1
    then show ?thesis using len length_takeWhile_le [of "\<lambda>c. c \<noteq> DIR_SEPARATOR" ?rest] by simp
  next
    case 2
    from 1(1) [OF refl ne this] show ?thesis using len length_dropWhile_le [of "\<lambda>c. c \<noteq> DIR_SEPARATOR" ?rest] by simp
  qed
qed

lemma short_path: "length path < PATH_MAX \<Longrightarrow> names_short (path_parts (take k path))"
  using path_parts_length [of _ "take k path"] by (fastforce simp: names_short_def)

section \<open>A new cluster beside a directory\<close>

lemma area_beside_cluster:
  assumes ok: "area_ok med p area" and n: "FAT_fat_isValidCluster p n" "n \<notin> set (concat (area_chains area))"
    and i: "i < slot_count p area"
  shows "\<not> in_cluster p n (pos_sector p (slot_at p area i))"
proof (cases area)
  case Root
  note s = slot_sector(3) [OF ok i] and u = slot_unit [OF i area_okD(4) [OF ok]]
  have "unat (pos_sector p (slot_at p area i)) < unat (p_dataStart p)"
    using s u by (simp add: Root area_sectors_def)
  then show ?thesis
    using clusterToSector_valid(1) [OF area_okD(3) [OF ok] n(1)] by (simp add: in_cluster_def in_range_def)
next
  case (Chain cs)
  obtain c where c: "c \<in> set cs" "in_cluster p c (pos_sector p (slot_at p area i))"
    using slot_in_clusters [of med p cs i] ok i by (auto simp: Chain)
  have "FAT_fat_isValidCluster p c" using c(1) file_chainD(8) [of med p cs c] ok by (simp add: Chain area_ok_def)
  then show ?thesis
    using clusters_disjoint [OF area_okD(3) [OF ok] _ n(1) c(2)] c(1) n(2) by (auto simp: Chain area_chains_def)
qed

lemma new_cluster:
  assumes inv: "dir_inv med xs ys p area" and ff: "may_allocate p" and m: "malloc_ok malloc"
  obtains (taken) n p' where "FAT_fat_linkFreeClusterCleared malloc p CLUSTER_FREE = Some (n, p')"
      and "FAT_fat_isValidCluster p n" and "fat_table med p n = CLUSTER_FREE" and "may_allocate p'" and "same_volume p p'"
      and "dir_inv med ([n] # xs) ys p' area" and "dir_content (pview med p') p' area = dir_content (pview med p) p area"
      and "\<forall>t. \<not> in_table p t \<longrightarrow> pview med p' t = (if in_cluster p n t then replicate (bps p) 0 else pview med p t)"
  | (none) p' where "FAT_fat_linkFreeClusterCleared malloc p CLUSTER_FREE = Some (CLUSTER_ERROR, p')" and "full med p"
      and "same_volume p p'" and "dir_inv med xs ys p' area"
      and "dir_content (pview med p') p' area = dir_content (pview med p) p area"
      and "\<forall>t. \<not> in_table p t \<longrightarrow> pview med p' t = pview med p t"
proof -
  note ok = dir_invD(1) [OF inv] and f = dir_invD(2) [OF inv]
  note a = area_okD [OF ok]
  have V: "proper (FAT_fat_isValidCluster p)" by (rule proper_valid [OF a(2)])
  from table_inv_dir [OF inv ff] disjI1 [OF refl] show thesis
  proof (cases rule: linkFree_cases)
    case (taken n r)
    note svr = same_volume_step [OF taken(3)]
    have nr: "FAT_fat_isValidCluster r n" using taken(6) same_volumeD(11) [OF svr] by simp
    have dr: "data_ok r" using a(3) same_volumeD(10) [OF svr] by simp
    obtain block where block: "malloc (unat (p_bytesPerSector r)) = Some block" "length block = unat (p_bytesPerSector r)"
      using m unfolding malloc_ok_def by blast
    obtain p' where p': "FAT_fat_linkFreeClusterCleared malloc p CLUSTER_FREE = Some (n, p')"
      "pview med p' = (\<lambda>s. if in_cluster r n s then replicate (bps r) 0 else pview med r s)"
      "part_ok med p'" "same_part r p'" "fat_table med p' = fat_table med r"
      using linkFreeClusterCleared_spec [where malloc = malloc, OF taken(1,2) dr nr block] by blast
    note sv = same_volume_trans [OF svr same_volume_part [OF p'(4)]]
    have f': "forest (fat_table med p') (FAT_fat_isValidCluster p) (([n] # xs) @ area_chains area @ ys)"
      using forest_create [OF f V taken(6,7)] taken(4) p'(5) by (simp add: forest_def)
    have fresh: "n \<notin> set (concat (area_chains area))" using forest_used(2) [OF f V, of n] taken(7) by auto
    have view: "\<forall>t. \<not> in_table p t \<longrightarrow> pview med p' t = (if in_cluster p n t then replicate (bps p) 0 else pview med p t)"
      using fs_stepD(19) [OF taken(3)] p'(2) same_volumeD(1,13) [OF svr] by (simp add: in_table_def)
    have "pview med p' (pos_sector p (slot_at p area i)) = pview med p (pos_sector p (slot_at p area i))"
      if "i < slot_count p area" for i
      using view slot_sector(2) [OF ok that] area_beside_cluster [OF ok taken(6) fresh that] by (simp add: in_table_def)
    note b = beside_directory [OF inv p'(3) sv f' this]
    have "may_allocate p'"
      using taken(5,6) fs_stepD(17) [OF taken(3)] same_partD(12) [OF p'(4)]
      by (simp add: may_allocate_def note_alloc_def FAT_fat_isValidCluster_def)
    then show ?thesis using that(1) [OF p'(1) taken(6,7) _ sv b view] by blast
  next
    case (none r)
    note svr = same_volume_step [OF none(4)]
    have run: "FAT_fat_linkFreeClusterCleared malloc p CLUSTER_FREE = Some (CLUSTER_ERROR, r)"
      using none(2) by (simp add: FAT_fat_linkFreeClusterCleared_def)
    have view: "\<forall>t. \<not> in_table p t \<longrightarrow> pview med r t = pview med p t"
      using fs_stepD(19) [OF none(4)] by (simp add: in_table_def)
    have "pview med r (pos_sector p (slot_at p area i)) = pview med p (pos_sector p (slot_at p area i))"
      if "i < slot_count p area" for i
      using view slot_sector(2) [OF ok that] by (simp add: in_table_def)
    note b = beside_directory [OF inv none(3) svr _ this]
    have "forest (fat_table med r) (FAT_fat_isValidCluster p) (xs @ area_chains area @ ys)" using f none(5) by simp
    from that(2) [OF run none(1) svr b [OF this] view] show ?thesis .
  qed
qed

section \<open>The dot entries\<close>

text \<open>The two entries of a new directory, as the search returns them.\<close>

definition dot_entry :: "dir_pos \<Rightarrow> u8 list \<Rightarrow> u8 list \<Rightarrow> dir_entry" where
  "dot_entry pos name data = \<lparr>de_entryData = data, de_dataStart = pos, de_dataEnd = pos, de_filename = name\<rparr>"

lemma put_cluster_facts:
  "length (put_cluster d c) = length d" "k < 20 \<Longrightarrow> put_cluster d c ! k = d ! k"
  by (simp_all add: put_cluster_def mem_simps)

lemma dot_data_facts:
  "length (dot_data c) = 32" "dot_data c ! 0 = CH_DOT" "dot_data c ! 1 = CH_SPACE" "dot_data c ! DIR_ENTRY_attributes = ATTRIB_DIR"
  by (simp_all add: dot_data_def put_cluster_facts nth_append)

lemma dotdot_data_facts:
  "length (dotdot_data p c q) = 32" "dotdot_data p c q ! 0 = CH_DOT" "dotdot_data p c q ! 1 = CH_DOT"
  "dotdot_data p c q ! DIR_ENTRY_attributes = ATTRIB_DIR"
  by (simp_all add: dotdot_data_def put_cluster_facts dot_data_facts)

lemma dot_item:
  assumes d: "d ! 0 = CH_DOT" "d ! DIR_ENTRY_attributes = ATTRIB_DIR"
  defines "name \<equiv> (if d ! 1 = CH_DOT then [CH_DOT, CH_DOT] else [CH_DOT])"
  shows "item_ok env (Named [] (pos, d))" and "item_entry env (Named [] (pos, d)) = Some (dot_entry pos name d)"
proof -
  have vis: "visible d" using d by (simp add: visible_def ATTRIB_DIR_def ATTRIB_VOL_def DIR_ENTRY_FREE_def)
  have al: "FAT_directory_entryGetAlias env d = (True, name)"
    by (simp add: FAT_directory_entryGetAlias_def d name_def DIR_ENTRY_FREE_def)
  have "scan_slots env [(pos, d)] scan_start = Some (Some (dot_entry pos name d, []))"
    unfolding visible_slot [OF vis] dot_entry_def by (simp add: scan_name_def scan_start_def Let_def al)
  then show e: "item_entry env (Named [] (pos, d)) = Some (dot_entry pos name d)" by (simp add: item_entry_def)
  show "item_ok env (Named [] (pos, d))"
    using e visible_marks [OF vis] by (simp add: item_ok_def dot_entry_def)
qed

lemma dots_tidy:
  assumes d1: "d1 ! 0 = CH_DOT" "d1 ! 1 \<noteq> CH_DOT" "d1 ! DIR_ENTRY_attributes = ATTRIB_DIR"
    and d2: "d2 ! 0 = CH_DOT" "d2 ! 1 = CH_DOT" "d2 ! DIR_ENTRY_attributes = ATTRIB_DIR"
    and z: "\<forall>x \<in> set zs. snd x = replicate 32 0"
  shows "tidy env ((pos1, d1) # (pos2, d2) # zs) [Named [] (pos1, d1), Named [] (pos2, d2)] zs"
    and "listing env [Named [] (pos1, d1), Named [] (pos2, d2)] = [dot_entry pos1 [CH_DOT] d1, dot_entry pos2 [CH_DOT, CH_DOT] d2]"
proof -
  have "tail_ok zs"
    using z by (cases zs) (auto simp: tail_ok_def is_last_def DIR_ENTRY_LAST_def ATTRIB_LFN_def)
  then show "tidy env ((pos1, d1) # (pos2, d2) # zs) [Named [] (pos1, d1), Named [] (pos2, d2)] zs"
    using dot_item(1) [OF d1(1,3), of env pos1] dot_item(1) [OF d2(1,3), of env pos2] by (simp add: tidy_def)
  show "listing env [Named [] (pos1, d1), Named [] (pos2, d2)] = [dot_entry pos1 [CH_DOT] d1, dot_entry pos2 [CH_DOT, CH_DOT] d2]"
    using dot_item(2) [OF d1(1,3), of env pos1] dot_item(2) [OF d2(1,3), of env pos2] d1(2) d2(2) by (simp add: listing_Cons)
qed

text \<open>Writing them to the first sector of a cleared cluster.\<close>

lemma write_dots:
  assumes inv: "dir_inv med xs ys p (Chain [n])" and two: "64 \<le> bps p" and len: "length d1 = 32" "length d2 = 32"
    and z: "\<forall>t. in_cluster p n t \<longrightarrow> pview med p t = replicate (bps p) 0"
  obtains p1 p2 zs where "on_cache (\<lambda>c. FAT_cache_eraseWritePartialSector c d1 (FAT_fat_clusterToSector p n) 0 DIR_ENTRY_DATA_SIZE) p = Some (True, p1)"
    and "on_cache (\<lambda>c. FAT_cache_writePartialSector c d2 (FAT_fat_clusterToSector p1 n) DIR_ENTRY_DATA_SIZE DIR_ENTRY_DATA_SIZE) p1 = Some (True, p2)"
    and "dir_step med (Chain [n]) p p1" and "dir_step med (Chain [n]) p p2"
    and "dir_content (pview med p2) p2 (Chain [n]) = (slot_at p (Chain [n]) 0, d1) # (slot_at p (Chain [n]) 1, d2) # zs"
    and "\<forall>x \<in> set zs. snd x = replicate 32 0"
proof -
  let ?a = "Chain [n]" and ?s = "FAT_fat_clusterToSector p n"
  note ok = dir_invD(1) [OF inv]
  note a = area_okD [OF ok]
  have sps: "2 \<le> sps p" using two by (simp add: sps_def)
  have "1 * 2 \<le> spc p * sps p" using a(6) sps by (intro mult_le_mono) simp_all
  moreover have "slot_count p ?a = spc p * sps p" by (simp add: slot_count_def area_sectors_def)
  ultimately have cnt: "0 < slot_count p ?a" "1 < slot_count p ?a" by linarith+
  have at: "slot_at p ?a 0 = \<lparr>dp_cluster = n, dp_sector = 0, dp_offset = 0\<rparr>" "slot_at p ?a 1 = \<lparr>dp_cluster = n, dp_sector = 0, dp_offset = 1\<rparr>"
    using sps by (simp_all add: slot_at_def sector_pos_def)
  have zs: "pview med p (pos_sector p (slot_at p ?a i)) = replicate (bps p) 0" if "i < slot_count p ?a" for i
    using slot_in_clusters [OF ok that] z by simp
  have v0: "pview med p ?s = replicate (bps p) 0" using zs [OF cnt(1)] by (simp add: at(1) pos_sector_def)
  have c0: "dir_content (pview med p) p ?a = map (\<lambda>i. (slot_at p ?a i, replicate 32 0)) [0..<slot_count p ?a]"
  proof (rule nth_equalityI)
    fix i assume "i < length (dir_content (pview med p) p ?a)"
    then have i: "i < slot_count p ?a" by simp
    then show "dir_content (pview med p) p ?a ! i = map (\<lambda>i. (slot_at p ?a i, replicate 32 0)) [0..<slot_count p ?a] ! i"
      using unat_slot_place(2) [OF ok, of i] by (simp add: nth_dir_content slot_bytes_at [OF ok] zs [OF i] slice_def)
  qed simp
  have bps: "unat (c_bytesPerSector (p_cache p)) = bps p" using fat_wfD(2) [OF part_okD(2) [OF a(2)]] by simp
  have n32: "unat DIR_ENTRY_DATA_SIZE = 32" by (simp add: DIR_ENTRY_DATA_SIZE_def)
  have lim: "?s < c_endOfPartition (p_cache p)" using slot_sector(1) [OF ok cnt(1)] by (simp add: at(1) pos_sector_def)
  obtain c where c: "FAT_cache_eraseWritePartialSector (p_cache p) d1 ?s 0 DIR_ENTRY_DATA_SIZE = Some (True, c)" "store_inv med c"
    "cview med c = (cview med (p_cache p))(?s := splice (replicate (unat (c_bytesPerSector (p_cache p))) 0) 0 d1)"
    "c_endOfPartition c = c_endOfPartition (p_cache p)" "unat (c_bytesPerSector c) = unat (c_bytesPerSector (p_cache p))"
    using runs.erase_law [OF part_okD(1) [OF a(2)] lim, of 0 DIR_ENTRY_DATA_SIZE d1] two n32 bps len by auto
  let ?p1 = "p\<lparr>p_cache := c\<rparr>"
  note st1 = cache_step [OF a(2) c(2,4,5)]
  have "pview med ?p1 = (pview med p)(pos_sector p (slot_at p ?a 0) :=
      splice (pview med p (pos_sector p (slot_at p ?a 0))) (0 mod sps p * 32) d1)"
    using c(3) v0 bps by (simp add: at(1) pos_sector_def pview_def)
  note u1 = slot_update [OF ok cnt(1) len(1) st1 this]
  note ok1 = dir_step_table(2) [OF ok u1(1)] and same1 = area_same [OF dir_stepD(2) [OF u1(1)]]
  have cnt1: "1 < slot_count ?p1 ?a" using cnt(2) same1 by simp
  obtain p2 where p2: "writeEntry ?p1 (slot_at ?p1 ?a 1) d2 = Some (True, p2)" "dir_step med ?a ?p1 p2"
    "dir_content (pview med p2) p2 ?a = (dir_content (pview med ?p1) ?p1 ?a)[1 := (slot_at ?p1 ?a 1, d2)]"
    by (rule writeEntry_slot [OF ok1 cnt1 len(2)])
  have at1: "slot_at ?p1 ?a = slot_at p ?a" using same1 by simp
  have w1: "on_cache (\<lambda>c. FAT_cache_eraseWritePartialSector c d1 ?s 0 DIR_ENTRY_DATA_SIZE) p = Some (True, ?p1)"
    using c(1) by (simp add: on_cache_def)
  have w2: "on_cache (\<lambda>c. FAT_cache_writePartialSector c d2 (FAT_fat_clusterToSector ?p1 n) DIR_ENTRY_DATA_SIZE DIR_ENTRY_DATA_SIZE) ?p1 = Some (True, p2)"
    using p2(1) unfolding writeEntry_def at1 at(2) dir_pos.simps add_0_right mult_1 .
  obtain m where m: "slot_count p ?a = Suc (Suc m)" using cnt(2) by (cases "slot_count p ?a"; cases "slot_count p ?a - 1") auto
  let ?zs = "map (\<lambda>i. (slot_at p ?a i, replicate 32 0)) [2..<slot_count p ?a]"
  have "dir_content (pview med p2) p2 ?a = (slot_at p ?a 0, d1) # (slot_at p ?a 1, d2) # ?zs"
    unfolding p2(3) u1(2) c0 at1 m by (simp add: upt_conv_Cons numeral_2_eq_2 del: upt_Suc)
  moreover have "\<forall>x \<in> set ?zs. snd x = replicate 32 0" by auto
  ultimately show thesis using that [OF w1 w2 u1(1) dir_step_trans [OF u1(1) p2(2)]] by blast
qed

section \<open>The whole call\<close>

text \<open>A directory was made: its cluster \<open>n\<close> holds the two dot entries, the parent lists it, the medium agrees.\<close>

definition directory_made ::
    "('d \<Rightarrow> sec_t \<Rightarrow> u8 list) \<Rightarrow> u32 list list \<Rightarrow> u32 list list \<Rightarrow> tm option option \<Rightarrow> 'd partition \<Rightarrow> dir_area \<Rightarrow> u8 list
      \<Rightarrow> dir_entry list \<Rightarrow> 'd partition \<Rightarrow> bool" where
  "directory_made med xs ys rtc p area name es p' \<longleftrightarrow>
    (\<exists>n area' items tail l1 l2 e al. fat_table med p n = CLUSTER_FREE \<and>
       same_volume p p' \<and> area_grows area area' \<and> dir_inv med ([n] # xs) ys p' area' \<and>
       tidy c_locale (dir_content (pview med p') p' area') items tail \<and> es = l1 @ l2 \<and> listing c_locale items = l1 @ e # l2 \<and>
       de_filename e = name \<and> de_entryData e = short_data al (put_cluster (new_dir_data rtc) n) \<and> fresh_alias name es al \<and>
       dir_entries c_locale med p' (Chain [n]) =
         Some [dot_entry (slot_at p (Chain [n]) 0) [CH_DOT] (dot_data n),
           dot_entry (slot_at p (Chain [n]) 1) [CH_DOT, CH_DOT] (dotdot_data p n (area_start area))] \<and>
       (\<forall>t. \<not> in_table p t \<longrightarrow> t \<notin> area_secs p area' \<longrightarrow> \<not> in_cluster p n t \<longrightarrow> pview med p' t = pview med p t) \<and>
       med (c_medium (p_cache p')) = pview med p')"

text \<open>It was not: the listing is as before, and when the disc was not full the allocated cluster is a chain that
  no entry leads to.\<close>

definition directory_refused ::
    "('d \<Rightarrow> sec_t \<Rightarrow> u8 list) \<Rightarrow> u32 list list \<Rightarrow> u32 list list \<Rightarrow> 'd partition \<Rightarrow> dir_area \<Rightarrow> u8 list \<Rightarrow> dir_entry list
      \<Rightarrow> 'd partition \<Rightarrow> bool" where
  "directory_refused med xs ys p area name es p' \<longleftrightarrow>
    (\<exists>area' lost items tail. dir_inv med (lost @ xs) ys p' area' \<and> area_grows area area' \<and> same_volume p p' \<and>
       tidy c_locale (dir_content (pview med p') p' area') items tail \<and> listing c_locale items = es \<and>
       (lost = [] \<and> full med p \<or>
        (\<exists>n. lost = [[n]] \<and> fat_table med p n = CLUSTER_FREE) \<and>
          (name_taken name es \<or> tails_used name es \<or> no_room med p' area')))"

lemma plain_new_dir: "plain_entry (put_cluster (new_dir_data rtc) n)"
proof -
  have "length (new_dir_data rtc) = 32" "new_dir_data rtc ! DIR_ENTRY_attributes = ATTRIB_DIR" "new_dir_data rtc ! DIR_ENTRY_caseInfo = 0"
    by (simp_all add: new_dir_data_def Let_def mem_simps)
  then show ?thesis by (simp add: plain_entry_def put_cluster_facts ATTRIB_DIR_def ATTRIB_VOL_def)
qed

lemma make_directory_spec:
  fixes p :: "'d partition"
  assumes inv: "dir_inv med xs ys p area" and ff: "may_allocate p" and m: "malloc_ok malloc" and two: "64 \<le> bps p"
    and t: "tidy c_locale (dir_content (pview med p) p area) items tail"
    and fits: "name_fits (trim_name name)"
  shows "\<exists>r p'. make_directory c_locale malloc rtc (area_start area) name p = Some (r, p') \<and>
    (if r = None then directory_made med xs ys rtc p area (trim_name name) (listing c_locale items) p'
     else r = Some ENOSPC \<and> directory_refused med xs ys p area (trim_name name) (listing c_locale items) p')"
  using inv ff m
proof (cases rule: new_cluster)
  case (none p1)
  have nv: "\<not> FAT_fat_isValidCluster p1 CLUSTER_ERROR"
    using valid_link(2) [OF part_okD(2) [OF area_okD(2) [OF dir_invD(1) [OF none(4)]]], of CLUSTER_ERROR] by blast
  have "make_directory c_locale malloc rtc (area_start area) name p = Some (Some ENOSPC, p1)"
    using none(1) nv by (simp add: make_directory_def)
  moreover have "directory_refused med xs ys p area (trim_name name) (listing c_locale items) p1"
    unfolding directory_refused_def using none(2-5) t area_grows_refl by (intro exI [of _ area] exI [of _ "[]"] exI [of _ items] exI [of _ tail]) simp
  ultimately show ?thesis by simp
next
  case (taken n p1)
  note inv1 = taken(6) and sv1 = taken(5)
  have v1: "FAT_fat_isValidCluster p1 n" using taken(2) same_volumeD(11) [OF sv1] by simp
  let ?entry = "blank_entry\<lparr>de_entryData := put_cluster (new_dir_data rtc) n, de_filename := name\<rparr>"
  have t1: "tidy c_locale (dir_content (pview med p1) p1 area) items tail" using t taken(7) by simp
  have fits1: "name_fits (trim_name (de_filename ?entry))" and pl: "plain_entry (de_entryData ?entry)"
    using fits plain_new_dir by simp_all
  from inv1 taken(4) m t1 fits1 pl show ?thesis
  proof (cases rule: addEntry_spec)
    case (refused entry' p2 area2 tail2)
    have "make_directory c_locale malloc rtc (area_start area) name p = Some (Some ENOSPC, p2)"
      using taken(1) v1 refused(1) by (simp add: make_directory_def)
    moreover have "directory_refused med xs ys p area (trim_name name) (listing c_locale items) p2"
      unfolding directory_refused_def
      using dir_evolvesD(1,3) [OF refused(2)] same_volume_trans [OF sv1 dir_evolvesD(2) [OF refused(2)]] refused(3,4) taken(3)
      by (intro exI [of _ area2] exI [of _ "[[n]]"] exI [of _ items] exI [of _ tail2]) simp
    ultimately show ?thesis by simp
  next
    case (created entry' p2 area2 items2 tail2 l1 e l2 al)
    note inv2 = dir_evolvesD(1) [OF created(2)] and sv12 = dir_evolvesD(2) [OF created(2)]
    note sv2 = same_volume_trans [OF sv1 sv12] and ok2 = dir_invD(1) [OF inv2]
    have v2: "FAT_fat_isValidCluster p2 n" using taken(2) same_volumeD(11) [OF sv2] by simp
    have f2: "forest (fat_table med p2) (FAT_fat_isValidCluster p2) ([n] # xs @ area_chains area2 @ ys)"
      using dir_invD(2) [OF inv2] by simp
    have sub: "dir_inv med [] (xs @ area_chains area2 @ ys) p2 (Chain [n])"
      using forestD(1,2) [OF f2, of "[n]"] f2 ok2 area_okD(1) [OF ok2]
      by (simp add: dir_inv_def area_ok_def file_chain_def area_chains_def)
    have out: "n \<notin> set (concat (area_chains area2))" using forestD(3) [OF f2] by simp
    have beside: "\<not> in_cluster p n (pos_sector p (slot_at p area2 i))" if "i < slot_count p area2" for i
      using area_beside_cluster [OF ok2 v2 out, of i] that vol_same [OF sv2] same_volumeD(13) [OF sv2] by simp
    have frame2: "pview med p2 t = pview med p1 t" if "\<not> in_table p t" "t \<notin> area_secs p area2" for t
      using dir_evolvesD(4) [OF created(2), of t] that same_volumeD(12) [OF sv1] vol_same(7) [OF sv1] by simp
    have z: "\<forall>t. in_cluster p2 n t \<longrightarrow> pview med p2 t = replicate (bps p2) 0"
    proof (intro allI impI)
      fix t assume "in_cluster p2 n t"
      then have c: "in_cluster p n t" using same_volumeD(13) [OF sv2] by simp
      then have "\<not> in_table p t"
        using cluster_not_in_table [OF area_okD(3) [OF dir_invD(1) [OF inv]] taken(2)] by (simp add: in_table_def)
      moreover have "t \<notin> area_secs p area2" using beside c by (auto simp: area_secs_def)
      ultimately show "pview med p2 t = replicate (bps p2) 0" using frame2 taken(8) c same_volumeD(1) [OF sv2] by simp
    qed
    have two2: "64 \<le> bps p2" using two same_volumeD(1) [OF sv2] by simp
    let ?d2 = "dotdot_data p n (area_start area)"
    obtain p3 p4 zs where w: "on_cache (\<lambda>c. FAT_cache_eraseWritePartialSector c (dot_data n) (FAT_fat_clusterToSector p2 n) 0 DIR_ENTRY_DATA_SIZE) p2 = Some (True, p3)"
      "on_cache (\<lambda>c. FAT_cache_writePartialSector c ?d2 (FAT_fat_clusterToSector p3 n) DIR_ENTRY_DATA_SIZE DIR_ENTRY_DATA_SIZE) p3 = Some (True, p4)"
      "dir_step med (Chain [n]) p2 p3" "dir_step med (Chain [n]) p2 p4"
      "dir_content (pview med p4) p4 (Chain [n]) = (slot_at p2 (Chain [n]) 0, dot_data n) # (slot_at p2 (Chain [n]) 1, ?d2) # zs"
      "\<forall>x \<in> set zs. snd x = replicate 32 0"
      by (rule write_dots [OF sub two2 dot_data_facts(1) dotdot_data_facts(1) z])
    have dd: "dotdot_data p3 n (area_start area) = ?d2"
      using same_partD(5) [OF dir_stepD(2) [OF w(3)]] vol_same(10) [OF sv2] by (simp add: dotdot_data_def)
    obtain p5 where p5: "flush_partition p4 = (True, p5)" "pkept med p4 p5" "med (c_medium (p_cache p5)) = pview med p5"
      by (rule flush_part [OF dir_stepD(1) [OF w(4)]])
    have run: "make_directory c_locale malloc rtc (area_start area) name p = Some (None, p5)"
      unfolding make_directory_def taken(1) bind.bind_lunit prod.case Let_def
      using v1 created(1) w(1) w(2) [folded dd] p5(1) by simp
    have st: "dir_step med (Chain [n]) p2 p5" by (rule dir_step_trans [OF w(4) dir_step_kept [OF p5(2)]])
    note sv25 = same_volume_part [OF dir_stepD(2) [OF st]]
    note sv5 = same_volume_trans [OF sv2 sv25]
    have in_n: "in_cluster p n t" if t: "t \<in> area_secs p (Chain [n])" for t
    proof -
      have "t \<in> area_secs p2 (Chain [n])" using t vol_same(7) [OF sv2] by simp
      then obtain i where "i < slot_count p2 (Chain [n])" "t = pos_sector p2 (slot_at p2 (Chain [n]) i)" by (auto simp: area_secs_def)
      then show ?thesis using slot_in_clusters [OF dir_invD(1) [OF sub]] same_volumeD(13) [OF sv2] by auto
    qed
    have rest: "pview med p5 t = pview med p2 t" if "\<not> in_cluster p n t" for t
      using dir_stepD(3) [OF st, of t] in_n that vol_same(7) [OF sv2] by auto
    have f5: "forest (fat_table med p5) (FAT_fat_isValidCluster p2) (([n] # xs) @ area_chains area2 @ ys)"
      using f2 dir_step_table(1) [OF dir_invD(1) [OF sub] st] by simp
    have "pview med p5 (pos_sector p2 (slot_at p2 area2 i)) = pview med p2 (pos_sector p2 (slot_at p2 area2 i))"
      if "i < slot_count p2 area2" for i
      using rest beside [of i] that vol_same [OF sv2] by simp
    note b = beside_directory [OF inv2 dir_stepD(1) [OF st] sv25 f5 this]
    have "dir_entries c_locale med p5 (Chain [n]) =
        Some [dot_entry (slot_at p (Chain [n]) 0) [CH_DOT] (dot_data n), dot_entry (slot_at p (Chain [n]) 1) [CH_DOT, CH_DOT] ?d2]"
    proof -
      let ?s = "slot_at p (Chain [n])"
      have "\<not> dot_data n ! 1 = CH_DOT" using dot_data_facts(3) [of n] by simp
      note dots = dots_tidy [OF dot_data_facts(2) this dot_data_facts(4) dotdot_data_facts(2,3,4) w(6),
          of c_locale "?s 0" "?s 1" p n "area_start area"]
      have "dir_content (pview med p5) p5 (Chain [n]) = (?s 0, dot_data n) # (?s 1, ?d2) # zs"
        using w(5) vol_same(3) [OF sv2] by (simp only: dir_content_kept [OF p5(2)])
      then show ?thesis using tidy_entries [OF dots(1)] dots(2) by (simp add: dir_entries_def)
    qed
    moreover have "\<forall>t. \<not> in_table p t \<longrightarrow> t \<notin> area_secs p area2 \<longrightarrow> \<not> in_cluster p n t \<longrightarrow> pview med p5 t = pview med p t"
      using rest frame2 taken(8) by simp
    moreover have "tidy c_locale (dir_content (pview med p5) p5 area2) items2 tail2" using created(3) b(2) by simp
    moreover have "de_filename e = trim_name name" "de_entryData e = short_data al (put_cluster (new_dir_data rtc) n)"
      "fresh_alias (trim_name name) (listing c_locale items) al"
      using created(4,6,8) by (simp_all add: made_entry_def)
    ultimately have "directory_made med xs ys rtc p area (trim_name name) (listing c_locale items) p5"
      unfolding directory_made_def
      using taken(3) sv5 dir_evolvesD(3) [OF created(2)] b(1) created(4,5) p5(3)
      by (intro exI [of _ n] exI [of _ area2] exI [of _ items2] exI [of _ tail2] exI [of _ l1] exI [of _ l2] exI [of _ e] exI [of _ al]) simp
    then show ?thesis using run by simp
  qed
qed

section \<open>The directory a new name goes to\<close>

definition parent_at :: "'d partition \<Rightarrow> (u32 \<Rightarrow> dir_entry list option) \<Rightarrow> u8 list \<Rightarrow> u32 \<Rightarrow> u8 list \<Rightarrow> bool" where
  "parent_at p dirs path c name \<longleftrightarrow>
    (case last_separator path of
       None \<Rightarrow> c = p_cwdCluster p \<and> name = path
     | Some k \<Rightarrow> name = drop (k + 1) path \<and>
         (case resolve_path p dirs path k of
            Some (Some e) \<Rightarrow> FAT_directory_isDirectory e \<and> FAT_directory_entryGetCluster p (de_entryData e) = c
          | _ \<Rightarrow> False))"

lemma last_separator_at:
  assumes "last_separator path = Some k"
  shows "k < length path" and "path ! k = DIR_SEPARATOR"
proof -
  define m where "m = length (takeWhile (\<lambda>c. c \<noteq> DIR_SEPARATOR) (rev path))"
  have sep: "DIR_SEPARATOR \<in> set path" and k: "k = length path - 1 - m"
    using assms by (auto simp: last_separator_def m_def split: if_splits)
  have "\<exists>x \<in> set xs. x = DIR_SEPARATOR \<Longrightarrow> length (takeWhile (\<lambda>c. c \<noteq> DIR_SEPARATOR) xs) < length xs" for xs
    by (induction xs) auto
  from this [of "rev path"] have "m < length (rev path)" using sep by (simp add: m_def)
  moreover have "rev path ! m = DIR_SEPARATOR"
    using nth_length_takeWhile [of "\<lambda>c. c \<noteq> DIR_SEPARATOR" "rev path"] calculation by (simp add: m_def)
  ultimately show "k < length path" "path ! k = DIR_SEPARATOR" by (simp_all add: k rev_nth)
qed

lemma parent_of_spec:
  assumes ok: "part_ok med p" and d: "dirs_ok med p dirs" and path: "0 \<notin> set path" "length path < PATH_MAX"
    and par: "parent_at p dirs path c name"
  obtains p' where "parent_of c_locale p path = Some (Some (c, name), p')" and "pkept med p p'"
proof (cases "last_separator path")
  case None
  then show ?thesis using that [of p] par pkept_refl [OF ok] by (simp add: parent_of_def parent_at_def)
next
  case (Some k)
  obtain e where e: "resolve_path p dirs path k = Some (Some e)" "FAT_directory_isDirectory e"
    "FAT_directory_entryGetCluster p (de_entryData e) = c" "name = drop (k + 1) path"
    using par Some by (auto simp: parent_at_def split: option.splits)
  have k: "k \<le> length path" "k < length path \<Longrightarrow> path ! k = DIR_SEPARATOR" using last_separator_at [OF Some] by simp_all
  obtain x p' where x: "FAT_directory_entryFromPath c_locale p blank_entry path (Some k) = Some (x, p')" "pkept med p p'" "walk_result (Some e) x"
    by (rule path_walk [OF ok d path(1) short_path [OF path(2)] k e(1), where pathEnd = "Some k" and entry = blank_entry]) simp_all
  have "parent_of c_locale p path = Some (Some (c, name), p')"
    using Some x(1,3) e(2-4) getCluster_kept [OF x(2)] by (simp add: parent_of_def)
  then show ?thesis using that x(2) by blast
qed

section \<open>The call\<close>

lemma directory_made_kept:
  assumes k: "pkept med p q" and g: "directory_made med xs ys rtc q area name es p'"
  shows "directory_made med xs ys rtc p area name es p'"
proof -
  note sv = same_volume_part [OF pkeptD(2) [OF k]]
  have dd: "dotdot_data q = dotdot_data p" using vol_same(10) [OF sv] by (simp add: fun_eq_iff dotdot_data_def)
  show ?thesis
    using g unfolding directory_made_def dd pkept_table [OF k] pkeptD(3) [OF k] same_volumeD(12,13) [OF sv] vol_same(3,7) [OF sv]
    by (elim ex_forward) (auto intro: same_volume_trans [OF sv])
qed

lemma directory_refused_kept:
  assumes k: "pkept med p q" and g: "directory_refused med xs ys q area name es p'"
  shows "directory_refused med xs ys p area name es p'"
proof -
  note sv = same_volume_part [OF pkeptD(2) [OF k]]
  show ?thesis
    using g unfolding directory_refused_def pkept_table [OF k] full_kept [OF k]
    by (elim ex_forward) (auto intro: same_volume_trans [OF sv])
qed

lemma resolve_kept: "pkept med p q \<Longrightarrow> resolve_path q = resolve_path p"
  using same_partD [of p q] pkeptD(2) [of med p q] by (simp add: fun_eq_iff resolve_path_def Let_def path_kept)

lemma parent_kept:
  assumes k: "pkept med p q"
  shows "parent_at q = parent_at p"
  using same_partD(13) [OF pkeptD(2) [OF k]]
  by (simp add: fun_eq_iff parent_at_def resolve_kept [OF k] getCluster_kept [OF k] split: option.split)

lemma mkdir_spec:
  fixes p :: "'d partition"
  assumes inv: "dir_inv med xs ys p area" and ff: "may_allocate p" and m: "malloc_ok malloc" and two: "64 \<le> bps p"
    and t: "tidy c_locale (dir_content (pview med p) p area) items tail" and wr: "\<not> p_readOnly p"
    and path: "strip_device given = Some path" "0 \<notin> set path" "length path < PATH_MAX - 1"
    and d: "dirs_ok med p dirs" and res: "resolve_path p dirs path (length path) = Some None"
    and par: "parent_at p dirs path (area_start area) name" and fits: "name_fits (trim_name name)"
  shows "\<exists>r p'. FAT_mkdir_r c_locale malloc rtc True given p = Some (r, p') \<and>
    (if r = None then directory_made med xs ys rtc p area (trim_name name) (listing c_locale items) p'
     else r = Some ENOSPC \<and> directory_refused med xs ys p area (trim_name name) (listing c_locale items) p')"
proof -
  note ok = area_okD(2) [OF dir_invD(1) [OF inv]]
  have len: "length path < PATH_MAX" using path(3) by simp
  obtain x p1 where x: "FAT_directory_entryFromPath c_locale p blank_entry path None = Some (x, p1)" "pkept med p p1" "walk_result None x"
    by (rule path_walk [OF ok d path(2) short_path [OF len] order_refl _ res, where pathEnd = None and entry = blank_entry]) simp_all
  obtain p2 where p2: "parent_of c_locale p1 path = Some (Some (area_start area, name), p2)" "pkept med p1 p2"
    by (rule parent_of_spec [OF pkeptD(1) [OF x(2)] dirs_kept [OF x(2) d] path(2) len par [folded parent_kept [OF x(2)]]])
  note k2 = pkept_trans [OF x(2) p2(2)] and sp2 = same_partD [OF pkeptD(2) [OF k2]]
  have short: "\<not> PATH_MAX - 1 \<le> length name"
    using path(3) par by (auto simp: parent_at_def split: option.splits)
  have run: "FAT_mkdir_r c_locale malloc rtc True given p = make_directory c_locale malloc rtc (area_start area) name p2"
    using x(1,3) p2(1) wr same_partD(16) [OF pkeptD(2) [OF x(2)]] short by (cases x) (simp add: FAT_mkdir_r_def path(1))
  have inv2: "dir_inv med xs ys p2 area" by (rule dir_evolvesD(1) [OF dir_evolves_kept [OF inv k2]])
  have t2: "tidy c_locale (dir_content (pview med p2) p2 area) items tail" using t by (simp only: dir_content_kept [OF k2])
  have ff2: "may_allocate p2" using ff by (simp add: may_allocate_def sp2)
  have two2: "64 \<le> bps p2" using two by (simp add: sp2)
  obtain r p' where r: "make_directory c_locale malloc rtc (area_start area) name p2 = Some (r, p')"
    "if r = None then directory_made med xs ys rtc p2 area (trim_name name) (listing c_locale items) p'
     else r = Some ENOSPC \<and> directory_refused med xs ys p2 area (trim_name name) (listing c_locale items) p'"
    using make_directory_spec [OF inv2 ff2 m two2 t2 fits, of rtc] by blast
  show ?thesis
    using r directory_made_kept [OF k2] directory_refused_kept [OF k2] unfolding run by (cases r) auto
qed

end
