(* ===== verification/FileNew.thy ===== *)
theory FileNew
  imports FileOpen DirMake
begin

text \<open>
  Opening a name that is not there with \<open>O_CREAT\<close>: the directory lists the new name, and an empty file for it is
  put in front of the list of open files.
\<close>

section \<open>The entry of a new file\<close>

lemma create_file_parent:
  "create_file env malloc rtc p path =
    do {
      (r, p) \<leftarrow> parent_of env p path;
      (case r of None \<Rightarrow> Some (Inl ENOTDIR, p)
       | Some (dirCluster, name) \<Rightarrow>
           if PATH_MAX - 1 \<le> length name then None
           else do {
             ((ok, entry), p) \<leftarrow> FAT_directory_addEntry env malloc p (new_file_entry rtc name) dirCluster;
             Some (if ok then Inr entry else Inl ENOSPC, p)
           })
    }"
  by (auto simp: create_file_def parent_of_def split: option.split Option.bind_split)

lemma new_file_data:
  fixes rtc :: "tm option option" and name al :: "u8 list"
  defines "d \<equiv> de_entryData (new_file_entry rtc name)"
  shows "plain_entry d" and "FAT_directory_entryGetCluster p (short_data al d) = CLUSTER_FREE"
    and "u8array_to_u32 (short_data al d) DIR_ENTRY_fileSize = 0" and "short_data al d ! DIR_ENTRY_attributes = 0"
proof -
  have len: "length d = 32" by (simp add: d_def new_file_entry_def Let_def)
  have z: "d ! i = 0" if "i < 14 \<or> 18 \<le> i" "i < 32" for i
    using that by (auto simp: d_def new_file_entry_def Let_def mem_simps)
  show pl: "plain_entry d" using len z [of 11] z [of 12] by (simp add: plain_entry_def)
  have s: "short_data al d ! (11 + k) = 0" if "k < 3 \<or> 7 \<le> k" "k < 21" for k
    using short_data_facts(2) [OF pl that(2)] z [of "11 + k"] that by auto
  show "u8array_to_u32 (short_data al d) DIR_ENTRY_fileSize = 0"
    using s [of 17] s [of 18] s [of 19] s [of 20] by (simp add: u8array_to_u32_def)
  show "FAT_directory_entryGetCluster p (short_data al d) = CLUSTER_FREE"
    using s [of 15] s [of 16] s [of 9] s [of 10] by (simp add: FAT_directory_entryGetCluster_def u8array_to_u16_def CLUSTER_FREE_def)
  show "short_data al d ! DIR_ENTRY_attributes = 0" using s [of 0] by simp
qed

section \<open>Opening\<close>

definition fresh_file :: "dir_entry \<Rightarrow> bool \<Rightarrow> bool \<Rightarrow> bool \<Rightarrow> file_struct" where
  "fresh_file e rd wr app =
    \<lparr>f_filesize = 0, f_startCluster = CLUSTER_FREE, f_currentPosition = 0,
     f_rwPosition = \<lparr>fp_cluster = CLUSTER_FREE, fp_sector = 0, fp_byte = 0\<rparr>,
     f_appendPosition = \<lparr>fp_cluster = CLUSTER_FREE, fp_sector = 0, fp_byte = 0\<rparr>,
     f_dirEntryStart = de_dataStart e, f_dirEntryEnd = de_dataEnd e, f_prevOpenFile = None, f_nextOpenFile = None,
     f_read = rd, f_write = wr, f_append = app, f_inUse = True, f_modified = True\<rparr>"

lemma open_entry_new:
  assumes ok: "volume_ok med p" and c: "FAT_directory_entryGetCluster p (de_entryData e) = CLUSTER_FREE"
    and sz: "u8array_to_u32 (de_entryData e) DIR_ENTRY_fileSize = 0"
  shows "open_entry p e flags rd wr True = Some (fresh_file e rd wr (flags AND O_APPEND \<noteq> 0), p)"
proof -
  have nz: "p_bytesPerCluster p \<noteq> 0" "p_bytesPerSector p \<noteq> 0"
    using volume_okD(4,6) [OF ok] by (auto simp: word_eq_iff_unat_eq)
  have nt: "(flags AND O_TRUNC \<noteq> 0 \<and> wr \<and> CLUSTER_FREE \<noteq> 0) = False" by (simp add: CLUSTER_FREE_def)
  have "FAT_fat_lastCluster p CLUSTER_FREE = Some (CLUSTER_FREE, p)"
    by (subst FAT_fat_lastCluster.simps) (simp add: FAT_fat_nextCluster_def)
  then show ?thesis
    using nz unfolding open_entry_def c sz Let_def nt by (simp add: fresh_file_def)
qed

text \<open>A new name in the directory, or why there is none.\<close>

definition file_created ::
    "('d \<Rightarrow> sec_t \<Rightarrow> u8 list) \<Rightarrow> u32 list list \<Rightarrow> u32 list list \<Rightarrow> 'd partition \<Rightarrow> dir_area \<Rightarrow> u8 list \<Rightarrow> dir_entry list
      \<Rightarrow> dir_entry \<Rightarrow> 'd partition \<Rightarrow> bool" where
  "file_created med xs ys p area name es e p' \<longleftrightarrow>
    (\<exists>area' items tail l1 l2. dir_evolves med xs ys p area p' area' \<and>
       tidy c_locale (dir_content (pview med p') p' area') items tail \<and> es = l1 @ l2 \<and> listing c_locale items = l1 @ e # l2 \<and>
       de_filename e = name)"

definition file_refused ::
    "('d \<Rightarrow> sec_t \<Rightarrow> u8 list) \<Rightarrow> u32 list list \<Rightarrow> u32 list list \<Rightarrow> 'd partition \<Rightarrow> dir_area \<Rightarrow> u8 list \<Rightarrow> dir_entry list
      \<Rightarrow> 'd partition \<Rightarrow> bool" where
  "file_refused med xs ys p area name es p' \<longleftrightarrow>
    (\<exists>area' items tail. dir_evolves med xs ys p area p' area' \<and>
       tidy c_locale (dir_content (pview med p') p' area') items tail \<and> listing c_locale items = es \<and>
       (name_taken name es \<or> tails_used name es \<or> no_room med p' area'))"

lemma evolves_kept:
  assumes inv: "dir_inv med xs ys p area" and k: "pkept med p q" and e: "dir_evolves med xs ys q area r area'"
  shows "dir_evolves med xs ys p area r area'"
  by (rule dir_evolves_trans [OF dir_evolves_kept [OF inv k] e])

lemma same_volume_files:
  assumes "same_volume p q"
  shows "p_firstOpenFile q = p_firstOpenFile p" and "p_openFileCount q = p_openFileCount p"
  using assms by (auto simp: same_volume_def)

lemma files_same_volume: "same_volume (fs_part s) q \<Longrightarrow> files_ok s as \<Longrightarrow> files_ok (s\<lparr>fs_part := q\<rparr>) as"
  using same_volume_files [of "fs_part s" q] by (simp add: files_ok_def)

lemma open_created_spec:
  fixes s :: "'d fs"
  assumes inv: "dir_inv med xs ys (fs_part s) area" and ff: "may_allocate (fs_part s)" and m: "malloc_ok malloc"
    and t: "tidy c_locale (dir_content (pview med (fs_part s)) (fs_part s) area) items tail"
    and path: "strip_device given = Some path" "0 \<notin> set path" "length path < PATH_MAX - 1"
    and d: "dirs_ok med (fs_part s) dirs" and res: "resolve_path (fs_part s) dirs path (length path) = Some None"
    and par: "parent_at (fs_part s) dirs path (area_start area) name" and fits: "name_fits (trim_name name)"
    and err: "open_error (p_readOnly (fs_part s)) flags None = None" and mode: "access_mode flags = Some (rd, wr)"
    and files: "files_ok s as" and new: "a \<notin> set as"
  shows "\<exists>r s'. FAT_open_r c_locale malloc rtc True a given flags s = Some (r, s') \<and>
    (case r of
       Inr b \<Rightarrow> b = a \<and> files_ok s' (a # as) \<and> (\<exists>e p'. relisted p' (fs_part s') \<and>
         file_created med xs ys (fs_part s) area (trim_name name) (listing c_locale items) e p' \<and>
         fs_files s' a = Some ((fresh_file e rd wr (flags AND O_APPEND \<noteq> 0))\<lparr>f_nextOpenFile := p_firstOpenFile (fs_part s)\<rparr>))
     | Inl e \<Rightarrow> e = ENOSPC \<and> files_ok s' as \<and>
         file_refused med xs ys (fs_part s) area (trim_name name) (listing c_locale items) (fs_part s'))"
proof -
  let ?p = "fs_part s" and ?d = "de_entryData (new_file_entry rtc name)"
  note ok = area_okD(2) [OF dir_invD(1) [OF inv]]
  have len: "length path < PATH_MAX" using path(3) by simp
  obtain x p1 where x: "FAT_directory_entryFromPath c_locale ?p blank_entry path None = Some ((None \<noteq> (None :: dir_entry option), x), p1)"
    "None \<noteq> (None :: dir_entry option) \<longrightarrow> None = Some x" "pkept med ?p p1"
    by (rule open_walk [OF ok d path(2) _ res]) (use short_path [OF len, of "length path"] in simp)
  obtain p2 where p2: "parent_of c_locale p1 path = Some (Some (area_start area, name), p2)" "pkept med p1 p2"
    by (rule parent_of_spec [OF pkeptD(1) [OF x(3)] dirs_kept [OF x(3) d] path(2) len par [folded parent_kept [OF x(3)]]])
  note k2 = pkept_trans [OF x(3) p2(2)]
  note sp1 = same_partD [OF pkeptD(2) [OF x(3)]] and sp2 = same_partD [OF pkeptD(2) [OF k2]]
  have short: "\<not> PATH_MAX - 1 \<le> length name" using path(3) par by (auto simp: parent_at_def split: option.splits)
  have create: "create_file c_locale malloc rtc p1 path = do {
      ((ok, entry), p) \<leftarrow> FAT_directory_addEntry c_locale malloc p2 (new_file_entry rtc name) (area_start area);
      Some (if ok then Inr entry else Inl ENOSPC, p) }"
    unfolding create_file_parent p2(1) using short by simp
  have flags: "flags AND O_CREAT \<noteq> 0" "\<not> p_readOnly ?p"
    using err mode by (auto simp: open_error_def split: if_splits)
  have inv2: "dir_inv med xs ys p2 area" by (rule dir_evolvesD(1) [OF dir_evolves_kept [OF inv k2]])
  have t2: "tidy c_locale (dir_content (pview med p2) p2 area) items tail" using t by (simp only: dir_content_kept [OF k2])
  have ff2: "may_allocate p2" using ff by (simp add: may_allocate_def sp2)
  have fits2: "name_fits (trim_name (de_filename (new_file_entry rtc name)))" using fits by (simp add: new_file_entry_def Let_def)
  have nm: "de_filename (new_file_entry rtc name) = name" by (simp add: new_file_entry_def Let_def)
  from inv2 ff2 m t2 fits2 new_file_data(1) show ?thesis
  proof (cases rule: addEntry_spec)
    case (refused entry' p3 area3 tail3)
    have "FAT_open_r c_locale malloc rtc True a given flags s = Some (Inl ENOSPC, s\<lparr>fs_part := p3\<rparr>)"
      using x(1) flags refused(1) create mode by (simp add: FAT_open_r_def path(1) sp1)
    moreover have "files_ok (s\<lparr>fs_part := p3\<rparr>) as"
      by (rule files_same_volume [OF dir_evolvesD(2) [OF evolves_kept [OF inv k2 refused(2)]] files])
    moreover have "file_refused med xs ys ?p area (trim_name name) (listing c_locale items) p3"
      unfolding file_refused_def using evolves_kept [OF inv k2 refused(2)] refused(3,4) nm by auto
    ultimately show ?thesis by (intro exI [of _ "Inl ENOSPC"] exI [of _ "s\<lparr>fs_part := p3\<rparr>"]) simp
  next
    case (created entry' p3 area3 items3 tail3 l1 e l2 al)
    note ev = evolves_kept [OF inv k2 created(2)]
    have e: "de_filename e = trim_name name" "de_entryData entry' = short_data al ?d"
      "de_dataStart e = de_dataStart entry'" "de_dataEnd e = de_dataEnd entry'"
      using created(6) nm by (simp_all add: made_entry_def)
    let ?app = "flags AND O_APPEND \<noteq> 0"
    have "open_entry p3 entry' flags rd wr True = Some (fresh_file entry' rd wr ?app, p3)"
      by (rule open_entry_new [OF area_okD(1) [OF dir_invD(1) [OF dir_evolvesD(1) [OF ev]]]]) (simp_all add: e(2) new_file_data)
    then have opened: "open_entry p3 entry' flags rd wr True = Some (fresh_file e rd wr ?app, p3)"
      using e(3,4) by (simp add: fresh_file_def)
    have writable: "FAT_directory_isWritable entry'"
      by (simp add: FAT_directory_isWritable_def e(2) new_file_data(4))
    define fl where "fl = fresh_file e rd wr ?app"
    have "files_ok (s\<lparr>fs_part := p3\<rparr>) as" by (rule files_same_volume [OF dir_evolvesD(2) [OF ev] files])
    moreover have "f_inUse fl" by (simp add: fl_def fresh_file_def)
    ultimately obtain s' where s': "link_file a fl (s\<lparr>fs_part := p3\<rparr>) = Some s'" "files_ok s' (a # as)"
      "fs_part s' = p3\<lparr>p_openFileCount := p_openFileCount p3 + 1, p_firstOpenFile := Some a\<rparr>"
      "fs_files s' a = Some (fl\<lparr>f_nextOpenFile := p_firstOpenFile p3, f_prevOpenFile := None\<rparr>)"
      by (rule link_file_spec [OF _ new]) simp
    have "FAT_open_r c_locale malloc rtc True a given flags s = Some (Inr a, s')"
      using x(1) flags created(1) create mode writable opened [folded fl_def] s'(1) by (simp add: FAT_open_r_def path(1) sp1)
    moreover have "file_created med xs ys ?p area (trim_name name) (listing c_locale items) e p3"
      unfolding file_created_def using ev created(3-5) e(1) by blast
    moreover have "relisted p3 (fs_part s')" using s'(3) unfolding relisted_def by blast
    moreover have "fs_files s' a = Some ((fresh_file e rd wr ?app)\<lparr>f_nextOpenFile := p_firstOpenFile ?p\<rparr>)"
      using s'(4) same_volume_files(1) [OF dir_evolvesD(2) [OF ev]] by (simp add: fl_def fresh_file_def)
    ultimately show ?thesis using s'(2) by (intro exI [of _ "Inr a"] exI [of _ s']) auto
  qed
qed

end
