(* ===== verification/FileReopen.thy ===== *)
theory FileReopen
  imports FileLife FileOpen WriteTheorems FileNew
begin

text \<open>
  A file over its life: what is written to an open file is read after the file has been closed and opened again by its path.
  The write leaves the directories alone, the close changes the one entry of the file, and the path still leads to that entry.
\<close>

section \<open>Directories and chains side by side\<close>

text \<open>The directories by their first cluster, in chains out of \<open>css\<close>.\<close>

definition dirs_in :: "('d \<Rightarrow> sec_t \<Rightarrow> u8 list) \<Rightarrow> u32 list list \<Rightarrow> 'd partition \<Rightarrow> (u32 \<Rightarrow> dir_entry list option) \<Rightarrow> bool" where
  "dirs_in med css p dirs \<longleftrightarrow> (\<forall>c es. dirs c = Some es \<longrightarrow>
     (\<exists>area. area_ok med p area \<and> area_start area = c \<and> dir_entries c_locale med p area = Some es \<and> set (area_chains area) \<subseteq> set css))"

lemma dirs_inE:
  assumes "dirs_in med css p dirs" and "dirs c = Some es"
  obtains area where "area_ok med p area" and "area_start area = c" and "dir_entries c_locale med p area = Some es"
    and "set (area_chains area) \<subseteq> set css"
  using assms unfolding dirs_in_def by blast

lemma dirs_in_ok: "dirs_in med css p dirs \<Longrightarrow> dirs_ok med p dirs"
  unfolding dirs_in_def dirs_ok_def by blast

lemma same_content:
  assumes "slot_at p' = slot_at p" "slot_count p' = slot_count p" "pos_sector p' = pos_sector p"
    and "\<And>i. i < slot_count p area \<Longrightarrow> v' (pos_sector p (slot_at p area i)) = v (pos_sector p (slot_at p area i))"
  shows "dir_content v' p' area = dir_content v p area"
  using assms by (auto simp: dir_content_def slot_bytes_def)

text \<open>Chains of a forest that share a cluster are the same.\<close>

lemma concat_other:
  assumes "distinct (concat css)" and "as \<in> set css" and "bs \<in> set css" and "as \<noteq> bs"
  shows "set as \<inter> set bs = {}"
  using assms by (auto simp: distinct_concat_iff)

lemma area_apart:
  assumes a: "area_ok med p a" and b: "area_ok med p b" and f: "forest t V css"
    and ca: "set (area_chains a) \<subseteq> set css" and cb: "set (area_chains b) \<subseteq> set css" and ne: "a \<noteq> b"
  shows "area_secs p a \<inter> area_secs p b = {}"
proof -
  have one: "pos_sector p (slot_at p a' i) \<noteq> pos_sector p (slot_at p (Chain zs) j)"
    if ok: "area_ok med p a'" "area_ok med p (Chain zs)" "set (area_chains a') \<subseteq> set css" "zs \<in> set css" "a' \<noteq> Chain zs"
      and ij: "i < slot_count p a'" "j < slot_count p (Chain zs)" for a' zs i j
  proof -
    obtain c where c: "c \<in> set zs" "in_cluster p c (pos_sector p (slot_at p (Chain zs) j))"
      using slot_in_clusters [OF ok(2) ij(2)] by blast
    have v: "FAT_fat_isValidCluster p c" using c(1) file_chainD(8) [of med p zs c] ok(2) by (simp add: area_ok_def)
    have "c \<notin> set (concat (area_chains a'))"
    proof (cases a')
      case (Chain ys)
      then have "ys \<in> set css" "ys \<noteq> zs" using ok(3,5) by (auto simp: area_chains_def)
      then show ?thesis using concat_other [OF forestD(3) [OF f] _ ok(4)] c(1) by (auto simp: Chain area_chains_def)
    qed (simp add: area_chains_def)
    from area_beside_cluster [OF ok(1) v this ij(1)] c(2) show ?thesis by auto
  qed
  show ?thesis
  proof (cases b)
    case (Chain zs)
    have "zs \<in> set css" using cb by (simp add: Chain area_chains_def)
    from one [OF a b [unfolded Chain] ca this ne [unfolded Chain]] show ?thesis by (auto simp: area_secs_def Chain)
  next
    case Root
    obtain zs where zs: "a = Chain zs" using ne Root by (cases a) auto
    have "zs \<in> set css" using ca by (simp add: zs area_chains_def)
    from one [OF b a [unfolded zs] cb this] ne show ?thesis by (auto simp: area_secs_def zs dest: not_sym)
  qed
qed

lemma area_by_start:
  assumes a: "area_ok med p a" and b: "area_ok med p b" and f: "forest t V css"
    and ca: "set (area_chains a) \<subseteq> set css" and cb: "set (area_chains b) \<subseteq> set css" and eq: "area_start a = area_start b"
  shows "a = b"
proof -
  have nz: "hd zs \<noteq> FAT16_ROOT_DIR_CLUSTER" if "area_ok med p (Chain zs)" for zs
  proof -
    have fc: "file_chain med p zs" using that by (simp add: area_ok_def)
    have "FAT_fat_isValidCluster p (hd zs)" by (rule file_chainD(8) [OF fc]) (simp add: file_chainD(6) [OF fc])
    then show ?thesis by (auto simp: FAT_fat_isValidCluster_def CLUSTER_FIRST_def FAT16_ROOT_DIR_CLUSTER_def)
  qed
  show ?thesis
  proof (cases a; cases b)
    fix as bs assume c: "a = Chain as" "b = Chain bs"
    have "as \<noteq> []" "bs \<noteq> []" using a b file_chainD(6) [of med p as] file_chainD(6) [of med p bs] by (auto simp: c area_ok_def)
    then have "hd as \<in> set as" "hd bs \<in> set bs" by simp_all
    then show ?thesis using concat_other [OF forestD(3) [OF f], of as bs] ca cb eq by (auto simp: c area_chains_def area_start_def)
  qed (use a b eq nz in \<open>auto simp: area_start_def dest: not_sym\<close>)
qed

section \<open>What the write leaves alone\<close>

lemma growing_area:
  assumes g: "growing med p xs cs ys ds q" and ok: "area_ok med p area" and in_css: "set (area_chains area) \<subseteq> set (xs @ ys)"
  shows "area_ok med q area" and "dir_content (pview med q) q area = dir_content (pview med p) p area"
proof -
  note sv = growingD(3) [OF g] and vs = vol_same [OF growingD(3) [OF g]]
  have away: "c \<notin> set (concat (area_chains area))" if "c \<in> set ds" for c
  proof
    assume "c \<in> set (concat (area_chains area))"
    then obtain zs where zs: "zs \<in> set xs \<union> set ys" "c \<in> set zs" using in_css by auto
    then show False using forestD(3) [OF growingD(4) [OF g]] that by auto
  qed
  have view: "pview med q (pos_sector p (slot_at p area i)) = pview med p (pos_sector p (slot_at p area i))"
    if i: "i < slot_count p area" for i
    using growingD(5) [OF g] slot_sector(2) [OF ok i] area_beside_cluster [OF ok growingD(10) [OF g] away i]
    unfolding frame_def in_table_def by blast
  show "dir_content (pview med q) q area = dir_content (pview med p) p area"
    by (rule same_content [OF vs(3,2,4)]) (rule view)
  have reg: "fat_fatStart (p_fat q) = fat_fatStart (p_fat p)" "fat_sectorsPerFat (p_fat q) = fat_sectorsPerFat (p_fat p)"
    using vs(14) by (simp_all add: same_region_def)
  have "file_chain med q zs" if z: "area = Chain zs" for zs
    using forestD(1,2) [OF growingD(4) [OF g], of zs] in_css growingD(2) [OF g] same_volumeD(11) [OF sv]
    by (auto simp: z area_chains_def file_chain_def)
  then show "area_ok med q area"
    using ok growingD(2) [OF g] same_volumeD(1) [OF sv] vs(8-10) reg by (cases area) (simp_all add: area_ok_def)
qed

lemma growing_dirs:
  assumes g: "growing med p xs cs ys ds q" and d: "dirs_in med (xs @ ys) p dirs"
  shows "dirs_in med (xs @ ds # ys) q dirs"
  unfolding dirs_in_def
proof (intro allI impI)
  fix c es assume "dirs c = Some es"
  then obtain area where area: "area_ok med p area" "area_start area = c" "dir_entries c_locale med p area = Some es"
    "set (area_chains area) \<subseteq> set (xs @ ys)"
    by (rule dirs_inE [OF d])
  note q = growing_area [OF g area(1,4)]
  have "dir_entries c_locale med q area = Some es" using area(3) by (simp add: dir_entries_def q(2))
  then show "\<exists>area. area_ok med q area \<and> area_start area = c \<and> dir_entries c_locale med q area = Some es \<and>
      set (area_chains area) \<subseteq> set (xs @ ds # ys)"
    using q(1) area(2,4) by (intro exI [of _ area]) auto
qed

section \<open>What the close leaves alone\<close>

lemma step_area:
  assumes a: "area_ok med p a" and st: "dir_step med a p q" and b: "area_ok med p b" and apart: "area_secs p a \<inter> area_secs p b = {}"
  shows "area_ok med q b" and "dir_content (pview med q) q b = dir_content (pview med p) p b"
proof -
  note d = dir_stepD [OF st] and vs = area_same [OF dir_stepD(2) [OF st]]
  have "volume_ok med q" using area_okD(1) [OF dir_step_table(2) [OF a st]] .
  then show "area_ok med q b"
    using b dir_step_table(1) [OF a st] same_partD [OF d(2)] isValid_same [OF d(2)]
    by (cases b) (simp_all add: area_ok_def file_chain_def)
  have "pview med q (pos_sector p (slot_at p b i)) = pview med p (pos_sector p (slot_at p b i))" if "i < slot_count p b" for i
    using that apart by (intro d(3)) (auto simp: area_secs_def)
  then show "dir_content (pview med q) q b = dir_content (pview med p) p b"
    by (intro same_content) (simp_all add: vs)
qed

lemma step_chain:
  assumes a: "area_ok med p a" and st: "dir_step med a p q" and ds: "file_chain med p ds"
    and apart: "set ds \<inter> set (concat (area_chains a)) = {}"
  shows "file_chain med q ds" and "chain_bytes (pview med q) q ds = chain_bytes (pview med p) p ds"
proof -
  note d = dir_stepD [OF st] and fc = file_chainD [OF ds]
  have "volume_ok med q" using area_okD(1) [OF dir_step_table(2) [OF a st]] .
  then show "file_chain med q ds"
    using ds dir_step_table(1) [OF a st] isValid_same [OF d(2)] by (simp add: file_chain_def)
  have view: "pview med q t = pview med p t" if t: "t \<in> set (chain_sectors p ds)" for t
  proof -
    obtain c where c: "c \<in> set ds" "in_cluster p c t" using chain_sectors_cluster [OF fc(1) fc(8) t] by blast
    have "c \<notin> set (concat (area_chains a))" using c(1) apart by blast
    from area_beside_cluster [OF a fc(8) [OF c(1)] this] c(2) show ?thesis by (intro d(3)) (auto simp: area_secs_def)
  qed
  have "chain_bytes (pview med q) p ds = chain_bytes (pview med p) p ds" by (rule chain_bytes_cong) (rule view)
  then show "chain_bytes (pview med q) q ds = chain_bytes (pview med p) p ds"
    using volume_same(5) [OF d(2)] by simp
qed

section \<open>The entry of the file in the directories\<close>

lemma entry_place:
  assumes "dir_entries env med p area = Some es" and "e \<in> set es"
  obtains i where "i < slot_count p area" and "de_dataEnd e = slot_at p area i"
proof -
  obtain k where k: "k < length es" "e = es ! k" using assms(2) by (auto simp: in_set_conv_nth)
  obtain j where "j < slot_count p area" "de_dataEnd (es ! k) = fst (dir_content (pview med p) p area ! j)"
    using entries_of_at [OF assms(1) [unfolded dir_entries_def] k(1)] by auto
  then show thesis using that k(2) snd_nth_content(2) by metis
qed

lemma entries_distinct:
  assumes ok: "area_ok med p area" and es: "dir_entries env med p area = Some es"
  shows "distinct es"
proof -
  let ?c = "dir_content (pview med p) p area"
  have less: "es ! k \<noteq> es ! l" if kl: "k < l" "l < length es" for k l
  proof
    assume eq: "es ! k = es ! l"
    have "k < length es" using kl by simp
    then obtain i where i: "i < length ?c" "de_dataEnd (es ! k) = fst (?c ! i)" "entries_of env (drop (Suc i) ?c) = Some (drop (Suc k) es)"
      using entries_of_at [OF es [unfolded dir_entries_def]] by blast
    have "l - Suc k < length (drop (Suc k) es)" using kl by simp
    then obtain j where j: "j < length (drop (Suc i) ?c)" "de_dataEnd (drop (Suc k) es ! (l - Suc k)) = fst (drop (Suc i) ?c ! j)"
      using entries_of_at [OF i(3)] by blast
    have ij: "i < slot_count p area" "Suc i + j < slot_count p area" using i(1) j(1) by simp_all
    have "de_dataEnd (es ! l) = slot_at p area (Suc i + j)" "de_dataEnd (es ! k) = slot_at p area i"
      using i(2) j(2) kl ij by (simp_all add: nth_dir_content)
    then have "i = Suc i + j" using eq slot_at_inj [OF ok ij] by simp
    then show False by simp
  qed
  show ?thesis unfolding distinct_conv_nth
  proof (intro allI impI)
    fix i j assume "i < length es" "j < length es" "i \<noteq> j"
    then show "es ! i \<noteq> es ! j" using less [of i j] less [of j i] by (cases "i < j") auto
  qed
qed

text \<open>The same entry with other data, which bears the same names.\<close>

definition redated :: "dir_entry \<Rightarrow> u8 list \<Rightarrow> dir_entry \<Rightarrow> dir_entry" where
  "redated e d x = (if x = e then e\<lparr>de_entryData := d\<rparr> else x)"

lemma map_redated: "distinct es \<Longrightarrow> k < length es \<Longrightarrow> map (redated (es ! k) d) es = es[k := (es ! k)\<lparr>de_entryData := d\<rparr>]"
  by (rule nth_equalityI) (auto simp: redated_def nth_list_update nth_eq_iff_index_eq)

lemma map_redated_other: "e \<notin> set es \<Longrightarrow> map (redated e d) es = es"
  by (rule map_idI) (auto simp: redated_def)

lemma find_map: "find P (map f xs) = map_option f (find (P \<circ> f) xs)"
  by (induction xs) auto

lemma redated_walk:
  assumes same: "same_short_name (de_entryData e) d" and f: "\<not> FAT_directory_isDirectory e" "d ! DIR_ENTRY_attributes AND ATTRIB_DIR = 0"
  shows "path_step p (\<lambda>c. map_option (map (redated e d)) (dirs c)) c name md = map_option (map_option (redated e d)) (path_step p dirs c name md)"
    and "resolve_path p (\<lambda>c. map_option (map (redated e d)) (dirs c)) path k = map_option (map_option (redated e d)) (resolve_path p dirs path k)"
proof -
  let ?r = "redated e d" and ?dirs = "\<lambda>c. map_option (map (redated e d)) (dirs c)"
  have dir: "FAT_directory_isDirectory (?r x) \<longleftrightarrow> FAT_directory_isDirectory x" for x
    using f by (simp add: redated_def FAT_directory_isDirectory_def)
  have names: "carries n (?r x) \<longleftrightarrow> carries n x" for n x
    by (simp add: redated_def carries_def same_short_nameD(3) [OF same])
  have fix_dir: "?r x = x" if "FAT_directory_isDirectory x" for x using that f(1) by (auto simp: redated_def)
  note root = fix_dir [OF root_is_directory]
  have step: "path_step p ?dirs c name md = map_option (map_option ?r) (path_step p dirs c name md)" for c name md
    by (auto simp: path_step_def root option.map_comp find_map comp_def dir names intro!: option.map_cong)
  then show "path_step p ?dirs c name md = map_option (map_option ?r) (path_step p dirs c name md)" .
  have parts: "resolve_parts p ?dirs c ps md = map_option (map_option ?r) (resolve_parts p dirs c ps md)" for c ps md
  proof (induction ps arbitrary: c)
    case (Cons name ps)
    show ?case
    proof (cases ps)
      case parts: (Cons part more)
      show ?thesis
      proof (cases "path_step p dirs c name True")
        case (Some x)
        then show ?thesis using Cons.IH step_directory [of p dirs c name] fix_dir
          by (cases x) (auto simp: step parts)
      qed (simp add: step parts)
    qed (simp add: step)
  qed (simp add: step)
  have root_of: "root_of p (?r x) = ?r (root_of p x)" for x
    using f dir [of x] root_is_directory [of p] by (auto simp: root_of_def root fix_dir redated_def)
  show "resolve_path p ?dirs path k = map_option (map_option ?r) (resolve_path p dirs path k)"
    by (auto simp: resolve_path_def Let_def parts root root_of option.map_comp comp_def)
qed

text \<open>The directories after the synchronisation.\<close>

lemma synced_dirs:
  assumes d: "dirs_in med css p dirs" and f: "forest (fat_table med p) V css"
    and a: "area_ok med p area" "set (area_chains area) \<subseteq> set css" "dirs (area_start area) = Some es"
    and k: "k < length es" and st: "entry_synced med c_locale p area es k data q"
  shows "dirs_ok med q (\<lambda>c. map_option (map (redated (es ! k) data)) (dirs c))"
  unfolding dirs_ok_def
proof (intro allI impI)
  fix c fs assume fs: "map_option (map (redated (es ! k) data)) (dirs c) = Some fs"
  then obtain gs where gs: "dirs c = Some gs" "fs = map (redated (es ! k) data) gs" by auto
  have step: "dir_step med area p q" using st by (simp add: entry_synced_def)
  obtain b where b: "area_ok med p b" "area_start b = c" "dir_entries c_locale med p b = Some gs" "set (area_chains b) \<subseteq> set css"
    by (rule dirs_inE [OF d gs(1)])
  obtain a' where a': "area_ok med p a'" "area_start a' = area_start area" "dir_entries c_locale med p a' = Some es" "set (area_chains a') \<subseteq> set css"
    by (rule dirs_inE [OF d a(3)])
  have "a' = area" by (rule area_by_start [OF a'(1) a(1) f a'(4) a(2) a'(2)])
  note es = a'(3) [unfolded this]
  have "area_ok med q b \<and> dir_entries c_locale med q b = Some fs"
  proof (cases "b = area")
    case True
    have "gs = es" using b(2) gs(1) a(3) by (simp add: True)
    have "fs = es[k := (es ! k)\<lparr>de_entryData := data\<rparr>]"
      unfolding gs(2) \<open>gs = es\<close> by (rule map_redated [OF entries_distinct [OF a(1) es] k])
    then have "dir_entries c_locale med q area = Some fs"
      using st tidy_entries unfolding entry_synced_def dir_entries_def by fastforce
    then show ?thesis using dir_step_table(2) [OF a(1) step] by (simp add: True)
  next
    case False
    have apart: "area_secs p area \<inter> area_secs p b = {}" by (rule area_apart [OF a(1) b(1) f a(2) b(4) False [symmetric]])
    have "es ! k \<notin> set gs"
    proof
      assume "es ! k \<in> set gs"
      then obtain j where j: "j < slot_count p b" "de_dataEnd (es ! k) = slot_at p b j" by (rule entry_place [OF b(3)])
      obtain i where i: "i < slot_count p area" "de_dataEnd (es ! k) = slot_at p area i" by (rule entry_place [OF es nth_mem [OF k]])
      have "pos_sector p (de_dataEnd (es ! k)) \<in> area_secs p area \<inter> area_secs p b"
        using i(1) j(1) unfolding area_secs_def by (intro IntI image_eqI [where x = i] image_eqI [where x = j]) (simp_all add: i(2) j(2) [symmetric])
      then show False using apart by simp
    qed
    then have "fs = gs" unfolding gs(2) by (rule map_redated_other)
    then show ?thesis using step_area [OF a(1) step b(1) apart] b(3) by (simp add: dir_entries_def)
  qed
  then show "\<exists>area. area_ok med q area \<and> area_start area = c \<and> dir_entries c_locale med q area = Some fs" using b(2) by blast
qed

lemma resolve_same:
  assumes "p_filesysType q = p_filesysType p" "p_rootDirCluster q = p_rootDirCluster p" "p_cwdCluster q = p_cwdCluster p"
  shows "resolve_path q = resolve_path p"
  by (simp add: fun_eq_iff resolve_path_def Let_def path_same [OF assms(1,2)] assms)

section \<open>The structure of an open file\<close>

text \<open>Writing leaves its links and the place of its entry alone, and marks it as changed when something was written.\<close>

lemma pred_bind: "(\<And>v. pred_option P (f v)) \<Longrightarrow> pred_option P (x \<bind> f)"
  by (cases x) simp_all

lemma extend_fields:
  assumes "FAT_file_extend_r file p = Some (r, file', p')"
  shows "same_links file file' \<and> f_dirEntryEnd file' = f_dirEntryEnd file"
proof -
  have "pred_option (\<lambda>(r, g, q). same_links file g \<and> f_dirEntryEnd g = f_dirEntryEnd file) (FAT_file_extend_r file p)"
    unfolding FAT_file_extend_r_def Let_def
    by (auto simp: same_links_def intro!: pred_bind split: option.splits)
  then show ?thesis using assms by simp
qed

lemma write_fields:
  assumes w: "FAT_write_r file p src len = Some ((Some m, err), file', p')" and m: "m \<noteq> 0"
  shows "same_links file file' \<and> f_dirEntryEnd file' = f_dirEntryEnd file \<and> f_modified file'"
proof -
  define n where "n = (if len + f_filesize file > FILE_MAX_SIZE \<or> len + f_filesize file < f_filesize file
    then FILE_MAX_SIZE - f_filesize file else len)"
  have run: "do {
      (ok, file, p) \<leftarrow> write_start file p;
      if \<not> ok then Some ((None, Some ENOSPC), file, p)
      else do {
        ((ok, err), file, p) \<leftarrow> (if \<not> f_append file \<and> f_currentPosition file > f_filesize file
          then FAT_file_extend_r file p else Some ((True, None), file, p));
        if \<not> ok then Some ((None, err), file, p)
        else do {
          let position = (if f_append file then f_appendPosition file else f_rwPosition file);
          let appending = (f_append file \<or> n + f_currentPosition file > f_filesize file);
          s \<leftarrow> write_body appending \<lparr>wr_part = p, wr_pos = position, wr_remain = n, wr_src = src, wr_ok = True, wr_errno = err\<rparr>;
          Some (write_finish file s n)
        }
      }
    } = Some ((Some m, err), file', p')"
    using w m unfolding FAT_write_r_def n_def [symmetric] Let_def by (auto split: if_splits)
  have fin: "same_links f g \<and> f_dirEntryEnd g = f_dirEntryEnd f \<and> f_modified g" if "write_finish f s n = (r, g, q)" for f g s r q
    using that by (auto simp: write_finish_def Let_def same_links_def split: if_splits)
  obtain ok1 f1 p1 where s1: "write_start file p = Some (ok1, f1, p1)" using run by (cases "write_start file p") auto
  have f1: "same_links file f1" "f_dirEntryEnd f1 = f_dirEntryEnd file"
    using s1 by (auto simp: write_start_def bind_eq_Some_conv Let_def same_links_def split: if_splits)
  have ok1 using run s1 by (cases ok1) auto
  define ext where "ext = (if \<not> f_append f1 \<and> f_currentPosition f1 > f_filesize f1 then FAT_file_extend_r f1 p1 else Some ((True, None), f1, p1))"
  obtain ok2 e2 f2 p2 where s2: "ext = Some ((ok2, e2), f2, p2)"
    using run \<open>ok1\<close> unfolding s1 by (cases ext) (auto simp: ext_def [symmetric])
  have f2: "same_links f1 f2" "f_dirEntryEnd f2 = f_dirEntryEnd f1"
    using s2 extend_fields [of f1 p1 "(ok2, e2)" f2 p2] by (auto simp: ext_def same_links_def split: if_splits)
  have ok2 using run \<open>ok1\<close> s2 unfolding s1 by (cases ok2) (auto simp: ext_def [symmetric])
  then obtain s where "write_finish f2 s n = ((Some m, err), file', p')"
    using run \<open>ok1\<close> s2 unfolding s1 by (auto simp: ext_def [symmetric] bind_eq_Some_conv Let_def)
  from fin [OF this] f1 f2 show ?thesis by (simp add: same_links_def)
qed

lemma files_used:
  assumes files: "files_ok s as" and f: "fs_files s a = Some f" and g: "same_links f g" "f_inUse g = f_inUse f"
    and q: "p_firstOpenFile q = p_firstOpenFile (fs_part s)" "p_openFileCount q = p_openFileCount (fs_part s)"
  shows "files_ok (s\<lparr>fs_part := q, fs_files := (fs_files s)(a \<mapsto> g)\<rparr>) as"
proof -
  let ?t = "s\<lparr>fs_part := q\<rparr>"
  have "list_step (s, as) (?t, as)" by (rule volume [OF q])
  moreover have "list_step (?t, as) (?t\<lparr>fs_files := (fs_files ?t)(a \<mapsto> g)\<rparr>, as)" by (rule used [of _ _ f]) (use f g in simp_all)
  ultimately have "list_step\<^sup>*\<^sup>* (s, as) (?t\<lparr>fs_files := (fs_files ?t)(a \<mapsto> g)\<rparr>, as)" by (rule rtranclp.rtrancl_into_rtrancl [OF r_into_rtranclp])
  from list_steps_ok [OF this] show ?thesis using files by simp
qed

text \<open>The list of open files beside the directories.\<close>

lemma relisted_dirs:
  assumes r: "relisted p q"
  shows "dirs_ok med q = dirs_ok med p" "resolve_path q = resolve_path p" "FAT_directory_entryGetCluster q = FAT_directory_entryGetCluster p"
proof -
  obtain n first where q: "q = p\<lparr>p_openFileCount := n, p_firstOpenFile := first\<rparr>" using r unfolding relisted_def by blast
  have geo: "p_filesysType q = p_filesysType p" "p_rootDirCluster q = p_rootDirCluster p" "p_cwdCluster q = p_cwdCluster p" by (simp_all add: q)
  show "FAT_directory_entryGetCluster q = FAT_directory_entryGetCluster p" by (simp add: fun_eq_iff FAT_directory_entryGetCluster_def geo)
  show "resolve_path q = resolve_path p" by (rule resolve_same [OF geo])
  have s: "sps q = sps p" by (simp add: sps_def q)
  have at: "slot_at q = slot_at p" by (simp add: fun_eq_iff slot_at_def sector_pos_def s split: dir_area.split) (simp add: q)
  have ct: "slot_count q = slot_count p" by (simp add: fun_eq_iff slot_count_def area_sectors_def s split: dir_area.split) (simp add: q)
  have "FAT_fat_clusterToSector q = FAT_fat_clusterToSector p" by (simp add: fun_eq_iff FAT_fat_clusterToSector_def q)
  then have ps: "pos_sector q = pos_sector p" by (simp add: fun_eq_iff pos_sector_def)
  have "dir_content v q area = dir_content v p area" for v area by (rule same_content [OF at ct ps]) simp
  moreover have "area_ok med q area = area_ok med p area" for area
    by (simp add: area_ok_def relisted_same [OF r] relisted_files [OF r] geo split: dir_area.split) (simp add: q)
  ultimately show "dirs_ok med q = dirs_ok med p"
    by (simp add: fun_eq_iff dirs_ok_def dir_entries_def relisted_same(3) [OF r])
qed

section \<open>Write, close, open, read\<close>

lemma cluster_fits: "part_ok med p \<Longrightarrow> FAT_fat_isValidCluster p c \<Longrightarrow> p_filesysType p = FS_FAT32 \<or> c < 0x10000"
proof -
  assume ok: "part_ok med p" and v: "FAT_fat_isValidCluster p c"
  note wf = part_okD(2) [OF ok, unfolded fat_wf_def]
  have "c < eof_limit (p_filesysType p)" using wf v le_less_trans unfolding FAT_fat_isValidCluster_def by blast
  then show ?thesis using wf by (cases "p_filesysType p") (auto simp: eof_limit_def word_less_nat_alt)
qed

text \<open>What a close leaves of a changed file: the same bytes in its chain, and one entry that says so.\<close>

lemma closed_file:
  assumes files: "files_ok s (as @ a # bs)" and fl: "fs_files s a = Some fl" and changed: "f_modified fl"
    and w: "writable_file med (fs_part s) xs cs ys fl" and dirs: "dirs_in med (xs @ cs # ys) (fs_part s) dirs"
    and area: "area_ok med (fs_part s) area" "set (area_chains area) \<subseteq> set (xs @ ys)"
    and t: "tidy c_locale (dir_content (pview med (fs_part s)) (fs_part s) area) items tail"
    and es: "dirs (area_start area) = Some (listing c_locale items)" and k: "k < length (listing c_locale items)"
    and entry: "f_dirEntryEnd fl = de_dataEnd (listing c_locale items ! k)" "\<not> FAT_directory_isDirectory (listing c_locale items ! k)"
  obtains s' e' dirs' p' where "FAT_close_r rtc a s = Some (None, s')" and "files_ok s' (as @ bs)"
    and "part_ok med (fs_part s')" and "dirs_ok med (fs_part s') dirs'" and "file_of med (fs_part s') cs e'"
    and "entry_size e' = f_filesize fl" and "\<not> FAT_directory_isDirectory e'"
    and "\<And>path. resolve_path (fs_part s) dirs path (length path) = Some (Some (listing c_locale items ! k)) \<Longrightarrow>
      resolve_path (fs_part s') dirs' path (length path) = Some (Some e')"
    and "same_part (fs_part s) p'" and "relisted p' (fs_part s')"
    and "chain_bytes (pview med p') p' cs = chain_bytes (pview med (fs_part s)) (fs_part s) cs"
proof -
  let ?p = "fs_part s" and ?e = "listing c_locale items ! k"
  note wd = w [unfolded writable_file_def]
  have f: "forest (fat_table med ?p) (FAT_fat_isValidCluster ?p) (xs @ cs # ys)" and ok: "part_ok med ?p"
    using wd by (simp_all add: table_inv_def)
  have fc: "file_chain med ?p cs" using wd forestD(1,2) [OF f, of cs] by (simp add: file_chain_def)
  define d where "d = sync_entry rtc fl (de_entryData ?e)"
  define e' where "e' = ?e\<lparr>de_entryData := d\<rparr>"
  define dirs' where "dirs' = (\<lambda>c. map_option (map (redated ?e d)) (dirs c))"
  have use: "f_write fl" using wd by simp
  obtain p' s' where s': "FAT_close_r rtc a s = Some (None, s')" "closed a (as @ bs) p' s'"
    "entry_synced med c_locale ?p area (listing c_locale items) k d p'"
    using close_written_spec [OF files fl use changed area(1) t k entry(1), of rtc] unfolding d_def by blast
  have step: "dir_step med area ?p p'" using s'(3) by (simp add: entry_synced_def)
  note sp = dir_stepD(2) [OF step]
  have re: "relisted p' (fs_part s')" and files': "files_ok s' (as @ bs)" using s'(2) unfolding closed_def relisted_def by blast+
  note data = listing_data [OF area(1) t k] and rd = relisted_dirs [OF re]
  note same = sync_entry_same(1) [OF data, of rtc fl, folded d_def]
  have apart: "set cs \<inter> set (concat (area_chains area)) = {}" using forestD(3) [OF f] area(2) by fastforce
  note chain = step_chain [OF area(1) step fc apart]
  have valid: "FAT_fat_isValidCluster ?p (f_startCluster fl)" using file_chainD(6,8) [OF fc] wd by simp
  have "FAT_directory_entryGetCluster p' d = hd cs"
    using sync_entry_cluster [OF data(1) cluster_fits [OF ok valid], of rtc] wd
    by (simp add: d_def FAT_directory_entryGetCluster_def same_partD(2) [OF sp])
  moreover have size: "entry_size e' = f_filesize fl"
    using sync_entry_values(1) [OF data(1), of rtc fl] by (simp add: entry_size_def e'_def d_def)
  ultimately have "file_of med p' cs e'" using chain(1) wd volume_same(3) [OF sp] by (simp add: file_of_def e'_def)
  then have fo: "file_of med (fs_part s') cs e'" by (rule file_of_relisted [OF re])
  have "dirs_ok med p' dirs'"
    unfolding dirs'_def by (rule synced_dirs [OF dirs f area(1) _ es k s'(3)]) (use area(2) in auto)
  then have dirs2: "dirs_ok med (fs_part s') dirs'" by (simp add: rd)
  have nodir: "d ! DIR_ENTRY_attributes AND ATTRIB_DIR = 0"
    using entry(2) sync_entry_attributes [OF data(1), of rtc fl]
    by (simp add: d_def FAT_directory_isDirectory_def bit.conj_disj_distrib2 ATTRIB_ARCH_def ATTRIB_DIR_def)
  have "resolve_path p' = resolve_path ?p" by (rule resolve_same [OF same_partD(2,5,13) [OF sp]])
  then have res: "resolve_path (fs_part s') dirs' path (length path) = Some (Some e')"
    if "resolve_path ?p dirs path (length path) = Some (Some ?e)" for path
    using redated_walk(2) [OF same entry(2) nodir, of ?p dirs path "length path"] that by (simp add: rd dirs'_def redated_def e'_def)
  have "part_ok med (fs_part s')" using dir_stepD(1) [OF step] by (simp add: relisted_same(2) [OF re])
  moreover have "\<not> FAT_directory_isDirectory e'" using nodir by (simp add: FAT_directory_isDirectory_def e'_def)
  ultimately show thesis using that [OF s'(1) files' _ dirs2 fo size _ res sp re chain(2)] by blast
qed

text \<open>Reading all of a file that has just been opened.\<close>

lemma opened_read:
  assumes ok: "part_ok med (fs_part s)" and d: "dirs_ok med (fs_part s) dirs"
    and path: "strip_device given = Some path" "0 \<notin> set path" "names_short (path_parts path)"
    and res: "resolve_path (fs_part s) dirs path (length path) = Some (Some e)"
    and e: "file_of med (fs_part s) cs e" "\<not> FAT_directory_isDirectory e"
    and n: "0 < unat (entry_size e)" "unat (entry_size e) + bpc (fs_part s) < 2 ^ 32"
    and files: "files_ok s as" and new: "b \<notin> set as"
  shows "\<exists>s' fl r. FAT_open_r c_locale malloc rtc True b given 0 s = Some (Inr b, s') \<and> fs_files s' b = Some fl \<and>
    FAT_read_r fl (fs_part s') (entry_size e) =
      Some ((Some (entry_size e), map Some (take (unat (entry_size e)) (chain_bytes (pview med (fs_part s)) (fs_part s) cs)), None), r)"
proof -
  let ?n = "entry_size e"
  have m: "access_mode 0 = Some (True, False)" by code_simp
  have err: "open_error (p_readOnly (fs_part s)) 0 (Some e) = None" using e(2) by (simp add: open_error_def m)
  have flags: "(0 :: u32) AND O_TRUNC = 0 \<or> \<not> False" "(0 :: u32) AND O_APPEND = 0 \<or> none_spare (fs_part s) cs e" by simp_all
  obtain s' fl q where s': "FAT_open_r c_locale malloc rtc True b given 0 s = Some (Inr b, s')" "fs_files s' b = Some fl"
    "freshly_opened (fs_part s') cs e True False ((0 :: u32) AND O_APPEND \<noteq> 0) fl" "file_of med (fs_part s') cs e"
    "pkept med (fs_part s) q" "relisted q (fs_part s')"
    using open_existing_spec [OF ok d path res err m flags(1) e(1) flags(2) files new, of malloc rtc] by blast
  note same = volume_same [OF pkeptD(2) [OF s'(5)]] and re = relisted_same [OF s'(6)]
  have cb: "chain_bytes (pview med (fs_part s')) (fs_part s') cs = chain_bytes (pview med (fs_part s)) (fs_part s) cs"
    using same(5) pkeptD(3) [OF s'(5)] by (simp add: re)
  have rf: "readable_file med (fs_part s') cs fl" by (rule freshly_usable(1) [OF s'(4,3)]) (use n same(3) in \<open>simp_all add: re\<close>)
  have f: "f_filesize fl = ?n" "f_currentPosition fl = 0" "fp_sector (f_rwPosition fl) = 0"
    using s'(3) by (simp_all add: freshly_opened_def)
  have "0 < spc (fs_part s')"
    using rf volume_okD(5) [of med "fs_part s'"] by (simp add: readable_file_def file_chain_def)
  then have "\<exists>r. FAT_read_r fl (fs_part s') ?n =
      Some ((Some ?n, map Some (slice (chain_bytes (pview med (fs_part s)) (fs_part s) cs) 0 (unat ?n)), None), r)"
    using read_r_readable [OF rf, of ?n] n unfolding cb f by (auto simp: word_less_nat_alt)
  then show ?thesis using s'(1,2) by (auto simp: slice_def)
qed

lemma file_reopened:
  assumes files: "files_ok s (as @ a # bs)" and fl: "fs_files s a = Some fl" and w: "writable_file med (fs_part s) xs cs ys fl"
    and len: "0 < unat len" "unat len \<le> length src" and fin: "unat len + unat (f_filesize fl) + bpc (fs_part s) < 2 ^ 32"
    and run: "FAT_write_r fl (fs_part s) src len = Some ((Some len, None), fl1, p1)"
    and dirs: "dirs_in med (xs @ ys) (fs_part s) dirs" and area: "area_ok med (fs_part s) area" "set (area_chains area) \<subseteq> set (xs @ ys)"
    and t: "tidy c_locale (dir_content (pview med (fs_part s)) (fs_part s) area) items tail"
    and es: "dirs (area_start area) = Some (listing c_locale items)" and k: "k < length (listing c_locale items)"
    and entry: "f_dirEntryEnd fl = de_dataEnd (listing c_locale items ! k)" "\<not> FAT_directory_isDirectory (listing c_locale items ! k)"
    and path: "strip_device given = Some path" "0 \<notin> set path" "names_short (path_parts path)"
    and res: "resolve_path (fs_part s) dirs path (length path) = Some (Some (listing c_locale items ! k))"
    and new: "b \<notin> set (as @ bs)"
  shows "\<exists>s2 s3 fl2 r. FAT_close_r rtc a (s\<lparr>fs_part := p1, fs_files := (fs_files s)(a \<mapsto> fl1)\<rparr>) = Some (None, s2) \<and>
    FAT_open_r c_locale malloc rtc2 True b given 0 s2 = Some (Inr b, s3) \<and> fs_files s3 b = Some fl2 \<and>
    FAT_read_r fl2 (fs_part s3) (f_filesize fl1) =
      Some ((Some (f_filesize fl1), map Some (splice (file_bytes med (fs_part s) cs fl) (write_start_at fl) (take (unat len) src)), None), r)"
proof (rule write_r_writable [OF w len fin])
  fix ds p' m file' err
  assume r: "FAT_write_r fl (fs_part s) src len = Some ((Some m, err), file', p')" and g: "growing med (fs_part s) xs cs ys ds p'"
    and bytes: "file_bytes med p' ds file' = splice (file_bytes med (fs_part s) cs fl) (write_start_at fl) (take (unat m) src)"
    and sz: "unat (f_filesize file') = max (unat (f_filesize fl)) (write_start_at fl + unat m)"
    and out: "err = None \<and> m = len \<and> writable_file med p' xs ds ys file' \<or>
      err = Some ENOSPC \<and> full med p' \<and> write_start_at fl + unat m = length ds * bpc (fs_part s) \<and> unat m < unat len"
  have eqs: "m = len" "err = None" "file' = fl1" "p' = p1" using r run by simp_all
  note g = g [unfolded eqs] and bytes = bytes [unfolded eqs] and sv = growingD(3) [OF g [unfolded eqs]]
  have w1: "writable_file med p1 xs ds ys fl1" using out eqs by simp
  note wd = w [unfolded writable_file_def] and w1d = w1 [unfolded writable_file_def]
  have "len \<noteq> 0" using len(1) by auto
  note fields = write_fields [OF run this] and area1 = growing_area [OF g area]
  define s1 where "s1 = s\<lparr>fs_part := p1, fs_files := (fs_files s)(a \<mapsto> fl1)\<rparr>"
  have s1: "fs_part s1 = p1" "fs_files s1 a = Some fl1" by (simp_all add: s1_def)
  have files1: "files_ok s1 (as @ a # bs)"
    unfolding s1_def by (rule files_used [OF files fl]) (use fields wd w1d in \<open>simp_all add: same_volume_files [OF sv]\<close>)
  have t1: "tidy c_locale (dir_content (pview med p1) p1 area) items tail" using t by (simp add: area1(2))
  have pos1: "f_dirEntryEnd fl1 = de_dataEnd (listing c_locale items ! k)" and changed: "f_modified fl1" using fields entry(1) by simp_all
  obtain s2 e2 dirs2 p2 where s2: "FAT_close_r rtc a s1 = Some (None, s2)" "files_ok s2 (as @ bs)" "part_ok med (fs_part s2)"
    "dirs_ok med (fs_part s2) dirs2" "file_of med (fs_part s2) ds e2" "entry_size e2 = f_filesize fl1" "\<not> FAT_directory_isDirectory e2"
    "resolve_path (fs_part s1) dirs path (length path) = Some (Some (listing c_locale items ! k)) \<Longrightarrow>
      resolve_path (fs_part s2) dirs2 path (length path) = Some (Some e2)"
    and p2: "same_part (fs_part s1) p2" "relisted p2 (fs_part s2)"
      "chain_bytes (pview med p2) p2 ds = chain_bytes (pview med (fs_part s1)) (fs_part s1) ds"
    by (rule closed_file [OF files1 s1(2) changed w1 [folded s1(1)] growing_dirs [OF g dirs, folded s1(1)] area1(1) [folded s1(1)] area(2)
          t1 [folded s1(1)] es k pos1 entry(2)]) (rule that)
  have "resolve_path p1 = resolve_path (fs_part s)" by (rule resolve_same [OF vol_same(11,10,13) [OF sv]])
  then have res2: "resolve_path (fs_part s2) dirs2 path (length path) = Some (Some e2)" using s2(8) res by (simp add: s1(1))
  have bpc: "bpc (fs_part s2) = bpc (fs_part s)"
    using same_volumeD(3) [OF sv] volume_same(3) [OF p2(1)] by (simp add: relisted_same(8) [OF p2(2)] s1(1))
  have "write_start_at fl \<le> unat (f_filesize fl)" using wd by (simp add: write_start_at_def word_le_nat_alt)
  then have n: "0 < unat (entry_size e2)" "unat (entry_size e2) + bpc (fs_part s2) < 2 ^ 32"
    using sz eqs fin len(1) unfolding s2(6) bpc by (auto simp: max_def)
  have "chain_bytes (pview med (fs_part s2)) (fs_part s2) ds = chain_bytes (pview med p1) p1 ds"
    using p2(3) by (simp add: relisted_same(3,11) [OF p2(2)] s1(1))
  with opened_read [OF s2(3,4) path res2 s2(5,7) n s2(2) new, of malloc rtc2] s2(1,6) bytes
  show ?thesis unfolding s1_def file_bytes_def by auto
qed

end
