(* ===== verification/DirRename.thy ===== *)
theory DirRename
  imports DirMake
begin

text \<open>
  \<open>rename\<close> inside one directory: a new entry with the data of the old one, then the removal of the old one.
\<close>

definition renamed ::
    "('d \<Rightarrow> sec_t \<Rightarrow> u8 list) \<Rightarrow> u32 list list \<Rightarrow> u32 list list \<Rightarrow> 'd partition \<Rightarrow> dir_area \<Rightarrow> u8 list \<Rightarrow> dir_entry list
      \<Rightarrow> nat \<Rightarrow> errno option \<Rightarrow> 'd partition \<Rightarrow> bool" where
  "renamed med xs ys p area name es k r p' \<longleftrightarrow>
    (\<exists>area' items tail l1 l2 e al. dir_evolves med xs ys p area p' area' \<and>
       tidy c_locale (dir_content (pview med p') p' area') items tail \<and>
       take k es @ drop (Suc k) es = l1 @ l2 \<and> listing c_locale items = l1 @ e # l2 \<and>
       de_filename e = name \<and> de_entryData e = short_data al (de_entryData (es ! k)) \<and> fresh_alias name es al \<and>
       (if de_dataEnd (es ! k) = slot_at p area' (slot_count p area' - 1) then r = Some EIO
        else r = None \<and> med (c_medium (p_cache p')) = pview med p'))"

definition rename_refused ::
    "('d \<Rightarrow> sec_t \<Rightarrow> u8 list) \<Rightarrow> u32 list list \<Rightarrow> u32 list list \<Rightarrow> 'd partition \<Rightarrow> dir_area \<Rightarrow> u8 list \<Rightarrow> dir_entry list
      \<Rightarrow> 'd partition \<Rightarrow> bool" where
  "rename_refused med xs ys p area name es p' \<longleftrightarrow>
    (\<exists>area' items tail. dir_evolves med xs ys p area p' area' \<and>
       tidy c_locale (dir_content (pview med p') p' area') items tail \<and> listing c_locale items = es \<and>
       (name_taken name es \<or> tails_used name es \<or> no_room med p' area'))"

text \<open>The place of an old entry in a list with a new one.\<close>

lemma removed_beside:
  assumes "k < length (m1 @ m2)"
  obtains k' l1 l2 where "k' < length (m1 @ e # m2)" and "(m1 @ e # m2) ! k' = (m1 @ m2) ! k"
    and "take k' (m1 @ e # m2) @ drop (Suc k') (m1 @ e # m2) = l1 @ e # l2"
    and "take k (m1 @ m2) @ drop (Suc k) (m1 @ m2) = l1 @ l2"
proof (cases "k < length m1")
  case True
  then show ?thesis using that [of k "take k m1 @ drop (Suc k) m1" m2] by (simp add: nth_append)
next
  case False
  then show ?thesis
    using assms that [of "Suc k" m1 "take (k - length m1) m2 @ drop (Suc k - length m1) m2"]
    by (simp add: nth_append Suc_diff_le)
qed

lemma rename_entry_spec:
  fixes p :: "'d partition"
  assumes inv: "dir_inv med xs ys p area" and ff: "may_allocate p" and m: "malloc_ok malloc"
    and t: "tidy c_locale (dir_content (pview med p) p area) items tail" and es: "listing c_locale items = es"
    and k: "k < length es" and pl: "plain_entry (de_entryData (es ! k))"
    and old: "0 \<notin> set old" "length old < PATH_MAX" "resolve_path p dirs old (length old) = Some (Some (es ! k))"
    and new: "0 \<notin> set new" "length new < PATH_MAX - 1" "resolve_path p dirs new (length new) = Some None"
    and d: "dirs_ok med p dirs" and par: "parent_at p dirs new (area_start area) name" and fits: "name_fits (trim_name name)"
  shows "\<exists>r p'. rename_entry c_locale malloc old new p = Some (r, p') \<and>
    (renamed med xs ys p area (trim_name name) es k r p' \<or>
     r = Some ENOSPC \<and> rename_refused med xs ys p area (trim_name name) es p')"
proof -
  note ok = area_okD(2) [OF dir_invD(1) [OF inv]]
  have len: "length new < PATH_MAX" using new(2) by simp
  obtain x p1 where x: "FAT_directory_entryFromPath c_locale p blank_entry old None = Some (x, p1)" "pkept med p p1" "walk_result (Some (es ! k)) x"
    by (rule path_walk [OF ok d old(1) short_path [OF old(2)] order_refl _ old(3), where pathEnd = None and entry = blank_entry]) simp_all
  obtain y p2 where y: "FAT_directory_entryFromPath c_locale p1 blank_entry new None = Some (y, p2)" "pkept med p1 p2" "walk_result None y"
    by (rule path_walk [OF pkeptD(1) [OF x(2)] dirs_kept [OF x(2) d] new(1) short_path [OF len] order_refl _ new(3) [folded resolve_kept [OF x(2)]],
          where pathEnd = None and entry = blank_entry]) simp_all
  note k2 = pkept_trans [OF x(2) y(2)]
  obtain p3 where p3: "parent_of c_locale p2 new = Some (Some (area_start area, name), p3)" "pkept med p2 p3"
    by (rule parent_of_spec [OF pkeptD(1) [OF y(2)] dirs_kept [OF k2 d] new(1) len par [folded parent_kept [OF k2]]])
  note k3 = pkept_trans [OF k2 p3(2)]
  have short: "\<not> PATH_MAX - 1 \<le> length name"
    using new(2) par by (auto simp: parent_at_def split: option.splits)
  let ?new = "(es ! k)\<lparr>de_filename := name\<rparr>"
  have run: "rename_entry c_locale malloc old new p =
    do {
      ((ok, _), p) \<leftarrow> FAT_directory_addEntry c_locale malloc p3 ?new (area_start area);
      if \<not> ok then Some (Some ENOSPC, p)
      else do {
        (ok, p) \<leftarrow> FAT_directory_removeEntry p (es ! k);
        if \<not> ok then Some (Some EIO, p)
        else let (ok, p) = flush_partition p in Some (if ok then None else Some EIO, p)
      }
    }"
    using x(1,3) y(1,3) p3(1) short by (cases y) (simp add: rename_entry_def)
  note ev3 = dir_evolves_kept [OF inv k3]
  note inv3 = dir_evolvesD(1) [OF ev3]
  have t3: "tidy c_locale (dir_content (pview med p3) p3 area) items tail" using t by (simp only: dir_content_kept [OF k3])
  have ff3: "may_allocate p3" using ff by (simp add: may_allocate_def same_partD [OF pkeptD(2) [OF k3]])
  have fits3: "name_fits (trim_name (de_filename ?new))" and pl3: "plain_entry (de_entryData ?new)" using fits pl by simp_all
  from inv3 ff3 m t3 fits3 pl3 show ?thesis
  proof (cases rule: addEntry_spec)
    case (refused entry' p4 area4 tail4)
    then have "rename_entry c_locale malloc old new p = Some (Some ENOSPC, p4)" unfolding run by simp
    moreover have "rename_refused med xs ys p area (trim_name name) es p4"
      unfolding rename_refused_def using dir_evolves_trans [OF ev3 refused(2)] refused(3,4) es
      by (intro exI [of _ area4] exI [of _ items] exI [of _ tail4]) simp
    ultimately show ?thesis by blast
  next
    case (created entry' p4 area4 items4 tail4 m1 e m2 al)
    have em: "es = m1 @ m2" using created(4) es by simp
    obtain j l1 l2 where j: "j < length (m1 @ e # m2)" "(m1 @ e # m2) ! j = es ! k"
      "take j (m1 @ e # m2) @ drop (Suc j) (m1 @ e # m2) = l1 @ e # l2" "take k es @ drop (Suc k) es = l1 @ l2"
      unfolding em by (rule removed_beside [OF k [unfolded em]])
    note inv4 = dir_evolvesD(1) [OF created(2)] and ev4 = dir_evolves_trans [OF ev3 created(2)]
    obtain b p5 items5 where p5: "FAT_directory_removeEntry p4 (listing c_locale items4 ! j) = Some (b, p5)"
      "b \<longleftrightarrow> de_dataEnd (listing c_locale items4 ! j) \<noteq> slot_at p4 area4 (slot_count p4 area4 - 1)" "dir_step med area4 p4 p5"
      "tidy c_locale (dir_content (pview med p5) p5 area4) items5 tail4"
      "listing c_locale items5 = take j (listing c_locale items4) @ drop (Suc j) (listing c_locale items4)"
      by (rule removeEntry_step [OF inv4 created(3)]) (use j(1) created(5) in simp)
    have rm: "FAT_directory_removeEntry p4 (es ! k) = Some (b, p5)" "b \<longleftrightarrow> de_dataEnd (es ! k) \<noteq> slot_at p area4 (slot_count p area4 - 1)"
      "listing c_locale items5 = l1 @ e # l2"
      using p5(1,2,5) vol_same(2,3) [OF dir_evolvesD(2) [OF ev4]] unfolding created(5) j(2,3) by simp_all
    note ev5 = dir_evolves_trans [OF ev4 dir_evolves_step [OF inv4 p5(3)]]
    have e: "de_filename e = trim_name name" "de_entryData e = short_data al (de_entryData (es ! k))" "fresh_alias (trim_name name) es al"
      using created(6,8) em by (simp_all add: made_entry_def)
    show ?thesis
    proof (cases b)
      case False
      have "rename_entry c_locale malloc old new p = Some (Some EIO, p5)"
        unfolding run using created(1) rm(1) False by simp
      moreover have "renamed med xs ys p area (trim_name name) es k (Some EIO) p5"
        unfolding renamed_def using ev5 p5(4) j(4) rm(2,3) e False
        by (intro exI [of _ area4] exI [of _ items5] exI [of _ tail4] exI [of _ l1] exI [of _ l2] exI [of _ e] exI [of _ al]) simp
      ultimately show ?thesis by blast
    next
      case True
      obtain p6 where p6: "flush_partition p5 = (True, p6)" "pkept med p5 p6" "med (c_medium (p_cache p6)) = pview med p6"
        by (rule flush_part [OF dir_stepD(1) [OF p5(3)]])
      have "rename_entry c_locale malloc old new p = Some (None, p6)"
        unfolding run using created(1) rm(1) True p6(1) by simp
      moreover have "renamed med xs ys p area (trim_name name) es k None p6"
        unfolding renamed_def
        using dir_evolves_trans [OF ev5 dir_evolves_kept [OF dir_evolvesD(1) [OF ev5] p6(2)]] p5(4) j(4) rm(2,3) e True p6(3)
        by (intro exI [of _ area4] exI [of _ items5] exI [of _ tail4] exI [of _ l1] exI [of _ l2] exI [of _ e] exI [of _ al])
          (simp add: dir_content_kept [OF p6(2)])
      ultimately show ?thesis by blast
    qed
  qed
qed

end
