(* ===== verification/TreeDisc.thy ===== *)
theory TreeDisc
  imports FileReopen DirRename DirDisc
begin

text \<open>
  A FAT16 volume with a file and a directory on the disc in memory: sectors of 64 bytes, the table in sector one, a
  root directory of four slots in sectors two and three, the directory \<open>SUB\<close> in cluster 2 and the five bytes of
  \<open>README\<close> in cluster 3. The file is open for writing and has been changed.
\<close>

definition sub :: "u8 list" where
  "sub = [0x53, 0x55, 0x42]"

definition file_data :: "u8 list" where
  "file_data = replicate 11 0x20 @ [0x20] @ replicate 14 0 @ [3, 0, 5, 0, 0, 0]"

definition sub_data :: "u8 list" where
  "sub_data = replicate 11 0x20 @ [0x10] @ replicate 14 0 @ [2, 0, 0, 0, 0, 0]"

definition file_slot :: "u8 list" where
  "file_slot = readme @ replicate 5 0x20 @ drop 11 file_data"

definition sub_slot :: "u8 list" where
  "sub_slot = sub @ replicate 8 0x20 @ drop 11 sub_data"

definition up_data :: "u8 list" where
  "up_data = [0x2E, 0x2E] @ replicate 9 0x20 @ [0x10] @ replicate 20 0"

definition ram_tree :: ram where
  "ram_tree s = (if s = 1 then [0xF8, 0xFF, 0xFF, 0xFF, 0xFF, 0xFF, 0xFF, 0xFF] @ replicate 56 0
     else if s = 2 then file_slot @ sub_slot
     else if s = 4 then dot_data 2 @ up_data
     else if s = 5 then [1, 2, 3, 4, 5] else [])"

definition tree_part :: "ram partition" where
  "tree_part = \<lparr>p_disc = ram_disc 64, p_cache = ram_cache 64 16 ram_tree, p_filesysType = FS_FAT16,
     p_totalSize = 0, p_rootDirStart = 2, p_rootDirCluster = 0, p_numberOfSectors = 16, p_dataStart = 4,
     p_bytesPerSector = 64, p_sectorsPerCluster = 1, p_bytesPerCluster = 64, p_fsInfoSector = 0,
     p_fat = \<lparr>fat_fatStart = 1, fat_sectorsPerFat = 1, fat_lastCluster = 5, fat_firstFree = 4,
       fat_numberFreeCluster = 2, fat_numberLastAllocCluster = 0\<rparr>,
     p_cwdCluster = 0, p_openFileCount = 1, p_firstOpenFile = Some 0, p_readOnly = False, p_label = []\<rparr>"

lemma tree_part_ok: "part_ok med64 tree_part" "volume_ok med64 tree_part"
proof -
  have st: "store_inv med64 (ram_cache 64 16 ram_tree)" and lim: "c_endOfPartition (ram_cache 64 16 ram_tree) = 16"
    "c_bytesPerSector (ram_cache 64 16 ram_tree) = 64"
    using ram_cache_store [of 64 16 ram_tree] by simp_all
  show ok: "part_ok med64 tree_part"
    by (auto simp: part_ok_def st tree_part_def fat_wf_def lim readable_def entry_pos_def entry_len_def
        eof_limit_def CLUSTER_FIRST_def)
  have "data_ok tree_part"
    by (auto simp: data_ok_def tree_part_def lim)
  then show "volume_ok med64 tree_part" using ok by (simp add: volume_ok_def) (simp add: tree_part_def)
qed

lemma tree_valid: "FAT_fat_isValidCluster tree_part c \<longleftrightarrow> 2 \<le> c \<and> c \<le> 5"
  by (simp add: FAT_fat_isValidCluster_def tree_part_def CLUSTER_FIRST_def)

lemma tree_view: "pview med64 tree_part = med64 ram_tree"
proof -
  have "cview med64 (ram_cache 64 16 ram_tree) = med64 ram_tree" using ram_cache_store(2) [of 64 16 ram_tree] by simp
  then show ?thesis by (simp add: pview_def tree_part_def)
qed

lemma tree_table: "fat_table med64 tree_part 2 = CLUSTER_EOF" "fat_table med64 tree_part 3 = CLUSTER_EOF"
  "fat_table med64 tree_part 4 = CLUSTER_FREE" "fat_table med64 tree_part 5 = CLUSTER_FREE"
proof -
  note eval = fat_table_def readable_def entry_pos_def entry_len_def raw_entry_def link_of_def eof_limit_def
    fat_bytes_def cluster_defs le_value_def u8array_to_u16_def
  show "fat_table med64 tree_part 2 = CLUSTER_EOF" "fat_table med64 tree_part 3 = CLUSTER_EOF"
    "fat_table med64 tree_part 4 = CLUSTER_FREE" "fat_table med64 tree_part 5 = CLUSTER_FREE"
    unfolding eval tree_view by (simp_all add: tree_part_def ram_med_def ram_tree_def upt_rec)
qed

lemma tree_forest: "forest (fat_table med64 tree_part) (FAT_fat_isValidCluster tree_part) [[3], [2]]"
proof -
  have "c = 2 \<or> c = 3" if "2 \<le> c" "c \<le> 5" "fat_table med64 tree_part c \<noteq> CLUSTER_FREE" for c :: u32
  proof -
    have "unat c = 2 \<or> unat c = 3 \<or> unat c = 4 \<or> unat c = 5" using that(1,2) by (simp add: word_le_nat_alt) arith
    then have "c = 2 \<or> c = 3 \<or> c = 4 \<or> c = 5" by (auto simp: word_eq_iff_unat_eq)
    with that(3) show ?thesis by (auto simp: tree_table)
  qed
  then show ?thesis by (auto simp: forest_def tree_table tree_valid)
qed

lemma tree_chains: "file_chain med64 tree_part [2]" "file_chain med64 tree_part [3]"
  using tree_part_ok by (simp_all add: file_chain_def tree_table tree_valid)

lemma tree_areas: "dir_inv med64 [[3], [2]] [] tree_part Root" "area_ok med64 tree_part (Chain [2])"
proof -
  show "dir_inv med64 [[3], [2]] [] tree_part Root"
    using tree_part_ok tree_forest
    by (simp add: dir_inv_def area_ok_def area_chains_def) (simp add: tree_part_def FAT16_ROOT_DIR_CLUSTER_def)
  show "area_ok med64 tree_part (Chain [2])"
    using tree_chains(1) tree_part_ok by (simp add: area_ok_def) (simp add: tree_part_def)
qed

section \<open>The two directories\<close>

lemma tree_root_content:
  "dir_content (pview med64 tree_part) tree_part Root =
    [(root_pos 0 0, file_slot), (root_pos 0 1, sub_slot), (root_pos 1 0, replicate 32 0), (root_pos 1 1, replicate 32 0)]"
proof -
  have "slot_count tree_part Root = 4" "sps tree_part = 2"
    by (simp_all add: slot_count_def area_sectors_def sps_def) (simp_all add: tree_part_def)
  then show ?thesis
    unfolding tree_view
    by (simp add: dir_content_def upt_rec slot_at_def sector_pos_def slot_bytes_def pos_sector_def FAT_fat_clusterToSector_def
        FAT16_ROOT_DIR_CLUSTER_def CLUSTER_FIRST_def)
      (simp add: tree_part_def ram_med_def ram_tree_def slice_def file_slot_def sub_slot_def readme_def sub_def file_data_def sub_data_def)
qed

lemma tree_sub_content:
  "dir_content (pview med64 tree_part) tree_part (Chain [2]) = [(sub_pos 0, dot_data 2), (sub_pos 1, up_data)]"
proof -
  have "slot_count tree_part (Chain [2]) = 2" "sps tree_part = 2" "p_sectorsPerCluster tree_part = 1"
    by (simp_all add: slot_count_def area_sectors_def sps_def) (simp_all add: tree_part_def)
  moreover have "length (dot_data 2) = 32" "length up_data = 32" by code_simp+
  ultimately show ?thesis
    unfolding tree_view
    by (simp add: dir_content_def upt_rec slot_at_def sector_pos_def slot_bytes_def pos_sector_def FAT_fat_clusterToSector_def
        CLUSTER_FIRST_def)
      (simp add: tree_part_def ram_med_def ram_tree_def slice_def)
qed

definition file_entry :: "dir_pos \<Rightarrow> dir_entry" where
  "file_entry pos = dot_entry pos readme file_slot"

definition sub_entry :: "dir_pos \<Rightarrow> dir_entry" where
  "sub_entry pos = dot_entry pos sub sub_slot"

lemma short_item:
  assumes "short_form name name []" and "plain_entry d" and "slot = short_data name d"
  shows "item_ok c_locale (Named [] (pos, slot))" and "item_entry c_locale (Named [] (pos, slot)) = Some (dot_entry pos name slot)"
proof -
  have vis: "visible slot" using short_data_facts(5) [OF assms(2), of name] assms(1,3) by (simp add: short_form_def)
  have "scan_slots c_locale [(pos, slot)] scan_start = Some (Some (dot_entry pos name slot, []))"
    unfolding visible_slot [OF vis] dot_entry_def
    by (simp add: scan_name_def scan_start_def Let_def short_name_read_back [OF assms(1,2), folded assms(3)])
  then show e: "item_entry c_locale (Named [] (pos, slot)) = Some (dot_entry pos name slot)" by (simp add: item_entry_def)
  show "item_ok c_locale (Named [] (pos, slot))"
    using e visible_marks [OF vis] by (simp add: item_ok_def dot_entry_def)
qed

lemma tree_items:
  "item_ok c_locale (Named [] (pos, file_slot))" "item_entry c_locale (Named [] (pos, file_slot)) = Some (file_entry pos)"
  "item_ok c_locale (Named [] (pos, sub_slot))" "item_entry c_locale (Named [] (pos, sub_slot)) = Some (sub_entry pos)"
proof -
  have "short_form readme readme []" "plain_entry file_data" "file_slot = short_data readme file_data" by code_simp+
  from short_item [OF this] show "item_ok c_locale (Named [] (pos, file_slot))"
    "item_entry c_locale (Named [] (pos, file_slot)) = Some (file_entry pos)" by (simp_all add: file_entry_def)
  have "short_form sub sub []" "plain_entry sub_data" "sub_slot = short_data sub sub_data" by code_simp+
  from short_item [OF this] show "item_ok c_locale (Named [] (pos, sub_slot))"
    "item_entry c_locale (Named [] (pos, sub_slot)) = Some (sub_entry pos)" by (simp_all add: sub_entry_def)
qed

abbreviation tree_root_items :: "item list" where
  "tree_root_items \<equiv> [Named [] (root_pos 0 0, file_slot), Named [] (root_pos 0 1, sub_slot)]"

abbreviation tree_rest :: "slot list" where
  "tree_rest \<equiv> [(root_pos 1 0, replicate 32 0), (root_pos 1 1, replicate 32 0)]"

definition tree_root_list :: "dir_entry list" where
  "tree_root_list = [file_entry (root_pos 0 0), sub_entry (root_pos 0 1)]"

definition tree_sub_list :: "dir_entry list" where
  "tree_sub_list = [dot_entry (sub_pos 0) [CH_DOT] (dot_data 2), dot_entry (sub_pos 1) [CH_DOT, CH_DOT] up_data]"

lemma tree_root_tidy:
  "tidy c_locale (dir_content (pview med64 tree_part) tree_part Root) tree_root_items tree_rest"
  "listing c_locale tree_root_items = tree_root_list"
  using tree_items
  by (simp_all add: tree_root_content tidy_def listing_Cons tail_ok_def is_last_def DIR_ENTRY_LAST_def ATTRIB_LFN_def tree_root_list_def)

lemma tree_sub_entries: "dir_entries c_locale med64 tree_part (Chain [2]) = Some tree_sub_list"
proof -
  have d: "dot_data 2 ! 0 = CH_DOT" "dot_data 2 ! 1 \<noteq> CH_DOT" "dot_data 2 ! DIR_ENTRY_attributes = ATTRIB_DIR"
    "up_data ! 0 = CH_DOT" "up_data ! 1 = CH_DOT" "up_data ! DIR_ENTRY_attributes = ATTRIB_DIR"
    by code_simp+
  note t = dots_tidy [where env = c_locale and zs = "[]" and ?pos1.0 = "sub_pos 0" and ?pos2.0 = "sub_pos 1", OF d]
  have "tidy c_locale (dir_content (pview med64 tree_part) tree_part (Chain [2]))
    [Named [] (sub_pos 0, dot_data 2), Named [] (sub_pos 1, up_data)] []"
    unfolding tree_sub_content using t(1) by simp
  from tidy_entries [OF this] t(2) show ?thesis by (simp add: dir_entries_def tree_sub_list_def)
qed

text \<open>The directories by their first cluster.\<close>

definition tree_dirs :: "u32 \<Rightarrow> dir_entry list option" where
  "tree_dirs = [0 \<mapsto> tree_root_list, 2 \<mapsto> tree_sub_list]"

lemma tree_dirs_in: "dirs_in med64 [[2]] tree_part tree_dirs"
proof -
  have root: "dir_entries c_locale med64 tree_part Root = Some tree_root_list"
    using tidy_entries [OF tree_root_tidy(1)] by (simp add: dir_entries_def tree_root_tidy(2))
  show ?thesis unfolding dirs_in_def
  proof (intro allI impI)
    fix c es assume "tree_dirs c = Some es"
    then consider "c = 0" "es = tree_root_list" | "c = 2" "es = tree_sub_list" by (auto simp: tree_dirs_def split: if_splits)
    then show "\<exists>area. area_ok med64 tree_part area \<and> area_start area = c \<and> dir_entries c_locale med64 tree_part area = Some es \<and>
        set (area_chains area) \<subseteq> set [[2]]"
    proof cases
      case 1
      then show ?thesis using root dir_invD(1) [OF tree_areas(1)]
        by (intro exI [of _ Root]) (simp add: area_start_def area_chains_def FAT16_ROOT_DIR_CLUSTER_def)
    next
      case 2
      then show ?thesis using tree_sub_entries tree_areas(2) by (intro exI [of _ "Chain [2]"]) (simp add: area_start_def area_chains_def)
    qed
  qed
qed

lemmas tree_dirs_ok = dirs_in_ok [OF tree_dirs_in]

text \<open>The paths of the examples: \<open>/sub/../readme\<close>, \<open>/readme\<close> and \<open>/notes\<close>.\<close>

definition long_path :: "u8 list" where
  "long_path = [0x2F, 0x73, 0x75, 0x62, 0x2F, 0x2E, 0x2E, 0x2F, 0x72, 0x65, 0x61, 0x64, 0x6D, 0x65]"

definition readme_path :: "u8 list" where
  "readme_path = [0x2F, 0x72, 0x65, 0x61, 0x64, 0x6D, 0x65]"

definition notes_path :: "u8 list" where
  "notes_path = [0x2F, 0x6E, 0x6F, 0x74, 0x65, 0x73]"

lemma tree_paths:
  "resolve_path tree_part tree_dirs long_path (length long_path) = Some (Some (file_entry (root_pos 0 0)))"
  "resolve_path tree_part tree_dirs readme_path (length readme_path) = Some (Some (file_entry (root_pos 0 0)))"
  "resolve_path tree_part tree_dirs notes_path (length notes_path) = Some None"
  "parent_at tree_part tree_dirs notes_path FAT16_ROOT_DIR_CLUSTER (tl notes_path)"
  by code_simp+

lemma path_facts:
  "strip_device readme_path = Some readme_path" "strip_device notes_path = Some notes_path"
  "0 \<notin> set readme_path" "0 \<notin> set notes_path" "0 \<notin> set long_path"
  "names_short (path_parts readme_path)" "names_short (path_parts long_path)" "name_fits (trim_name (tl notes_path))"
  by code_simp+

text \<open>The file in the list.\<close>

definition tree_file :: file_struct where
  "tree_file = \<lparr>f_filesize = 4, f_startCluster = 3, f_currentPosition = 0,
     f_rwPosition = \<lparr>fp_cluster = 3, fp_sector = 0, fp_byte = 0\<rparr>, f_appendPosition = \<lparr>fp_cluster = 3, fp_sector = 0, fp_byte = 0\<rparr>,
     f_dirEntryStart = root_pos 0 0, f_dirEntryEnd = root_pos 0 0, f_prevOpenFile = None, f_nextOpenFile = None,
     f_read = True, f_write = True, f_append = False, f_inUse = True, f_modified = True\<rparr>"

definition tree_fs :: "ram fs" where
  "tree_fs = \<lparr>fs_part = tree_part, fs_files = [0 \<mapsto> tree_file]\<rparr>"

lemma tree_files: "files_ok tree_fs [0]" "fs_part tree_fs = tree_part" "fs_files tree_fs 0 = Some tree_file"
  by (simp_all add: files_ok_def tree_fs_def tree_part_def tree_file_def)

end
