(* ===== verification/NameTheorems.thy ===== *)
theory NameTheorems
  imports TreeDisc
begin

text \<open>
  The properties of the calls on names: looking a path up, removing, making and renaming, opening and closing, and
  the list of open files. Each is applied to the volume with a file and a directory on the disc in memory.
\<close>

section \<open>Looking up a path\<close>

text \<open>C6: refinement. The walk along a path in the \<open>C\<close> locale returns what resolving its parts one directory after
  the other gives, whatever separators, dot names and letter cases the path has: the entry that is found, with
  success, or a failure when some part is not in its directory or is no directory though the path goes on. It
  writes nothing.\<close>

theorem path_resolves:
  assumes "part_ok med p" and "dirs_ok med p dirs" and "0 \<notin> set path" and "names_short (path_parts (take k path))"
    and "k \<le> length path" and "k < length path \<longrightarrow> path ! k = DIR_SEPARATOR"
    and "resolve_path p dirs path k = Some r" and "pathEnd = Some k \<or> pathEnd = None \<and> k = length path"
  shows "\<exists>x p'. FAT_directory_entryFromPath c_locale p entry path pathEnd = Some (x, p') \<and> pkept med p p' \<and>
    (case r of None \<Rightarrow> \<not> fst x | Some e \<Rightarrow> x = (True, e))"
  using path_walk [OF assms(1-5) _ assms(7,8)] assms(6) unfolding walk_result_def by blast

theorem path_resolves_witness:
  "(\<exists>p'. FAT_directory_entryFromPath c_locale tree_part blank_entry long_path None = Some ((True, file_entry (root_pos 0 0)), p')) \<and>
   (\<exists>e p'. FAT_directory_entryFromPath c_locale tree_part blank_entry notes_path None = Some ((False, e), p'))"
proof
  show "\<exists>p'. FAT_directory_entryFromPath c_locale tree_part blank_entry long_path None = Some ((True, file_entry (root_pos 0 0)), p')"
    using path_resolves [OF tree_part_ok(1) tree_dirs_ok path_facts(5) _ _ _ tree_paths(1), of None blank_entry] path_facts(7)
    by auto
  have "names_short (path_parts notes_path)" by code_simp
  then show "\<exists>e p'. FAT_directory_entryFromPath c_locale tree_part blank_entry notes_path None = Some ((False, e), p')"
    using path_resolves [OF tree_part_ok(1) tree_dirs_ok path_facts(4) _ _ _ tree_paths(3), of None blank_entry]
    by auto
qed

section \<open>Removing a name\<close>

text \<open>C8: functional. \<open>unlink\<close> and \<open>rmdir\<close> of a path that leads to the k-th entry of a tidy directory either refuse it, when it is a
  directory for \<open>unlink\<close>, none for \<open>rmdir\<close>, or not empty, and then change nothing; or they take exactly this entry out of the listing,
  free exactly its chain, keep the directory tidy and the other chains disjoint, and leave the medium up to date. The result is
  success unless the entry ended in the last slot of the directory, when it is \<open>EIO\<close> although all of this was done.\<close>

theorem unlink_removes_entry:
  assumes "dir_inv med (fcs @ xs) ys p area" and "tidy c_locale (dir_content (pview med p) p area) items tail"
    and "listing c_locale items = es" and "k < length es" and "owns p (es ! k) fcs" and "\<not> p_readOnly p"
    and "strip_device given = Some path" and "0 \<notin> set path" and "names_short (path_parts path)"
    and "dirs_ok med p dirs" and "resolve_path p dirs path (length path) = Some (Some (es ! k))"
    and "refusal p dirs (es ! k) isRmDir = Some refused"
  shows "\<exists>r p'. FAT_unlinkCommon c_locale True given isRmDir p = Some (r, p') \<and>
    (case refused of
       Some err \<Rightarrow> r = Some err \<and> pkept med p p'
     | None \<Rightarrow> r = (if de_dataEnd (es ! k) = slot_at p area (slot_count p area - 1) then Some EIO else None) \<and>
         dir_inv med xs ys p' area \<and> name_gone med c_locale p area (take k es @ drop (Suc k) es) fcs p')"
  using unlink_spec [OF assms] unfolding unlink_outcome_def by (metis prod.collapse)

theorem unlink_removes_entry_witness:
  "\<exists>p'. FAT_unlinkCommon c_locale True readme_path False tree_part = Some (None, p') \<and>
    fat_table med64 p' 3 = CLUSTER_FREE \<and> fat_table med64 p' 2 = CLUSTER_EOF"
proof -
  have inv: "dir_inv med64 ([[3]] @ [[2]]) [] tree_part Root" using tree_areas(1) by simp
  have e: "tree_root_list ! 0 = file_entry (root_pos 0 0)" by (simp add: tree_root_list_def)
  have c: "FAT_directory_entryGetCluster tree_part (de_entryData (file_entry (root_pos 0 0))) = 3" by code_simp
  have own: "owns tree_part (tree_root_list ! 0) [[3]]" by (simp add: owns_def Let_def e c tree_valid)
  have ref: "refusal tree_part tree_dirs (tree_root_list ! 0) False = Some None" by code_simp
  have last: "de_dataEnd (file_entry (root_pos 0 0)) \<noteq> slot_at tree_part Root (slot_count tree_part Root - 1)" by code_simp
  have k: "0 < length tree_root_list" and w: "\<not> p_readOnly tree_part" by (simp_all add: tree_root_list_def tree_part_def)
  from unlink_removes_entry [OF inv tree_root_tidy k own w path_facts(1,3,6) tree_dirs_ok tree_paths(2) [folded e] ref] last
  show ?thesis unfolding e name_gone_def by (auto simp: tree_table)
qed

section \<open>Making and renaming\<close>

text \<open>C15: functional. \<open>mkdir\<close> of a free name (one of \<open>name_fits\<close>: 1 to 247 allowed characters, no dot at the end, no space or
  byte E5 in front) in a tidy directory takes one free cluster, clears it and writes the two dot entries
  to it, lists the new directory in its parent under the given name and a fresh short name, keeps all other entries, chains and sectors and
  leaves the medium up to date; or it returns \<open>ENOSPC\<close> and keeps the listing, because the disc was full or
  the entry could not be written, and in the second case the cluster it had taken stays in use, although nothing refers to it.\<close>

theorem mkdir_makes_directory:
  assumes "dir_inv med xs ys p area" and "may_allocate p" and "malloc_ok malloc" and "64 \<le> bps p"
    and "tidy c_locale (dir_content (pview med p) p area) items tail" and "\<not> p_readOnly p"
    and "strip_device given = Some path" and "0 \<notin> set path" and "length path < PATH_MAX - 1"
    and "dirs_ok med p dirs" and "resolve_path p dirs path (length path) = Some None"
    and "parent_at p dirs path (area_start area) name" and "name_fits (trim_name name)"
  shows "\<exists>r p'. FAT_mkdir_r c_locale malloc rtc True given p = Some (r, p') \<and>
    (if r = None then directory_made med xs ys rtc p area (trim_name name) (listing c_locale items) p'
     else r = Some ENOSPC \<and> directory_refused med xs ys p area (trim_name name) (listing c_locale items) p')"
  by (rule mkdir_spec [OF assms])

lemma zeroing_ok: "malloc_ok (\<lambda>n. Some (replicate n 0))"
  by (simp add: malloc_ok_def)

lemma tree_geometry: "may_allocate tree_part" "bps tree_part = 64" "\<not> p_readOnly tree_part" "area_start Root = FAT16_ROOT_DIR_CLUSTER"
  "length notes_path < PATH_MAX - 1" "length readme_path < PATH_MAX"
  by (simp_all add: may_allocate_def tree_part_def area_start_def notes_path_def readme_path_def PATH_MAX_def)

theorem mkdir_makes_directory_witness:
  "\<exists>r p'. FAT_mkdir_r c_locale (\<lambda>n. Some (replicate n 0)) None True notes_path tree_part = Some (r, p') \<and>
    (if r = None then directory_made med64 [[3], [2]] [] None tree_part Root (trim_name (tl notes_path)) tree_root_list p'
     else r = Some ENOSPC \<and> directory_refused med64 [[3], [2]] [] tree_part Root (trim_name (tl notes_path)) tree_root_list p')"
proof -
  have "64 \<le> bps tree_part" by (simp add: tree_geometry(2))
  from mkdir_makes_directory [OF tree_areas(1) tree_geometry(1) zeroing_ok this tree_root_tidy(1) tree_geometry(3)
      path_facts(2,4) tree_geometry(5) tree_dirs_ok tree_paths(3) tree_paths(4) [folded tree_geometry(4)] path_facts(8), of None]
  show ?thesis unfolding tree_root_tidy(2) .
qed



section \<open>Opening and closing\<close>

text \<open>C18: error. An open that cannot go on tells why and changes neither the volume nor the list of open files: the flags name no access mode
  (\<open>EACCES\<close>), the partition is read only (\<open>EROFS\<close>), there is nothing of this name and it is not to be created (\<open>ENOENT\<close>), there is something and
  it is to be created exclusively (\<open>EEXIST\<close>), it is a directory (\<open>EISDIR\<close>), or it is to be written and its entry is read only (\<open>EROFS\<close>).\<close>

theorem open_reports_error:
  assumes "part_ok med (fs_part s)" and "dirs_ok med (fs_part s) dirs"
    and "strip_device given = Some path" and "0 \<notin> set path" and "names_short (path_parts path)"
    and "resolve_path (fs_part s) dirs path (length path) = Some found"
    and "open_error (p_readOnly (fs_part s)) flags found = Some err"
  shows "\<exists>p'. FAT_open_r c_locale malloc rtc True a given flags s = Some (Inl err, s\<lparr>fs_part := p'\<rparr>) \<and> pkept med (fs_part s) p'"
  by (rule open_refused_spec [OF assms])

theorem open_reports_error_witness:
  "(\<exists>p'. FAT_open_r c_locale (\<lambda>n. None) None True 1 readme_path (O_CREAT OR O_EXCL) tree_fs = Some (Inl EEXIST, tree_fs\<lparr>fs_part := p'\<rparr>)) \<and>
   (\<exists>p'. FAT_open_r c_locale (\<lambda>n. None) None True 1 notes_path 0 tree_fs = Some (Inl ENOENT, tree_fs\<lparr>fs_part := p'\<rparr>))"
proof -
  note tree = tree_part_ok(1) [folded tree_files(2)] tree_dirs_ok [folded tree_files(2)]
  have err: "open_error (p_readOnly tree_part) (O_CREAT OR O_EXCL) (Some (file_entry (root_pos 0 0))) = Some EEXIST"
    "open_error (p_readOnly tree_part) 0 None = Some ENOENT"
    by code_simp+
  have short: "names_short (path_parts notes_path)" by code_simp
  show ?thesis
    using open_reports_error [OF tree path_facts(1,3,6) tree_paths(2) [folded tree_files(2)] err(1) [folded tree_files(2)], of "\<lambda>n. None" None 1]
      open_reports_error [OF tree path_facts(2,4) short tree_paths(3) [folded tree_files(2)] err(2) [folded tree_files(2)], of "\<lambda>n. None" None 1]
    by blast
qed




text \<open>C14: functional. Opening a name that is not there with \<open>O_CREAT\<close> lists it in its directory, which stays tidy, beside all entries that were
  there, if it is a name as \<open>name_fits\<close> says (1 to 247 allowed characters, no dot at the end, no space or byte E5 in front), and puts an empty file at the place of the new entry in front of the list of open files, marked as changed so that its entry
  is written when it is closed; or it returns \<open>ENOSPC\<close>, keeps the listing and the list of open files, and the entry
  could not be made.\<close>

theorem open_creates_file:
  assumes "dir_inv med xs ys (fs_part s) area" and "may_allocate (fs_part s)" and "malloc_ok malloc"
    and "tidy c_locale (dir_content (pview med (fs_part s)) (fs_part s) area) items tail"
    and "strip_device given = Some path" and "0 \<notin> set path" and "length path < PATH_MAX - 1"
    and "dirs_ok med (fs_part s) dirs" and "resolve_path (fs_part s) dirs path (length path) = Some None"
    and "parent_at (fs_part s) dirs path (area_start area) name" and "name_fits (trim_name name)"
    and "open_error (p_readOnly (fs_part s)) flags None = None" and "access_mode flags = Some (rd, wr)"
    and "files_ok s as" and "a \<notin> set as"
  shows "\<exists>r s'. FAT_open_r c_locale malloc rtc True a given flags s = Some (r, s') \<and>
    (case r of
       Inr b \<Rightarrow> b = a \<and> files_ok s' (a # as) \<and> (\<exists>e p'. relisted p' (fs_part s') \<and>
         file_created med xs ys (fs_part s) area (trim_name name) (listing c_locale items) e p' \<and>
         fs_files s' a = Some ((fresh_file e rd wr (flags AND O_APPEND \<noteq> 0))\<lparr>f_nextOpenFile := p_firstOpenFile (fs_part s)\<rparr>))
     | Inl e \<Rightarrow> e = ENOSPC \<and> files_ok s' as \<and>
         file_refused med xs ys (fs_part s) area (trim_name name) (listing c_locale items) (fs_part s'))"
  by (rule open_created_spec [OF assms])

theorem open_creates_file_witness:
  "\<exists>r s'. FAT_open_r c_locale (\<lambda>n. Some (replicate n 0)) None True 1 notes_path (O_CREAT OR 2) tree_fs = Some (r, s') \<and>
    files_ok s' (case r of Inr b \<Rightarrow> [1, 0] | Inl e \<Rightarrow> [0])"
proof -
  have err: "open_error (p_readOnly tree_part) (O_CREAT OR 2) None = None" and m: "access_mode (O_CREAT OR 2) = Some (True, True)"
    by code_simp+
  have new: "(1 :: nat) \<notin> set [0]" by simp
  note opens = open_creates_file [OF tree_areas(1) [folded tree_files(2)] tree_geometry(1) [folded tree_files(2)] zeroing_ok
      tree_root_tidy(1) [folded tree_files(2)] path_facts(2,4) tree_geometry(5) tree_dirs_ok [folded tree_files(2)]
      tree_paths(3) [folded tree_files(2)] tree_paths(4) [folded tree_geometry(4) tree_files(2)] path_facts(8)
      err [folded tree_files(2)] m tree_files(1) new, of None]
  from opens show ?thesis
    by (elim ex_forward) (auto split: sum.splits)
qed

lemma or_and_self: "(x OR y) AND y = (y :: 'a :: len word)"
  by (rule bit_word_eqI) (auto simp: bit_simps)

text \<open>C9: functional. Closing a file that was written to returns success, puts its size, its first cluster, the time and
  the archive flag into its entry, whose name and place stay, as those of all other entries do, leaves the medium up to date and takes the
  file out of the list of open files.\<close>

theorem close_records_file:
  assumes "files_ok s (xs @ a # ys)" and "fs_files s a = Some fl" and "f_write fl" and "f_modified fl"
    and "area_ok med (fs_part s) area" and "tidy env (dir_content (pview med (fs_part s)) (fs_part s) area) items tail"
    and "k < length (listing env items)" and "f_dirEntryEnd fl = de_dataEnd (listing env items ! k)"
    and "p_filesysType (fs_part s) = FS_FAT32 \<or> f_startCluster fl < 0x10000"
  shows "\<exists>p' s' d. FAT_close_r rtc a s = Some (None, s') \<and> closed a (xs @ ys) p' s' \<and>
    entry_synced med env (fs_part s) area (listing env items) k d p' \<and>
    u8array_to_u32 d DIR_ENTRY_fileSize = f_filesize fl \<and> FAT_directory_entryGetCluster (fs_part s) d = f_startCluster fl \<and>
    d ! DIR_ENTRY_attributes AND ATTRIB_ARCH \<noteq> 0 \<and> take 11 d = take 11 (de_entryData (listing env items ! k))"
proof -
  define e where "e = de_entryData (listing env items ! k)"
  note data = listing_data [OF assms(5-7), folded e_def]
  have "sync_entry rtc fl e ! DIR_ENTRY_attributes AND ATTRIB_ARCH \<noteq> 0"
    unfolding sync_entry_attributes [OF data(1)] or_and_self by (simp add: ATTRIB_ARCH_def)
  moreover have "take 11 (sync_entry rtc fl e) = take 11 e"
    using sync_entry_same(1) [OF data] by (simp add: same_short_name_def)
  moreover obtain p' s' where "FAT_close_r rtc a s = Some (None, s')" "closed a (xs @ ys) p' s'"
    "entry_synced med env (fs_part s) area (listing env items) k (sync_entry rtc fl e) p'"
    using close_written_spec [OF assms(1-8), of rtc] unfolding e_def by blast
  ultimately show ?thesis
    using sync_entry_values(1) [OF data(1)] sync_entry_cluster [OF data(1) assms(9)] unfolding e_def [symmetric]
    by (intro exI [of _ p'] exI [of _ s'] exI [of _ "sync_entry rtc fl e"] conjI) assumption+
qed

theorem close_records_file_witness:
  "\<exists>s' d p'. FAT_close_r None 0 tree_fs = Some (None, s') \<and> files_ok s' [] \<and>
    entry_synced med64 c_locale tree_part Root tree_root_list 0 d p' \<and> u8array_to_u32 d DIR_ENTRY_fileSize = 4"
proof -
  have fo: "files_ok tree_fs ([] @ 0 # [])" using tree_files(1) by simp
  have w: "f_write tree_file" "f_modified tree_file" by (simp_all add: tree_file_def)
  have k: "0 < length (listing c_locale tree_root_items)" unfolding tree_root_tidy(2) by (simp add: tree_root_list_def)
  have pos: "f_dirEntryEnd tree_file = de_dataEnd (listing c_locale tree_root_items ! 0)" unfolding tree_root_tidy(2)
    by (simp add: tree_root_list_def tree_file_def file_entry_def dot_entry_def)
  have c: "p_filesysType (fs_part tree_fs) = FS_FAT32 \<or> f_startCluster tree_file < 0x10000" by (simp add: tree_file_def)
  from close_records_file [OF fo tree_files(3) w dir_invD(1) [OF tree_areas(1), folded tree_files(2)] tree_root_tidy(1) [folded tree_files(2)]
      k pos c, of None]
  show ?thesis unfolding tree_root_tidy(2) tree_files(2) closed_def by (auto simp: tree_file_def)
qed

text \<open>C17: type. The list of open files stays a well formed doubly linked list of distinct files in use, with the right head and the right count, through any
  sequence of opens, closes (whatever their results), uses of files that keep their links, and changes of the volume.\<close>

theorem open_list_stays_linked:
  assumes "list_step\<^sup>*\<^sup>* (s, as) (s', as')" and "files_ok s as"
  shows "files_ok s' as'"
  using list_steps_ok [OF assms(1)] assms(2) by simp

theorem open_list_stays_linked_witness:
  "\<exists>s1 s2 r. link_file 1 (tree_file\<lparr>f_write := False\<rparr>) tree_fs = Some s1 \<and> FAT_close_r None 1 s1 = Some (r, s2) \<and> files_ok s2 [0]"
proof -
  let ?f = "tree_file\<lparr>f_write := False\<rparr>"
  have new: "(1 :: nat) \<notin> set [0]" and use: "f_inUse ?f" by (simp_all add: tree_file_def)
  obtain s1 where s1: "link_file 1 ?f tree_fs = Some s1" "files_ok s1 (1 # [0])"
    "fs_files s1 1 = Some (?f\<lparr>f_nextOpenFile := p_firstOpenFile (fs_part tree_fs), f_prevOpenFile := None\<rparr>)"
    by (rule link_file_spec [OF tree_files(1) new use])
  let ?g = "?f\<lparr>f_nextOpenFile := p_firstOpenFile (fs_part tree_fs), f_prevOpenFile := None\<rparr>"
  have fo: "files_ok s1 ([] @ 1 # [0])" using s1(2) by simp
  obtain s2 where s2: "FAT_close_r None 1 s1 = Some (None, s2)"
    by (rule close_spec [OF fo s1(3), where ret = None and file' = ?g and p' = "fs_part s1"])
      (simp_all add: same_links_def same_part_refl)
  have steps: "list_step\<^sup>*\<^sup>* (tree_fs, [0]) (s2, remove1 1 (1 # [0]))"
  proof (rule converse_rtranclp_into_rtranclp)
    show "list_step (tree_fs, [0]) (s1, 1 # [0])" by (rule opened [OF new use s1(1)])
    show "list_step\<^sup>*\<^sup>* (s1, 1 # [0]) (s2, remove1 1 (1 # [0]))" by (rule r_into_rtranclp, rule closed [OF _ s2]) simp
  qed
  from open_list_stays_linked [OF steps tree_files(1)] s1(1) s2 show ?thesis by auto
qed

section \<open>A file over its life\<close>

text \<open>C1: roundtrip. What has been written to an open file is there when the file has been closed and is opened again by its path: a
  read of the whole file returns its old bytes with the written ones in their place, and the file is as long as the write has made it.
  The write stored all its bytes, and with the size of the file stays a cluster below 4 GiB; the locale is \<open>C\<close>.\<close>

theorem written_data_persists:
  assumes "files_ok s (as @ a # bs)" and "fs_files s a = Some fl" and "writable_file med (fs_part s) xs cs ys fl"
    and "0 < unat len" and "unat len \<le> length src" and "unat len + unat (f_filesize fl) + bpc (fs_part s) < 2 ^ 32"
    and "FAT_write_r fl (fs_part s) src len = Some ((Some len, None), fl1, p1)"
    and "dirs_in med (xs @ ys) (fs_part s) dirs" and "area_ok med (fs_part s) area" and "set (area_chains area) \<subseteq> set (xs @ ys)"
    and "tidy c_locale (dir_content (pview med (fs_part s)) (fs_part s) area) items tail"
    and "dirs (area_start area) = Some (listing c_locale items)" and "k < length (listing c_locale items)"
    and "f_dirEntryEnd fl = de_dataEnd (listing c_locale items ! k)" and "\<not> FAT_directory_isDirectory (listing c_locale items ! k)"
    and "strip_device given = Some path" and "0 \<notin> set path" and "names_short (path_parts path)"
    and "resolve_path (fs_part s) dirs path (length path) = Some (Some (listing c_locale items ! k))"
    and "b \<notin> set (as @ bs)"
  shows "\<exists>s2 s3 fl2 r. FAT_close_r rtc a (s\<lparr>fs_part := p1, fs_files := (fs_files s)(a \<mapsto> fl1)\<rparr>) = Some (None, s2) \<and>
    FAT_open_r c_locale malloc rtc2 True b given 0 s2 = Some (Inr b, s3) \<and> fs_files s3 b = Some fl2 \<and>
    FAT_read_r fl2 (fs_part s3) (f_filesize fl1) =
      Some ((Some (f_filesize fl1), map Some (splice (file_bytes med (fs_part s) cs fl) (write_start_at fl) (take (unat len) src)), None), r)"
  by (rule file_reopened [OF assms])

lemma tree_writable: "writable_file med64 tree_part [] [3] [[2]] tree_file"
proof -
  have tab: "table_inv med64 tree_part ([] @ [3] # [[2]])"
    using tree_part_ok(1) tree_forest by (simp add: table_inv_def) (simp add: tree_part_def)
  show ?thesis using tree_part_ok(2) tab start_position [OF tree_part_ok(2), of "[3]"]
    by (simp add: writable_file_def tree_file_def write_start_at_def) (simp add: tree_part_def)
qed

lemma tree_file_bytes: "file_bytes med64 tree_part [3] tree_file = [1, 2, 3, 4]"
  unfolding file_bytes_def tree_view
  by (simp add: chain_bytes_def cluster_bytes_def sectors_of_def FAT_fat_clusterToSector_def CLUSTER_FIRST_def FAT16_ROOT_DIR_CLUSTER_def)
    (simp add: tree_part_def ram_med_def ram_tree_def tree_file_def)

text \<open>Two bytes over the first two of four, by the path \<open>/readme\<close>.\<close>

theorem written_data_persists_witness:
  "\<exists>fl1 p1 s2 s3 fl2 r. FAT_write_r tree_file tree_part [9, 9] 2 = Some ((Some 2, None), fl1, p1) \<and>
    FAT_close_r None 0 (tree_fs\<lparr>fs_part := p1, fs_files := (fs_files tree_fs)(0 \<mapsto> fl1)\<rparr>) = Some (None, s2) \<and>
    FAT_open_r c_locale (\<lambda>n. None) None True 0 readme_path 0 s2 = Some (Inr 0, s3) \<and> fs_files s3 0 = Some fl2 \<and>
    FAT_read_r fl2 (fs_part s3) (f_filesize fl1) = Some ((Some (f_filesize fl1), map Some [9, 9, 3, 4], None), r)"
proof -
  have geo: "bpc tree_part = 64" "unat (f_filesize tree_file) = 4" "write_start_at tree_file = 0"
    by (simp_all add: tree_part_def tree_file_def write_start_at_def)
  obtain fl1 p1 where run: "FAT_write_r tree_file tree_part [9, 9] 2 = Some ((Some 2, None), fl1, p1)"
  proof (rule write_r_writable [OF tree_writable, of 2 "[9, 9]"])
    fix ds p' m file' err
    assume r: "FAT_write_r tree_file tree_part [9, 9] 2 = Some ((Some m, err), file', p')"
      and g: "growing med64 tree_part [] [3] [[2]] ds p'"
      and out: "err = None \<and> m = 2 \<and> writable_file med64 p' [] ds [[2]] file' \<or>
        err = Some ENOSPC \<and> full med64 p' \<and> write_start_at tree_file + unat m = length ds * bpc tree_part \<and> unat m < unat (2 :: u32)"
    have "0 < length ds" using growingD(13) [OF g] by simp
    then have "err = None \<and> m = 2" using out by (auto simp: geo)
    with r show ?thesis by (intro that) simp
  qed (simp_all add: geo)
  have fo: "files_ok tree_fs ([] @ 0 # [])" using tree_files(1) by simp
  note tree = fo tree_files(3) tree_writable [folded tree_files(2)]
  have len: "0 < unat (2 :: u32)" "unat (2 :: u32) \<le> length [9, 9 :: u8]" "unat (2 :: u32) + unat (f_filesize tree_file) + bpc (fs_part tree_fs) < 2 ^ 32"
    by (simp_all add: geo tree_files(2))
  have dirs: "dirs_in med64 ([] @ [[2]]) (fs_part tree_fs) tree_dirs" using tree_dirs_in by (simp add: tree_files(2))
  have area: "set (area_chains Root) \<subseteq> set ([] @ [[2 :: u32]])" by (simp add: area_chains_def)
  have es: "tree_dirs (area_start Root) = Some (listing c_locale tree_root_items)" unfolding tree_root_tidy(2)
    by (simp add: tree_dirs_def area_start_def FAT16_ROOT_DIR_CLUSTER_def)
  have k: "0 < length (listing c_locale tree_root_items)" "f_dirEntryEnd tree_file = de_dataEnd (listing c_locale tree_root_items ! 0)"
    "\<not> FAT_directory_isDirectory (listing c_locale tree_root_items ! 0)"
    unfolding tree_root_tidy(2) by code_simp+
  have res: "resolve_path (fs_part tree_fs) tree_dirs readme_path (length readme_path) = Some (Some (listing c_locale tree_root_items ! 0))"
    unfolding tree_root_tidy(2) tree_files(2) tree_paths(2) by (simp add: tree_root_list_def)
  have new: "(0 :: nat) \<notin> set ([] @ [])" by simp
  have "splice (file_bytes med64 tree_part [3] tree_file) (write_start_at tree_file) (take (unat (2 :: u32)) [9, 9]) = [9, 9, 3, 4]"
    by (simp add: tree_file_bytes geo splice_def)
  with written_data_persists [OF tree len run [folded tree_files(2)] dirs dir_invD(1) [OF tree_areas(1), folded tree_files(2)] area
      tree_root_tidy(1) [folded tree_files(2)] es k path_facts(1,3,6) res new, of None "\<lambda>n. None" None] run
  show ?thesis by (auto simp: tree_files(2))
qed

end
