(* ===== verification/BenchDisc.thy ===== *)
theory BenchDisc
  imports Disc
begin

text \<open>
  The disc of the test bench, \<open>testbench/main.c\<close>: a driver over the bytes of an image file on the host, and with it the list of
  drivers that \<open>disc.c\<close> has for the modelled target.
\<close>

section \<open>Model\<close>

text \<open>\<open>bn_image\<close> is the image file, if it can be opened, and \<open>bn_fp\<close> what the program has opened. A read before
  the image is open passes a null pointer to the C library; it delivers nothing here. Behind the end of the image the buffer is
  left as it is, so fewer bytes than asked for are delivered; the result is true all the same.\<close>

record bench =
  bn_image :: "u8 list option"
  bn_fp :: "u8 list option"

definition dldiStartup :: "bench \<Rightarrow> bool \<times> bench" where
  "dldiStartup b = (True, b)"

definition dldiIsInserted :: "bench \<Rightarrow> bool \<times> bench" where
  "dldiIsInserted b = (bn_image b \<noteq> None, b\<lparr>bn_fp := bn_image b\<rparr>)"

text \<open>The product is one of two 32 bit numbers, widened only when it is stored.\<close>

definition dldi_offset :: "sec_t \<Rightarrow> 64 word" where
  "dldi_offset sector = ucast (sector * 512)"

definition dldiReadSectors :: "bench \<Rightarrow> sec_t \<Rightarrow> u32 \<Rightarrow> bool \<times> u8 list \<times> bench" where
  "dldiReadSectors b sector numSectors =
    (True, (case bn_fp b of None \<Rightarrow> []
      | Some bytes \<Rightarrow> take (512 * unat numSectors) (drop (unat (dldi_offset sector)) bytes)), b)"

definition dldiWriteSectors :: "bench \<Rightarrow> sec_t \<Rightarrow> u32 \<Rightarrow> u8 list \<Rightarrow> bool \<times> bench" where
  "dldiWriteSectors b sector numSectors buffer = (True, b)"

definition dldiClearStatus :: "bench \<Rightarrow> bool \<times> bench" where
  "dldiClearStatus b = (True, b)"

definition dldiShutdown :: "bench \<Rightarrow> bool \<times> bench" where
  "dldiShutdown b = (True, b)"

definition dldi :: "bench disc_interface" where
  "dldi = \<lparr>ioType = 0, features = 0, startup = dldiStartup, isInserted = dldiIsInserted, readSectors = dldiReadSectors,
     writeSectors = dldiWriteSectors, clearStatus = dldiClearStatus, shutdown = dldiShutdown\<rparr>"

definition get_io_dsisd :: "bench disc_interface option" where
  "get_io_dsisd = None"

definition dldiGetInternal :: "bench disc_interface option" where
  "dldiGetInternal = Some dldi"

text \<open>The names \<open>sd\<close> and \<open>fat\<close>, each with what its function returns.\<close>

definition FAT_disc_interfaces :: "(u8 list \<times> bench disc_interface option) list" where
  "FAT_disc_interfaces = [([0x73, 0x64], get_io_dsisd), ([0x66, 0x61, 0x74], dldiGetInternal)]"

section \<open>Reads and writes\<close>

lemma unat_dldi_offset: "unat s < 2 ^ 23 \<Longrightarrow> unat (dldi_offset s) = 512 * unat s"
  by (simp add: dldi_offset_def unsigned_ucast_eq unsigned_take_bit_eq unat_word_ariths take_bit_nat_eq_self)

text \<open>Inside the image and its first 4 GiB a read delivers the bytes of the sectors.\<close>

lemma sectors_of_slices:
  assumes "unat s + k \<le> 2 ^ 23"
  shows "sectors_of (\<lambda>t. slice bytes (512 * unat t) 512) s k = slice bytes (512 * unat s) (512 * k)"
  using assms
proof (induction k)
  case (Suc k)
  have "unat (s + of_nat k) = unat s + k" using Suc.prems by (intro unat_offset) simp
  then show ?case
    using Suc slice_add [of bytes "512 * unat s" "512 * k" 512] by (simp add: sectors_of_Suc algebra_simps)
qed (simp add: slice_def)

lemma dldi_reads_image:
  assumes "bn_fp b = Some bytes" and "unat s + unat n \<le> 2 ^ 23" and "0 < unat n"
  shows "FAT_disc_readSectors dldi b s n = (True, sectors_of (\<lambda>t. slice bytes (512 * unat t) 512) s (unat n), b)"
proof -
  have "unat (dldi_offset s) = 512 * unat s" using assms(2,3) by (intro unat_dldi_offset) simp
  then show ?thesis
    unfolding sectors_of_slices [OF assms(2)] using assms(1)
    by (simp add: FAT_disc_readSectors_def dldi_def dldiReadSectors_def slice_def)
qed

text \<open>From sector \<open>2 ^ 23\<close> on the offset starts again at the first sector.\<close>

lemma dldi_wraps: "FAT_disc_readSectors dldi b (s + 0x800000) n = FAT_disc_readSectors dldi b s n"
proof -
  have "(s + 0x800000) * 512 = s * (512 :: u32)" by (simp add: distrib_right)
  then have "dldi_offset (s + 0x800000) = dldi_offset s" unfolding dldi_offset_def by (rule arg_cong)
  then show ?thesis unfolding FAT_disc_readSectors_def dldi_def disc_interface.simps dldiReadSectors_def by (simp only:)
qed

text \<open>A write reports success and is lost, so the driver is none the library can write through.\<close>

lemma dldi_loses_writes: "FAT_disc_writeSectors dldi b s n buffer = (True, b)"
  by (simp add: FAT_disc_writeSectors_def dldi_def dldiWriteSectors_def)

lemma dldi_not_ok: "\<not> disc_ok dldi med 512"
proof
  assume ok: "disc_ok dldi med 512"
  have "med b 0 = slice buf 0 512" if "length buf = 512" for b buf
    using disc_write(2) [OF ok dldi_loses_writes [unfolded FAT_disc_writeSectors_def, of b 0 1 buf], of 0] that by simp
  from this [of "replicate 512 0"] this [of "replicate 512 1"] show False by (simp add: slice_def)
qed

end
