(* ===== verification/Spec2Isabelle.thy ===== *)
theory Spec2Isabelle
  imports CacheTheorems FatTheorems FileTheorems WriteTheorems DirTheorems MountTheorems WorkTheorems WcTheorems
    NameTheorems BenchDisc
begin

text \<open>
  A verification library of libfat, the FAT12, FAT16 and FAT32 file system library for small
  systems (directory \<open>source/\<close>). The model is that of a 32 bit target: \<open>unsigned int\<close>,
  \<open>sec_t\<close>, \<open>size_t\<close> and \<open>off_t\<close> are 32 bit words and the locks are empty.

  The program and its model, bottom up:

  \<^item> \<open>disc.h\<close>: the driver of the medium, a record of functions over a private state (theory
    \<open>Disc\<close>). The driver is not part of the library; the predicates \<open>disc_ok\<close>, \<open>disc_reliable\<close> and
    \<open>disc_quiet\<close> state what a theorem expects of it. \<open>RamDisc\<close> has a disc in memory that meets
    all three, and partitions on it, to which the properties are applied. \<open>BenchDisc\<close> is the driver of the test bench
    (\<open>main.c\<close>) over an image file, which does not: its writes are lost, and its reads wrap at 4 GiB.
  \<^item> \<open>bit_ops.h\<close>: little endian numbers in byte arrays (\<open>BitOps\<close>).
  \<^item> \<open>cache.c\<close>: a cache of pages of sectors with write-back and replacement of the least recently
    used page (\<open>Cache\<close>). \<open>CacheSpec\<close> has its invariant \<open>cache_inv\<close> and its abstraction
    \<open>cview\<close>, the sectors as the cache shows them; \<open>CacheSpec\<close> and \<open>CacheRuns\<close> prove every
    operation against them, failing drivers included; \<open>CacheTrace\<close> proves that any sequence of
    operations behaves like an array of sectors.
  \<^item> \<open>SectorStore\<close> is the interface between the cache and its clients: the locales
    \<open>sector_store\<close>, \<open>value_store\<close> and \<open>run_store\<close>, interpreted by the cache.
  \<^item> \<open>partition.h\<close> and \<open>file_allocation_table.c\<close>: the partition record and the table of links
    between clusters (\<open>Fat\<close>). \<open>FatSpec\<close> decodes the table from the sectors (\<open>fat_table\<close>) and
    proves reading and writing of one entry for the three formats; \<open>FatChains\<close> has the
    interface \<open>cluster_table\<close>, interpreted by the table, and the chains of clusters; \<open>FatAlloc\<close>
    proves allocating, cutting and releasing; \<open>FatForest\<close> the invariant of all chains of a
    partition under any sequence of such steps.
  \<^item> \<open>filetime.c\<close>: time stamps (\<open>FileTime\<close>).
  \<^item> \<open>partition.c\<close>: finding and mounting a partition, the FS information sector (\<open>Partition\<close>).
  \<^item> \<open>directory.c\<close>: names and directory entries (\<open>Directory\<close>), path lookup and the creation and
    removal of entries (\<open>DirectoryOps\<close>), over the C library's multibyte functions as a
    parameter (\<open>char_env\<close>). \<open>DirWalk\<close> and \<open>DirScan\<close> see a directory as the list of its slots and prove
    stepping, listing and searching; \<open>DirNames\<close> and \<open>DirAlias\<close> treat long and short names (the latter in the
    \<open>C\<close> locale); \<open>DirWrite\<close> and \<open>DirGrow\<close> writing slots and adding clusters; \<open>DirTidy\<close> the invariant of a
    directory; \<open>DirGap\<close>, \<open>DirAdd\<close>, \<open>DirFound\<close> and \<open>DirRemove\<close> the search for room, the creation, the
    lookup and the removal of an entry; \<open>PathWalk\<close> the walk along a path against the resolution of its parts over the
    listings of the directories. \<open>DirDisc\<close> and \<open>TreeDisc\<close> are volumes with directories to apply them to.
  \<^item> \<open>fatfile.c\<close>: reading and writing (\<open>File\<close>); opening, closing, seeking, truncating and syncing,
    with the list of open files as a heap of file records (\<open>OpenFiles\<close>). \<open>FileData\<close> states what
    the bytes of a file are, as a view of the table and the sectors; \<open>FileRead\<close> and \<open>FileSeek\<close> prove
    reading and seeking, \<open>FileUpdate\<close> writing inside the file, \<open>FileGrow\<close> and \<open>FileWrite\<close> writing past
    its end, where clusters are allocated on the way. \<open>FileList\<close> treats the list of open files as a doubly linked list in the
    heap, \<open>FileSync\<close> writing the entry of a file back and closing it, \<open>FileOpen\<close> opening an existing file and the errors
    of an open, \<open>FileNew\<close> opening a new one, \<open>FileLife\<close> the list over a sequence of such steps,
    \<open>FileReopen\<close> a write, the close behind it and a new open by path, which reads what was written.
  \<^item> \<open>fatdir.c\<close>: the calls on directories and names: \<open>stat\<close>, \<open>unlink\<close>, \<open>chdir\<close>, \<open>rename\<close>, \<open>mkdir\<close>,
    \<open>rmdir\<close>, \<open>statvfs\<close>, the directory iterators and the volume label (\<open>DirCalls\<close>). \<open>NameCalls\<close> composes the walk along the path with the
    release of the chain and the removal of the entry to \<open>unlink\<close> and \<open>rmdir\<close>; \<open>DirMake\<close> does so for \<open>mkdir\<close>, and \<open>DirRename\<close> for
    \<open>rename\<close> within one directory.
  \<^item> \<open>iosupport.c\<close> and \<open>libfat.c\<close>: the table of devices and the calls that mount and unmount a
    partition under a name (\<open>Devices\<close>). \<open>MountSpec\<close> proves that mounting a well-formed volume
    establishes the invariants the theorems on the table and the files assume.
  \<^item> \<open>chdir.c\<close>: the working directory of the process as a path in a buffer (\<open>WorkDir\<close>); \<open>WorkDirSpec\<close>
    shows that adding a path in place resolves its components.
  \<^item> \<open>wcfat.c\<close>: a second, read only implementation for a desktop system with 16 bit \<open>wchar_t\<close>, 32 bit
    \<open>long\<close> and unsigned \<open>char\<close>: text conversion (\<open>WcText\<close>), the volume and its table (\<open>WcVolume\<close>),
    directories (\<open>WcDir\<close>), files (\<open>WcFile\<close>). \<open>WcTextSpec\<close>, \<open>WcVolumeSpec\<close>, \<open>WcFileSpec\<close> and
    \<open>WcReadSpec\<close> prove them, among others against the same table of links as the library; its block
    reads assume clusters of 64 sectors, as the code does.

  Names follow the C functions without their leading underscore; a loop of a C function is a
  definition of its own behind the function's name. Every operation returns its C result with
  the new state, or \<open>None\<close> where the C code has no defined outcome: an access outside a memory
  block, an undefined value, a signed overflow, a division by zero or a loop that never ends. The one exception is the
  shift to the left of a signed index in \<open>proceed_idx\<close>, which is modelled as the compilers document it, as a shift of the bits. Loops that may not end
  are \<open>partial_function (option)\<close>, so there is no fuel; that they end is part of what the
  theorems state. The order of the operands of a bit operation and the width of each variable are
  those of the source. All operations are executable: \<open>code_simp\<close> and the code generator evaluate
  them on a concrete disc.

  Properties are in \<open>CacheTheorems\<close>, \<open>FatTheorems\<close>, \<open>FileTheorems\<close>, \<open>WriteTheorems\<close>,
  \<open>DirTheorems\<close>, \<open>NameTheorems\<close>, \<open>MountTheorems\<close>, \<open>WorkTheorems\<close> and \<open>WcTheorems\<close>; one with hypotheses is followed by a witness that applies it to
  the disc in memory.

  Not modelled: the locks (\<open>lock.h\<close>, empty on the modelled target), the allocator wrappers
  (\<open>mem_allocate.h\<close>; whether an allocation succeeds is a parameter of the operation), the lists of
  drivers that \<open>disc.c\<close> has for other platforms, and \<open>main\<close> of the test bench, which reads some files of one image.
\<close>

end
